(* ===== verification/FrtPrelude.thy ===== *)
theory FrtPrelude
  imports Main "HOL-Library.Word" "HOL-Library.Multiset"
begin

unbundle bit_operations_syntax

text \<open>
  The vocabulary the component theories share: bytes and machine words, the exception codes
  of \<open>frt_except.h\<close> as values of a sum type, sequencing of fallible steps, and the
  list facts about writing at a position of a file.

  \<^item> \<open>frt_error\<close>: the codes of \<open>frt_except.h\<close>, one constructor per code that the modelled
    files raise, and \<open>UndefinedBehaviour\<close> for a step the C standard gives no meaning (a read
    outside an array, a shift by the width). The theorems show where it cannot arise.
  \<^item> \<open>ebind\<close>: run a step, then the next one unless it raised.
  \<^item> \<open>write_at\<close>: what a file holds after bytes are written at a position.
\<close>

section \<open>Types shared by the components\<close>

type_synonym byte = "8 word"
type_synonym u32 = "32 word"
type_synonym u64 = "64 word"

datatype frt_error =
    FRT_EXCEPTION
  | FRT_IO_ERROR
  | FRT_FILE_NOT_FOUND_ERROR
  | FRT_ARG_ERROR
  | FRT_EOF_ERROR
  | FRT_UNSUPPORTED_ERROR
  | FRT_STATE_ERROR
  | FRT_INDEX_ERROR
  | FRT_LOCK_ERROR
  | UndefinedBehaviour

type_synonym 'a res = "frt_error + 'a"

definition ebind :: "'a res \<Rightarrow> ('a \<Rightarrow> 'b res) \<Rightarrow> 'b res" where
  "ebind r k = (case r of Inl e \<Rightarrow> Inl e | Inr x \<Rightarrow> k x)"

lemma ebind_simps [simp]:
  "ebind (Inl e) k = Inl e"
  "ebind (Inr x) k = k x"
  by (simp_all add: ebind_def)

lemma ebind_cong [fundef_cong]:
  "r = r' \<Longrightarrow> (\<And>x. r' = Inr x \<Longrightarrow> k x = k' x) \<Longrightarrow> ebind r k = ebind r' k'"
  by (cases r') auto

lemma ebind_eq_Inr: "ebind r k = Inr y \<longleftrightarrow> (\<exists>x. r = Inr x \<and> k x = Inr y)"
  by (cases r) auto

lemma ebind_assoc: "ebind (ebind r f) g = ebind r (\<lambda>x. ebind (f x) g)"
  by (cases r) auto

section \<open>Writing at a position\<close>

definition write_at :: "'a list \<Rightarrow> nat \<Rightarrow> 'a list \<Rightarrow> 'a list" where
  "write_at bs p xs = take p bs @ xs @ drop (p + length xs) bs"

lemma write_at_Nil [simp]: "write_at bs p [] = bs"
  by (simp add: write_at_def)

lemma length_write_at:
  "p \<le> length bs \<Longrightarrow> length (write_at bs p xs) = max (length bs) (p + length xs)"
  by (simp add: write_at_def)

lemma write_at_end [simp]: "write_at bs (length bs) xs = bs @ xs"
  by (simp add: write_at_def)

lemma write_at_empty [simp]: "write_at [] 0 xs = xs"
  by (simp add: write_at_def)

lemma take_write_at: "p \<le> length bs \<Longrightarrow> take p (write_at bs p xs) = take p bs"
  by (simp add: write_at_def)

lemma take_write_at2:
  "p \<le> length bs \<Longrightarrow> take (p + length xs) (write_at bs p xs) = take p bs @ xs"
  by (simp add: write_at_def)

lemma write_at_write_at:
  assumes "p \<le> length bs"
  shows "write_at (write_at bs p xs) (p + length xs) ys = write_at bs p (xs @ ys)"
proof -
  have "drop (p + length xs + length ys) (write_at bs p xs) = drop (p + length xs + length ys) bs"
    using assms by (simp add: write_at_def add.commute add.left_commute)
  then show ?thesis
    using assms by (simp add: write_at_def add.assoc)
qed

lemma write_at_append: "p + length ys \<le> length xs \<Longrightarrow> write_at (xs @ zs) p ys = write_at xs p ys @ zs"
  by (simp add: write_at_def)

lemma write_at_middle:
  "length ys = length ys' \<Longrightarrow> write_at (xs @ ys @ zs) (length xs) ys' = xs @ ys' @ zs"
  by (simp add: write_at_def)

section \<open>Slices\<close>

lemma nth_drop_Cons: "p < length bs \<Longrightarrow> drop p bs = bs ! p # drop (Suc p) bs"
  by (rule Cons_nth_drop_Suc [symmetric])

lemma take_drop_append: "take m (drop p bs) @ take n (drop (p + m) bs) = take (m + n) (drop p bs)"
  by (simp add: take_add add.commute)

lemma nth_take_drop: "i < m \<Longrightarrow> p + m \<le> length bs \<Longrightarrow> take m (drop p bs) ! i = bs ! (p + i)"
  by simp

section \<open>Searching a list\<close>

lemma find_append: "find P (xs @ ys) = (case find P xs of None \<Rightarrow> find P ys | Some x \<Rightarrow> Some x)"
  by (induction xs) auto

lemma find_key_None: "find (\<lambda>x. f x = n) xs = None \<longleftrightarrow> n \<notin> f ` set xs"
  by (induction xs) auto

end
