(* ===== verification/FrtStream.thy ===== *)
theory FrtStream
  imports FrtPrelude
begin

unbundle bit_operations_syntax

text \<open>
  The buffered streams of \<open>frt_store.c\<close> and \<open>frt_store.h\<close>.

  \<^item> \<open>outstream\<close> is \<open>FrtOutStream\<close>: \<open>os_buf\<close> holds the bytes \<open>buf.buf[0 .. buf.pos)\<close> (the rest of
    the array is never read, so \<open>buf.pos\<close> is its length), \<open>os_start\<close> is \<open>buf.start\<close> and
    \<open>os_file\<close> the store specific part of the struct (\<open>file\<close>, \<open>pointer\<close>).
  \<^item> \<open>instream\<close> is \<open>FrtInStream\<close>: \<open>is_buf\<close> holds \<open>buf.buf[0 .. buf.len)\<close>, \<open>is_start\<close>, \<open>is_pos\<close> and
    \<open>is_len\<close> are the other fields of \<open>FrtBuffer\<close>, \<open>is_file\<close> is \<open>f\<close> with the union \<open>d\<close>.
  \<^item> \<open>os_methods\<close> and \<open>is_methods\<close> are the method tables \<open>FrtOutStreamMethods\<close> and
    \<open>FrtInStreamMethods\<close>. An output method works on the state \<open>'w\<close> of the store; \<open>read_i\<close> gets the
    stream's logical position as well, since the compound store's \<open>read_i\<close> asks the stream for it.
  \<^item> A raised exception is \<open>Inl\<close>; it ends the operation and the stream is not used after it.
  \<^item> \<open>frt_off_t\<close> and \<open>int\<close> are mathematical integers (offsets stay far below \<open>2 ^ 63\<close>); the values that
    are encoded into bytes keep their width.

  The locales \<open>out_source\<close> and \<open>in_source\<close> state what a store's methods promise to this layer: they
  are interpreted by the RAM store and the compound store. Their lemmas say that the buffering is
  invisible: an output stream behaves as the file it will have written, an input stream as the
  bytes of its file.
\<close>

section \<open>Buffers and method tables\<close>

definition FRT_BUFFER_SIZE :: nat where
  "FRT_BUFFER_SIZE = 4096"

definition VINT_MAX_LEN :: nat where
  "VINT_MAX_LEN = 10"

definition VINT_END :: nat where
  "VINT_END = FRT_BUFFER_SIZE - VINT_MAX_LEN"

record 'f outstream =
  os_buf :: "byte list"
  os_start :: int
  os_file :: 'f

record ('f, 'w) os_methods =
  flush_i :: "'f \<Rightarrow> byte list \<Rightarrow> 'w \<Rightarrow> ('f \<times> 'w) res"
  seek_o :: "'f \<Rightarrow> int \<Rightarrow> 'w \<Rightarrow> ('f \<times> 'w) res"
  close_o :: "'f \<Rightarrow> 'w \<Rightarrow> 'w res"

record 'f instream =
  is_buf :: "byte list"
  is_start :: int
  is_pos :: int
  is_len :: int
  is_file :: 'f

record 'f is_methods =
  read_i :: "'f \<Rightarrow> int \<Rightarrow> int \<Rightarrow> (byte list \<times> 'f) res"
  seek_i :: "'f \<Rightarrow> int \<Rightarrow> 'f res"
  length_i :: "'f \<Rightarrow> int"

section \<open>Output streams\<close>

definition frt_os_new :: "'f \<Rightarrow> 'f outstream" where
  "frt_os_new f = \<lparr>os_buf = [], os_start = 0, os_file = f\<rparr>"

definition frt_os_flush ::
  "('f, 'w) os_methods \<Rightarrow> 'f outstream \<Rightarrow> 'w \<Rightarrow> ('f outstream \<times> 'w) res" where
  "frt_os_flush m os w =
     ebind (flush_i m (os_file os) (os_buf os) w)
       (\<lambda>(f, w'). Inr (os\<lparr>os_file := f, os_start := os_start os + int (length (os_buf os)), os_buf := []\<rparr>, w'))"

definition frt_os_close :: "('f, 'w) os_methods \<Rightarrow> 'f outstream \<Rightarrow> 'w \<Rightarrow> 'w res" where
  "frt_os_close m os w = ebind (frt_os_flush m os w) (\<lambda>(os', w'). close_o m (os_file os') w')"

definition frt_os_pos :: "'f outstream \<Rightarrow> int" where
  "frt_os_pos os = os_start os + int (length (os_buf os))"

definition frt_os_seek ::
  "('f, 'w) os_methods \<Rightarrow> 'f outstream \<Rightarrow> int \<Rightarrow> 'w \<Rightarrow> ('f outstream \<times> 'w) res" where
  "frt_os_seek m os new_pos w =
     ebind (frt_os_flush m os w) (\<lambda>(os', w').
       ebind (seek_o m (os_file os') new_pos w') (\<lambda>(f, w'').
         Inr (os'\<lparr>os_start := new_pos, os_file := f\<rparr>, w'')))"

text \<open>The macro \<open>write_byte\<close>: storing past the end of the buffer array is undefined.\<close>

definition write_byte :: "'f outstream \<Rightarrow> byte \<Rightarrow> 'f outstream res" where
  "write_byte os b =
     (if length (os_buf os) < FRT_BUFFER_SIZE then Inr (os\<lparr>os_buf := os_buf os @ [b]\<rparr>)
      else Inl UndefinedBehaviour)"

definition frt_os_write_byte ::
  "('f, 'w) os_methods \<Rightarrow> 'f outstream \<Rightarrow> byte \<Rightarrow> 'w \<Rightarrow> ('f outstream \<times> 'w) res" where
  "frt_os_write_byte m os b w =
     ebind (if length (os_buf os) \<ge> FRT_BUFFER_SIZE - 1 then frt_os_flush m os w else Inr (os, w))
       (\<lambda>(os', w'). ebind (write_byte os' b) (\<lambda>os''. Inr (os'', w')))"

text \<open>The loop of \<open>frt_os_write_bytes\<close> for data that does not fit: whole buffers go straight to the file.\<close>

function os_write_chunks ::
  "('f, 'w) os_methods \<Rightarrow> 'f outstream \<Rightarrow> byte list \<Rightarrow> 'w \<Rightarrow> ('f outstream \<times> 'w) res" where
  "os_write_chunks m os buf w =
     (if buf = [] then Inr (os, w)
      else let size = (if length buf < FRT_BUFFER_SIZE then length buf else FRT_BUFFER_SIZE) in
        ebind (flush_i m (os_file os) (take size buf) w) (\<lambda>(f, w').
          os_write_chunks m (os\<lparr>os_file := f, os_start := os_start os + int size\<rparr>) (drop size buf) w'))"
  by pat_completeness auto
termination
  by (relation "measure (\<lambda>(m, os, buf, w). length buf)") (auto simp: FRT_BUFFER_SIZE_def)

declare os_write_chunks.simps [simp del]

definition frt_os_write_bytes ::
  "('f, 'w) os_methods \<Rightarrow> 'f outstream \<Rightarrow> byte list \<Rightarrow> 'w \<Rightarrow> ('f outstream \<times> 'w) res" where
  "frt_os_write_bytes m os buf w =
     (if int (length buf) < int FRT_BUFFER_SIZE - int (length (os_buf os))
      then Inr (os\<lparr>os_buf := os_buf os @ buf\<rparr>, w)
      else ebind (frt_os_flush m os w) (\<lambda>(os', w'). os_write_chunks m os' buf w'))"

subsection \<open>Fixed width integers, most significant byte first\<close>

definition frt_os_write_u32 ::
  "('f, 'w) os_methods \<Rightarrow> 'f outstream \<Rightarrow> u32 \<Rightarrow> 'w \<Rightarrow> ('f outstream \<times> 'w) res" where
  "frt_os_write_u32 m os num w =
     ebind (frt_os_write_byte m os (ucast (drop_bit 24 num AND 0xFF)) w) (\<lambda>(os, w).
     ebind (frt_os_write_byte m os (ucast (drop_bit 16 num AND 0xFF)) w) (\<lambda>(os, w).
     ebind (frt_os_write_byte m os (ucast (drop_bit 8 num AND 0xFF)) w) (\<lambda>(os, w).
     frt_os_write_byte m os (ucast (num AND 0xFF)) w)))"

definition frt_os_write_u64 ::
  "('f, 'w) os_methods \<Rightarrow> 'f outstream \<Rightarrow> u64 \<Rightarrow> 'w \<Rightarrow> ('f outstream \<times> 'w) res" where
  "frt_os_write_u64 m os num w =
     ebind (frt_os_write_byte m os (ucast (drop_bit 56 num AND 0xFF)) w) (\<lambda>(os, w).
     ebind (frt_os_write_byte m os (ucast (drop_bit 48 num AND 0xFF)) w) (\<lambda>(os, w).
     ebind (frt_os_write_byte m os (ucast (drop_bit 40 num AND 0xFF)) w) (\<lambda>(os, w).
     ebind (frt_os_write_byte m os (ucast (drop_bit 32 num AND 0xFF)) w) (\<lambda>(os, w).
     ebind (frt_os_write_byte m os (ucast (drop_bit 24 num AND 0xFF)) w) (\<lambda>(os, w).
     ebind (frt_os_write_byte m os (ucast (drop_bit 16 num AND 0xFF)) w) (\<lambda>(os, w).
     ebind (frt_os_write_byte m os (ucast (drop_bit 8 num AND 0xFF)) w) (\<lambda>(os, w).
     frt_os_write_byte m os (ucast (num AND 0xFF)) w)))))))"

text \<open>The signed writers: \<open>>>\<close> on a signed operand is the arithmetic shift.\<close>

definition frt_os_write_i32 ::
  "('f, 'w) os_methods \<Rightarrow> 'f outstream \<Rightarrow> u32 \<Rightarrow> 'w \<Rightarrow> ('f outstream \<times> 'w) res" where
  "frt_os_write_i32 m os num w =
     ebind (frt_os_write_byte m os (ucast (signed_drop_bit 24 num AND 0xFF)) w) (\<lambda>(os, w).
     ebind (frt_os_write_byte m os (ucast (signed_drop_bit 16 num AND 0xFF)) w) (\<lambda>(os, w).
     ebind (frt_os_write_byte m os (ucast (signed_drop_bit 8 num AND 0xFF)) w) (\<lambda>(os, w).
     frt_os_write_byte m os (ucast (num AND 0xFF)) w)))"

definition frt_os_write_i64 ::
  "('f, 'w) os_methods \<Rightarrow> 'f outstream \<Rightarrow> u64 \<Rightarrow> 'w \<Rightarrow> ('f outstream \<times> 'w) res" where
  "frt_os_write_i64 m os num w =
     ebind (frt_os_write_byte m os (ucast (signed_drop_bit 56 num AND 0xFF)) w) (\<lambda>(os, w).
     ebind (frt_os_write_byte m os (ucast (signed_drop_bit 48 num AND 0xFF)) w) (\<lambda>(os, w).
     ebind (frt_os_write_byte m os (ucast (signed_drop_bit 40 num AND 0xFF)) w) (\<lambda>(os, w).
     ebind (frt_os_write_byte m os (ucast (signed_drop_bit 32 num AND 0xFF)) w) (\<lambda>(os, w).
     ebind (frt_os_write_byte m os (ucast (signed_drop_bit 24 num AND 0xFF)) w) (\<lambda>(os, w).
     ebind (frt_os_write_byte m os (ucast (signed_drop_bit 16 num AND 0xFF)) w) (\<lambda>(os, w).
     ebind (frt_os_write_byte m os (ucast (signed_drop_bit 8 num AND 0xFF)) w) (\<lambda>(os, w).
     frt_os_write_byte m os (ucast (num AND 0xFF)) w)))))))"

subsection \<open>Variable length integers and strings\<close>

text \<open>
  The two branches of \<open>frt_os_write_vint\<close>, \<open>frt_os_write_vll\<close>: the checked loop when the buffer
  may fill up, the unchecked one when ten bytes are free. Both are the same code at 32 and 64 bits.
\<close>

lemma drop_bit_7_less:
  fixes num :: "'a::len word"
  assumes "127 < unat num"
  shows "unat (drop_bit 7 num) < unat num"
proof -
  have "unat (drop_bit 7 num) = unat num div 2 ^ 7"
    unfolding unat_drop_bit_eq by (rule drop_bit_eq_div)
  with assms show ?thesis by simp
qed

function os_write_v_checked ::
  "('f, 'w) os_methods \<Rightarrow> 'f outstream \<Rightarrow> 'a::len word \<Rightarrow> 'w \<Rightarrow> ('f outstream \<times> 'w) res" where
  "os_write_v_checked m os num w =
     (if unat num > 127 then
        ebind (frt_os_write_byte m os (ucast ((num AND 0x7F) OR 0x80)) w)
          (\<lambda>(os, w). os_write_v_checked m os (drop_bit 7 num) w)
      else frt_os_write_byte m os (ucast num) w)"
  by pat_completeness auto
termination
  by (relation "measure (\<lambda>(m, os, num, w). unat num)") (auto simp: drop_bit_7_less)

function os_write_v_unchecked :: "'f outstream \<Rightarrow> 'a::len word \<Rightarrow> 'f outstream res" where
  "os_write_v_unchecked os num =
     (if unat num > 127 then
        ebind (write_byte os (ucast ((num AND 0x7F) OR 0x80)))
          (\<lambda>os. os_write_v_unchecked os (drop_bit 7 num))
      else write_byte os (ucast num))"
  by pat_completeness auto
termination
  by (relation "measure (\<lambda>(os, num). unat num)") (auto simp: drop_bit_7_less)

declare os_write_v_checked.simps [simp del] os_write_v_unchecked.simps [simp del]

definition frt_os_write_vint ::
  "('f, 'w) os_methods \<Rightarrow> 'f outstream \<Rightarrow> u32 \<Rightarrow> 'w \<Rightarrow> ('f outstream \<times> 'w) res" where
  "frt_os_write_vint m os num w =
     (if length (os_buf os) > VINT_END then os_write_v_checked m os num w
      else ebind (os_write_v_unchecked os num) (\<lambda>os. Inr (os, w)))"

definition frt_os_write_vll ::
  "('f, 'w) os_methods \<Rightarrow> 'f outstream \<Rightarrow> u64 \<Rightarrow> 'w \<Rightarrow> ('f outstream \<times> 'w) res" where
  "frt_os_write_vll m os num w =
     (if length (os_buf os) > VINT_END then os_write_v_checked m os num w
      else ebind (os_write_v_unchecked os num) (\<lambda>os. Inr (os, w)))"

text \<open>\<open>frt_os_write_voff_t\<close> has the same loops over a signed \<open>frt_off_t\<close>: a negative number is one byte.\<close>

function os_write_off_checked ::
  "('f, 'w) os_methods \<Rightarrow> 'f outstream \<Rightarrow> int \<Rightarrow> 'w \<Rightarrow> ('f outstream \<times> 'w) res" where
  "os_write_off_checked m os num w =
     (if num > 127 then
        ebind (frt_os_write_byte m os (word_of_int ((num AND 0x7F) OR 0x80)) w)
          (\<lambda>(os, w). os_write_off_checked m os (drop_bit 7 num) w)
      else frt_os_write_byte m os (word_of_int num) w)"
  by pat_completeness auto
termination
  by (relation "measure (\<lambda>(m, os, num, w). nat num)") (auto simp: drop_bit_eq_div)

function os_write_off_unchecked :: "'f outstream \<Rightarrow> int \<Rightarrow> 'f outstream res" where
  "os_write_off_unchecked os num =
     (if num > 127 then
        ebind (write_byte os (word_of_int ((num AND 0x7F) OR 0x80)))
          (\<lambda>os. os_write_off_unchecked os (drop_bit 7 num))
      else write_byte os (word_of_int num))"
  by pat_completeness auto
termination
  by (relation "measure (\<lambda>(os, num). nat num)") (auto simp: drop_bit_eq_div)

declare os_write_off_checked.simps [simp del] os_write_off_unchecked.simps [simp del]

definition frt_os_write_voff_t ::
  "('f, 'w) os_methods \<Rightarrow> 'f outstream \<Rightarrow> int \<Rightarrow> 'w \<Rightarrow> ('f outstream \<times> 'w) res" where
  "frt_os_write_voff_t m os num w =
     (if length (os_buf os) > VINT_END then os_write_off_checked m os num w
      else ebind (os_write_off_unchecked os num) (\<lambda>os. Inr (os, w)))"

text \<open>A C string is the list of its bytes before the terminating NUL; \<open>len\<close> is the \<open>int\<close> of its length.\<close>

definition frt_os_write_string_len ::
  "('f, 'w) os_methods \<Rightarrow> 'f outstream \<Rightarrow> byte list \<Rightarrow> nat \<Rightarrow> 'w \<Rightarrow> ('f outstream \<times> 'w) res" where
  "frt_os_write_string_len m os str len w =
     ebind (frt_os_write_vint m os (of_nat len) w)
       (\<lambda>(os, w). frt_os_write_bytes m os (take len str) w)"

definition frt_os_write_string ::
  "('f, 'w) os_methods \<Rightarrow> 'f outstream \<Rightarrow> byte list \<Rightarrow> 'w \<Rightarrow> ('f outstream \<times> 'w) res" where
  "frt_os_write_string m os str w = frt_os_write_string_len m os str (length str) w"

section \<open>Input streams\<close>

definition frt_is_new :: "'f \<Rightarrow> 'f instream" where
  "frt_is_new f = \<lparr>is_buf = [], is_start = 0, is_pos = 0, is_len = 0, is_file = f\<rparr>"

definition frt_is_pos :: "'f instream \<Rightarrow> int" where
  "frt_is_pos is = is_start is + is_pos is"

definition is_refill :: "'f is_methods \<Rightarrow> 'f instream \<Rightarrow> 'f instream res" where
  "is_refill m is =
     (let start = is_start is + is_pos is;
          last = start + int FRT_BUFFER_SIZE;
          flen = length_i m (is_file is);
          last = (if last > flen then flen else last);
          len = last - start
      in if len \<le> 0 then Inl FRT_EOF_ERROR
         else ebind (read_i m (is_file is) (frt_is_pos is) len) (\<lambda>(bs, f).
           Inr (is\<lparr>is_buf := bs, is_start := start, is_pos := 0, is_len := len, is_file := f\<rparr>)))"

text \<open>The macro \<open>read_byte\<close>: reading outside the bytes the buffer holds is undefined.\<close>

definition read_byte :: "'f instream \<Rightarrow> (byte \<times> 'f instream) res" where
  "read_byte is =
     (if 0 \<le> is_pos is \<and> is_pos is < int (length (is_buf is))
      then Inr (is_buf is ! nat (is_pos is), is\<lparr>is_pos := is_pos is + 1\<rparr>)
      else Inl UndefinedBehaviour)"

definition frt_is_read_byte :: "'f is_methods \<Rightarrow> 'f instream \<Rightarrow> (byte \<times> 'f instream) res" where
  "frt_is_read_byte m is =
     ebind (if is_pos is \<ge> is_len is then is_refill m is else Inr is) read_byte"

text \<open>\<open>len\<close> calls of \<open>read_byte\<close>, the loop of \<open>frt_is_read_bytes\<close>.\<close>

fun read_byte_loop :: "'f instream \<Rightarrow> nat \<Rightarrow> (byte list \<times> 'f instream) res" where
  "read_byte_loop is 0 = Inr ([], is)"
| "read_byte_loop is (Suc n) =
     ebind (read_byte is) (\<lambda>(b, is). ebind (read_byte_loop is n) (\<lambda>(bs, is). Inr (b # bs, is)))"

definition frt_is_read_bytes ::
  "'f is_methods \<Rightarrow> 'f instream \<Rightarrow> nat \<Rightarrow> (byte list \<times> 'f instream) res" where
  "frt_is_read_bytes m is len =
     (if is_pos is + int len < is_len is then read_byte_loop is len
      else let start = frt_is_pos is in
        ebind (seek_i m (is_file is) start) (\<lambda>f.
        ebind (read_i m f start (int len)) (\<lambda>(bs, f).
          Inr (bs, is\<lparr>is_file := f, is_start := start + int len, is_pos := 0, is_len := 0, is_buf := []\<rparr>))))"

definition frt_is_seek :: "'f is_methods \<Rightarrow> 'f instream \<Rightarrow> int \<Rightarrow> 'f instream res" where
  "frt_is_seek m is pos =
     (if pos \<ge> is_start is \<and> pos < is_start is + is_len is
      then Inr (is\<lparr>is_pos := pos - is_start is\<rparr>)
      else ebind (seek_i m (is_file is) pos) (\<lambda>f.
        Inr (is\<lparr>is_start := pos, is_pos := 0, is_len := 0, is_buf := [], is_file := f\<rparr>)))"

subsection \<open>Fixed width integers\<close>

definition frt_is_read_u32 :: "'f is_methods \<Rightarrow> 'f instream \<Rightarrow> (u32 \<times> 'f instream) res" where
  "frt_is_read_u32 m is =
     ebind (frt_is_read_byte m is) (\<lambda>(b3, is).
     ebind (frt_is_read_byte m is) (\<lambda>(b2, is).
     ebind (frt_is_read_byte m is) (\<lambda>(b1, is).
     ebind (frt_is_read_byte m is) (\<lambda>(b0, is).
       Inr (push_bit 24 (ucast b3) OR push_bit 16 (ucast b2) OR push_bit 8 (ucast b1) OR ucast b0, is)))))"

definition frt_is_read_u64 :: "'f is_methods \<Rightarrow> 'f instream \<Rightarrow> (u64 \<times> 'f instream) res" where
  "frt_is_read_u64 m is =
     ebind (frt_is_read_byte m is) (\<lambda>(b7, is).
     ebind (frt_is_read_byte m is) (\<lambda>(b6, is).
     ebind (frt_is_read_byte m is) (\<lambda>(b5, is).
     ebind (frt_is_read_byte m is) (\<lambda>(b4, is).
     ebind (frt_is_read_byte m is) (\<lambda>(b3, is).
     ebind (frt_is_read_byte m is) (\<lambda>(b2, is).
     ebind (frt_is_read_byte m is) (\<lambda>(b1, is).
     ebind (frt_is_read_byte m is) (\<lambda>(b0, is).
       Inr (push_bit 56 (ucast b7) OR push_bit 48 (ucast b6) OR push_bit 40 (ucast b5) OR
            push_bit 32 (ucast b4) OR push_bit 24 (ucast b3) OR push_bit 16 (ucast b2) OR
            push_bit 8 (ucast b1) OR ucast b0, is)))))))))"

text \<open>
  The signed readers shift signed operands: the bits are the ones of the unsigned reader. (Shifting a
  byte of 128 or more into the sign bit is left to the compiler by the C standard; the model takes
  two's complement, as every supported compiler does.)
\<close>

definition frt_is_read_i32 :: "'f is_methods \<Rightarrow> 'f instream \<Rightarrow> (u32 \<times> 'f instream) res" where
  "frt_is_read_i32 m is =
     ebind (frt_is_read_byte m is) (\<lambda>(b3, is).
     ebind (frt_is_read_byte m is) (\<lambda>(b2, is).
     ebind (frt_is_read_byte m is) (\<lambda>(b1, is).
     ebind (frt_is_read_byte m is) (\<lambda>(b0, is).
       Inr (push_bit 24 (ucast b3) OR push_bit 16 (ucast b2) OR push_bit 8 (ucast b1) OR ucast b0, is)))))"

definition frt_is_read_i64 :: "'f is_methods \<Rightarrow> 'f instream \<Rightarrow> (u64 \<times> 'f instream) res" where
  "frt_is_read_i64 m is =
     ebind (frt_is_read_byte m is) (\<lambda>(b7, is).
     ebind (frt_is_read_byte m is) (\<lambda>(b6, is).
     ebind (frt_is_read_byte m is) (\<lambda>(b5, is).
     ebind (frt_is_read_byte m is) (\<lambda>(b4, is).
     ebind (frt_is_read_byte m is) (\<lambda>(b3, is).
     ebind (frt_is_read_byte m is) (\<lambda>(b2, is).
     ebind (frt_is_read_byte m is) (\<lambda>(b1, is).
     ebind (frt_is_read_byte m is) (\<lambda>(b0, is).
       Inr (push_bit 56 (ucast b7) OR push_bit 48 (ucast b6) OR push_bit 40 (ucast b5) OR
            push_bit 32 (ucast b4) OR push_bit 24 (ucast b3) OR push_bit 16 (ucast b2) OR
            push_bit 8 (ucast b1) OR ucast b0, is)))))))))"

subsection \<open>Variable length integers and strings\<close>

text \<open>
  The \<open>while ((b & 0x80) != 0)\<close> loops of \<open>frt_is_read_vint\<close>, \<open>frt_is_read_voff_t\<close> and
  \<open>frt_is_read_vll\<close>, with \<open>frt_is_read_byte\<close> (checked) or the macro \<open>read_byte\<close> (unchecked) as
  \<open>rd\<close>. A shift by the width of the result or more is undefined, so the loop ends there.
\<close>

function is_read_v_loop ::
  "('f instream \<Rightarrow> (byte \<times> 'f instream) res) \<Rightarrow> 'f instream \<Rightarrow> byte \<Rightarrow> 'a::len word \<Rightarrow> nat
     \<Rightarrow> ('a word \<times> 'f instream) res" where
  "is_read_v_loop rd is b res shift =
     (if b AND 0x80 \<noteq> 0 then
        ebind (rd is) (\<lambda>(b, is).
          if shift \<ge> LENGTH('a) then Inl UndefinedBehaviour
          else is_read_v_loop rd is b (res OR push_bit shift (ucast (b AND 0x7F))) (shift + 7))
      else Inr (res, is))"
  by pat_completeness auto
termination
  by (relation "measure (\<lambda>(rd, is, b, res, shift). size res + 7 - shift)") (auto simp: word_size)

declare is_read_v_loop.simps [simp del]

definition is_read_v ::
  "('f instream \<Rightarrow> (byte \<times> 'f instream) res) \<Rightarrow> 'f instream \<Rightarrow> ('a::len word \<times> 'f instream) res" where
  "is_read_v rd is =
     ebind (rd is) (\<lambda>(b, is). is_read_v_loop rd is b (ucast (b AND 0x7F)) 7)"

definition frt_is_read_vint :: "'f is_methods \<Rightarrow> 'f instream \<Rightarrow> (u32 \<times> 'f instream) res" where
  "frt_is_read_vint m is =
     (if is_pos is > is_len is - int VINT_MAX_LEN then is_read_v (frt_is_read_byte m) is
      else is_read_v read_byte is)"

definition frt_is_read_vll :: "'f is_methods \<Rightarrow> 'f instream \<Rightarrow> (u64 \<times> 'f instream) res" where
  "frt_is_read_vll m is =
     (if is_pos is > is_len is - int VINT_MAX_LEN then is_read_v (frt_is_read_byte m) is
      else is_read_v read_byte is)"

definition frt_is_read_voff_t :: "'f is_methods \<Rightarrow> 'f instream \<Rightarrow> (int \<times> 'f instream) res" where
  "frt_is_read_voff_t m is =
     ebind (if is_pos is > is_len is - int VINT_MAX_LEN then is_read_v (frt_is_read_byte m) is
            else is_read_v read_byte is)
       (\<lambda>(res :: u64, is). Inr (sint res, is))"

text \<open>
  One skipped vint is the inner loop of \<open>frt_is_skip_vints\<close>. It has no bound of its own: it ends with
  the file. Its fuel is the number of bytes it may read; \<open>frt_is_skip_vints\<close> grants the length of
  the file and one more.
\<close>

fun is_skip_vint :: "nat \<Rightarrow> 'f is_methods \<Rightarrow> 'f instream \<Rightarrow> 'f instream res" where
  "is_skip_vint 0 m is = Inl UndefinedBehaviour"
| "is_skip_vint (Suc fuel) m is =
     ebind (frt_is_read_byte m is) (\<lambda>(b, is).
       if b AND 0x80 \<noteq> 0 then is_skip_vint fuel m is else Inr is)"

fun frt_is_skip_vints :: "'f is_methods \<Rightarrow> 'f instream \<Rightarrow> nat \<Rightarrow> 'f instream res" where
  "frt_is_skip_vints m is 0 = Inr is"
| "frt_is_skip_vints m is (Suc cnt) =
     ebind (is_skip_vint (Suc (nat (length_i m (is_file is)))) m is) (\<lambda>is. frt_is_skip_vints m is cnt)"

fun is_read_byte_loop :: "'f is_methods \<Rightarrow> 'f instream \<Rightarrow> nat \<Rightarrow> (byte list \<times> 'f instream) res" where
  "is_read_byte_loop m is 0 = Inr ([], is)"
| "is_read_byte_loop m is (Suc n) =
     ebind (frt_is_read_byte m is) (\<lambda>(b, is).
       ebind (is_read_byte_loop m is n) (\<lambda>(bs, is). Inr (b # bs, is)))"

text \<open>
  \<open>frt_is_read_string\<close>; \<open>frt_is_read_string_safe\<close> has the same body and frees the string before it
  passes an exception on. A length that is negative as an \<open>int\<close> asks for a buffer of a negative
  size, which is undefined.
\<close>

definition frt_is_read_string :: "'f is_methods \<Rightarrow> 'f instream \<Rightarrow> (byte list \<times> 'f instream) res" where
  "frt_is_read_string m is =
     ebind (frt_is_read_vint m is) (\<lambda>(len, is).
       let length = sint len in
       if length < 0 then Inl UndefinedBehaviour
       else if is_pos is > is_len is - length then is_read_byte_loop m is (nat length)
       else if 0 \<le> is_pos is \<and> is_pos is + length \<le> int (List.length (is_buf is))
         then Inr (take (nat length) (drop (nat (is_pos is)) (is_buf is)),
                   is\<lparr>is_pos := is_pos is + length\<rparr>)
         else Inl UndefinedBehaviour)"

text \<open>\<open>frt_is_read_string_safe\<close> frees the string when a read raises.\<close>

definition frt_is_read_string_safe :: "'f is_methods \<Rightarrow> 'f instream \<Rightarrow> (byte list \<times> 'f instream) res" where
  "frt_is_read_string_safe m is =
     ebind (frt_is_read_vint m is) (\<lambda>(len, is).
       let length = sint len in
       if length < 0 then Inl UndefinedBehaviour
       else if is_pos is > is_len is - length then is_read_byte_loop m is (nat length)
       else if 0 \<le> is_pos is \<and> is_pos is + length \<le> int (List.length (is_buf is))
         then Inr (take (nat length) (drop (nat (is_pos is)) (is_buf is)),
                   is\<lparr>is_pos := is_pos is + length\<rparr>)
         else Inl UndefinedBehaviour)"

section \<open>Copying between streams\<close>

function frt_is2os_copy_bytes ::
  "'g is_methods \<Rightarrow> ('f, 'w) os_methods \<Rightarrow> 'g instream \<Rightarrow> 'f outstream \<Rightarrow> int \<Rightarrow> 'w
     \<Rightarrow> ('g instream \<times> 'f outstream \<times> 'w) res" where
  "frt_is2os_copy_bytes mi mo is os cnt w =
     (if cnt > 0 then
        let len = (if cnt > int FRT_BUFFER_SIZE then FRT_BUFFER_SIZE else nat cnt) in
        ebind (frt_is_read_bytes mi is len) (\<lambda>(bs, is).
        ebind (frt_os_write_bytes mo os bs w) (\<lambda>(os, w).
          frt_is2os_copy_bytes mi mo is os (cnt - int FRT_BUFFER_SIZE) w))
      else Inr (is, os, w))"
  by pat_completeness auto
termination
  by (relation "measure (\<lambda>(mi, mo, is, os, cnt, w). nat cnt)") (auto simp: FRT_BUFFER_SIZE_def)

declare frt_is2os_copy_bytes.simps [simp del]

fun is2os_copy_vint ::
  "nat \<Rightarrow> 'g is_methods \<Rightarrow> ('f, 'w) os_methods \<Rightarrow> 'g instream \<Rightarrow> 'f outstream \<Rightarrow> 'w
     \<Rightarrow> ('g instream \<times> 'f outstream \<times> 'w) res" where
  "is2os_copy_vint 0 mi mo is os w = Inl UndefinedBehaviour"
| "is2os_copy_vint (Suc fuel) mi mo is os w =
     ebind (frt_is_read_byte mi is) (\<lambda>(b, is).
     ebind (frt_os_write_byte mo os b w) (\<lambda>(os, w).
       if b AND 0x80 \<noteq> 0 then is2os_copy_vint fuel mi mo is os w else Inr (is, os, w)))"

fun frt_is2os_copy_vints ::
  "'g is_methods \<Rightarrow> ('f, 'w) os_methods \<Rightarrow> 'g instream \<Rightarrow> 'f outstream \<Rightarrow> nat \<Rightarrow> 'w
     \<Rightarrow> ('g instream \<times> 'f outstream \<times> 'w) res" where
  "frt_is2os_copy_vints mi mo is os 0 w = Inr (is, os, w)"
| "frt_is2os_copy_vints mi mo is os (Suc cnt) w =
     ebind (is2os_copy_vint (Suc (nat (length_i mi (is_file is)))) mi mo is os w)
       (\<lambda>(is, os, w). frt_is2os_copy_vints mi mo is os cnt w)"

text \<open>\<open>frt_file_is_lock\<close>: the name ends in \<open>FRT_LOCK_EXT\<close> and is longer than it.\<close>

definition FRT_LOCK_EXT :: "byte list" where
  "FRT_LOCK_EXT = map (of_nat \<circ> of_char) ''.lck''"

definition frt_file_is_lock :: "byte list \<Rightarrow> bool" where
  "frt_file_is_lock filename =
     (let start = int (length filename) - 4
      in start > 0 \<and> drop (nat start) filename = FRT_LOCK_EXT)"

end
