(* ===== verification/FrtStreamLaws.thy ===== *)
theory FrtStreamLaws
  imports FrtStream
begin

unbundle bit_operations_syntax

text \<open>
  What the buffered streams promise, proved once for every store.

  \<^item> \<open>enc_v\<close>, \<open>enc_u32\<close>, \<open>enc_u64\<close>, \<open>enc_string\<close>: the encodings as functions on values, the
    abstract specification of the writers.
  \<^item> \<open>out_source\<close>: the interface \<open>FrtOutStreamMethods\<close> as the streams rely on it. \<open>os_ok os w R bs p\<close>
    says that the file behind \<open>os\<close> will hold \<open>bs\<close> once flushed, that the stream stands at \<open>p\<close> and
    that the rest of the store is \<open>R\<close>; every writer is shown to write its encoding at \<open>p\<close>.
  \<^item> \<open>in_source\<close>: the interface \<open>FrtInStreamMethods\<close>. \<open>is_ok is bs p\<close> says that the file holds \<open>bs\<close> and
    the stream stands at \<open>p\<close>; every reader is shown to decode what stands there, across refills.
\<close>

section \<open>The encodings\<close>

fun enc_v :: "nat \<Rightarrow> byte list" where
  "enc_v n = (if n \<le> 127 then [of_nat n] else ((of_nat n AND 0x7F) OR 0x80) # enc_v (n div 128))"

declare enc_v.simps [simp del]

lemma enc_v_small: "n \<le> 127 \<Longrightarrow> enc_v n = [of_nat n]"
  by (simp add: enc_v.simps)

lemma enc_v_large: "127 < n \<Longrightarrow> enc_v n = ((of_nat n AND 0x7F) OR 0x80) # enc_v (n div 128)"
  by (subst enc_v.simps) simp

definition enc_u32 :: "u32 \<Rightarrow> byte list" where
  "enc_u32 x = map (\<lambda>k. ucast (drop_bit k x)) [24, 16, 8, 0]"

definition enc_u64 :: "u64 \<Rightarrow> byte list" where
  "enc_u64 x = map (\<lambda>k. ucast (drop_bit k x)) [56, 48, 40, 32, 24, 16, 8, 0]"

definition enc_string :: "byte list \<Rightarrow> byte list" where
  "enc_string s = enc_v (length s) @ s"

lemma length_enc_u32 [simp]: "length (enc_u32 x) = 4"
  by (simp add: enc_u32_def)

lemma length_enc_u64 [simp]: "length (enc_u64 x) = 8"
  by (simp add: enc_u64_def)

lemma enc_v_not_Nil [simp]: "enc_v n \<noteq> []"
  by (subst enc_v.simps) simp

lemma length_enc_v_le: "n < 2 ^ (7 * Suc k) \<Longrightarrow> length (enc_v n) \<le> Suc k"
proof (induction k arbitrary: n)
  case 0
  then show ?case by (subst enc_v.simps) simp
next
  case (Suc k)
  have "n div 128 < 2 ^ (7 * Suc k)"
    using Suc.prems by (intro less_mult_imp_div_less) (simp add: power_add)
  then have "length (enc_v (n div 128)) \<le> Suc k" by (rule Suc.IH)
  then show ?case by (subst enc_v.simps) simp
qed

lemma unat_bound: "unat (w :: 'a::len word) < 2 ^ LENGTH('a)"
  by (rule unsigned_less)

lemma length_enc_v_u32: "length (enc_v (unat (x :: u32))) \<le> 5"
  using length_enc_v_le [of "unat x" 4] unat_bound [of x] by simp

lemma length_enc_v_u64: "length (enc_v (unat (x :: u64))) \<le> 10"
  using length_enc_v_le [of "unat x" 9] unat_bound [of x] by simp

lemma n7F: "(0x7F :: 'a::len word) = mask 7"
  by (simp add: mask_eq_exp_minus_1)

lemma bit_80: "bit (0x80 :: 'a::semiring_bit_operations) n \<longleftrightarrow> possible_bit TYPE('a) n \<and> n = 7"
proof -
  have "bit (2 ^ 7 :: 'a) n \<longleftrightarrow> possible_bit TYPE('a) n \<and> n = 7"
    by (subst bit_exp_iff) auto
  then show ?thesis by simp
qed

lemma bit_7F: "bit (0x7F :: 'a::ring_bit_operations) n \<longleftrightarrow> possible_bit TYPE('a) n \<and> n < 7"
proof -
  have "bit (mask 7 :: 'a) n \<longleftrightarrow> possible_bit TYPE('a) n \<and> n < 7"
    by (rule bit_mask_iff)
  then show ?thesis by (simp add: mask_eq_exp_minus_1)
qed

lemma cont_byte_high: "((b AND 0x7F) OR 0x80) AND 0x80 \<noteq> (0 :: byte)"
proof
  assume "((b AND 0x7F) OR 0x80) AND 0x80 = (0 :: byte)"
  then have "bit (((b AND 0x7F) OR 0x80) AND 0x80) 7 = bit (0 :: byte) 7" by (rule arg_cong)
  then show False by (simp add: bit_simps bit_80 bit_7F)
qed

lemma cont_byte_low: "((b AND 0x7F) OR 0x80) AND 0x7F = (b AND 0x7F :: byte)"
  by (rule bit_word_eqI) (auto simp: bit_simps bit_80 bit_7F)

lemma take_bit_7_small: "n \<le> 127 \<Longrightarrow> take_bit 7 n = (n :: nat)"
  by (simp add: take_bit_eq_mod)

lemma last_byte_high: "n \<le> 127 \<Longrightarrow> (of_nat n :: byte) AND 0x80 = 0"
proof -
  assume "n \<le> 127"
  then have "\<not> bit n 7"
    using bit_take_bit_iff [of 7 n 7] by (simp add: take_bit_7_small)
  then show ?thesis
    by (intro bit_word_eqI) (auto simp: bit_simps bit_80)
qed

lemma last_byte_low: "n \<le> 127 \<Longrightarrow> (of_nat n :: byte) AND 0x7F = of_nat n"
proof -
  assume "n \<le> 127"
  have "(of_nat n :: byte) AND 0x7F = take_bit 7 (of_nat n)"
    unfolding n7F by (simp only: take_bit_eq_mask)
  also have "\<dots> = of_nat (take_bit 7 n)" by (simp add: of_nat_take_bit)
  also have "take_bit 7 n = n" using \<open>n \<le> 127\<close> by (rule take_bit_7_small)
  finally show ?thesis .
qed

text \<open>The byte a writer computes from a word is the byte of the encoding.\<close>

lemma ucast_cont_byte:
  fixes num :: "'a::len word"
  assumes "127 < unat num"
  shows "(ucast ((num AND 0x7F) OR 0x80) :: byte) = (of_nat (unat num) AND 0x7F) OR 0x80"
proof -
  have "8 \<le> LENGTH('a)"
  proof (rule ccontr)
    assume "\<not> 8 \<le> LENGTH('a)"
    then have "(2 :: nat) ^ LENGTH('a) \<le> 2 ^ 7" by (intro power_increasing) auto
    then show False using unat_bound [of num] assms by simp
  qed
  then show ?thesis
    by (intro bit_word_eqI) (auto simp: bit_simps bit_80 bit_7F)
qed

lemma ucast_last_byte: "(ucast (num :: 'a::len word) :: byte) = of_nat (unat num)"
  by simp

lemma word_of_int_cont_byte:
  assumes "0 \<le> num"
  shows "(word_of_int ((num AND 0x7F) OR 0x80) :: byte) = (of_nat (nat num) AND 0x7F) OR 0x80"
proof -
  have "(word_of_int ((num AND 0x7F) OR 0x80) :: byte) = (word_of_int num AND 0x7F) OR 0x80"
    by (simp only: of_int_and_eq of_int_or_eq of_int_numeral)
  also have "(word_of_int num :: byte) = of_nat (nat num)"
    using assms by simp
  finally show ?thesis .
qed

lemma unat_drop_bit_7: "unat (drop_bit 7 (num :: 'a::len word)) = unat num div 128"
proof -
  have "unat (drop_bit 7 num) = drop_bit 7 (unat num)" by (rule unat_drop_bit_eq)
  also have "\<dots> = unat num div 2 ^ 7" by (rule drop_bit_eq_div)
  finally show ?thesis by simp
qed

lemma bit_FF: "bit (0xFF :: 'a::ring_bit_operations) n \<longleftrightarrow> possible_bit TYPE('a) n \<and> n < 8"
proof -
  have "bit (mask 8 :: 'a) n \<longleftrightarrow> possible_bit TYPE('a) n \<and> n < 8"
    by (rule bit_mask_iff)
  then show ?thesis by (simp add: mask_eq_exp_minus_1)
qed

lemma ucast_and_FF: "(ucast (x AND 0xFF) :: byte) = ucast (x :: 'a::len word)"
  by (rule bit_word_eqI) (auto simp: bit_simps bit_FF dest: bit_imp_le_length)

lemma ucast_signed_drop_bit:
  "k + 8 \<le> LENGTH('a) \<Longrightarrow> (ucast (signed_drop_bit k (x :: 'a::len word)) :: byte) = ucast (drop_bit k x)"
  by (rule bit_word_eqI) (auto simp: bit_simps)

text \<open>A non-negative \<open>frt_off_t\<close> is written by the loops of the unsigned writers.\<close>

lemma off_word:
  assumes "n < 2 ^ 64"
  shows "unat (of_nat n :: u64) = n"
    and "drop_bit 7 (of_nat n :: u64) = of_nat (n div 128)"
proof -
  have *: "unat (of_nat k :: u64) = k" if "k < 2 ^ 64" for k
    using that by (simp add: unat_of_nat)
  show "unat (of_nat n :: u64) = n" using assms by (rule *)
  have "n div 128 < 2 ^ 64" using assms by simp
  from * [OF this] have "unat (drop_bit 7 (of_nat n :: u64)) = unat (of_nat (n div 128) :: u64)"
    by (simp only: unat_drop_bit_7 * [OF assms])
  then show "drop_bit 7 (of_nat n :: u64) = of_nat (n div 128)"
    by (rule unsigned_word_eqI)
qed

lemma ucast_of_nat_64: "n < 2 ^ 64 \<Longrightarrow> (ucast (of_nat n :: u64) :: byte) = of_nat n"
  by (simp only: ucast_last_byte off_word)

lemma drop_bit_7_int: "drop_bit 7 (int n) = int (n div 128)"
  by (simp add: drop_bit_eq_div zdiv_int)

lemma off_checked_eq:
  "n < 2 ^ 64 \<Longrightarrow> os_write_off_checked m os (int n) = os_write_v_checked m os (of_nat n :: u64)"
proof (induction n arbitrary: os rule: less_induct)
  case (less n)
  show ?case
  proof (cases "n > 127")
    case True
    have IH: "os_write_off_checked m os (int (n div 128)) = os_write_v_checked m os (of_nat (n div 128) :: u64)" for os
      by (rule less.IH) (use True less.prems in auto)
    have "127 < unat (of_nat n :: u64)" using True less.prems by (simp only: off_word)
    then show ?thesis
      using True less.prems
      by (intro ext, subst os_write_off_checked.simps, subst os_write_v_checked.simps)
        (simp only: off_word drop_bit_7_int IH ucast_cont_byte word_of_int_cont_byte of_nat_0_le_iff nat_int if_True, simp)
  next
    case False
    have "\<not> 127 < unat (of_nat n :: u64)" using False less.prems by (simp only: off_word not_False_eq_True)
    then show ?thesis
      using False less.prems
      by (intro ext, subst os_write_off_checked.simps, subst os_write_v_checked.simps)
        (simp only: ucast_of_nat_64, simp)
  qed
qed

lemma off_unchecked_eq:
  "n < 2 ^ 64 \<Longrightarrow> os_write_off_unchecked os (int n) = os_write_v_unchecked os (of_nat n :: u64)"
proof (induction n arbitrary: os rule: less_induct)
  case (less n)
  show ?case
  proof (cases "n > 127")
    case True
    have IH: "os_write_off_unchecked os (int (n div 128)) = os_write_v_unchecked os (of_nat (n div 128) :: u64)"
      for os :: "'a outstream"
      by (rule less.IH) (use True less.prems in auto)
    have "127 < unat (of_nat n :: u64)" using True less.prems by (simp only: off_word)
    then show ?thesis
      using True less.prems
      by (subst os_write_off_unchecked.simps, subst os_write_v_unchecked.simps)
        (simp only: off_word drop_bit_7_int IH ucast_cont_byte word_of_int_cont_byte of_nat_0_le_iff nat_int if_True, simp)
  next
    case False
    have "\<not> 127 < unat (of_nat n :: u64)" using False less.prems by (simp only: off_word not_False_eq_True)
    then show ?thesis
      using False less.prems
      by (subst os_write_off_unchecked.simps, subst os_write_v_unchecked.simps)
        (simp only: ucast_of_nat_64, simp)
  qed
qed

lemma voff_t_eq_vll:
  "n < 2 ^ 64 \<Longrightarrow> frt_os_write_voff_t m os (int n) w = frt_os_write_vll m os (of_nat n) w"
  unfolding frt_os_write_voff_t_def frt_os_write_vll_def
  by (simp only: off_checked_eq off_unchecked_eq)

section \<open>Output: the interface and what the streams make of it\<close>

locale out_source =
  fixes m :: "('f, 'w) os_methods"
    and valid :: "'f \<Rightarrow> 'w \<Rightarrow> bool"
    and contents :: "'f \<Rightarrow> 'w \<Rightarrow> byte list"
    and at :: "'f \<Rightarrow> nat"
    and rest :: "'f \<Rightarrow> 'w \<Rightarrow> 'r"
  assumes at_le: "valid f w \<Longrightarrow> at f \<le> length (contents f w)"
    and flush_law: "valid f w \<Longrightarrow> length bs \<le> FRT_BUFFER_SIZE \<Longrightarrow>
      \<exists>f' w'. flush_i m f bs w = Inr (f', w') \<and> valid f' w' \<and> at f' = at f + length bs
        \<and> contents f' w' = write_at (contents f w) (at f) bs \<and> rest f' w' = rest f w"
    and seek_law: "valid f w \<Longrightarrow> p \<le> length (contents f w) \<Longrightarrow>
      \<exists>f' w'. seek_o m f (int p) w = Inr (f', w') \<and> valid f' w' \<and> at f' = p
        \<and> contents f' w' = contents f w \<and> rest f' w' = rest f w"
begin

definition os_ok :: "'f outstream \<Rightarrow> 'w \<Rightarrow> 'r \<Rightarrow> byte list \<Rightarrow> nat \<Rightarrow> bool" where
  "os_ok os w R bs p \<longleftrightarrow>
     valid (os_file os) w \<and> os_start os = int (at (os_file os)) \<and>
     length (os_buf os) \<le> FRT_BUFFER_SIZE \<and>
     bs = write_at (contents (os_file os) w) (at (os_file os)) (os_buf os) \<and>
     p = at (os_file os) + length (os_buf os) \<and> rest (os_file os) w = R"

text \<open>\<open>wrote r R bs p\<close>: the step \<open>r\<close> did not raise and left a stream over \<open>bs\<close> at \<open>p\<close>.\<close>

definition wrote :: "('f outstream \<times> 'w) res \<Rightarrow> 'r \<Rightarrow> byte list \<Rightarrow> nat \<Rightarrow> bool" where
  "wrote r R bs p \<longleftrightarrow> (\<exists>os w. r = Inr (os, w) \<and> os_ok os w R bs p)"

lemma wrote_Inr: "wrote (Inr (os, w)) R bs p \<longleftrightarrow> os_ok os w R bs p"
  by (simp add: wrote_def)

lemma wrote_bind:
  assumes "wrote r R bs p"
    and "\<And>os w. os_ok os w R bs p \<Longrightarrow> wrote (k (os, w)) R' bs' p'"
  shows "wrote (ebind r k) R' bs' p'"
  using assms by (auto simp: wrote_def)

lemma os_ok_le: "os_ok os w R bs p \<Longrightarrow> p \<le> length bs"
  using at_le by (fastforce simp: os_ok_def length_write_at)

lemma frt_os_pos_ok: "os_ok os w R bs p \<Longrightarrow> frt_os_pos os = int p"
  by (simp add: os_ok_def frt_os_pos_def)

lemma frt_os_new_ok:
  "valid f w \<Longrightarrow> at f = 0 \<Longrightarrow> os_ok (frt_os_new f) w (rest f w) (contents f w) 0"
  by (simp add: os_ok_def frt_os_new_def)

lemma frt_os_flush_ok:
  assumes "os_ok os w R bs p"
  obtains os' w' where "frt_os_flush m os w = Inr (os', w')" and "os_ok os' w' R bs p"
    and "os_buf os' = []" and "contents (os_file os') w' = bs"
proof -
  have v: "valid (os_file os) w" and l: "length (os_buf os) \<le> FRT_BUFFER_SIZE"
    using assms by (auto simp: os_ok_def)
  from flush_law [OF v l] obtain f' w' where
    f: "flush_i m (os_file os) (os_buf os) w = Inr (f', w')" "valid f' w'"
      "at f' = at (os_file os) + length (os_buf os)" "rest f' w' = rest (os_file os) w"
      "contents f' w' = write_at (contents (os_file os) w) (at (os_file os)) (os_buf os)"
    by blast
  then show thesis
    using assms by (intro that) (auto simp: frt_os_flush_def os_ok_def)
qed

lemma frt_os_seek_ok:
  assumes "os_ok os w R bs p" and "q \<le> length bs"
  shows "wrote (frt_os_seek m os (int q) w) R bs q"
proof -
  obtain os' w' where fl: "frt_os_flush m os w = Inr (os', w')" and ok: "os_ok os' w' R bs p"
    and b: "os_buf os' = []" and c: "contents (os_file os') w' = bs"
    using assms(1) by (rule frt_os_flush_ok)
  have v: "valid (os_file os') w'" and q: "q \<le> length (contents (os_file os') w')"
    using ok c assms(2) by (auto simp: os_ok_def)
  from seek_law [OF v q] show ?thesis
    using ok b c by (fastforce simp: frt_os_seek_def fl wrote_def os_ok_def)
qed

lemma write_byte_ok:
  assumes "os_ok os w R bs p" and "length (os_buf os) < FRT_BUFFER_SIZE"
  obtains os' where "write_byte os b = Inr os'" and "os_ok os' w R (write_at bs p [b]) (Suc p)"
    and "length (os_buf os') = Suc (length (os_buf os))"
proof
  show "write_byte os b = Inr (os\<lparr>os_buf := os_buf os @ [b]\<rparr>)"
    using assms(2) by (simp add: write_byte_def)
  show "os_ok (os\<lparr>os_buf := os_buf os @ [b]\<rparr>) w R (write_at bs p [b]) (Suc p)"
    using assms at_le by (auto simp: os_ok_def write_at_write_at)
qed simp

lemma frt_os_write_byte_ok:
  assumes "os_ok os w R bs p"
  shows "wrote (frt_os_write_byte m os b w) R (write_at bs p [b]) (Suc p)"
proof (cases "length (os_buf os) \<ge> FRT_BUFFER_SIZE - 1")
  case True
  obtain os' w' where "frt_os_flush m os w = Inr (os', w')" and ok: "os_ok os' w' R bs p"
    and "os_buf os' = []"
    using assms by (rule frt_os_flush_ok)
  moreover from this obtain os'' where "write_byte os' b = Inr os''"
    and "os_ok os'' w' R (write_at bs p [b]) (Suc p)"
    using write_byte_ok [OF ok] by (auto simp: FRT_BUFFER_SIZE_def)
  ultimately show ?thesis
    using True by (simp add: frt_os_write_byte_def wrote_def)
next
  case False
  then have "length (os_buf os) < FRT_BUFFER_SIZE" by simp
  from write_byte_ok [OF assms this] obtain os' where "write_byte os b = Inr os'"
    and "os_ok os' w R (write_at bs p [b]) (Suc p)" by blast
  then show ?thesis
    using False by (simp add: frt_os_write_byte_def wrote_def)
qed

text \<open>\<open>writes r os w xs\<close>: whatever file the stream is over, the step \<open>r\<close> of it writes \<open>xs\<close> where it stands.\<close>

definition writes ::
  "('f outstream \<Rightarrow> 'w \<Rightarrow> ('f outstream \<times> 'w) res) \<Rightarrow> byte list \<Rightarrow> bool" where
  "writes r xs \<longleftrightarrow> (\<forall>os w R bs p. os_ok os w R bs p \<longrightarrow>
     wrote (r os w) R (write_at bs p xs) (p + length xs))"

lemma writesI:
  "(\<And>os w R bs p. os_ok os w R bs p \<Longrightarrow> wrote (r os w) R (write_at bs p xs) (p + length xs))
     \<Longrightarrow> writes r xs"
  by (simp add: writes_def)

lemma writesD:
  "writes r xs \<Longrightarrow> os_ok os w R bs p \<Longrightarrow> wrote (r os w) R (write_at bs p xs) (p + length xs)"
  by (simp add: writes_def)

lemma writes_bind:
  assumes "writes r xs" and "writes f ys"
  shows "writes (\<lambda>os w. ebind (r os w) (case_prod f)) (xs @ ys)"
proof (rule writesI)
  fix os w R bs p
  assume ok: "os_ok os w R bs p"
  have eq: "write_at (write_at bs p xs) (p + length xs) ys = write_at bs p (xs @ ys)"
    using os_ok_le [OF ok] by (rule write_at_write_at)
  show "wrote (ebind (r os w) (case_prod f)) R (write_at bs p (xs @ ys)) (p + length (xs @ ys))"
    using writesD [OF assms(1) ok]
    by (rule wrote_bind) (use writesD [OF assms(2)] in \<open>fastforce simp: eq add.assoc\<close>)
qed

lemma writes_Inr: "writes (\<lambda>os w. Inr (os, w)) []"
  by (rule writesI) (simp add: wrote_Inr)

lemma writes_byte: "writes (\<lambda>os w. frt_os_write_byte m os b w) [b]"
  by (rule writesI) (use frt_os_write_byte_ok in simp)

lemma writes_chunks:
  assumes "os_ok os w R bs p" and "os_buf os = []"
  shows "wrote (os_write_chunks m os xs w) R (write_at bs p xs) (p + length xs)"
  using assms
proof (induction "length xs" arbitrary: xs os w bs p rule: less_induct)
  case less
  show ?case
  proof (cases "xs = []")
    case True
    with less.prems show ?thesis
      by (subst os_write_chunks.simps) (simp add: wrote_Inr)
  next
    case False
    define n where "n = (if length xs < FRT_BUFFER_SIZE then length xs else FRT_BUFFER_SIZE)"
    have n: "n \<le> length xs" "n \<le> FRT_BUFFER_SIZE" "0 < n"
      using False by (auto simp: n_def FRT_BUFFER_SIZE_def)
    have v: "valid (os_file os) w" and l: "length (take n xs) \<le> FRT_BUFFER_SIZE"
      using less.prems(1) n by (auto simp: os_ok_def)
    from flush_law [OF v l] n obtain f' w' where
      f: "flush_i m (os_file os) (take n xs) w = Inr (f', w')" "valid f' w'"
        "at f' = at (os_file os) + n" "rest f' w' = rest (os_file os) w"
        "contents f' w' = write_at (contents (os_file os) w) (at (os_file os)) (take n xs)"
      by auto
    define os' where "os' = os\<lparr>os_file := f', os_start := os_start os + int n\<rparr>"
    have ok': "os_ok os' w' R (write_at bs p (take n xs)) (p + n)"
      using less.prems f by (auto simp: os_ok_def os'_def)
    have "wrote (os_write_chunks m os' (drop n xs) w') R
        (write_at (write_at bs p (take n xs)) (p + n) (drop n xs)) (p + n + length (drop n xs))"
      by (rule less.hyps) (use n ok' less.prems(2) in \<open>auto simp: os'_def\<close>)
    moreover have "write_at (write_at bs p (take n xs)) (p + n) (drop n xs) = write_at bs p xs"
      using write_at_write_at [OF os_ok_le [OF less.prems(1)], of "take n xs" "drop n xs"] n
      by simp
    ultimately show ?thesis
      using False n(1) f(1)
      by (subst os_write_chunks.simps) (simp add: os'_def n_def Let_def)
  qed
qed

lemma writes_bytes: "writes (\<lambda>os w. frt_os_write_bytes m os xs w) xs"
proof (rule writesI)
  fix os w R bs p
  assume ok: "os_ok os w R bs p"
  show "wrote (frt_os_write_bytes m os xs w) R (write_at bs p xs) (p + length xs)"
  proof (cases "int (length xs) < int FRT_BUFFER_SIZE - int (length (os_buf os))")
    case True
    have "os_ok (os\<lparr>os_buf := os_buf os @ xs\<rparr>) w R (write_at bs p xs) (p + length xs)"
      using ok True at_le by (auto simp: os_ok_def write_at_write_at)
    with True show ?thesis by (simp add: frt_os_write_bytes_def wrote_Inr)
  next
    case False
    obtain os' w' where "frt_os_flush m os w = Inr (os', w')" "os_ok os' w' R bs p" "os_buf os' = []"
      using ok by (rule frt_os_flush_ok)
    with False show ?thesis by (simp add: frt_os_write_bytes_def writes_chunks)
  qed
qed

lemma writes_byte_bind:
  "writes f ys \<Longrightarrow> writes (\<lambda>os w. ebind (frt_os_write_byte m os b w) (case_prod f)) (b # ys)"
  using writes_bind [OF writes_byte] by simp

lemmas writes_intros = writes_byte_bind writes_byte

lemma writes_u32: "writes (\<lambda>os w. frt_os_write_u32 m os x w) (enc_u32 x)"
  unfolding frt_os_write_u32_def ucast_and_FF enc_u32_def list.map drop_bit_0 id_apply
  by (intro writes_intros)

lemma writes_u64: "writes (\<lambda>os w. frt_os_write_u64 m os x w) (enc_u64 x)"
  unfolding frt_os_write_u64_def ucast_and_FF enc_u64_def list.map drop_bit_0 id_apply
  by (intro writes_intros)

lemma writes_i32: "writes (\<lambda>os w. frt_os_write_i32 m os x w) (enc_u32 x)"
  using writes_u32 [of x]
  by (simp add: frt_os_write_i32_def frt_os_write_u32_def ucast_and_FF ucast_signed_drop_bit)

lemma writes_i64: "writes (\<lambda>os w. frt_os_write_i64 m os x w) (enc_u64 x)"
  using writes_u64 [of x]
  by (simp add: frt_os_write_i64_def frt_os_write_u64_def ucast_and_FF ucast_signed_drop_bit)

lemma writes_v_checked:
  "writes (\<lambda>os w. os_write_v_checked m os num w) (enc_v (unat num))" for num :: "'n::len word"
proof (induction "unat num" arbitrary: num rule: less_induct)
  case less
  show ?case
  proof (cases "127 < unat num")
    case True
    have IH: "writes (\<lambda>os w. os_write_v_checked m os (drop_bit 7 num) w) (enc_v (unat num div 128))"
      using less [OF drop_bit_7_less [OF True]] by (simp only: unat_drop_bit_7)
    have "(\<lambda>os w. os_write_v_checked m os num w) =
        (\<lambda>os w. ebind (frt_os_write_byte m os ((of_nat (unat num) AND 0x7F) OR 0x80) w)
          (\<lambda>(os, w). os_write_v_checked m os (drop_bit 7 num) w))"
      using True by (intro ext, subst os_write_v_checked.simps) (simp add: ucast_cont_byte)
    with writes_byte_bind [OF IH] True show ?thesis
      by (simp only: enc_v_large)
  next
    case False
    then have "(\<lambda>os w. os_write_v_checked m os num w) = (\<lambda>os w. frt_os_write_byte m os (of_nat (unat num)) w)"
      by (intro ext, subst os_write_v_checked.simps) simp
    with writes_byte False show ?thesis
      by (simp only: enc_v_small not_less)
  qed
qed

text \<open>The unchecked loop has room: it writes the same bytes into the buffer.\<close>

lemma v_unchecked_ok:
  "os_ok os w R bs p \<Longrightarrow> length (os_buf os) + length (enc_v (unat num)) \<le> FRT_BUFFER_SIZE \<Longrightarrow>
   \<exists>os'. os_write_v_unchecked os num = Inr os' \<and>
     os_ok os' w R (write_at bs p (enc_v (unat num))) (p + length (enc_v (unat num)))"
  for num :: "'n::len word"
proof (induction "unat num" arbitrary: num os bs p rule: less_induct)
  case less
  have room: "length (os_buf os) < FRT_BUFFER_SIZE"
    using less.prems(2) enc_v_not_Nil [of "unat num"] by (cases "enc_v (unat num)") auto
  show ?case
  proof (cases "127 < unat num")
    case True
    let ?b = "(of_nat (unat num) AND 0x7F) OR 0x80 :: byte" and ?n = "drop_bit 7 num"
    have enc: "enc_v (unat num) = ?b # enc_v (unat ?n)"
      using True by (simp only: unat_drop_bit_7 enc_v_large)
    obtain os1 where 1: "write_byte os ?b = Inr os1" "os_ok os1 w R (write_at bs p [?b]) (Suc p)"
      "length (os_buf os1) = Suc (length (os_buf os))"
      using less.prems(1) room by (rule write_byte_ok)
    obtain os' where 2: "os_write_v_unchecked os1 ?n = Inr os'"
      "os_ok os' w R (write_at (write_at bs p [?b]) (Suc p) (enc_v (unat ?n))) (Suc p + length (enc_v (unat ?n)))"
      using less.hyps [OF drop_bit_7_less [OF True] 1(2)] less.prems(2) 1(3)
      by (auto simp: enc)
    have "write_at (write_at bs p [?b]) (Suc p) (enc_v (unat ?n)) = write_at bs p (enc_v (unat num))"
      using write_at_write_at [OF os_ok_le [OF less.prems(1)], of "[?b]"] by (simp add: enc)
    then show ?thesis
      using True 1(1) 2 by (subst os_write_v_unchecked.simps) (simp add: ucast_cont_byte enc)
  next
    case False
    from write_byte_ok [OF less.prems(1) room] show ?thesis
      using False by (subst os_write_v_unchecked.simps) (auto simp: enc_v_small)
  qed
qed

lemma writes_vint: "writes (\<lambda>os w. frt_os_write_vint m os num w) (enc_v (unat num))"
proof (rule writesI)
  fix os w R bs p
  assume ok: "os_ok os w R bs p"
  show "wrote (frt_os_write_vint m os num w) R (write_at bs p (enc_v (unat num))) (p + length (enc_v (unat num)))"
  proof (cases "length (os_buf os) > VINT_END")
    case True
    then show ?thesis using writesD [OF writes_v_checked ok] by (simp add: frt_os_write_vint_def)
  next
    case False
    then have "length (os_buf os) + length (enc_v (unat num)) \<le> FRT_BUFFER_SIZE"
      using length_enc_v_u32 [of num] by (simp add: VINT_END_def VINT_MAX_LEN_def FRT_BUFFER_SIZE_def)
    from v_unchecked_ok [OF ok this] show ?thesis
      using False by (auto simp: frt_os_write_vint_def wrote_def)
  qed
qed

lemma writes_vll: "writes (\<lambda>os w. frt_os_write_vll m os num w) (enc_v (unat num))"
proof (rule writesI)
  fix os w R bs p
  assume ok: "os_ok os w R bs p"
  show "wrote (frt_os_write_vll m os num w) R (write_at bs p (enc_v (unat num))) (p + length (enc_v (unat num)))"
  proof (cases "length (os_buf os) > VINT_END")
    case True
    then show ?thesis using writesD [OF writes_v_checked ok] by (simp add: frt_os_write_vll_def)
  next
    case False
    then have "length (os_buf os) + length (enc_v (unat num)) \<le> FRT_BUFFER_SIZE"
      using length_enc_v_u64 [of num] by (simp add: VINT_END_def VINT_MAX_LEN_def FRT_BUFFER_SIZE_def)
    from v_unchecked_ok [OF ok this] show ?thesis
      using False by (auto simp: frt_os_write_vll_def wrote_def)
  qed
qed

lemma writes_voff_t: "writes (\<lambda>os w. frt_os_write_voff_t m os (int n) w) (enc_v n)" if "n < 2 ^ 63"
proof -
  have n: "n < 2 ^ 64" using that by simp
  have "writes (\<lambda>os w. frt_os_write_vll m os (of_nat n) w) (enc_v (unat (of_nat n :: u64)))"
    by (rule writes_vll)
  then show ?thesis
    by (simp only: voff_t_eq_vll [OF n] off_word(1) [OF n])
qed

text \<open>A string's length is passed as an \<open>int\<close>: beyond \<open>2 ^ 32\<close> it would be cut.\<close>

lemma writes_string_len:
  assumes "n \<le> length s" and "n < 2 ^ 32"
  shows "writes (\<lambda>os w. frt_os_write_string_len m os s n w) (enc_string (take n s))"
proof -
  have "unat (of_nat n :: u32) = n" using assms(2) by (simp add: unat_of_nat)
  with writes_bind [OF writes_vint [of "of_nat n"] writes_bytes [of "take n s"]] assms(1)
  show ?thesis
    by (simp only: frt_os_write_string_len_def enc_string_def length_take min.absorb2)
qed

lemma writes_string:
  "length s < 2 ^ 32 \<Longrightarrow> writes (\<lambda>os w. frt_os_write_string m os s w) (enc_string s)"
  unfolding frt_os_write_string_def using writes_string_len [of "length s" s] by simp

text \<open>Closing flushes, then runs the store's own \<open>close_i\<close> on the complete file.\<close>

lemma frt_os_close_ok:
  assumes "os_ok os w R bs p"
  obtains os' w' where "frt_os_close m os w = close_o m (os_file os') w'" and "os_ok os' w' R bs p"
    and "os_buf os' = []" and "contents (os_file os') w' = bs"
  by (rule frt_os_flush_ok [OF assms]) (simp add: that frt_os_close_def)

end

end
