(* ===== verification/FrtStreamRead.thy ===== *)
theory FrtStreamRead
  imports FrtStreamLaws
begin

unbundle bit_operations_syntax

text \<open>
  What the input streams of \<open>frt_store.c\<close> promise, proved once for every store.

  \<^item> \<open>in_source\<close>: the interface \<open>FrtInStreamMethods\<close> as the readers rely on it. \<open>is_ok is bs p\<close> says
    that the file behind the stream holds \<open>bs\<close> and that the stream stands at byte \<open>p\<close> of it,
    whatever part of the file its buffer holds.
  \<^item> \<open>decodes r xs v\<close>: where the bytes \<open>xs\<close> stand, the reader \<open>r\<close> returns \<open>v\<close> and stands behind them.
    Every reader is shown to decode what the writer of the same name encodes, across refills.
  \<^item> \<open>stream_copy\<close>: a source and a sink together, for the copying loops.
\<close>

section \<open>Bits of the decoder\<close>

lemma ucast_low_byte: "(ucast ((of_nat n :: byte) AND 0x7F) :: 'a::len word) = take_bit 7 (of_nat n)"
  by (rule bit_word_eqI) (auto simp: bit_simps bit_7F)

lemma ucast_last_byte_of_nat: "n \<le> 127 \<Longrightarrow> (ucast (of_nat n :: byte) :: 'a::len word) = of_nat n"
proof -
  assume "n \<le> 127"
  then have "(ucast (of_nat n :: byte) :: 'a word) = of_nat (take_bit 7 n)"
    using ucast_low_byte [of n] by (simp only: last_byte_low of_nat_take_bit)
  with \<open>n \<le> 127\<close> show ?thesis by (simp only: take_bit_7_small)
qed

lemma div_128_drop_bit: "n div 128 = drop_bit 7 (n :: nat)"
  by (simp add: drop_bit_eq_div)

lemma push_low_high:
  "push_bit s (take_bit 7 (of_nat n)) OR push_bit (s + 7) (of_nat (n div 128)) = push_bit s (of_nat n :: 'a::len word)"
  unfolding div_128_drop_bit
proof (rule bit_word_eqI)
  fix k
  assume "k < LENGTH('a)"
  then show "bit (push_bit s (take_bit 7 (of_nat n)) OR push_bit (s + 7) (of_nat (drop_bit 7 n)) :: 'a word) k =
      bit (push_bit s (of_nat n) :: 'a word) k"
  proof (cases "s + 7 \<le> k")
    case True
    then obtain j where "k = s + 7 + j" using le_Suc_ex by blast
    then show ?thesis using \<open>k < LENGTH('a)\<close> by (auto simp: bit_simps ac_simps)
  next
    case False
    then show ?thesis using \<open>k < LENGTH('a)\<close> by (auto simp: bit_simps)
  qed
qed

lemma bit_byte_at:
  "bit (push_bit s (ucast (ucast (drop_bit s x) :: byte)) :: 'a::len word) k \<longleftrightarrow>
     s \<le> k \<and> k < s + 8 \<and> k < LENGTH('a) \<and> bit (x :: 'a word) k"
  by (auto simp: bit_simps)

lemma bit_byte_0:
  "bit (ucast (ucast x :: byte) :: 'a::len word) k \<longleftrightarrow> k < 8 \<and> k < LENGTH('a) \<and> bit (x :: 'a word) k"
  by (auto simp: bit_simps)

lemma join_u32:
  "push_bit 24 (ucast (ucast (drop_bit 24 x) :: byte)) OR push_bit 16 (ucast (ucast (drop_bit 16 x) :: byte)) OR
     push_bit 8 (ucast (ucast (drop_bit 8 x) :: byte)) OR ucast (ucast x :: byte) = (x :: u32)"
  by (rule bit_word_eqI) (simp only: bit_or_iff bit_byte_at bit_byte_0, auto)

lemma join_u64:
  "push_bit 56 (ucast (ucast (drop_bit 56 x) :: byte)) OR push_bit 48 (ucast (ucast (drop_bit 48 x) :: byte)) OR
     push_bit 40 (ucast (ucast (drop_bit 40 x) :: byte)) OR push_bit 32 (ucast (ucast (drop_bit 32 x) :: byte)) OR
     push_bit 24 (ucast (ucast (drop_bit 24 x) :: byte)) OR push_bit 16 (ucast (ucast (drop_bit 16 x) :: byte)) OR
     push_bit 8 (ucast (ucast (drop_bit 8 x) :: byte)) OR ucast (ucast x :: byte) = (x :: u64)"
  by (rule bit_word_eqI) (simp only: bit_or_iff bit_byte_at bit_byte_0, auto)

section \<open>Input: the interface and what the streams make of it\<close>

locale in_source =
  fixes m :: "'f is_methods"
    and valid :: "'f \<Rightarrow> bool"
    and content :: "'f \<Rightarrow> byte list"
    and ready :: "'f \<Rightarrow> nat \<Rightarrow> bool"
  assumes read_law: "valid f \<Longrightarrow> ready f p \<Longrightarrow> p + n \<le> length (content f) \<Longrightarrow>
      \<exists>f'. read_i m f (int p) (int n) = Inr (take n (drop p (content f)), f') \<and> valid f'
        \<and> content f' = content f \<and> ready f' (p + n)"
    and seek_law: "valid f \<Longrightarrow>
      \<exists>f'. seek_i m f (int p) = Inr f' \<and> valid f' \<and> content f' = content f \<and> ready f' p"
    and length_law: "valid f \<Longrightarrow> length_i m f = int (length (content f))"
begin

definition is_ok :: "'f instream \<Rightarrow> byte list \<Rightarrow> nat \<Rightarrow> bool" where
  "is_ok is bs p \<longleftrightarrow> valid (is_file is) \<and> content (is_file is) = bs \<and>
     (\<exists>s q l. is_start is = int s \<and> is_pos is = int q \<and> is_len is = int l \<and> q \<le> l \<and>
       (l = 0 \<or> s + l \<le> length bs) \<and> is_buf is = take l (drop s bs) \<and>
       ready (is_file is) (s + l) \<and> p = s + q)"

lemma is_okE:
  assumes "is_ok is bs p"
  obtains s q l where "valid (is_file is)" "content (is_file is) = bs" "is_start is = int s"
    "is_pos is = int q" "is_len is = int l" "q \<le> l" "l = 0 \<or> s + l \<le> length bs"
    "is_buf is = take l (drop s bs)" "ready (is_file is) (s + l)" "p = s + q"
  using assms unfolding is_ok_def by blast

lemma is_okI:
  "valid (is_file is) \<Longrightarrow> content (is_file is) = bs \<Longrightarrow> is_start is = int s \<Longrightarrow>
   is_pos is = int q \<Longrightarrow> is_len is = int l \<Longrightarrow> q \<le> l \<Longrightarrow> l = 0 \<or> s + l \<le> length bs \<Longrightarrow>
   is_buf is = take l (drop s bs) \<Longrightarrow> ready (is_file is) (s + l) \<Longrightarrow> p = s + q \<Longrightarrow> is_ok is bs p"
  unfolding is_ok_def by blast

lemma frt_is_new_ok: "valid f \<Longrightarrow> ready f 0 \<Longrightarrow> is_ok (frt_is_new f) (content f) 0"
  by (simp add: is_ok_def frt_is_new_def)

lemma frt_is_pos_ok: "is_ok is bs p \<Longrightarrow> frt_is_pos is = int p"
  by (elim is_okE) (simp add: frt_is_pos_def)

lemma length_ok: "is_ok is bs p \<Longrightarrow> length_i m (is_file is) = int (length bs)"
  by (elim is_okE) (simp add: length_law)

lemma is_refill_ok:
  assumes ok: "is_ok is bs p" and full: "is_pos is \<ge> is_len is" and p: "p < length bs"
  shows "\<exists>is'. is_refill m is = Inr is' \<and> is_ok is' bs p \<and> is_pos is' = 0 \<and> is_len is' > 0"
  using ok
proof (rule is_okE)
  fix s q l
  assume v: "valid (is_file is)" "content (is_file is) = bs"
    and f: "is_start is = int s" "is_pos is = int q" "is_len is = int l" "q \<le> l"
    and r: "ready (is_file is) (s + l)" and pq: "p = s + q"
  have ql: "q = l" using f full by simp
  define n where "n = min FRT_BUFFER_SIZE (length bs - p)"
  have n: "0 < n" "p + n \<le> length bs"
    using p by (auto simp: n_def FRT_BUFFER_SIZE_def)
  have len: "(if int p + int FRT_BUFFER_SIZE > int (length bs) then int (length bs)
      else int p + int FRT_BUFFER_SIZE) - int p = int n"
    using p by (auto simp: n_def)
  obtain f' where f': "read_i m (is_file is) (int p) (int n) = Inr (take n (drop p bs), f')"
    "valid f'" "content f' = bs" "ready f' (p + n)"
    using read_law [of "is_file is" p n] v r ql pq n by auto
  have st: "is_start is + is_pos is = int p" "frt_is_pos is = int p"
    using f pq by (auto simp: frt_is_pos_def)
  have "is_refill m is = Inr (is\<lparr>is_buf := take n (drop p bs), is_start := int p, is_pos := 0,
      is_len := int n, is_file := f'\<rparr>)" (is "_ = Inr ?is'")
    using n(1) f'(1) length_law [OF v(1)] v(2)
    by (simp only: is_refill_def Let_def st len) simp
  moreover have "is_ok ?is' bs p"
    by (rule is_okI [where s = p and q = 0 and l = n]) (use f' n in auto)
  ultimately show ?thesis using n by auto
qed

lemma is_refill_eof:
  assumes "is_ok is bs p" and "length bs \<le> p"
  shows "is_refill m is = Inl FRT_EOF_ERROR"
  using assms by (elim is_okE) (simp add: is_refill_def Let_def length_law)

lemma read_byte_ok:
  assumes ok: "is_ok is bs p" and lt: "is_pos is < is_len is"
  shows "\<exists>is'. read_byte is = Inr (bs ! p, is') \<and> is_ok is' bs (Suc p) \<and> p < length bs \<and>
    is_len is' = is_len is \<and> is_pos is' = is_pos is + 1"
  using ok
proof (rule is_okE)
  fix s q l
  assume *: "valid (is_file is)" "content (is_file is) = bs" "is_start is = int s"
    "is_pos is = int q" "is_len is = int l" "q \<le> l" "l = 0 \<or> s + l \<le> length bs"
    "is_buf is = take l (drop s bs)" "ready (is_file is) (s + l)" "p = s + q"
  then have "is_ok (is\<lparr>is_pos := is_pos is + 1\<rparr>) bs (Suc p)"
    using lt by (intro is_okI [where s = s and q = "Suc q" and l = l]) auto
  with * lt show ?thesis by (auto simp: read_byte_def)
qed

lemma frt_is_read_byte_ok:
  assumes "is_ok is bs p" and "p < length bs"
  shows "\<exists>is'. frt_is_read_byte m is = Inr (bs ! p, is') \<and> is_ok is' bs (Suc p)"
proof (cases "is_pos is \<ge> is_len is")
  case True
  with is_refill_ok [OF assms(1) True assms(2)] show ?thesis
    using read_byte_ok by (fastforce simp: frt_is_read_byte_def)
next
  case False
  with read_byte_ok [OF assms(1)] show ?thesis by (auto simp: frt_is_read_byte_def)
qed

lemma frt_is_read_byte_eof:
  assumes "is_ok is bs p" and "length bs \<le> p"
  shows "frt_is_read_byte m is = Inl FRT_EOF_ERROR"
proof -
  have "is_pos is \<ge> is_len is"
    using assms by (elim is_okE) auto
  with is_refill_eof [OF assms] show ?thesis by (simp add: frt_is_read_byte_def)
qed

lemma frt_is_seek_ok:
  assumes "is_ok is bs p"
  shows "\<exists>is'. frt_is_seek m is (int k) = Inr is' \<and> is_ok is' bs k"
  using assms
proof (rule is_okE)
  fix s q l
  assume *: "valid (is_file is)" "content (is_file is) = bs" "is_start is = int s"
    "is_pos is = int q" "is_len is = int l" "q \<le> l" "l = 0 \<or> s + l \<le> length bs"
    "is_buf is = take l (drop s bs)" "ready (is_file is) (s + l)" "p = s + q"
  show ?thesis
  proof (cases "int k \<ge> is_start is \<and> int k < is_start is + is_len is")
    case True
    then have "is_ok (is\<lparr>is_pos := int k - is_start is\<rparr>) bs k"
      using * by (intro is_okI [where s = s and q = "k - s" and l = l]) auto
    with True show ?thesis by (simp add: frt_is_seek_def)
  next
    case False
    from seek_law [OF *(1), of k] obtain f' where f': "seek_i m (is_file is) (int k) = Inr f'"
      "valid f'" "content f' = bs" "ready f' k" using *(2) by auto
    then have "is_ok (is\<lparr>is_start := int k, is_pos := 0, is_len := 0, is_buf := [], is_file := f'\<rparr>) bs k"
      by (intro is_okI [where s = k and q = 0 and l = 0]) auto
    with f' False show ?thesis by (auto simp: frt_is_seek_def)
  qed
qed

lemma read_byte_loop_ok:
  "is_ok is bs p \<Longrightarrow> is_pos is + int n \<le> is_len is \<Longrightarrow>
   \<exists>is'. read_byte_loop is n = Inr (take n (drop p bs), is') \<and> is_ok is' bs (p + n) \<and>
     is_len is' = is_len is \<and> is_pos is' = is_pos is + int n"
proof (induction n arbitrary: "is" p)
  case 0
  then show ?case by simp
next
  case (Suc n)
  from read_byte_ok [OF Suc.prems(1)] Suc.prems(2) obtain is1 where
    1: "read_byte is = Inr (bs ! p, is1)" "is_ok is1 bs (Suc p)" "p < length bs"
      "is_len is1 = is_len is" "is_pos is1 = is_pos is + 1" by auto
  from Suc.IH [OF 1(2)] 1 Suc.prems(2) show ?case
    by (auto simp: nth_drop_Cons)
qed

lemma frt_is_read_bytes_ok:
  assumes ok: "is_ok is bs p" and n: "p + n \<le> length bs"
  shows "\<exists>is'. frt_is_read_bytes m is n = Inr (take n (drop p bs), is') \<and> is_ok is' bs (p + n)"
proof (cases "is_pos is + int n < is_len is")
  case True
  with read_byte_loop_ok [OF ok, of n] show ?thesis by (auto simp: frt_is_read_bytes_def)
next
  case False
  have pos: "frt_is_pos is = int p" using ok by (rule frt_is_pos_ok)
  have v: "valid (is_file is)" "content (is_file is) = bs" using ok by (auto simp: is_ok_def)
  from seek_law [OF v(1), of p] obtain f1 where f1: "seek_i m (is_file is) (int p) = Inr f1"
    "valid f1" "content f1 = bs" "ready f1 p" using v(2) by auto
  from read_law [OF f1(2,4), of n] n obtain f2 where f2: "read_i m f1 (int p) (int n) = Inr (take n (drop p bs), f2)"
    "valid f2" "content f2 = bs" "ready f2 (p + n)" using f1(3) by auto
  have "is_ok (is\<lparr>is_file := f2, is_start := int p + int n, is_pos := 0, is_len := 0, is_buf := []\<rparr>) bs (p + n)"
    using f2 by (intro is_okI [where s = "p + n" and q = 0 and l = 0]) auto
  with False f1 f2 show ?thesis by (simp add: frt_is_read_bytes_def pos)
qed

text \<open>\<open>decodes r xs v\<close>: where the bytes \<open>xs\<close> stand, \<open>r\<close> returns \<open>v\<close> and stands behind them.\<close>

definition decodes :: "('f instream \<Rightarrow> ('v \<times> 'f instream) res) \<Rightarrow> byte list \<Rightarrow> 'v \<Rightarrow> bool" where
  "decodes r xs v \<longleftrightarrow> (\<forall>is bs p ys. is_ok is bs p \<longrightarrow> p \<le> length bs \<longrightarrow> drop p bs = xs @ ys \<longrightarrow>
     (\<exists>is'. r is = Inr (v, is') \<and> is_ok is' bs (p + length xs)))"

lemma decodesI:
  "(\<And>is bs p ys. is_ok is bs p \<Longrightarrow> p + length xs \<le> length bs \<Longrightarrow> drop p bs = xs @ ys \<Longrightarrow>
     \<exists>is'. r is = Inr (v, is') \<and> is_ok is' bs (p + length xs)) \<Longrightarrow> decodes r xs v"
  unfolding decodes_def
proof (intro allI impI)
  fix "is" bs p ys
  assume *: "\<And>is bs p ys. is_ok is bs p \<Longrightarrow> p + length xs \<le> length bs \<Longrightarrow> drop p bs = xs @ ys \<Longrightarrow>
     \<exists>is'. r is = Inr (v, is') \<and> is_ok is' bs (p + length xs)"
    and ok: "is_ok is bs p" and p: "p \<le> length bs" and d: "drop p bs = xs @ ys"
  have "length (drop p bs) = length xs + length ys" using d by simp
  then have "p + length xs \<le> length bs" using p by simp
  with * ok d show "\<exists>is'. r is = Inr (v, is') \<and> is_ok is' bs (p + length xs)" by blast
qed

lemma decodesD:
  assumes "decodes r xs v" and "is_ok is bs p" and "p \<le> length bs" and d: "drop p bs = xs @ ys"
  obtains is' where "r is = Inr (v, is')" and "is_ok is' bs (p + length xs)"
    and "p + length xs \<le> length bs" and "drop (p + length xs) bs = ys"
proof -
  have "drop (p + length xs) bs = drop (length xs) (drop p bs)" by (simp add: add.commute)
  moreover have "length (drop p bs) = length xs + length ys" using d by simp
  ultimately show thesis using assms that by (fastforce simp: decodes_def)
qed

lemma decodes_bind:
  assumes "decodes r xs v" and "decodes (k v) ys v'"
  shows "decodes (\<lambda>is. ebind (r is) (case_prod k)) (xs @ ys) v'"
proof (rule decodesI)
  fix "is" bs p zs
  assume ok: "is_ok is bs p" and p: "p + length (xs @ ys) \<le> length bs" and d: "drop p bs = (xs @ ys) @ zs"
  from d p have "drop p bs = xs @ (ys @ zs)" "p \<le> length bs" by simp_all
  from decodesD [OF assms(1) ok this(2,1)] obtain is1 where 1: "r is = Inr (v, is1)"
    "is_ok is1 bs (p + length xs)" "p + length xs \<le> length bs" "drop (p + length xs) bs = ys @ zs" .
  from decodesD [OF assms(2) 1(2-4)] 1(1)
  show "\<exists>is'. ebind (r is) (case_prod k) = Inr (v', is') \<and> is_ok is' bs (p + length (xs @ ys))"
    by (auto simp: add.assoc)
qed

lemma decodes_Inr: "decodes (\<lambda>is. Inr (v, is)) [] v"
  by (rule decodesI) simp

lemma decodes_byte: "decodes (frt_is_read_byte m) [b] b"
proof (rule decodesI)
  fix "is" bs p ys
  assume "is_ok is bs p" and "p + length [b] \<le> length bs" and "drop p bs = [b] @ ys"
  moreover from this have "bs ! p = b" by (simp add: nth_drop_Cons)
  ultimately show "\<exists>is'. frt_is_read_byte m is = Inr (b, is') \<and> is_ok is' bs (p + length [b])"
    using frt_is_read_byte_ok by fastforce
qed

lemma decodes_bytes: "decodes (\<lambda>is. frt_is_read_bytes m is (length xs)) xs xs"
  by (rule decodesI) (use frt_is_read_bytes_ok in fastforce)

lemma decodes_byte_bind:
  "decodes (k b) ys v \<Longrightarrow> decodes (\<lambda>is. ebind (frt_is_read_byte m is) (case_prod k)) (b # ys) v"
  using decodes_bind [OF decodes_byte] by simp

subsection \<open>Fixed width integers\<close>

lemma decodes_cong: "decodes r xs v \<Longrightarrow> v = v' \<Longrightarrow> decodes r xs v'"
  by simp

lemma decodes_u32: "decodes (frt_is_read_u32 m) (enc_u32 x) x"
  unfolding frt_is_read_u32_def [abs_def] enc_u32_def list.map
  by (rule decodes_cong, (rule decodes_byte_bind decodes_Inr)+) (simp only: drop_bit_0 id_apply join_u32)

lemma decodes_u64: "decodes (frt_is_read_u64 m) (enc_u64 x) x"
  unfolding frt_is_read_u64_def [abs_def] enc_u64_def list.map
  by (rule decodes_cong, (rule decodes_byte_bind decodes_Inr)+) (simp only: drop_bit_0 id_apply join_u64)

lemma decodes_i32: "decodes (frt_is_read_i32 m) (enc_u32 x) x"
  using decodes_u32 by (simp only: frt_is_read_i32_def [abs_def] frt_is_read_u32_def [abs_def])

lemma decodes_i64: "decodes (frt_is_read_i64 m) (enc_u64 x) x"
  using decodes_u64 by (simp only: frt_is_read_i64_def [abs_def] frt_is_read_u64_def [abs_def])

subsection \<open>Variable length integers\<close>

text \<open>\<open>J is xs\<close>: the stream stands before \<open>xs\<close> and can read it byte by byte with \<open>rd\<close>.\<close>

lemma is_read_v_loop_ok:
  assumes step: "\<And>is b xs. J is (b # xs) \<Longrightarrow> \<exists>is'. rd is = Inr (b, is') \<and> J is' xs"
  shows "J is xs \<Longrightarrow> enc_v n = b # xs \<Longrightarrow> n * 2 ^ s < 2 ^ LENGTH('n) \<Longrightarrow>
    \<exists>is'. is_read_v_loop rd is b (r OR push_bit s (ucast (b AND 0x7F))) (s + 7) =
      Inr (r OR push_bit s (of_nat n) :: 'n::len word, is') \<and> J is' []"
proof (induction n arbitrary: "is" b xs r s rule: less_induct)
  case (less n)
  show ?case
  proof (cases "127 < n")
    case True
    let ?r = "r OR push_bit s (take_bit 7 (of_nat n)) :: 'n word"
    have b: "b = (of_nat n AND 0x7F) OR 0x80" and xs: "enc_v (n div 128) = xs"
      using less.prems(2) enc_v_large [OF True] by simp_all
    obtain c ys where c: "xs = c # ys" using xs enc_v_not_Nil by (cases xs) auto
    from step less.prems(1) obtain is1 where 1: "rd is = Inr (c, is1)" "J is1 ys"
      unfolding c by blast
    have "n div 128 * 128 * 2 ^ s \<le> n * 2 ^ s" by simp
    moreover have "n div 128 * 2 ^ (s + 7) = n div 128 * 128 * 2 ^ s" by (simp add: power_add)
    ultimately have small: "n div 128 * 2 ^ (s + 7) < 2 ^ LENGTH('n)"
      using less.prems(3) by linarith
    have "128 * 2 ^ s \<le> n * 2 ^ s" using True by (intro mult_right_mono) auto
    moreover have "2 ^ (s + 7) = (128 :: nat) * 2 ^ s" by (simp add: power_add)
    ultimately have "2 ^ (s + 7) < (2 :: nat) ^ LENGTH('n)"
      using less.prems(3) by linarith
    then have shift: "\<not> s + 7 \<ge> LENGTH('n)"
      using power_increasing [of "LENGTH('n)" "s + 7" "2 :: nat"] by linarith
    have "n div 128 < n" using True by simp
    from less.IH [OF this 1(2) _ small, of c ?r] xs obtain is2 where
      2: "is_read_v_loop rd is1 c (?r OR push_bit (s + 7) (ucast (c AND 0x7F))) (s + 7 + 7) =
        Inr (?r OR push_bit (s + 7) (of_nat (n div 128)), is2)" "J is2 []"
      by (auto simp: c)
    have "?r OR push_bit (s + 7) (of_nat (n div 128)) = r OR push_bit s (of_nat n)"
      by (simp only: or.assoc push_low_high)
    then show ?thesis
      using 1(1) 2 shift cont_byte_high [of "of_nat n"]
      by (subst is_read_v_loop.simps) (simp add: b cont_byte_low ucast_low_byte)
  next
    case False
    then have "b = of_nat n" "xs = []" using less.prems(2) by (simp_all add: enc_v_small)
    then show ?thesis
      using False less.prems(1) last_byte_high [of n] last_byte_low [of n]
        ucast_last_byte_of_nat [of n, where 'a = 'n]
      by (subst is_read_v_loop.simps) simp
  qed
qed

lemma is_read_v_ok:
  assumes step: "\<And>is b xs. J is (b # xs) \<Longrightarrow> \<exists>is'. rd is = Inr (b, is') \<and> J is' xs"
    and J: "J is (enc_v n)" and n: "n < 2 ^ LENGTH('n)"
  shows "\<exists>is'. is_read_v rd is = Inr (of_nat n :: 'n::len word, is') \<and> J is' []"
proof -
  obtain b xs where b: "enc_v n = b # xs" using enc_v_not_Nil by (cases "enc_v n") auto
  from step J obtain is1 where 1: "rd is = Inr (b, is1)" "J is1 xs" unfolding b by blast
  from is_read_v_loop_ok [where J = J and rd = rd and r = "0 :: 'n word" and s = 0, OF step 1(2) b] n 1
  show ?thesis by (auto simp: is_read_v_def)
qed

lemma is_read_v_checked:
  assumes n: "n < 2 ^ LENGTH('n)"
  shows "decodes (is_read_v (frt_is_read_byte m)) (enc_v n) (of_nat n :: 'n::len word)"
proof (rule decodesI)
  fix "is" bs p ys
  assume ok: "is_ok is bs p" and d: "drop p bs = enc_v n @ ys" and le: "p + length (enc_v n) \<le> length bs"
  define J where "J is xs \<longleftrightarrow> (\<exists>q. is_ok is bs q \<and> q \<le> length bs \<and> drop q bs = xs @ ys \<and>
    q + length xs = p + length (enc_v n))" for "is" xs
  have step: "\<exists>is'. frt_is_read_byte m is = Inr (b, is') \<and> J is' xs" if j: "J is (b # xs)" for "is" b xs
  proof -
    from j obtain q where q: "is_ok is bs q" "q \<le> length bs" "drop q bs = [b] @ (xs @ ys)"
      "q + Suc (length xs) = p + length (enc_v n)" by (auto simp: J_def)
    from decodesD [OF decodes_byte q(1-3)] obtain is' where "frt_is_read_byte m is = Inr (b, is')"
      "is_ok is' bs (q + length [b])" "q + length [b] \<le> length bs" "drop (q + length [b]) bs = xs @ ys" .
    then show ?thesis using q(4) by (auto simp: J_def intro!: exI [of _ "Suc q"])
  qed
  have "J is (enc_v n)" using ok d le by (auto simp: J_def)
  from is_read_v_ok [where J = J and rd = "frt_is_read_byte m", OF step this n] obtain is' where
    "is_read_v (frt_is_read_byte m) is = Inr (of_nat n :: 'n word, is')" "J is' []" by blast
  moreover from this(2) have "is_ok is' bs (p + length (enc_v n))"
    by (simp add: J_def)
  ultimately show "\<exists>is'. is_read_v (frt_is_read_byte m) is = Inr (of_nat n :: 'n word, is') \<and>
      is_ok is' bs (p + length (enc_v n))" by blast
qed

text \<open>The unchecked loop stays inside the buffer when the encoding does.\<close>

lemma is_read_v_unchecked:
  assumes n: "n < 2 ^ LENGTH('n)" and ok: "is_ok is bs p" and d: "drop p bs = enc_v n @ ys"
    and room: "is_pos is + int (length (enc_v n)) \<le> is_len is"
  shows "\<exists>is'. is_read_v read_byte is = Inr (of_nat n :: 'n::len word, is') \<and>
    is_ok is' bs (p + length (enc_v n))"
proof -
  define J where "J is xs \<longleftrightarrow> (\<exists>q. is_ok is bs q \<and> drop q bs = xs @ ys \<and>
    q + length xs = p + length (enc_v n) \<and> is_pos is + int (length xs) \<le> is_len is)" for "is" xs
  have step: "\<exists>is'. read_byte is = Inr (b, is') \<and> J is' xs" if j: "J is (b # xs)" for "is" b xs
  proof -
    from j obtain q where q: "is_ok is bs q" "drop q bs = b # (xs @ ys)"
      "q + Suc (length xs) = p + length (enc_v n)" "is_pos is < is_len is"
      "is_pos is + int (Suc (length xs)) \<le> is_len is" by (auto simp: J_def)
    from read_byte_ok [OF q(1,4)] q show ?thesis
      by (auto simp: J_def nth_drop_Cons intro!: exI [of _ "Suc q"])
  qed
  have "J is (enc_v n)" using ok d room by (auto simp: J_def)
  from is_read_v_ok [where J = J and rd = read_byte, OF step this n] obtain is' where
    "is_read_v read_byte is = Inr (of_nat n :: 'n word, is')" "J is' []" by blast
  moreover from this(2) have "is_ok is' bs (p + length (enc_v n))"
    by (simp add: J_def)
  ultimately show ?thesis by blast
qed

lemma is_read_v_either:
  assumes n: "n < 2 ^ LENGTH('n)" and short: "length (enc_v n) \<le> VINT_MAX_LEN"
  shows "decodes (\<lambda>is. if is_pos is > is_len is - int VINT_MAX_LEN then is_read_v (frt_is_read_byte m) is
    else is_read_v read_byte is) (enc_v n) (of_nat n :: 'n::len word)"
proof (rule decodesI)
  fix "is" bs p ys
  assume *: "is_ok is bs p" "p + length (enc_v n) \<le> length bs" "drop p bs = enc_v n @ ys"
  show "\<exists>is'. (if is_pos is > is_len is - int VINT_MAX_LEN then is_read_v (frt_is_read_byte m) is
    else is_read_v read_byte is) = Inr (of_nat n :: 'n word, is') \<and> is_ok is' bs (p + length (enc_v n))"
  proof (cases "is_pos is > is_len is - int VINT_MAX_LEN")
    case True
    have "p \<le> length bs" using *(2) by simp
    from decodesD [OF is_read_v_checked [where 'n = 'n, OF n] *(1) this *(3)] obtain is' where
      "is_read_v (frt_is_read_byte m) is = Inr (of_nat n :: 'n word, is')"
      "is_ok is' bs (p + length (enc_v n))" .
    with True show ?thesis by simp
  next
    case False
    with is_read_v_unchecked [OF n *(1,3)] short show ?thesis by simp
  qed
qed

lemma decodes_vint: "decodes (frt_is_read_vint m) (enc_v (unat x)) x"
proof -
  have "length (enc_v (unat x)) \<le> VINT_MAX_LEN"
    using length_enc_v_u32 [of x] by (simp add: VINT_MAX_LEN_def)
  from is_read_v_either [OF unat_bound this] show ?thesis
    by (simp add: frt_is_read_vint_def [abs_def])
qed

lemma decodes_vll: "decodes (frt_is_read_vll m) (enc_v (unat x)) x"
proof -
  have "length (enc_v (unat x)) \<le> VINT_MAX_LEN"
    using length_enc_v_u64 [of x] by (simp add: VINT_MAX_LEN_def)
  from is_read_v_either [OF unat_bound this] show ?thesis
    by (simp add: frt_is_read_vll_def [abs_def])
qed

lemma decodes_voff_t:
  assumes n: "n < 2 ^ 63"
  shows "decodes (frt_is_read_voff_t m) (enc_v n) (int n)"
proof -
  have n64: "n < 2 ^ LENGTH(64)" using n by simp
  have x: "unat (of_nat n :: u64) = n" using off_word(1) [of n] n by simp
  have short: "length (enc_v n) \<le> VINT_MAX_LEN"
    using length_enc_v_u64 [of "of_nat n"] unfolding x by (simp add: VINT_MAX_LEN_def)
  have s: "sint (of_nat n :: u64) = int n"
    using n by (simp add: signed_of_nat signed_take_bit_int_eq_self)
  have "decodes (\<lambda>is. Inr (sint (of_nat n :: u64), is)) [] (int n)"
    unfolding s by (rule decodes_Inr)
  from decodes_bind [OF is_read_v_either [OF n64 short], where k = "\<lambda>res is. Inr (sint res, is)", OF this]
  show ?thesis by (simp add: frt_is_read_voff_t_def [abs_def])
qed

subsection \<open>Strings\<close>

lemma is_read_byte_loop_ok: "decodes (\<lambda>is. is_read_byte_loop m is (length xs)) xs xs"
proof (induction xs)
  case Nil
  show ?case by (simp add: decodes_Inr)
next
  case (Cons b xs)
  have "decodes (\<lambda>is. ebind (is_read_byte_loop m is (length xs)) (\<lambda>(bs, is). Inr (b # bs, is))) xs (b # xs)"
    using decodes_bind [OF Cons decodes_Inr] by simp
  from decodes_byte_bind [where k = "\<lambda>b is. ebind (is_read_byte_loop m is (length xs)) (\<lambda>(bs, is). Inr (b # bs, is))",
      OF this]
  show ?case by simp
qed

lemma decodes_string:
  assumes n: "length s < 2 ^ 31"
  shows "decodes (frt_is_read_string m) (enc_string s) s"
proof -
  let ?n = "of_nat (length s) :: u32"
  have un: "unat ?n = length s" using n by (simp add: unat_of_nat)
  have sn: "sint ?n = int (length s)" using n by (simp add: signed_of_nat signed_take_bit_int_eq_self)
  define K where "K len is = (let length = sint len in
       if length < 0 then Inl UndefinedBehaviour
       else if is_pos is > is_len is - length then is_read_byte_loop m is (nat length)
       else if 0 \<le> is_pos is \<and> is_pos is + length \<le> int (List.length (is_buf is))
         then Inr (take (nat length) (drop (nat (is_pos is)) (is_buf is)), is\<lparr>is_pos := is_pos is + length\<rparr>)
         else Inl UndefinedBehaviour)" for len :: u32 and "is"
  have "decodes (K ?n) s s"
  proof (rule decodesI)
    fix "is" bs p ys
    assume *: "is_ok is bs p" "p + length s \<le> length bs" "drop p bs = s @ ys"
    show "\<exists>is'. K ?n is = Inr (s, is') \<and> is_ok is' bs (p + length s)"
    proof (cases "is_pos is > is_len is - int (length s)")
      case True
      have "p \<le> length bs" using *(2) by simp
      from decodesD [OF is_read_byte_loop_ok *(1) this *(3)] True show ?thesis
        unfolding sn Let_def K_def by auto
    next
      case False
      from *(1) show ?thesis
      proof (rule is_okE)
        fix st q l
        assume i: "valid (is_file is)" "content (is_file is) = bs" "is_start is = int st"
          "is_pos is = int q" "is_len is = int l" "q \<le> l" "l = 0 \<or> st + l \<le> length bs"
          "is_buf is = take l (drop st bs)" "ready (is_file is) (st + l)" "p = st + q"
        have ql: "q + length s \<le> l" using i(4,5) False by linarith
        have "l = 0 \<or> st + l \<le> length bs" by (rule i(7))
        then have len: "length (is_buf is) = l" using i(8) by auto
        have "take (length s) (drop q (is_buf is)) = take (length s) (drop p bs)"
          using ql by (simp add: i(8,10) drop_take min_def add.commute)
        then have s: "take (length s) (drop q (is_buf is)) = s" using *(3) by simp
        have "is_ok (is\<lparr>is_pos := is_pos is + int (length s)\<rparr>) bs (p + length s)"
          by (rule is_okI [where s = st and q = "q + length s" and l = l]) (use i ql in auto)
        then show ?thesis
          using False ql len s unfolding sn Let_def K_def by (simp add: i(4))
      qed
    qed
  qed
  from decodes_bind [where k = K, OF decodes_vint [of ?n] this] show ?thesis
    by (simp only: un enc_string_def frt_is_read_string_def [abs_def] K_def [abs_def] case_prod_beta')
qed

subsection \<open>Skipping\<close>

lemma is_skip_vint_ok:
  "decodes (\<lambda>is. ebind (is_skip_vint (length (enc_v n) + k) m is) (\<lambda>is. Inr ((), is))) (enc_v n) ()"
proof (induction n rule: less_induct)
  case (less n)
  let ?b = "(of_nat n AND 0x7F) OR 0x80 :: byte"
  show ?case
  proof (cases "127 < n")
    case True
    let ?k = "\<lambda>(b :: byte) is. ebind (if b AND 0x80 \<noteq> 0 then is_skip_vint (length (enc_v (n div 128)) + k) m is else Inr is)
      (\<lambda>is. Inr ((), is))"
    have "n div 128 < n" using True by simp
    then have "decodes (?k ?b) (enc_v (n div 128)) ()"
      using less cont_byte_high [of "of_nat n"] by simp
    from decodes_byte_bind [where k = ?k, OF this] show ?thesis
      by (simp add: enc_v_large [OF True] ebind_assoc case_prod_beta')
  next
    case False
    let ?k = "\<lambda>(b :: byte) is. ebind (if b AND 0x80 \<noteq> 0 then is_skip_vint k m is else Inr is) (\<lambda>is. Inr ((), is))"
    from False have "decodes (?k (of_nat n)) [] ()"
      using last_byte_high [of n] by (simp add: decodes_Inr)
    from decodes_byte_bind [where k = ?k, OF this] False show ?thesis
      by (simp add: enc_v_small ebind_assoc case_prod_beta')
  qed
qed

lemma frt_is_skip_vints_ok:
  "is_ok is bs p \<Longrightarrow> p \<le> length bs \<Longrightarrow> drop p bs = concat (map enc_v ns) @ ys \<Longrightarrow>
   \<exists>is'. frt_is_skip_vints m is (length ns) = Inr is' \<and> is_ok is' bs (p + length (concat (map enc_v ns)))"
proof (induction ns arbitrary: "is" p)
  case Nil
  then show ?case by simp
next
  case (Cons n ns)
  have d: "drop p bs = enc_v n @ (concat (map enc_v ns) @ ys)" using Cons.prems by simp
  have "length (drop p bs) \<ge> length (enc_v n)" unfolding d by simp
  then obtain k where k: "Suc (nat (length_i m (is_file is))) = length (enc_v n) + k"
    using length_ok [OF Cons.prems(1)] le_Suc_ex [of "length (enc_v n)" "Suc (length bs)"]
    by (metis diff_le_self le_Suc_eq length_drop nat_int order_trans)
  obtain is1 where 1: "is_skip_vint (length (enc_v n) + k) m is = Inr is1"
    "is_ok is1 bs (p + length (enc_v n))" "p + length (enc_v n) \<le> length bs"
    "drop (p + length (enc_v n)) bs = concat (map enc_v ns) @ ys"
    by (rule decodesD [OF is_skip_vint_ok [of n k] Cons.prems(1,2) d]) (auto simp: ebind_eq_Inr)
  from Cons.IH [OF 1(2-4)] 1(1) show ?case by (auto simp: k add.assoc simp del: is_skip_vint.simps)
qed

end

section \<open>A source and a sink\<close>

locale stream_copy = src: in_source mi iv ic ir + dst: out_source mo ov oc oa orr
  for mi :: "'g is_methods" and iv ic ir and mo :: "('f, 'w) os_methods" and ov oc oa
    and orr :: "'f \<Rightarrow> 'w \<Rightarrow> 'r"
begin

lemma frt_is2os_copy_bytes_ok:
  "src.is_ok is bs p \<Longrightarrow> p + n \<le> length bs \<Longrightarrow> dst.os_ok os w R ds q \<Longrightarrow>
   \<exists>is' os' w'. frt_is2os_copy_bytes mi mo is os (int n) w = Inr (is', os', w') \<and>
     src.is_ok is' bs (p + n) \<and> dst.os_ok os' w' R (write_at ds q (take n (drop p bs))) (q + n)"
proof (induction n arbitrary: "is" p os w ds q rule: less_induct)
  case (less n)
  show ?case
  proof (cases "n = 0")
    case True
    with less.prems show ?thesis by (simp add: frt_is2os_copy_bytes.simps)
  next
    case False
    define k where "k = (if int n > int FRT_BUFFER_SIZE then FRT_BUFFER_SIZE else nat (int n))"
    have k: "k \<le> n" by (simp add: k_def)
    from src.frt_is_read_bytes_ok [OF less.prems(1), of k] less.prems(2) k obtain is1 where
      1: "frt_is_read_bytes mi is k = Inr (take k (drop p bs), is1)" "src.is_ok is1 bs (p + k)" by auto
    have lk: "length (take k (drop p bs)) = k" using less.prems(2) k by simp
    from dst.writesD [OF dst.writes_bytes less.prems(3), of "take k (drop p bs)"] obtain os1 w1 where
      2: "frt_os_write_bytes mo os (take k (drop p bs)) w = Inr (os1, w1)"
      "dst.os_ok os1 w1 R (write_at ds q (take k (drop p bs))) (q + k)"
      unfolding lk by (auto simp: dst.wrote_def)
    have eq: "write_at (write_at ds q (take k (drop p bs))) (q + k) (take (n - k) (drop (p + k) bs)) =
        write_at ds q (take n (drop p bs))"
      using write_at_write_at [OF dst.os_ok_le [OF less.prems(3)], of "take k (drop p bs)"]
        take_drop_append [of k p bs "n - k"] k lk by simp
    have unf: "frt_is2os_copy_bytes mi mo is os (int n) w =
        frt_is2os_copy_bytes mi mo is1 os1 (int n - int FRT_BUFFER_SIZE) w1"
      using False 1(1) 2(1)
      by (subst frt_is2os_copy_bytes.simps) (simp only: Let_def k_def [symmetric] ebind_simps prod.case, simp)
    show ?thesis
    proof (cases "n \<le> FRT_BUFFER_SIZE")
      case True
      then have "k = n" by (simp add: k_def)
      with unf 1(2) 2(2) True show ?thesis by (simp add: frt_is2os_copy_bytes.simps)
    next
      case False
      then have kk: "k = FRT_BUFFER_SIZE" by (simp add: k_def)
      have "n - k < n" using \<open>n \<noteq> 0\<close> kk by (simp add: FRT_BUFFER_SIZE_def)
      from less.IH [OF this 1(2) _ 2(2)] less.prems(2) k have
        "\<exists>is' os' w'. frt_is2os_copy_bytes mi mo is1 os1 (int (n - k)) w1 = Inr (is', os', w') \<and>
          src.is_ok is' bs (p + n) \<and> dst.os_ok os' w' R (write_at ds q (take n (drop p bs))) (q + n)"
        by (simp add: eq)
      moreover have "int (n - k) = int n - int FRT_BUFFER_SIZE" using False kk by simp
      ultimately show ?thesis unfolding unf by simp
    qed
  qed
qed

end

end
