(* ===== verification/FrtFields.thy ===== *)
theory FrtFields
  imports FrtStreamRead
begin

text \<open>
  Sequences of typed values on streams. A \<open>field\<close> is a value with the writer it goes through; reading
  it back uses the reader of the same name. \<open>write_fields\<close> and \<open>read_fields\<close> are how the index code
  uses the streams: values one after the other, the reader knowing which comes next. The
  lemmas lift the laws of the single writers and readers to sequences.
\<close>

datatype field =
    FByte byte
  | FU32 u32
  | FU64 u64
  | FI32 u32
  | FI64 u64
  | FVint u32
  | FVll u64
  | FVoff int
  | FString "byte list"
  | FBytes "byte list"

definition field_ok :: "field \<Rightarrow> bool" where
  "field_ok fl = (case fl of FVoff n \<Rightarrow> 0 \<le> n \<and> n < 2 ^ 63 | FString s \<Rightarrow> length s < 2 ^ 31 | _ \<Rightarrow> True)"

definition enc_field :: "field \<Rightarrow> byte list" where
  "enc_field fl = (case fl of FByte b \<Rightarrow> [b] | FU32 x \<Rightarrow> enc_u32 x | FU64 x \<Rightarrow> enc_u64 x | FI32 x \<Rightarrow> enc_u32 x
     | FI64 x \<Rightarrow> enc_u64 x | FVint x \<Rightarrow> enc_v (unat x) | FVll x \<Rightarrow> enc_v (unat x) | FVoff n \<Rightarrow> enc_v (nat n)
     | FString s \<Rightarrow> enc_string s | FBytes bs \<Rightarrow> bs)"

definition write_field ::
  "('f, 'w) os_methods \<Rightarrow> field \<Rightarrow> 'f outstream \<Rightarrow> 'w \<Rightarrow> ('f outstream \<times> 'w) res" where
  "write_field m fl os w = (case fl of
     FByte b \<Rightarrow> frt_os_write_byte m os b w | FU32 x \<Rightarrow> frt_os_write_u32 m os x w
   | FU64 x \<Rightarrow> frt_os_write_u64 m os x w | FI32 x \<Rightarrow> frt_os_write_i32 m os x w
   | FI64 x \<Rightarrow> frt_os_write_i64 m os x w | FVint x \<Rightarrow> frt_os_write_vint m os x w
   | FVll x \<Rightarrow> frt_os_write_vll m os x w | FVoff n \<Rightarrow> frt_os_write_voff_t m os n w
   | FString s \<Rightarrow> frt_os_write_string m os s w | FBytes bs \<Rightarrow> frt_os_write_bytes m os bs w)"

text \<open>Reading takes the kind of the field from the given one (and the length of raw bytes), nothing else.\<close>

definition read_field :: "'f is_methods \<Rightarrow> field \<Rightarrow> 'f instream \<Rightarrow> (field \<times> 'f instream) res" where
  "read_field m fl is = (case fl of
     FByte _ \<Rightarrow> ebind (frt_is_read_byte m is) (\<lambda>(v, is). Inr (FByte v, is))
   | FU32 _ \<Rightarrow> ebind (frt_is_read_u32 m is) (\<lambda>(v, is). Inr (FU32 v, is))
   | FU64 _ \<Rightarrow> ebind (frt_is_read_u64 m is) (\<lambda>(v, is). Inr (FU64 v, is))
   | FI32 _ \<Rightarrow> ebind (frt_is_read_i32 m is) (\<lambda>(v, is). Inr (FI32 v, is))
   | FI64 _ \<Rightarrow> ebind (frt_is_read_i64 m is) (\<lambda>(v, is). Inr (FI64 v, is))
   | FVint _ \<Rightarrow> ebind (frt_is_read_vint m is) (\<lambda>(v, is). Inr (FVint v, is))
   | FVll _ \<Rightarrow> ebind (frt_is_read_vll m is) (\<lambda>(v, is). Inr (FVll v, is))
   | FVoff _ \<Rightarrow> ebind (frt_is_read_voff_t m is) (\<lambda>(v, is). Inr (FVoff v, is))
   | FString _ \<Rightarrow> ebind (frt_is_read_string m is) (\<lambda>(v, is). Inr (FString v, is))
   | FBytes bs \<Rightarrow> ebind (frt_is_read_bytes m is (length bs)) (\<lambda>(v, is). Inr (FBytes v, is)))"

fun write_fields ::
  "('f, 'w) os_methods \<Rightarrow> field list \<Rightarrow> 'f outstream \<Rightarrow> 'w \<Rightarrow> ('f outstream \<times> 'w) res" where
  "write_fields m [] os w = Inr (os, w)"
| "write_fields m (fl # fls) os w = ebind (write_field m fl os w) (\<lambda>(os, w). write_fields m fls os w)"

fun read_fields :: "'f is_methods \<Rightarrow> field list \<Rightarrow> 'f instream \<Rightarrow> (field list \<times> 'f instream) res" where
  "read_fields m [] is = Inr ([], is)"
| "read_fields m (fl # fls) is =
     ebind (read_field m fl is) (\<lambda>(v, is). ebind (read_fields m fls is) (\<lambda>(vs, is). Inr (v # vs, is)))"

context out_source
begin

lemma writes_field:
  assumes "field_ok fl"
  shows "writes (write_field m fl) (enc_field fl)"
proof (cases fl)
  case (FVoff n)
  then have "nat n < 2 ^ 63" "int (nat n) = n" using assms by (auto simp: field_ok_def nat_less_iff)
  with writes_voff_t [of "nat n"] FVoff show ?thesis by (simp add: write_field_def [abs_def] enc_field_def)
next
  case (FString s)
  then have "length s < 2 ^ 32" using assms by (simp add: field_ok_def)
  with writes_string FString show ?thesis by (simp add: write_field_def [abs_def] enc_field_def)
qed (simp_all add: write_field_def [abs_def] enc_field_def writes_byte writes_u32 writes_u64 writes_i32 writes_i64
    writes_vint writes_vll writes_bytes)

lemma writes_fields: "\<forall>fl \<in> set fls. field_ok fl \<Longrightarrow> writes (write_fields m fls) (concat (map enc_field fls))"
proof (induction fls)
  case Nil
  show ?case using writes_Inr by (simp add: fun_eq_iff [symmetric] write_fields.simps(1) [abs_def])
next
  case (Cons fl fls)
  then have "writes (\<lambda>os w. ebind (write_field m fl os w) (case_prod (write_fields m fls)))
      (enc_field fl @ concat (map enc_field fls))"
    by (intro writes_bind writes_field) auto
  then show ?case by (simp add: write_fields.simps(2) [abs_def])
qed

end

lemma frt_is_read_string_safe_eq: "frt_is_read_string_safe = frt_is_read_string"
  by (simp add: fun_eq_iff frt_is_read_string_safe_def frt_is_read_string_def)

context in_source
begin

lemma decodes_map: "decodes r xs v \<Longrightarrow> decodes (\<lambda>is. ebind (r is) (\<lambda>(v, is). Inr (f v, is))) xs (f v)"
  using decodes_bind [where k = "\<lambda>v is. Inr (f v, is)" and ys = "[]", OF _ decodes_Inr] by simp

lemma decodes_field:
  assumes "field_ok fl"
  shows "decodes (read_field m fl) (enc_field fl) fl"
proof (cases fl)
  case (FVoff n)
  then have "nat n < 2 ^ 63" "int (nat n) = n" using assms by (auto simp: field_ok_def nat_less_iff)
  with decodes_map [OF decodes_voff_t, of "nat n" FVoff] FVoff
  show ?thesis by (simp add: read_field_def [abs_def] enc_field_def)
next
  case (FString s)
  then have "length s < 2 ^ 31" using assms by (simp add: field_ok_def)
  from decodes_map [OF decodes_string [OF this], of FString] FString
  show ?thesis by (simp add: read_field_def [abs_def] enc_field_def)
qed (simp_all add: read_field_def [abs_def] enc_field_def decodes_map [OF decodes_byte] decodes_map [OF decodes_u32]
    decodes_map [OF decodes_u64] decodes_map [OF decodes_i32] decodes_map [OF decodes_i64] decodes_map [OF decodes_vint]
    decodes_map [OF decodes_vll] decodes_map [OF decodes_bytes])

lemma decodes_fields: "\<forall>fl \<in> set fls. field_ok fl \<Longrightarrow> decodes (read_fields m fls) (concat (map enc_field fls)) fls"
proof (induction fls)
  case Nil
  show ?case using decodes_Inr by (simp add: read_fields.simps(1) [abs_def])
next
  case (Cons fl fls)
  let ?k = "\<lambda>v is. ebind (read_fields m fls is) (\<lambda>(vs, is). Inr (v # vs, is))"
  have "decodes (?k fl) (concat (map enc_field fls)) (fl # fls)"
    using Cons by (intro decodes_map [where f = "(#) fl"]) auto
  moreover have "decodes (read_field m fl) (enc_field fl) fl" using Cons.prems by (intro decodes_field) simp
  ultimately have "decodes (\<lambda>is. ebind (read_field m fl is) (case_prod ?k)) (enc_field fl @ concat (map enc_field fls)) (fl # fls)"
    by (intro decodes_bind [where k = ?k])
  then show ?case by (simp add: read_fields.simps(2) [abs_def])
qed

end

end
