(* ===== verification/FrtHash.thy ===== *)
theory FrtHash
  imports FrtPrelude
begin

unbundle bit_operations_syntax

text \<open>
  The open addressing hash table of \<open>frt_hash.c\<close>.

  \<^item> \<open>voidp\<close>: the \<open>void *\<close> a key is. \<open>PNull\<close> is the null pointer, \<open>PDummy\<close> and \<open>PDummyInt\<close> are the
    addresses of \<open>dummy_key\<close> and \<open>dummy_int_key\<close>, \<open>PInt n\<close> an integer cast to a pointer and
    \<open>PKey k\<close> any other pointer; two pointers are the same iff they are equal terms.
  \<^item> \<open>hash_entry\<close> is \<open>FrtHashEntry\<close>; a value is \<open>None\<close> when it is \<open>NULL\<close>.
  \<^item> \<open>frt_hash\<close> is \<open>FrtHash\<close>: the array \<open>table\<close> is a list of \<open>mask + 1\<close> entries (whether it is
    \<open>smalltable\<close> or allocated does not show), the function pointers are fields, \<open>free_key_i\<close> and
    \<open>free_value_i\<close> are whether they differ from \<open>frt_dummy_free\<close>, and \<open>h_freed\<close> lists what was passed
    to them, oldest first.
  \<^item> The probe index \<open>i\<close> is a C \<open>int\<close> that the code lets overflow; it is a 32 bit word here, as the
    compilers in use make it. \<open>fill\<close>, \<open>size\<close> and table sizes are mathematical integers.
  \<^item> The probe loops have no bound in the code. Here they have fuel, \<open>probe_fuel\<close> steps: 13 until the
    64 bits of \<open>perturb\<close> are shifted out and one for every slot of the table. \<open>FrtHashLaws\<close> shows
    that a table in use never needs more, so the result \<open>UndefinedBehaviour\<close> does not arise.
\<close>

section \<open>The table\<close>

datatype 'k voidp = PNull | PDummy | PDummyInt | PInt u64 | PKey 'k

record ('k, 'v) hash_entry =
  he_hash :: u64
  he_key :: "'k voidp"
  he_value :: "'v option"

datatype ('k, 'v) freed = FreeKey "'k voidp" | FreeValue "'v option"

datatype lookup_ft = lookup_str | lookup_ptr

record ('k, 'v) frt_hash =
  h_fill :: int
  h_size :: int
  h_mask :: nat
  h_table :: "('k, 'v) hash_entry list"
  h_lookup_i :: lookup_ft
  h_hash_i :: "'k \<Rightarrow> u64"
  h_eq_i :: "'k \<Rightarrow> 'k \<Rightarrow> bool"
  h_free_key_i :: bool
  h_free_value_i :: bool
  h_freed :: "('k, 'v) freed list"

datatype hash_key_status = FRT_HASH_KEY_DOES_NOT_EXIST | FRT_HASH_KEY_EQUAL | FRT_HASH_KEY_SAME

definition FRT_HASH_MINSIZE :: nat where
  "FRT_HASH_MINSIZE = 16"

definition FRT_SLOW_DOWN :: int where
  "FRT_SLOW_DOWN = 50000"

definition PERTURB_SHIFT :: nat where
  "PERTURB_SHIFT = 5"

definition empty_entry :: "('k, 'v) hash_entry" where
  "empty_entry = \<lparr>he_hash = 0, he_key = PNull, he_value = None\<rparr>"

definition he_active :: "('k, 'v) hash_entry \<Rightarrow> bool" where
  "he_active he \<longleftrightarrow> he_key he \<noteq> PNull \<and> he_key he \<noteq> PDummy"

definition free_key_i :: "('k, 'v) frt_hash \<Rightarrow> 'k voidp \<Rightarrow> ('k, 'v) frt_hash" where
  "free_key_i self p = (if h_free_key_i self then self\<lparr>h_freed := h_freed self @ [FreeKey p]\<rparr> else self)"

definition free_value_i :: "('k, 'v) frt_hash \<Rightarrow> 'v option \<Rightarrow> ('k, 'v) frt_hash" where
  "free_value_i self p = (if h_free_value_i self then self\<lparr>h_freed := h_freed self @ [FreeValue p]\<rparr> else self)"

section \<open>Hash functions and equality\<close>

text \<open>A C string as a key is its address and its characters; \<open>str_eq\<close> gets no null pointer here.\<close>

type_synonym cstr = "nat \<times> byte list"

fun str_hash_loop :: "u64 \<Rightarrow> byte list \<Rightarrow> u64" where
  "str_hash_loop h [] = h"
| "str_hash_loop h (c # p) = str_hash_loop (37 * h + ucast c) p"

definition frt_str_hash :: "cstr \<Rightarrow> u64" where
  "frt_str_hash str = str_hash_loop 0 (snd str)"

definition str_eq :: "cstr \<Rightarrow> cstr \<Rightarrow> bool" where
  "str_eq q1 q2 \<longleftrightarrow> snd q1 = snd q2"

definition frt_ptr_hash :: "u64 \<Rightarrow> u64" where
  "frt_ptr_hash p = p"

definition frt_ptr_eq :: "u64 \<Rightarrow> u64 \<Rightarrow> bool" where
  "frt_ptr_eq q1 q2 \<longleftrightarrow> q1 = q2"

section \<open>Probing\<close>

definition slot_of :: "nat \<Rightarrow> u32 \<Rightarrow> nat" where
  "slot_of msk i = unat (i AND of_nat msk)"

definition first_i :: "nat \<Rightarrow> u64 \<Rightarrow> u32" where
  "first_i msk hash = ucast (hash AND of_nat msk)"

definition next_i :: "u32 \<Rightarrow> u64 \<Rightarrow> u32" where
  "next_i i perturb = push_bit 2 i + i + ucast perturb + 1"

definition probe_fuel :: "'a list \<Rightarrow> nat" where
  "probe_fuel table = 13 + length table"

text \<open>\<open>frt_h_resize_lookup\<close>: the index of the first free slot, and the table with its hash set.\<close>

fun resize_lookup_loop ::
  "('k, 'v) hash_entry list \<Rightarrow> nat \<Rightarrow> nat \<Rightarrow> u32 \<Rightarrow> u64 \<Rightarrow> nat res" where
  "resize_lookup_loop table msk 0 i perturb = Inl UndefinedBehaviour"
| "resize_lookup_loop table msk (Suc fuel) i perturb =
     (let i = next_i i perturb; j = slot_of msk i in
      if he_key (table ! j) = PNull then Inr j
      else resize_lookup_loop table msk fuel i (drop_bit PERTURB_SHIFT perturb))"

definition claim_slot :: "('k, 'v) frt_hash \<Rightarrow> nat \<Rightarrow> u64 \<Rightarrow> ('k, 'v) frt_hash" where
  "claim_slot self j hash = self\<lparr>h_table := (h_table self)[j := (h_table self ! j)\<lparr>he_hash := hash\<rparr>]\<rparr>"

definition frt_h_resize_lookup ::
  "('k, 'v) frt_hash \<Rightarrow> u64 \<Rightarrow> (nat \<times> ('k, 'v) frt_hash) res" where
  "frt_h_resize_lookup self hash =
     (let msk = h_mask self; table = h_table self; i = first_i msk hash; j = slot_of msk i in
      if he_key (table ! j) = PNull then Inr (j, claim_slot self j hash)
      else ebind (resize_lookup_loop table msk (probe_fuel table) i hash)
        (\<lambda>j. Inr (j, claim_slot self j hash)))"

text \<open>
  \<open>frt_h_lookup_ptr\<close>: the slot, and whether its hash is to be set. The key is an integer.
\<close>

fun lookup_ptr_loop ::
  "('k, 'v) hash_entry list \<Rightarrow> nat \<Rightarrow> u64 \<Rightarrow> nat \<Rightarrow> u32 \<Rightarrow> u64 \<Rightarrow> nat option \<Rightarrow> (nat \<times> bool) res" where
  "lookup_ptr_loop table msk hash 0 i perturb freeslot = Inl UndefinedBehaviour"
| "lookup_ptr_loop table msk hash (Suc fuel) i perturb freeslot =
     (let i = next_i i perturb; j = slot_of msk i; he = table ! j in
      if he_key he = PNull then Inr (case freeslot of Some s \<Rightarrow> s | None \<Rightarrow> j, True)
      else if he_hash he = hash then Inr (j, False)
      else lookup_ptr_loop table msk hash fuel i (drop_bit PERTURB_SHIFT perturb)
        (if he_key he = PDummy \<and> freeslot = None then Some j else freeslot))"

definition frt_h_lookup_ptr ::
  "('k, 'v) frt_hash \<Rightarrow> 'k voidp \<Rightarrow> (nat \<times> ('k, 'v) frt_hash) res" where
  "frt_h_lookup_ptr self key =
     (case key of
        PInt hash \<Rightarrow>
          (let msk = h_mask self; table = h_table self; i = first_i msk hash; j = slot_of msk i;
               he = table ! j in
           if he_key he = PNull then Inr (j, claim_slot self j hash)
           else if he_hash he = hash then Inr (j, self)
           else ebind (lookup_ptr_loop table msk hash (probe_fuel table) i hash
                        (if he_key he = PDummy then Some j else None))
             (\<lambda>(j, claim). Inr (j, if claim then claim_slot self j hash else self)))
      | _ \<Rightarrow> Inl UndefinedBehaviour)"

text \<open>\<open>eq(he->key, key)\<close>: the comparison is only given the keys the caller stored.\<close>

definition eq_keys :: "('k \<Rightarrow> 'k \<Rightarrow> bool) \<Rightarrow> 'k voidp \<Rightarrow> 'k voidp \<Rightarrow> bool" where
  "eq_keys eq p q = (case (p, q) of (PKey k, PKey l) \<Rightarrow> eq k l | _ \<Rightarrow> False)"

fun lookup_loop ::
  "('k \<Rightarrow> 'k \<Rightarrow> bool) \<Rightarrow> ('k, 'v) hash_entry list \<Rightarrow> nat \<Rightarrow> u64 \<Rightarrow> 'k voidp \<Rightarrow> nat \<Rightarrow> u32 \<Rightarrow> u64
     \<Rightarrow> nat option \<Rightarrow> (nat \<times> bool) res" where
  "lookup_loop eq table msk hash key 0 i perturb freeslot = Inl UndefinedBehaviour"
| "lookup_loop eq table msk hash key (Suc fuel) i perturb freeslot =
     (let i = next_i i perturb; j = slot_of msk i; he = table ! j in
      if he_key he = PNull then Inr (case freeslot of Some s \<Rightarrow> s | None \<Rightarrow> j, True)
      else if he_key he = key \<or> he_hash he = hash \<and> he_key he \<noteq> PDummy \<and> eq_keys eq (he_key he) key
        then Inr (j, False)
      else lookup_loop eq table msk hash key fuel i (drop_bit PERTURB_SHIFT perturb)
        (if he_key he = PDummy \<and> freeslot = None then Some j else freeslot))"

definition frt_h_lookup ::
  "('k, 'v) frt_hash \<Rightarrow> 'k voidp \<Rightarrow> (nat \<times> ('k, 'v) frt_hash) res" where
  "frt_h_lookup self key =
     (case key of
        PKey k \<Rightarrow>
          (let hash = h_hash_i self k; msk = h_mask self; table = h_table self; eq = h_eq_i self;
               i = first_i msk hash; j = slot_of msk i; he = table ! j in
           if he_key he = PNull \<or> he_key he = key then Inr (j, claim_slot self j hash)
           else if he_key he \<noteq> PDummy \<and> he_hash he = hash \<and> eq_keys eq (he_key he) key then Inr (j, self)
           else ebind (lookup_loop eq table msk hash key (probe_fuel table) i hash
                        (if he_key he = PDummy then Some j else None))
             (\<lambda>(j, claim). Inr (j, if claim then claim_slot self j hash else self)))
      | _ \<Rightarrow> Inl UndefinedBehaviour)"

definition lookup_i :: "('k, 'v) frt_hash \<Rightarrow> 'k voidp \<Rightarrow> (nat \<times> ('k, 'v) frt_hash) res" where
  "lookup_i self key =
     (case h_lookup_i self of lookup_str \<Rightarrow> frt_h_lookup self key | lookup_ptr \<Rightarrow> frt_h_lookup_ptr self key)"

section \<open>Creation, clearing\<close>

definition frt_h_new_str :: "bool \<Rightarrow> bool \<Rightarrow> (cstr, 'v) frt_hash" where
  "frt_h_new_str free_key free_value =
     \<lparr>h_fill = 0, h_size = 0, h_mask = FRT_HASH_MINSIZE - 1,
      h_table = replicate FRT_HASH_MINSIZE empty_entry,
      h_lookup_i = lookup_str, h_hash_i = frt_str_hash, h_eq_i = str_eq,
      h_free_key_i = free_key, h_free_value_i = free_value, h_freed = []\<rparr>"

definition frt_h_new ::
  "('k \<Rightarrow> u64) \<Rightarrow> ('k \<Rightarrow> 'k \<Rightarrow> bool) \<Rightarrow> bool \<Rightarrow> bool \<Rightarrow> ('k, 'v) frt_hash" where
  "frt_h_new hash eq free_key free_value =
     \<lparr>h_fill = 0, h_size = 0, h_mask = FRT_HASH_MINSIZE - 1,
      h_table = replicate FRT_HASH_MINSIZE empty_entry,
      h_lookup_i = lookup_str, h_hash_i = hash, h_eq_i = eq,
      h_free_key_i = free_key, h_free_value_i = free_value, h_freed = []\<rparr>"

text \<open>\<open>frt_h_new_int\<close> has no \<open>hash_i\<close> and no \<open>eq_i\<close>: its lookup calls neither.\<close>

definition frt_h_new_int :: "bool \<Rightarrow> (unit, 'v) frt_hash" where
  "frt_h_new_int free_value =
     (frt_h_new (\<lambda>_. 0) (\<lambda>_ _. False) False free_value)\<lparr>h_lookup_i := lookup_ptr\<rparr>"

fun clear_entries :: "('k, 'v) hash_entry list \<Rightarrow> ('k, 'v) frt_hash \<Rightarrow> ('k, 'v) frt_hash" where
  "clear_entries [] self = self"
| "clear_entries (he # hes) self =
     clear_entries hes
       (if he_key he \<noteq> PNull \<and> he_key he \<noteq> PDummy
        then free_key_i (free_value_i self (he_value he)) (he_key he) else self)"

definition frt_h_clear :: "('k, 'v) frt_hash \<Rightarrow> ('k, 'v) frt_hash" where
  "frt_h_clear self =
     (let self = (if h_free_key_i self \<or> h_free_value_i self
                  then clear_entries (h_table self) self else self)
      in self\<lparr>h_table := replicate (h_mask self + 1) empty_entry, h_size := 0, h_fill := 0\<rparr>)"

section \<open>Reading and deleting\<close>

definition frt_h_get :: "('k, 'v) frt_hash \<Rightarrow> 'k voidp \<Rightarrow> ('v option \<times> ('k, 'v) frt_hash) res" where
  "frt_h_get self key = ebind (lookup_i self key) (\<lambda>(j, self). Inr (he_value (h_table self ! j), self))"

definition frt_h_del :: "('k, 'v) frt_hash \<Rightarrow> 'k voidp \<Rightarrow> (bool \<times> ('k, 'v) frt_hash) res" where
  "frt_h_del self key =
     ebind (lookup_i self key) (\<lambda>(j, self).
       let he = h_table self ! j in
       if he_key he \<noteq> PNull \<and> he_key he \<noteq> PDummy then
         (let self = free_value_i (free_key_i self (he_key he)) (he_value he)
          in Inr (True, self\<lparr>h_table := (h_table self)[j := he\<lparr>he_key := PDummy, he_value := None\<rparr>],
                             h_size := h_size self - 1\<rparr>))
       else Inr (False, self))"

definition frt_h_rem ::
  "('k, 'v) frt_hash \<Rightarrow> 'k voidp \<Rightarrow> bool \<Rightarrow> ('v option \<times> ('k, 'v) frt_hash) res" where
  "frt_h_rem self key destroy_key =
     ebind (lookup_i self key) (\<lambda>(j, self).
       let he = h_table self ! j in
       if he_key he \<noteq> PNull \<and> he_key he \<noteq> PDummy then
         (let self = (if destroy_key then free_key_i self (he_key he) else self)
          in Inr (he_value he, self\<lparr>h_table := (h_table self)[j := he\<lparr>he_key := PDummy, he_value := None\<rparr>],
                                    h_size := h_size self - 1\<rparr>))
       else Inr (None, self))"

definition frt_h_has_key :: "('k, 'v) frt_hash \<Rightarrow> 'k voidp \<Rightarrow> (hash_key_status \<times> ('k, 'v) frt_hash) res" where
  "frt_h_has_key self key =
     ebind (lookup_i self key) (\<lambda>(j, self).
       let he = h_table self ! j in
       Inr (if he_key he = PNull \<or> he_key he = PDummy then FRT_HASH_KEY_DOES_NOT_EXIST
            else if he_key he = key then FRT_HASH_KEY_SAME else FRT_HASH_KEY_EQUAL, self))"

section \<open>Resizing and inserting\<close>

text \<open>The loop \<open>for (newsize = FRT_HASH_MINSIZE; newsize < min_newsize; newsize <<= 1)\<close>.\<close>

function newsize_loop :: "nat \<Rightarrow> int \<Rightarrow> nat" where
  "newsize_loop newsize min_newsize =
     (if 0 < newsize \<and> int newsize < min_newsize then newsize_loop (2 * newsize) min_newsize else newsize)"
  by pat_completeness auto
termination
  by (relation "measure (\<lambda>(newsize, min_newsize). nat (min_newsize - int newsize))") auto

declare newsize_loop.simps [simp del]

text \<open>The copying loop walks the old table until it has seen \<open>num_active\<close> entries.\<close>

fun resize_copy ::
  "('k, 'v) hash_entry list \<Rightarrow> int \<Rightarrow> ('k, 'v) frt_hash \<Rightarrow> ('k, 'v) frt_hash res" where
  "resize_copy [] num_active self = (if num_active > 0 then Inl UndefinedBehaviour else Inr self)"
| "resize_copy (he_old # rest) num_active self =
     (if num_active > 0 then
        (if he_key he_old \<noteq> PNull \<and> he_key he_old \<noteq> PDummy then
           ebind (frt_h_resize_lookup self (he_hash he_old)) (\<lambda>(j, self).
             resize_copy rest (num_active - 1)
               (self\<lparr>h_table := (h_table self)
                  [j := (h_table self ! j)\<lparr>he_key := he_key he_old, he_value := he_value he_old\<rparr>]\<rparr>))
         else resize_copy rest num_active self)
      else Inr self)"

definition frt_h_resize :: "('k, 'v) frt_hash \<Rightarrow> int \<Rightarrow> ('k, 'v) frt_hash res" where
  "frt_h_resize self min_newsize =
     (let newsize = newsize_loop FRT_HASH_MINSIZE min_newsize; oldtable = h_table self in
      resize_copy oldtable (h_size self)
        (self\<lparr>h_table := replicate newsize empty_entry, h_fill := h_size self, h_mask := newsize - 1\<rparr>))"

definition frt_h_set_ext :: "('k, 'v) frt_hash \<Rightarrow> 'k voidp \<Rightarrow> (bool \<times> nat \<times> ('k, 'v) frt_hash) res" where
  "frt_h_set_ext self key =
     ebind (lookup_i self key) (\<lambda>(j, self).
       if he_key (h_table self ! j) = PNull then
         ebind (if h_fill self * 3 > int (h_mask self) * 2
                then ebind (frt_h_resize self (h_size self * (if h_size self > FRT_SLOW_DOWN then 4 else 2)))
                       (\<lambda>self. lookup_i self key)
                else Inr (j, self))
           (\<lambda>(j, self). Inr (True, j, self\<lparr>h_fill := h_fill self + 1, h_size := h_size self + 1\<rparr>))
       else if he_key (h_table self ! j) = PDummy then Inr (True, j, self\<lparr>h_size := h_size self + 1\<rparr>)
       else Inr (False, j, self))"

definition set_entry :: "('k, 'v) frt_hash \<Rightarrow> nat \<Rightarrow> 'k voidp \<Rightarrow> 'v option \<Rightarrow> ('k, 'v) frt_hash" where
  "set_entry self j key value =
     self\<lparr>h_table := (h_table self)[j := (h_table self ! j)\<lparr>he_key := key, he_value := value\<rparr>]\<rparr>"

definition frt_h_set ::
  "('k, 'v) frt_hash \<Rightarrow> 'k voidp \<Rightarrow> 'v option \<Rightarrow> (hash_key_status \<times> ('k, 'v) frt_hash) res" where
  "frt_h_set self key value =
     ebind (frt_h_set_ext self key) (\<lambda>(is_new, j, self).
       let he = h_table self ! j;
           (ret_val, self) =
             (if \<not> is_new then
                (if he_key he \<noteq> key then
                   (let self = free_key_i self (he_key he);
                        self = (if he_value he \<noteq> value then free_value_i self (he_value he) else self)
                    in (FRT_HASH_KEY_EQUAL, self))
                 else (FRT_HASH_KEY_SAME,
                       if he_value he \<noteq> value then free_value_i self (he_value he) else self))
              else (FRT_HASH_KEY_DOES_NOT_EXIST, self))
       in Inr (ret_val, set_entry self j key value))"

definition frt_h_set_safe ::
  "('k, 'v) frt_hash \<Rightarrow> 'k voidp \<Rightarrow> 'v option \<Rightarrow> (bool \<times> ('k, 'v) frt_hash) res" where
  "frt_h_set_safe self key value =
     ebind (frt_h_set_ext self key) (\<lambda>(is_new, j, self).
       if is_new then Inr (True, set_entry self j key value) else Inr (False, self))"

section \<open>Integer keys\<close>

definition frt_h_get_int :: "('k, 'v) frt_hash \<Rightarrow> u64 \<Rightarrow> ('v option \<times> ('k, 'v) frt_hash) res" where
  "frt_h_get_int self key = frt_h_get self (PInt key)"

definition frt_h_del_int :: "('k, 'v) frt_hash \<Rightarrow> u64 \<Rightarrow> (bool \<times> ('k, 'v) frt_hash) res" where
  "frt_h_del_int self key = frt_h_del self (PInt key)"

definition frt_h_rem_int :: "('k, 'v) frt_hash \<Rightarrow> u64 \<Rightarrow> ('v option \<times> ('k, 'v) frt_hash) res" where
  "frt_h_rem_int self key = frt_h_rem self (PInt key) False"

definition frt_h_set_int ::
  "('k, 'v) frt_hash \<Rightarrow> u64 \<Rightarrow> 'v option \<Rightarrow> (hash_key_status \<times> ('k, 'v) frt_hash) res" where
  "frt_h_set_int self key value =
     ebind (frt_h_set_ext self (PInt key)) (\<lambda>(is_new, j, self).
       let he = h_table self ! j;
           (ret_val, self) =
             (if \<not> is_new then
                (FRT_HASH_KEY_EQUAL, if he_value he \<noteq> value then free_value_i self (he_value he) else self)
              else (FRT_HASH_KEY_DOES_NOT_EXIST, self))
       in Inr (ret_val, set_entry self j PDummyInt value))"

definition frt_h_set_safe_int ::
  "('k, 'v) frt_hash \<Rightarrow> u64 \<Rightarrow> 'v option \<Rightarrow> (bool \<times> ('k, 'v) frt_hash) res" where
  "frt_h_set_safe_int self key value =
     ebind (frt_h_set_ext self (PInt key)) (\<lambda>(is_new, j, self).
       if is_new then Inr (True, set_entry self j PDummyInt value) else Inr (False, self))"

definition frt_h_has_key_int :: "('k, 'v) frt_hash \<Rightarrow> u64 \<Rightarrow> (hash_key_status \<times> ('k, 'v) frt_hash) res" where
  "frt_h_has_key_int self key = frt_h_has_key self (PInt key)"

section \<open>Iteration\<close>

text \<open>\<open>frt_h_each\<close>: the calls it makes, in order; it stops after \<open>size\<close> active entries.\<close>

fun each_loop :: "('k, 'v) hash_entry list \<Rightarrow> int \<Rightarrow> ('k voidp \<times> 'v option) list res" where
  "each_loop [] i = (if i > 0 then Inl UndefinedBehaviour else Inr [])"
| "each_loop (he # rest) i =
     (if i > 0 then
        (if he_key he \<noteq> PNull \<and> he_key he \<noteq> PDummy
         then ebind (each_loop rest (i - 1)) (\<lambda>calls. Inr ((he_key he, he_value he) # calls))
         else each_loop rest i)
      else Inr [])"

definition frt_h_each :: "('k, 'v) frt_hash \<Rightarrow> ('k voidp \<times> 'v option) list res" where
  "frt_h_each self = each_loop (h_table self) (h_size self)"

fun clone_loop ::
  "('k \<Rightarrow> 'k) \<Rightarrow> ('v option \<Rightarrow> 'v option) \<Rightarrow> ('k, 'v) hash_entry list \<Rightarrow> int \<Rightarrow> ('k, 'v) frt_hash
     \<Rightarrow> ('k, 'v) frt_hash res" where
  "clone_loop clone_key clone_value [] i ht_clone = (if i > 0 then Inl UndefinedBehaviour else Inr ht_clone)"
| "clone_loop clone_key clone_value (he # rest) i ht_clone =
     (if i > 0 then
        (if he_key he \<noteq> PNull \<and> he_key he \<noteq> PDummy
         then ebind (frt_h_set ht_clone (map_voidp clone_key (he_key he)) (clone_value (he_value he)))
           (\<lambda>(_, ht_clone). clone_loop clone_key clone_value rest (i - 1) ht_clone)
         else clone_loop clone_key clone_value rest i ht_clone)
      else Inr ht_clone)"

definition frt_h_clone ::
  "('k, 'v) frt_hash \<Rightarrow> ('k \<Rightarrow> 'k) \<Rightarrow> ('v option \<Rightarrow> 'v option) \<Rightarrow> ('k, 'v) frt_hash res" where
  "frt_h_clone self clone_key clone_value =
     clone_loop clone_key clone_value (h_table self) (h_size self)
       (frt_h_new (h_hash_i self) (h_eq_i self) (h_free_key_i self) (h_free_value_i self))"

end
