(* ===== verification/FrtProbe.thy ===== *)
theory FrtProbe
  imports FrtHash
begin

unbundle bit_operations_syntax

text \<open>
  The probe sequence of \<open>frt_hash.c\<close>: \<open>slot msk h n\<close> is the slot the lookups of a hash \<open>h\<close> look at
  in their \<open>n\<close>-th step. Once the 64 bits of \<open>perturb\<close> are used up it is the sequence
  \<open>i := 5 * i + 1\<close>, which runs through all residues of a power of two, so that within \<open>13 + 2 ^ k\<close>
  steps every slot of a table of size \<open>2 ^ k\<close> has been looked at (\<open>slot_surj\<close>).
\<close>

section \<open>The sequence x := 5 * x + 1 modulo a power of two\<close>

fun lcg :: "nat \<Rightarrow> nat \<Rightarrow> nat" where
  "lcg x 0 = x"
| "lcg x (Suc m) = 5 * lcg x m + 1"

lemma lcg_add: "lcg x (m + d) = lcg (lcg x m) d"
  by (induction d) auto

lemma lcg_split: "lcg x m = 5 ^ m * x + lcg 0 m"
  by (induction m) auto

lemma lcg_0_pow: "4 * lcg 0 m + 1 = 5 ^ m"
  by (induction m) auto

lemma lcg_diff: "lcg y d = y + lcg 0 d * (4 * y + 1)"
proof -
  have "lcg y d = (4 * lcg 0 d + 1) * y + lcg 0 d"
    by (subst lcg_split) (simp only: lcg_0_pow)
  then show ?thesis by (simp add: algebra_simps)
qed

lemma even_lcg: "even (lcg 0 d) \<longleftrightarrow> even d"
  by (induction d) auto

lemma pow2_dvd_odd: "2 ^ k dvd (a :: nat) * (2 * b + 1) \<Longrightarrow> 2 ^ k dvd a"
proof -
  have "coprime (2 ^ k) (2 * b + 1)" by simp
  then show "2 ^ k dvd a * (2 * b + 1) \<Longrightarrow> 2 ^ k dvd a"
    using coprime_dvd_mult_left_iff by blast
qed

lemma lcg_0_double: "lcg 0 (e + e) = 2 * (lcg 0 e * (2 * lcg 0 e + 1))"
  unfolding lcg_add by (subst lcg_diff) (simp add: algebra_simps)

lemma pow2_dvd_lcg: "2 ^ k dvd lcg 0 d \<Longrightarrow> 2 ^ k dvd d"
proof (induction k arbitrary: d)
  case 0
  then show ?case by simp
next
  case (Suc k)
  have "even (lcg 0 d)" using Suc.prems by (metis dvd_trans dvd_triv_left power_Suc)
  then obtain e where d: "d = e + e" unfolding even_lcg by (auto elim: evenE simp: mult_2)
  have "2 ^ k dvd lcg 0 e * (2 * lcg 0 e + 1)"
    using Suc.prems by (simp add: d lcg_0_double del: mult_Suc_right)
  then have "2 ^ k dvd e" using Suc.IH pow2_dvd_odd by blast
  then show ?case by (auto simp: d mult_2 [symmetric])
qed

lemma lcg_inj: "inj_on (\<lambda>m. lcg x m mod 2 ^ k) {..<2 ^ k}"
proof -
  have aux: "m = m'" if "m \<le> m'" "m' < 2 ^ k" "lcg x m mod 2 ^ k = lcg x m' mod 2 ^ k" for m m'
  proof -
    note * = that
    obtain d where d: "m' = m + d" using le_Suc_ex [OF *(1)] by auto
    have "lcg x m' = lcg x m + lcg 0 d * (4 * lcg x m + 1)"
      unfolding d lcg_add by (rule lcg_diff)
    then have "2 ^ k dvd lcg 0 d * (2 * (2 * lcg x m) + 1)"
      using *(3) mod_eq_dvd_iff_nat [of "lcg x m" "lcg x m'" "2 ^ k"] by simp
    then have "2 ^ k dvd d" using pow2_dvd_odd pow2_dvd_lcg by blast
    with *(2) d show ?thesis by (cases "d = 0") (auto dest: dvd_imp_le)
  qed
  show ?thesis
  proof (rule linorder_inj_onI')
    fix m m' :: nat
    assume lt: "m < m'" and m': "m' \<in> {..<2 ^ k}"
    have "m' < 2 ^ k" using m' by (rule lessThan_iff [THEN iffD1])
    from aux [OF less_imp_le [OF lt] this] lt
    show "lcg x m mod 2 ^ k \<noteq> lcg x m' mod 2 ^ k" by (metis less_irrefl)
  qed
qed

lemma lcg_surj:
  assumes "j < 2 ^ k"
  obtains m where "m < 2 ^ k" and "lcg x m mod 2 ^ k = j"
proof -
  have "(\<lambda>m. lcg x m mod 2 ^ k) ` {..<2 ^ k} = {..<2 ^ k}"
    by (rule card_subset_eq) (auto simp: card_image [OF lcg_inj])
  with assms have "j \<in> (\<lambda>m. lcg x m mod 2 ^ k) ` {..<2 ^ k}" by simp
  then show thesis using that by auto
qed

section \<open>The probe sequence\<close>

fun probe_i :: "nat \<Rightarrow> u64 \<Rightarrow> nat \<Rightarrow> u32" where
  "probe_i msk h 0 = first_i msk h"
| "probe_i msk h (Suc n) = next_i (probe_i msk h n) (drop_bit (PERTURB_SHIFT * n) h)"

definition slot :: "nat \<Rightarrow> u64 \<Rightarrow> nat \<Rightarrow> nat" where
  "slot msk h n = slot_of msk (probe_i msk h n)"

lemma drop_bit_perturb:
  "drop_bit PERTURB_SHIFT (drop_bit (PERTURB_SHIFT * n) h) = drop_bit (PERTURB_SHIFT * Suc n) (h :: u64)"
  by (simp add: drop_bit_drop_bit)

lemma perturb_gone: "13 \<le> n \<Longrightarrow> drop_bit (PERTURB_SHIFT * n) (h :: u64) = 0"
  by (rule bit_word_eqI) (auto simp: bit_simps PERTURB_SHIFT_def dest: bit_imp_le_length)

lemma slot_of_mod:
  assumes "Suc msk = 2 ^ k" and "k \<le> 32"
  shows "slot_of msk i = unat i mod 2 ^ k"
proof -
  have "msk = 2 ^ k - 1" using assms(1) by simp
  then have "(of_nat msk :: u32) = mask k"
    by (simp add: mask_eq_exp_minus_1 of_nat_diff)
  then have "slot_of msk i = unat (take_bit k i)"
    by (simp only: slot_of_def take_bit_eq_mask)
  also have "\<dots> = take_bit k (unat i)"
    by (rule unsigned_take_bit_eq)
  finally show ?thesis by (simp only: take_bit_eq_mod)
qed

lemma slot_of_less: "Suc msk = 2 ^ k \<Longrightarrow> k \<le> 32 \<Longrightarrow> slot_of msk i < 2 ^ k"
  by (simp only: slot_of_mod) simp

lemma slot_less: "Suc msk = 2 ^ k \<Longrightarrow> k \<le> 32 \<Longrightarrow> slot msk h n < 2 ^ k"
  by (simp only: slot_def slot_of_less)

lemma unat_next_i_0: "unat (next_i i 0) = (5 * unat i + 1) mod 2 ^ 32"
proof -
  have "next_i i 0 = of_nat (5 * unat i + 1)"
    by (simp add: next_i_def push_bit_eq_mult)
  then show ?thesis by (simp only: unat_of_nat) simp
qed

lemma slot_lcg:
  assumes "Suc msk = 2 ^ k" and "k \<le> 32"
  shows "slot msk h (13 + m) = lcg (unat (probe_i msk h 13)) m mod 2 ^ k"
proof -
  let ?x = "unat (probe_i msk h 13)"
  have "unat (probe_i msk h (13 + m)) mod 2 ^ k = lcg ?x m mod 2 ^ k"
  proof (induction m)
    case (Suc m)
    have dvd: "(2 :: nat) ^ k dvd 2 ^ 32" using assms(2) by (rule le_imp_power_dvd)
    have "probe_i msk h (13 + Suc m) = next_i (probe_i msk h (13 + m)) 0"
      unfolding add_Suc_right probe_i.simps by (subst perturb_gone) auto
    then have "unat (probe_i msk h (13 + Suc m)) mod 2 ^ k =
        (5 * unat (probe_i msk h (13 + m)) + 1) mod 2 ^ 32 mod 2 ^ k"
      by (simp only: unat_next_i_0)
    also have "\<dots> = (5 * (unat (probe_i msk h (13 + m)) mod 2 ^ k) + 1) mod 2 ^ k"
      by (simp only: mod_mod_cancel [OF dvd]) (metis mod_add_left_eq mod_mult_right_eq)
    also have "\<dots> = lcg ?x (Suc m) mod 2 ^ k"
      unfolding Suc.IH lcg.simps by (metis mod_add_left_eq mod_mult_right_eq)
    finally show ?case .
  qed simp
  then show ?thesis by (simp only: slot_def slot_of_mod [OF assms])
qed

lemma slot_surj:
  assumes "Suc msk = 2 ^ k" and "k \<le> 32" and "j < 2 ^ k"
  obtains n where "13 \<le> n" and "n < 13 + 2 ^ k" and "slot msk h n = j"
proof -
  obtain m where "m < 2 ^ k" "lcg (unat (probe_i msk h 13)) m mod 2 ^ k = j"
    using assms(3) by (rule lcg_surj)
  then show thesis using that [of "13 + m"] by (simp add: slot_lcg [OF assms(1,2)])
qed

end
