(* ===== verification/FrtHashLaws.thy ===== *)
theory FrtHashLaws
  imports FrtProbe
begin

unbundle bit_operations_syntax

text \<open>
  The hash table of \<open>frt_hash.c\<close> is a finite map.

  \<^item> \<open>tab_map\<close>, \<open>h_map\<close>: the map a table stands for, up to the equality of its keys.
  \<^item> \<open>tab_inv\<close>, \<open>h_inv\<close>: every active entry is on the probe path of its own hash with no free slot
    before it, no two active entries have equal keys, \<open>fill\<close> and \<open>size\<close> count the used and the active
    slots and at least one slot is free.
  \<^item> \<open>key_laws\<close>: what the table needs of \<open>hash_i\<close> and \<open>eq_i\<close>. In it the operations are shown to keep
    the invariant and to be lookup, update and deletion of the map; it is interpreted by the string
    keys and the pointer keys of the code.
\<close>

section \<open>Counting and searching a table\<close>

definition used :: "('k, 'v) hash_entry \<Rightarrow> bool" where
  "used he \<longleftrightarrow> he_key he \<noteq> PNull"

definition count_if :: "('a \<Rightarrow> bool) \<Rightarrow> 'a list \<Rightarrow> int" where
  "count_if P xs = int (length (filter P xs))"

lemma count_if_simps [simp]:
  "count_if P [] = 0"
  "count_if P (x # xs) = (if P x then 1 else 0) + count_if P xs"
  "count_if P (xs @ ys) = count_if P xs + count_if P ys"
  by (simp_all add: count_if_def)

lemma count_if_update:
  "j < length xs \<Longrightarrow>
   count_if P (xs[j := e]) = count_if P xs - (if P (xs ! j) then 1 else 0) + (if P e then 1 else 0)"
proof (induction xs arbitrary: j)
  case (Cons x xs)
  then show ?case by (cases j) auto
qed simp

lemma count_if_nonneg [simp]: "0 \<le> count_if P xs"
  by (simp add: count_if_def)

lemma count_if_replicate [simp]: "count_if P (replicate n x) = (if P x then int n else 0)"
  by (simp add: count_if_def)

lemma count_if_mono: "(\<And>x. P x \<Longrightarrow> Q x) \<Longrightarrow> count_if P xs \<le> count_if Q xs"
  by (induction xs) auto

lemma count_if_le_length: "count_if P xs \<le> int (length xs)"
  by (induction xs) auto

lemma count_if_lt: "count_if P xs < int (length xs) \<Longrightarrow> \<exists>j < length xs. \<not> P (xs ! j)"
  by (metis count_if_def filter_id_conv in_set_conv_nth less_irrefl)

lemma he_active_used: "he_active he \<Longrightarrow> used he"
  by (simp add: he_active_def used_def)

definition has_key :: "('k \<Rightarrow> 'k \<Rightarrow> bool) \<Rightarrow> 'k \<Rightarrow> ('k, 'v) hash_entry \<Rightarrow> bool" where
  "has_key E x he = (case he_key he of PKey y \<Rightarrow> E y x | _ \<Rightarrow> False)"

lemma has_key_iff: "has_key E x he \<longleftrightarrow> (\<exists>y. he_key he = PKey y \<and> E y x)"
  by (simp add: has_key_def split: voidp.split)

definition tab_map :: "('k \<Rightarrow> 'k \<Rightarrow> bool) \<Rightarrow> ('k, 'v) hash_entry list \<Rightarrow> 'k \<Rightarrow> 'v option option" where
  "tab_map E tb x = map_option he_value (find (has_key E x) tb)"

definition h_map :: "('k, 'v) frt_hash \<Rightarrow> 'k \<Rightarrow> 'v option option" where
  "h_map self = tab_map (h_eq_i self) (h_table self)"

lemma tab_map_simps [simp]:
  "tab_map E [] x = None"
  "tab_map E (e # es) x = (if has_key E x e then Some (he_value e) else tab_map E es x)"
  by (simp_all add: tab_map_def)

lemma tab_map_None: "tab_map E tb x = None \<longleftrightarrow> (\<forall>j < length tb. \<not> has_key E x (tb ! j))"
  by (auto simp: tab_map_def find_None_iff in_set_conv_nth)

lemma tab_map_replicate [simp]: "tab_map E (replicate n empty_entry) x = None"
  by (simp add: tab_map_None has_key_def empty_entry_def)

section \<open>The invariant\<close>

definition entry_ok :: "('k \<Rightarrow> u64) \<Rightarrow> ('k, 'v) hash_entry \<Rightarrow> bool" where
  "entry_ok H he =
     (case he_key he of PNull \<Rightarrow> he_value he = None | PDummy \<Rightarrow> he_value he = None
        | PKey x \<Rightarrow> he_hash he = H x | _ \<Rightarrow> False)"

definition reach :: "('k, 'v) hash_entry list \<Rightarrow> nat \<Rightarrow> u64 \<Rightarrow> nat \<Rightarrow> bool" where
  "reach tb msk h j \<longleftrightarrow> (\<exists>n. slot msk h n = j \<and> (\<forall>i < n. used (tb ! slot msk h i)))"

definition size_ok :: "'a list \<Rightarrow> nat \<Rightarrow> bool" where
  "size_ok tb msk \<longleftrightarrow> length tb = Suc msk \<and> (\<exists>k. 4 \<le> k \<and> k \<le> 32 \<and> Suc msk = 2 ^ k)"

definition tab_inv ::
  "('k \<Rightarrow> u64) \<Rightarrow> ('k \<Rightarrow> 'k \<Rightarrow> bool) \<Rightarrow> ('k, 'v) hash_entry list \<Rightarrow> nat \<Rightarrow> bool" where
  "tab_inv H E tb msk \<longleftrightarrow>
     size_ok tb msk \<and> (\<forall>j < length tb. entry_ok H (tb ! j)) \<and>
     (\<forall>j < length tb. \<forall>x. he_key (tb ! j) = PKey x \<longrightarrow> reach tb msk (H x) j) \<and>
     (\<forall>i < length tb. \<forall>j < length tb. \<forall>x. he_key (tb ! i) = PKey x \<longrightarrow> has_key E x (tb ! j) \<longrightarrow> i = j)"

definition h_inv :: "('k, 'v) frt_hash \<Rightarrow> bool" where
  "h_inv self \<longleftrightarrow>
     h_lookup_i self = lookup_str \<and> tab_inv (h_hash_i self) (h_eq_i self) (h_table self) (h_mask self) \<and>
     h_fill self = count_if used (h_table self) \<and> h_size self = count_if he_active (h_table self) \<and>
     h_fill self * 3 \<le> int (h_mask self) * 2 + 3"

lemma size_ok_slot: "size_ok tb msk \<Longrightarrow> slot msk h n < length tb"
  by (auto simp: size_ok_def intro!: slot_less)

lemma size_ok_update [simp]: "size_ok (tb[j := e]) msk \<longleftrightarrow> size_ok tb msk"
  by (simp add: size_ok_def)

lemma tab_invD:
  assumes "tab_inv H E tb msk"
  shows "size_ok tb msk"
    and "j < length tb \<Longrightarrow> entry_ok H (tb ! j)"
    and "j < length tb \<Longrightarrow> he_key (tb ! j) = PKey x \<Longrightarrow> reach tb msk (H x) j"
    and "i < length tb \<Longrightarrow> j < length tb \<Longrightarrow> he_key (tb ! i) = PKey x \<Longrightarrow> has_key E x (tb ! j) \<Longrightarrow> i = j"
  using assms unfolding tab_inv_def by blast+

lemma reach_update:
  assumes "reach tb msk h j" and "used e \<or> \<not> used (tb ! s)"
  shows "reach (tb[s := e]) msk h j"
  using assms unfolding reach_def by (metis nth_list_update_eq nth_list_update_neq list_update_beyond not_le)

lemma tab_map_Some:
  assumes "tab_inv H E tb msk" and E: "\<And>a b. E a b \<Longrightarrow> E b a" "\<And>a b c. E a b \<Longrightarrow> E b c \<Longrightarrow> E a c"
    and j: "j < length tb" "has_key E x (tb ! j)"
  shows "tab_map E tb x = Some (he_value (tb ! j))"
proof -
  obtain e where f: "find (has_key E x) tb = Some e"
    using j by (metis find_None_iff nth_mem option.exhaust)
  then obtain i where i: "i < length tb" "has_key E x (tb ! i)" "e = tb ! i"
    by (auto simp: find_Some_iff)
  obtain y z where "he_key (tb ! i) = PKey y" "E y x" "he_key (tb ! j) = PKey z" "E z x"
    using i j by (auto simp: has_key_iff)
  then have "i = j"
    using tab_invD(4) [OF assms(1) i(1) j(1)] E by (metis has_key_iff)
  with f i show ?thesis by (simp add: tab_map_def)
qed

section \<open>The probe loops\<close>

text \<open>A table with a free slot has one on every probe path, within the fuel of the loops.\<close>

lemma free_slot_on_path:
  assumes "size_ok tb msk" and "j < length tb" and "\<not> used (tb ! j)"
  obtains n where "n < probe_fuel tb" and "slot msk h n = j"
proof -
  obtain k where k: "Suc msk = 2 ^ k" "k \<le> 32" and l: "length tb = 2 ^ k"
    using assms(1) by (auto simp: size_ok_def)
  obtain n where "13 \<le> n" "n < 13 + 2 ^ k" "slot msk h n = j"
    using slot_surj [OF k, of j] assms(2) l by auto
  then show thesis using that l by (simp add: probe_fuel_def)
qed

lemma first_stop:
  assumes "P (n :: nat)"
  obtains N where "N \<le> n" and "P N" and "\<And>i. i < N \<Longrightarrow> \<not> P i"
  using assms that [of "LEAST n. P n"] by (metis LeastI Least_le not_less_Least)

lemma resize_lookup_loop_eq:
  assumes "n < N" and "N - n \<le> fuel" and "\<not> used (tb ! slot msk h N)"
    and "\<And>i. n < i \<Longrightarrow> i < N \<Longrightarrow> used (tb ! slot msk h i)"
  shows "resize_lookup_loop tb msk fuel (probe_i msk h n) (drop_bit (PERTURB_SHIFT * n) h) = Inr (slot msk h N)"
  using assms
proof (induction fuel arbitrary: n)
  case (Suc fuel)
  show ?case
  proof (cases "Suc n = N")
    case True
    then show ?thesis using Suc.prems(3) by (auto simp: slot_def used_def)
  next
    case False
    then have "used (tb ! slot msk h (Suc n))" using Suc.prems by simp
    moreover have "resize_lookup_loop tb msk fuel (probe_i msk h (Suc n))
        (drop_bit (PERTURB_SHIFT * Suc n) h) = Inr (slot msk h N)"
      using Suc.prems False by (intro Suc.IH) auto
    ultimately show ?thesis
      by (simp add: slot_def used_def Let_def)
  qed
qed simp

definition matches :: "('k \<Rightarrow> 'k \<Rightarrow> bool) \<Rightarrow> u64 \<Rightarrow> 'k \<Rightarrow> ('k, 'v) hash_entry \<Rightarrow> bool" where
  "matches E h x he \<longleftrightarrow> he_key he = PKey x \<or>
     he_hash he = h \<and> he_key he \<noteq> PDummy \<and> eq_keys E (he_key he) (PKey x)"

lemma lookup_loop_step:
  assumes "used (tb ! slot msk h (Suc n))" and "\<not> matches E h x (tb ! slot msk h (Suc n))"
  shows "lookup_loop E tb msk h (PKey x) (Suc fuel) (probe_i msk h n) (drop_bit (PERTURB_SHIFT * n) h) fs =
    lookup_loop E tb msk h (PKey x) fuel (probe_i msk h (Suc n)) (drop_bit (PERTURB_SHIFT * Suc n) h)
      (if he_key (tb ! slot msk h (Suc n)) = PDummy \<and> fs = None then Some (slot msk h (Suc n)) else fs)"
  unfolding lookup_loop.simps Let_def probe_i.simps(2) [symmetric] slot_def [symmetric] drop_bit_perturb
  using assms by (auto simp: used_def matches_def simp del: probe_i.simps)

lemma lookup_loop_eq:
  assumes "n < N" and "N - n \<le> fuel"
    and "\<not> used (tb ! slot msk h N) \<or> matches E h x (tb ! slot msk h N)"
    and "\<And>i. n < i \<Longrightarrow> i < N \<Longrightarrow> used (tb ! slot msk h i) \<and> \<not> matches E h x (tb ! slot msk h i)"
  shows "\<exists>s. lookup_loop E tb msk h (PKey x) fuel (probe_i msk h n) (drop_bit (PERTURB_SHIFT * n) h) fs =
      (if used (tb ! slot msk h N) then Inr (slot msk h N, False) else Inr (s, True)) \<and>
    (s = slot msk h N \<or> fs = Some s \<or> (\<exists>i. n < i \<and> i < N \<and> s = slot msk h i \<and> he_key (tb ! s) = PDummy))"
  using assms
proof (induction fuel arbitrary: n fs)
  case (Suc fuel)
  show ?case
  proof (cases "Suc n = N")
    case True
    then show ?thesis using Suc.prems(3)
      by (auto simp: slot_def used_def matches_def Let_def split: option.split)
  next
    case False
    let ?j = "slot msk h (Suc n)"
    have u: "used (tb ! ?j)" "\<not> matches E h x (tb ! ?j)" using Suc.prems False by auto
    let ?fs = "if he_key (tb ! ?j) = PDummy \<and> fs = None then Some ?j else fs"
    have "\<exists>s. lookup_loop E tb msk h (PKey x) fuel (probe_i msk h (Suc n)) (drop_bit (PERTURB_SHIFT * Suc n) h) ?fs =
        (if used (tb ! slot msk h N) then Inr (slot msk h N, False) else Inr (s, True)) \<and>
      (s = slot msk h N \<or> ?fs = Some s \<or>
        (\<exists>i. Suc n < i \<and> i < N \<and> s = slot msk h i \<and> he_key (tb ! s) = PDummy))"
      using Suc.prems False by (intro Suc.IH) auto
    then obtain s where s: "lookup_loop E tb msk h (PKey x) fuel (probe_i msk h (Suc n)) (drop_bit (PERTURB_SHIFT * Suc n) h) ?fs =
        (if used (tb ! slot msk h N) then Inr (slot msk h N, False) else Inr (s, True))"
      "s = slot msk h N \<or> ?fs = Some s \<or>
        (\<exists>i. Suc n < i \<and> i < N \<and> s = slot msk h i \<and> he_key (tb ! s) = PDummy)" by blast
    have "lookup_loop E tb msk h (PKey x) (Suc fuel) (probe_i msk h n) (drop_bit (PERTURB_SHIFT * n) h) fs =
        lookup_loop E tb msk h (PKey x) fuel (probe_i msk h (Suc n)) (drop_bit (PERTURB_SHIFT * Suc n) h) ?fs"
      using u by (rule lookup_loop_step)
    moreover have "s = slot msk h N \<or> fs = Some s \<or>
        (\<exists>i. n < i \<and> i < N \<and> s = slot msk h i \<and> he_key (tb ! s) = PDummy)"
      using s(2) Suc.prems(1) False by (auto split: if_splits intro: exI [of _ "Suc n"] Suc_lessD)
    ultimately show ?thesis using s(1) by auto
  qed
qed simp

section \<open>The laws of keys, and the operations\<close>

locale key_laws =
  fixes H :: "'k \<Rightarrow> u64"
    and E :: "'k \<Rightarrow> 'k \<Rightarrow> bool"
  assumes E_refl: "E x x"
    and E_sym: "E x y \<Longrightarrow> E y x"
    and E_trans: "E x y \<Longrightarrow> E y z \<Longrightarrow> E x z"
    and E_hash: "E x y \<Longrightarrow> H x = H y"
begin

abbreviation inv :: "('k, 'v) hash_entry list \<Rightarrow> nat \<Rightarrow> bool" where
  "inv \<equiv> tab_inv H E"

lemma inv_Some:
  "inv tb msk \<Longrightarrow> j < length tb \<Longrightarrow> has_key E x (tb ! j) \<Longrightarrow> tab_map E tb x = Some (he_value (tb ! j))"
  by (rule tab_map_Some [OF _ E_sym E_trans])

lemma inv_SomeE:
  assumes "tab_map E tb x = Some v"
  obtains j where "j < length tb" and "has_key E x (tb ! j)" and "he_value (tb ! j) = v"
  using assms by (auto simp: tab_map_def find_Some_iff)

lemma tab_map_cong: "E x y \<Longrightarrow> tab_map E tb x = tab_map E tb y" for tb :: "('k, 'v) hash_entry list"
proof -
  assume "E x y"
  then have "has_key E x = (has_key E y :: ('k, 'v) hash_entry \<Rightarrow> bool)"
    by (auto simp: fun_eq_iff has_key_iff intro: E_trans E_sym)
  then show "tab_map E tb x = tab_map E tb y" by (simp add: tab_map_def)
qed

lemma has_key_unique:
  assumes "inv tb msk" "i < length tb" "j < length tb" "has_key E x (tb ! i)" "has_key E x (tb ! j)"
  shows "i = j"
proof -
  obtain y where y: "he_key (tb ! i) = PKey y" "E y x" using assms(4) by (auto simp: has_key_iff)
  with assms(5) have "has_key E y (tb ! j)" by (auto simp: has_key_iff intro: E_trans E_sym)
  with tab_invD(4) [OF assms(1-3)] y show ?thesis by blast
qed

text \<open>In a table in order, the test of the loop is equality of keys.\<close>

lemma matches_iff:
  assumes "entry_ok H he"
  shows "matches E (H x) x he \<longleftrightarrow> has_key E x he"
  using assms E_refl E_hash by (auto simp: matches_def has_key_iff entry_ok_def eq_keys_def split: voidp.splits)

lemma has_key_used: "has_key E x he \<Longrightarrow> used he"
  by (auto simp: has_key_iff used_def)

lemma claim_same: "he_hash (h_table self ! j) = h \<Longrightarrow> claim_slot self j h = self"
  by (drule sym) (simp add: claim_slot_def)

lemma frt_h_lookup_hit:
  assumes I: "inv (h_table self) (h_mask self)" and f: "h_hash_i self = H" "h_eq_i self = E"
    and j: "j < length (h_table self)" "has_key E x (h_table self ! j)"
  shows "frt_h_lookup self (PKey x) = Inr (j, self)"
proof -
  let ?tb = "h_table self" and ?msk = "h_mask self" and ?h = "H x"
  obtain y where y: "he_key (?tb ! j) = PKey y" "E y x" using j by (auto simp: has_key_iff)
  have hy: "H y = ?h" using y(2) by (rule E_hash)
  obtain N where N: "slot ?msk ?h N = j" "\<forall>i < N. used (?tb ! slot ?msk ?h i)"
    using tab_invD(3) [OF I j(1) y(1)] by (auto simp: reach_def hy)
  have so: "size_ok ?tb ?msk" using I by (rule tab_invD)
  have m: "matches E ?h x (?tb ! slot ?msk ?h i) \<longleftrightarrow> slot ?msk ?h i = j" for i
    using has_key_unique [OF I] j size_ok_slot [OF so] tab_invD(2) [OF I] by (metis matches_iff)
  define M where "M = (LEAST i. slot ?msk ?h i = j)"
  have M: "slot ?msk ?h M = j" "M \<le> N" unfolding M_def by (rule LeastI, rule N(1)) (rule Least_le, rule N(1))
  have before: "used (?tb ! slot ?msk ?h i) \<and> slot ?msk ?h i \<noteq> j" if "i < M" for i
    using that N(2) M(2) not_less_Least [of i "\<lambda>i. slot ?msk ?h i = j"] by (auto simp: M_def)
  obtain k where k: "Suc ?msk = 2 ^ k" "k \<le> 32" "length ?tb = 2 ^ k" using so by (auto simp: size_ok_def)
  obtain n where n: "n < 13 + 2 ^ k" "slot ?msk ?h n = j" using slot_surj [OF k(1,2), of j] j k by auto
  have fuel: "M \<le> probe_fuel ?tb" using n k Least_le [of "\<lambda>i. slot ?msk ?h i = j" n]
    by (simp add: M_def probe_fuel_def)
  have hj: "he_hash (?tb ! j) = ?h" using tab_invD(2) [OF I j(1)] y hy by (simp add: entry_ok_def)
  show ?thesis
  proof (cases "M = 0")
    case True
    then have s0: "slot_of ?msk (first_i ?msk ?h) = j" using M by (simp add: slot_def)
    have "eq_keys E (he_key (?tb ! j)) (PKey x)" using y by (simp add: eq_keys_def)
    then show ?thesis
      using y hj by (auto simp: frt_h_lookup_def Let_def f s0 claim_same)
  next
    case False
    let ?fs = "if he_key (?tb ! slot ?msk ?h 0) = PDummy then Some (slot ?msk ?h 0) else None"
    obtain s where "lookup_loop E ?tb ?msk ?h (PKey x) (probe_fuel ?tb) (probe_i ?msk ?h 0)
        (drop_bit (PERTURB_SHIFT * 0) ?h) ?fs =
        (if used (?tb ! slot ?msk ?h M) then Inr (slot ?msk ?h M, False) else Inr (s, True))"
      using lookup_loop_eq [of 0 M "probe_fuel ?tb" ?tb ?msk ?h E x ?fs] False fuel before m M by auto
    moreover have "used (?tb ! j)" using y by (simp add: used_def)
    moreover have "used (?tb ! slot ?msk ?h 0)" "\<not> matches E ?h x (?tb ! slot ?msk ?h 0)"
      using before [of 0] m [of 0] False by auto
    ultimately show ?thesis
      using M by (auto simp: frt_h_lookup_def Let_def f slot_def used_def matches_def split: if_splits)
  qed
qed

lemma frt_h_lookup_miss:
  assumes I: "inv (h_table self) (h_mask self)" and f: "h_hash_i self = H" "h_eq_i self = E"
    and miss: "tab_map E (h_table self) x = None" and free: "\<exists>j < length (h_table self). \<not> used (h_table self ! j)"
  obtains j where "frt_h_lookup self (PKey x) = Inr (j, claim_slot self j (H x))"
    and "j < length (h_table self)" and "\<not> he_active (h_table self ! j)"
    and "reach (h_table self) (h_mask self) (H x) j"
proof -
  let ?tb = "h_table self" and ?msk = "h_mask self" and ?h = "H x"
  have so: "size_ok ?tb ?msk" using I by (rule tab_invD)
  have m: "\<not> matches E ?h x (?tb ! slot ?msk ?h i)" for i
    using miss size_ok_slot [OF so] tab_invD(2) [OF I] by (metis matches_iff tab_map_None)
  obtain n where n: "n < probe_fuel ?tb" "\<not> used (?tb ! slot ?msk ?h n)"
    using free free_slot_on_path [OF so] by metis
  obtain N where N: "N \<le> n" "\<not> used (?tb ! slot ?msk ?h N)" "\<And>i. i < N \<Longrightarrow> used (?tb ! slot ?msk ?h i)"
    using first_stop [where P = "\<lambda>n. \<not> used (?tb ! slot ?msk ?h n)", OF n(2)] by metis
  have reach: "reach ?tb ?msk ?h (slot ?msk ?h i)" if "i \<le> N" for i
    using N(3) that unfolding reach_def by (metis less_le_trans)
  have dummy: "\<not> he_active he" if "he_key he = PDummy" for he :: "('k, 'b) hash_entry"
    using that by (simp add: he_active_def)
  show thesis
  proof (cases "N = 0")
    case True
    with N have "frt_h_lookup self (PKey x) = Inr (slot ?msk ?h 0, claim_slot self (slot ?msk ?h 0) ?h)"
      by (simp add: frt_h_lookup_def Let_def f slot_def used_def)
    then show thesis using that size_ok_slot [OF so] reach [of 0] N True
      by (auto simp: used_def he_active_def)
  next
    case False
    let ?fs = "if he_key (?tb ! slot ?msk ?h 0) = PDummy then Some (slot ?msk ?h 0) else None"
    obtain s where s: "lookup_loop E ?tb ?msk ?h (PKey x) (probe_fuel ?tb) (probe_i ?msk ?h 0)
        (drop_bit (PERTURB_SHIFT * 0) ?h) ?fs = Inr (s, True)"
      "s = slot ?msk ?h N \<or> ?fs = Some s \<or> (\<exists>i. 0 < i \<and> i < N \<and> s = slot ?msk ?h i \<and> he_key (?tb ! s) = PDummy)"
      using lookup_loop_eq [of 0 N "probe_fuel ?tb" ?tb ?msk ?h E x ?fs] False n(1) N m by fastforce
    have "used (?tb ! slot ?msk ?h 0)" "\<not> matches E ?h x (?tb ! slot ?msk ?h 0)"
      using N(3) [of 0] m [of 0] False by auto
    then have "frt_h_lookup self (PKey x) = Inr (s, claim_slot self s ?h)"
      using s(1) by (auto simp: frt_h_lookup_def Let_def f slot_def used_def matches_def split: if_splits)
    moreover have "\<exists>i \<le> N. s = slot ?msk ?h i"
      using s(2) by (auto split: if_splits intro: less_imp_le)
    moreover have "\<not> he_active (?tb ! s)"
      using s(2) N(2) dummy by (auto split: if_splits simp: used_def he_active_def)
    ultimately show thesis using that size_ok_slot [OF so] reach by auto
  qed
qed

lemma inv_update:
  assumes I: "inv tb msk" and j: "j < length tb" and e: "entry_ok H e" "used e \<or> \<not> used (tb ! j)"
    and key: "\<And>x. he_key e = PKey x \<Longrightarrow> reach tb msk (H x) j \<and> (\<forall>i < length tb. i \<noteq> j \<longrightarrow> \<not> has_key E x (tb ! i))"
  shows "inv (tb[j := e]) msk"
  unfolding tab_inv_def
proof (intro conjI allI impI)
  show "size_ok (tb[j := e]) msk" using tab_invD(1) [OF I] by simp
next
  fix i assume "i < length (tb[j := e])"
  then show "entry_ok H (tb[j := e] ! i)" using tab_invD(2) [OF I] e j by (simp add: nth_list_update)
next
  fix i x assume "i < length (tb[j := e])" "he_key (tb[j := e] ! i) = PKey x"
  then show "reach (tb[j := e]) msk (H x) i"
    using reach_update [where e = e and s = j, OF _ e(2)] tab_invD(3) [OF I] key j
    by (auto simp: nth_list_update split: if_splits)
next
  fix i i' x
  assume *: "i < length (tb[j := e])" "i' < length (tb[j := e])" "he_key (tb[j := e] ! i) = PKey x"
    "has_key E x (tb[j := e] ! i')"
  show "i = i'"
  proof (cases "i = j")
    case True
    then show ?thesis using * key j by (auto simp: nth_list_update split: if_splits)
  next
    case False
    show ?thesis
    proof (cases "i' = j")
      case True
      then obtain y where "he_key e = PKey y" "E y x" using * j by (auto simp: has_key_iff)
      then have "has_key E y (tb ! i)" using * False by (auto simp: has_key_iff intro: E_sym)
      with key [OF \<open>he_key e = PKey y\<close>] False * show ?thesis by simp
    next
      case False
      then show ?thesis using * \<open>i \<noteq> j\<close> tab_invD(4) [OF I, of i i' x] by simp
    qed
  qed
qed

lemma tab_map_update:
  assumes I: "inv tb msk" and I': "inv (tb[j := e]) msk" and j: "j < length tb"
  shows "tab_map E (tb[j := e]) z =
    (if has_key E z e then Some (he_value e) else if has_key E z (tb ! j) then None else tab_map E tb z)"
proof (cases "has_key E z e")
  case True
  then show ?thesis using inv_Some [OF I', of j z] j by simp
next
  case False
  show ?thesis
  proof (cases "\<exists>i < length tb. i \<noteq> j \<and> has_key E z (tb ! i)")
    case True
    then obtain i where i: "i < length tb" "i \<noteq> j" "has_key E z (tb ! i)" by blast
    then have "\<not> has_key E z (tb ! j)" using has_key_unique [OF I i(1) j] by blast
    then show ?thesis using inv_Some [OF I i(1,3)] inv_Some [OF I', of i z] i False by simp
  next
    case none: False
    then have "tab_map E (tb[j := e]) z = None" using False j by (auto simp: tab_map_None nth_list_update)
    moreover have "\<not> has_key E z (tb ! j) \<Longrightarrow> tab_map E tb z = None"
      using none by (auto simp: tab_map_None)
    ultimately show ?thesis using False by simp
  qed
qed

end

end
