(* ===== verification/FrtHashOps.thy ===== *)
theory FrtHashOps
  imports FrtHashLaws
begin

unbundle bit_operations_syntax

text \<open>
  The operations of \<open>frt_hash.c\<close> on a table in order (\<open>h_inv\<close>): each one returns, keeps the
  invariant and is the operation of the map \<open>h_map\<close> it should be. Resizing keeps the map and drops
  the deleted entries. The lemmas are proved in the locale \<open>key_laws\<close>, which is interpreted at the
  end by the string keys (\<open>frt_str_hash\<close>, \<open>str_eq\<close>) and the pointer keys (\<open>frt_ptr_hash\<close>,
  \<open>frt_ptr_eq\<close>).
\<close>

section \<open>Table sizes\<close>

lemma newsize_loop_pow:
  "\<exists>k'. newsize_loop (2 ^ k) m = 2 ^ k' \<and> k \<le> k' \<and> m \<le> 2 ^ k' \<and> (\<forall>b. k \<le> b \<longrightarrow> m \<le> 2 ^ b \<longrightarrow> k' \<le> b)"
proof (induction "nat (m - 2 ^ k)" arbitrary: k rule: less_induct)
  case less
  show ?case
  proof (cases "2 ^ k < m")
    case True
    have "(0 :: int) < 2 ^ k" by simp
    with True have "nat (m - 2 ^ Suc k) < nat (m - 2 ^ k)" by (simp add: nat_less_eq_zless)
    from less [OF this] obtain k' where k': "newsize_loop (2 ^ Suc k) m = 2 ^ k'" "Suc k \<le> k'"
      "m \<le> 2 ^ k'" "\<And>b. Suc k \<le> b \<Longrightarrow> m \<le> 2 ^ b \<Longrightarrow> k' \<le> b" by blast
    have "newsize_loop (2 ^ k) m = newsize_loop (2 ^ Suc k) m"
      using True by (subst newsize_loop.simps) simp
    moreover have "k' \<le> b" if "k \<le> b" "m \<le> 2 ^ b" for b
      using k'(4) that True by (cases "k = b") auto
    ultimately show ?thesis using k' by auto
  next
    case False
    then have "newsize_loop (2 ^ k) m = 2 ^ k" by (subst newsize_loop.simps) simp
    with False show ?thesis by auto
  qed
qed

lemma length_filter_less_of:
  assumes "\<And>x. P x \<Longrightarrow> Q x" and "i < length xs" and "Q (xs ! i)" and "\<not> P (xs ! i)"
  shows "length (filter P xs) < length (filter Q xs)"
proof -
  have le: "length (filter P ys) \<le> length (filter Q ys)" for ys
    using assms(1) by (induction ys) (auto intro: le_SucI)
  have "xs = take i xs @ xs ! i # drop (Suc i) xs" using assms(2) by (rule id_take_nth_drop)
  then have "filter P xs = filter P (take i xs) @ filter P (xs ! i # drop (Suc i) xs)"
    "filter Q xs = filter Q (take i xs) @ filter Q (xs ! i # drop (Suc i) xs)"
    by (metis filter_append)+
  with assms(3,4) le [of "take i xs"] le [of "drop (Suc i) xs"] show ?thesis by simp
qed

section \<open>Changing an entry\<close>

definition same_fns :: "('k, 'v) frt_hash \<Rightarrow> ('k, 'v) frt_hash \<Rightarrow> bool" where
  "same_fns self self' \<longleftrightarrow>
     h_lookup_i self' = h_lookup_i self \<and> h_hash_i self' = h_hash_i self \<and> h_eq_i self' = h_eq_i self \<and>
     h_free_key_i self' = h_free_key_i self \<and> h_free_value_i self' = h_free_value_i self"

lemma same_fns_refl [simp]: "same_fns self self"
  by (simp add: same_fns_def)

lemma same_fns_trans: "same_fns a b \<Longrightarrow> same_fns b c \<Longrightarrow> same_fns a c"
  by (simp add: same_fns_def)

lemma same_fns_claim [simp]: "same_fns self (claim_slot self j h)"
  by (simp add: same_fns_def claim_slot_def)

lemma claim_slot_simps [simp]:
  "length (h_table (claim_slot self j h)) = length (h_table self)"
  "h_mask (claim_slot self j h) = h_mask self"
  "h_fill (claim_slot self j h) = h_fill self"
  "h_size (claim_slot self j h) = h_size self"
  "h_freed (claim_slot self j h) = h_freed self"
  "h_hash_i (claim_slot self j h) = h_hash_i self"
  "h_eq_i (claim_slot self j h) = h_eq_i self"
  "h_lookup_i (claim_slot self j h) = h_lookup_i self"
  "h_free_key_i (claim_slot self j h) = h_free_key_i self"
  "h_free_value_i (claim_slot self j h) = h_free_value_i self"
  "j < length (h_table self) \<Longrightarrow> h_table (claim_slot self j h) ! j = (h_table self ! j)\<lparr>he_hash := h\<rparr>"
  by (simp_all add: claim_slot_def)

lemma size_ok_free:
  assumes "size_ok tb msk" and "count_if used tb * 3 \<le> int msk * 2 + 3"
  shows "\<exists>j < length tb. \<not> used (tb ! j)"
proof -
  obtain k where k: "4 \<le> k" "Suc msk = 2 ^ k" and l: "length tb = Suc msk"
    using assms(1) by (auto simp: size_ok_def)
  have "(2 :: nat) ^ 4 \<le> 2 ^ k" using k(1) by (intro power_increasing) auto
  then have "15 \<le> msk" using k(2) by simp
  with assms(2) l show ?thesis by (intro count_if_lt) simp
qed

lemma h_inv_free: "h_inv self \<Longrightarrow> \<exists>j < length (h_table self). \<not> used (h_table self ! j)"
  by (rule size_ok_free [where msk = "h_mask self"]) (auto simp: h_inv_def dest: tab_invD(1))

lemma empty_entry_free [simp]: "\<not> used empty_entry" "\<not> he_active empty_entry"
  by (simp_all add: used_def he_active_def empty_entry_def)

lemma entry_full:
  "he\<lparr>he_hash := h, he_key := p, he_value := v\<rparr> = \<lparr>he_hash = h, he_key = p, he_value = v\<rparr>"
  by (cases he) simp

section \<open>The operations under the laws of keys\<close>

context key_laws
begin

definition keyed :: "('k, 'v) frt_hash \<Rightarrow> bool" where
  "keyed self \<longleftrightarrow> h_inv self \<and> h_hash_i self = H \<and> h_eq_i self = E"

lemma keyedD:
  assumes "keyed self"
  shows "inv (h_table self) (h_mask self)" "h_hash_i self = H" "h_eq_i self = E"
    "h_lookup_i self = lookup_str" "h_map self = tab_map E (h_table self)"
    "h_fill self = count_if used (h_table self)" "h_size self = count_if he_active (h_table self)"
    "h_fill self * 3 \<le> int (h_mask self) * 2 + 3"
  using assms by (auto simp: keyed_def h_inv_def h_map_def)

lemma keyedI:
  "inv (h_table self) (h_mask self) \<Longrightarrow> h_hash_i self = H \<Longrightarrow> h_eq_i self = E \<Longrightarrow>
   h_lookup_i self = lookup_str \<Longrightarrow> h_fill self = count_if used (h_table self) \<Longrightarrow>
   h_size self = count_if he_active (h_table self) \<Longrightarrow> h_fill self * 3 \<le> int (h_mask self) * 2 + 3 \<Longrightarrow>
   keyed self"
  by (auto simp: keyed_def h_inv_def)

lemma inactive_entry:
  assumes "inv tb msk" and "j < length tb" and "\<not> he_active (tb ! j)"
  shows "he_value (tb ! j) = None" and "\<not> has_key E x (tb ! j)"
  using tab_invD(2) [OF assms(1,2)] assms(3)
  by (auto simp: entry_ok_def he_active_def has_key_def split: voidp.splits)

lemma inv_claim:
  assumes I: "inv tb msk" and j: "j < length tb" "\<not> he_active (tb ! j)"
  shows "inv (tb[j := (tb ! j)\<lparr>he_hash := h\<rparr>]) msk"
    and "tab_map E (tb[j := (tb ! j)\<lparr>he_hash := h\<rparr>]) = tab_map E tb"
proof -
  let ?e = "(tb ! j)\<lparr>he_hash := h\<rparr>"
  have k: "he_key ?e = he_key (tb ! j)" by simp
  show I': "inv (tb[j := ?e]) msk"
  proof (rule inv_update [OF I j(1)])
    show "entry_ok H ?e" using tab_invD(2) [OF I j(1)] j(2)
      by (auto simp: entry_ok_def he_active_def split: voidp.splits)
    show "used ?e \<or> \<not> used (tb ! j)" by (simp add: used_def)
    fix x assume "he_key ?e = PKey x"
    then show "reach tb msk (H x) j \<and> (\<forall>i < length tb. i \<noteq> j \<longrightarrow> \<not> has_key E x (tb ! i))"
      using j(2) by (simp add: he_active_def)
  qed
  have "\<not> has_key E z ?e" "\<not> has_key E z (tb ! j)" for z
    using inactive_entry(2) [OF I j] by (auto simp: has_key_def)
  then show "tab_map E (tb[j := ?e]) = tab_map E tb"
    using tab_map_update [OF I I' j(1)] by auto
qed

lemma keyed_claim:
  assumes K: "keyed self" and j: "j < length (h_table self)" "\<not> he_active (h_table self ! j)"
  shows "keyed (claim_slot self j h)" and "h_map (claim_slot self j h) = h_map self"
proof -
  note * = keyedD [OF K] and ic = inv_claim [OF keyedD(1) [OF K] j]
  show "keyed (claim_slot self j h)"
    by (rule keyedI) (use * ic(1) j in \<open>simp_all add: claim_slot_def count_if_update used_def he_active_def\<close>)
  show "h_map (claim_slot self j h) = h_map self"
    using ic(2) *(3) by (simp add: h_map_def claim_slot_def)
qed

lemma lookup_cases:
  assumes K: "keyed self"
  obtains (hit) j where "lookup_i self (PKey x) = Inr (j, self)" "j < length (h_table self)"
      "has_key E x (h_table self ! j)" "h_map self x = Some (he_value (h_table self ! j))"
  | (miss) j where "lookup_i self (PKey x) = Inr (j, claim_slot self j (H x))" "j < length (h_table self)"
      "\<not> he_active (h_table self ! j)" "reach (h_table self) (h_mask self) (H x) j" "h_map self x = None"
proof (cases "h_map self x")
  case None
  note * = keyedD [OF K]
  have "tab_map E (h_table self) x = None" using None *(5) by simp
  then obtain j where "frt_h_lookup self (PKey x) = Inr (j, claim_slot self j (H x))"
    "j < length (h_table self)" "\<not> he_active (h_table self ! j)"
    "reach (h_table self) (h_mask self) (H x) j"
    using K by (rule_tac frt_h_lookup_miss [OF *(1-3)]) (auto simp: keyed_def intro: h_inv_free)
  with None *(4) show thesis by (intro miss) (simp_all add: lookup_i_def)
next
  case (Some v)
  note * = keyedD [OF K]
  obtain j where j: "j < length (h_table self)" "has_key E x (h_table self ! j)"
    "he_value (h_table self ! j) = v"
    using Some *(5) by (auto elim: inv_SomeE)
  from frt_h_lookup_hit [OF *(1-3) j(1,2)] j Some *(4) show thesis
    by (intro hit [of j]) (auto simp: lookup_i_def)
qed

lemma has_key_active: "has_key E x he \<Longrightarrow> he_active he"
  by (auto simp: has_key_iff he_active_def)

lemma frt_h_get_ok:
  assumes K: "keyed self"
  shows "\<exists>self'. frt_h_get self (PKey x) = Inr (Option.bind (h_map self x) id, self') \<and> keyed self' \<and>
    h_map self' = h_map self \<and> same_fns self self' \<and> h_size self' = h_size self \<and> h_freed self' = h_freed self"
  using K
proof (cases rule: lookup_cases [where x = x])
  case (hit j)
  with K show ?thesis by (simp add: frt_h_get_def)
next
  case (miss j)
  then show ?thesis
    using keyed_claim [OF K miss(2,3)] inactive_entry(1) [OF keyedD(1) [OF K] miss(2,3)]
    by (simp add: frt_h_get_def)
qed

lemma frt_h_has_key_ok:
  assumes K: "keyed self"
  shows "\<exists>r self'. frt_h_has_key self (PKey x) = Inr (r, self') \<and> keyed self' \<and> h_map self' = h_map self \<and>
    same_fns self self' \<and> (r = FRT_HASH_KEY_DOES_NOT_EXIST \<longleftrightarrow> h_map self x = None) \<and> h_size self' = h_size self"
  using K
proof (cases rule: lookup_cases [where x = x])
  case (hit j)
  with K has_key_active [OF hit(3)] show ?thesis by (simp add: frt_h_has_key_def he_active_def)
next
  case (miss j)
  then show ?thesis
    using keyed_claim [OF K miss(2,3)] by (auto simp: frt_h_has_key_def he_active_def)
qed

text \<open>Deleting puts the dummy key into the slot.\<close>

lemma inv_del:
  assumes I: "inv tb msk" and j: "j < length tb" "has_key E x (tb ! j)"
  shows "inv (tb[j := (tb ! j)\<lparr>he_key := PDummy, he_value := None\<rparr>]) msk"
    and "tab_map E (tb[j := (tb ! j)\<lparr>he_key := PDummy, he_value := None\<rparr>]) z =
      (if E x z then None else tab_map E tb z)"
proof -
  let ?e = "(tb ! j)\<lparr>he_key := PDummy, he_value := None\<rparr>"
  show I': "inv (tb[j := ?e]) msk"
    by (rule inv_update [OF I j(1)]) (auto simp: entry_ok_def used_def)
  have "has_key E z (tb ! j) \<longleftrightarrow> E x z"
    using j(2) by (auto simp: has_key_iff intro: E_trans E_sym)
  moreover have "\<not> has_key E z ?e" by (simp add: has_key_def)
  ultimately show "tab_map E (tb[j := ?e]) z = (if E x z then None else tab_map E tb z)"
    using tab_map_update [OF I I' j(1)] by simp
qed

lemma keyed_del:
  assumes K: "keyed self" and j: "j < length (h_table self)" "has_key E x (h_table self ! j)"
  defines "self' \<equiv> self\<lparr>h_table := (h_table self)[j := (h_table self ! j)\<lparr>he_key := PDummy, he_value := None\<rparr>],
    h_size := h_size self - 1\<rparr>"
  shows "keyed self'" and "h_map self' z = (if E x z then None else h_map self z)"
proof -
  note * = keyedD [OF K] and d = inv_del [OF keyedD(1) [OF K] j]
  show "keyed self'"
    by (rule keyedI) (use * d(1) j has_key_active [OF j(2)] in
      \<open>simp_all add: self'_def count_if_update used_def he_active_def\<close>)
  show "h_map self' z = (if E x z then None else h_map self z)"
    using d(2) *(3) by (simp add: h_map_def self'_def)
qed

lemma freed_frame:
  "keyed self \<Longrightarrow> keyed (free_key_i self p)" "keyed self \<Longrightarrow> keyed (free_value_i self v)"
  "h_map (free_key_i self p) = h_map self" "h_map (free_value_i self v) = h_map self"
  "h_table (free_key_i self p) = h_table self" "h_table (free_value_i self v) = h_table self"
  "same_fns self (free_key_i self p)" "same_fns self (free_value_i self v)"
  "h_size (free_key_i self p) = h_size self" "h_size (free_value_i self v) = h_size self"
  "h_freed (free_key_i self p) = h_freed self @ (if h_free_key_i self then [FreeKey p] else [])"
  "h_freed (free_value_i self v) = h_freed self @ (if h_free_value_i self then [FreeValue v] else [])"
  "h_free_value_i (free_key_i self p) = h_free_value_i self"
  by (auto simp: free_key_i_def free_value_i_def keyed_def h_inv_def h_map_def same_fns_def)

lemma frt_h_del_ok:
  assumes K: "keyed self"
  shows "\<exists>self'. frt_h_del self (PKey x) = Inr (h_map self x \<noteq> None, self') \<and> keyed self' \<and>
    (\<forall>z. h_map self' z = (if E x z then None else h_map self z)) \<and> same_fns self self' \<and>
    h_size self' = h_size self - (if h_map self x = None then 0 else 1) \<and>
    (case h_map self x of None \<Rightarrow> h_freed self' = h_freed self
     | Some v \<Rightarrow> \<exists>y. E y x \<and> h_freed self' = h_freed self @
         (if h_free_key_i self then [FreeKey (PKey y)] else []) @ (if h_free_value_i self then [FreeValue v] else []))"
  using K
proof (cases rule: lookup_cases [where x = x])
  case (hit j)
  let ?he = "h_table self ! j"
  obtain y where y: "he_key ?he = PKey y" "E y x" using hit(3) by (auto simp: has_key_iff)
  define self1 where "self1 = free_value_i (free_key_i self (he_key ?he)) (he_value ?he)"
  have 1: "keyed self1" "h_map self1 = h_map self" "h_table self1 = h_table self" "same_fns self self1"
    "h_size self1 = h_size self"
    "h_freed self1 = h_freed self @ (if h_free_key_i self then [FreeKey (PKey y)] else []) @
       (if h_free_value_i self then [FreeValue (he_value ?he)] else [])"
    using K by (auto simp: self1_def freed_frame y intro: same_fns_trans [OF freed_frame(7) freed_frame(8)])
  have "frt_h_del self (PKey x) = Inr (True, self1\<lparr>h_table := (h_table self1)[j := (h_table self1 ! j)
      \<lparr>he_key := PDummy, he_value := None\<rparr>], h_size := h_size self1 - 1\<rparr>)"
    using hit(1) y by (simp add: frt_h_del_def Let_def self1_def freed_frame)
  then show ?thesis
    using keyed_del [OF 1(1), of j x] hit 1 y by (auto simp: same_fns_def)
next
  case (miss j)
  then have "frt_h_del self (PKey x) = Inr (False, claim_slot self j (H x))"
    by (auto simp: frt_h_del_def Let_def he_active_def)
  moreover have "h_map self z = None" if "E x z" for z
    using tab_map_cong [OF that, of "h_table self"] miss(5) keyedD(5) [OF K] by simp
  ultimately show ?thesis
    using keyed_claim [OF K miss(2,3)] miss(5) by auto
qed

lemma frt_h_rem_ok:
  assumes K: "keyed self"
  shows "\<exists>self'. frt_h_rem self (PKey x) False = Inr (Option.bind (h_map self x) id, self') \<and> keyed self' \<and>
    (\<forall>z. h_map self' z = (if E x z then None else h_map self z)) \<and> same_fns self self' \<and>
    h_size self' = h_size self - (if h_map self x = None then 0 else 1) \<and> h_freed self' = h_freed self"
  using K
proof (cases rule: lookup_cases [where x = x])
  case (hit j)
  then show ?thesis
    using keyed_del [OF K hit(2,3)] has_key_active [OF hit(3)]
    by (simp add: frt_h_rem_def Let_def he_active_def same_fns_def)
next
  case (miss j)
  then have "frt_h_rem self (PKey x) False = Inr (None, claim_slot self j (H x))"
    by (auto simp: frt_h_rem_def Let_def he_active_def)
  moreover have "h_map self z = None" if "E x z" for z
    using tab_map_cong [OF that, of "h_table self"] miss(5) keyedD(5) [OF K] by simp
  ultimately show ?thesis
    using keyed_claim [OF K miss(2,3)] miss(5) by auto
qed

section \<open>Writing an entry\<close>

lemma inv_put:
  assumes I: "inv tb msk" and j: "j < length tb" "\<not> he_active (tb ! j)" and r: "reach tb msk (H x) j"
    and miss: "tab_map E tb x = None"
  shows "inv (tb[j := \<lparr>he_hash = H x, he_key = PKey x, he_value = v\<rparr>]) msk"
    and "tab_map E (tb[j := \<lparr>he_hash = H x, he_key = PKey x, he_value = v\<rparr>]) z =
      (if E x z then Some v else tab_map E tb z)"
proof -
  let ?e = "\<lparr>he_hash = H x, he_key = PKey x, he_value = v\<rparr>"
  show I': "inv (tb[j := ?e]) msk"
    by (rule inv_update [OF I j(1)]) (use r miss in \<open>auto simp: entry_ok_def used_def tab_map_None\<close>)
  have "has_key E z ?e \<longleftrightarrow> E x z" by (simp add: has_key_def)
  then show "tab_map E (tb[j := ?e]) z = (if E x z then Some v else tab_map E tb z)"
    using tab_map_update [OF I I' j(1)] inactive_entry(2) [OF I j] by simp
qed

lemma inv_replace:
  assumes I: "inv tb msk" and j: "j < length tb" "has_key E x (tb ! j)"
  shows "inv (tb[j := (tb ! j)\<lparr>he_key := PKey x, he_value := v\<rparr>]) msk"
    and "tab_map E (tb[j := (tb ! j)\<lparr>he_key := PKey x, he_value := v\<rparr>]) z =
      (if E x z then Some v else tab_map E tb z)"
proof -
  let ?e = "(tb ! j)\<lparr>he_key := PKey x, he_value := v\<rparr>"
  obtain y where y: "he_key (tb ! j) = PKey y" "E y x" using j(2) by (auto simp: has_key_iff)
  have hx: "H y = H x" using y(2) by (rule E_hash)
  show I': "inv (tb[j := ?e]) msk"
  proof (rule inv_update [OF I j(1)])
    show "entry_ok H ?e" using tab_invD(2) [OF I j(1)] y hx by (simp add: entry_ok_def)
    show "used ?e \<or> \<not> used (tb ! j)" by (simp add: used_def)
    fix z assume "he_key ?e = PKey z"
    then have "z = x" by simp
    then show "reach tb msk (H z) j \<and> (\<forall>i < length tb. i \<noteq> j \<longrightarrow> \<not> has_key E z (tb ! i))"
      using tab_invD(3) [OF I j(1) y(1)] hx has_key_unique [OF I _ j(1) _ j(2)] by auto
  qed
  have "has_key E z ?e \<longleftrightarrow> E x z" "has_key E z (tb ! j) \<longleftrightarrow> E x z"
    using y by (auto simp: has_key_iff intro: E_trans E_sym)
  then show "tab_map E (tb[j := ?e]) z = (if E x z then Some v else tab_map E tb z)"
    using tab_map_update [OF I I' j(1)] by simp
qed

section \<open>Resizing\<close>

lemma frt_h_resize_lookup_ok:
  assumes I: "inv (h_table self) (h_mask self)" and free: "\<exists>j < length (h_table self). \<not> used (h_table self ! j)"
  obtains j where "frt_h_resize_lookup self h = Inr (j, claim_slot self j h)" "j < length (h_table self)"
    "\<not> used (h_table self ! j)" "reach (h_table self) (h_mask self) h j"
proof -
  let ?tb = "h_table self" and ?msk = "h_mask self"
  have so: "size_ok ?tb ?msk" using I by (rule tab_invD)
  obtain n where n: "n < probe_fuel ?tb" "\<not> used (?tb ! slot ?msk h n)"
    using free free_slot_on_path [OF so] by metis
  obtain N where N: "N \<le> n" "\<not> used (?tb ! slot ?msk h N)" "\<And>i. i < N \<Longrightarrow> used (?tb ! slot ?msk h i)"
    using first_stop [where P = "\<lambda>n. \<not> used (?tb ! slot ?msk h n)", OF n(2)] by metis
  have r: "reach ?tb ?msk h (slot ?msk h N)" using N(3) by (auto simp: reach_def)
  have "frt_h_resize_lookup self h = Inr (slot ?msk h N, claim_slot self (slot ?msk h N) h)"
  proof (cases "N = 0")
    case True
    with N show ?thesis by (simp add: frt_h_resize_lookup_def Let_def slot_def used_def)
  next
    case False
    then have "resize_lookup_loop ?tb ?msk (probe_fuel ?tb) (probe_i ?msk h 0) (drop_bit (PERTURB_SHIFT * 0) h) =
        Inr (slot ?msk h N)"
      using N n by (intro resize_lookup_loop_eq) auto
    with N(3) [of 0] False show ?thesis
      by (simp add: frt_h_resize_lookup_def Let_def slot_def used_def)
  qed
  with r N(2) show thesis using that size_ok_slot [OF so] by blast
qed

lemma no_active_no_map: "count_if he_active es \<le> 0 \<Longrightarrow> tab_map E es z = None"
proof (induction es)
  case (Cons e es)
  have "\<not> he_active e"
  proof
    assume "he_active e"
    then have "1 + count_if he_active es \<le> 0" using Cons.prems by simp
    with count_if_nonneg [of he_active es] show False by linarith
  qed
  with Cons has_key_active [of z e] show ?case by auto
qed simp

text \<open>The keys of a list of entries differ from each other.\<close>

primrec keys_uniq :: "('k, 'v) hash_entry list \<Rightarrow> bool" where
  "keys_uniq [] \<longleftrightarrow> True"
| "keys_uniq (e # es) \<longleftrightarrow> (\<forall>x. he_key e = PKey x \<longrightarrow> tab_map E es x = None) \<and> keys_uniq es"

lemma keys_uniqI:
  "(\<And>i j x. i < length es \<Longrightarrow> j < length es \<Longrightarrow> he_key (es ! i) = PKey x \<Longrightarrow> has_key E x (es ! j) \<Longrightarrow> i = j)
     \<Longrightarrow> keys_uniq es"
proof (induction es)
  case (Cons e es)
  have "tab_map E es x = None" if "he_key e = PKey x" for x
    unfolding tab_map_None using Cons.prems [of 0 "Suc j" x for j] that by auto
  moreover have "keys_uniq es"
    by (rule Cons.IH) (use Cons.prems [of "Suc i" "Suc j" x for i j x] in auto)
  ultimately show ?case by simp
qed simp

lemma resize_copy_ok:
  assumes "inv (h_table self) (h_mask self)"
    and "\<And>e. e \<in> set rest \<Longrightarrow> entry_ok H e" and "keys_uniq rest"
    and "\<And>e x. e \<in> set rest \<Longrightarrow> he_key e = PKey x \<Longrightarrow> tab_map E (h_table self) x = None"
    and "n = count_if he_active rest"
    and "count_if used (h_table self) + n < int (length (h_table self))"
  shows "\<exists>tb. resize_copy rest n self = Inr (self\<lparr>h_table := tb\<rparr>) \<and> inv tb (h_mask self) \<and>
    (\<forall>z. tab_map E tb z = (if tab_map E rest z = None then tab_map E (h_table self) z else tab_map E rest z)) \<and>
    count_if used tb = count_if used (h_table self) + n \<and>
    count_if he_active tb = count_if he_active (h_table self) + n"
  using assms
proof (induction rest arbitrary: self n)
  case Nil
  then show ?case by (intro exI [of _ "h_table self"]) simp
next
  case (Cons e rest)
  note I = Cons.prems(1)
  show ?case
  proof (cases "he_active e")
    case False
    then have nk: "\<not> has_key E z e" for z using has_key_active by blast
    have n: "n = count_if he_active rest" using Cons.prems(5) False by simp
    have step: "resize_copy (e # rest) n self = (if n > 0 then resize_copy rest n self else Inr self)"
      using False by (auto simp: he_active_def)
    have "\<exists>tb. resize_copy rest n self = Inr (self\<lparr>h_table := tb\<rparr>) \<and> inv tb (h_mask self) \<and>
      (\<forall>z. tab_map E tb z = (if tab_map E rest z = None then tab_map E (h_table self) z else tab_map E rest z)) \<and>
      count_if used tb = count_if used (h_table self) + n \<and>
      count_if he_active tb = count_if he_active (h_table self) + n"
      by (rule Cons.IH) (use Cons.prems n in auto)
    note IH = this
    show ?thesis
    proof (cases "n > 0")
      case True
      then show ?thesis using IH by (simp only: step tab_map_simps nk if_True if_False)
    next
      case False
      then have "n = 0" using count_if_nonneg [of he_active rest] unfolding n by linarith
      moreover have "tab_map E rest z = None" for z
        using False no_active_no_map [of rest z] unfolding n by simp
      ultimately show ?thesis
        unfolding step using I nk by (intro exI [of _ "h_table self"]) simp
    qed
  next
    case True
    obtain x where x: "he_key e = PKey x" using True Cons.prems(2) [of e]
      by (auto simp: he_active_def entry_ok_def split: voidp.splits)
    have h: "he_hash e = H x" using Cons.prems(2) [of e] x by (simp add: entry_ok_def)
    have n: "n = 1 + count_if he_active rest" using Cons.prems(5) True by simp
    then have npos: "n > 0" using count_if_nonneg [of he_active rest] by linarith
    have "\<exists>j < length (h_table self). \<not> used (h_table self ! j)"
      using Cons.prems(6) npos by (intro count_if_lt) simp
    from frt_h_resize_lookup_ok [OF I this, of "H x"] obtain j where
      j: "frt_h_resize_lookup self (H x) = Inr (j, claim_slot self j (H x))" "j < length (h_table self)"
        "\<not> used (h_table self ! j)" "reach (h_table self) (h_mask self) (H x) j" by blast
    have na: "\<not> he_active (h_table self ! j)" using j(3) he_active_used by blast
    have miss: "tab_map E (h_table self) x = None" using Cons.prems(4) [of e x] x by simp
    define e' where "e' = \<lparr>he_hash = H x, he_key = PKey x, he_value = he_value e\<rparr>"
    define tb1 where "tb1 = (h_table self)[j := e']"
    have put: "inv tb1 (h_mask self)"
      "\<And>z. tab_map E tb1 z = (if E x z then Some (he_value e) else tab_map E (h_table self) z)"
      using inv_put [OF I j(2) na j(4) miss] by (simp_all add: tb1_def e'_def)
    have cnt: "count_if used tb1 = count_if used (h_table self) + 1"
      "count_if he_active tb1 = count_if he_active (h_table self) + 1"
      using j(2,3) na by (simp_all add: tb1_def e'_def count_if_update used_def he_active_def)
    have step: "resize_copy (e # rest) n self = resize_copy rest (n - 1) (self\<lparr>h_table := tb1\<rparr>)"
      using npos x h j(1,2) by (simp add: claim_slot_def tb1_def e'_def entry_full)
    have diff: "tab_map E tb1 y = None" if "e'' \<in> set rest" "he_key e'' = PKey y" for e'' y
    proof -
      have "\<not> E x y"
      proof
        assume "E x y"
        have "tab_map E rest x = None" using Cons.prems(3) x by simp
        moreover have "has_key E x e''" using that(2) \<open>E x y\<close> by (simp add: has_key_def E_sym)
        ultimately show False using that(1) by (auto simp: tab_map_None in_set_conv_nth)
      qed
      then show ?thesis using put(2) Cons.prems(4) [of e'' y] that by simp
    qed
    have "\<exists>tb. resize_copy rest (n - 1) (self\<lparr>h_table := tb1\<rparr>) = Inr ((self\<lparr>h_table := tb1\<rparr>)\<lparr>h_table := tb\<rparr>) \<and>
        inv tb (h_mask (self\<lparr>h_table := tb1\<rparr>)) \<and>
        (\<forall>z. tab_map E tb z = (if tab_map E rest z = None then tab_map E (h_table (self\<lparr>h_table := tb1\<rparr>)) z
          else tab_map E rest z)) \<and>
        count_if used tb = count_if used (h_table (self\<lparr>h_table := tb1\<rparr>)) + (n - 1) \<and>
        count_if he_active tb = count_if he_active (h_table (self\<lparr>h_table := tb1\<rparr>)) + (n - 1)"
      by (rule Cons.IH) (use put cnt Cons.prems n diff in \<open>auto simp: tb1_def\<close>)
    then obtain tb where tb: "resize_copy (e # rest) n self = Inr (self\<lparr>h_table := tb\<rparr>)" "inv tb (h_mask self)"
      "\<And>z. tab_map E tb z = (if tab_map E rest z = None then tab_map E tb1 z else tab_map E rest z)"
      "count_if used tb = count_if used (h_table self) + n"
      "count_if he_active tb = count_if he_active (h_table self) + n"
      using step cnt by auto
    have "tab_map E rest z = None" if "E x z" for z
      using tab_map_cong [OF that, of rest] Cons.prems(3) x by simp
    moreover have "has_key E z e \<longleftrightarrow> E x z" for z using x by (simp add: has_key_def)
    ultimately show ?thesis using tb put(2) by (intro exI [of _ tb]) auto
  qed
qed

lemma inv_keys_uniq: "inv tb msk \<Longrightarrow> keys_uniq tb"
  by (rule keys_uniqI) (rule tab_invD(4))

lemma inv_empty: "Suc msk = 2 ^ k \<Longrightarrow> 4 \<le> k \<Longrightarrow> k \<le> 32 \<Longrightarrow> inv (replicate (Suc msk) empty_entry) msk"
  by (auto simp: tab_inv_def size_ok_def entry_ok_def empty_entry_def simp del: replicate_Suc)

lemma frt_h_resize_ok:
  assumes K: "keyed self" and m: "2 * h_size self \<le> m" "m \<le> 2 ^ 30"
  shows "\<exists>self'. frt_h_resize self m = Inr self' \<and> keyed self' \<and> h_map self' = h_map self \<and>
    same_fns self self' \<and> h_size self' = h_size self \<and> h_freed self' = h_freed self \<and>
    h_fill self' = h_size self' \<and> h_fill self' * 3 \<le> int (h_mask self') * 2"
proof -
  note * = keyedD [OF K]
  obtain k where k: "newsize_loop FRT_HASH_MINSIZE m = 2 ^ k" "4 \<le> k" "m \<le> 2 ^ k" "k \<le> 30"
    using newsize_loop_pow [of 4 m] m(2) by (auto simp: FRT_HASH_MINSIZE_def)
  define msk :: nat where "msk = 2 ^ k - 1"
  have msk: "Suc msk = 2 ^ k" by (simp add: msk_def)
  have i16: "(16 :: int) \<le> 2 ^ k" using power_increasing [OF k(2), of "2 :: int"] by simp
  have fit: "h_size self * 3 \<le> int msk * 2" "h_size self < int (Suc msk)" "int (Suc msk) = 2 ^ k"
  proof -
    show e: "int (Suc msk) = 2 ^ k" unfolding msk by simp
    then have "int msk = 2 ^ k - 1" by simp
    with m(1) k(3) i16 show "h_size self * 3 \<le> int msk * 2" "h_size self < int (Suc msk)"
      unfolding e by linarith+
  qed
  define self0 where "self0 = self\<lparr>h_table := replicate (Suc msk) empty_entry, h_fill := h_size self, h_mask := msk\<rparr>"
  have "\<exists>tb. resize_copy (h_table self) (h_size self) self0 = Inr (self0\<lparr>h_table := tb\<rparr>) \<and> inv tb (h_mask self0) \<and>
    (\<forall>z. tab_map E tb z = (if tab_map E (h_table self) z = None then tab_map E (h_table self0) z
      else tab_map E (h_table self) z)) \<and>
    count_if used tb = count_if used (h_table self0) + h_size self \<and>
    count_if he_active tb = count_if he_active (h_table self0) + h_size self"
  proof (rule resize_copy_ok)
    show "inv (h_table self0) (h_mask self0)"
      using inv_empty [OF msk k(2)] k(4) by (simp add: self0_def del: replicate_Suc)
    show "keys_uniq (h_table self)" using *(1) by (rule inv_keys_uniq)
    show "entry_ok H e" if "e \<in> set (h_table self)" for e
      using that tab_invD(2) [OF *(1)] by (auto simp: in_set_conv_nth)
    show "tab_map E (h_table self0) x = None" for x by (simp add: self0_def del: replicate_Suc)
    show "h_size self = count_if he_active (h_table self)" by (rule *(7))
    show "count_if used (h_table self0) + h_size self < int (length (h_table self0))"
      using fit by (simp add: self0_def del: replicate_Suc)
  qed
  then obtain tb where tb: "resize_copy (h_table self) (h_size self) self0 = Inr (self0\<lparr>h_table := tb\<rparr>)"
    "inv tb (h_mask self0)" "\<And>z. tab_map E tb z = (if tab_map E (h_table self) z = None
      then tab_map E (h_table self0) z else tab_map E (h_table self) z)"
    "count_if used tb = count_if used (h_table self0) + h_size self"
    "count_if he_active tb = count_if he_active (h_table self0) + h_size self" by blast
  have tm: "tab_map E tb = tab_map E (h_table self)"
    using tb(3) by (auto simp: self0_def simp del: replicate_Suc)
  have cu: "count_if used tb = h_size self" "count_if he_active tb = h_size self"
    using tb(4,5) by (auto simp: self0_def simp del: replicate_Suc)
  have "frt_h_resize self m = Inr (self0\<lparr>h_table := tb\<rparr>)"
    using tb(1) k(1) by (simp add: frt_h_resize_def Let_def self0_def msk_def)
  moreover have "keyed (self0\<lparr>h_table := tb\<rparr>)"
    by (rule keyedI) (use tb(2) cu * fit in \<open>simp_all add: self0_def\<close>)
  moreover have "h_map (self0\<lparr>h_table := tb\<rparr>) = h_map self"
    using tm *(3) by (simp add: h_map_def self0_def)
  ultimately show ?thesis using fit(1) by (simp add: self0_def same_fns_def)
qed

section \<open>Inserting\<close>

lemma keyed_put:
  assumes K: "keyed self" and j: "j < length (h_table self)" "\<not> he_active (h_table self ! j)"
    and r: "reach (h_table self) (h_mask self) (H x) j" and miss: "h_map self x = None"
    and fill: "used (h_table self ! j) \<Longrightarrow> d = 0" "\<not> used (h_table self ! j) \<Longrightarrow> d = 1"
      "(h_fill self + d) * 3 \<le> int (h_mask self) * 2 + 3"
    and self': "self' = set_entry ((claim_slot self j (H x))\<lparr>h_fill := h_fill self + d, h_size := h_size self + 1\<rparr>)
      j (PKey x) v"
  shows "keyed self'" and "h_map self' z = (if E x z then Some v else h_map self z)"
proof -
  note * = keyedD [OF K]
  let ?e = "\<lparr>he_hash = H x, he_key = PKey x, he_value = v\<rparr>"
  have tb: "h_table self' = (h_table self)[j := ?e]"
    using j by (simp add: self' set_entry_def claim_slot_def entry_full)
  have miss': "tab_map E (h_table self) x = None" using miss *(5) by simp
  note put = inv_put [OF *(1) j r miss']
  show "keyed self'"
  proof (rule keyedI)
    show "inv (h_table self') (h_mask self')" unfolding tb using put(1) by (simp add: self' set_entry_def)
    show "h_fill self' = count_if used (h_table self')"
      unfolding tb using j fill *(6) by (auto simp: self' set_entry_def count_if_update used_def)
    show "h_size self' = count_if he_active (h_table self')"
      unfolding tb using j *(7) by (auto simp: self' set_entry_def count_if_update he_active_def)
  qed (use * fill(3) in \<open>simp_all add: self' set_entry_def\<close>)
  show "h_map self' z = (if E x z then Some v else h_map self z)"
    using put(2) *(3,5) by (simp add: h_map_def tb) (simp add: self' set_entry_def)
qed

lemma frt_h_set_ext_new:
  assumes K: "keyed self" and miss: "h_map self x = None" and small: "h_size self < 2 ^ 28"
  shows "\<exists>j self1. frt_h_set_ext self (PKey x) = Inr (True, j, self1) \<and> same_fns self self1 \<and>
    h_size self1 = h_size self + 1 \<and> h_freed self1 = h_freed self \<and>
    (\<forall>v. keyed (set_entry self1 j (PKey x) v) \<and>
      (\<forall>z. h_map (set_entry self1 j (PKey x) v) z = (if E x z then Some v else h_map self z)))"
  using K
proof (cases rule: lookup_cases [where x = x])
  case (hit j)
  with miss show ?thesis by simp
next
  case (miss j)
  let ?self0 = "claim_slot self j (H x)"
  have K0: "keyed ?self0" and M0: "h_map ?self0 = h_map self" using keyed_claim [OF K miss(2,3)] by auto
  show ?thesis
  proof (cases "used (h_table self ! j)")
    case True
    then have "he_key (h_table self ! j) = PDummy" using miss(3) by (simp add: used_def he_active_def)
    then have "frt_h_set_ext self (PKey x) = Inr (True, j, ?self0\<lparr>h_size := h_size self + 1\<rparr>)"
      using miss by (simp add: frt_h_set_ext_def)
    moreover have "?self0\<lparr>h_size := h_size self + 1\<rparr> = ?self0\<lparr>h_fill := h_fill self + 0, h_size := h_size self + 1\<rparr>"
      by (simp add: claim_slot_def)
    ultimately show ?thesis
      using keyed_put [OF K miss(2-5), of 0, OF _ _ _ refl] True keyedD(8) [OF K]
      by (auto simp: same_fns_def simp del: add_0_right)
  next
    case False
    then have null: "he_key (h_table self ! j) = PNull" by (simp add: used_def)
    show ?thesis
    proof (cases "h_fill self * 3 > int (h_mask self) * 2")
      case True
      let ?m = "h_size self * (if h_size self > FRT_SLOW_DOWN then 4 else 2)"
      have "0 \<le> h_size self" using keyedD(7) [OF K] by simp
      then have "2 * h_size ?self0 \<le> ?m" "?m \<le> 2 ^ 30" using small by auto
      from frt_h_resize_ok [OF K0 this] obtain self2 where s2: "frt_h_resize ?self0 ?m = Inr self2" "keyed self2"
        "h_map self2 = h_map self" "same_fns self self2" "h_size self2 = h_size self" "h_freed self2 = h_freed self"
        "h_fill self2 = h_size self2" "h_fill self2 * 3 \<le> int (h_mask self2) * 2"
        unfolding M0 using same_fns_trans [OF same_fns_claim] by (metis claim_slot_simps(4,5))
      from s2(2) show ?thesis
      proof (cases rule: lookup_cases [where x = x])
        case (hit i)
        with s2(3) miss(5) show ?thesis by simp
      next
        case (miss i)
        have "\<not> used (h_table self2 ! i)"
        proof
          assume u: "used (h_table self2 ! i)"
          let ?g = "\<lambda>he. used he \<and> he \<noteq> h_table self2 ! i"
          have "count_if he_active (h_table self2) \<le> count_if ?g (h_table self2)"
            using miss(3) by (intro count_if_mono) (auto intro: he_active_used)
          moreover have "count_if ?g (h_table self2) < count_if used (h_table self2)"
            unfolding count_if_def of_nat_less_iff
            by (rule length_filter_less_of [OF _ miss(2)]) (use u in auto)
          ultimately show False using s2(7) keyedD(6,7) [OF s2(2)] by simp
        qed
        moreover have "frt_h_set_ext self (PKey x) = Inr (True, i, (claim_slot self2 i (H x))
            \<lparr>h_fill := h_fill self2 + 1, h_size := h_size self2 + 1\<rparr>)"
          using \<open>lookup_i self (PKey x) = _\<close> null True s2(1) miss(1) \<open>j < length (h_table self)\<close>
          by (simp add: frt_h_set_ext_def)
        ultimately show ?thesis
          using keyed_put [OF s2(2) miss(2-5), of 1, OF _ _ _ refl] s2 by (auto simp: same_fns_def)
      qed
    next
      case False
      then have "frt_h_set_ext self (PKey x) = Inr (True, j, ?self0
          \<lparr>h_fill := h_fill self + 1, h_size := h_size self + 1\<rparr>)"
        using miss null by (simp add: frt_h_set_ext_def)
      then show ?thesis
        using keyed_put [OF K miss(2-5), of 1, OF _ _ _ refl] False \<open>\<not> used _\<close> by (auto simp: same_fns_def)
    qed
  qed
qed

lemma frt_h_set_ext_old:
  assumes K: "keyed self" and hit: "h_map self x = Some v"
  obtains j where "frt_h_set_ext self (PKey x) = Inr (False, j, self)" "j < length (h_table self)"
    "has_key E x (h_table self ! j)" "he_value (h_table self ! j) = v"
  using K
proof (cases rule: lookup_cases [where x = x])
  case (hit j)
  then show thesis using that [of j] has_key_active [OF hit(3)] assms(2)
    by (auto simp: frt_h_set_ext_def he_active_def)
next
  case (miss j)
  with assms(2) show thesis by simp
qed

lemma keyed_replace:
  assumes K: "keyed self" and j: "j < length (h_table self)" "has_key E x (h_table self ! j)"
  shows "keyed (set_entry self j (PKey x) v)"
    and "h_map (set_entry self j (PKey x) v) z = (if E x z then Some v else h_map self z)"
proof -
  note * = keyedD [OF K] and r = inv_replace [OF keyedD(1) [OF K] j]
  show "keyed (set_entry self j (PKey x) v)"
    by (rule keyedI) (use * r(1) j has_key_active [OF j(2)] in
      \<open>simp_all add: set_entry_def count_if_update used_def he_active_def\<close>)
  show "h_map (set_entry self j (PKey x) v) z = (if E x z then Some v else h_map self z)"
    using r(2) *(3) by (simp add: h_map_def set_entry_def)
qed

lemma set_entry_frame [simp]:
  "h_size (set_entry self j p v) = h_size self"
  "h_freed (set_entry self j p v) = h_freed self"
  "same_fns self0 (set_entry self j p v) \<longleftrightarrow> same_fns self0 self"
  by (simp_all add: set_entry_def same_fns_def)

text \<open>What \<open>frt_h_set\<close> frees: the old key when it is another pointer, the old value when it is another one.\<close>

lemma frt_h_set_ok:
  assumes K: "keyed self" and small: "h_size self < 2 ^ 28"
  shows "\<exists>r self'. frt_h_set self (PKey x) v = Inr (r, self') \<and> keyed self' \<and>
    (\<forall>z. h_map self' z = (if E x z then Some v else h_map self z)) \<and> same_fns self self' \<and>
    h_size self' = h_size self + (if h_map self x = None then 1 else 0) \<and>
    (r = FRT_HASH_KEY_DOES_NOT_EXIST \<longleftrightarrow> h_map self x = None) \<and>
    (case h_map self x of None \<Rightarrow> h_freed self' = h_freed self
     | Some w \<Rightarrow> \<exists>y. E y x \<and> h_freed self' = h_freed self @
         (if h_free_key_i self \<and> y \<noteq> x then [FreeKey (PKey y)] else []) @
         (if h_free_value_i self \<and> w \<noteq> v then [FreeValue w] else []))"
proof (cases "h_map self x")
  case None
  from frt_h_set_ext_new [OF K None small] show ?thesis
    by (auto simp: frt_h_set_def Let_def None)
next
  case (Some w)
  from K Some show ?thesis
  proof (rule frt_h_set_ext_old)
    fix j
    assume j: "frt_h_set_ext self (PKey x) = Inr (False, j, self)" "j < length (h_table self)"
      "has_key E x (h_table self ! j)" "he_value (h_table self ! j) = w"
    obtain y where y: "he_key (h_table self ! j) = PKey y" "E y x" using j(3) by (auto simp: has_key_iff)
    define self1 where "self1 = (let self1 = (if y \<noteq> x then free_key_i self (PKey y) else self)
      in if w \<noteq> v then free_value_i self1 w else self1)"
    have 1: "keyed self1" "h_map self1 = h_map self" "h_table self1 = h_table self" "same_fns self self1"
      "h_size self1 = h_size self" "h_freed self1 = h_freed self @
         (if h_free_key_i self \<and> y \<noteq> x then [FreeKey (PKey y)] else []) @
         (if h_free_value_i self \<and> w \<noteq> v then [FreeValue w] else [])"
      using K by (auto simp: self1_def Let_def freed_frame intro: same_fns_trans [OF freed_frame(7) freed_frame(8)])
    have "frt_h_set self (PKey x) v =
        Inr (if y = x then FRT_HASH_KEY_SAME else FRT_HASH_KEY_EQUAL, set_entry self1 j (PKey x) v)"
      using j y by (simp add: frt_h_set_def Let_def self1_def)
    then show ?thesis
      using keyed_replace [OF 1(1), of j x v] j 1 y Some by auto
  qed
qed

lemma frt_h_set_safe_ok:
  assumes K: "keyed self" and small: "h_size self < 2 ^ 28"
  shows "\<exists>self'. frt_h_set_safe self (PKey x) v = Inr (h_map self x = None, self') \<and> keyed self' \<and>
    (\<forall>z. h_map self' z = (if E x z \<and> h_map self x = None then Some v else h_map self z)) \<and> same_fns self self' \<and>
    h_size self' = h_size self + (if h_map self x = None then 1 else 0) \<and> h_freed self' = h_freed self"
proof (cases "h_map self x")
  case None
  from frt_h_set_ext_new [OF K None small] show ?thesis
    by (auto simp: frt_h_set_safe_def None)
next
  case (Some w)
  from K Some show ?thesis
    by (rule frt_h_set_ext_old) (use K Some in \<open>auto simp: frt_h_set_safe_def\<close>)
qed

section \<open>Creation, clearing, iteration\<close>

lemma keyed_empty:
  assumes "h_lookup_i self = lookup_str" "h_hash_i self = H" "h_eq_i self = E"
    and "h_table self = replicate (Suc (h_mask self)) empty_entry" "h_fill self = 0" "h_size self = 0"
    and "size_ok (h_table self) (h_mask self)"
  shows "keyed self" and "h_map self x = None"
proof -
  show "keyed self"
    by (rule keyedI) (use assms inv_empty in \<open>auto simp: size_ok_def simp del: replicate_Suc\<close>)
  show "h_map self x = None" using assms by (simp add: h_map_def del: replicate_Suc)
qed

lemma size_ok_min: "size_ok (replicate 16 x) 15"
  by (auto simp: size_ok_def intro!: exI [of _ 4])

lemma frt_h_new_keyed:
  fixes self :: "('k, 'v) frt_hash"
  assumes "self = frt_h_new H E fk fv"
  shows "keyed self" and "h_map self x = None"
  using keyed_empty [of self] size_ok_min [of "empty_entry :: ('k, 'v) hash_entry"]
  by (simp_all add: assms frt_h_new_def FRT_HASH_MINSIZE_def)

lemma clear_entries_frame:
  "h_mask (clear_entries es self) = h_mask self \<and> same_fns self (clear_entries es self)"
  by (induction es arbitrary: self) (auto simp: free_key_i_def free_value_i_def same_fns_def)

lemma frt_h_clear_ok:
  assumes K: "keyed self"
  shows "keyed (frt_h_clear self)" and "h_map (frt_h_clear self) x = None" and "h_size (frt_h_clear self) = 0"
proof -
  note * = keyedD [OF K]
  let ?self1 = "if h_free_key_i self \<or> h_free_value_i self then clear_entries (h_table self) self else self"
  have f: "same_fns self ?self1" "h_mask ?self1 = h_mask self" by (simp_all add: clear_entries_frame)
  have so: "size_ok (replicate (Suc (h_mask self)) (empty_entry :: ('k, 'a) hash_entry)) (h_mask self)"
    using tab_invD(1) [OF *(1)] by (auto simp: size_ok_def)
  have "frt_h_clear self = ?self1\<lparr>h_table := replicate (Suc (h_mask self)) empty_entry, h_size := 0, h_fill := 0\<rparr>"
    unfolding frt_h_clear_def Let_def f(2) by simp
  then show "keyed (frt_h_clear self)" "h_map (frt_h_clear self) x = None" "h_size (frt_h_clear self) = 0"
    using keyed_empty [of "frt_h_clear self"] so f * by (simp_all add: same_fns_def del: replicate_Suc)
qed

lemma each_loop_eq:
  "each_loop es (count_if he_active es) = Inr (map (\<lambda>he. (he_key he, he_value he)) (filter he_active es))"
proof (induction es)
  case (Cons e es)
  have nn: "0 \<le> count_if he_active es" by simp
  show ?case
  proof (cases "he_active e")
    case True
    moreover have "0 < 1 + count_if he_active es" using nn by linarith
    ultimately show ?thesis using Cons.IH by (simp add: he_active_def [of e])
  next
    case False
    show ?thesis
    proof (cases "count_if he_active es > 0")
      case True
      with False Cons.IH show ?thesis by (auto simp: he_active_def [of e])
    next
      case none: False
      then have "length (filter he_active es) = 0" using nn by (simp add: count_if_def)
      with False none show ?thesis by simp
    qed
  qed
qed simp

lemma frt_h_each_ok:
  assumes K: "keyed self"
  shows "frt_h_each self = Inr (map (\<lambda>he. (he_key he, he_value he)) (filter he_active (h_table self)))"
  using each_loop_eq keyedD(7) [OF K] by (metis frt_h_each_def)

text \<open>Every key is reported once, with its value.\<close>

lemma frt_h_each_map:
  assumes K: "keyed self"
  shows "\<exists>calls. frt_h_each self = Inr calls \<and> int (length calls) = h_size self \<and>
    (\<forall>x v. h_map self x = Some v \<longleftrightarrow> (\<exists>y. E y x \<and> (PKey y, v) \<in> set calls))"
proof (intro exI conjI)
  note * = keyedD [OF K]
  show "frt_h_each self = Inr (map (\<lambda>he. (he_key he, he_value he)) (filter he_active (h_table self)))"
    by (rule frt_h_each_ok [OF K])
  show "int (length (map (\<lambda>he. (he_key he, he_value he)) (filter he_active (h_table self)))) = h_size self"
    using *(7) by (simp add: count_if_def)
  show "\<forall>x v. h_map self x = Some v \<longleftrightarrow>
      (\<exists>y. E y x \<and> (PKey y, v) \<in> set (map (\<lambda>he. (he_key he, he_value he)) (filter he_active (h_table self))))"
  proof (intro allI iffI)
    fix x v assume "h_map self x = Some v"
    then obtain j where j: "j < length (h_table self)" "has_key E x (h_table self ! j)" "he_value (h_table self ! j) = v"
      unfolding *(5) by (rule inv_SomeE)
    then show "\<exists>y. E y x \<and> (PKey y, v) \<in> set (map (\<lambda>he. (he_key he, he_value he)) (filter he_active (h_table self)))"
      using has_key_active [OF j(2)] by (force simp: has_key_iff)
  next
    fix x v
    assume "\<exists>y. E y x \<and> (PKey y, v) \<in> set (map (\<lambda>he. (he_key he, he_value he)) (filter he_active (h_table self)))"
    then obtain y j where y: "E y x" "j < length (h_table self)" "he_key (h_table self ! j) = PKey y"
      "he_value (h_table self ! j) = v" by (auto simp: in_set_conv_nth)
    then show "h_map self x = Some v"
      using inv_Some [OF *(1) y(2), of x] by (auto simp: *(5) has_key_iff)
  qed
qed

end

section \<open>The keys of the code\<close>

interpretation str_keys: key_laws frt_str_hash str_eq
  by unfold_locales (auto simp: str_eq_def frt_str_hash_def)

interpretation ptr_keys: key_laws frt_ptr_hash frt_ptr_eq
  by unfold_locales (auto simp: frt_ptr_eq_def)

text \<open>A table with string keys in order, as the stores use it.\<close>

definition str_table :: "(cstr, 'v) frt_hash \<Rightarrow> bool" where
  "str_table self \<longleftrightarrow> h_inv self \<and> h_hash_i self = frt_str_hash \<and> h_eq_i self = str_eq"

lemma str_table_keyed: "str_table self \<longleftrightarrow> str_keys.keyed self"
  by (simp add: str_table_def str_keys.keyed_def)

lemma str_table_new:
  "str_table (frt_h_new_str fk fv)" "h_map (frt_h_new_str fk fv) x = None" "h_size (frt_h_new_str fk fv) = 0"
  using str_keys.frt_h_new_keyed [of "frt_h_new_str fk fv" fk fv]
  by (simp_all add: str_table_keyed frt_h_new_str_def frt_h_new_def)

end
