(* ===== verification/FrtRamStore.thy ===== *)
theory FrtRamStore
  imports FrtStream FrtHash
begin

text \<open>
  The RAM store of \<open>frt_ram_store.c\<close>.

  \<^item> \<open>ram_file\<close> is \<open>FrtRAMFile\<close>. Its buffers come from \<open>malloc\<close>, so a byte is \<open>None\<close> until it is
    written; \<open>bufcnt\<close> is the length of \<open>rf_buffers\<close>. Reading a byte that was never written is
    undefined, as is any access outside the buffers.
  \<^item> \<open>ram_heap\<close> holds the allocated files by address. A freed file is gone from it, so that a use after
    \<open>free\<close> is \<open>UndefinedBehaviour\<close>. \<open>rh_next\<close> is the next address \<open>malloc\<close> and \<open>frt_estrdup\<close> give.
  \<^item> \<open>ram_store\<close> is \<open>FrtStore\<close> as far as the RAM store uses it: the table \<open>dir.ht\<close> from names to files,
    with \<open>rf_close\<close> as its \<open>free_value\<close>. The store operations run \<open>rf_close\<close> on what the table freed.
  \<^item> A name is a C string: its address and its characters.
\<close>

section \<open>Files\<close>

record ram_file =
  rf_name :: cstr
  rf_buffers :: "byte option list list"
  rf_len :: int
  rf_ref_cnt :: int

record ram_heap =
  rh_files :: "nat \<Rightarrow> ram_file option"
  rh_next :: nat

definition new_buffer :: "byte option list" where
  "new_buffer = replicate FRT_BUFFER_SIZE None"

definition frt_estrdup :: "byte list \<Rightarrow> ram_heap \<Rightarrow> cstr \<times> ram_heap" where
  "frt_estrdup s w = ((rh_next w, s), w\<lparr>rh_next := rh_next w + 1\<rparr>)"

definition rf_new :: "cstr \<Rightarrow> ram_heap \<Rightarrow> nat \<times> ram_heap" where
  "rf_new name w =
     (let (copy, w) = frt_estrdup (snd name) w;
          rf = \<lparr>rf_name = copy, rf_buffers = [new_buffer], rf_len = 0, rf_ref_cnt = 1\<rparr>
      in (rh_next w, w\<lparr>rh_files := (rh_files w)(rh_next w \<mapsto> rf), rh_next := rh_next w + 1\<rparr>))"

definition rf_get :: "ram_heap \<Rightarrow> nat \<Rightarrow> ram_file res" where
  "rf_get w r = (case rh_files w r of None \<Rightarrow> Inl UndefinedBehaviour | Some rf \<Rightarrow> Inr rf)"

definition rf_put :: "ram_heap \<Rightarrow> nat \<Rightarrow> ram_file \<Rightarrow> ram_heap" where
  "rf_put w r rf = w\<lparr>rh_files := (rh_files w)(r \<mapsto> rf)\<rparr>"

function rf_extend_if_necessary :: "ram_file \<Rightarrow> nat \<Rightarrow> ram_file" where
  "rf_extend_if_necessary rf buf_num =
     (if length (rf_buffers rf) \<le> buf_num
      then rf_extend_if_necessary (rf\<lparr>rf_buffers := rf_buffers rf @ [new_buffer]\<rparr>) buf_num
      else rf)"
  by pat_completeness auto
termination
  by (relation "measure (\<lambda>(rf, n). Suc n - length (rf_buffers rf))") auto

declare rf_extend_if_necessary.simps [simp del]

definition FRT_REF :: "nat \<Rightarrow> ram_heap \<Rightarrow> ram_heap res" where
  "FRT_REF r w = ebind (rf_get w r) (\<lambda>rf. Inr (rf_put w r (rf\<lparr>rf_ref_cnt := rf_ref_cnt rf + 1\<rparr>)))"

definition rf_close :: "nat \<Rightarrow> ram_heap \<Rightarrow> ram_heap res" where
  "rf_close r w =
     ebind (rf_get w r) (\<lambda>rf.
       if rf_ref_cnt rf - 1 = 0 then Inr (w\<lparr>rh_files := (rh_files w)(r := None)\<rparr>)
       else Inr (rf_put w r (rf\<lparr>rf_ref_cnt := rf_ref_cnt rf - 1\<rparr>)))"

section \<open>Output streams\<close>

record ram_out =
  ro_rf :: nat
  ro_pointer :: int

text \<open>\<open>memcpy(buffer + offset, src, n)\<close> into a buffer of \<open>FRT_BUFFER_SIZE\<close> bytes.\<close>

definition memcpy_buffer :: "byte option list \<Rightarrow> nat \<Rightarrow> byte list \<Rightarrow> byte option list res" where
  "memcpy_buffer buffer offset src =
     (if offset + length src \<le> length buffer then Inr (write_at buffer offset (map Some src))
      else Inl UndefinedBehaviour)"

definition rf_copy_in :: "ram_file \<Rightarrow> nat \<Rightarrow> nat \<Rightarrow> byte list \<Rightarrow> ram_file res" where
  "rf_copy_in rf buffer_number buffer_offset src =
     ebind (memcpy_buffer (rf_buffers rf ! buffer_number) buffer_offset src)
       (\<lambda>buffer. Inr (rf\<lparr>rf_buffers := (rf_buffers rf)[buffer_number := buffer]\<rparr>))"

definition ramo_flush_i :: "ram_out \<Rightarrow> byte list \<Rightarrow> ram_heap \<Rightarrow> (ram_out \<times> ram_heap) res" where
  "ramo_flush_i os src w =
     (let len = length src in
      if len = 0 then Inr (os, w)
      else if ro_pointer os < 0 then Inl UndefinedBehaviour
      else ebind (rf_get w (ro_rf os)) (\<lambda>rf.
        let pointer = nat (ro_pointer os);
            buffer_number = pointer div FRT_BUFFER_SIZE;
            buffer_offset = pointer mod FRT_BUFFER_SIZE;
            bytes_in_buffer = FRT_BUFFER_SIZE - buffer_offset;
            bytes_to_copy = (if bytes_in_buffer < len then bytes_in_buffer else len);
            rf = rf_extend_if_necessary rf buffer_number
        in ebind (rf_copy_in rf buffer_number buffer_offset (take bytes_to_copy src)) (\<lambda>rf.
           ebind (if bytes_to_copy < len
                  then (let src_offset = bytes_to_copy;
                            buffer_number = buffer_number + 1;
                            rf = rf_extend_if_necessary rf buffer_number
                        in rf_copy_in rf buffer_number 0 (drop src_offset src))
                  else Inr rf) (\<lambda>rf.
             let os = os\<lparr>ro_pointer := ro_pointer os + int len\<rparr>;
                 rf = (if ro_pointer os > rf_len rf then rf\<lparr>rf_len := ro_pointer os\<rparr> else rf)
             in Inr (os, rf_put w (ro_rf os) rf)))))"

definition ramo_seek_i :: "ram_out \<Rightarrow> int \<Rightarrow> ram_heap \<Rightarrow> (ram_out \<times> ram_heap) res" where
  "ramo_seek_i os pos w = Inr (os\<lparr>ro_pointer := pos\<rparr>, w)"

definition ramo_close_i :: "ram_out \<Rightarrow> ram_heap \<Rightarrow> ram_heap res" where
  "ramo_close_i os w = rf_close (ro_rf os) w"

definition RAM_OUT_STREAM_METHODS :: "(ram_out, ram_heap) os_methods" where
  "RAM_OUT_STREAM_METHODS = \<lparr>flush_i = ramo_flush_i, seek_o = ramo_seek_i, close_o = ramo_close_i\<rparr>"

definition frt_ramo_reset :: "ram_out outstream \<Rightarrow> ram_heap \<Rightarrow> (ram_out outstream \<times> ram_heap) res" where
  "frt_ramo_reset os w =
     ebind (frt_os_seek RAM_OUT_STREAM_METHODS os 0 w) (\<lambda>(os, w).
     ebind (rf_get w (ro_rf (os_file os))) (\<lambda>rf.
       Inr (os, rf_put w (ro_rf (os_file os)) (rf\<lparr>rf_len := 0\<rparr>))))"

text \<open>\<open>memcpy\<close> out of a buffer: bytes never written have no value.\<close>

definition read_buffer :: "byte option list \<Rightarrow> nat \<Rightarrow> nat \<Rightarrow> byte list res" where
  "read_buffer buffer offset n =
     (if offset + n \<le> length buffer \<and> None \<notin> set (take n (drop offset buffer))
      then Inr (map the (take n (drop offset buffer))) else Inl UndefinedBehaviour)"

text \<open>\<open>frt_ramo_write_to\<close>: \<open>i\<close> counts up to \<open>last_buffer_number\<close>; \<open>n\<close> is the number of rounds left.\<close>

fun ramo_write_loop ::
  "('f, 'w) os_methods \<Rightarrow> ram_file \<Rightarrow> nat \<Rightarrow> nat \<Rightarrow> nat \<Rightarrow> 'f outstream \<Rightarrow> 'w \<Rightarrow> ('f outstream \<times> 'w) res" where
  "ramo_write_loop m rf last_buffer_offset i 0 other_o w = Inr (other_o, w)"
| "ramo_write_loop m rf last_buffer_offset i (Suc n) other_o w =
     (let len = (if n = 0 then last_buffer_offset else FRT_BUFFER_SIZE) in
      if i < length (rf_buffers rf) then
        ebind (read_buffer (rf_buffers rf ! i) 0 len) (\<lambda>bs.
        ebind (frt_os_write_bytes m other_o bs w) (\<lambda>(other_o, w).
          ramo_write_loop m rf last_buffer_offset (i + 1) n other_o w))
      else Inl UndefinedBehaviour)"

definition frt_ramo_write_to ::
  "('f, 'w) os_methods \<Rightarrow> ram_out outstream \<Rightarrow> ram_heap \<Rightarrow> 'f outstream \<Rightarrow> 'w
     \<Rightarrow> (ram_out outstream \<times> ram_heap \<times> 'f outstream \<times> 'w) res" where
  "frt_ramo_write_to m os h other_o w =
     ebind (frt_os_flush RAM_OUT_STREAM_METHODS os h) (\<lambda>(os, h).
     ebind (rf_get h (ro_rf (os_file os))) (\<lambda>rf.
       let last_buffer_number = nat (rf_len rf) div FRT_BUFFER_SIZE;
           last_buffer_offset = nat (rf_len rf) mod FRT_BUFFER_SIZE
       in ebind (ramo_write_loop m rf last_buffer_offset 0 (last_buffer_number + 1) other_o w)
            (\<lambda>(other_o, w). Inr (os, h, other_o, w))))"

definition frt_ram_new_buffer :: "ram_heap \<Rightarrow> ram_out outstream \<times> ram_heap" where
  "frt_ram_new_buffer w =
     (let (r, w) = rf_new (0, []) w in (frt_os_new \<lparr>ro_rf = r, ro_pointer = 0\<rparr>, w))"

definition frt_ram_destroy_buffer :: "ram_out outstream \<Rightarrow> ram_heap \<Rightarrow> ram_heap res" where
  "frt_ram_destroy_buffer os w = rf_close (ro_rf (os_file os)) w"

section \<open>Input streams\<close>

record ram_in =
  ri_rf :: nat
  ri_pointer :: int

text \<open>The loop of \<open>rami_read_i\<close>.\<close>

function rami_read_loop :: "ram_file \<Rightarrow> nat \<Rightarrow> nat \<Rightarrow> byte list res" where
  "rami_read_loop rf start remainder =
     (if remainder > 0 then
        let buffer_number = start div FRT_BUFFER_SIZE;
            buffer_offset = start mod FRT_BUFFER_SIZE;
            bytes_in_buffer = FRT_BUFFER_SIZE - buffer_offset;
            bytes_to_copy = (if bytes_in_buffer \<ge> remainder then remainder else bytes_in_buffer)
        in if buffer_number < length (rf_buffers rf) then
             ebind (read_buffer (rf_buffers rf ! buffer_number) buffer_offset bytes_to_copy) (\<lambda>bs.
             ebind (rami_read_loop rf (start + bytes_to_copy) (remainder - bytes_to_copy)) (\<lambda>bs'.
               Inr (bs @ bs')))
           else Inl UndefinedBehaviour
      else Inr [])"
  by pat_completeness auto
termination
  by (relation "measure (\<lambda>(rf, start, remainder). remainder)") (auto simp: FRT_BUFFER_SIZE_def)

declare rami_read_loop.simps [simp del]

definition rami_read_i :: "ram_heap \<Rightarrow> ram_in \<Rightarrow> int \<Rightarrow> int \<Rightarrow> (byte list \<times> ram_in) res" where
  "rami_read_i w is stream_pos len =
     ebind (rf_get w (ri_rf is)) (\<lambda>rf.
       if len > 0 \<and> ri_pointer is < 0 then Inl UndefinedBehaviour
       else ebind (rami_read_loop rf (nat (ri_pointer is)) (nat len)) (\<lambda>bs.
         Inr (bs, is\<lparr>ri_pointer := ri_pointer is + len\<rparr>)))"

definition rami_length_i :: "ram_heap \<Rightarrow> ram_in \<Rightarrow> int" where
  "rami_length_i w is = (case rh_files w (ri_rf is) of None \<Rightarrow> 0 | Some rf \<Rightarrow> rf_len rf)"

definition rami_seek_i :: "ram_in \<Rightarrow> int \<Rightarrow> ram_in res" where
  "rami_seek_i is pos = Inr (is\<lparr>ri_pointer := pos\<rparr>)"

definition rami_close_i :: "ram_in \<Rightarrow> ram_heap \<Rightarrow> ram_heap res" where
  "rami_close_i is w = rf_close (ri_rf is) w"

text \<open>The files are on the heap: the methods of an input stream read it as it is when they are called.\<close>

definition RAM_IN_STREAM_METHODS :: "ram_heap \<Rightarrow> ram_in is_methods" where
  "RAM_IN_STREAM_METHODS w = \<lparr>read_i = rami_read_i w, seek_i = rami_seek_i, length_i = rami_length_i w\<rparr>"

section \<open>The store\<close>

record ram_store =
  dir_ht :: "(cstr, nat) frt_hash"

definition FRT_LOCK_PREFIX :: "byte list" where
  "FRT_LOCK_PREFIX = map (of_nat \<circ> of_char) ''ferret-''"

definition frt_open_ram_store :: ram_store where
  "frt_open_ram_store = \<lparr>dir_ht = frt_h_new_str False True\<rparr>"

text \<open>\<open>rf_close\<close> on the values the table passed to \<open>free_value\<close>, in their order.\<close>

fun close_freed :: "(cstr, nat) freed list \<Rightarrow> ram_heap \<Rightarrow> ram_heap res" where
  "close_freed [] w = Inr w"
| "close_freed (FreeValue (Some r) # fs) w = ebind (rf_close r w) (close_freed fs)"
| "close_freed (FreeValue None # fs) w = Inl UndefinedBehaviour"
| "close_freed (FreeKey k # fs) w = close_freed fs w"

definition with_ht :: "ram_store \<Rightarrow> (cstr, nat) frt_hash \<Rightarrow> ram_heap \<Rightarrow> (ram_store \<times> ram_heap) res" where
  "with_ht store ht w =
     ebind (close_freed (h_freed ht) w) (\<lambda>w. Inr (store\<lparr>dir_ht := ht\<lparr>h_freed := []\<rparr>\<rparr>, w))"

definition ram_touch :: "ram_store \<Rightarrow> cstr \<Rightarrow> ram_heap \<Rightarrow> (ram_store \<times> ram_heap) res" where
  "ram_touch store filename w =
     ebind (frt_h_get (dir_ht store) (PKey filename)) (\<lambda>(v, ht).
       if v = None then
         (let (r, w) = rf_new filename w in
          ebind (frt_h_set ht (PKey filename) (Some r)) (\<lambda>(_, ht). with_ht store ht w))
       else Inr (store\<lparr>dir_ht := ht\<rparr>, w))"

definition ram_exists :: "ram_store \<Rightarrow> cstr \<Rightarrow> (bool \<times> ram_store) res" where
  "ram_exists store filename =
     ebind (frt_h_get (dir_ht store) (PKey filename)) (\<lambda>(v, ht). Inr (v \<noteq> None, store\<lparr>dir_ht := ht\<rparr>))"

definition ram_remove :: "ram_store \<Rightarrow> cstr \<Rightarrow> ram_heap \<Rightarrow> (bool \<times> ram_store \<times> ram_heap) res" where
  "ram_remove store filename w =
     ebind (frt_h_rem (dir_ht store) (PKey filename) False) (\<lambda>(v, ht).
       case v of
         Some r \<Rightarrow> ebind (rf_close r w) (\<lambda>w. Inr (True, store\<lparr>dir_ht := ht\<rparr>, w))
       | None \<Rightarrow> Inr (False, store\<lparr>dir_ht := ht\<rparr>, w))"

definition ram_rename :: "ram_store \<Rightarrow> cstr \<Rightarrow> cstr \<Rightarrow> ram_heap \<Rightarrow> (ram_store \<times> ram_heap) res" where
  "ram_rename store from to w =
     ebind (frt_h_rem (dir_ht store) (PKey from) False) (\<lambda>(v, ht).
       case v of
         None \<Rightarrow> Inl FRT_IO_ERROR
       | Some r \<Rightarrow>
           ebind (rf_get w r) (\<lambda>rf.
           let (copy, w) = frt_estrdup (snd to) w;
               w = rf_put w r (rf\<lparr>rf_name := copy\<rparr>)
           in ebind (frt_h_get ht (PKey to)) (\<lambda>(tmp, ht).
              ebind (if tmp \<noteq> None
                     then ebind (frt_h_del ht (PKey to)) (\<lambda>(_, ht). with_ht store ht w)
                     else Inr (store\<lparr>dir_ht := ht\<rparr>, w)) (\<lambda>(store, w).
              ebind (frt_h_set (dir_ht store) (PKey copy) (Some r)) (\<lambda>(_, ht). with_ht store ht w)))))"

definition ram_count :: "ram_store \<Rightarrow> int" where
  "ram_count store = h_size (dir_ht store)"

definition ram_length :: "ram_store \<Rightarrow> cstr \<Rightarrow> ram_heap \<Rightarrow> (int \<times> ram_store) res" where
  "ram_length store filename w =
     ebind (frt_h_get (dir_ht store) (PKey filename)) (\<lambda>(v, ht).
       case v of
         Some r \<Rightarrow> ebind (rf_get w r) (\<lambda>rf. Inr (rf_len rf, store\<lparr>dir_ht := ht\<rparr>))
       | None \<Rightarrow> Inr (0, store\<lparr>dir_ht := ht\<rparr>))"

text \<open>\<open>ram_each\<close>: the names \<open>func\<close> is called with, in order; names with the lock prefix are skipped.\<close>

fun ram_each_loop :: "(cstr, nat) hash_entry list \<Rightarrow> ram_heap \<Rightarrow> cstr list res" where
  "ram_each_loop [] w = Inr []"
| "ram_each_loop (he # rest) w =
     (case he_value he of
        Some r \<Rightarrow>
          ebind (rf_get w r) (\<lambda>rf.
          if take (length FRT_LOCK_PREFIX) (snd (rf_name rf)) = FRT_LOCK_PREFIX
          then ram_each_loop rest w
          else ebind (ram_each_loop rest w) (\<lambda>names. Inr (rf_name rf # names)))
      | None \<Rightarrow> ram_each_loop rest w)"

definition ram_each :: "ram_store \<Rightarrow> ram_heap \<Rightarrow> cstr list res" where
  "ram_each store w = ram_each_loop (h_table (dir_ht store)) w"

text \<open>
  The loops of \<open>ram_clear\<close>, \<open>ram_clear_locks\<close> and \<open>ram_clear_all\<close> differ in the test on the name;
  \<open>i\<close> is the slot, \<open>n\<close> the number of slots left. Deleting changes the table the loop is walking.
\<close>

fun ram_clear_loop ::
  "(byte list \<Rightarrow> bool) \<Rightarrow> nat \<Rightarrow> nat \<Rightarrow> ram_store \<Rightarrow> ram_heap \<Rightarrow> (ram_store \<times> ram_heap) res" where
  "ram_clear_loop P i 0 store w = Inr (store, w)"
| "ram_clear_loop P i (Suc n) store w =
     ebind (case he_value (h_table (dir_ht store) ! i) of
              Some r \<Rightarrow>
                ebind (rf_get w r) (\<lambda>rf.
                if P (snd (rf_name rf))
                then ebind (frt_h_del (dir_ht store) (PKey (rf_name rf))) (\<lambda>(_, ht). with_ht store ht w)
                else Inr (store, w))
            | None \<Rightarrow> Inr (store, w))
       (\<lambda>(store, w). ram_clear_loop P (i + 1) n store w)"

definition ram_clear :: "ram_store \<Rightarrow> ram_heap \<Rightarrow> (ram_store \<times> ram_heap) res" where
  "ram_clear store w =
     ram_clear_loop (\<lambda>name. \<not> frt_file_is_lock name) 0 (h_mask (dir_ht store) + 1) store w"

definition ram_clear_locks :: "ram_store \<Rightarrow> ram_heap \<Rightarrow> (ram_store \<times> ram_heap) res" where
  "ram_clear_locks store w =
     ram_clear_loop frt_file_is_lock 0 (h_mask (dir_ht store) + 1) store w"

definition ram_clear_all :: "ram_store \<Rightarrow> ram_heap \<Rightarrow> (ram_store \<times> ram_heap) res" where
  "ram_clear_all store w = ram_clear_loop (\<lambda>name. True) 0 (h_mask (dir_ht store) + 1) store w"

definition ram_close_i :: "ram_store \<Rightarrow> ram_heap \<Rightarrow> (ram_store \<times> ram_heap) res" where
  "ram_close_i store w = with_ht store (frt_h_clear (dir_ht store)) w"

definition ram_new_output ::
  "ram_store \<Rightarrow> cstr \<Rightarrow> ram_heap \<Rightarrow> (ram_out outstream \<times> ram_store \<times> ram_heap) res" where
  "ram_new_output store filename w =
     ebind (frt_h_get (dir_ht store) (PKey filename)) (\<lambda>(v, ht).
     ebind (case v of
              None \<Rightarrow>
                (let (r, w) = rf_new filename w in
                 ebind (rf_get w r) (\<lambda>rf.
                 ebind (frt_h_set ht (PKey (rf_name rf)) (Some r)) (\<lambda>(_, ht).
                 ebind (with_ht store ht w) (\<lambda>(store, w). Inr (r, store, w)))))
            | Some r \<Rightarrow> Inr (r, store\<lparr>dir_ht := ht\<rparr>, w)) (\<lambda>(r, store, w).
     ebind (FRT_REF r w) (\<lambda>w. Inr (frt_os_new \<lparr>ro_rf = r, ro_pointer = 0\<rparr>, store, w))))"

definition ram_open_input ::
  "ram_store \<Rightarrow> cstr \<Rightarrow> ram_heap \<Rightarrow> (ram_in instream \<times> ram_store \<times> ram_heap) res" where
  "ram_open_input store filename w =
     ebind (frt_h_get (dir_ht store) (PKey filename)) (\<lambda>(v, ht).
       case v of
         None \<Rightarrow> Inl FRT_FILE_NOT_FOUND_ERROR
       | Some r \<Rightarrow> ebind (FRT_REF r w) (\<lambda>w.
           Inr (frt_is_new \<lparr>ri_rf = r, ri_pointer = 0\<rparr>, store\<lparr>dir_ht := ht\<rparr>, w)))"

section \<open>Locks\<close>

text \<open>A lock of the RAM store is a file with the lock's name.\<close>

definition ram_open_lock_i :: "byte list \<Rightarrow> ram_heap \<Rightarrow> cstr \<times> ram_heap" where
  "ram_open_lock_i lockname w = frt_estrdup (take 99 (FRT_LOCK_PREFIX @ lockname @ FRT_LOCK_EXT)) w"

definition ram_lock_obtain :: "cstr \<Rightarrow> ram_store \<Rightarrow> ram_heap \<Rightarrow> (bool \<times> ram_store \<times> ram_heap) res" where
  "ram_lock_obtain name store w =
     ebind (ram_exists store name) (\<lambda>(e, store).
     ebind (ram_touch store name w) (\<lambda>(store, w). Inr (\<not> e, store, w)))"

definition ram_lock_is_locked :: "cstr \<Rightarrow> ram_store \<Rightarrow> (bool \<times> ram_store) res" where
  "ram_lock_is_locked name store = ram_exists store name"

definition ram_lock_release :: "cstr \<Rightarrow> ram_store \<Rightarrow> ram_heap \<Rightarrow> (ram_store \<times> ram_heap) res" where
  "ram_lock_release name store w =
     ebind (ram_remove store name w) (\<lambda>(_, store, w). Inr (store, w))"

section \<open>Copying a store into a RAM store\<close>

text \<open>
  \<open>copy_files\<close> on one name, between two RAM stores: the bytes of the file of \<open>from_store\<close> are written
  to the file of that name in \<open>to_store\<close>. The files of both stores are on the one heap.
\<close>

definition copy_files ::
  "cstr \<Rightarrow> ram_store \<Rightarrow> ram_store \<Rightarrow> ram_heap \<Rightarrow> (ram_store \<times> ram_store \<times> ram_heap) res" where
  "copy_files fname to_store from_store w =
     ebind (ram_new_output to_store fname w) (\<lambda>(os, to_store, w).
     ebind (ram_open_input from_store fname w) (\<lambda>(is, from_store, w).
     ebind (frt_is_read_bytes (RAM_IN_STREAM_METHODS w) is
              (nat (length_i (RAM_IN_STREAM_METHODS w) (is_file is)))) (\<lambda>(buffer, is).
     ebind (frt_os_write_bytes RAM_OUT_STREAM_METHODS os buffer w) (\<lambda>(os, w).
     ebind (rami_close_i (is_file is) w) (\<lambda>w.
     ebind (frt_os_close RAM_OUT_STREAM_METHODS os w) (\<lambda>w. Inr (to_store, from_store, w)))))))"

fun copy_all :: "cstr list \<Rightarrow> ram_store \<Rightarrow> ram_store \<Rightarrow> ram_heap \<Rightarrow> (ram_store \<times> ram_store \<times> ram_heap) res" where
  "copy_all [] to_store from_store w = Inr (to_store, from_store, w)"
| "copy_all (fname # names) to_store from_store w =
     ebind (copy_files fname to_store from_store w)
       (\<lambda>(to_store, from_store, w). copy_all names to_store from_store w)"

definition frt_open_ram_store_and_copy ::
  "ram_store \<Rightarrow> ram_heap \<Rightarrow> (ram_store \<times> ram_store \<times> ram_heap) res" where
  "frt_open_ram_store_and_copy from_store w =
     ebind (ram_each from_store w) (\<lambda>names. copy_all names frt_open_ram_store from_store w)"

end
