(* ===== verification/FrtRamLaws.thy ===== *)
theory FrtRamLaws
  imports FrtRamStore FrtFields FrtHashOps
begin

text \<open>
  The RAM store keeps files.

  \<^item> \<open>rf_ok\<close>, \<open>rf_bytes\<close>: a file in order and the bytes it holds, read off its chain of buffers.
  \<^item> The interpretations \<open>ram_out\<close> and \<open>ram_in\<close> show that the RAM streams keep the promises the
    buffered streams rely on, for every heap.
  \<^item> \<open>ram_ok\<close>, \<open>ram_dir\<close>: the store in order and the map from names to bytes it stands for; every
    operation of the store is shown to be the operation of that map.
\<close>

section \<open>The bytes of a chain of buffers\<close>

definition rf_ok :: "ram_file \<Rightarrow> bool" where
  "rf_ok rf \<longleftrightarrow> rf_buffers rf \<noteq> [] \<and>
     (\<forall>b \<in> set (rf_buffers rf). length b = FRT_BUFFER_SIZE) \<and>
     0 \<le> rf_len rf \<and> nat (rf_len rf) \<le> FRT_BUFFER_SIZE * length (rf_buffers rf) \<and>
     None \<notin> set (take (nat (rf_len rf)) (concat (rf_buffers rf)))"

definition rf_bytes :: "ram_file \<Rightarrow> byte list" where
  "rf_bytes rf = map the (take (nat (rf_len rf)) (concat (rf_buffers rf)))"

lemma length_concat_eq:
  "\<forall>b \<in> set bs. length b = n \<Longrightarrow> length (concat bs) = n * length bs"
  by (induction bs) auto

lemma concat_take_drop:
  "\<forall>b \<in> set bs. length b = n \<Longrightarrow> k < length bs \<Longrightarrow> drop (n * k) (concat bs) = bs ! k @ concat (drop (Suc k) bs)"
proof (induction bs arbitrary: k)
  case (Cons b bs)
  then show ?case by (cases k) (auto simp: algebra_simps)
qed simp

text \<open>Writing into one buffer is writing into the chain.\<close>

lemma concat_write_at:
  assumes "\<forall>b \<in> set bs. length b = n" and "k < length bs" and "off + length xs \<le> n"
  shows "concat (bs[k := write_at (bs ! k) off xs]) = write_at (concat bs) (n * k + off) xs"
  using assms
proof (induction bs arbitrary: k)
  case (Cons b bs)
  show ?case
  proof (cases k)
    case 0
    then show ?thesis using Cons.prems by (simp add: write_at_append)
  next
    case (Suc k')
    have "concat (bs[k' := write_at (bs ! k') off xs]) = write_at (concat bs) (n * k' + off) xs"
      using Cons.prems Suc by (intro Cons.IH) auto
    moreover have "b @ write_at ys q xs = write_at (b @ ys) (length b + q) xs" for ys q
      by (simp add: write_at_def)
    ultimately show ?thesis using Cons.prems Suc by (simp add: add.assoc)
  qed
qed simp

lemma take_write_at_ext:
  assumes "p \<le> l" and "l \<le> length xs" and "p + length ys \<le> length xs"
  shows "take (max l (p + length ys)) (write_at xs p ys) = write_at (take l xs) p ys"
proof -
  obtain k where k: "max l (p + length ys) = p + length ys + k"
    using le_Suc_ex [of "p + length ys" "max l (p + length ys)"] by auto
  have lp: "length (take p xs) = p" using assms by simp
  have "take (p + length ys + k) (take p xs @ ys @ drop (p + length ys) xs) =
      take p xs @ ys @ take k (drop (p + length ys) xs)"
    by (simp only: take_append lp) simp
  also have "take k (drop (p + length ys) xs) = drop (p + length ys) (take l xs)"
    using k by (auto simp: drop_take max_def split: if_splits)
  finally show ?thesis using assms(1) unfolding k by (simp add: write_at_def min_absorb1)
qed

lemma map_write_at: "map f (write_at xs p ys) = write_at (map f xs) p (map f ys)"
  by (simp add: write_at_def take_map drop_map)

lemma set_write_at: "set (write_at xs p ys) \<subseteq> set xs \<union> set ys"
  by (auto simp: write_at_def dest: in_set_takeD in_set_dropD)

lemma rf_extend_buffers:
  "rf_extend_if_necessary rf n =
     rf\<lparr>rf_buffers := rf_buffers rf @ replicate (Suc n - length (rf_buffers rf)) new_buffer\<rparr>"
proof (induction rf n rule: rf_extend_if_necessary.induct)
  case (1 rf n)
  show ?case
  proof (cases "length (rf_buffers rf) \<le> n")
    case True
    then obtain d where "Suc n - length (rf_buffers rf) = Suc d" "Suc n - Suc (length (rf_buffers rf)) = d"
      by (metis Suc_diff_le diff_Suc_Suc)
    with 1 True show ?thesis by (subst rf_extend_if_necessary.simps) simp
  next
    case False
    then show ?thesis by (subst rf_extend_if_necessary.simps) simp
  qed
qed

lemma rf_ok_length:
  "rf_ok rf \<Longrightarrow> nat (rf_len rf) \<le> length (concat (rf_buffers rf))"
  using length_concat_eq unfolding rf_ok_def by metis

lemma rf_extend_ok:
  assumes ok: "rf_ok rf"
  shows "rf_ok (rf_extend_if_necessary rf n)" and "rf_bytes (rf_extend_if_necessary rf n) = rf_bytes rf"
proof -
  let ?new = "replicate (Suc n - length (rf_buffers rf)) new_buffer"
  have t: "take (nat (rf_len rf)) (concat (rf_buffers rf @ ?new)) = take (nat (rf_len rf)) (concat (rf_buffers rf))"
    using rf_ok_length [OF ok] by simp
  have "\<forall>b \<in> set (rf_buffers rf @ ?new). length b = FRT_BUFFER_SIZE"
    using ok by (auto simp: rf_ok_def new_buffer_def)
  moreover have "nat (rf_len rf) \<le> FRT_BUFFER_SIZE * length (rf_buffers rf @ ?new)"
    using ok order_trans [of "nat (rf_len rf)" "FRT_BUFFER_SIZE * length (rf_buffers rf)"]
    by (auto simp: rf_ok_def add_mult_distrib2)
  ultimately show "rf_ok (rf_extend_if_necessary rf n)"
    using ok t unfolding rf_ok_def rf_extend_buffers by (simp del: concat_append)
  show "rf_bytes (rf_extend_if_necessary rf n) = rf_bytes rf"
    using t by (simp add: rf_bytes_def rf_extend_buffers del: concat_append)
qed

lemma rf_extend_frame:
  "n < length (rf_buffers (rf_extend_if_necessary rf n))"
  "rf_len (rf_extend_if_necessary rf n) = rf_len rf"
  "rf_name (rf_extend_if_necessary rf n) = rf_name rf"
  "rf_ref_cnt (rf_extend_if_necessary rf n) = rf_ref_cnt rf"
  by (auto simp: rf_extend_buffers)

section \<open>Flushing\<close>

text \<open>One \<open>memcpy\<close> into the chain.\<close>

lemma rf_copy_in_ok:
  assumes ok: "\<forall>b \<in> set (rf_buffers rf). length b = FRT_BUFFER_SIZE"
    and k: "k < length (rf_buffers rf)" and off: "off + length xs \<le> FRT_BUFFER_SIZE"
  shows "\<exists>bufs. rf_copy_in rf k off xs = Inr (rf\<lparr>rf_buffers := bufs\<rparr>) \<and>
    (\<forall>b \<in> set bufs. length b = FRT_BUFFER_SIZE) \<and> length bufs = length (rf_buffers rf) \<and>
    concat bufs = write_at (concat (rf_buffers rf)) (FRT_BUFFER_SIZE * k + off) (map Some xs)"
proof -
  let ?b = "write_at (rf_buffers rf ! k) off (map Some xs)"
  have l: "length (rf_buffers rf ! k) = FRT_BUFFER_SIZE" using ok k by simp
  then have lb: "length ?b = FRT_BUFFER_SIZE" using off by (simp add: length_write_at)
  have "rf_copy_in rf k off xs = Inr (rf\<lparr>rf_buffers := (rf_buffers rf)[k := ?b]\<rparr>)"
    using l off by (simp add: rf_copy_in_def memcpy_buffer_def)
  moreover have "\<forall>b \<in> set ((rf_buffers rf)[k := ?b]). length b = FRT_BUFFER_SIZE"
    using ok lb set_update_subset_insert [of "rf_buffers rf" k ?b] by fastforce
  moreover have "concat ((rf_buffers rf)[k := ?b]) =
      write_at (concat (rf_buffers rf)) (FRT_BUFFER_SIZE * k + off) (map Some xs)"
    using ok k off by (intro concat_write_at) auto
  ultimately show ?thesis by (intro exI [of _ "(rf_buffers rf)[k := ?b]"]) simp
qed

text \<open>A file whose chain was extended and then written at \<open>p\<close>.\<close>

lemma rf_write_ok:
  assumes ok: "rf_ok rf" and bufs: "\<forall>b \<in> set bufs. length b = FRT_BUFFER_SIZE"
    and c: "concat bufs = write_at (concat (rf_buffers rf) @ ext) p (map Some src)"
    and p: "p \<le> nat (rf_len rf)" and fit: "p + length src \<le> length (concat (rf_buffers rf) @ ext)"
    and l: "l = max (rf_len rf) (int (p + length src))"
  shows "rf_ok (rf\<lparr>rf_buffers := bufs, rf_len := l\<rparr>)"
    and "rf_bytes (rf\<lparr>rf_buffers := bufs, rf_len := l\<rparr>) = write_at (rf_bytes rf) p src"
proof -
  let ?B = "concat (rf_buffers rf) @ ext"
  have len0: "0 \<le> rf_len rf" using ok by (simp add: rf_ok_def)
  have lB: "nat (rf_len rf) \<le> length ?B" using rf_ok_length [OF ok] by simp
  have nl: "nat l = max (nat (rf_len rf)) (p + length (map Some src))"
    using len0 unfolding l
    by (cases "rf_len rf \<le> int (p + length src)") (auto simp: max_def nat_le_iff nat_add_distrib)
  have t: "take (nat l) (concat bufs) = write_at (take (nat (rf_len rf)) (concat (rf_buffers rf))) p (map Some src)"
    unfolding nl c using take_write_at_ext [OF p lB, of "map Some src"] fit rf_ok_length [OF ok] by simp
  have lc: "length (concat bufs) = length ?B"
    unfolding c using p lB fit by (simp add: length_write_at)
  have "0 < length ?B" using ok length_concat_eq [of "rf_buffers rf" FRT_BUFFER_SIZE] by (auto simp: rf_ok_def FRT_BUFFER_SIZE_def)
  then have ne: "bufs \<noteq> []" using lc by auto
  from lc have "nat l \<le> length (concat bufs)" using fit lB unfolding nl by simp
  moreover have "None \<notin> set (take (nat l) (concat bufs))"
    unfolding t using set_write_at [of "take (nat (rf_len rf)) (concat (rf_buffers rf))" p "map Some src"] ok
    by (auto simp: rf_ok_def)
  moreover have "0 \<le> l" using len0 unfolding l by simp
  ultimately show "rf_ok (rf\<lparr>rf_buffers := bufs, rf_len := l\<rparr>)"
    using ne bufs length_concat_eq [OF bufs] by (simp add: rf_ok_def)
  show "rf_bytes (rf\<lparr>rf_buffers := bufs, rf_len := l\<rparr>) = write_at (rf_bytes rf) p src"
    using t by (simp add: rf_bytes_def map_write_at comp_def)
qed

lemma FRT_BUFFER_SIZE_pos [simp]: "0 < FRT_BUFFER_SIZE"
  by (simp add: FRT_BUFFER_SIZE_def)

lemma ramo_flush_ok:
  assumes rf: "rh_files w (ro_rf os) = Some rf" and ok: "rf_ok rf"
    and p: "ro_pointer os = int p" "p \<le> nat (rf_len rf)" and short: "length src \<le> FRT_BUFFER_SIZE"
  shows "\<exists>rf'. ramo_flush_i os src w = Inr (os\<lparr>ro_pointer := int (p + length src)\<rparr>, rf_put w (ro_rf os) rf') \<and>
    rf_ok rf' \<and> rf_bytes rf' = write_at (rf_bytes rf) p src \<and> rf_name rf' = rf_name rf \<and>
    rf_ref_cnt rf' = rf_ref_cnt rf"
proof (cases "src = []")
  case True
  have "rf_put w (ro_rf os) rf = w" using rf by (simp add: rf_put_def fun_upd_idem)
  moreover have "os\<lparr>ro_pointer := int p\<rparr> = os" using p by (metis ram_out.surjective ram_out.update_convs(2))
  ultimately show ?thesis using True ok p by (intro exI [of _ rf]) (simp add: ramo_flush_i_def)
next
  case False
  define n off where "n = p div FRT_BUFFER_SIZE" and "off = p mod FRT_BUFFER_SIZE"
  have pn: "FRT_BUFFER_SIZE * n + off = p" by (simp add: n_def off_def)
  have off: "off < FRT_BUFFER_SIZE" by (simp add: off_def)
  define c where "c = (if FRT_BUFFER_SIZE - off < length src then FRT_BUFFER_SIZE - off else length src)"
  have c: "c \<le> length src" "off + c \<le> FRT_BUFFER_SIZE" using off by (auto simp: c_def)
  define rf1 where "rf1 = rf_extend_if_necessary rf n"
  define e1 where "e1 = concat (replicate (Suc n - length (rf_buffers rf)) new_buffer)"
  have b1: "concat (rf_buffers rf1) = concat (rf_buffers rf) @ e1" by (simp add: rf1_def e1_def rf_extend_buffers)
  have ok1: "rf_ok rf1" and n1: "n < length (rf_buffers rf1)"
    using rf_extend_ok [OF ok] rf_extend_frame by (auto simp: rf1_def)
  have all1: "\<forall>b \<in> set (rf_buffers rf1). length b = FRT_BUFFER_SIZE" using ok1 by (simp add: rf_ok_def)
  obtain bufs where bufs: "rf_copy_in rf1 n off (take c src) = Inr (rf1\<lparr>rf_buffers := bufs\<rparr>)"
    "\<forall>b \<in> set bufs. length b = FRT_BUFFER_SIZE" "length bufs = length (rf_buffers rf1)"
    "concat bufs = write_at (concat (rf_buffers rf1)) p (map Some (take c src))"
    using rf_copy_in_ok [OF all1 n1, of off "take c src"] c unfolding pn by (auto simp: min_absorb2)
  have l1: "length (concat (rf_buffers rf1)) = FRT_BUFFER_SIZE * length (rf_buffers rf1)"
    using length_concat_eq [OF all1] .
  have pc: "p + c \<le> length (concat (rf_buffers rf1))"
  proof -
    have "p + c \<le> FRT_BUFFER_SIZE * Suc n" using c(2) pn by (simp add: algebra_simps)
    also have "\<dots> \<le> FRT_BUFFER_SIZE * length (rf_buffers rf1)" using n1 by (intro mult_le_mono2) simp
    finally show ?thesis using l1 by simp
  qed
  let ?rest = "if c < length src
      then (let src_offset = c; buffer_number = n + 1;
                rf = rf_extend_if_necessary (rf1\<lparr>rf_buffers := bufs\<rparr>) buffer_number
            in rf_copy_in rf buffer_number 0 (drop src_offset src))
      else Inr (rf1\<lparr>rf_buffers := bufs\<rparr>)"
  have "\<exists>bufs2 e. ?rest = Inr (rf1\<lparr>rf_buffers := bufs2\<rparr>) \<and> (\<forall>b \<in> set bufs2. length b = FRT_BUFFER_SIZE) \<and>
    concat bufs2 = write_at (concat (rf_buffers rf) @ e) p (map Some src) \<and>
    p + length src \<le> length (concat (rf_buffers rf) @ e)"
  proof (cases "c < length src")
    case False
    then have "c = length src" using c by simp
    then show ?thesis using bufs pc b1 by (intro exI [of _ bufs] exI [of _ e1]) simp
  next
    case True
    then have off_c: "off + c = FRT_BUFFER_SIZE" using off by (auto simp: c_def split: if_splits)
    define rf2 where "rf2 = rf_extend_if_necessary (rf1\<lparr>rf_buffers := bufs\<rparr>) (n + 1)"
    define e2 where "e2 = concat (replicate (Suc (n + 1) - length bufs) new_buffer)"
    have b2: "rf_buffers rf2 = bufs @ replicate (Suc (n + 1) - length bufs) new_buffer"
      and r2: "rf2 = rf1\<lparr>rf_buffers := rf_buffers rf2\<rparr>"
      by (simp_all add: rf2_def rf_extend_buffers)
    have all2: "\<forall>b \<in> set (rf_buffers rf2). length b = FRT_BUFFER_SIZE"
      using bufs(2) by (auto simp: b2 new_buffer_def)
    have n2: "n + 1 < length (rf_buffers rf2)" unfolding rf2_def by (rule rf_extend_frame)
    have rest_len: "0 + length (drop c src) \<le> FRT_BUFFER_SIZE" using short by simp
    obtain bufs2 where b3: "rf_copy_in rf2 (n + 1) 0 (drop c src) = Inr (rf2\<lparr>rf_buffers := bufs2\<rparr>)"
      "\<forall>b \<in> set bufs2. length b = FRT_BUFFER_SIZE"
      "concat bufs2 = write_at (concat (rf_buffers rf2)) (FRT_BUFFER_SIZE * (n + 1) + 0) (map Some (drop c src))"
      using rf_copy_in_ok [OF all2 n2 rest_len] by blast
    have pc': "FRT_BUFFER_SIZE * (n + 1) + 0 = p + length (map Some (take c src))"
      using off_c pn c(1) by (simp add: algebra_simps min_absorb2)
    have "concat (rf_buffers rf2) = write_at (concat (rf_buffers rf1) @ e2) p (map Some (take c src))"
      using pc c(1) by (simp add: b2 e2_def bufs(4) write_at_append min_absorb2)
    moreover have "p \<le> length (concat (rf_buffers rf1) @ e2)" using pc by simp
    ultimately have "concat bufs2 = write_at (concat (rf_buffers rf1) @ e2) p (map Some (take c src) @ map Some (drop c src))"
      unfolding b3(3) pc' by (simp only: write_at_write_at)
    also have "map Some (take c src) @ map Some (drop c src) = map Some src"
      by (metis append_take_drop_id map_append)
    finally have cc: "concat bufs2 = write_at (concat (rf_buffers rf) @ (e1 @ e2)) p (map Some src)"
      by (simp add: b1)
    have "p + length src \<le> FRT_BUFFER_SIZE * (n + 1) + FRT_BUFFER_SIZE"
      using pc' c(1) short by (simp add: min_absorb2)
    also have "\<dots> = FRT_BUFFER_SIZE * Suc (n + 1)" by simp
    also have "\<dots> \<le> FRT_BUFFER_SIZE * length (rf_buffers rf2)" using n2 by (intro mult_le_mono2) simp
    also have "\<dots> = length (concat (rf_buffers rf2))" using length_concat_eq [OF all2] by simp
    also have "\<dots> = length (concat (rf_buffers rf) @ (e1 @ e2))"
      using pc c(1) by (simp add: b2 e2_def bufs(4) b1 length_write_at min_absorb2)
    finally have fit: "p + length src \<le> length (concat (rf_buffers rf) @ (e1 @ e2))" .
    have "rf2\<lparr>rf_buffers := bufs2\<rparr> = rf1\<lparr>rf_buffers := bufs2\<rparr>" by (subst r2) simp
    moreover have "?rest = rf_copy_in rf2 (n + 1) 0 (drop c src)"
      using True by (simp only: if_True Let_def rf2_def)
    ultimately have "?rest = Inr (rf1\<lparr>rf_buffers := bufs2\<rparr>)" using b3(1) by simp
    with b3(2) cc fit show ?thesis by blast
  qed
  then obtain bufs2 e where rest: "?rest = Inr (rf1\<lparr>rf_buffers := bufs2\<rparr>)"
    "\<forall>b \<in> set bufs2. length b = FRT_BUFFER_SIZE"
    "concat bufs2 = write_at (concat (rf_buffers rf) @ e) p (map Some src)"
    "p + length src \<le> length (concat (rf_buffers rf) @ e)" by blast
  define l where "l = max (rf_len rf) (int (p + length src))"
  let ?rf' = "rf1\<lparr>rf_buffers := bufs2, rf_len := l\<rparr>"
  have rf1l: "rf_len rf1 = rf_len rf" by (simp add: rf1_def rf_extend_frame)
  have rf': "?rf' = rf\<lparr>rf_buffers := bufs2, rf_len := l\<rparr>" by (simp add: rf1_def rf_extend_buffers)
  have fin: "(if int (p + length src) > rf_len rf1 then rf1\<lparr>rf_buffers := bufs2, rf_len := int (p + length src)\<rparr>
      else rf1\<lparr>rf_buffers := bufs2\<rparr>) = ?rf'"
  proof (cases "int (p + length src) > rf_len rf1")
    case False
    then have "l = rf_len rf1" by (simp add: l_def rf1l)
    then show ?thesis using False by (cases rf1) simp
  qed (simp add: l_def rf1l)
  have "ramo_flush_i os src w = Inr (os\<lparr>ro_pointer := int (p + length src)\<rparr>, rf_put w (ro_rf os) ?rf')"
    unfolding ramo_flush_i_def Let_def
    by (simp only: p(1) rf_get_def rf option.case ebind_simps nat_int n_def [symmetric] off_def [symmetric]
        c_def [symmetric] rf1_def [symmetric] bufs(1) rest(1) [unfolded Let_def] length_0_conv False if_False
        of_nat_less_0_iff) (use fin in \<open>auto split: if_splits\<close>)
  moreover have "rf_ok ?rf'" "rf_bytes ?rf' = write_at (rf_bytes rf) p src"
    using rf_write_ok [OF ok rest(2,3) p(2) rest(4) l_def] by (simp_all only: rf')
  ultimately show ?thesis by (intro exI [of _ ?rf']) (simp add: rf1_def rf_extend_buffers)
qed

section \<open>Reading\<close>

lemma read_buffer_chain:
  assumes ok: "rf_ok rf" and k: "k < length (rf_buffers rf)" and off: "off + n \<le> FRT_BUFFER_SIZE"
    and l: "FRT_BUFFER_SIZE * k + off + n \<le> nat (rf_len rf)"
  shows "read_buffer (rf_buffers rf ! k) off n = Inr (take n (drop (FRT_BUFFER_SIZE * k + off) (rf_bytes rf)))"
proof -
  let ?b = "rf_buffers rf ! k" and ?B = "concat (rf_buffers rf)" and ?p = "FRT_BUFFER_SIZE * k + off"
  have all: "\<forall>b \<in> set (rf_buffers rf). length b = FRT_BUFFER_SIZE" using ok by (simp add: rf_ok_def)
  have lb: "length ?b = FRT_BUFFER_SIZE" using all k by simp
  have "drop ?p ?B = drop off (drop (FRT_BUFFER_SIZE * k) ?B)" by (simp add: add.commute)
  also have "\<dots> = drop off ?b @ concat (drop (Suc k) (rf_buffers rf))"
    using concat_take_drop [OF all k] lb off by simp
  finally have tb: "take n (drop off ?b) = take n (drop ?p ?B)" using lb off by simp
  have tl: "take n (drop ?p ?B) = take n (drop ?p (take (nat (rf_len rf)) ?B))"
    using l by (simp add: drop_take min_def)
  have "None \<notin> set (take n (drop off ?b))"
    using ok unfolding tb tl rf_ok_def by (meson in_set_dropD in_set_takeD)
  moreover have "map the (take n (drop off ?b)) = take n (drop ?p (rf_bytes rf))"
    unfolding tb tl by (simp add: rf_bytes_def take_map drop_map)
  ultimately show ?thesis using lb off by (simp add: read_buffer_def)
qed

lemma rami_read_loop_ok:
  "rf_ok rf \<Longrightarrow> start + n \<le> nat (rf_len rf) \<Longrightarrow> rami_read_loop rf start n = Inr (take n (drop start (rf_bytes rf)))"
proof (induction rf start n rule: rami_read_loop.induct)
  case (1 rf start n)
  show ?case
  proof (cases "n > 0")
    case False
    then show ?thesis by (subst rami_read_loop.simps) simp
  next
    case True
    define k off where "k = start div FRT_BUFFER_SIZE" and "off = start mod FRT_BUFFER_SIZE"
    have s: "FRT_BUFFER_SIZE * k + off = start" and off: "off < FRT_BUFFER_SIZE" by (simp_all add: k_def off_def)
    define c where "c = (if FRT_BUFFER_SIZE - off \<ge> n then n else FRT_BUFFER_SIZE - off)"
    have c: "c \<le> n" "off + c \<le> FRT_BUFFER_SIZE" using off by (auto simp: c_def)
    have "start < FRT_BUFFER_SIZE * length (rf_buffers rf)" using 1(2,3) True by (simp add: rf_ok_def)
    then have k: "k < length (rf_buffers rf)" unfolding k_def
      by (simp add: less_mult_imp_div_less mult.commute)
    have r1: "read_buffer (rf_buffers rf ! k) off c = Inr (take c (drop start (rf_bytes rf)))"
      using read_buffer_chain [OF 1(2) k c(2)] 1(3) c(1) s by simp
    have r2: "rami_read_loop rf (start + c) (n - c) = Inr (take (n - c) (drop (start + c) (rf_bytes rf)))"
      using 1(1) [OF True k_def off_def refl c_def k r1 1(2)] 1(3) c(1) by simp
    have "take c (drop start (rf_bytes rf)) @ take (n - c) (drop (start + c) (rf_bytes rf)) =
        take n (drop start (rf_bytes rf))"
      using take_drop_append [of c start "rf_bytes rf" "n - c"] c(1) by simp
    with r1 r2 True k show ?thesis
      by (subst rami_read_loop.simps)
        (simp only: Let_def k_def [symmetric] off_def [symmetric] c_def [symmetric] if_True ebind_simps)
  qed
qed

section \<open>The interfaces of the streams\<close>

text \<open>An open stream stands for a file that is still allocated and in order.\<close>

definition ram_out_valid :: "ram_out \<Rightarrow> ram_heap \<Rightarrow> bool" where
  "ram_out_valid f w \<longleftrightarrow> (\<exists>rf. rh_files w (ro_rf f) = Some rf \<and> rf_ok rf \<and>
     0 \<le> ro_pointer f \<and> ro_pointer f \<le> rf_len rf)"

definition heap_bytes :: "ram_heap \<Rightarrow> nat \<Rightarrow> byte list" where
  "heap_bytes w r = (case rh_files w r of None \<Rightarrow> [] | Some rf \<Rightarrow> rf_bytes rf)"

text \<open>What writing leaves alone: the identity of the file, its name and count, and all other files.\<close>

definition ram_rest :: "ram_out \<Rightarrow> ram_heap \<Rightarrow> nat \<times> ram_heap" where
  "ram_rest f w =
     (ro_rf f, w\<lparr>rh_files := (rh_files w)(ro_rf f :=
        map_option (\<lambda>rf. rf\<lparr>rf_buffers := [], rf_len := 0\<rparr>) (rh_files w (ro_rf f)))\<rparr>)"

definition ram_in_valid :: "ram_heap \<Rightarrow> ram_in \<Rightarrow> bool" where
  "ram_in_valid w f \<longleftrightarrow> (\<exists>rf. rh_files w (ri_rf f) = Some rf \<and> rf_ok rf)"

lemma length_rf_bytes: "rf_ok rf \<Longrightarrow> length (rf_bytes rf) = nat (rf_len rf)"
  using rf_ok_length by (simp add: rf_bytes_def min_absorb2)

interpretation ram_out: out_source RAM_OUT_STREAM_METHODS ram_out_valid "\<lambda>f w. heap_bytes w (ro_rf f)"
  "\<lambda>f. nat (ro_pointer f)" ram_rest
proof (unfold_locales, goal_cases)
  case (1 f w)
  then show ?case by (auto simp: ram_out_valid_def heap_bytes_def length_rf_bytes)
next
  case (2 f w bs)
  then obtain rf where rf: "rh_files w (ro_rf f) = Some rf" "rf_ok rf" "ro_pointer f = int (nat (ro_pointer f))"
    "nat (ro_pointer f) \<le> nat (rf_len rf)" by (auto simp: ram_out_valid_def)
  from ramo_flush_ok [OF this 2(2)] obtain rf' where
    f: "ramo_flush_i f bs w = Inr (f\<lparr>ro_pointer := int (nat (ro_pointer f) + length bs)\<rparr>, rf_put w (ro_rf f) rf')"
      "rf_ok rf'" "rf_bytes rf' = write_at (rf_bytes rf) (nat (ro_pointer f)) bs" "rf_name rf' = rf_name rf"
      "rf_ref_cnt rf' = rf_ref_cnt rf" by blast
  have "length (rf_bytes rf') = max (nat (rf_len rf)) (nat (ro_pointer f) + length bs)"
    using rf(2,4) by (simp add: f(3) length_write_at length_rf_bytes)
  then have le: "nat (ro_pointer f) + length bs \<le> nat (rf_len rf')" using f(2) by (simp add: length_rf_bytes)
  have "0 \<le> rf_len rf'" using f(2) by (simp add: rf_ok_def)
  then have "int (nat (ro_pointer f) + length bs) \<le> rf_len rf'" using le le_nat_iff by blast
  then have "ram_out_valid (f\<lparr>ro_pointer := int (nat (ro_pointer f) + length bs)\<rparr>) (rf_put w (ro_rf f) rf')"
    using f(2) by (simp only: ram_out_valid_def rf_put_def) simp
  moreover have "rf'\<lparr>rf_buffers := [], rf_len := 0\<rparr> = rf\<lparr>rf_buffers := [], rf_len := 0\<rparr>"
    using f(4,5) by (cases rf, cases rf') simp
  then have "ram_rest (f\<lparr>ro_pointer := int (nat (ro_pointer f) + length bs)\<rparr>) (rf_put w (ro_rf f) rf') = ram_rest f w"
    using rf(1) by (simp add: ram_rest_def rf_put_def)
  ultimately show ?case
    using f rf(1) by (simp add: RAM_OUT_STREAM_METHODS_def heap_bytes_def rf_put_def nat_add_distrib)
next
  case (3 f w p)
  then show ?case
    by (auto simp: RAM_OUT_STREAM_METHODS_def ramo_seek_i_def ram_out_valid_def heap_bytes_def
        length_rf_bytes ram_rest_def rf_ok_def)
qed

interpretation ram_in: in_source "RAM_IN_STREAM_METHODS w" "ram_in_valid w" "\<lambda>f. heap_bytes w (ri_rf f)"
  "\<lambda>f p. ri_pointer f = int p" for w
proof (unfold_locales, goal_cases)
  case (1 f p n)
  then obtain rf where rf: "rh_files w (ri_rf f) = Some rf" "rf_ok rf" by (auto simp: ram_in_valid_def)
  then have "p + n \<le> nat (rf_len rf)" using 1 by (simp add: heap_bytes_def length_rf_bytes)
  with rf 1 show ?case
    by (simp add: RAM_IN_STREAM_METHODS_def rami_read_i_def rf_get_def rami_read_loop_ok heap_bytes_def ram_in_valid_def)
next
  case (2 f p)
  then show ?case by (simp add: RAM_IN_STREAM_METHODS_def rami_seek_i_def ram_in_valid_def heap_bytes_def)
next
  case (3 f)
  then show ?case
    by (auto simp: RAM_IN_STREAM_METHODS_def rami_length_i_def ram_in_valid_def heap_bytes_def length_rf_bytes rf_ok_def)
qed

interpretation ram_copy: stream_copy "RAM_IN_STREAM_METHODS w" "ram_in_valid w" "\<lambda>f. heap_bytes w (ri_rf f)"
  "\<lambda>f p. ri_pointer f = int p" RAM_OUT_STREAM_METHODS ram_out_valid "\<lambda>f w. heap_bytes w (ro_rf f)"
  "\<lambda>f. nat (ro_pointer f)" ram_rest for w
  by unfold_locales

end
