(* ===== verification/FrtRamDir.thy ===== *)
theory FrtRamDir
  imports FrtRamLaws
begin

text \<open>
  The directory of the RAM store: \<open>ram_dir\<close> is the map from names to bytes a store stands for,
  \<open>ram_ok\<close> says that its table and its files are in order, that no file it lists was freed and that
  every file is listed under its own name. Every operation of \<open>frt_ram_store.c\<close> on names is shown
  to return, to keep \<open>ram_ok\<close> and to be the operation of the map; an output stream that is opened,
  written and closed changes the one entry it was opened for.
\<close>

section \<open>The table of names\<close>

definition ref_of :: "(cstr, nat) frt_hash \<Rightarrow> byte list \<Rightarrow> nat option" where
  "ref_of ht n = Option.bind (h_map ht (0, n)) id"

definition tab_ok :: "(cstr, nat) frt_hash \<Rightarrow> bool" where
  "tab_ok ht \<longleftrightarrow> str_keys.keyed ht \<and> \<not> h_free_key_i ht \<and> h_free_value_i ht \<and> h_freed ht = [] \<and>
     (\<forall>n. h_map ht (0, n) \<noteq> Some None)"

lemma h_map_chars: "str_keys.keyed ht \<Longrightarrow> h_map ht x = h_map ht (0, snd x)"
  using str_keys.tab_map_cong [of x "(0, snd x)"] by (simp add: str_keys.keyedD str_eq_def)

lemma ref_of_chars: "tab_ok ht \<Longrightarrow> Option.bind (h_map ht x) id = ref_of ht (snd x)"
  using h_map_chars [of ht x] by (simp add: tab_ok_def ref_of_def)

lemma ref_of_Some: "tab_ok ht \<Longrightarrow> h_map ht x \<noteq> None \<longleftrightarrow> ref_of ht (snd x) \<noteq> None"
proof -
  assume T: "tab_ok ht"
  then have "h_map ht (0, snd x) \<noteq> Some None" "h_map ht x = h_map ht (0, snd x)"
    using h_map_chars [of ht x] by (auto simp: tab_ok_def)
  then show ?thesis by (cases "h_map ht (0, snd x)") (auto simp: ref_of_def)
qed

lemma tab_ok_new: "tab_ok (frt_h_new_str False True)" "ref_of (frt_h_new_str False True) n = None"
proof -
  have eq: "frt_h_new_str False True = (frt_h_new frt_str_hash str_eq False True :: (cstr, nat) frt_hash)"
    by (simp add: frt_h_new_str_def frt_h_new_def)
  show "tab_ok (frt_h_new_str False True)" "ref_of (frt_h_new_str False True) n = None"
    using str_keys.frt_h_new_keyed [OF eq] by (simp_all add: tab_ok_def ref_of_def frt_h_new_str_def)
qed

lemma ht_get:
  assumes T: "tab_ok ht"
  obtains ht' where "frt_h_get ht (PKey x) = Inr (ref_of ht (snd x), ht')" "tab_ok ht'"
    "ref_of ht' = ref_of ht" "h_size ht' = h_size ht"
proof -
  have K: "str_keys.keyed ht" using T by (simp add: tab_ok_def)
  from str_keys.frt_h_get_ok [OF K, of x] obtain ht' where
    h: "frt_h_get ht (PKey x) = Inr (Option.bind (h_map ht x) id, ht')" "str_keys.keyed ht'"
      "h_map ht' = h_map ht" "same_fns ht ht'" "h_size ht' = h_size ht" "h_freed ht' = h_freed ht" by blast
  have "tab_ok ht'" using T h by (simp add: tab_ok_def same_fns_def)
  moreover have "ref_of ht' = ref_of ht" using h(3) by (simp add: ref_of_def fun_eq_iff)
  ultimately show thesis using that h by (simp add: ref_of_chars [OF T])
qed

lemma ht_set:
  assumes T: "tab_ok ht" and new: "ref_of ht (snd x) = None" and small: "h_size ht < 2 ^ 28"
  obtains st ht' where "frt_h_set ht (PKey x) (Some r) = Inr (st, ht')" "tab_ok ht'"
    "ref_of ht' = (ref_of ht)(snd x \<mapsto> r)" "h_size ht' = h_size ht + 1"
proof -
  have K: "str_keys.keyed ht" using T by (simp add: tab_ok_def)
  have none: "h_map ht x = None" using ref_of_Some [OF T, of x] new by blast
  from str_keys.frt_h_set_ok [OF K small, of x "Some r"] obtain st ht' where
    h: "frt_h_set ht (PKey x) (Some r) = Inr (st, ht')" "str_keys.keyed ht'"
      "\<And>z. h_map ht' z = (if str_eq x z then Some (Some r) else h_map ht z)" "same_fns ht ht'"
      "h_size ht' = h_size ht + 1" "h_freed ht' = h_freed ht"
    unfolding none by auto
  have "tab_ok ht'" using T h by (simp add: tab_ok_def same_fns_def)
  moreover have "ref_of ht' = (ref_of ht)(snd x \<mapsto> r)"
    using h(3) by (auto simp: ref_of_def fun_eq_iff str_eq_def)
  ultimately show thesis using that h by simp
qed

lemma ht_rem:
  assumes T: "tab_ok ht"
  obtains ht' where "frt_h_rem ht (PKey x) False = Inr (ref_of ht (snd x), ht')" "tab_ok ht'"
    "ref_of ht' = (ref_of ht)(snd x := None)"
    "h_size ht' = h_size ht - (if ref_of ht (snd x) = None then 0 else 1)"
proof -
  have K: "str_keys.keyed ht" using T by (simp add: tab_ok_def)
  from str_keys.frt_h_rem_ok [OF K, of x] obtain ht' where
    h: "frt_h_rem ht (PKey x) False = Inr (Option.bind (h_map ht x) id, ht')" "str_keys.keyed ht'"
      "\<And>z. h_map ht' z = (if str_eq x z then None else h_map ht z)" "same_fns ht ht'"
      "h_size ht' = h_size ht - (if h_map ht x = None then 0 else 1)" "h_freed ht' = h_freed ht" by blast
  have "tab_ok ht'" using T h by (simp add: tab_ok_def same_fns_def)
  moreover have "ref_of ht' = (ref_of ht)(snd x := None)"
    using h(3) by (auto simp: ref_of_def fun_eq_iff str_eq_def)
  moreover have "h_map ht x = None \<longleftrightarrow> ref_of ht (snd x) = None" using ref_of_Some [OF T, of x] by blast
  ultimately show thesis using that h by (simp add: ref_of_chars [OF T])
qed

lemma ht_del:
  assumes T: "tab_ok ht"
  obtains ht' where "frt_h_del ht (PKey x) = Inr (ref_of ht (snd x) \<noteq> None, ht')" "tab_ok (ht'\<lparr>h_freed := []\<rparr>)"
    "ref_of (ht'\<lparr>h_freed := []\<rparr>) = (ref_of ht)(snd x := None)"
    "h_freed ht' = (case ref_of ht (snd x) of None \<Rightarrow> [] | Some r \<Rightarrow> [FreeValue (Some r)])"
    "h_size ht' = h_size ht - (if ref_of ht (snd x) = None then 0 else 1)"
proof -
  have K: "str_keys.keyed ht" using T by (simp add: tab_ok_def)
  from str_keys.frt_h_del_ok [OF K, of x] obtain ht' where
    h: "frt_h_del ht (PKey x) = Inr (h_map ht x \<noteq> None, ht')" "str_keys.keyed ht'"
      "\<And>z. h_map ht' z = (if str_eq x z then None else h_map ht z)" "same_fns ht ht'"
      "h_size ht' = h_size ht - (if h_map ht x = None then 0 else 1)"
      "case h_map ht x of None \<Rightarrow> h_freed ht' = h_freed ht
       | Some v \<Rightarrow> \<exists>y. str_eq y x \<and> h_freed ht' = h_freed ht @
           (if h_free_key_i ht then [FreeKey (PKey y)] else []) @ (if h_free_value_i ht then [FreeValue v] else [])"
    by blast
  have hm: "h_map (ht'\<lparr>h_freed := []\<rparr>) = h_map ht'" by (simp add: h_map_def)
  have "tab_ok (ht'\<lparr>h_freed := []\<rparr>)"
    using T h(2-4) by (simp add: tab_ok_def same_fns_def hm) (simp add: str_keys.keyed_def h_inv_def)
  moreover have "ref_of (ht'\<lparr>h_freed := []\<rparr>) = (ref_of ht)(snd x := None)"
    using h(3) by (auto simp: ref_of_def fun_eq_iff str_eq_def hm)
  moreover have n: "h_map ht x = None \<longleftrightarrow> ref_of ht (snd x) = None" using ref_of_Some [OF T, of x] by blast
  moreover have "h_freed ht' = (case ref_of ht (snd x) of None \<Rightarrow> [] | Some r \<Rightarrow> [FreeValue (Some r)])"
    using h(6) T n ref_of_chars [OF T, of x] by (auto simp: tab_ok_def split: option.splits)
  ultimately show thesis using that h by simp
qed

section \<open>Stores in order\<close>

definition heap_ok :: "ram_heap \<Rightarrow> bool" where
  "heap_ok w \<longleftrightarrow> (\<forall>r. rh_files w r \<noteq> None \<longrightarrow> r < rh_next w)"

definition file_ok :: "ram_heap \<Rightarrow> byte list \<Rightarrow> nat \<Rightarrow> bool" where
  "file_ok w n r \<longleftrightarrow> (\<exists>rf. rh_files w r = Some rf \<and> rf_ok rf \<and> 1 \<le> rf_ref_cnt rf \<and> snd (rf_name rf) = n)"

definition ram_ok :: "ram_store \<Rightarrow> ram_heap \<Rightarrow> bool" where
  "ram_ok store w \<longleftrightarrow> tab_ok (dir_ht store) \<and> heap_ok w \<and>
     (\<forall>n r. ref_of (dir_ht store) n = Some r \<longrightarrow> file_ok w n r)"

definition ram_dir :: "ram_store \<Rightarrow> ram_heap \<Rightarrow> byte list \<Rightarrow> byte list option" where
  "ram_dir store w n = map_option (heap_bytes w) (ref_of (dir_ht store) n)"

lemma file_ok_name: "file_ok w n r \<Longrightarrow> file_ok w n' r \<Longrightarrow> n = n'"
  by (auto simp: file_ok_def)

lemma rf_new_ok:
  assumes "rf_new name w = (r, w')" and "heap_ok w"
  shows "heap_ok w'" and "file_ok w' (snd name) r" and "heap_bytes w' r = []" and "rh_files w r = None"
    and "\<And>s. s \<noteq> r \<Longrightarrow> rh_files w' s = rh_files w s"
    and "\<exists>a. rh_files w' r = Some \<lparr>rf_name = (a, snd name), rf_buffers = [new_buffer], rf_len = 0, rf_ref_cnt = 1\<rparr>"
  using assms
  by (auto simp: rf_new_def frt_estrdup_def Let_def heap_ok_def file_ok_def heap_bytes_def rf_bytes_def
      rf_ok_def new_buffer_def less_Suc_eq)

text \<open>What the store lists is not disturbed by changes to other addresses.\<close>

lemma file_ok_frame: "rh_files w' r = rh_files w r \<Longrightarrow> file_ok w' n r = file_ok w n r"
  by (simp add: file_ok_def)

lemma heap_bytes_frame: "rh_files w' r = rh_files w r \<Longrightarrow> heap_bytes w' r = heap_bytes w r"
  by (simp add: heap_bytes_def)

theorem ram_open_ok:
  assumes "heap_ok w"
  shows "ram_ok frt_open_ram_store w" and "ram_dir frt_open_ram_store w n = None"
  using tab_ok_new assms by (simp_all add: ram_ok_def frt_open_ram_store_def ram_dir_def)

lemma with_ht_nil: "h_freed ht = [] \<Longrightarrow> with_ht store ht w = Inr (store\<lparr>dir_ht := ht\<rparr>, w)"
proof -
  assume f: "h_freed ht = []"
  then have "ht\<lparr>h_freed := []\<rparr> = ht" by (cases ht) simp
  with f show ?thesis by (simp add: with_ht_def)
qed

text \<open>Listing a new file: \<open>rf_new\<close>, then \<open>frt_h_set\<close> under a name with the same characters.\<close>

lemma ram_add_ok:
  assumes S: "ram_ok store w" and T: "tab_ok ht" and e: "ref_of ht = ref_of (dir_ht store)"
    and new: "ref_of ht (snd x) = None" and small: "h_size ht < 2 ^ 28" and r: "rf_new x w = (r, w')"
    and y: "snd y = snd x"
  obtains st ht' where "frt_h_set ht (PKey y) (Some r) = Inr (st, ht')"
    "with_ht store ht' w' = Inr (store\<lparr>dir_ht := ht'\<rparr>, w')" "ram_ok (store\<lparr>dir_ht := ht'\<rparr>) w'"
    "ram_dir (store\<lparr>dir_ht := ht'\<rparr>) w' = (ram_dir store w)(snd x \<mapsto> [])" "ref_of ht' (snd x) = Some r"
    "h_size ht' = h_size ht + 1"
proof -
  have H: "heap_ok w" and F: "\<And>n s. ref_of ht n = Some s \<Longrightarrow> file_ok w n s"
    using S by (auto simp: ram_ok_def e)
  note n = rf_new_ok [OF r H]
  obtain st ht' where h: "frt_h_set ht (PKey y) (Some r) = Inr (st, ht')" "tab_ok ht'"
    "ref_of ht' = (ref_of ht)(snd x \<mapsto> r)" "h_size ht' = h_size ht + 1"
    using ht_set [OF T new [folded y] small] unfolding y .
  have other: "s \<noteq> r" if "ref_of ht m = Some s" for m s
    using F [OF that] n(4) by (auto simp: file_ok_def)
  have fr: "file_ok w' m s = file_ok w m s" "heap_bytes w' s = heap_bytes w s" if "s \<noteq> r" for m s
    using file_ok_frame [OF n(5) [OF that]] heap_bytes_frame [OF n(5) [OF that]] by simp_all
  have "ram_ok (store\<lparr>dir_ht := ht'\<rparr>) w'"
    using h(2,3) n(1,2) F other fr by (auto simp: ram_ok_def split: if_splits)
  moreover have "ram_dir (store\<lparr>dir_ht := ht'\<rparr>) w' = (ram_dir store w)(snd x \<mapsto> [])"
  proof
    fix m
    show "ram_dir (store\<lparr>dir_ht := ht'\<rparr>) w' m = ((ram_dir store w)(snd x \<mapsto> [])) m"
      using h(3) n(3) other [of m] fr by (cases "ref_of ht m") (auto simp: ram_dir_def e)
  qed
  moreover have "with_ht store ht' w' = Inr (store\<lparr>dir_ht := ht'\<rparr>, w')"
    using h(2) by (intro with_ht_nil) (simp add: tab_ok_def)
  ultimately show thesis using that h by simp
qed

lemma ram_ok_get:
  assumes "ram_ok store w" and "tab_ok ht" and "ref_of ht = ref_of (dir_ht store)"
  shows "ram_ok (store\<lparr>dir_ht := ht\<rparr>) w" and "ram_dir (store\<lparr>dir_ht := ht\<rparr>) w = ram_dir store w"
  using assms by (simp_all add: ram_ok_def ram_dir_def fun_eq_iff)

section \<open>The operations on names\<close>

lemma ram_touch_ok:
  assumes S: "ram_ok store w" and small: "h_size (dir_ht store) < 2 ^ 28"
  shows "\<exists>store' w'. ram_touch store x w = Inr (store', w') \<and> ram_ok store' w' \<and>
    ram_dir store' w' = (if ram_dir store w (snd x) = None then (ram_dir store w)(snd x \<mapsto> []) else ram_dir store w)"
proof -
  have T: "tab_ok (dir_ht store)" using S by (simp add: ram_ok_def)
  obtain ht where h: "frt_h_get (dir_ht store) (PKey x) = Inr (ref_of (dir_ht store) (snd x), ht)" "tab_ok ht"
    "ref_of ht = ref_of (dir_ht store)" "h_size ht = h_size (dir_ht store)"
    using T by (rule ht_get)
  show ?thesis
  proof (cases "ref_of (dir_ht store) (snd x)")
    case None
    obtain r w' where r: "rf_new x w = (r, w')" by fastforce
    have "ref_of ht (snd x) = None" "h_size ht < 2 ^ 28" using None h(3,4) small by simp_all
    from ram_add_ok [OF S h(2,3) this r refl] obtain st ht' where
      "frt_h_set ht (PKey x) (Some r) = Inr (st, ht')" "with_ht store ht' w' = Inr (store\<lparr>dir_ht := ht'\<rparr>, w')"
      "ram_ok (store\<lparr>dir_ht := ht'\<rparr>) w'" "ram_dir (store\<lparr>dir_ht := ht'\<rparr>) w' = (ram_dir store w)(snd x \<mapsto> [])" .
    with h(1) None r show ?thesis by (simp add: ram_touch_def ram_dir_def)
  next
    case (Some r)
    with h(1) ram_ok_get [OF S h(2,3)] show ?thesis by (simp add: ram_touch_def) (simp add: ram_dir_def)
  qed
qed

lemma ram_exists_ok:
  assumes S: "ram_ok store w"
  shows "\<exists>store'. ram_exists store x = Inr (ram_dir store w (snd x) \<noteq> None, store') \<and>
    ram_ok store' w \<and> ram_dir store' w = ram_dir store w \<and> h_size (dir_ht store') = h_size (dir_ht store)"
proof -
  have T: "tab_ok (dir_ht store)" using S by (simp add: ram_ok_def)
  from T show ?thesis
  proof (rule ht_get [of _ x])
    fix ht
    assume h: "frt_h_get (dir_ht store) (PKey x) = Inr (ref_of (dir_ht store) (snd x), ht)" "tab_ok ht"
      "ref_of ht = ref_of (dir_ht store)" "h_size ht = h_size (dir_ht store)"
    with ram_ok_get [OF S h(2,3)] show ?thesis by (simp add: ram_exists_def) (simp add: ram_dir_def)
  qed
qed

lemma rf_close_ok:
  assumes "file_ok w n r"
  obtains w' where "rf_close r w = Inr w'" and "\<And>s. s \<noteq> r \<Longrightarrow> rh_files w' s = rh_files w s"
    and "rh_next w' = rh_next w"
proof -
  from assms obtain rf where "rh_files w r = Some rf" by (auto simp: file_ok_def)
  then show thesis
    using that [of "w\<lparr>rh_files := (rh_files w)(r := None)\<rparr>"]
      that [of "rf_put w r (rf\<lparr>rf_ref_cnt := rf_ref_cnt rf - 1\<rparr>)"]
    by (cases "rf_ref_cnt rf - 1 = 0") (auto simp: rf_close_def rf_get_def rf_put_def)
qed

text \<open>A name leaves the table and its file is closed.\<close>

lemma ram_drop_ok:
  assumes S: "ram_ok store w" and r: "ref_of (dir_ht store) n = Some r" and T: "tab_ok ht"
    and e: "ref_of ht = (ref_of (dir_ht store))(n := None)"
  obtains w' where "rf_close r w = Inr w'" and "ram_ok (store\<lparr>dir_ht := ht\<rparr>) w'"
    and "ram_dir (store\<lparr>dir_ht := ht\<rparr>) w' = (ram_dir store w)(n := None)"
    and "\<And>s. s \<noteq> r \<Longrightarrow> rh_files w' s = rh_files w s"
proof -
  have F: "\<And>m s. ref_of (dir_ht store) m = Some s \<Longrightarrow> file_ok w m s" and H: "heap_ok w"
    using S by (auto simp: ram_ok_def)
  obtain w' where w': "rf_close r w = Inr w'" "\<And>s. s \<noteq> r \<Longrightarrow> rh_files w' s = rh_files w s" "rh_next w' = rh_next w"
    using F [OF r] by (rule rf_close_ok) auto
  have other: "s \<noteq> r" if "ref_of (dir_ht store) m = Some s" "m \<noteq> n" for m s
    using F [OF that(1)] F [OF r] that(2) file_ok_name by blast
  have fr: "file_ok w' m s = file_ok w m s" "heap_bytes w' s = heap_bytes w s" if "s \<noteq> r" for m s
    using file_ok_frame [OF w'(2) [OF that]] heap_bytes_frame [OF w'(2) [OF that]] by simp_all
  have "heap_ok w'" using H w'(2,3) F [OF r] unfolding heap_ok_def file_ok_def by (metis option.distinct(1))
  then have "ram_ok (store\<lparr>dir_ht := ht\<rparr>) w'"
    using T e F other fr by (auto simp: ram_ok_def split: if_splits)
  moreover have "ram_dir (store\<lparr>dir_ht := ht\<rparr>) w' = (ram_dir store w)(n := None)"
  proof
    fix m
    show "ram_dir (store\<lparr>dir_ht := ht\<rparr>) w' m = ((ram_dir store w)(n := None)) m"
      using other [of m] fr e by (cases "ref_of (dir_ht store) m") (auto simp: ram_dir_def)
  qed
  ultimately show thesis using that w' by blast
qed

lemma ram_remove_ok:
  assumes S: "ram_ok store w"
  shows "\<exists>store' w'. ram_remove store x w = Inr (ram_dir store w (snd x) \<noteq> None, store', w') \<and>
    ram_ok store' w' \<and> ram_dir store' w' = (ram_dir store w)(snd x := None)"
proof -
  have T: "tab_ok (dir_ht store)" using S by (simp add: ram_ok_def)
  obtain ht where h: "frt_h_rem (dir_ht store) (PKey x) False = Inr (ref_of (dir_ht store) (snd x), ht)" "tab_ok ht"
    "ref_of ht = (ref_of (dir_ht store))(snd x := None)"
    "h_size ht = h_size (dir_ht store) - (if ref_of (dir_ht store) (snd x) = None then 0 else 1)"
    using T by (rule ht_rem)
  show ?thesis
  proof (cases "ref_of (dir_ht store) (snd x)")
    case None
    then have "(ref_of (dir_ht store))(snd x := None) = ref_of (dir_ht store)" by (simp add: fun_upd_idem)
    with h(3) ram_ok_get [OF S h(2)] None have "ram_ok (store\<lparr>dir_ht := ht\<rparr>) w"
      "ram_dir (store\<lparr>dir_ht := ht\<rparr>) w = ram_dir store w" "ram_dir store w (snd x) = None"
      by (simp_all add: ram_dir_def)
    with h(1) None show ?thesis by (simp add: ram_remove_def fun_upd_idem)
  next
    case (Some r)
    obtain w' where "rf_close r w = Inr w'" "ram_ok (store\<lparr>dir_ht := ht\<rparr>) w'"
      "ram_dir (store\<lparr>dir_ht := ht\<rparr>) w' = (ram_dir store w)(snd x := None)"
      using ram_drop_ok [OF S Some h(2,3)] .
    moreover have "ram_dir store w (snd x) \<noteq> None" using Some by (simp add: ram_dir_def)
    ultimately show ?thesis using h(1) Some by (simp add: ram_remove_def)
  qed
qed

lemma ram_length_ok:
  assumes S: "ram_ok store w"
  shows "\<exists>store'. ram_length store x w =
      Inr (case ram_dir store w (snd x) of None \<Rightarrow> 0 | Some bs \<Rightarrow> int (length bs), store') \<and>
    ram_ok store' w \<and> ram_dir store' w = ram_dir store w"
proof -
  have T: "tab_ok (dir_ht store)" using S by (simp add: ram_ok_def)
  obtain ht where h: "frt_h_get (dir_ht store) (PKey x) = Inr (ref_of (dir_ht store) (snd x), ht)" "tab_ok ht"
    "ref_of ht = ref_of (dir_ht store)" "h_size ht = h_size (dir_ht store)"
    using T by (rule ht_get)
  note g = ram_ok_get [OF S h(2,3)]
  show ?thesis
  proof (cases "ref_of (dir_ht store) (snd x)")
    case None
    with h(1) g show ?thesis by (simp add: ram_length_def) (simp add: ram_dir_def)
  next
    case (Some r)
    then have "file_ok w (snd x) r" using S by (simp add: ram_ok_def)
    then obtain rf where rf: "rh_files w r = Some rf" "rf_ok rf" by (auto simp: file_ok_def)
    then have "int (length (heap_bytes w r)) = rf_len rf"
      by (simp add: heap_bytes_def length_rf_bytes) (simp add: rf_ok_def)
    with h(1) g Some rf show ?thesis by (simp add: ram_length_def rf_get_def) (simp add: ram_dir_def)
  qed
qed

lemma ram_rename_missing:
  assumes S: "ram_ok store w" and none: "ram_dir store w (snd from) = None"
  shows "ram_rename store from to w = Inl FRT_IO_ERROR"
proof -
  have T: "tab_ok (dir_ht store)" using S by (simp add: ram_ok_def)
  have "ref_of (dir_ht store) (snd from) = None" using none by (simp add: ram_dir_def)
  with ht_rem [OF T, of "from"] show ?thesis by (metis (no_types, lifting) ebind_simps(2) old.prod.case option.case(1) ram_rename_def)
qed

text \<open>The file leaves under its old name, replaces what had the new one and is listed under that.\<close>

lemma ram_rename_ok:
  assumes S: "ram_ok store w" and small: "h_size (dir_ht store) < 2 ^ 28"
    and from_file: "ram_dir store w (snd from) = Some bs"
  shows "\<exists>store' w'. ram_rename store from to w = Inr (store', w') \<and> ram_ok store' w' \<and>
    ram_dir store' w' = ((ram_dir store w)(snd from := None))(snd to \<mapsto> bs)"
proof -
  let ?ht = "dir_ht store" and ?f = "snd from" and ?t = "snd to"
  have T: "tab_ok ?ht" and H: "heap_ok w" and F: "\<And>m s. ref_of ?ht m = Some s \<Longrightarrow> file_ok w m s"
    using S by (auto simp: ram_ok_def)
  obtain r where r: "ref_of ?ht ?f = Some r" "bs = heap_bytes w r" using from_file by (auto simp: ram_dir_def)
  obtain rf where rf: "rh_files w r = Some rf" "rf_ok rf" "1 \<le> rf_ref_cnt rf" "snd (rf_name rf) = ?f"
    using F [OF r(1)] by (auto simp: file_ok_def)
  obtain ht1 where h1: "frt_h_rem ?ht (PKey from) False = Inr (ref_of ?ht ?f, ht1)" "tab_ok ht1"
    "ref_of ht1 = (ref_of ?ht)(?f := None)" "h_size ht1 = h_size ?ht - (if ref_of ?ht ?f = None then 0 else 1)"
    using T by (rule ht_rem)
  define copy where "copy = (rh_next w, ?t)"
  define w1 where "w1 = rf_put (w\<lparr>rh_next := rh_next w + 1\<rparr>) r (rf\<lparr>rf_name := copy\<rparr>)"
  have w1: "rh_files w1 r = Some (rf\<lparr>rf_name := copy\<rparr>)" "\<And>s. s \<noteq> r \<Longrightarrow> rh_files w1 s = rh_files w s"
    "heap_ok w1" using H rf(1) by (auto simp: w1_def rf_put_def heap_ok_def less_Suc_eq)
  have r1: "file_ok w1 ?t r" "heap_bytes w1 r = bs"
    using w1(1) rf r(2) by (auto simp: file_ok_def rf_ok_def heap_bytes_def rf_bytes_def copy_def)
  have other: "s \<noteq> r" if "ref_of ht1 m = Some s" for m s
    using F [of m s] F [OF r(1)] that file_ok_name by (auto simp: h1(3) split: if_splits)
  have fr: "file_ok w1 m s = file_ok w m s" "heap_bytes w1 s = heap_bytes w s" if "s \<noteq> r" for m s
    using file_ok_frame [OF w1(2) [OF that]] heap_bytes_frame [OF w1(2) [OF that]] by simp_all
  have S1: "ram_ok (store\<lparr>dir_ht := ht1\<rparr>) w1"
    using h1(2,3) w1(3) F other fr by (auto simp: ram_ok_def split: if_splits)
  have d1: "ram_dir (store\<lparr>dir_ht := ht1\<rparr>) w1 = (ram_dir store w)(?f := None)"
  proof
    fix m
    show "ram_dir (store\<lparr>dir_ht := ht1\<rparr>) w1 m = ((ram_dir store w)(?f := None)) m"
      using other [of m] fr h1(3) by (cases "ref_of ht1 m") (auto simp: ram_dir_def split: if_splits)
  qed
  obtain ht2 where h2: "frt_h_get ht1 (PKey to) = Inr (ref_of ht1 ?t, ht2)" "tab_ok ht2" "ref_of ht2 = ref_of ht1"
    "h_size ht2 = h_size ht1" using h1(2) by (rule ht_get)
  have S2: "ram_ok (store\<lparr>dir_ht := ht2\<rparr>) w1" "ram_dir (store\<lparr>dir_ht := ht2\<rparr>) w1 = ram_dir (store\<lparr>dir_ht := ht1\<rparr>) w1"
    using ram_ok_get [OF S1 h2(2)] h2(3) by simp_all
  have sz: "h_size ht2 < 2 ^ 28" using small h1(4) h2(4) by (simp split: if_splits)
  have "\<exists>ht3 w2. (if ref_of ht1 ?t \<noteq> None then ebind (frt_h_del ht2 (PKey to)) (\<lambda>(_, ht). with_ht store ht w1)
      else Inr (store\<lparr>dir_ht := ht2\<rparr>, w1)) = Inr (store\<lparr>dir_ht := ht3\<rparr>, w2) \<and>
    ram_ok (store\<lparr>dir_ht := ht3\<rparr>) w2 \<and> ram_dir (store\<lparr>dir_ht := ht3\<rparr>) w2 = ((ram_dir store w)(?f := None))(?t := None) \<and>
    ref_of ht3 ?t = None \<and> rh_files w2 r = rh_files w1 r \<and> h_size ht3 < 2 ^ 28 \<and>
    (\<forall>m s. ref_of ht3 m = Some s \<longrightarrow> s \<noteq> r)"
  proof (cases "ref_of ht1 ?t")
    case None
    have "ram_dir (store\<lparr>dir_ht := ht1\<rparr>) w1 ?t = None" using None by (simp add: ram_dir_def)
    then have "((ram_dir store w)(?f := None))(?t := None) = ram_dir (store\<lparr>dir_ht := ht1\<rparr>) w1"
      using d1 by (simp add: fun_upd_idem)
    then show ?thesis using None S2 h2(3) sz other
      by (intro exI [of _ ht2] exI [of _ w1]) (auto dest: sym)
  next
    case (Some q)
    obtain ht3 where h3: "frt_h_del ht2 (PKey to) = Inr (ref_of ht2 ?t \<noteq> None, ht3)" "tab_ok (ht3\<lparr>h_freed := []\<rparr>)"
      "ref_of (ht3\<lparr>h_freed := []\<rparr>) = (ref_of ht2)(?t := None)"
      "h_freed ht3 = (case ref_of ht2 ?t of None \<Rightarrow> [] | Some r \<Rightarrow> [FreeValue (Some r)])"
      "h_size ht3 = h_size ht2 - (if ref_of ht2 ?t = None then 0 else 1)"
      using h2(2) by (rule ht_del)
    have q: "ref_of (dir_ht (store\<lparr>dir_ht := ht2\<rparr>)) ?t = Some q" using Some h2(3) by simp
    have e: "ref_of (ht3\<lparr>h_freed := []\<rparr>) = (ref_of (dir_ht (store\<lparr>dir_ht := ht2\<rparr>)))(?t := None)"
      using h3(3) by simp
    obtain w2 where w2: "rf_close q w1 = Inr w2"
      "ram_ok (store\<lparr>dir_ht := ht3\<lparr>h_freed := []\<rparr>\<rparr>) w2"
      "ram_dir (store\<lparr>dir_ht := ht3\<lparr>h_freed := []\<rparr>\<rparr>) w2 = (ram_dir (store\<lparr>dir_ht := ht2\<rparr>) w1)(?t := None)"
      "\<And>s. s \<noteq> q \<Longrightarrow> rh_files w2 s = rh_files w1 s"
      using ram_drop_ok [OF S2(1) q h3(2) e] by auto
    have "with_ht store ht3 w1 = Inr (store\<lparr>dir_ht := ht3\<lparr>h_freed := []\<rparr>\<rparr>, w2)"
      using h3(4) Some h2(3) w2(1) by (simp add: with_ht_def)
    moreover have "rh_files w2 r = rh_files w1 r" using other [OF Some] by (intro w2(4)) simp
    moreover have "\<forall>m s. ref_of (ht3\<lparr>h_freed := []\<rparr>) m = Some s \<longrightarrow> s \<noteq> r"
      using h3(3) h2(3) other by (auto split: if_splits)
    moreover have "h_size (ht3\<lparr>h_freed := []\<rparr>) < 2 ^ 28" using h3(5) sz by (simp split: if_splits)
    moreover have "ref_of (ht3\<lparr>h_freed := []\<rparr>) ?t = None" using h3(3) by simp
    ultimately show ?thesis
      using Some h3(1) w2(2,3) d1 S2(2)
      by (intro exI [of _ "ht3\<lparr>h_freed := []\<rparr>"] exI [of _ w2]) simp
  qed
  then obtain ht3 w2 where 3: "(if ref_of ht1 ?t \<noteq> None then ebind (frt_h_del ht2 (PKey to)) (\<lambda>(_, ht). with_ht store ht w1)
      else Inr (store\<lparr>dir_ht := ht2\<rparr>, w1)) = Inr (store\<lparr>dir_ht := ht3\<rparr>, w2)"
    "ram_ok (store\<lparr>dir_ht := ht3\<rparr>) w2" "ram_dir (store\<lparr>dir_ht := ht3\<rparr>) w2 = ((ram_dir store w)(?f := None))(?t := None)"
    "ref_of ht3 ?t = None" "rh_files w2 r = rh_files w1 r" "h_size ht3 < 2 ^ 28"
    "\<And>m s. ref_of ht3 m = Some s \<Longrightarrow> s \<noteq> r" by blast
  have T3: "tab_ok ht3" using 3(2) by (simp add: ram_ok_def)
  have "ref_of ht3 (snd copy) = None" using 3(4) by (simp add: copy_def)
  from ht_set [OF T3 this 3(6), of r] obtain st ht4 where h4': "frt_h_set ht3 (PKey copy) (Some r) = Inr (st, ht4)"
    "tab_ok ht4" "ref_of ht4 = (ref_of ht3)(snd copy \<mapsto> r)" "h_size ht4 = h_size ht3 + 1" .
  then have h4: "frt_h_set ht3 (PKey copy) (Some r) = Inr (st, ht4)" "tab_ok ht4"
    "ref_of ht4 = (ref_of ht3)(?t \<mapsto> r)" by (simp_all add: copy_def)
  have f2: "file_ok w2 ?t r" "heap_bytes w2 r = bs"
    using r1 file_ok_frame [OF 3(5)] heap_bytes_frame [OF 3(5)] by simp_all
  have "ram_ok (store\<lparr>dir_ht := ht4\<rparr>) w2"
    using 3(2) h4(2,3) f2(1) by (auto simp: ram_ok_def split: if_splits)
  moreover have "ram_dir (store\<lparr>dir_ht := ht4\<rparr>) w2 = ((ram_dir store w)(?f := None))(?t \<mapsto> bs)"
  proof
    fix m
    have "ram_dir (store\<lparr>dir_ht := ht4\<rparr>) w2 m = ((ram_dir (store\<lparr>dir_ht := ht3\<rparr>) w2)(?t \<mapsto> bs)) m"
      using h4(3) f2(2) by (simp add: ram_dir_def)
    then show "ram_dir (store\<lparr>dir_ht := ht4\<rparr>) w2 m = (((ram_dir store w)(?f := None))(?t \<mapsto> bs)) m"
      unfolding 3(3) by simp
  qed
  moreover have "with_ht (store\<lparr>dir_ht := ht3\<rparr>) ht4 w2 = Inr (store\<lparr>dir_ht := ht4\<rparr>, w2)"
    using with_ht_nil [of ht4 "store\<lparr>dir_ht := ht3\<rparr>" w2] h4(2) by (simp add: tab_ok_def)
  then have "ram_rename store from to w = Inr (store\<lparr>dir_ht := ht4\<rparr>, w2)"
    unfolding ram_rename_def
    by (simp only: h1(1) r(1) ebind_simps prod.case option.case rf_get_def rf(1) frt_estrdup_def Let_def
        copy_def [symmetric] w1_def [symmetric] h2(1) 3(1)) (simp add: h4(1))
  ultimately show ?thesis by blast
qed

section \<open>Streams of the store\<close>

text \<open>
  A freshly opened output stream stands at the start of the file. What was in the file is still
  there: opening an existing file does not cut it.
\<close>

lemma ram_new_output_ok:
  assumes S: "ram_ok store w" and small: "h_size (dir_ht store) < 2 ^ 28"
  shows "\<exists>os store' w' r rf. ram_new_output store x w = Inr (os, store', w') \<and> ram_ok store' w' \<and>
    ram_dir store' w' = (if ram_dir store w (snd x) = None then (ram_dir store w)(snd x \<mapsto> []) else ram_dir store w) \<and>
    ref_of (dir_ht store') (snd x) = Some r \<and> rh_files w' r = Some rf \<and> 2 \<le> rf_ref_cnt rf \<and>
    ro_rf (os_file os) = r \<and>
    ram_out.os_ok os w' (ram_rest (os_file os) w') (the (ram_dir store' w' (snd x))) 0 \<and>
    h_size (dir_ht store') \<le> h_size (dir_ht store) + 1"
proof -
  let ?ht = "dir_ht store" and ?n = "snd x"
  have T: "tab_ok ?ht" using S by (simp add: ram_ok_def)
  obtain ht1 where h1: "frt_h_get ?ht (PKey x) = Inr (ref_of ?ht ?n, ht1)" "tab_ok ht1"
    "ref_of ht1 = ref_of ?ht" "h_size ht1 = h_size ?ht" using T by (rule ht_get)
  have "\<exists>r store1 w1. ebind (frt_h_get ?ht (PKey x)) (\<lambda>(v, ht). case v of
        None \<Rightarrow> (let (r, w) = rf_new x w in
                 ebind (rf_get w r) (\<lambda>rf.
                 ebind (frt_h_set ht (PKey (rf_name rf)) (Some r)) (\<lambda>(_, ht).
                 ebind (with_ht store ht w) (\<lambda>(store, w). Inr (r, store, w)))))
      | Some r \<Rightarrow> Inr (r, store\<lparr>dir_ht := ht\<rparr>, w)) = Inr (r, store1, w1) \<and> ram_ok store1 w1 \<and>
    ref_of (dir_ht store1) ?n = Some r \<and>
    ram_dir store1 w1 = (if ram_dir store w ?n = None then (ram_dir store w)(?n \<mapsto> []) else ram_dir store w) \<and>
    h_size (dir_ht store1) \<le> h_size ?ht + 1"
  proof (cases "ref_of ?ht ?n")
    case None
    obtain r w' where r: "rf_new x w = (r, w')" by fastforce
    have H: "heap_ok w" using S by (simp add: ram_ok_def)
    obtain rf where rf: "rh_files w' r = Some rf" "snd (rf_name rf) = ?n"
      using rf_new_ok(6) [OF r H] by auto
    have n1: "ref_of ht1 ?n = None" "h_size ht1 < 2 ^ 28" using None h1(3,4) small by simp_all
    from ram_add_ok [OF S h1(2,3) n1 r rf(2)] obtain st ht' where
      a: "frt_h_set ht1 (PKey (rf_name rf)) (Some r) = Inr (st, ht')"
      "with_ht store ht' w' = Inr (store\<lparr>dir_ht := ht'\<rparr>, w')"
      "ram_ok (store\<lparr>dir_ht := ht'\<rparr>) w'" "ram_dir (store\<lparr>dir_ht := ht'\<rparr>) w' = (ram_dir store w)(?n \<mapsto> [])"
      "ref_of ht' ?n = Some r" "h_size ht' = h_size ht1 + 1" .
    have "ram_dir store w ?n = None" using None by (simp add: ram_dir_def)
    with a show ?thesis using h1(1,4) None r rf(1) by (simp add: rf_get_def)
  next
    case (Some r)
    then have "ram_dir store w ?n \<noteq> None" by (simp add: ram_dir_def)
    with h1 Some ram_ok_get [OF S h1(2,3)] show ?thesis by auto
  qed
  then obtain r store1 w1 where 1: "ebind (frt_h_get ?ht (PKey x)) (\<lambda>(v, ht). case v of
        None \<Rightarrow> (let (r, w) = rf_new x w in
                 ebind (rf_get w r) (\<lambda>rf.
                 ebind (frt_h_set ht (PKey (rf_name rf)) (Some r)) (\<lambda>(_, ht).
                 ebind (with_ht store ht w) (\<lambda>(store, w). Inr (r, store, w)))))
      | Some r \<Rightarrow> Inr (r, store\<lparr>dir_ht := ht\<rparr>, w)) = Inr (r, store1, w1)" "ram_ok store1 w1"
    "ref_of (dir_ht store1) ?n = Some r"
    "ram_dir store1 w1 = (if ram_dir store w ?n = None then (ram_dir store w)(?n \<mapsto> []) else ram_dir store w)"
    and sz: "h_size (dir_ht store1) \<le> h_size ?ht + 1"
    by blast
  have F: "\<And>m s. ref_of (dir_ht store1) m = Some s \<Longrightarrow> file_ok w1 m s" using 1(2) by (simp add: ram_ok_def)
  obtain rf where rf: "rh_files w1 r = Some rf" "rf_ok rf" "1 \<le> rf_ref_cnt rf" "snd (rf_name rf) = ?n"
    using F [OF 1(3)] by (auto simp: file_ok_def)
  define rf' where "rf' = rf\<lparr>rf_ref_cnt := rf_ref_cnt rf + 1\<rparr>"
  define w2 where "w2 = rf_put w1 r rf'"
  have bytes: "heap_bytes w2 s = heap_bytes w1 s" for s
    using rf(1) by (simp add: heap_bytes_def w2_def rf_put_def rf'_def rf_bytes_def)
  have fo: "file_ok w2 m s" if "file_ok w1 m s" for m s
    using that rf by (auto simp: file_ok_def w2_def rf_put_def rf'_def rf_ok_def)
  have S2: "ram_ok store1 w2"
    using 1(2) fo rf(1) by (auto simp: ram_ok_def heap_ok_def w2_def rf_put_def)
  have heap_eq: "heap_bytes w2 = heap_bytes w1" using bytes by (rule ext)
  have d2: "ram_dir store1 w2 = ram_dir store1 w1" using heap_eq by (intro ext) (simp add: ram_dir_def)
  let ?os = "frt_os_new \<lparr>ro_rf = r, ro_pointer = 0\<rparr>"
  have ref: "FRT_REF r w1 = Inr w2" using rf(1) by (simp add: FRT_REF_def rf_get_def w2_def rf'_def)
  have "ram_out_valid \<lparr>ro_rf = r, ro_pointer = 0\<rparr> w2"
    using rf by (simp add: ram_out_valid_def w2_def rf_put_def rf'_def rf_ok_def)
  from ram_out.frt_os_new_ok [OF this] have
    "ram_out.os_ok ?os w2 (ram_rest (os_file ?os) w2) (heap_bytes w2 r) 0" by (simp add: frt_os_new_def)
  moreover have "heap_bytes w2 r = the (ram_dir store1 w2 ?n)" using 1(3) by (simp add: ram_dir_def)
  moreover have "ram_new_output store x w = Inr (?os, store1, w2)"
    using 1(1) h1(1) ref unfolding ram_new_output_def by simp
  ultimately show ?thesis
    using S2 d2 1(3,4) rf(1,3) sz by (auto simp: w2_def rf_put_def rf'_def frt_os_new_def)
qed

lemma ram_open_input_missing:
  assumes S: "ram_ok store w" and none: "ram_dir store w (snd x) = None"
  shows "ram_open_input store x w = Inl FRT_FILE_NOT_FOUND_ERROR"
proof -
  have T: "tab_ok (dir_ht store)" using S by (simp add: ram_ok_def)
  have n: "ref_of (dir_ht store) (snd x) = None" using none by (simp add: ram_dir_def)
  from T show ?thesis by (rule ht_get [of _ x]) (simp add: ram_open_input_def n)
qed

lemma ram_open_input_ok:
  assumes S: "ram_ok store w" and f: "ram_dir store w (snd x) = Some bs"
  shows "\<exists>is store' w'. ram_open_input store x w = Inr (is, store', w') \<and> ram_ok store' w' \<and>
    ram_dir store' w' = ram_dir store w \<and> ram_in.is_ok w' is bs 0"
proof -
  let ?ht = "dir_ht store" and ?n = "snd x"
  have T: "tab_ok ?ht" and F: "\<And>m s. ref_of ?ht m = Some s \<Longrightarrow> file_ok w m s" using S by (auto simp: ram_ok_def)
  obtain r where r: "ref_of ?ht ?n = Some r" "bs = heap_bytes w r" using f by (auto simp: ram_dir_def)
  obtain rf where rf: "rh_files w r = Some rf" "rf_ok rf" "1 \<le> rf_ref_cnt rf" "snd (rf_name rf) = ?n"
    using F [OF r(1)] by (auto simp: file_ok_def)
  obtain ht1 where h1: "frt_h_get ?ht (PKey x) = Inr (ref_of ?ht ?n, ht1)" "tab_ok ht1"
    "ref_of ht1 = ref_of ?ht" "h_size ht1 = h_size ?ht" using T by (rule ht_get)
  note S1 = ram_ok_get [OF S h1(2,3)]
  define w2 where "w2 = rf_put w r (rf\<lparr>rf_ref_cnt := rf_ref_cnt rf + 1\<rparr>)"
  have bytes: "heap_bytes w2 s = heap_bytes w s" for s
    using rf(1) by (simp add: heap_bytes_def w2_def rf_put_def rf_bytes_def)
  have fo: "file_ok w2 m s" if "file_ok w m s" for m s
    using that rf by (auto simp: file_ok_def w2_def rf_put_def rf_ok_def)
  have S2: "ram_ok (store\<lparr>dir_ht := ht1\<rparr>) w2"
    using S1(1) fo rf(1) by (auto simp: ram_ok_def heap_ok_def w2_def rf_put_def)
  have heap_eq: "heap_bytes w2 = heap_bytes w" using bytes by (rule ext)
  have d2: "ram_dir (store\<lparr>dir_ht := ht1\<rparr>) w2 = ram_dir store w"
    using h1(3) heap_eq by (intro ext) (simp add: ram_dir_def)
  have "ram_in_valid w2 \<lparr>ri_rf = r, ri_pointer = 0\<rparr>"
    using rf by (simp add: ram_in_valid_def w2_def rf_put_def rf_ok_def)
  from ram_in.frt_is_new_ok [OF this] have "ram_in.is_ok w2 (frt_is_new \<lparr>ri_rf = r, ri_pointer = 0\<rparr>) bs 0"
    by (simp add: bytes r(2))
  moreover have "ram_open_input store x w = Inr (frt_is_new \<lparr>ri_rf = r, ri_pointer = 0\<rparr>, store\<lparr>dir_ht := ht1\<rparr>, w2)"
    using h1(1) r(1) rf(1) by (simp add: ram_open_input_def FRT_REF_def rf_get_def w2_def)
  ultimately show ?thesis using S2 d2 by blast
qed

text \<open>Equal rests: the same file, of the same name and count, beside the same files.\<close>

lemma ram_rest_eqD:
  assumes "ram_rest f' w' = ram_rest f w" and "rh_files w (ro_rf f) = Some rf" and "ram_out_valid f' w'"
  shows "ro_rf f' = ro_rf f" and "rh_next w' = rh_next w" and "\<And>s. s \<noteq> ro_rf f \<Longrightarrow> rh_files w' s = rh_files w s"
    and "\<exists>rf'. rh_files w' (ro_rf f) = Some rf' \<and> rf_ok rf' \<and> rf_name rf' = rf_name rf \<and> rf_ref_cnt rf' = rf_ref_cnt rf"
proof -
  show r: "ro_rf f' = ro_rf f" using assms(1) by (simp add: ram_rest_def)
  define g :: "ram_file \<Rightarrow> ram_file" where "g = (\<lambda>rf. rf\<lparr>rf_buffers := [], rf_len := 0\<rparr>)"
  have eq: "w'\<lparr>rh_files := (rh_files w')(ro_rf f := map_option g (rh_files w' (ro_rf f)))\<rparr> =
      w\<lparr>rh_files := (rh_files w)(ro_rf f := map_option g (rh_files w (ro_rf f)))\<rparr>"
    using assms(1) r by (simp add: ram_rest_def g_def)
  then show "rh_next w' = rh_next w" by (metis ram_heap.ext_inject ram_heap.surjective ram_heap.update_convs(1))
  have fs: "(rh_files w')(ro_rf f := map_option g (rh_files w' (ro_rf f))) =
      (rh_files w)(ro_rf f := map_option g (rh_files w (ro_rf f)))"
    using arg_cong [OF eq, of rh_files] by simp
  show "rh_files w' s = rh_files w s" if "s \<noteq> ro_rf f" for s
    using fun_cong [OF fs, of s] that by simp
  from assms(3) r obtain rf' where rf': "rh_files w' (ro_rf f) = Some rf'" "rf_ok rf'" by (auto simp: ram_out_valid_def)
  have g: "g rf' = g rf" using fun_cong [OF fs, of "ro_rf f"] rf'(1) assms(2) by simp
  then have "rf_name rf' = rf_name rf" "rf_ref_cnt rf' = rf_ref_cnt rf" by (cases rf', cases rf, simp add: g_def)+
  with rf' show "\<exists>rf'. rh_files w' (ro_rf f) = Some rf' \<and> rf_ok rf' \<and> rf_name rf' = rf_name rf \<and> rf_ref_cnt rf' = rf_ref_cnt rf"
    by blast
qed

text \<open>What was written through the stream is the file's contents once the stream is closed.\<close>

lemma ram_close_output_ok:
  assumes S: "ram_ok store w" and r: "ref_of (dir_ht store) n = Some r" "rh_files w r = Some rf" "2 \<le> rf_ref_cnt rf"
    and f: "ro_rf f = r" and os: "ram_out.os_ok os w1 (ram_rest f w) bs p"
  shows "\<exists>w2. frt_os_close RAM_OUT_STREAM_METHODS os w1 = Inr w2 \<and> ram_ok store w2 \<and>
    ram_dir store w2 = (ram_dir store w)(n \<mapsto> bs)"
proof -
  obtain os' w' where o': "frt_os_close RAM_OUT_STREAM_METHODS os w1 = close_o RAM_OUT_STREAM_METHODS (os_file os') w'"
    "ram_out.os_ok os' w' (ram_rest f w) bs p" "heap_bytes w' (ro_rf (os_file os')) = bs"
    using os by (rule ram_out.frt_os_close_ok)
  have v: "ram_out_valid (os_file os') w'" and rest: "ram_rest (os_file os') w' = ram_rest f w"
    using o'(2) by (simp_all add: ram_out.os_ok_def)
  have r': "rh_files w (ro_rf f) = Some rf" using r(2) f by simp
  note R = ram_rest_eqD [OF rest r' v, unfolded f]
  have ref: "ro_rf (os_file os') = r" and nx: "rh_next w' = rh_next w" by (rule R)+
  have other: "rh_files w' s = rh_files w s" if "s \<noteq> r" for s using that by (rule R)
  obtain rf1 where rf1: "rh_files w' r = Some rf1" "rf_ok rf1" and same: "rf_name rf1 = rf_name rf" "rf_ref_cnt rf1 = rf_ref_cnt rf"
    using R(4) by blast
  define w2 where "w2 = rf_put w' r (rf1\<lparr>rf_ref_cnt := rf_ref_cnt rf1 - 1\<rparr>)"
  have close: "frt_os_close RAM_OUT_STREAM_METHODS os w1 = Inr w2"
    using o'(1) ref rf1(1) r(3) same(2)
    by (simp add: RAM_OUT_STREAM_METHODS_def ramo_close_i_def rf_close_def rf_get_def w2_def)
  have fr: "rh_files w2 s = rh_files w s" if "s \<noteq> r" for s
    using other [OF that] that by (simp add: w2_def rf_put_def)
  have F: "\<And>m s. ref_of (dir_ht store) m = Some s \<Longrightarrow> file_ok w m s" and H: "heap_ok w" and T: "tab_ok (dir_ht store)"
    using S by (auto simp: ram_ok_def)
  have fn: "file_ok w2 n r"
    using F [OF r(1)] rf1 r(2,3) same by (auto simp: file_ok_def w2_def rf_put_def rf_ok_def)
  have bn: "heap_bytes w2 r = bs" using o'(3) ref rf1(1) by (simp add: heap_bytes_def w2_def rf_put_def rf_bytes_def)
  have neq: "s \<noteq> r" if "ref_of (dir_ht store) m = Some s" "m \<noteq> n" for m s
    using F [OF that(1)] F [OF r(1)] that(2) file_ok_name by blast
  have fo: "file_ok w2 m s" if "ref_of (dir_ht store) m = Some s" for m s
  proof (cases "m = n")
    case True
    then show ?thesis using that r(1) fn by simp
  next
    case False
    show ?thesis using F [OF that] file_ok_frame [OF fr [OF neq [OF that False]]] by simp
  qed
  have "heap_ok w2"
    unfolding heap_ok_def
  proof (intro allI impI)
    fix s assume "rh_files w2 s \<noteq> None"
    moreover have "r < rh_next w" using H r(2) by (simp add: heap_ok_def)
    ultimately show "s < rh_next w2"
      using H fr [of s] nx by (cases "s = r") (auto simp: heap_ok_def w2_def rf_put_def)
  qed
  then have "ram_ok store w2" using T fo by (simp add: ram_ok_def)
  moreover have "ram_dir store w2 = (ram_dir store w)(n \<mapsto> bs)"
  proof
    fix m
    show "ram_dir store w2 m = ((ram_dir store w)(n \<mapsto> bs)) m"
    proof (cases "m = n")
      case True
      then show ?thesis using r(1) bn by (simp add: ram_dir_def)
    next
      case False
      show ?thesis
      proof (cases "ref_of (dir_ht store) m")
        case (Some s)
        then show ?thesis using False heap_bytes_frame [OF fr [OF neq [OF Some False]]] by (simp add: ram_dir_def)
      qed (use False in \<open>simp add: ram_dir_def\<close>)
    qed
  qed
  ultimately show ?thesis using close by blast
qed

section \<open>Locks\<close>

lemma ram_lock_obtain_ok:
  assumes S: "ram_ok store w" and small: "h_size (dir_ht store) < 2 ^ 28"
  shows "\<exists>store' w'. ram_lock_obtain name store w = Inr (ram_dir store w (snd name) = None, store', w') \<and>
    ram_ok store' w' \<and>
    ram_dir store' w' = (if ram_dir store w (snd name) = None then (ram_dir store w)(snd name \<mapsto> []) else ram_dir store w)"
proof -
  obtain store1 where 1: "ram_exists store name = Inr (ram_dir store w (snd name) \<noteq> None, store1)" "ram_ok store1 w"
    "ram_dir store1 w = ram_dir store w" "h_size (dir_ht store1) = h_size (dir_ht store)"
    using ram_exists_ok [OF S, of name] by blast
  have "h_size (dir_ht store1) < 2 ^ 28" using small 1(4) by simp
  from ram_touch_ok [OF 1(2) this, of name] 1 show ?thesis by (auto simp: ram_lock_obtain_def)
qed

lemma ram_lock_release_ok:
  assumes S: "ram_ok store w"
  shows "\<exists>store' w'. ram_lock_release name store w = Inr (store', w') \<and> ram_ok store' w' \<and>
    ram_dir store' w' = (ram_dir store w)(snd name := None)"
  using ram_remove_ok [OF S, of name] by (auto simp: ram_lock_release_def)

section \<open>Whole files\<close>

definition empty_heap :: ram_heap where
  "empty_heap = \<lparr>rh_files = \<lambda>_. None, rh_next = 0\<rparr>"

lemma heap_ok_empty: "heap_ok empty_heap"
  by (simp add: heap_ok_def empty_heap_def)

text \<open>
  \<open>save_file\<close> runs a writer on a newly opened output stream and closes it, \<open>load_file\<close> runs a reader on
  a newly opened input stream: the way the index code uses a store.
\<close>

definition save_file ::
  "(ram_out outstream \<Rightarrow> ram_heap \<Rightarrow> (ram_out outstream \<times> ram_heap) res) \<Rightarrow> ram_store \<Rightarrow> cstr \<Rightarrow> ram_heap
     \<Rightarrow> (ram_store \<times> ram_heap) res" where
  "save_file k store x w =
     ebind (ram_new_output store x w) (\<lambda>(os, store, w).
     ebind (k os w) (\<lambda>(os, w).
     ebind (frt_os_close RAM_OUT_STREAM_METHODS os w) (\<lambda>w. Inr (store, w))))"

definition load_file ::
  "(ram_heap \<Rightarrow> ram_in instream \<Rightarrow> ('v \<times> ram_in instream) res) \<Rightarrow> ram_store \<Rightarrow> cstr \<Rightarrow> ram_heap
     \<Rightarrow> ('v \<times> ram_store \<times> ram_heap) res" where
  "load_file r store x w =
     ebind (ram_open_input store x w) (\<lambda>(is, store, w).
     ebind (r w is) (\<lambda>(v, is). ebind (rami_close_i (is_file is) w) (\<lambda>w. Inr (v, store, w))))"

lemma save_file_ok:
  assumes S: "ram_ok store w" and small: "h_size (dir_ht store) < 2 ^ 28" and k: "ram_out.writes k xs"
  shows "\<exists>store' w'. save_file k store x w = Inr (store', w') \<and> ram_ok store' w' \<and>
    ram_dir store' w' = (ram_dir store w)(snd x \<mapsto> write_at (case ram_dir store w (snd x) of None \<Rightarrow> [] | Some bs \<Rightarrow> bs) 0 xs) \<and>
    h_size (dir_ht store') \<le> h_size (dir_ht store) + 1"
proof -
  obtain os store1 w1 r rf where 1: "ram_new_output store x w = Inr (os, store1, w1)" "ram_ok store1 w1"
    "ram_dir store1 w1 = (if ram_dir store w (snd x) = None then (ram_dir store w)(snd x \<mapsto> []) else ram_dir store w)"
    "ref_of (dir_ht store1) (snd x) = Some r" "rh_files w1 r = Some rf" "2 \<le> rf_ref_cnt rf" "ro_rf (os_file os) = r"
    "ram_out.os_ok os w1 (ram_rest (os_file os) w1) (the (ram_dir store1 w1 (snd x))) 0"
    and sz: "h_size (dir_ht store1) \<le> h_size (dir_ht store) + 1"
    using ram_new_output_ok [OF S small] by blast
  let ?old = "case ram_dir store w (snd x) of None \<Rightarrow> [] | Some bs \<Rightarrow> bs"
  have old: "the (ram_dir store1 w1 (snd x)) = ?old" unfolding 1(3) by (auto split: option.split)
  obtain os2 w2 where 2: "k os w1 = Inr (os2, w2)"
    "ram_out.os_ok os2 w2 (ram_rest (os_file os) w1) (write_at ?old 0 xs) (0 + length xs)"
    using ram_out.writesD [OF k 1(8)] unfolding old by (auto simp: ram_out.wrote_def)
  obtain w3 where 3: "frt_os_close RAM_OUT_STREAM_METHODS os2 w2 = Inr w3" "ram_ok store1 w3"
    "ram_dir store1 w3 = (ram_dir store1 w1)(snd x \<mapsto> write_at ?old 0 xs)"
    using ram_close_output_ok [OF 1(2,4,5,6,7) 2(2)] by blast
  have "ram_dir store1 w3 = (ram_dir store w)(snd x \<mapsto> write_at ?old 0 xs)"
    unfolding 3(3) 1(3) by auto
  with 1(1) 2(1) 3(1,2) sz show ?thesis by (simp add: save_file_def)
qed

lemma load_file_some:
  assumes S: "ram_ok store w" and f: "ram_dir store w (snd x) = Some (xs @ ys)"
    and r: "\<And>w. \<exists>v. P v \<and> ram_in.decodes w (r w) xs v"
  shows "\<exists>v store' w'. load_file r store x w = Inr (v, store', w') \<and> P v"
proof -
  obtain "is" store1 w1 where 1: "ram_open_input store x w = Inr (is, store1, w1)" "ram_in.is_ok w1 is (xs @ ys) 0"
    using ram_open_input_ok [OF S f] by blast
  have le: "0 \<le> length (xs @ ys)" and d: "drop 0 (xs @ ys) = xs @ ys" by simp_all
  obtain v where v: "P v" "ram_in.decodes w1 (r w1) xs v" using r by blast
  obtain is2 where 2: "r w1 is = Inr (v, is2)" "ram_in.is_ok w1 is2 (xs @ ys) (0 + length xs)"
    using ram_in.decodesD [OF v(2) 1(2) le d] .
  from 2(2) obtain rf where "rh_files w1 (ri_rf (is_file is2)) = Some rf"
    by (auto simp: ram_in.is_ok_def ram_in_valid_def)
  then have "\<exists>w2. rami_close_i (is_file is2) w1 = Inr w2"
    by (simp add: rami_close_i_def rf_close_def rf_get_def)
  with 1(1) 2(1) v(1) show ?thesis by (auto simp: load_file_def)
qed

lemma load_file_ok:
  assumes "ram_ok store w" and "ram_dir store w (snd x) = Some (xs @ ys)" and "\<And>w. ram_in.decodes w (r w) xs v"
  shows "\<exists>store' w'. load_file r store x w = Inr (v, store', w')"
  using load_file_some [OF assms(1,2), of "(=) v" r] assms(3) by blast

end
