(* ===== verification/FrtRamRefine.thy ===== *)
theory FrtRamRefine
  imports FrtRamDir
begin

text \<open>
  The RAM store as an implementation of a directory: a finite map from names to contents.

  \<^item> \<open>ram_op\<close> are the requests to a store; \<open>ram_exec\<close> runs one on the model of \<open>frt_ram_store.c\<close> and
    \<open>dir_exec\<close> runs it on the map. \<open>Save\<close> and \<open>Load\<close> open a file, write or read fields, and close it.
  \<^item> \<open>ram_run\<close> is the step relation of a store that serves requests one after the other; an error
    leaves the store as it was. The lemmas are the simulation: whatever was requested, the answers and
    the files are those of the map.
\<close>

section \<open>Requests\<close>

datatype ram_op =
    Touch cstr
  | Exists cstr
  | Remove cstr
  | Rename cstr cstr
  | Length cstr
  | Obtain cstr
  | Release cstr
  | Save cstr "field list"

datatype answer = Done | Found bool | Size int | Raised frt_error

fun ram_exec :: "ram_op \<Rightarrow> ram_store \<Rightarrow> ram_heap \<Rightarrow> (answer \<times> ram_store \<times> ram_heap) res" where
  "ram_exec (Touch x) s w = ebind (ram_touch s x w) (\<lambda>(s, w). Inr (Done, s, w))"
| "ram_exec (Exists x) s w = ebind (ram_exists s x) (\<lambda>(r, s). Inr (Found r, s, w))"
| "ram_exec (Remove x) s w = ebind (ram_remove s x w) (\<lambda>(r, s, w). Inr (Found r, s, w))"
| "ram_exec (Rename x y) s w = ebind (ram_rename s x y w) (\<lambda>(s, w). Inr (Done, s, w))"
| "ram_exec (Length x) s w = ebind (ram_length s x w) (\<lambda>(n, s). Inr (Size n, s, w))"
| "ram_exec (Obtain x) s w = ebind (ram_lock_obtain x s w) (\<lambda>(r, s, w). Inr (Found r, s, w))"
| "ram_exec (Release x) s w = ebind (ram_lock_release x s w) (\<lambda>(s, w). Inr (Done, s, w))"
| "ram_exec (Save x fls) s w =
     ebind (save_file (write_fields RAM_OUT_STREAM_METHODS fls) s x w) (\<lambda>(s, w). Inr (Done, s, w))"

type_synonym dir = "byte list \<rightharpoonup> byte list"

text \<open>A file is created empty and, as in \<open>ram_new_output\<close>, not truncated when it is there.\<close>

definition created :: "byte list \<Rightarrow> dir \<Rightarrow> dir" where
  "created n d = (if d n = None then d(n \<mapsto> []) else d)"

definition contents :: "dir \<Rightarrow> byte list \<Rightarrow> byte list" where
  "contents d n = (case d n of None \<Rightarrow> [] | Some bs \<Rightarrow> bs)"

fun dir_exec :: "ram_op \<Rightarrow> dir \<Rightarrow> (answer \<times> dir) res" where
  "dir_exec (Touch x) d = Inr (Done, created (snd x) d)"
| "dir_exec (Exists x) d = Inr (Found (d (snd x) \<noteq> None), d)"
| "dir_exec (Remove x) d = Inr (Found (d (snd x) \<noteq> None), d(snd x := None))"
| "dir_exec (Rename x y) d =
     (case d (snd x) of None \<Rightarrow> Inl FRT_IO_ERROR | Some bs \<Rightarrow> Inr (Done, (d(snd x := None))(snd y \<mapsto> bs)))"
| "dir_exec (Length x) d = Inr (Size (int (length (contents d (snd x)))), d)"
| "dir_exec (Obtain x) d = Inr (Found (d (snd x) = None), created (snd x) d)"
| "dir_exec (Release x) d = Inr (Done, d(snd x := None))"
| "dir_exec (Save x fls) d =
     Inr (Done, d(snd x \<mapsto> write_at (contents d (snd x)) 0 (concat (map enc_field fls))))"

fun op_ok :: "ram_op \<Rightarrow> bool" where
  "op_ok (Save x fls) = (\<forall>fl \<in> set fls. field_ok fl)"
| "op_ok _ = True"

section \<open>Simulation\<close>

lemma ram_exec_refines:
  assumes S: "ram_ok s w" and small: "h_size (dir_ht s) < 2 ^ 28" and ok: "op_ok r"
  shows "case dir_exec r (ram_dir s w) of
     Inl e \<Rightarrow> ram_exec r s w = Inl e
   | Inr (a, d) \<Rightarrow> \<exists>s' w'. ram_exec r s w = Inr (a, s', w') \<and> ram_ok s' w' \<and> ram_dir s' w' = d"
proof (cases r)
  case (Touch x)
  then show ?thesis using ram_touch_ok[OF S small, of x] by (auto simp: created_def)
next
  case (Exists x)
  then show ?thesis using ram_exists_ok[OF S, of x] by auto
next
  case (Remove x)
  then show ?thesis using ram_remove_ok[OF S, of x] by auto
next
  case (Rename x y)
  then show ?thesis
    using ram_rename_missing[OF S, of x y] ram_rename_ok[OF S small, of x _ y]
    by (cases "ram_dir s w (snd x)") auto
next
  case (Length x)
  then show ?thesis using ram_length_ok[OF S, of x] by (auto simp: contents_def split: option.splits)
next
  case (Obtain x)
  then show ?thesis using ram_lock_obtain_ok[OF S small, of x] by (auto simp: created_def)
next
  case (Release x)
  then show ?thesis using ram_lock_release_ok[OF S, of x] by auto
next
  case (Save x fls)
  have "ram_out.writes (write_fields RAM_OUT_STREAM_METHODS fls) (concat (map enc_field fls))"
    using ok Save by (intro ram_out.writes_fields) simp
  from save_file_ok[OF S small this, of x] show ?thesis using Save by (auto simp: contents_def)
qed

text \<open>
  A store at work. The guards say that the table of names holds fewer than \<open>2 ^ 28\<close> names, below
  which \<open>frt_hash.c\<close> can grow it, and that the written values fit their encodings.
\<close>

inductive ram_run :: "ram_op list \<Rightarrow> answer list \<Rightarrow> ram_store \<Rightarrow> ram_heap \<Rightarrow> ram_store \<Rightarrow> ram_heap \<Rightarrow> bool" where
  stop: "ram_run [] [] s w s w"
| step: "h_size (dir_ht s) < 2 ^ 28 \<Longrightarrow> op_ok r \<Longrightarrow> ram_exec r s w = Inr (a, s1, w1) \<Longrightarrow>
    ram_run rs as s1 w1 s' w' \<Longrightarrow> ram_run (r # rs) (a # as) s w s' w'"
| raised: "h_size (dir_ht s) < 2 ^ 28 \<Longrightarrow> op_ok r \<Longrightarrow> ram_exec r s w = Inl e \<Longrightarrow>
    ram_run rs as s w s' w' \<Longrightarrow> ram_run (r # rs) (Raised e # as) s w s' w'"

inductive_simps ram_run_Nil [simp]: "ram_run [] as s w s' w'"
inductive_simps ram_run_Cons: "ram_run (r # rs) as s w s' w'"

fun dir_run :: "ram_op list \<Rightarrow> dir \<Rightarrow> answer list \<times> dir" where
  "dir_run [] d = ([], d)"
| "dir_run (r # rs) d =
     (case dir_exec r d of
        Inl e \<Rightarrow> (let (as, d') = dir_run rs d in (Raised e # as, d'))
      | Inr (a, d1) \<Rightarrow> (let (as, d') = dir_run rs d1 in (a # as, d')))"

lemma ram_run_refines:
  "ram_run rs as s w s' w' \<Longrightarrow> ram_ok s w \<Longrightarrow>
   ram_ok s' w' \<and> dir_run rs (ram_dir s w) = (as, ram_dir s' w')"
proof (induction rule: ram_run.induct)
  case (stop s w)
  then show ?case by simp
next
  case (step s r w a s1 w1 rs as s' w')
  from ram_exec_refines[OF step.prems step.hyps(1,2)] step.hyps(3)
  have "dir_exec r (ram_dir s w) = Inr (a, ram_dir s1 w1)" "ram_ok s1 w1"
    by (auto split: sum.splits prod.splits)
  then show ?case using step.IH by simp
next
  case (raised s r w e rs as s' w')
  from ram_exec_refines[OF raised.prems raised.hyps(1,2)] raised.hyps(3)
  have "dir_exec r (ram_dir s w) = Inl e"
    by (auto split: sum.splits prod.splits)
  then show ?case using raised by simp
qed

text \<open>A lock that is held stays held, and obtaining it again changes no file.\<close>

lemma ram_lock_held:
  assumes S: "ram_ok s w" and held: "ram_dir s w (snd x) \<noteq> None"
  shows "\<exists>s'. ram_lock_obtain x s w = Inr (False, s', w) \<and> ram_ok s' w \<and> ram_dir s' w = ram_dir s w"
proof -
  obtain s1 where 1: "ram_exists s x = Inr (True, s1)" "ram_ok s1 w" "ram_dir s1 w = ram_dir s w"
    using ram_exists_ok[OF S, of x] held by auto
  have T: "tab_ok (dir_ht s1)" using 1(2) by (simp add: ram_ok_def)
  obtain ht where ht: "frt_h_get (dir_ht s1) (PKey x) = Inr (ref_of (dir_ht s1) (snd x), ht)" "tab_ok ht"
    "ref_of ht = ref_of (dir_ht s1)"
    by (rule ht_get[OF T])
  have "ram_dir s1 w (snd x) \<noteq> None" using held 1(3) by simp
  then obtain r where "ref_of (dir_ht s1) (snd x) = Some r" by (auto simp: ram_dir_def)
  then have "ram_touch s1 x w = Inr (s1\<lparr>dir_ht := ht\<rparr>, w)" using ht(1) by (simp add: ram_touch_def)
  then show ?thesis
    using 1 ram_ok_get[OF 1(2) ht(2,3)] by (simp add: ram_lock_obtain_def)
qed

end
