(* ===== verification/FrtPriorityQueue.thy ===== *)
theory FrtPriorityQueue
  imports FrtPrelude
begin

text \<open>
  The bounded priority queue of \<open>frt_priorityqueue.c\<close>.

  \<^item> \<open>frt_pq\<close> is \<open>FrtPriorityQueue\<close>: \<open>pq_heap\<close> is the array \<open>heap\<close> with its unused cell 0; a cell is
    \<open>None\<close> when it holds \<open>NULL\<close>, and \<open>mem_capa\<close> is the length of the array. \<open>pq_freed\<close> lists what was
    passed to \<open>free_elem_i\<close>, oldest first.
  \<^item> The loops of \<open>frt_pq_up\<close> and \<open>frt_pq_down\<close> carry the array and the position of the hole; the
    element that is moved is written into the hole at the end, as in the code. \<open>frt_realloc\<close> leaves
    the new cells unspecified: they are \<open>None\<close> here, and no operation reads them before it wrote them.
    The test \<open>0 < j\<close> of \<open>pq_down_loop\<close> only makes the function total: \<open>j\<close> is at least 2 in the code.
  \<^item> The lemmas are in \<open>FrtPriorityQueueLaws\<close>.
\<close>

section \<open>The queue\<close>

record 'a frt_pq =
  pq_size :: nat
  pq_capa :: nat
  pq_heap :: "'a option list"
  pq_less_than_i :: "'a \<Rightarrow> 'a \<Rightarrow> bool"
  pq_freed :: "'a list"

datatype pq_insert_enum = FRT_PQ_DROPPED | FRT_PQ_ADDED | FRT_PQ_INSERTED

definition START_CAPA :: nat where
  "START_CAPA = 127"

definition pq_mem_capa :: "'a frt_pq \<Rightarrow> nat" where
  "pq_mem_capa pq = length (pq_heap pq)"

text \<open>A comparison of two cells; the queue only compares cells that hold an element.\<close>

definition cell_lt :: "('a \<Rightarrow> 'a \<Rightarrow> bool) \<Rightarrow> 'a option \<Rightarrow> 'a option \<Rightarrow> bool" where
  "cell_lt lt c d = (case (c, d) of (Some x, Some y) \<Rightarrow> lt x y | _ \<Rightarrow> False)"

definition frt_pq_new :: "nat \<Rightarrow> ('a \<Rightarrow> 'a \<Rightarrow> bool) \<Rightarrow> 'a frt_pq" where
  "frt_pq_new capa lt_fn =
     \<lparr>pq_size = 0, pq_capa = capa,
      pq_heap = replicate ((if START_CAPA > capa then capa else START_CAPA) + 1) None,
      pq_less_than_i = lt_fn, pq_freed = []\<rparr>"

definition frt_pq_clone :: "'a frt_pq \<Rightarrow> 'a frt_pq" where
  "frt_pq_clone pq =
     pq\<lparr>pq_heap := take (pq_size pq + 1) (pq_heap pq) @ replicate (pq_mem_capa pq - (pq_size pq + 1)) None\<rparr>"

text \<open>The loop \<open>for (i = 1; i <= pq->size; i++)\<close> of \<open>frt_pq_clear\<close>; \<open>n\<close> is the number of rounds left.\<close>

fun pq_clear_loop :: "nat \<Rightarrow> nat \<Rightarrow> 'a frt_pq \<Rightarrow> 'a frt_pq" where
  "pq_clear_loop i 0 pq = pq"
| "pq_clear_loop i (Suc n) pq =
     pq_clear_loop (i + 1) n
       (pq\<lparr>pq_freed := (case pq_heap pq ! i of None \<Rightarrow> pq_freed pq | Some x \<Rightarrow> pq_freed pq @ [x]),
           pq_heap := (pq_heap pq)[i := None]\<rparr>)"

definition frt_pq_clear :: "'a frt_pq \<Rightarrow> 'a frt_pq" where
  "frt_pq_clear pq = (pq_clear_loop 1 (pq_size pq) pq)\<lparr>pq_size := 0\<rparr>"

fun pq_up_loop ::
  "('a \<Rightarrow> 'a \<Rightarrow> bool) \<Rightarrow> 'a option \<Rightarrow> 'a option list \<Rightarrow> nat \<Rightarrow> nat \<Rightarrow> 'a option list \<times> nat" where
  "pq_up_loop lt node heap i j =
     (if j > 0 \<and> cell_lt lt node (heap ! j) then pq_up_loop lt node (heap[i := heap ! j]) j (j div 2)
      else (heap, i))"

declare pq_up_loop.simps [simp del]

definition frt_pq_up :: "'a frt_pq \<Rightarrow> 'a frt_pq" where
  "frt_pq_up pq =
     (let i = pq_size pq; j = i div 2; node = pq_heap pq ! i;
          (heap, i) = pq_up_loop (pq_less_than_i pq) node (pq_heap pq) i j
      in pq\<lparr>pq_heap := heap[i := node]\<rparr>)"

text \<open>The child of \<open>i\<close> that goes up: \<open>j = i << 1\<close>, or \<open>k = j + 1\<close> when that is in the heap and less.\<close>

definition pq_child :: "('a \<Rightarrow> 'a \<Rightarrow> bool) \<Rightarrow> nat \<Rightarrow> 'a option list \<Rightarrow> nat \<Rightarrow> nat" where
  "pq_child lt sz heap i =
     (let j = 2 * i; k = j + 1 in if k \<le> sz \<and> cell_lt lt (heap ! k) (heap ! j) then k else j)"

function pq_down_loop ::
  "('a \<Rightarrow> 'a \<Rightarrow> bool) \<Rightarrow> nat \<Rightarrow> 'a option \<Rightarrow> 'a option list \<Rightarrow> nat \<Rightarrow> nat \<Rightarrow> 'a option list \<times> nat" where
  "pq_down_loop lt sz node heap i j =
     (if 0 < j \<and> j \<le> sz \<and> cell_lt lt (heap ! j) node
      then (let heap = heap[i := heap ! j]; i = j in pq_down_loop lt sz node heap i (pq_child lt sz heap i))
      else (heap, i))"
  by pat_completeness auto
termination
  by (relation "measure (\<lambda>(lt, sz, node, heap, i, j). Suc sz - j)") (auto simp: pq_child_def Let_def)

declare pq_down_loop.simps [simp del]

definition frt_pq_down :: "'a frt_pq \<Rightarrow> 'a frt_pq" where
  "frt_pq_down pq =
     (let size = pq_size pq; heap = pq_heap pq; node = heap ! 1;
          (heap, i) = pq_down_loop (pq_less_than_i pq) size node heap 1 (pq_child (pq_less_than_i pq) size heap 1)
      in pq\<lparr>pq_heap := heap[i := node]\<rparr>)"

definition frt_pq_push :: "'a frt_pq \<Rightarrow> 'a \<Rightarrow> 'a frt_pq" where
  "frt_pq_push pq elem =
     (let size = pq_size pq + 1;
          heap = (if size \<ge> length (pq_heap pq) then pq_heap pq @ replicate (length (pq_heap pq)) None
                  else pq_heap pq)
      in frt_pq_up (pq\<lparr>pq_size := size, pq_heap := heap[size := Some elem]\<rparr>))"

definition frt_pq_insert :: "'a frt_pq \<Rightarrow> 'a \<Rightarrow> pq_insert_enum \<times> 'a frt_pq" where
  "frt_pq_insert pq elem =
     (if pq_size pq < pq_capa pq then (FRT_PQ_ADDED, frt_pq_push pq elem)
      else if pq_size pq > 0 \<and> cell_lt (pq_less_than_i pq) (pq_heap pq ! 1) (Some elem) then
        (FRT_PQ_INSERTED,
         frt_pq_down (pq\<lparr>pq_freed := (case pq_heap pq ! 1 of None \<Rightarrow> pq_freed pq | Some x \<Rightarrow> pq_freed pq @ [x]),
                         pq_heap := (pq_heap pq)[1 := Some elem]\<rparr>))
      else (FRT_PQ_DROPPED, pq\<lparr>pq_freed := pq_freed pq @ [elem]\<rparr>))"

definition frt_pq_top :: "'a frt_pq \<Rightarrow> 'a option" where
  "frt_pq_top pq = (if pq_size pq \<noteq> 0 then pq_heap pq ! 1 else None)"

definition frt_pq_pop :: "'a frt_pq \<Rightarrow> 'a option \<times> 'a frt_pq" where
  "frt_pq_pop pq =
     (if pq_size pq > 0 then
        (let result = pq_heap pq ! 1;
             heap = (pq_heap pq)[1 := pq_heap pq ! pq_size pq];
             heap = heap[pq_size pq := None]
         in (result, frt_pq_down (pq\<lparr>pq_heap := heap, pq_size := pq_size pq - 1\<rparr>)))
      else (None, pq))"

end
