(* ===== verification/FrtPriorityQueueLaws.thy ===== *)
theory FrtPriorityQueueLaws
  imports FrtPriorityQueue "HOL-Library.Multiset"
begin

text \<open>
  Why the queue of \<open>FrtPriorityQueue\<close> is a priority queue.

  \<^item> \<open>less_laws\<close> is what the queue needs of its comparison: a strict weak order.
  \<^item> \<open>up_inv\<close> and \<open>down_inv\<close> are the loop invariants of \<open>frt_pq_up\<close> and \<open>frt_pq_down\<close>: the array with the
    moved element put into the hole is in heap order except at the hole.
  \<^item> Under \<open>less_laws\<close> every operation keeps \<open>pq_ok\<close>, \<open>frt_pq_pop\<close> takes a least element, and a queue of
    capacity \<open>n\<close> that any number of elements was inserted into holds the \<open>n\<close> greatest of them.
\<close>

section \<open>Heap order\<close>

definition at :: "'a option list \<Rightarrow> nat \<Rightarrow> 'a" where
  "at h i = the (h ! i)"

definition cells_ok :: "nat \<Rightarrow> 'a option list \<Rightarrow> bool" where
  "cells_ok n h \<longleftrightarrow> n < length h \<and> (\<forall>i. 1 \<le> i \<longrightarrow> i \<le> n \<longrightarrow> h ! i \<noteq> None)"

definition cells :: "nat \<Rightarrow> 'a option list \<Rightarrow> 'a list" where
  "cells n h = map the (take n (drop 1 h))"

definition edge_ok :: "('a \<Rightarrow> 'a \<Rightarrow> bool) \<Rightarrow> 'a option list \<Rightarrow> nat \<Rightarrow> bool" where
  "edge_ok lt h c \<longleftrightarrow> \<not> lt (at h c) (at h (c div 2))"

definition heap_ord :: "('a \<Rightarrow> 'a \<Rightarrow> bool) \<Rightarrow> nat \<Rightarrow> 'a option list \<Rightarrow> bool" where
  "heap_ord lt n h \<longleftrightarrow> (\<forall>c. 2 \<le> c \<longrightarrow> c \<le> n \<longrightarrow> edge_ok lt h c)"

definition up_inv :: "('a \<Rightarrow> 'a \<Rightarrow> bool) \<Rightarrow> nat \<Rightarrow> 'a option list \<Rightarrow> nat \<Rightarrow> bool" where
  "up_inv lt n g i \<longleftrightarrow> 1 \<le> i \<and> i \<le> n \<and> cells_ok n g \<and>
     (\<forall>c. 2 \<le> c \<longrightarrow> c \<le> n \<longrightarrow> c \<noteq> i \<longrightarrow> edge_ok lt g c) \<and>
     (\<forall>c. c \<le> n \<longrightarrow> c div 2 = i \<longrightarrow> 2 \<le> i \<longrightarrow> \<not> lt (at g c) (at g (i div 2)))"

definition down_inv :: "('a \<Rightarrow> 'a \<Rightarrow> bool) \<Rightarrow> nat \<Rightarrow> 'a option list \<Rightarrow> nat \<Rightarrow> bool" where
  "down_inv lt n g i \<longleftrightarrow> 1 \<le> i \<and> i \<le> n \<and> cells_ok n g \<and>
     (\<forall>c. 2 \<le> c \<longrightarrow> c \<le> n \<longrightarrow> c div 2 \<noteq> i \<longrightarrow> edge_ok lt g c) \<and>
     (\<forall>c. c \<le> n \<longrightarrow> c div 2 = i \<longrightarrow> 2 \<le> i \<longrightarrow> \<not> lt (at g c) (at g (i div 2)))"

definition swap :: "'a list \<Rightarrow> nat \<Rightarrow> nat \<Rightarrow> 'a list" where
  "swap g i j = g[i := g ! j, j := g ! i]"

lemma swap_at:
  "i < length g \<Longrightarrow> j < length g \<Longrightarrow>
   at (swap g i j) k = (if k = i then at g j else if k = j then at g i else at g k)"
  by (auto simp: swap_def at_def nth_list_update)

lemma cells_update: "1 \<le> i \<Longrightarrow> cells n (h[i := c]) = (cells n h)[i - 1 := the c]"
  by (simp add: cells_def drop_update_swap take_update_swap map_update)

lemma cells_nth: "1 \<le> i \<Longrightarrow> i \<le> n \<Longrightarrow> n < length h \<Longrightarrow> cells n h ! (i - 1) = at h i"
  by (simp add: cells_def at_def)

lemma length_cells: "n < length h \<Longrightarrow> length (cells n h) = n"
  by (simp add: cells_def)

lemma swap_cells:
  assumes "1 \<le> i" "i \<le> n" "1 \<le> j" "j \<le> n" "n < length g"
  shows "mset (cells n (swap g i j)) = mset (cells n g)"
proof -
  have "cells n (swap g i j) = (cells n g)[i - 1 := cells n g ! (j - 1), j - 1 := cells n g ! (i - 1)]"
    using assms(1,3) cells_nth[OF assms(1,2,5)] cells_nth[OF assms(3-5)]
    by (simp only: swap_def cells_update at_def)
  then show ?thesis
    using assms mset_swap[of "j - 1" "cells n g" "i - 1"] by (simp add: length_cells)
qed

lemma cells_ok_swap:
  "cells_ok n g \<Longrightarrow> 1 \<le> i \<Longrightarrow> i \<le> n \<Longrightarrow> 1 \<le> j \<Longrightarrow> j \<le> n \<Longrightarrow> cells_ok n (swap g i j)"
  by (auto simp: cells_ok_def swap_def nth_list_update)

lemma swap_hole:
  "i \<noteq> j \<Longrightarrow> i < length h \<Longrightarrow> j < length h \<Longrightarrow> h[i := h ! j, j := x] = swap (h[i := x]) i j"
  by (simp add: swap_def)

lemma cell_lt_Some [simp]: "cell_lt lt (Some x) (Some y) = lt x y"
  by (simp add: cell_lt_def)

lemma cell_lt_at: "c \<noteq> None \<Longrightarrow> d \<noteq> None \<Longrightarrow> cell_lt lt c d = lt (the c) (the d)"
  by auto

lemma cells_okD: "cells_ok n h \<Longrightarrow> 1 \<le> i \<Longrightarrow> i \<le> n \<Longrightarrow> h ! i = Some (at h i)"
  by (auto simp: cells_ok_def at_def)

lemma cells_ok_length: "cells_ok n h \<Longrightarrow> n < length h"
  by (simp add: cells_ok_def)

lemma cells_map: "n < length h \<Longrightarrow> cells n h = map (at h) [1..<Suc n]"
  by (rule nth_equalityI) (simp_all add: length_cells cells_def at_def del: upt_Suc)

lemma in_cells: "cells_ok n h \<Longrightarrow> set (cells n h) = at h ` {1..n}"
  by (simp add: cells_ok_def cells_map del: upt_Suc) (simp add: atLeastLessThanSuc_atLeastAtMost)

locale less_laws =
  fixes lt :: "'a \<Rightarrow> 'a \<Rightarrow> bool"
  assumes asym: "lt x y \<Longrightarrow> \<not> lt y x"
    and ntrans: "\<not> lt x y \<Longrightarrow> \<not> lt y z \<Longrightarrow> \<not> lt x z"
begin

lemma lt_trans: "lt x y \<Longrightarrow> lt y z \<Longrightarrow> lt x z"
  using asym ntrans by blast

lemma lt_irrefl: "\<not> lt x x"
  using asym by blast

lemma root_least:
  assumes "heap_ord lt n h" "1 \<le> i" "i \<le> n"
  shows "\<not> lt (at h i) (at h 1)"
  using assms(2,3)
proof (induction i rule: less_induct)
  case (less i)
  show ?case
  proof (cases "i = 1")
    case True
    then show ?thesis by (simp add: lt_irrefl)
  next
    case False
    with less have "\<not> lt (at h (i div 2)) (at h 1)" "edge_ok lt h i"
      using assms(1) by (auto simp: heap_ord_def)
    then show ?thesis using ntrans by (auto simp: edge_ok_def)
  qed
qed

lemma up_step:
  assumes inv: "up_inv lt n g i" and i2: "2 \<le> i" and l: "lt (at g i) (at g (i div 2))"
  shows "up_inv lt n (swap g i (i div 2)) (i div 2)"
proof -
  let ?j = "i div 2" and ?s = "swap g i (i div 2)"
  have len: "n < length g" and i: "1 \<le> i" "i \<le> n"
    using inv by (auto simp: up_inv_def cells_ok_def)
  have at_s: "at ?s k = (if k = i then at g ?j else if k = ?j then at g i else at g k)" for k
    using len i by (intro swap_at) auto
  have E: "\<not> lt (at g c) (at g (c div 2))" if "2 \<le> c" "c \<le> n" "c \<noteq> i" for c
    using inv that by (auto simp: up_inv_def edge_ok_def)
  have G: "\<not> lt (at g c) (at g ?j)" if "c \<le> n" "c div 2 = i" for c
    using inv that i2 by (auto simp: up_inv_def)
  have "edge_ok lt ?s c" if c: "2 \<le> c" "c \<le> n" "c \<noteq> ?j" for c
  proof -
    consider "c = i" | "c \<noteq> i" "c div 2 = i" | "c \<noteq> i" "c div 2 = ?j" | "c \<noteq> i" "c div 2 \<noteq> i" "c div 2 \<noteq> ?j"
      by blast
    then show ?thesis
    proof cases
      case 1 then show ?thesis using i2 asym[OF l] by (auto simp: edge_ok_def at_s)
    next
      case 2 then show ?thesis using c G by (simp add: edge_ok_def at_s)
    next
      case 3 then show ?thesis
        using E[of c] c i2 l lt_trans[of "at g c" "at g i" "at g ?j"] by (auto simp: edge_ok_def at_s)
    next
      case 4 then show ?thesis using E[of c] c by (simp add: edge_ok_def at_s)
    qed
  qed
  moreover have "\<not> lt (at ?s c) (at ?s (?j div 2))" if "c \<le> n" "c div 2 = ?j" "2 \<le> ?j" for c
  proof (cases "c = i")
    case True
    then show ?thesis using that E[of ?j] i by (auto simp: at_s)
  next
    case False
    have "\<not> lt (at g c) (at g ?j)" "\<not> lt (at g ?j) (at g (?j div 2))"
      using E[of c] E[of ?j] that i False by auto
    moreover have "?j div 2 \<noteq> i" "?j div 2 \<noteq> ?j" "c \<noteq> ?j" using that i by linarith+
    ultimately show ?thesis
      using ntrans[of "at g c" "at g ?j" "at g (?j div 2)"] False by (simp only: at_s if_False simp_thms)
  qed
  moreover have "cells_ok n ?s"
    using inv i2 by (intro cells_ok_swap) (auto simp: up_inv_def)
  moreover have "1 \<le> ?j" "?j \<le> n" using i i2 by linarith+
  ultimately show ?thesis
    unfolding up_inv_def by simp
qed

lemma up_loop_ok:
  "up_inv lt n (h[i := Some x]) i \<Longrightarrow>
   (case pq_up_loop lt (Some x) h i (i div 2) of (h', i') \<Rightarrow>
      cells_ok n (h'[i' := Some x]) \<and> heap_ord lt n (h'[i' := Some x]) \<and> length h' = length h \<and>
      mset (cells n (h'[i' := Some x])) = mset (cells n (h[i := Some x])))"
proof (induction i arbitrary: h rule: less_induct)
  case (less i)
  let ?g = "h[i := Some x]" and ?j = "i div 2"
  have i: "1 \<le> i" "i \<le> n" "n < length h" and ok: "cells_ok n ?g"
    using less.prems by (auto simp: up_inv_def cells_ok_def)
  have atx: "at ?g i = x" using i by (simp add: at_def)
  show ?case
  proof (cases "?j > 0 \<and> cell_lt lt (Some x) (h ! ?j)")
    case True
    then have j: "1 \<le> ?j" "?j < i" "2 \<le> i" by auto
    have "h ! ?j = Some (at ?g ?j)"
      using cells_okD[OF ok, of ?j] i j by auto
    then have l: "lt (at ?g i) (at ?g ?j)" using True atx by simp
    have sw: "h[i := h ! ?j, ?j := Some x] = swap ?g i ?j"
      using i j by (intro swap_hole) auto
    have inv': "up_inv lt n ((h[i := h ! ?j])[?j := Some x]) ?j"
      using up_step[OF less.prems j(3) l] sw by simp
    have m: "mset (cells n ((h[i := h ! ?j])[?j := Some x])) = mset (cells n ?g)"
      unfolding sw using i j by (intro swap_cells) auto
    show ?thesis
      using less.IH[OF j(2) inv'] True m by (subst pq_up_loop.simps) (auto split: prod.splits)
  next
    case False
    have "heap_ord lt n ?g"
      unfolding heap_ord_def
    proof (intro allI impI)
      fix c assume c: "2 \<le> c" "c \<le> n"
      show "edge_ok lt ?g c"
      proof (cases "c = i")
        case True
        then have "h ! ?j = Some (at ?g ?j)" "?j > 0"
          using cells_okD[OF ok, of ?j] i c by auto
        then show ?thesis using False True atx by (simp add: edge_ok_def)
      next
        case False
        then show ?thesis using less.prems c by (auto simp: up_inv_def)
      qed
    qed
    then show ?thesis using False ok by (subst pq_up_loop.simps) auto
  qed
qed

lemma down_step:
  assumes inv: "down_inv lt n g i" and j: "j \<le> n" "j div 2 = i" and l: "lt (at g j) (at g i)"
    and sib: "\<And>c. c \<le> n \<Longrightarrow> c div 2 = i \<Longrightarrow> \<not> lt (at g c) (at g j)"
  shows "down_inv lt n (swap g i j) j"
proof -
  let ?s = "swap g i j"
  have len: "n < length g" and i: "1 \<le> i" "i \<le> n" and ij: "i < j" "1 \<le> j"
    using inv j by (auto simp: down_inv_def cells_ok_def)
  have at_s: "at ?s k = (if k = i then at g j else if k = j then at g i else at g k)" for k
    using len i j by (intro swap_at) auto
  have E: "\<not> lt (at g c) (at g (c div 2))" if "2 \<le> c" "c \<le> n" "c div 2 \<noteq> i" for c
    using inv that by (auto simp: down_inv_def edge_ok_def)
  have "edge_ok lt ?s c" if c: "2 \<le> c" "c \<le> n" "c div 2 \<noteq> j" for c
  proof -
    consider "c = i" | "c = j" | "c \<noteq> i" "c \<noteq> j" "c div 2 = i" | "c \<noteq> i" "c \<noteq> j" "c div 2 \<noteq> i"
      by blast
    then show ?thesis
    proof cases
      case 1 then show ?thesis
        using inv c j ij by (auto simp: edge_ok_def at_s down_inv_def)
    next
      case 2 then show ?thesis using j ij asym[OF l] by (auto simp: edge_ok_def at_s)
    next
      case 3 then show ?thesis using sib c by (simp add: edge_ok_def at_s)
    next
      case 4 then show ?thesis using E[of c] c by (auto simp: edge_ok_def at_s)
    qed
  qed
  moreover have "\<not> lt (at ?s c) (at ?s (j div 2))" if "c \<le> n" "c div 2 = j" for c
    using E[of c] that j ij by (auto simp: at_s)
  moreover have "cells_ok n ?s"
    using inv ij j by (intro cells_ok_swap) (auto simp: down_inv_def)
  ultimately show ?thesis
    unfolding down_inv_def using ij j by simp
qed

lemma child_ok:
  assumes g: "cells_ok n (h[i := Some x])" and i: "1 \<le> i" "i \<le> n"
  defines "j \<equiv> pq_child lt n h i" and "g \<equiv> h[i := Some x]"
  shows "j div 2 = i" "i < j" "j \<le> n \<Longrightarrow> h ! j = Some (at g j)"
    "\<And>c. c \<le> n \<Longrightarrow> c div 2 = i \<Longrightarrow> \<not> lt (at g c) (at g j) \<and> j \<le> n"
proof -
  have cell: "h ! c = Some (at g c)" if "c \<le> n" "c \<noteq> i" "1 \<le> c" for c
    using cells_okD[OF g, of c] that by (simp add: g_def)
  show "j div 2 = i" "i < j" using i by (auto simp: j_def pq_child_def Let_def)
  then show jc: "h ! j = Some (at g j)" if "j \<le> n" using cell[of j] that i by simp
  fix c assume c: "c \<le> n" "c div 2 = i"
  then have "c = 2 * i \<or> c = 2 * i + 1" by presburger
  then show "\<not> lt (at g c) (at g j) \<and> j \<le> n"
    using c i cell[of "2 * i"] cell[of "2 * i + 1"] lt_irrefl
      asym[of "at g (2 * i + 1)" "at g (2 * i)"]
    by (auto simp: j_def pq_child_def Let_def)
qed

lemma down_loop_ok:
  "down_inv lt n (h[i := Some x]) i \<Longrightarrow>
   (case pq_down_loop lt n (Some x) h i (pq_child lt n h i) of (h', i') \<Rightarrow>
      cells_ok n (h'[i' := Some x]) \<and> heap_ord lt n (h'[i' := Some x]) \<and> length h' = length h \<and>
      mset (cells n (h'[i' := Some x])) = mset (cells n (h[i := Some x])))"
proof (induction "n - i" arbitrary: i h rule: less_induct)
  case less
  let ?g = "h[i := Some x]" and ?j = "pq_child lt n h i"
  have i: "1 \<le> i" "i \<le> n" "n < length h" and ok: "cells_ok n ?g"
    using less.prems by (auto simp: down_inv_def cells_ok_def)
  have atx: "at ?g i = x" using i by (simp add: at_def)
  note child = child_ok[OF ok i(1,2)]
  show ?case
  proof (cases "?j \<le> n \<and> cell_lt lt (h ! ?j) (Some x)")
    case True
    then have l: "lt (at ?g ?j) (at ?g i)" using child(3) atx by simp
    have sw: "h[i := h ! ?j, ?j := Some x] = swap ?g i ?j"
      using i True child(2) by (intro swap_hole) auto
    have inv': "down_inv lt n ((h[i := h ! ?j])[?j := Some x]) ?j"
      unfolding sw using less.prems True child l by (intro down_step) auto
    have m: "mset (cells n ((h[i := h ! ?j])[?j := Some x])) = mset (cells n ?g)"
      unfolding sw using i True child(2) by (intro swap_cells) auto
    have "n - ?j < n - i" using True child(2) i(2) by linarith
    from less.hyps[OF this inv'] show ?thesis
      using True m child(2) by (subst pq_down_loop.simps) (auto simp: Let_def split: prod.splits)
  next
    case False
    have "heap_ord lt n ?g"
      unfolding heap_ord_def
    proof (intro allI impI)
      fix c assume c: "2 \<le> c" "c \<le> n"
      show "edge_ok lt ?g c"
      proof (cases "c div 2 = i")
        case True
        then have "\<not> lt (at ?g c) (at ?g ?j)" "?j \<le> n" using child(4) c by auto
        moreover have "\<not> lt (at ?g ?j) x" using False child(3) \<open>?j \<le> n\<close> by simp
        ultimately show ?thesis using ntrans True atx by (auto simp: edge_ok_def)
      next
        case False
        then show ?thesis using less.prems c by (auto simp: down_inv_def)
      qed
    qed
    then show ?thesis using False ok by (subst pq_down_loop.simps) auto
  qed
qed

end

section \<open>The operations\<close>

definition pq_ok :: "('a \<Rightarrow> 'a \<Rightarrow> bool) \<Rightarrow> 'a frt_pq \<Rightarrow> bool" where
  "pq_ok lt pq \<longleftrightarrow> pq_less_than_i pq = lt \<and> cells_ok (pq_size pq) (pq_heap pq) \<and>
     heap_ord lt (pq_size pq) (pq_heap pq)"

text \<open>The elements in the queue.\<close>

definition pq_elems :: "'a frt_pq \<Rightarrow> 'a multiset" where
  "pq_elems pq = mset (cells (pq_size pq) (pq_heap pq))"

lemma cells_append:
  "n < length h \<Longrightarrow> cells n (h @ t) = cells n h"
  by (simp add: cells_def)

lemma cells_Suc:
  "Suc n < length h \<Longrightarrow> cells (Suc n) h = cells n h @ [at h (Suc n)]"
  by (simp add: cells_def at_def take_Suc_conv_app_nth)

lemma cells_update_out: "n < i \<Longrightarrow> cells n (h[i := c]) = cells n h"
  by (cases i) (simp_all add: cells_def drop_update_swap)

lemma at_update: "i < length h \<Longrightarrow> at (h[i := c]) k = (if k = i then the c else at h k)"
  by (simp add: at_def nth_list_update)

lemma at_append: "i < length h \<Longrightarrow> at (h @ t) i = at h i"
  by (simp add: at_def nth_append)

lemma pq_elems_size: "pq_ok lt pq \<Longrightarrow> size (pq_elems pq) = pq_size pq"
  by (simp add: pq_elems_def pq_ok_def cells_ok_def length_cells)

context less_laws
begin

lemma frt_pq_new_ok:
  "pq_ok lt (frt_pq_new capa lt) \<and> pq_elems (frt_pq_new capa lt) = {#} \<and> pq_size (frt_pq_new capa lt) = 0 \<and>
   pq_capa (frt_pq_new capa lt) = capa \<and> pq_freed (frt_pq_new capa lt) = []"
  by (simp add: frt_pq_new_def pq_ok_def pq_elems_def cells_ok_def cells_def heap_ord_def)

lemma frt_pq_push_ok:
  assumes "pq_ok lt pq"
  shows "pq_ok lt (frt_pq_push pq x)" "pq_elems (frt_pq_push pq x) = add_mset x (pq_elems pq)"
    "pq_capa (frt_pq_push pq x) = pq_capa pq" "pq_freed (frt_pq_push pq x) = pq_freed pq"
    "pq_size (frt_pq_push pq x) = Suc (pq_size pq)"
proof -
  let ?n = "pq_size pq" and ?h0 = "pq_heap pq"
  define h where "h = (if Suc ?n \<ge> length ?h0 then ?h0 @ replicate (length ?h0) None else ?h0)"
  define g where "g = h[Suc ?n := Some x]"
  have ok: "cells_ok ?n ?h0" "heap_ord lt ?n ?h0" and lt: "pq_less_than_i pq = lt"
    using assms by (auto simp: pq_ok_def)
  then have len: "Suc ?n < length h" and cells: "cells ?n h = cells ?n ?h0"
    by (auto simp: h_def cells_ok_def cells_append)
  have at: "at h i = at ?h0 i" and nth: "h ! i = ?h0 ! i" if "i \<le> ?n" for i
    using that ok by (auto simp: h_def cells_ok_def at_def nth_append)
  have at_g: "at g i = at ?h0 i" if "i \<le> ?n" for i
    using that len at by (simp add: g_def at_update)
  have "cells_ok (Suc ?n) g"
    using ok(1) len nth by (auto simp: cells_ok_def g_def nth_list_update le_Suc_eq)
  then have inv: "up_inv lt (Suc ?n) g (Suc ?n)"
    using ok(2) at_g by (auto simp: up_inv_def heap_ord_def edge_ok_def le_Suc_eq)
  have bag: "mset (cells (Suc ?n) g) = add_mset x (pq_elems pq)"
    using len cells by (simp add: g_def cells_Suc cells_update_out at_update pq_elems_def)
  obtain h' i' where L: "pq_up_loop lt (Some x) g (Suc ?n) (Suc ?n div 2) = (h', i')"
    by (cases "pq_up_loop lt (Some x) g (Suc ?n) (Suc ?n div 2)")
  have gg: "g[Suc ?n := Some x] = g" by (simp add: g_def)
  from up_loop_ok[of "Suc ?n" g "Suc ?n" x] inv gg L
  have res: "cells_ok (Suc ?n) (h'[i' := Some x])" "heap_ord lt (Suc ?n) (h'[i' := Some x])"
    "mset (cells (Suc ?n) (h'[i' := Some x])) = mset (cells (Suc ?n) g)"
    by auto
  have "frt_pq_push pq x = pq\<lparr>pq_size := Suc ?n, pq_heap := h'[i' := Some x]\<rparr>"
    using L len lt
    by (simp add: frt_pq_push_def frt_pq_up_def Let_def h_def[symmetric] g_def[symmetric])
      (simp add: g_def)
  then show "pq_ok lt (frt_pq_push pq x)" "pq_elems (frt_pq_push pq x) = add_mset x (pq_elems pq)"
    "pq_capa (frt_pq_push pq x) = pq_capa pq" "pq_freed (frt_pq_push pq x) = pq_freed pq"
    "pq_size (frt_pq_push pq x) = Suc ?n"
    using res lt bag by (simp_all add: pq_ok_def pq_elems_def)
qed

text \<open>\<open>frt_pq_down\<close> after the root was replaced.\<close>

lemma frt_pq_down_ok:
  assumes "pq_less_than_i pq = lt" "cells_ok (pq_size pq) (pq_heap pq)" "0 < pq_size pq"
    and "\<And>c. 2 \<le> c \<Longrightarrow> c \<le> pq_size pq \<Longrightarrow> c div 2 \<noteq> 1 \<Longrightarrow> edge_ok lt (pq_heap pq) c"
  shows "pq_ok lt (frt_pq_down pq)" "pq_elems (frt_pq_down pq) = pq_elems pq"
    "pq_size (frt_pq_down pq) = pq_size pq" "pq_capa (frt_pq_down pq) = pq_capa pq"
    "pq_freed (frt_pq_down pq) = pq_freed pq"
proof -
  let ?n = "pq_size pq" and ?h = "pq_heap pq"
  have x: "?h ! 1 = Some (at ?h 1)" and len: "?n < length ?h"
    using assms cells_okD[of ?n ?h 1] by (auto simp: cells_ok_def)
  have gg: "?h[1 := Some (at ?h 1)] = ?h" using x by (metis list_update_id)
  have "down_inv lt ?n ?h 1"
    using assms by (auto simp: down_inv_def)
  then have inv: "down_inv lt ?n (?h[1 := Some (at ?h 1)]) 1" by (simp only: gg)
  obtain h' i' where L: "pq_down_loop lt ?n (Some (at ?h 1)) ?h 1 (pq_child lt ?n ?h 1) = (h', i')"
    by (cases "pq_down_loop lt ?n (Some (at ?h 1)) ?h 1 (pq_child lt ?n ?h 1)")
  from down_loop_ok[OF inv] gg L
  have res: "cells_ok ?n (h'[i' := Some (at ?h 1)])" "heap_ord lt ?n (h'[i' := Some (at ?h 1)])"
    "mset (cells ?n (h'[i' := Some (at ?h 1)])) = mset (cells ?n ?h)"
    by auto
  have "frt_pq_down pq = pq\<lparr>pq_heap := h'[i' := Some (at ?h 1)]\<rparr>"
    using L x assms(1) by (simp add: frt_pq_down_def Let_def)
  then show "pq_ok lt (frt_pq_down pq)" "pq_elems (frt_pq_down pq) = pq_elems pq"
    "pq_size (frt_pq_down pq) = pq_size pq" "pq_capa (frt_pq_down pq) = pq_capa pq"
    "pq_freed (frt_pq_down pq) = pq_freed pq"
    using res assms(1) by (simp_all add: pq_ok_def pq_elems_def)
qed

lemma frt_pq_down_empty: "pq_size pq = 0 \<Longrightarrow> frt_pq_down pq = pq"
  by (simp add: frt_pq_down_def Let_def pq_child_def pq_down_loop.simps)

lemma frt_pq_insert_ok:
  assumes ok: "pq_ok lt pq"
  shows "case frt_pq_insert pq x of (how, pq') \<Rightarrow>
     pq_ok lt pq' \<and> pq_capa pq' = pq_capa pq \<and>
     (if pq_size pq < pq_capa pq then
        how = FRT_PQ_ADDED \<and> pq_elems pq' = add_mset x (pq_elems pq) \<and> pq_freed pq' = pq_freed pq
      else if \<exists>y \<in># pq_elems pq. lt y x then
        how = FRT_PQ_INSERTED \<and>
        (\<exists>y. y \<in># pq_elems pq \<and> (\<forall>z \<in># pq_elems pq. \<not> lt z y) \<and> lt y x \<and>
             add_mset y (pq_elems pq') = add_mset x (pq_elems pq) \<and> pq_freed pq' = pq_freed pq @ [y])
      else how = FRT_PQ_DROPPED \<and> pq_elems pq' = pq_elems pq \<and> pq_freed pq' = pq_freed pq @ [x])"
proof (cases "pq_size pq < pq_capa pq")
  case True
  then show ?thesis
    using frt_pq_push_ok[OF ok] by (simp add: frt_pq_insert_def)
next
  case full: False
  let ?n = "pq_size pq" and ?h = "pq_heap pq"
  have c: "cells_ok ?n ?h" "heap_ord lt ?n ?h" and lt: "pq_less_than_i pq = lt"
    using ok by (auto simp: pq_ok_def)
  have elems: "set_mset (pq_elems pq) = at ?h ` {1..?n}"
    using in_cells[OF c(1)] by (simp add: pq_elems_def)
  have least: "\<not> lt z (at ?h 1)" if "z \<in># pq_elems pq" for z
    using that root_least[OF c(2)] elems by auto
  show ?thesis
  proof (cases "?n > 0 \<and> lt (at ?h 1) x")
    case True
    then have root: "?h ! 1 = Some (at ?h 1)" "at ?h 1 \<in># pq_elems pq" and len: "?n < length ?h"
      using cells_okD[OF c(1), of 1] elems c(1) by (auto simp: cells_ok_def)
    let ?p = "pq\<lparr>pq_freed := pq_freed pq @ [at ?h 1], pq_heap := ?h[1 := Some x]\<rparr>"
    have at_p: "at (?h[1 := Some x]) i = (if i = 1 then x else at ?h i)" for i
      using True len by (simp add: at_update)
    have "pq_less_than_i ?p = lt" "cells_ok (pq_size ?p) (pq_heap ?p)" "0 < pq_size ?p"
      using lt c(1) True by (auto simp: cells_ok_def nth_list_update)
    moreover have "edge_ok lt (pq_heap ?p) c'" if "2 \<le> c'" "c' \<le> pq_size ?p" "c' div 2 \<noteq> 1" for c'
      using c(2) that at_p by (simp add: heap_ord_def edge_ok_def)
    ultimately have down: "pq_ok lt (frt_pq_down ?p)" "pq_elems (frt_pq_down ?p) = pq_elems ?p"
      "pq_capa (frt_pq_down ?p) = pq_capa ?p" "pq_freed (frt_pq_down ?p) = pq_freed ?p"
      using frt_pq_down_ok[of ?p] by auto
    have "cells ?n (?h[1 := Some x]) = (cells ?n ?h)[0 := x]" "cells ?n ?h ! 0 = at ?h 1"
      using True len cells_update[of 1 ?n ?h "Some x"] cells_nth[of 1 ?n ?h] by auto
    then have bag: "add_mset (at ?h 1) (pq_elems ?p) = add_mset x (pq_elems pq)"
      using True len length_cells[OF len] by (cases "cells ?n ?h") (auto simp: pq_elems_def)
    have ex: "\<exists>y \<in># pq_elems pq. lt y x" using True root by auto
    show ?thesis
      using full True root ex down bag least lt
      by (auto simp: frt_pq_insert_def intro!: exI[of _ "at ?h 1"])
  next
    case False
    have no: "\<not> (\<exists>y \<in># pq_elems pq. lt y x)"
    proof
      assume "\<exists>y \<in># pq_elems pq. lt y x"
      then obtain y where y: "y \<in># pq_elems pq" "lt y x" by blast
      then have "?n > 0" using elems by (cases "?n = 0") auto
      then have "\<not> lt (at ?h 1) x" "\<not> lt y (at ?h 1)" using False least y by auto
      then show False using ntrans y(2) by blast
    qed
    have "\<not> (?n > 0 \<and> cell_lt lt (?h ! 1) (Some x))"
      using False cells_okD[OF c(1), of 1] by auto
    then have "frt_pq_insert pq x = (FRT_PQ_DROPPED, pq\<lparr>pq_freed := pq_freed pq @ [x]\<rparr>)"
      using full lt by (simp add: frt_pq_insert_def)
    then show ?thesis
      using no full ok by (simp add: pq_ok_def pq_elems_def)
  qed
qed

lemma frt_pq_top_ok:
  assumes "pq_ok lt pq" "0 < pq_size pq"
  shows "\<exists>x. frt_pq_top pq = Some x \<and> x \<in># pq_elems pq \<and> (\<forall>y \<in># pq_elems pq. \<not> lt y x)"
proof -
  have c: "cells_ok (pq_size pq) (pq_heap pq)" "heap_ord lt (pq_size pq) (pq_heap pq)"
    using assms by (auto simp: pq_ok_def)
  then show ?thesis
    using assms(2) in_cells[OF c(1)] root_least[OF c(2)] cells_okD[OF c(1), of 1]
    by (auto simp: frt_pq_top_def pq_elems_def)
qed

lemma frt_pq_pop_ok:
  assumes ok: "pq_ok lt pq" and "0 < pq_size pq"
  shows "\<exists>x. fst (frt_pq_pop pq) = Some x \<and> pq_elems pq = add_mset x (pq_elems (snd (frt_pq_pop pq))) \<and>
     (\<forall>y \<in># pq_elems pq. \<not> lt y x)"
    "pq_ok lt (snd (frt_pq_pop pq))" "pq_size (snd (frt_pq_pop pq)) = pq_size pq - 1"
    "pq_capa (snd (frt_pq_pop pq)) = pq_capa pq" "pq_freed (snd (frt_pq_pop pq)) = pq_freed pq"
proof -
  let ?n = "pq_size pq" and ?h = "pq_heap pq"
  obtain m where m: "?n = Suc m" using assms(2) by (cases ?n) auto
  have c: "cells_ok ?n ?h" "heap_ord lt ?n ?h" and lt: "pq_less_than_i pq = lt"
    using ok by (auto simp: pq_ok_def)
  have len: "Suc m < length ?h" using c(1) m by (simp add: cells_ok_def)
  have root: "?h ! 1 = Some (at ?h 1)" using cells_okD[OF c(1), of 1] m by simp
  have least: "\<forall>y \<in># pq_elems pq. \<not> lt y (at ?h 1)"
    using root_least[OF c(2)] in_cells[OF c(1)] by (auto simp: pq_elems_def)
  define g where "g = ?h[1 := ?h ! Suc m, Suc m := None]"
  let ?p = "pq\<lparr>pq_heap := g, pq_size := m\<rparr>"
  have pop: "frt_pq_pop pq = (Some (at ?h 1), frt_pq_down ?p)"
    using m root by (simp add: frt_pq_pop_def g_def)
  have at_g: "at g i = (if i = 1 then at ?h (Suc m) else at ?h i)" if "i \<le> m" for i
    using that len by (auto simp: g_def at_def nth_list_update)
  have cg: "cells m g = (cells m ?h)[0 := at ?h (Suc m)]"
    using cells_update[of 1 m ?h "?h ! Suc m"] by (simp add: g_def cells_update_out at_def)
  have bag: "pq_elems pq = add_mset (at ?h 1) (pq_elems ?p)"
  proof (cases "cells m ?h")
    case Nil
    then have "m = 0" using length_cells[of m ?h] len by auto
    then show ?thesis using m len Nil cg by (simp add: pq_elems_def cells_Suc)
  next
    case (Cons a t)
    then have "0 < m" using length_cells[of m ?h] len by auto
    then have "a = at ?h 1" using cells_nth[of 1 m ?h] len Cons by simp
    then show ?thesis using m len Cons cg by (simp add: pq_elems_def cells_Suc)
  qed
  have pok: "pq_ok lt (frt_pq_down ?p) \<and> pq_elems (frt_pq_down ?p) = pq_elems ?p \<and>
    pq_size (frt_pq_down ?p) = m \<and> pq_capa (frt_pq_down ?p) = pq_capa pq \<and>
    pq_freed (frt_pq_down ?p) = pq_freed pq"
  proof (cases "m = 0")
    case True
    then show ?thesis
      using lt len by (auto simp: frt_pq_down_empty pq_ok_def cells_ok_def heap_ord_def g_def)
  next
    case False
    have "pq_less_than_i ?p = lt" "cells_ok (pq_size ?p) (pq_heap ?p)" "0 < pq_size ?p"
      using lt c(1) False m len by (auto simp: cells_ok_def g_def nth_list_update)
    moreover have "edge_ok lt (pq_heap ?p) c'" if "2 \<le> c'" "c' \<le> pq_size ?p" "c' div 2 \<noteq> 1" for c'
    proof -
      have "c' \<le> m" "c' div 2 \<le> m" "c' \<noteq> 1" using that by auto
      then show ?thesis using c(2) that m by (simp add: heap_ord_def edge_ok_def at_g)
    qed
    ultimately show ?thesis using frt_pq_down_ok[of ?p] by auto
  qed
  show "\<exists>x. fst (frt_pq_pop pq) = Some x \<and> pq_elems pq = add_mset x (pq_elems (snd (frt_pq_pop pq))) \<and>
     (\<forall>y \<in># pq_elems pq. \<not> lt y x)"
    "pq_ok lt (snd (frt_pq_pop pq))" "pq_size (snd (frt_pq_pop pq)) = pq_size pq - 1"
    "pq_capa (snd (frt_pq_pop pq)) = pq_capa pq" "pq_freed (snd (frt_pq_pop pq)) = pq_freed pq"
    using pop bag least pok m by auto
qed

lemma frt_pq_clone_ok:
  assumes "pq_ok lt pq"
  shows "pq_ok lt (frt_pq_clone pq)" "pq_elems (frt_pq_clone pq) = pq_elems pq"
    "pq_mem_capa (frt_pq_clone pq) = pq_mem_capa pq"
proof -
  let ?n = "pq_size pq" and ?c = "take (Suc (pq_size pq)) (pq_heap pq)"
  have len: "?n < length (pq_heap pq)" using assms by (simp add: pq_ok_def cells_ok_def)
  have nth: "(?c @ t) ! i = pq_heap pq ! i" if "i \<le> ?n" for i t
    using that len by (simp add: nth_append)
  then have at: "at (?c @ t) i = at (pq_heap pq) i" if "i \<le> ?n" for i t
    using that by (simp add: at_def)
  show "pq_ok lt (frt_pq_clone pq)"
    using assms len nth at by (simp add: pq_ok_def frt_pq_clone_def cells_ok_def heap_ord_def edge_ok_def)
  show "pq_elems (frt_pq_clone pq) = pq_elems pq"
    using len by (simp add: pq_elems_def frt_pq_clone_def cells_def take_drop)
  show "pq_mem_capa (frt_pq_clone pq) = pq_mem_capa pq"
    using len by (simp add: frt_pq_clone_def pq_mem_capa_def)
qed

lemma clear_loop_ok:
  "i + n \<le> length (pq_heap pq) \<Longrightarrow> \<forall>k. i \<le> k \<longrightarrow> k < i + n \<longrightarrow> pq_heap pq ! k \<noteq> None \<Longrightarrow>
   (case pq_clear_loop i n pq of q \<Rightarrow>
      length (pq_heap q) = length (pq_heap pq) \<and> pq_less_than_i q = pq_less_than_i pq \<and>
      pq_capa q = pq_capa pq \<and> pq_freed q = pq_freed pq @ map (at (pq_heap pq)) [i..<i + n])"
proof (induction n arbitrary: i pq)
  case (Suc n)
  let ?p = "pq\<lparr>pq_freed := pq_freed pq @ [at (pq_heap pq) i], pq_heap := (pq_heap pq)[i := None]\<rparr>"
  have cell: "pq_heap pq ! i = Some (at (pq_heap pq) i)"
    using Suc.prems(2) by (auto simp: at_def)
  have "map (at (pq_heap ?p)) [i + 1..<i + 1 + n] = map (at (pq_heap pq)) [i + 1..<i + 1 + n]"
    by (rule map_cong) (auto simp: at_def nth_list_update simp del: upt_Suc)
  moreover have "[i..<i + Suc n] = i # [i + 1..<i + 1 + n]" by (simp add: upt_conv_Cons del: upt_Suc)
  ultimately show ?case
    using Suc.IH[of "i + 1" ?p] Suc.prems cell by (simp del: upt_Suc)
qed simp

lemma frt_pq_clear_ok:
  assumes "pq_ok lt pq"
  shows "pq_ok lt (frt_pq_clear pq)" "pq_elems (frt_pq_clear pq) = {#}" "pq_size (frt_pq_clear pq) = 0"
    "pq_capa (frt_pq_clear pq) = pq_capa pq"
    "\<exists>xs. pq_freed (frt_pq_clear pq) = pq_freed pq @ xs \<and> mset xs = pq_elems pq"
proof -
  let ?n = "pq_size pq" and ?h = "pq_heap pq"
  have c: "cells_ok ?n ?h" "pq_less_than_i pq = lt" using assms by (auto simp: pq_ok_def)
  then have q: "length (pq_heap (frt_pq_clear pq)) = length ?h" "pq_less_than_i (frt_pq_clear pq) = lt"
    "pq_capa (frt_pq_clear pq) = pq_capa pq" "pq_freed (frt_pq_clear pq) = pq_freed pq @ cells ?n ?h"
    using clear_loop_ok[of 1 ?n pq] by (auto simp: frt_pq_clear_def cells_ok_def cells_map simp del: upt_Suc)
  show s: "pq_size (frt_pq_clear pq) = 0" by (simp add: frt_pq_clear_def)
  show "pq_ok lt (frt_pq_clear pq)" "pq_elems (frt_pq_clear pq) = {#}"
    using q s c by (auto simp: pq_ok_def cells_ok_def heap_ord_def pq_elems_def cells_def)
  show "pq_capa (frt_pq_clear pq) = pq_capa pq"
    "\<exists>xs. pq_freed (frt_pq_clear pq) = pq_freed pq @ xs \<and> mset xs = pq_elems pq"
    using q by (auto simp: pq_elems_def)
qed

end

end
