(* ===== verification/FrtBitVector.thy ===== *)
theory FrtBitVector
  imports FrtPrelude
begin

text \<open>
  The growable bit vectors of \<open>frt_bitvector.h\<close> and \<open>frt_bitvector.c\<close>.

  \<^item> \<open>bitvector\<close> is \<open>FrtBitVector\<close>: \<open>bv_bits\<close> is the array \<open>bits\<close>, whose length is \<open>capa\<close>. Positions and
    sizes are natural numbers; \<open>curr_bit\<close> starts at \<open>-1\<close> and \<open>count\<close> is an \<open>int\<close>, as in the code. The
    reference count and the Ruby value are not modelled.
  \<^item> A vector that \<open>extends_as_ones\<close> stands for the set of its bits and of every position past its size.
  \<^item> The bulk operations may be given the same vector twice, so they work on a store of vectors \<open>bvs\<close>
    and read it again after each assignment, in the order of the macro \<open>FRT_BV_OP\<close>.
  \<^item> A read outside the array is \<open>UndefinedBehaviour\<close>. The words \<open>realloc\<close> adds are \<open>junk\<close>, an argument
    of the operations.
\<close>

section \<open>Bit counting of \<open>frt_global.h\<close>\<close>

definition frt_count_leading_zeros :: "u32 \<Rightarrow> nat" where
  "frt_count_leading_zeros w = length (takeWhile (\<lambda>n. \<not> bit w (31 - n)) [0..<32])"

definition frt_count_trailing_zeros :: "u32 \<Rightarrow> nat" where
  "frt_count_trailing_zeros w = length (takeWhile (\<lambda>n. \<not> bit w n) [0..<32])"

definition frt_count_trailing_ones :: "u32 \<Rightarrow> nat" where
  "frt_count_trailing_ones w = frt_count_trailing_zeros (NOT w)"

definition frt_count_ones :: "u32 \<Rightarrow> nat" where
  "frt_count_ones w = length (filter (bit w) [0..<32])"

definition frt_count_zeros :: "u32 \<Rightarrow> nat" where
  "frt_count_zeros w = frt_count_ones (NOT w)"

definition frt_round2 :: "nat \<Rightarrow> nat" where
  "frt_round2 n = 2 ^ (32 - frt_count_leading_zeros (of_nat n))"

definition FRT_TO_WORD :: "nat \<Rightarrow> nat" where
  "FRT_TO_WORD n = nat ((int n - 1) div 32 + 1)"

section \<open>One vector\<close>

record bitvector =
  bv_bits :: "u32 list"
  bv_size :: nat
  bv_count :: int
  bv_curr_bit :: int
  extends_as_ones :: bool

abbreviation bv_capa :: "bitvector \<Rightarrow> nat" where
  "bv_capa bv \<equiv> length (bv_bits bv)"

definition FRT_BV_INIT_CAPA :: nat where
  "FRT_BV_INIT_CAPA = 256"

definition frt_bv_new_capa :: "nat \<Rightarrow> bitvector" where
  "frt_bv_new_capa capa =
     \<lparr>bv_bits = replicate (max (FRT_TO_WORD capa) 4) 0, bv_size = 0, bv_count = 0, bv_curr_bit = - 1,
      extends_as_ones = False\<rparr>"

definition frt_bv_new :: bitvector where
  "frt_bv_new = frt_bv_new_capa FRT_BV_INIT_CAPA"

definition frt_bv_clear :: "bitvector \<Rightarrow> bitvector" where
  "frt_bv_clear bv =
     bv\<lparr>bv_bits := replicate (bv_capa bv) 0, extends_as_ones := False, bv_count := 0, bv_size := 0\<rparr>"

definition frt_bv_scan_reset :: "bitvector \<Rightarrow> bitvector" where
  "frt_bv_scan_reset bv = bv\<lparr>bv_curr_bit := - 1\<rparr>"

text \<open>The word \<open>memset\<close> fills in: all ones or all zeros.\<close>

definition ext_word :: "bool \<Rightarrow> u32" where
  "ext_word e = (if e then 0xFFFFFFFF else 0)"

text \<open>\<open>while (capa <= word) capa <<= 1\<close>; a capacity is never 0.\<close>

function grow_capa :: "nat \<Rightarrow> nat \<Rightarrow> nat" where
  "grow_capa word capa = (if 0 < capa \<and> capa \<le> word then grow_capa word (2 * capa) else capa)"
  by pat_completeness auto
termination by (relation "measure (\<lambda>(word, capa). Suc word - capa)") auto

declare grow_capa.simps [simp del]

definition bit_mask :: "nat \<Rightarrow> u32" where
  "bit_mask b = push_bit (b mod 32) 1"

definition frt_bv_set_value :: "bitvector \<Rightarrow> nat \<Rightarrow> bool \<Rightarrow> bitvector" where
  "frt_bv_set_value bv b v =
     (let word = b div 32;
          bitmask = bit_mask b;
          bv = (if b \<ge> bv_size bv then
                  (let bv = bv\<lparr>bv_size := b + 1\<rparr>
                   in if word \<ge> bv_capa bv then
                        (let capa = grow_capa word (2 * bv_capa bv)
                         in bv\<lparr>bv_bits := bv_bits bv @ replicate (capa - bv_capa bv) (ext_word (extends_as_ones bv))\<rparr>)
                      else bv)
                else bv);
          w = bv_bits bv ! word
      in if (bitmask AND w \<noteq> 0) \<noteq> v then
           (if v then bv\<lparr>bv_count := bv_count bv + 1, bv_bits := (bv_bits bv)[word := w OR bitmask]\<rparr>
            else bv\<lparr>bv_count := bv_count bv - 1, bv_bits := (bv_bits bv)[word := w AND NOT bitmask]\<rparr>)
         else bv)"

definition frt_bv_set :: "bitvector \<Rightarrow> nat \<Rightarrow> bitvector" where
  "frt_bv_set bv b = frt_bv_set_value bv b True"

definition frt_bv_unset :: "bitvector \<Rightarrow> nat \<Rightarrow> bitvector" where
  "frt_bv_unset bv b = frt_bv_set_value bv b False"

text \<open>\<open>frt_bv_set_fast\<close> does not grow the array.\<close>

definition frt_bv_set_fast :: "bitvector \<Rightarrow> nat \<Rightarrow> bitvector res" where
  "frt_bv_set_fast bv b =
     (if b div 32 < bv_capa bv then
        Inr (bv\<lparr>bv_count := bv_count bv + 1, bv_size := b + 1,
                bv_bits := (bv_bits bv)[b div 32 := (bv_bits bv ! (b div 32)) OR bit_mask b]\<rparr>)
      else Inl UndefinedBehaviour)"

definition frt_bv_get :: "bitvector \<Rightarrow> nat \<Rightarrow> bool" where
  "frt_bv_get bv b =
     (if b \<ge> bv_size bv then extends_as_ones bv
      else drop_bit (b mod 32) (bv_bits bv ! (b div 32)) AND 1 = 1)"

text \<open>The \<open>switch (extra)\<close> of \<open>frt_bv_recount\<close> falls through: \<open>extra\<close> bytes are counted, highest first.\<close>

definition recount_bytes :: "bool \<Rightarrow> nat \<Rightarrow> u32 \<Rightarrow> nat" where
  "recount_bytes ones extra w =
     (if ones then
        (if extra \<ge> 4 then frt_count_zeros (w OR 0x00ffffff) else 0) +
        (if extra \<ge> 3 then frt_count_zeros (w OR 0xff00ffff) else 0) +
        (if extra \<ge> 2 then frt_count_zeros (w OR 0xffff00ff) else 0) +
        (if extra \<ge> 1 then frt_count_zeros (w OR 0xffffff00) else 0)
      else
        (if extra \<ge> 4 then frt_count_ones (w AND 0xff000000) else 0) +
        (if extra \<ge> 3 then frt_count_ones (w AND 0x00ff0000) else 0) +
        (if extra \<ge> 2 then frt_count_ones (w AND 0x0000ff00) else 0) +
        (if extra \<ge> 1 then frt_count_ones (w AND 0x000000ff) else 0))"

definition frt_bv_recount :: "bitvector \<Rightarrow> bitvector res" where
  "frt_bv_recount bv =
     (let extra = (bv_size bv mod 32) div 8 + 1;
          len = bv_size bv div 32;
          count1 = (if extends_as_ones bv then frt_count_zeros else frt_count_ones);
          count = sum_list (map count1 (take len (bv_bits bv)))
      in if len < bv_capa bv then
           Inr (bv\<lparr>bv_count := int (count + recount_bytes (extends_as_ones bv) extra (bv_bits bv ! len))\<rparr>)
         else Inl UndefinedBehaviour)"

section \<open>Scanning\<close>

text \<open>The loop \<open>for (pos++; pos < word_size; ++pos)\<close>: the first word from \<open>pos\<close> on with a bit to report.\<close>

function scan_words :: "(u32 \<Rightarrow> bool) \<Rightarrow> u32 list \<Rightarrow> nat \<Rightarrow> nat \<Rightarrow> nat option" where
  "scan_words hit ws word_size pos =
     (if pos < word_size then (if hit (ws ! pos) then Some pos else scan_words hit ws word_size (pos + 1)) else None)"
  by pat_completeness auto
termination by (relation "measure (\<lambda>(hit, ws, word_size, pos). word_size - pos)") auto

declare scan_words.simps [simp del]

definition frt_bv_scan_next_from :: "bitvector \<Rightarrow> nat \<Rightarrow> (bitvector \<times> int) res" where
  "frt_bv_scan_next_from bv b =
     (let pos = b div 32
      in if pos < bv_capa bv then
           (let word = bv_bits bv ! pos;
                done = (\<lambda>pos word. let r = int (32 * pos + frt_count_trailing_zeros word)
                                    in Inr (bv\<lparr>bv_curr_bit := r\<rparr>, r))
            in if b \<ge> bv_size bv then Inr (bv, - 1)
               else let word = word AND push_bit (b mod 32) (NOT 0)
                    in if word \<noteq> 0 then done pos word
                       else (case scan_words (\<lambda>w. w \<noteq> 0) (bv_bits bv) (FRT_TO_WORD (bv_size bv)) (pos + 1) of
                               Some pos \<Rightarrow> done pos (bv_bits bv ! pos)
                             | None \<Rightarrow> Inr (bv, - 1)))
         else Inl UndefinedBehaviour)"

definition frt_bv_scan_next :: "bitvector \<Rightarrow> (bitvector \<times> int) res" where
  "frt_bv_scan_next bv = frt_bv_scan_next_from bv (nat (bv_curr_bit bv + 1))"

definition frt_bv_scan_next_unset_from :: "bitvector \<Rightarrow> nat \<Rightarrow> (bitvector \<times> int) res" where
  "frt_bv_scan_next_unset_from bv b =
     (let pos = b div 32
      in if pos < bv_capa bv then
           (let word = bv_bits bv ! pos;
                done = (\<lambda>pos word. let r = int (32 * pos + frt_count_trailing_ones word)
                                    in Inr (bv\<lparr>bv_curr_bit := r\<rparr>, r))
            in if b \<ge> bv_size bv then Inr (bv, - 1)
               else let word = word OR (push_bit (b mod 32) 1 - 1)
                    in if NOT word \<noteq> 0 then done pos word
                       else (case scan_words (\<lambda>w. NOT w \<noteq> 0) (bv_bits bv) (FRT_TO_WORD (bv_size bv)) (pos + 1) of
                               Some pos \<Rightarrow> done pos (bv_bits bv ! pos)
                             | None \<Rightarrow> Inr (bv, - 1)))
         else Inl UndefinedBehaviour)"

definition frt_bv_scan_next_unset :: "bitvector \<Rightarrow> (bitvector \<times> int) res" where
  "frt_bv_scan_next_unset bv = frt_bv_scan_next_unset_from bv (nat (bv_curr_bit bv + 1))"

section \<open>Comparison and hash\<close>

text \<open>\<open>bv1 == bv2\<close>, the test of the two pointers, is decided by the caller's \<open>same\<close>.\<close>

definition frt_bv_eq :: "bool \<Rightarrow> bitvector \<Rightarrow> bitvector \<Rightarrow> bool" where
  "frt_bv_eq same bv1 bv2 =
     (if same then True
      else if extends_as_ones bv1 \<noteq> extends_as_ones bv2 then False
      else
        (let min_size = min (bv_size bv1) (bv_size bv2);
             word_size = FRT_TO_WORD min_size;
             (bits, ext_word_size) =
               (if bv_size bv1 > min_size then (bv_bits bv1, FRT_TO_WORD (bv_size bv1))
                else if bv_size bv2 > min_size then (bv_bits bv2, FRT_TO_WORD (bv_size bv2))
                else (bv_bits bv1, 0));
             expected = ext_word (extends_as_ones bv1)
         in (\<forall>i \<in> set [0..<word_size]. bv_bits bv1 ! i = bv_bits bv2 ! i) \<and>
            (\<forall>i \<in> set [word_size..<ext_word_size]. bits ! i = expected)))"

text \<open>The loop of \<open>frt_bv_hash\<close> runs from the last word to the first: a fold from the right.\<close>

definition frt_bv_hash :: "bitvector \<Rightarrow> u64" where
  "frt_bv_hash bv =
     (let empty_word = ext_word (extends_as_ones bv);
          hash = foldr (\<lambda>word hash. if word \<noteq> empty_word then push_bit 1 hash XOR ucast word else hash)
                   (take (FRT_TO_WORD (bv_size bv)) (bv_bits bv)) 0
      in push_bit 1 hash OR (if extends_as_ones bv then 1 else 0))"

section \<open>Bulk operations\<close>

type_synonym bvs = "nat \<Rightarrow> bitvector"

definition frt_bv_capa :: "u32 list \<Rightarrow> bitvector \<Rightarrow> nat \<Rightarrow> nat \<Rightarrow> bitvector" where
  "frt_bv_capa junk bv capa sz =
     (let word_size = FRT_TO_WORD sz;
          bv = (if bv_capa bv < capa then
                  (let grown = bv_bits bv @ map (\<lambda>i. (junk @ replicate capa 0) ! i) [0..<capa - bv_capa bv]
                   in bv\<lparr>bv_bits := take word_size grown
                           @ replicate (capa - word_size) (ext_word (extends_as_ones bv))\<rparr>)
                else bv)
      in bv\<lparr>bv_size := sz\<rparr>)"

text \<open>The macros \<open>frt_bv_and_ext\<close>, \<open>frt_bv_or_ext\<close> and \<open>frt_bv_xor_ext\<close>: the words \<open>i..<max\<close> of \<open>dest\<close>.\<close>

definition frt_bv_and_ext :: "u32 list \<Rightarrow> u32 list \<Rightarrow> bool \<Rightarrow> nat \<Rightarrow> nat \<Rightarrow> u32 list" where
  "frt_bv_and_ext dest src ones i m =
     write_at dest i (if ones then take (m - i) (drop i src) else replicate (m - i) 0)"

definition frt_bv_or_ext :: "u32 list \<Rightarrow> u32 list \<Rightarrow> bool \<Rightarrow> nat \<Rightarrow> nat \<Rightarrow> u32 list" where
  "frt_bv_or_ext dest src ones i m =
     write_at dest i (if ones then replicate (m - i) 0xFFFFFFFF else take (m - i) (drop i src))"

definition frt_bv_xor_ext :: "u32 list \<Rightarrow> u32 list \<Rightarrow> bool \<Rightarrow> nat \<Rightarrow> nat \<Rightarrow> u32 list" where
  "frt_bv_xor_ext dest src ones i m =
     write_at dest i (map (\<lambda>w. w XOR (if ones then 0xFFFFFFFF else 0)) (take (m - i) (drop i src)))"

text \<open>\<open>for (i = 0; i < min_word_size; ++i) bv->bits[i] = a->bits[i] op b->bits[i]\<close>\<close>

fun bv_op_loop :: "(u32 \<Rightarrow> u32 \<Rightarrow> u32) \<Rightarrow> nat \<Rightarrow> nat \<Rightarrow> nat \<Rightarrow> nat \<Rightarrow> nat \<Rightarrow> bvs \<Rightarrow> bvs" where
  "bv_op_loop f bv a b i 0 h = h"
| "bv_op_loop f bv a b i (Suc n) h =
     bv_op_loop f bv a b (i + 1) n
       (h(bv := (h bv)\<lparr>bv_bits := (bv_bits (h bv))[i := f (bv_bits (h a) ! i) (bv_bits (h b) ! i)]\<rparr>))"

definition FRT_BV_OP ::
  "(u32 \<Rightarrow> u32 \<Rightarrow> u32) \<Rightarrow> (bool \<Rightarrow> bool \<Rightarrow> bool) \<Rightarrow> (u32 list \<Rightarrow> u32 list \<Rightarrow> bool \<Rightarrow> nat \<Rightarrow> nat \<Rightarrow> u32 list)
     \<Rightarrow> u32 list \<Rightarrow> bvs \<Rightarrow> nat \<Rightarrow> nat \<Rightarrow> nat \<Rightarrow> bvs res" where
  "FRT_BV_OP f fb ext_cb junk h bv a b =
     (let a_wsz = FRT_TO_WORD (bv_size (h a));
          b_wsz = FRT_TO_WORD (bv_size (h b));
          max_size = max (bv_size (h a)) (bv_size (h b));
          min_size = min (bv_size (h a)) (bv_size (h b));
          max_word_size = FRT_TO_WORD max_size;
          min_word_size = FRT_TO_WORD min_size;
          capa = max (frt_round2 max_word_size) 4;
          h = h(bv := (h bv)\<lparr>extends_as_ones := fb (extends_as_ones (h a)) (extends_as_ones (h b))\<rparr>);
          h = h(bv := frt_bv_capa junk (h bv) capa max_size);
          h = bv_op_loop f bv a b 0 min_word_size h;
          h = (if a_wsz \<noteq> b_wsz then
                 (let (bits, ones) = (if a_wsz < b_wsz then (bv_bits (h b), extends_as_ones (h a))
                                      else (bv_bits (h a), extends_as_ones (h b)))
                  in h(bv := (h bv)\<lparr>bv_bits := ext_cb (bv_bits (h bv)) bits ones min_word_size max_word_size\<rparr>))
               else h)
      in ebind (frt_bv_recount (h bv)) (\<lambda>r. Inr (h(bv := r))))"

definition frt_bv_and_i :: "u32 list \<Rightarrow> bvs \<Rightarrow> nat \<Rightarrow> nat \<Rightarrow> nat \<Rightarrow> bvs res" where
  "frt_bv_and_i = FRT_BV_OP (AND) (\<and>) frt_bv_and_ext"

definition frt_bv_or_i :: "u32 list \<Rightarrow> bvs \<Rightarrow> nat \<Rightarrow> nat \<Rightarrow> nat \<Rightarrow> bvs res" where
  "frt_bv_or_i = FRT_BV_OP (OR) (\<or>) frt_bv_or_ext"

definition frt_bv_xor_i :: "u32 list \<Rightarrow> bvs \<Rightarrow> nat \<Rightarrow> nat \<Rightarrow> nat \<Rightarrow> bvs res" where
  "frt_bv_xor_i = FRT_BV_OP (XOR) (\<noteq>) frt_bv_xor_ext"

definition frt_bv_not_i :: "u32 list \<Rightarrow> bvs \<Rightarrow> nat \<Rightarrow> nat \<Rightarrow> bvs res" where
  "frt_bv_not_i junk h bv bv1 =
     (let word_size = FRT_TO_WORD (bv_size (h bv1));
          capa = max (frt_round2 word_size) 4;
          h = h(bv := (h bv)\<lparr>extends_as_ones := \<not> extends_as_ones (h bv1)\<rparr>);
          h = h(bv := frt_bv_capa junk (h bv) capa (bv_size (h bv1)));
          h = bv_op_loop (\<lambda>w _. NOT w) bv bv1 bv1 0 word_size h;
          h = h(bv := (h bv)\<lparr>bv_bits := take word_size (bv_bits (h bv))
                 @ replicate (bv_capa (h bv) - word_size) (ext_word (extends_as_ones (h bv)))\<rparr>)
      in ebind (frt_bv_recount (h bv)) (\<lambda>r. Inr (h(bv := r))))"

text \<open>The variants that allocate their result, at the reference \<open>r\<close>, and those that overwrite the first operand.\<close>

definition frt_bv_and :: "u32 list \<Rightarrow> bvs \<Rightarrow> nat \<Rightarrow> nat \<Rightarrow> nat \<Rightarrow> bvs res" where
  "frt_bv_and junk h r bv1 bv2 = frt_bv_and_i junk (h(r := frt_bv_new)) r bv1 bv2"

definition frt_bv_or :: "u32 list \<Rightarrow> bvs \<Rightarrow> nat \<Rightarrow> nat \<Rightarrow> nat \<Rightarrow> bvs res" where
  "frt_bv_or junk h r bv1 bv2 = frt_bv_or_i junk (h(r := frt_bv_new)) r bv1 bv2"

definition frt_bv_xor :: "u32 list \<Rightarrow> bvs \<Rightarrow> nat \<Rightarrow> nat \<Rightarrow> nat \<Rightarrow> bvs res" where
  "frt_bv_xor junk h r bv1 bv2 = frt_bv_xor_i junk (h(r := frt_bv_new)) r bv1 bv2"

definition frt_bv_not :: "u32 list \<Rightarrow> bvs \<Rightarrow> nat \<Rightarrow> nat \<Rightarrow> bvs res" where
  "frt_bv_not junk h r bv = frt_bv_not_i junk (h(r := frt_bv_new)) r bv"

definition frt_bv_and_x :: "u32 list \<Rightarrow> bvs \<Rightarrow> nat \<Rightarrow> nat \<Rightarrow> bvs res" where
  "frt_bv_and_x junk h bv1 bv2 = frt_bv_and_i junk h bv1 bv1 bv2"

definition frt_bv_or_x :: "u32 list \<Rightarrow> bvs \<Rightarrow> nat \<Rightarrow> nat \<Rightarrow> bvs res" where
  "frt_bv_or_x junk h bv1 bv2 = frt_bv_or_i junk h bv1 bv1 bv2"

definition frt_bv_xor_x :: "u32 list \<Rightarrow> bvs \<Rightarrow> nat \<Rightarrow> nat \<Rightarrow> bvs res" where
  "frt_bv_xor_x junk h bv1 bv2 = frt_bv_xor_i junk h bv1 bv1 bv2"

definition frt_bv_not_x :: "u32 list \<Rightarrow> bvs \<Rightarrow> nat \<Rightarrow> bvs res" where
  "frt_bv_not_x junk h bv = frt_bv_not_i junk h bv bv"

end
