(* ===== verification/FrtBitVectorLaws.thy ===== *)
theory FrtBitVectorLaws
  imports FrtBitVector
begin

text \<open>
  What the bit vectors of \<open>FrtBitVector\<close> compute.

  \<^item> \<open>bit_at\<close> numbers the bits of an array of words. \<open>bv_wf\<close>: the unused bits of the last word in use
    equal the extension; \<open>bv_ok\<close>: so do all the words behind it, which is what growing relies on.
  \<^item> Setting and clearing change one position of \<open>frt_bv_get\<close>; the count of a vector that does not
    extend as ones is the number of its bits; scanning finds the next bit; \<open>frt_bv_eq\<close> decides equality
    of the sets, and equal vectors have equal hashes.
  \<^item> \<open>bv_op\<close> is what \<open>FRT_BV_OP\<close> needs of its operators; under it the operation on a fresh result computes
    the operator at every position.
\<close>

section \<open>Words and positions\<close>

lemma FRT_TO_WORD_eq: "FRT_TO_WORD n = (n + 31) div 32"
proof -
  have "(int n - 1) div 32 + 1 = int ((n + 31) div 32)" by (simp add: zdiv_int)
  then show ?thesis by (simp add: FRT_TO_WORD_def)
qed

lemma to_word_bounds: "n \<le> 32 * FRT_TO_WORD n" "n div 32 \<le> FRT_TO_WORD n" "i < n \<Longrightarrow> i div 32 < FRT_TO_WORD n"
  by (auto simp: FRT_TO_WORD_eq)

lemma to_word_mono: "m \<le> n \<Longrightarrow> FRT_TO_WORD m \<le> FRT_TO_WORD n"
  by (simp add: FRT_TO_WORD_eq div_le_mono)

lemma to_word_le: "n \<le> 32 * k \<Longrightarrow> FRT_TO_WORD n \<le> k"
  by (simp add: FRT_TO_WORD_eq)

definition bit_at :: "u32 list \<Rightarrow> nat \<Rightarrow> bool" where
  "bit_at ws i = bit (ws ! (i div 32)) (i mod 32)"

lemma bit_at_update:
  "i div 32 < length ws \<Longrightarrow> bit_at (ws[j := w]) i = (if i div 32 = j then bit w (i mod 32) else bit_at ws i)"
  by (auto simp: bit_at_def nth_list_update)

lemma bit_at_append: "i div 32 < length ws \<Longrightarrow> bit_at (ws @ vs) i = bit_at ws i"
  by (simp add: bit_at_def nth_append)

lemma bit_ext_word [simp]: "k < 32 \<Longrightarrow> bit (ext_word e) k = e"
proof -
  have "(0xFFFFFFFF :: u32) = NOT 0" by simp
  then show "k < 32 \<Longrightarrow> bit (ext_word e) k = e" by (simp only: ext_word_def bit_simps split: if_splits) simp
qed

lemma bit_mask_bit [simp]: "bit (bit_mask b) k \<longleftrightarrow> k = b mod 32"
  by (auto simp: bit_mask_def bit_simps)

lemma and_bit_mask: "bit_mask b AND w \<noteq> 0 \<longleftrightarrow> bit w (b mod 32)"
proof
  assume "bit_mask b AND w \<noteq> 0"
  show "bit w (b mod 32)"
  proof (rule ccontr)
    assume "\<not> bit w (b mod 32)"
    then have "bit_mask b AND w = 0" by (intro bit_word_eqI) (auto simp: bit_and_iff)
    with \<open>bit_mask b AND w \<noteq> 0\<close> show False by simp
  qed
next
  assume "bit w (b mod 32)"
  then have "bit (bit_mask b AND w) (b mod 32)" by (simp add: bit_and_iff)
  then show "bit_mask b AND w \<noteq> 0" by auto
qed

section \<open>The invariant\<close>

definition bv_wf :: "bitvector \<Rightarrow> bool" where
  "bv_wf bv \<longleftrightarrow> bv_size bv < 2 ^ 31 \<and> bv_size bv \<le> 32 * bv_capa bv \<and>
     (\<forall>i. bv_size bv \<le> i \<longrightarrow> i < 32 * FRT_TO_WORD (bv_size bv) \<longrightarrow> bit_at (bv_bits bv) i = extends_as_ones bv)"

definition bv_ok :: "bitvector \<Rightarrow> bool" where
  "bv_ok bv \<longleftrightarrow> 0 < bv_capa bv \<and> bv_size bv < 2 ^ 31 \<and> bv_size bv \<le> 32 * bv_capa bv \<and>
     (\<forall>i. bv_size bv \<le> i \<longrightarrow> i < 32 * bv_capa bv \<longrightarrow> bit_at (bv_bits bv) i = extends_as_ones bv)"

lemma bv_ok_wf: "bv_ok bv \<Longrightarrow> bv_wf bv"
  using to_word_le[of "bv_size bv" "bv_capa bv"] by (auto simp: bv_ok_def bv_wf_def)

lemma frt_bv_get_bit:
  "frt_bv_get bv i = (if bv_size bv \<le> i then extends_as_ones bv else bit_at (bv_bits bv) i)"
  by (simp add: frt_bv_get_def bit_at_def bit_iff_odd_drop_bit and_one_eq odd_iff_mod_2_eq_one)

lemma bv_wf_get:
  "bv_wf bv \<Longrightarrow> i < 32 * FRT_TO_WORD (bv_size bv) \<Longrightarrow> bit_at (bv_bits bv) i = frt_bv_get bv i"
  by (simp add: bv_wf_def frt_bv_get_bit)

lemma bv_ok_get: "bv_ok bv \<Longrightarrow> i < 32 * bv_capa bv \<Longrightarrow> bit_at (bv_bits bv) i = frt_bv_get bv i"
  by (simp add: bv_ok_def frt_bv_get_bit)

lemma bv_wfI:
  "bv_size bv < 2 ^ 31 \<Longrightarrow> bv_size bv \<le> 32 * bv_capa bv \<Longrightarrow>
   (\<And>i. bv_size bv \<le> i \<Longrightarrow> i < 32 * FRT_TO_WORD (bv_size bv) \<Longrightarrow> bit_at (bv_bits bv) i = extends_as_ones bv)
   \<Longrightarrow> bv_wf bv"
  by (simp add: bv_wf_def)

lemma bit_at_replicate: "i < 32 * n \<Longrightarrow> bit_at (replicate n (ext_word e)) i = e"
  by (simp add: bit_at_def less_mult_imp_div_less mult.commute)

lemma bit_at_zeros [simp]: "i < 32 * n \<Longrightarrow> \<not> bit_at (replicate n 0) i"
  by (simp add: bit_at_def less_mult_imp_div_less mult.commute)

lemma frt_bv_new_capa_ok:
  "bv_ok (frt_bv_new_capa n)" "\<not> frt_bv_get (frt_bv_new_capa n) i" "\<not> extends_as_ones (frt_bv_new_capa n)"
  by (simp_all add: bv_ok_def frt_bv_new_capa_def frt_bv_get_def)

lemma frt_bv_clear_ok:
  "0 < bv_capa bv \<Longrightarrow> bv_ok (frt_bv_clear bv)" "\<not> frt_bv_get (frt_bv_clear bv) i"
  by (simp_all add: bv_ok_def frt_bv_clear_def frt_bv_get_def)

section \<open>Setting and clearing\<close>

lemma grow_capa_gt: "0 < capa \<Longrightarrow> word < grow_capa word capa \<and> capa \<le> grow_capa word capa"
proof (induction word capa rule: grow_capa.induct)
  case (1 word capa)
  then show ?case by (subst (1 2) grow_capa.simps) auto
qed

text \<open>The vector \<open>frt_bv_set_value\<close> writes into, after it made room for the position.\<close>

definition bv_reach :: "bitvector \<Rightarrow> nat \<Rightarrow> bitvector" where
  "bv_reach bv b =
     (if b \<ge> bv_size bv then
        (let bv = bv\<lparr>bv_size := b + 1\<rparr>
         in if b div 32 \<ge> bv_capa bv then
              (let capa = grow_capa (b div 32) (2 * bv_capa bv)
               in bv\<lparr>bv_bits := bv_bits bv @ replicate (capa - bv_capa bv) (ext_word (extends_as_ones bv))\<rparr>)
            else bv)
      else bv)"

lemma frt_bv_set_value_reach:
  "frt_bv_set_value bv b v =
     (let bv = bv_reach bv b; w = bv_bits bv ! (b div 32)
      in if bit w (b mod 32) \<noteq> v then
           (if v then bv\<lparr>bv_count := bv_count bv + 1, bv_bits := (bv_bits bv)[b div 32 := w OR bit_mask b]\<rparr>
            else bv\<lparr>bv_count := bv_count bv - 1, bv_bits := (bv_bits bv)[b div 32 := w AND NOT (bit_mask b)]\<rparr>)
         else bv)"
  unfolding frt_bv_set_value_def Let_def bv_reach_def and_bit_mask by (rule refl)

lemma bv_reach_ok:
  assumes ok: "bv_ok bv" and b: "b + 1 < 2 ^ 31"
  shows "bv_ok (bv_reach bv b)" "b div 32 < bv_capa (bv_reach bv b)" "frt_bv_get (bv_reach bv b) = frt_bv_get bv"
    "bv_size (bv_reach bv b) = max (bv_size bv) (b + 1)" "bv_count (bv_reach bv b) = bv_count bv"
    "extends_as_ones (bv_reach bv b) = extends_as_ones bv"
proof -
  let ?r = "bv_reach bv b" and ?n = "bv_capa bv"
  have n: "0 < ?n" using ok by (simp add: bv_ok_def)
  have size_r: "bv_size ?r = max (bv_size bv) (b + 1)" and ext_r: "extends_as_ones ?r = extends_as_ones bv"
    by (simp_all add: bv_reach_def Let_def)
  have capa: "b div 32 < bv_capa ?r \<and> ?n \<le> bv_capa ?r"
  proof (cases "bv_size bv \<le> b \<and> ?n \<le> b div 32")
    case True
    then show ?thesis using n grow_capa_gt[of "2 * ?n" "b div 32"] by (simp add: bv_reach_def Let_def)
  next
    case False
    have "b div 32 < ?n"
    proof (cases "bv_size bv \<le> b")
      case True then show ?thesis using False by simp
    next
      case small: False
      have "bv_size bv \<le> 32 * ?n" using ok by (simp add: bv_ok_def)
      then show ?thesis using small by linarith
    qed
    then show ?thesis by (auto simp: bv_reach_def Let_def)
  qed
  have bits: "bit_at (bv_bits ?r) i = (if i div 32 < ?n then bit_at (bv_bits bv) i else extends_as_ones bv)"
    if "i < 32 * bv_capa ?r" for i
    using that by (auto simp: bv_reach_def Let_def bit_at_def nth_append less_mult_imp_div_less mult.commute
        split: if_splits)
  have get: "frt_bv_get bv i = (if i div 32 < ?n then bit_at (bv_bits bv) i else extends_as_ones bv)" for i
  proof (cases "i < bv_size bv")
    case True
    then have "i div 32 < ?n" using ok by (simp add: bv_ok_def) linarith
    then show ?thesis using True by (simp add: frt_bv_get_bit)
  next
    case False
    have "i div 32 < ?n \<longleftrightarrow> i < 32 * ?n" by linarith
    then show ?thesis using False ok by (simp add: frt_bv_get_bit bv_ok_def)
  qed
  show "b div 32 < bv_capa ?r" "bv_size ?r = max (bv_size bv) (b + 1)"
    "extends_as_ones ?r = extends_as_ones bv" "bv_count ?r = bv_count bv"
    using capa size_r ext_r by (simp_all add: bv_reach_def Let_def)
  show "frt_bv_get ?r = frt_bv_get bv"
  proof
    fix i
    show "frt_bv_get ?r i = frt_bv_get bv i"
    proof (cases "i < max (bv_size bv) (b + 1)")
      case True
      have "i < 32 * bv_capa ?r"
      proof (cases "i < bv_size bv")
        case True then show ?thesis using ok capa by (simp add: bv_ok_def)
      next
        case False
        then have "i \<le> b" using \<open>i < max (bv_size bv) (b + 1)\<close> by auto
        then show ?thesis using capa by linarith
      qed
      moreover have "\<not> bv_size ?r \<le> i" using True size_r by linarith
      ultimately show ?thesis
        by (simp only: frt_bv_get_bit[of ?r] bits get[of i] if_False)
    next
      case False
      then have "bv_size ?r \<le> i" "bv_size bv \<le> i" using size_r by linarith+
      then show ?thesis using ext_r by (simp add: frt_bv_get_bit)
    qed
  qed
  then have "bit_at (bv_bits ?r) i = extends_as_ones ?r" if "bv_size ?r \<le> i" "i < 32 * bv_capa ?r" for i
    using that bits get[of i] ext_r size_r by (auto simp: frt_bv_get_bit)
  moreover have "bv_size ?r \<le> 32 * bv_capa ?r" "bv_size ?r < 2 ^ 31" "0 < bv_capa ?r"
    using ok b capa size_r by (auto simp: bv_ok_def)
  ultimately show "bv_ok ?r"
    unfolding bv_ok_def by blast
qed

lemma frt_bv_set_value_ok:
  assumes ok: "bv_ok bv" and b: "b + 1 < 2 ^ 31"
  shows "bv_ok (frt_bv_set_value bv b v)"
    "frt_bv_get (frt_bv_set_value bv b v) = (frt_bv_get bv)(b := v)"
    "extends_as_ones (frt_bv_set_value bv b v) = extends_as_ones bv"
    "bv_size (frt_bv_set_value bv b v) = max (bv_size bv) (b + 1)"
    "bv_count (frt_bv_set_value bv b v) =
       bv_count bv + (if v \<and> \<not> frt_bv_get bv b then 1 else if \<not> v \<and> frt_bv_get bv b then - 1 else 0)"
proof -
  let ?r = "bv_reach bv b" and ?s = "frt_bv_set_value bv b v"
  note r = bv_reach_ok[OF ok b]
  define w where "w = bv_bits ?r ! (b div 32)"
  define w' where "w' = (if v then w OR bit_mask b else w AND NOT (bit_mask b))"
  have old: "bit w (b mod 32) = frt_bv_get bv b"
    using r(4) by (simp add: w_def r(3)[symmetric] frt_bv_get_bit[of ?r] bit_at_def)
  have bit_w': "bit w' k = (if k = b mod 32 then v else bit w k)" if "k < 32" for k
    using that by (auto simp: w'_def bit_simps)
  have eq: "?s = ?r\<lparr>bv_bits := (bv_bits ?r)[b div 32 := w'],
     bv_count := bv_count bv + (if v \<and> \<not> frt_bv_get bv b then 1 else if \<not> v \<and> frt_bv_get bv b then - 1 else 0)\<rparr>"
  proof (cases "bit w (b mod 32) = v")
    case True
    have "w' = w"
      by (rule bit_word_eqI) (use True bit_w' in auto)
    then show ?thesis
      using True r(5) old by (simp add: frt_bv_set_value_reach w_def[symmetric] Let_def) (simp add: w_def)
  next
    case False
    then show ?thesis
      using r(5) old by (auto simp: frt_bv_set_value_reach w_def[symmetric] w'_def Let_def)
  qed
  then show "extends_as_ones ?s = extends_as_ones bv" "bv_size ?s = max (bv_size bv) (b + 1)"
    "bv_count ?s = bv_count bv + (if v \<and> \<not> frt_bv_get bv b then 1 else if \<not> v \<and> frt_bv_get bv b then - 1 else 0)"
    using r(4-6) by simp_all
  have at_s: "bit_at (bv_bits ?s) i = (if i = b then v else bit_at (bv_bits ?r) i)" if "i < 32 * bv_capa ?r" for i
  proof -
    have "i div 32 = b div 32 \<and> i mod 32 = b mod 32 \<longleftrightarrow> i = b" by (metis div_mult_mod_eq)
    moreover have "bit_at (bv_bits ?s) i =
        (if i div 32 = b div 32 then bit w' (i mod 32) else bit_at (bv_bits ?r) i)"
      using that eq by (simp add: bit_at_update less_mult_imp_div_less mult.commute)
    ultimately show ?thesis
      using bit_w'[of "i mod 32"] by (auto simp: bit_at_def w_def)
  qed
  show "frt_bv_get ?s = (frt_bv_get bv)(b := v)"
  proof
    fix i
    have "i < 32 * bv_capa ?r" if "i < bv_size ?r"
      using r(1) that by (simp add: bv_ok_def)
    then show "frt_bv_get ?s i = ((frt_bv_get bv)(b := v)) i"
      using at_s[of i] eq r(3,4,6) by (auto simp: frt_bv_get_bit fun_eq_iff max_def split: if_splits)
  qed
  show "bv_ok ?s"
    using r(1,2,4) at_s eq by (auto simp: bv_ok_def)
qed

section \<open>Scanning\<close>

lemma frt_count_trailing_zeros_ok:
  assumes "w \<noteq> 0"
  shows "frt_count_trailing_zeros w < 32" "bit w (frt_count_trailing_zeros w)"
    "k < frt_count_trailing_zeros w \<Longrightarrow> \<not> bit w k"
proof -
  let ?t = "takeWhile (\<lambda>n. \<not> bit w n) [0..<32]"
  obtain k where k: "k < 32" "bit w k"
    using assms bit_word_eqI[of w 0] by auto
  have "\<not> k < length ?t"
    using k takeWhile_nth[of k "\<lambda>n. \<not> bit w n" "[0..<32]"] nth_mem[of k ?t] by (auto dest: set_takeWhileD)
  then have "length ?t \<noteq> 32" using k(1) by auto
  then show lt: "frt_count_trailing_zeros w < 32"
    using length_takeWhile_le[of "\<lambda>n. \<not> bit w n" "[0..<32]"] by (simp add: frt_count_trailing_zeros_def)
  then show "bit w (frt_count_trailing_zeros w)"
    using nth_length_takeWhile[of "\<lambda>n. \<not> bit w n" "[0..<32]"] by (simp add: frt_count_trailing_zeros_def)
  show "\<not> bit w k" if "k < frt_count_trailing_zeros w" for k
  proof -
    have "?t ! k \<in> set ?t" using that by (simp add: frt_count_trailing_zeros_def)
    then have "\<not> bit w (?t ! k)" by (auto dest: set_takeWhileD)
    then show ?thesis using that lt by (simp add: frt_count_trailing_zeros_def takeWhile_nth)
  qed
qed

lemma scan_words_ok:
  "case scan_words hit ws n pos of
     Some p \<Rightarrow> pos \<le> p \<and> p < n \<and> hit (ws ! p) \<and> (\<forall>q. pos \<le> q \<longrightarrow> q < p \<longrightarrow> \<not> hit (ws ! q))
   | None \<Rightarrow> \<forall>q. pos \<le> q \<longrightarrow> q < n \<longrightarrow> \<not> hit (ws ! q)"
proof (induction hit ws n pos rule: scan_words.induct)
  case (1 hit ws n pos)
  show ?case
  proof (cases "pos < n \<and> \<not> hit (ws ! pos)")
    case True
    have le: "pos \<le> q \<longleftrightarrow> q = pos \<or> pos + 1 \<le> q" for q by auto
    show ?thesis
      using True 1 by (subst scan_words.simps) (auto split: option.splits simp: le)
  next
    case False
    then show ?thesis by (subst scan_words.simps) auto
  qed
qed

text \<open>The algorithm of both scans: \<open>f\<close> is the identity for the set bits and \<open>NOT\<close> for the clear ones.\<close>

definition scan_bits :: "(u32 \<Rightarrow> u32) \<Rightarrow> u32 list \<Rightarrow> nat \<Rightarrow> nat \<Rightarrow> nat option" where
  "scan_bits f ws n b =
     (let word = f (ws ! (b div 32)) AND push_bit (b mod 32) (NOT 0)
      in if word \<noteq> 0 then Some (32 * (b div 32) + frt_count_trailing_zeros word)
         else map_option (\<lambda>p. 32 * p + frt_count_trailing_zeros (f (ws ! p)))
                (scan_words (\<lambda>w. f w \<noteq> 0) ws n (b div 32 + 1)))"

lemma bit_from: "k < 32 \<Longrightarrow> bit (w AND push_bit (b mod 32) (NOT 0) :: u32) k \<longleftrightarrow> bit w k \<and> b mod 32 \<le> k"
  by (auto simp: bit_simps)

lemma pos_split: "(i :: nat) = 32 * (i div 32) + i mod 32"
  by simp

lemma scan_bits_ok:
  defines "P \<equiv> \<lambda>f ws i. bit (f (ws ! (i div 32)) :: u32) (i mod 32)"
  shows "case scan_bits f ws n b of
     Some r \<Rightarrow> b \<le> r \<and> P f ws r \<and> (\<forall>i. b \<le> i \<longrightarrow> i < r \<longrightarrow> \<not> P f ws i) \<and> (b div 32 < n \<longrightarrow> r div 32 < n)
   | None \<Rightarrow> \<forall>i. b \<le> i \<longrightarrow> i < 32 * n \<longrightarrow> \<not> P f ws i"
proof -
  define w where "w = f (ws ! (b div 32)) AND push_bit (b mod 32) (NOT 0)"
  have sb: "scan_bits f ws n b =
     (if w \<noteq> 0 then Some (32 * (b div 32) + frt_count_trailing_zeros w)
      else map_option (\<lambda>p. 32 * p + frt_count_trailing_zeros (f (ws ! p)))
             (scan_words (\<lambda>w. f w \<noteq> 0) ws n (b div 32 + 1)))"
    unfolding scan_bits_def w_def Let_def by (rule refl)
  have w: "P f ws i" if "bit w (i mod 32)" "i div 32 = b div 32" for i
    using that by (simp only: w_def P_def bit_from mod_less_divisor zero_less_numeral)
  have w': "bit w (i mod 32)" if "P f ws i" "i div 32 = b div 32" "b \<le> i" for i
  proof -
    have "b mod 32 \<le> i mod 32" using that(2,3) by (metis pos_split nat_add_left_cancel_le)
    then show ?thesis using that by (simp only: w_def P_def bit_from mod_less_divisor zero_less_numeral)
  qed
  show ?thesis
  proof (cases "w = 0")
    case False
    let ?k = "frt_count_trailing_zeros w"
    note k = frt_count_trailing_zeros_ok[OF False]
    have "b mod 32 \<le> ?k" using k(2) bit_from[OF k(1)] by (simp only: w_def)
    then have b: "b \<le> 32 * (b div 32) + ?k" using pos_split[of b] by linarith
    have r: "(32 * (b div 32) + ?k) div 32 = b div 32" "(32 * (b div 32) + ?k) mod 32 = ?k"
      using k(1) by auto
    have "\<not> P f ws i" if "b \<le> i" "i < 32 * (b div 32) + ?k" for i
    proof
      assume "P f ws i"
      have "i div 32 = b div 32" using that k(1) by linarith
      with w'[OF \<open>P f ws i\<close> this that(1)] that(2) k(3)[of "i mod 32"] show False
        by (metis pos_split nat_add_left_cancel_less)
    qed
    then show ?thesis
      using False b r w[of "32 * (b div 32) + ?k"] k(2) by (simp add: sb)
  next
    case True
    then have first: "\<not> P f ws i" if "b \<le> i" "i div 32 = b div 32" for i
      using w'[of i] that by auto
    have zero: "\<not> P f ws i" if "f (ws ! (i div 32)) = 0" for i
      using that by (simp add: P_def)
    note sw = scan_words_ok[where hit = "\<lambda>w. f w \<noteq> 0" and ws = ws and n = n and pos = "b div 32 + 1"]
    show ?thesis
    proof (cases "scan_words (\<lambda>w. f w \<noteq> 0) ws n (b div 32 + 1)")
      case None
      have "\<not> P f ws i" if "b \<le> i" "i < 32 * n" for i
      proof (cases "i div 32 = b div 32")
        case False
        then have "b div 32 + 1 \<le> i div 32" using div_le_mono[OF that(1), of 32] by simp
        moreover have "i div 32 < n" using that(2) by (simp add: less_mult_imp_div_less mult.commute)
        ultimately have "f (ws ! (i div 32)) = 0" using sw None by auto
        then show ?thesis by (rule zero)
      qed (use first that in auto)
      then show ?thesis using True None by (simp add: sb)
    next
      case (Some p)
      let ?k = "frt_count_trailing_zeros (f (ws ! p))"
      have p: "b div 32 < p" "p < n" "f (ws ! p) \<noteq> 0"
        and before: "\<And>q. b div 32 + 1 \<le> q \<Longrightarrow> q < p \<Longrightarrow> f (ws ! q) = 0"
        using sw Some by auto
      note k = frt_count_trailing_zeros_ok[OF p(3)]
      have r: "(32 * p + ?k) div 32 = p" "(32 * p + ?k) mod 32 = ?k" using k(1) by auto
      have b: "b \<le> 32 * p + ?k" using p(1) by linarith
      have "\<not> P f ws i" if "b \<le> i" "i < 32 * p + ?k" for i
      proof -
        have "b div 32 \<le> i div 32" "i div 32 \<le> p" using that k(1) by linarith+
        then consider "i div 32 = b div 32" | "b div 32 + 1 \<le> i div 32" "i div 32 < p" | "i div 32 = p"
          by linarith
        then show ?thesis
        proof cases
          case 1 then show ?thesis using first that by auto
        next
          case 2 then show ?thesis using before zero by auto
        next
          case 3
          then have "i mod 32 < ?k" using that(2) pos_split[of i] by linarith
          then show ?thesis using k(3) 3 by (simp add: P_def)
        qed
      qed
      moreover have "P f ws (32 * p + ?k)" using r k(2) by (simp add: P_def)
      ultimately show ?thesis
        using True Some b r p(2) by (simp add: sb)
    qed
  qed
qed

lemma frt_bv_scan_next_from_eq:
  assumes "b < bv_size bv" "bv_size bv \<le> 32 * bv_capa bv"
  shows "frt_bv_scan_next_from bv b =
     (case scan_bits (\<lambda>w. w) (bv_bits bv) (FRT_TO_WORD (bv_size bv)) b of
        Some r \<Rightarrow> Inr (bv\<lparr>bv_curr_bit := int r\<rparr>, int r) | None \<Rightarrow> Inr (bv, - 1))"
proof -
  have "b div 32 < bv_capa bv" "\<not> bv_size bv \<le> b" using assms by linarith+
  then show ?thesis
    unfolding frt_bv_scan_next_from_def scan_bits_def Let_def
    by (auto split: option.splits)
qed

lemma not_or_mask: "NOT (w OR (push_bit n 1 - 1)) = (NOT w AND push_bit n (NOT 0) :: u32)"
  by (rule bit_word_eqI) (simp add: bit_simps push_bit_minus_one_eq_not_mask flip: mask_eq_exp_minus_1)

lemma frt_bv_scan_next_unset_from_eq:
  assumes "b < bv_size bv" "bv_size bv \<le> 32 * bv_capa bv"
  shows "frt_bv_scan_next_unset_from bv b =
     (case scan_bits (\<lambda>w. NOT w) (bv_bits bv) (FRT_TO_WORD (bv_size bv)) b of
        Some r \<Rightarrow> Inr (bv\<lparr>bv_curr_bit := int r\<rparr>, int r) | None \<Rightarrow> Inr (bv, - 1))"
proof -
  have "b div 32 < bv_capa bv" "\<not> bv_size bv \<le> b" using assms by linarith+
  then show ?thesis
    unfolding frt_bv_scan_next_unset_from_def scan_bits_def frt_count_trailing_ones_def Let_def not_or_mask
    by (auto split: option.splits)
qed

lemma frt_bv_scan_next_from_ok:
  assumes wf: "bv_wf bv" and ext: "\<not> extends_as_ones bv" and b: "b div 32 < bv_capa bv"
  shows "(\<exists>r. frt_bv_scan_next_from bv b = Inr (bv\<lparr>bv_curr_bit := int r\<rparr>, int r) \<and> b \<le> r \<and>
            frt_bv_get bv r \<and> (\<forall>i. b \<le> i \<longrightarrow> i < r \<longrightarrow> \<not> frt_bv_get bv i)) \<or>
         (frt_bv_scan_next_from bv b = Inr (bv, - 1) \<and> (\<forall>i. b \<le> i \<longrightarrow> \<not> frt_bv_get bv i))"
proof (cases "b < bv_size bv")
  case False
  then show ?thesis using ext b by (simp add: frt_bv_scan_next_from_def Let_def frt_bv_get_bit)
next
  case True
  let ?n = "FRT_TO_WORD (bv_size bv)"
  have size: "bv_size bv \<le> 32 * bv_capa bv" using wf by (simp add: bv_wf_def)
  have get: "bit (bv_bits bv ! (i div 32)) (i mod 32) = frt_bv_get bv i" if "i < 32 * ?n" for i
    using bv_wf_get[OF wf that] by (simp add: bit_at_def)
  have out: "\<not> frt_bv_get bv i" if "\<not> i < 32 * ?n" for i
    using that to_word_bounds(1)[of "bv_size bv"] ext by (simp add: frt_bv_get_bit)
  have bn: "b div 32 < ?n" using to_word_bounds(3)[OF True] .
  note S = scan_bits_ok[where f = "\<lambda>w. w" and ws = "bv_bits bv" and n = ?n and b = b]
  show ?thesis
  proof (cases "scan_bits (\<lambda>w. w) (bv_bits bv) ?n b")
    case None
    then have "\<not> frt_bv_get bv i" if "b \<le> i" for i
      using S that get[of i] out[of i] by auto
    then show ?thesis using None frt_bv_scan_next_from_eq[OF True size] by simp
  next
    case (Some r)
    then have r: "b \<le> r" "r < 32 * ?n" "bit (bv_bits bv ! (r div 32)) (r mod 32)"
      "\<forall>i. b \<le> i \<longrightarrow> i < r \<longrightarrow> \<not> bit (bv_bits bv ! (i div 32)) (i mod 32)"
      using S bn by auto
    then show ?thesis
      using Some frt_bv_scan_next_from_eq[OF True size] get by auto
  qed
qed

lemma frt_bv_scan_next_unset_from_ok:
  assumes wf: "bv_wf bv" and ext: "extends_as_ones bv" and b: "b div 32 < bv_capa bv"
  shows "(\<exists>r. frt_bv_scan_next_unset_from bv b = Inr (bv\<lparr>bv_curr_bit := int r\<rparr>, int r) \<and> b \<le> r \<and>
            \<not> frt_bv_get bv r \<and> (\<forall>i. b \<le> i \<longrightarrow> i < r \<longrightarrow> frt_bv_get bv i)) \<or>
         (frt_bv_scan_next_unset_from bv b = Inr (bv, - 1) \<and> (\<forall>i. b \<le> i \<longrightarrow> frt_bv_get bv i))"
proof (cases "b < bv_size bv")
  case False
  then show ?thesis using ext b by (simp add: frt_bv_scan_next_unset_from_def Let_def frt_bv_get_bit)
next
  case True
  let ?n = "FRT_TO_WORD (bv_size bv)"
  have size: "bv_size bv \<le> 32 * bv_capa bv" using wf by (simp add: bv_wf_def)
  have get: "bit (NOT (bv_bits bv ! (i div 32))) (i mod 32) = (\<not> frt_bv_get bv i)" if "i < 32 * ?n" for i
    using bv_wf_get[OF wf that] by (simp add: bit_at_def bit_simps)
  have out: "frt_bv_get bv i" if "\<not> i < 32 * ?n" for i
    using that to_word_bounds(1)[of "bv_size bv"] ext by (simp add: frt_bv_get_bit)
  have bn: "b div 32 < ?n" using to_word_bounds(3)[OF True] .
  note S = scan_bits_ok[where f = "\<lambda>w. NOT w" and ws = "bv_bits bv" and n = ?n and b = b]
  show ?thesis
  proof (cases "scan_bits (\<lambda>w. NOT w) (bv_bits bv) ?n b")
    case None
    then have "frt_bv_get bv i" if "b \<le> i" for i
      using S that get[of i] out[of i] by auto
    then show ?thesis using None frt_bv_scan_next_unset_from_eq[OF True size] by simp
  next
    case (Some r)
    then have r: "b \<le> r" "r < 32 * ?n" "bit (NOT (bv_bits bv ! (r div 32))) (r mod 32)"
      "\<forall>i. b \<le> i \<longrightarrow> i < r \<longrightarrow> \<not> bit (NOT (bv_bits bv ! (i div 32))) (i mod 32)"
      using S bn by auto
    then show ?thesis
      using Some frt_bv_scan_next_unset_from_eq[OF True size] get by auto
  qed
qed

section \<open>Counting\<close>

lemma length_filter_add:
  "length (filter P [a..<a + n]) = length (filter (\<lambda>k. P (a + k)) [0..<n])"
proof -
  have "[a..<a + n] = map (\<lambda>k. a + k) [0..<n]" by (simp add: map_add_upt add.commute)
  then show ?thesis by (simp add: filter_map comp_def)
qed

lemma length_filter_upt_split:
  "length (filter P [0..<a + n]) = length (filter P [0..<a]) + length (filter (\<lambda>k. P (a + k)) [0..<n])"
  using upt_add_eq_append[of 0 a n] length_filter_add[of P a n] by simp

lemma count_slice:
  assumes "a + n \<le> 32"
  shows "frt_count_ones (w AND push_bit a (mask n)) = length (filter (bit w) [a..<a + n])"
proof -
  have "{k. bit (w AND push_bit a (mask n)) k} \<inter> set [0..<32] = {k. bit w k} \<inter> set [a..<a + n]"
    using assms by (auto simp: bit_simps)
  then show ?thesis
    unfolding frt_count_ones_def by (simp only: distinct_length_filter[OF distinct_upt])
qed

lemma count_byte:
  "frt_count_ones (w AND 0xff000000) = length (filter (bit w) [24..<32])"
  "frt_count_ones (w AND 0x00ff0000) = length (filter (bit w) [16..<24])"
  "frt_count_ones (w AND 0x0000ff00) = length (filter (bit w) [8..<16])"
  "frt_count_ones (w AND 0x000000ff) = length (filter (bit w) [0..<8])"
proof -
  have "(0xff000000 :: u32) = push_bit 24 (mask 8)" "(0x00ff0000 :: u32) = push_bit 16 (mask 8)"
    "(0x0000ff00 :: u32) = push_bit 8 (mask 8)" "(0x000000ff :: u32) = push_bit 0 (mask 8)"
    by (simp_all add: mask_eq_exp_minus_1)
  then show "frt_count_ones (w AND 0xff000000) = length (filter (bit w) [24..<32])"
    "frt_count_ones (w AND 0x00ff0000) = length (filter (bit w) [16..<24])"
    "frt_count_ones (w AND 0x0000ff00) = length (filter (bit w) [8..<16])"
    "frt_count_ones (w AND 0x000000ff) = length (filter (bit w) [0..<8])"
    using count_slice[of 24 8 w] count_slice[of 16 8 w] count_slice[of 8 8 w] count_slice[of 0 8 w]
    by (simp_all only:) simp_all
qed

lemma not_byte:
  "NOT 0x00ffffff = (0xff000000 :: u32)" "NOT 0xff00ffff = (0x00ff0000 :: u32)"
  "NOT 0xffff00ff = (0x0000ff00 :: u32)" "NOT 0xffffff00 = (0x000000ff :: u32)"
  by simp_all

lemma not_or_byte:
  "NOT (w OR 0x00ffffff) = NOT w AND (0xff000000 :: u32)" "NOT (w OR 0xff00ffff) = NOT w AND (0x00ff0000 :: u32)"
  "NOT (w OR 0xffff00ff) = NOT w AND (0x0000ff00 :: u32)" "NOT (w OR 0xffffff00) = NOT w AND (0x000000ff :: u32)"
  by (simp_all only: bit.de_Morgan_disj not_byte)

lemma recount_bytes_ones: "recount_bytes True extra w = recount_bytes False extra (NOT w)"
  by (simp only: recount_bytes_def frt_count_zeros_def not_or_byte if_True if_False)

lemma recount_bytes_ok:
  assumes "1 \<le> extra" "extra \<le> 4"
  shows "recount_bytes False extra w = length (filter (bit w) [0..<8 * extra])"
proof -
  consider "extra = 1" | "extra = 2" | "extra = 3" | "extra = 4" using assms by linarith
  moreover have bytes: "[0..<16] = [0..<8] @ [8..<16]" "[0..<24] = [0..<16] @ [16..<24]" "[0..<32] = [0..<24] @ [24..<32]"
    using upt_add_eq_append[of 0 8 8] upt_add_eq_append[of 0 16 8] upt_add_eq_append[of 0 24 8]
    by (simp_all del: upt_rec_numeral)
  have "length (filter (bit w) [0..<16]) = length (filter (bit w) [0..<8]) + length (filter (bit w) [8..<16])"
    "length (filter (bit w) [0..<24]) = length (filter (bit w) [0..<16]) + length (filter (bit w) [16..<24])"
    "length (filter (bit w) [0..<32]) = length (filter (bit w) [0..<24]) + length (filter (bit w) [24..<32])"
    by (simp_all only: bytes filter_append length_append)
  ultimately show ?thesis by cases (simp_all add: recount_bytes_def count_byte del: upt_rec_numeral)
qed

lemma count_words:
  assumes "n \<le> length ws" "\<And>w. c w = length (filter (\<lambda>k. bit w k \<noteq> e) [0..<32])"
  shows "sum_list (map c (take n ws)) = length (filter (\<lambda>i. bit_at ws i \<noteq> e) [0..<32 * n])"
  using assms(1)
proof (induction n)
  case (Suc n)
  have "length (filter (\<lambda>i. bit_at ws i \<noteq> e) [0..<32 * n + 32]) =
      length (filter (\<lambda>i. bit_at ws i \<noteq> e) [0..<32 * n]) +
      length (filter (\<lambda>k. bit_at ws (32 * n + k) \<noteq> e) [0..<32])"
    by (rule length_filter_upt_split)
  moreover have "filter (\<lambda>k. bit_at ws (32 * n + k) \<noteq> e) [0..<32] = filter (\<lambda>k. bit (ws ! n) k \<noteq> e) [0..<32]"
    by (rule filter_cong) (auto simp: bit_at_def)
  moreover have "sum_list (map c (take (Suc n) ws)) = sum_list (map c (take n ws)) + c (ws ! n)"
    using Suc.prems by (simp add: take_Suc_conv_app_nth)
  ultimately show ?case
    using Suc assms(2)[of "ws ! n"] by (simp add: add.commute del: upt_Suc)
qed simp

lemma frt_count_bits:
  "(if e then frt_count_zeros else frt_count_ones) w = length (filter (\<lambda>k. bit w k \<noteq> e) [0..<32])"
proof -
  have "filter (\<lambda>k. bit (NOT w) k) [0..<32] = filter (\<lambda>k. \<not> bit w k) [0..<32]"
    by (rule filter_cong) (auto simp: bit_simps)
  then show ?thesis by (simp add: frt_count_zeros_def frt_count_ones_def del: upt_rec_numeral)
qed

lemma recount_bytes_bits:
  assumes "1 \<le> extra" "extra \<le> 4"
  shows "recount_bytes e extra w = length (filter (\<lambda>k. bit w k \<noteq> e) [0..<8 * extra])"
proof -
  have "filter (\<lambda>k. bit (NOT w) k) [0..<8 * extra] = filter (\<lambda>k. \<not> bit w k) [0..<8 * extra]"
    using assms(2) by (intro filter_cong) (auto simp: bit_simps)
  then show ?thesis
    using recount_bytes_ok[OF assms, of w] recount_bytes_ok[OF assms, of "NOT w"]
    by (cases e) (simp_all add: recount_bytes_ones)
qed

text \<open>The positions that differ from the extension; those of a vector that does not extend are its bits.\<close>

definition bv_diff :: "bitvector \<Rightarrow> nat set" where
  "bv_diff bv = {i. frt_bv_get bv i \<noteq> extends_as_ones bv}"

lemma bv_diff_below: "bv_diff bv \<subseteq> {..<bv_size bv}"
  by (auto simp: bv_diff_def frt_bv_get_bit split: if_splits)

lemma finite_bv_diff [simp]: "finite (bv_diff bv)"
  using bv_diff_below finite_subset by blast

lemma frt_bv_recount_ok:
  assumes size: "bv_size bv < 32 * bv_capa bv"
    and tail: "\<And>i. bv_size bv \<le> i \<Longrightarrow> i < 32 * (bv_size bv div 32 + 1) \<Longrightarrow>
      bit_at (bv_bits bv) i = extends_as_ones bv"
  shows "frt_bv_recount bv = Inr (bv\<lparr>bv_count := int (card (bv_diff bv))\<rparr>)"
proof -
  let ?e = "extends_as_ones bv" and ?ws = "bv_bits bv" and ?len = "bv_size bv div 32"
  define extra where "extra = (bv_size bv mod 32) div 8 + 1"
  let ?P = "\<lambda>i. bit_at ?ws i \<noteq> ?e"
  have len: "?len < bv_capa bv" using size by linarith
  have extra: "1 \<le> extra" "extra \<le> 4" by (simp_all add: extra_def)
  have top: "bv_size bv < 32 * ?len + 8 * extra"
    unfolding extra_def by presburger
  have "recount_bytes ?e extra (?ws ! ?len) = length (filter (\<lambda>k. ?P (32 * ?len + k)) [0..<8 * extra])"
    unfolding recount_bytes_bits[OF extra]
    using extra(2) by (intro arg_cong[of _ _ length] filter_cong) (auto simp: bit_at_def)
  then have "sum_list (map (if ?e then frt_count_zeros else frt_count_ones) (take ?len ?ws)) +
      recount_bytes ?e extra (?ws ! ?len) = length (filter ?P [0..<32 * ?len + 8 * extra])"
    using count_words[of ?len ?ws "if ?e then frt_count_zeros else frt_count_ones" ?e] frt_count_bits len
    by (simp add: length_filter_upt_split)
  also have "\<dots> = card {i. i < 32 * ?len + 8 * extra \<and> ?P i}"
    by (subst length_filter_conv_card) (auto intro!: arg_cong[of _ _ card])
  also have "{i. i < 32 * ?len + 8 * extra \<and> ?P i} = bv_diff bv"
    using top extra(2) tail by (auto simp: bv_diff_def frt_bv_get_bit)
  finally show ?thesis
    using len by (simp add: frt_bv_recount_def extra_def Let_def)
qed

section \<open>Equality and hash\<close>

text \<open>The word of the infinite vector that \<open>bv\<close> stands for.\<close>

definition word_of :: "bitvector \<Rightarrow> nat \<Rightarrow> u32" where
  "word_of bv j = (if j < FRT_TO_WORD (bv_size bv) then bv_bits bv ! j else ext_word (extends_as_ones bv))"

lemma bit_word_of: "bv_wf bv \<Longrightarrow> k < 32 \<Longrightarrow> bit (word_of bv j) k = frt_bv_get bv (32 * j + k)"
proof -
  assume wf: "bv_wf bv" and k: "k < 32"
  have "(32 * j + k) div 32 = j" "(32 * j + k) mod 32 = k" using k by auto
  then have "j < FRT_TO_WORD (bv_size bv) \<Longrightarrow> bit (bv_bits bv ! j) k = frt_bv_get bv (32 * j + k)"
    using bv_wf_get[OF wf, of "32 * j + k"] k by (simp add: bit_at_def)
  moreover have "\<not> j < FRT_TO_WORD (bv_size bv) \<Longrightarrow> bv_size bv \<le> 32 * j + k"
    using to_word_bounds(1)[of "bv_size bv"] by linarith
  ultimately show ?thesis using k by (simp add: word_of_def frt_bv_get_bit)
qed

lemma get_eq_words:
  assumes "bv_wf bv1" "bv_wf bv2"
  shows "frt_bv_get bv1 = frt_bv_get bv2 \<longleftrightarrow> (\<forall>j. word_of bv1 j = word_of bv2 j)"
proof
  assume eq: "frt_bv_get bv1 = frt_bv_get bv2"
  show "\<forall>j. word_of bv1 j = word_of bv2 j"
    using assms eq by (auto intro!: bit_word_eqI simp: bit_word_of)
next
  assume eq: "\<forall>j. word_of bv1 j = word_of bv2 j"
  show "frt_bv_get bv1 = frt_bv_get bv2"
  proof
    fix i
    show "frt_bv_get bv1 i = frt_bv_get bv2 i"
      using bit_word_of[OF assms(1), of "i mod 32" "i div 32"] bit_word_of[OF assms(2), of "i mod 32" "i div 32"] eq
      by simp
  qed
qed

lemma get_eq_ext: "frt_bv_get bv1 = frt_bv_get bv2 \<Longrightarrow> extends_as_ones bv1 = extends_as_ones bv2"
  by (drule fun_cong[of _ _ "max (bv_size bv1) (bv_size bv2)"]) (simp add: frt_bv_get_bit)

lemma words_eq_iff:
  assumes "w1 \<le> w2"
  shows "(\<forall>i \<in> {0..<w1}. x i = y i) \<and> (\<forall>i \<in> {w1..<w2}. y i = e) \<longleftrightarrow>
    (\<forall>j. (if j < w1 then x j else e) = (if j < (w2 :: nat) then y j else e))" (is "?L \<longleftrightarrow> ?R")
proof
  assume L: ?L
  show ?R
  proof
    fix j
    consider "j < w1" | "w1 \<le> j" "j < w2" | "w2 \<le> j" by linarith
    then show "(if j < w1 then x j else e) = (if j < w2 then y j else e)"
      by cases (use L assms in auto)
  qed
next
  assume R: ?R
  have "x i = y i" if "i < w1" for i using spec[OF R, of i] that assms by simp
  moreover have "y i = e" if "w1 \<le> i" "i < w2" for i using spec[OF R, of i] that by simp
  ultimately show ?L by simp
qed

lemma frt_bv_eq_ok:
  assumes "bv_wf bv1" "bv_wf bv2"
  shows "frt_bv_eq False bv1 bv2 \<longleftrightarrow> frt_bv_get bv1 = frt_bv_get bv2"
proof (cases "extends_as_ones bv1 = extends_as_ones bv2")
  case False
  then have "frt_bv_get bv1 \<noteq> frt_bv_get bv2" using get_eq_ext by metis
  then show ?thesis using False by (simp add: frt_bv_eq_def)
next
  case True
  let ?w1 = "FRT_TO_WORD (bv_size bv1)" and ?w2 = "FRT_TO_WORD (bv_size bv2)"
  let ?e = "ext_word (extends_as_ones bv1)"
  consider "bv_size bv1 = bv_size bv2" | "bv_size bv1 < bv_size bv2" | "bv_size bv2 < bv_size bv1" by linarith
  then have "frt_bv_eq False bv1 bv2 \<longleftrightarrow> (\<forall>j. word_of bv1 j = word_of bv2 j)"
  proof cases
    case 1
    then show ?thesis using True by (auto simp: frt_bv_eq_def word_of_def)
  next
    case 2
    then have "frt_bv_eq False bv1 bv2 \<longleftrightarrow>
        (\<forall>i \<in> {0..<?w1}. bv_bits bv1 ! i = bv_bits bv2 ! i) \<and> (\<forall>i \<in> {?w1..<?w2}. bv_bits bv2 ! i = ?e)"
      using True by (simp add: frt_bv_eq_def Let_def min_def)
    then show ?thesis
      using words_eq_iff[OF to_word_mono[OF less_imp_le[OF 2]], of "(!) (bv_bits bv1)" "(!) (bv_bits bv2)" ?e] True
      by (simp only: word_of_def)
  next
    case 3
    then have "frt_bv_eq False bv1 bv2 \<longleftrightarrow>
        (\<forall>i \<in> {0..<?w2}. bv_bits bv1 ! i = bv_bits bv2 ! i) \<and> (\<forall>i \<in> {?w2..<?w1}. bv_bits bv1 ! i = ?e)"
      using True by (simp add: frt_bv_eq_def Let_def min_def)
    also have "\<dots> \<longleftrightarrow> (\<forall>i \<in> {0..<?w2}. bv_bits bv2 ! i = bv_bits bv1 ! i) \<and> (\<forall>i \<in> {?w2..<?w1}. bv_bits bv1 ! i = ?e)"
      by (intro conj_cong ball_cong refl) (rule eq_commute)
    also have "\<dots> \<longleftrightarrow> (\<forall>j. word_of bv2 j = word_of bv1 j)"
      using words_eq_iff[OF to_word_mono[OF less_imp_le[OF 3]], of "(!) (bv_bits bv2)" "(!) (bv_bits bv1)" ?e] True
      by (simp only: word_of_def)
    also have "\<dots> \<longleftrightarrow> (\<forall>j. word_of bv1 j = word_of bv2 j)"
      by (intro all_cong1) (rule eq_commute)
    finally show ?thesis .
  qed
  then show ?thesis using get_eq_words[OF assms] by simp
qed

text \<open>The loop of the hash skips the words that equal the extension, so it may run over any number of them.\<close>

lemma hash_fold_ext:
  assumes "bv_wf bv" "FRT_TO_WORD (bv_size bv) \<le> n"
  shows "foldr (\<lambda>word hash. if word \<noteq> ext_word (extends_as_ones bv) then g word hash else hash)
           (take (FRT_TO_WORD (bv_size bv)) (bv_bits bv)) z =
         foldr (\<lambda>word hash. if word \<noteq> ext_word (extends_as_ones bv) then g word hash else hash)
           (map (word_of bv) [0..<n]) z"
proof -
  let ?n = "FRT_TO_WORD (bv_size bv)"
  have "?n \<le> bv_capa bv" using assms(1) to_word_le by (simp add: bv_wf_def)
  then have "take ?n (bv_bits bv) = map (word_of bv) [0..<?n]"
    by (intro nth_equalityI) (auto simp: word_of_def)
  moreover have "foldr (\<lambda>word hash. if word \<noteq> ext_word (extends_as_ones bv) then g word hash else hash)
      (map (word_of bv) [?n..<?n + m]) z = z" for m
    by (induction m) (simp_all add: word_of_def)
  moreover have "[0..<n] = [0..<?n] @ [?n..<?n + (n - ?n)]"
    using assms(2) upt_add_eq_append[of 0 ?n "n - ?n"] by simp
  ultimately show ?thesis by simp
qed

lemma frt_bv_hash_eq:
  assumes "bv_wf bv1" "bv_wf bv2" "frt_bv_get bv1 = frt_bv_get bv2"
  shows "frt_bv_hash bv1 = frt_bv_hash bv2"
proof -
  let ?n = "max (FRT_TO_WORD (bv_size bv1)) (FRT_TO_WORD (bv_size bv2))"
  have "word_of bv1 = word_of bv2" using assms get_eq_words by blast
  moreover note get_eq_ext[OF assms(3)]
  ultimately show ?thesis
    using hash_fold_ext[OF assms(1) max.cobounded1[of _ "FRT_TO_WORD (bv_size bv2)"],
        of "\<lambda>word hash. push_bit 1 hash XOR ucast word" "0 :: u64"]
      hash_fold_ext[OF assms(2) max.cobounded2[of _ "FRT_TO_WORD (bv_size bv1)"],
        of "\<lambda>word hash. push_bit 1 hash XOR ucast word" "0 :: u64"]
    by (simp only: frt_bv_hash_def Let_def)
qed

section \<open>Bulk operations\<close>

lemma frt_round2_gt:
  assumes "n < 2 ^ 32"
  shows "n < frt_round2 n"
proof -
  let ?w = "of_nat n :: u32" and ?c = "frt_count_leading_zeros (of_nat n)"
  have "\<not> bit ?w k" if "32 - ?c \<le> k" "k < 32" for k
  proof -
    let ?t = "takeWhile (\<lambda>n. \<not> bit ?w (31 - n)) [0..<32]"
    have "31 - k < length ?t" using that by (simp add: frt_count_leading_zeros_def del: upt_rec_numeral)
    moreover from this have "?t ! (31 - k) = 31 - k"
      by (subst takeWhile_nth) (use that in auto)
    ultimately have "\<not> bit ?w (31 - (31 - k))" by (metis nth_mem set_takeWhileD)
    then show ?thesis using that by simp
  qed
  then have "take_bit (32 - ?c) ?w = ?w"
    by (intro bit_word_eqI) (simp add: bit_take_bit_iff, meson leI)
  then have "unat ?w < 2 ^ (32 - ?c)"
    by (metis take_bit_nat_less_exp unsigned_take_bit_eq)
  then show ?thesis using assms by (simp add: frt_round2_def unat_of_nat)
qed

lemma frt_bv_capa_ok:
  fixes junk bv
  assumes "FRT_TO_WORD sz \<le> capa"
  defines "bv' \<equiv> frt_bv_capa junk bv capa sz"
  shows "bv_capa bv' = max (bv_capa bv) capa" "bv_size bv' = sz" "extends_as_ones bv' = extends_as_ones bv"
    "bv_count bv' = bv_count bv"
    "j < FRT_TO_WORD sz \<Longrightarrow> j < bv_capa bv \<Longrightarrow> bv_bits bv' ! j = bv_bits bv ! j"
    "FRT_TO_WORD sz \<le> j \<Longrightarrow> j < bv_capa bv' \<Longrightarrow>
      bv_bits bv' ! j = (if bv_capa bv < capa then ext_word (extends_as_ones bv) else bv_bits bv ! j)"
proof -
  define grown where "grown = bv_bits bv @ map (\<lambda>i. (junk @ replicate capa 0) ! i) [0..<capa - bv_capa bv]"
  have bits: "bv_bits bv' = (if bv_capa bv < capa
      then take (FRT_TO_WORD sz) grown @ replicate (capa - FRT_TO_WORD sz) (ext_word (extends_as_ones bv))
      else bv_bits bv)"
    by (simp add: bv'_def frt_bv_capa_def Let_def grown_def)
  have len: "bv_capa bv < capa \<Longrightarrow> length grown = capa" by (simp add: grown_def)
  show "bv_capa bv' = max (bv_capa bv) capa" using assms(1) bits len by auto
  show "bv_size bv' = sz" "extends_as_ones bv' = extends_as_ones bv" "bv_count bv' = bv_count bv"
    by (simp_all add: bv'_def frt_bv_capa_def Let_def)
  have first: "length (take (FRT_TO_WORD sz) grown) = FRT_TO_WORD sz" if "bv_capa bv < capa"
    using len[OF that] assms(1) by simp
  show "bv_bits bv' ! j = bv_bits bv ! j" if "j < FRT_TO_WORD sz" "j < bv_capa bv"
  proof (cases "bv_capa bv < capa")
    case True
    then have "bv_bits bv' ! j = grown ! j" using that first by (simp add: bits nth_append)
    then show ?thesis using that by (simp add: grown_def nth_append)
  qed (simp add: bits)
  show "bv_bits bv' ! j = (if bv_capa bv < capa then ext_word (extends_as_ones bv) else bv_bits bv ! j)"
    if j: "FRT_TO_WORD sz \<le> j" "j < bv_capa bv'"
  proof (cases "bv_capa bv < capa")
    case True
    then have "j < capa" using j(2) assms(1) first by (simp add: bits)
    then show ?thesis using True j(1) first by (simp add: bits nth_append)
  qed (simp add: bits)
qed

lemma bv_op_loop_ok:
  assumes "i + n \<le> bv_capa (h r)"
  shows "bv_op_loop f r a b i n h = h(r := (h r)\<lparr>bv_bits := map (\<lambda>j.
     if i \<le> j \<and> j < i + n then f (bv_bits (h a) ! j) (bv_bits (h b) ! j) else bv_bits (h r) ! j)
     [0..<bv_capa (h r)]\<rparr>)"
  using assms
proof (induction n arbitrary: i h)
  case 0
  have "map (\<lambda>j. if i \<le> j \<and> j < i + 0 then f (bv_bits (h a) ! j) (bv_bits (h b) ! j) else bv_bits (h r) ! j)
      [0..<bv_capa (h r)] = bv_bits (h r)"
    by (rule nth_equalityI) auto
  then show ?case by (simp only: bv_op_loop.simps) simp
next
  case (Suc n)
  define H where "H = h(r := (h r)\<lparr>bv_bits := (bv_bits (h r))[i := f (bv_bits (h a) ! i) (bv_bits (h b) ! i)]\<rparr>)"
  have same: "bv_bits (H x) ! j = bv_bits (h x) ! j" if "j \<noteq> i" for x j
    using that by (simp add: H_def)
  have at_i: "bv_bits (H r) ! i = f (bv_bits (h a) ! i) (bv_bits (h b) ! i)"
    using Suc.prems by (simp add: H_def)
  have capa: "bv_capa (H r) = bv_capa (h r)" by (simp add: H_def)
  have m: "map (\<lambda>j. if i + 1 \<le> j \<and> j < i + 1 + n then f (bv_bits (H a) ! j) (bv_bits (H b) ! j)
        else bv_bits (H r) ! j) [0..<bv_capa (H r)] =
      map (\<lambda>j. if i \<le> j \<and> j < i + Suc n then f (bv_bits (h a) ! j) (bv_bits (h b) ! j)
        else bv_bits (h r) ! j) [0..<bv_capa (h r)]"
    unfolding capa
  proof (rule map_cong[OF refl])
    fix j
    consider "j = i" | "j \<noteq> i" by blast
    then show "(if i + 1 \<le> j \<and> j < i + 1 + n then f (bv_bits (H a) ! j) (bv_bits (H b) ! j)
        else bv_bits (H r) ! j) = (if i \<le> j \<and> j < i + Suc n then f (bv_bits (h a) ! j) (bv_bits (h b) ! j)
        else bv_bits (h r) ! j)"
      by cases (use at_i same in auto)
  qed
  have "bv_op_loop f r a b i (Suc n) h = bv_op_loop f r a b (i + 1) n H"
    by (simp only: bv_op_loop.simps H_def)
  also have "\<dots> = H(r := (H r)\<lparr>bv_bits := map (\<lambda>j. if i \<le> j \<and> j < i + Suc n
      then f (bv_bits (h a) ! j) (bv_bits (h b) ! j) else bv_bits (h r) ! j) [0..<bv_capa (h r)]\<rparr>)"
  proof -
    have p: "i + 1 + n \<le> bv_capa (H r)" using Suc.prems capa by simp
    show ?thesis using Suc.IH[where i = "i + 1" and h = H, OF p] unfolding m .
  qed
  finally show ?case by (simp add: H_def)
qed

locale bv_op =
  fixes f :: "u32 \<Rightarrow> u32 \<Rightarrow> u32"
    and fb :: "bool \<Rightarrow> bool \<Rightarrow> bool"
    and ext_cb :: "u32 list \<Rightarrow> u32 list \<Rightarrow> bool \<Rightarrow> nat \<Rightarrow> nat \<Rightarrow> u32 list"
  assumes bit_f: "k < 32 \<Longrightarrow> bit (f v w) k = fb (bit v k) (bit w k)"
    and comm: "fb x y = fb y x"
    and ext_cb: "m \<le> length src \<Longrightarrow>
      ext_cb dest src ones i m = write_at dest i (map (\<lambda>w. f w (ext_word ones)) (take (m - i) (drop i src)))"
begin

lemma ext_cb_nth:
  assumes "m \<le> length src" "m \<le> length dest" "i \<le> m"
  shows "length (ext_cb dest src ones i m) = length dest"
    "j < length dest \<Longrightarrow> ext_cb dest src ones i m ! j =
      (if i \<le> j \<and> j < m then f (src ! j) (ext_word ones) else dest ! j)"
  using assms by (auto simp: ext_cb write_at_def nth_append min_def)

lemma f_comm: "f v w = f w v"
  by (rule bit_word_eqI) (simp add: bit_f comm)

text \<open>
  The operation, whatever the three references share. The flags are read again when the longer operand
  is copied, after the flag of the result was set: they must not have changed then.
\<close>

lemma op_ok:
  assumes wa: "bv_wf (h a)" and wb: "bv_wf (h b)"
  defines "e \<equiv> fb (extends_as_ones (h a)) (extends_as_ones (h b))"
  defines "wsa \<equiv> FRT_TO_WORD (bv_size (h a))" and "wsb \<equiv> FRT_TO_WORD (bv_size (h b))"
  assumes fa: "r = a \<Longrightarrow> wsa < wsb \<Longrightarrow> e = extends_as_ones (h a)"
    and fbb: "r = b \<Longrightarrow> wsb < wsa \<Longrightarrow> e = extends_as_ones (h b)"
  shows "\<exists>R. FRT_BV_OP f fb ext_cb junk h r a b = Inr (h(r := R)) \<and> bv_wf R \<and> extends_as_ones R = e \<and>
     bv_size R = max (bv_size (h a)) (bv_size (h b)) \<and>
     (\<forall>i. frt_bv_get R i = fb (frt_bv_get (h a) i) (frt_bv_get (h b) i)) \<and>
     ((\<forall>j. max wsa wsb \<le> j \<longrightarrow> j < bv_capa (h r) \<longrightarrow> bv_bits (h r) ! j = ext_word e) \<longrightarrow>
        bv_ok R \<and> bv_count R = int (card (bv_diff R)))"
proof -
  let ?a = "h a" and ?b = "h b"
  define m where "m = max (bv_size ?a) (bv_size ?b)"
  define ws where "ws = FRT_TO_WORD m"
  define wmin where "wmin = FRT_TO_WORD (min (bv_size ?a) (bv_size ?b))"
  define capa where "capa = max (frt_round2 ws) 4"
  define R0 where "R0 = frt_bv_capa junk ((h r)\<lparr>extends_as_ones := e\<rparr>) capa m"
  define H1 where "H1 = h(r := R0)"
  have ws_max: "ws = max wsa wsb" and wmin_min: "wmin = min wsa wsb"
    using to_word_mono[of "bv_size ?a" "bv_size ?b"] to_word_mono[of "bv_size ?b" "bv_size ?a"]
    by (auto simp: ws_def wmin_def m_def wsa_def wsb_def max_def min_def)
  have m_small: "m < 2 ^ 31" using wa wb by (auto simp: m_def bv_wf_def)
  then have "ws < 2 ^ 32" by (simp add: ws_def FRT_TO_WORD_eq)
  then have ws_capa: "ws < capa" using frt_round2_gt[of ws] by (simp add: capa_def)
  note C = frt_bv_capa_ok[where sz = m and capa = capa and junk = junk and bv = "(h r)\<lparr>extends_as_ones := e\<rparr>",
      folded R0_def ws_def, OF less_imp_le[OF ws_capa]]
  have len0: "ws < bv_capa R0" "bv_capa R0 = max (bv_capa (h r)) capa" using C(1) ws_capa by auto
  have ca: "wsa \<le> bv_capa ?a" and cb: "wsb \<le> bv_capa ?b"
    using wa wb to_word_le by (auto simp: wsa_def wsb_def bv_wf_def)
  have bits1: "bv_bits (H1 a) ! j = bv_bits ?a ! j" if "j < wsa" for j
    using that C(5)[of j] ca ws_max by (auto simp: H1_def)
  have bits1b: "bv_bits (H1 b) ! j = bv_bits ?b ! j" if "j < wsb" for j
    using that C(5)[of j] cb ws_max by (auto simp: H1_def)
  have capa1: "wsa \<le> bv_capa (H1 a)" "wsb \<le> bv_capa (H1 b)"
    using ca cb len0(1) ws_max by (auto simp: H1_def)
  define B2 where "B2 = map (\<lambda>j. if 0 \<le> j \<and> j < 0 + wmin then f (bv_bits (H1 a) ! j) (bv_bits (H1 b) ! j)
      else bv_bits (H1 r) ! j) [0..<bv_capa (H1 r)]"
  define H2 where "H2 = H1(r := (H1 r)\<lparr>bv_bits := B2\<rparr>)"
  have "wmin \<le> ws" using ws_max wmin_min by simp
  then have loop: "bv_op_loop f r a b 0 wmin H1 = H2"
    using bv_op_loop_ok[of 0 wmin H1 r f a b] len0(1) by (simp add: H2_def B2_def H1_def)
  have lenB2: "length B2 = bv_capa R0" by (simp add: B2_def H1_def)
  have bits2: "bv_bits (H2 x) ! j = bv_bits (H1 x) ! j" if "wmin \<le> j" "j < bv_capa R0 \<or> x \<noteq> r" for x j
    using that by (auto simp: H2_def B2_def H1_def)
  have capa2: "bv_capa (H2 x) = bv_capa (H1 x)" for x by (simp add: H2_def lenB2) (simp add: H1_def)
  define B3 where "B3 = (if wsa \<noteq> wsb then
      (if wsa < wsb then ext_cb B2 (bv_bits (H2 b)) (extends_as_ones (H2 a)) wmin ws
       else ext_cb B2 (bv_bits (H2 a)) (extends_as_ones (H2 b)) wmin ws) else B2)"
  define R1 where "R1 = R0\<lparr>bv_bits := B3\<rparr>"
  have flag_a: "extends_as_ones (H2 a) = extends_as_ones ?a" if "wsa < wsb"
    using that fa C(3) by (auto simp: H2_def H1_def)
  have flag_b: "extends_as_ones (H2 b) = extends_as_ones ?b" if "wsb < wsa"
    using that fbb C(3) by (auto simp: H2_def H1_def)
  have src: "wsa < wsb \<Longrightarrow> ws \<le> bv_capa (H2 b)" "wsb < wsa \<Longrightarrow> ws \<le> bv_capa (H2 a)"
    using capa1 ws_max by (simp_all add: capa2)
  have low: "B2 ! j = f (word_of ?a j) (word_of ?b j)" if "j < wmin" for j
  proof -
    have "j < bv_capa (H1 r)" using that \<open>wmin \<le> ws\<close> len0(1) by (simp add: H1_def)
    then have "B2 ! j = f (bv_bits (H1 a) ! j) (bv_bits (H1 b) ! j)" using that by (simp add: B2_def)
    moreover have "j < wsa" "j < wsb" using that wmin_min by auto
    ultimately show ?thesis
      using bits1[of j] bits1b[of j] by (simp add: word_of_def wsa_def[symmetric] wsb_def[symmetric])
  qed
  have high: "B2 ! j = bv_bits R0 ! j" if "wmin \<le> j" "j < bv_capa R0" for j
    using that by (simp add: B2_def H1_def)
  have B3: "length B3 = bv_capa R0 \<and> (\<forall>j < ws. B3 ! j = f (word_of ?a j) (word_of ?b j)) \<and>
      (\<forall>j. ws \<le> j \<longrightarrow> j < bv_capa R0 \<longrightarrow> B3 ! j = bv_bits R0 ! j)"
  proof -
    consider "wsa = wsb" | "wsa < wsb" | "wsb < wsa" by linarith
    then show ?thesis
    proof cases
      case 1
      then show ?thesis using low high lenB2 ws_max wmin_min by (auto simp: B3_def)
    next
      case 2
      have B: "B3 = ext_cb B2 (bv_bits (H2 b)) (extends_as_ones ?a) wmin ws"
        using 2 flag_a by (simp add: B3_def)
      note X = ext_cb_nth[of ws "bv_bits (H2 b)" B2 wmin, OF src(1)[OF 2] _ \<open>wmin \<le> ws\<close>]
      have len: "ws \<le> length B2" using lenB2 len0(1) by simp
      have mid: "f (bv_bits (H2 b) ! j) (ext_word (extends_as_ones ?a)) = f (word_of ?a j) (word_of ?b j)"
        if "wmin \<le> j" "j < ws" for j
        using that 2 bits2[of j b] bits1b[of j] len0(1) ws_max wmin_min f_comm
        by (simp add: word_of_def wsa_def[symmetric] wsb_def[symmetric])
      show ?thesis
        unfolding B using X(1)[OF len] X(2)[OF len] mid low high lenB2 \<open>wmin \<le> ws\<close> len0(1) by auto
    next
      case 3
      have B: "B3 = ext_cb B2 (bv_bits (H2 a)) (extends_as_ones ?b) wmin ws"
        using 3 flag_b by (simp add: B3_def)
      note X = ext_cb_nth[of ws "bv_bits (H2 a)" B2 wmin, OF src(2)[OF 3] _ \<open>wmin \<le> ws\<close>]
      have len: "ws \<le> length B2" using lenB2 len0(1) by simp
      have mid: "f (bv_bits (H2 a) ! j) (ext_word (extends_as_ones ?b)) = f (word_of ?a j) (word_of ?b j)"
        if "wmin \<le> j" "j < ws" for j
        using that 3 bits2[of j a] bits1[of j] len0(1) ws_max wmin_min
        by (simp add: word_of_def wsa_def[symmetric] wsb_def[symmetric])
      show ?thesis
        unfolding B using X(1)[OF len] X(2)[OF len] mid low high lenB2 \<open>wmin \<le> ws\<close> len0(1) by auto
    qed
  qed
  have R1: "bv_size R1 = m" "extends_as_ones R1 = e" "bv_bits R1 = B3" using C by (simp_all add: R1_def)
  have bit_R1: "bit_at (bv_bits R1) i = fb (frt_bv_get ?a i) (frt_bv_get ?b i)" if "i < 32 * ws" for i
  proof -
    have "i div 32 < ws" using that by (simp add: less_mult_imp_div_less mult.commute)
    then show ?thesis
      using B3 R1(3) bit_word_of[OF wa, of "i mod 32" "i div 32"] bit_word_of[OF wb, of "i mod 32" "i div 32"]
      by (simp add: bit_at_def bit_f)
  qed
  have out: "fb (frt_bv_get ?a i) (frt_bv_get ?b i) = e" if "m \<le> i" for i
    using that by (simp add: frt_bv_get_bit e_def m_def)
  have m_ws: "m \<le> 32 * ws" "m div 32 < bv_capa R1"
    using to_word_bounds(1,2)[of m] len0(1) B3 R1(3) by (simp_all add: ws_def)
  have fits: "m \<le> 32 * bv_capa R1" using m_ws(1) len0(1) B3 R1(3) by simp
  define c where "c = (SOME c. frt_bv_recount R1 = Inr (R1\<lparr>bv_count := c\<rparr>))"
  have rec: "frt_bv_recount R1 = Inr (R1\<lparr>bv_count := c\<rparr>)"
    unfolding c_def by (rule someI_ex) (use m_ws(2) R1(1) in \<open>auto simp: frt_bv_recount_def Let_def\<close>)
  define R where "R = R1\<lparr>bv_count := c\<rparr>"
  have s1: "(h(r := (h r)\<lparr>extends_as_ones := e\<rparr>))
      (r := frt_bv_capa junk ((h(r := (h r)\<lparr>extends_as_ones := e\<rparr>)) r) capa m) = H1"
    by (simp add: H1_def R0_def)
  have s2: "(if wsa \<noteq> wsb then
       case if wsa < wsb then (bv_bits (H2 b), extends_as_ones (H2 a)) else (bv_bits (H2 a), extends_as_ones (H2 b)) of
         (bits, ones) \<Rightarrow> H2(r := (H2 r)\<lparr>bv_bits := ext_cb (bv_bits (H2 r)) bits ones wmin ws\<rparr>)
     else H2) = h(r := R1)"
    by (simp add: R1_def B3_def H2_def) (simp add: H1_def)
  have "FRT_BV_OP f fb ext_cb junk h r a b = ebind (frt_bv_recount ((h(r := R1)) r)) (\<lambda>R. Inr ((h(r := R1))(r := R)))"
    unfolding FRT_BV_OP_def Let_def
    unfolding wsa_def[symmetric] wsb_def[symmetric] m_def[symmetric] ws_def[symmetric] wmin_def[symmetric]
      capa_def[symmetric] e_def[symmetric] s1 loop s2 by (rule refl)
  then have "FRT_BV_OP f fb ext_cb junk h r a b = Inr (h(r := R))"
    using rec by (simp add: R_def)
  moreover have "bv_wf R"
    using m_small fits bit_R1 out R1 by (simp add: R_def bv_wf_def ws_def)
  moreover have "frt_bv_get R i = fb (frt_bv_get ?a i) (frt_bv_get ?b i)" for i
    using bit_R1[of i] out[of i] R1 m_ws(1) by (simp add: R_def frt_bv_get_bit)
  moreover have "bv_ok R \<and> bv_count R = int (card (bv_diff R))"
    if clean: "\<forall>j. ws \<le> j \<longrightarrow> j < bv_capa (h r) \<longrightarrow> bv_bits (h r) ! j = ext_word e"
  proof -
    have "B3 ! j = ext_word e" if "ws \<le> j" "j < bv_capa R0" for j
      using that B3 C(6)[of j] clean len0(2) by auto
    then have tail: "bit_at (bv_bits R1) i = e" if "m \<le> i" "i < 32 * bv_capa R1" for i
    proof (cases "i < 32 * ws")
      case True
      then show ?thesis using bit_R1[of i] out that by simp
    next
      case False
      then have "ws \<le> i div 32" by linarith
      moreover have "i div 32 < bv_capa R0"
        using that B3 R1(3) by (simp add: less_mult_imp_div_less mult.commute)
      ultimately show ?thesis using \<open>\<And>j. ws \<le> j \<Longrightarrow> j < bv_capa R0 \<Longrightarrow> B3 ! j = ext_word e\<close> R1(3)
        by (simp add: bit_at_def)
    qed
    have lt: "bv_size R1 < 32 * bv_capa R1" using m_ws len0(1) B3 R1 by simp
    have "frt_bv_recount R1 = Inr (R1\<lparr>bv_count := int (card (bv_diff R1))\<rparr>)"
      using lt m_ws(2) R1 tail by (intro frt_bv_recount_ok) auto
    moreover have "bv_diff R = bv_diff R1" by (simp add: R_def bv_diff_def frt_bv_get_bit)
    ultimately have "bv_count R = int (card (bv_diff R))" using rec by (simp add: R_def)
    moreover have "bv_ok R"
      using m_small fits tail R1 lt by (auto simp: R_def bv_ok_def)
    ultimately show ?thesis by simp
  qed
  ultimately show ?thesis
    using R1 by (intro exI[of _ R]) (auto simp: R_def m_def ws_max)
qed

end

text \<open>What a result \<open>R\<close> of the operation is; its count is only right when it does not extend as ones.\<close>

definition bv_result :: "(bool \<Rightarrow> bool \<Rightarrow> bool) \<Rightarrow> bitvector \<Rightarrow> bitvector \<Rightarrow> bitvector \<Rightarrow> bool" where
  "bv_result fb a b R \<longleftrightarrow> bv_wf R \<and> bv_size R = max (bv_size a) (bv_size b) \<and>
     (\<forall>i. frt_bv_get R i = fb (frt_bv_get a i) (frt_bv_get b i)) \<and>
     (\<not> extends_as_ones R \<longrightarrow> bv_ok R \<and> bv_count R = int (card {i. frt_bv_get R i}))"

lemma frt_bv_new_words: "j < bv_capa frt_bv_new \<Longrightarrow> bv_bits frt_bv_new ! j = ext_word False"
  by (simp add: frt_bv_new_def frt_bv_new_capa_def ext_word_def)

lemma bv_ok_words:
  assumes "bv_ok bv" "FRT_TO_WORD (bv_size bv) \<le> j" "j < bv_capa bv"
  shows "bv_bits bv ! j = ext_word (extends_as_ones bv)"
proof (rule bit_word_eqI)
  fix k assume "k < LENGTH(32)"
  then have k: "k < 32" "(32 * j + k) div 32 = j" "(32 * j + k) mod 32 = k" "32 * j + k < 32 * bv_capa bv"
    using assms(3) by auto
  have "bv_size bv \<le> 32 * j + k" using assms(2) to_word_bounds(1)[of "bv_size bv"] by linarith
  then have "bit_at (bv_bits bv) (32 * j + k) = extends_as_ones bv" using assms(1) k by (simp add: bv_ok_def)
  then show "bit (bv_bits bv ! j) k = bit (ext_word (extends_as_ones bv)) k" using k by (simp add: bit_at_def)
qed

context bv_op
begin

lemma op_fresh:
  assumes r: "r \<noteq> a" "r \<noteq> b" and wf: "bv_wf (h a)" "bv_wf (h b)"
  shows "\<exists>R. FRT_BV_OP f fb ext_cb junk (h(r := frt_bv_new)) r a b = Inr (h(r := R)) \<and> bv_result fb (h a) (h b) R"
proof -
  let ?h = "h(r := frt_bv_new)"
  have h: "?h a = h a" "?h b = h b" using r by simp_all
  obtain R where R: "FRT_BV_OP f fb ext_cb junk ?h r a b = Inr (?h(r := R))" "bv_wf R"
    "extends_as_ones R = fb (extends_as_ones (h a)) (extends_as_ones (h b))"
    "bv_size R = max (bv_size (h a)) (bv_size (h b))"
    "\<And>i. frt_bv_get R i = fb (frt_bv_get (h a) i) (frt_bv_get (h b) i)"
    and clean: "(\<forall>j. max (FRT_TO_WORD (bv_size (h a))) (FRT_TO_WORD (bv_size (h b))) \<le> j \<longrightarrow>
      j < bv_capa (?h r) \<longrightarrow> bv_bits (?h r) ! j = ext_word (fb (extends_as_ones (h a)) (extends_as_ones (h b)))) \<Longrightarrow>
      bv_ok R \<and> bv_count R = int (card (bv_diff R))"
    using op_ok[of ?h a b r junk] r wf unfolding h by metis
  have "bv_ok R \<and> bv_count R = int (card {i. frt_bv_get R i})" if "\<not> extends_as_ones R"
    using clean that R(3) frt_bv_new_words by (simp add: bv_diff_def)
  then show ?thesis
    using R by (intro exI[of _ R]) (simp add: bv_result_def)
qed

lemma op_same:
  assumes ok: "bv_ok (h a)" "bv_wf (h b)" and ext: "\<not> extends_as_ones (h a)" "\<not> extends_as_ones (h b)"
    and fb: "\<not> fb False False"
  shows "\<exists>R. FRT_BV_OP f fb ext_cb junk h a a b = Inr (h(a := R)) \<and> bv_result fb (h a) (h b) R \<and>
     \<not> extends_as_ones R"
proof -
  obtain R where R: "FRT_BV_OP f fb ext_cb junk h a a b = Inr (h(a := R))" "bv_wf R"
    "extends_as_ones R = fb (extends_as_ones (h a)) (extends_as_ones (h b))"
    "bv_size R = max (bv_size (h a)) (bv_size (h b))"
    "\<And>i. frt_bv_get R i = fb (frt_bv_get (h a) i) (frt_bv_get (h b) i)"
    and clean: "(\<forall>j. max (FRT_TO_WORD (bv_size (h a))) (FRT_TO_WORD (bv_size (h b))) \<le> j \<longrightarrow>
      j < bv_capa (h a) \<longrightarrow> bv_bits (h a) ! j = ext_word (fb (extends_as_ones (h a)) (extends_as_ones (h b)))) \<Longrightarrow>
      bv_ok R \<and> bv_count R = int (card (bv_diff R))"
    using op_ok[of h a b a junk] bv_ok_wf[OF ok(1)] ok(2) ext fb by (simp only: simp_thms) metis
  have "\<not> extends_as_ones R" using R(3) ext fb by simp
  moreover have "bv_ok R \<and> bv_count R = int (card {i. frt_bv_get R i})"
    using clean R(3) ext fb bv_ok_words[OF ok(1)] by (simp add: bv_diff_def)
  ultimately show ?thesis
    using R by (intro exI[of _ R]) (simp add: bv_result_def)
qed

end

lemma ext_word_True: "ext_word True = NOT 0"
  by (simp add: ext_word_def)

lemma and_ones: "w AND ext_word True = w" "w AND ext_word False = 0"
  by (simp add: ext_word_True, simp add: ext_word_def)

lemma or_ones: "w OR ext_word True = ext_word True" "w OR ext_word False = w"
  by (simp add: ext_word_True, simp add: ext_word_def)

lemma map_const: "m \<le> length src \<Longrightarrow> map (\<lambda>w. c) (take (m - i) (drop i src)) = replicate (m - i) c"
  by (simp add: map_replicate_const min_absorb2 diff_le_mono)

interpretation bv_and: bv_op "(AND)" "(\<and>)" frt_bv_and_ext
proof
  fix m ones i and src dest :: "u32 list"
  assume "m \<le> length src"
  then show "frt_bv_and_ext dest src ones i m =
      write_at dest i (map (\<lambda>w. w AND ext_word ones) (take (m - i) (drop i src)))"
    by (cases ones) (simp_all only: frt_bv_and_ext_def and_ones map_const if_True if_False list.map_ident)
qed (auto simp: bit_simps)

interpretation bv_or: bv_op "(OR)" "(\<or>)" frt_bv_or_ext
proof
  fix m ones i and src dest :: "u32 list"
  assume "m \<le> length src"
  moreover have "0xFFFFFFFF = ext_word True" by (simp add: ext_word_def)
  ultimately show "frt_bv_or_ext dest src ones i m =
      write_at dest i (map (\<lambda>w. w OR ext_word ones) (take (m - i) (drop i src)))"
    by (cases ones) (simp_all only: frt_bv_or_ext_def or_ones map_const if_True if_False list.map_ident)
qed (auto simp: bit_simps)

interpretation bv_xor: bv_op "(XOR)" "(\<noteq>)" frt_bv_xor_ext
proof
  fix m ones i and src dest :: "u32 list"
  assume "m \<le> length src"
  show "frt_bv_xor_ext dest src ones i m =
      write_at dest i (map (\<lambda>w. w XOR ext_word ones) (take (m - i) (drop i src)))"
    by (simp add: frt_bv_xor_ext_def ext_word_def)
qed (auto simp: bit_simps)

lemma frt_bv_ops_fresh:
  assumes "r \<noteq> a" "r \<noteq> b" "bv_wf (h a)" "bv_wf (h b)"
  shows "\<exists>R. frt_bv_and junk h r a b = Inr (h(r := R)) \<and> bv_result (\<and>) (h a) (h b) R"
    "\<exists>R. frt_bv_or junk h r a b = Inr (h(r := R)) \<and> bv_result (\<or>) (h a) (h b) R"
    "\<exists>R. frt_bv_xor junk h r a b = Inr (h(r := R)) \<and> bv_result (\<noteq>) (h a) (h b) R"
  using bv_and.op_fresh[OF assms] bv_or.op_fresh[OF assms] bv_xor.op_fresh[OF assms]
  by (simp_all add: frt_bv_and_def frt_bv_and_i_def frt_bv_or_def frt_bv_or_i_def frt_bv_xor_def frt_bv_xor_i_def)

lemma frt_bv_ops_same:
  assumes "bv_ok (h a)" "bv_wf (h b)" "\<not> extends_as_ones (h a)" "\<not> extends_as_ones (h b)"
  shows "\<exists>R. frt_bv_and_x junk h a b = Inr (h(a := R)) \<and> bv_result (\<and>) (h a) (h b) R \<and> \<not> extends_as_ones R"
    "\<exists>R. frt_bv_or_x junk h a b = Inr (h(a := R)) \<and> bv_result (\<or>) (h a) (h b) R \<and> \<not> extends_as_ones R"
    "\<exists>R. frt_bv_xor_x junk h a b = Inr (h(a := R)) \<and> bv_result (\<noteq>) (h a) (h b) R \<and> \<not> extends_as_ones R"
  using bv_and.op_same[OF assms] bv_or.op_same[OF assms] bv_xor.op_same[OF assms]
  by (simp_all add: frt_bv_and_x_def frt_bv_and_i_def frt_bv_or_x_def frt_bv_or_i_def frt_bv_xor_x_def frt_bv_xor_i_def)

section \<open>Complement\<close>

lemma frt_bv_not_i_ok:
  assumes wf: "bv_wf (h a)"
  shows "\<exists>R. frt_bv_not_i junk h r a = Inr (h(r := R)) \<and> bv_ok R \<and> bv_size R = bv_size (h a) \<and>
     (\<forall>i. frt_bv_get R i = (\<not> frt_bv_get (h a) i)) \<and> bv_count R = int (card (bv_diff R))"
proof -
  let ?a = "h a" and ?m = "bv_size (h a)"
  define ws where "ws = FRT_TO_WORD ?m"
  define e where "e = (\<not> extends_as_ones ?a)"
  define capa where "capa = max (frt_round2 ws) 4"
  define R0 where "R0 = frt_bv_capa junk ((h r)\<lparr>extends_as_ones := e\<rparr>) capa ?m"
  define H1 where "H1 = h(r := R0)"
  have m_small: "?m < 2 ^ 31" using wf by (simp add: bv_wf_def)
  then have "ws < 2 ^ 32" by (simp add: ws_def FRT_TO_WORD_eq)
  then have ws_capa: "ws < capa" using frt_round2_gt[of ws] by (simp add: capa_def)
  note C = frt_bv_capa_ok[where sz = ?m and capa = capa and junk = junk and bv = "(h r)\<lparr>extends_as_ones := e\<rparr>",
      folded R0_def ws_def, OF less_imp_le[OF ws_capa]]
  have len0: "ws < bv_capa R0" using C(1) ws_capa by auto
  have ca: "ws \<le> bv_capa ?a" using wf to_word_le by (auto simp: ws_def bv_wf_def)
  have bits1: "bv_bits (H1 a) ! j = bv_bits ?a ! j" if "j < ws" for j
    using that C(5)[of j] ca by (auto simp: H1_def)
  define B2 where "B2 = map (\<lambda>j. if 0 \<le> j \<and> j < 0 + ws then NOT (bv_bits (H1 a) ! j)
      else bv_bits (H1 r) ! j) [0..<bv_capa (H1 r)]"
  define H2 where "H2 = H1(r := (H1 r)\<lparr>bv_bits := B2\<rparr>)"
  have loop: "bv_op_loop (\<lambda>w _. NOT w) r a a 0 ws H1 = H2"
    using bv_op_loop_ok[of 0 ws H1 r "\<lambda>w _. NOT w" a a] len0 by (simp add: H2_def B2_def H1_def)
  have lenB2: "length B2 = bv_capa R0" by (simp add: B2_def H1_def)
  define B3 where "B3 = take ws B2 @ replicate (bv_capa R0 - ws) (ext_word e)"
  define R1 where "R1 = R0\<lparr>bv_bits := B3\<rparr>"
  have first: "length (take ws B2) = ws" using lenB2 len0 by simp
  have R1: "bv_size R1 = ?m" "extends_as_ones R1 = e" "bv_bits R1 = B3" "length B3 = bv_capa R0"
    using C len0 first by (simp_all add: R1_def B3_def)
  have low: "B3 ! j = NOT (word_of ?a j)" if "j < ws" for j
    using that first bits1[of j] len0
    by (simp add: B3_def nth_append B2_def word_of_def ws_def[symmetric] H1_def)
  have bit_R1: "bit_at (bv_bits R1) i = (\<not> frt_bv_get ?a i)" if "i < 32 * ws" for i
  proof -
    have "i div 32 < ws" using that by (simp add: less_mult_imp_div_less mult.commute)
    then show ?thesis
      using low[of "i div 32"] R1(3) bit_word_of[OF wf, of "i mod 32" "i div 32"]
      by (simp add: bit_at_def bit_simps)
  qed
  have out: "(\<not> frt_bv_get ?a i) = e" if "?m \<le> i" for i
    using that by (simp add: frt_bv_get_bit e_def)
  have m_ws: "?m \<le> 32 * ws" "?m div 32 < bv_capa R1"
    using to_word_bounds(1,2)[of ?m] len0 R1 by (simp_all add: ws_def)
  have tail: "bit_at (bv_bits R1) i = e" if "?m \<le> i" "i < 32 * bv_capa R1" for i
  proof (cases "i < 32 * ws")
    case True
    then show ?thesis using bit_R1[of i] out that by simp
  next
    case False
    then have "ws \<le> i div 32" by linarith
    moreover have "i div 32 < bv_capa R0" using that R1 by (simp add: less_mult_imp_div_less mult.commute)
    ultimately have "bv_bits R1 ! (i div 32) = ext_word e"
      unfolding R1(3) using first by (simp add: B3_def nth_append)
    then show ?thesis by (simp add: bit_at_def)
  qed
  have lt: "bv_size R1 < 32 * bv_capa R1" using m_ws len0 R1 by simp
  define R where "R = R1\<lparr>bv_count := int (card (bv_diff R1))\<rparr>"
  have rec: "frt_bv_recount R1 = Inr R"
    unfolding R_def using lt m_ws(2) R1 tail by (intro frt_bv_recount_ok) auto
  have s0: "bv_size ((h(r := (h r)\<lparr>extends_as_ones := e\<rparr>)) a) = ?m" by simp
  have s1: "(h(r := (h r)\<lparr>extends_as_ones := e\<rparr>))
      (r := frt_bv_capa junk ((h(r := (h r)\<lparr>extends_as_ones := e\<rparr>)) r) capa ?m) = H1"
    by (simp add: H1_def R0_def)
  have s2: "H2(r := (H2 r)\<lparr>bv_bits := take ws (bv_bits (H2 r)) @
      replicate (bv_capa (H2 r) - ws) (ext_word (extends_as_ones (H2 r)))\<rparr>) = h(r := R1)"
    using C(3) by (simp add: R1_def B3_def H2_def lenB2) (simp add: H1_def)
  have "frt_bv_not_i junk h r a = ebind (frt_bv_recount ((h(r := R1)) r)) (\<lambda>R. Inr ((h(r := R1))(r := R)))"
    unfolding frt_bv_not_i_def Let_def
    unfolding ws_def[symmetric] capa_def[symmetric] e_def[symmetric] s0 s1 loop s2 by (rule refl)
  then have "frt_bv_not_i junk h r a = Inr (h(r := R))" using rec by simp
  moreover have "bv_diff R = bv_diff R1" by (simp add: R_def bv_diff_def frt_bv_get_bit)
  moreover have "frt_bv_get R i = (\<not> frt_bv_get ?a i)" for i
    using bit_R1[of i] out[of i] R1 m_ws(1) by (simp add: R_def frt_bv_get_bit)
  moreover have "bv_ok R"
    using m_small tail R1 lt by (auto simp: R_def bv_ok_def)
  ultimately show ?thesis
    using R1 by (intro exI[of _ R]) (simp add: R_def)
qed

lemma frt_bv_not_ok:
  assumes "r \<noteq> a" "bv_wf (h a)"
  shows "\<exists>R. frt_bv_not junk h r a = Inr (h(r := R)) \<and> bv_ok R \<and> bv_size R = bv_size (h a) \<and>
     (\<forall>i. frt_bv_get R i = (\<not> frt_bv_get (h a) i)) \<and> bv_count R = int (card (bv_diff R))"
  using frt_bv_not_i_ok[of "h(r := frt_bv_new)" a junk r] assms by (simp add: frt_bv_not_def)

end
