(* ===== verification/FrtSearch.thy ===== *)
theory FrtSearch
  imports FrtPriorityQueue FrtBitVector
begin

text \<open>
  The searchers of \<open>frt_search.c\<close>: how the documents a query matches become a page of hits.

  \<^item> \<open>hit\<close> is \<open>FrtHit\<close> and \<open>hit_lt\<close> its order: the lower score is less and, of two equal scores, the
    higher document number. The queue operations \<open>hit_pq_*\<close> are the copies \<open>frt_search.c\<close> keeps of those
    in \<open>frt_priorityqueue.c\<close>. A score is a value of a linearly ordered type with a product, as
    \<open>float\<close> is without NaN; no law of its arithmetic is used.
  \<^item> A scorer, which comes from the weight of the query, is the list of the documents it finds, in
    increasing order, with their scores; \<open>None\<close> when the weight made none. \<open>next\<close> moves along the list and
    \<open>skip_to\<close> drops the documents before its target.
  \<^item> \<open>isea_search_w\<close>, \<open>isea_search_each_w\<close> and \<open>isea_search_unscored_w\<close> search one index;
    \<open>msea_*\<close> search several, whose documents are numbered one after the other by \<open>starts\<close>. The
    searchers of a multi searcher are their search functions, so that they may be multi searchers again.
  \<^item> The searches are modelled for a query without a \<open>sort\<close>. The sum \<open>num_docs + first_doc\<close> is an
    \<open>int\<close> of the code: where it overflows the search is \<open>UndefinedBehaviour\<close>.
\<close>

section \<open>Hits and their queue\<close>

datatype 's hit = Hit (hit_doc: int) (hit_score: 's)

definition hit_lt :: "'s::linorder hit \<Rightarrow> 's hit \<Rightarrow> bool" where
  "hit_lt hit1 hit2 =
     (if hit_score hit1 = hit_score hit2 then hit_doc hit1 > hit_doc hit2 else hit_score hit1 < hit_score hit2)"

definition hit_pq_down :: "'s::linorder hit frt_pq \<Rightarrow> 's hit frt_pq" where
  "hit_pq_down pq =
     (let heap = pq_heap pq; node = heap ! 1;
          (heap, i) = pq_down_loop hit_lt (pq_size pq) node heap 1 (pq_child hit_lt (pq_size pq) heap 1)
      in pq\<lparr>pq_heap := heap[i := node]\<rparr>)"

definition hit_pq_pop :: "'s::linorder hit frt_pq \<Rightarrow> 's hit option \<times> 's hit frt_pq" where
  "hit_pq_pop pq =
     (if pq_size pq > 0 then
        (let result = pq_heap pq ! 1;
             heap = (pq_heap pq)[1 := pq_heap pq ! pq_size pq];
             heap = heap[pq_size pq := None]
         in (result, hit_pq_down (pq\<lparr>pq_heap := heap, pq_size := pq_size pq - 1\<rparr>)))
      else (None, pq))"

definition hit_pq_up :: "'s::linorder hit frt_pq \<Rightarrow> 's hit frt_pq" where
  "hit_pq_up pq =
     (let i = pq_size pq; j = i div 2; node = pq_heap pq ! i;
          (heap, i) = pq_up_loop hit_lt node (pq_heap pq) i j
      in pq\<lparr>pq_heap := heap[i := node]\<rparr>)"

definition hit_pq_insert :: "'s::linorder hit frt_pq \<Rightarrow> 's hit \<Rightarrow> 's hit frt_pq" where
  "hit_pq_insert pq hit =
     (if pq_size pq < pq_capa pq then
        (let n = pq_size pq + 1;
             heap = (if n \<ge> length (pq_heap pq) then pq_heap pq @ replicate (length (pq_heap pq)) None
                     else pq_heap pq)
         in hit_pq_up (pq\<lparr>pq_size := n, pq_heap := heap[n := Some hit]\<rparr>))
      else if pq_size pq > 0 \<and> cell_lt hit_lt (pq_heap pq ! 1) (Some hit) then
        hit_pq_down (pq\<lparr>pq_heap := (pq_heap pq)[1 := Some hit]\<rparr>)
      else pq)"

text \<open>\<open>hit_pq_multi_insert\<close> inserts a copy of the hit and frees the hit.\<close>

definition hit_pq_multi_insert :: "'s::linorder hit frt_pq \<Rightarrow> 's hit \<Rightarrow> 's hit frt_pq" where
  "hit_pq_multi_insert pq hit = hit_pq_insert pq hit"

section \<open>Searching one index\<close>

record 's top_docs =
  total_hits :: int
  td_hits :: "'s hit list"
  max_score :: 's

definition INT_MAX :: int where
  "INT_MAX = 2 ^ 31 - 1"

definition sea_check_args :: "int \<Rightarrow> int \<Rightarrow> unit res" where
  "sea_check_args num_docs first_doc =
     (if num_docs \<le> 0 then Inl FRT_ARG_ERROR else if first_doc < 0 then Inl FRT_ARG_ERROR else Inr ())"

text \<open>\<open>num_docs + (num_docs == INT_MAX ? 0 : first_doc)\<close>, in \<open>int\<close>\<close>

definition max_size_of :: "int \<Rightarrow> int \<Rightarrow> int res" where
  "max_size_of first_doc num_docs =
     (let n = num_docs + (if num_docs = INT_MAX then 0 else first_doc)
      in if n > INT_MAX \<or> n < - INT_MAX - 1 then Inl UndefinedBehaviour else Inr n)"

text \<open>
  Whether a document is left out, and its score: the bits of the filter, then the post filter, whose
  factor is 0 to refuse the document and may lower its score.
\<close>

definition accept :: "bitvector option \<Rightarrow> (int \<Rightarrow> 's \<Rightarrow> 's) option \<Rightarrow> 's hit \<Rightarrow> ('s::{linorder,zero,one,times}) option" where
  "accept bits post_filter h =
     (let doc = hit_doc h; score = hit_score h
      in if (case bits of None \<Rightarrow> False | Some bv \<Rightarrow> \<not> frt_bv_get bv (nat doc)) then None
         else (case post_filter of
                 None \<Rightarrow> Some 1
               | Some f \<Rightarrow> let filter_factor = f doc score
                           in if filter_factor = 0 then None else Some filter_factor))"

text \<open>The loop \<open>while (scorer->next(scorer))\<close> of \<open>isea_search_w\<close>\<close>

fun isea_search_loop ::
  "bitvector option \<Rightarrow> (int \<Rightarrow> 's \<Rightarrow> 's) option \<Rightarrow> 's hit list \<Rightarrow> 's hit frt_pq \<Rightarrow> int \<Rightarrow> 's
     \<Rightarrow> ('s::{linorder,zero,one,times}) hit frt_pq \<times> int \<times> 's" where
  "isea_search_loop bits post_filter [] hq cnt ms = (hq, cnt, ms)"
| "isea_search_loop bits post_filter (h # scorer) hq cnt ms =
     (case accept bits post_filter h of
        None \<Rightarrow> isea_search_loop bits post_filter scorer hq cnt ms
      | Some filter_factor \<Rightarrow>
          let score = hit_score h;
              score = (if filter_factor < 1 then score * filter_factor else score)
          in isea_search_loop bits post_filter scorer (hit_pq_insert hq (Hit (hit_doc h) score)) (cnt + 1)
               (if score > ms then score else ms))"

text \<open>\<open>for (i = num_docs - 1; i >= 0; i--) score_docs[i] = hq_pop(hq)\<close>, from the last hit to the first\<close>

fun pop_hits :: "nat \<Rightarrow> 's::linorder hit list \<Rightarrow> 's hit frt_pq \<Rightarrow> 's hit list" where
  "pop_hits 0 score_docs hq = score_docs"
| "pop_hits (Suc n) score_docs hq =
     (case hit_pq_pop hq of
        (Some h, hq) \<Rightarrow> pop_hits n (h # score_docs) hq
      | (None, hq) \<Rightarrow> pop_hits n score_docs hq)"

definition page_of :: "int \<Rightarrow> int \<Rightarrow> 's::linorder hit frt_pq \<Rightarrow> 's hit list" where
  "page_of first_doc num_docs hq =
     (if int (pq_size hq) > first_doc then
        (let num_docs = (if int (pq_size hq) - first_doc < num_docs then int (pq_size hq) - first_doc else num_docs)
         in pop_hits (nat num_docs) [] hq)
      else [])"

definition isea_search_w ::
  "nat \<Rightarrow> 's hit list option \<Rightarrow> bitvector option \<Rightarrow> (int \<Rightarrow> 's \<Rightarrow> 's) option \<Rightarrow> int \<Rightarrow> int
     \<Rightarrow> ('s::{linorder,zero,one,times}) top_docs res" where
  "isea_search_w ir_num_docs scorer bits post_filter first_doc num_docs =
     ebind (max_size_of first_doc num_docs) (\<lambda>max_size.
     ebind (sea_check_args num_docs first_doc) (\<lambda>_.
       let hq = frt_pq_new (nat max_size) hit_lt
       in case scorer of
            None \<Rightarrow> Inr \<lparr>total_hits = 0, td_hits = [], max_score = 0\<rparr>
          | Some docs \<Rightarrow>
              if ir_num_docs = 0 then Inr \<lparr>total_hits = 0, td_hits = [], max_score = 0\<rparr>
              else (let (hq, cnt, ms) = isea_search_loop bits post_filter docs hq 0 0
                    in Inr \<lparr>total_hits = cnt, td_hits = page_of first_doc num_docs hq, max_score = ms\<rparr>)))"

text \<open>
  \<open>isea_search_each_w\<close> calls \<open>fn\<close> on each document and its score: the calls it makes, in order.
\<close>

fun isea_search_each_w ::
  "bitvector option \<Rightarrow> (int \<Rightarrow> 's \<Rightarrow> 's) option \<Rightarrow> ('s::{linorder,zero,one,times}) hit list \<Rightarrow> (int \<times> 's) list" where
  "isea_search_each_w bits post_filter [] = []"
| "isea_search_each_w bits post_filter (h # scorer) =
     (case accept bits post_filter h of
        None \<Rightarrow> isea_search_each_w bits post_filter scorer
      | Some filter_factor \<Rightarrow>
          (hit_doc h, filter_factor * hit_score h) # isea_search_each_w bits post_filter scorer)"

text \<open>The loop \<open>do ... while (count < limit && scorer->next(scorer))\<close>, at a document of the scorer\<close>

fun unscored_loop :: "int \<Rightarrow> int list \<Rightarrow> int \<Rightarrow> int list" where
  "unscored_loop limit [] written = []"
| "unscored_loop limit (doc # docs) written =
     doc # (if written + 1 < limit then unscored_loop limit docs (written + 1) else [])"

definition isea_search_unscored_w :: "int list option \<Rightarrow> int \<Rightarrow> int \<Rightarrow> int list" where
  "isea_search_unscored_w scorer limit offset_docnum =
     (case scorer of
        None \<Rightarrow> []
      | Some docs \<Rightarrow> unscored_loop limit (dropWhile (\<lambda>d. d < offset_docnum) docs) 0)"

section \<open>Searching several indexes\<close>

text \<open>The loop of \<open>frt_msea_init\<close>: \<open>starts[i]\<close> and, behind them, the number of documents.\<close>

fun msea_starts :: "int list \<Rightarrow> int \<Rightarrow> int list" where
  "msea_starts [] max_doc = [max_doc]"
| "msea_starts (d # ds) max_doc = max_doc # msea_starts ds (max_doc + d)"

function msea_scan_last :: "int list \<Rightarrow> int \<Rightarrow> int \<Rightarrow> int \<Rightarrow> int" where
  "msea_scan_last starts s_cnt mid_val mid =
     (if mid + 1 < s_cnt \<and> starts ! nat (mid + 1) = mid_val then msea_scan_last starts s_cnt mid_val (mid + 1) else mid)"
  by pat_completeness auto
termination by (relation "measure (\<lambda>(starts, s_cnt, mid_val, mid). nat (s_cnt - mid))") auto

declare msea_scan_last.simps [simp del]

function msea_index_loop :: "int list \<Rightarrow> int \<Rightarrow> int \<Rightarrow> int \<Rightarrow> int \<Rightarrow> int" where
  "msea_index_loop starts s_cnt n lo hi =
     (if hi \<ge> lo then
        (let mid = (lo + hi) div 2; mid_val = starts ! nat mid
         in if n < mid_val then msea_index_loop starts s_cnt n lo (mid - 1)
            else if n > mid_val then msea_index_loop starts s_cnt n (mid + 1) hi
            else msea_scan_last starts s_cnt mid_val mid)
      else hi)"
  by pat_completeness auto
termination by (relation "measure (\<lambda>(starts, s_cnt, n, lo, hi). nat (hi - lo + 1))") auto

declare msea_index_loop.simps [simp del]

definition msea_get_searcher_index :: "int list \<Rightarrow> int \<Rightarrow> int \<Rightarrow> int" where
  "msea_get_searcher_index starts s_cnt n = msea_index_loop starts s_cnt n 0 (s_cnt - 1)"

text \<open>\<open>s->get_doc(s, doc_num - msea->starts[i])\<close>: the searcher asked and the number it is asked for\<close>

definition msea_get_doc :: "int list \<Rightarrow> int \<Rightarrow> int \<Rightarrow> int \<times> int" where
  "msea_get_doc starts s_cnt doc_num =
     (let i = msea_get_searcher_index starts s_cnt doc_num in (i, doc_num - starts ! nat i))"

text \<open>The sum of what the searchers answer to \<open>doc_freq\<close>\<close>

definition msea_doc_freq :: "int list \<Rightarrow> int" where
  "msea_doc_freq doc_freqs = foldl (+) 0 doc_freqs"

text \<open>
  The searcher's loop over its searchers \<open>(search_w, starts[i])\<close>. Their hits are moved by \<open>starts[i]\<close>
  and inserted.
\<close>

fun msea_search_loop ::
  "int \<Rightarrow> ((int \<Rightarrow> int \<Rightarrow> 's::{linorder,zero} top_docs res) \<times> int) list \<Rightarrow> 's hit frt_pq \<Rightarrow> int \<Rightarrow> 's
     \<Rightarrow> ('s hit frt_pq \<times> int \<times> 's) res" where
  "msea_search_loop max_size [] hq cnt ms = Inr (hq, cnt, ms)"
| "msea_search_loop max_size ((search_w, start) # ss) hq cnt ms =
     ebind (search_w 0 max_size) (\<lambda>td.
       let hq = (if length (td_hits td) > 0 then
                   foldl (\<lambda>hq hit. hit_pq_multi_insert hq (Hit (hit_doc hit + start) (hit_score hit))) hq (td_hits td)
                 else hq);
           ms = (if length (td_hits td) > 0 \<and> max_score td > ms then max_score td else ms)
       in msea_search_loop max_size ss hq (cnt + total_hits td) ms)"

definition msea_search_w ::
  "((int \<Rightarrow> int \<Rightarrow> 's::{linorder,zero} top_docs res) \<times> int) list \<Rightarrow> int \<Rightarrow> int \<Rightarrow> 's top_docs res" where
  "msea_search_w searchers first_doc num_docs =
     ebind (max_size_of first_doc num_docs) (\<lambda>max_size.
     ebind (sea_check_args num_docs first_doc) (\<lambda>_.
     ebind (msea_search_loop max_size searchers (frt_pq_new (nat max_size) hit_lt) 0 0) (\<lambda>(hq, cnt, ms).
       Inr \<lparr>total_hits = cnt, td_hits = page_of first_doc num_docs hq, max_score = ms\<rparr>)))"

definition msea_search_each_w :: "((int \<times> 's) list \<times> int) list \<Rightarrow> (int \<times> 's) list" where
  "msea_search_each_w searchers = concat (map (\<lambda>(calls, start). map (\<lambda>(d, s). (d + start, s)) calls) searchers)"

text \<open>
  \<open>msea_search_unscored_w\<close>; the searchers come with \<open>starts[i]\<close> and \<open>starts[i+1]\<close>, \<open>buf\<close> is what was
  written so far.
\<close>

fun msea_unscored_loop ::
  "((int \<Rightarrow> int \<Rightarrow> int list) \<times> int \<times> int) list \<Rightarrow> int \<Rightarrow> int \<Rightarrow> int list \<Rightarrow> int list" where
  "msea_unscored_loop [] limit offset_docnum buf = buf"
| "msea_unscored_loop ((search_unscored_w, start, next_start) # ss) limit offset_docnum buf =
     (if int (length buf) < limit then
        (if offset_docnum < next_start then
           (let current_limit = limit - int (length buf);
                current_offset_docnum = (if offset_docnum > start then offset_docnum - start else 0);
                docs = search_unscored_w current_limit current_offset_docnum
            in msea_unscored_loop ss limit offset_docnum (buf @ map (\<lambda>d. d + start) docs))
         else msea_unscored_loop ss limit offset_docnum buf)
      else buf)"

definition msea_search_unscored_w ::
  "((int \<Rightarrow> int \<Rightarrow> int list) \<times> int \<times> int) list \<Rightarrow> int \<Rightarrow> int \<Rightarrow> int list" where
  "msea_search_unscored_w searchers limit offset_docnum = msea_unscored_loop searchers limit offset_docnum []"

end
