(* ===== verification/FrtSearchLaws.thy ===== *)
theory FrtSearchLaws
  imports FrtSearch FrtPriorityQueueLaws
begin

text \<open>
  What the searches of \<open>FrtSearch\<close> answer.

  \<^item> Hits are linearly ordered by \<open>hit_lt\<close>; \<open>topn n xs\<close> are the \<open>n\<close> best of the hits \<open>xs\<close>, best first.
  \<^item> \<open>holds n xs pq\<close>: the queue \<open>pq\<close> of capacity \<open>n\<close> holds the \<open>n\<close> best of the hits \<open>xs\<close> offered to it.
  \<^item> \<open>searcher\<close> is what a multi searcher needs of its searchers: their best \<open>n\<close> hits. An index searcher
    has it, and so has a multi searcher over any searchers that have it.
\<close>

section \<open>The order of hits\<close>

instantiation hit :: (linorder) linorder
begin

definition less_hit :: "'a hit \<Rightarrow> 'a hit \<Rightarrow> bool" where
  "less_hit = hit_lt"

definition less_eq_hit :: "'a hit \<Rightarrow> 'a hit \<Rightarrow> bool" where
  "less_eq_hit a b \<longleftrightarrow> \<not> hit_lt b a"

instance
  by standard
    (auto simp: less_hit_def less_eq_hit_def hit_lt_def split: if_splits intro: hit.expand)

end

lemma hit_lt_less: "hit_lt = (<)"
  by (simp add: less_hit_def)

interpretation hit_queue: less_laws "hit_lt :: 's::linorder hit \<Rightarrow> 's hit \<Rightarrow> bool"
  unfolding hit_lt_less by unfold_locales auto

section \<open>The copies of the queue operations\<close>

lemma hit_pq_down_eq: "pq_less_than_i pq = hit_lt \<Longrightarrow> hit_pq_down pq = frt_pq_down pq"
  by (simp add: hit_pq_down_def frt_pq_down_def Let_def)

lemma hit_pq_up_eq: "pq_less_than_i pq = hit_lt \<Longrightarrow> hit_pq_up pq = frt_pq_up pq"
  by (simp add: hit_pq_up_def frt_pq_up_def Let_def)

lemma hit_pq_pop_eq: "pq_less_than_i pq = hit_lt \<Longrightarrow> hit_pq_pop pq = frt_pq_pop pq"
  by (simp add: hit_pq_pop_def frt_pq_pop_def hit_pq_down_eq Let_def)

lemma frt_pq_down_freed:
  "frt_pq_down (pq\<lparr>pq_freed := fs, pq_heap := h\<rparr>) = (frt_pq_down (pq\<lparr>pq_heap := h\<rparr>))\<lparr>pq_freed := fs\<rparr>"
  "pq_freed (frt_pq_down pq) = pq_freed pq"
  by (simp_all add: frt_pq_down_def Let_def split: prod.splits)

lemma hit_pq_insert_eq:
  assumes "pq_less_than_i pq = hit_lt"
  shows "hit_pq_insert pq x = (snd (frt_pq_insert pq x))\<lparr>pq_freed := pq_freed pq\<rparr>"
proof -
  have r: "r\<lparr>pq_freed := pq_freed pq\<rparr> = r" if "pq_freed r = pq_freed pq" for r :: "'a hit frt_pq"
    using that by (cases r) simp
  show ?thesis
    using assms
    by (auto simp: hit_pq_insert_def frt_pq_insert_def frt_pq_push_def hit_pq_up_eq hit_pq_down_eq Let_def
        frt_pq_up_def frt_pq_down_freed r split: prod.splits)
qed

section \<open>The best hits\<close>

definition topn :: "nat \<Rightarrow> 'a::linorder list \<Rightarrow> 'a list" where
  "topn n xs = take n (rev (sort xs))"

definition is_top :: "nat \<Rightarrow> 'a::linorder multiset \<Rightarrow> 'a multiset \<Rightarrow> bool" where
  "is_top n M K \<longleftrightarrow> K \<subseteq># M \<and> size K = min n (size M) \<and> (\<forall>k \<in># K. \<forall>d \<in># M - K. d \<le> k)"

lemma is_topI:
  "M = K + D \<Longrightarrow> size K = min n (size M) \<Longrightarrow> (\<And>k d. k \<in># K \<Longrightarrow> d \<in># D \<Longrightarrow> d \<le> k) \<Longrightarrow> is_top n M K"
  by (simp add: is_top_def)

lemma is_topE:
  assumes "is_top n M K"
  obtains D where "M = K + D" "size K = min n (size M)" "\<And>k d. k \<in># K \<Longrightarrow> d \<in># D \<Longrightarrow> d \<le> k"
proof (rule that[of "M - K"])
  show "M = K + (M - K)" using assms unfolding is_top_def by (simp only: subset_mset.add_diff_inverse)
qed (use assms in \<open>unfold is_top_def, blast+\<close>)

lemma is_top_topn: "is_top n (mset xs) (mset (topn n xs))"
proof -
  let ?r = "rev (sort xs)"
  have M: "mset xs = mset (take n ?r) + mset (drop n ?r)"
    by (metis append_take_drop_id mset_append mset_rev mset_sort)
  have "sorted_wrt (\<ge>) ?r" by (simp add: sorted_wrt_rev)
  then have "\<forall>x \<in> set (take n ?r). \<forall>y \<in> set (drop n ?r). y \<le> x"
    by (metis append_take_drop_id sorted_wrt_append)
  then show ?thesis by (simp add: is_top_def topn_def M min_def)
qed

lemma is_top_unique:
  assumes "is_top n (mset xs) K"
  shows "K = mset (topn n xs)" "sorted_list_of_multiset K = rev (topn n xs)"
proof -
  let ?D = "mset xs - K"
  have sub: "K \<subseteq># mset xs" and sz: "size K = min n (length xs)" and le: "\<forall>k \<in># K. \<forall>d \<in># ?D. d \<le> k"
    using assms by (auto simp: is_top_def)
  have "sort xs = sorted_list_of_multiset ?D @ sorted_list_of_multiset K"
  proof (rule properties_for_sort)
    show "mset (sorted_list_of_multiset ?D @ sorted_list_of_multiset K) = mset xs"
      using sub by simp
    show "sorted (sorted_list_of_multiset ?D @ sorted_list_of_multiset K)"
      using le by (simp add: sorted_append)
  qed
  moreover have len: "length (sorted_list_of_multiset K) = min n (length xs)"
    using sz by (metis mset_sorted_list_of_multiset size_mset)
  moreover have "?D = {#}" if "\<not> n < length xs"
  proof -
    have "size K = size (mset xs)" using sz that by simp
    then have "size ?D = 0" using sub by (simp add: size_Diff_submset)
    then show ?thesis by simp
  qed
  ultimately have "topn n xs = rev (sorted_list_of_multiset K)"
    by (cases "n < length xs") (simp_all add: topn_def)
  then show "sorted_list_of_multiset K = rev (topn n xs)" "K = mset (topn n xs)" by simp_all
qed

lemma topn_mset_cong: "mset xs = mset ys \<Longrightarrow> topn n xs = topn n ys"
  unfolding topn_def by (metis sorted_list_of_multiset_mset)

text \<open>The best of the best of a part are the best of the whole.\<close>

lemma is_top_merge:
  assumes T: "is_top n B T" and K: "is_top n (A + T) K"
  shows "is_top n (A + B) K"
proof -
  obtain DT where B: "B = T + DT" and szT: "size T = min n (size B)"
    and topT: "\<And>k d. k \<in># T \<Longrightarrow> d \<in># DT \<Longrightarrow> d \<le> k" using T by (rule is_topE) blast
  obtain DK where AT: "A + T = K + DK" and szK: "size K = min n (size (A + T))"
    and topK: "\<And>k d. k \<in># K \<Longrightarrow> d \<in># DK \<Longrightarrow> d \<le> k" using K by (rule is_topE) blast
  have "d \<le> k" if k: "k \<in># K" and d: "d \<in># DK + DT" for k d
  proof (rule ccontr)
    assume "\<not> d \<le> k"
    then have kd: "k < d" by simp
    then have dT: "d \<in># DT" using d topK[OF k, of d] by auto
    have big: "k < t" if "t \<in># T" for t using topT[OF that dT] kd by simp
    have "T \<subseteq># K - {#k#}"
    proof (rule mset_subset_eqI)
      fix t
      show "count T t \<le> count (K - {#k#}) t"
      proof (cases "t \<in># T")
        case True
        then have "t \<notin># DK" using topK[OF k, of t] big by force
        then have "count DK t = 0" by (simp add: not_in_iff)
        then have "count T t \<le> count K t" using arg_cong[OF AT, of "\<lambda>M. count M t"] by simp
        moreover have "t \<noteq> k" using big[OF True] by blast
        ultimately show ?thesis by simp
      next
        case False
        then show ?thesis by (simp add: not_in_iff)
      qed
    qed
    then have "size T \<le> size K - 1" using k size_mset_mono[of T "K - {#k#}"] by (simp add: size_Diff_singleton)
    moreover have "size K \<noteq> 0" using k by auto
    moreover have "size T = n" using szT B dT by (cases DT) auto
    ultimately show False using szK by simp
  qed
  moreover have "A + B = K + (DK + DT)"
    unfolding B add.assoc[symmetric] AT[symmetric] by (simp only: add.assoc)
  moreover have "size K = min n (size (A + B))" using szK szT by (simp add: min_def)
  ultimately show ?thesis by (rule is_topI[rotated 2])
qed

lemma sort_topn: "sort (topn n xs) = rev (topn n xs)"
  using is_top_unique(2)[OF is_top_topn[of n xs]] by simp

lemma topn_append_topn: "topn n (xs @ topn n ys) = topn n (xs @ ys)"
proof -
  have "is_top n (mset (xs @ ys)) (mset (topn n (xs @ topn n ys)))"
    using is_top_merge[OF is_top_topn[of n ys], of "mset xs"] is_top_topn[of n "xs @ topn n ys"] by simp
  from is_top_unique(2)[OF this] show ?thesis by (simp add: sort_topn)
qed

lemma sort_map_mono:
  assumes "strict_mono f"
  shows "sort (map f xs) = map f (sort xs)"
  using assms by (intro properties_for_sort) (simp_all add: sorted_map strict_mono_less_eq)

lemma topn_map: "strict_mono f \<Longrightarrow> topn n (map f xs) = map f (topn n xs)"
  by (simp add: topn_def sort_map_mono rev_map take_map)

section \<open>The queue of a search\<close>

definition holds :: "nat \<Rightarrow> 's::linorder hit list \<Rightarrow> 's hit frt_pq \<Rightarrow> bool" where
  "holds n xs pq \<longleftrightarrow> pq_ok hit_lt pq \<and> pq_capa pq = n \<and> pq_elems pq = mset (topn n xs)"

lemma holds_new: "holds n [] (frt_pq_new n hit_lt)"
  by (simp add: holds_def topn_def hit_queue.frt_pq_new_ok)

lemma holds_cong: "topn n xs = topn n ys \<Longrightarrow> holds n xs pq \<longleftrightarrow> holds n ys pq"
  by (simp add: holds_def)

lemma holds_insert:
  assumes "holds n xs pq"
  shows "holds n (xs @ [x]) (hit_pq_insert pq x)"
proof -
  have ok: "pq_ok hit_lt pq" and capa: "pq_capa pq = n" and el: "pq_elems pq = mset (topn n xs)"
    using assms by (auto simp: holds_def)
  have top: "is_top n (mset xs) (pq_elems pq)" using is_top_topn el by simp
  obtain D where M: "mset xs = pq_elems pq + D" and sz0: "size (pq_elems pq) = min n (size (mset xs))"
    and le: "\<And>k d. k \<in># pq_elems pq \<Longrightarrow> d \<in># D \<Longrightarrow> d \<le> k"
    by (rule is_topE[OF top]) blast
  have sz: "pq_size pq = min n (length xs)" using sz0 by (simp add: pq_elems_size[OF ok])
  obtain how pq' where ins: "frt_pq_insert pq x = (how, pq')" by (cases "frt_pq_insert pq x")
  note I = hit_queue.frt_pq_insert_ok[OF ok, of x, unfolded ins prod.case]
  have eq: "hit_pq_insert pq x = pq'\<lparr>pq_freed := pq_freed pq\<rparr>"
    using ok ins by (simp add: hit_pq_insert_eq pq_ok_def)
  have same: "pq_ok hit_lt (hit_pq_insert pq x)" "pq_capa (hit_pq_insert pq x) = n"
    "pq_elems (hit_pq_insert pq x) = pq_elems pq'"
    using I capa by (simp_all add: eq pq_ok_def pq_elems_def)
  have "is_top n (mset (xs @ [x])) (pq_elems pq')"
  proof (cases "pq_size pq < n")
    case True
    then have "pq_elems pq' = add_mset x (pq_elems pq)"
      using conjunct2[OF conjunct2[OF I]] unfolding capa by (simp only: if_True)
    moreover have "size D = 0"
      using arg_cong[OF M, of size] sz True pq_elems_size[OF ok] by simp
    ultimately have "mset (xs @ [x]) = pq_elems pq' + {#}" using M by simp
    moreover from this have "size (pq_elems pq') = Suc (length xs)" by (metis add.right_neutral length_append_singleton size_mset)
    ultimately show ?thesis using sz True by (intro is_topI[where D = "{#}"]) simp_all
  next
    case full: False
    then have n: "pq_size pq = n" "n \<le> length xs" using sz by auto
    show ?thesis
    proof (cases "\<exists>y \<in># pq_elems pq. hit_lt y x")
      case True
      have "\<exists>y. y \<in># pq_elems pq \<and> (\<forall>z \<in># pq_elems pq. \<not> hit_lt z y) \<and> hit_lt y x \<and>
          add_mset y (pq_elems pq') = add_mset x (pq_elems pq) \<and> pq_freed pq' = pq_freed pq @ [y]"
        using conjunct2[OF conjunct2[OF I]] True full unfolding capa by (simp only: if_False if_True)
      then obtain y where y: "y \<in># pq_elems pq" "\<forall>z \<in># pq_elems pq. \<not> hit_lt z y" "hit_lt y x"
        "add_mset y (pq_elems pq') = add_mset x (pq_elems pq)"
        by (elim exE conjE)
      obtain R where R: "pq_elems pq = add_mset y R" using multi_member_split[OF y(1)] by (elim exE)
      have "add_mset y (pq_elems pq') = add_mset y (add_mset x R)" unfolding y(4) R by (rule add_mset_commute)
      then have new: "pq_elems pq' = add_mset x R" by simp
      have "size (add_mset x R) = n" using pq_elems_size[OF ok] R n by simp
      moreover have "d \<le> k" if "k = x \<or> k \<in># R" "d = y \<or> d \<in># D" for k d
      proof -
        have "d \<le> y" using that(2) le[OF y(1)] by auto
        also have "y \<le> k" using that(1) y(2,3) R by (auto simp: hit_lt_less not_less)
        finally show ?thesis .
      qed
      moreover have "mset (xs @ [x]) = add_mset x R + add_mset y D" using M R by simp
      moreover have "n = min n (size (mset (xs @ [x])))" using n(2) by simp
      ultimately show ?thesis
        unfolding new by (intro is_topI[where D = "add_mset y D"]) auto
    next
      case False
      then have "pq_elems pq' = pq_elems pq"
        using conjunct2[OF conjunct2[OF I]] full unfolding capa by (simp only: if_False)
      moreover have "x \<le> k" if "k \<in># pq_elems pq" for k
        using False that by (auto simp: hit_lt_less not_less)
      moreover have "mset (xs @ [x]) = pq_elems pq + add_mset x D" using M by simp
      moreover have "size (pq_elems pq) = min n (size (mset (xs @ [x])))"
        using n pq_elems_size[OF ok] by simp
      ultimately show ?thesis
        using le by (intro is_topI[where D = "add_mset x D"]) auto
    qed
  qed
  from is_top_unique(1)[OF this] same show ?thesis by (simp add: holds_def)
qed

lemma holds_inserts:
  "holds n xs pq \<Longrightarrow> holds n (xs @ ys) (foldl hit_pq_insert pq ys)"
proof (induction ys arbitrary: xs pq)
  case (Cons y ys)
  then show ?case using holds_insert[of n xs pq y] Cons.IH[of "xs @ [y]"] by simp
qed simp

lemma holds_size: "holds n xs pq \<Longrightarrow> pq_size pq = min n (length xs)"
  using pq_elems_size[of hit_lt pq] by (simp add: holds_def topn_def min.commute)

lemma pop_hits_ok:
  assumes "pq_ok hit_lt pq" "k \<le> pq_size pq"
  shows "pop_hits k acc pq = rev (take k (sorted_list_of_multiset (pq_elems pq))) @ acc"
  using assms
proof (induction k arbitrary: acc pq)
  case (Suc k)
  have pos: "0 < pq_size pq" using Suc.prems(2) by simp
  have less: "pq_less_than_i pq = hit_lt" using Suc.prems(1) by (simp add: pq_ok_def)
  note P = hit_queue.frt_pq_pop_ok[OF Suc.prems(1) pos]
  obtain x where x: "fst (frt_pq_pop pq) = Some x" "pq_elems pq = add_mset x (pq_elems (snd (frt_pq_pop pq)))"
    "\<forall>y \<in># pq_elems pq. \<not> hit_lt y x" using P(1) by (elim exE conjE)
  have "sorted_list_of_multiset (pq_elems pq) =
      insort x (sorted_list_of_multiset (pq_elems (snd (frt_pq_pop pq))))"
    unfolding x(2) by simp
  also have "\<dots> = x # sorted_list_of_multiset (pq_elems (snd (frt_pq_pop pq)))"
    using x(2,3) by (intro insort_is_Cons) (auto simp: hit_lt_less not_less)
  finally have srt: "sorted_list_of_multiset (pq_elems pq) =
      x # sorted_list_of_multiset (pq_elems (snd (frt_pq_pop pq)))" .
  have "hit_pq_pop pq = (Some x, snd (frt_pq_pop pq))"
    using x(1) hit_pq_pop_eq[OF less] by (simp add: prod_eq_iff)
  then show ?case
    using Suc.IH[OF P(2), of "x # acc"] P(3) Suc.prems(2) srt by simp
qed simp

lemma rev_take_rev: "rev (take k (rev xs)) = drop (length xs - k) xs"
  by (simp add: take_rev)

lemma page_of_ok:
  assumes h: "holds (nat n) xs pq" and first: "0 \<le> first_doc" and num: "0 < num_docs"
    and n: "n = num_docs + first_doc \<or> n = num_docs \<and> (first_doc = 0 \<or> int (length xs) \<le> n)"
  shows "page_of first_doc num_docs pq = take (nat num_docs) (drop (nat first_doc) (rev (sort xs)))"
proof -
  define R where "R = rev (sort xs)"
  define T where "T = take (nat n) R"
  have ok: "pq_ok hit_lt pq" and el: "pq_elems pq = mset T"
    using h by (auto simp: holds_def topn_def T_def R_def)
  have srt: "sorted_list_of_multiset (pq_elems pq) = rev T"
    using sort_topn[of "nat n" xs] el by (simp add: topn_def T_def R_def)
  have sz: "pq_size pq = length T" using pq_elems_size[OF ok] el by simp
  have lenR: "length R = length xs" by (simp add: R_def)
  show ?thesis
  proof (cases "int (length T) > first_doc")
    case False
    then have "length R \<le> nat first_doc" using n first num lenR by (auto simp: T_def)
    then show ?thesis using False sz by (simp add: page_of_def R_def[symmetric])
  next
    case True
    define k where "k = nat (if int (length T) - first_doc < num_docs then int (length T) - first_doc else num_docs)"
    have k: "k \<le> length T" using first True by (auto simp: k_def)
    have page: "page_of first_doc num_docs pq = drop (length T - k) T"
    proof -
      have p: "pop_hits k [] pq = drop (length T - k) T"
        using pop_hits_ok[OF ok, of k "[]"] k sz by (simp add: srt rev_take_rev)
      show ?thesis
        using True by (simp only: page_of_def Let_def sz if_True k_def[symmetric] p)
    qed
    show ?thesis
    proof (cases "int (length T) - first_doc < num_docs")
      case short: True
      then have "length T - k = nat first_doc" using True first by (auto simp: k_def)
      moreover have "drop (nat first_doc) T = take (nat num_docs) (drop (nat first_doc) R)"
      proof (cases "n = num_docs + first_doc")
        case True
        then have "nat n - nat first_doc = nat num_docs" using first num by simp
        then show ?thesis by (simp add: T_def drop_take)
      next
        case False
        then have "length R \<le> nat n" using n short True lenR first by (auto simp: T_def)
        then show ?thesis using short first by (simp add: T_def)
      qed
      ultimately show ?thesis using page by (simp add: R_def)
    next
      case long: False
      then have kn: "k = nat num_docs" by (simp add: k_def)
      have lenT: "int (length T) = num_docs + first_doc"
        using long n first num lenR by (auto simp: T_def)
      then have "length T - k = nat first_doc" using kn first num by auto
      moreover have "nat n = nat num_docs + nat first_doc" using lenT n first num by (auto simp: T_def)
      ultimately show ?thesis using page by (simp add: R_def T_def drop_take)
    qed
  qed
qed

section \<open>One index\<close>

text \<open>The hits of a search: the accepted documents with their scores.\<close>

definition hits_of ::
  "nat \<Rightarrow> 's hit list option \<Rightarrow> bitvector option \<Rightarrow> (int \<Rightarrow> 's \<Rightarrow> 's) option
     \<Rightarrow> ('s::{linorder,zero,one,times}) hit list" where
  "hits_of ir_num_docs scorer bits post_filter =
     (case scorer of
        None \<Rightarrow> []
      | Some docs \<Rightarrow> if ir_num_docs = 0 then [] else
          List.map_filter (\<lambda>h. map_option (\<lambda>f. Hit (hit_doc h) (if f < 1 then hit_score h * f else hit_score h))
            (accept bits post_filter h)) docs)"

text \<open>What a search promises: the number of hits, the page that was asked for, and the best score.\<close>

definition answer_of :: "'s::{linorder,zero} hit list \<Rightarrow> int \<Rightarrow> int \<Rightarrow> 's top_docs" where
  "answer_of hits first_doc num_docs =
     \<lparr>total_hits = int (length hits),
      td_hits = take (nat num_docs) (drop (nat first_doc) (rev (sort hits))),
      max_score = foldl max 0 (map hit_score hits)\<rparr>"

lemma better_score: "(if s > ms then s else ms) = max ms (s :: 's::linorder)"
  by (auto simp: max_def)

lemma isea_search_loop_ok:
  "isea_search_loop bits post_filter docs hq cnt ms =
     (let hits = hits_of 1 (Some docs) bits post_filter
      in (foldl hit_pq_insert hq hits, cnt + int (length hits), foldl max ms (map hit_score hits)))"
proof (induction docs arbitrary: hq cnt ms)
  case (Cons h docs)
  then show ?case
    by (cases "accept bits post_filter h")
      (simp_all add: hits_of_def map_filter_simps better_score Let_def)
qed (simp add: hits_of_def map_filter_simps)

lemma max_size_of_Inr:
  "max_size_of first_doc num_docs = Inr n \<longleftrightarrow>
     n = num_docs + (if num_docs = INT_MAX then 0 else first_doc) \<and> n \<le> INT_MAX \<and> - INT_MAX - 1 \<le> n"
  by (auto simp: max_size_of_def Let_def)

lemma isea_search_w_ok:
  assumes "0 \<le> first_doc" "0 < num_docs" "num_docs + first_doc \<le> INT_MAX \<or>
      num_docs = INT_MAX \<and> int (length (hits_of ir_num_docs scorer bits post_filter)) \<le> INT_MAX"
  shows "isea_search_w ir_num_docs scorer bits post_filter first_doc num_docs =
    Inr (answer_of (hits_of ir_num_docs scorer bits post_filter) first_doc num_docs)"
proof -
  define n where "n = num_docs + (if num_docs = INT_MAX then 0 else first_doc)"
  have n: "max_size_of first_doc num_docs = Inr n"
    using assms unfolding max_size_of_Inr n_def by (auto simp: INT_MAX_def)
  have args: "sea_check_args num_docs first_doc = Inr ()" using assms by (simp add: sea_check_args_def)
  show ?thesis
  proof (cases "scorer = None \<or> ir_num_docs = 0")
    case True
    then show ?thesis
      using n args by (auto simp: isea_search_w_def Let_def hits_of_def answer_of_def split: option.splits)
  next
    case False
    then obtain docs where docs: "scorer = Some docs" "ir_num_docs \<noteq> 0" by auto
    let ?hits = "hits_of ir_num_docs scorer bits post_filter"
    have eq: "hits_of 1 (Some docs) bits post_filter = ?hits" using docs by (simp add: hits_of_def)
    have h: "holds (nat n) ?hits (foldl hit_pq_insert (frt_pq_new (nat n) hit_lt) ?hits)"
      using holds_inserts[OF holds_new, of "nat n" ?hits] by simp
    have "page_of first_doc num_docs (foldl hit_pq_insert (frt_pq_new (nat n) hit_lt) ?hits) =
        take (nat num_docs) (drop (nat first_doc) (rev (sort ?hits)))"
    proof (intro page_of_ok)
      show "n = num_docs + first_doc \<or> n = num_docs \<and> (first_doc = 0 \<or> int (length ?hits) \<le> n)"
        using assms by (cases "num_docs = INT_MAX") (auto simp: n_def)
    qed (use h assms in auto)
    then show ?thesis
      using n args docs eq by (simp add: isea_search_w_def isea_search_loop_ok answer_of_def Let_def)
  qed
qed

lemma sea_args_error:
  assumes "num_docs \<le> 0 \<or> first_doc < 0" "- INT_MAX - 1 \<le> num_docs + first_doc" "num_docs + first_doc \<le> INT_MAX"
  shows "isea_search_w ir_num_docs scorer bits post_filter first_doc num_docs = Inl FRT_ARG_ERROR"
    "msea_search_w searchers first_doc num_docs = Inl FRT_ARG_ERROR"
proof -
  obtain n where "max_size_of first_doc num_docs = Inr n"
    using assms by (cases "max_size_of first_doc num_docs") (auto simp: max_size_of_def Let_def INT_MAX_def split: if_splits)
  moreover have "sea_check_args num_docs first_doc = Inl FRT_ARG_ERROR"
    using assms(1) by (auto simp: sea_check_args_def)
  ultimately show "isea_search_w ir_num_docs scorer bits post_filter first_doc num_docs = Inl FRT_ARG_ERROR"
    "msea_search_w searchers first_doc num_docs = Inl FRT_ARG_ERROR"
    by (simp_all add: isea_search_w_def msea_search_w_def)
qed

lemma isea_search_each_w_ok:
  "isea_search_each_w bits post_filter docs =
     map (\<lambda>h. (hit_doc h, the (accept bits post_filter h) * hit_score h))
       (filter (\<lambda>h. accept bits post_filter h \<noteq> None) docs)"
  by (induction docs) (auto split: option.splits)

lemma unscored_loop_ok:
  "i < limit \<Longrightarrow> unscored_loop limit docs i = take (nat (limit - i)) docs"
proof (induction docs arbitrary: i)
  case (Cons d docs)
  have "nat (limit - i) = Suc (nat (limit - (i + 1)))" using Cons.prems by simp
  then show ?case using Cons by simp
qed simp

lemma isea_search_unscored_w_ok:
  assumes "0 < limit" "sorted docs"
  shows "isea_search_unscored_w (Some docs) limit offset_docnum =
    take (nat limit) (filter (\<lambda>d. offset_docnum \<le> d) docs)"
proof -
  have "dropWhile (\<lambda>d. d < offset_docnum) docs = filter (\<lambda>d. \<not> d < offset_docnum) docs"
    using assms(2) by (induction docs) (auto simp: not_less intro!: filter_True[symmetric])
  then show ?thesis
    using assms(1) by (simp add: isea_search_unscored_w_def unscored_loop_ok not_less)
qed

section \<open>Several indexes\<close>

text \<open>What a multi searcher asks of a searcher: its best \<open>n\<close> hits.\<close>

locale searcher =
  fixes search_w :: "int \<Rightarrow> int \<Rightarrow> 's::{linorder,zero} top_docs res"
    and hits :: "'s hit list"
  assumes best: "0 < n \<Longrightarrow> n \<le> INT_MAX \<Longrightarrow> search_w 0 n = Inr (answer_of hits 0 n)"

definition shift :: "int \<Rightarrow> 's hit \<Rightarrow> 's hit" where
  "shift start h = Hit (hit_doc h + start) (hit_score h)"

lemma shift_mono: "strict_mono (shift start :: 's::linorder hit \<Rightarrow> 's hit)"
  by (rule strict_monoI) (auto simp: shift_def less_hit_def hit_lt_def)

lemma shift_score [simp]: "hit_score (shift start h) = hit_score h"
  by (simp add: shift_def)

locale searchers =
  fixes ss :: "((int \<Rightarrow> int \<Rightarrow> 's::{linorder,zero} top_docs res) \<times> int) list"
    and hitss :: "'s hit list list"
  assumes each: "list_all2 (\<lambda>(search_w, start) hits. searcher search_w hits) ss hitss"
begin

definition all_hits :: "'s hit list" where
  "all_hits = concat (map2 (\<lambda>(search_w, start) hits. map (shift start) hits) ss hitss)"

end

lemma foldl_max_base: "foldl max (max a b) xs = max a (foldl max (b :: 's::linorder) xs)"
  by (induction xs arbitrary: b) (simp_all add: max.assoc)

lemma foldl_max_ge: "a \<le> foldl max (a :: 's::linorder) xs"
proof (induction xs arbitrary: a)
  case (Cons x xs)
  have "a \<le> max a x" by simp
  also have "\<dots> \<le> foldl max (max a x) xs" by (rule Cons.IH)
  finally show ?case by simp
qed simp

lemma msea_search_loop_ok:
  assumes "list_all2 (\<lambda>(search_w, start) hits. searcher search_w hits) ss hitss"
    and "0 < n" "n \<le> INT_MAX" "holds (nat n) xs hq" "0 \<le> ms"
  shows "\<exists>hq'. msea_search_loop n ss hq cnt ms = Inr (hq',
      cnt + int (length (concat (map2 (\<lambda>(search_w, start) hits. map (shift start) hits) ss hitss))),
      foldl max ms (map hit_score (concat (map2 (\<lambda>(search_w, start) hits. map (shift start) hits) ss hitss)))) \<and>
    holds (nat n) (xs @ concat (map2 (\<lambda>(search_w, start) hits. map (shift start) hits) ss hitss)) hq'"
  using assms
proof (induction arbitrary: hq cnt ms xs rule: list_all2_induct)
  case Nil
  then show ?case by simp
next
  case (Cons p ss hits hitss)
  obtain sw start where p: "p = (sw, start)" by (cases p)
  define td where "td = answer_of hits 0 n"
  have td: "sw 0 n = Inr td"
    using Cons.hyps(1) p searcher.best[of sw hits n] Cons.prems(1,2) by (simp add: td_def)
  have top: "td_hits td = topn (nat n) hits" by (simp add: td_def answer_of_def topn_def)
  define hq1 where "hq1 = foldl (\<lambda>hq hit. hit_pq_multi_insert hq (Hit (hit_doc hit + start) (hit_score hit))) hq (td_hits td)"
  have "hq1 = foldl hit_pq_insert hq (map (shift start) (td_hits td))"
    by (simp add: hq1_def hit_pq_multi_insert_def shift_def foldl_map)
  also have "map (shift start) (td_hits td) = topn (nat n) (map (shift start) hits)"
    by (simp add: top topn_map[OF shift_mono])
  finally have h1: "holds (nat n) (xs @ map (shift start) hits) hq1"
    using holds_inserts[OF Cons.prems(3), of "topn (nat n) (map (shift start) hits)"]
    by (simp add: holds_cong[OF topn_append_topn])
  define ms1 where "ms1 = foldl max ms (map hit_score hits)"
  have ms: "(if length (td_hits td) > 0 \<and> max_score td > ms then max_score td else ms) = ms1"
  proof -
    have max: "max_score td = foldl max 0 (map hit_score hits)" by (simp add: td_def answer_of_def)
    have "ms1 = max ms (max_score td)"
      using foldl_max_base[of ms 0 "map hit_score hits"] Cons.prems(4) by (simp add: ms1_def max max_def)
    moreover have "hits = [] \<Longrightarrow> ms1 = ms" by (simp add: ms1_def)
    moreover have "length (td_hits td) = 0 \<longleftrightarrow> hits = []"
      using Cons.prems(1) by (cases hits) (auto simp: top topn_def min_def)
    ultimately show ?thesis by (auto simp: max_def)
  qed
  have nonneg: "0 \<le> ms1" using Cons.prems(4) foldl_max_ge[of ms] by (auto simp: ms1_def intro: order.trans)
  have hq: "(if length (td_hits td) > 0 then hq1 else hq) = hq1" by (simp add: hq1_def)
  have cnt: "total_hits td = int (length hits)" by (simp add: td_def answer_of_def)
  have "msea_search_loop n (p # ss) hq cnt ms = msea_search_loop n ss hq1 (cnt + int (length hits)) ms1"
    unfolding p msea_search_loop.simps td ebind_simps Let_def hq1_def[symmetric] hq ms cnt by (rule refl)
  then show ?case
    using Cons.IH[OF Cons.prems(1,2) h1 nonneg, of "cnt + int (length hits)"] p
    by (simp add: ms1_def comp_def add.assoc)
qed

context searchers
begin

lemma msea_search_w_ok:
  assumes "0 \<le> first_doc" "0 < num_docs" "num_docs + first_doc \<le> INT_MAX \<or>
      num_docs = INT_MAX \<and> int (length all_hits) \<le> INT_MAX"
  shows "msea_search_w ss first_doc num_docs = Inr (answer_of all_hits first_doc num_docs)"
proof -
  define n where "n = num_docs + (if num_docs = INT_MAX then 0 else first_doc)"
  have n: "max_size_of first_doc num_docs = Inr n" "0 < n" "n \<le> INT_MAX"
    using assms unfolding max_size_of_Inr n_def by (auto simp: INT_MAX_def)
  have args: "sea_check_args num_docs first_doc = Inr ()" using assms by (simp add: sea_check_args_def)
  obtain hq where L: "msea_search_loop n ss (frt_pq_new (nat n) hit_lt) 0 0 =
      Inr (hq, int (length all_hits), foldl max 0 (map hit_score all_hits))" and h: "holds (nat n) all_hits hq"
    using msea_search_loop_ok[OF each n(2,3) holds_new order.refl, of 0] by (auto simp: all_hits_def)
  have "page_of first_doc num_docs hq = take (nat num_docs) (drop (nat first_doc) (rev (sort all_hits)))"
  proof (intro page_of_ok)
    show "n = num_docs + first_doc \<or> n = num_docs \<and> (first_doc = 0 \<or> int (length all_hits) \<le> n)"
      using assms by (cases "num_docs = INT_MAX") (auto simp: n_def)
  qed (use h assms in auto)
  then show ?thesis using n args L by (simp add: msea_search_w_def answer_of_def)
qed

end

text \<open>A multi searcher is a searcher.\<close>

sublocale searchers \<subseteq> multi: searcher "msea_search_w ss" all_hits
proof
  fix n :: int
  assume "0 < n" "n \<le> INT_MAX"
  then show "msea_search_w ss 0 n = Inr (answer_of all_hits 0 n)"
    by (intro msea_search_w_ok) simp_all
qed

text \<open>The searchers of the code: indexes, and multi searchers over indexes.\<close>

interpretation isea: searcher "isea_search_w ir_num_docs scorer bits post_filter"
  "hits_of ir_num_docs scorer bits post_filter"
  for ir_num_docs scorer bits post_filter
proof
  fix n :: int
  assume "0 < n" "n \<le> INT_MAX"
  then show "isea_search_w ir_num_docs scorer bits post_filter 0 n =
      Inr (answer_of (hits_of ir_num_docs scorer bits post_filter) 0 n)"
    by (intro isea_search_w_ok) simp_all
qed

type_synonym 's index = "nat \<times> 's hit list option \<times> bitvector option \<times> (int \<Rightarrow> 's \<Rightarrow> 's) option"

definition index_search :: "('s::{linorder,zero,one,times}) index \<Rightarrow> int \<Rightarrow> int \<Rightarrow> 's top_docs res" where
  "index_search ix = (case ix of (n, scorer, bits, pf) \<Rightarrow> isea_search_w n scorer bits pf)"

definition index_hits :: "('s::{linorder,zero,one,times}) index \<Rightarrow> 's hit list" where
  "index_hits ix = (case ix of (n, scorer, bits, pf) \<Rightarrow> hits_of n scorer bits pf)"

interpretation msea: searchers "map (\<lambda>(ix, start). (index_search ix, start)) ixs" "map (\<lambda>(ix, start). index_hits ix) ixs"
  for ixs :: "(('s::{linorder,zero,one,times}) index \<times> int) list"
  by unfold_locales
    (auto simp: list_all2_conv_all_nth index_search_def index_hits_def isea.searcher_axioms split: prod.splits)

lemma msea_all_hits: "msea.all_hits ixs = concat (map (\<lambda>(ix, start). map (shift start) (index_hits ix)) ixs)"
  unfolding msea.all_hits_def by (induction ixs) auto

section \<open>The searcher of a document\<close>

text \<open>The last of the first \<open>n\<close> searchers that starts at or before the document.\<close>

definition is_last_start :: "int list \<Rightarrow> nat \<Rightarrow> int \<Rightarrow> int \<Rightarrow> bool" where
  "is_last_start starts n doc r \<longleftrightarrow> - 1 \<le> r \<and> r < int n \<and> (0 \<le> r \<longrightarrow> starts ! nat r \<le> doc) \<and>
     (\<forall>j. r < int j \<longrightarrow> j < n \<longrightarrow> doc < starts ! j)"

lemma starts_mono: "sorted (take n starts) \<Longrightarrow> n \<le> length starts \<Longrightarrow> i \<le> j \<Longrightarrow> j < n \<Longrightarrow> starts ! i \<le> (starts ! j :: int)"
  using sorted_nth_mono[of "take n starts" i j] by simp

lemma msea_scan_last_ok:
  "sorted (take n starts) \<Longrightarrow> n \<le> length starts \<Longrightarrow> 0 \<le> mid \<Longrightarrow> mid < int n \<Longrightarrow> starts ! nat mid = v \<Longrightarrow>
   is_last_start starts n v (msea_scan_last starts (int n) v mid)"
proof (induction starts "int n" v mid rule: msea_scan_last.induct)
  case (1 starts v mid)
  show ?case
  proof (cases "mid + 1 < int n \<and> starts ! nat (mid + 1) = v")
    case True
    then show ?thesis using 1 by (subst msea_scan_last.simps) simp
  next
    case False
    have "v < starts ! j" if j: "mid < int j" "j < n" for j
    proof -
      have "starts ! nat mid \<le> starts ! nat (mid + 1)" "starts ! nat (mid + 1) \<le> starts ! j"
        using 1(2-4) j by (auto intro!: starts_mono[of n])
      moreover have "starts ! nat (mid + 1) \<noteq> v" using False j by auto
      ultimately show ?thesis using 1(6) by linarith
    qed
    then show ?thesis using False 1(4-6) by (subst msea_scan_last.simps) (auto simp: is_last_start_def)
  qed
qed

lemma msea_index_loop_ok:
  "sorted (take n starts) \<Longrightarrow> n \<le> length starts \<Longrightarrow> 0 \<le> lo \<Longrightarrow> lo \<le> hi + 1 \<Longrightarrow> hi < int n \<Longrightarrow>
   \<forall>j. int j < lo \<longrightarrow> starts ! j < doc \<Longrightarrow> \<forall>j. hi < int j \<longrightarrow> j < n \<longrightarrow> doc < starts ! j \<Longrightarrow>
   is_last_start starts n doc (msea_index_loop starts (int n) doc lo hi)"
proof (induction starts "int n" doc lo hi rule: msea_index_loop.induct)
  case (1 starts doc lo hi)
  show ?case
  proof (cases "lo \<le> hi")
    case False
    then have "hi = lo - 1" using 1(6) by simp
    then show ?thesis
      using False 1(5,7-9) by (subst msea_index_loop.simps) (auto simp: is_last_start_def less_imp_le)
  next
    case True
    define mid where "mid = (lo + hi) div 2"
    have mid: "lo \<le> mid" "mid \<le> hi" "0 \<le> mid" "mid < int n" using True 1(5,7) by (auto simp: mid_def)
    have mono: "\<And>i j. i \<le> j \<Longrightarrow> j < n \<Longrightarrow> starts ! i \<le> starts ! j" using starts_mono[OF 1(3,4)] .
    consider "doc < starts ! nat mid" | "starts ! nat mid < doc" | "starts ! nat mid = doc" by linarith
    then show ?thesis
    proof cases
      case 1
      have "\<forall>j. mid - 1 < int j \<longrightarrow> j < n \<longrightarrow> doc < starts ! j"
      proof (intro allI impI)
        fix j assume "mid - 1 < int j" "j < n"
        then have "starts ! nat mid \<le> starts ! j" by (intro mono) auto
        with 1 show "doc < starts ! j" by simp
      qed
      then have "is_last_start starts n doc (msea_index_loop starts (int n) doc lo (mid - 1))"
        using "1.hyps"(1)[OF True mid_def refl 1] "1.prems" mid by simp
      then show ?thesis using True 1 by (subst msea_index_loop.simps) (simp add: Let_def mid_def[symmetric])
    next
      case 2
      have "\<forall>j. int j < mid + 1 \<longrightarrow> starts ! j < doc"
      proof (intro allI impI)
        fix j assume "int j < mid + 1"
        then have "starts ! j \<le> starts ! nat mid" using mid by (intro mono) auto
        with 2 show "starts ! j < doc" by simp
      qed
      then have "is_last_start starts n doc (msea_index_loop starts (int n) doc (mid + 1) hi)"
        using "1.hyps"(2)[OF True mid_def refl _ 2] "1.prems" mid 2 by simp
      then show ?thesis using True 2 by (subst msea_index_loop.simps) (simp add: Let_def mid_def[symmetric])
    next
      case 3
      then have "is_last_start starts n doc (msea_scan_last starts (int n) doc mid)"
        using msea_scan_last_ok[OF "1.prems"(1,2) mid(3,4) 3] by simp
      then show ?thesis using True 3 by (subst msea_index_loop.simps) (simp add: Let_def mid_def[symmetric])
    qed
  qed
qed

lemma msea_starts_ok:
  "\<forall>d \<in> set ds. 0 \<le> d \<Longrightarrow> sorted (msea_starts ds m) \<and> length (msea_starts ds m) = Suc (length ds) \<and>
     (\<forall>x \<in> set (msea_starts ds m). m \<le> x) \<and> msea_starts ds m ! 0 = m \<and>
     (\<forall>i < length ds. msea_starts ds m ! Suc i = msea_starts ds m ! i + ds ! i)"
proof (induction ds arbitrary: m)
  case (Cons d ds)
  then have IH: "sorted (msea_starts ds (m + d))" "length (msea_starts ds (m + d)) = Suc (length ds)"
    "\<forall>x \<in> set (msea_starts ds (m + d)). m + d \<le> x" "msea_starts ds (m + d) ! 0 = m + d"
    "\<forall>i < length ds. msea_starts ds (m + d) ! Suc i = msea_starts ds (m + d) ! i + ds ! i"
    by auto
  show ?case
    using Cons.prems IH by (force simp: nth_Cons split: nat.splits)
qed simp

lemma msea_get_searcher_index_ok:
  assumes "ds \<noteq> []" "\<forall>d \<in> set ds. 0 \<le> d" "0 \<le> doc" "doc < sum_list ds"
  defines "r \<equiv> msea_get_searcher_index (msea_starts ds 0) (int (length ds)) doc"
  shows "0 \<le> r" "nat r < length ds" "msea_starts ds 0 ! nat r \<le> doc" "doc < msea_starts ds 0 ! nat r + ds ! nat r"
proof -
  let ?st = "msea_starts ds 0" and ?n = "length ds"
  note S = msea_starts_ok[OF assms(2), of 0]
  have last: "?st ! ?n = sum_list ds"
  proof -
    have "msea_starts ds m ! length ds = m + sum_list ds" for m
      by (induction ds arbitrary: m) simp_all
    then show ?thesis by simp
  qed
  have L: "is_last_start ?st ?n doc r"
    unfolding r_def msea_get_searcher_index_def
    using S assms by (intro msea_index_loop_ok) (auto simp: sorted_wrt_take)
  show r: "0 \<le> r"
    using L S assms(1,3) by (auto simp: is_last_start_def dest!: spec[of _ "0 :: nat"])
  then show "nat r < ?n" "?st ! nat r \<le> doc" using L by (auto simp: is_last_start_def)
  have "doc < ?st ! Suc (nat r)"
  proof (cases "Suc (nat r) < ?n")
    case True
    then show ?thesis using L r by (auto simp: is_last_start_def)
  next
    case False
    then have "Suc (nat r) = ?n" using \<open>nat r < ?n\<close> by simp
    then show ?thesis using last assms(4) by simp
  qed
  then show "doc < ?st ! nat r + ds ! nat r" using S \<open>nat r < ?n\<close> by auto
qed

section \<open>Unscored search over several indexes\<close>

text \<open>The documents of the searchers, numbered by the multi searcher.\<close>

definition numbered :: "(int list \<times> int \<times> int) list \<Rightarrow> int list" where
  "numbered dss = concat (map (\<lambda>(ds, start, next_start). map (\<lambda>d. d + start) ds) dss)"

text \<open>Each searcher's documents are increasing and lie in its range.\<close>

definition in_range :: "int list \<times> int \<times> int \<Rightarrow> bool" where
  "in_range = (\<lambda>(ds, start, next_start). sorted ds \<and> (\<forall>d \<in> set ds. 0 \<le> d \<and> d + start < next_start))"

definition unscored_of :: "int list \<times> int \<times> int \<Rightarrow> (int \<Rightarrow> int \<Rightarrow> int list) \<times> int \<times> int" where
  "unscored_of = (\<lambda>(ds, start, next_start). (isea_search_unscored_w (Some ds), start, next_start))"

lemma msea_unscored_loop_ok:
  "\<forall>x \<in> set dss. in_range x \<Longrightarrow> int (length buf) \<le> limit \<Longrightarrow>
   msea_unscored_loop (map unscored_of dss) limit off buf =
     buf @ take (nat limit - length buf) (filter (\<lambda>d. off \<le> d) (numbered dss))"
proof (induction dss arbitrary: buf)
  case (Cons x dss)
  obtain ds start next_start where x: "x = (ds, start, next_start)" by (cases x) auto
  have srt: "sorted ds" and rng: "\<And>d. d \<in> set ds \<Longrightarrow> 0 \<le> d \<and> d + start < next_start"
    using Cons.prems(1) x by (auto simp: in_range_def)
  let ?k = "nat limit - length buf"
  let ?here = "filter (\<lambda>d. off \<le> d) (map (\<lambda>d. d + start) ds)"
  show ?case
  proof (cases "int (length buf) < limit")
    case False
    then have "?k = 0" by simp
    then show ?thesis using False x by (simp add: unscored_of_def)
  next
    case room: True
    show ?thesis
    proof (cases "off < next_start")
      case False
      then have "?here = []" using rng by (fastforce simp: filter_empty_conv)
      then show ?thesis
        using room False x Cons by (simp add: unscored_of_def numbered_def)
    next
      case True
      define o' where "o' = (if off > start then off - start else 0)"
      have "map (\<lambda>d. d + start) (filter (\<lambda>d. o' \<le> d) ds) = ?here"
      proof -
        have "filter (\<lambda>d. o' \<le> d) ds = filter ((\<lambda>d. off \<le> d) \<circ> (\<lambda>d. d + start)) ds"
        proof (rule filter_cong[OF refl])
          fix d assume "d \<in> set ds"
          then show "(o' \<le> d) = ((\<lambda>d. off \<le> d) \<circ> (\<lambda>d. d + start)) d" using rng[of d] by (auto simp: o'_def)
        qed
        then show ?thesis by (simp add: filter_map)
      qed
      then have docs: "map (\<lambda>d. d + start) (isea_search_unscored_w (Some ds) (limit - int (length buf)) o') =
          take ?k ?here"
        using room srt by (simp add: isea_search_unscored_w_ok nat_diff_distrib' take_map[symmetric])
      have fits: "int (length (buf @ take ?k ?here)) \<le> limit"
        using room by simp
      have "msea_unscored_loop (map unscored_of dss) limit off (buf @ take ?k ?here) =
          (buf @ take ?k ?here) @ take (nat limit - length (buf @ take ?k ?here)) (filter (\<lambda>d. off \<le> d) (numbered dss))"
        using Cons.prems(1) fits by (intro Cons.IH) auto
      also have "\<dots> = buf @ take ?k (?here @ filter (\<lambda>d. off \<le> d) (numbered dss))"
        by (simp add: min_def)
      finally show ?thesis
        using room True x docs
        by (simp add: unscored_of_def numbered_def o'_def[symmetric] Let_def)
    qed
  qed
qed (simp add: numbered_def)

end
