(* ===== verification/FrtArray.thy ===== *)
theory FrtArray
  imports FrtPrelude
begin

text \<open>
  The growing arrays of \<open>frt_array.c\<close>.

  \<^item> \<open>frt_ary\<close> is the block behind a \<open>void **ary\<close>: \<open>ary_cells\<close> are its \<open>frt_ary_capa\<close> cells and
    \<open>ary_size\<close> is \<open>frt_ary_sz\<close>, the count in the words before the first cell. A cell is \<open>None\<close> where the
    code has NULL. The element size only matters for the byte counts of \<open>memmove\<close> and \<open>memset\<close>,
    which are cell counts here.
  \<^item> Access outside the cells is \<open>UndefinedBehaviour\<close>.
  \<^item> \<open>ary_ok\<close> is the invariant, \<open>ary_list\<close> the list an array stands for. \<open>list_exec\<close> says what each request
    does to the list; the lemmas show that the code does it.
\<close>

section \<open>The code\<close>

record 'a frt_ary =
  ary_cells :: "'a option list"
  ary_size :: nat

abbreviation ary_capa :: "'a frt_ary \<Rightarrow> nat" where
  "ary_capa a \<equiv> length (ary_cells a)"

definition FRT_ARY_INIT_CAPA :: nat where
  "FRT_ARY_INIT_CAPA = 8"

definition frt_ary_new_i :: "int \<Rightarrow> 'a frt_ary" where
  "frt_ary_new_i init_capa =
     (let init_capa = (if init_capa \<le> 0 then int FRT_ARY_INIT_CAPA else init_capa)
      in \<lparr>ary_cells = replicate (nat init_capa) None, ary_size = 0\<rparr>)"

text \<open>The loop \<open>while (size >= capa) capa <<= 1\<close>; the capacity is never 0.\<close>

function ary_capa_loop :: "nat \<Rightarrow> nat \<Rightarrow> nat" where
  "ary_capa_loop sz capa = (if 0 < capa \<and> capa \<le> sz then ary_capa_loop sz (2 * capa) else capa)"
  by pat_completeness auto
termination by (relation "measure (\<lambda>(sz, capa). Suc sz - capa)") auto

declare ary_capa_loop.simps [simp del]

definition frt_ary_resize_i :: "'a frt_ary \<Rightarrow> nat \<Rightarrow> 'a frt_ary" where
  "frt_ary_resize_i a sz =
     (let sz = sz + 1
      in if sz > ary_size a then
           (let cells = (if sz \<ge> ary_capa a then
                           (let capa = ary_capa_loop sz (ary_capa a)
                            in take (ary_size a) (ary_cells a) @ replicate (capa - ary_size a) None)
                         else ary_cells a)
            in \<lparr>ary_cells = cells, ary_size = sz\<rparr>)
         else a)"

definition frt_ary_set_i :: "'a frt_ary \<Rightarrow> int \<Rightarrow> 'a option \<Rightarrow> 'a frt_ary res" where
  "frt_ary_set_i a i value =
     ebind (if i < 0 then (let i = i + int (ary_size a) in if i < 0 then Inl FRT_INDEX_ERROR else Inr i)
            else Inr i)
       (\<lambda>i. let a = frt_ary_resize_i a (nat i) in Inr (a\<lparr>ary_cells := (ary_cells a)[nat i := value]\<rparr>))"

definition frt_ary_get_i :: "'a frt_ary \<Rightarrow> int \<Rightarrow> 'a option" where
  "frt_ary_get_i a i =
     (let i = (if i < 0 then i + int (ary_size a) else i)
      in if i \<ge> 0 \<and> i < int (ary_size a) then ary_cells a ! nat i else None)"

definition frt_ary_push_i :: "'a frt_ary \<Rightarrow> 'a option \<Rightarrow> 'a frt_ary" where
  "frt_ary_push_i a value =
     (let sz = ary_size a; a = frt_ary_resize_i a sz in a\<lparr>ary_cells := (ary_cells a)[sz := value]\<rparr>)"

definition frt_ary_pop_i :: "'a frt_ary \<Rightarrow> ('a option \<times> 'a frt_ary) res" where
  "frt_ary_pop_i a =
     (if ary_size a = 0 then Inl UndefinedBehaviour
      else let sz = ary_size a - 1
        in Inr (ary_cells a ! sz, \<lparr>ary_cells = (ary_cells a)[sz := None], ary_size = sz\<rparr>))"

definition frt_ary_unshift_i :: "'a frt_ary \<Rightarrow> 'a option \<Rightarrow> 'a frt_ary" where
  "frt_ary_unshift_i a value =
     (let sz = ary_size a;
          a = frt_ary_resize_i a sz;
          cells = write_at (ary_cells a) 1 (take sz (ary_cells a))
      in a\<lparr>ary_cells := cells[0 := value]\<rparr>)"

definition frt_ary_shift_i :: "'a frt_ary \<Rightarrow> ('a option \<times> 'a frt_ary) res" where
  "frt_ary_shift_i a =
     (if ary_size a = 0 then Inl UndefinedBehaviour
      else let sz = ary_size a - 1;
               cells = write_at (ary_cells a) 0 (take sz (drop 1 (ary_cells a)))
        in Inr (ary_cells a ! 0, \<lparr>ary_cells = cells[sz := None], ary_size = sz\<rparr>))"

text \<open>\<open>memmove\<close> moves \<open>size - index + 1\<close> cells from \<open>index + 1\<close> on: up to and with cell \<open>size + 1\<close>.\<close>

definition frt_ary_remove_i :: "'a frt_ary \<Rightarrow> int \<Rightarrow> ('a option \<times> 'a frt_ary) res" where
  "frt_ary_remove_i a i =
     (if i \<ge> 0 \<and> i < int (ary_size a) then
        let n = ary_size a - nat i + 1;
            src = drop (nat i + 1) (ary_cells a)
        in if length src < n then Inl UndefinedBehaviour
           else Inr (ary_cells a ! nat i,
                     \<lparr>ary_cells = write_at (ary_cells a) (nat i) (take n src), ary_size = ary_size a - 1\<rparr>)
      else Inr (None, a))"

text \<open>The first component is what \<open>free_elem\<close> is called with.\<close>

definition frt_ary_delete_i :: "'a frt_ary \<Rightarrow> int \<Rightarrow> ('a option \<times> 'a frt_ary) res" where
  "frt_ary_delete_i a i = frt_ary_remove_i a i"

definition frt_ary_destroy_i :: "'a frt_ary \<Rightarrow> 'a option list" where
  "frt_ary_destroy_i a = map (\<lambda>i. ary_cells a ! i) (rev [0..<ary_size a])"

section \<open>The list of an array\<close>

definition ary_ok :: "'a frt_ary \<Rightarrow> bool" where
  "ary_ok a \<longleftrightarrow> ary_size a < ary_capa a \<and> (\<forall>i. ary_size a \<le> i \<and> i < ary_capa a \<longrightarrow> ary_cells a ! i = None)"

definition ary_list :: "'a frt_ary \<Rightarrow> 'a option list" where
  "ary_list a = take (ary_size a) (ary_cells a)"

text \<open>An array in order is its list followed by NULL cells, at least one.\<close>

lemma ary_ok_iff:
  "ary_ok a \<longleftrightarrow> (\<exists>xs n. ary_cells a = xs @ replicate (Suc n) None \<and> ary_size a = length xs)"
proof
  assume ok: "ary_ok a"
  then have "drop (ary_size a) (ary_cells a) = replicate (ary_capa a - ary_size a) None"
    by (intro nth_equalityI) (auto simp: ary_ok_def)
  moreover have "ary_capa a - ary_size a = Suc (ary_capa a - ary_size a - 1)" using ok
    unfolding ary_ok_def by linarith
  ultimately show "\<exists>xs n. ary_cells a = xs @ replicate (Suc n) None \<and> ary_size a = length xs"
    using ok append_take_drop_id [of "ary_size a" "ary_cells a"]
    by (intro exI [of _ "take (ary_size a) (ary_cells a)"] exI [of _ "ary_capa a - ary_size a - 1"])
      (auto simp: ary_ok_def min_def)
next
  assume "\<exists>xs n. ary_cells a = xs @ replicate (Suc n) None \<and> ary_size a = length xs"
  then show "ary_ok a" by (auto simp: ary_ok_def nth_append nth_Cons' simp del: replicate_Suc)
qed

lemma ary_okE:
  assumes "ary_ok a"
  obtains n where "ary_cells a = ary_list a @ replicate (Suc n) None" and "ary_size a = length (ary_list a)"
proof -
  from assms obtain xs n where a: "ary_cells a = xs @ replicate (Suc n) None" "ary_size a = length xs"
    unfolding ary_ok_iff by blast
  then have "ary_list a = xs" by (simp add: ary_list_def)
  with a that [of n] show thesis by simp
qed

lemma ary_okI:
  "cells = xs @ replicate (Suc n) None \<Longrightarrow>
   ary_ok \<lparr>ary_cells = cells, ary_size = length xs\<rparr> \<and> ary_list \<lparr>ary_cells = cells, ary_size = length xs\<rparr> = xs"
  unfolding ary_ok_iff ary_list_def by fastforce

lemma ary_capa_loop_gt: "0 < capa \<Longrightarrow> sz < ary_capa_loop sz capa \<and> capa \<le> ary_capa_loop sz capa"
proof (induction sz capa rule: ary_capa_loop.induct)
  case (1 sz capa)
  then show ?case by (subst (1 2) ary_capa_loop.simps) auto
qed

lemma frt_ary_new_i_ok: "ary_ok (frt_ary_new_i init_capa) \<and> ary_list (frt_ary_new_i init_capa) = []"
  by (auto simp: ary_ok_def ary_list_def frt_ary_new_i_def FRT_ARY_INIT_CAPA_def Let_def)

text \<open>Growing fills with NULL; a size below the current one changes nothing.\<close>

lemma frt_ary_resize_i_cells:
  assumes "cells = xs @ replicate (Suc n) None" and "a = \<lparr>ary_cells = cells, ary_size = length xs\<rparr>"
  shows "\<exists>m. frt_ary_resize_i a sz = \<lparr>ary_cells = (xs @ replicate (Suc sz - length xs) None) @ replicate (Suc m) None,
    ary_size = max (length xs) (Suc sz)\<rparr>"
proof (cases "length xs < Suc sz")
  case False
  then have "frt_ary_resize_i a sz = a" using assms(2) by (simp add: frt_ary_resize_i_def Let_def)
  then show ?thesis using False assms by (intro exI [of _ n]) (simp del: replicate_Suc)
next
  case less: True
  define k where "k = Suc sz - length xs"
  have k: "Suc sz = length xs + k" using less by (simp add: k_def)
  have e: "Suc sz - length xs = k" "max (length xs) (Suc sz) = Suc sz" using less by (simp_all add: k_def)
  show ?thesis
  proof (cases "ary_capa a \<le> Suc sz")
    case True
    define c where "c = ary_capa_loop (Suc sz) (ary_capa a)"
    have "0 < ary_capa a" by (simp only: assms) simp
    then have "Suc sz < c" unfolding c_def by (rule ary_capa_loop_gt [THEN conjunct1])
    then obtain l where "c = Suc (Suc sz + l)" using less_imp_Suc_add by blast
    then have "c - length xs = k + Suc l" using k by simp
    then have "frt_ary_resize_i a sz = \<lparr>ary_cells = xs @ replicate (k + Suc l) None, ary_size = Suc sz\<rparr>"
      using True less assms(2)
      by (simp add: frt_ary_resize_i_def Let_def c_def assms(1) del: replicate_Suc)
    then show ?thesis by (intro exI [of _ l]) (simp only: e append_assoc replicate_add [symmetric])
  next
    case False
    then have "k \<le> n" using k assms by simp
    then obtain l where "n = k + l" using le_Suc_ex by blast
    then have "cells = xs @ replicate (k + Suc l) None" using assms by simp
    moreover have "frt_ary_resize_i a sz = \<lparr>ary_cells = cells, ary_size = Suc sz\<rparr>"
      using False less assms by (simp add: frt_ary_resize_i_def Let_def)
    ultimately show ?thesis by (intro exI [of _ l]) (simp only: e append_assoc replicate_add [symmetric])
  qed
qed

lemma ary_eqE:
  assumes "ary_ok a"
  obtains xs n where "a = \<lparr>ary_cells = xs @ replicate (Suc n) None, ary_size = length xs\<rparr>" and "ary_list a = xs"
  using assms by (elim ary_okE) (cases a, simp)

lemma frt_ary_resize_i_ok:
  assumes "ary_ok a"
  obtains m where "frt_ary_resize_i a sz =
      \<lparr>ary_cells = (ary_list a @ replicate (Suc sz - ary_size a) None) @ replicate (Suc m) None, ary_size = max (ary_size a) (Suc sz)\<rparr>"
proof -
  obtain xs n where a: "a = \<lparr>ary_cells = xs @ replicate (Suc n) None, ary_size = length xs\<rparr>" "ary_list a = xs"
    using assms by (rule ary_eqE)
  from frt_ary_resize_i_cells [OF refl a(1), of sz] that a show thesis by auto
qed

section \<open>Requests, on the array and on its list\<close>

datatype 'a ary_op =
    AryGet int
  | ArySet int "'a option"
  | AryPush "'a option"
  | AryPop
  | AryUnshift "'a option"
  | AryShift
  | AryRemove int

definition ary_exec :: "'a ary_op \<Rightarrow> 'a frt_ary \<Rightarrow> ('a option \<times> 'a frt_ary) res" where
  "ary_exec op a = (case op of
     AryGet i \<Rightarrow> Inr (frt_ary_get_i a i, a)
   | ArySet i v \<Rightarrow> ebind (frt_ary_set_i a i v) (\<lambda>a. Inr (None, a))
   | AryPush v \<Rightarrow> Inr (None, frt_ary_push_i a v)
   | AryPop \<Rightarrow> frt_ary_pop_i a
   | AryUnshift v \<Rightarrow> Inr (None, frt_ary_unshift_i a v)
   | AryShift \<Rightarrow> frt_ary_shift_i a
   | AryRemove i \<Rightarrow> frt_ary_remove_i a i)"

definition list_put :: "'a option list \<Rightarrow> nat \<Rightarrow> 'a option \<Rightarrow> 'a option list" where
  "list_put xs i v = (if i < length xs then xs[i := v] else xs @ replicate (i - length xs) None @ [v])"

definition list_exec :: "'a ary_op \<Rightarrow> 'a option list \<Rightarrow> ('a option \<times> 'a option list) res" where
  "list_exec op xs = (case op of
     AryGet i \<Rightarrow> (let i = (if i < 0 then i + int (length xs) else i)
       in Inr (if 0 \<le> i \<and> i < int (length xs) then xs ! nat i else None, xs))
   | ArySet i v \<Rightarrow> (let i = (if i < 0 then i + int (length xs) else i)
       in if i < 0 then Inl FRT_INDEX_ERROR else Inr (None, list_put xs (nat i) v))
   | AryPush v \<Rightarrow> Inr (None, xs @ [v])
   | AryPop \<Rightarrow> (if xs = [] then Inl UndefinedBehaviour else Inr (last xs, butlast xs))
   | AryUnshift v \<Rightarrow> Inr (None, v # xs)
   | AryShift \<Rightarrow> (if xs = [] then Inl UndefinedBehaviour else Inr (hd xs, tl xs))
   | AryRemove i \<Rightarrow> (if 0 \<le> i \<and> i < int (length xs)
       then Inr (xs ! nat i, take (nat i) xs @ drop (Suc (nat i)) xs) else Inr (None, xs)))"

text \<open>\<open>ary_does a r r'\<close>: the step \<open>r\<close> on the array answers as \<open>r'\<close> does on the list and keeps the order.\<close>

definition ary_does :: "('a option \<times> 'a frt_ary) res \<Rightarrow> ('a option \<times> 'a option list) res \<Rightarrow> bool" where
  "ary_does r r' = (case r of Inl e \<Rightarrow> r' = Inl e | Inr (v, a) \<Rightarrow> ary_ok a \<and> r' = Inr (v, ary_list a))"

lemma ary_does_Inr: "ary_ok a \<Longrightarrow> ary_list a = xs \<Longrightarrow> ary_does (Inr (v, a)) (Inr (v, xs))"
  by (simp add: ary_does_def)

lemma ary_does_cells:
  assumes "r = Inr (v, \<lparr>ary_cells = xs @ replicate (Suc n) None, ary_size = length xs\<rparr>)" and "r' = Inr (v, xs)"
  shows "ary_does r r'"
  unfolding assms by (intro ary_does_Inr ary_okI [OF refl, THEN conjunct1] ary_okI [OF refl, THEN conjunct2])

lemma put_cells:
  assumes "i < length xs"
  shows "ary_ok \<lparr>ary_cells = (xs @ replicate (Suc n) None)[i := v], ary_size = length xs\<rparr>"
    and "ary_list \<lparr>ary_cells = (xs @ replicate (Suc n) None)[i := v], ary_size = length xs\<rparr> = xs[i := v]"
proof -
  have "(xs @ replicate (Suc n) None)[i := v] = xs[i := v] @ replicate (Suc n) None"
    using assms by (simp add: list_update_append)
  from ary_okI [OF this] show "ary_ok \<lparr>ary_cells = (xs @ replicate (Suc n) None)[i := v], ary_size = length xs\<rparr>"
    "ary_list \<lparr>ary_cells = (xs @ replicate (Suc n) None)[i := v], ary_size = length xs\<rparr> = xs[i := v]"
    by simp_all
qed

lemma put_grown:
  assumes "ary_ok a" and "ary_list a = xs"
  shows "ary_does (Inr (r, (frt_ary_resize_i a i)\<lparr>ary_cells := (ary_cells (frt_ary_resize_i a i))[i := v]\<rparr>))
    (Inr (r, list_put xs i v))"
proof -
  have sz: "ary_size a = length xs" using assms by (elim ary_okE) simp
  let ?ys = "xs @ replicate (Suc i - length xs) None"
  obtain m where m: "frt_ary_resize_i a i = \<lparr>ary_cells = ?ys @ replicate (Suc m) None, ary_size = length ?ys\<rparr>"
  proof -
    have "max (length xs) (Suc i) = length ?ys" by simp
    with frt_ary_resize_i_ok [OF assms(1), of i] that show thesis unfolding assms(2) sz by metis
  qed
  have i: "i < length ?ys" by simp
  have "list_put xs i v = ?ys[i := v]"
  proof (cases "i < length xs")
    case False
    have eq: "replicate (Suc i - length xs) None = replicate (i - length xs) None @ [None]"
      using False by (simp add: Suc_diff_le replicate_append_same)
    have "(replicate (Suc i - length xs) None)[i - length xs := v] = replicate (i - length xs) None @ [v]"
      unfolding eq using list_update_length [of "replicate (i - length xs) None" None "[]" v] by simp
    then show ?thesis using False by (simp add: list_put_def list_update_append)
  qed (simp add: list_put_def list_update_append)
  with put_cells [OF i] show ?thesis by (intro ary_does_Inr) (simp_all add: m del: replicate_Suc)
qed

lemma ary_get_ok: "ary_ok a \<Longrightarrow> ary_does (ary_exec (AryGet i) a) (list_exec (AryGet i) (ary_list a))"
proof -
  assume ok: "ary_ok a"
  then obtain n where a: "ary_cells a = ary_list a @ replicate (Suc n) None" "ary_size a = length (ary_list a)"
    by (rule ary_okE)
  define j where "j = (if i < 0 then i + int (ary_size a) else i)"
  have "frt_ary_get_i a i = (if 0 \<le> j \<and> j < int (length (ary_list a)) then ary_list a ! nat j else None)"
    unfolding frt_ary_get_i_def Let_def j_def [symmetric] by (subst a(1)) (simp add: a(2) nth_append nat_less_iff)
  then show ?thesis using ok by (simp add: ary_exec_def list_exec_def ary_does_def j_def a(2) Let_def)
qed

lemma ary_set_ok: "ary_ok a \<Longrightarrow> ary_does (ary_exec (ArySet i v) a) (list_exec (ArySet i v) (ary_list a))"
proof -
  assume ok: "ary_ok a"
  have sz: "ary_size a = length (ary_list a)" using ok by (elim ary_okE) simp
  define j where "j = (if i < 0 then i + int (ary_size a) else i)"
  show ?thesis
  proof (cases "j < 0")
    case True
    then show ?thesis
      by (auto simp: ary_exec_def list_exec_def frt_ary_set_i_def ary_does_def sz j_def Let_def split: if_splits)
  next
    case False
    then have "frt_ary_set_i a i v = (let a = frt_ary_resize_i a (nat j) in Inr (a\<lparr>ary_cells := (ary_cells a)[nat j := v]\<rparr>))"
      by (auto simp: frt_ary_set_i_def j_def Let_def split: if_splits)
    with False put_grown [OF ok refl, of None "nat j" v] show ?thesis
      by (simp add: ary_exec_def list_exec_def sz j_def Let_def split: if_splits)
  qed
qed

lemma ary_push_ok: "ary_ok a \<Longrightarrow> ary_does (ary_exec (AryPush v) a) (list_exec (AryPush v) (ary_list a))"
proof -
  assume ok: "ary_ok a"
  then have "ary_size a = length (ary_list a)" by (elim ary_okE) simp
  with put_grown [OF ok refl, of None "ary_size a" v] show ?thesis
    by (simp add: ary_exec_def list_exec_def frt_ary_push_i_def Let_def list_put_def)
qed

lemma ary_pop_ok: "ary_ok a \<Longrightarrow> ary_does (ary_exec AryPop a) (list_exec AryPop (ary_list a))"
proof (elim ary_eqE)
  fix xs n
  assume a: "a = \<lparr>ary_cells = xs @ replicate (Suc n) None, ary_size = length xs\<rparr>" "ary_list a = xs"
  show ?thesis
  proof (cases xs rule: rev_cases)
    case Nil
    then show ?thesis by (simp add: a(2) ary_exec_def list_exec_def frt_ary_pop_i_def ary_does_def) (simp add: a(1))
  next
    case (snoc ys y)
    show ?thesis
    proof (rule ary_does_cells [where xs = ys and n = "Suc n"])
      show "list_exec AryPop (ary_list a) = Inr (y, ys)" by (simp add: a(2) list_exec_def snoc)
      show "ary_exec AryPop a = Inr (y, \<lparr>ary_cells = ys @ replicate (Suc (Suc n)) None, ary_size = length ys\<rparr>)"
        by (simp add: a(1) snoc ary_exec_def frt_ary_pop_i_def nth_append list_update_append)
    qed
  qed
qed

lemma ary_unshift_ok: "ary_ok a \<Longrightarrow> ary_does (ary_exec (AryUnshift v) a) (list_exec (AryUnshift v) (ary_list a))"
proof -
  assume ok: "ary_ok a"
  then have sz: "ary_size a = length (ary_list a)" by (elim ary_okE) simp
  obtain m where m: "frt_ary_resize_i a (ary_size a) =
      \<lparr>ary_cells = (ary_list a @ [None]) @ replicate (Suc m) None, ary_size = Suc (length (ary_list a))\<rparr>"
    using frt_ary_resize_i_ok [OF ok, of "ary_size a"] sz by auto
  have r: "ary_exec (AryUnshift v) a = Inr (None, (frt_ary_resize_i a (ary_size a))\<lparr>ary_cells :=
      (write_at (ary_cells (frt_ary_resize_i a (ary_size a))) 1 (take (ary_size a) (ary_cells (frt_ary_resize_i a (ary_size a)))))[0 := v]\<rparr>)"
    by (simp add: ary_exec_def frt_ary_unshift_i_def Let_def)
  show ?thesis
  proof (rule ary_does_cells [where xs = "v # ary_list a" and n = m])
    show "list_exec (AryUnshift v) (ary_list a) = Inr (None, v # ary_list a)" by (simp add: list_exec_def)
    show "ary_exec (AryUnshift v) a = Inr (None, \<lparr>ary_cells = (v # ary_list a) @ replicate (Suc m) None,
        ary_size = length (v # ary_list a)\<rparr>)"
      unfolding r m by (cases "ary_list a") (simp_all add: sz write_at_def)
  qed
qed

lemma ary_shift_ok: "ary_ok a \<Longrightarrow> ary_does (ary_exec AryShift a) (list_exec AryShift (ary_list a))"
proof (elim ary_eqE)
  fix xs n
  assume a: "a = \<lparr>ary_cells = xs @ replicate (Suc n) None, ary_size = length xs\<rparr>" "ary_list a = xs"
  show ?thesis
  proof (cases xs)
    case Nil
    then show ?thesis by (simp add: a(2) ary_exec_def list_exec_def frt_ary_shift_i_def ary_does_def) (simp add: a(1))
  next
    case (Cons y ys)
    show ?thesis
    proof (rule ary_does_cells [where xs = ys and n = "Suc n"])
      show "list_exec AryShift (ary_list a) = Inr (y, ys)" by (simp add: a(2) list_exec_def Cons)
      show "ary_exec AryShift a = Inr (y, \<lparr>ary_cells = ys @ replicate (Suc (Suc n)) None, ary_size = length ys\<rparr>)"
        by (cases ys rule: rev_cases)
          (simp_all add: a(1) Cons ary_exec_def frt_ary_shift_i_def Let_def write_at_def list_update_append)
    qed
  qed
qed

text \<open>Removing reads one cell behind the array when only one cell is free.\<close>

lemma ary_remove_ok:
  assumes ok: "ary_ok a"
  shows "if 0 \<le> i \<and> i < int (ary_size a) \<and> ary_capa a = ary_size a + 1
    then ary_exec (AryRemove i) a = Inl UndefinedBehaviour
    else ary_does (ary_exec (AryRemove i) a) (list_exec (AryRemove i) (ary_list a))"
  using ok
proof (rule ary_eqE)
  fix xs n
  assume a: "a = \<lparr>ary_cells = xs @ replicate (Suc n) None, ary_size = length xs\<rparr>" "ary_list a = xs"
  show ?thesis
  proof (cases "0 \<le> i \<and> i < int (length xs)")
    case False
    then show ?thesis using ok
      by (auto simp: a(2) ary_exec_def list_exec_def frt_ary_remove_i_def ary_does_def) (auto simp: a(1))
  next
    case True
    define us y vs where "us = take (nat i) xs" and "y = xs ! nat i" and "vs = drop (Suc (nat i)) xs"
    have xs: "xs = us @ y # vs" and i: "i = int (length us)"
      using True by (auto simp: us_def y_def vs_def id_take_nth_drop nat_less_iff)
    show ?thesis
    proof (cases n)
      case 0
      with True show ?thesis by (simp add: a(1) ary_exec_def frt_ary_remove_i_def Let_def xs i)
    next
      case (Suc k)
      have "ary_does (ary_exec (AryRemove i) a) (list_exec (AryRemove i) (ary_list a))"
      proof (rule ary_does_cells [where xs = "us @ vs" and n = "Suc n"])
        show "list_exec (AryRemove i) (ary_list a) = Inr (y, us @ vs)"
          by (simp add: a(2) list_exec_def i xs)
        show "ary_exec (AryRemove i) a = Inr (y, \<lparr>ary_cells = (us @ vs) @ replicate (Suc (Suc n)) None, ary_size = length (us @ vs)\<rparr>)"
          by (simp add: a(1) ary_exec_def frt_ary_remove_i_def Let_def i xs Suc write_at_def nth_append)
      qed
      moreover have "ary_capa a \<noteq> ary_size a + 1" by (simp add: a(1) Suc)
      ultimately show ?thesis by simp
    qed
  qed
qed

lemma frt_ary_destroy_i_ok: "ary_ok a \<Longrightarrow> frt_ary_destroy_i a = rev (ary_list a)"
proof (elim ary_eqE)
  fix xs n
  assume a: "a = \<lparr>ary_cells = xs @ replicate (Suc n) None, ary_size = length xs\<rparr>" "ary_list a = xs"
  have "map (\<lambda>i. (xs @ replicate (Suc n) None) ! i) [0..<length xs] = xs"
    by (rule nth_equalityI) (simp_all add: nth_append)
  then show ?thesis unfolding frt_ary_destroy_i_def a(2) rev_map [symmetric] by (simp only: a(1) frt_ary.simps)
qed

theorem ary_exec_refines:
  assumes "ary_ok a"
  shows "ary_does (ary_exec op a) (list_exec op (ary_list a)) \<or>
    (\<exists>i. op = AryRemove i \<and> 0 \<le> i \<and> i < int (ary_size a) \<and> ary_capa a = ary_size a + 1 \<and>
      ary_exec op a = Inl UndefinedBehaviour)"
proof (cases op)
  case (AryRemove i)
  with ary_remove_ok [OF assms, of i] show ?thesis by (auto split: if_splits)
qed (use assms ary_get_ok ary_set_ok ary_push_ok ary_pop_ok ary_unshift_ok ary_shift_ok in auto)

end
