(* ===== verification/FrtHelper.thy ===== *)
theory FrtHelper
  imports FrtPrelude
begin

unbundle bit_operations_syntax

text \<open>
  \<open>frt_helper.c\<close>: the common prefix of two strings, which the term dictionary stores as a number, and the
  eight bit floats that norms are stored as.

  \<^item> A \<open>float\<close> is its 32 bits: the code moves it through a union to an integer (\<open>frt_float2int\<close>,
    \<open>frt_int2float\<close>) and compares it with 0 only.
  \<^item> A C string is the list of its bytes before the NUL.
  \<^item> The lemmas give both conversions as arithmetic on the bits: a byte is the eight bits of the float from bit 21
    on, less the 384 that stands for the exponent 48.
\<close>

section \<open>The code\<close>

fun frt_hlp_string_diff :: "byte list \<Rightarrow> byte list \<Rightarrow> nat" where
  "frt_hlp_string_diff (x # s1) (y # s2) = (if x = y then Suc (frt_hlp_string_diff s1 s2) else 0)"
| "frt_hlp_string_diff _ _ = 0"

type_synonym float_bits = u32

definition frt_float2int :: "float_bits \<Rightarrow> u32" where
  "frt_float2int f = f"

definition frt_int2float :: "u32 \<Rightarrow> float_bits" where
  "frt_int2float v = v"

text \<open>The comparison \<open>f <= 0.0\<close>: false for a NaN, true for the two zeros and everything with the sign bit.\<close>

definition float_is_nan :: "float_bits \<Rightarrow> bool" where
  "float_is_nan f \<longleftrightarrow> f AND 0x7F800000 = 0x7F800000 \<and> f AND 0x007FFFFF \<noteq> 0"

definition float_le_zero :: "float_bits \<Rightarrow> bool" where
  "float_le_zero f \<longleftrightarrow> \<not> float_is_nan f \<and> (f AND 0x80000000 \<noteq> 0 \<or> f = 0)"

definition frt_byte2float :: "byte \<Rightarrow> float_bits" where
  "frt_byte2float b =
     (if b = 0 then 0
      else
        (let mantissa = ucast (b AND 0x07) :: u32;
             exponent = ucast (drop_bit 3 b AND 0x1f) :: u32
         in frt_int2float (push_bit 21 mantissa OR push_bit 24 (exponent + 48))))"

definition frt_float2byte :: "float_bits \<Rightarrow> byte" where
  "frt_float2byte f =
     (if float_le_zero f then 0
      else
        (let i = frt_float2int f;
             mantissa = uint (drop_bit 21 (i AND 0xEf0000));
             exponent = sint (drop_bit 24 i - 48);
             (exponent, mantissa) = (if exponent > 0x1f then (0x1f, 0x07) else (exponent, mantissa));
             (exponent, mantissa) = (if exponent < 0 then (0, 1) else (exponent, mantissa))
         in word_of_int (push_bit 3 exponent OR mantissa)))"

section \<open>Common prefixes\<close>

lemma string_diff_le: "frt_hlp_string_diff s t \<le> length s \<and> frt_hlp_string_diff s t \<le> length t"
  by (induction s t rule: frt_hlp_string_diff.induct) auto

lemma string_diff_take: "take (frt_hlp_string_diff s t) s = take (frt_hlp_string_diff s t) t"
  by (induction s t rule: frt_hlp_string_diff.induct) auto

lemma string_diff_maximal:
  "frt_hlp_string_diff s t < length s \<Longrightarrow> frt_hlp_string_diff s t < length t \<Longrightarrow>
   s ! frt_hlp_string_diff s t \<noteq> t ! frt_hlp_string_diff s t"
  by (induction s t rule: frt_hlp_string_diff.induct) auto

section \<open>Eight bit floats\<close>

lemma or_mult_add: "m < 2 ^ k \<Longrightarrow> push_bit k e OR m = e * 2 ^ k + (m :: int)" if "0 \<le> m" for e m :: int
proof -
  assume "m < 2 ^ k"
  then have "take_bit k m = m" using that by (simp add: take_bit_int_eq_self_iff)
  then have "push_bit k e OR m = push_bit k e + m"
    by (intro disjunctive_add [symmetric]) (metis bit_push_bit_iff bit_take_bit_iff linorder_not_less)
  then show ?thesis by (simp add: push_bit_eq_mult)
qed

lemma mask_3: "(0x07 :: 'a::len word) = mask 3" and mask_5: "(0x1f :: 'a::len word) = mask 5"
  by (simp_all add: mask_eq_exp_minus_1)

lemma uint_byte_bounds: "0 \<le> uint (b :: byte)" "uint b < 256"
  using uint_lt2p [of b] by simp_all

lemma take_bit_small: "0 \<le> k \<Longrightarrow> k < 2 ^ n \<Longrightarrow> take_bit n k = (k :: int)"
  by (simp add: take_bit_int_eq_self_iff)

lemma uint_ucast_byte: "uint (ucast (b :: byte) :: u32) = uint b"
  using uint_byte_bounds [of b] by (simp add: unsigned_ucast_eq take_bit_int_eq_self_iff)

lemma uint_drop: "uint (drop_bit n w) = uint (w :: 'a::len word) div 2 ^ n"
  using take_bit_small [OF _ uint_lt2p, of w] by (simp add: unsigned_drop_bit_eq drop_bit_eq_div [where 'a = int, symmetric])

lemma uint_byte_low: "uint (ucast (b AND 0x07 :: byte) :: u32) = uint b mod 8"
  by (simp only: uint_ucast_byte mask_3 take_bit_eq_mask [symmetric] unsigned_take_bit_eq) (simp add: take_bit_eq_mod)

lemma uint_byte_high: "uint (ucast (drop_bit 3 b AND 0x1f :: byte) :: u32) = uint b div 8"
proof -
  have "0 \<le> uint b div 8" "uint b div 8 < 32" using uint_byte_bounds [of b] by linarith+
  then have "take_bit 5 (uint b div 8) = uint b div 8" by (simp add: take_bit_int_eq_self_iff)
  then show ?thesis
    by (simp only: uint_ucast_byte mask_5 take_bit_eq_mask [symmetric] unsigned_take_bit_eq uint_drop) simp
qed

lemma uint_byte2float:
  assumes "b \<noteq> 0"
  shows "uint (frt_byte2float b) = (uint b + 384) * 2 ^ 21"
proof -
  let ?m = "ucast (b AND 0x07) :: u32" and ?e = "ucast (drop_bit 3 b AND 0x1f) :: u32"
  define e m where "e = uint b div 8 + 48" and "m = uint b mod 8"
  have b: "0 \<le> m" "m < 8" "48 \<le> e" "e < 80" "8 * e + m = uint b + 384"
    using uint_byte_bounds [of b] unfolding e_def m_def by presburger+
  have "uint (?e + 48) = e"
    unfolding uint_word_ariths uint_byte_high using b by (simp add: e_def [symmetric])
  then have "uint (push_bit 24 (?e + 48)) = take_bit 32 (push_bit 24 e)"
    by (simp only: unsigned_push_bit_eq) simp
  then have 1: "uint (push_bit 24 (?e + 48)) = push_bit 21 (8 * e)"
    using b take_bit_small [of "e * 16777216" 32] by (simp add: push_bit_eq_mult)
  have 2: "uint (push_bit 21 ?m) = push_bit 21 m"
    using b take_bit_small [of "m * 2097152" 32]
    by (simp only: unsigned_push_bit_eq uint_byte_low m_def [symmetric]) (simp add: push_bit_eq_mult)
  have "uint (frt_byte2float b) = push_bit 21 m OR push_bit 21 (8 * e)"
    using assms unfolding frt_byte2float_def frt_int2float_def Let_def by (simp only: if_False unsigned_or_eq 1 2)
  also have "\<dots> = push_bit 21 (push_bit 3 e OR m)"
    by (simp only: push_bit_or [symmetric] or.commute [of m]) (simp add: push_bit_eq_mult mult.commute)
  also have "push_bit 3 e OR m = 8 * e + m" using or_mult_add [of m 3 e] b by simp
  finally show ?thesis unfolding b(5) by (simp add: push_bit_eq_mult)
qed

text \<open>A float whose exponent fits is cut off to its bits from 21 on.\<close>

lemma uint_float2byte:
  assumes d: "d = uint f div 2 ^ 21" and lo: "384 \<le> d" and hi: "d < 640"
  shows "uint (frt_float2byte f) = d - 384"
proof -
  define e m where "e = d div 8 - 48" and "m = d mod 8"
  have b: "0 \<le> m" "m < 8" "0 \<le> e" "e < 32" "8 * e + m = d - 384"
    using lo hi unfolding e_def m_def by presburger+
  have f: "uint f < 0x50000000" using hi unfolding d by simp
  have "uint (f AND 0x7F800000) \<le> uint f" using word_and_le2 [of f "0x7F800000"] by (simp add: word_le_def and.commute)
  then have "\<not> float_is_nan f" using f by (auto simp: float_is_nan_def)
  moreover have "f AND 0x80000000 = 0"
  proof -
    have "take_bit 31 (uint f) = uint f" using f by (intro take_bit_small) auto
    then have "\<not> bit (uint f) 31" by (metis bit_take_bit_iff order_less_irrefl)
    then have "\<not> bit f 31" by (simp add: bit_uint_iff)
    then show ?thesis using and_exp_eq_0_iff_not_bit [of f 31] by simp
  qed
  moreover have "f \<noteq> 0" using lo unfolding d by auto
  ultimately have nz: "\<not> float_le_zero f" by (simp add: float_le_zero_def)
  have 1: "uint (drop_bit 21 (f AND 0xEf0000)) = m"
  proof -
    have "drop_bit 21 (f AND 0xEf0000) = take_bit 3 (drop_bit 21 f)"
    proof -
      have "drop_bit 21 (0xEf0000 :: u32) = 7" by (simp add: drop_bit_eq_div word_eq_iff_unsigned)
      then show ?thesis by (simp only: drop_bit_and take_bit_eq_mask mask_3)
    qed
    then show ?thesis
      by (simp only: unsigned_take_bit_eq uint_drop take_bit_eq_mod [where 'a = int] m_def d) simp
  qed
  have "uint (drop_bit 24 f) = d div 8"
    by (simp only: uint_drop d) (simp add: zdiv_zmult2_eq [symmetric])
  then have "uint (drop_bit 24 f - 48) = e"
    unfolding uint_word_ariths using b by (simp add: e_def)
  then have 2: "sint (drop_bit 24 f - 48) = e" using b by (simp add: sint_uint signed_take_bit_int_eq_self)
  have "frt_float2byte f = word_of_int (push_bit 3 e OR m)"
    using nz b unfolding frt_float2byte_def frt_float2int_def Let_def 1 2 by simp
  also have "push_bit 3 e OR m = d - 384" using or_mult_add [of m 3 e] b by simp
  finally have "uint (frt_float2byte f) = take_bit 8 (d - 384)" by (simp only: unsigned_of_int) simp
  then show ?thesis using lo hi by (simp add: take_bit_small)
qed

text \<open>
  Truncation: between the floats of two neighbouring bytes it takes the lower one. For positive floats the order
  of the bits is the order of the values.
\<close>

lemma float2byte_floor:
  assumes "384 * 2 ^ 21 < uint f" "uint f < 640 * 2 ^ 21" "frt_float2byte f \<noteq> 0"
  shows "uint (frt_byte2float (frt_float2byte f)) \<le> uint f \<and> uint f < uint (frt_byte2float (frt_float2byte f)) + 2 ^ 21"
proof -
  have "384 \<le> uint f div 2 ^ 21" "uint f div 2 ^ 21 < 640" using assms by auto
  from uint_float2byte [OF refl this] have "uint (frt_byte2float (frt_float2byte f)) = uint f div 2 ^ 21 * 2 ^ 21"
    by (simp add: uint_byte2float [OF assms(3)])
  moreover have "0 \<le> uint f mod 2 ^ 21" "uint f mod 2 ^ 21 < 2 ^ 21" by simp_all
  ultimately show ?thesis using div_mult_mod_eq [of "uint f" "2 ^ 21"] by linarith
qed

lemma float2byte_byte2float: "frt_float2byte (frt_byte2float b) = b"
proof (cases "b = 0")
  case True
  then show ?thesis by (simp add: frt_byte2float_def frt_float2byte_def float_le_zero_def float_is_nan_def)
next
  case False
  have "uint (frt_float2byte (frt_byte2float b)) = uint b + 384 - 384"
    using uint_byte_bounds [of b] by (intro uint_float2byte) (simp_all add: uint_byte2float [OF False])
  then show ?thesis by (simp add: word_uint_eq_iff)
qed

text \<open>A positive float below the least one a byte stands for becomes 1, the next ones become 0.\<close>

lemma float2byte_dips: "frt_float2byte 0x2FFFFFFF = 1 \<and> frt_float2byte 0x30000000 = 0"
  by (simp add: frt_float2byte_def float_le_zero_def float_is_nan_def frt_float2int_def Let_def)

end
