(* ===== verification/FrtMemPool.thy ===== *)
theory FrtMemPool
  imports FrtPrelude
begin

text \<open>
  The memory pool of \<open>frt_mempool.c\<close>, from which terms and postings are allocated in pieces and freed at
  once.

  \<^item> \<open>mp_buffers\<close> are the allocated chunks (\<open>buffers[0 .. buf_alloc)\<close>) with their bytes; a pointer into the
    pool is the number of a chunk and an offset. \<open>curr_buffer\<close> is a number too.
  \<^item> \<open>junk\<close> is what \<open>malloc\<close> hands out: a chunk of any contents.
  \<^item> Writing behind the end of a chunk is \<open>UndefinedBehaviour\<close>.
  \<^item> The lemmas show that pieces handed out since the last reset stay as they were written.
\<close>

section \<open>The code\<close>

definition FRT_MP_BUF_SIZE :: nat where
  "FRT_MP_BUF_SIZE = 65536"

definition FRT_MP_INIT_CAPA :: nat where
  "FRT_MP_INIT_CAPA = 4"

record mempool =
  mp_buf_capa :: nat
  mp_buf_pointer :: nat
  mp_pointer :: nat
  mp_chunk_size :: nat
  mp_curr_buffer :: nat
  mp_buffers :: "byte list list"

abbreviation mp_buf_alloc :: "mempool \<Rightarrow> nat" where
  "mp_buf_alloc mp \<equiv> length (mp_buffers mp)"

type_synonym mp_ptr = "nat \<times> nat"

definition frt_mp_new_capa :: "byte list \<Rightarrow> nat \<Rightarrow> nat \<Rightarrow> mempool" where
  "frt_mp_new_capa junk chunk_size init_buf_capa =
     \<lparr>mp_buf_capa = init_buf_capa, mp_buf_pointer = 0, mp_pointer = 0, mp_chunk_size = chunk_size,
      mp_curr_buffer = 0, mp_buffers = [junk]\<rparr>"

definition frt_mp_new :: "byte list \<Rightarrow> mempool" where
  "frt_mp_new junk = frt_mp_new_capa junk FRT_MP_BUF_SIZE FRT_MP_INIT_CAPA"

definition frt_mp_alloc :: "byte list \<Rightarrow> mempool \<Rightarrow> nat \<Rightarrow> mp_ptr \<times> mempool" where
  "frt_mp_alloc junk mp sz =
     (let p = (mp_curr_buffer mp, mp_pointer mp);
          mp = mp\<lparr>mp_pointer := mp_pointer mp + sz\<rparr>
      in if mp_pointer mp > mp_chunk_size mp then
           (let bp = mp_buf_pointer mp + 1;
                mp = mp\<lparr>mp_buf_pointer := bp\<rparr>;
                mp = (if bp \<ge> mp_buf_alloc mp then
                        (let buf_alloc = mp_buf_alloc mp + 1
                         in mp\<lparr>mp_buf_capa := (if buf_alloc \<ge> mp_buf_capa mp then 2 * mp_buf_capa mp else mp_buf_capa mp),
                               mp_buffers := mp_buffers mp @ [junk]\<rparr>)
                      else mp)
            in ((bp, 0), mp\<lparr>mp_curr_buffer := bp, mp_pointer := sz\<rparr>))
         else (p, mp))"

text \<open>The \<open>memcpy\<close> into an allocated piece.\<close>

definition mp_write :: "mempool \<Rightarrow> mp_ptr \<Rightarrow> byte list \<Rightarrow> mempool res" where
  "mp_write mp p bs =
     (let (b, off) = p
      in if b < mp_buf_alloc mp \<and> off + length bs \<le> length (mp_buffers mp ! b)
         then Inr (mp\<lparr>mp_buffers := (mp_buffers mp)[b := write_at (mp_buffers mp ! b) off bs]\<rparr>)
         else Inl UndefinedBehaviour)"

definition frt_mp_memdup :: "byte list \<Rightarrow> mempool \<Rightarrow> byte list \<Rightarrow> (mp_ptr \<times> mempool) res" where
  "frt_mp_memdup junk mp bs =
     (let (p, mp) = frt_mp_alloc junk mp (length bs) in ebind (mp_write mp p bs) (\<lambda>mp. Inr (p, mp)))"

definition frt_mp_strdup :: "byte list \<Rightarrow> mempool \<Rightarrow> byte list \<Rightarrow> (mp_ptr \<times> mempool) res" where
  "frt_mp_strdup junk mp str =
     (let len = length str + 1; (p, mp) = frt_mp_alloc junk mp len
      in ebind (mp_write mp p (str @ [0])) (\<lambda>mp. Inr (p, mp)))"

text \<open>\<open>str\<close> holds at least \<open>len\<close> bytes.\<close>

definition frt_mp_strndup :: "byte list \<Rightarrow> mempool \<Rightarrow> byte list \<Rightarrow> nat \<Rightarrow> (mp_ptr \<times> mempool) res" where
  "frt_mp_strndup junk mp str len =
     (let (p, mp) = frt_mp_alloc junk mp (len + 1)
      in ebind (mp_write mp p (take len str)) (\<lambda>mp.
         ebind (mp_write mp (fst p, snd p + len) [0]) (\<lambda>mp. Inr (p, mp))))"

definition frt_mp_used :: "mempool \<Rightarrow> nat" where
  "frt_mp_used mp = mp_buf_pointer mp * mp_chunk_size mp + mp_pointer mp"

definition frt_mp_reset :: "mempool \<Rightarrow> mempool" where
  "frt_mp_reset mp = mp\<lparr>mp_buf_pointer := 0, mp_pointer := 0, mp_curr_buffer := 0\<rparr>"

definition mp_read :: "mempool \<Rightarrow> mp_ptr \<Rightarrow> nat \<Rightarrow> byte list" where
  "mp_read mp p n = take n (drop (snd p) (mp_buffers mp ! fst p))"

section \<open>What was handed out stays\<close>

definition mp_ok :: "mempool \<Rightarrow> bool" where
  "mp_ok mp \<longleftrightarrow> (\<forall>b \<in> set (mp_buffers mp). length b = mp_chunk_size mp) \<and> mp_buf_pointer mp < mp_buf_alloc mp \<and>
     mp_curr_buffer mp = mp_buf_pointer mp \<and> mp_pointer mp \<le> mp_chunk_size mp"

text \<open>\<open>mp_old mp p n\<close>: the piece of \<open>n\<close> bytes at \<open>p\<close> lies before the next one to be handed out.\<close>

definition mp_old :: "mempool \<Rightarrow> mp_ptr \<Rightarrow> nat \<Rightarrow> bool" where
  "mp_old mp p n \<longleftrightarrow> fst p < mp_buf_pointer mp \<and> snd p + n \<le> mp_chunk_size mp \<or>
     fst p = mp_buf_pointer mp \<and> snd p + n \<le> mp_pointer mp"

lemma mp_new_ok: "length junk = chunk \<Longrightarrow> mp_ok (frt_mp_new_capa junk chunk capa)"
  by (simp add: mp_ok_def frt_mp_new_capa_def)

lemma mp_reset_ok: "mp_ok mp \<Longrightarrow> mp_ok (frt_mp_reset mp) \<and> frt_mp_used (frt_mp_reset mp) = 0"
  by (auto simp: mp_ok_def frt_mp_reset_def frt_mp_used_def)

text \<open>A piece that fits a chunk is handed out behind the old ones; the bytes of the pool are as before.\<close>

lemma frt_mp_alloc_ok:
  assumes "mp_ok mp" and "sz \<le> mp_chunk_size mp" and "length junk = mp_chunk_size mp"
    and "frt_mp_alloc junk mp sz = (p, mp')"
  shows "mp_ok mp'" and "mp_chunk_size mp' = mp_chunk_size mp" and "mp_old mp' p sz"
    and "snd p + sz \<le> mp_chunk_size mp'" and "fst p < mp_buf_alloc mp'"
  using assms by (auto simp: frt_mp_alloc_def mp_ok_def mp_old_def Let_def split: if_splits)

lemma frt_mp_alloc_old:
  assumes "mp_ok mp" and "frt_mp_alloc junk mp sz = (p, mp')" and "mp_old mp q n"
  shows "mp_old mp' q n" and "mp_read mp' q n = mp_read mp q n" and "fst q \<noteq> fst p \<or> snd q + n \<le> snd p"
  using assms by (auto simp: frt_mp_alloc_def mp_ok_def mp_old_def mp_read_def Let_def nth_append split: if_splits)

text \<open>A write into the piece changes only it.\<close>

lemma mp_write_ok:
  assumes "mp_ok mp" and "fst p < mp_buf_alloc mp" and "snd p + length bs \<le> mp_chunk_size mp"
  shows "\<exists>mp'. mp_write mp p bs = Inr mp' \<and> mp_ok mp' \<and> mp_chunk_size mp' = mp_chunk_size mp \<and>
    mp_buf_alloc mp' = mp_buf_alloc mp \<and> (\<forall>q n. mp_old mp' q n = mp_old mp q n) \<and> mp_read mp' p (length bs) = bs \<and>
    (\<forall>q n. fst q \<noteq> fst p \<or> snd q + n \<le> snd p \<longrightarrow> mp_read mp' q n = mp_read mp q n)"
proof -
  obtain b off where p: "p = (b, off)" by (cases p)
  have len: "length (mp_buffers mp ! b) = mp_chunk_size mp" using assms by (simp add: mp_ok_def p)
  have same: "length (write_at (mp_buffers mp ! b) off bs) = mp_chunk_size mp"
    using assms len by (simp add: length_write_at p)
  let ?mp' = "mp\<lparr>mp_buffers := (mp_buffers mp)[b := write_at (mp_buffers mp ! b) off bs]\<rparr>"
  have "mp_write mp p bs = Inr ?mp'" using assms len by (simp add: mp_write_def p)
  moreover have "mp_ok ?mp'" using assms same set_update_subset_insert [of "mp_buffers mp" b] by (fastforce simp: mp_ok_def)
  moreover have "mp_read ?mp' p (length bs) = bs"
    using assms len by (simp add: mp_read_def p write_at_def)
  moreover have "mp_read ?mp' q n = mp_read mp q n" if "fst q \<noteq> b \<or> snd q + n \<le> off" for q n
  proof (cases "fst q = b")
    case True
    with that have "take n (drop (snd q) (write_at (mp_buffers mp ! b) off bs)) = take n (drop (snd q) (mp_buffers mp ! b))"
      using assms len by (simp add: write_at_def p take_drop)
    with True assms show ?thesis by (simp add: mp_read_def p)
  qed (simp add: mp_read_def)
  ultimately show ?thesis by (auto simp: p mp_old_def)
qed

text \<open>\<open>mp_gives r mp bs\<close>: the step \<open>r\<close> on the pool \<open>mp\<close> handed out a new piece that holds \<open>bs\<close> and kept the old ones.\<close>

definition mp_gives :: "(mp_ptr \<times> mempool) res \<Rightarrow> mempool \<Rightarrow> byte list \<Rightarrow> bool" where
  "mp_gives r mp bs \<longleftrightarrow> (\<exists>p mp'. r = Inr (p, mp') \<and> mp_ok mp' \<and> mp_chunk_size mp' = mp_chunk_size mp \<and>
     mp_old mp' p (length bs) \<and> mp_read mp' p (length bs) = bs \<and>
     (\<forall>q n. mp_old mp q n \<longrightarrow> mp_old mp' q n \<and> mp_read mp' q n = mp_read mp q n))"

lemma frt_mp_memdup_ok:
  assumes "mp_ok mp" and "length bs \<le> mp_chunk_size mp" and "length junk = mp_chunk_size mp"
  shows "mp_gives (frt_mp_memdup junk mp bs) mp bs"
proof -
  obtain b off mp1 where a: "frt_mp_alloc junk mp (length bs) = ((b, off), mp1)" by (metis surj_pair)
  let ?p = "(b, off)"
  note ok = frt_mp_alloc_ok [OF assms a] and old = frt_mp_alloc_old [OF assms(1) a]
  from mp_write_ok [OF ok(1,5,4)] obtain mp' where
    "mp_write mp1 ?p bs = Inr mp'" "mp_ok mp'" "mp_chunk_size mp' = mp_chunk_size mp1" "mp_read mp' ?p (length bs) = bs"
    "\<forall>q n. mp_old mp' q n = mp_old mp1 q n"
    "\<forall>q n. fst q \<noteq> fst ?p \<or> snd q + n \<le> snd ?p \<longrightarrow> mp_read mp' q n = mp_read mp1 q n" by blast
  then show ?thesis using ok(2,3) old by (auto simp: frt_mp_memdup_def a mp_gives_def)
qed

text \<open>A piece that is larger than a chunk gets a fresh chunk all the same: the write runs over its end.\<close>

lemma frt_mp_memdup_large:
  assumes "mp_ok mp" and "length junk = mp_chunk_size mp" and "mp_chunk_size mp < length bs"
  shows "frt_mp_memdup junk mp bs = Inl UndefinedBehaviour"
  using assms by (auto simp: frt_mp_memdup_def frt_mp_alloc_def mp_write_def mp_ok_def Let_def nth_append)

lemma frt_mp_strdup_eq: "frt_mp_strdup junk mp str = frt_mp_memdup junk mp (str @ [0])"
  by (simp add: frt_mp_strdup_def frt_mp_memdup_def)

lemma mp_write_twice:
  assumes "mp_write mp (b, off) (xs @ ys) = Inr mp'"
  shows "ebind (mp_write mp (b, off) xs) (\<lambda>mp. mp_write mp (b, off + length xs) ys) = Inr mp'"
  using assms by (auto simp: mp_write_def length_write_at write_at_write_at split: if_splits)

lemma frt_mp_strndup_eq:
  assumes "mp_ok mp" and "len < mp_chunk_size mp" and "length junk = mp_chunk_size mp" and "len \<le> length str"
  shows "frt_mp_strndup junk mp str len = frt_mp_memdup junk mp (take len str @ [0])"
proof -
  obtain p mp1 where a: "frt_mp_alloc junk mp (len + 1) = (p, mp1)" by fastforce
  have "len + 1 \<le> mp_chunk_size mp" using assms(2) by simp
  note ok = frt_mp_alloc_ok [OF assms(1) this assms(3) a]
  have "snd p + length (take len str @ [0]) \<le> mp_chunk_size mp1" using ok(4) assms(4) by simp
  from mp_write_ok [OF ok(1,5) this] obtain mp' where w: "mp_write mp1 p (take len str @ [0]) = Inr mp'" by blast
  then have "ebind (mp_write mp1 p (take len str)) (\<lambda>mp. mp_write mp (fst p, snd p + len) [0]) = Inr mp'"
    using mp_write_twice [of mp1 "fst p" "snd p" "take len str" "[0]"] assms(4) by (simp add: min_absorb2)
  then have "ebind (mp_write mp1 p (take len str)) (\<lambda>mp. ebind (mp_write mp (fst p, snd p + len) [0]) (\<lambda>mp. Inr (p, mp))) = Inr (p, mp')"
    by (auto simp: ebind_eq_Inr)
  then show ?thesis using assms(4) w a by (simp add: frt_mp_strndup_def frt_mp_memdup_def min_absorb2)
qed

text \<open>Any number of strings.\<close>

fun mp_strdups :: "byte list \<Rightarrow> mempool \<Rightarrow> byte list list \<Rightarrow> (mp_ptr list \<times> mempool) res" where
  "mp_strdups junk mp [] = Inr ([], mp)"
| "mp_strdups junk mp (s # ss) =
     ebind (frt_mp_strdup junk mp s) (\<lambda>(p, mp). ebind (mp_strdups junk mp ss) (\<lambda>(ps, mp). Inr (p # ps, mp)))"

theorem mp_strdups_ok:
  assumes "mp_ok mp" and "\<forall>s \<in> set ss. length s < mp_chunk_size mp" and "length junk = mp_chunk_size mp"
  shows "\<exists>ps mp'. mp_strdups junk mp ss = Inr (ps, mp') \<and> mp_ok mp' \<and> length ps = length ss \<and>
    (\<forall>i < length ss. mp_read mp' (ps ! i) (length (ss ! i) + 1) = ss ! i @ [0]) \<and>
    (\<forall>q n. mp_old mp q n \<longrightarrow> mp_read mp' q n = mp_read mp q n)"
  using assms
proof (induction ss arbitrary: mp)
  case (Cons s ss)
  have "length (s @ [0]) \<le> mp_chunk_size mp" using Cons.prems(2) by simp
  from frt_mp_memdup_ok [OF Cons.prems(1) this Cons.prems(3)] obtain p mp1 where
    1: "frt_mp_strdup junk mp s = Inr (p, mp1)" "mp_ok mp1" "mp_chunk_size mp1 = mp_chunk_size mp"
      "mp_old mp1 p (length s + 1)" "mp_read mp1 p (length s + 1) = s @ [0]"
      "\<forall>q n. mp_old mp q n \<longrightarrow> mp_old mp1 q n \<and> mp_read mp1 q n = mp_read mp q n"
    by (auto simp: mp_gives_def frt_mp_strdup_eq)
  from Cons.IH [OF 1(2)] Cons.prems 1(3) obtain ps mp' where
    2: "mp_strdups junk mp1 ss = Inr (ps, mp')" "mp_ok mp'" "length ps = length ss"
      "\<forall>i < length ss. mp_read mp' (ps ! i) (length (ss ! i) + 1) = ss ! i @ [0]"
      "\<forall>q n. mp_old mp1 q n \<longrightarrow> mp_read mp' q n = mp_read mp1 q n" by auto
  have p: "mp_read mp' p (length s + 1) = s @ [0]" using 1(4,5) 2(5) by (simp only:)
  have "mp_read mp' ((p # ps) ! i) (length ((s # ss) ! i) + 1) = (s # ss) ! i @ [0]" if "i < length (s # ss)" for i
    using that p 2(4) by (cases i) auto
  with 1 2 show ?case by auto
qed simp

end
