(* ===== verification/FrtHashSet.thy ===== *)
theory FrtHashSet
  imports FrtHashOps
begin

text \<open>
  The hash sets of \<open>frt_hashset.c\<close>: a doubly linked list of the elements in the order they were added, and
  a hash table from the elements to their list entries.

  \<^item> \<open>hs_entry\<close> is \<open>FrtHashSetEntry\<close>; the entries of a set live in \<open>hs_entries\<close>, a store from addresses to
    entries, \<open>hs_fresh\<close> is the next address \<open>malloc\<close> hands out. An entry that was freed is gone from the
    store, and using its address is \<open>UndefinedBehaviour\<close>.
  \<^item> \<open>hashset\<close> is \<open>FrtHashSet\<close>. An element is a pointer to an object, the key \<open>PKey x\<close> of the table.
    \<open>hs_free_elem_i\<close> is whether it differs from \<open>frt_dummy_free\<close>, and \<open>hs_freed\<close> lists what it was called with.
  \<^item> The loops over the list have fuel, the number of elements; the lemmas show that it is enough.
  \<^item> \<open>hs_ok self xs\<close>: the set is in order and its list holds \<open>xs\<close>. The lemmas are proved for any hash and
    comparison that obey the laws of keys, and hold for strings by interpretation. (\<open>frt_hs_new_ptr\<close> is not modelled: its table is
    keyed by integers.)
\<close>

section \<open>The code\<close>

record 'k hs_entry =
  hs_elem :: 'k
  hs_next :: "nat option"
  hs_prev :: "nat option"

record 'k hashset =
  hs_size :: int
  hs_first :: "nat option"
  hs_last :: "nat option"
  hs_ht :: "('k, nat) frt_hash"
  hs_free_elem_i :: bool
  hs_entries :: "nat \<Rightarrow> 'k hs_entry option"
  hs_fresh :: nat
  hs_freed :: "'k list"

definition hs_alloc :: "bool \<Rightarrow> ('k, nat) frt_hash \<Rightarrow> 'k hashset" where
  "hs_alloc free_func ht = \<lparr>hs_size = 0, hs_first = None, hs_last = None, hs_ht = ht,
     hs_free_elem_i = free_func, hs_entries = (\<lambda>_. None), hs_fresh = 0, hs_freed = []\<rparr>"

definition frt_hs_new :: "('k \<Rightarrow> u64) \<Rightarrow> ('k \<Rightarrow> 'k \<Rightarrow> bool) \<Rightarrow> bool \<Rightarrow> 'k hashset" where
  "frt_hs_new hash_func eq_func free_func = hs_alloc free_func (frt_h_new hash_func eq_func False False)"

definition frt_hs_new_str :: "bool \<Rightarrow> cstr hashset" where
  "frt_hs_new_str free_func = hs_alloc free_func (frt_h_new_str False False)"

text \<open>Access through a pointer.\<close>

definition hs_deref :: "'k hashset \<Rightarrow> nat option \<Rightarrow> (nat \<times> 'k hs_entry) res" where
  "hs_deref self p = (case p of None \<Rightarrow> Inl UndefinedBehaviour
     | Some a \<Rightarrow> (case hs_entries self a of None \<Rightarrow> Inl UndefinedBehaviour | Some e \<Rightarrow> Inr (a, e)))"

definition hs_set_next :: "'k hashset \<Rightarrow> nat option \<Rightarrow> nat option \<Rightarrow> 'k hashset res" where
  "hs_set_next self p q =
     ebind (hs_deref self p) (\<lambda>(a, e). Inr (self\<lparr>hs_entries := (hs_entries self)(a \<mapsto> e\<lparr>hs_next := q\<rparr>)\<rparr>))"

definition hs_set_prev :: "'k hashset \<Rightarrow> nat option \<Rightarrow> nat option \<Rightarrow> 'k hashset res" where
  "hs_set_prev self p q =
     ebind (hs_deref self p) (\<lambda>(a, e). Inr (self\<lparr>hs_entries := (hs_entries self)(a \<mapsto> e\<lparr>hs_prev := q\<rparr>)\<rparr>))"

definition free_elem_i :: "'k hashset \<Rightarrow> 'k \<Rightarrow> 'k hashset" where
  "free_elem_i self x = (if hs_free_elem_i self then self\<lparr>hs_freed := hs_freed self @ [x]\<rparr> else self)"

fun hs_clear_loop :: "nat \<Rightarrow> bool \<Rightarrow> nat option \<Rightarrow> 'k hashset \<Rightarrow> 'k hashset res" where
  "hs_clear_loop fuel destroy None self = Inr self"
| "hs_clear_loop 0 destroy (Some p) self = Inl UndefinedBehaviour"
| "hs_clear_loop (Suc fuel) destroy (Some p) self =
     ebind (hs_deref self (Some p)) (\<lambda>(curr, e).
       let self = (if destroy then free_elem_i self (hs_elem e) else self);
           self = self\<lparr>hs_entries := (hs_entries self)(curr := None)\<rparr>
       in hs_clear_loop fuel destroy (hs_next e) self)"

definition hs_clear :: "'k hashset \<Rightarrow> bool \<Rightarrow> 'k hashset res" where
  "hs_clear self destroy =
     ebind (hs_clear_loop (nat (hs_size self)) destroy (hs_first self) self)
       (\<lambda>self. Inr (self\<lparr>hs_first := None, hs_last := None, hs_size := 0\<rparr>))"

definition frt_hs_clear :: "'k hashset \<Rightarrow> 'k hashset res" where
  "frt_hs_clear self = ebind (hs_clear self True) (\<lambda>self. Inr (self\<lparr>hs_ht := frt_h_clear (hs_ht self)\<rparr>))"

text \<open>What is left of a set that was freed or destroyed is what its elements' destructor was called with.\<close>

definition frt_hs_free :: "'k hashset \<Rightarrow> 'k list res" where
  "frt_hs_free self = ebind (hs_clear self False) (\<lambda>self. Inr (hs_freed self))"

definition frt_hs_destroy :: "'k hashset \<Rightarrow> 'k list res" where
  "frt_hs_destroy self = ebind (hs_clear self True) (\<lambda>self. Inr (hs_freed self))"

definition hs_append :: "'k hashset \<Rightarrow> 'k \<Rightarrow> 'k hashset res" where
  "hs_append self x =
     (let entry = hs_fresh self;
          self = self\<lparr>hs_fresh := entry + 1, hs_entries := (hs_entries self)
            (entry \<mapsto> \<lparr>hs_elem = x, hs_next = None, hs_prev = hs_last self\<rparr>)\<rparr>
      in ebind (if hs_first self = None then Inr (self\<lparr>hs_first := Some entry, hs_last := Some entry\<rparr>)
                else ebind (hs_set_next self (hs_last self) (Some entry)) (\<lambda>self. Inr (self\<lparr>hs_last := Some entry\<rparr>)))
           (\<lambda>self. ebind (frt_h_set (hs_ht self) (PKey x) (Some entry)) (\<lambda>(_, ht).
             Inr (self\<lparr>hs_ht := ht, hs_size := hs_size self + 1\<rparr>))))"

definition frt_hs_add :: "'k hashset \<Rightarrow> 'k \<Rightarrow> (hash_key_status \<times> 'k hashset) res" where
  "frt_hs_add self x =
     ebind (frt_h_has_key (hs_ht self) (PKey x)) (\<lambda>(has_elem, ht).
       let self = self\<lparr>hs_ht := ht\<rparr>
       in case has_elem of
            FRT_HASH_KEY_EQUAL \<Rightarrow> Inr (has_elem, free_elem_i self x)
          | FRT_HASH_KEY_SAME \<Rightarrow> Inr (has_elem, self)
          | FRT_HASH_KEY_DOES_NOT_EXIST \<Rightarrow> ebind (hs_append self x) (\<lambda>self. Inr (has_elem, self)))"

definition frt_hs_add_safe :: "'k hashset \<Rightarrow> 'k \<Rightarrow> (bool \<times> 'k hashset) res" where
  "frt_hs_add_safe self x =
     ebind (frt_h_has_key (hs_ht self) (PKey x)) (\<lambda>(has_elem, ht).
       let self = self\<lparr>hs_ht := ht\<rparr>
       in case has_elem of
            FRT_HASH_KEY_EQUAL \<Rightarrow> Inr (False, self)
          | FRT_HASH_KEY_SAME \<Rightarrow> Inr (True, self)
          | FRT_HASH_KEY_DOES_NOT_EXIST \<Rightarrow> ebind (hs_append self x) (\<lambda>self. Inr (True, self)))"

definition hs_unlink :: "'k hashset \<Rightarrow> nat \<Rightarrow> 'k hs_entry \<Rightarrow> 'k hashset res" where
  "hs_unlink self a entry =
     (if hs_first self = hs_last self then Inr (self\<lparr>hs_first := None, hs_last := None\<rparr>)
      else if hs_first self = Some a then
        (let self = self\<lparr>hs_first := hs_next entry\<rparr> in hs_set_prev self (hs_first self) None)
      else if hs_last self = Some a then
        (let self = self\<lparr>hs_last := hs_prev entry\<rparr> in hs_set_next self (hs_last self) None)
      else ebind (hs_set_next self (hs_prev entry) (hs_next entry)) (\<lambda>self. hs_set_prev self (hs_next entry) (hs_prev entry)))"

definition frt_hs_rem :: "'k hashset \<Rightarrow> 'k \<Rightarrow> ('k option \<times> 'k hashset) res" where
  "frt_hs_rem self x =
     ebind (frt_h_get (hs_ht self) (PKey x)) (\<lambda>(p, ht).
       let self = self\<lparr>hs_ht := ht\<rparr>
       in if p = None then Inr (None, self)
          else ebind (hs_deref self p) (\<lambda>(a, entry).
               ebind (hs_unlink self a entry) (\<lambda>self.
                 let return_elem = hs_elem entry
                 in ebind (frt_h_del (hs_ht self) (PKey return_elem)) (\<lambda>(_, ht).
                      Inr (Some return_elem, self\<lparr>hs_ht := ht, hs_entries := (hs_entries self)(a := None),
                        hs_size := hs_size self - 1\<rparr>)))))"

definition frt_hs_del :: "'k hashset \<Rightarrow> 'k \<Rightarrow> (bool \<times> 'k hashset) res" where
  "frt_hs_del self x =
     ebind (frt_hs_rem self x) (\<lambda>(tmp_elem, self). case tmp_elem of
       Some y \<Rightarrow> Inr (True, free_elem_i self y) | None \<Rightarrow> Inr (False, self))"

definition frt_hs_exists :: "'k hashset \<Rightarrow> 'k \<Rightarrow> (hash_key_status \<times> 'k hashset) res" where
  "frt_hs_exists self x =
     ebind (frt_h_has_key (hs_ht self) (PKey x)) (\<lambda>(r, ht). Inr (r, self\<lparr>hs_ht := ht\<rparr>))"

fun hs_merge_loop :: "nat \<Rightarrow> 'k hashset \<Rightarrow> nat option \<Rightarrow> 'k hashset \<Rightarrow> 'k hashset res" where
  "hs_merge_loop fuel other None self = Inr self"
| "hs_merge_loop 0 other (Some p) self = Inl UndefinedBehaviour"
| "hs_merge_loop (Suc fuel) other (Some p) self =
     ebind (hs_deref other (Some p)) (\<lambda>(_, e).
     ebind (frt_hs_add self (hs_elem e)) (\<lambda>(_, self). hs_merge_loop fuel other (hs_next e) self))"

definition frt_hs_merge :: "'k hashset \<Rightarrow> 'k hashset \<Rightarrow> 'k hashset res" where
  "frt_hs_merge self other =
     ebind (hs_merge_loop (nat (hs_size other)) other (hs_first other) self) (\<lambda>self.
     ebind (frt_hs_free other) (\<lambda>_. Inr self))"

definition frt_hs_orig :: "'k hashset \<Rightarrow> 'k \<Rightarrow> ('k option \<times> 'k hashset) res" where
  "frt_hs_orig self x =
     ebind (frt_h_get (hs_ht self) (PKey x)) (\<lambda>(p, ht).
       let self = self\<lparr>hs_ht := ht\<rparr>
       in if p = None then Inr (None, self) else ebind (hs_deref self p) (\<lambda>(_, e). Inr (Some (hs_elem e), self)))"

section \<open>Linked segments\<close>

text \<open>
  \<open>seg h p es q\<close>: the entries \<open>es\<close> (address and element) are linked in \<open>h\<close>; \<open>p\<close> is the entry before the
  first one, \<open>q\<close> the one behind the last.
\<close>

definition head_or :: "(nat \<times> 'k) list \<Rightarrow> nat option \<Rightarrow> nat option" where
  "head_or es q = (if es = [] then q else Some (fst (hd es)))"

definition last_or :: "(nat \<times> 'k) list \<Rightarrow> nat option \<Rightarrow> nat option" where
  "last_or es p = (if es = [] then p else Some (fst (last es)))"

fun seg :: "(nat \<Rightarrow> 'k hs_entry option) \<Rightarrow> nat option \<Rightarrow> (nat \<times> 'k) list \<Rightarrow> nat option \<Rightarrow> bool" where
  "seg h p [] q \<longleftrightarrow> True"
| "seg h p ((a, x) # es) q \<longleftrightarrow> h a = Some \<lparr>hs_elem = x, hs_next = head_or es q, hs_prev = p\<rparr> \<and> seg h (Some a) es q"

lemma ends_simps [simp]:
  "head_or [] q = q" "head_or (e # es) q = Some (fst e)" "last_or [] p = p" "last_or (es @ [e]) p = Some (fst e)"
  "last_or [e] p = Some (fst e)"
  by (simp_all add: head_or_def last_or_def)

lemma head_or_append: "head_or (us @ vs) q = head_or us (head_or vs q)"
  by (cases us) auto

lemma last_or_append: "last_or (us @ vs) p = last_or vs (last_or us p)"
  by (cases vs rule: rev_cases) (auto simp flip: append_assoc)

lemma last_or_Cons: "last_or (e # es) p = last_or es (Some (fst e))"
  using last_or_append [of "[e]" es p] by simp

lemma seg_append: "seg h p (us @ vs) q \<longleftrightarrow> seg h p us (head_or vs q) \<and> seg h (last_or us p) vs q"
  by (induction h p us q rule: seg.induct) (auto simp: head_or_append last_or_Cons)

lemma seg_frame: "a \<notin> fst ` set es \<Longrightarrow> seg (h(a := e)) p es q \<longleftrightarrow> seg h p es q"
  by (induction h p es q rule: seg.induct) auto

text \<open>Relinking the ends.\<close>

lemma seg_new_next:
  assumes "seg h p es q" and "distinct (map fst es)" and "last_or es None = Some a"
  shows "\<exists>e. h a = Some e \<and> seg (h(a \<mapsto> e\<lparr>hs_next := q'\<rparr>)) p es q'"
proof (cases es rule: rev_cases)
  case (snoc us e)
  then show ?thesis using assms by (cases e) (auto simp: seg_append seg_frame)
qed (use assms in simp)

lemma seg_new_prev:
  assumes "seg h p es q" and "distinct (map fst es)" and "head_or es None = Some a"
  shows "\<exists>e. h a = Some e \<and> seg (h(a \<mapsto> e\<lparr>hs_prev := p'\<rparr>)) p' es q"
proof (cases es)
  case (Cons e us)
  then show ?thesis using assms by (cases e) (auto simp: seg_frame)
qed (use assms in simp)

lemma hs_derefI: "hs_entries self a = Some e \<Longrightarrow> hs_deref self (Some a) = Inr (a, e)"
  by (simp add: hs_deref_def)

lemma hs_set_next_ok:
  assumes "seg (hs_entries self) p es q" and "distinct (map fst es)" and "es \<noteq> []"
  shows "\<exists>h. hs_set_next self (last_or es None) q' = Inr (self\<lparr>hs_entries := h\<rparr>) \<and> seg h p es q' \<and>
    (\<forall>b. b \<notin> fst ` set es \<longrightarrow> h b = hs_entries self b)"
proof -
  from assms(3) obtain us a x where es: "es = us @ [(a, x)]" by (cases es rule: rev_cases) auto
  then have l: "last_or es None = Some a" by simp
  from seg_new_next [OF assms(1,2) l] obtain e where
    "hs_entries self a = Some e" "seg ((hs_entries self)(a \<mapsto> e\<lparr>hs_next := q'\<rparr>)) p es q'" by blast
  then show ?thesis by (auto simp: l hs_set_next_def hs_derefI es)
qed

lemma hs_set_prev_ok:
  assumes "seg (hs_entries self) p es q" and "distinct (map fst es)" and "es \<noteq> []"
  shows "\<exists>h. hs_set_prev self (head_or es None) p' = Inr (self\<lparr>hs_entries := h\<rparr>) \<and> seg h p' es q \<and>
    (\<forall>b. b \<notin> fst ` set es \<longrightarrow> h b = hs_entries self b)"
proof -
  from assms(3) obtain us a x where es: "es = (a, x) # us" by (cases es) auto
  then have l: "head_or es None = Some a" by simp
  from seg_new_prev [OF assms(1,2) l] obtain e where
    "hs_entries self a = Some e" "seg ((hs_entries self)(a \<mapsto> e\<lparr>hs_prev := p'\<rparr>)) p' es q" by blast
  then show ?thesis by (auto simp: l hs_set_prev_def hs_derefI es)
qed

lemma seg_cong: "(\<And>a. a \<in> fst ` set es \<Longrightarrow> h a = h' a) \<Longrightarrow> seg h p es q \<longleftrightarrow> seg h' p es q"
  by (induction h p es q rule: seg.induct) auto

text \<open>Unlinking an entry joins what is before it to what is behind it.\<close>

lemma hs_unlink_ok:
  fixes self :: "'k hashset"
  assumes d: "distinct (map fst (us @ (a, y) # vs))"
    and s: "seg (hs_entries self) None (us @ (a, y) # vs) None"
    and ends: "hs_first self = head_or (us @ (a, y) # vs) None" "hs_last self = last_or (us @ (a, y) # vs) None"
    and entry: "entry = \<lparr>hs_elem = y, hs_next = head_or vs None, hs_prev = last_or us None\<rparr>"
  shows "\<exists>h. hs_unlink self a entry = Inr (self\<lparr>hs_first := head_or (us @ vs) None, hs_last := last_or (us @ vs) None,
      hs_entries := h\<rparr>) \<and> seg h None (us @ vs) None \<and> (\<forall>b. b \<notin> fst ` set (us @ vs) \<longrightarrow> h b = hs_entries self b)"
proof -
  have su: "seg (hs_entries self) None us (Some a)" and sv: "seg (hs_entries self) (Some a) vs None"
    using s by (simp_all add: seg_append)
  have au: "a \<notin> fst ` set us" "a \<notin> fst ` set vs" and uv: "fst ` set us \<inter> fst ` set vs = {}"
    and du: "distinct (map fst us)" and dv: "distinct (map fst vs)" using d by auto
  have hu: "us \<noteq> [] \<Longrightarrow> head_or us None = Some (fst (hd us)) \<and> fst (hd us) \<in> fst ` set us" by (cases us) auto
  have lv: "vs \<noteq> [] \<Longrightarrow> last_or vs None = Some (fst (last vs)) \<and> fst (last vs) \<in> fst ` set vs"
    by (cases vs rule: rev_cases) auto
  consider (one) "us = []" "vs = []" | (first) "us = []" "vs \<noteq> []" | (last) "us \<noteq> []" "vs = []" | (mid) "us \<noteq> []" "vs \<noteq> []"
    by blast
  then show ?thesis
  proof cases
    case one
    then show ?thesis using ends
      by (intro exI [of _ "hs_entries self"]) (cases self, simp add: hs_unlink_def)
  next
    case first
    then have l: "hs_last self = last_or vs None" using ends last_or_append [of "[(a, y)]" vs None]
      by (simp add: last_or_def)
    from hs_set_prev_ok [of "self\<lparr>hs_first := head_or vs None\<rparr>" "Some a" vs None None] sv dv first obtain h where
      h: "hs_set_prev (self\<lparr>hs_first := head_or vs None\<rparr>) (head_or vs None) None = Inr (self\<lparr>hs_first := head_or vs None, hs_entries := h\<rparr>)"
        "seg h None vs None" "\<forall>b. b \<notin> fst ` set vs \<longrightarrow> h b = hs_entries self b" by auto
    have "hs_first self \<noteq> hs_last self" using ends(1) l first lv [OF first(2)] au by auto
    then have "hs_unlink self a entry = Inr (self\<lparr>hs_first := head_or vs None, hs_entries := h\<rparr>)"
      using first ends(1) h(1) by (simp add: hs_unlink_def entry)
    moreover have "self\<lparr>hs_first := head_or vs None, hs_entries := h\<rparr> =
        self\<lparr>hs_first := head_or vs None, hs_last := last_or vs None, hs_entries := h\<rparr>" using l by (cases self) simp
    ultimately show ?thesis using first h by auto
  next
    case last
    from hs_set_next_ok [of "self\<lparr>hs_last := last_or us None\<rparr>" None us "Some a" None] su du last obtain h where
      h: "hs_set_next (self\<lparr>hs_last := last_or us None\<rparr>) (last_or us None) None = Inr (self\<lparr>hs_last := last_or us None, hs_entries := h\<rparr>)"
        "seg h None us None" "\<forall>b. b \<notin> fst ` set us \<longrightarrow> h b = hs_entries self b" by auto
    have f: "hs_first self = head_or us None" and l: "hs_last self = Some a" using ends last by (auto simp: head_or_def)
    have "hs_first self \<noteq> hs_last self" "hs_first self \<noteq> Some a" using f l hu [OF last(1)] au by auto
    then have "hs_unlink self a entry = Inr (self\<lparr>hs_last := last_or us None, hs_entries := h\<rparr>)"
      using l h(1) by (simp add: hs_unlink_def entry)
    moreover have "self\<lparr>hs_last := last_or us None, hs_entries := h\<rparr> =
        self\<lparr>hs_first := head_or us None, hs_last := last_or us None, hs_entries := h\<rparr>" using f by (cases self) simp
    ultimately show ?thesis using last h by auto
  next
    case mid
    have f: "hs_first self = head_or us None" and l: "hs_last self = last_or vs None"
      using ends mid by (auto simp: head_or_def last_or_def)
    have "fst (hd us) \<noteq> fst (last vs)" using hu [OF mid(1)] lv [OF mid(2)] uv by (metis disjoint_iff)
    then have ne: "hs_first self \<noteq> Some a" "hs_last self \<noteq> Some a" "hs_first self \<noteq> hs_last self"
      using f l hu [OF mid(1)] lv [OF mid(2)] au by auto
    from hs_set_next_ok [OF su du mid(1), of "head_or vs None"] obtain h where
      h: "hs_set_next self (last_or us None) (head_or vs None) = Inr (self\<lparr>hs_entries := h\<rparr>)"
        "seg h None us (head_or vs None)" "\<forall>b. b \<notin> fst ` set us \<longrightarrow> h b = hs_entries self b" by blast
    have "seg h (Some a) vs None" using sv seg_cong [of vs h "hs_entries self" "Some a" None] h(3) uv by blast
    with hs_set_prev_ok [of "self\<lparr>hs_entries := h\<rparr>" "Some a" vs None "last_or us None"] dv mid(2) obtain h' where
      h': "hs_set_prev (self\<lparr>hs_entries := h\<rparr>) (head_or vs None) (last_or us None) = Inr (self\<lparr>hs_entries := h'\<rparr>)"
        "seg h' (last_or us None) vs None" "\<forall>b. b \<notin> fst ` set vs \<longrightarrow> h' b = h b" by auto
    have "seg h' None us (head_or vs None)" using h(2) seg_cong [of us h' h None "head_or vs None"] h'(3) uv by blast
    with h'(2) have "seg h' None (us @ vs) None" by (simp add: seg_append)
    moreover have "hs_unlink self a entry = Inr (self\<lparr>hs_entries := h'\<rparr>)"
      using ne h(1) h'(1) by (simp add: hs_unlink_def entry)
    moreover have "self\<lparr>hs_entries := h'\<rparr> =
        self\<lparr>hs_first := head_or (us @ vs) None, hs_last := last_or (us @ vs) None, hs_entries := h'\<rparr>"
      using f l mid by (cases self) (simp add: head_or_def last_or_def)
    moreover have "h' b = hs_entries self b" if "b \<notin> fst ` set (us @ vs)" for b using that h(3) h'(3) by (simp add: image_Un)
    ultimately show ?thesis by metis
  qed
qed

section \<open>The set of a hash set\<close>

lemma find_None: "find P xs = None \<longleftrightarrow> (\<forall>x \<in> set xs. \<not> P x)"
  by (auto simp: find_None_iff)

context key_laws
begin

text \<open>\<open>hs_es self es\<close>: the list of the set links the entries \<open>es\<close>, and the table finds them.\<close>

definition hs_es :: "'k hashset \<Rightarrow> (nat \<times> 'k) list \<Rightarrow> bool" where
  "hs_es self es \<longleftrightarrow> distinct (map fst es) \<and> seg (hs_entries self) None es None \<and>
     hs_first self = head_or es None \<and> hs_last self = last_or es None \<and> hs_size self = int (length es) \<and>
     (\<forall>a \<in> fst ` set es. a < hs_fresh self) \<and> sorted_wrt (\<lambda>x y. \<not> E x y) (map snd es) \<and>
     keyed (hs_ht self) \<and> h_size (hs_ht self) = int (length es) \<and>
     (\<forall>x. h_map (hs_ht self) x = map_option (\<lambda>e. Some (fst e)) (find (\<lambda>e. E (snd e) x) es))"

definition hs_ok :: "'k hashset \<Rightarrow> 'k list \<Rightarrow> bool" where
  "hs_ok self xs \<longleftrightarrow> (\<exists>es. hs_es self es \<and> map snd es = xs)"

definition hs_mem :: "'k list \<Rightarrow> 'k \<Rightarrow> bool" where
  "hs_mem xs x \<longleftrightarrow> (\<exists>y \<in> set xs. E y x)"

lemma hs_esD:
  assumes "hs_es self es"
  shows "distinct (map fst es)" "seg (hs_entries self) None es None" "hs_first self = head_or es None"
    "hs_last self = last_or es None" "hs_size self = int (length es)" "\<forall>a \<in> fst ` set es. a < hs_fresh self"
    "sorted_wrt (\<lambda>x y. \<not> E x y) (map snd es)" "keyed (hs_ht self)" "h_size (hs_ht self) = int (length es)"
    "\<And>x. h_map (hs_ht self) x = map_option (\<lambda>e. Some (fst e)) (find (\<lambda>e. E (snd e) x) es)"
  using assms by (auto simp: hs_es_def)

lemma hs_map_None: "hs_es self es \<Longrightarrow> h_map (hs_ht self) x = None \<longleftrightarrow> \<not> hs_mem (map snd es) x"
  by (auto simp: hs_esD(10) hs_mem_def find_None)

lemma hs_map_SomeE:
  assumes "hs_es self es" and "hs_mem (map snd es) x"
  obtains us a y vs where "es = us @ (a, y) # vs" "E y x" "h_map (hs_ht self) x = Some (Some a)"
    "hs_entries self a = Some \<lparr>hs_elem = y, hs_next = head_or vs None, hs_prev = last_or us None\<rparr>"
    "find (\<lambda>y. E y x) (map snd es) = Some y"
proof -
  obtain e where e: "find (\<lambda>e. E (snd e) x) es = Some e"
    using assms hs_map_None [of self es x] hs_esD(10) [OF assms(1), of x]
    by (cases "find (\<lambda>e. E (snd e) x) es") auto
  then obtain i where i: "i < length es" "E (snd (es ! i)) x" "e = es ! i" "\<forall>j < i. \<not> E (snd (es ! j)) x"
    by (auto simp: find_Some_iff)
  obtain a y where ay: "es ! i = (a, y)" by fastforce
  have es: "es = take i es @ (a, y) # drop (Suc i) es" using id_take_nth_drop [OF i(1)] ay by simp
  have m: "h_map (hs_ht self) x = Some (Some a)" using hs_esD(10) [OF assms(1), of x] e i(3) ay by simp
  have s: "hs_entries self a = Some \<lparr>hs_elem = y, hs_next = head_or (drop (Suc i) es) None, hs_prev = last_or (take i es) None\<rparr>"
    using hs_esD(2) [OF assms(1)] by (subst (asm) es) (simp add: seg_append)
  have "find (\<lambda>y. E y x) (map snd es) = Some y"
    unfolding find_Some_iff using i ay by (intro exI [of _ i]) auto
  with es m s i(2) ay that show thesis by (metis snd_conv)
qed

lemma hs_new_ok:
  assumes "keyed ht" and "\<And>x. h_map ht x = None" and "h_size ht = 0"
  shows "hs_ok (hs_alloc free_func ht) []"
  using assms by (auto simp: hs_ok_def hs_es_def hs_alloc_def)

lemma frt_hs_new_ok: "hs_ok (frt_hs_new H E free_func) []"
  unfolding frt_hs_new_def
  by (rule hs_new_ok, rule frt_h_new_keyed(1) [OF refl], rule frt_h_new_keyed(2) [OF refl], simp add: frt_h_new_def)

lemma hs_ht_upd:
  assumes "hs_es self es" and "keyed ht" and "h_map ht = h_map (hs_ht self)" and "h_size ht = h_size (hs_ht self)"
  shows "hs_es (self\<lparr>hs_ht := ht\<rparr>) es"
  using assms by (simp add: hs_es_def)

lemma hs_free_upd: "hs_es self es \<Longrightarrow> hs_es (free_elem_i self x) es"
  by (simp add: hs_es_def free_elem_i_def)

text \<open>Appending an element that no element of the set equals.\<close>

lemma hs_append_ok:
  assumes es: "hs_es self es" and new: "\<not> hs_mem (map snd es) x" and small: "hs_size self < 2 ^ 28"
  shows "\<exists>self'. hs_append self x = Inr self' \<and> hs_es self' (es @ [(hs_fresh self, x)]) \<and>
    hs_freed self' = hs_freed self \<and> hs_free_elem_i self' = hs_free_elem_i self"
proof -
  note D = hs_esD [OF es]
  define a where "a = hs_fresh self"
  define self1 where "self1 = self\<lparr>hs_fresh := a + 1, hs_entries := (hs_entries self)
    (a \<mapsto> \<lparr>hs_elem = x, hs_next = None, hs_prev = hs_last self\<rparr>)\<rparr>"
  have a: "a \<notin> fst ` set es" using D(6) by (auto simp: a_def)
  have s1: "seg (hs_entries self1) None es None" using D(2) a by (simp add: self1_def seg_frame)
  have e1: "hs_entries self1 a = Some \<lparr>hs_elem = x, hs_next = None, hs_prev = last_or es None\<rparr>"
    using D(4) by (simp add: self1_def)
  have f1: "hs_first self1 = head_or es None" "hs_last self1 = last_or es None" using D(3,4) by (simp_all add: self1_def)
  have "\<exists>h. (if hs_first self1 = None then Inr (self1\<lparr>hs_first := Some a, hs_last := Some a\<rparr>)
      else ebind (hs_set_next self1 (hs_last self1) (Some a)) (\<lambda>self. Inr (self\<lparr>hs_last := Some a\<rparr>))) =
        Inr (self1\<lparr>hs_first := head_or (es @ [(a, x)]) None, hs_last := Some a, hs_entries := h\<rparr>) \<and>
      seg h None (es @ [(a, x)]) None"
  proof (cases "es = []")
    case True
    then show ?thesis using f1 e1 by (intro exI [of _ "hs_entries self1"]) (cases self1, simp)
  next
    case False
    from hs_set_next_ok [OF s1 D(1) False, of "Some a"] obtain h where
      h: "hs_set_next self1 (last_or es None) (Some a) = Inr (self1\<lparr>hs_entries := h\<rparr>)" "seg h None es (Some a)"
        "\<forall>b. b \<notin> fst ` set es \<longrightarrow> h b = hs_entries self1 b" by blast
    have "seg h None (es @ [(a, x)]) None" using h(2,3) e1 a by (simp add: seg_append)
    moreover have "hs_first self1 = head_or (es @ [(a, x)]) None" "hs_first self1 \<noteq> None"
      using f1(1) False by (simp_all add: head_or_def)
    moreover have "self1\<lparr>hs_first := head_or (es @ [(a, x)]) None\<rparr> = self1" using calculation(2) by (cases self1) simp
    ultimately show ?thesis using h(1) f1(2) by (intro exI [of _ h]) (cases self1, simp)
  qed
  then obtain h where h: "(if hs_first self1 = None then Inr (self1\<lparr>hs_first := Some a, hs_last := Some a\<rparr>)
      else ebind (hs_set_next self1 (hs_last self1) (Some a)) (\<lambda>self. Inr (self\<lparr>hs_last := Some a\<rparr>))) =
        Inr (self1\<lparr>hs_first := head_or (es @ [(a, x)]) None, hs_last := Some a, hs_entries := h\<rparr>)"
    "seg h None (es @ [(a, x)]) None" by blast
  have "h_size (hs_ht self) < 2 ^ 28" "h_map (hs_ht self) x = None"
    using small D(5,9) hs_map_None [OF es] new by auto
  with frt_h_set_ok [OF D(8) this(1), of x "Some a"] obtain r ht where
    ht: "frt_h_set (hs_ht self) (PKey x) (Some a) = Inr (r, ht)" "keyed ht"
      "\<forall>z. h_map ht z = (if E x z then Some (Some a) else h_map (hs_ht self) z)"
      "h_size ht = h_size (hs_ht self) + 1" by auto
  let ?self' = "self1\<lparr>hs_first := head_or (es @ [(a, x)]) None, hs_last := Some a, hs_entries := h, hs_ht := ht,
    hs_size := hs_size self + 1\<rparr>"
  have "hs_append self x = Inr ?self'"
    unfolding hs_append_def Let_def a_def [symmetric] self1_def [symmetric] h(1) ebind_simps
    using ht(1) by (simp add: self1_def)
  moreover have "hs_es ?self' (es @ [(a, x)])"
    unfolding hs_es_def
  proof (intro conjI allI)
    show "sorted_wrt (\<lambda>x y. \<not> E x y) (map snd (es @ [(a, x)]))"
      using D(7) new by (auto simp: sorted_wrt_append hs_mem_def)
    fix z
    show "h_map (hs_ht ?self') z = map_option (\<lambda>e. Some (fst e)) (find (\<lambda>e. E (snd e) z) (es @ [(a, x)]))"
    proof (cases "E x z")
      case True
      then have "find (\<lambda>e. E (snd e) z) es = None"
        using new E_trans E_sym unfolding find_None hs_mem_def by (metis image_eqI set_map)
      with True ht(3) show ?thesis by (simp add: find_append)
    qed (use ht(3) D(10) in \<open>simp add: find_append split: option.splits\<close>)
  qed (use D a h(2) ht in \<open>auto simp: self1_def a_def\<close>)
  ultimately show ?thesis unfolding a_def by (intro exI [of _ ?self']) (simp add: self1_def a_def)
qed

text \<open>Adding: an element that is not there goes to the end; one that is there is freed unless it is the same pointer.\<close>

lemma hs_has_key:
  assumes es: "hs_es self es"
  shows "\<exists>r ht. frt_h_has_key (hs_ht self) (PKey x) = Inr (r, ht) \<and> hs_es (self\<lparr>hs_ht := ht\<rparr>) es \<and>
    (r = FRT_HASH_KEY_DOES_NOT_EXIST \<longleftrightarrow> \<not> hs_mem (map snd es) x)"
  using frt_h_has_key_ok [OF hs_esD(8) [OF es], of x] hs_ht_upd [OF es] hs_map_None [OF es, of x] by auto

lemma hs_get:
  assumes es: "hs_es self es"
  shows "\<exists>ht. frt_h_get (hs_ht self) (PKey x) = Inr (Option.bind (h_map (hs_ht self) x) id, ht) \<and>
    hs_es (self\<lparr>hs_ht := ht\<rparr>) es \<and> h_map ht = h_map (hs_ht self)"
  using frt_h_get_ok [OF hs_esD(8) [OF es], of x] hs_ht_upd [OF es] by auto

theorem frt_hs_add_ok:
  assumes ok: "hs_ok self xs" and small: "length xs < 2 ^ 28"
  shows "\<exists>r self'. frt_hs_add self x = Inr (r, self') \<and> hs_ok self' (if hs_mem xs x then xs else xs @ [x]) \<and>
    (r = FRT_HASH_KEY_DOES_NOT_EXIST \<longleftrightarrow> \<not> hs_mem xs x) \<and> hs_free_elem_i self' = hs_free_elem_i self \<and>
    hs_freed self' = hs_freed self @ (if r = FRT_HASH_KEY_EQUAL \<and> hs_free_elem_i self then [x] else [])"
proof -
  obtain es where es: "hs_es self es" and xs: "map snd es = xs" using ok by (auto simp: hs_ok_def)
  obtain r ht where ht: "frt_h_has_key (hs_ht self) (PKey x) = Inr (r, ht)" "hs_es (self\<lparr>hs_ht := ht\<rparr>) es"
    and r: "r = FRT_HASH_KEY_DOES_NOT_EXIST \<longleftrightarrow> \<not> hs_mem xs x" using hs_has_key [OF es, of x] xs by auto
  show ?thesis
  proof (cases r)
    case FRT_HASH_KEY_DOES_NOT_EXIST
    then have "\<not> hs_mem (map snd es) x" "hs_size (self\<lparr>hs_ht := ht\<rparr>) < 2 ^ 28"
      using r xs small hs_esD(5) [OF es] by auto
    from hs_append_ok [OF ht(2) this] show ?thesis
      using FRT_HASH_KEY_DOES_NOT_EXIST r ht(1) xs by (fastforce simp: frt_hs_add_def hs_ok_def)
  next
    case FRT_HASH_KEY_EQUAL
    then have "frt_hs_add self x = Inr (r, free_elem_i (self\<lparr>hs_ht := ht\<rparr>) x)" using ht by (simp add: frt_hs_add_def Let_def)
    moreover have "hs_ok (free_elem_i (self\<lparr>hs_ht := ht\<rparr>) x) xs" using hs_free_upd [OF ht(2), of x] xs by (auto simp: hs_ok_def)
    moreover have "hs_mem xs x" using FRT_HASH_KEY_EQUAL r by simp
    ultimately show ?thesis using FRT_HASH_KEY_EQUAL
      by (intro exI [of _ r] exI [of _ "free_elem_i (self\<lparr>hs_ht := ht\<rparr>) x"]) (simp add: free_elem_i_def)
  next
    case FRT_HASH_KEY_SAME
    then show ?thesis using r ht xs by (auto simp: frt_hs_add_def hs_ok_def)
  qed
qed

lemma frt_hs_add_safe_ok:
  assumes ok: "hs_ok self xs" and small: "length xs < 2 ^ 28"
  shows "\<exists>b self'. frt_hs_add_safe self x = Inr (b, self') \<and> hs_ok self' (if hs_mem xs x then xs else xs @ [x]) \<and>
    (\<not> hs_mem xs x \<longrightarrow> b) \<and> hs_freed self' = hs_freed self"
proof -
  obtain es where es: "hs_es self es" and xs: "map snd es = xs" using ok by (auto simp: hs_ok_def)
  obtain r ht where ht: "frt_h_has_key (hs_ht self) (PKey x) = Inr (r, ht)" "hs_es (self\<lparr>hs_ht := ht\<rparr>) es"
    and r: "r = FRT_HASH_KEY_DOES_NOT_EXIST \<longleftrightarrow> \<not> hs_mem xs x" using hs_has_key [OF es, of x] xs by auto
  show ?thesis
  proof (cases r)
    case FRT_HASH_KEY_DOES_NOT_EXIST
    then have "\<not> hs_mem (map snd es) x" "hs_size (self\<lparr>hs_ht := ht\<rparr>) < 2 ^ 28"
      using r xs small hs_esD(5) [OF es] by auto
    from hs_append_ok [OF ht(2) this] show ?thesis
      using FRT_HASH_KEY_DOES_NOT_EXIST r ht(1) xs by (fastforce simp: frt_hs_add_safe_def hs_ok_def)
  qed (use r ht xs in \<open>auto simp: frt_hs_add_safe_def hs_ok_def\<close>)
qed

lemma frt_hs_exists_ok:
  assumes ok: "hs_ok self xs"
  shows "\<exists>r self'. frt_hs_exists self x = Inr (r, self') \<and> hs_ok self' xs \<and>
    (r = FRT_HASH_KEY_DOES_NOT_EXIST \<longleftrightarrow> \<not> hs_mem xs x)"
proof -
  obtain es where es: "hs_es self es" and xs: "map snd es = xs" using ok by (auto simp: hs_ok_def)
  from hs_has_key [OF es, of x] show ?thesis using xs by (auto simp: frt_hs_exists_def hs_ok_def)
qed

lemma find_mem: "\<not> hs_mem xs x \<longleftrightarrow> find (\<lambda>y. E y x) xs = None"
  by (auto simp: hs_mem_def find_None)

lemma frt_hs_orig_ok:
  assumes ok: "hs_ok self xs"
  shows "\<exists>self'. frt_hs_orig self x = Inr (find (\<lambda>y. E y x) xs, self') \<and> hs_ok self' xs"
proof -
  obtain es where es: "hs_es self es" and xs: "map snd es = xs" using ok by (auto simp: hs_ok_def)
  obtain ht where g: "frt_h_get (hs_ht self) (PKey x) = Inr (Option.bind (h_map (hs_ht self) x) id, ht)"
    "hs_es (self\<lparr>hs_ht := ht\<rparr>) es" using hs_get [OF es, of x] by blast
  show ?thesis
  proof (cases "hs_mem xs x")
    case False
    then show ?thesis using g xs find_mem [of xs x] hs_map_None [OF es, of x] by (auto simp: frt_hs_orig_def hs_ok_def)
  next
    case True
    then show ?thesis using g xs es
      by (auto simp: frt_hs_orig_def hs_ok_def hs_deref_def elim!: hs_map_SomeE [of self es x])
  qed
qed

text \<open>Removing takes the one element that equals the argument.\<close>

lemma filter_one:
  assumes "sorted_wrt (\<lambda>x y. \<not> E x y) (map snd (us @ y # vs))" and "E (snd y) x"
  shows "filter (\<lambda>z. \<not> E (snd z) x) (us @ y # vs) = us @ vs"
proof -
  have "\<not> E (snd z) x" if "z \<in> set us \<union> set vs" for z
  proof
    assume "E (snd z) x"
    then have "E (snd z) (snd y)" "E (snd y) (snd z)" using assms(2) E_trans E_sym by blast+
    then show False using assms(1) that by (auto simp: sorted_wrt_append)
  qed
  then have "filter (\<lambda>z. \<not> E (snd z) x) us = us" "filter (\<lambda>z. \<not> E (snd z) x) vs = vs" by (simp_all add: filter_id_conv)
  then show ?thesis using assms(2) by simp
qed

lemma hs_es_del:
  assumes es: "hs_es self (us @ (a, y) # vs)"
    and h: "seg h None (us @ vs) None" and ht: "keyed ht" "h_size ht = h_size (hs_ht self) - 1"
      "\<forall>z. h_map ht z = (if E y z then None else h_map (hs_ht self) z)"
  shows "hs_es (self\<lparr>hs_first := head_or (us @ vs) None, hs_last := last_or (us @ vs) None, hs_ht := ht,
    hs_entries := h(a := None), hs_size := hs_size self - 1\<rparr>) (us @ vs)"
  unfolding hs_es_def
proof (intro conjI allI)
  note D = hs_esD [OF es]
  let ?self' = "self\<lparr>hs_first := head_or (us @ vs) None, hs_last := last_or (us @ vs) None, hs_ht := ht,
    hs_entries := h(a := None), hs_size := hs_size self - 1\<rparr>"
  have a: "a \<notin> fst ` set (us @ vs)" using D(1) by auto
  show "seg (hs_entries ?self') None (us @ vs) None" using h a by (simp add: seg_frame)
  show "sorted_wrt (\<lambda>x y. \<not> E x y) (map snd (us @ vs))" using D(7) by (simp add: sorted_wrt_append)
  fix z
  show "h_map (hs_ht ?self') z = map_option (\<lambda>e. Some (fst e)) (find (\<lambda>e. E (snd e) z) (us @ vs))"
  proof (cases "E y z")
    case True
    have "\<not> E u z" if "u \<in> snd ` set (us @ vs)" for u
    proof
      assume "E u z"
      then have "E u y" "E y u" using True E_trans E_sym by blast+
      then show False using D(7) that by (auto simp: sorted_wrt_append)
    qed
    then have "find (\<lambda>e. E (snd e) z) (us @ vs) = None" unfolding find_None by blast
    with True ht(3) show ?thesis by simp
  qed (use ht(3) D(10) in \<open>simp add: find_append split: option.splits\<close>)
qed (use hs_esD [OF es] ht in auto)

lemma frt_hs_rem_es:
  assumes es: "hs_es self es"
  shows "\<exists>self'. frt_hs_rem self x = Inr (find (\<lambda>y. E y x) (map snd es), self') \<and>
    hs_es self' (filter (\<lambda>e. \<not> E (snd e) x) es) \<and>
    hs_freed self' = hs_freed self \<and> hs_free_elem_i self' = hs_free_elem_i self"
proof -
  define xs where "xs = map snd es"
  obtain ht where g: "frt_h_get (hs_ht self) (PKey x) = Inr (Option.bind (h_map (hs_ht self) x) id, ht)"
    "hs_es (self\<lparr>hs_ht := ht\<rparr>) es" "h_map ht = h_map (hs_ht self)" using hs_get [OF es, of x] by blast
  show ?thesis
  proof (cases "hs_mem xs x")
    case False
    then have "filter (\<lambda>e. \<not> E (snd e) x) es = es" by (auto simp: hs_mem_def filter_id_conv xs_def)
    with False show ?thesis using g find_mem [of xs x] hs_map_None [OF es, of x]
      by (auto simp: frt_hs_rem_def xs_def)
  next
    case True
    let ?self1 = "self\<lparr>hs_ht := ht\<rparr>"
    have "hs_mem (map snd es) x" using True by (simp add: xs_def)
    with g(2) obtain us a y vs where e: "es = us @ (a, y) # vs" "E y x" "h_map (hs_ht ?self1) x = Some (Some a)"
      "hs_entries ?self1 a = Some \<lparr>hs_elem = y, hs_next = head_or vs None, hs_prev = last_or us None\<rparr>"
      "find (\<lambda>y. E y x) (map snd es) = Some y" by (rule hs_map_SomeE)
    let ?entry = "\<lparr>hs_elem = y, hs_next = head_or vs None, hs_prev = last_or us None\<rparr>"
    note D = hs_esD [OF g(2) [unfolded e(1)]]
    from hs_unlink_ok [OF D(1-4) refl] obtain h where
      h: "hs_unlink ?self1 a ?entry = Inr (?self1\<lparr>hs_first := head_or (us @ vs) None, hs_last := last_or (us @ vs) None,
        hs_entries := h\<rparr>)" "seg h None (us @ vs) None" by blast
    from frt_h_del_ok [OF D(8), of y] obtain b ht' where
      d: "frt_h_del ht (PKey y) = Inr (b, ht')" "keyed ht'" "\<forall>z. h_map ht' z = (if E y z then None else h_map ht z)"
        "h_size ht' = h_size ht - (if h_map ht y = None then 0 else 1)" by auto
    have "h_map ht y \<noteq> None" using D(10) [of y] E_refl by (auto simp: find_None)
    then have sz: "h_size ht' = h_size (hs_ht ?self1) - 1" using d(4) by simp
    have "frt_hs_rem self x = Inr (Some y, self\<lparr>hs_first := head_or (us @ vs) None, hs_last := last_or (us @ vs) None,
        hs_ht := ht', hs_entries := h(a := None), hs_size := hs_size self - 1\<rparr>)"
      using g(1) e(3,4) h(1) d(1) by (simp add: frt_hs_rem_def g(3) hs_derefI)
    moreover have "hs_es (self\<lparr>hs_first := head_or (us @ vs) None, hs_last := last_or (us @ vs) None,
        hs_ht := ht', hs_entries := h(a := None), hs_size := hs_size self - 1\<rparr>) (us @ vs)"
      using hs_es_del [OF g(2) [unfolded e(1)] h(2) d(2) sz] d(3) by simp
    moreover have "filter (\<lambda>e. \<not> E (snd e) x) es = us @ vs"
      using filter_one [of us "(a, y)" vs x] D(7) e(2) by (simp add: e(1))
    ultimately show ?thesis using e(5) by auto
  qed
qed

theorem frt_hs_rem_ok:
  assumes ok: "hs_ok self xs"
  shows "\<exists>self'. frt_hs_rem self x = Inr (find (\<lambda>y. E y x) xs, self') \<and> hs_ok self' (filter (\<lambda>y. \<not> E y x) xs) \<and>
    hs_freed self' = hs_freed self \<and> hs_free_elem_i self' = hs_free_elem_i self"
proof -
  obtain es where es: "hs_es self es" and xs: "map snd es = xs" using ok by (auto simp: hs_ok_def)
  have "map snd (filter (\<lambda>e. \<not> E (snd e) x) es) = filter (\<lambda>y. \<not> E y x) xs"
    by (simp add: xs [symmetric] filter_map o_def)
  then show ?thesis using frt_hs_rem_es [OF es, of x] xs by (auto simp: hs_ok_def)
qed

lemma frt_hs_del_es:
  assumes es: "hs_es self es"
  shows "\<exists>b self'. frt_hs_del self x = Inr (b, self') \<and> hs_es self' (filter (\<lambda>e. \<not> E (snd e) x) es)"
proof -
  obtain self' where r: "frt_hs_rem self x = Inr (find (\<lambda>y. E y x) (map snd es), self')"
    "hs_es self' (filter (\<lambda>e. \<not> E (snd e) x) es)" using frt_hs_rem_es [OF es, of x] by blast
  then show ?thesis using hs_free_upd by (auto simp: frt_hs_del_def split: option.split)
qed

lemma frt_hs_del_ok:
  assumes ok: "hs_ok self xs"
  shows "\<exists>self'. frt_hs_del self x = Inr (hs_mem xs x, self') \<and> hs_ok self' (filter (\<lambda>y. \<not> E y x) xs) \<and>
    hs_freed self' = hs_freed self @ (case find (\<lambda>y. E y x) xs of Some y \<Rightarrow> if hs_free_elem_i self then [y] else [] | None \<Rightarrow> [])"
proof -
  obtain self' where r: "frt_hs_rem self x = Inr (find (\<lambda>y. E y x) xs, self')" "hs_ok self' (filter (\<lambda>y. \<not> E y x) xs)"
    "hs_freed self' = hs_freed self" "hs_free_elem_i self' = hs_free_elem_i self" using frt_hs_rem_ok [OF ok, of x] by blast
  show ?thesis
  proof (cases "find (\<lambda>y. E y x) xs")
    case None
    then show ?thesis using r find_mem [of xs x] by (simp add: frt_hs_del_def)
  next
    case (Some y)
    moreover have "hs_ok (free_elem_i self' y) (filter (\<lambda>y. \<not> E y x) xs)" using r(2) hs_free_upd by (auto simp: hs_ok_def)
    ultimately show ?thesis using r find_mem [of xs x]
      by (intro exI [of _ "free_elem_i self' y"]) (simp add: frt_hs_del_def free_elem_i_def)
  qed
qed

lemma hs_clear_loop_ok:
  "seg (hs_entries self) p es None \<Longrightarrow> distinct (map fst es) \<Longrightarrow> length es \<le> fuel \<Longrightarrow>
   \<exists>h. hs_clear_loop fuel destroy (head_or es None) self = Inr (self\<lparr>hs_entries := h,
     hs_freed := hs_freed self @ (if destroy \<and> hs_free_elem_i self then map snd es else [])\<rparr>)"
proof (induction es arbitrary: fuel p self)
  case Nil
  then show ?case by (intro exI [of _ "hs_entries self"]) (cases self, simp)
next
  case (Cons e es)
  obtain a x where e: "e = (a, x)" by fastforce
  obtain n where n: "fuel = Suc n" "length es \<le> n" using Cons.prems(3) by (cases fuel) auto
  let ?self1 = "(if destroy then free_elem_i self x else self)\<lparr>hs_entries := (hs_entries self)(a := None)\<rparr>"
  have "seg (hs_entries ?self1) (Some a) es None" using Cons.prems by (simp add: e seg_frame)
  from Cons.IH [OF this _ n(2)] Cons.prems(2) obtain h where
    h: "hs_clear_loop n destroy (head_or es None) ?self1 = Inr (?self1\<lparr>hs_entries := h,
      hs_freed := hs_freed ?self1 @ (if destroy \<and> hs_free_elem_i ?self1 then map snd es else [])\<rparr>)" by auto
  have ent: "hs_entries (free_elem_i self x) = hs_entries self" by (simp add: free_elem_i_def)
  have "hs_clear_loop fuel destroy (head_or (e # es) None) self = hs_clear_loop n destroy (head_or es None) ?self1"
    using Cons.prems(1) ent by (cases destroy) (simp_all add: n(1) e hs_derefI Let_def)
  with h show ?case by (intro exI [of _ h]) (auto simp: e free_elem_i_def)
qed

lemma hs_clear_ok:
  assumes "hs_es self es"
  shows "\<exists>h. hs_clear self destroy = Inr (self\<lparr>hs_entries := h, hs_first := None, hs_last := None, hs_size := 0,
    hs_freed := hs_freed self @ (if destroy \<and> hs_free_elem_i self then map snd es else [])\<rparr>)"
proof -
  from hs_clear_loop_ok [OF hs_esD(2,1) [OF assms] order_refl, of destroy] obtain h where
    h: "hs_clear_loop (length es) destroy (head_or es None) self = Inr (self\<lparr>hs_entries := h,
      hs_freed := hs_freed self @ (if destroy \<and> hs_free_elem_i self then map snd es else [])\<rparr>)" by blast
  then show ?thesis using hs_esD(3,5) [OF assms] by (intro exI [of _ h]) (simp add: hs_clear_def)
qed

lemma frt_hs_clear_ok:
  assumes ok: "hs_ok self xs"
  shows "\<exists>self'. frt_hs_clear self = Inr self' \<and> hs_ok self' [] \<and>
    hs_freed self' = hs_freed self @ (if hs_free_elem_i self then xs else [])"
proof -
  obtain es where es: "hs_es self es" and xs: "map snd es = xs" using ok by (auto simp: hs_ok_def)
  from hs_clear_ok [OF es, of True] obtain h where
    h: "hs_clear self True = Inr (self\<lparr>hs_entries := h, hs_first := None, hs_last := None, hs_size := 0,
      hs_freed := hs_freed self @ (if hs_free_elem_i self then xs else [])\<rparr>)" using xs by auto
  have "hs_es (self\<lparr>hs_entries := h, hs_first := None, hs_last := None, hs_size := 0,
      hs_freed := hs_freed self @ (if hs_free_elem_i self then xs else []), hs_ht := frt_h_clear (hs_ht self)\<rparr>) []"
    using frt_h_clear_ok [OF hs_esD(8) [OF es]] by (simp add: hs_es_def)
  with h show ?thesis by (auto simp: frt_hs_clear_def hs_ok_def)
qed

text \<open>Freeing a set leaves its elements alone, destroying it frees them all, once each.\<close>

lemma frt_hs_destroy_ok:
  assumes ok: "hs_ok self xs"
  shows "frt_hs_destroy self = Inr (hs_freed self @ (if hs_free_elem_i self then xs else []))"
    and "frt_hs_free self = Inr (hs_freed self)"
proof -
  obtain es where es: "hs_es self es" and xs: "map snd es = xs" using ok by (auto simp: hs_ok_def)
  show "frt_hs_destroy self = Inr (hs_freed self @ (if hs_free_elem_i self then xs else []))"
    using hs_clear_ok [OF es, of True] xs by (auto simp: frt_hs_destroy_def)
  show "frt_hs_free self = Inr (hs_freed self)" using hs_clear_ok [OF es, of False] by (auto simp: frt_hs_free_def)
qed

definition hs_adds :: "'k list \<Rightarrow> 'k list \<Rightarrow> 'k list" where
  "hs_adds xs ys = foldl (\<lambda>xs y. if hs_mem xs y then xs else xs @ [y]) xs ys"

lemma length_hs_adds: "length (hs_adds xs ys) \<le> length xs + length ys"
proof (induction ys arbitrary: xs)
  case (Cons y ys)
  show ?case using Cons.IH [of xs] Cons.IH [of "xs @ [y]"] by (simp add: hs_adds_def)
qed (simp add: hs_adds_def)

lemma hs_merge_loop_ok:
  "seg (hs_entries other) p es None \<Longrightarrow> length es \<le> fuel \<Longrightarrow> hs_ok self xs \<Longrightarrow> length xs + length es < 2 ^ 28 \<Longrightarrow>
   \<exists>self'. hs_merge_loop fuel other (head_or es None) self = Inr self' \<and> hs_ok self' (hs_adds xs (map snd es))"
proof (induction es arbitrary: fuel p self xs)
  case (Cons e es)
  obtain a x where e: "e = (a, x)" by fastforce
  obtain n where n: "fuel = Suc n" "length es \<le> n" using Cons.prems(2) by (cases fuel) auto
  have "length xs < 2 ^ 28" using Cons.prems(4) by simp
  from frt_hs_add_ok [OF Cons.prems(3) this, of x] obtain r self1 where
    a: "frt_hs_add self x = Inr (r, self1)" "hs_ok self1 (if hs_mem xs x then xs else xs @ [x])" by blast
  have length_add: "length (if hs_mem xs x then xs else xs @ [x]) + length es < 2 ^ 28" using Cons.prems(4) by simp
  have "seg (hs_entries other) (Some a) es None" using Cons.prems(1) by (simp add: e)
  from Cons.IH [OF this n(2) a(2)] length_add obtain self' where
    "hs_merge_loop n other (head_or es None) self1 = Inr self'"
    "hs_ok self' (hs_adds (if hs_mem xs x then xs else xs @ [x]) (map snd es))" by blast
  then show ?case using Cons.prems(1) a(1) by (simp add: n(1) e hs_derefI hs_adds_def)
qed (simp add: hs_adds_def)

theorem frt_hs_merge_ok:
  assumes ok: "hs_ok self xs" and other: "hs_ok other ys" and small: "length xs + length ys < 2 ^ 28"
  shows "\<exists>self'. frt_hs_merge self other = Inr self' \<and> hs_ok self' (hs_adds xs ys)"
proof -
  obtain es where es: "hs_es other es" and ys: "map snd es = ys" using other by (auto simp: hs_ok_def)
  have l: "length ys = length es" using ys by auto
  from hs_merge_loop_ok [OF hs_esD(2) [OF es] order_refl ok] small l obtain self' where
    "hs_merge_loop (length es) other (head_or es None) self = Inr self'" "hs_ok self' (hs_adds xs ys)" using ys by auto
  then show ?thesis using hs_esD(3,5) [OF es] frt_hs_destroy_ok(2) [OF other] by (simp add: frt_hs_merge_def)
qed

end

section \<open>Sets of strings\<close>

definition str_set :: "cstr hashset \<Rightarrow> cstr list \<Rightarrow> bool" where
  "str_set self xs \<longleftrightarrow> str_keys.hs_ok self xs"

definition str_add :: "cstr list \<Rightarrow> cstr \<Rightarrow> cstr list" where
  "str_add xs x = (if \<exists>y \<in> set xs. str_eq y x then xs else xs @ [x])"

lemma frt_hs_new_str_ok: "str_set (frt_hs_new_str free_func) []"
  unfolding frt_hs_new_str_def str_set_def
  by (rule str_keys.hs_new_ok) (use str_table_new [of False False] in \<open>simp_all add: str_table_keyed\<close>)

lemma str_set_add:
  "str_set self xs \<Longrightarrow> length xs < 2 ^ 28 \<Longrightarrow> \<exists>r self'. frt_hs_add self x = Inr (r, self') \<and> str_set self' (str_add xs x)"
  using str_keys.frt_hs_add_ok [of self xs x] unfolding str_set_def str_add_def str_keys.hs_mem_def by blast

lemma str_set_rem:
  "str_set self xs \<Longrightarrow> \<exists>self'. frt_hs_rem self x = Inr (find (\<lambda>y. str_eq y x) xs, self') \<and>
    str_set self' (filter (\<lambda>y. \<not> str_eq y x) xs)"
  using str_keys.frt_hs_rem_ok [of self xs x] by (auto simp: str_set_def)

lemma str_set_merge:
  "str_set self xs \<Longrightarrow> str_set other ys \<Longrightarrow> length xs + length ys < 2 ^ 28 \<Longrightarrow>
    \<exists>self'. frt_hs_merge self other = Inr self' \<and> str_set self' (foldl str_add xs ys)"
  using str_keys.frt_hs_merge_ok [of self xs other ys]
  by (simp add: str_set_def str_add_def [abs_def] str_keys.hs_adds_def str_keys.hs_mem_def)

end
