(* ===== verification/FrtHashInt.thy ===== *)
theory FrtHashInt
  imports FrtHashOps
begin

unbundle bit_operations_syntax

text \<open>
  The tables of \<open>frt_hash.c\<close> whose keys are integers or interned names (\<open>frt_h_new_int\<close>,
  \<open>frt_h_new_ptr\<close>): their lookup compares hashes only, and the hash of a key is the key.

  \<^item> \<open>ptr_abs\<close> reads such a table as one with the keys \<open>PKey hash\<close>, to which the lemmas of \<open>FrtHashOps\<close>
    about single slots apply (interpretation \<open>ptr_keys\<close>).
  \<^item> Unlike the lookup of string tables, this one stops at a deleted slot with the right hash. The
    invariant \<open>clear_path\<close> says why that is no error: before an active slot there is no slot with its hash.
  \<^item> \<open>int_table\<close> is the invariant and \<open>int_map\<close> the map of a table; the lemmas give the operations on
    it. A key is not 0: the code takes a NULL key for a free slot.
\<close>

section \<open>Reading a table by its hashes\<close>

definition ptr_entry :: "('k, 'v) hash_entry \<Rightarrow> (u64, 'v) hash_entry" where
  "ptr_entry e = \<lparr>he_hash = he_hash e,
     he_key = (case he_key e of PNull \<Rightarrow> PNull | PDummy \<Rightarrow> PDummy | _ \<Rightarrow> PKey (he_hash e)), he_value = he_value e\<rparr>"

definition ptr_abs :: "('k, 'v) frt_hash \<Rightarrow> (u64, 'v) frt_hash" where
  "ptr_abs self = \<lparr>h_fill = h_fill self, h_size = h_size self, h_mask = h_mask self,
     h_table = map ptr_entry (h_table self), h_lookup_i = lookup_str, h_hash_i = frt_ptr_hash, h_eq_i = frt_ptr_eq,
     h_free_key_i = h_free_key_i self, h_free_value_i = h_free_value_i self, h_freed = []\<rparr>"

text \<open>Every active slot is on the probe path of its hash, behind used slots with other hashes.\<close>

definition clear_path :: "('k, 'v) hash_entry list \<Rightarrow> nat \<Rightarrow> u64 \<Rightarrow> nat \<Rightarrow> bool" where
  "clear_path tb msk n j \<longleftrightarrow> (\<exists>N. slot msk n N = j \<and> (\<forall>i < N. used (tb ! slot msk n i) \<and> he_hash (tb ! slot msk n i) \<noteq> n))"

definition int_table :: "('k, 'v) frt_hash \<Rightarrow> bool" where
  "int_table self \<longleftrightarrow> h_lookup_i self = lookup_ptr \<and> ptr_keys.keyed (ptr_abs self) \<and>
     (\<forall>j < length (h_table self). he_active (h_table self ! j) \<longrightarrow>
       clear_path (h_table self) (h_mask self) (he_hash (h_table self ! j)) j)"

definition int_map :: "('k, 'v) frt_hash \<Rightarrow> u64 \<Rightarrow> 'v option option" where
  "int_map self n = h_map (ptr_abs self) n"

lemma ptr_entry_simps [simp]:
  "he_hash (ptr_entry e) = he_hash e" "he_value (ptr_entry e) = he_value e"
  "he_key (ptr_entry e) = PNull \<longleftrightarrow> he_key e = PNull" "he_key (ptr_entry e) = PDummy \<longleftrightarrow> he_key e = PDummy"
  "used (ptr_entry e) \<longleftrightarrow> used e" "he_active (ptr_entry e) \<longleftrightarrow> he_active e"
  by (auto simp: ptr_entry_def used_def he_active_def split: voidp.splits)

lemma ptr_abs_simps [simp]:
  "h_fill (ptr_abs self) = h_fill self" "h_size (ptr_abs self) = h_size self" "h_mask (ptr_abs self) = h_mask self"
  "h_table (ptr_abs self) = map ptr_entry (h_table self)" "h_lookup_i (ptr_abs self) = lookup_str"
  "h_hash_i (ptr_abs self) = frt_ptr_hash" "h_eq_i (ptr_abs self) = frt_ptr_eq"
  by (simp_all add: ptr_abs_def)

lemma ptr_eq_iff [simp]: "frt_ptr_eq x y \<longleftrightarrow> x = y" and ptr_hash_id [simp]: "frt_ptr_hash x = x"
  by (simp_all add: frt_ptr_eq_def frt_ptr_hash_def)

lemma has_key_ptr_entry: "has_key frt_ptr_eq n (ptr_entry e) \<longleftrightarrow> he_active e \<and> he_hash e = n"
  by (auto simp: has_key_def ptr_entry_def he_active_def split: voidp.splits)

lemma ptr_entry_active: "he_active e \<Longrightarrow> he_key (ptr_entry e) = PKey (he_hash e)"
  by (auto simp: ptr_entry_def he_active_def split: voidp.splits)

lemma count_ptr_entry [simp]:
  "count_if used (map ptr_entry tb) = count_if used tb" "count_if he_active (map ptr_entry tb) = count_if he_active tb"
  by (induction tb) auto

lemma int_tableD:
  assumes "int_table self"
  shows "h_lookup_i self = lookup_ptr" and "ptr_keys.keyed (ptr_abs self)" and "size_ok (h_table self) (h_mask self)"
    and "j < length (h_table self) \<Longrightarrow> he_active (h_table self ! j) \<Longrightarrow>
      clear_path (h_table self) (h_mask self) (he_hash (h_table self ! j)) j"
    and "\<exists>j < length (h_table self). \<not> used (h_table self ! j)"
proof -
  show K: "ptr_keys.keyed (ptr_abs self)" using assms by (simp add: int_table_def)
  show "size_ok (h_table self) (h_mask self)"
    using tab_invD(1) [OF ptr_keys.keyedD(1) [OF K]] by (simp add: size_ok_def)
  have "h_inv (ptr_abs self)" using K by (simp add: ptr_keys.keyed_def)
  from h_inv_free [OF this] show "\<exists>j < length (h_table self). \<not> used (h_table self ! j)" by auto
qed (use assms in \<open>auto simp: int_table_def\<close>)

lemma int_map_None: "int_map self n = None \<longleftrightarrow>
    (\<forall>j < length (h_table self). he_active (h_table self ! j) \<longrightarrow> he_hash (h_table self ! j) \<noteq> n)"
  by (auto simp: int_map_def h_map_def tab_map_None has_key_ptr_entry)

lemma int_map_Some:
  assumes "int_table self" and "j < length (h_table self)" and "he_active (h_table self ! j)"
  shows "int_map self (he_hash (h_table self ! j)) = Some (he_value (h_table self ! j))"
  using ptr_keys.inv_Some [OF ptr_keys.keyedD(1) [OF int_tableD(2) [OF assms(1)]], of j "he_hash (h_table self ! j)"] assms
  by (simp add: int_map_def h_map_def has_key_ptr_entry)

lemma int_unique:
  assumes "int_table self" and "i < length (h_table self)" "j < length (h_table self)"
    and "he_active (h_table self ! i)" "he_active (h_table self ! j)" "he_hash (h_table self ! i) = he_hash (h_table self ! j)"
  shows "i = j"
  using ptr_keys.has_key_unique [OF ptr_keys.keyedD(1) [OF int_tableD(2) [OF assms(1)]], of i j "he_hash (h_table self ! i)"] assms
  by (simp add: has_key_ptr_entry)

section \<open>Lookup\<close>

lemma lookup_ptr_loop_eq:
  assumes "n < N" and "N - n \<le> fuel"
    and "\<not> used (tb ! slot msk h N) \<or> he_hash (tb ! slot msk h N) = h"
    and "\<And>i. n < i \<Longrightarrow> i < N \<Longrightarrow> used (tb ! slot msk h i) \<and> he_hash (tb ! slot msk h i) \<noteq> h"
  shows "\<exists>s. lookup_ptr_loop tb msk h fuel (probe_i msk h n) (drop_bit (PERTURB_SHIFT * n) h) fs =
      (if used (tb ! slot msk h N) then Inr (slot msk h N, False) else Inr (s, True)) \<and>
    (s = slot msk h N \<or> fs = Some s \<or> (\<exists>i. n < i \<and> i < N \<and> s = slot msk h i \<and> he_key (tb ! s) = PDummy))"
  using assms
proof (induction fuel arbitrary: n fs)
  case (Suc fuel)
  show ?case
  proof (cases "Suc n = N")
    case True
    then show ?thesis using Suc.prems(3) by (auto simp: slot_def used_def Let_def split: option.split)
  next
    case False
    let ?j = "slot msk h (Suc n)"
    have u: "used (tb ! ?j)" "he_hash (tb ! ?j) \<noteq> h" using Suc.prems False by auto
    let ?fs = "if he_key (tb ! ?j) = PDummy \<and> fs = None then Some ?j else fs"
    have step: "lookup_ptr_loop tb msk h (Suc fuel) (probe_i msk h n) (drop_bit (PERTURB_SHIFT * n) h) fs =
        lookup_ptr_loop tb msk h fuel (probe_i msk h (Suc n)) (drop_bit (PERTURB_SHIFT * Suc n) h) ?fs"
      unfolding lookup_ptr_loop.simps Let_def probe_i.simps(2) [symmetric] slot_def [symmetric] drop_bit_perturb
      using u by (auto simp: used_def simp del: probe_i.simps)
    have "\<exists>s. lookup_ptr_loop tb msk h fuel (probe_i msk h (Suc n)) (drop_bit (PERTURB_SHIFT * Suc n) h) ?fs =
        (if used (tb ! slot msk h N) then Inr (slot msk h N, False) else Inr (s, True)) \<and>
      (s = slot msk h N \<or> ?fs = Some s \<or> (\<exists>i. Suc n < i \<and> i < N \<and> s = slot msk h i \<and> he_key (tb ! s) = PDummy))"
      using Suc.prems False by (intro Suc.IH) auto
    then obtain s where s: "lookup_ptr_loop tb msk h fuel (probe_i msk h (Suc n)) (drop_bit (PERTURB_SHIFT * Suc n) h) ?fs =
        (if used (tb ! slot msk h N) then Inr (slot msk h N, False) else Inr (s, True))"
      "s = slot msk h N \<or> ?fs = Some s \<or> (\<exists>i. Suc n < i \<and> i < N \<and> s = slot msk h i \<and> he_key (tb ! s) = PDummy)"
      by blast
    have "s = slot msk h N \<or> fs = Some s \<or> (\<exists>i. n < i \<and> i < N \<and> s = slot msk h i \<and> he_key (tb ! s) = PDummy)"
      using s(2) Suc.prems(1) False by (auto split: if_splits intro: exI [of _ "Suc n"] Suc_lessD)
    then show ?thesis unfolding step using s(1) by auto
  qed
qed simp

text \<open>The first slot on the path that is free or has the hash; the whole lookup in one equation.\<close>

lemma lookup_ptr_eq:
  assumes so: "size_ok (h_table self) (h_mask self)" and free: "\<exists>j < length (h_table self). \<not> used (h_table self ! j)"
    and l: "h_lookup_i self = lookup_ptr"
  obtains N s where "\<And>i. i < N \<Longrightarrow> used (h_table self ! slot (h_mask self) n i) \<and> he_hash (h_table self ! slot (h_mask self) n i) \<noteq> n"
    "lookup_i self (PInt n) = Inr (s, claim_slot self s n)"
    "(s = slot (h_mask self) n N \<and> (used (h_table self ! s) \<longrightarrow> he_hash (h_table self ! s) = n)) \<or>
     (\<not> used (h_table self ! slot (h_mask self) n N) \<and> (\<exists>i < N. s = slot (h_mask self) n i \<and> he_key (h_table self ! s) = PDummy))"
proof -
  let ?tb = "h_table self" and ?msk = "h_mask self"
  obtain m where m: "m < probe_fuel ?tb" "\<not> used (?tb ! slot ?msk n m)"
    using free free_slot_on_path [OF so] by metis
  obtain N where N: "N \<le> m" "\<not> used (?tb ! slot ?msk n N) \<or> he_hash (?tb ! slot ?msk n N) = n"
    "\<And>i. i < N \<Longrightarrow> used (?tb ! slot ?msk n i) \<and> he_hash (?tb ! slot ?msk n i) \<noteq> n"
    using first_stop [where P = "\<lambda>i. \<not> used (?tb ! slot ?msk n i) \<or> he_hash (?tb ! slot ?msk n i) = n", of m] m(2) by auto
  have claim: "claim_slot self j n = self" if "he_hash (?tb ! j) = n" for j using that by (rule ptr_keys.claim_same)
  show thesis
  proof (cases "N = 0")
    case True
    with N(2) have "lookup_i self (PInt n) = Inr (slot ?msk n 0, claim_slot self (slot ?msk n 0) n)"
      by (auto simp: lookup_i_def l frt_h_lookup_ptr_def Let_def slot_def used_def claim)
    then show thesis using that [of N "slot ?msk n 0"] N(2,3) True by auto
  next
    case False
    let ?fs = "if he_key (?tb ! slot ?msk n 0) = PDummy then Some (slot ?msk n 0) else None"
    obtain s where s: "lookup_ptr_loop ?tb ?msk n (probe_fuel ?tb) (probe_i ?msk n 0) (drop_bit (PERTURB_SHIFT * 0) n) ?fs =
        (if used (?tb ! slot ?msk n N) then Inr (slot ?msk n N, False) else Inr (s, True))"
      "s = slot ?msk n N \<or> ?fs = Some s \<or> (\<exists>i. 0 < i \<and> i < N \<and> s = slot ?msk n i \<and> he_key (?tb ! s) = PDummy)"
      using lookup_ptr_loop_eq [of 0 N "probe_fuel ?tb" ?tb ?msk n ?fs] False m(1) N by fastforce
    have s0: "used (?tb ! slot ?msk n 0)" "he_hash (?tb ! slot ?msk n 0) \<noteq> n" using N(3) [of 0] False by auto
    show thesis
    proof (cases "used (?tb ! slot ?msk n N)")
      case True
      then have "lookup_i self (PInt n) = Inr (slot ?msk n N, self)"
        using s(1) s0 by (auto simp: lookup_i_def l frt_h_lookup_ptr_def Let_def slot_def used_def)
      then show thesis using that [of N "slot ?msk n N"] N(2,3) True claim by auto
    next
      case False
      then have "lookup_i self (PInt n) = Inr (s, claim_slot self s n)"
        using s(1) s0 by (auto simp: lookup_i_def l frt_h_lookup_ptr_def Let_def slot_def used_def)
      moreover have "s = slot ?msk n N \<or> (\<exists>i < N. s = slot ?msk n i \<and> he_key (?tb ! s) = PDummy)"
        using s(2) \<open>N \<noteq> 0\<close> by (auto split: if_splits)
      ultimately show thesis using that [of N s] N(3) False by blast
    qed
  qed
qed

lemma clear_path_first:
  assumes "clear_path tb msk n j" and "used (tb ! j)" "he_hash (tb ! j) = n"
    and "\<And>i. i < N \<Longrightarrow> used (tb ! slot msk n i) \<and> he_hash (tb ! slot msk n i) \<noteq> n"
    and "\<not> used (tb ! slot msk n N) \<or> he_hash (tb ! slot msk n N) = n"
  shows "slot msk n N = j"
  using assms unfolding clear_path_def by (metis linorder_neqE_nat)

lemma int_lookup_cases:
  assumes I: "int_table self"
  obtains (hit) j where "lookup_i self (PInt n) = Inr (j, self)" "j < length (h_table self)"
      "he_active (h_table self ! j)" "he_hash (h_table self ! j) = n" "int_map self n = Some (he_value (h_table self ! j))"
  | (miss) j where "lookup_i self (PInt n) = Inr (j, claim_slot self j n)" "j < length (h_table self)"
      "\<not> he_active (h_table self ! j)" "clear_path (h_table self) (h_mask self) n j" "int_map self n = None"
proof -
  let ?tb = "h_table self" and ?msk = "h_mask self"
  note D = int_tableD [OF I]
  obtain N s where N: "\<And>i. i < N \<Longrightarrow> used (?tb ! slot ?msk n i) \<and> he_hash (?tb ! slot ?msk n i) \<noteq> n"
    "lookup_i self (PInt n) = Inr (s, claim_slot self s n)"
    "(s = slot ?msk n N \<and> (used (?tb ! s) \<longrightarrow> he_hash (?tb ! s) = n)) \<or>
     (\<not> used (?tb ! slot ?msk n N) \<and> (\<exists>i < N. s = slot ?msk n i \<and> he_key (?tb ! s) = PDummy))"
    by (rule lookup_ptr_eq [OF D(3,5,1), of n]) (rule that; assumption)
  have stop: "\<not> used (?tb ! slot ?msk n N) \<or> he_hash (?tb ! slot ?msk n N) = n" using N(3) by auto
  have sl: "s < length ?tb" using N(3) size_ok_slot [OF D(3)] by auto
  have only: "slot ?msk n N = j" if "j < length ?tb" "he_active (?tb ! j)" "he_hash (?tb ! j) = n" for j
  proof (rule clear_path_first [OF _ he_active_used [OF that(2)] that(3) _ stop])
    show "clear_path ?tb ?msk n j" using D(4) [OF that(1,2)] unfolding that(3) .
  qed (rule N(1))
  show thesis
  proof (cases "he_active (?tb ! s)")
    case True
    then have "s = slot ?msk n N" "he_hash (?tb ! s) = n" using N(3) he_active_used by (auto simp: he_active_def)
    moreover have "claim_slot self s n = self" using calculation(2) by (rule ptr_keys.claim_same)
    ultimately show thesis using hit [of s] N(2) sl True int_map_Some [OF I sl True] by simp
  next
    case False
    have path: "clear_path ?tb ?msk n s"
    proof -
      have "\<exists>M \<le> N. s = slot ?msk n M" using N(3) less_imp_le_nat by blast
      then obtain M where "M \<le> N" "s = slot ?msk n M" by blast
      then show ?thesis using N(1) unfolding clear_path_def by (intro exI [of _ M]) simp
    qed
    have "int_map self n = None"
      unfolding int_map_None
    proof (intro allI impI notI)
      fix j assume j: "j < length ?tb" "he_active (?tb ! j)" "he_hash (?tb ! j) = n"
      have "slot ?msk n N = j" using only j by blast
      then have "used (?tb ! slot ?msk n N)" using j he_active_used by blast
      with N(3) have "s = slot ?msk n N" by blast
      with \<open>slot ?msk n N = j\<close> j False show False by simp
    qed
    then show thesis using miss [OF N(2) sl False path] by blast
  qed
qed

section \<open>Slots\<close>

lemma ptr_entry_claim: "\<not> he_active e \<Longrightarrow> ptr_entry (e\<lparr>he_hash := n\<rparr>) = (ptr_entry e)\<lparr>he_hash := n\<rparr>"
  by (auto simp: ptr_entry_def he_active_def split: voidp.splits)

lemma ptr_abs_claim:
  "j < length (h_table self) \<Longrightarrow> \<not> he_active (h_table self ! j) \<Longrightarrow>
   ptr_abs (claim_slot self j n) = claim_slot (ptr_abs self) j n"
  by (simp add: ptr_abs_def claim_slot_def map_update ptr_entry_claim)

text \<open>Changing a slot keeps the paths of the others when it stays used and its hash is not theirs.\<close>

lemma clear_path_update:
  assumes "clear_path tb msk n j" and "used (tb ! k) \<longrightarrow> used e" and "he_hash e \<noteq> n \<or> he_hash (tb ! k) = n \<or> k = j"
    and "k < length tb"
  shows "clear_path (tb[k := e]) msk n j"
proof -
  obtain N where N: "slot msk n N = j" "\<forall>i < N. used (tb ! slot msk n i) \<and> he_hash (tb ! slot msk n i) \<noteq> n"
    using assms(1) by (auto simp: clear_path_def)
  define M where "M = (LEAST i. slot msk n i = j)"
  have M: "slot msk n M = j" "M \<le> N" unfolding M_def by (rule LeastI, rule N(1)) (rule Least_le, rule N(1))
  have "slot msk n i \<noteq> j" if "i < M" for i using that not_less_Least [of i "\<lambda>i. slot msk n i = j"] by (auto simp: M_def)
  then have "used (tb[k := e] ! slot msk n i) \<and> he_hash (tb[k := e] ! slot msk n i) \<noteq> n" if "i < M" for i
    using that N(2) M(2) assms(2-4) by (cases "slot msk n i = k") auto
  then show ?thesis using M(1) unfolding clear_path_def by blast
qed

lemma ptr_keyed_inactive:
  assumes "int_table self" and "j < length (h_table self)" "\<not> he_active (h_table self ! j)"
  shows "he_value (h_table self ! j) = None"
  using ptr_keys.inactive_entry(1) [OF ptr_keys.keyedD(1) [OF int_tableD(2) [OF assms(1)]], of j] assms by simp

lemma int_claim:
  assumes I: "int_table self" and j: "j < length (h_table self)" "\<not> he_active (h_table self ! j)" and miss: "int_map self n = None"
  shows "int_table (claim_slot self j n)" and "int_map (claim_slot self j n) = int_map self"
proof -
  note K = ptr_keys.keyed_claim [OF int_tableD(2) [OF I], of j n]
  have e: "ptr_abs (claim_slot self j n) = claim_slot (ptr_abs self) j n" using j by (rule ptr_abs_claim)
  show "int_map (claim_slot self j n) = int_map self" unfolding int_map_def e using K(2) j by auto
  show "int_table (claim_slot self j n)"
    unfolding int_table_def
  proof (intro conjI allI impI)
    show "h_lookup_i (claim_slot self j n) = lookup_ptr" using int_tableD(1) [OF I] by (simp add: claim_slot_def)
    show "ptr_keys.keyed (ptr_abs (claim_slot self j n))" unfolding e using K(1) j by simp
    fix i assume "i < length (h_table (claim_slot self j n))" "he_active (h_table (claim_slot self j n) ! i)"
    then have i: "i < length (h_table self)" "i \<noteq> j" "he_active (h_table self ! i)"
      using j by (auto simp: claim_slot_def nth_list_update he_active_def split: if_splits)
    then have "he_hash (h_table self ! i) \<noteq> n" using miss by (simp add: int_map_None)
    then show "clear_path (h_table (claim_slot self j n)) (h_mask (claim_slot self j n))
        (he_hash (h_table (claim_slot self j n) ! i)) i"
      using clear_path_update [OF int_tableD(4) [OF I i(1,3)], of j "(h_table self ! j)\<lparr>he_hash := n\<rparr>"] i(2) j(1)
      by (simp add: claim_slot_def used_def)
  qed
qed

text \<open>Any key but the null pointer and the mark of a deleted slot does: \<open>frt_h_set_int\<close> stores \<open>dummy_int_key\<close>.\<close>

definition key_ok :: "'k voidp \<Rightarrow> bool" where
  "key_ok p \<longleftrightarrow> p \<noteq> PNull \<and> p \<noteq> PDummy"

lemma ptr_entry_put: "key_ok p \<Longrightarrow> ptr_entry \<lparr>he_hash = n, he_key = p, he_value = v\<rparr> = \<lparr>he_hash = n, he_key = PKey n, he_value = v\<rparr>"
  by (auto simp: ptr_entry_def key_ok_def split: voidp.splits)

lemma int_put:
  assumes I: "int_table self" and j: "j < length (h_table self)" "\<not> he_active (h_table self ! j)"
    and path: "clear_path (h_table self) (h_mask self) n j" and miss: "int_map self n = None" and p: "key_ok p"
    and fill: "used (h_table self ! j) \<Longrightarrow> d = 0" "\<not> used (h_table self ! j) \<Longrightarrow> d = 1"
      "(h_fill self + d) * 3 \<le> int (h_mask self) * 2 + 3"
    and self': "self' = set_entry ((claim_slot self j n)\<lparr>h_fill := h_fill self + d, h_size := h_size self + 1\<rparr>) j p v"
  shows "int_table self'" and "int_map self' z = (if n = z then Some v else int_map self z)"
proof -
  let ?e = "\<lparr>he_hash = n, he_key = p, he_value = v\<rparr>"
  have tb: "h_table self' = (h_table self)[j := ?e]" using j by (simp add: self' set_entry_def claim_slot_def entry_full)
  have abs: "ptr_abs self' = set_entry ((claim_slot (ptr_abs self) j (frt_ptr_hash n))
      \<lparr>h_fill := h_fill (ptr_abs self) + d, h_size := h_size (ptr_abs self) + 1\<rparr>) j (PKey n) v"
    using j p by (simp add: self' ptr_abs_def set_entry_def claim_slot_def map_update entry_full ptr_entry_put)
  have r: "reach (h_table (ptr_abs self)) (h_mask (ptr_abs self)) (frt_ptr_hash n) j"
  proof -
    obtain N where "slot (h_mask self) n N = j" "\<forall>i < N. used (h_table self ! slot (h_mask self) n i)"
      using path by (auto simp: clear_path_def)
    then show ?thesis using size_ok_slot [OF int_tableD(3) [OF I]] by (auto simp: reach_def)
  qed
  have m: "h_map (ptr_abs self) n = None" using miss by (simp add: int_map_def)
  note put = ptr_keys.keyed_put [OF int_tableD(2) [OF I] _ _ r m _ _ _ abs]
  show "int_map self' z = (if n = z then Some v else int_map self z)"
    unfolding int_map_def by (subst put(2)) (use j fill in auto)
  show "int_table self'"
    unfolding int_table_def
  proof (intro conjI allI impI)
    show "h_lookup_i self' = lookup_ptr" using int_tableD(1) [OF I] by (simp add: self' set_entry_def claim_slot_def)
    show "ptr_keys.keyed (ptr_abs self')" by (rule put(1)) (use j fill in auto)
    have msk: "h_mask self' = h_mask self" by (simp add: self' set_entry_def)
    fix i assume i: "i < length (h_table self')" "he_active (h_table self' ! i)"
    show "clear_path (h_table self') (h_mask self') (he_hash (h_table self' ! i)) i"
    proof (cases "i = j")
      case True
      have "used ?e" using p by (simp add: used_def key_ok_def)
      then show ?thesis using clear_path_update [OF path, of j ?e] True j(1) unfolding tb msk by simp
    next
      case False
      then have i': "i < length (h_table self)" "he_active (h_table self ! i)" using i by (simp_all add: tb)
      then have "he_hash (h_table self ! i) \<noteq> n" using miss by (simp add: int_map_None)
      moreover have "used ?e" using p by (simp add: used_def key_ok_def)
      ultimately show ?thesis using clear_path_update [OF int_tableD(4) [OF I i'], of j ?e] False j(1) unfolding tb msk by simp
    qed
  qed
qed

lemma int_slot_changed:
  assumes I: "int_table self" and j: "j < length (h_table self)" "he_active (h_table self ! j)"
    and e: "used e" "he_hash e = he_hash (h_table self ! j)"
    and self': "h_lookup_i self' = lookup_ptr" "h_mask self' = h_mask self" "h_table self' = (h_table self)[j := e]"
    and K: "ptr_keys.keyed (ptr_abs self')"
  shows "int_table self'"
  unfolding int_table_def
proof (intro conjI allI impI)
  fix i assume i: "i < length (h_table self')" "he_active (h_table self' ! i)"
  have i': "i < length (h_table self)" "he_active (h_table self ! i)" using i j by (auto simp: self' nth_list_update split: if_splits)
  have h: "he_hash (h_table self' ! i) = he_hash (h_table self ! i)" using e(2) j(1) by (auto simp: self' nth_list_update)
  have "he_hash e \<noteq> he_hash (h_table self ! i) \<or> j = i"
    using int_unique [OF I j(1) i'(1) j(2) i'(2)] e(2) by auto
  then show "clear_path (h_table self') (h_mask self') (he_hash (h_table self' ! i)) i"
    using clear_path_update [OF int_tableD(4) [OF I i'], of j e] e(1) j(1) unfolding h unfolding self' by simp
qed (use self' K in auto)

lemma int_replace:
  assumes I: "int_table self" and j: "j < length (h_table self)" "he_active (h_table self ! j)" "he_hash (h_table self ! j) = n"
    and p: "key_ok p"
  shows "int_table (set_entry self j p v)" and "int_map (set_entry self j p v) z = (if n = z then Some v else int_map self z)"
proof -
  let ?e = "(h_table self ! j)\<lparr>he_key := p, he_value := v\<rparr>"
  have "ptr_entry ?e = (ptr_entry (h_table self ! j))\<lparr>he_key := PKey n, he_value := v\<rparr>"
    using p j(3) by (auto simp: ptr_entry_def key_ok_def split: voidp.splits)
  then have abs: "ptr_abs (set_entry self j p v) = set_entry (ptr_abs self) j (PKey n) v"
    using j by (simp add: ptr_abs_def set_entry_def map_update)
  have hk: "j < length (h_table (ptr_abs self))" "has_key frt_ptr_eq n (h_table (ptr_abs self) ! j)"
    using j by (simp_all add: has_key_ptr_entry)
  note K = ptr_keys.keyed_replace [OF int_tableD(2) [OF I] hk]
  show "int_map (set_entry self j p v) z = (if n = z then Some v else int_map self z)"
    unfolding int_map_def abs using K(2) by simp
  have K1: "ptr_keys.keyed (ptr_abs (set_entry self j p v))" unfolding abs by (rule K(1))
  show "int_table (set_entry self j p v)"
    by (rule int_slot_changed [OF I j(1,2), of ?e, OF _ _ _ _ _ K1])
      (use p int_tableD(1) [OF I] in \<open>simp_all add: set_entry_def used_def key_ok_def\<close>)
qed

lemma int_del:
  assumes I: "int_table self" and j: "j < length (h_table self)" "he_active (h_table self ! j)" "he_hash (h_table self ! j) = n"
  defines "self' \<equiv> self\<lparr>h_table := (h_table self)[j := (h_table self ! j)\<lparr>he_key := PDummy, he_value := None\<rparr>],
    h_size := h_size self - 1\<rparr>"
  shows "int_table self'" and "int_map self' z = (if n = z then None else int_map self z)"
proof -
  let ?e = "(h_table self ! j)\<lparr>he_key := PDummy, he_value := None\<rparr>"
  have abs: "ptr_abs self' = (ptr_abs self)\<lparr>h_table := (h_table (ptr_abs self))[j := (h_table (ptr_abs self) ! j)
      \<lparr>he_key := PDummy, he_value := None\<rparr>], h_size := h_size (ptr_abs self) - 1\<rparr>"
    using j by (simp add: ptr_abs_def self'_def map_update) (simp add: ptr_entry_def)
  have hk: "j < length (h_table (ptr_abs self))" "has_key frt_ptr_eq n (h_table (ptr_abs self) ! j)"
    using j by (simp_all add: has_key_ptr_entry)
  note K = ptr_keys.keyed_del [OF int_tableD(2) [OF I] hk]
  show "int_map self' z = (if n = z then None else int_map self z)" unfolding int_map_def abs using K(2) by simp
  have K1: "ptr_keys.keyed (ptr_abs self')" unfolding abs by (rule K(1))
  show "int_table self'"
    by (rule int_slot_changed [OF I j(1,2), of ?e, OF _ _ _ _ _ K1])
      (use int_tableD(1) [OF I] in \<open>simp_all add: self'_def used_def\<close>)
qed

section \<open>Resizing\<close>

lemma resize_lookup_loop_abs:
  assumes "\<And>i. slot_of msk i < length tb"
  shows "resize_lookup_loop (map ptr_entry tb) msk fuel i h = resize_lookup_loop tb msk fuel i h"
  by (induction fuel arbitrary: i h) (simp_all add: assms Let_def)

lemma resize_lookup_abs:
  assumes "\<And>i. slot_of (h_mask self) i < length (h_table self)"
  shows "ebind (frt_h_resize_lookup (ptr_abs self) h) (\<lambda>(j, _). Inr j) = ebind (frt_h_resize_lookup self h) (\<lambda>(j, _). Inr j)"
    and "frt_h_resize_lookup self h = Inr (j, self') \<Longrightarrow> self' = claim_slot self j h"
    and "frt_h_resize_lookup (ptr_abs self) h = Inr (j, s') \<Longrightarrow> s' = claim_slot (ptr_abs self) j h"
  by (auto simp: frt_h_resize_lookup_def Let_def assms resize_lookup_loop_abs [OF assms] probe_fuel_def ebind_assoc ebind_eq_Inr
      split: if_splits)

lemma frt_h_resize_lookup_abs:
  assumes "\<And>i. slot_of (h_mask self) i < length (h_table self)" and "frt_h_resize_lookup (ptr_abs self) h = Inr (j, s')"
  shows "frt_h_resize_lookup self h = Inr (j, claim_slot self j h)" and "s' = claim_slot (ptr_abs self) j h"
proof -
  show "s' = claim_slot (ptr_abs self) j h" using assms by (rule resize_lookup_abs(3))
  have "ebind (frt_h_resize_lookup self h) (\<lambda>(j, _). Inr j) = Inr j"
    using resize_lookup_abs(1) [OF assms(1), of h] assms(2) by simp
  then obtain s where "frt_h_resize_lookup self h = Inr (j, s)" by (auto simp: ebind_eq_Inr)
  with resize_lookup_abs(2) [OF assms(1)] show "frt_h_resize_lookup self h = Inr (j, claim_slot self j h)" by blast
qed

lemma resize_lookup_loop_slot: "resize_lookup_loop tb msk fuel i h = Inr j \<Longrightarrow> \<exists>i'. j = slot_of msk i'"
  by (induction fuel arbitrary: i h) (auto simp: Let_def split: if_splits)

lemma resize_lookup_less:
  assumes "\<And>i. slot_of (h_mask self) i < length (h_table self)" and "frt_h_resize_lookup self h = Inr (j, s)"
  shows "j < length (h_table self)"
  using assms by (auto simp: frt_h_resize_lookup_def Let_def ebind_eq_Inr dest!: resize_lookup_loop_slot split: if_splits)

lemma resize_copy_abs:
  "resize_copy (map ptr_entry rest) n (ptr_abs self) = Inr r \<Longrightarrow> (\<And>i. slot_of (h_mask self) i < length (h_table self)) \<Longrightarrow>
   \<exists>tb. resize_copy rest n self = Inr (self\<lparr>h_table := tb\<rparr>) \<and> r = ptr_abs (self\<lparr>h_table := tb\<rparr>)"
proof (induction rest arbitrary: n self)
  case Nil
  then show ?case by (intro exI [of _ "h_table self"]) (auto split: if_splits)
next
  case (Cons e rest)
  show ?case
  proof (cases "n > 0 \<and> he_active e")
    case False
    show ?thesis
    proof (cases "n > 0")
      case True
      then have "\<not> he_active e" using False by simp
      then have "resize_copy (map ptr_entry rest) n (ptr_abs self) = Inr r" "resize_copy (e # rest) n self = resize_copy rest n self"
        using Cons.prems(1) True by (auto simp: he_active_def)
      then show ?thesis using Cons.IH [OF _ Cons.prems(2)] by simp
    next
      case False
      then show ?thesis using Cons.prems(1) by (intro exI [of _ "h_table self"]) simp
    qed
  next
    case True
    have k: "he_key e \<noteq> PNull" "he_key e \<noteq> PDummy" using True by (auto simp: he_active_def)
    obtain j s' where j: "frt_h_resize_lookup (ptr_abs self) (he_hash e) = Inr (j, s')"
      and r: "resize_copy (map ptr_entry rest) (n - 1) (s'\<lparr>h_table := (h_table s')
        [j := (h_table s' ! j)\<lparr>he_key := he_key (ptr_entry e), he_value := he_value e\<rparr>]\<rparr>) = Inr r"
      using Cons.prems(1) True k by (auto simp: ebind_eq_Inr)
    note l = frt_h_resize_lookup_abs [OF Cons.prems(2) j]
    have jl: "j < length (h_table self)"
      using resize_lookup_less [OF Cons.prems(2) l(1)] .
    define self1 where "self1 = (claim_slot self j (he_hash e))\<lparr>h_table := (h_table (claim_slot self j (he_hash e)))
      [j := (h_table (claim_slot self j (he_hash e)) ! j)\<lparr>he_key := he_key e, he_value := he_value e\<rparr>]\<rparr>"
    have "s'\<lparr>h_table := (h_table s')[j := (h_table s' ! j)\<lparr>he_key := he_key (ptr_entry e), he_value := he_value e\<rparr>]\<rparr> = ptr_abs self1"
    proof -
      have "ptr_entry \<lparr>he_hash = he_hash e, he_key = he_key e, he_value = he_value e\<rparr> =
          \<lparr>he_hash = he_hash e, he_key = he_key (ptr_entry e), he_value = he_value e\<rparr>"
        using k by (cases "he_key e") (simp_all add: ptr_entry_def)
      then show ?thesis using jl by (simp add: l(2) self1_def ptr_abs_def claim_slot_def map_update entry_full)
    qed
    moreover have "h_mask self1 = h_mask self" "length (h_table self1) = length (h_table self)"
      by (simp_all add: self1_def claim_slot_def)
    ultimately obtain tb where "resize_copy rest (n - 1) self1 = Inr (self1\<lparr>h_table := tb\<rparr>)" "r = ptr_abs (self1\<lparr>h_table := tb\<rparr>)"
      using Cons.IH [of "n - 1" self1] r Cons.prems(2) by auto
    then show ?thesis using True k l(1) by (intro exI [of _ tb]) (simp add: self1_def claim_slot_def)
  qed
qed

lemma all_active:
  assumes "count_if used tb = count_if he_active tb" and "j < length tb" and "used (tb ! j)"
  shows "he_active (tb ! j)"
proof (rule ccontr)
  assume "\<not> he_active (tb ! j)"
  then have "length (filter he_active tb) < length (filter used tb)"
    using assms by (intro length_filter_less_of) (auto intro: he_active_used)
  with assms(1) show False by (simp add: count_if_def)
qed

lemma int_resize:
  assumes I: "int_table self" and m: "2 * h_size self \<le> m" "m \<le> 2 ^ 30"
  shows "\<exists>self'. frt_h_resize self m = Inr self' \<and> int_table self' \<and> int_map self' = int_map self \<and>
    h_size self' = h_size self \<and> h_fill self' = h_size self' \<and> h_fill self' * 3 \<le> int (h_mask self') * 2 \<and>
    h_freed self' = h_freed self \<and> same_fns self self'"
proof -
  from ptr_keys.frt_h_resize_ok [OF int_tableD(2) [OF I], of m] m obtain r where
    r: "frt_h_resize (ptr_abs self) m = Inr r" "ptr_keys.keyed r" "h_map r = h_map (ptr_abs self)" "h_size r = h_size self"
      "h_fill r = h_size r" "h_fill r * 3 \<le> int (h_mask r) * 2" by auto
  obtain k where k: "newsize_loop FRT_HASH_MINSIZE m = 2 ^ k" "k \<le> 30"
    using newsize_loop_pow [of 4 m] m(2) by (auto simp: FRT_HASH_MINSIZE_def)
  define msk :: nat where "msk = 2 ^ k - 1"
  have msk: "Suc msk = 2 ^ k" by (simp add: msk_def)
  define self0 where "self0 = self\<lparr>h_table := replicate (Suc msk) empty_entry, h_fill := h_size self, h_mask := msk\<rparr>"
  have "ptr_abs self0 = (ptr_abs self)\<lparr>h_table := replicate (Suc msk) empty_entry, h_fill := h_size self, h_mask := msk\<rparr>"
    by (simp add: self0_def ptr_abs_def) (simp add: ptr_entry_def empty_entry_def)
  then have "resize_copy (map ptr_entry (h_table self)) (h_size self) (ptr_abs self0) = Inr r"
    using r(1) by (simp add: frt_h_resize_def Let_def k(1) msk_def)
  moreover have "slot_of (h_mask self0) i < length (h_table self0)" for i
    using slot_of_less [OF msk, of i] k(2) msk by (simp add: self0_def del: replicate_Suc)
  ultimately obtain tb where tb: "resize_copy (h_table self) (h_size self) self0 = Inr (self0\<lparr>h_table := tb\<rparr>)"
    "r = ptr_abs (self0\<lparr>h_table := tb\<rparr>)" using resize_copy_abs by blast
  let ?self' = "self0\<lparr>h_table := tb\<rparr>"
  have res: "frt_h_resize self m = Inr ?self'"
    using tb(1) by (simp add: frt_h_resize_def Let_def k(1) msk_def self0_def)
  note K = r(2) [unfolded tb(2)]
  note D = ptr_keys.keyedD [OF K]
  have act: "he_active (tb ! j)" if "j < length tb" "used (tb ! j)" for j
    using all_active [OF _ that] D(6,7) r(5) unfolding tb(2) by simp
  have so: "size_ok tb msk" using tab_invD(1) [OF D(1)] by (simp add: size_ok_def self0_def)
  have "int_table ?self'"
    unfolding int_table_def
  proof (intro conjI allI impI)
    show "h_lookup_i ?self' = lookup_ptr" using int_tableD(1) [OF I] by (simp add: self0_def)
    show "ptr_keys.keyed (ptr_abs ?self')" by (rule K)
    fix j assume "j < length (h_table ?self')" "he_active (h_table ?self' ! j)"
    then have j: "j < length tb" "he_active (tb ! j)" by simp_all
    define n where "n = he_hash (tb ! j)"
    have "reach (map ptr_entry tb) msk n j"
      using tab_invD(3) [OF D(1), of j n] j ptr_entry_active [OF j(2)] by (simp add: n_def self0_def)
    then obtain N where N: "slot msk n N = j" "\<forall>i < N. used (tb ! slot msk n i)"
      using size_ok_slot [OF so] by (auto simp: reach_def)
    define M where "M = (LEAST i. slot msk n i = j)"
    have M: "slot msk n M = j" "M \<le> N" unfolding M_def by (rule LeastI, rule N(1)) (rule Least_le, rule N(1))
    have "used (tb ! slot msk n i) \<and> he_hash (tb ! slot msk n i) \<noteq> n" if "i < M" for i
    proof
      show u: "used (tb ! slot msk n i)" using N(2) M(2) that by simp
      show "he_hash (tb ! slot msk n i) \<noteq> n"
      proof
        assume "he_hash (tb ! slot msk n i) = n"
        then have "slot msk n i = j"
          using ptr_keys.has_key_unique [OF D(1), of "slot msk n i" j n] j act [OF size_ok_slot [OF so] u] size_ok_slot [OF so]
          by (simp add: has_key_ptr_entry n_def)
        then show False using that not_less_Least [of i "\<lambda>i. slot msk n i = j"] by (simp add: M_def)
      qed
    qed
    then show "clear_path (h_table ?self') (h_mask ?self') (he_hash (h_table ?self' ! j)) j"
      using M(1) by (auto simp: clear_path_def self0_def n_def)
  qed
  moreover have "int_map ?self' = int_map self" using r(3) unfolding tb(2) by (simp add: int_map_def fun_eq_iff)
  ultimately show ?thesis using res r(4-6) unfolding tb(2) by (auto simp: self0_def same_fns_def)
qed

section \<open>The operations\<close>

lemma int_free_frame:
  "int_table self \<Longrightarrow> int_table (free_value_i self v)" "int_table self \<Longrightarrow> int_table (free_key_i self p)"
  "int_map (free_value_i self v) = int_map self" "int_map (free_key_i self p) = int_map self"
  "h_table (free_value_i self v) = h_table self" "h_table (free_key_i self p) = h_table self"
  "h_size (free_value_i self v) = h_size self" "h_size (free_key_i self p) = h_size self"
  "h_freed (free_value_i self v) = h_freed self @ (if h_free_value_i self then [FreeValue v] else [])"
  by (auto simp: free_value_i_def free_key_i_def int_table_def int_map_def ptr_abs_def)

lemma int_get_ok:
  assumes I: "int_table self"
  shows "\<exists>self'. frt_h_get self (PInt n) = Inr (Option.bind (int_map self n) id, self') \<and> int_table self' \<and>
    int_map self' = int_map self \<and> h_size self' = h_size self \<and> h_freed self' = h_freed self \<and> same_fns self self'"
  using I
proof (cases rule: int_lookup_cases [where n = n])
  case (hit j)
  then show ?thesis using I by (simp add: frt_h_get_def)
next
  case (miss j)
  then show ?thesis using int_claim [OF I miss(2,3,5)] ptr_keyed_inactive [OF I miss(2,3)]
    by (auto simp: frt_h_get_def claim_slot_def same_fns_def)
qed

lemma int_has_key_ok:
  assumes I: "int_table self"
  shows "\<exists>r self'. frt_h_has_key self (PInt n) = Inr (r, self') \<and> int_table self' \<and> int_map self' = int_map self \<and>
    (r = FRT_HASH_KEY_DOES_NOT_EXIST \<longleftrightarrow> int_map self n = None) \<and> h_size self' = h_size self \<and> same_fns self self'"
  using I
proof (cases rule: int_lookup_cases [where n = n])
  case (hit j)
  then show ?thesis using I by (simp add: frt_h_has_key_def he_active_def)
next
  case (miss j)
  then show ?thesis using int_claim [OF I miss(2,3,5)] by (auto simp: frt_h_has_key_def he_active_def)
qed

lemma int_set_ext_new:
  assumes I: "int_table self" and m: "int_map self n = None" and small: "h_size self < 2 ^ 28"
  shows "\<exists>j self1. frt_h_set_ext self (PInt n) = Inr (True, j, self1) \<and> h_size self1 = h_size self + 1 \<and>
    h_freed self1 = h_freed self \<and> same_fns self self1 \<and>
    (\<forall>p v. key_ok p \<longrightarrow> int_table (set_entry self1 j p v) \<and>
      (\<forall>z. int_map (set_entry self1 j p v) z = (if n = z then Some v else int_map self z)))"
  using I
proof (cases rule: int_lookup_cases [where n = n])
  case (hit j)
  with m show ?thesis by simp
next
  case (miss j)
  let ?self0 = "claim_slot self j n"
  have I0: "int_table ?self0" and M0: "int_map ?self0 = int_map self" using int_claim [OF I miss(2,3,5)] by auto
  have fill: "h_fill self * 3 \<le> int (h_mask self) * 2 + 3" using ptr_keys.keyedD(8) [OF int_tableD(2) [OF I]] by simp
  show ?thesis
  proof (cases "used (h_table self ! j)")
    case True
    then have "he_key (h_table self ! j) = PDummy" using miss(3) by (simp add: used_def he_active_def)
    then have "frt_h_set_ext self (PInt n) = Inr (True, j, ?self0\<lparr>h_size := h_size self + 1\<rparr>)"
      using miss by (simp add: frt_h_set_ext_def)
    moreover have "?self0\<lparr>h_size := h_size self + 1\<rparr> = ?self0\<lparr>h_fill := h_fill self + 0, h_size := h_size self + 1\<rparr>"
      by (simp add: claim_slot_def)
    ultimately show ?thesis
      using int_put [OF I miss(2-5) _ _ _ _ refl, of _ 0] True fill by (auto simp: same_fns_def simp del: add_0_right)
  next
    case False
    then have null: "he_key (h_table self ! j) = PNull" by (simp add: used_def)
    show ?thesis
    proof (cases "h_fill self * 3 > int (h_mask self) * 2")
      case True
      let ?m = "h_size self * (if h_size self > FRT_SLOW_DOWN then 4 else 2)"
      have "0 \<le> h_size self" using ptr_keys.keyedD(7) [OF int_tableD(2) [OF I]] by simp
      then have "2 * h_size ?self0 \<le> ?m" "?m \<le> 2 ^ 30" using small by auto
      from int_resize [OF I0 this] obtain self2 where s2: "frt_h_resize ?self0 ?m = Inr self2" "int_table self2"
        "int_map self2 = int_map self" "h_size self2 = h_size self" "h_freed self2 = h_freed self"
        "h_fill self2 = h_size self2" "h_fill self2 * 3 \<le> int (h_mask self2) * 2" "same_fns self self2"
        unfolding M0 using same_fns_trans [OF same_fns_claim] by (metis claim_slot_simps(4,5))
      from s2(2) show ?thesis
      proof (cases rule: int_lookup_cases [where n = n])
        case (hit i)
        with s2(3) miss(5) show ?thesis by simp
      next
        case (miss i)
        note K2 = ptr_keys.keyedD [OF int_tableD(2) [OF s2(2)]]
        have "count_if used (h_table self2) = count_if he_active (h_table self2)" using s2(6) K2(6,7) by simp
        from all_active [OF this miss(2)] have "\<not> used (h_table self2 ! i)" using miss(3) by blast
        moreover have "frt_h_set_ext self (PInt n) = Inr (True, i, (claim_slot self2 i n)
            \<lparr>h_fill := h_fill self2 + 1, h_size := h_size self2 + 1\<rparr>)"
          using \<open>lookup_i self (PInt n) = _\<close> null True s2(1) miss(1) \<open>j < length (h_table self)\<close>
          by (simp add: frt_h_set_ext_def)
        ultimately show ?thesis
          using int_put [OF s2(2) miss(2-5) _ _ _ _ refl, of _ 1] s2 by (auto simp: same_fns_def)
      qed
    next
      case False
      then have "frt_h_set_ext self (PInt n) = Inr (True, j, ?self0
          \<lparr>h_fill := h_fill self + 1, h_size := h_size self + 1\<rparr>)"
        using miss null by (simp add: frt_h_set_ext_def)
      then show ?thesis
        using int_put [OF I miss(2-5) _ _ _ _ refl, of _ 1] False \<open>\<not> used _\<close> by (auto simp: same_fns_def)
    qed
  qed
qed

lemma int_set_ext_old:
  assumes I: "int_table self" and m: "int_map self n = Some v"
  obtains j where "frt_h_set_ext self (PInt n) = Inr (False, j, self)" "j < length (h_table self)"
    "he_active (h_table self ! j)" "he_hash (h_table self ! j) = n" "he_value (h_table self ! j) = v"
  using I
proof (cases rule: int_lookup_cases [where n = n])
  case (hit j)
  then show thesis using that [of j] m by (auto simp: frt_h_set_ext_def he_active_def)
next
  case (miss j)
  with m show thesis by simp
qed

lemma key_ok_int [simp]: "key_ok (PInt n)" "key_ok PDummyInt"
  by (simp_all add: key_ok_def)

lemma int_set_safe_ok:
  assumes I: "int_table self" and small: "h_size self < 2 ^ 28"
  shows "\<exists>self'. frt_h_set_safe self (PInt n) v = Inr (int_map self n = None, self') \<and> int_table self' \<and>
    (\<forall>z. int_map self' z = (if n = z \<and> int_map self n = None then Some v else int_map self z)) \<and>
    h_size self' = h_size self + (if int_map self n = None then 1 else 0) \<and> h_freed self' = h_freed self \<and> same_fns self self'"
proof (cases "int_map self n")
  case None
  from int_set_ext_new [OF I None small] show ?thesis by (auto simp: frt_h_set_safe_def None)
next
  case (Some w)
  from I Some show ?thesis by (rule int_set_ext_old) (use I Some in \<open>auto simp: frt_h_set_safe_def\<close>)
qed

lemma int_set_safe_int_ok:
  assumes I: "int_table self" and small: "h_size self < 2 ^ 28"
  shows "\<exists>self'. frt_h_set_safe_int self n v = Inr (int_map self n = None, self') \<and> int_table self' \<and>
    (\<forall>z. int_map self' z = (if n = z \<and> int_map self n = None then Some v else int_map self z))"
proof (cases "int_map self n")
  case None
  from int_set_ext_new [OF I None small] show ?thesis by (auto simp: frt_h_set_safe_int_def None)
next
  case (Some w)
  from I Some show ?thesis by (rule int_set_ext_old) (use I Some in \<open>auto simp: frt_h_set_safe_int_def\<close>)
qed

lemma int_set_int_ok:
  assumes I: "int_table self" and small: "h_size self < 2 ^ 28"
  shows "\<exists>r self'. frt_h_set_int self n v = Inr (r, self') \<and> int_table self' \<and>
    (\<forall>z. int_map self' z = (if n = z then Some v else int_map self z)) \<and>
    (r = FRT_HASH_KEY_DOES_NOT_EXIST \<longleftrightarrow> int_map self n = None) \<and>
    (case int_map self n of None \<Rightarrow> h_freed self' = h_freed self
     | Some w \<Rightarrow> h_freed self' = h_freed self @ (if h_free_value_i self \<and> w \<noteq> v then [FreeValue w] else []))"
proof (cases "int_map self n")
  case None
  from int_set_ext_new [OF I None small] show ?thesis by (auto simp: frt_h_set_int_def Let_def None)
next
  case (Some w)
  from I Some show ?thesis
  proof (rule int_set_ext_old)
    fix j
    assume j: "frt_h_set_ext self (PInt n) = Inr (False, j, self)" "j < length (h_table self)"
      "he_active (h_table self ! j)" "he_hash (h_table self ! j) = n" "he_value (h_table self ! j) = w"
    define self1 where "self1 = (if w \<noteq> v then free_value_i self w else self)"
    have 1: "int_table self1" "int_map self1 = int_map self" "h_table self1 = h_table self"
      "h_freed self1 = h_freed self @ (if h_free_value_i self \<and> w \<noteq> v then [FreeValue w] else [])"
      using I by (auto simp: self1_def int_free_frame)
    have "frt_h_set_int self n v = Inr (FRT_HASH_KEY_EQUAL, set_entry self1 j PDummyInt v)"
      using j by (simp add: frt_h_set_int_def Let_def self1_def)
    then show ?thesis using int_replace [OF 1(1), of j n PDummyInt v] j 1 Some by auto
  qed
qed

lemma int_del_ok:
  assumes I: "int_table self"
  shows "\<exists>self'. frt_h_del_int self n = Inr (int_map self n \<noteq> None, self') \<and> int_table self' \<and>
    (\<forall>z. int_map self' z = (if n = z then None else int_map self z)) \<and>
    h_size self' = h_size self - (if int_map self n = None then 0 else 1)"
  using I
proof (cases rule: int_lookup_cases [where n = n])
  case (hit j)
  define self1 where "self1 = free_value_i (free_key_i self (he_key (h_table self ! j))) (he_value (h_table self ! j))"
  have 1: "int_table self1" "int_map self1 = int_map self" "h_table self1 = h_table self" "h_size self1 = h_size self"
    using I by (auto simp: self1_def int_free_frame)
  have "frt_h_del_int self n = Inr (True, self1\<lparr>h_table := (h_table self1)[j := (h_table self1 ! j)
      \<lparr>he_key := PDummy, he_value := None\<rparr>], h_size := h_size self1 - 1\<rparr>)"
    using hit(1,3) 1(3) by (simp add: frt_h_del_int_def frt_h_del_def Let_def self1_def he_active_def)
  then show ?thesis using int_del [OF 1(1), of j n] hit 1 by auto
next
  case (miss j)
  then have "frt_h_del_int self n = Inr (False, claim_slot self j n)"
    by (auto simp: frt_h_del_int_def frt_h_del_def Let_def he_active_def)
  then show ?thesis using int_claim [OF I miss(2,3,5)] miss(5) by auto
qed

lemma int_rem_ok:
  assumes I: "int_table self"
  shows "\<exists>self'. frt_h_rem_int self n = Inr (Option.bind (int_map self n) id, self') \<and> int_table self' \<and>
    (\<forall>z. int_map self' z = (if n = z then None else int_map self z)) \<and> h_freed self' = h_freed self"
  using I
proof (cases rule: int_lookup_cases [where n = n])
  case (hit j)
  then show ?thesis using int_del [OF I hit(2-4)]
    by (simp add: frt_h_rem_int_def frt_h_rem_def Let_def he_active_def)
next
  case (miss j)
  then have "frt_h_rem_int self n = Inr (None, claim_slot self j n)"
    by (auto simp: frt_h_rem_int_def frt_h_rem_def Let_def he_active_def)
  then show ?thesis using int_claim [OF I miss(2,3,5)] miss(5) by auto
qed

text \<open>A new table has no keys; \<open>frt_h_new_ptr\<close> is the macro for \<open>frt_h_new_int\<close>.\<close>

lemma int_table_new:
  fixes self :: "(unit, 'v) frt_hash"
  assumes "self = frt_h_new_int free_value"
  shows "int_table self" and "int_map self n = None" and "h_size self = 0"
proof -
  have tb: "ptr_abs self = (frt_h_new frt_ptr_hash frt_ptr_eq False free_value)"
    by (simp add: assms ptr_abs_def frt_h_new_int_def frt_h_new_def) (simp add: ptr_entry_def empty_entry_def)
  show "int_table self"
    using ptr_keys.frt_h_new_keyed(1) [OF tb]
    by (auto simp: int_table_def assms frt_h_new_int_def frt_h_new_def he_active_def empty_entry_def)
  show "int_map self n = None" using ptr_keys.frt_h_new_keyed(2) [OF tb] by (simp add: int_map_def)
  show "h_size self = 0" by (simp add: assms frt_h_new_int_def frt_h_new_def)
qed

end
