(* ===== verification/FrtIndexNames.thy ===== *)
theory FrtIndexNames
  imports FrtRamDir
begin

text \<open>
  The names of index files in \<open>frt_index.c\<close>: generations in base 36, the names built from them, and the
  filter that tells index files from others.

  \<^item> A C string is the list of its bytes before the NUL. \<open>u64_to_str36\<close> fills a buffer from its end; the
    result is what the returned pointer reads. The names are longer than their parts, and the buffers of the
    callers hold 100 characters; that the parts fit is the business of the callers.
  \<^item> An \<open>frt_i64\<close> is an \<open>int\<close>; the casts to and from \<open>frt_u64\<close> are written out.
  \<^item> The lemmas: a generation is read back from its digits, 13 of them at most, so that names of different
    generations differ and writing them never raises.
\<close>

section \<open>The code\<close>

definition str :: "string \<Rightarrow> byte list" where
  "str s = map of_char s"

definition FRT_SEGMENT_NAME_MAX_LENGTH :: nat where
  "FRT_SEGMENT_NAME_MAX_LENGTH = 100"

definition FRT_SEGMENTS_FILE_NAME :: "byte list" where
  "FRT_SEGMENTS_FILE_NAME = str ''segments''"

definition SEGMENTS_GEN_FILE_NAME :: "byte list" where
  "SEGMENTS_GEN_FILE_NAME = str ''segments''"

definition INDEX_EXTENSIONS :: "byte list list" where
  "INDEX_EXTENSIONS = map str [''frq'', ''prx'', ''fdx'', ''fdt'', ''tfx'', ''tix'', ''tis'', ''del'', ''gen'', ''cfs'']"

definition COMPOUND_EXTENSIONS :: "byte list list" where
  "COMPOUND_EXTENSIONS = map str [''frq'', ''prx'', ''fdx'', ''fdt'', ''tfx'', ''tix'', ''tis'']"

definition BASE36_DIGITMAP :: "byte list" where
  "BASE36_DIGITMAP = str ''0123456789abcdefghijklmnopqrstuvwxyz''"

text \<open>The first argument is the number of free places in front of what is written.\<close>

fun u64_to_str36_loop :: "nat \<Rightarrow> u64 \<Rightarrow> byte list \<Rightarrow> u64 \<times> byte list" where
  "u64_to_str36_loop 0 u s = (u, s)"
| "u64_to_str36_loop (Suc i) u s =
     (let s = BASE36_DIGITMAP ! unat (u mod 36) # s; u = u div 36
      in if u = 0 then (u, s) else u64_to_str36_loop i u s)"

definition u64_to_str36 :: "nat \<Rightarrow> u64 \<Rightarrow> byte list res" where
  "u64_to_str36 buf_size u =
     (let (u, s) = u64_to_str36_loop (buf_size - 1) u [] in if 0 < u then Inl FRT_INDEX_ERROR else Inr s)"

fun str36_loop :: "u64 \<Rightarrow> byte list \<Rightarrow> u64" where
  "str36_loop u [] = u"
| "str36_loop u (c # p) =
     (if 48 \<le> c \<and> c \<le> 57 then str36_loop (u * 36 + ucast c - 48) p
      else if 97 \<le> c \<and> c \<le> 122 then str36_loop (u * 36 + ucast c - 97 + 10) p
      else u)"

definition str36_to_u64 :: "byte list \<Rightarrow> u64" where
  "str36_to_u64 p = str36_loop 0 p"

text \<open>\<open>None\<close> is the \<open>NULL\<close> the functions return for generation \<open>-1\<close>.\<close>

definition frt_fn_for_generation :: "byte list \<Rightarrow> byte list option \<Rightarrow> int \<Rightarrow> byte list option res" where
  "frt_fn_for_generation base ext gen =
     (if gen = - 1 then Inr None
      else ebind (u64_to_str36 FRT_SEGMENT_NAME_MAX_LENGTH (word_of_int gen)) (\<lambda>u.
        Inr (Some (if ext = None \<or> ext = Some [] then base @ str ''_'' @ u else base @ str ''_'' @ u @ str ''.'' @ the ext))))"

definition segfn_for_generation :: "u64 \<Rightarrow> byte list res" where
  "segfn_for_generation generation =
     ebind (u64_to_str36 FRT_SEGMENT_NAME_MAX_LENGTH generation) (\<lambda>u. Inr (FRT_SEGMENTS_FILE_NAME @ str ''_'' @ u))"

text \<open>\<open>%d\<close>\<close>

fun dec_nat :: "nat \<Rightarrow> byte list" where
  "dec_nat n = (if n < 10 then [48 + of_nat n] else dec_nat (n div 10) @ [48 + of_nat (n mod 10)])"

declare dec_nat.simps [simp del]

definition dec_int :: "int \<Rightarrow> byte list" where
  "dec_int i = (if i < 0 then 45 # dec_nat (nat (- i)) else dec_nat (nat i))"

definition fn_for_gen_field :: "byte list \<Rightarrow> byte list \<Rightarrow> int \<Rightarrow> int \<Rightarrow> byte list option res" where
  "fn_for_gen_field base ext gen field_num =
     (if gen = - 1 then Inr None
      else ebind (u64_to_str36 FRT_SEGMENT_NAME_MAX_LENGTH (word_of_int gen)) (\<lambda>u.
        Inr (Some (base @ str ''_'' @ u @ str ''.'' @ ext @ dec_int field_num))))"

text \<open>\<open>*(--fn_p) = '_'\<close> needs a free place in front of the digits.\<close>

definition new_segment :: "int \<Rightarrow> byte list res" where
  "new_segment generation =
     ebind (u64_to_str36 (FRT_SEGMENT_NAME_MAX_LENGTH - 1) (word_of_int generation)) (\<lambda>fn_p.
       if length fn_p < FRT_SEGMENT_NAME_MAX_LENGTH - 1 - 1 then Inr (str ''_'' @ fn_p) else Inl UndefinedBehaviour)"

text \<open>\<open>strrchr\<close>: the string in front of the last \<open>c\<close> and the one behind it.\<close>

fun strrchr :: "byte \<Rightarrow> byte list \<Rightarrow> (byte list \<times> byte list) option" where
  "strrchr c [] = None"
| "strrchr c (x # s) = (case strrchr c s of Some (us, vs) \<Rightarrow> Some (x # us, vs)
     | None \<Rightarrow> if x = c then Some ([], s) else None)"

definition which_gen_i :: "byte list \<Rightarrow> int \<Rightarrow> int" where
  "which_gen_i file_name max_generation =
     (if take (length FRT_SEGMENTS_FILE_NAME + 1) file_name = FRT_SEGMENTS_FILE_NAME @ str ''_'' then
        (case strrchr 95 file_name of
           Some (_, p) \<Rightarrow> (let generation = sint (str36_to_u64 p)
             in if generation > max_generation then generation else max_generation)
         | None \<Rightarrow> max_generation)
      else max_generation)"

definition frt_sis_current_segment_generation :: "byte list list \<Rightarrow> int" where
  "frt_sis_current_segment_generation names = fold which_gen_i names (- 1)"

definition frt_sis_curr_seg_file_name :: "byte list list \<Rightarrow> byte list res" where
  "frt_sis_curr_seg_file_name names = segfn_for_generation (word_of_int (frt_sis_current_segment_generation names))"

section \<open>The filter of file names\<close>

text \<open>
  The table \<open>fn_extensions\<close> is set up once; keys are the literals of the array (address 0). A lookup leaves its
  map as it is, so the table it returns is dropped.
\<close>

definition file_name_filter_init :: "(cstr, byte list) frt_hash res" where
  "file_name_filter_init =
     fold (\<lambda>e r. ebind r (\<lambda>ht. ebind (frt_h_set ht (PKey (0, e)) (Some e)) (\<lambda>(_, ht). Inr ht))) INDEX_EXTENSIONS
       (Inr (frt_h_new_str False False))"

definition digit_char :: "byte \<Rightarrow> bool" where
  "digit_char c \<longleftrightarrow> 48 \<le> c \<and> c \<le> 57"

text \<open>The characters behind the end of the extension read as NUL.\<close>

definition char_at :: "byte list \<Rightarrow> nat \<Rightarrow> byte" where
  "char_at s i = (if i < length s then s ! i else 0)"

definition frt_file_name_filter_is_index_file :: "(cstr, byte list) frt_hash \<Rightarrow> byte list \<Rightarrow> bool \<Rightarrow> bool res" where
  "frt_file_name_filter_is_index_file fn_extensions file_name include_locks =
     (case strrchr 46 file_name of
        Some (_, extension) \<Rightarrow>
          ebind (frt_h_get fn_extensions (PKey (0, extension))) (\<lambda>(v, _).
            Inr (v \<noteq> None \<or> ((char_at extension 0 = 102 \<or> char_at extension 0 = 115) \<and> digit_char (char_at extension 1)) \<or>
              include_locks \<and> extension = str ''lck'' \<and> take 6 file_name = str ''ferret''))
      | None \<Rightarrow> Inr (take (length FRT_SEGMENTS_FILE_NAME) file_name = FRT_SEGMENTS_FILE_NAME))"

definition file_name_filter_is_cfs_file :: "(cstr, byte list) frt_hash \<Rightarrow> byte list \<Rightarrow> bool res" where
  "file_name_filter_is_cfs_file fn_extensions file_name =
     (case strrchr 46 file_name of
        Some (_, extension) \<Rightarrow>
          ebind (frt_h_get fn_extensions (PKey (0, extension))) (\<lambda>(v, _).
            Inr (v \<noteq> None \<and> extension \<noteq> str ''del'' \<and> extension \<noteq> str ''gen'' \<and> extension \<noteq> str ''cfs'' \<or>
              char_at extension 0 = 102 \<and> digit_char (char_at extension 1)))
      | None \<Rightarrow> Inr False)"

section \<open>Digits\<close>

definition digit36 :: "nat \<Rightarrow> byte" where
  "digit36 d = BASE36_DIGITMAP ! d"

fun digits36 :: "nat \<Rightarrow> byte list" where
  "digits36 n = (if n < 36 then [digit36 n] else digits36 (n div 36) @ [digit36 (n mod 36)])"

declare digits36.simps [simp del]

lemma str_simps [simp]: "str [] = []" "str (c # cs) = of_char c # str cs"
  by (simp_all add: str_def)

lemma BASE36_DIGITMAP_eq: "BASE36_DIGITMAP = map (\<lambda>d. 48 + of_nat d) [0..<10] @ map (\<lambda>d. 87 + of_nat d) [10..<36]"
  by (simp add: BASE36_DIGITMAP_def upt_conv_Cons)

lemma nth_two_maps: "d < m + k \<Longrightarrow> (map f [0..<m] @ map g [m..<m + k]) ! d = (if d < m then f d else g d)"
  by (auto simp: nth_append)

lemma digit36_eq: "d < 36 \<Longrightarrow> digit36 d = (if d < 10 then 48 + of_nat d else 87 + of_nat d)"
  using nth_two_maps [of d 10 26 "\<lambda>d. 48 + of_nat d" "\<lambda>d. 87 + of_nat d"]
  by (simp add: digit36_def BASE36_DIGITMAP_eq del: list.map append.simps)

lemma unat_digit36: "d < 36 \<Longrightarrow> unat (digit36 d) = (if d < 10 then 48 + d else 87 + d)"
  by (simp add: digit36_eq unat_word_ariths unat_of_nat)

lemma str36_loop_digit: "d < 36 \<Longrightarrow> str36_loop u (digit36 d # p) = str36_loop (u * 36 + of_nat d) p"
proof -
  assume d: "d < 36"
  have u: "(ucast (digit36 d) :: u64) = of_nat (if d < 10 then 48 + d else 87 + d)"
  proof -
    have "(ucast (digit36 d) :: u64) = of_nat (unat (digit36 d))" by simp
    then show ?thesis unfolding unat_digit36 [OF d] .
  qed
  have "48 \<le> digit36 d \<and> digit36 d \<le> 57 \<longleftrightarrow> d < 10" "97 \<le> digit36 d \<and> digit36 d \<le> 122 \<longleftrightarrow> \<not> d < 10"
    using d unat_digit36 [OF d] by (auto simp: word_le_nat_alt)
  then show ?thesis using u by (simp add: algebra_simps)
qed

lemma str36_loop_digits: "str36_loop 0 (digits36 n @ p) = str36_loop (of_nat n) p"
proof (induction n arbitrary: p rule: digits36.induct)
  case (1 n)
  show ?case
  proof (cases "n < 36")
    case True
    then show ?thesis using str36_loop_digit [of n 0 p] by (simp add: digits36.simps del: str36_loop.simps)
  next
    case False
    have "(of_nat (n div 36) * 36 + of_nat (n mod 36) :: u64) = of_nat (n div 36 * 36 + n mod 36)"
      by (simp only: of_nat_add of_nat_mult of_nat_numeral)
    then show ?thesis using False 1 [of "digit36 (n mod 36) # p"]
      by (subst digits36.simps) (simp add: str36_loop_digit del: str36_loop.simps)
  qed
qed

lemma length_digits36_gt: "0 < k \<Longrightarrow> n < 36 ^ k \<Longrightarrow> length (digits36 n) \<le> k"
proof (induction k arbitrary: n)
  case (Suc k)
  show ?case
  proof (cases "n < 36")
    case False
    then have "n div 36 < 36 ^ k" "0 < k" using Suc.prems by (auto simp: less_mult_imp_div_less intro: Nat.gr0I)
    with Suc.IH False show ?thesis by (subst digits36.simps) simp
  qed (simp add: digits36.simps)
qed simp

lemma unat_div_36: "unat (u div 36 :: u64) = unat u div 36" "unat (u mod 36 :: u64) = unat u mod 36"
  by (simp_all add: unat_div unat_mod)

lemma u64_to_str36_loop_ok:
  "0 < k \<Longrightarrow> unat u < 36 ^ k \<Longrightarrow> u64_to_str36_loop k u s = (0, digits36 (unat u) @ s)"
proof (induction k arbitrary: u s)
  case (Suc k)
  have d: "BASE36_DIGITMAP ! unat (u mod 36) = digit36 (unat u mod 36)" by (simp add: digit36_def unat_div_36)
  have z: "u div 36 = 0 \<longleftrightarrow> unat u < 36" using unat_div_36(1) [of u] by (auto simp: unat_eq_0 [symmetric])
  show ?case
  proof (cases "unat u < 36")
    case True
    then show ?thesis using z d by (simp add: Let_def digits36.simps)
  next
    case False
    then have k: "unat u div 36 < 36 ^ k" "0 < k"
      using Suc.prems by (auto simp: less_mult_imp_div_less intro: Nat.gr0I)
    then have "u64_to_str36_loop k (u div 36) (digit36 (unat u mod 36) # s) = (0, digits36 (unat u div 36) @ digit36 (unat u mod 36) # s)"
      using Suc.IH [of "u div 36"] by (simp add: unat_div_36)
    moreover have "digits36 (unat u) = digits36 (unat u div 36) @ [digit36 (unat u mod 36)]"
      using False by (subst digits36.simps) simp
    ultimately show ?thesis using False z d by (simp add: Let_def)
  qed
qed simp

text \<open>Every \<open>frt_u64\<close> fits 13 digits.\<close>

lemma u64_to_str36_ok: "14 \<le> buf_size \<Longrightarrow> u64_to_str36 buf_size u = Inr (digits36 (unat u))"
proof -
  assume b: "14 \<le> buf_size"
  have "unat u < 36 ^ 13" using unat_bound [of u] by simp
  also have "(36 :: nat) ^ 13 \<le> 36 ^ (buf_size - 1)" using b by (intro power_increasing) auto
  finally show ?thesis using b by (simp add: u64_to_str36_def u64_to_str36_loop_ok)
qed

lemma length_digits36: "length (digits36 (unat (u :: u64))) \<le> 13"
  using unat_bound [of u] by (intro length_digits36_gt) simp_all

lemma str36_to_u64_digits: "str36_to_u64 (digits36 (unat u)) = u"
  using str36_loop_digits [of "unat u" "[]"] by (simp add: str36_to_u64_def)

lemma digits36_inj: "digits36 (unat (u :: u64)) = digits36 (unat v) \<longleftrightarrow> u = v"
  by (metis str36_to_u64_digits)

section \<open>Names\<close>

lemma segfn_ok: "segfn_for_generation g = Inr (str ''segments_'' @ digits36 (unat g))"
  by (simp add: segfn_for_generation_def u64_to_str36_ok FRT_SEGMENT_NAME_MAX_LENGTH_def FRT_SEGMENTS_FILE_NAME_def)

lemma new_segment_ok: "new_segment g = Inr (95 # digits36 (unat (word_of_int g :: u64)))"
  using length_digits36 [of "word_of_int g"]
  by (simp add: new_segment_def u64_to_str36_ok FRT_SEGMENT_NAME_MAX_LENGTH_def)

lemma frt_fn_for_generation_ok:
  "gen \<noteq> - 1 \<Longrightarrow> ext \<noteq> [] \<Longrightarrow> frt_fn_for_generation base (Some ext) gen =
    Inr (Some (base @ 95 # digits36 (unat (word_of_int gen :: u64)) @ 46 # ext))"
  by (simp add: frt_fn_for_generation_def u64_to_str36_ok FRT_SEGMENT_NAME_MAX_LENGTH_def)

lemma fn_for_gen_field_ok:
  "gen \<noteq> - 1 \<Longrightarrow> fn_for_gen_field base ext gen field_num =
    Inr (Some (base @ 95 # digits36 (unat (word_of_int gen :: u64)) @ 46 # ext @ dec_int field_num))"
  by (simp add: fn_for_gen_field_def u64_to_str36_ok FRT_SEGMENT_NAME_MAX_LENGTH_def)

text \<open>The part behind the last separator.\<close>

lemma strrchr_None: "strrchr c s = None \<longleftrightarrow> c \<notin> set s"
  by (induction s) (auto split: option.split)

lemma strrchr_append: "c \<notin> set vs \<Longrightarrow> strrchr c (us @ c # vs) = Some (us, vs)"
proof (induction us)
  case Nil
  then show ?case using strrchr_None [of c vs] by simp
qed simp

lemma strrchr_Some: "strrchr c s = Some (us, vs) \<Longrightarrow> s = us @ c # vs \<and> c \<notin> set vs"
  by (induction s arbitrary: us) (auto simp: strrchr_None split: option.splits if_splits)

lemma digit36_char: "d < 36 \<Longrightarrow> 48 \<le> digit36 d \<and> digit36 d \<noteq> 95 \<and> digit36 d \<noteq> 46"
proof -
  assume d: "d < 36"
  have "unat (digit36 d) \<noteq> 95" "unat (digit36 d) \<noteq> 46" "48 \<le> unat (digit36 d)"
    using unat_digit36 [OF d] d by auto
  then show ?thesis by (auto simp: word_le_nat_alt)
qed

lemma digits36_chars: "c \<in> set (digits36 n) \<Longrightarrow> c \<noteq> 95 \<and> c \<noteq> 46"
proof (induction n rule: digits36.induct)
  case (1 n)
  then show ?case
    using digit36_char [of n] digit36_char [of "n mod 36"] by (subst (asm) digits36.simps) (auto split: if_splits)
qed

section \<open>The newest generation\<close>

text \<open>\<open>seg_gen_of n\<close>: the generation that the file name \<open>n\<close> stands for, if it is one of a segments file.\<close>

definition seg_gen_of :: "byte list \<Rightarrow> int option" where
  "seg_gen_of n = (if take 9 n = str ''segments_''
     then Some (sint (str36_to_u64 (snd (the (strrchr 95 n))))) else None)"

lemma segments_file_length [simp]: "length FRT_SEGMENTS_FILE_NAME = 8" "length FRT_SEGMENTS_FILE_NAME + 1 = 9"
    "Suc (length FRT_SEGMENTS_FILE_NAME) = 9"
  by (simp_all add: FRT_SEGMENTS_FILE_NAME_def)

lemma segments_underscore: "FRT_SEGMENTS_FILE_NAME @ str ''_'' = str ''segments_''"
  by (simp add: FRT_SEGMENTS_FILE_NAME_def)

lemma which_gen_i_eq: "which_gen_i n m = (case seg_gen_of n of None \<Rightarrow> m | Some g \<Rightarrow> max g m)"
proof (cases "take 9 n = str ''segments_''")
  case True
  then have n: "n = str ''segments_'' @ drop 9 n" by (metis append_take_drop_id)
  have "95 \<in> set (str ''segments_'' @ drop 9 n)" by simp
  then have "95 \<in> set n" by (simp only: n [symmetric])
  then obtain us vs where "strrchr 95 n = Some (us, vs)" using strrchr_None [of 95 n] by auto
  then show ?thesis using True unfolding which_gen_i_def seg_gen_of_def segments_underscore by (simp add: Let_def)
qed (simp add: which_gen_i_def seg_gen_of_def segments_underscore del: str_simps)

lemma current_generation_max:
  "frt_sis_current_segment_generation names = Max (insert (- 1) {g. \<exists>n \<in> set names. seg_gen_of n = Some g})"
proof -
  have "fold which_gen_i names m = Max (insert m {g. \<exists>n \<in> set names. seg_gen_of n = Some g})" for m
  proof (induction names arbitrary: m)
    case (Cons n names)
    have fin: "finite {g. \<exists>n \<in> set names. seg_gen_of n = Some g}"
      by (rule finite_subset [of _ "(\<lambda>n. the (seg_gen_of n)) ` set names"]) (auto simp: image_iff, force)
    show ?case
    proof (cases "seg_gen_of n")
      case None
      then have "{g. \<exists>x \<in> set (n # names). seg_gen_of x = Some g} = {g. \<exists>x \<in> set names. seg_gen_of x = Some g}" by auto
      then show ?thesis using Cons.IH [of m] None by (simp add: which_gen_i_eq)
    next
      case (Some g)
      then have "{g. \<exists>x \<in> set (n # names). seg_gen_of x = Some g} = insert g {g. \<exists>x \<in> set names. seg_gen_of x = Some g}" by auto
      then show ?thesis using Cons.IH [of "max g m"] Some fin
        by (simp add: which_gen_i_eq) (cases "{g. \<exists>x \<in> set names. seg_gen_of x = Some g} = {}"; simp add: max.assoc max.commute max.left_commute)
    qed
  qed simp
  then show ?thesis by (simp add: frt_sis_current_segment_generation_def)
qed

lemma which_gen_fold_le: "m \<le> fold which_gen_i names m"
proof (induction names arbitrary: m)
  case (Cons n names)
  have "m \<le> which_gen_i n m" by (simp add: which_gen_i_eq split: option.split)
  with Cons.IH [of "which_gen_i n m"] show ?case by simp
qed simp

lemma current_generation_le:
  assumes "n \<in> set names" and "seg_gen_of n = Some g"
  shows "g \<le> frt_sis_current_segment_generation names"
proof -
  from assms(1) obtain us vs where "names = us @ n # vs" by (auto simp: in_set_conv_decomp)
  then show ?thesis using assms(2) which_gen_fold_le [of "max g (fold which_gen_i us (- 1))" vs]
    by (simp add: frt_sis_current_segment_generation_def which_gen_i_eq)
qed

lemma seg_gen_of_segfn: "seg_gen_of (str ''segments_'' @ digits36 (unat (g :: u64))) = Some (sint g)"
proof -
  have "strrchr 95 (digits36 (unat g)) = None" using digits36_chars by (auto simp: strrchr_None)
  then show ?thesis by (simp add: seg_gen_of_def str36_to_u64_digits)
qed

section \<open>The names a RAM store lists\<close>

lemma ram_each_loop_ok:
  assumes "\<forall>he \<in> set tb. \<forall>r. he_value he = Some r \<longrightarrow> rh_files w r \<noteq> None"
  shows "\<exists>names. ram_each_loop tb w = Inr names \<and> snd ` set names =
    {n. take (length FRT_LOCK_PREFIX) n \<noteq> FRT_LOCK_PREFIX \<and>
        (\<exists>he \<in> set tb. \<exists>r rf. he_value he = Some r \<and> rh_files w r = Some rf \<and> snd (rf_name rf) = n)}"
  using assms
proof (induction tb)
  case (Cons he tb)
  obtain names where IH: "ram_each_loop tb w = Inr names" "snd ` set names =
    {n. take (length FRT_LOCK_PREFIX) n \<noteq> FRT_LOCK_PREFIX \<and>
        (\<exists>he \<in> set tb. \<exists>r rf. he_value he = Some r \<and> rh_files w r = Some rf \<and> snd (rf_name rf) = n)}"
    using Cons.IH Cons.prems by auto
  show ?case
  proof (cases "he_value he")
    case None
    then show ?thesis using IH by simp
  next
    case (Some r)
    from Cons.prems Some obtain rf where rf: "rh_files w r = Some rf" by auto
    show ?thesis
    proof (cases "take (length FRT_LOCK_PREFIX) (snd (rf_name rf)) = FRT_LOCK_PREFIX")
      case True
      then show ?thesis using IH Some rf by (auto simp: rf_get_def)
    next
      case False
      then show ?thesis using IH Some rf by (auto simp: rf_get_def)
    qed
  qed
qed simp

lemma ram_each_ok:
  assumes S: "ram_ok store w"
  obtains names where "ram_each store w = Inr names"
    and "snd ` set names = {n. take (length FRT_LOCK_PREFIX) n \<noteq> FRT_LOCK_PREFIX \<and> ram_dir store w n \<noteq> None}"
proof -
  let ?ht = "dir_ht store"
  have T: "tab_ok ?ht" and files: "\<And>n r. ref_of ?ht n = Some r \<Longrightarrow> file_ok w n r" using S by (auto simp: ram_ok_def)
  have K: "str_keys.keyed ?ht" using T by (simp add: tab_ok_def)
  note inv = str_keys.keyedD(1) [OF K]
  have active: "\<exists>n. ref_of ?ht n = Some r" if "he \<in> set (h_table ?ht)" "he_value he = Some r" for he r
  proof -
    from that obtain j where j: "j < length (h_table ?ht)" "he = h_table ?ht ! j" by (auto simp: in_set_conv_nth)
    have "he_active (h_table ?ht ! j)" using str_keys.inactive_entry(1) [OF inv j(1)] that j by auto
    then obtain x where x: "he_key (h_table ?ht ! j) = PKey x" using tab_invD(2) [OF inv j(1)]
      by (auto simp: entry_ok_def he_active_def split: voidp.splits)
    then have "has_key str_eq x (h_table ?ht ! j)" by (simp add: has_key_def str_eq_def)
    then have "h_map ?ht x = Some (Some r)" using str_keys.inv_Some [OF inv j(1)] that j
      by (simp add: str_keys.keyedD(5) [OF K])
    then show ?thesis using ref_of_chars [OF T, of x] by (intro exI [of _ "snd x"]) simp
  qed
  have found: "\<exists>he \<in> set (h_table ?ht). he_value he = Some r" if "ref_of ?ht n = Some r" for n r
    using that by (auto simp: ref_of_def h_map_def tab_map_def find_Some_iff bind_eq_Some_conv dest!: nth_mem)
  obtain names where names: "ram_each_loop (h_table ?ht) w = Inr names" "snd ` set names =
    {n. take (length FRT_LOCK_PREFIX) n \<noteq> FRT_LOCK_PREFIX \<and>
        (\<exists>he \<in> set (h_table ?ht). \<exists>r rf. he_value he = Some r \<and> rh_files w r = Some rf \<and> snd (rf_name rf) = n)}"
  proof -
    have "\<forall>he \<in> set (h_table ?ht). \<forall>r. he_value he = Some r \<longrightarrow> rh_files w r \<noteq> None"
      using active files by (fastforce simp: file_ok_def)
    from ram_each_loop_ok [OF this] that show thesis by blast
  qed
  have "(\<exists>he \<in> set (h_table ?ht). \<exists>r rf. he_value he = Some r \<and> rh_files w r = Some rf \<and> snd (rf_name rf) = n) \<longleftrightarrow>
      ram_dir store w n \<noteq> None" for n
  proof
    assume "\<exists>he \<in> set (h_table ?ht). \<exists>r rf. he_value he = Some r \<and> rh_files w r = Some rf \<and> snd (rf_name rf) = n"
    then obtain he r rf where h: "he \<in> set (h_table ?ht)" "he_value he = Some r" "rh_files w r = Some rf" "snd (rf_name rf) = n" by blast
    from active [OF h(1,2)] obtain n' where "ref_of ?ht n' = Some r" by blast
    with files [OF this] h show "ram_dir store w n \<noteq> None" by (auto simp: file_ok_def ram_dir_def)
  next
    assume "ram_dir store w n \<noteq> None"
    then obtain r where r: "ref_of ?ht n = Some r" by (auto simp: ram_dir_def)
    from found [OF r] files [OF r] show "\<exists>he \<in> set (h_table ?ht). \<exists>r rf. he_value he = Some r \<and> rh_files w r = Some rf \<and> snd (rf_name rf) = n"
      by (auto simp: file_ok_def)
  qed
  with names that show thesis by (simp add: ram_each_def)
qed

section \<open>The filter\<close>

lemma str_keys_fold_set:
  assumes "str_keys.keyed ht" and "h_size ht + int (length es) < 2 ^ 28"
  shows "\<exists>ht'. fold (\<lambda>e r. ebind r (\<lambda>ht. ebind (frt_h_set ht (PKey (0, e)) (Some e)) (\<lambda>(_, ht). Inr ht))) es (Inr ht) = Inr ht' \<and>
    str_keys.keyed ht' \<and> (\<forall>x. h_map ht' x = (if snd x \<in> set es then Some (Some (snd x)) else h_map ht x))"
  using assms
proof (induction es arbitrary: ht)
  case (Cons e es)
  from Cons.prems have "h_size ht < 2 ^ 28" by simp
  note set = str_keys.frt_h_set_ok [OF Cons.prems(1) this, of "(0, e)" "Some e"]
  obtain r ht1 where
    1: "frt_h_set ht (PKey (0, e)) (Some e) = Inr (r, ht1)" "str_keys.keyed ht1"
      "\<forall>z. h_map ht1 z = (if str_eq (0, e) z then Some (Some e) else h_map ht z)"
      "h_size ht1 = h_size ht + (if h_map ht (0, e) = None then 1 else 0)"
    using set by (elim exE conjE) (rule that; assumption)
  have "h_size ht1 + int (length es) < 2 ^ 28" using 1(4) Cons.prems(2) by (simp split: if_splits)
  from Cons.IH [OF 1(2) this] 1(1,3) show ?case by (auto simp: str_eq_def cong: if_cong)
qed simp

text \<open>A file is an index file by its extension, a field's norms included, or without one by the name of the segments file.\<close>

definition is_index_name :: "byte list \<Rightarrow> bool" where
  "is_index_name n = (case strrchr 46 n of
     Some (_, e) \<Rightarrow> e \<in> set INDEX_EXTENSIONS \<or> (char_at e 0 = 102 \<or> char_at e 0 = 115) \<and> digit_char (char_at e 1)
   | None \<Rightarrow> take 8 n = FRT_SEGMENTS_FILE_NAME)"

lemma file_name_filter_init_ok:
  obtains ht where "file_name_filter_init = Inr ht" "str_keys.keyed ht"
    "\<And>x. h_map ht x = (if snd x \<in> set INDEX_EXTENSIONS then Some (Some (snd x)) else None)"
proof -
  let ?ht = "frt_h_new_str False False :: (cstr, byte list) frt_hash"
  have "str_table ?ht" "\<And>x. h_map ?ht x = None" "h_size ?ht = 0" by (simp_all add: str_table_new)
  then have K: "str_keys.keyed ?ht" and M: "\<And>x. h_map ?ht x = None" and Z: "h_size ?ht = 0" by (simp_all add: str_table_keyed)
  have "length INDEX_EXTENSIONS = 10" by (simp add: INDEX_EXTENSIONS_def)
  then show thesis using str_keys_fold_set [OF K, of INDEX_EXTENSIONS] that M Z
    by (auto simp: file_name_filter_init_def)
qed

lemma frt_h_get_extension:
  assumes "str_keys.keyed ht" and "\<And>x. h_map ht x = (if snd x \<in> set INDEX_EXTENSIONS then Some (Some (snd x)) else None)"
  shows "\<exists>ht'. frt_h_get ht (PKey (0, e)) = Inr (if e \<in> set INDEX_EXTENSIONS then Some e else None, ht')"
  using str_keys.frt_h_get_ok [OF assms(1), of "(0, e)"] by (auto simp: assms(2))

lemma is_index_file_ok:
  "file_name_filter_init = Inr ht \<Longrightarrow> frt_file_name_filter_is_index_file ht n False = Inr (is_index_name n)"
proof -
  assume i: "file_name_filter_init = Inr ht"
  then have K: "str_keys.keyed ht" "\<And>x. h_map ht x = (if snd x \<in> set INDEX_EXTENSIONS then Some (Some (snd x)) else None)"
    using file_name_filter_init_ok by (metis Inr_inject)+
  show ?thesis
  proof (cases "strrchr 46 n")
    case None
    then show ?thesis by (simp add: frt_file_name_filter_is_index_file_def is_index_name_def)
  next
    case (Some p)
    obtain us e where "p = (us, e)" by fastforce
    then show ?thesis using Some frt_h_get_extension [OF K, of e]
      by (auto simp: frt_file_name_filter_is_index_file_def is_index_name_def)
  qed
qed

end
