(* ===== verification/FrtFieldInfos.thy ===== *)
theory FrtFieldInfos
  imports FrtIndexNames FrtHashInt
begin

unbundle bit_operations_syntax

text \<open>
  The fields of an index, \<open>FrtFieldInfo\<close> and \<open>FrtFieldInfos\<close> of \<open>frt_index.h\<close> and \<open>frt_index.c\<close>: their
  flags, the table of fields by name, and how they are written to and read from a file.

  \<^item> A name is an \<open>ID\<close> of the Ruby interpreter, a number other than 0. \<open>rb_id2name\<close> and \<open>rb_intern\<close> are parameters; the
    round trip relies on \<open>rb_intern (rb_id2name n) = n\<close>, which is what interning means.
  \<^item> \<open>fi_boost\<close> is the bit pattern of the \<open>float\<close>: the code moves it through a union.
  \<^item> \<open>fis_fields\<close> is the array \<open>fields\<close> up to \<open>size\<close>; the table \<open>field_dict\<close> maps a name to the position of its
    field there, where the code has the pointer that the array holds.
  \<^item> \<open>fis_ok\<close> is the invariant: the table and the array agree, and fields are numbered by their position.
\<close>

section \<open>Flags\<close>

definition FRT_FI_IS_STORED_BM :: u32 where "FRT_FI_IS_STORED_BM = 0x001"
definition FRT_FI_IS_COMPRESSED_BM :: u32 where "FRT_FI_IS_COMPRESSED_BM = 0x002"
definition FRT_FI_IS_INDEXED_BM :: u32 where "FRT_FI_IS_INDEXED_BM = 0x004"
definition FRT_FI_IS_TOKENIZED_BM :: u32 where "FRT_FI_IS_TOKENIZED_BM = 0x008"
definition FRT_FI_OMIT_NORMS_BM :: u32 where "FRT_FI_OMIT_NORMS_BM = 0x010"
definition FRT_FI_STORE_TERM_VECTOR_BM :: u32 where "FRT_FI_STORE_TERM_VECTOR_BM = 0x020"
definition FRT_FI_STORE_POSITIONS_BM :: u32 where "FRT_FI_STORE_POSITIONS_BM = 0x040"
definition FRT_FI_STORE_OFFSETS_BM :: u32 where "FRT_FI_STORE_OFFSETS_BM = 0x080"
definition FRT_FI_COMPRESSION_BROTLI_BM :: u32 where "FRT_FI_COMPRESSION_BROTLI_BM = 0x100"
definition FRT_FI_COMPRESSION_BZ2_BM :: u32 where "FRT_FI_COMPRESSION_BZ2_BM = 0x200"
definition FRT_FI_COMPRESSION_LZ4_BM :: u32 where "FRT_FI_COMPRESSION_LZ4_BM = 0x400"

definition bits_is_stored :: "u32 \<Rightarrow> bool" where
  "bits_is_stored bits \<longleftrightarrow> bits AND FRT_FI_IS_STORED_BM \<noteq> 0"

definition bits_is_compressed :: "u32 \<Rightarrow> bool" where
  "bits_is_compressed bits \<longleftrightarrow> bits AND FRT_FI_IS_COMPRESSED_BM \<noteq> 0"

definition bits_is_compressed_brotli :: "u32 \<Rightarrow> bool" where
  "bits_is_compressed_brotli bits \<longleftrightarrow> bits AND FRT_FI_COMPRESSION_BROTLI_BM \<noteq> 0"

definition bits_is_compressed_bz2 :: "u32 \<Rightarrow> bool" where
  "bits_is_compressed_bz2 bits \<longleftrightarrow> bits AND FRT_FI_COMPRESSION_BZ2_BM \<noteq> 0"

definition bits_is_compressed_lz4 :: "u32 \<Rightarrow> bool" where
  "bits_is_compressed_lz4 bits \<longleftrightarrow> bits AND FRT_FI_COMPRESSION_LZ4_BM \<noteq> 0"

definition bits_is_indexed :: "u32 \<Rightarrow> bool" where
  "bits_is_indexed bits \<longleftrightarrow> bits AND FRT_FI_IS_INDEXED_BM \<noteq> 0"

definition bits_is_tokenized :: "u32 \<Rightarrow> bool" where
  "bits_is_tokenized bits \<longleftrightarrow> bits AND FRT_FI_IS_TOKENIZED_BM \<noteq> 0"

definition bits_omit_norms :: "u32 \<Rightarrow> bool" where
  "bits_omit_norms bits \<longleftrightarrow> bits AND FRT_FI_OMIT_NORMS_BM \<noteq> 0"

definition bits_store_term_vector :: "u32 \<Rightarrow> bool" where
  "bits_store_term_vector bits \<longleftrightarrow> bits AND FRT_FI_STORE_TERM_VECTOR_BM \<noteq> 0"

definition bits_store_positions :: "u32 \<Rightarrow> bool" where
  "bits_store_positions bits \<longleftrightarrow> bits AND FRT_FI_STORE_POSITIONS_BM \<noteq> 0"

definition bits_store_offsets :: "u32 \<Rightarrow> bool" where
  "bits_store_offsets bits \<longleftrightarrow> bits AND FRT_FI_STORE_OFFSETS_BM \<noteq> 0"

definition bits_has_norms :: "u32 \<Rightarrow> bool" where
  "bits_has_norms bits \<longleftrightarrow> bits AND (FRT_FI_OMIT_NORMS_BM OR FRT_FI_IS_INDEXED_BM) = FRT_FI_IS_INDEXED_BM"

section \<open>A field\<close>

record field_info =
  fi_name :: u64
  fi_boost :: u32
  fi_bits :: u32
  fi_number :: int
  fi_ref_cnt :: nat

definition fi_check_params :: "u32 \<Rightarrow> unit res" where
  "fi_check_params bits =
     (if \<not> bits_is_indexed bits \<and> bits_store_term_vector bits then Inl FRT_ARG_ERROR
      else if bits_is_compressed bits \<and> \<not> bits_is_stored bits then Inl FRT_ARG_ERROR
      else Inr ())"

definition frt_fi_init :: "u64 \<Rightarrow> u32 \<Rightarrow> field_info res" where
  "frt_fi_init name bits =
     ebind (fi_check_params bits) (\<lambda>_.
       Inr \<lparr>fi_name = name, fi_boost = 0x3F800000, fi_bits = bits, fi_number = 0, fi_ref_cnt = 1\<rparr>)"

definition frt_fi_new :: "u64 \<Rightarrow> u32 \<Rightarrow> field_info res" where
  "frt_fi_new name bits = frt_fi_init name bits"

text \<open>\<open>None\<close>: the field was freed.\<close>

definition frt_fi_deref :: "field_info \<Rightarrow> field_info option" where
  "frt_fi_deref fi = (let fi = fi\<lparr>fi_ref_cnt := fi_ref_cnt fi - 1\<rparr> in if fi_ref_cnt fi = 0 then None else Some fi)"

datatype frt_compression_type =
    FRT_COMPRESSION_NONE
  | FRT_COMPRESSION_BROTLI
  | FRT_COMPRESSION_BZ2
  | FRT_COMPRESSION_LZ4

definition frt_fi_get_compression :: "field_info \<Rightarrow> frt_compression_type" where
  "frt_fi_get_compression fi =
     (if bits_is_compressed (fi_bits fi) then
        if bits_is_compressed_brotli (fi_bits fi) then FRT_COMPRESSION_BROTLI
        else if bits_is_compressed_bz2 (fi_bits fi) then FRT_COMPRESSION_BZ2
        else if bits_is_compressed_lz4 (fi_bits fi) then FRT_COMPRESSION_LZ4
        else FRT_COMPRESSION_BROTLI
      else FRT_COMPRESSION_NONE)"

definition frt_fi_to_s :: "(u64 \<Rightarrow> byte list) \<Rightarrow> field_info \<Rightarrow> byte list" where
  "frt_fi_to_s rb_id2name fi =
     (let s = str ''['' @ [34] @ rb_id2name (fi_name fi) @ [34] @ str '':('' @
              (if bits_is_stored (fi_bits fi) then str ''is_stored, '' else []) @
              (if bits_is_compressed (fi_bits fi) then str ''is_compressed, '' else []) @
              (if bits_is_indexed (fi_bits fi) then str ''is_indexed, '' else []) @
              (if bits_is_tokenized (fi_bits fi) then str ''is_tokenized, '' else []) @
              (if bits_omit_norms (fi_bits fi) then str ''omit_norms, '' else []) @
              (if bits_store_term_vector (fi_bits fi) then str ''store_term_vector, '' else []) @
              (if bits_store_positions (fi_bits fi) then str ''store_positions, '' else []) @
              (if bits_store_offsets (fi_bits fi) then str ''store_offsets, '' else []);
          s = (if s ! (length s - 2) = 44 then take (length s - 2) s else s)
      in s @ str '')]'')"

section \<open>The fields of an index\<close>

definition FIELD_INFOS_INIT_CAPA :: nat where
  "FIELD_INFOS_INIT_CAPA = 4"

record field_infos =
  fis_bits :: u32
  fis_capa :: nat
  fis_fields :: "field_info list"
  fis_dict :: "(unit, nat) frt_hash"
  fis_ref_cnt :: nat

abbreviation fis_size :: "field_infos \<Rightarrow> nat" where
  "fis_size fis \<equiv> length (fis_fields fis)"

definition frt_fis_init :: "u32 \<Rightarrow> field_infos res" where
  "frt_fis_init bits =
     ebind (fi_check_params bits) (\<lambda>_.
       Inr \<lparr>fis_bits = bits, fis_capa = FIELD_INFOS_INIT_CAPA, fis_fields = [], fis_dict = frt_h_new_int True, fis_ref_cnt = 1\<rparr>)"

definition frt_fis_new :: "u32 \<Rightarrow> field_infos res" where
  "frt_fis_new bits = frt_fis_init bits"

definition frt_fis_add_field :: "field_infos \<Rightarrow> field_info \<Rightarrow> (field_info \<times> field_infos) res" where
  "frt_fis_add_field fis fi =
     (let fis = (if fis_size fis = fis_capa fis then fis\<lparr>fis_capa := 2 * fis_capa fis\<rparr> else fis)
      in ebind (frt_h_set_safe (fis_dict fis) (PInt (fi_name fi)) (Some (fis_size fis))) (\<lambda>(added, dict).
           if \<not> added then Inl FRT_ARG_ERROR
           else let fi = fi\<lparr>fi_ref_cnt := fi_ref_cnt fi + 1, fi_number := int (fis_size fis)\<rparr>
             in Inr (fi, fis\<lparr>fis_dict := dict, fis_fields := fis_fields fis @ [fi]\<rparr>)))"

definition frt_fis_get_field :: "field_infos \<Rightarrow> u64 \<Rightarrow> (field_info option \<times> field_infos) res" where
  "frt_fis_get_field fis name =
     ebind (frt_h_get (fis_dict fis) (PInt name)) (\<lambda>(p, dict).
       Inr (map_option (\<lambda>i. fis_fields fis ! i) p, fis\<lparr>fis_dict := dict\<rparr>))"

definition frt_fis_get_field_num :: "field_infos \<Rightarrow> u64 \<Rightarrow> (int \<times> field_infos) res" where
  "frt_fis_get_field_num fis name =
     ebind (frt_h_get (fis_dict fis) (PInt name)) (\<lambda>(p, dict).
       Inr (case p of Some i \<Rightarrow> fi_number (fis_fields fis ! i) | None \<Rightarrow> - 1, fis\<lparr>fis_dict := dict\<rparr>))"

definition frt_fis_get_or_add_field :: "field_infos \<Rightarrow> u64 \<Rightarrow> (field_info \<times> field_infos) res" where
  "frt_fis_get_or_add_field fis name =
     ebind (frt_h_get (fis_dict fis) (PInt name)) (\<lambda>(p, dict).
       let fis = fis\<lparr>fis_dict := dict\<rparr>
       in case p of
            Some i \<Rightarrow> Inr (fis_fields fis ! i, fis)
          | None \<Rightarrow> ebind (frt_fi_new name (fis_bits fis)) (\<lambda>fi. frt_fis_add_field fis fi))"

definition fis_has_vectors :: "field_infos \<Rightarrow> bool" where
  "fis_has_vectors fis \<longleftrightarrow> list_ex (\<lambda>fi. bits_store_term_vector (fi_bits fi)) (fis_fields fis)"

text \<open>\<open>Inl\<close>: the table is still held. \<open>Inr\<close>: it was freed, and these fields are still held.\<close>

definition frt_fis_deref :: "field_infos \<Rightarrow> field_infos + field_info list" where
  "frt_fis_deref fis =
     (let fis = fis\<lparr>fis_ref_cnt := fis_ref_cnt fis - 1\<rparr>
      in if fis_ref_cnt fis = 0 then Inr (List.map_filter frt_fi_deref (fis_fields fis)) else Inl fis)"

section \<open>The file format\<close>

fun fis_write_fields ::
  "('f, 'w) os_methods \<Rightarrow> (u64 \<Rightarrow> byte list) \<Rightarrow> field_info list \<Rightarrow> 'f outstream \<Rightarrow> 'w \<Rightarrow> ('f outstream \<times> 'w) res" where
  "fis_write_fields m rb_id2name [] os w = Inr (os, w)"
| "fis_write_fields m rb_id2name (fi # fis) os w =
     ebind (frt_os_write_string m os (rb_id2name (fi_name fi)) w) (\<lambda>(os, w).
     ebind (frt_os_write_u32 m os (fi_boost fi) w) (\<lambda>(os, w).
     ebind (frt_os_write_vint m os (fi_bits fi) w) (\<lambda>(os, w). fis_write_fields m rb_id2name fis os w)))"

definition frt_fis_write ::
  "('f, 'w) os_methods \<Rightarrow> (u64 \<Rightarrow> byte list) \<Rightarrow> field_infos \<Rightarrow> 'f outstream \<Rightarrow> 'w \<Rightarrow> ('f outstream \<times> 'w) res" where
  "frt_fis_write m rb_id2name fis os w =
     ebind (frt_os_write_vint m os (fis_bits fis) w) (\<lambda>(os, w).
     ebind (frt_os_write_vint m os (of_nat (fis_size fis)) w) (\<lambda>(os, w).
     fis_write_fields m rb_id2name (fis_fields fis) os w))"

text \<open>The first argument is the count \<open>i\<close> of fields left.\<close>

fun fis_read_fields ::
  "nat \<Rightarrow> 'f is_methods \<Rightarrow> (byte list \<Rightarrow> u64) \<Rightarrow> field_infos \<Rightarrow> 'f instream \<Rightarrow> (field_infos \<times> 'f instream) res" where
  "fis_read_fields 0 m rb_intern fis is = Inr (fis, is)"
| "fis_read_fields (Suc i) m rb_intern fis is =
     ebind (frt_is_read_string_safe m is) (\<lambda>(field_name, is).
     ebind (frt_is_read_u32 m is) (\<lambda>(boost, is).
     ebind (frt_is_read_vint m is) (\<lambda>(bits, is).
     ebind (frt_fis_add_field fis \<lparr>fi_name = rb_intern field_name, fi_boost = boost, fi_bits = bits, fi_number = 0, fi_ref_cnt = 0\<rparr>)
       (\<lambda>(fi, fis).
         let fis = fis\<lparr>fis_fields := (fis_fields fis)[nat (fi_number fi) := fi\<lparr>fi_ref_cnt := 1\<rparr>]\<rparr>
         in fis_read_fields i m rb_intern fis is))))"

text \<open>
  When reading the flags or checking them raises, \<open>fis\<close> is still \<open>NULL\<close> and the handler dereferences it. Later errors are
  passed on.
\<close>

definition frt_fis_read :: "'f is_methods \<Rightarrow> (byte list \<Rightarrow> u64) \<Rightarrow> 'f instream \<Rightarrow> (field_infos \<times> 'f instream) res" where
  "frt_fis_read m rb_intern is =
     (case ebind (frt_is_read_vint m is) (\<lambda>(bits, is). ebind (frt_fis_new bits) (\<lambda>fis. Inr (fis, is))) of
        Inl e \<Rightarrow> Inl UndefinedBehaviour
      | Inr (fis, is) \<Rightarrow>
          ebind (frt_is_read_vint m is) (\<lambda>(n, is). fis_read_fields (nat (sint n)) m rb_intern fis is))"

section \<open>The table and the array\<close>

definition fis_ok :: "field_infos \<Rightarrow> bool" where
  "fis_ok fis \<longleftrightarrow> int_table (fis_dict fis) \<and> h_size (fis_dict fis) = int (fis_size fis) \<and> fis_size fis \<le> fis_capa fis \<and> 0 < fis_capa fis \<and>
     (\<forall>i < fis_size fis. fi_number (fis_fields fis ! i) = int i \<and> int_map (fis_dict fis) (fi_name (fis_fields fis ! i)) = Some (Some i)) \<and>
     (\<forall>n. n \<notin> fi_name ` set (fis_fields fis) \<longrightarrow> int_map (fis_dict fis) n = None)"

abbreviation field_named :: "field_infos \<Rightarrow> u64 \<Rightarrow> field_info option" where
  "field_named fis n \<equiv> find (\<lambda>fi. fi_name fi = n) (fis_fields fis)"

lemma fis_okD:
  assumes "fis_ok fis"
  shows "int_table (fis_dict fis)" and "h_size (fis_dict fis) = int (fis_size fis)"
    and "fis_size fis \<le> fis_capa fis" and "0 < fis_capa fis"
    and "i < fis_size fis \<Longrightarrow> fi_number (fis_fields fis ! i) = int i"
    and "i < fis_size fis \<Longrightarrow> int_map (fis_dict fis) (fi_name (fis_fields fis ! i)) = Some (Some i)"
    and "n \<notin> fi_name ` set (fis_fields fis) \<Longrightarrow> int_map (fis_dict fis) n = None"
  using assms unfolding fis_ok_def by blast+

lemma fis_found:
  assumes ok: "fis_ok fis"
  shows "case int_map (fis_dict fis) n of None \<Rightarrow> field_named fis n = None
    | Some p \<Rightarrow> \<exists>i < fis_size fis. p = Some i \<and> field_named fis n = Some (fis_fields fis ! i) \<and> fi_name (fis_fields fis ! i) = n"
proof (cases "n \<in> fi_name ` set (fis_fields fis)")
  case False
  then show ?thesis using fis_okD(7) [OF ok] by (force simp: find_None_iff)
next
  case True
  then obtain fi where f: "field_named fis n = Some fi" by (cases "field_named fis n") (auto simp: find_None_iff)
  then obtain i where "i < fis_size fis" "fi = fis_fields fis ! i" "fi_name fi = n" by (auto simp: find_Some_iff)
  then show ?thesis using fis_okD(6) [OF ok, of i] f by auto
qed

lemma int_map_named: "fis_ok fis \<Longrightarrow> int_map (fis_dict fis) n = None \<longleftrightarrow> field_named fis n = None"
  using fis_found [of fis n] by (auto split: option.splits)

lemma fis_dict_upd:
  "fis_ok fis \<Longrightarrow> int_table ht \<Longrightarrow> int_map ht = int_map (fis_dict fis) \<Longrightarrow> h_size ht = h_size (fis_dict fis) \<Longrightarrow>
   fis_ok (fis\<lparr>fis_dict := ht\<rparr>)"
  by (simp add: fis_ok_def)

lemma frt_fis_new_ok:
  assumes "fi_check_params bits = Inr ()"
  shows "\<exists>fis. frt_fis_new bits = Inr fis \<and> fis_ok fis \<and> fis_fields fis = [] \<and> fis_bits fis = bits"
  using assms by (simp add: int_table_new [OF refl] frt_fis_new_def frt_fis_init_def fis_ok_def FIELD_INFOS_INIT_CAPA_def)

lemma frt_fis_add_field_new:
  assumes ok: "fis_ok fis" and new: "field_named fis (fi_name fi) = None" and small: "fis_size fis < 2 ^ 28"
  shows "\<exists>fis'. frt_fis_add_field fis fi = Inr (fi\<lparr>fi_ref_cnt := fi_ref_cnt fi + 1, fi_number := int (fis_size fis)\<rparr>, fis') \<and>
    fis_ok fis' \<and> fis_bits fis' = fis_bits fis \<and>
    fis_fields fis' = fis_fields fis @ [fi\<lparr>fi_ref_cnt := fi_ref_cnt fi + 1, fi_number := int (fis_size fis)\<rparr>]"
proof -
  note D = fis_okD [OF ok]
  let ?fi = "fi\<lparr>fi_ref_cnt := fi_ref_cnt fi + 1, fi_number := int (fis_size fis)\<rparr>"
  define fis0 where "fis0 = (if fis_size fis = fis_capa fis then fis\<lparr>fis_capa := 2 * fis_capa fis\<rparr> else fis)"
  have 0: "fis_dict fis0 = fis_dict fis" "fis_fields fis0 = fis_fields fis" "fis_bits fis0 = fis_bits fis"
    "fis_size fis < fis_capa fis0" using D(3,4) by (simp_all add: fis0_def)
  have none: "int_map (fis_dict fis) (fi_name fi) = None" using new int_map_named [OF ok] by simp
  have "h_size (fis_dict fis) < 2 ^ 28" using small D(2) by simp
  from int_set_safe_ok [OF D(1) this, of "fi_name fi" "Some (fis_size fis)"] none obtain ht where
    ht: "frt_h_set_safe (fis_dict fis) (PInt (fi_name fi)) (Some (fis_size fis)) = Inr (True, ht)" "int_table ht"
      "\<And>z. int_map ht z = (if fi_name fi = z then Some (Some (fis_size fis)) else int_map (fis_dict fis) z)"
      "h_size ht = h_size (fis_dict fis) + 1" by auto
  let ?fis = "fis0\<lparr>fis_dict := ht, fis_fields := fis_fields fis @ [?fi]\<rparr>"
  have "frt_fis_add_field fis fi = Inr (?fi, ?fis)"
    using ht(1) by (simp add: frt_fis_add_field_def fis0_def [symmetric] 0 Let_def)
  moreover have "fis_ok ?fis"
  proof -
    have neq: "fi_name (fis_fields fis ! i) \<noteq> fi_name fi" if "i < fis_size fis" for i
      using that new by (auto simp: find_None_iff)
    then have "fi_number ((fis_fields fis @ [?fi]) ! i) = int i \<and>
        int_map ht (fi_name ((fis_fields fis @ [?fi]) ! i)) = Some (Some i)" if "i < Suc (fis_size fis)" for i
    proof (cases "i < fis_size fis")
      case True
      then show ?thesis using neq [OF True, THEN not_sym] D(5,6) [OF True] by (simp add: nth_append ht(3))
    qed (use that in \<open>simp add: less_Suc_eq nth_append ht(3)\<close>)
    moreover have "n \<notin> fi_name ` set (fis_fields fis @ [?fi]) \<Longrightarrow> int_map ht n = None" for n
      using D(7) [of n] by (auto simp: ht(3))
    ultimately show ?thesis using ht(2,4) D(2) 0 by (simp add: fis_ok_def)
  qed
  ultimately show ?thesis using 0 by auto
qed

lemma frt_fis_add_field_dup:
  assumes ok: "fis_ok fis" and "field_named fis (fi_name fi) \<noteq> None" and small: "fis_size fis < 2 ^ 28"
  shows "frt_fis_add_field fis fi = Inl FRT_ARG_ERROR"
proof -
  have "h_size (fis_dict fis) < 2 ^ 28" using small fis_okD(2) [OF ok] by simp
  from int_set_safe_ok [OF fis_okD(1) [OF ok] this, of "fi_name fi" "Some (fis_size fis)"] int_map_named [OF ok, of "fi_name fi"] assms(2)
  show ?thesis by (auto simp: frt_fis_add_field_def Let_def)
qed

lemma fis_get:
  assumes ok: "fis_ok fis"
  obtains ht p where "frt_h_get (fis_dict fis) (PInt n) = Inr (p, ht)" "fis_ok (fis\<lparr>fis_dict := ht\<rparr>)"
    "case p of None \<Rightarrow> field_named fis n = None
     | Some i \<Rightarrow> i < fis_size fis \<and> field_named fis n = Some (fis_fields fis ! i)"
proof -
  from int_get_ok [OF fis_okD(1) [OF ok], of n] obtain ht where
    "frt_h_get (fis_dict fis) (PInt n) = Inr (Option.bind (int_map (fis_dict fis) n) id, ht)" "int_table ht"
    "int_map ht = int_map (fis_dict fis)" "h_size ht = h_size (fis_dict fis)" by blast
  then show thesis using that fis_dict_upd [OF ok] fis_found [OF ok, of n] by (auto split: option.splits)
qed

lemma frt_fis_get_field_ok:
  assumes ok: "fis_ok fis"
  shows "\<exists>fis'. frt_fis_get_field fis n = Inr (field_named fis n, fis') \<and> fis_ok fis' \<and> fis_fields fis' = fis_fields fis"
  using ok by (rule fis_get [where n = n]) (auto simp: frt_fis_get_field_def split: option.splits)

lemma frt_fis_get_field_num_ok:
  assumes ok: "fis_ok fis"
  shows "\<exists>fis'. frt_fis_get_field_num fis n = Inr (case field_named fis n of None \<Rightarrow> - 1 | Some fi \<Rightarrow> fi_number fi, fis') \<and> fis_ok fis'"
  using ok by (rule fis_get [where n = n]) (auto simp: frt_fis_get_field_num_def split: option.splits)

text \<open>A field that is added by need has the flags of the table, and its count is 2 with no one but the table holding it.\<close>

lemma frt_fis_get_or_add_field_ok:
  assumes ok: "fis_ok fis" and bits: "fi_check_params (fis_bits fis) = Inr ()" and small: "fis_size fis < 2 ^ 28"
  shows "\<exists>fi fis'. frt_fis_get_or_add_field fis n = Inr (fi, fis') \<and> fis_ok fis' \<and> field_named fis' n = Some fi \<and> fis_bits fis' = fis_bits fis \<and>
    (if field_named fis n = None
     then fis_fields fis' = fis_fields fis @ [fi] \<and>
       fi = \<lparr>fi_name = n, fi_boost = 0x3F800000, fi_bits = fis_bits fis, fi_number = int (fis_size fis), fi_ref_cnt = 2\<rparr>
     else fis_fields fis' = fis_fields fis)"
proof -
  obtain ht p where g: "frt_h_get (fis_dict fis) (PInt n) = Inr (p, ht)" "fis_ok (fis\<lparr>fis_dict := ht\<rparr>)"
    "case p of None \<Rightarrow> field_named fis n = None
     | Some i \<Rightarrow> i < fis_size fis \<and> field_named fis n = Some (fis_fields fis ! i)"
    using ok by (rule fis_get [where n = n])
  show ?thesis
  proof (cases p)
    case (Some i)
    then show ?thesis using g by (auto simp: frt_fis_get_or_add_field_def Let_def)
  next
    case None
    define fi where "fi = \<lparr>fi_name = n, fi_boost = 0x3F800000, fi_bits = fis_bits fis, fi_number = 0, fi_ref_cnt = 1\<rparr>"
    have "frt_fi_new n (fis_bits fis) = Inr fi" using bits by (simp add: frt_fi_new_def frt_fi_init_def fi_def)
    moreover have new: "field_named (fis\<lparr>fis_dict := ht\<rparr>) (fi_name fi) = None" using g(3) None by (simp add: fi_def)
    moreover note frt_fis_add_field_new [OF g(2) new]
    ultimately show ?thesis using small g None
      by (auto simp: frt_fis_get_or_add_field_def Let_def fi_def find_append)
  qed
qed

section \<open>Round trip\<close>

definition enc_fi :: "(u64 \<Rightarrow> byte list) \<Rightarrow> field_info \<Rightarrow> byte list" where
  "enc_fi rb_id2name fi = enc_string (rb_id2name (fi_name fi)) @ enc_u32 (fi_boost fi) @ enc_v (unat (fi_bits fi))"

definition enc_fis :: "(u64 \<Rightarrow> byte list) \<Rightarrow> field_infos \<Rightarrow> byte list" where
  "enc_fis rb_id2name fis =
     enc_v (unat (fis_bits fis)) @ enc_v (unat (of_nat (fis_size fis) :: u32)) @ concat (map (enc_fi rb_id2name) (fis_fields fis))"

text \<open>What reading gives back: the same fields, held by the table alone.\<close>

definition fis_as_read :: "field_infos \<Rightarrow> field_infos \<Rightarrow> bool" where
  "fis_as_read fis fis' \<longleftrightarrow> fis_ok fis' \<and> fis_bits fis' = fis_bits fis \<and>
     fis_fields fis' = map (\<lambda>fi. fi\<lparr>fi_ref_cnt := 1\<rparr>) (fis_fields fis)"

definition names_ok :: "(u64 \<Rightarrow> byte list) \<Rightarrow> (byte list \<Rightarrow> u64) \<Rightarrow> field_info list \<Rightarrow> bool" where
  "names_ok rb_id2name rb_intern fis \<longleftrightarrow>
     (\<forall>fi \<in> set fis. rb_intern (rb_id2name (fi_name fi)) = fi_name fi \<and> length (rb_id2name (fi_name fi)) < 2 ^ 31)"

lemma enc_fi_Cons:
  "concat (map (enc_fi f) (fi # fis)) =
    enc_string (f (fi_name fi)) @ enc_u32 (fi_boost fi) @ enc_v (unat (fi_bits fi)) @ concat (map (enc_fi f) fis)"
  by (simp add: enc_fi_def)

context out_source
begin

lemma writes_fi_fields:
  "\<forall>fi \<in> set fis. length (rb_id2name (fi_name fi)) < 2 ^ 31 \<Longrightarrow>
   writes (fis_write_fields m rb_id2name fis) (concat (map (enc_fi rb_id2name) fis))"
proof (induction fis)
  case Nil
  show ?case using writes_Inr by (simp add: fis_write_fields.simps(1) [abs_def])
next
  case (Cons fi fis)
  have len: "length (rb_id2name (fi_name fi)) < 2 ^ 32" using Cons.prems by auto
  have "writes (fis_write_fields m rb_id2name (fi # fis))
    (enc_string (rb_id2name (fi_name fi)) @ enc_u32 (fi_boost fi) @ enc_v (unat (fi_bits fi)) @ concat (map (enc_fi rb_id2name) fis))"
    unfolding fis_write_fields.simps(2) [abs_def]
    by (intro writes_bind writes_string [OF len] writes_u32 writes_vint Cons.IH) (use Cons.prems in simp)
  then show ?case by (simp only: enc_fi_Cons)
qed

lemma writes_fis:
  "\<forall>fi \<in> set (fis_fields fis). length (rb_id2name (fi_name fi)) < 2 ^ 31 \<Longrightarrow>
   writes (frt_fis_write m rb_id2name fis) (enc_fis rb_id2name fis)"
  unfolding frt_fis_write_def [abs_def] enc_fis_def
  by (intro writes_bind writes_vint writes_fi_fields)

end

lemma enc_fi_upd: "enc_fi f (fi\<lparr>fi_ref_cnt := c\<rparr>) = enc_fi f fi"
  by (simp add: enc_fi_def)

text \<open>One field: it is added under the name it was written with.\<close>

lemma fis_read_fields_add:
  assumes ok: "fis_ok fis0" and new: "field_named fis0 (fi_name fi) = None" and small: "fis_size fis0 < 2 ^ 28"
    and num: "fi_number fi = int (fis_size fis0)"
  obtains fis1 where "fis_ok fis1" "fis_bits fis1 = fis_bits fis0" "fis_fields fis1 = fis_fields fis0 @ [fi\<lparr>fi_ref_cnt := 1\<rparr>]"
    "frt_fis_add_field fis0 \<lparr>fi_name = fi_name fi, fi_boost = fi_boost fi, fi_bits = fi_bits fi, fi_number = 0, fi_ref_cnt = 0\<rparr> =
       Inr (fi\<lparr>fi_ref_cnt := 1\<rparr>, fis1)"
    "fis1\<lparr>fis_fields := (fis_fields fis1)[nat (fi_number fi) := fi\<lparr>fi_ref_cnt := 1\<rparr>]\<rparr> = fis1"
proof -
  define z where "z = \<lparr>fi_name = fi_name fi, fi_boost = fi_boost fi, fi_bits = fi_bits fi, fi_number = 0, fi_ref_cnt = 0\<rparr>"
  have z: "z\<lparr>fi_ref_cnt := fi_ref_cnt z + 1, fi_number := int (fis_size fis0)\<rparr> = fi\<lparr>fi_ref_cnt := 1\<rparr>"
    using num by (cases fi) (simp add: z_def)
  have "field_named fis0 (fi_name z) = None" using new by (simp add: z_def)
  from frt_fis_add_field_new [OF ok this small] obtain fis1 where
    1: "frt_fis_add_field fis0 z = Inr (fi\<lparr>fi_ref_cnt := 1\<rparr>, fis1)" "fis_ok fis1" "fis_bits fis1 = fis_bits fis0"
      "fis_fields fis1 = fis_fields fis0 @ [fi\<lparr>fi_ref_cnt := 1\<rparr>]" unfolding z by blast
  have "fis1\<lparr>fis_fields := (fis_fields fis1)[nat (fi_number fi) := fi\<lparr>fi_ref_cnt := 1\<rparr>]\<rparr> = fis1"
    using num 1(4) by (cases fis1) simp
  then show thesis using that [of fis1] 1 by (simp add: z_def [symmetric])
qed

context in_source
begin

lemma decodes_fi_fields:
  assumes "fis_ok fis0" and "names_ok rb_id2name rb_intern fis" and "fis_size fis0 + length fis \<le> 2 ^ 28"
    and "distinct (map fi_name (fis_fields fis0 @ fis))"
    and "\<forall>i < length fis. fi_number (fis ! i) = int (fis_size fis0 + i)"
  shows "\<exists>fis'. fis_ok fis' \<and> fis_bits fis' = fis_bits fis0 \<and>
    fis_fields fis' = fis_fields fis0 @ map (\<lambda>fi. fi\<lparr>fi_ref_cnt := 1\<rparr>) fis \<and>
    decodes (fis_read_fields (length fis) m rb_intern fis0) (concat (map (enc_fi rb_id2name) fis)) fis'"
  using assms
proof (induction fis arbitrary: fis0)
  case Nil
  then show ?case using decodes_Inr [of fis0] by (intro exI [of _ fis0]) (simp add: fis_read_fields.simps(1) [abs_def])
next
  case (Cons fi fis)
  have "fi_name fi \<notin> fi_name ` set (fis_fields fis0)" using Cons.prems(4) by simp
  then have new: "field_named fis0 (fi_name fi) = None" unfolding find_None_iff by (metis image_eqI)
  have small: "fis_size fis0 < 2 ^ 28" using Cons.prems(3) by simp
  have num: "fi_number fi = int (fis_size fis0)" using Cons.prems(5) [THEN spec, of 0] by simp
  from fis_read_fields_add [OF Cons.prems(1) new small num] obtain fis1 where
    1: "fis_ok fis1" "fis_bits fis1 = fis_bits fis0" "fis_fields fis1 = fis_fields fis0 @ [fi\<lparr>fi_ref_cnt := 1\<rparr>]"
    "frt_fis_add_field fis0 \<lparr>fi_name = fi_name fi, fi_boost = fi_boost fi, fi_bits = fi_bits fi, fi_number = 0, fi_ref_cnt = 0\<rparr> =
       Inr (fi\<lparr>fi_ref_cnt := 1\<rparr>, fis1)"
    "fis1\<lparr>fis_fields := (fis_fields fis1)[nat (fi_number fi) := fi\<lparr>fi_ref_cnt := 1\<rparr>]\<rparr> = fis1" .
  have "\<forall>i < length fis. fi_number (fis ! i) = int (fis_size fis1 + i)" 
    using Cons.prems(5) [THEN spec, of "Suc i" for i] by (simp add: 1(3))
  moreover have "names_ok rb_id2name rb_intern fis" using Cons.prems(2) by (simp add: names_ok_def)
  moreover have "fis_size fis1 + length fis \<le> 2 ^ 28" using Cons.prems(3) by (simp add: 1(3))
  moreover have "distinct (map fi_name (fis_fields fis1 @ fis))" using Cons.prems(4) by (simp add: 1(3))
  ultimately obtain fis' where 2: "fis_ok fis'" "fis_bits fis' = fis_bits fis1"
    "fis_fields fis' = fis_fields fis1 @ map (\<lambda>fi. fi\<lparr>fi_ref_cnt := 1\<rparr>) fis"
    "decodes (fis_read_fields (length fis) m rb_intern fis1) (concat (map (enc_fi rb_id2name) fis)) fis'"
    using Cons.IH [OF 1(1)] by blast
  have name: "rb_intern (rb_id2name (fi_name fi)) = fi_name fi" and len: "length (rb_id2name (fi_name fi)) < 2 ^ 31"
    using Cons.prems(2) by (simp_all add: names_ok_def)
  have str: "decodes (frt_is_read_string_safe m) (enc_string (rb_id2name (fi_name fi))) (rb_id2name (fi_name fi))"
    unfolding frt_is_read_string_safe_eq using len by (rule decodes_string)
  have d: "decodes (fis_read_fields (length (fi # fis)) m rb_intern fis0) (concat (map (enc_fi rb_id2name) (fi # fis))) fis'"
    unfolding length_Cons enc_fi_Cons fis_read_fields.simps(2) [abs_def]
    by (rule decodes_bind [OF str], rule decodes_bind [OF decodes_u32], rule decodes_bind [OF decodes_vint])
      (simp add: name Let_def 1(4,5) 2(4) del: One_nat_def)
  show ?case by (intro exI [of _ fis'] conjI d) (simp_all add: 1 2)
qed

lemma decodes_fis:
  assumes ok: "fis_ok fis" and "names_ok rb_id2name rb_intern (fis_fields fis)" and bits: "fi_check_params (fis_bits fis) = Inr ()"
    and small: "fis_size fis \<le> 2 ^ 28"
  shows "\<exists>fis'. fis_as_read fis fis' \<and> decodes (\<lambda>is. frt_fis_read m rb_intern is) (enc_fis rb_id2name fis) fis'"
proof -
  obtain fis0 where 0: "frt_fis_new (fis_bits fis) = Inr fis0" "fis_ok fis0" "fis_fields fis0 = []" "fis_bits fis0 = fis_bits fis"
    using frt_fis_new_ok [OF bits] by blast
  have "distinct (map fi_name (fis_fields fis))"
    unfolding distinct_conv_nth
  proof (intro allI impI)
    fix i j assume "i < length (map fi_name (fis_fields fis))" "j < length (map fi_name (fis_fields fis))" "i \<noteq> j"
    then show "map fi_name (fis_fields fis) ! i \<noteq> map fi_name (fis_fields fis) ! j"
      using fis_okD(6) [OF ok, of i] fis_okD(6) [OF ok, of j] by auto
  qed
  moreover have "\<forall>i < fis_size fis. fi_number (fis_fields fis ! i) = int (fis_size fis0 + i)"
    using fis_okD(5) [OF ok] 0(3) by simp
  ultimately obtain fis' where 1: "fis_ok fis'" "fis_bits fis' = fis_bits fis"
    "fis_fields fis' = map (\<lambda>fi. fi\<lparr>fi_ref_cnt := 1\<rparr>) (fis_fields fis)"
    "decodes (fis_read_fields (fis_size fis) m rb_intern fis0) (concat (map (enc_fi rb_id2name) (fis_fields fis))) fis'"
    using decodes_fi_fields [OF 0(2) assms(2)] small 0(3,4) by auto
  let ?n = "of_nat (fis_size fis) :: u32"
  have n: "nat (sint ?n) = fis_size fis" using small by (simp add: signed_of_nat signed_take_bit_int_eq_self)
  let ?k = "\<lambda>fis is. ebind (frt_is_read_vint m is) (\<lambda>(n, is). fis_read_fields (nat (sint n)) m rb_intern fis is)"
  have k: "decodes (?k fis0) (enc_v (unat ?n) @ concat (map (enc_fi rb_id2name) (fis_fields fis))) fis'"
    by (rule decodes_bind, rule decodes_vint) (simp only: n, rule 1(4))
  have "decodes (\<lambda>is. frt_fis_read m rb_intern is) (enc_fis rb_id2name fis) fis'"
    unfolding enc_fis_def
  proof (rule decodesI)
    fix "is" bs p ys
    assume at: "is_ok is bs p" "p + length (enc_v (unat (fis_bits fis)) @ enc_v (unat ?n) @ concat (map (enc_fi rb_id2name) (fis_fields fis))) \<le> length bs"
      "drop p bs = (enc_v (unat (fis_bits fis)) @ enc_v (unat ?n) @ concat (map (enc_fi rb_id2name) (fis_fields fis))) @ ys"
    obtain is1 where r: "frt_is_read_vint m is = Inr (fis_bits fis, is1)"
    proof (rule decodesD [OF decodes_vint at(1)])
      show "drop p bs = enc_v (unat (fis_bits fis)) @ enc_v (unat ?n) @ concat (map (enc_fi rb_id2name) (fis_fields fis)) @ ys"
        using at(3) by simp
    qed (use at(2) in auto)
    have "frt_fis_read m rb_intern is = ebind (frt_is_read_vint m is) (\<lambda>(bits, is). ?k fis0 is)"
      using r 0(1) by (simp add: frt_fis_read_def)
    moreover have "decodes (\<lambda>is. ebind (frt_is_read_vint m is) (\<lambda>(bits, is). ?k fis0 is))
        (enc_v (unat (fis_bits fis)) @ enc_v (unat ?n) @ concat (map (enc_fi rb_id2name) (fis_fields fis))) fis'"
      by (rule decodes_bind, rule decodes_vint, rule k)
    ultimately show "\<exists>is'. frt_fis_read m rb_intern is = Inr (fis', is') \<and>
        is_ok is' bs (p + length (enc_v (unat (fis_bits fis)) @ enc_v (unat ?n) @ concat (map (enc_fi rb_id2name) (fis_fields fis))))"
      using at by (simp add: decodes_def)
  qed
  with 1 show ?thesis by (auto simp: fis_as_read_def)
qed

end

end
