(* ===== verification/FrtSegmentInfos.thy ===== *)
theory FrtSegmentInfos
  imports FrtFieldInfos
begin

text \<open>
  The segments of an index, \<open>FrtSegmentInfo\<close> and \<open>FrtSegmentInfos\<close> of \<open>frt_index.h\<close> and \<open>frt_index.c\<close>: their
  operations and the contents of the \<open>segments_N\<close> file they are written to.

  \<^item> \<open>segment_info\<close> is \<open>FrtSegmentInfo\<close> without its pointer to the store. \<open>si_norm_gens\<close> is the array of
    \<open>norm_gens_size\<close> generations (\<open>NULL\<close> only when it is empty). An \<open>int\<close> is written as a variable length
    \<open>u32\<close>, \<open>-1\<close> as its largest value, and cast back.
  \<^item> \<open>segment_infos\<close> is \<open>FrtSegmentInfos\<close>; \<open>sis_segs\<close> is the array up to \<open>size\<close>.
  \<^item> The lemmas: what is written is read back as it was, and the arrays change as they should.
\<close>

section \<open>A segment\<close>

record segment_info =
  si_ref_cnt :: nat
  si_name :: "byte list"
  si_doc_cnt :: int
  si_del_gen :: int
  si_norm_gens :: "int list"
  si_use_compound_file :: bool

definition frt_si_new :: "byte list \<Rightarrow> int \<Rightarrow> segment_info" where
  "frt_si_new name doc_cnt =
     \<lparr>si_ref_cnt = 1, si_name = name, si_doc_cnt = doc_cnt, si_del_gen = - 1, si_norm_gens = [], si_use_compound_file = False\<rparr>"

text \<open>The \<open>norm_gens\<close> are stored from the last to the first; the second argument is the number of those left.\<close>

fun si_read_norm_gens :: "'f is_methods \<Rightarrow> nat \<Rightarrow> int list \<Rightarrow> 'f instream \<Rightarrow> (int list \<times> 'f instream) res" where
  "si_read_norm_gens m 0 gens is = Inr (gens, is)"
| "si_read_norm_gens m (Suc i) gens is =
     ebind (frt_is_read_vint m is) (\<lambda>(gen, is). si_read_norm_gens m i (sint gen # gens) is)"

definition si_read :: "'f is_methods \<Rightarrow> 'f instream \<Rightarrow> (segment_info \<times> 'f instream) res" where
  "si_read m is =
     ebind (frt_is_read_string_safe m is) (\<lambda>(name, is).
     ebind (frt_is_read_vint m is) (\<lambda>(doc_cnt, is).
     ebind (frt_is_read_vint m is) (\<lambda>(del_gen, is).
     ebind (frt_is_read_vint m is) (\<lambda>(norm_gens_size, is).
     ebind (if 0 < sint norm_gens_size then si_read_norm_gens m (nat (sint norm_gens_size)) [] is else Inr ([], is)) (\<lambda>(gens, is).
     ebind (frt_is_read_byte m is) (\<lambda>(b, is).
       Inr (\<lparr>si_ref_cnt = 1, si_name = name, si_doc_cnt = sint doc_cnt, si_del_gen = sint del_gen, si_norm_gens = gens,
             si_use_compound_file = (b \<noteq> 0)\<rparr>, is)))))))"

fun si_write_norm_gens :: "('f, 'w) os_methods \<Rightarrow> int list \<Rightarrow> 'f outstream \<Rightarrow> 'w \<Rightarrow> ('f outstream \<times> 'w) res" where
  "si_write_norm_gens m [] os w = Inr (os, w)"
| "si_write_norm_gens m (gen # gens) os w =
     ebind (frt_os_write_vint m os (word_of_int gen) w) (\<lambda>(os, w). si_write_norm_gens m gens os w)"

definition si_write :: "('f, 'w) os_methods \<Rightarrow> segment_info \<Rightarrow> 'f outstream \<Rightarrow> 'w \<Rightarrow> ('f outstream \<times> 'w) res" where
  "si_write m si os w =
     ebind (frt_os_write_string m os (si_name si) w) (\<lambda>(os, w).
     ebind (frt_os_write_vint m os (word_of_int (si_doc_cnt si)) w) (\<lambda>(os, w).
     ebind (frt_os_write_vint m os (word_of_int (si_del_gen si)) w) (\<lambda>(os, w).
     ebind (frt_os_write_vint m os (of_nat (length (si_norm_gens si))) w) (\<lambda>(os, w).
     ebind (si_write_norm_gens m (rev (si_norm_gens si)) os w) (\<lambda>(os, w).
     frt_os_write_byte m os (if si_use_compound_file si then 1 else 0) w)))))"

definition frt_si_has_deletions :: "segment_info \<Rightarrow> bool" where
  "frt_si_has_deletions si \<longleftrightarrow> si_del_gen si \<ge> 0"

definition frt_si_has_separate_norms :: "segment_info \<Rightarrow> bool" where
  "frt_si_has_separate_norms si \<longleftrightarrow> si_use_compound_file si \<and> list_ex (\<lambda>gen. gen > 0) (rev (si_norm_gens si))"

definition frt_si_advance_norm_gen :: "segment_info \<Rightarrow> nat \<Rightarrow> segment_info" where
  "frt_si_advance_norm_gen si field_num =
     (let gens = si_norm_gens si;
          gens = (if field_num \<ge> length gens then gens @ replicate (field_num + 1 - length gens) (- 1) else gens)
      in si\<lparr>si_norm_gens := gens[field_num := gens ! field_num + 1]\<rparr>)"

definition si_norm_file_name :: "segment_info \<Rightarrow> int \<Rightarrow> byte list option res" where
  "si_norm_file_name si field_num =
     (if field_num \<ge> int (length (si_norm_gens si)) then Inr None
      else if field_num < 0 then Inl UndefinedBehaviour
      else let norm_gen = si_norm_gens si ! nat field_num
        in if 0 > norm_gen then Inr None
           else fn_for_gen_field (si_name si) (if si_use_compound_file si \<and> norm_gen > 0 then str ''s'' else str ''f'') norm_gen field_num)"

text \<open>The names that \<open>si_delete_files\<close> queues, in order.\<close>

fun si_norm_files :: "nat \<Rightarrow> segment_info \<Rightarrow> field_infos \<Rightarrow> byte list list res" where
  "si_norm_files 0 si fis = Inr []"
| "si_norm_files (Suc i) si fis =
     ebind (if 0 \<le> si_norm_gens si ! i
            then if i < fis_size fis
              then ebind (si_norm_file_name si (fi_number (fis_fields fis ! i))) (\<lambda>n. case n of
                     Some file_name \<Rightarrow> Inr [file_name] | None \<Rightarrow> Inl UndefinedBehaviour)
              else Inl UndefinedBehaviour
            else Inr []) (\<lambda>ns.
     ebind (si_norm_files i si fis) (\<lambda>ns'. Inr (ns @ ns')))"

definition si_delete_files :: "segment_info \<Rightarrow> field_infos \<Rightarrow> byte list list res" where
  "si_delete_files si fis =
     ebind (si_norm_files (length (si_norm_gens si)) si fis) (\<lambda>norms.
       if si_use_compound_file si then
         ebind (if 0 \<le> si_del_gen si then
                  ebind (frt_fn_for_generation (si_name si) (Some (str ''del'')) (si_del_gen si)) (\<lambda>n. case n of
                    Some file_name \<Rightarrow> Inr [file_name] | None \<Rightarrow> Inl UndefinedBehaviour)
                else Inr []) (\<lambda>dels.
           Inr (norms @ [si_name si @ str ''.cfs''] @ dels))
       else Inr (norms @ map (\<lambda>ext. si_name si @ str ''.'' @ ext) (rev INDEX_EXTENSIONS)))"

section \<open>The segments of an index\<close>

definition FORMAT :: u32 where
  "FORMAT = 15"

record segment_infos =
  sis_fis :: field_infos
  sis_counter :: u64
  sis_version :: u64
  sis_generation :: int
  sis_format :: u32
  sis_segs :: "segment_info list"
  sis_capa :: nat

abbreviation sis_size :: "segment_infos \<Rightarrow> nat" where
  "sis_size sis \<equiv> length (sis_segs sis)"

text \<open>\<open>now\<close> is what \<open>time(NULL)\<close> answers.\<close>

definition frt_sis_new :: "field_infos \<Rightarrow> u64 \<Rightarrow> segment_infos" where
  "frt_sis_new fis now =
     \<lparr>sis_fis = fis\<lparr>fis_ref_cnt := fis_ref_cnt fis + 1\<rparr>, sis_counter = 0, sis_version = now, sis_generation = - 1,
      sis_format = FORMAT, sis_segs = [], sis_capa = 4\<rparr>"

definition frt_sis_add_si :: "segment_infos \<Rightarrow> segment_info \<Rightarrow> segment_infos" where
  "frt_sis_add_si sis si =
     (let sis = (if sis_size sis \<ge> sis_capa sis then sis\<lparr>sis_capa := 2 * sis_capa sis\<rparr> else sis)
      in sis\<lparr>sis_segs := sis_segs sis @ [si]\<rparr>)"

definition frt_sis_new_segment :: "segment_infos \<Rightarrow> int \<Rightarrow> (segment_info \<times> segment_infos) res" where
  "frt_sis_new_segment sis doc_cnt =
     ebind (new_segment (sint (sis_counter sis))) (\<lambda>name.
       let si = frt_si_new name doc_cnt
       in Inr (si, frt_sis_add_si (sis\<lparr>sis_counter := sis_counter sis + 1\<rparr>) si))"

text \<open>
  Positions outside the array are undefined. \<open>frt_sis_del_at\<close> reads \<open>segs[i + 1]\<close> for \<open>i < size\<close> after
  \<open>size\<close> was counted down.
\<close>

definition frt_sis_del_at :: "segment_infos \<Rightarrow> nat \<Rightarrow> segment_infos res" where
  "frt_sis_del_at sis i =
     (if i < sis_size sis then Inr (sis\<lparr>sis_segs := take i (sis_segs sis) @ drop (i + 1) (sis_segs sis)\<rparr>)
      else Inl UndefinedBehaviour)"

definition frt_sis_del_from_to :: "segment_infos \<Rightarrow> nat \<Rightarrow> nat \<Rightarrow> segment_infos res" where
  "frt_sis_del_from_to sis from to =
     (if from \<le> to \<and> to \<le> sis_size sis then Inr (sis\<lparr>sis_segs := take from (sis_segs sis) @ drop to (sis_segs sis)\<rparr>)
      else Inl UndefinedBehaviour)"

definition frt_si_close :: "segment_info \<Rightarrow> segment_info option" where
  "frt_si_close si = (let si = si\<lparr>si_ref_cnt := si_ref_cnt si - 1\<rparr> in if si_ref_cnt si = 0 then None else Some si)"

text \<open>What is still held by others when the segments of an index are freed.\<close>

definition frt_sis_destroy :: "segment_infos \<Rightarrow> segment_info list \<times> (field_infos + field_info list)" where
  "frt_sis_destroy sis = (List.map_filter frt_si_close (sis_segs sis), frt_fis_deref (sis_fis sis))"

section \<open>The segments file\<close>

function sis_capa_loop :: "nat \<Rightarrow> nat \<Rightarrow> nat" where
  "sis_capa_loop capa seg_cnt = (if 0 < capa \<and> capa < seg_cnt then sis_capa_loop (2 * capa) seg_cnt else capa)"
  by pat_completeness auto
termination by (relation "measure (\<lambda>(capa, n). n - capa)") auto

declare sis_capa_loop.simps [simp del]

fun sis_read_segs :: "'f is_methods \<Rightarrow> nat \<Rightarrow> segment_infos \<Rightarrow> 'f instream \<Rightarrow> (segment_infos \<times> 'f instream) res" where
  "sis_read_segs m 0 sis is = Inr (sis, is)"
| "sis_read_segs m (Suc i) sis is =
     ebind (si_read m is) (\<lambda>(si, is). sis_read_segs m i (frt_sis_add_si sis si) is)"

text \<open>
  The body of \<open>frt_sis_read_i\<close> on the opened file. Doubling the capacity beyond \<open>2 ^ 30\<close> overflows an \<open>int\<close>.
\<close>

definition sis_read_body :: "'f is_methods \<Rightarrow> (byte list \<Rightarrow> u64) \<Rightarrow> int \<Rightarrow> 'f instream \<Rightarrow> (segment_infos \<times> 'f instream) res" where
  "sis_read_body m rb_intern generation is =
     ebind (frt_is_read_u32 m is) (\<lambda>(format, is).
     if format \<noteq> FORMAT then Inl FRT_EXCEPTION
     else
     ebind (frt_is_read_u64 m is) (\<lambda>(version, is).
     ebind (frt_is_read_u64 m is) (\<lambda>(counter, is).
     ebind (frt_is_read_vint m is) (\<lambda>(seg_cnt, is).
     if 2 ^ 30 < sint seg_cnt then Inl UndefinedBehaviour
     else
     ebind (sis_read_segs m (nat (sint seg_cnt))
              \<lparr>sis_fis = \<lparr>fis_bits = 0, fis_capa = 0, fis_fields = [], fis_dict = frt_h_new_int True, fis_ref_cnt = 0\<rparr>,
               sis_counter = counter, sis_version = version, sis_generation = generation, sis_format = format,
               sis_segs = [], sis_capa = sis_capa_loop 4 (nat (sint seg_cnt))\<rparr> is) (\<lambda>(sis, is).
     ebind (frt_fis_read m rb_intern is) (\<lambda>(fis, is). Inr (sis\<lparr>sis_fis := fis\<rparr>, is)))))))"

definition sis_read_ver_body :: "'f is_methods \<Rightarrow> 'f instream \<Rightarrow> (u64 \<times> 'f instream) res" where
  "sis_read_ver_body m is =
     ebind (frt_is_read_u32 m is) (\<lambda>(format, is).
     if format = FORMAT then frt_is_read_u64 m is else Inl FRT_EXCEPTION)"

fun sis_write_segs :: "('f, 'w) os_methods \<Rightarrow> segment_info list \<Rightarrow> 'f outstream \<Rightarrow> 'w \<Rightarrow> ('f outstream \<times> 'w) res" where
  "sis_write_segs m [] os w = Inr (os, w)"
| "sis_write_segs m (si # sis) os w = ebind (si_write m si os w) (\<lambda>(os, w). sis_write_segs m sis os w)"

text \<open>The body of the first block of \<open>frt_sis_write\<close>; the version has been counted up.\<close>

definition sis_write_body ::
  "('f, 'w) os_methods \<Rightarrow> (u64 \<Rightarrow> byte list) \<Rightarrow> segment_infos \<Rightarrow> 'f outstream \<Rightarrow> 'w \<Rightarrow> ('f outstream \<times> 'w) res" where
  "sis_write_body m rb_id2name sis os w =
     ebind (frt_os_write_u32 m os FORMAT w) (\<lambda>(os, w).
     ebind (frt_os_write_u64 m os (sis_version sis) w) (\<lambda>(os, w).
     ebind (frt_os_write_u64 m os (sis_counter sis) w) (\<lambda>(os, w).
     ebind (frt_os_write_vint m os (of_nat (sis_size sis)) w) (\<lambda>(os, w).
     ebind (sis_write_segs m (sis_segs sis) os w) (\<lambda>(os, w).
     frt_fis_write m rb_id2name (sis_fis sis) os w)))))"

definition gen_write_body :: "('f, 'w) os_methods \<Rightarrow> int \<Rightarrow> 'f outstream \<Rightarrow> 'w \<Rightarrow> ('f outstream \<times> 'w) res" where
  "gen_write_body m generation os w =
     ebind (frt_os_write_u64 m os (word_of_int generation) w) (\<lambda>(os, w).
     frt_os_write_u64 m os (word_of_int generation) w)"

section \<open>Round trip\<close>

definition i32_ok :: "int \<Rightarrow> bool" where
  "i32_ok i \<longleftrightarrow> - (2 ^ 31) \<le> i \<and> i < 2 ^ 31"

lemma sint_word_of_int: "i32_ok i \<Longrightarrow> sint (word_of_int i :: u32) = i"
  by (simp add: i32_ok_def signed_of_int signed_take_bit_int_eq_self)

definition si_ok :: "segment_info \<Rightarrow> bool" where
  "si_ok si \<longleftrightarrow> length (si_name si) < 2 ^ 31 \<and> i32_ok (si_doc_cnt si) \<and> i32_ok (si_del_gen si) \<and>
     length (si_norm_gens si) < 2 ^ 31 \<and> (\<forall>gen \<in> set (si_norm_gens si). i32_ok gen)"

definition enc_int :: "int \<Rightarrow> byte list" where
  "enc_int i = enc_v (unat (word_of_int i :: u32))"

definition enc_si :: "segment_info \<Rightarrow> byte list" where
  "enc_si si = enc_string (si_name si) @ enc_int (si_doc_cnt si) @ enc_int (si_del_gen si) @
     enc_v (unat (of_nat (length (si_norm_gens si)) :: u32)) @ concat (map enc_int (rev (si_norm_gens si))) @
     [if si_use_compound_file si then 1 else 0]"

definition enc_sis :: "(u64 \<Rightarrow> byte list) \<Rightarrow> segment_infos \<Rightarrow> byte list" where
  "enc_sis rb_id2name sis = enc_u32 FORMAT @ enc_u64 (sis_version sis) @ enc_u64 (sis_counter sis) @
     enc_v (unat (of_nat (sis_size sis) :: u32)) @ concat (map enc_si (sis_segs sis)) @ enc_fis rb_id2name (sis_fis sis)"

text \<open>What the code writes of an index in order can be read back.\<close>

definition sis_ok :: "(u64 \<Rightarrow> byte list) \<Rightarrow> (byte list \<Rightarrow> u64) \<Rightarrow> segment_infos \<Rightarrow> bool" where
  "sis_ok rb_id2name rb_intern sis \<longleftrightarrow> sis_size sis \<le> 2 ^ 30 \<and> (\<forall>si \<in> set (sis_segs sis). si_ok si) \<and>
     fis_ok (sis_fis sis) \<and> names_ok rb_id2name rb_intern (fis_fields (sis_fis sis)) \<and>
     fi_check_params (fis_bits (sis_fis sis)) = Inr () \<and> fis_size (sis_fis sis) \<le> 2 ^ 28"

definition sis_as_read :: "segment_infos \<Rightarrow> segment_infos \<Rightarrow> bool" where
  "sis_as_read sis sis' \<longleftrightarrow> sis_version sis' = sis_version sis \<and> sis_counter sis' = sis_counter sis \<and> sis_format sis' = FORMAT \<and>
     sis_segs sis' = map (\<lambda>si. si\<lparr>si_ref_cnt := 1\<rparr>) (sis_segs sis) \<and> fis_as_read (sis_fis sis) (sis_fis sis')"

context out_source
begin

lemma writes_norm_gens: "writes (si_write_norm_gens m gens) (concat (map enc_int gens))"
proof (induction gens)
  case Nil
  show ?case using writes_Inr by (simp add: si_write_norm_gens.simps(1) [abs_def])
next
  case (Cons gen gens)
  show ?case unfolding si_write_norm_gens.simps(2) [abs_def] list.map concat.simps enc_int_def
    by (rule writes_bind [OF writes_vint]) (rule Cons.IH [unfolded enc_int_def])
qed

lemma writes_si: "si_ok si \<Longrightarrow> writes (si_write m si) (enc_si si)"
  unfolding si_write_def [abs_def] enc_si_def enc_int_def [of "si_doc_cnt si"] enc_int_def [of "si_del_gen si"]
  by (intro writes_bind writes_string writes_vint writes_norm_gens writes_byte) (simp add: si_ok_def)

lemma writes_segs: "\<forall>si \<in> set sis. si_ok si \<Longrightarrow> writes (sis_write_segs m sis) (concat (map enc_si sis))"
proof (induction sis)
  case Nil
  show ?case using writes_Inr by (simp add: sis_write_segs.simps(1) [abs_def])
next
  case (Cons si sis)
  show ?case unfolding sis_write_segs.simps(2) [abs_def] list.map concat.simps
    by (rule writes_bind [OF writes_si]) (use Cons in auto)
qed

lemma writes_sis: "sis_ok f g sis \<Longrightarrow> writes (sis_write_body m f sis) (enc_sis f sis)"
  unfolding sis_write_body_def [abs_def] enc_sis_def
  by (intro writes_bind writes_u32 writes_u64 writes_vint writes_segs writes_fis) (auto simp: sis_ok_def names_ok_def)

lemma writes_gens: "writes (gen_write_body m g) (enc_u64 (word_of_int g) @ enc_u64 (word_of_int g))"
  unfolding gen_write_body_def [abs_def] by (intro writes_bind writes_u64)

end

lemma frt_sis_add_si_segs [simp]:
  "sis_segs (frt_sis_add_si sis si) = sis_segs sis @ [si]" "sis_fis (frt_sis_add_si sis si) = sis_fis sis"
  "sis_version (frt_sis_add_si sis si) = sis_version sis" "sis_counter (frt_sis_add_si sis si) = sis_counter sis"
  "sis_generation (frt_sis_add_si sis si) = sis_generation sis" "sis_format (frt_sis_add_si sis si) = sis_format sis"
  by (simp_all add: frt_sis_add_si_def Let_def)

context in_source
begin

lemma decodes_norm_gens:
  "\<forall>gen \<in> set gens. i32_ok gen \<Longrightarrow> decodes (si_read_norm_gens m (length gens) gs) (concat (map enc_int gens)) (rev gens @ gs)"
proof (induction gens arbitrary: gs)
  case Nil
  show ?case using decodes_Inr by (simp add: si_read_norm_gens.simps(1) [abs_def])
next
  case (Cons gen gens)
  have "decodes (si_read_norm_gens m (length gens) (sint (word_of_int gen :: u32) # gs)) (concat (map enc_int gens)) (rev (gen # gens) @ gs)"
    using Cons.IH [of "gen # gs"] Cons.prems by (simp add: sint_word_of_int)
  from decodes_bind [OF decodes_vint, where k = "\<lambda>gen is. si_read_norm_gens m (length gens) (sint gen # gs) is", OF this]
  show ?case unfolding length_Cons si_read_norm_gens.simps(2) [abs_def] list.map concat.simps enc_int_def [of gen] .
qed

lemma decodes_si:
  assumes "si_ok si"
  shows "decodes (si_read m) (enc_si si) (si\<lparr>si_ref_cnt := 1\<rparr>)"
proof -
  let ?gens = "si_norm_gens si" and ?n = "of_nat (length (si_norm_gens si)) :: u32"
  have len: "length (si_name si) < 2 ^ 31" and ints: "i32_ok (si_doc_cnt si)" "i32_ok (si_del_gen si)"
    and gens: "\<forall>gen \<in> set (rev ?gens). i32_ok gen" and n: "length ?gens < 2 ^ 31" using assms by (simp_all add: si_ok_def)
  have sn: "sint ?n = int (length ?gens)" using n by (simp add: signed_of_nat signed_take_bit_int_eq_self)
  have str: "decodes (frt_is_read_string_safe m) (enc_string (si_name si)) (si_name si)"
    unfolding frt_is_read_string_safe_eq using len by (rule decodes_string)
  have gs: "decodes (\<lambda>is. if 0 < sint ?n then si_read_norm_gens m (nat (sint ?n)) [] is else Inr ([], is))
      (concat (map enc_int (rev ?gens))) ?gens"
  proof (cases "?gens = []")
    case True
    then show ?thesis using decodes_Inr [of "[]"] by simp
  next
    case False
    then have pos: "0 < int (length ?gens)" by simp
    show ?thesis unfolding sn
      using decodes_norm_gens [OF gens, of "[]"] by (simp only: pos if_True nat_int length_rev rev_rev_ident append_Nil2)
  qed
  show ?thesis
    unfolding si_read_def [abs_def] enc_si_def enc_int_def [of "si_doc_cnt si"] enc_int_def [of "si_del_gen si"]
    apply (rule decodes_bind [OF str], rule decodes_bind [OF decodes_vint], rule decodes_bind [OF decodes_vint],
        rule decodes_bind [OF decodes_vint], rule decodes_bind [OF gs], rule decodes_byte_bind)
    using decodes_Inr [of "si\<lparr>si_ref_cnt := 1\<rparr>"] ints
    by (cases si; cases "si_use_compound_file si") (simp_all add: sint_word_of_int)
qed

lemma decodes_segs:
  "\<forall>si \<in> set segs. si_ok si \<Longrightarrow>
   \<exists>sis'. sis_segs sis' = sis_segs sis @ map (\<lambda>si. si\<lparr>si_ref_cnt := 1\<rparr>) segs \<and> sis_version sis' = sis_version sis \<and>
     sis_counter sis' = sis_counter sis \<and> sis_generation sis' = sis_generation sis \<and> sis_format sis' = sis_format sis \<and>
     decodes (sis_read_segs m (length segs) sis) (concat (map enc_si segs)) sis'"
proof (induction segs arbitrary: sis)
  case Nil
  show ?case using decodes_Inr [of sis] by (intro exI [of _ sis]) (simp add: sis_read_segs.simps(1) [abs_def])
next
  case (Cons si segs)
  have si: "si_ok si" using Cons.prems by simp
  from Cons.IH [of "frt_sis_add_si sis (si\<lparr>si_ref_cnt := 1\<rparr>)"] Cons.prems obtain sis' where
    1: "sis_segs sis' = sis_segs sis @ map (\<lambda>si. si\<lparr>si_ref_cnt := 1\<rparr>) (si # segs)" "sis_version sis' = sis_version sis"
      "sis_counter sis' = sis_counter sis" "sis_generation sis' = sis_generation sis" "sis_format sis' = sis_format sis"
      "decodes (sis_read_segs m (length segs) (frt_sis_add_si sis (si\<lparr>si_ref_cnt := 1\<rparr>))) (concat (map enc_si segs)) sis'" by auto
  from decodes_bind [OF decodes_si [OF si], where k = "\<lambda>si is. sis_read_segs m (length segs) (frt_sis_add_si sis si) is", OF 1(6)]
  have "decodes (sis_read_segs m (length (si # segs)) sis) (concat (map enc_si (si # segs))) sis'"
    unfolding length_Cons sis_read_segs.simps(2) [abs_def] list.map concat.simps .
  with 1(1-5) show ?case by blast
qed

lemma decodes_sis:
  assumes ok: "sis_ok rb_id2name rb_intern sis"
  shows "\<exists>sis'. sis_as_read sis sis' \<and> sis_generation sis' = g \<and> decodes (sis_read_body m rb_intern g) (enc_sis rb_id2name sis) sis'"
proof -
  let ?n = "of_nat (sis_size sis) :: u32"
  have "sint ?n = int (sis_size sis)" using ok
    by (simp add: sis_ok_def signed_of_nat signed_take_bit_int_eq_self)
  then have n: "nat (sint ?n) = sis_size sis" and lim: "(2 ^ 30 < sint ?n) = False" using ok by (simp_all add: sis_ok_def)
  define sis0 where "sis0 = \<lparr>sis_fis = \<lparr>fis_bits = 0, fis_capa = 0, fis_fields = [], fis_dict = frt_h_new_int True, fis_ref_cnt = 0\<rparr>,
      sis_counter = sis_counter sis, sis_version = sis_version sis, sis_generation = g, sis_format = FORMAT,
      sis_segs = [], sis_capa = sis_capa_loop 4 (sis_size sis)\<rparr>"
  have "\<forall>si \<in> set (sis_segs sis). si_ok si" using ok by (simp add: sis_ok_def)
  from decodes_segs [OF this, of sis0] obtain sis1 where
    1: "sis_segs sis1 = map (\<lambda>si. si\<lparr>si_ref_cnt := 1\<rparr>) (sis_segs sis)" "sis_version sis1 = sis_version sis"
      "sis_counter sis1 = sis_counter sis" "sis_generation sis1 = g" "sis_format sis1 = FORMAT"
      "decodes (sis_read_segs m (sis_size sis) sis0) (concat (map enc_si (sis_segs sis))) sis1" by (auto simp: sis0_def)
  from decodes_fis [of "sis_fis sis" rb_id2name rb_intern] ok obtain fis where
    2: "fis_as_read (sis_fis sis) fis" "decodes (\<lambda>is. frt_fis_read m rb_intern is) (enc_fis rb_id2name (sis_fis sis)) fis"
    by (auto simp: sis_ok_def)
  have "decodes (sis_read_body m rb_intern g) (enc_sis rb_id2name sis) (sis1\<lparr>sis_fis := fis\<rparr>)"
    unfolding sis_read_body_def [abs_def] enc_sis_def
    apply (rule decodes_bind [OF decodes_u32])
    apply (simp only: if_False refl simp_thms)
    apply (rule decodes_bind [OF decodes_u64], rule decodes_bind [OF decodes_u64], rule decodes_bind [OF decodes_vint])
    apply (simp only: n lim if_False sis0_def [symmetric])
    by (rule decodes_bind [OF 1(6)], rule decodes_map [OF 2(2), where f = "\<lambda>fis. sis1\<lparr>sis_fis := fis\<rparr>"])
  with 1 2 show ?thesis by (intro exI [of _ "sis1\<lparr>sis_fis := fis\<rparr>"]) (simp add: sis_as_read_def)
qed

lemma decodes_ver: "decodes (sis_read_ver_body m) (enc_u32 FORMAT @ enc_u64 v) v"
  unfolding sis_read_ver_body_def [abs_def]
  by (rule decodes_bind [OF decodes_u32]) (simp add: decodes_u64)

end

end
