(* ===== verification/FrtDeleter.thy ===== *)
theory FrtDeleter
  imports FrtSegmentInfos FrtHashSet
begin

text \<open>
  The deleter of \<open>frt_index.c\<close>, on a RAM store: it collects the names of files that can go in a hash set and
  removes them from the store.

  \<^item> \<open>frt_deleter\<close> is \<open>FrtDeleter\<close>; its segment infos and its store are arguments. Names that are queued are copied
    to the heap (\<open>frt_estrdup\<close>).
  \<^item> \<open>deletable\<close> is the decision of \<open>frt_deleter_find_deletable_files_i\<close> on a name. Where the code compares
    with an uninitialised buffer or with \<open>NULL\<close> it is \<open>UndefinedBehaviour\<close>.
  \<^item> The table of the current segments is read only once it is built, and a lookup leaves its map as it is, so
    the tables that lookups return are dropped. Reference counts of the segments are not part of the model.
  \<^item> The lemmas: committing removes the pending files and no others, and the files of current segments are not
    deletable.
\<close>

section \<open>Pending files\<close>

record frt_deleter =
  dlr_pending :: "cstr hashset"

definition frt_deleter_new :: frt_deleter where
  "frt_deleter_new = \<lparr>dlr_pending = frt_hs_new_str True\<rparr>"

definition frt_deleter_queue_file :: "frt_deleter \<Rightarrow> byte list \<Rightarrow> ram_heap \<Rightarrow> (frt_deleter \<times> ram_heap) res" where
  "frt_deleter_queue_file dlr file_name w =
     (let (copy, w) = frt_estrdup file_name w
      in ebind (frt_hs_add (dlr_pending dlr) copy) (\<lambda>(_, pending). Inr (dlr\<lparr>dlr_pending := pending\<rparr>, w)))"

text \<open>When an operation of the store raises, the name is queued and the error is passed on.\<close>

definition frt_deleter_delete_file ::
  "frt_deleter \<Rightarrow> cstr \<Rightarrow> ram_store \<Rightarrow> ram_heap \<Rightarrow> (frt_deleter \<times> ram_store \<times> ram_heap) res" where
  "frt_deleter_delete_file dlr file_name store w =
     ebind (ram_exists store file_name) (\<lambda>(e, store).
     ebind (if e then ebind (ram_remove store file_name w) (\<lambda>(_, store, w). Inr (store, w)) else Inr (store, w)) (\<lambda>(store, w).
     ebind (frt_hs_del (dlr_pending dlr) file_name) (\<lambda>(_, pending). Inr (dlr\<lparr>dlr_pending := pending\<rparr>, store, w))))"

fun deleter_commit_loop ::
  "nat \<Rightarrow> frt_deleter \<Rightarrow> nat option \<Rightarrow> ram_store \<Rightarrow> ram_heap \<Rightarrow> (frt_deleter \<times> ram_store \<times> ram_heap) res" where
  "deleter_commit_loop fuel dlr None store w = Inr (dlr, store, w)"
| "deleter_commit_loop 0 dlr (Some hse) store w = Inl UndefinedBehaviour"
| "deleter_commit_loop (Suc fuel) dlr (Some hse) store w =
     ebind (hs_deref (dlr_pending dlr) (Some hse)) (\<lambda>(_, e).
       let hse_next = hs_next e
       in ebind (frt_deleter_delete_file dlr (hs_elem e) store w) (\<lambda>(dlr, store, w).
            deleter_commit_loop fuel dlr hse_next store w))"

definition deleter_commit_pending_deletions ::
  "frt_deleter \<Rightarrow> ram_store \<Rightarrow> ram_heap \<Rightarrow> (frt_deleter \<times> ram_store \<times> ram_heap) res" where
  "deleter_commit_pending_deletions dlr store w =
     deleter_commit_loop (nat (hs_size (dlr_pending dlr))) dlr (hs_first (dlr_pending dlr)) store w"

section \<open>Which files can go\<close>

text \<open>\<open>atoi\<close> of the digits a string begins with.\<close>

fun atoi_loop :: "int \<Rightarrow> byte list \<Rightarrow> int" where
  "atoi_loop n [] = n"
| "atoi_loop n (c # s) = (if digit_char c then atoi_loop (10 * n + uint c - 48) s else n)"

text \<open>
  The name without its extension and without what follows the last underscore behind its first character. The scan
  from \<open>segment_name + 1\<close> of an empty name starts behind its NUL, and the buffer holds 99 characters.
\<close>

definition segment_of_file :: "byte list \<Rightarrow> (byte list \<times> byte list option) res" where
  "segment_of_file file_name =
     (let (segment_name, extension) = (case strrchr 46 file_name of Some (us, vs) \<Rightarrow> (us, Some vs) | None \<Rightarrow> (file_name, None))
      in if FRT_SEGMENT_NAME_MAX_LENGTH \<le> length file_name then Inl UndefinedBehaviour
         else case segment_name of
           [] \<Rightarrow> Inl UndefinedBehaviour
         | c # s \<Rightarrow> Inr (case strrchr 95 s of Some (us, _) \<Rightarrow> c # us | None \<Rightarrow> segment_name, extension))"

definition deletable ::
  "(cstr, byte list) frt_hash \<Rightarrow> byte list \<Rightarrow> (cstr, segment_info) frt_hash \<Rightarrow> byte list \<Rightarrow> bool res" where
  "deletable fn_extensions curr_seg_file_name current file_name =
     ebind (frt_file_name_filter_is_index_file fn_extensions file_name False) (\<lambda>index_file.
     if \<not> (index_file \<and> file_name \<noteq> curr_seg_file_name \<and> file_name \<noteq> SEGMENTS_GEN_FILE_NAME) then Inr False
     else
     ebind (segment_of_file file_name) (\<lambda>(segment_name, extension).
     ebind (frt_h_get current (PKey (0, segment_name))) (\<lambda>(si, _).
     case si of
       None \<Rightarrow> Inr True
     | Some si \<Rightarrow>
         ebind (file_name_filter_is_cfs_file fn_extensions file_name) (\<lambda>cfs_file.
         if cfs_file \<and> si_use_compound_file si then Inr True
         else case extension of
           None \<Rightarrow> Inl UndefinedBehaviour
         | Some ext \<Rightarrow>
             if ext = str ''del'' then
               ebind (frt_fn_for_generation segment_name (Some (str ''del'')) (si_del_gen si)) (\<lambda>tmp_fn.
                 Inr (tmp_fn \<noteq> Some file_name))
             else if (char_at ext 0 = 115 \<or> char_at ext 0 = 102) \<and> digit_char (char_at ext 1) then
               ebind (si_norm_file_name si (atoi_loop 0 (drop 1 ext))) (\<lambda>tmp_fn.
                 case tmp_fn of None \<Rightarrow> Inl UndefinedBehaviour | Some tmp_fn \<Rightarrow> Inr (tmp_fn \<noteq> file_name))
             else Inr (ext = str ''cfs'' \<and> \<not> si_use_compound_file si)))))"

definition frt_deleter_find_deletable_files_i ::
  "(cstr, byte list) frt_hash \<Rightarrow> byte list \<Rightarrow> (cstr, segment_info) frt_hash \<Rightarrow> byte list \<Rightarrow> frt_deleter \<Rightarrow> ram_heap
     \<Rightarrow> (frt_deleter \<times> ram_heap) res" where
  "frt_deleter_find_deletable_files_i fn_extensions curr_seg_file_name current file_name dlr w =
     ebind (deletable fn_extensions curr_seg_file_name current file_name) (\<lambda>do_delete.
       if do_delete then frt_deleter_queue_file dlr file_name w else Inr (dlr, w))"

fun current_segs :: "segment_info list \<Rightarrow> (cstr, segment_info) frt_hash \<Rightarrow> (cstr, segment_info) frt_hash res" where
  "current_segs [] current = Inr current"
| "current_segs (si # segs) current =
     ebind (frt_h_set current (PKey (0, si_name si)) (Some si)) (\<lambda>(_, current). current_segs segs current)"

fun find_deletable_loop ::
  "(byte list \<Rightarrow> frt_deleter \<Rightarrow> ram_heap \<Rightarrow> (frt_deleter \<times> ram_heap) res) \<Rightarrow> cstr list \<Rightarrow> frt_deleter \<Rightarrow> ram_heap
     \<Rightarrow> (frt_deleter \<times> ram_heap) res" where
  "find_deletable_loop f [] dlr w = Inr (dlr, w)"
| "find_deletable_loop f (n # names) dlr w = ebind (f (snd n) dlr w) (\<lambda>(dlr, w). find_deletable_loop f names dlr w)"

definition frt_deleter_find_deletable_files ::
  "frt_deleter \<Rightarrow> segment_infos \<Rightarrow> ram_store \<Rightarrow> ram_heap \<Rightarrow> (frt_deleter \<times> ram_heap) res" where
  "frt_deleter_find_deletable_files dlr sis store w =
     ebind file_name_filter_init (\<lambda>fn_extensions.
     ebind (current_segs (sis_segs sis) (frt_h_new_str False True)) (\<lambda>current.
     ebind (ram_each store w) (\<lambda>names.
     ebind (frt_sis_curr_seg_file_name (map snd names)) (\<lambda>curr_seg_file_name.
     ebind (ram_each store w) (\<lambda>names.
     find_deletable_loop (frt_deleter_find_deletable_files_i fn_extensions curr_seg_file_name current) names dlr w)))))"

definition deleter_delete_deletable_files ::
  "frt_deleter \<Rightarrow> segment_infos \<Rightarrow> ram_store \<Rightarrow> ram_heap \<Rightarrow> (frt_deleter \<times> ram_store \<times> ram_heap) res" where
  "deleter_delete_deletable_files dlr sis store w =
     ebind (frt_deleter_find_deletable_files dlr sis store w) (\<lambda>(dlr, w).
     deleter_commit_pending_deletions dlr store w)"

section \<open>Committing\<close>

lemma frt_deleter_delete_file_es:
  assumes S: "ram_ok store w" and es: "str_keys.hs_es (dlr_pending dlr) es"
  shows "\<exists>dlr' store' w'. frt_deleter_delete_file dlr x store w = Inr (dlr', store', w') \<and> ram_ok store' w' \<and>
    ram_dir store' w' = (ram_dir store w)(snd x := None) \<and>
    str_keys.hs_es (dlr_pending dlr') (filter (\<lambda>e. \<not> str_eq (snd e) x) es)"
proof -
  obtain b pending where p: "frt_hs_del (dlr_pending dlr) x = Inr (b, pending)"
    "str_keys.hs_es pending (filter (\<lambda>e. \<not> str_eq (snd e) x) es)" using str_keys.frt_hs_del_es [OF es, of x] by blast
  obtain store1 where e: "ram_exists store x = Inr (ram_dir store w (snd x) \<noteq> None, store1)" "ram_ok store1 w"
    "ram_dir store1 w = ram_dir store w" using ram_exists_ok [OF S, of x] by blast
  show ?thesis
  proof (cases "ram_dir store w (snd x)")
    case None
    then have "ram_dir store w = (ram_dir store w)(snd x := None)" by auto
    then show ?thesis using p e None by (simp add: frt_deleter_delete_file_def)
  next
    case (Some bs)
    from ram_remove_ok [OF e(2), of x] obtain store2 w2 where
      "ram_remove store1 x w = Inr (True, store2, w2)" "ram_ok store2 w2" "ram_dir store2 w2 = (ram_dir store w)(snd x := None)"
      using Some e(3) by auto
    then show ?thesis using p e Some by (simp add: frt_deleter_delete_file_def)
  qed
qed

lemma deleter_commit_loop_ok:
  assumes "ram_ok store w" and "str_keys.hs_es (dlr_pending dlr) es"
  shows "\<exists>dlr' store' w'. deleter_commit_loop (length es) dlr (head_or es None) store w = Inr (dlr', store', w') \<and>
    ram_ok store' w' \<and> str_set (dlr_pending dlr') [] \<and>
    ram_dir store' w' = (\<lambda>n. if n \<in> (\<lambda>e. snd (snd e)) ` set es then None else ram_dir store w n)"
  using assms
proof (induction es arbitrary: dlr store w)
  case Nil
  then show ?case by (auto simp: str_set_def str_keys.hs_ok_def)
next
  case (Cons e es)
  obtain a x where e: "e = (a, x)" by (rule prod.exhaust)
  note D = str_keys.hs_esD [OF Cons.prems(2)]
  have "filter (\<lambda>z. \<not> str_eq (snd z) x) ([] @ e # es) = [] @ es"
    by (rule str_keys.filter_one) (use D(7) in \<open>simp_all add: e str_eq_def\<close>)
  then have f: "filter (\<lambda>z. \<not> str_eq (snd z) x) (e # es) = es" by simp
  obtain dlr1 store1 w1 where 1: "frt_deleter_delete_file dlr x store w = Inr (dlr1, store1, w1)" "ram_ok store1 w1"
    "ram_dir store1 w1 = (ram_dir store w)(snd x := None)" "str_keys.hs_es (dlr_pending dlr1) es"
    using frt_deleter_delete_file_es [OF Cons.prems, of x] unfolding f by blast
  from Cons.IH [OF 1(2,4)] obtain dlr' store' w' where
    2: "deleter_commit_loop (length es) dlr1 (head_or es None) store1 w1 = Inr (dlr', store', w')" "ram_ok store' w'"
      "str_set (dlr_pending dlr') []" "ram_dir store' w' = (\<lambda>n. if n \<in> (\<lambda>e. snd (snd e)) ` set es then None else ram_dir store1 w1 n)"
    by blast
  have "hs_deref (dlr_pending dlr) (Some a) = Inr (a, \<lparr>hs_elem = x, hs_next = head_or es None, hs_prev = None\<rparr>)"
    using D(2) by (simp add: e hs_derefI)
  then have "deleter_commit_loop (length (e # es)) dlr (head_or (e # es) None) store w = Inr (dlr', store', w')"
    using 1(1) 2(1) by (simp add: e Let_def)
  then show ?case using 2(2-4) 1(3) by (auto simp: e fun_eq_iff)
qed

theorem deleter_commit_ok:
  assumes S: "ram_ok store w" and p: "str_set (dlr_pending dlr) xs"
  shows "\<exists>dlr' store' w'. deleter_commit_pending_deletions dlr store w = Inr (dlr', store', w') \<and> ram_ok store' w' \<and>
    str_set (dlr_pending dlr') [] \<and> ram_dir store' w' = (\<lambda>n. if n \<in> snd ` set xs then None else ram_dir store w n)"
proof -
  obtain es where es: "str_keys.hs_es (dlr_pending dlr) es" and xs: "map snd es = xs"
    using p by (auto simp: str_set_def str_keys.hs_ok_def)
  have "(\<lambda>e. snd (snd e)) ` set es = snd ` set xs" by (simp add: xs [symmetric] image_image)
  with deleter_commit_loop_ok [OF S es] str_keys.hs_esD(3,5) [OF es] show ?thesis
    by (simp add: deleter_commit_pending_deletions_def)
qed

section \<open>The table of current segments\<close>

abbreviation seg_named :: "segment_info list \<Rightarrow> byte list \<Rightarrow> segment_info option" where
  "seg_named segs n \<equiv> find (\<lambda>si. si_name si = n) segs"

definition current_ok :: "(cstr, segment_info) frt_hash \<Rightarrow> segment_info list \<Rightarrow> bool" where
  "current_ok current segs \<longleftrightarrow> str_keys.keyed current \<and>
     (\<forall>x. h_map current x = map_option Some (seg_named segs (snd x)))"

lemma current_segs_loop:
  assumes "str_keys.keyed ht" and "h_size ht + int (length segs) < 2 ^ 28" and "distinct (map si_name segs)"
    and "\<forall>x. h_map ht x = map_option Some (seg_named us (snd x))" and "si_name ` set us \<inter> si_name ` set segs = {}"
  shows "\<exists>ht'. current_segs segs ht = Inr ht' \<and> current_ok ht' (us @ segs)"
  using assms
proof (induction segs arbitrary: ht us)
  case Nil
  then show ?case by (simp add: current_ok_def)
next
  case (Cons si segs)
  have "h_size ht < 2 ^ 28" using Cons.prems(2) by simp
  note set = str_keys.frt_h_set_ok [OF Cons.prems(1) this, of "(0, si_name si)" "Some si"]
  obtain r ht1 where 1: "frt_h_set ht (PKey (0, si_name si)) (Some si) = Inr (r, ht1)" "str_keys.keyed ht1"
    "\<forall>z. h_map ht1 z = (if str_eq (0, si_name si) z then Some (Some si) else h_map ht z)"
    "h_size ht1 = h_size ht + (if h_map ht (0, si_name si) = None then 1 else 0)"
    using set by (elim exE conjE) (rule that; assumption)
  have sz: "h_size ht1 + int (length segs) < 2 ^ 28" using 1(4) Cons.prems(2) by (simp split: if_splits)
  have "seg_named us (si_name si) = None" using Cons.prems(5) by (simp add: find_key_None)
  then have "\<forall>x. h_map ht1 x = map_option Some (seg_named (us @ [si]) (snd x))"
    using 1(3) Cons.prems(4) by (auto simp: str_eq_def find_append split: option.split)
  moreover have "si_name ` set (us @ [si]) \<inter> si_name ` set segs = {}" "distinct (map si_name segs)"
    using Cons.prems(3,5) by auto
  ultimately obtain ht' where "current_segs segs ht1 = Inr ht'" "current_ok ht' ((us @ [si]) @ segs)"
    using Cons.IH [OF 1(2) sz] by blast
  then show ?case using 1(1) by simp
qed

lemma current_segs_ok:
  assumes "distinct (map si_name segs)" and "length segs < 2 ^ 28"
  shows "\<exists>current. current_segs segs (frt_h_new_str False True) = Inr current \<and> current_ok current segs"
proof -
  let ?ht = "frt_h_new_str False True :: (cstr, segment_info) frt_hash"
  have "str_table ?ht" "\<And>x. h_map ?ht x = None" "h_size ?ht = 0" by (simp_all add: str_table_new)
  then have K: "str_keys.keyed ?ht" "h_size ?ht + int (length segs) < 2 ^ 28" "\<forall>x. h_map ?ht x = map_option Some (seg_named [] (snd x))"
    using assms(2) by (simp_all add: str_table_keyed)
  from current_segs_loop [OF K(1,2) assms(1) K(3)] show ?thesis by simp
qed

lemma current_get:
  "current_ok current segs \<Longrightarrow> \<exists>ht. frt_h_get current (PKey (0, n)) = Inr (seg_named segs n, ht)"
  using str_keys.frt_h_get_ok [of current "(0, n)"] 
  by (cases "seg_named segs n") (auto simp: current_ok_def)

section \<open>The files of a segment\<close>

text \<open>A segment has the name that \<open>new_segment\<close> gives, and the number of its norms is an \<open>int\<close>.\<close>

definition seg_name_ok :: "segment_info \<Rightarrow> bool" where
  "seg_name_ok si \<longleftrightarrow> (\<exists>k :: u64. si_name si = 95 # digits36 (unat k)) \<and> length (si_norm_gens si) < 2 ^ 31"

text \<open>The files an open segment is read from: the data, the deletions and the norms that are outside the data.\<close>

definition live_files :: "segment_info \<Rightarrow> byte list set" where
  "live_files si =
     (if si_use_compound_file si then {si_name si @ 46 # str ''cfs''} else (\<lambda>e. si_name si @ 46 # e) ` set COMPOUND_EXTENSIONS) \<union>
     {n. 0 \<le> si_del_gen si \<and> frt_fn_for_generation (si_name si) (Some (str ''del'')) (si_del_gen si) = Inr (Some n)} \<union>
     {n. \<exists>i < length (si_norm_gens si). (si_use_compound_file si \<longrightarrow> 0 < si_norm_gens si ! i) \<and>
        si_norm_file_name si (int i) = Inr (Some n)}"

lemma segment_of_file_plain:
  "si_name si = 95 # digits36 (unat (k :: u64)) \<Longrightarrow> 46 \<notin> set e \<Longrightarrow> length e \<le> 12 \<Longrightarrow>
   segment_of_file (si_name si @ 46 # e) = Inr (si_name si, Some e)"
proof -
  assume n: "si_name si = 95 # digits36 (unat k)" and "46 \<notin> set e" and e: "length e \<le> 12"
  have "strrchr 95 (digits36 (unat k)) = None" using digits36_chars by (auto simp: strrchr_None)
  moreover have "strrchr 46 (si_name si @ 46 # e) = Some (si_name si, e)" by (rule strrchr_append) fact
  ultimately show ?thesis using length_digits36 [of k] e
    by (simp add: segment_of_file_def Let_def n FRT_SEGMENT_NAME_MAX_LENGTH_def)
qed

lemma segment_of_file_gen:
  "si_name si = 95 # digits36 (unat (k :: u64)) \<Longrightarrow> 46 \<notin> set e \<Longrightarrow> length e \<le> 12 \<Longrightarrow>
   segment_of_file (si_name si @ 95 # digits36 (unat (g :: u64)) @ 46 # e) = Inr (si_name si, Some e)"
proof -
  assume n: "si_name si = 95 # digits36 (unat k)" and "46 \<notin> set e" and e: "length e \<le> 12"
  let ?g = "digits36 (unat g)"
  have "95 \<notin> set ?g" using digits36_chars by blast
  then have "strrchr 95 (digits36 (unat k) @ 95 # ?g) = Some (digits36 (unat k), ?g)" by (rule strrchr_append)
  moreover have "strrchr 46 ((si_name si @ 95 # ?g) @ 46 # e) = Some (si_name si @ 95 # ?g, e)"
    by (rule strrchr_append) fact
  ultimately show ?thesis using length_digits36 [of k] length_digits36 [of g] e
    by (simp add: segment_of_file_def Let_def n FRT_SEGMENT_NAME_MAX_LENGTH_def)
qed

lemma length_dec_nat: "n < 10 ^ Suc k \<Longrightarrow> length (dec_nat n) \<le> Suc k"
proof (induction k arbitrary: n)
  case 0
  then show ?case by (subst dec_nat.simps) simp
next
  case (Suc k)
  show ?case
  proof (cases "n < 10")
    case True
    then show ?thesis by (subst dec_nat.simps) simp
  next
    case False
    have "n div 10 < 10 ^ Suc k" using Suc.prems by (simp add: div_less_iff_less_mult)
    from Suc.IH [OF this] False show ?thesis by (subst dec_nat.simps) simp
  qed
qed

lemma dec_nat_chars: "c \<in> set (dec_nat n) \<Longrightarrow> digit_char c"
proof (induction n rule: dec_nat.induct)
  case (1 n)
  have d: "digit_char (48 + of_nat d)" if "d < 10" for d
    using that by (simp add: digit_char_def word_le_nat_alt unat_word_ariths unat_of_nat)
  from 1 d [of n] d [of "n mod 10"] show ?case by (subst (asm) (2) dec_nat.simps) (auto split: if_splits)
qed

lemma atoi_loop_dec: "atoi_loop 0 (dec_nat n @ s) = atoi_loop (int n) s"
proof (induction n arbitrary: s rule: dec_nat.induct)
  case (1 n)
  have d: "atoi_loop m ((48 + of_nat d) # s) = atoi_loop (10 * m + int d) s" if "d < 10" for d m and s
  proof -
    have "unat (48 + of_nat d :: byte) = 48 + d" using that by (simp add: unat_word_ariths unat_of_nat)
    then have "digit_char (48 + of_nat d)" "uint (48 + of_nat d :: byte) = 48 + int d"
      using that by (simp_all add: digit_char_def word_le_nat_alt uint_nat)
    then show ?thesis by simp
  qed
  show ?case
  proof (cases "n < 10")
    case True
    then show ?thesis using d [of n 0] by (subst dec_nat.simps) simp
  next
    case False
    have "10 * int (n div 10) + int (n mod 10) = int n" by presburger
    then show ?thesis using False 1 [OF False, of "(48 + of_nat (n mod 10)) # s"] d [of "n mod 10" "int (n div 10)"]
      by (subst dec_nat.simps) simp
  qed
qed

lemma dec_nat_head: "digit_char (char_at (dec_nat n) 0)" "dec_nat n \<noteq> []"
proof -
  show "dec_nat n \<noteq> []" by (subst dec_nat.simps) simp
  then show "digit_char (char_at (dec_nat n) 0)" using dec_nat_chars [of "dec_nat n ! 0" n] by (simp add: char_at_def)
qed

text \<open>What the decision comes to, by the tables that the code builds.\<close>

definition cfs_name :: "byte list \<Rightarrow> bool" where
  "cfs_name n = (case strrchr 46 n of
     Some (_, e) \<Rightarrow> e \<in> set INDEX_EXTENSIONS \<and> e \<noteq> str ''del'' \<and> e \<noteq> str ''gen'' \<and> e \<noteq> str ''cfs'' \<or> char_at e 0 = 102 \<and> digit_char (char_at e 1)
   | None \<Rightarrow> False)"

lemma is_cfs_file_ok: "file_name_filter_init = Inr ht \<Longrightarrow> file_name_filter_is_cfs_file ht n = Inr (cfs_name n)"
proof -
  assume i: "file_name_filter_init = Inr ht"
  then have K: "str_keys.keyed ht" "\<And>x. h_map ht x = (if snd x \<in> set INDEX_EXTENSIONS then Some (Some (snd x)) else None)"
    using file_name_filter_init_ok by (metis Inr_inject)+
  show ?thesis
  proof (cases "strrchr 46 n")
    case (Some p)
    obtain us e where p: "p = (us, e)" by fastforce
    from frt_h_get_extension [OF K, of e] obtain ht' where
      "frt_h_get ht (PKey (0, e)) = Inr (if e \<in> set INDEX_EXTENSIONS then Some e else None, ht')" by blast
    then show ?thesis using Some by (simp add: p file_name_filter_is_cfs_file_def cfs_name_def)
  qed (simp add: file_name_filter_is_cfs_file_def cfs_name_def)
qed

text \<open>
  \<open>orphan\<close>: the decision for a segments file named \<open>cur\<close>. \<open>known\<close>: the decision is defined, that is, a file of a
  current segment has an extension, and one with norms is of a field whose norms are written.
\<close>

definition orphan :: "segment_info list \<Rightarrow> byte list \<Rightarrow> byte list \<Rightarrow> bool res" where
  "orphan segs cur n =
    (if \<not> (is_index_name n \<and> n \<noteq> cur \<and> n \<noteq> SEGMENTS_GEN_FILE_NAME) then Inr False
     else ebind (segment_of_file n) (\<lambda>(name, ext). case seg_named segs name of
       None \<Rightarrow> Inr True
     | Some si \<Rightarrow> if cfs_name n \<and> si_use_compound_file si then Inr True
         else case ext of None \<Rightarrow> Inl UndefinedBehaviour
         | Some e \<Rightarrow>
             if e = str ''del'' then ebind (frt_fn_for_generation name (Some (str ''del'')) (si_del_gen si)) (\<lambda>f. Inr (f \<noteq> Some n))
             else if (char_at e 0 = 115 \<or> char_at e 0 = 102) \<and> digit_char (char_at e 1) then
               ebind (si_norm_file_name si (atoi_loop 0 (drop 1 e))) (\<lambda>f. case f of None \<Rightarrow> Inl UndefinedBehaviour | Some f \<Rightarrow> Inr (f \<noteq> n))
             else Inr (e = str ''cfs'' \<and> \<not> si_use_compound_file si)))"

lemma deletable_eq:
  assumes "file_name_filter_init = Inr ht" and "current_ok current segs"
  shows "deletable ht cur current n = orphan segs cur n"
proof -
  have k: "ebind (frt_h_get current (PKey (0, name))) (\<lambda>(si, _). k si) = k (seg_named segs name)" for name and k :: "_ \<Rightarrow> bool res"
    using current_get [OF assms(2), of name] by auto
  show ?thesis
    unfolding deletable_def orphan_def is_index_file_ok [OF assms(1)] is_cfs_file_ok [OF assms(1)] ebind_simps k by (rule refl)
qed

lemma compound_extension: "e \<in> set COMPOUND_EXTENSIONS \<Longrightarrow> length e \<le> 12 \<and>
    46 \<notin> set e \<and> e \<noteq> str ''del'' \<and> e \<noteq> str ''cfs'' \<and> \<not> ((char_at e 0 = 115 \<or> char_at e 0 = 102) \<and> digit_char (char_at e 1))"
  by (auto simp: COMPOUND_EXTENSIONS_def char_at_def digit_char_def)

lemma norm_extension:
  assumes "e = c # dec_nat i" and "c = 115 \<or> c = 102" and "i < 2 ^ 31"
  shows "length e \<le> 12" and "46 \<notin> set e" and "e \<noteq> str ''del''" and "(char_at e 0 = 115 \<or> char_at e 0 = 102) \<and> digit_char (char_at e 1)"
    and "atoi_loop 0 (drop 1 e) = int i"
proof -
  show "length e \<le> 12" using length_dec_nat [of i 9] assms by simp
  have "digit_char c \<Longrightarrow> c \<noteq> 46" for c by (auto simp: digit_char_def)
  then show "46 \<notin> set e" using assms dec_nat_chars by auto
  show "e \<noteq> str ''del''" using assms by auto
  show "(char_at e 0 = 115 \<or> char_at e 0 = 102) \<and> digit_char (char_at e 1)"
    using dec_nat_head [of i] assms by (auto simp: char_at_def)
  show "atoi_loop 0 (drop 1 e) = int i" using atoi_loop_dec [of i "[]"] assms(1) by simp
qed

lemma deletable_live:
  assumes T: "file_name_filter_init = Inr ht" "current_ok current segs"
    and si: "seg_named segs (si_name si) = Some si" "seg_name_ok si" and n: "n \<in> live_files si"
  shows "deletable ht cur current n = Inr False"
proof -
  obtain k :: u64 where k: "si_name si = 95 # digits36 (unat k)" and gens: "length (si_norm_gens si) < 2 ^ 31"
    using si(2) by (auto simp: seg_name_ok_def)
  from n consider
      (cfs) "si_use_compound_file si" "n = si_name si @ 46 # str ''cfs''"
    | (data) e where "\<not> si_use_compound_file si" "e \<in> set COMPOUND_EXTENSIONS" "n = si_name si @ 46 # e"
    | (del) "0 \<le> si_del_gen si" "frt_fn_for_generation (si_name si) (Some (str ''del'')) (si_del_gen si) = Inr (Some n)"
    | (norm) i where "i < length (si_norm_gens si)" "si_use_compound_file si \<longrightarrow> 0 < si_norm_gens si ! i"
        "si_norm_file_name si (int i) = Inr (Some n)"
    unfolding live_files_def by (auto split: if_splits)
  then show ?thesis
  proof cases
    case cfs
    have e: "46 \<notin> set (str ''cfs'')" "length (str ''cfs'') \<le> 12" by simp_all
    from segment_of_file_plain [OF k e] strrchr_append [OF e(1), of "si_name si"] show ?thesis
      using cfs si(1) by (simp add: deletable_eq [OF T] orphan_def cfs_name_def char_at_def del: str_simps) (simp add: digit_char_def)
  next
    case data
    note e = compound_extension [OF data(2)]
    from segment_of_file_plain [OF k, of e] e data si(1) show ?thesis by (auto simp: deletable_eq [OF T] orphan_def)
  next
    case del
    then have neq: "si_del_gen si \<noteq> - 1" by simp
    have e: "46 \<notin> set (str ''del'')" "length (str ''del'') \<le> 12" by simp_all
    note seg = segment_of_file_gen [OF k e, of "word_of_int (si_del_gen si)"]
    have "n = si_name si @ 95 # digits36 (unat (word_of_int (si_del_gen si) :: u64)) @ 46 # str ''del''"
      using del(2) frt_fn_for_generation_ok [OF neq, of "str ''del''" "si_name si"] by simp
    moreover have "strrchr 46 ((si_name si @ 95 # digits36 (unat (word_of_int (si_del_gen si) :: u64))) @ 46 # str ''del'') =
        Some (si_name si @ 95 # digits36 (unat (word_of_int (si_del_gen si) :: u64)), str ''del'')" by (rule strrchr_append) simp
    ultimately have "\<not> cfs_name n" "segment_of_file n = Inr (si_name si, Some (str ''del''))"
      using seg by (simp_all add: cfs_name_def char_at_def)
    then show ?thesis using del si(1) by (simp add: deletable_eq [OF T] orphan_def)
  next
    case norm
    let ?gen = "si_norm_gens si ! i"
    let ?c = "if si_use_compound_file si \<and> ?gen > 0 then 115 else 102 :: byte"
    define e where "e = ?c # dec_nat i"
    have gen: "0 \<le> ?gen" using norm(1,3) by (auto simp: si_norm_file_name_def Let_def split: if_splits)
    then have neq: "?gen \<noteq> - 1" by simp
    have "i < 2 ^ 31" using norm(1) gens by simp
    note x = norm_extension [OF e_def _ this]
    have "n = si_name si @ 95 # digits36 (unat (word_of_int ?gen :: u64)) @ 46 # e"
      using norm(1,3) gen fn_for_gen_field_ok [OF neq] by (auto simp: si_norm_file_name_def Let_def e_def dec_int_def)
    with x have seg: "segment_of_file n = Inr (si_name si, Some e)" and last: "strrchr 46 n = Some (si_name si @ 95 # digits36 (unat (word_of_int ?gen :: u64)), e)"
      using segment_of_file_gen [OF k, of e "word_of_int ?gen"]
        strrchr_append [of 46 e "si_name si @ 95 # digits36 (unat (word_of_int ?gen :: u64))"] by auto
    have "\<not> (cfs_name n \<and> si_use_compound_file si)"
    proof
      assume a: "cfs_name n \<and> si_use_compound_file si"
      then have "?c = 115" using norm(2) by simp
      then have "char_at e 0 = 115" "e \<notin> set INDEX_EXTENSIONS"
        using x(3) by (auto simp: e_def char_at_def INDEX_EXTENSIONS_def)
      with a last show False by (simp add: cfs_name_def)
    qed
    then show ?thesis using seg x si(1) norm(3) by (auto simp: deletable_eq [OF T] orphan_def split: if_splits)
  qed
qed

section \<open>Deleting\<close>

lemma frt_deleter_queue_file_ok:
  assumes "str_set (dlr_pending dlr) xs" and "length xs < 2 ^ 28"
  shows "\<exists>dlr' w' xs'. frt_deleter_queue_file dlr n w = Inr (dlr', w') \<and> str_set (dlr_pending dlr') xs' \<and>
    snd ` set xs' = insert n (snd ` set xs) \<and> length xs' \<le> length xs + 1 \<and> rh_files w' = rh_files w \<and> rh_next w \<le> rh_next w'"
proof -
  from str_set_add [OF assms, of "(rh_next w, n)"] obtain r pending where
    "frt_hs_add (dlr_pending dlr) (rh_next w, n) = Inr (r, pending)" "str_set pending (str_add xs (rh_next w, n))" by blast
  then show ?thesis
    by (intro exI [of _ "dlr\<lparr>dlr_pending := pending\<rparr>"] exI [of _ "w\<lparr>rh_next := rh_next w + 1\<rparr>"] exI [of _ "str_add xs (rh_next w, n)"])
      (auto simp: frt_deleter_queue_file_def frt_estrdup_def str_add_def str_eq_def image_iff)
qed

text \<open>\<open>decides f P\<close>: the call \<open>f\<close> on a name queues it or not, by \<open>P\<close>.\<close>

lemma find_deletable_loop_ok:
  assumes "\<forall>n \<in> set names. deletable ht cur current (snd n) = Inr (P (snd n))"
    and "str_set (dlr_pending dlr) xs" and "length xs + length names < 2 ^ 28"
  shows "\<exists>dlr' w' xs'. find_deletable_loop (frt_deleter_find_deletable_files_i ht cur current) names dlr w = Inr (dlr', w') \<and>
    str_set (dlr_pending dlr') xs' \<and> snd ` set xs' = snd ` set xs \<union> {n \<in> snd ` set names. P n} \<and>
    rh_files w' = rh_files w \<and> rh_next w \<le> rh_next w'"
  using assms
proof (induction names arbitrary: dlr w xs)
  case (Cons n names)
  have d: "deletable ht cur current (snd n) = Inr (P (snd n))" using Cons.prems(1) by simp
  show ?case
  proof (cases "P (snd n)")
    case False
    have "length xs + length names < 2 ^ 28" using Cons.prems(3) by simp
    with Cons.IH [OF _ Cons.prems(2), of w] Cons.prems(1) obtain dlr' w' xs' where
      1: "find_deletable_loop (frt_deleter_find_deletable_files_i ht cur current) names dlr w = Inr (dlr', w')"
        "str_set (dlr_pending dlr') xs'" "snd ` set xs' = snd ` set xs \<union> {n \<in> snd ` set names. P n}"
        "rh_files w' = rh_files w" "rh_next w \<le> rh_next w'" by auto
    have "{x \<in> snd ` set (n # names). P x} = {x \<in> snd ` set names. P x}" using False by auto
    moreover have "frt_deleter_find_deletable_files_i ht cur current (snd n) dlr w = Inr (dlr, w)"
      using d False by (simp add: frt_deleter_find_deletable_files_i_def)
    ultimately show ?thesis using 1 by (intro exI [of _ dlr'] exI [of _ w'] exI [of _ xs']) simp
  next
    case True
    have "length xs < 2 ^ 28" using Cons.prems(3) by simp
    from frt_deleter_queue_file_ok [OF Cons.prems(2) this, of "snd n" w] obtain dlr1 w1 xs1 where
      1: "frt_deleter_queue_file dlr (snd n) w = Inr (dlr1, w1)" "str_set (dlr_pending dlr1) xs1"
        "snd ` set xs1 = insert (snd n) (snd ` set xs)" "length xs1 \<le> length xs + 1" "rh_files w1 = rh_files w" "rh_next w \<le> rh_next w1" by blast
    have "length xs1 + length names < 2 ^ 28" using 1(4) Cons.prems(3) by simp
    with Cons.IH [OF _ 1(2), of w1] Cons.prems(1) obtain dlr' w' xs' where
      2: "find_deletable_loop (frt_deleter_find_deletable_files_i ht cur current) names dlr1 w1 = Inr (dlr', w')"
        "str_set (dlr_pending dlr') xs'" "snd ` set xs' = snd ` set xs1 \<union> {n \<in> snd ` set names. P n}"
        "rh_files w' = rh_files w1" "rh_next w1 \<le> rh_next w'" by auto
    have "{x \<in> snd ` set (n # names). P x} = insert (snd n) {x \<in> snd ` set names. P x}" using True by auto
    moreover have "frt_deleter_find_deletable_files_i ht cur current (snd n) dlr w = Inr (dlr1, w1)"
      using 1(1) d True by (simp add: frt_deleter_find_deletable_files_i_def)
    ultimately show ?thesis using 1(3-6) 2 by (intro exI [of _ dlr'] exI [of _ w'] exI [of _ xs']) simp
  qed
qed auto

text \<open>The highest generation among the names that are listed.\<close>

definition dir_gen :: "(byte list \<Rightarrow> byte list option) \<Rightarrow> int" where
  "dir_gen d = Max (insert (- 1) {g. \<exists>n. take (length FRT_LOCK_PREFIX) n \<noteq> FRT_LOCK_PREFIX \<and> d n \<noteq> None \<and> seg_gen_of n = Some g})"

definition newest_segments_file :: "(byte list \<Rightarrow> byte list option) \<Rightarrow> byte list \<Rightarrow> bool" where
  "newest_segments_file d n \<longleftrightarrow> segfn_for_generation (word_of_int (dir_gen d)) = Inr n"

lemma current_generation_dir:
  assumes "snd ` set names = {n. take (length FRT_LOCK_PREFIX) n \<noteq> FRT_LOCK_PREFIX \<and> d n \<noteq> None}"
  shows "frt_sis_current_segment_generation (map snd names) = dir_gen d"
proof -
  have "{g. \<exists>n \<in> set (map snd names). seg_gen_of n = Some g} =
      {g. \<exists>n. take (length FRT_LOCK_PREFIX) n \<noteq> FRT_LOCK_PREFIX \<and> d n \<noteq> None \<and> seg_gen_of n = Some g}"
    unfolding set_map assms by blast
  then show ?thesis by (simp add: current_generation_max dir_gen_def)
qed

lemma curr_seg_file_ok:
  assumes "snd ` set names = {n. take (length FRT_LOCK_PREFIX) n \<noteq> FRT_LOCK_PREFIX \<and> d n \<noteq> None}"
  shows "\<exists>cur. frt_sis_curr_seg_file_name (map snd names) = Inr cur \<and> newest_segments_file d cur"
  by (simp add: frt_sis_curr_seg_file_name_def current_generation_dir [OF assms] newest_segments_file_def segfn_ok)

theorem deleter_delete_ok:
  assumes S: "ram_ok store w" and p: "str_set (dlr_pending dlr) xs"
    and segs: "distinct (map si_name (sis_segs sis))" "sis_size sis < 2 ^ 28"
    and small: "ram_each store w = Inr names" "length xs + length names < 2 ^ 28"
    and cur: "newest_segments_file (ram_dir store w) cur"
    and known: "\<forall>n. ram_dir store w n \<noteq> None \<longrightarrow> orphan (sis_segs sis) cur n = Inr (P n)"
  shows "\<exists>dlr' store' w'. deleter_delete_deletable_files dlr sis store w = Inr (dlr', store', w') \<and> ram_ok store' w' \<and>
    str_set (dlr_pending dlr') [] \<and>
    (\<forall>n. ram_dir store' w' n = (if n \<in> snd ` set xs \<or> take (length FRT_LOCK_PREFIX) n \<noteq> FRT_LOCK_PREFIX \<and> ram_dir store w n \<noteq> None \<and> P n
       then None else ram_dir store w n))"
proof -
  have names: "snd ` set names = {n. take (length FRT_LOCK_PREFIX) n \<noteq> FRT_LOCK_PREFIX \<and> ram_dir store w n \<noteq> None}"
  proof (rule ram_each_ok [OF S])
    fix names' assume "ram_each store w = Inr names'"
      and *: "snd ` set names' = {n. take (length FRT_LOCK_PREFIX) n \<noteq> FRT_LOCK_PREFIX \<and> ram_dir store w n \<noteq> None}"
    then have "names' = names" using small(1) by simp
    with * show ?thesis by (simp only:)
  qed
  obtain ht where ht: "file_name_filter_init = Inr ht" using file_name_filter_init_ok by blast
  obtain current where current: "current_segs (sis_segs sis) (frt_h_new_str False True) = Inr current" "current_ok current (sis_segs sis)"
    using current_segs_ok [OF segs] by blast
  obtain cur' where "frt_sis_curr_seg_file_name (map snd names) = Inr cur'" "newest_segments_file (ram_dir store w) cur'"
    using curr_seg_file_ok [OF names] by blast
  then have c: "frt_sis_curr_seg_file_name (map snd names) = Inr cur" using cur by (simp add: newest_segments_file_def)
  have "\<forall>n \<in> set names. deletable ht cur current (snd n) = Inr (P (snd n))"
  proof
    fix n assume "n \<in> set names"
    then have "snd n \<in> snd ` set names" by (rule imageI)
    then have "ram_dir store w (snd n) \<noteq> None" unfolding names by simp
    then show "deletable ht cur current (snd n) = Inr (P (snd n))"
      using known by (simp add: deletable_eq [OF ht current(2)])
  qed
  from find_deletable_loop_ok [OF this p small(2), of w] obtain dlr1 w1 xs1 where
    1: "find_deletable_loop (frt_deleter_find_deletable_files_i ht cur current) names dlr w = Inr (dlr1, w1)"
      "str_set (dlr_pending dlr1) xs1" "snd ` set xs1 = snd ` set xs \<union> {n \<in> snd ` set names. P n}"
      "rh_files w1 = rh_files w" "rh_next w \<le> rh_next w1" by blast
  have bytes: "heap_bytes w1 = heap_bytes w" using 1(4) by (intro ext) (simp add: heap_bytes_def)
  then have S1: "ram_dir store w1 = ram_dir store w" by (intro ext) (simp add: ram_dir_def)
  have S0: "ram_ok store w1" using S 1(4,5) by (fastforce simp: ram_ok_def heap_ok_def file_ok_def)
  from deleter_commit_ok [OF S0 1(2)] obtain dlr' store' w' where
    2: "deleter_commit_pending_deletions dlr1 store w1 = Inr (dlr', store', w')" "ram_ok store' w'" "str_set (dlr_pending dlr') []"
      "ram_dir store' w' = (\<lambda>n. if n \<in> snd ` set xs1 then None else ram_dir store w1 n)" by blast
  have "deleter_delete_deletable_files dlr sis store w = Inr (dlr', store', w')"
    unfolding deleter_delete_deletable_files_def frt_deleter_find_deletable_files_def ht current(1) small(1) c 1(1) ebind_simps
    using 2(1) by simp
  then show ?thesis using 2(2-4) by (auto simp: S1 1(3) names)
qed

lemma ram_each_loop_length:
  "ram_each_loop tb w = Inr names \<Longrightarrow> \<forall>he \<in> set tb. he_value he \<noteq> None \<longrightarrow> he_active he \<Longrightarrow> int (length names) \<le> count_if he_active tb"
proof (induction tb arbitrary: names)
  case (Cons he tb)
  show ?case
  proof (cases "he_value he")
    case None
    with Cons show ?thesis by (simp add: count_if_def)
  next
    case (Some r)
    then have "he_active he" using Cons.prems(2) by simp
    from Some Cons.prems(1) obtain ns where ns: "ram_each_loop tb w = Inr ns" "length names \<le> length ns + 1"
      by (auto simp: ebind_eq_Inr split: if_splits)
    from Cons.IH [OF ns(1)] Cons.prems(2) have "int (length ns) \<le> count_if he_active tb" by simp
    with \<open>he_active he\<close> ns(2) show ?thesis by (simp add: count_if_def)
  qed
qed (simp add: count_if_def)

lemma ram_each_length:
  assumes S: "ram_ok store w" and e: "ram_each store w = Inr names"
  shows "int (length names) \<le> h_size (dir_ht store)"
proof -
  let ?ht = "dir_ht store"
  have K: "str_keys.keyed ?ht" using S by (simp add: ram_ok_def tab_ok_def)
  note inv = str_keys.keyedD(1) [OF K]
  have "he_active he" if he: "he \<in> set (h_table ?ht)" "he_value he \<noteq> None" for he
  proof -
    from he(1) obtain j where j: "j < length (h_table ?ht)" "he = h_table ?ht ! j" by (auto simp: in_set_conv_nth)
    show ?thesis using str_keys.inactive_entry(1) [OF inv j(1)] he(2) j(2) by (metis)
  qed
  then show ?thesis using ram_each_loop_length [OF e [unfolded ram_each_def]] by (simp add: str_keys.keyedD(7) [OF K])
qed

text \<open>The files of the current segments are no orphans.\<close>

lemma live_not_orphan:
  assumes segs: "distinct (map si_name segs)" "length segs < 2 ^ 28" and si: "si \<in> set segs" "seg_name_ok si" and n: "n \<in> live_files si"
  shows "orphan segs cur n = Inr False"
proof -
  obtain ht where ht: "file_name_filter_init = Inr ht" using file_name_filter_init_ok by blast
  obtain current where current: "current_ok current segs" using current_segs_ok [OF segs] by blast
  have "seg_named segs (si_name si) = Some si"
  proof (cases "seg_named segs (si_name si)")
    case None
    with si(1) show ?thesis by (auto simp: find_key_None)
  next
    case (Some si')
    then have "si' \<in> set segs" "si_name si' = si_name si" by (auto simp: find_Some_iff)
    with segs(1) si(1) Some show ?thesis by (metis distinct_map inj_onD)
  qed
  from deletable_live [OF ht current this si(2) n] show ?thesis
    by (simp add: deletable_eq [OF ht current])
qed

section \<open>Deleting a segment\<close>

lemma norm_file_extension:
  assumes "si_norm_file_name si k = Inr (Some n)"
  shows "\<exists>us c s. strrchr 46 n = Some (us, c # s) \<and> (c = 115 \<or> c = 102)"
proof -
  let ?c = "if si_use_compound_file si \<and> si_norm_gens si ! nat k > 0 then 115 else 102 :: byte"
  from assms have k: "0 \<le> k" "si_norm_gens si ! nat k \<noteq> - 1"
    by (auto simp: si_norm_file_name_def Let_def split: if_splits)
  with assms fn_for_gen_field_ok [OF k(2)]
  have n: "n = (si_name si @ 95 # digits36 (unat (word_of_int (si_norm_gens si ! nat k) :: u64))) @ 46 # ?c # dec_nat (nat k)"
    by (auto simp: si_norm_file_name_def Let_def dec_int_def split: if_splits)
  have "digit_char c \<Longrightarrow> c \<noteq> 46" for c by (auto simp: digit_char_def)
  then have "46 \<notin> set (?c # dec_nat (nat k))" using dec_nat_chars by auto
  note last = strrchr_append [OF this, of "si_name si @ 95 # digits36 (unat (word_of_int (si_norm_gens si ! nat k) :: u64))"]
  show ?thesis unfolding n by (intro exI conjI, rule last) simp
qed

lemma si_norm_files_extension:
  "si_norm_files k si fis = Inr ns \<Longrightarrow> n \<in> set ns \<Longrightarrow> \<exists>us c s. strrchr 46 n = Some (us, c # s) \<and> (c = 115 \<or> c = 102)"
proof (induction k arbitrary: ns)
  case (Suc k)
  from Suc.prems(1) obtain ns1 ns2 where 1: "si_norm_files k si fis = Inr ns2" "ns = ns1 @ ns2"
    "ns1 = [] \<or> (\<exists>m. ns1 = [m] \<and> si_norm_file_name si (fi_number (fis_fields fis ! k)) = Inr (Some m))"
    by (auto simp: ebind_eq_Inr split: if_splits option.splits)
  then show ?case using Suc.IH [OF 1(1)] Suc.prems(2) norm_file_extension by auto
qed simp

text \<open>The name of the deletions is among the queued ones only if it has no generation, which it always has.\<close>

lemma si_delete_files_del:
  assumes d: "si_delete_files si fis = Inr ns" and nc: "\<not> si_use_compound_file si" and si: "seg_name_ok si"
    and f: "frt_fn_for_generation (si_name si) (Some (str ''del'')) (si_del_gen si) = Inr (Some n)"
  shows "n \<notin> set ns"
proof
  assume n: "n \<in> set ns"
  obtain k :: u64 where k: "si_name si = 95 # digits36 (unat k)" using si by (auto simp: seg_name_ok_def)
  have g: "si_del_gen si \<noteq> - 1" using f by (auto simp: frt_fn_for_generation_def)
  let ?us = "si_name si @ 95 # digits36 (unat (word_of_int (si_del_gen si) :: u64))"
  have ne: "n = ?us @ 46 # str ''del''" using f frt_fn_for_generation_ok [OF g, of "str ''del''" "si_name si"] by simp
  have "46 \<notin> set (str ''del'')" by simp
  from strrchr_append [OF this, of ?us] have last: "strrchr 46 n = Some (?us, str ''del'')" by (simp only: ne)
  from d nc obtain norms where norms: "si_norm_files (length (si_norm_gens si)) si fis = Inr norms"
    "ns = norms @ map (\<lambda>ext. si_name si @ str ''.'' @ ext) (rev INDEX_EXTENSIONS)"
    by (auto simp: si_delete_files_def ebind_eq_Inr)
  from n norms(2) consider "n \<in> set norms" | ext where "ext \<in> set INDEX_EXTENSIONS" "n = si_name si @ 46 # ext" by auto
  then show False
  proof cases
    case 1
    from si_norm_files_extension [OF norms(1) this] last show False by auto
  next
    case 2
    have "46 \<notin> set ext" using 2(1) by (auto simp: INDEX_EXTENSIONS_def)
    from strrchr_append [OF this, of "si_name si"] last 2(2) have "si_name si = ?us" by simp
    then show False by simp
  qed
qed

end
