(* ===== verification/FrtSegmentsFile.thy ===== *)
theory FrtSegmentsFile
  imports FrtDeleter
begin

text \<open>
  The segments file of \<open>frt_index.c\<close>: how the current \<open>segments_N\<close> file is found while a writer may be at work,
  how it is read, and how it is written.

  \<^item> \<open>seg_store\<close> holds the operations of \<open>FrtStore\<close> (\<open>frt_store.h\<close>) that the search calls, on the state \<open>'s\<close> of the
    world; \<open>micro_sleep\<close> is what others do to that state while the search sleeps. An operation that raises leaves
    the state as it was.
  \<^item> \<open>sis_find_segments_file\<close> is the search with its three methods. It may loop for ever, so it is a partial
    function: \<open>None\<close> is a search that does not return.
  \<^item> \<open>RAM_seg_store\<close>, \<open>frt_sis_read\<close>, \<open>frt_sis_read_current_version\<close> and \<open>frt_sis_write\<close> run on a RAM store.
  \<^item> The lemmas: the search returns if the highest generation in the directory never falls (the locale
    \<open>growing_dir\<close>, interpreted on the RAM store), and what was written is what is read.
\<close>

section \<open>The search\<close>

record ('s, 'f) seg_store =
  st_each :: "'s \<Rightarrow> byte list list res"
  st_exists :: "byte list \<Rightarrow> 's \<Rightarrow> (bool \<times> 's) res"
  st_open_input :: "byte list \<Rightarrow> 's \<Rightarrow> ('f instream \<times> 's) res"
  st_methods :: "'s \<Rightarrow> 'f is_methods"
  st_close_input :: "'f instream \<Rightarrow> 's \<Rightarrow> 's res"

record find_state =
  fs_gen_look_ahead_count :: nat
  fs_retry :: bool
  fs_method :: nat
  fs_last_gen :: int
  fs_gen :: int

definition GEN_FILE_RETRY_COUNT :: nat where
  "GEN_FILE_RETRY_COUNT = 10"

definition GEN_LOOK_AHEAD_COUNT :: nat where
  "GEN_LOOK_AHEAD_COUNT = 10"

text \<open>A block that handles every exception: \<open>None\<close> when one was raised. A crash is none.\<close>

definition handled :: "'a res \<Rightarrow> 'a option res" where
  "handled r = (case r of
     Inr x \<Rightarrow> Inr (Some x)
   | Inl e \<Rightarrow> if e = UndefinedBehaviour then Inl UndefinedBehaviour else Inr None)"

text \<open>The two numbers of the \<open>segments\<close> file; they stay \<open>- 1\<close> when the read raises.\<close>

definition read_gens :: "('s, 'f) seg_store \<Rightarrow> 'f instream \<Rightarrow> 's \<Rightarrow> (int \<times> int \<times> 'f instream) res" where
  "read_gens store gen_is s =
     ebind (handled (frt_is_read_u64 (st_methods store s) gen_is)) (\<lambda>r. case r of
       None \<Rightarrow> Inr (- 1, - 1, gen_is)
     | Some (gen0, gen_is) \<Rightarrow>
         ebind (handled (frt_is_read_u64 (st_methods store s) gen_is)) (\<lambda>r. case r of
           None \<Rightarrow> Inr (sint gen0, - 1, gen_is)
         | Some (gen1, gen_is) \<Rightarrow> Inr (sint gen0, sint gen1, gen_is)))"

fun gen_file_loop :: "('s, 'f) seg_store \<Rightarrow> ('s \<Rightarrow> 's) \<Rightarrow> nat \<Rightarrow> int \<Rightarrow> 's \<Rightarrow> (int \<times> 's) res" where
  "gen_file_loop store micro_sleep 0 gen s = Inr (gen, s)"
| "gen_file_loop store micro_sleep (Suc i) gen s =
     ebind (handled (st_open_input store SEGMENTS_GEN_FILE_NAME s)) (\<lambda>r. case r of
       None \<Rightarrow> gen_file_loop store micro_sleep i gen (micro_sleep s)
     | Some (gen_is, s) \<Rightarrow>
         ebind (read_gens store gen_is s) (\<lambda>(gen0, gen1, gen_is).
         ebind (st_close_input store gen_is s) (\<lambda>s.
           Inr (if gen0 = gen1 \<and> gen0 > gen then gen0 else gen, s))))"

text \<open>The choice of a generation by the three methods.\<close>

definition find_gen :: "('s, 'f) seg_store \<Rightarrow> ('s \<Rightarrow> 's) \<Rightarrow> find_state \<Rightarrow> 's \<Rightarrow> (find_state \<times> 's) res" where
  "find_gen store micro_sleep fs s =
     ebind (if fs_method fs = 0 then
              ebind (st_each store s) (\<lambda>names.
                let gen = frt_sis_current_segment_generation names
                in if gen = - 1 then Inl FRT_FILE_NOT_FOUND_ERROR else Inr (fs\<lparr>fs_gen := gen\<rparr>))
            else Inr fs) (\<lambda>fs.
     ebind (if fs_method fs = 1 \<or> fs_method fs = 0 \<and> fs_last_gen fs = fs_gen fs \<and> fs_retry fs then
              ebind (gen_file_loop store micro_sleep GEN_FILE_RETRY_COUNT (fs_gen fs) s) (\<lambda>(gen, s).
                Inr (fs\<lparr>fs_method := 1, fs_gen := gen\<rparr>, s))
            else Inr (fs, s)) (\<lambda>(fs, s).
     Inr (if fs_method fs = 2 \<or> fs_method fs = 1 \<and> fs_last_gen fs = fs_gen fs \<and> fs_retry fs then
            (if fs_gen_look_ahead_count fs < GEN_LOOK_AHEAD_COUNT then
               fs\<lparr>fs_method := 2, fs_gen := fs_gen fs + 1, fs_gen_look_ahead_count := fs_gen_look_ahead_count fs + 1\<rparr>
             else fs\<lparr>fs_method := 2\<rparr>)
          else fs, s)))"

text \<open>The same generation may be tried twice, after a sleep.\<close>

definition find_retry :: "('s \<Rightarrow> 's) \<Rightarrow> find_state \<Rightarrow> 's \<Rightarrow> (find_state \<times> 's) res" where
  "find_retry micro_sleep fs s =
     (if fs_last_gen fs = fs_gen fs then
        (if fs_retry fs then Inl FRT_IO_ERROR
         else Inr (fs\<lparr>fs_retry := True\<rparr>, micro_sleep s))
      else Inr (fs\<lparr>fs_retry := False, fs_last_gen := fs_gen fs\<rparr>, s))"

definition run_error :: "frt_error \<Rightarrow> bool" where
  "run_error e \<longleftrightarrow> e = FRT_IO_ERROR \<or> e = FRT_FILE_NOT_FOUND_ERROR \<or> e = FRT_EOF_ERROR"

text \<open>\<open>run\<close> on the generation and, when that raises, on the one before it.\<close>

definition find_run ::
  "('s, 'f) seg_store \<Rightarrow> (int \<Rightarrow> 's \<Rightarrow> ('a \<times> 's) res) \<Rightarrow> find_state \<Rightarrow> 's \<Rightarrow> ('a option \<times> 's) res" where
  "find_run store run fs s =
     (case run (fs_gen fs) s of
        Inr (ret, s) \<Rightarrow> Inr (Some ret, s)
      | Inl e \<Rightarrow>
          if \<not> run_error e then Inl e
          else if \<not> fs_retry fs \<and> fs_gen fs > 1 then
            ebind (segfn_for_generation (word_of_int (fs_gen fs - 1))) (\<lambda>prev_seg_file_name.
            ebind (st_exists store prev_seg_file_name s) (\<lambda>(e, s).
            if e then
              (case run (fs_gen fs - 1) s of
                 Inr (ret, s) \<Rightarrow> Inr (Some ret, s)
               | Inl e \<Rightarrow> if run_error e then Inr (None, s) else Inl e)
            else Inr (None, s)))
          else Inr (None, s))"

text \<open>One round of the loop.\<close>

definition find_round ::
  "('s, 'f) seg_store \<Rightarrow> ('s \<Rightarrow> 's) \<Rightarrow> (int \<Rightarrow> 's \<Rightarrow> ('a \<times> 's) res) \<Rightarrow> find_state \<Rightarrow> 's \<Rightarrow> ('a option \<times> find_state \<times> 's) res" where
  "find_round store micro_sleep run fs s =
     ebind (find_gen store micro_sleep fs s) (\<lambda>(fs, s).
     ebind (find_retry micro_sleep fs s) (\<lambda>(fs, s).
     ebind (find_run store run fs s) (\<lambda>(ret, s). Inr (ret, fs, s))))"

partial_function (option) find_loop ::
  "('s, 'f) seg_store \<Rightarrow> ('s \<Rightarrow> 's) \<Rightarrow> (int \<Rightarrow> 's \<Rightarrow> ('a \<times> 's) res) \<Rightarrow> find_state \<Rightarrow> 's \<Rightarrow> ('a \<times> 's) res option" where
  "find_loop store micro_sleep run fs s =
     (case find_round store micro_sleep run fs s of
        Inl e \<Rightarrow> Some (Inl e)
      | Inr (ret, fs', s') \<Rightarrow>
          (case ret of
             Some v \<Rightarrow> Some (Inr (v, s'))
           | None \<Rightarrow> find_loop store micro_sleep run fs' s'))"

definition find_start :: find_state where
  "find_start = \<lparr>fs_gen_look_ahead_count = 0, fs_retry = False, fs_method = 0, fs_last_gen = - 1, fs_gen = 0\<rparr>"

definition sis_find_segments_file ::
  "('s, 'f) seg_store \<Rightarrow> ('s \<Rightarrow> 's) \<Rightarrow> (int \<Rightarrow> 's \<Rightarrow> ('a \<times> 's) res) \<Rightarrow> 's \<Rightarrow> ('a \<times> 's) res option" where
  "sis_find_segments_file store micro_sleep run s = find_loop store micro_sleep run find_start s"

section \<open>Reading and writing on a RAM store\<close>

definition RAM_seg_store :: "(ram_store \<times> ram_heap, ram_in) seg_store" where
  "RAM_seg_store =
     \<lparr>st_each = (\<lambda>(store, w). ebind (ram_each store w) (\<lambda>names. Inr (map snd names))),
      st_exists = (\<lambda>n (store, w). ebind (ram_exists store (0, n)) (\<lambda>(e, store). Inr (e, store, w))),
      st_open_input = (\<lambda>n (store, w). ebind (ram_open_input store (0, n) w) (\<lambda>(is, store, w). Inr (is, store, w))),
      st_methods = (\<lambda>(store, w). RAM_IN_STREAM_METHODS w),
      st_close_input = (\<lambda>is (store, w). ebind (rami_close_i (is_file is) w) (\<lambda>w. Inr (store, w)))\<rparr>"

definition frt_sis_read_i ::
  "(byte list \<Rightarrow> u64) \<Rightarrow> int \<Rightarrow> ram_store \<times> ram_heap \<Rightarrow> (segment_infos \<times> ram_store \<times> ram_heap) res" where
  "frt_sis_read_i rb_intern generation s =
     ebind (segfn_for_generation (word_of_int generation)) (\<lambda>seg_file_name.
     load_file (\<lambda>w. sis_read_body (RAM_IN_STREAM_METHODS w) rb_intern generation) (fst s) (0, seg_file_name) (snd s))"

definition frt_sis_read ::
  "(ram_store \<times> ram_heap \<Rightarrow> ram_store \<times> ram_heap) \<Rightarrow> (byte list \<Rightarrow> u64) \<Rightarrow> ram_store \<times> ram_heap
     \<Rightarrow> (segment_infos \<times> ram_store \<times> ram_heap) res option" where
  "frt_sis_read micro_sleep rb_intern = sis_find_segments_file RAM_seg_store micro_sleep (frt_sis_read_i rb_intern)"

definition frt_sis_read_ver_i :: "int \<Rightarrow> ram_store \<times> ram_heap \<Rightarrow> (u64 \<times> ram_store \<times> ram_heap) res" where
  "frt_sis_read_ver_i generation s =
     ebind (segfn_for_generation (word_of_int generation)) (\<lambda>seg_file_name.
     load_file (\<lambda>w. sis_read_ver_body (RAM_IN_STREAM_METHODS w)) (fst s) (0, seg_file_name) (snd s))"

definition frt_sis_read_current_version ::
  "(ram_store \<times> ram_heap \<Rightarrow> ram_store \<times> ram_heap) \<Rightarrow> ram_store \<times> ram_heap \<Rightarrow> (u64 \<times> ram_store \<times> ram_heap) res option" where
  "frt_sis_read_current_version micro_sleep = sis_find_segments_file RAM_seg_store micro_sleep frt_sis_read_ver_i"

text \<open>
  In \<open>frt_sis_write\<close> a \<open>new_output\<close> that raises closes \<open>NULL\<close> in the first block and the stream that was closed
  already in the second. The second block handles its exceptions: a stream whose writes raised is closed.
\<close>

definition opened :: "'a res \<Rightarrow> 'a res" where
  "opened r = (case r of Inl e \<Rightarrow> Inl UndefinedBehaviour | Inr x \<Rightarrow> Inr x)"

definition frt_sis_write ::
  "(u64 \<Rightarrow> byte list) \<Rightarrow> segment_infos \<Rightarrow> ram_store \<Rightarrow> frt_deleter option \<Rightarrow> ram_heap
     \<Rightarrow> (segment_infos \<times> ram_store \<times> frt_deleter option \<times> ram_heap) res" where
  "frt_sis_write rb_id2name sis store deleter w =
     (let generation = sis_generation sis + 1;
          sis = sis\<lparr>sis_generation := generation, sis_version := sis_version sis + 1\<rparr>
      in
     ebind (segfn_for_generation (word_of_int generation)) (\<lambda>buf.
     ebind (opened (ram_new_output store (0, buf) w)) (\<lambda>(os, store, w).
     ebind (sis_write_body RAM_OUT_STREAM_METHODS rb_id2name sis os w) (\<lambda>(os, w).
     ebind (frt_os_close RAM_OUT_STREAM_METHODS os w) (\<lambda>w.
     ebind (opened (ram_new_output store (0, SEGMENTS_GEN_FILE_NAME) w)) (\<lambda>(os, store, w).
     ebind (handled (gen_write_body RAM_OUT_STREAM_METHODS generation os w)) (\<lambda>r.
     ebind (case r of
              Some (os, w) \<Rightarrow> frt_os_close RAM_OUT_STREAM_METHODS os w
            | None \<Rightarrow> frt_os_close RAM_OUT_STREAM_METHODS os w) (\<lambda>w.
     case deleter of
       Some dlr \<Rightarrow>
         if generation > 0 then
           ebind (segfn_for_generation (word_of_int (generation - 1))) (\<lambda>buf.
           ebind (frt_deleter_delete_file dlr (0, buf) store w) (\<lambda>(dlr, store, w). Inr (sis, store, Some dlr, w)))
         else Inr (sis, store, Some dlr, w)
     | None \<Rightarrow> Inr (sis, store, None, w)))))))))"

section \<open>The search returns\<close>

text \<open>
  \<open>growing_dir\<close>: a directory whose highest generation \<open>cur s\<close> never falls, whatever the search and the others do.
\<close>

locale growing_dir =
  fixes store :: "('s, 'f) seg_store" and micro_sleep :: "'s \<Rightarrow> 's" and ok :: "'s \<Rightarrow> bool" and cur :: "'s \<Rightarrow> int"
  assumes each: "ok s \<Longrightarrow> st_each store s = Inr names \<Longrightarrow> frt_sis_current_segment_generation names = cur s"
    and sleep: "ok s \<Longrightarrow> ok (micro_sleep s) \<and> cur s \<le> cur (micro_sleep s)"
    and exists_file: "ok s \<Longrightarrow> st_exists store n s = Inr (e, s') \<Longrightarrow> ok s' \<and> cur s \<le> cur s'"
    and read_close: "ok s \<Longrightarrow> st_open_input store n s = Inr (gen_is, s1) \<Longrightarrow> read_gens store gen_is s1 = Inr (gen0, gen1, gen_is1) \<Longrightarrow>
      st_close_input store gen_is1 s1 = Inr s' \<Longrightarrow> ok s' \<and> cur s \<le> cur s'"
begin

text \<open>How far the search has come: what a round leaves is smaller.\<close>

definition left :: "find_state \<Rightarrow> nat" where
  "left fs = (if fs_method fs = 2 then 2 * (GEN_LOOK_AHEAD_COUNT - fs_gen_look_ahead_count fs)
     else nat (2 * (2 ^ 63 - fs_last_gen fs))) + (if fs_retry fs then 0 else 1)"

definition found :: "find_state \<Rightarrow> 's \<Rightarrow> bool" where
  "found fs s \<longleftrightarrow> fs_method fs \<le> 2 \<and> (fs_method fs = 0 \<longrightarrow> fs_last_gen fs \<le> cur s) \<and>
     (fs_method fs \<noteq> 0 \<longrightarrow> fs_last_gen fs = fs_gen fs)"

lemma gen_below: "sint (g :: u64) < 2 ^ 63"
  using sint_lt [of g] by simp

lemma current_below: "frt_sis_current_segment_generation names < 2 ^ 63"
proof -
  have "which_gen_i n m < 2 ^ 63" if "m < 2 ^ 63" for n m
    using that gen_below by (auto simp: which_gen_i_def Let_def split: option.split)
  then have "m < 2 ^ 63 \<Longrightarrow> fold which_gen_i names m < 2 ^ 63" for m
    by (induction names arbitrary: m) auto
  then show ?thesis by (simp add: frt_sis_current_segment_generation_def)
qed

lemma read_gens_below: "read_gens st gen_is s = Inr (gen0, gen1, gen_is') \<Longrightarrow> gen0 < 2 ^ 63"
  using gen_below by (auto simp: read_gens_def ebind_eq_Inr split: option.splits)

lemma gen_file_loop_ok:
  "gen_file_loop store micro_sleep n gen s = Inr (gen', s') \<Longrightarrow> ok s \<Longrightarrow> gen < 2 ^ 63 \<Longrightarrow>
   ok s' \<and> cur s \<le> cur s' \<and> gen \<le> gen' \<and> gen' < 2 ^ 63"
proof (induction n arbitrary: s)
  case (Suc n)
  from Suc.prems(1) obtain r where r: "handled (st_open_input store SEGMENTS_GEN_FILE_NAME s) = Inr r" by (auto simp: ebind_eq_Inr)
  show ?case
  proof (cases r)
    case None
    with Suc.prems(1) r have "gen_file_loop store micro_sleep n gen (micro_sleep s) = Inr (gen', s')" by simp
    from Suc.IH [OF this] sleep [OF Suc.prems(2)] Suc.prems(3) show ?thesis by auto
  next
    case (Some p)
    obtain gen_is s1 where p: "p = (gen_is, s1)" by (rule prod.exhaust)
    from r Some p have o: "st_open_input store SEGMENTS_GEN_FILE_NAME s = Inr (gen_is, s1)"
      by (auto simp: handled_def split: sum.splits if_splits)
    from Suc.prems(1) r Some p obtain gen0 gen1 gen_is1 where
      1: "read_gens store gen_is s1 = Inr (gen0, gen1, gen_is1)" "st_close_input store gen_is1 s1 = Inr s'"
        "gen' = (if gen0 = gen1 \<and> gen0 > gen then gen0 else gen)"
      by (auto simp: ebind_eq_Inr)
    from read_close [OF Suc.prems(2) o 1(1,2)] read_gens_below [OF 1(1)] 1(3) Suc.prems(3) show ?thesis by auto
  qed
qed simp

lemma each_below: "ok s \<Longrightarrow> st_each store s = Inr names \<Longrightarrow> frt_sis_current_segment_generation names = cur s \<and> cur s < 2 ^ 63"
  using each [of s names] current_below [of names] by simp

text \<open>What the choice of the generation leaves of the search.\<close>

lemma find_gen_ok:
  assumes f: "find_gen store micro_sleep fs s = Inr (fs', s')" and "ok s" and "found fs s" and below: "fs_method fs = 1 \<longrightarrow> fs_gen fs < 2 ^ 63"
  shows "ok s' \<and> cur s \<le> cur s' \<and> fs_retry fs' = fs_retry fs \<and> fs_last_gen fs' = fs_last_gen fs \<and>
    fs_method fs \<le> fs_method fs' \<and> fs_method fs' \<le> 2 \<and> (fs_method fs' = 0 \<longrightarrow> fs_gen fs' = cur s) \<and>
    (fs_method fs' < 2 \<longrightarrow> fs_last_gen fs \<le> fs_gen fs' \<and> fs_gen fs' < 2 ^ 63 \<and> \<not> (fs_last_gen fs = fs_gen fs' \<and> fs_retry fs)) \<and>
    (fs_method fs = 2 \<longrightarrow> (if fs_gen_look_ahead_count fs < GEN_LOOK_AHEAD_COUNT then
       fs_gen fs' = fs_last_gen fs + 1 \<and> fs_gen_look_ahead_count fs' = fs_gen_look_ahead_count fs + 1
     else fs_gen fs' = fs_last_gen fs \<and> fs_gen_look_ahead_count fs' = fs_gen_look_ahead_count fs))"
proof -
  from f obtain fs1 where 1: "(if fs_method fs = 0 then
              ebind (st_each store s) (\<lambda>names.
                let gen = frt_sis_current_segment_generation names
                in if gen = - 1 then Inl FRT_FILE_NOT_FOUND_ERROR else Inr (fs\<lparr>fs_gen := gen\<rparr>))
            else Inr fs) = Inr fs1" unfolding find_gen_def ebind_eq_Inr by blast
  then have fs1: "fs_retry fs1 = fs_retry fs" "fs_last_gen fs1 = fs_last_gen fs" "fs_method fs1 = fs_method fs"
      "fs_gen_look_ahead_count fs1 = fs_gen_look_ahead_count fs" "fs_method fs = 0 \<longrightarrow> fs_gen fs1 = cur s \<and> fs_gen fs1 < 2 ^ 63"
      "fs_method fs \<noteq> 0 \<longrightarrow> fs1 = fs"
    using each_below [OF assms(2)] by (auto simp: ebind_eq_Inr Let_def split: if_splits)
  from f 1 obtain fs2 s2 where 2: "(if fs_method fs1 = 1 \<or> fs_method fs1 = 0 \<and> fs_last_gen fs1 = fs_gen fs1 \<and> fs_retry fs1 then
              ebind (gen_file_loop store micro_sleep GEN_FILE_RETRY_COUNT (fs_gen fs1) s) (\<lambda>(gen, s).
                Inr (fs1\<lparr>fs_method := 1, fs_gen := gen\<rparr>, s))
            else Inr (fs1, s)) = Inr (fs2, s2)"
    and 3: "(if fs_method fs2 = 2 \<or> fs_method fs2 = 1 \<and> fs_last_gen fs2 = fs_gen fs2 \<and> fs_retry fs2 then
            (if fs_gen_look_ahead_count fs2 < GEN_LOOK_AHEAD_COUNT then
               fs2\<lparr>fs_method := 2, fs_gen := fs_gen fs2 + 1, fs_gen_look_ahead_count := fs_gen_look_ahead_count fs2 + 1\<rparr>
             else fs2\<lparr>fs_method := 2\<rparr>)
          else fs2, s2) = (fs', s')" unfolding find_gen_def ebind_eq_Inr by auto
  have m: "fs_method fs = 0 \<or> fs_method fs = 1 \<or> fs_method fs = 2" and last: "fs_method fs = 0 \<longrightarrow> fs_last_gen fs \<le> cur s"
    "fs_method fs \<noteq> 0 \<longrightarrow> fs_last_gen fs = fs_gen fs" using assms(3) by (auto simp: found_def)
  have fs2: "ok s2 \<and> cur s \<le> cur s2 \<and> fs_retry fs2 = fs_retry fs \<and> fs_last_gen fs2 = fs_last_gen fs \<and> fs_method fs \<le> fs_method fs2 \<and> fs_method fs2 \<le> 2 \<and>
      fs_gen_look_ahead_count fs2 = fs_gen_look_ahead_count fs \<and> (fs_method fs2 = 0 \<longrightarrow> fs_gen fs2 = cur s) \<and>
      (fs_method fs2 < 2 \<longrightarrow> fs_last_gen fs \<le> fs_gen fs2 \<and> fs_gen fs2 < 2 ^ 63) \<and>
      (fs_method fs2 = 0 \<longrightarrow> \<not> (fs_last_gen fs = fs_gen fs2 \<and> fs_retry fs)) \<and>
      (fs_method fs = 2 \<longrightarrow> fs_method fs2 = 2 \<and> fs_gen fs2 = fs_last_gen fs)"
  proof (cases "fs_method fs1 = 1 \<or> fs_method fs1 = 0 \<and> fs_last_gen fs1 = fs_gen fs1 \<and> fs_retry fs1")
    case True
    with 2 obtain gen' where l: "gen_file_loop store micro_sleep GEN_FILE_RETRY_COUNT (fs_gen fs1) s = Inr (gen', s2)"
      and e: "fs2 = fs1\<lparr>fs_method := 1, fs_gen := gen'\<rparr>" by (auto simp: ebind_eq_Inr)
    have "fs_gen fs1 < 2 ^ 63" "fs_last_gen fs \<le> fs_gen fs1" "fs_method fs \<le> 1" using True m last fs1 below by auto
    with gen_file_loop_ok [OF l assms(2)] show ?thesis using fs1 by (simp add: e)
  next
    case False
    from 2 [unfolded if_not_P [OF this]] have "fs2 = fs1" "s2 = s" by simp_all
    with m last fs1 assms(2) False show ?thesis by auto
  qed
  show ?thesis
  proof (cases "fs_method fs2 = 2 \<or> fs_method fs2 = 1 \<and> fs_last_gen fs2 = fs_gen fs2 \<and> fs_retry fs2")
    case True
    note e = 3 [unfolded if_P [OF True]]
    show ?thesis
    proof (cases "fs_gen_look_ahead_count fs2 < GEN_LOOK_AHEAD_COUNT")
      case True
      from e [unfolded if_P [OF this]] have "s' = s2"
        "fs' = fs2\<lparr>fs_method := 2, fs_gen := fs_gen fs2 + 1, fs_gen_look_ahead_count := fs_gen_look_ahead_count fs2 + 1\<rparr>" by simp_all
      then show ?thesis using fs2 True m by simp
    next
      case False
      from e [unfolded if_not_P [OF this]] have "s' = s2" "fs' = fs2\<lparr>fs_method := 2\<rparr>" by simp_all
      then show ?thesis using fs2 False m by simp
    qed
  next
    case False
    from 3 [unfolded if_not_P [OF this]] have "fs' = fs2" "s' = s2" by simp_all
    moreover have "fs_method fs2 = 0 \<or> fs_method fs2 = 1" using False fs2 by auto
    ultimately show ?thesis using fs2 False by auto
  qed
qed

lemma find_retry_ok:
  "find_retry micro_sleep fs s = Inr (fs', s') \<Longrightarrow> ok s \<Longrightarrow>
   ok s' \<and> cur s \<le> cur s' \<and> fs_last_gen fs' = fs_gen fs \<and> fs_gen fs' = fs_gen fs \<and> fs_method fs' = fs_method fs \<and>
   fs_gen_look_ahead_count fs' = fs_gen_look_ahead_count fs \<and> fs_retry fs' = (fs_last_gen fs = fs_gen fs) \<and>
   (fs_last_gen fs = fs_gen fs \<longrightarrow> \<not> fs_retry fs)"
  using sleep [of s] by (auto simp: find_retry_def split: if_splits)

lemma find_run_ok:
  assumes r: "find_run store run fs s = Inr (None, s')" and s: "ok s"
  shows "ok s' \<and> cur s \<le> cur s'"
proof (cases "\<not> fs_retry fs \<and> fs_gen fs > 1")
  case True
  obtain x where x: "run (fs_gen fs) s = Inl x" "run_error x"
    using r by (auto simp: find_run_def split: sum.splits if_split_asm)
  have "ebind (segfn_for_generation (word_of_int (fs_gen fs - 1))) (\<lambda>prev_seg_file_name.
      ebind (st_exists store prev_seg_file_name s) (\<lambda>(e, s).
      if e then
        (case run (fs_gen fs - 1) s of
           Inr (ret, s) \<Rightarrow> Inr (Some ret, s)
         | Inl e \<Rightarrow> if run_error e then Inr (None, s) else Inl e)
      else Inr (None, s))) = Inr (None, s')"
    using r x True by (simp add: find_run_def)
  then obtain prev p where p: "st_exists store prev s = Inr p" and
    "(case p of (e, s) \<Rightarrow> if e then
        (case run (fs_gen fs - 1) s of
           Inr (ret, s) \<Rightarrow> Inr (Some ret, s)
         | Inl e \<Rightarrow> if run_error e then Inr (None, s) else Inl e)
      else Inr (None, s)) = Inr (None, s')" unfolding ebind_eq_Inr by (elim exE conjE)
  moreover obtain e s1 where "p = (e, s1)" by (rule prod.exhaust)
  ultimately have e: "st_exists store prev s = Inr (e, s1)" and
    k: "(if e then
        (case run (fs_gen fs - 1) s1 of
           Inr (ret, s) \<Rightarrow> Inr (Some ret, s)
         | Inl e \<Rightarrow> if run_error e then Inr (None, s1) else Inl e)
      else Inr (None, s1)) = Inr (None, s')" by simp_all
  from k have "s' = s1" by (auto split: if_splits sum.splits)
  with exists_file [OF s e] show ?thesis by simp
next
  case False
  with r s show ?thesis by (auto simp: find_run_def split: sum.splits if_splits)
qed

text \<open>A round that does not return comes closer to the end.\<close>

lemma find_round_ok:
  assumes r: "find_round store micro_sleep run fs s = Inr (None, fs', s')" and s: "ok s" "found fs s"
    and below: "fs_method fs = 1 \<longrightarrow> fs_gen fs < 2 ^ 63"
  shows "ok s' \<and> found fs' s' \<and> (fs_method fs' = 1 \<longrightarrow> fs_gen fs' < 2 ^ 63) \<and>
    ((2 - fs_method fs', left fs'), (2 - fs_method fs, left fs)) \<in> less_than <*lex*> less_than"
proof -
  from r obtain fs1 s1 s2 where
    1: "find_gen store micro_sleep fs s = Inr (fs1, s1)" and 2: "find_retry micro_sleep fs1 s1 = Inr (fs', s2)"
    and 3: "find_run store run fs' s2 = Inr (None, s')" by (auto simp: find_round_def ebind_eq_Inr)
  note g = find_gen_ok [OF 1 s below]
  then have ok1: "ok s1" by simp
  note t = find_retry_ok [OF 2 ok1]
  then have ok2: "ok s2" by simp
  note u = find_run_ok [OF 3 ok2]
  have keep: "ok s' \<and> found fs' s' \<and> (fs_method fs' = 1 \<longrightarrow> fs_gen fs' < 2 ^ 63)"
    using g t u by (auto simp: found_def)
  have "fs_method fs < fs_method fs' \<or> fs_method fs' = fs_method fs \<and> left fs' < left fs"
  proof (cases "fs_method fs < fs_method fs'")
    case False
    then have m: "fs_method fs' = fs_method fs" "fs_method fs1 = fs_method fs" using g t by auto
    have r: "fs_retry fs' = (fs_last_gen fs = fs_gen fs1)" "fs_last_gen fs = fs_gen fs1 \<longrightarrow> \<not> fs_retry fs" "fs_last_gen fs' = fs_gen fs1"
      "fs_gen_look_ahead_count fs' = fs_gen_look_ahead_count fs1" using g t by simp_all
    show ?thesis
    proof (cases "fs_method fs = 2")
      case True
      with g have look: "if fs_gen_look_ahead_count fs < GEN_LOOK_AHEAD_COUNT then
         fs_gen fs1 = fs_last_gen fs + 1 \<and> fs_gen_look_ahead_count fs1 = fs_gen_look_ahead_count fs + 1
       else fs_gen fs1 = fs_last_gen fs \<and> fs_gen_look_ahead_count fs1 = fs_gen_look_ahead_count fs" by simp
      then show ?thesis using r m True by (cases "fs_gen_look_ahead_count fs < GEN_LOOK_AHEAD_COUNT") (simp_all add: left_def)
    next
      case False
      then have "fs_method fs1 < 2" using m s(2) by (auto simp: found_def)
      with g have le: "fs_last_gen fs \<le> fs_gen fs1" "fs_gen fs1 < 2 ^ 63" by simp_all
      show ?thesis
      proof (cases "fs_last_gen fs = fs_gen fs1")
        case True
        then show ?thesis using r m False by (simp add: left_def)
      next
        case neq: False
        then have "fs_last_gen fs + 1 \<le> fs_gen fs1" using le by simp
        then have "nat (2 * (2 ^ 63 - fs_gen fs1)) + 2 \<le> nat (2 * (2 ^ 63 - fs_last_gen fs))" using le by simp
        then show ?thesis using r m False neq le by (simp add: left_def)
      qed
    qed
  qed simp
  moreover have "fs_method fs' \<le> 2" using g t by simp
  ultimately have "((2 - fs_method fs', left fs'), (2 - fs_method fs, left fs)) \<in> less_than <*lex*> less_than" by auto
  with keep show ?thesis by blast
qed

lemma find_loop_ends:
  "ok s \<Longrightarrow> found fs s \<Longrightarrow> fs_method fs = 1 \<longrightarrow> fs_gen fs < 2 ^ 63 \<Longrightarrow> \<exists>r. find_loop store micro_sleep run fs s = Some r"
proof (induction "(2 - fs_method fs, left fs)" arbitrary: fs s rule: wf_induct_rule [OF wf_lex_prod [OF wf_less_than wf_less_than]])
  case 1
  show ?case
  proof (cases "find_round store micro_sleep run fs s")
    case (Inl e)
    then show ?thesis by (subst find_loop.simps) simp
  next
    case (Inr p)
    obtain ret fs' s' where p: "p = (ret, fs', s')" by (rule prod_cases3)
    show ?thesis
    proof (cases ret)
      case None
      from find_round_ok [OF Inr [unfolded p None] 1(2,3,4)] have
        "ok s'" "found fs' s'" "fs_method fs' = 1 \<longrightarrow> fs_gen fs' < 2 ^ 63"
        "((2 - fs_method fs', left fs'), (2 - fs_method fs, left fs)) \<in> less_than <*lex*> less_than" by blast+
      then have "\<exists>r. find_loop store micro_sleep run fs' s' = Some r" by (intro 1(1)) auto
      then show ?thesis using Inr p None by (subst find_loop.simps) simp
    next
      case (Some v)
      then show ?thesis using Inr p by (subst find_loop.simps) simp
    qed
  qed
qed

theorem find_ends:
  assumes "ok s" and "- 1 \<le> cur s"
  shows "\<exists>r. sis_find_segments_file store micro_sleep run s = Some r"
  unfolding sis_find_segments_file_def
  by (rule find_loop_ends) (use assms in \<open>simp_all add: found_def find_start_def\<close>)

end

section \<open>The search on a RAM store\<close>

definition ram_in_rf :: "ram_in instream \<Rightarrow> nat" where
  "ram_in_rf is = ri_rf (is_file is)"

lemma read_byte_rf: "frt_is_read_byte (RAM_IN_STREAM_METHODS w) is = Inr (b, is') \<Longrightarrow> ram_in_rf is' = ram_in_rf is"
  by (auto simp: frt_is_read_byte_def is_refill_def read_byte_def RAM_IN_STREAM_METHODS_def rami_read_i_def
      ebind_eq_Inr Let_def ram_in_rf_def split: if_splits)

lemma read_u64_rf: "frt_is_read_u64 (RAM_IN_STREAM_METHODS w) is = Inr (v, is') \<Longrightarrow> ram_in_rf is' = ram_in_rf is"
  by (auto simp: frt_is_read_u64_def ebind_eq_Inr dest!: read_byte_rf)

lemma handled_Some: "handled r = Inr (Some x) \<longleftrightarrow> r = Inr x"
  by (auto simp: handled_def split: sum.splits)

lemma read_gens_rf: "read_gens RAM_seg_store gen_is (store, w) = Inr (gen0, gen1, is') \<Longrightarrow> ram_in_rf is' = ram_in_rf gen_is"
  by (auto simp: read_gens_def ebind_eq_Inr handled_Some RAM_seg_store_def split: option.splits dest!: read_u64_rf)

text \<open>Opening a file and closing it leaves the heap as it was.\<close>

lemma ram_open_close:
  assumes S: "ram_ok store w" and o: "ram_open_input store x w = Inr (is, store1, w1)"
    and rf: "ram_in_rf is1 = ram_in_rf is" and c: "rami_close_i (is_file is1) w1 = Inr w2"
  shows "w2 = w \<and> ram_ok store1 w \<and> ram_dir store1 w = ram_dir store w"
proof -
  let ?ht = "dir_ht store"
  have T: "tab_ok ?ht" and F: "\<And>m s. ref_of ?ht m = Some s \<Longrightarrow> file_ok w m s" using S by (auto simp: ram_ok_def)
  obtain ht1 where h: "frt_h_get ?ht (PKey x) = Inr (ref_of ?ht (snd x), ht1)" "tab_ok ht1"
    "ref_of ht1 = ref_of ?ht" "h_size ht1 = h_size ?ht" using T by (rule ht_get)
  note S1 = ram_ok_get [OF S h(2,3)]
  from o h(1) obtain r where r: "ref_of ?ht (snd x) = Some r" by (auto simp: ram_open_input_def split: option.splits)
  obtain f where f: "rh_files w r = Some f" "1 \<le> rf_ref_cnt f" using F [OF r] by (auto simp: file_ok_def)
  have 1: "w1 = rf_put w r (f\<lparr>rf_ref_cnt := rf_ref_cnt f + 1\<rparr>)" "store1 = store\<lparr>dir_ht := ht1\<rparr>" "ram_in_rf is = r"
    using o h(1) r f(1) by (auto simp: ram_open_input_def FRT_REF_def rf_get_def ram_in_rf_def frt_is_new_def)
  have "w2 = w\<lparr>rh_files := (rh_files w)(r \<mapsto> f)\<rparr>"
    using c f 1(1) rf 1(3) by (simp add: rami_close_i_def rf_close_def rf_get_def rf_put_def ram_in_rf_def)
  then have "w2 = w" using f(1) by (simp add: fun_upd_idem)
  with S1 show ?thesis by (simp add: 1(2))
qed

definition seg_dir_ok :: "ram_store \<times> ram_heap \<Rightarrow> bool" where
  "seg_dir_ok s \<longleftrightarrow> ram_ok (fst s) (snd s)"

definition seg_dir_gen :: "ram_store \<times> ram_heap \<Rightarrow> int" where
  "seg_dir_gen s = dir_gen (ram_dir (fst s) (snd s))"

lemma seg_dir_each: "seg_dir_ok s \<Longrightarrow>
    \<exists>names. st_each RAM_seg_store s = Inr names \<and> frt_sis_current_segment_generation names = seg_dir_gen s"
proof -
  assume "seg_dir_ok s"
  then have S: "ram_ok (fst s) (snd s)" by (simp add: seg_dir_ok_def)
  from ram_each_ok [OF S] obtain names where "ram_each (fst s) (snd s) = Inr names"
    "snd ` set names = {n. take (length FRT_LOCK_PREFIX) n \<noteq> FRT_LOCK_PREFIX \<and> ram_dir (fst s) (snd s) n \<noteq> None}" .
  with current_generation_dir [OF this(2)] show ?thesis
    by (cases s) (simp add: RAM_seg_store_def seg_dir_gen_def)
qed

lemma seg_dir_gen_lower: "seg_dir_ok s \<Longrightarrow> - 1 \<le> seg_dir_gen s"
  using seg_dir_each [of s] which_gen_fold_le [of "- 1"] unfolding frt_sis_current_segment_generation_def by metis

text \<open>Whatever others do while the search sleeps, as long as it keeps the store and its highest generation.\<close>

definition commits :: "(ram_store \<times> ram_heap \<Rightarrow> ram_store \<times> ram_heap) \<Rightarrow> bool" where
  "commits f \<longleftrightarrow> (\<forall>s. seg_dir_ok s \<longrightarrow> seg_dir_ok (f s) \<and> seg_dir_gen s \<le> seg_dir_gen (f s))"

lemma growing_dir_RAM: "commits f \<Longrightarrow> growing_dir RAM_seg_store f seg_dir_ok seg_dir_gen"
proof (unfold_locales, goal_cases)
  case (1 s names)
  with seg_dir_each [of s] show ?case by auto
next
  case (2 s)
  then show ?case unfolding commits_def by blast
next
  case (3 s n e s')
  then have S: "ram_ok (fst s) (snd s)" by (simp add: seg_dir_ok_def)
  from ram_exists_ok [OF S, of "(0, n)"] 3(3) show ?case
    by (cases s) (auto simp: RAM_seg_store_def seg_dir_ok_def seg_dir_gen_def)
next
  case (4 s n gen_is s1 gen0 gen1 gen_is1 s')
  obtain store w store1 w1 where s: "s = (store, w)" "s1 = (store1, w1)" by (metis prod.exhaust)
  have S: "ram_ok store w" using 4(2) by (simp add: seg_dir_ok_def s)
  have o: "ram_open_input store (0, n) w = Inr (gen_is, store1, w1)"
    using 4(3) by (auto simp: s RAM_seg_store_def ebind_eq_Inr)
  have r: "ram_in_rf gen_is1 = ram_in_rf gen_is" using 4(4) unfolding s by (rule read_gens_rf)
  from 4(5) obtain w2 where c: "rami_close_i (is_file gen_is1) w1 = Inr w2" "s' = (store1, w2)"
    by (auto simp: s RAM_seg_store_def ebind_eq_Inr)
  from ram_open_close [OF S o r c(1)] show ?case by (simp add: c(2) s seg_dir_ok_def seg_dir_gen_def)
qed

interpretation quiet_dir: growing_dir RAM_seg_store "\<lambda>s. s" seg_dir_ok seg_dir_gen
  by (rule growing_dir_RAM) (simp add: commits_def)

text \<open>With nobody else at work a search returns, and so does one beside a writer.\<close>

lemma ram_find_ends:
  assumes "ram_ok store w" and "commits f"
  shows "\<exists>r. sis_find_segments_file RAM_seg_store f run (store, w) = Some r"
  by (rule growing_dir.find_ends [OF growing_dir_RAM [OF assms(2)]])
    (use assms(1) seg_dir_gen_lower [of "(store, w)"] in \<open>simp_all add: seg_dir_ok_def\<close>)

section \<open>What was written is read\<close>

lemma find_first:
  assumes "st_each store s = Inr names" and "frt_sis_current_segment_generation names = gen" and "gen \<noteq> - 1" and "run gen s = Inr (v, s')"
  shows "sis_find_segments_file store f run s = Some (Inr (v, s'))"
  unfolding sis_find_segments_file_def
  by (subst find_loop.simps)
    (use assms in \<open>simp add: find_round_def find_gen_def find_retry_def find_run_def find_start_def Let_def\<close>)

lemma seg_file_name_chars: "take (length FRT_LOCK_PREFIX) (str ''segments'' @ xs) \<noteq> FRT_LOCK_PREFIX"
  by (simp add: FRT_LOCK_PREFIX_def)

lemma word_gen: "- 1 \<le> g \<Longrightarrow> g < 2 ^ 63 \<Longrightarrow> sint (word_of_int g :: u64) = g"
  by (simp add: signed_of_int signed_take_bit_int_eq_self)

lemma save_file_opened:
  assumes "save_file k store x w = Inr (store', w')"
  shows "ebind (opened (ram_new_output store x w)) (\<lambda>(os, store, w). ebind (k os w) (\<lambda>(os, w).
      ebind (frt_os_close RAM_OUT_STREAM_METHODS os w) (\<lambda>w. h store w))) = h store' w'"
  using assms by (auto simp: save_file_def opened_def ebind_eq_Inr)

definition written :: "byte list option \<Rightarrow> byte list \<Rightarrow> byte list" where
  "written old xs = write_at (case old of None \<Rightarrow> [] | Some bs \<Rightarrow> bs) 0 xs"

lemma written_prefix: "\<exists>ys. written old xs = xs @ ys"
  by (cases old) (auto simp: written_def write_at_def)

definition segfn :: "int \<Rightarrow> byte list" where
  "segfn g = str ''segments_'' @ digits36 (unat (word_of_int g :: u64))"

lemma segfn_for_generation_word: "segfn_for_generation (word_of_int g) = Inr (segfn g)"
  by (simp add: segfn_ok segfn_def)

lemma segfn_gen: "- 1 \<le> g \<Longrightarrow> g < 2 ^ 63 \<Longrightarrow> seg_gen_of (segfn g) = Some g"
  by (simp only: segfn_def seg_gen_of_segfn word_gen)

text \<open>The two files that are written, and the one that the deleter removes.\<close>

definition sis_dir :: "(u64 \<Rightarrow> byte list) \<Rightarrow> segment_infos \<Rightarrow> bool \<Rightarrow> (byte list \<Rightarrow> byte list option) \<Rightarrow> byte list \<Rightarrow> byte list option" where
  "sis_dir rb_id2name sis deletes d =
     (let g = sis_generation sis;
          d = d(segfn g \<mapsto> written (d (segfn g)) (enc_sis rb_id2name sis));
          d = d(SEGMENTS_GEN_FILE_NAME \<mapsto> written (d SEGMENTS_GEN_FILE_NAME) (enc_u64 (word_of_int g) @ enc_u64 (word_of_int g)))
      in if deletes \<and> 0 < g then d(segfn (g - 1) := None) else d)"

lemma frt_sis_write_ok:
  assumes S: "ram_ok store w" and small: "h_size (dir_ht store) < 2 ^ 28 - 1" and ok: "sis_ok rb_id2name rb_intern sis"
    and dlr: "case deleter of None \<Rightarrow> True | Some dlr \<Rightarrow> \<exists>xs. str_set (dlr_pending dlr) xs"
    and sis': "sis' = sis\<lparr>sis_generation := sis_generation sis + 1, sis_version := sis_version sis + 1\<rparr>"
  shows "\<exists>store' deleter' w'. frt_sis_write rb_id2name sis store deleter w = Inr (sis', store', deleter', w') \<and> ram_ok store' w' \<and>
    ram_dir store' w' = sis_dir rb_id2name sis' (deleter \<noteq> None) (ram_dir store w)"
proof -
  let ?g = "sis_generation sis + 1" and ?body = "sis_write_body RAM_OUT_STREAM_METHODS rb_id2name sis'"
  let ?gens = "gen_write_body RAM_OUT_STREAM_METHODS ?g"
  have "sis_ok rb_id2name rb_intern sis'" using ok by (simp add: sis' sis_ok_def)
  then have w1: "ram_out.writes ?body (enc_sis rb_id2name sis')" by (rule ram_out.writes_sis)
  have s0: "h_size (dir_ht store) < 2 ^ 28" using small by simp
  obtain store1 w1 where 1: "save_file ?body store (0, segfn ?g) w = Inr (store1, w1)" "ram_ok store1 w1"
    "ram_dir store1 w1 = (ram_dir store w)(segfn ?g \<mapsto> written (ram_dir store w (segfn ?g)) (enc_sis rb_id2name sis'))"
    "h_size (dir_ht store1) \<le> h_size (dir_ht store) + 1"
    using save_file_ok [OF S s0 w1, of "(0, segfn ?g)"] by (auto simp: written_def)
  have s1: "h_size (dir_ht store1) < 2 ^ 28" using small 1(4) by simp
  obtain store2 w2 where 2: "save_file ?gens store1 (0, SEGMENTS_GEN_FILE_NAME) w1 = Inr (store2, w2)" "ram_ok store2 w2"
    "ram_dir store2 w2 = (ram_dir store1 w1)(SEGMENTS_GEN_FILE_NAME \<mapsto>
      written (ram_dir store1 w1 SEGMENTS_GEN_FILE_NAME) (enc_u64 (word_of_int ?g) @ enc_u64 (word_of_int ?g)))"
    using save_file_ok [OF 1(2) s1 ram_out.writes_gens [of ?g], of "(0, SEGMENTS_GEN_FILE_NAME)"] by (auto simp: written_def)
  have d2: "ram_dir store2 w2 = sis_dir rb_id2name sis' False (ram_dir store w)"
    by (simp add: sis_dir_def Let_def 2(3) 1(3) sis')
  define rest where "rest = (\<lambda>store w. case deleter of
       Some dlr \<Rightarrow>
         if ?g > 0 then
           ebind (segfn_for_generation (word_of_int (?g - 1))) (\<lambda>buf.
           ebind (frt_deleter_delete_file dlr (0, buf) store w) (\<lambda>(dlr, store, w). Inr (sis', store, Some dlr, w)))
         else Inr (sis', store, Some dlr, w)
     | None \<Rightarrow> Inr (sis', store, None, w))"
  have second: "ebind (opened (ram_new_output store1 (0, SEGMENTS_GEN_FILE_NAME) w1)) (\<lambda>(os, store, w).
     ebind (handled (?gens os w)) (\<lambda>r.
     ebind (case r of
              Some (os, w) \<Rightarrow> frt_os_close RAM_OUT_STREAM_METHODS os w
            | None \<Rightarrow> frt_os_close RAM_OUT_STREAM_METHODS os w) (\<lambda>w. rest store w))) = rest store2 w2"
    using 2(1) by (auto simp: save_file_def opened_def handled_def ebind_eq_Inr)
  have "frt_sis_write rb_id2name sis store deleter w = rest store2 w2"
    unfolding frt_sis_write_def Let_def segfn_for_generation_word ebind_simps sis' [symmetric]
    unfolding save_file_opened [OF 1(1)] rest_def segfn_for_generation_word ebind_simps
    by (rule second [unfolded rest_def segfn_for_generation_word ebind_simps])
  moreover have "\<exists>store' deleter' w'. rest store2 w2 = Inr (sis', store', deleter', w') \<and> ram_ok store' w' \<and>
    ram_dir store' w' = sis_dir rb_id2name sis' (deleter \<noteq> None) (ram_dir store w)"
  proof (cases "deleter \<noteq> None \<and> 0 < ?g")
    case True
    then obtain dlr xs where d: "deleter = Some dlr" "str_set (dlr_pending dlr) xs" using dlr by auto
    then obtain es where "str_keys.hs_es (dlr_pending dlr) es" by (auto simp: str_set_def str_keys.hs_ok_def)
    from frt_deleter_delete_file_es [OF 2(2) this, of "(0, segfn (?g - 1))"] obtain dlr' store' w' where
      "frt_deleter_delete_file dlr (0, segfn (?g - 1)) store2 w2 = Inr (dlr', store', w')" "ram_ok store' w'"
      "ram_dir store' w' = (ram_dir store2 w2)(segfn (?g - 1) := None)" by auto
    then show ?thesis using True d by (simp add: rest_def segfn_for_generation_word d2) (simp add: sis_dir_def Let_def sis')
  next
    case False
    then show ?thesis using 2(2) d2 by (auto simp: rest_def sis_dir_def Let_def sis' split: option.split)
  qed
  ultimately show ?thesis by simp
qed

lemma dir_gen_eq:
  assumes S: "ram_ok store w" and f: "ram_dir store w n = Some bs" "take (length FRT_LOCK_PREFIX) n \<noteq> FRT_LOCK_PREFIX" "seg_gen_of n = Some g"
    and max: "\<And>m h. ram_dir store w m \<noteq> None \<Longrightarrow> seg_gen_of m = Some h \<Longrightarrow> h \<le> g" and "- 1 \<le> g"
  shows "dir_gen (ram_dir store w) = g"
proof -
  let ?N = "{n. take (length FRT_LOCK_PREFIX) n \<noteq> FRT_LOCK_PREFIX \<and> ram_dir store w n \<noteq> None}"
  let ?G = "{g. \<exists>n. take (length FRT_LOCK_PREFIX) n \<noteq> FRT_LOCK_PREFIX \<and> ram_dir store w n \<noteq> None \<and> seg_gen_of n = Some g}"
  from ram_each_ok [OF S] obtain names where "ram_each store w = Inr names" and names: "snd ` set names = ?N" .
  have "finite ?N" using names finite_imageI [OF finite_set, of snd names] by (simp only:)
  moreover have "?G \<subseteq> (\<lambda>n. the (seg_gen_of n)) ` ?N" by (force simp: image_iff)
  ultimately have "finite ?G" by (meson finite_imageI finite_subset)
  moreover have "g \<in> ?G" unfolding mem_Collect_eq by (rule exI [of _ n]) (use f in simp)
  moreover have "\<And>h. h \<in> ?G \<Longrightarrow> h \<le> g" using max by blast
  ultimately have "Max (insert (- 1) ?G) = g" using assms(6) by (intro Max_eqI) auto
  then show ?thesis by (simp add: dir_gen_def)
qed

theorem sis_write_read:
  assumes S: "ram_ok store w" and small: "h_size (dir_ht store) < 2 ^ 28 - 1" and ok: "sis_ok rb_id2name rb_intern sis"
    and dlr: "case deleter of None \<Rightarrow> True | Some dlr \<Rightarrow> \<exists>xs. str_set (dlr_pending dlr) xs"
    and sis': "sis' = sis\<lparr>sis_generation := sis_generation sis + 1, sis_version := sis_version sis + 1\<rparr>"
    and gen: "- 1 \<le> sis_generation sis" "sis_generation sis + 1 < 2 ^ 63"
    and newest: "\<forall>n g. ram_dir store w n \<noteq> None \<longrightarrow> seg_gen_of n = Some g \<longrightarrow> g \<le> sis_generation sis"
  shows "\<exists>store' deleter' w' sis'' s'. frt_sis_write rb_id2name sis store deleter w = Inr (sis', store', deleter', w') \<and>
    frt_sis_read f rb_intern (store', w') = Some (Inr (sis'', s')) \<and> sis_as_read sis' sis'' \<and> sis_generation sis'' = sis_generation sis'"
proof -
  let ?g = "sis_generation sis + 1"
  from frt_sis_write_ok [OF S small ok dlr sis'] obtain store' deleter' w' where
    1: "frt_sis_write rb_id2name sis store deleter w = Inr (sis', store', deleter', w')" "ram_ok store' w'"
      "ram_dir store' w' = sis_dir rb_id2name sis' (deleter \<noteq> None) (ram_dir store w)" by blast
  have g': "sis_generation sis' = ?g" by (simp add: sis')
  have gens: "seg_gen_of (segfn ?g) = Some ?g" "0 < ?g \<Longrightarrow> seg_gen_of (segfn (?g - 1)) = Some (?g - 1)"
    using segfn_gen [of ?g] segfn_gen [of "?g - 1"] gen by auto
  have gf: "seg_gen_of SEGMENTS_GEN_FILE_NAME = None" by (simp add: seg_gen_of_def SEGMENTS_GEN_FILE_NAME_def)
  have "segfn ?g \<noteq> SEGMENTS_GEN_FILE_NAME" "0 < ?g \<Longrightarrow> segfn ?g \<noteq> segfn (?g - 1)" using gens gf by auto
  then have "ram_dir store' w' (segfn ?g) = Some (written (ram_dir store w (segfn ?g)) (enc_sis rb_id2name sis'))"
    by (simp add: 1(3) sis_dir_def Let_def g')
  then obtain ys where bs: "ram_dir store' w' (segfn ?g) = Some (enc_sis rb_id2name sis' @ ys)"
    using written_prefix [of "ram_dir store w (segfn ?g)" "enc_sis rb_id2name sis'"] by auto
  have "dir_gen (ram_dir store' w') = ?g"
  proof (rule dir_gen_eq [OF 1(2) bs _ gens(1)])
    show "take (length FRT_LOCK_PREFIX) (segfn ?g) \<noteq> FRT_LOCK_PREFIX"
      using seg_file_name_chars [of "95 # digits36 (unat (word_of_int ?g :: u64))"] by (simp add: segfn_def)
    fix m h assume m: "ram_dir store' w' m \<noteq> None" "seg_gen_of m = Some h"
    then have "m = segfn ?g \<or> m = SEGMENTS_GEN_FILE_NAME \<or> ram_dir store w m \<noteq> None"
      unfolding 1(3) sis_dir_def Let_def g' by (auto split: if_splits)
    then show "h \<le> ?g" using m(2) gens(1) gf newest by auto
  qed (use gen in simp)
  moreover have "seg_dir_ok (store', w')" using 1(2) by (simp add: seg_dir_ok_def)
  ultimately obtain names where each: "st_each RAM_seg_store (store', w') = Inr names" "frt_sis_current_segment_generation names = ?g"
    using seg_dir_each [of "(store', w')"] by (auto simp: seg_dir_gen_def)
  have ok': "sis_ok rb_id2name rb_intern sis'" using ok by (simp add: sis' sis_ok_def)
  have "\<exists>v. (sis_as_read sis' v \<and> sis_generation v = ?g) \<and>
      ram_in.decodes w (sis_read_body (RAM_IN_STREAM_METHODS w) rb_intern ?g) (enc_sis rb_id2name sis') v" for w
    using ram_in.decodes_sis [OF ok', of ?g w] by blast
  from load_file_some [OF 1(2), of "(0, segfn ?g)", unfolded snd_conv, OF bs, where P = "\<lambda>v. sis_as_read sis' v \<and> sis_generation v = ?g", OF this]
  obtain sis'' store'' w'' where
    2: "load_file (\<lambda>w. sis_read_body (RAM_IN_STREAM_METHODS w) rb_intern ?g) store' (0, segfn ?g) w' = Inr (sis'', store'', w'')"
      "sis_as_read sis' sis''" "sis_generation sis'' = ?g" by blast
  have "frt_sis_read_i rb_intern ?g (store', w') = Inr (sis'', store'', w'')"
    unfolding frt_sis_read_i_def segfn_for_generation_word ebind_simps fst_conv snd_conv by (rule 2(1))
  from find_first [where run = "frt_sis_read_i rb_intern", OF each _ this] have "frt_sis_read f rb_intern (store', w') = Some (Inr (sis'', store'', w''))"
    using gen(1) by (simp add: frt_sis_read_def)
  with 1(1) 2(2,3) show ?thesis unfolding g' by (intro exI conjI)
qed

end
