(* ===== verification/FrtCompound.thy ===== *)
theory FrtCompound
  imports FrtDeleter
begin

text \<open>
  Compound files, \<open>frt_compound_io.c\<close>: the files of a segment in one file behind a directory of their places,
  written by \<open>FrtCompoundWriter\<close> and read as a store by \<open>FrtCompoundStore\<close>.

  \<^item> The compound input streams of a store share its stream, where they seek and read. \<open>CMPD_IN_STREAM_METHODS m sub\<close>
    are their methods on the shared stream as it is when they are called; where a read leaves it is dropped, since
    every read seeks first (\<open>cmpdi_read_any\<close>).
  \<^item> \<open>cs_entries\<close> maps a name to the position of its \<open>FileEntry\<close> in the list of the entries that were allocated; the code
    sets the length of an entry when it is in the table already. Until then it is not read.
  \<^item> \<open>ref_cnt\<close> of the shared stream is \<open>ss_ref_cnt\<close>: the store and each compound stream hold it.
  \<^item> The writer and the compound store are on a RAM store.
  \<^item> The lemmas: a compound stream keeps the promises of an input stream (interpretation \<open>cmpd_in\<close>), and a store
    opened on a file that the writer has written holds the files it was written from (\<open>FrtCompoundLaws\<close>).
\<close>

section \<open>Compound input streams\<close>

record cmpd_in =
  ci_offset :: int
  ci_length :: int

definition cmpdi_seek_i :: "cmpd_in \<Rightarrow> int \<Rightarrow> cmpd_in res" where
  "cmpdi_seek_i cis pos = Inr cis"

definition cmpdi_length_i :: "cmpd_in \<Rightarrow> int" where
  "cmpdi_length_i cis = ci_length cis"

definition cmpdi_read_i ::
  "'f is_methods \<Rightarrow> 'f instream \<Rightarrow> cmpd_in \<Rightarrow> int \<Rightarrow> int \<Rightarrow> (byte list \<times> cmpd_in) res" where
  "cmpdi_read_i m sub cis start len =
     (if start + len > ci_length cis then Inl FRT_EOF_ERROR
      else ebind (frt_is_seek m sub (ci_offset cis + start)) (\<lambda>sub.
           ebind (frt_is_read_bytes m sub (nat len)) (\<lambda>(bs, _). Inr (bs, cis))))"

definition CMPD_IN_STREAM_METHODS :: "'f is_methods \<Rightarrow> 'f instream \<Rightarrow> cmpd_in is_methods" where
  "CMPD_IN_STREAM_METHODS m sub = \<lparr>read_i = cmpdi_read_i m sub, seek_i = cmpdi_seek_i, length_i = cmpdi_length_i\<rparr>"

text \<open>The stream the streams of a compound store share, with its count.\<close>

record shared_stream =
  ss_stream :: "ram_in instream"
  ss_ref_cnt :: nat

definition shared_close :: "shared_stream \<Rightarrow> ram_heap \<Rightarrow> (shared_stream \<times> ram_heap) res" where
  "shared_close ss w =
     (if ss_ref_cnt ss = 0 then Inl FRT_STATE_ERROR
      else let ss = ss\<lparr>ss_ref_cnt := ss_ref_cnt ss - 1\<rparr>
        in if ss_ref_cnt ss = 0 then ebind (rami_close_i (is_file (ss_stream ss)) w) (\<lambda>w. Inr (ss, w)) else Inr (ss, w))"

definition cmpdi_close_i :: "cmpd_in \<Rightarrow> shared_stream \<Rightarrow> ram_heap \<Rightarrow> (shared_stream \<times> ram_heap) res" where
  "cmpdi_close_i cis ss w = shared_close ss w"

definition cmpd_create_input :: "shared_stream \<Rightarrow> int \<Rightarrow> int \<Rightarrow> cmpd_in instream \<times> shared_stream" where
  "cmpd_create_input ss off len =
     (frt_is_new \<lparr>ci_offset = off, ci_length = len\<rparr>, ss\<lparr>ss_ref_cnt := ss_ref_cnt ss + 1\<rparr>)"

section \<open>The compound store\<close>

record file_entry =
  en_offset :: int
  en_length :: int

text \<open>\<open>cs_open\<close>: the field \<open>stream\<close> is not \<open>NULL\<close>.\<close>

record compound_store =
  cs_entries :: "(cstr, nat) frt_hash"
  cs_objs :: "file_entry list"
  cs_open :: bool

definition cmpd_touch :: "byte list \<Rightarrow> ram_store \<Rightarrow> ram_heap \<Rightarrow> (ram_store \<times> ram_heap) res" where
  "cmpd_touch file_name store w = ram_touch store (0, file_name) w"

definition cmpd_exists :: "compound_store \<Rightarrow> cstr \<Rightarrow> (bool \<times> compound_store) res" where
  "cmpd_exists cs file_name =
     ebind (frt_h_get (cs_entries cs) (PKey file_name)) (\<lambda>(e, ht). Inr (e \<noteq> None, cs\<lparr>cs_entries := ht\<rparr>))"

definition cmpd_remove :: "compound_store \<Rightarrow> cstr \<Rightarrow> bool res" where
  "cmpd_remove cs file_name = Inl FRT_UNSUPPORTED_ERROR"

definition cmpd_rename :: "compound_store \<Rightarrow> cstr \<Rightarrow> cstr \<Rightarrow> unit res" where
  "cmpd_rename cs from to = Inl FRT_UNSUPPORTED_ERROR"

definition cmpd_count :: "compound_store \<Rightarrow> int" where
  "cmpd_count cs = h_size (cs_entries cs)"

text \<open>Every key that is not \<open>NULL\<close>; the key of a deleted entry, which a compound store has none of, is an empty string.\<close>

fun cmpd_each_loop :: "(cstr, nat) hash_entry list \<Rightarrow> byte list list res" where
  "cmpd_each_loop [] = Inr []"
| "cmpd_each_loop (he # rest) =
     (case he_key he of
        PNull \<Rightarrow> cmpd_each_loop rest
      | PKey fn \<Rightarrow> ebind (cmpd_each_loop rest) (\<lambda>names. Inr (snd fn # names))
      | PDummy \<Rightarrow> ebind (cmpd_each_loop rest) (\<lambda>names. Inr ([] # names))
      | PInt _ \<Rightarrow> Inl UndefinedBehaviour
      | PDummyInt \<Rightarrow> Inl UndefinedBehaviour)"

definition cmpd_each :: "compound_store \<Rightarrow> byte list list res" where
  "cmpd_each cs = cmpd_each_loop (h_table (cs_entries cs))"

definition cmpd_clear :: "compound_store \<Rightarrow> unit res" where
  "cmpd_clear cs = Inl FRT_UNSUPPORTED_ERROR"

definition cmpd_close_i :: "compound_store \<Rightarrow> shared_stream \<Rightarrow> ram_heap \<Rightarrow> (compound_store \<times> shared_stream \<times> ram_heap) res" where
  "cmpd_close_i cs ss w =
     (if \<not> cs_open cs then Inl FRT_IO_ERROR
      else ebind (shared_close ss w) (\<lambda>(ss, w). Inr (cs\<lparr>cs_open := False, cs_objs := []\<rparr>, ss, w)))"

definition cmpd_length :: "compound_store \<Rightarrow> cstr \<Rightarrow> (int \<times> compound_store) res" where
  "cmpd_length cs file_name =
     ebind (frt_h_get (cs_entries cs) (PKey file_name)) (\<lambda>(e, ht).
       Inr (case e of Some i \<Rightarrow> en_length (cs_objs cs ! i) | None \<Rightarrow> 0, cs\<lparr>cs_entries := ht\<rparr>))"

definition cmpd_open_input ::
  "compound_store \<Rightarrow> shared_stream \<Rightarrow> cstr \<Rightarrow> (cmpd_in instream \<times> compound_store \<times> shared_stream) res" where
  "cmpd_open_input cs ss file_name =
     (if \<not> cs_open cs then Inl FRT_IO_ERROR
      else ebind (frt_h_get (cs_entries cs) (PKey file_name)) (\<lambda>(e, ht).
        case e of
          None \<Rightarrow> Inl FRT_IO_ERROR
        | Some i \<Rightarrow>
            (let entry = cs_objs cs ! i; (is, ss) = cmpd_create_input ss (en_offset entry) (en_length entry)
             in Inr (is, cs\<lparr>cs_entries := ht\<rparr>, ss))))"

definition cmpd_new_output :: "compound_store \<Rightarrow> cstr \<Rightarrow> unit res" where
  "cmpd_new_output cs file_name = Inl FRT_UNSUPPORTED_ERROR"

definition cmpd_open_lock_i :: "compound_store \<Rightarrow> cstr \<Rightarrow> unit res" where
  "cmpd_open_lock_i cs lock_name = Inl FRT_UNSUPPORTED_ERROR"

definition cmpd_close_lock_i :: "cstr \<Rightarrow> unit res" where
  "cmpd_close_lock_i lock = Inl FRT_UNSUPPORTED_ERROR"

text \<open>
  Reading the directory: \<open>set_last\<close> sets the length of the entry that was read before. Names are copied to the
  heap by \<open>frt_is_read_string\<close>.
\<close>

definition set_last :: "int \<Rightarrow> file_entry list \<Rightarrow> file_entry list" where
  "set_last off objs =
     (if objs = [] then []
      else objs[length objs - 1 := (last objs)\<lparr>en_length := off - en_offset (last objs)\<rparr>])"

fun cmpd_read_entries ::
  "'f is_methods \<Rightarrow> nat \<Rightarrow> (cstr, nat) frt_hash \<Rightarrow> file_entry list \<Rightarrow> 'f instream \<Rightarrow> ram_heap
     \<Rightarrow> ((cstr, nat) frt_hash \<times> file_entry list \<times> 'f instream \<times> ram_heap) res" where
  "cmpd_read_entries m 0 entries objs is w = Inr (entries, objs, is, w)"
| "cmpd_read_entries m (Suc i) entries objs is w =
     ebind (frt_is_read_i64 m is) (\<lambda>(off, is).
     ebind (frt_is_read_string m is) (\<lambda>(str, is).
     let (fname, w) = frt_estrdup str w;
         objs = set_last (sint off) objs @ [\<lparr>en_offset = sint off, en_length = 0\<rparr>]
     in ebind (frt_h_set entries (PKey fname) (Some (length objs - 1))) (\<lambda>(_, entries).
          cmpd_read_entries m i entries objs is w)))"

text \<open>
  The name of the file is \<open>name\<close>. When a step raises, its handler closes the stream and the error is passed on. When
  \<open>open_input\<close> raises, \<open>is\<close> is \<open>NULL\<close>.
\<close>

definition frt_open_cmpd_store ::
  "ram_store \<Rightarrow> cstr \<Rightarrow> ram_heap \<Rightarrow> (compound_store \<times> shared_stream \<times> ram_store \<times> ram_heap) res" where
  "frt_open_cmpd_store store name w =
     ebind (ram_open_input store name w) (\<lambda>(is, store, w).
     ebind (frt_is_read_vint (RAM_IN_STREAM_METHODS w) is) (\<lambda>(count, is).
     ebind (cmpd_read_entries (RAM_IN_STREAM_METHODS w) (nat (sint count)) (frt_h_new_str True True) [] is w) (\<lambda>(entries, objs, is, w).
     Inr (\<lparr>cs_entries = entries, cs_objs = set_last (length_i (RAM_IN_STREAM_METHODS w) (is_file is)) objs, cs_open = True\<rparr>,
          \<lparr>ss_stream = is, ss_ref_cnt = 1\<rparr>, store, w))))"

section \<open>The compound writer\<close>

record cw_file_entry =
  cwe_name :: cstr
  cwe_dir_offset :: int
  cwe_data_offset :: int

record compound_writer =
  cw_name :: cstr
  cw_ids :: "cstr hashset"
  cw_file_entries :: "cw_file_entry list"

definition frt_open_cw :: "cstr \<Rightarrow> compound_writer" where
  "frt_open_cw name = \<lparr>cw_name = name, cw_ids = frt_hs_new_str True, cw_file_entries = []\<rparr>"

definition frt_cw_add_file :: "compound_writer \<Rightarrow> byte list \<Rightarrow> ram_heap \<Rightarrow> (compound_writer \<times> ram_heap) res" where
  "frt_cw_add_file cw nm w =
     (let (nm, w) = frt_estrdup nm w
      in ebind (frt_hs_add (cw_ids cw) nm) (\<lambda>(r, ids).
           if r \<noteq> FRT_HASH_KEY_DOES_NOT_EXIST then Inl FRT_IO_ERROR
           else Inr (cw\<lparr>cw_ids := ids,
             cw_file_entries := cw_file_entries cw @ [\<lparr>cwe_name = nm, cwe_dir_offset = 0, cwe_data_offset = 0\<rparr>]\<rparr>, w)))"

text \<open>The loop of \<open>cw_copy_file\<close>. Writing changes the heap; the methods of the input stream read it as it is.\<close>

function cw_copy_loop ::
  "ram_in instream \<Rightarrow> ram_out outstream \<Rightarrow> int \<Rightarrow> ram_heap \<Rightarrow> (ram_in instream \<times> ram_out outstream \<times> ram_heap \<times> int) res" where
  "cw_copy_loop is os remainder w =
     (if remainder > 0 then
        let len = min remainder (int FRT_BUFFER_SIZE)
        in ebind (frt_is_read_bytes (RAM_IN_STREAM_METHODS w) is (nat len)) (\<lambda>(buffer, is).
           ebind (frt_os_write_bytes RAM_OUT_STREAM_METHODS os buffer w) (\<lambda>(os, w).
           cw_copy_loop is os (remainder - len) w))
      else Inr (is, os, w, remainder))"
  by pat_completeness auto
termination by (relation "measure (\<lambda>(is, os, remainder, w). nat remainder)") (auto simp: FRT_BUFFER_SIZE_def)

declare cw_copy_loop.simps [simp del]

definition cw_copy_file ::
  "cw_file_entry \<Rightarrow> ram_out outstream \<Rightarrow> ram_store \<Rightarrow> ram_heap \<Rightarrow> (ram_out outstream \<times> ram_store \<times> ram_heap) res" where
  "cw_copy_file src os store w =
     (let start_ptr = frt_os_pos os
      in ebind (ram_open_input store (cwe_name src) w) (\<lambda>(is, store, w).
         let len = length_i (RAM_IN_STREAM_METHODS w) (is_file is)
         in ebind (cw_copy_loop is os len w) (\<lambda>(is, os, w, remainder).
            if remainder \<noteq> 0 then Inl FRT_IO_ERROR
            else let end_ptr = frt_os_pos os
              in if end_ptr - start_ptr \<noteq> len then Inl FRT_IO_ERROR
                 else ebind (rami_close_i (is_file is) w) (\<lambda>w. Inr (os, store, w)))))"

fun cw_write_dir :: "cw_file_entry list \<Rightarrow> ram_out outstream \<Rightarrow> ram_heap \<Rightarrow> (cw_file_entry list \<times> ram_out outstream \<times> ram_heap) res" where
  "cw_write_dir [] os w = Inr ([], os, w)"
| "cw_write_dir (e # es) os w =
     (let e = e\<lparr>cwe_dir_offset := frt_os_pos os\<rparr>
      in ebind (frt_os_write_u64 RAM_OUT_STREAM_METHODS os 0 w) (\<lambda>(os, w).
         ebind (frt_os_write_string RAM_OUT_STREAM_METHODS os (snd (cwe_name e)) w) (\<lambda>(os, w).
         ebind (cw_write_dir es os w) (\<lambda>(es, os, w). Inr (e # es, os, w)))))"

fun cw_copy_files ::
  "cw_file_entry list \<Rightarrow> frt_deleter option \<Rightarrow> ram_out outstream \<Rightarrow> ram_store \<Rightarrow> ram_heap
     \<Rightarrow> (cw_file_entry list \<times> frt_deleter option \<times> ram_out outstream \<times> ram_store \<times> ram_heap) res" where
  "cw_copy_files [] dlr os store w = Inr ([], dlr, os, store, w)"
| "cw_copy_files (e # es) dlr os store w =
     (let e = e\<lparr>cwe_data_offset := frt_os_pos os\<rparr>
      in ebind (cw_copy_file e os store w) (\<lambda>(os, store, w).
         ebind (case dlr of
                  Some d \<Rightarrow> ebind (frt_deleter_queue_file d (snd (cwe_name e)) w) (\<lambda>(d, w). Inr (Some d, w))
                | None \<Rightarrow> Inr (None, w)) (\<lambda>(dlr, w).
         ebind (cw_copy_files es dlr os store w) (\<lambda>(es, dlr, os, store, w). Inr (e # es, dlr, os, store, w)))))"

fun cw_write_offsets :: "cw_file_entry list \<Rightarrow> ram_out outstream \<Rightarrow> ram_heap \<Rightarrow> (ram_out outstream \<times> ram_heap) res" where
  "cw_write_offsets [] os w = Inr (os, w)"
| "cw_write_offsets (e # es) os w =
     ebind (frt_os_seek RAM_OUT_STREAM_METHODS os (cwe_dir_offset e) w) (\<lambda>(os, w).
     ebind (frt_os_write_u64 RAM_OUT_STREAM_METHODS os (word_of_int (cwe_data_offset e)) w) (\<lambda>(os, w).
     cw_write_offsets es os w))"

definition frt_cw_close ::
  "compound_writer \<Rightarrow> frt_deleter option \<Rightarrow> ram_store \<Rightarrow> ram_heap \<Rightarrow> (frt_deleter option \<times> ram_store \<times> ram_heap) res" where
  "frt_cw_close cw dlr store w =
     (if hs_size (cw_ids cw) \<le> 0 then Inl FRT_STATE_ERROR
      else
      ebind (ram_new_output store (cw_name cw) w) (\<lambda>(os, store, w).
      ebind (frt_os_write_vint RAM_OUT_STREAM_METHODS os (of_nat (length (cw_file_entries cw))) w) (\<lambda>(os, w).
      ebind (cw_write_dir (cw_file_entries cw) os w) (\<lambda>(es, os, w).
      ebind (cw_copy_files es dlr os store w) (\<lambda>(es, dlr, os, store, w).
      ebind (cw_write_offsets es os w) (\<lambda>(os, w).
      ebind (frt_os_close RAM_OUT_STREAM_METHODS os w) (\<lambda>w. Inr (dlr, store, w))))))))"

section \<open>The compound file of a segment\<close>

fun cw_add_files :: "byte list list \<Rightarrow> compound_writer \<Rightarrow> ram_heap \<Rightarrow> (compound_writer \<times> ram_heap) res" where
  "cw_add_files [] cw w = Inr (cw, w)"
| "cw_add_files (n # ns) cw w = ebind (frt_cw_add_file cw n w) (\<lambda>(cw, w). cw_add_files ns cw w)"

text \<open>The loop over the fields, from the last one down; \<open>n\<close> fields are left.\<close>

fun cw_add_norms :: "field_infos \<Rightarrow> segment_info \<Rightarrow> nat \<Rightarrow> compound_writer \<Rightarrow> ram_heap \<Rightarrow> (compound_writer \<times> ram_heap) res" where
  "cw_add_norms fis si 0 cw w = Inr (cw, w)"
| "cw_add_norms fis si (Suc i) cw w =
     ebind (if bits_has_norms (fi_bits (fis_fields fis ! i))
            then ebind (si_norm_file_name si (int i)) (\<lambda>n. case n of
                   Some file_name \<Rightarrow> frt_cw_add_file cw file_name w | None \<Rightarrow> Inr (cw, w))
            else Inr (cw, w)) (\<lambda>(cw, w).
     cw_add_norms fis si i cw w)"

text \<open>The names are built in buffers of \<open>FRT_SEGMENT_NAME_MAX_LENGTH\<close> characters.\<close>

definition iw_create_compound_file ::
  "ram_store \<Rightarrow> field_infos \<Rightarrow> segment_info \<Rightarrow> cstr \<Rightarrow> frt_deleter option \<Rightarrow> ram_heap
     \<Rightarrow> (frt_deleter option \<times> ram_store \<times> ram_heap) res" where
  "iw_create_compound_file store fis si cfs_file_name dlr w =
     (if FRT_SEGMENT_NAME_MAX_LENGTH < length (si_name si) + 5 then Inl UndefinedBehaviour
      else
      ebind (cw_add_files (map (\<lambda>ext. si_name si @ 46 # ext) COMPOUND_EXTENSIONS) (frt_open_cw cfs_file_name) w) (\<lambda>(cw, w).
      ebind (cw_add_norms fis si (fis_size fis) cw w) (\<lambda>(cw, w).
      frt_cw_close cw dlr store w)))"

definition iw_commit_compound_file ::
  "ram_store \<Rightarrow> field_infos \<Rightarrow> segment_info \<Rightarrow> frt_deleter option \<Rightarrow> ram_heap
     \<Rightarrow> (frt_deleter option \<times> ram_store \<times> ram_heap) res" where
  "iw_commit_compound_file store fis si dlr w =
     (if FRT_SEGMENT_NAME_MAX_LENGTH < length (si_name si) + 5 then Inl UndefinedBehaviour
      else iw_create_compound_file store fis si (0, si_name si @ str ''.cfs'') dlr w)"

end
