(* ===== verification/FrtCompoundLaws.thy ===== *)
theory FrtCompoundLaws
  imports FrtCompound FrtSegmentsFile
begin

text \<open>
  The laws of compound files.

  \<^item> \<open>cmpd_in\<close>: a compound stream on a shared RAM stream is an input stream over its slice of the file, wherever the
    shared stream stands.
  \<^item> \<open>writing store w N os bs p\<close>: the file \<open>N\<close> is open for writing through \<open>os\<close>, and other files of the store may be
    opened, read and closed meanwhile. The writer's steps keep it.
  \<^item> \<open>compound_bytes\<close> is the layout of a compound file; \<open>frt_cw_close\<close> writes it and \<open>frt_open_cmpd_store\<close> reads it.
\<close>

section \<open>Compound streams\<close>

text \<open>What a compound stream reads does not depend on where the shared stream stands.\<close>

lemma cmpdi_read_ok:
  assumes S: "ram_in.is_ok w sub bs p" and c: "0 \<le> ci_offset cis" "ci_offset cis + ci_length cis \<le> int (length bs)"
    and n: "int q + int n \<le> ci_length cis"
  shows "cmpdi_read_i (RAM_IN_STREAM_METHODS w) sub cis (int q) (int n) =
    Inr (take n (drop q (take (nat (ci_length cis)) (drop (nat (ci_offset cis)) bs))), cis)"
proof -
  define s where "s = nat (ci_offset cis) + q"
  have s: "ci_offset cis + int q = int s" using c(1) by (simp add: s_def)
  have sn: "s + n \<le> length bs" using c n by (simp add: s_def)
  from ram_in.frt_is_seek_ok [OF S, of s] obtain sub1 where
    1: "frt_is_seek (RAM_IN_STREAM_METHODS w) sub (int s) = Inr sub1" "ram_in.is_ok w sub1 bs s" by blast
  from ram_in.frt_is_read_bytes_ok [OF 1(2) sn] obtain sub2 where
    2: "frt_is_read_bytes (RAM_IN_STREAM_METHODS w) sub1 n = Inr (take n (drop s bs), sub2)" by blast
  have "take n (drop q (take (nat (ci_length cis)) (drop (nat (ci_offset cis)) bs))) = take n (drop s bs)"
    using n by (simp add: s_def drop_take min_def add.commute)
  with 1(1) 2 n show ?thesis by (simp add: cmpdi_read_i_def s)
qed

text \<open>A slice of the shared stream's file.\<close>

definition slice_ok :: "ram_heap \<Rightarrow> ram_in instream \<Rightarrow> cmpd_in \<Rightarrow> bool" where
  "slice_ok w sub cis \<longleftrightarrow> (\<exists>bs p. ram_in.is_ok w sub bs p \<and> 0 \<le> ci_offset cis \<and> 0 \<le> ci_length cis \<and>
     ci_offset cis + ci_length cis \<le> int (length bs))"

definition slice_of :: "ram_heap \<Rightarrow> ram_in instream \<Rightarrow> cmpd_in \<Rightarrow> byte list" where
  "slice_of w sub cis = take (nat (ci_length cis)) (drop (nat (ci_offset cis)) (heap_bytes w (ri_rf (is_file sub))))"

lemma is_ok_bytes: "ram_in.is_ok w sub bs p \<Longrightarrow> heap_bytes w (ri_rf (is_file sub)) = bs"
  by (simp add: ram_in.is_ok_def)

lemma slice_length: "slice_ok w sub cis \<Longrightarrow> int (length (slice_of w sub cis)) = ci_length cis"
  by (auto simp: slice_ok_def slice_of_def is_ok_bytes min_def)

interpretation cmpd_in: in_source "CMPD_IN_STREAM_METHODS (RAM_IN_STREAM_METHODS w) sub" "slice_ok w sub"
  "slice_of w sub" "\<lambda>_ _. True" for w sub
proof (unfold_locales, goal_cases)
  case (1 f p n)
  from 1(1) obtain bs q where f: "ram_in.is_ok w sub bs q" "0 \<le> ci_offset f" "ci_offset f + ci_length f \<le> int (length bs)"
    by (auto simp: slice_ok_def)
  have "int p + int n \<le> ci_length f" using 1(3) slice_length [OF 1(1)] by linarith
  from cmpdi_read_ok [OF f this] 1(1) show ?case
    by (simp add: CMPD_IN_STREAM_METHODS_def slice_of_def is_ok_bytes [OF f(1)])
next
  case (2 f p)
  then show ?case by (simp add: CMPD_IN_STREAM_METHODS_def cmpdi_seek_i_def)
next
  case (3 f)
  then show ?case by (simp add: CMPD_IN_STREAM_METHODS_def cmpdi_length_i_def slice_length)
qed

section \<open>An output stream beside other files\<close>

definition writing :: "ram_store \<Rightarrow> ram_heap \<Rightarrow> byte list \<Rightarrow> ram_out outstream \<Rightarrow> byte list \<Rightarrow> nat \<Rightarrow> bool" where
  "writing store w N os bs p \<longleftrightarrow> ram_ok store w \<and>
     (\<exists>rf. ref_of (dir_ht store) N = Some (ro_rf (os_file os)) \<and> rh_files w (ro_rf (os_file os)) = Some rf \<and> 2 \<le> rf_ref_cnt rf) \<and>
     ram_out.os_ok os w (ram_rest (os_file os) w) bs p"

definition others :: "byte list \<Rightarrow> ram_store \<Rightarrow> ram_heap \<Rightarrow> byte list \<Rightarrow> byte list option" where
  "others N store w = (ram_dir store w)(N := None)"

lemma writing_new:
  assumes "ram_ok store w" and "h_size (dir_ht store) < 2 ^ 28" and "ram_dir store w (snd x) = None"
  shows "\<exists>os store' w'. ram_new_output store x w = Inr (os, store', w') \<and> writing store' w' (snd x) os [] 0 \<and>
    others (snd x) store' w' = ram_dir store w"
  using ram_new_output_ok [OF assms(1,2), of x] assms(3) by (fastforce simp: writing_def others_def fun_upd_idem)

lemma writing_close:
  assumes "writing store w N os bs p"
  shows "\<exists>w'. frt_os_close RAM_OUT_STREAM_METHODS os w = Inr w' \<and> ram_ok store w' \<and>
    ram_dir store w' = (others N store w)(N \<mapsto> bs)"
proof -
  from assms obtain rf where w: "ram_ok store w" "ref_of (dir_ht store) N = Some (ro_rf (os_file os))"
    "rh_files w (ro_rf (os_file os)) = Some rf" "2 \<le> rf_ref_cnt rf" "ram_out.os_ok os w (ram_rest (os_file os) w) bs p"
    by (auto simp: writing_def)
  from ram_close_output_ok [OF w(1-4) refl w(5)] show ?thesis by (auto simp: others_def)
qed

text \<open>The heap changes at addresses below the next one, the open file keeps its name and count and the other files their bytes.\<close>

lemma writing_frame:
  assumes "writing store w N os bs p" and os: "ro_rf (os_file os') = ro_rf (os_file os)"
    and ok: "ram_out.os_ok os' w' (ram_rest (os_file os') w') bs' p'"
    and T: "tab_ok (dir_ht store')" and e: "ref_of (dir_ht store') = ref_of (dir_ht store)"
    and h: "heap_ok w'"
    and other: "\<And>n r. n \<noteq> N \<Longrightarrow> ref_of (dir_ht store) n = Some r \<Longrightarrow> file_ok w' n r \<and> heap_bytes w' r = heap_bytes w r"
    and own: "\<And>rf. rh_files w (ro_rf (os_file os)) = Some rf \<Longrightarrow> \<exists>rf'. rh_files w' (ro_rf (os_file os)) = Some rf' \<and> rf_ok rf' \<and>
      rf_name rf' = rf_name rf \<and> rf_ref_cnt rf' = rf_ref_cnt rf"
  shows "writing store' w' N os' bs' p' \<and> others N store' w' = others N store w"
proof -
  let ?r = "ro_rf (os_file os)"
  from assms(1) obtain rf where w: "ram_ok store w" "ref_of (dir_ht store) N = Some ?r"
    "rh_files w ?r = Some rf" "2 \<le> rf_ref_cnt rf" by (auto simp: writing_def)
  from own [OF w(3)] obtain rf' where rf': "rh_files w' ?r = Some rf'" "rf_ok rf'" "rf_name rf' = rf_name rf" "rf_ref_cnt rf' = rf_ref_cnt rf"
    by blast
  have "file_ok w N ?r" using w(1,2) by (simp add: ram_ok_def)
  then have fN: "file_ok w' N ?r" using rf' w(3) by (auto simp: file_ok_def)
  have "ram_ok store' w'" unfolding ram_ok_def
  proof (intro conjI allI impI)
    fix n r assume "ref_of (dir_ht store') n = Some r"
    then show "file_ok w' n r" using other [of n r] fN w(2) e by (cases "n = N") auto
  qed (use T h in auto)
  moreover have "others N store' w' = others N store w"
  proof
    fix n
    show "others N store' w' n = others N store w n"
      using other [of n] by (cases "ref_of (dir_ht store) n") (auto simp: others_def ram_dir_def e)
  qed
  ultimately show ?thesis using w(2,4) rf'(1,4) ok by (simp add: writing_def os e)
qed

text \<open>Steps of the stream itself.\<close>

lemma writing_step:
  assumes W: "writing store w N os bs p"
    and s: "ram_out.wrote r (ram_rest (os_file os) w) bs' p'"
  shows "\<exists>os' w'. r = Inr (os', w') \<and> writing store w' N os' bs' p' \<and> others N store w' = others N store w \<and>
    (\<forall>s. s \<noteq> ro_rf (os_file os) \<longrightarrow> rh_files w' s = rh_files w s) \<and> ro_rf (os_file os') = ro_rf (os_file os)"
proof -
  let ?r = "ro_rf (os_file os)"
  obtain os' w' where r: "r = Inr (os', w')" and ok: "ram_out.os_ok os' w' (ram_rest (os_file os) w) bs' p'"
    using s by (auto simp: ram_out.wrote_def)
  from W obtain rf where w: "ram_ok store w" "ref_of (dir_ht store) N = Some ?r" "rh_files w ?r = Some rf"
    by (auto simp: writing_def)
  have v: "ram_out_valid (os_file os') w'" and rest: "ram_rest (os_file os') w' = ram_rest (os_file os) w"
    using ok by (simp_all add: ram_out.os_ok_def)
  note R = ram_rest_eqD [OF rest w(3) v]
  have F: "\<And>n s. ref_of (dir_ht store) n = Some s \<Longrightarrow> file_ok w n s" and T: "tab_ok (dir_ht store)" and H: "heap_ok w"
    using w(1) by (auto simp: ram_ok_def)
  have "writing store w' N os' bs' p' \<and> others N store w' = others N store w"
  proof (rule writing_frame [OF W R(1)])
    show "ram_out.os_ok os' w' (ram_rest (os_file os') w') bs' p'" using ok rest by simp
    have "?r < rh_next w" using H w(3) by (simp add: heap_ok_def)
    then show "heap_ok w'" using H R(2,3) by (metis heap_ok_def)
    fix n s assume n: "n \<noteq> N" "ref_of (dir_ht store) n = Some s"
    then have "s \<noteq> ?r" using F [OF n(2)] F [OF w(2)] file_ok_name by blast
    then show "file_ok w' n s \<and> heap_bytes w' s = heap_bytes w s"
      using F [OF n(2)] file_ok_frame heap_bytes_frame R(3) by metis
  next
    fix rf2 assume "rh_files w ?r = Some rf2"
    with R(4) w(3) show "\<exists>rf'. rh_files w' ?r = Some rf' \<and> rf_ok rf' \<and> rf_name rf' = rf_name rf2 \<and> rf_ref_cnt rf' = rf_ref_cnt rf2"
      by simp
  qed (use T in simp_all)
  with r R(1,3) show ?thesis by simp
qed

lemma writing_writes:
  assumes W: "writing store w N os bs p" and k: "ram_out.writes k xs"
  shows "\<exists>os' w'. k os w = Inr (os', w') \<and> writing store w' N os' (write_at bs p xs) (p + length xs) \<and>
    others N store w' = others N store w \<and>
    (\<forall>s. s \<noteq> ro_rf (os_file os) \<longrightarrow> rh_files w' s = rh_files w s) \<and> ro_rf (os_file os') = ro_rf (os_file os)"
proof (rule writing_step [OF W])
  have "ram_out.os_ok os w (ram_rest (os_file os) w) bs p" using W by (simp add: writing_def)
  with k show "ram_out.wrote (k os w) (ram_rest (os_file os) w) (write_at bs p xs) (p + length xs)" by (rule ram_out.writesD)
qed

lemma writing_seek:
  assumes W: "writing store w N os bs p" and q: "q \<le> length bs"
  shows "\<exists>os' w'. frt_os_seek RAM_OUT_STREAM_METHODS os (int q) w = Inr (os', w') \<and> writing store w' N os' bs q \<and>
    others N store w' = others N store w"
proof -
  have "ram_out.os_ok os w (ram_rest (os_file os) w) bs p" using W by (simp add: writing_def)
  from ram_out.frt_os_seek_ok [OF this q] writing_step [OF W] show ?thesis by blast
qed

lemma writing_pos: "writing store w N os bs p \<Longrightarrow> frt_os_pos os = int p"
  unfolding writing_def by (blast intro: ram_out.frt_os_pos_ok)

section \<open>Copying a file\<close>

lemma read_bytes_rf:
  "frt_is_read_bytes (RAM_IN_STREAM_METHODS w) is n = Inr (bs, is') \<Longrightarrow> ram_in_rf is' = ram_in_rf is"
proof -
  have loop: "read_byte_loop is n = Inr (bs, is') \<Longrightarrow> ram_in_rf is' = ram_in_rf is" for "is" n bs is'
    by (induction n arbitrary: "is" bs) (auto simp: ebind_eq_Inr read_byte_def ram_in_rf_def split: if_splits)
  assume "frt_is_read_bytes (RAM_IN_STREAM_METHODS w) is n = Inr (bs, is')"
  then show ?thesis
    using loop [of "is" n bs is']
    by (auto simp: frt_is_read_bytes_def ebind_eq_Inr RAM_IN_STREAM_METHODS_def rami_seek_i_def rami_read_i_def ram_in_rf_def
        Let_def split: if_splits)
qed

lemma is_ok_frame:
  "rh_files w' (ram_in_rf is) = rh_files w (ram_in_rf is) \<Longrightarrow> ram_in.is_ok w is bs p \<Longrightarrow> ram_in.is_ok w' is bs p"
  unfolding ram_in.is_ok_def unfolding ram_in_valid_def heap_bytes_def ram_in_rf_def by simp

lemma cw_copy_loop_ok:
  assumes "writing store w N os bs p" and "ram_in.is_ok w is src q" and "q \<le> length src"
    and "ram_in_rf is \<noteq> ro_rf (os_file os)"
  shows "\<exists>is' os' w'. cw_copy_loop is os (int (length src - q)) w = Inr (is', os', w', 0) \<and>
    writing store w' N os' (write_at bs p (drop q src)) (p + (length src - q)) \<and> others N store w' = others N store w \<and>
    (\<forall>s. s \<noteq> ro_rf (os_file os) \<longrightarrow> rh_files w' s = rh_files w s) \<and> ro_rf (os_file os') = ro_rf (os_file os) \<and>
    ram_in_rf is' = ram_in_rf is"
  using assms
proof (induction "length src - q" arbitrary: "is" os w bs p q rule: less_induct)
  case less
  show ?case
  proof (cases "q < length src")
    case False
    with less.prems show ?thesis by (simp add: cw_copy_loop.simps)
  next
    case True
    define k where "k = min (length src - q) FRT_BUFFER_SIZE"
    have k: "0 < k" "q + k \<le> length src" using True by (auto simp: k_def)
    have len: "min (int (length src - q)) (int FRT_BUFFER_SIZE) = int k" by (simp add: k_def)
    from ram_in.frt_is_read_bytes_ok [OF less.prems(2) k(2)] obtain is1 where
      1: "frt_is_read_bytes (RAM_IN_STREAM_METHODS w) is k = Inr (take k (drop q src), is1)" "ram_in.is_ok w is1 src (q + k)" by blast
    have rf: "ram_in_rf is1 = ram_in_rf is" using 1(1) by (rule read_bytes_rf)
    from writing_writes [OF less.prems(1) ram_out.writes_bytes [of "take k (drop q src)"]] k obtain os1 w1 where
      2: "frt_os_write_bytes RAM_OUT_STREAM_METHODS os (take k (drop q src)) w = Inr (os1, w1)"
        "writing store w1 N os1 (write_at bs p (take k (drop q src))) (p + k)" "others N store w1 = others N store w"
        "\<forall>s. s \<noteq> ro_rf (os_file os) \<longrightarrow> rh_files w1 s = rh_files w s" "ro_rf (os_file os1) = ro_rf (os_file os)" by auto
    have i1: "ram_in.is_ok w1 is1 src (q + k)"
      by (rule is_ok_frame [OF _ 1(2)]) (use 2(4) less.prems(4) rf in simp)
    have "length src - (q + k) < length src - q" using k by simp
    from less.hyps [OF this 2(2) i1 k(2)] less.prems(4) rf 2(5) obtain is2 os2 w2 where
      3: "cw_copy_loop is1 os1 (int (length src - (q + k))) w1 = Inr (is2, os2, w2, 0)"
        "writing store w2 N os2 (write_at (write_at bs p (take k (drop q src))) (p + k) (drop (q + k) src)) (p + k + (length src - (q + k)))"
        "others N store w2 = others N store w1" "\<forall>s. s \<noteq> ro_rf (os_file os) \<longrightarrow> rh_files w2 s = rh_files w1 s"
        "ro_rf (os_file os2) = ro_rf (os_file os)" "ram_in_rf is2 = ram_in_rf is" by auto
    have le: "p \<le> length bs" using less.prems(1) by (auto simp: writing_def dest: ram_out.os_ok_le)
    have lt: "length (take k (drop q src)) = k" using k by simp
    have "take k (drop q src) @ drop (q + k) src = drop q src" by (metis append_take_drop_id drop_drop add.commute)
    then have b: "write_at (write_at bs p (take k (drop q src))) (p + k) (drop (q + k) src) = write_at bs p (drop q src)"
      using write_at_write_at [OF le, of "take k (drop q src)" "drop (q + k) src"] unfolding lt by simp
    have r: "int (length src - q) - int k = int (length src - (q + k))" using k by simp
    have pe: "p + k + (length src - (q + k)) = p + (length src - q)" using k by simp
    have "cw_copy_loop is os (int (length src - q)) w = Inr (is2, os2, w2, 0)"
      using True 1(1) 2(1) 3(1) by (subst cw_copy_loop.simps) (simp only: Let_def len r nat_int ebind_simps prod.case, simp)
    then show ?thesis
      using 2(3,4) 3(3-6) 3(2) [unfolded b pe] by (intro exI conjI) (assumption | simp)+
  qed
qed

lemma writing_open_input:
  assumes W: "writing store w N os bs p" and f: "others N store w (snd x) = Some src"
  shows "\<exists>is store' r rf. ram_open_input store x w = Inr (is, store', rf_put w r (rf\<lparr>rf_ref_cnt := rf_ref_cnt rf + 1\<rparr>)) \<and>
    tab_ok (dir_ht store') \<and> ref_of (dir_ht store') = ref_of (dir_ht store) \<and> ref_of (dir_ht store) (snd x) = Some r \<and>
    rh_files w r = Some rf \<and> 1 \<le> rf_ref_cnt rf \<and> rf_ok rf \<and> r \<noteq> ro_rf (os_file os) \<and> ram_in_rf is = r \<and>
    ram_in.is_ok (rf_put w r (rf\<lparr>rf_ref_cnt := rf_ref_cnt rf + 1\<rparr>)) is src 0"
proof -
  have S: "ram_ok store w" and own: "ref_of (dir_ht store) N = Some (ro_rf (os_file os))" using W by (auto simp: writing_def)
  have n: "snd x \<noteq> N" and d: "ram_dir store w (snd x) = Some src" using f by (auto simp: others_def split: if_splits)
  have T: "tab_ok (dir_ht store)" and F: "\<And>m s. ref_of (dir_ht store) m = Some s \<Longrightarrow> file_ok w m s" using S by (auto simp: ram_ok_def)
  obtain r where r: "ref_of (dir_ht store) (snd x) = Some r" using d by (auto simp: ram_dir_def)
  obtain rf where rf: "rh_files w r = Some rf" "1 \<le> rf_ref_cnt rf" "rf_ok rf" using F [OF r] by (auto simp: file_ok_def)
  have neq: "r \<noteq> ro_rf (os_file os)" using F [OF r] F [OF own] n file_ok_name by blast
  obtain ht where h: "frt_h_get (dir_ht store) (PKey x) = Inr (ref_of (dir_ht store) (snd x), ht)" "tab_ok ht"
    "ref_of ht = ref_of (dir_ht store)" using T by (rule ht_get)
  from ram_open_input_ok [OF S d] obtain i store1 w1 where
    1: "ram_open_input store x w = Inr (i, store1, w1)" "ram_in.is_ok w1 i src 0" by blast
  have "i = frt_is_new \<lparr>ri_rf = r, ri_pointer = 0\<rparr> \<and> store1 = store\<lparr>dir_ht := ht\<rparr> \<and>
      w1 = rf_put w r (rf\<lparr>rf_ref_cnt := rf_ref_cnt rf + 1\<rparr>)"
    using 1(1) h(1) r rf(1) by (simp add: ram_open_input_def FRT_REF_def rf_get_def)
  with 1 h(2,3) r rf neq show ?thesis
    by (intro exI [of _ i] exI [of _ store1] exI [of _ r] exI [of _ rf]) (simp add: ram_in_rf_def frt_is_new_def)
qed

lemma os_ok_frame:
  "rh_files w' (ro_rf (os_file os)) = rh_files w (ro_rf (os_file os)) \<Longrightarrow> ram_out.os_ok os w (ram_rest (os_file os) w) bs p \<Longrightarrow>
   ram_out.os_ok os w' (ram_rest (os_file os) w') bs p"
  unfolding ram_out.os_ok_def unfolding ram_out_valid_def heap_bytes_def by simp

text \<open>The count of another file changes.\<close>

lemma writing_put:
  assumes W: "writing store w N os bs p" and rf: "rh_files w r = Some rf" "r \<noteq> ro_rf (os_file os)" "1 \<le> c"
    and T: "tab_ok (dir_ht store')" "ref_of (dir_ht store') = ref_of (dir_ht store)"
  shows "writing store' (rf_put w r (rf\<lparr>rf_ref_cnt := c\<rparr>)) N os bs p \<and>
    others N store' (rf_put w r (rf\<lparr>rf_ref_cnt := c\<rparr>)) = others N store w"
proof (rule writing_frame [OF W refl _ T])
  let ?w = "rf_put w r (rf\<lparr>rf_ref_cnt := c\<rparr>)"
  have S: "ram_ok store w" and ok: "ram_out.os_ok os w (ram_rest (os_file os) w) bs p" and v: "ram_out_valid (os_file os) w"
    using W by (auto simp: writing_def ram_out.os_ok_def)
  show "ram_out.os_ok os ?w (ram_rest (os_file os) ?w) bs p"
    by (rule os_ok_frame [OF _ ok]) (use rf(2) in \<open>simp add: rf_put_def\<close>)
  show "heap_ok ?w" using S rf(1) by (auto simp: ram_ok_def heap_ok_def rf_put_def)
  fix n s assume "ref_of (dir_ht store) n = Some s"
  then have "file_ok w n s" using S by (simp add: ram_ok_def)
  then show "file_ok ?w n s \<and> heap_bytes ?w s = heap_bytes w s"
    using rf(1,3) by (auto simp: file_ok_def heap_bytes_def rf_put_def rf_ok_def rf_bytes_def)
next
  have v: "ram_out_valid (os_file os) w" using W by (auto simp: writing_def ram_out.os_ok_def)
  fix rf0 assume "rh_files w (ro_rf (os_file os)) = Some rf0"
  with v rf(2) show "\<exists>rf'. rh_files (rf_put w r (rf\<lparr>rf_ref_cnt := c\<rparr>)) (ro_rf (os_file os)) = Some rf' \<and> rf_ok rf' \<and>
      rf_name rf' = rf_name rf0 \<and> rf_ref_cnt rf' = rf_ref_cnt rf0"
    by (auto simp: ram_out_valid_def rf_put_def)
qed

lemma cw_copy_file_ok:
  assumes W: "writing store w N os bs p" and f: "others N store w (snd (cwe_name e)) = Some src"
  shows "\<exists>os' store' w'. cw_copy_file e os store w = Inr (os', store', w') \<and>
    writing store' w' N os' (write_at bs p src) (p + length src) \<and> others N store' w' = others N store w"
proof -
  from writing_open_input [OF W f] obtain i store1 r rf where
    1: "ram_open_input store (cwe_name e) w = Inr (i, store1, rf_put w r (rf\<lparr>rf_ref_cnt := rf_ref_cnt rf + 1\<rparr>))"
      "tab_ok (dir_ht store1)" "ref_of (dir_ht store1) = ref_of (dir_ht store)"
      "rh_files w r = Some rf" "1 \<le> rf_ref_cnt rf" "r \<noteq> ro_rf (os_file os)" "ram_in_rf i = r"
      "ram_in.is_ok (rf_put w r (rf\<lparr>rf_ref_cnt := rf_ref_cnt rf + 1\<rparr>)) i src 0" by blast
  define w1 where "w1 = rf_put w r (rf\<lparr>rf_ref_cnt := rf_ref_cnt rf + 1\<rparr>)"
  have "1 \<le> rf_ref_cnt rf + 1" using 1(5) by simp
  from writing_put [OF W 1(4,6) this 1(2,3)] have W1: "writing store1 w1 N os bs p" and o1: "others N store1 w1 = others N store w"
    by (simp_all add: w1_def)
  have i1: "ram_in.is_ok w1 i src 0" using 1(8) by (simp add: w1_def)
  have neq: "ram_in_rf i \<noteq> ro_rf (os_file os)" using 1(6,7) by simp
  from cw_copy_loop_ok [OF W1 i1 _ neq] obtain i2 os2 w2 where
    2: "cw_copy_loop i os (int (length src)) w1 = Inr (i2, os2, w2, 0)" "writing store1 w2 N os2 (write_at bs p src) (p + length src)"
      "others N store1 w2 = others N store1 w1" "\<forall>s. s \<noteq> ro_rf (os_file os) \<longrightarrow> rh_files w2 s = rh_files w1 s"
      "ro_rf (os_file os2) = ro_rf (os_file os)" "ram_in_rf i2 = r" using 1(7) by auto
  have r2: "rh_files w2 r = Some (rf\<lparr>rf_ref_cnt := rf_ref_cnt rf + 1\<rparr>)" using 2(4) 1(6) by (simp add: w1_def rf_put_def)
  define w3 where "w3 = rf_put w2 r (rf\<lparr>rf_ref_cnt := rf_ref_cnt rf\<rparr>)"
  have c: "rami_close_i (is_file i2) w2 = Inr w3"
    using r2 2(6) 1(5) by (simp add: rami_close_i_def rf_close_def rf_get_def w3_def ram_in_rf_def)
  have "r \<noteq> ro_rf (os_file os2)" using 2(5) 1(6) by simp
  from writing_put [OF 2(2) r2 this 1(5,2) refl] have W3: "writing store1 w3 N os2 (write_at bs p src) (p + length src)"
    and o3: "others N store1 w3 = others N store1 w2" by (simp_all add: w3_def)
  have len: "length_i (RAM_IN_STREAM_METHODS w1) (is_file i) = int (length src)" using i1 by (rule ram_in.length_ok)
  have "cw_copy_file e os store w = Inr (os2, store1, w3)"
    unfolding cw_copy_file_def 1(1) w1_def [symmetric] Let_def ebind_simps prod.case len 2(1)
    using writing_pos [OF W] writing_pos [OF 2(2)] c by simp
  with W3 o3 2(3) o1 show ?thesis by (intro exI conjI) (assumption | simp)+
qed

section \<open>The layout of a compound file\<close>

definition dir_bytes :: "(u64 \<times> byte list) list \<Rightarrow> byte list" where
  "dir_bytes es = concat (map (\<lambda>(off, n). enc_u64 off @ enc_string n) es)"

lemma dir_bytes_simps [simp]:
  "dir_bytes [] = []" "dir_bytes ((off, n) # es) = enc_u64 off @ enc_string n @ dir_bytes es"
  by (simp_all add: dir_bytes_def)

fun data_offsets :: "nat \<Rightarrow> byte list list \<Rightarrow> nat list" where
  "data_offsets q [] = []"
| "data_offsets q (bs # cs) = q # data_offsets (q + length bs) cs"

lemma length_data_offsets [simp]: "length (data_offsets q cs) = length cs"
  by (induction q cs rule: data_offsets.induct) auto

definition dir_size :: "byte list list \<Rightarrow> nat" where
  "dir_size ns = length (dir_bytes (map (\<lambda>n. (0, n)) ns))"

text \<open>Where the data of the first file begins.\<close>

definition data_start :: "byte list list \<Rightarrow> nat" where
  "data_start ns = length (enc_v (length ns)) + dir_size ns"

definition compound_bytes :: "(byte list \<Rightarrow> byte list) \<Rightarrow> byte list list \<Rightarrow> byte list" where
  "compound_bytes D ns =
     enc_v (length ns) @ dir_bytes (zip (map of_nat (data_offsets (data_start ns) (map D ns))) ns) @ concat (map D ns)"

section \<open>The writer\<close>

abbreviation cwe_chars :: "cw_file_entry \<Rightarrow> byte list" where
  "cwe_chars e \<equiv> snd (cwe_name e)"

fun dir_entries :: "nat \<Rightarrow> cw_file_entry list \<Rightarrow> cw_file_entry list" where
  "dir_entries q [] = []"
| "dir_entries q (e # es) = e\<lparr>cwe_dir_offset := int q\<rparr> # dir_entries (q + 8 + length (enc_string (cwe_chars e))) es"

fun data_entries :: "nat \<Rightarrow> (byte list \<Rightarrow> byte list) \<Rightarrow> cw_file_entry list \<Rightarrow> cw_file_entry list" where
  "data_entries q D [] = []"
| "data_entries q D (e # es) = e\<lparr>cwe_data_offset := int q\<rparr> # data_entries (q + length (D (cwe_chars e))) D es"

fun dir_at :: "nat \<Rightarrow> cw_file_entry list \<Rightarrow> bool" where
  "dir_at q [] \<longleftrightarrow> True"
| "dir_at q (e # es) \<longleftrightarrow> cwe_dir_offset e = int q \<and> dir_at (q + 8 + length (enc_string (cwe_chars e))) es"

lemma dir_entries_name [simp]: "map cwe_name (dir_entries q es) = map cwe_name es"
  by (induction q es rule: dir_entries.induct) auto

lemma data_entries_name [simp]: "map cwe_name (data_entries q D es) = map cwe_name es"
  by (induction q D es rule: data_entries.induct) auto

lemma dir_at_entries: "dir_at q (dir_entries q es)"
  by (induction q es rule: dir_entries.induct) auto

lemma dir_at_data: "dir_at q (data_entries k D es) = dir_at q es"
  by (induction k D es arbitrary: q rule: data_entries.induct) auto

lemma data_entries_dir:
  "map (\<lambda>e. (word_of_int (cwe_data_offset e), cwe_chars e)) (data_entries q D es) =
   zip (map of_nat (data_offsets q (map (D \<circ> cwe_chars) es))) (map cwe_chars es)"
  by (induction q D es rule: data_entries.induct) auto

lemma map_chars: "map cwe_name es = map cwe_name es' \<Longrightarrow> map (\<lambda>e. f (cwe_chars e)) es = map (\<lambda>e. f (cwe_chars e)) es'"
proof -
  assume "map cwe_name es = map cwe_name es'"
  then have "map (f \<circ> snd) (map cwe_name es) = map (f \<circ> snd) (map cwe_name es')" by simp
  then show ?thesis by (simp add: comp_def)
qed

text \<open>Writing at the end of the file.\<close>

lemma writing_append:
  assumes "writing store w N os bs (length bs)" and "ram_out.writes k xs"
  shows "\<exists>os' w'. k os w = Inr (os', w') \<and> writing store w' N os' (bs @ xs) (length (bs @ xs)) \<and> others N store w' = others N store w"
  using writing_writes [OF assms] by auto

lemma cw_write_dir_ok:
  assumes "writing store w N os bs (length bs)" and "\<forall>e \<in> set es. length (cwe_chars e) < 2 ^ 32"
  shows "\<exists>os' w'. cw_write_dir es os w = Inr (dir_entries (length bs) es, os', w') \<and>
    writing store w' N os' (bs @ dir_bytes (map (\<lambda>e. (0, cwe_chars e)) es)) (length bs + length (dir_bytes (map (\<lambda>e. (0, cwe_chars e)) es))) \<and>
    others N store w' = others N store w"
  using assms
proof (induction es arbitrary: os w bs)
  case (Cons e es)
  obtain os1 w1 where 1: "frt_os_write_u64 RAM_OUT_STREAM_METHODS os 0 w = Inr (os1, w1)"
    "writing store w1 N os1 (bs @ enc_u64 0) (length (bs @ enc_u64 0))" "others N store w1 = others N store w"
    using writing_append [OF Cons.prems(1) ram_out.writes_u64 [of 0]] by blast
  have "length (cwe_chars e) < 2 ^ 32" using Cons.prems(2) by simp
  from writing_append [OF 1(2) ram_out.writes_string [OF this]] obtain os2 w2 where
    2: "frt_os_write_string RAM_OUT_STREAM_METHODS os1 (cwe_chars e) w1 = Inr (os2, w2)"
      "writing store w2 N os2 ((bs @ enc_u64 0) @ enc_string (cwe_chars e)) (length ((bs @ enc_u64 0) @ enc_string (cwe_chars e)))"
      "others N store w2 = others N store w1" by blast
  have "\<forall>e \<in> set es. length (cwe_chars e) < 2 ^ 32" using Cons.prems(2) by simp
  from Cons.IH [OF 2(2) this] obtain os3 w3 where
    3: "cw_write_dir es os2 w2 = Inr (dir_entries (length ((bs @ enc_u64 0) @ enc_string (cwe_chars e))) es, os3, w3)"
      "writing store w3 N os3 (((bs @ enc_u64 0) @ enc_string (cwe_chars e)) @ dir_bytes (map (\<lambda>e. (0, cwe_chars e)) es))
        (length ((bs @ enc_u64 0) @ enc_string (cwe_chars e)) + length (dir_bytes (map (\<lambda>e. (0, cwe_chars e)) es)))"
      "others N store w3 = others N store w2" by blast
  from 1(3) 2(3) 3 show ?case
    by (simp add: writing_pos [OF Cons.prems(1)] Let_def 1(1) 2(1) add.assoc)
qed simp

text \<open>A change of the next address only.\<close>

lemma writing_next:
  assumes W: "writing store w N os bs p" and w': "rh_files w' = rh_files w" "rh_next w \<le> rh_next w'"
  shows "writing store w' N os bs p \<and> others N store w' = others N store w"
proof -
  from W have S: "ram_ok store w" and ok: "ram_out.os_ok os w (ram_rest (os_file os) w) bs p" by (auto simp: writing_def)
  have "ram_out.os_ok os w' (ram_rest (os_file os) w') bs p" by (rule os_ok_frame [OF _ ok]) (simp add: w')
  moreover have "ram_ok store w'"
    using S w' by (auto simp: ram_ok_def heap_ok_def file_ok_def)
  moreover have "heap_bytes w' = heap_bytes w" by (rule ext) (simp add: heap_bytes_def w')
  ultimately show ?thesis using W w'(1) unfolding writing_def others_def ram_dir_def by simp
qed

text \<open>The names \<open>Q\<close> are queued, and \<open>k\<close> more have room.\<close>

definition dlr_ok :: "frt_deleter option \<Rightarrow> byte list set \<Rightarrow> nat \<Rightarrow> bool" where
  "dlr_ok dlr Q k \<longleftrightarrow> (case dlr of None \<Rightarrow> True
     | Some d \<Rightarrow> \<exists>xs. str_set (dlr_pending d) xs \<and> snd ` set xs = Q \<and> length xs + k < 2 ^ 28)"

lemma dlr_queue_ok:
  assumes W: "writing store w N os bs p" and d: "dlr_ok dlr Q (Suc k)"
  shows "\<exists>dlr' w'. (case dlr of Some d \<Rightarrow> ebind (frt_deleter_queue_file d n w) (\<lambda>(d, w). Inr (Some d, w)) | None \<Rightarrow> Inr (None, w)) = Inr (dlr', w') \<and>
    dlr_ok dlr' (insert n Q) k \<and> (dlr' = None \<longleftrightarrow> dlr = None) \<and> writing store w' N os bs p \<and> others N store w' = others N store w"
proof (cases dlr)
  case None
  then show ?thesis using W by (simp add: dlr_ok_def)
next
  case (Some d0)
  with d obtain xs where xs: "str_set (dlr_pending d0) xs" "snd ` set xs = Q" "length xs + Suc k < 2 ^ 28" by (auto simp: dlr_ok_def)
  have "length xs < 2 ^ 28" using xs(3) by simp
  from frt_deleter_queue_file_ok [OF xs(1) this, of n w] obtain d' w' xs' where
    1: "frt_deleter_queue_file d0 n w = Inr (d', w')" "str_set (dlr_pending d') xs'" "snd ` set xs' = insert n (snd ` set xs)"
      "length xs' \<le> length xs + 1" "rh_files w' = rh_files w" "rh_next w \<le> rh_next w'" by blast
  have "dlr_ok (Some d') (insert n Q) k" unfolding dlr_ok_def option.case
    by (rule exI [of _ xs']) (use 1(2-4) xs(2,3) in simp)
  with writing_next [OF W 1(5,6)] show ?thesis using Some 1(1) by simp
qed

lemma cw_copy_files_ok:
  assumes "writing store w N os bs (length bs)" and "\<forall>e \<in> set es. others N store w (cwe_chars e) = Some (D (cwe_chars e))"
    and "dlr_ok dlr Q (length es)"
  shows "\<exists>dlr' os' store' w'. cw_copy_files es dlr os store w = Inr (data_entries (length bs) D es, dlr', os', store', w') \<and>
    writing store' w' N os' (bs @ concat (map (D \<circ> cwe_chars) es)) (length bs + length (concat (map (D \<circ> cwe_chars) es))) \<and>
    others N store' w' = others N store w \<and> dlr_ok dlr' (Q \<union> cwe_chars ` set es) 0 \<and> (dlr' = None \<longleftrightarrow> dlr = None)"
  using assms
proof (induction es arbitrary: os store w bs dlr Q)
  case Nil
  then show ?case by simp
next
  case (Cons e es)
  let ?e = "e\<lparr>cwe_data_offset := int (length bs)\<rparr>" and ?src = "D (cwe_chars e)"
  have "others N store w (cwe_chars ?e) = Some ?src" using Cons.prems(2) by simp
  from cw_copy_file_ok [OF Cons.prems(1) this] obtain os1 store1 w1 where
    1: "cw_copy_file ?e os store w = Inr (os1, store1, w1)" "writing store1 w1 N os1 (bs @ ?src) (length (bs @ ?src))"
      "others N store1 w1 = others N store w" by auto
  have "dlr_ok dlr Q (Suc (length es))" using Cons.prems(3) by simp
  from dlr_queue_ok [OF 1(2) this, of "cwe_chars ?e"] obtain dlr1 w2 where
    2: "(case dlr of Some d \<Rightarrow> ebind (frt_deleter_queue_file d (cwe_chars ?e) w1) (\<lambda>(d, w). Inr (Some d, w)) | None \<Rightarrow> Inr (None, w1)) = Inr (dlr1, w2)"
      "dlr_ok dlr1 (insert (cwe_chars ?e) Q) (length es)" "dlr1 = None \<longleftrightarrow> dlr = None"
      "writing store1 w2 N os1 (bs @ ?src) (length (bs @ ?src))" "others N store1 w2 = others N store1 w1" by blast
  have "\<forall>e \<in> set es. others N store1 w2 (cwe_chars e) = Some (D (cwe_chars e))" using Cons.prems(2) 1(3) 2(5) by simp
  from Cons.IH [OF 2(4) this 2(2)] obtain dlr' os' store' w' where
    3: "cw_copy_files es dlr1 os1 store1 w2 = Inr (data_entries (length (bs @ ?src)) D es, dlr', os', store', w')"
      "writing store' w' N os' ((bs @ ?src) @ concat (map (D \<circ> cwe_chars) es)) (length (bs @ ?src) + length (concat (map (D \<circ> cwe_chars) es)))"
      "others N store' w' = others N store1 w2" "dlr_ok dlr' (insert (cwe_chars ?e) Q \<union> cwe_chars ` set es) 0" "dlr' = None \<longleftrightarrow> dlr1 = None" by blast
  have pos: "frt_os_pos os = int (length bs)" using Cons.prems(1) by (rule writing_pos)
  have "cw_copy_files (e # es) dlr os store w = Inr (?e # data_entries (length (bs @ ?src)) D es, dlr', os', store', w')"
    using 1(1) 2(1) 3(1) by (simp add: Let_def pos)
  moreover have "data_entries (length bs) D (e # es) = ?e # data_entries (length (bs @ ?src)) D es" by simp
  moreover have "(bs @ ?src) @ concat (map (D \<circ> cwe_chars) es) = bs @ concat (map (D \<circ> cwe_chars) (e # es))"
    "length (bs @ ?src) + length (concat (map (D \<circ> cwe_chars) es)) = length bs + length (concat (map (D \<circ> cwe_chars) (e # es)))"
    "insert (cwe_chars ?e) Q \<union> cwe_chars ` set es = Q \<union> cwe_chars ` set (e # es)" by auto
  ultimately show ?case using 3(2-5) 2(3,5) 1(3) by metis
qed

lemma cw_write_offsets_ok:
  assumes "writing store w N os (pre @ dir_bytes (map (\<lambda>e. (0, cwe_chars e)) es) @ post) p" and "dir_at (length pre) es"
  shows "\<exists>os' w' p'. cw_write_offsets es os w = Inr (os', w') \<and>
    writing store w' N os' (pre @ dir_bytes (map (\<lambda>e. (word_of_int (cwe_data_offset e), cwe_chars e)) es) @ post) p' \<and>
    others N store w' = others N store w"
  using assms
proof (induction es arbitrary: os w pre p)
  case Nil
  then show ?case by auto
next
  case (Cons e es)
  let ?off = "word_of_int (cwe_data_offset e) :: u64" and ?n = "enc_string (cwe_chars e)"
  let ?rest = "dir_bytes (map (\<lambda>e. (0, cwe_chars e)) es) @ post"
  have bs: "pre @ dir_bytes (map (\<lambda>e. (0, cwe_chars e)) (e # es)) @ post = pre @ enc_u64 0 @ (?n @ ?rest)" by simp
  have q: "length pre \<le> length (pre @ enc_u64 0 @ (?n @ ?rest))" and o: "cwe_dir_offset e = int (length pre)"
    using Cons.prems(2) by simp_all
  from writing_seek [OF Cons.prems(1) [unfolded bs] q] obtain os1 w1 where
    1: "frt_os_seek RAM_OUT_STREAM_METHODS os (cwe_dir_offset e) w = Inr (os1, w1)"
      "writing store w1 N os1 (pre @ enc_u64 0 @ (?n @ ?rest)) (length pre)" "others N store w1 = others N store w" unfolding o by blast
  have m: "write_at (pre @ enc_u64 0 @ (?n @ ?rest)) (length pre) (enc_u64 ?off) = (pre @ enc_u64 ?off @ ?n) @ ?rest"
    by (subst write_at_middle) simp_all
  from writing_writes [OF 1(2) ram_out.writes_u64 [of ?off]] obtain os2 w2 where
    2: "frt_os_write_u64 RAM_OUT_STREAM_METHODS os1 ?off w1 = Inr (os2, w2)"
      "writing store w2 N os2 ((pre @ enc_u64 ?off @ ?n) @ ?rest) (length pre + length (enc_u64 ?off))"
      "others N store w2 = others N store w1" unfolding m by blast
  have "dir_at (length (pre @ enc_u64 ?off @ ?n)) es" using Cons.prems(2) by (simp add: add.assoc)
  from Cons.IH [OF 2(2) this] obtain os3 w3 p3 where
    3: "cw_write_offsets es os2 w2 = Inr (os3, w3)" "others N store w3 = others N store w2"
      "writing store w3 N os3 ((pre @ enc_u64 ?off @ ?n) @ dir_bytes (map (\<lambda>e. (word_of_int (cwe_data_offset e), cwe_chars e)) es) @ post) p3"
    by blast
  have e: "(pre @ enc_u64 ?off @ ?n) @ dir_bytes (map (\<lambda>e. (word_of_int (cwe_data_offset e), cwe_chars e)) es) @ post =
    pre @ dir_bytes (map (\<lambda>e. (word_of_int (cwe_data_offset e), cwe_chars e)) (e # es)) @ post" by simp
  show ?case
    by (rule exI [of _ os3], rule exI [of _ w3], rule exI [of _ p3])
      (use 1(1,3) 2(1,3) 3(1,2) 3(3) [unfolded e] in simp)
qed

lemma data_start_eq: "length (enc_v (length es) @ dir_bytes (map (\<lambda>e. (0, cwe_chars e)) es)) = data_start (map cwe_chars es)"
  by (simp add: data_start_def dir_size_def comp_def)

lemma compound_bytes_eq:
  assumes "es' = data_entries (data_start (map cwe_chars es)) D (dir_entries q es)"
  shows "enc_v (length es) @ dir_bytes (map (\<lambda>e. (word_of_int (cwe_data_offset e), cwe_chars e)) es') @ concat (map (D \<circ> cwe_chars) es) =
    compound_bytes D (map cwe_chars es)"
proof -
  have c: "map cwe_chars (dir_entries q es) = map cwe_chars es" "map (D \<circ> cwe_chars) (dir_entries q es) = map (D \<circ> cwe_chars) es"
    using map_chars [OF dir_entries_name [of q es], where f = "\<lambda>x. x"] map_chars [OF dir_entries_name [of q es], where f = D]
    by (simp_all add: comp_def)
  show ?thesis unfolding assms data_entries_dir c by (simp add: compound_bytes_def comp_def)
qed

theorem frt_cw_close_ok:
  assumes S: "ram_ok store w" and small: "h_size (dir_ht store) < 2 ^ 28" and new: "ram_dir store w (snd (cw_name cw)) = None"
    and ids: "0 < hs_size (cw_ids cw)" and es: "map cwe_chars (cw_file_entries cw) = ns"
    and D: "\<forall>n \<in> set ns. ram_dir store w n = Some (D n) \<and> length n < 2 ^ 32" and len: "length ns < 2 ^ 32"
    and dlr: "dlr_ok dlr Q (length ns)"
  shows "\<exists>dlr' store' w'. frt_cw_close cw dlr store w = Inr (dlr', store', w') \<and> ram_ok store' w' \<and>
    ram_dir store' w' = (ram_dir store w)(snd (cw_name cw) \<mapsto> compound_bytes D ns) \<and> dlr_ok dlr' (Q \<union> set ns) 0 \<and>
    (dlr' = None \<longleftrightarrow> dlr = None)"
proof -
  let ?N = "snd (cw_name cw)" and ?es = "cw_file_entries cw"
  have l: "length ?es = length ns" using es by (metis length_map)
  have E: "\<forall>e \<in> set ?es. ram_dir store w (cwe_chars e) = Some (D (cwe_chars e)) \<and> length (cwe_chars e) < 2 ^ 32"
    using D unfolding es [symmetric] by simp
  obtain os store1 w1 where 1: "ram_new_output store (cw_name cw) w = Inr (os, store1, w1)" "writing store1 w1 ?N os [] (length ([] :: byte list))"
    "others ?N store1 w1 = ram_dir store w" using writing_new [OF S small new] by auto
  have n: "unat (of_nat (length ?es) :: u32) = length ?es" using len l by (simp add: unat_of_nat)
  from writing_append [OF 1(2) ram_out.writes_vint [of "of_nat (length ?es)"]] obtain os2 w2 where
    2: "frt_os_write_vint RAM_OUT_STREAM_METHODS os (of_nat (length ?es)) w1 = Inr (os2, w2)"
      "writing store1 w2 ?N os2 (enc_v (length ?es)) (length (enc_v (length ?es)))" "others ?N store1 w2 = others ?N store1 w1"
    unfolding n by auto
  have "\<forall>e \<in> set ?es. length (cwe_chars e) < 2 ^ 32" using E by simp
  from cw_write_dir_ok [OF 2(2) this] obtain os3 w3 where
    3: "cw_write_dir ?es os2 w2 = Inr (dir_entries (length (enc_v (length ?es))) ?es, os3, w3)"
      "writing store1 w3 ?N os3 (enc_v (length ?es) @ dir_bytes (map (\<lambda>e. (0, cwe_chars e)) ?es))
        (length (enc_v (length ?es) @ dir_bytes (map (\<lambda>e. (0, cwe_chars e)) ?es)))" "others ?N store1 w3 = others ?N store1 w2"
    by (auto simp del: dir_entries.simps)
  define es3 where "es3 = dir_entries (length (enc_v (length ?es))) ?es"
  have nm: "map cwe_name es3 = map cwe_name ?es" by (simp add: es3_def)
  have c3: "map (f \<circ> cwe_chars) es3 = map (f \<circ> cwe_chars) ?es" for f :: "byte list \<Rightarrow> byte list"
    using map_chars [OF nm, of f] by (simp add: comp_def)
  have ch: "cwe_chars ` set es3 = cwe_chars ` set ?es" using arg_cong [OF c3 [of "\<lambda>x. x"], of set] by (simp add: comp_def)
  have q: "length (enc_v (length ?es) @ dir_bytes (map (\<lambda>e. (0, cwe_chars e)) ?es)) = data_start ns"
    unfolding data_start_eq es ..
  have "\<forall>n \<in> cwe_chars ` set es3. others ?N store1 w3 n = Some (D n)"
    using E unfolding ch 3(3) 2(3) 1(3) by simp
  then have o3: "\<forall>e \<in> set es3. others ?N store1 w3 (cwe_chars e) = Some (D (cwe_chars e))" by simp
  have "length es3 = length ns" using arg_cong [OF nm, of length] l by simp
  then have "dlr_ok dlr Q (length es3)" using dlr by simp
  from cw_copy_files_ok [OF 3(2) o3 this] obtain dlr4 os4 store4 w4 where
    4: "cw_copy_files es3 dlr os3 store1 w3 = Inr (data_entries (data_start ns) D es3, dlr4, os4, store4, w4)"
      "\<exists>p. writing store4 w4 ?N os4 ((enc_v (length ?es) @ dir_bytes (map (\<lambda>e. (0, cwe_chars e)) ?es)) @ concat (map (D \<circ> cwe_chars) es3)) p"
      "others ?N store4 w4 = others ?N store1 w3" "dlr_ok dlr4 (Q \<union> cwe_chars ` set es3) 0" "dlr4 = None \<longleftrightarrow> dlr = None" unfolding q by blast
  define es4 where "es4 = data_entries (data_start ns) D es3"
  have nm4: "map cwe_name es4 = map cwe_name ?es" by (simp add: es4_def nm)
  have d4: "map (\<lambda>e. (0 :: u64, cwe_chars e)) es4 = map (\<lambda>e. (0, cwe_chars e)) ?es" by (rule map_chars [OF nm4])
  from 4(2) obtain p where "writing store4 w4 ?N os4 (enc_v (length ?es) @ dir_bytes (map (\<lambda>e. (0, cwe_chars e)) es4) @ concat (map (D \<circ> cwe_chars) ?es)) p"
    unfolding d4 c3 by auto
  moreover have "dir_at (length (enc_v (length ?es))) es4" by (simp add: es4_def es3_def dir_at_data dir_at_entries)
  ultimately obtain os5 w5 p5 where
    5: "cw_write_offsets es4 os4 w4 = Inr (os5, w5)" "others ?N store4 w5 = others ?N store4 w4"
      "writing store4 w5 ?N os5 (enc_v (length ?es) @ dir_bytes (map (\<lambda>e. (word_of_int (cwe_data_offset e), cwe_chars e)) es4) @ concat (map (D \<circ> cwe_chars) ?es)) p5"
    using cw_write_offsets_ok by blast
  have b: "enc_v (length ?es) @ dir_bytes (map (\<lambda>e. (word_of_int (cwe_data_offset e), cwe_chars e)) es4) @ concat (map (D \<circ> cwe_chars) ?es) = compound_bytes D ns"
    by (rule compound_bytes_eq [of es4 ?es D "length (enc_v (length ?es))", unfolded es]) (simp add: es4_def es3_def)
  from writing_close [OF 5(3)] obtain w6 where
    6: "frt_os_close RAM_OUT_STREAM_METHODS os5 w5 = Inr w6" "ram_ok store4 w6"
      "ram_dir store4 w6 = (others ?N store4 w5)(?N \<mapsto> compound_bytes D ns)" unfolding b by blast
  have "frt_cw_close cw dlr store w = Inr (dlr4, store4, w6)"
    unfolding frt_cw_close_def 1(1) ebind_simps prod.case 2(1) 3(1) es3_def [symmetric] 4(1) es4_def [symmetric] 5(1) 6(1)
    using ids by simp
  moreover have "ram_dir store4 w6 = (ram_dir store w)(?N \<mapsto> compound_bytes D ns)"
    unfolding 6(3) 5(2) 4(3) 3(3) 2(3) 1(3) ..
  moreover have "cwe_chars ` set es3 = set ns" unfolding ch es [symmetric] by simp
  ultimately show ?thesis using 6(2) 4(4,5) by auto
qed

section \<open>Adding files\<close>

lemma cw_add_files_ok:
  assumes "str_set (cw_ids cw) xs" and "map snd xs = map cwe_chars (cw_file_entries cw)" and "length xs + length ns < 2 ^ 28"
    and "distinct (map snd xs @ ns)"
  shows "\<exists>cw' w' xs'. cw_add_files ns cw w = Inr (cw', w') \<and> str_set (cw_ids cw') xs' \<and> map snd xs' = map snd xs @ ns \<and>
    map cwe_chars (cw_file_entries cw') = map snd xs' \<and> cw_name cw' = cw_name cw \<and> rh_files w' = rh_files w \<and> rh_next w \<le> rh_next w'"
  using assms
proof (induction ns arbitrary: cw w xs)
  case Nil
  then show ?case by auto
next
  case (Cons n ns)
  let ?x = "(rh_next w, n)" and ?w = "w\<lparr>rh_next := rh_next w + 1\<rparr>"
  have new: "\<not> (\<exists>y \<in> set xs. str_eq y ?x)" using Cons.prems(4) by (force simp: str_eq_def)
  have "length xs < 2 ^ 28" using Cons.prems(3) by simp
  from str_keys.frt_hs_add_ok [OF Cons.prems(1) [unfolded str_set_def] this, of ?x] new obtain ids where
    ids: "frt_hs_add (cw_ids cw) ?x = Inr (FRT_HASH_KEY_DOES_NOT_EXIST, ids)" "str_set ids (xs @ [?x])"
    by (auto simp: str_keys.hs_mem_def str_set_def)
  let ?cw = "cw\<lparr>cw_ids := ids, cw_file_entries := cw_file_entries cw @ [\<lparr>cwe_name = ?x, cwe_dir_offset = 0, cwe_data_offset = 0\<rparr>]\<rparr>"
  have a: "frt_cw_add_file cw n w = Inr (?cw, ?w)" by (simp add: frt_cw_add_file_def frt_estrdup_def ids(1))
  have "\<exists>cw' w' xs'. cw_add_files ns ?cw ?w = Inr (cw', w') \<and> str_set (cw_ids cw') xs' \<and> map snd xs' = map snd (xs @ [?x]) @ ns \<and>
    map cwe_chars (cw_file_entries cw') = map snd xs' \<and> cw_name cw' = cw_name ?cw \<and> rh_files w' = rh_files ?w \<and> rh_next ?w \<le> rh_next w'"
    by (rule Cons.IH) (use Cons.prems ids(2) in simp_all)
  then show ?case by (elim exE conjE) (auto simp: a)
qed

section \<open>Reading the directory\<close>

text \<open>The table lists the names in the order of their entries.\<close>

definition ent_tab :: "(cstr, nat) frt_hash \<Rightarrow> byte list list \<Rightarrow> bool" where
  "ent_tab ht ns \<longleftrightarrow> str_keys.keyed ht \<and> h_size ht = int (length ns) \<and> (\<forall>i < length ns. h_map ht (0, ns ! i) = Some (Some i)) \<and>
     (\<forall>n. n \<notin> set ns \<longrightarrow> h_map ht (0, n) = None)"

lemma ent_tab_new: "ent_tab (frt_h_new_str True True) []"
proof -
  have eq: "frt_h_new_str True True = (frt_h_new frt_str_hash str_eq True True :: (cstr, nat) frt_hash)"
    by (simp add: frt_h_new_str_def frt_h_new_def)
  show ?thesis using str_keys.frt_h_new_keyed [OF eq] by (simp add: ent_tab_def frt_h_new_str_def)
qed

lemma ent_tab_get:
  assumes T: "ent_tab ht ns"
  shows "\<exists>ht'. frt_h_get ht (PKey x) = Inr (Option.bind (h_map ht (0, snd x)) id, ht') \<and> ent_tab ht' ns"
proof -
  have K: "str_keys.keyed ht" using T by (simp add: ent_tab_def)
  from str_keys.frt_h_get_ok [OF K, of x] T show ?thesis unfolding h_map_chars [OF K, of x] by (auto simp: ent_tab_def)
qed

lemma ent_tab_set:
  assumes T: "ent_tab ht ns" and new: "snd x \<notin> set ns" and small: "length ns < 2 ^ 28"
  shows "\<exists>r ht'. frt_h_set ht (PKey x) (Some (length ns)) = Inr (r, ht') \<and> ent_tab ht' (ns @ [snd x])"
proof -
  have K: "str_keys.keyed ht" and s: "h_size ht < 2 ^ 28" using T small by (simp_all add: ent_tab_def)
  have none: "h_map ht x = None" using T new unfolding h_map_chars [OF K, of x] by (simp add: ent_tab_def)
  from str_keys.frt_h_set_ok [OF K s, of x "Some (length ns)"] obtain r ht' where
    h: "frt_h_set ht (PKey x) (Some (length ns)) = Inr (r, ht')" "str_keys.keyed ht'"
      "\<And>z. h_map ht' z = (if str_eq x z then Some (Some (length ns)) else h_map ht z)" "h_size ht' = h_size ht + 1"
    unfolding none by auto
  have "ent_tab ht' (ns @ [snd x])" unfolding ent_tab_def
  proof (intro conjI allI impI)
    fix i assume "i < length (ns @ [snd x])"
    moreover have "ns ! i \<noteq> snd x" if "i < length ns" using new nth_mem [OF that] by auto
    ultimately show "h_map ht' (0, (ns @ [snd x]) ! i) = Some (Some i)"
      using T by (auto simp: h(3) ent_tab_def str_eq_def nth_append less_Suc_eq)
  qed (use T h(2-4) in \<open>auto simp: ent_tab_def str_eq_def\<close>)
  with h(1) show ?thesis by blast
qed

text \<open>The entries between offsets; the last one ends at \<open>e\<close>.\<close>

fun spans :: "int list \<Rightarrow> int \<Rightarrow> file_entry list" where
  "spans [] e = []"
| "spans (a # as) e = \<lparr>en_offset = a, en_length = (case as of [] \<Rightarrow> e | b # _ \<Rightarrow> b) - a\<rparr> # spans as e"

lemma spans_snoc: "spans (as @ [a]) e = spans as a @ [\<lparr>en_offset = a, en_length = e - a\<rparr>]"
  by (induction as) (auto split: list.split)

lemma length_spans [simp]: "length (spans as e) = length as"
  by (induction as) auto

lemma set_last_spans: "set_last off (spans as e) = spans as off"
  by (cases as rule: rev_cases) (auto simp: set_last_def spans_snoc list_update_append)

context in_source
begin

lemma cmpd_read_entries_ok:
  assumes "is_ok is bs p" and "p \<le> length bs" and "drop p bs = dir_bytes es @ ys"
    and "ent_tab entries ns" and "objs = spans offs e" and "length offs = length ns"
    and "distinct (ns @ map snd es)" and "length ns + length es < 2 ^ 28" and "\<forall>n \<in> snd ` set es. length n < 2 ^ 31"
  shows "\<exists>entries' is' w' e'. cmpd_read_entries m (length es) entries objs is w =
      Inr (entries', spans (offs @ map (sint \<circ> fst) es) e', is', w') \<and>
    ent_tab entries' (ns @ map snd es) \<and> is_ok is' bs (p + length (dir_bytes es)) \<and> rh_files w' = rh_files w \<and> rh_next w \<le> rh_next w'"
  using assms
proof (induction es arbitrary: "is" p entries ns objs offs e w)
  case Nil
  then show ?case by auto
next
  case (Cons x es)
  obtain off n where x: "x = (off, n)" by (rule prod.exhaust)
  have d: "drop p bs = enc_u64 off @ (enc_string n @ dir_bytes es @ ys)" using Cons.prems(3) by (simp add: x)
  obtain is1 where 1: "frt_is_read_i64 m is = Inr (off, is1)" "is_ok is1 bs (p + length (enc_u64 off))"
    "p + length (enc_u64 off) \<le> length bs" "drop (p + length (enc_u64 off)) bs = enc_string n @ (dir_bytes es @ ys)"
    using decodesD [OF decodes_i64 Cons.prems(1,2) d] .
  have "length n < 2 ^ 31" using Cons.prems(9) by (simp add: x)
  from decodesD [OF decodes_string [OF this] 1(2-4)] obtain is2 where 2: "frt_is_read_string m is1 = Inr (n, is2)"
    "is_ok is2 bs (p + length (enc_u64 off) + length (enc_string n))" "p + length (enc_u64 off) + length (enc_string n) \<le> length bs"
    "drop (p + length (enc_u64 off) + length (enc_string n)) bs = dir_bytes es @ ys" .
  let ?objs = "set_last (sint off) objs @ [\<lparr>en_offset = sint off, en_length = 0\<rparr>]" and ?w = "w\<lparr>rh_next := rh_next w + 1\<rparr>"
  have o: "?objs = spans (offs @ [sint off]) (sint off)" unfolding Cons.prems(5) set_last_spans spans_snoc by simp
  have lo: "length ?objs - 1 = length ns" by (simp add: Cons.prems(5,6) set_last_spans)
  have new: "snd (rh_next w, n) \<notin> set ns" and small: "length ns < 2 ^ 28" using Cons.prems(7,8) by (auto simp: x)
  from ent_tab_set [OF Cons.prems(4) new small] obtain r entries1 where
    3: "frt_h_set entries (PKey (rh_next w, n)) (Some (length ns)) = Inr (r, entries1)" "ent_tab entries1 (ns @ [n])" by auto
  have "\<exists>entries' is' w' e'. cmpd_read_entries m (length es) entries1 ?objs is2 ?w =
      Inr (entries', spans ((offs @ [sint off]) @ map (sint \<circ> fst) es) e', is', w') \<and>
    ent_tab entries' ((ns @ [n]) @ map snd es) \<and>
    is_ok is' bs (p + length (enc_u64 off) + length (enc_string n) + length (dir_bytes es)) \<and> rh_files w' = rh_files ?w \<and> rh_next ?w \<le> rh_next w'"
    by (rule Cons.IH [OF 2(2-4) 3(2) o]) (use Cons.prems in \<open>auto simp: x\<close>)
  then obtain entries' is' w' e' where 4: "cmpd_read_entries m (length es) entries1 ?objs is2 ?w =
      Inr (entries', spans ((offs @ [sint off]) @ map (sint \<circ> fst) es) e', is', w')"
    "ent_tab entries' ((ns @ [n]) @ map snd es)"
    "is_ok is' bs (p + length (enc_u64 off) + length (enc_string n) + length (dir_bytes es))" "rh_files w' = rh_files w" "rh_next w + 1 \<le> rh_next w'"
    by auto
  have "cmpd_read_entries m (length (x # es)) entries objs is w = Inr (entries', spans ((offs @ [sint off]) @ map (sint \<circ> fst) es) e', is', w')"
    using 4(1) by (simp only: list.size cmpd_read_entries.simps add_Suc_right add_0_right 1(1) 2(1) ebind_simps prod.case
        frt_estrdup_def Let_def lo 3(1))
  then show ?case
    using 4(2-5) by (intro exI [of _ entries'] exI [of _ is'] exI [of _ w'] exI [of _ e']) (simp add: x add.assoc comp_def)
qed

end

section \<open>The files of a compound file\<close>

lemma spans_data:
  "i < length cs \<Longrightarrow> spans (map int (data_offsets q cs)) (int (q + length (concat cs))) ! i =
     \<lparr>en_offset = int (q + length (concat (take i cs))), en_length = int (length (cs ! i))\<rparr>"
proof (induction cs arbitrary: q i)
  case (Cons c cs)
  have e: "int (q + length (concat (c # cs))) = int ((q + length c) + length (concat cs))" by simp
  show ?case
  proof (cases i)
    case 0
    then show ?thesis by (cases cs) auto
  next
    case (Suc j)
    with Cons.prems have "j < length cs" by simp
    from Cons.IH [OF this, of "q + length c"] show ?thesis unfolding Suc e by simp
  qed
qed simp

lemma data_at: "i < length cs \<Longrightarrow> take (length (cs ! i)) (drop (length us + length (concat (take i cs))) (us @ concat cs)) = cs ! i"
proof -
  assume i: "i < length cs"
  have "concat cs = concat (take i cs) @ cs ! i @ concat (drop (Suc i) cs)"
    by (subst id_take_nth_drop [OF i]) simp
  then show ?thesis by simp
qed

lemma sint_of_nat_64: "n < 2 ^ 63 \<Longrightarrow> sint (of_nat n :: u64) = int n"
  by (simp add: signed_of_nat signed_take_bit_int_eq_self)

lemma data_offsets_le: "a \<in> set (data_offsets q cs) \<Longrightarrow> a \<le> q + length (concat cs)"
  by (induction q cs rule: data_offsets.induct) auto

definition dir_list :: "(byte list \<Rightarrow> byte list) \<Rightarrow> byte list list \<Rightarrow> (u64 \<times> byte list) list" where
  "dir_list D ns = zip (map of_nat (data_offsets (data_start ns) (map D ns))) ns"

lemma dir_list_simps [simp]: "length (dir_list D ns) = length ns" "map snd (dir_list D ns) = ns"
  by (simp_all add: dir_list_def)

lemma length_dir_bytes: "length (dir_bytes es) = dir_size (map snd es)"
  by (induction es) (auto simp: dir_size_def)

lemma compound_bytes_split:
  "compound_bytes D ns = (enc_v (length ns) @ dir_bytes (dir_list D ns)) @ concat (map D ns)"
  "length (enc_v (length ns) @ dir_bytes (dir_list D ns)) = data_start ns"
proof -
  show "compound_bytes D ns = (enc_v (length ns) @ dir_bytes (dir_list D ns)) @ concat (map D ns)"
    by (simp only: compound_bytes_def dir_list_def append_assoc)
  show "length (enc_v (length ns) @ dir_bytes (dir_list D ns)) = data_start ns"
    using length_dir_bytes [of "dir_list D ns"] by (simp add: data_start_def)
qed

lemma length_compound: "length (compound_bytes D ns) = data_start ns + length (concat (map D ns))"
  unfolding compound_bytes_split(1) length_append [of _ "concat (map D ns)"] compound_bytes_split(2) ..

lemma dir_list_offsets:
  assumes "length (compound_bytes D ns) < 2 ^ 63"
  shows "map (sint \<circ> fst) (dir_list D ns) = map int (data_offsets (data_start ns) (map D ns))"
proof -
  have "map (sint \<circ> fst) (dir_list D ns) = map sint (map fst (dir_list D ns))" by simp
  also have "map fst (dir_list D ns) = map of_nat (data_offsets (data_start ns) (map D ns))" by (simp add: dir_list_def)
  also have "map (sint :: u64 \<Rightarrow> int) \<dots> = map int (data_offsets (data_start ns) (map D ns))"
    unfolding map_map comp_def
    by (rule map_cong [OF refl], rule sint_of_nat_64) (use assms data_offsets_le [of _ "data_start ns" "map D ns"] in \<open>force simp: length_compound\<close>)
  finally show ?thesis .
qed

text \<open>A compound store over the files \<open>ns\<close>, with the contents \<open>D\<close>.\<close>

definition cmpd_ok :: "ram_heap \<Rightarrow> compound_store \<Rightarrow> shared_stream \<Rightarrow> (byte list \<Rightarrow> byte list) \<Rightarrow> byte list list \<Rightarrow> bool" where
  "cmpd_ok w cs ss D ns \<longleftrightarrow> cs_open cs \<and> ent_tab (cs_entries cs) ns \<and>
     cs_objs cs = spans (map int (data_offsets (data_start ns) (map D ns))) (int (length (compound_bytes D ns))) \<and>
     (\<exists>p. ram_in.is_ok w (ss_stream ss) (compound_bytes D ns) p) \<and> 0 < ss_ref_cnt ss"

theorem frt_open_cmpd_store_ok:
  assumes S: "ram_ok store w" and f: "ram_dir store w (snd name) = Some (compound_bytes D ns)"
    and d: "distinct ns" and len: "length ns < 2 ^ 28" and ns: "\<forall>n \<in> set ns. length n < 2 ^ 31"
    and small: "length (compound_bytes D ns) < 2 ^ 63"
  shows "\<exists>cs ss store' w'. frt_open_cmpd_store store name w = Inr (cs, ss, store', w') \<and> cmpd_ok w' cs ss D ns \<and>
    ram_dir store' w' = ram_dir store w"
proof -
  let ?bs = "compound_bytes D ns" and ?es = "dir_list D ns"
  from ram_open_input_ok [OF S f] obtain i store1 w1 where
    1: "ram_open_input store name w = Inr (i, store1, w1)" "ram_dir store1 w1 = ram_dir store w" "ram_in.is_ok w1 i ?bs 0" by blast
  let ?c = "of_nat (length ns) :: u32"
  have un: "unat ?c = length ns" using len by (simp add: unat_of_nat)
  have sn: "nat (sint ?c) = length ?es" using len by (simp add: signed_of_nat signed_take_bit_int_eq_self)
  have "drop 0 ?bs = enc_v (unat ?c) @ (dir_bytes ?es @ concat (map D ns))" unfolding compound_bytes_split(1) un by simp
  from ram_in.decodesD [OF ram_in.decodes_vint 1(3) le0 this] obtain i2 where
    2: "frt_is_read_vint (RAM_IN_STREAM_METHODS w1) i = Inr (?c, i2)" "ram_in.is_ok w1 i2 ?bs (0 + length (enc_v (unat ?c)))"
      "0 + length (enc_v (unat ?c)) \<le> length ?bs" "drop (0 + length (enc_v (unat ?c))) ?bs = dir_bytes ?es @ concat (map D ns)" .
  have es: "snd ` set ?es = set ns" by (simp only: set_map [symmetric] dir_list_simps)
  have "\<exists>entries i3 w3 e. cmpd_read_entries (RAM_IN_STREAM_METHODS w1) (length ?es) (frt_h_new_str True True) [] i2 w1 =
      Inr (entries, spans ([] @ map (sint \<circ> fst) ?es) e, i3, w3) \<and> ent_tab entries ([] @ map snd ?es) \<and>
    ram_in.is_ok w1 i3 ?bs (0 + length (enc_v (unat ?c)) + length (dir_bytes ?es)) \<and> rh_files w3 = rh_files w1 \<and> rh_next w1 \<le> rh_next w3"
    by (rule ram_in.cmpd_read_entries_ok [OF 2(2-4) ent_tab_new, where e = 0]) (use d len ns es in simp_all)
  then obtain entries i3 w3 e where
    3: "cmpd_read_entries (RAM_IN_STREAM_METHODS w1) (length ?es) (frt_h_new_str True True) [] i2 w1 =
        Inr (entries, spans ([] @ map (sint \<circ> fst) ?es) e, i3, w3)" "ent_tab entries ([] @ map snd ?es)"
      "\<exists>p. ram_in.is_ok w1 i3 ?bs p" "rh_files w3 = rh_files w1" by blast
  note 3 = 3(1,2) [unfolded append_Nil dir_list_simps(2)] 3(3,4)
  have "\<exists>p. ram_in.is_ok w3 i3 ?bs p" using 3(3,4) is_ok_frame [of w3 i3 w1] by auto
  then have l: "length_i (RAM_IN_STREAM_METHODS w3) (is_file i3) = int (length ?bs)" by (auto intro: ram_in.length_ok)
  have "cmpd_ok w3 \<lparr>cs_entries = entries, cs_objs = spans (map (sint \<circ> fst) ?es) (int (length ?bs)), cs_open = True\<rparr>
      \<lparr>ss_stream = i3, ss_ref_cnt = 1\<rparr> D ns"
    using 3(2) \<open>\<exists>p. ram_in.is_ok w3 i3 ?bs p\<close> unfolding cmpd_ok_def dir_list_offsets [OF small] by simp
  moreover have "frt_open_cmpd_store store name w = Inr (\<lparr>cs_entries = entries, cs_objs = spans (map (sint \<circ> fst) ?es) (int (length ?bs)), cs_open = True\<rparr>,
      \<lparr>ss_stream = i3, ss_ref_cnt = 1\<rparr>, store1, w3)"
    unfolding frt_open_cmpd_store_def 1(1) ebind_simps prod.case 2(1) sn 3(1) l set_last_spans ..
  moreover have "ram_dir store1 w3 = ram_dir store w"
    unfolding 1(2) [symmetric] by (rule ext) (simp add: ram_dir_def heap_bytes_def 3(4) cong: map_option_cong)
  ultimately show ?thesis by blast
qed

text \<open>The operations of an opened compound store on a name.\<close>

lemma cmpd_lookup:
  assumes C: "cmpd_ok w cs ss D ns" and x: "snd x \<in> set ns"
  obtains ht i where "frt_h_get (cs_entries cs) (PKey x) = Inr (Some i, ht)" "cmpd_ok w (cs\<lparr>cs_entries := ht\<rparr>) ss D ns"
    "cs_objs cs ! i = \<lparr>en_offset = int (data_start ns + length (concat (take i (map D ns)))), en_length = int (length (D (snd x)))\<rparr>"
    "i < length ns" "ns ! i = snd x"
proof -
  have T: "ent_tab (cs_entries cs) ns" using C by (simp add: cmpd_ok_def)
  obtain i where i: "i < length ns" "ns ! i = snd x" using x by (metis in_set_conv_nth)
  from ent_tab_get [OF T, of x] obtain ht where
    h: "frt_h_get (cs_entries cs) (PKey x) = Inr (Option.bind (h_map (cs_entries cs) (0, snd x)) id, ht)" "ent_tab ht ns" by blast
  have "h_map (cs_entries cs) (0, snd x) = Some (Some i)" using T i by (auto simp: ent_tab_def)
  then have g: "frt_h_get (cs_entries cs) (PKey x) = Inr (Some i, ht)" using h(1) by simp
  have "i < length (map D ns)" using i by simp
  from spans_data [OF this, of "data_start ns"] have
    "cs_objs cs ! i = \<lparr>en_offset = int (data_start ns + length (concat (take i (map D ns)))), en_length = int (length (map D ns ! i))\<rparr>"
    using C unfolding cmpd_ok_def length_compound by simp
  moreover have "map D ns ! i = D (snd x)" using i by simp
  ultimately show thesis using that [OF g _ _ i] C h(2) by (simp add: cmpd_ok_def)
qed

lemma cmpd_missing:
  assumes C: "cmpd_ok w cs ss D ns" and x: "snd x \<notin> set ns"
  obtains ht where "frt_h_get (cs_entries cs) (PKey x) = Inr (None, ht)" "cmpd_ok w (cs\<lparr>cs_entries := ht\<rparr>) ss D ns"
proof -
  have T: "ent_tab (cs_entries cs) ns" using C by (simp add: cmpd_ok_def)
  from ent_tab_get [OF T, of x] T x show thesis using that C by (auto simp: cmpd_ok_def ent_tab_def)
qed

lemma cmpd_exists_ok:
  assumes "cmpd_ok w cs ss D ns"
  shows "\<exists>cs'. cmpd_exists cs x = Inr (snd x \<in> set ns, cs') \<and> cmpd_ok w cs' ss D ns"
proof (cases "snd x \<in> set ns")
  case True
  from cmpd_lookup [OF assms this] obtain ht i where "frt_h_get (cs_entries cs) (PKey x) = Inr (Some i, ht)"
    "cmpd_ok w (cs\<lparr>cs_entries := ht\<rparr>) ss D ns" "en_length (cs_objs cs ! i) = int (length (D (snd x)))" by (metis file_entry.select_convs(2))
  then show ?thesis using True by (simp add: cmpd_exists_def)
next
  case False
  from cmpd_missing [OF assms this] obtain ht where "frt_h_get (cs_entries cs) (PKey x) = Inr (None, ht)"
    "cmpd_ok w (cs\<lparr>cs_entries := ht\<rparr>) ss D ns" .
  then show ?thesis using False by (simp add: cmpd_exists_def)
qed

lemma cmpd_length_ok:
  assumes "cmpd_ok w cs ss D ns"
  shows "\<exists>cs'. cmpd_length cs x = Inr (if snd x \<in> set ns then int (length (D (snd x))) else 0, cs') \<and> cmpd_ok w cs' ss D ns"
proof (cases "snd x \<in> set ns")
  case True
  from cmpd_lookup [OF assms this] obtain ht i where "frt_h_get (cs_entries cs) (PKey x) = Inr (Some i, ht)"
    "cmpd_ok w (cs\<lparr>cs_entries := ht\<rparr>) ss D ns" "en_length (cs_objs cs ! i) = int (length (D (snd x)))" by (metis file_entry.select_convs(2))
  then show ?thesis using True by (simp add: cmpd_length_def)
next
  case False
  from cmpd_missing [OF assms this] obtain ht where "frt_h_get (cs_entries cs) (PKey x) = Inr (None, ht)"
    "cmpd_ok w (cs\<lparr>cs_entries := ht\<rparr>) ss D ns" .
  then show ?thesis using False by (simp add: cmpd_length_def)
qed

lemma cmpd_count_ok: "cmpd_ok w cs ss D ns \<Longrightarrow> cmpd_count cs = int (length ns)"
  by (simp add: cmpd_ok_def cmpd_count_def ent_tab_def)

lemma cmpd_open_input_missing: "cmpd_ok w cs ss D ns \<Longrightarrow> snd x \<notin> set ns \<Longrightarrow> cmpd_open_input cs ss x = Inl FRT_IO_ERROR"
  by (erule cmpd_missing [of w cs ss D ns x]) (auto simp: cmpd_ok_def cmpd_open_input_def)

theorem cmpd_open_input_ok:
  assumes C: "cmpd_ok w cs ss D ns" and x: "snd x \<in> set ns"
  shows "\<exists>is cs' ss'. cmpd_open_input cs ss x = Inr (is, cs', ss') \<and> cmpd_ok w cs' ss' D ns \<and> ss_stream ss' = ss_stream ss \<and>
    ss_ref_cnt ss' = ss_ref_cnt ss + 1 \<and> cmpd_in.is_ok w (ss_stream ss) is (D (snd x)) 0"
proof -
  from cmpd_lookup [OF C x] obtain ht i where
    1: "frt_h_get (cs_entries cs) (PKey x) = Inr (Some i, ht)" "cmpd_ok w (cs\<lparr>cs_entries := ht\<rparr>) ss D ns"
      "cs_objs cs ! i = \<lparr>en_offset = int (data_start ns + length (concat (take i (map D ns)))), en_length = int (length (D (snd x)))\<rparr>"
      "i < length ns" "ns ! i = snd x" .
  let ?c = "\<lparr>ci_offset = int (data_start ns + length (concat (take i (map D ns)))), ci_length = int (length (D (snd x)))\<rparr>"
  let ?hd = "enc_v (length ns) @ dir_bytes (dir_list D ns)"
  have i: "i < length (map D ns)" "map D ns ! i = D (snd x)" using 1(4,5) by simp_all
  obtain p where p: "ram_in.is_ok w (ss_stream ss) (compound_bytes D ns) p" using C by (auto simp: cmpd_ok_def)
  have "length (concat (take i (map D ns))) + length (D (snd x)) \<le> length (concat (map D ns))"
    using arg_cong [OF id_take_nth_drop [OF i(1)], of "\<lambda>cs. length (concat cs)"] i(2) by simp
  then have "slice_ok w (ss_stream ss) ?c"
    unfolding slice_ok_def using p by (intro exI [of _ "compound_bytes D ns"] exI [of _ p]) (simp add: length_compound)
  moreover have "slice_of w (ss_stream ss) ?c = D (snd x)"
    using data_at [OF i(1), of ?hd] unfolding i(2) compound_bytes_split(2) compound_bytes_split(1) [symmetric]
    by (simp add: slice_of_def is_ok_bytes [OF p] nat_int_add del: of_nat_add)
  ultimately have "cmpd_in.is_ok w (ss_stream ss) (frt_is_new ?c) (D (snd x)) 0"
    using cmpd_in.frt_is_new_ok [of w "ss_stream ss" ?c] by simp
  moreover have "cs_open cs" using C by (simp add: cmpd_ok_def)
  ultimately show ?thesis
    using 1(1-3) by (simp add: cmpd_open_input_def cmpd_create_input_def Let_def) (simp add: cmpd_ok_def)
qed

text \<open>Reading a whole file through a compound stream.\<close>

lemma cmpd_read_all:
  assumes "cmpd_in.is_ok w sub is bs 0"
  shows "\<exists>is'. frt_is_read_bytes (CMPD_IN_STREAM_METHODS (RAM_IN_STREAM_METHODS w) sub) is (length bs) = Inr (bs, is')"
  using cmpd_in.frt_is_read_bytes_ok [OF assms, of "length bs"] by auto

section \<open>The compound file of a segment\<close>

text \<open>The norm files that \<open>cw_add_norms\<close> adds, in order.\<close>

fun norm_files :: "field_infos \<Rightarrow> segment_info \<Rightarrow> nat \<Rightarrow> byte list list res" where
  "norm_files fis si 0 = Inr []"
| "norm_files fis si (Suc i) =
     ebind (if bits_has_norms (fi_bits (fis_fields fis ! i)) then si_norm_file_name si (int i) else Inr None) (\<lambda>n.
     ebind (norm_files fis si i) (\<lambda>ns. Inr (case n of None \<Rightarrow> ns | Some f \<Rightarrow> f # ns)))"

lemma cw_add_norms_eq: "norm_files fis si k = Inr ns \<Longrightarrow> cw_add_norms fis si k = cw_add_files ns"
proof (induction k arbitrary: ns)
  case (Suc k)
  from Suc.prems obtain ms where ms: "norm_files fis si k = Inr ms" by (auto simp: ebind_eq_Inr)
  show ?case by (intro ext) (use Suc.prems ms Suc.IH [OF ms] in \<open>auto simp: ebind_eq_Inr split: if_splits option.splits\<close>)
qed (simp add: fun_eq_iff)

lemma cw_add_files_append:
  "cw_add_files (ms @ ns) cw w = ebind (cw_add_files ms cw w) (\<lambda>(cw, w). cw_add_files ns cw w)"
  by (induction ms arbitrary: cw w) (auto simp: ebind_assoc case_prod_beta')

definition compound_files :: "segment_info \<Rightarrow> byte list list \<Rightarrow> byte list list" where
  "compound_files si norms = map (\<lambda>ext. si_name si @ 46 # ext) COMPOUND_EXTENSIONS @ norms"

theorem iw_commit_compound_file_ok:
  assumes S: "ram_ok store w" and small: "h_size (dir_ht store) < 2 ^ 28" and nm: "length (si_name si) + 5 \<le> FRT_SEGMENT_NAME_MAX_LENGTH"
    and norms: "norm_files fis si (fis_size fis) = Inr norms" and ns: "ns = compound_files si norms"
    and new: "ram_dir store w (si_name si @ str ''.cfs'') = None" and d: "distinct ns" and len: "length ns < 2 ^ 28"
    and D: "\<forall>n \<in> set ns. ram_dir store w n = Some (D n) \<and> length n < 2 ^ 32" and dlr: "dlr_ok dlr Q (length ns)"
  shows "\<exists>dlr' store' w'. iw_commit_compound_file store fis si dlr w = Inr (dlr', store', w') \<and> ram_ok store' w' \<and>
    ram_dir store' w' = (ram_dir store w)(si_name si @ str ''.cfs'' \<mapsto> compound_bytes D ns) \<and> dlr_ok dlr' (Q \<union> set ns) 0 \<and>
    (dlr' = None \<longleftrightarrow> dlr = None)"
proof -
  let ?cw = "frt_open_cw (0, si_name si @ str ''.cfs'')"
  have room: "length ([] :: cstr list) + length ns < 2 ^ 28" and dd: "distinct (map snd ([] :: cstr list) @ ns)" using len d by simp_all
  have e: "str_set (cw_ids ?cw) []" "map snd ([] :: cstr list) = map cwe_chars (cw_file_entries ?cw)"
    by (simp_all add: frt_open_cw_def frt_hs_new_str_ok)
  from cw_add_files_ok [OF e room dd, of w] obtain cw w1 xs where
    1: "cw_add_files ns ?cw w = Inr (cw, w1)" "str_set (cw_ids cw) xs" "map snd xs = ns" "map cwe_chars (cw_file_entries cw) = ns"
      "cw_name cw = (0, si_name si @ str ''.cfs'')" "rh_files w1 = rh_files w" "rh_next w \<le> rh_next w1"
    by (auto simp: frt_open_cw_def)
  have S1: "ram_ok store w1" using S 1(6,7) by (auto simp: ram_ok_def heap_ok_def file_ok_def)
  have "heap_bytes w1 = heap_bytes w" by (rule ext) (simp add: heap_bytes_def 1(6))
  then have d1: "ram_dir store w1 = ram_dir store w" by (intro ext) (simp add: ram_dir_def)
  have "ns \<noteq> []" by (simp add: ns compound_files_def COMPOUND_EXTENSIONS_def)
  then have "0 < hs_size (cw_ids cw)" using 1(2,3) by (auto simp: str_set_def str_keys.hs_ok_def dest: str_keys.hs_esD(5))
  moreover have "ram_dir store w1 (snd (cw_name cw)) = None" by (simp only: 1(5) d1 snd_conv new)
  moreover have "\<forall>n \<in> set ns. ram_dir store w1 n = Some (D n) \<and> length n < 2 ^ 32" using D by (simp add: d1)
  moreover have "length ns < 2 ^ 32" using len by simp
  ultimately have "\<exists>dlr' store' w'. frt_cw_close cw dlr store w1 = Inr (dlr', store', w') \<and> ram_ok store' w' \<and>
    ram_dir store' w' = (ram_dir store w1)(snd (cw_name cw) \<mapsto> compound_bytes D ns) \<and> dlr_ok dlr' (Q \<union> set ns) 0 \<and>
    (dlr' = None \<longleftrightarrow> dlr = None)"
    using frt_cw_close_ok [OF S1 small _ _ 1(4)] dlr by blast
  moreover have "iw_commit_compound_file store fis si dlr w = frt_cw_close cw dlr store w1"
    using nm 1(1) unfolding ns compound_files_def cw_add_files_append
    by (auto simp: iw_commit_compound_file_def iw_create_compound_file_def cw_add_norms_eq [OF norms] ebind_eq_Inr)
  ultimately show ?thesis by (simp only: 1(5) d1 snd_conv)
qed

text \<open>Stores of any finitely many files.\<close>

lemma store_with_files:
  assumes "distinct ns" and "length ns < 2 ^ 28"
  shows "\<exists>store w. ram_ok store w \<and> h_size (dir_ht store) \<le> int (length ns) \<and> ram_dir store w = (\<lambda>n. if n \<in> set ns then Some (D n) else None)"
  using assms
proof (induction ns)
  case Nil
  have "h_size (dir_ht frt_open_ram_store) = 0" by (simp add: frt_open_ram_store_def frt_h_new_str_def)
  with ram_open_ok [OF heap_ok_empty] show ?case by (intro exI [of _ frt_open_ram_store] exI [of _ empty_heap]) (simp add: fun_eq_iff)
next
  case (Cons n ns)
  then obtain store w where 1: "ram_ok store w" "h_size (dir_ht store) \<le> int (length ns)" "ram_dir store w = (\<lambda>n. if n \<in> set ns then Some (D n) else None)"
    by auto
  have "h_size (dir_ht store) < 2 ^ 28" using 1(2) Cons.prems(2) by simp
  from save_file_ok [OF 1(1) this ram_out.writes_bytes [of "D n"], of "(0, n)"] Cons.prems(1) obtain store' w' where
    "ram_ok store' w'" "ram_dir store' w' = (ram_dir store w)(n \<mapsto> D n)" "h_size (dir_ht store') \<le> h_size (dir_ht store) + 1"
    by (auto simp: 1(3))
  then show ?case using 1(2,3) by (intro exI [of _ store'] exI [of _ w']) (auto simp: fun_eq_iff)
qed

end
