(* ===== verification/FrtTermDict.thy ===== *)
theory FrtTermDict
  imports FrtCompound FrtHelper "HOL-Library.Signed_Division"
begin

text \<open>
  The term dictionary of \<open>frt_index.c\<close>: the terms of every field of a segment in order with what is known of each
  (\<open>.tis\<close>), every \<open>index_interval\<close>-th of them again (\<open>.tix\<close>), and where the fields begin in both (\<open>.tfx\<close>).

  \<^item> \<open>term_writer\<close> and \<open>term_infos_writer\<close> are \<open>FrtTermWriter\<close> and \<open>FrtTermInfosWriter\<close>. \<open>last_term\<close> points to the
    caller's term; here it is the term. The length of a term is passed beside it in the code.
  \<^item> \<open>term_enum\<close> is \<open>FrtTermEnum\<close> with the part of \<open>FrtSegmentTermEnum\<close>; \<open>curr_term_len\<close> is the length of
    \<open>te_curr_term\<close>. \<open>sfi\<close> is shared by the enumerations of a segment and passed beside them.
  \<^item> \<open>seg_term_index\<close> is \<open>FrtSegmentTermIndex\<close>; its four arrays are filled together when they are first needed, and
    are the list \<open>sti_index\<close>. The values of \<open>field_dict\<close> are positions in \<open>sfi_stis\<close>.
  \<^item> \<open>term_infos_reader\<close> is \<open>FrtTermInfosReader\<close>, which gives each thread an enumeration of its own: \<open>tir_te\<close>.
  \<^item> A term in a file that reuses more characters than the term before it has, or is longer than the buffer, is
    \<open>UndefinedBehaviour\<close>. The checks under \<open>DEBUG\<close> are not part of the model.
\<close>

section \<open>Terms\<close>

record term_info =
  ti_doc_freq :: int
  ti_frq_ptr :: int
  ti_prx_ptr :: int
  ti_skip_offset :: int

text \<open>\<open>FRT_ZEROSET\<close>.\<close>

definition zero_ti :: term_info where
  "zero_ti = \<lparr>ti_doc_freq = 0, ti_frq_ptr = 0, ti_prx_ptr = 0, ti_skip_offset = 0\<rparr>"

definition frt_ti_set :: "int \<Rightarrow> int \<Rightarrow> int \<Rightarrow> int \<Rightarrow> term_info" where
  "frt_ti_set mdf mfp mpp mso = \<lparr>ti_doc_freq = mdf, ti_frq_ptr = mfp, ti_prx_ptr = mpp, ti_skip_offset = mso\<rparr>"

definition FRT_MAX_WORD_SIZE :: nat where
  "FRT_MAX_WORD_SIZE = 255"

text \<open>\<open>strcmp\<close> compares unsigned characters.\<close>

fun strcmp :: "byte list \<Rightarrow> byte list \<Rightarrow> int" where
  "strcmp [] [] = 0"
| "strcmp [] (y # t) = - 1"
| "strcmp (x # s) [] = 1"
| "strcmp (x # s) (y # t) = (if x = y then strcmp s t else if x < y then - 1 else 1)"

section \<open>The writer\<close>

record 'o term_writer =
  tw_counter :: int
  tw_last_term :: "byte list"
  tw_last_term_info :: term_info
  tw_os :: "'o outstream"

record 'o term_infos_writer =
  tiw_field_count :: u32
  tiw_index_interval :: int
  tiw_skip_interval :: int
  tiw_last_index_ptr :: int
  tiw_tfx_out :: "'o outstream"
  tiw_tix_writer :: "'o term_writer"
  tiw_tis_writer :: "'o term_writer"

definition tw_write_term ::
  "('o, 'w) os_methods \<Rightarrow> 'o term_writer \<Rightarrow> byte list \<Rightarrow> 'w \<Rightarrow> ('o term_writer \<times> 'w) res" where
  "tw_write_term m tw term w =
     (let start = frt_hlp_string_diff (tw_last_term tw) term; len = length term - start
      in ebind (frt_os_write_vint m (tw_os tw) (of_nat start) w) (\<lambda>(os, w).
         ebind (frt_os_write_vint m os (of_nat len) w) (\<lambda>(os, w).
         ebind (frt_os_write_bytes m os (drop start term) w) (\<lambda>(os, w).
         Inr (tw\<lparr>tw_os := os, tw_last_term := term\<rparr>, w)))))"

definition tw_add ::
  "('o, 'w) os_methods \<Rightarrow> 'o term_writer \<Rightarrow> byte list \<Rightarrow> term_info \<Rightarrow> int \<Rightarrow> 'w \<Rightarrow> ('o term_writer \<times> 'w) res" where
  "tw_add m tw term ti skip_interval w =
     ebind (tw_write_term m tw term w) (\<lambda>(tw, w).
     ebind (frt_os_write_vint m (tw_os tw) (word_of_int (ti_doc_freq ti)) w) (\<lambda>(os, w).
     ebind (frt_os_write_voff_t m os (ti_frq_ptr ti - ti_frq_ptr (tw_last_term_info tw)) w) (\<lambda>(os, w).
     ebind (frt_os_write_voff_t m os (ti_prx_ptr ti - ti_prx_ptr (tw_last_term_info tw)) w) (\<lambda>(os, w).
     ebind (if ti_doc_freq ti \<ge> skip_interval then frt_os_write_voff_t m os (ti_skip_offset ti) w else Inr (os, w)) (\<lambda>(os, w).
     Inr (tw\<lparr>tw_os := os, tw_last_term_info := ti, tw_counter := tw_counter tw + 1\<rparr>, w))))))"

definition frt_tiw_add ::
  "('o, 'w) os_methods \<Rightarrow> 'o term_infos_writer \<Rightarrow> byte list \<Rightarrow> term_info \<Rightarrow> 'w \<Rightarrow> ('o term_infos_writer \<times> 'w) res" where
  "frt_tiw_add m tiw term ti w =
     (if tiw_index_interval tiw = 0 then Inl UndefinedBehaviour
      else
      ebind (if tw_counter (tiw_tis_writer tiw) mod tiw_index_interval tiw = 0 then
               ebind (tw_add m (tiw_tix_writer tiw) (tw_last_term (tiw_tis_writer tiw))
                        (tw_last_term_info (tiw_tis_writer tiw)) (tiw_skip_interval tiw) w) (\<lambda>(tix, w).
               let tis_pos = frt_os_pos (tw_os (tiw_tis_writer tiw))
               in ebind (frt_os_write_voff_t m (tw_os tix) (tis_pos - tiw_last_index_ptr tiw) w) (\<lambda>(os, w).
                  Inr (tiw\<lparr>tiw_tix_writer := tix\<lparr>tw_os := os\<rparr>, tiw_last_index_ptr := tis_pos\<rparr>, w)))
             else Inr (tiw, w)) (\<lambda>(tiw, w).
      ebind (tw_add m (tiw_tis_writer tiw) term ti (tiw_skip_interval tiw) w) (\<lambda>(tis, w).
      Inr (tiw\<lparr>tiw_tis_writer := tis\<rparr>, w))))"

definition tw_reset :: "'o term_writer \<Rightarrow> 'o term_writer" where
  "tw_reset tw = tw\<lparr>tw_counter := 0, tw_last_term := [], tw_last_term_info := zero_ti\<rparr>"

definition frt_tiw_start_field ::
  "('o, 'w) os_methods \<Rightarrow> 'o term_infos_writer \<Rightarrow> int \<Rightarrow> 'w \<Rightarrow> ('o term_infos_writer \<times> 'w) res" where
  "frt_tiw_start_field m tiw field_num w =
     ebind (frt_os_write_vint m (tiw_tfx_out tiw) (word_of_int (tw_counter (tiw_tix_writer tiw))) w) (\<lambda>(tfx_out, w).
     ebind (frt_os_write_vint m tfx_out (word_of_int (tw_counter (tiw_tis_writer tiw))) w) (\<lambda>(tfx_out, w).
     ebind (frt_os_write_vint m tfx_out (word_of_int field_num) w) (\<lambda>(tfx_out, w).
     ebind (frt_os_write_voff_t m tfx_out (frt_os_pos (tw_os (tiw_tix_writer tiw))) w) (\<lambda>(tfx_out, w).
     ebind (frt_os_write_voff_t m tfx_out (frt_os_pos (tw_os (tiw_tis_writer tiw))) w) (\<lambda>(tfx_out, w).
     Inr (tiw\<lparr>tiw_tfx_out := tfx_out, tiw_tix_writer := tw_reset (tiw_tix_writer tiw),
       tiw_tis_writer := tw_reset (tiw_tis_writer tiw), tiw_last_index_ptr := 0,
       tiw_field_count := tiw_field_count tiw + 1\<rparr>, w))))))"

text \<open>Opening and closing on a RAM store. The names are built in a buffer of \<open>FRT_SEGMENT_NAME_MAX_LENGTH\<close> characters.\<close>

definition frt_tw_new :: "ram_store \<Rightarrow> byte list \<Rightarrow> ram_heap \<Rightarrow> (ram_out term_writer \<times> ram_store \<times> ram_heap) res" where
  "frt_tw_new store file_name w =
     ebind (ram_new_output store (0, file_name) w) (\<lambda>(os, store, w).
     Inr (\<lparr>tw_counter = 0, tw_last_term = [], tw_last_term_info = zero_ti, tw_os = os\<rparr>, store, w))"

definition tw_close :: "ram_out term_writer \<Rightarrow> ram_heap \<Rightarrow> ram_heap res" where
  "tw_close tw w = frt_os_close RAM_OUT_STREAM_METHODS (tw_os tw) w"

definition frt_tiw_open ::
  "ram_store \<Rightarrow> byte list \<Rightarrow> int \<Rightarrow> int \<Rightarrow> ram_heap \<Rightarrow> (ram_out term_infos_writer \<times> ram_store \<times> ram_heap) res" where
  "frt_tiw_open store segment index_interval skip_interval w =
     (if FRT_SEGMENT_NAME_MAX_LENGTH < length segment + 5 then Inl UndefinedBehaviour
      else
      ebind (frt_tw_new store (segment @ str ''.tix'') w) (\<lambda>(tix, store, w).
      ebind (frt_tw_new store (segment @ str ''.tis'') w) (\<lambda>(tis, store, w).
      ebind (ram_new_output store (0, segment @ str ''.tfx'') w) (\<lambda>(tfx_out, store, w).
      ebind (frt_os_write_u32 RAM_OUT_STREAM_METHODS tfx_out 0 w) (\<lambda>(tfx_out, w).
      Inr (\<lparr>tiw_field_count = 0, tiw_index_interval = index_interval, tiw_skip_interval = skip_interval, tiw_last_index_ptr = 0,
            tiw_tfx_out = tfx_out, tiw_tix_writer = tix\<lparr>tw_counter := index_interval\<rparr>,
            tiw_tis_writer = tis\<lparr>tw_counter := skip_interval\<rparr>\<rparr>, store, w))))))"

definition frt_tiw_close :: "ram_out term_infos_writer \<Rightarrow> ram_heap \<Rightarrow> ram_heap res" where
  "frt_tiw_close tiw w =
     ebind (frt_os_write_vint RAM_OUT_STREAM_METHODS (tiw_tfx_out tiw) (word_of_int (tw_counter (tiw_tix_writer tiw))) w) (\<lambda>(tfx_out, w).
     ebind (frt_os_write_vint RAM_OUT_STREAM_METHODS tfx_out (word_of_int (tw_counter (tiw_tis_writer tiw))) w) (\<lambda>(tfx_out, w).
     ebind (frt_os_seek RAM_OUT_STREAM_METHODS tfx_out 0 w) (\<lambda>(tfx_out, w).
     ebind (frt_os_write_u32 RAM_OUT_STREAM_METHODS tfx_out (tiw_field_count tiw) w) (\<lambda>(tfx_out, w).
     ebind (frt_os_close RAM_OUT_STREAM_METHODS tfx_out w) (\<lambda>w.
     ebind (tw_close (tiw_tix_writer tiw) w) (\<lambda>w.
     tw_close (tiw_tis_writer tiw) w))))))"

section \<open>Enumerating the terms of a field\<close>

record 'f term_enum =
  te_curr_term :: "byte list"
  te_prev_term :: "byte list"
  te_curr_ti :: term_info
  te_field_num :: int
  te_is :: "'f instream"
  te_size :: int
  te_pos :: int
  te_skip_interval :: int

definition frt_te_get_term :: "'f term_enum \<Rightarrow> byte list" where
  "frt_te_get_term te = te_curr_term te"

definition frt_te_get_ti :: "'f term_enum \<Rightarrow> term_info" where
  "frt_te_get_ti te = te_curr_ti te"

definition term_read :: "'f is_methods \<Rightarrow> byte list \<Rightarrow> 'f instream \<Rightarrow> (byte list \<times> 'f instream) res" where
  "term_read m buf is =
     ebind (frt_is_read_vint m is) (\<lambda>(start, is).
     ebind (frt_is_read_vint m is) (\<lambda>(len, is).
     let start = sint start; len = sint len
     in if start < 0 \<or> len < 0 \<or> int (length buf) < start \<or> int FRT_MAX_WORD_SIZE \<le> start + len then Inl UndefinedBehaviour
        else ebind (frt_is_read_bytes m is (nat len)) (\<lambda>(bs, is). Inr (take (nat start) buf @ bs, is))))"

definition ste_next :: "'f is_methods \<Rightarrow> 'f term_enum \<Rightarrow> (byte list option \<times> 'f term_enum) res" where
  "ste_next m te =
     (let te = te\<lparr>te_pos := te_pos te + 1\<rparr>
      in if te_pos te \<ge> te_size te then Inr (None, te\<lparr>te_curr_term := []\<rparr>)
         else
         ebind (term_read m (te_curr_term te) (te_is te)) (\<lambda>(curr_term, is).
         ebind (frt_is_read_vint m is) (\<lambda>(doc_freq, is).
         ebind (frt_is_read_voff_t m is) (\<lambda>(frq, is).
         ebind (frt_is_read_voff_t m is) (\<lambda>(prx, is).
         let ti = (te_curr_ti te)\<lparr>ti_doc_freq := sint doc_freq, ti_frq_ptr := ti_frq_ptr (te_curr_ti te) + frq,
               ti_prx_ptr := ti_prx_ptr (te_curr_ti te) + prx\<rparr>
         in ebind (if ti_doc_freq ti \<ge> te_skip_interval te then
                     ebind (frt_is_read_voff_t m is) (\<lambda>(skip, is). Inr (ti\<lparr>ti_skip_offset := skip\<rparr>, is))
                   else Inr (ti, is)) (\<lambda>(ti, is).
            Inr (Some curr_term, te\<lparr>te_prev_term := te_curr_term te, te_curr_term := curr_term, te_curr_ti := ti, te_is := is\<rparr>)))))))"

definition ste_reset :: "'f term_enum \<Rightarrow> 'f term_enum" where
  "ste_reset te = te\<lparr>te_pos := - 1, te_curr_term := [], te_curr_ti := zero_ti\<rparr>"

lemma ste_next_Some:
  "ste_next m te = Inr (Some t, te') \<Longrightarrow> te_pos te' = te_pos te + 1 \<and> te_size te' = te_size te \<and> te_pos te' < te_size te'"
  by (auto simp: ste_next_def Let_def ebind_eq_Inr split: if_splits)

text \<open>The loop of \<open>te_skip_to\<close>.\<close>

function te_skip_loop :: "'f is_methods \<Rightarrow> byte list \<Rightarrow> 'f term_enum \<Rightarrow> (byte list option \<times> 'f term_enum) res" where
  "te_skip_loop m term te =
     (case ste_next m te of
        Inl e \<Rightarrow> Inl e
      | Inr (None, te') \<Rightarrow> Inr (None, te')
      | Inr (Some curr_term, te') \<Rightarrow> if strcmp curr_term term < 0 then te_skip_loop m term te' else Inr (Some curr_term, te'))"
  by pat_completeness auto
termination
  by (relation "measure (\<lambda>(m, t, te). nat (te_size te - te_pos te))") (auto dest!: ste_next_Some sym [of "Inr _"])

declare te_skip_loop.simps [simp del]

definition te_skip_to :: "'f is_methods \<Rightarrow> 'f term_enum \<Rightarrow> byte list \<Rightarrow> (byte list option \<times> 'f term_enum) res" where
  "te_skip_to m te term =
     (if strcmp (te_curr_term te) term < 0 then te_skip_loop m term te else Inr (Some (te_curr_term te), te))"

section \<open>The index of a field\<close>

record seg_term_index =
  sti_index_ptr :: int
  sti_ptr :: int
  sti_index_cnt :: int
  sti_size :: int
  sti_index :: "(byte list \<times> term_info \<times> int) list option"

record 'f seg_field_index =
  sfi_skip_interval :: int
  sfi_index_interval :: int
  sfi_index_te :: "'f term_enum"
  sfi_field_dict :: "(unit, nat) frt_hash"
  sfi_stis :: "seg_term_index list"

text \<open>The arrays have room for \<open>n\<close> more entries.\<close>

fun sti_read_loop ::
  "'f is_methods \<Rightarrow> nat \<Rightarrow> 'f term_enum \<Rightarrow> int \<Rightarrow> (byte list \<times> term_info \<times> int) list
     \<Rightarrow> ((byte list \<times> term_info \<times> int) list \<times> 'f term_enum) res" where
  "sti_read_loop m 0 te index_ptr acc =
     ebind (ste_next m te) (\<lambda>(t, te). if t = None then Inr (acc, te) else Inl UndefinedBehaviour)"
| "sti_read_loop m (Suc n) te index_ptr acc =
     ebind (ste_next m te) (\<lambda>(t, te).
       if t = None then Inr (acc, te)
       else ebind (frt_is_read_voff_t m (te_is te)) (\<lambda>(d, is).
         sti_read_loop m n (te\<lparr>te_is := is\<rparr>) (index_ptr + d) (acc @ [(frt_te_get_term te, te_curr_ti te, index_ptr + d)])))"

definition sti_ensure_index_is_read ::
  "'f is_methods \<Rightarrow> seg_term_index \<Rightarrow> 'f term_enum \<Rightarrow> (seg_term_index \<times> 'f term_enum) res" where
  "sti_ensure_index_is_read m sti index_te =
     (if sti_index sti \<noteq> None then Inr (sti, index_te)
      else
      ebind (frt_is_seek m (te_is index_te) (sti_index_ptr sti)) (\<lambda>is.
      ebind (sti_read_loop m (nat (sti_index_cnt sti)) ((ste_reset index_te)\<lparr>te_is := is, te_size := sti_index_cnt sti\<rparr>) 0 []) (\<lambda>(es, te).
      Inr (sti\<lparr>sti_index := Some es\<rparr>, te))))"

text \<open>The binary search of \<open>sti_get_index_offset\<close>.\<close>

function sti_search :: "byte list list \<Rightarrow> byte list \<Rightarrow> int \<Rightarrow> int \<Rightarrow> int" where
  "sti_search index_terms term lo hi =
     (if hi \<ge> lo then
        let mid = (lo + hi) div 2; delta = strcmp term (index_terms ! nat mid)
        in if delta < 0 then sti_search index_terms term lo (mid - 1)
           else if delta > 0 then sti_search index_terms term (mid + 1) hi
           else mid
      else hi)"
  by pat_completeness auto
termination by (relation "measure (\<lambda>(_, _, lo, hi). nat (hi - lo + 1))") auto

declare sti_search.simps [simp del]

definition sti_get_index_offset :: "(byte list \<times> term_info \<times> int) list \<Rightarrow> seg_term_index \<Rightarrow> byte list \<Rightarrow> int" where
  "sti_get_index_offset es sti term = sti_search (map fst es) term 0 (sti_index_cnt sti - 1)"

text \<open>The table of the fields, looked up by number.\<close>

definition sfi_get :: "'f seg_field_index \<Rightarrow> int \<Rightarrow> (nat option \<times> 'f seg_field_index) res" where
  "sfi_get sfi field_num =
     ebind (frt_h_get_int (sfi_field_dict sfi) (word_of_int field_num)) (\<lambda>(i, dict). Inr (i, sfi\<lparr>sfi_field_dict := dict\<rparr>))"

text \<open>\<open>SFI_ENSURE_INDEX_IS_READ\<close> on the index \<open>i\<close>.\<close>

definition sfi_ensure ::
  "'f is_methods \<Rightarrow> 'f seg_field_index \<Rightarrow> nat \<Rightarrow> ((byte list \<times> term_info \<times> int) list \<times> 'f seg_field_index) res" where
  "sfi_ensure m sfi i =
     ebind (sti_ensure_index_is_read m (sfi_stis sfi ! i) (sfi_index_te sfi)) (\<lambda>(sti, te).
     case sti_index sti of
       None \<Rightarrow> Inl UndefinedBehaviour
     | Some es \<Rightarrow> Inr (es, sfi\<lparr>sfi_stis := (sfi_stis sfi)[i := sti], sfi_index_te := te\<rparr>))"

definition ste_set_field ::
  "'f is_methods \<Rightarrow> 'f term_enum \<Rightarrow> 'f seg_field_index \<Rightarrow> int \<Rightarrow> ('f term_enum \<times> 'f seg_field_index) res" where
  "ste_set_field m te sfi field_num =
     ebind (sfi_get sfi field_num) (\<lambda>(i, sfi).
     let te = (ste_reset te)\<lparr>te_field_num := field_num\<rparr>
     in case i of
          Some i \<Rightarrow>
            ebind (frt_is_seek m (te_is te) (sti_ptr (sfi_stis sfi ! i))) (\<lambda>is.
              Inr (te\<lparr>te_size := sti_size (sfi_stis sfi ! i), te_is := is\<rparr>, sfi))
        | None \<Rightarrow> Inr (te\<lparr>te_size := 0\<rparr>, sfi))"

definition frt_ste_index_seek ::
  "'f is_methods \<Rightarrow> 'f term_enum \<Rightarrow> int \<Rightarrow> (byte list \<times> term_info \<times> int) list \<Rightarrow> int \<Rightarrow> 'f term_enum res" where
  "frt_ste_index_seek m te index_interval es idx_offset =
     (if idx_offset < 0 \<or> int (length es) \<le> idx_offset then Inl UndefinedBehaviour
      else let (term, ti, ptr) = es ! nat idx_offset
        in ebind (frt_is_seek m (te_is te) ptr) (\<lambda>is.
             Inr (te\<lparr>te_is := is, te_pos := index_interval * idx_offset - 1, te_curr_term := term, te_curr_ti := ti\<rparr>)))"

text \<open>
  \<open>ste_scan_to\<close>. The quotient is that of C, which cuts; an entry of the index behind its end is read when the position
  lies behind the last one.
\<close>

definition scan_suffices :: "'f term_enum \<Rightarrow> int \<Rightarrow> seg_term_index \<Rightarrow> (byte list \<times> term_info \<times> int) list \<Rightarrow> byte list \<Rightarrow> bool res" where
  "scan_suffices te index_interval sti es term =
     (if te_pos te < te_size te \<and> strcmp (te_curr_term te) term \<le> 0 then
        if index_interval = 0 then Inl UndefinedBehaviour
        else let enum_offset = te_pos te sdiv index_interval + 1
          in if sti_index_cnt sti = enum_offset then Inr True
             else if enum_offset < 0 \<or> int (length es) \<le> enum_offset then Inl UndefinedBehaviour
             else Inr (strcmp term (fst (es ! nat enum_offset)) < 0)
      else Inr False)"

definition ste_scan_to ::
  "'f is_methods \<Rightarrow> 'f term_enum \<Rightarrow> 'f seg_field_index \<Rightarrow> byte list \<Rightarrow> (byte list option \<times> 'f term_enum \<times> 'f seg_field_index) res" where
  "ste_scan_to m te sfi term =
     ebind (sfi_get sfi (te_field_num te)) (\<lambda>(i, sfi).
     case i of
       None \<Rightarrow> Inr (None, te, sfi)
     | Some i \<Rightarrow>
         if sti_size (sfi_stis sfi ! i) \<le> 0 then Inr (None, te, sfi)
         else
         ebind (sfi_ensure m sfi i) (\<lambda>(es, sfi).
         if term = [] then
           ebind (frt_ste_index_seek m te (sfi_index_interval sfi) es 0) (\<lambda>te.
           ebind (ste_next m te) (\<lambda>(t, te). Inr (t, te, sfi)))
         else
           ebind (scan_suffices te (sfi_index_interval sfi) (sfi_stis sfi ! i) es term) (\<lambda>b.
           ebind (if b then Inr te
                  else frt_ste_index_seek m te (sfi_index_interval sfi) es (sti_get_index_offset es (sfi_stis sfi ! i) term)) (\<lambda>te.
           ebind (te_skip_to m te term) (\<lambda>(t, te). Inr (t, te, sfi))))))"

fun ste_next_until :: "'f is_methods \<Rightarrow> nat \<Rightarrow> 'f term_enum \<Rightarrow> (byte list option \<times> 'f term_enum) res" where
  "ste_next_until m 0 te = Inr (Some (te_curr_term te), te)"
| "ste_next_until m (Suc n) te =
     ebind (ste_next m te) (\<lambda>(t, te). if t = None then Inr (None, te) else ste_next_until m n te)"

definition frt_ste_get_term ::
  "'f is_methods \<Rightarrow> 'f term_enum \<Rightarrow> 'f seg_field_index \<Rightarrow> int \<Rightarrow> (byte list option \<times> 'f term_enum \<times> 'f seg_field_index) res" where
  "frt_ste_get_term m te sfi pos =
     (if pos \<ge> te_size te then Inr (None, te, sfi)
      else if pos = te_pos te then Inr (Some (te_curr_term te), te, sfi)
      else
        let idx_int = sfi_index_interval sfi
        in ebind (if pos < te_pos te then Inr True
                  else if idx_int = 0 then Inl UndefinedBehaviour
                  else Inr (pos > (1 + te_pos te sdiv idx_int) * idx_int)) (\<lambda>b.
           ebind (if b then
                    if idx_int = 0 then Inl UndefinedBehaviour
                    else ebind (sfi_get sfi (te_field_num te)) (\<lambda>(i, sfi). case i of
                           None \<Rightarrow> Inl UndefinedBehaviour
                         | Some i \<Rightarrow> ebind (sfi_ensure m sfi i) (\<lambda>(es, sfi).
                             ebind (frt_ste_index_seek m te idx_int es (pos sdiv idx_int)) (\<lambda>te. Inr (te, sfi))))
                  else Inr (te, sfi)) (\<lambda>(te, sfi).
           ebind (ste_next_until m (nat (pos - te_pos te)) te) (\<lambda>(t, te). Inr (t, te, sfi)))))"

definition frt_ste_new :: "'f instream \<Rightarrow> int \<Rightarrow> 'f term_enum" where
  "frt_ste_new is skip_interval =
     \<lparr>te_curr_term = [], te_prev_term = [], te_curr_ti = zero_ti, te_field_num = - 1, te_is = is, te_size = 0, te_pos = - 1,
      te_skip_interval = skip_interval\<rparr>"

section \<open>Opening\<close>

text \<open>The fields that \<open>.tfx\<close> lists.\<close>

fun sfi_read_fields ::
  "'f is_methods \<Rightarrow> nat \<Rightarrow> (unit, nat) frt_hash \<Rightarrow> seg_term_index list \<Rightarrow> 'f instream
     \<Rightarrow> ((unit, nat) frt_hash \<times> seg_term_index list \<times> 'f instream) res" where
  "sfi_read_fields m 0 dict stis is = Inr (dict, stis, is)"
| "sfi_read_fields m (Suc n) dict stis is =
     ebind (frt_is_read_vint m is) (\<lambda>(field_num, is).
     ebind (frt_is_read_voff_t m is) (\<lambda>(index_ptr, is).
     ebind (frt_is_read_voff_t m is) (\<lambda>(ptr, is).
     ebind (frt_is_read_vint m is) (\<lambda>(index_cnt, is).
     ebind (frt_is_read_vint m is) (\<lambda>(size, is).
     let sti = \<lparr>sti_index_ptr = index_ptr, sti_ptr = ptr, sti_index_cnt = sint index_cnt, sti_size = sint size, sti_index = None\<rparr>
     in ebind (frt_h_set_int dict (scast field_num) (Some (length stis))) (\<lambda>(_, dict).
          sfi_read_fields m n dict (stis @ [sti]) is))))))"

text \<open>The body of \<open>frt_sfi_open\<close>: the intervals and the fields, read from \<open>.tfx\<close>.\<close>

definition sfi_read_body ::
  "'f is_methods \<Rightarrow> 'f instream \<Rightarrow> ((int \<times> int \<times> (unit, nat) frt_hash \<times> seg_term_index list) \<times> 'f instream) res" where
  "sfi_read_body m is =
     ebind (frt_is_read_u32 m is) (\<lambda>(field_count, is).
     ebind (frt_is_read_vint m is) (\<lambda>(index_interval, is).
     ebind (frt_is_read_vint m is) (\<lambda>(skip_interval, is).
     ebind (sfi_read_fields m (nat (sint field_count)) (frt_h_new_int True) [] is) (\<lambda>(dict, stis, is).
     Inr ((sint index_interval, sint skip_interval, dict, stis), is)))))"

definition frt_sfi_open ::
  "ram_store \<Rightarrow> byte list \<Rightarrow> ram_heap \<Rightarrow> (ram_in seg_field_index \<times> ram_store \<times> ram_heap) res" where
  "frt_sfi_open store segment w =
     (if FRT_SEGMENT_NAME_MAX_LENGTH < length segment + 5 then Inl UndefinedBehaviour
      else
      ebind (ram_open_input store (0, segment @ str ''.tfx'') w) (\<lambda>(is, store, w).
      ebind (sfi_read_body (RAM_IN_STREAM_METHODS w) is) (\<lambda>((index_interval, skip_interval, dict, stis), is).
      ebind (rami_close_i (is_file is) w) (\<lambda>w.
      ebind (ram_open_input store (0, segment @ str ''.tix'') w) (\<lambda>(is, store, w).
      Inr (\<lparr>sfi_skip_interval = skip_interval, sfi_index_interval = index_interval, sfi_index_te = frt_ste_new is skip_interval,
            sfi_field_dict = dict, sfi_stis = stis\<rparr>, store, w))))))"

text \<open>
  The reader. \<open>thread\<close> stands for the key of the calling thread; \<open>te_bucket\<close> only keeps the enumerations to free them.
  A clone of the original enumeration has a stream of its own on the same file.
\<close>

record 'f term_infos_reader =
  tir_orig_te :: "'f term_enum"
  tir_te :: "nat \<Rightarrow> 'f term_enum option"
  tir_field_num :: int

definition frt_ste_clone :: "'f term_enum \<Rightarrow> 'f term_enum" where
  "frt_ste_clone other_te = other_te"

definition frt_tir_open ::
  "ram_store \<Rightarrow> ram_in seg_field_index \<Rightarrow> byte list \<Rightarrow> ram_heap \<Rightarrow> (ram_in term_infos_reader \<times> ram_store \<times> ram_heap) res" where
  "frt_tir_open store sfi segment w =
     (if FRT_SEGMENT_NAME_MAX_LENGTH < length segment + 5 then Inl UndefinedBehaviour
      else
      ebind (ram_open_input store (0, segment @ str ''.tis'') w) (\<lambda>(is, store, w).
      Inr (\<lparr>tir_orig_te = frt_ste_new is (sfi_skip_interval sfi), tir_te = (\<lambda>_. None), tir_field_num = - 1\<rparr>, store, w)))"

definition tir_enum ::
  "'f is_methods \<Rightarrow> 'f term_infos_reader \<Rightarrow> 'f seg_field_index \<Rightarrow> nat
     \<Rightarrow> ('f term_enum \<times> 'f term_infos_reader \<times> 'f seg_field_index) res" where
  "tir_enum m tir sfi thread =
     (case tir_te tir thread of
        Some te \<Rightarrow> Inr (te, tir, sfi)
      | None \<Rightarrow>
          ebind (ste_set_field m (frt_ste_clone (tir_orig_te tir)) sfi (tir_field_num tir)) (\<lambda>(te, sfi).
          Inr (te, tir\<lparr>tir_te := (tir_te tir)(thread \<mapsto> te)\<rparr>, sfi)))"

definition frt_tir_set_field ::
  "'f is_methods \<Rightarrow> 'f term_infos_reader \<Rightarrow> 'f seg_field_index \<Rightarrow> nat \<Rightarrow> int
     \<Rightarrow> ('f term_infos_reader \<times> 'f seg_field_index) res" where
  "frt_tir_set_field m tir sfi thread field_num =
     (if field_num \<noteq> tir_field_num tir then
        ebind (tir_enum m tir sfi thread) (\<lambda>(te, tir, sfi).
        ebind (ste_set_field m te sfi field_num) (\<lambda>(te, sfi).
        Inr (tir\<lparr>tir_te := (tir_te tir)(thread \<mapsto> te), tir_field_num := field_num\<rparr>, sfi)))
      else Inr (tir, sfi))"

definition tir_found ::
  "'f is_methods \<Rightarrow> 'f term_enum \<Rightarrow> 'f term_infos_reader \<Rightarrow> 'f seg_field_index \<Rightarrow> nat \<Rightarrow> byte list
     \<Rightarrow> (term_info option \<times> 'f term_infos_reader \<times> 'f seg_field_index) res" where
  "tir_found m te tir sfi thread term =
     ebind (ste_scan_to m te sfi term) (\<lambda>(match, te, sfi).
     Inr (case match of Some t \<Rightarrow> if strcmp t term = 0 then Some (te_curr_ti te) else None | None \<Rightarrow> None,
          tir\<lparr>tir_te := (tir_te tir)(thread \<mapsto> te)\<rparr>, sfi))"

definition frt_tir_get_ti ::
  "'f is_methods \<Rightarrow> 'f term_infos_reader \<Rightarrow> 'f seg_field_index \<Rightarrow> nat \<Rightarrow> byte list
     \<Rightarrow> (term_info option \<times> 'f term_infos_reader \<times> 'f seg_field_index) res" where
  "frt_tir_get_ti m tir sfi thread term =
     ebind (tir_enum m tir sfi thread) (\<lambda>(te, tir, sfi). tir_found m te tir sfi thread term)"

definition tir_get_ti_field ::
  "'f is_methods \<Rightarrow> 'f term_infos_reader \<Rightarrow> 'f seg_field_index \<Rightarrow> nat \<Rightarrow> int \<Rightarrow> byte list
     \<Rightarrow> (term_info option \<times> 'f term_infos_reader \<times> 'f seg_field_index) res" where
  "tir_get_ti_field m tir sfi thread field_num term =
     ebind (tir_enum m tir sfi thread) (\<lambda>(te, tir, sfi).
     ebind (if field_num \<noteq> tir_field_num tir then
              ebind (ste_set_field m te sfi field_num) (\<lambda>(te, sfi). Inr (te, tir\<lparr>tir_field_num := field_num\<rparr>, sfi))
            else Inr (te, tir, sfi)) (\<lambda>(te, tir, sfi).
     tir_found m te tir sfi thread term))"

definition frt_tir_get_term ::
  "'f is_methods \<Rightarrow> 'f term_infos_reader \<Rightarrow> 'f seg_field_index \<Rightarrow> nat \<Rightarrow> int
     \<Rightarrow> (byte list option \<times> 'f term_infos_reader \<times> 'f seg_field_index) res" where
  "frt_tir_get_term m tir sfi thread pos =
     (if pos < 0 then Inr (None, tir, sfi)
      else
      ebind (tir_enum m tir sfi thread) (\<lambda>(te, tir, sfi).
      ebind (frt_ste_get_term m te sfi pos) (\<lambda>(t, te, sfi).
      Inr (t, tir\<lparr>tir_te := (tir_te tir)(thread \<mapsto> te)\<rparr>, sfi))))"

end
