(* ===== verification/FrtTermDictLaws.thy ===== *)
theory FrtTermDictLaws
  imports FrtTermDict FrtCompoundLaws "HOL-Library.List_Lexorder"
begin

text \<open>
  The laws of the term dictionary.

  \<^item> \<open>enc_term\<close>, \<open>enc_terms\<close>, \<open>enc_index\<close>: the bytes of a term after another, of the terms of a field, of their index.
  \<^item> \<open>te_at te ts i\<close>: an enumeration of the field with the terms \<open>ts\<close> that has read \<open>i\<close> of them. Skipping and seeking
    through the index keep it, and find the first term that is not less than the one sought.
  \<^item> \<open>sfi_ok\<close> and \<open>tir_ok\<close>: the fields of a segment and the reader with an enumeration for each thread. A lookup searches
    the field that \<open>searched\<close> names, and a thread alone finds what the lists of terms hold.
\<close>

section \<open>Comparing terms\<close>

lemma strcmp_sign: "strcmp s t = (if s = t then 0 else if s < t then - 1 else 1)"
  by (induction s t rule: strcmp.induct) auto

lemma strcmp_eq_0 [simp]: "strcmp s t = 0 \<longleftrightarrow> s = t"
  by (auto simp: strcmp_sign)

lemma strcmp_less [simp]: "strcmp s t < 0 \<longleftrightarrow> s < t"
  by (auto simp: strcmp_sign)

lemma strcmp_le [simp]: "strcmp s t \<le> 0 \<longleftrightarrow> s \<le> t"
  by (auto simp: strcmp_sign)

lemma strcmp_greater [simp]: "0 < strcmp s t \<longleftrightarrow> t < s"
  by (auto simp: strcmp_sign)

section \<open>The bytes of the terms\<close>

type_synonym entry = "byte list \<times> term_info"

definition no_term :: entry where
  "no_term = ([], zero_ti)"

definition enc_term :: "int \<Rightarrow> entry \<Rightarrow> entry \<Rightarrow> byte list" where
  "enc_term sk e0 e =
     (let d = frt_hlp_string_diff (fst e0) (fst e); i0 = snd e0; i = snd e
      in enc_v d @ enc_v (length (fst e) - d) @ drop d (fst e) @ enc_v (nat (ti_doc_freq i)) @
         enc_v (nat (ti_frq_ptr i - ti_frq_ptr i0)) @ enc_v (nat (ti_prx_ptr i - ti_prx_ptr i0)) @
         (if ti_doc_freq i \<ge> sk then enc_v (nat (ti_skip_offset i)) else []))"

fun enc_terms :: "int \<Rightarrow> entry \<Rightarrow> entry list \<Rightarrow> byte list" where
  "enc_terms sk e0 [] = []"
| "enc_terms sk e0 (e # es) = enc_term sk e0 e @ enc_terms sk e es"

text \<open>Terms that fit the buffer, numbers that fit their types.\<close>

definition info_ok :: "term_info \<Rightarrow> bool" where
  "info_ok i \<longleftrightarrow> 0 \<le> ti_doc_freq i \<and> ti_doc_freq i < 2 ^ 31 \<and> 0 \<le> ti_frq_ptr i \<and> ti_frq_ptr i < 2 ^ 63 \<and>
     0 \<le> ti_prx_ptr i \<and> ti_prx_ptr i < 2 ^ 63 \<and> 0 \<le> ti_skip_offset i \<and> ti_skip_offset i < 2 ^ 63"

definition dict_entry_ok :: "entry \<Rightarrow> bool" where
  "dict_entry_ok e \<longleftrightarrow> length (fst e) < FRT_MAX_WORD_SIZE \<and> info_ok (snd e)"

definition follows :: "entry \<Rightarrow> entry \<Rightarrow> bool" where
  "follows e0 e \<longleftrightarrow> ti_frq_ptr (snd e0) \<le> ti_frq_ptr (snd e) \<and> ti_prx_ptr (snd e0) \<le> ti_prx_ptr (snd e)"

text \<open>What a reader knows of a term: the skip offset only when it was written.\<close>

definition same_info :: "int \<Rightarrow> term_info \<Rightarrow> term_info \<Rightarrow> bool" where
  "same_info sk i j \<longleftrightarrow> ti_doc_freq i = ti_doc_freq j \<and> ti_frq_ptr i = ti_frq_ptr j \<and> ti_prx_ptr i = ti_prx_ptr j \<and>
     (ti_doc_freq i \<ge> sk \<longrightarrow> ti_skip_offset i = ti_skip_offset j)"

lemma dict_entry_ok_no_term [simp]: "dict_entry_ok no_term"
  by (simp add: dict_entry_ok_def no_term_def info_ok_def zero_ti_def FRT_MAX_WORD_SIZE_def)

lemma fst_no_term [simp]: "fst no_term = []" and snd_no_term [simp]: "snd no_term = zero_ti"
  by (simp_all add: no_term_def)

lemma unat_word_of_int_32: "0 \<le> k \<Longrightarrow> k < 2 ^ 31 \<Longrightarrow> unat (word_of_int k :: u32) = nat k"
  by (simp add: unsigned_of_int take_bit_int_eq_self)

lemma sint_word_of_int_32: "0 \<le> k \<Longrightarrow> k < 2 ^ 31 \<Longrightarrow> sint (word_of_int k :: u32) = k"
  by (simp add: signed_of_int signed_take_bit_int_eq_self)

context out_source
begin

text \<open>The steps of \<open>tw_add\<close> on its stream.\<close>

definition tw_add_os :: "entry \<Rightarrow> entry \<Rightarrow> int \<Rightarrow> 'f outstream \<Rightarrow> 'w \<Rightarrow> ('f outstream \<times> 'w) res" where
  "tw_add_os e0 e sk os w =
     (let d = frt_hlp_string_diff (fst e0) (fst e); ti = snd e
      in ebind (frt_os_write_vint m os (of_nat d) w) (\<lambda>(os, w).
         ebind (frt_os_write_vint m os (of_nat (length (fst e) - d)) w) (\<lambda>(os, w).
         ebind (frt_os_write_bytes m os (drop d (fst e)) w) (\<lambda>(os, w).
         ebind (frt_os_write_vint m os (word_of_int (ti_doc_freq ti)) w) (\<lambda>(os, w).
         ebind (frt_os_write_voff_t m os (ti_frq_ptr ti - ti_frq_ptr (snd e0)) w) (\<lambda>(os, w).
         ebind (frt_os_write_voff_t m os (ti_prx_ptr ti - ti_prx_ptr (snd e0)) w) (\<lambda>(os, w).
         if ti_doc_freq ti \<ge> sk then frt_os_write_voff_t m os (ti_skip_offset ti) w else Inr (os, w))))))))"

lemma writes_vint_nat: "n < 2 ^ 32 \<Longrightarrow> writes (\<lambda>os w. frt_os_write_vint m os (of_nat n) w) (enc_v n)"
  using writes_vint [of "of_nat n"] by (simp add: unat_of_nat)

lemma writes_vint_int: "0 \<le> k \<Longrightarrow> k < 2 ^ 31 \<Longrightarrow> writes (\<lambda>os w. frt_os_write_vint m os (word_of_int k) w) (enc_v (nat k))"
  using writes_vint [of "word_of_int k"] by (simp add: unat_word_of_int_32)

lemma writes_voff_int: "0 \<le> k \<Longrightarrow> k < 2 ^ 63 \<Longrightarrow> writes (\<lambda>os w. frt_os_write_voff_t m os k w) (enc_v (nat k))"
  using writes_voff_t [of "nat k"] by (simp add: nat_less_iff)

lemma writes_term:
  assumes "dict_entry_ok e" and "dict_entry_ok e0" and "follows e0 e"
  shows "writes (tw_add_os e0 e sk) (enc_term sk e0 e)"
proof -
  let ?d = "frt_hlp_string_diff (fst e0) (fst e)" and ?i = "snd e" and ?j = "snd e0"
  have b: "?d \<le> length (fst e)" "length (fst e) < 255" using assms(1) string_diff_le [of "fst e0" "fst e"]
    by (auto simp: dict_entry_ok_def FRT_MAX_WORD_SIZE_def)
  then have "?d < 2 ^ 32" "length (fst e) - ?d < 2 ^ 32" by simp_all
  note ds = this [THEN writes_vint_nat]
  have i: "info_ok ?i" "info_ok ?j" using assms by (simp_all add: dict_entry_ok_def)
  then have "0 \<le> ti_frq_ptr ?i - ti_frq_ptr ?j" "ti_frq_ptr ?i - ti_frq_ptr ?j < 2 ^ 63"
    "0 \<le> ti_prx_ptr ?i - ti_prx_ptr ?j" "ti_prx_ptr ?i - ti_prx_ptr ?j < 2 ^ 63"
    using assms(3) by (simp_all add: info_ok_def follows_def)
  note ptrs = writes_voff_int [OF this(1,2)] writes_voff_int [OF this(3,4)]
  have freq: "writes (\<lambda>os w. frt_os_write_vint m os (word_of_int (ti_doc_freq ?i)) w) (enc_v (nat (ti_doc_freq ?i)))"
    by (rule writes_vint_int) (use i in \<open>simp_all add: info_ok_def\<close>)
  have skip: "writes (\<lambda>os w. if ti_doc_freq ?i \<ge> sk then frt_os_write_voff_t m os (ti_skip_offset ?i) w else Inr (os, w))
      (if ti_doc_freq ?i \<ge> sk then enc_v (nat (ti_skip_offset ?i)) else [])"
    using i writes_voff_int [of "ti_skip_offset ?i"] writes_Inr by (auto simp: info_ok_def)
  have "writes (\<lambda>os w. tw_add_os e0 e sk os w) (enc_term sk e0 e)"
    unfolding tw_add_os_def enc_term_def Let_def
    by (intro writes_bind ds writes_bytes freq ptrs skip)
  then show ?thesis .
qed

end

section \<open>Reading the terms of a field\<close>

lemma nth_take_last: "i \<le> length ts \<Longrightarrow> last (e # take i ts) = (e # ts) ! i"
  by (cases "ts = []"; cases i) (auto simp: last_conv_nth)

lemma enc_terms_append: "enc_terms sk e (xs @ ys) = enc_terms sk e xs @ enc_terms sk (last (e # xs)) ys"
  by (induction xs arbitrary: e) auto

lemma enc_terms_snoc:
  "i < length ts \<Longrightarrow> enc_terms sk e (take (Suc i) ts) = enc_terms sk e (take i ts) @ enc_term sk ((e # ts) ! i) (ts ! i)"
  by (simp add: take_Suc_conv_app_nth enc_terms_append nth_take_last del: last.simps)

text \<open>The terms of a field lie at \<open>P\<close>; \<open>term_at\<close> is where the \<open>i\<close>-th begins.\<close>

definition terms_ok :: "entry list \<Rightarrow> bool" where
  "terms_ok ts \<longleftrightarrow> (\<forall>e \<in> set ts. dict_entry_ok e) \<and> sorted_wrt (\<lambda>a b. fst a < fst b) ts \<and> sorted_wrt follows ts"

definition term_at :: "int \<Rightarrow> entry list \<Rightarrow> nat \<Rightarrow> nat" where
  "term_at sk ts i = length (enc_terms sk no_term (take i ts))"

definition lies_at :: "byte list \<Rightarrow> nat \<Rightarrow> byte list \<Rightarrow> bool" where
  "lies_at bs P xs \<longleftrightarrow> P \<le> length bs \<and> (\<exists>ys. drop P bs = xs @ ys)"

lemma lies_at_append: "lies_at bs P (xs @ ys) \<Longrightarrow> lies_at bs P xs \<and> lies_at bs (P + length xs) ys"
proof -
  assume "lies_at bs P (xs @ ys)"
  then obtain zs where P: "P \<le> length bs" and d: "drop P bs = xs @ ys @ zs" by (auto simp: lies_at_def)
  have "drop (P + length xs) bs = drop (length xs) (drop P bs)" by (simp add: add.commute)
  then have "drop (P + length xs) bs = ys @ zs" using d by simp
  moreover have "length (drop P bs) = length xs + length (ys @ zs)" using d by simp
  then have "P + length xs \<le> length bs" using P by simp
  ultimately show ?thesis using P d by (auto simp: lies_at_def)
qed

lemma lies_at_term:
  assumes "lies_at bs P (enc_terms sk no_term ts)" and i: "i < length ts"
  shows "lies_at bs (P + term_at sk ts i) (enc_term sk ((no_term # ts) ! i) (ts ! i))"
proof -
  have "ts = take (Suc i) ts @ drop (Suc i) ts" by simp
  then have "enc_terms sk no_term ts = enc_terms sk no_term (take i ts) @ enc_term sk ((no_term # ts) ! i) (ts ! i) @
      enc_terms sk (last (no_term # take (Suc i) ts)) (drop (Suc i) ts)"
    using i enc_terms_append [of sk no_term "take (Suc i) ts" "drop (Suc i) ts"] by (simp add: enc_terms_snoc)
  with assms(1) show ?thesis unfolding term_at_def by (metis lies_at_append)
qed

lemma term_at_Suc: "i < length ts \<Longrightarrow> term_at sk ts (Suc i) = term_at sk ts i + length (enc_term sk ((no_term # ts) ! i) (ts ! i))"
  by (simp add: term_at_def enc_terms_snoc)

lemma terms_ok_nth:
  assumes "terms_ok ts" and "i < length ts"
  shows "dict_entry_ok (ts ! i)" and "dict_entry_ok ((no_term # ts) ! i)" and "follows ((no_term # ts) ! i) (ts ! i)"
proof -
  show e: "dict_entry_ok (ts ! i)" using assms by (simp add: terms_ok_def)
  show "dict_entry_ok ((no_term # ts) ! i)" using assms by (cases i) (simp_all add: terms_ok_def)
  show "follows ((no_term # ts) ! i) (ts ! i)"
    using assms e by (cases i) (auto simp: terms_ok_def follows_def dict_entry_ok_def info_ok_def zero_ti_def sorted_wrt_iff_nth_less)
qed

context in_source
begin

text \<open>What \<open>ste_next\<close> reads.\<close>

definition ste_read :: "int \<Rightarrow> byte list \<Rightarrow> term_info \<Rightarrow> 'f instream \<Rightarrow> ((byte list \<times> term_info) \<times> 'f instream) res" where
  "ste_read sk buf i0 is =
     ebind (term_read m buf is) (\<lambda>(curr_term, is).
     ebind (frt_is_read_vint m is) (\<lambda>(doc_freq, is).
     ebind (frt_is_read_voff_t m is) (\<lambda>(frq, is).
     ebind (frt_is_read_voff_t m is) (\<lambda>(prx, is).
     let ti = i0\<lparr>ti_doc_freq := sint doc_freq, ti_frq_ptr := ti_frq_ptr i0 + frq, ti_prx_ptr := ti_prx_ptr i0 + prx\<rparr>
     in ebind (if ti_doc_freq ti \<ge> sk then
                 ebind (frt_is_read_voff_t m is) (\<lambda>(skip, is). Inr (ti\<lparr>ti_skip_offset := skip\<rparr>, is))
               else Inr (ti, is)) (\<lambda>(ti, is).
        Inr ((curr_term, ti), is))))))"

lemma ste_next_eq:
  "ste_next m te =
     (if te_pos te + 1 \<ge> te_size te then Inr (None, te\<lparr>te_pos := te_pos te + 1, te_curr_term := []\<rparr>)
      else ebind (ste_read (te_skip_interval te) (te_curr_term te) (te_curr_ti te) (te_is te)) (\<lambda>((t, ti), is).
        Inr (Some t, te\<lparr>te_pos := te_pos te + 1, te_prev_term := te_curr_term te, te_curr_term := t, te_curr_ti := ti, te_is := is\<rparr>)))"
  by (simp add: ste_next_def ste_read_def Let_def ebind_assoc case_prod_beta')

lemma decodes_vint_nat: "n < 2 ^ 32 \<Longrightarrow> decodes (frt_is_read_vint m) (enc_v n) (of_nat n)"
  using decodes_vint [of "of_nat n"] by (simp add: unat_of_nat)

lemma decodes_vint_int: "0 \<le> k \<Longrightarrow> k < 2 ^ 31 \<Longrightarrow> decodes (frt_is_read_vint m) (enc_v (nat k)) (word_of_int k)"
  using decodes_vint [of "word_of_int k"] by (simp add: unat_word_of_int_32)

lemma decodes_voff_int: "0 \<le> k \<Longrightarrow> k < 2 ^ 63 \<Longrightarrow> decodes (frt_is_read_voff_t m) (enc_v (nat k)) k"
  using decodes_voff_t [of "nat k"] by (simp add: nat_less_iff)

lemma sint_of_nat_small: "n < 255 \<Longrightarrow> sint (of_nat n :: u32) = int n"
  by (simp add: signed_of_nat signed_take_bit_int_eq_self)

lemma decodes_term_text:
  assumes "length t < FRT_MAX_WORD_SIZE" and "d \<le> length t" and "d \<le> length buf" and "take d buf = take d t"
  shows "decodes (term_read m buf) (enc_v d @ enc_v (length t - d) @ drop d t) t"
proof -
  obtain l where l: "length t - d = l" "length t = d + l" using assms(2) by (metis le_add_diff_inverse)
  have b: "d < 255" "l < 255" "d < 2 ^ 32" "l < 2 ^ 32" "d + l < 255" using assms(1) l by (auto simp: FRT_MAX_WORD_SIZE_def)
  have bytes: "decodes (\<lambda>is. frt_is_read_bytes m is l) (drop d t) (drop d t)"
    using decodes_bytes [of "drop d t"] l by simp
  have "decodes (\<lambda>is. ebind (frt_is_read_bytes m is l) (\<lambda>(bs, is). Inr (take d buf @ bs, is))) (drop d t @ []) (take d buf @ drop d t)"
    by (rule decodes_bind [OF bytes]) (rule decodes_Inr)
  then have "decodes (\<lambda>is. ebind (frt_is_read_bytes m is l) (\<lambda>(bs, is). Inr (take d buf @ bs, is))) (drop d t) t"
    using assms(4) by simp
  then have 1: "decodes (\<lambda>is. let start = sint (of_nat d :: u32); len = sint (of_nat l :: u32)
      in if start < 0 \<or> len < 0 \<or> int (length buf) < start \<or> int FRT_MAX_WORD_SIZE \<le> start + len then Inl UndefinedBehaviour
         else ebind (frt_is_read_bytes m is (nat len)) (\<lambda>(bs, is). Inr (take (nat start) buf @ bs, is))) (drop d t) t"
    using b assms(3) by (simp add: sint_of_nat_small Let_def FRT_MAX_WORD_SIZE_def del: of_nat_add)
  show ?thesis unfolding term_read_def [abs_def] l(1)
    by (rule decodes_bind [OF decodes_vint_nat [OF b(3)]], rule decodes_bind [OF decodes_vint_nat [OF b(4)]], rule 1)
qed

lemma decodes_term:
  assumes e: "dict_entry_ok e" "dict_entry_ok e0" "follows e0 e" and i0: "same_info sk i0 (snd e0)"
  shows "\<exists>i. decodes (ste_read sk (fst e0) i0) (enc_term sk e0 e) (fst e, i) \<and> same_info sk i (snd e)"
proof -
  let ?d = "frt_hlp_string_diff (fst e0) (fst e)" and ?i = "snd e" and ?j = "snd e0"
  let ?ti = "i0\<lparr>ti_doc_freq := ti_doc_freq ?i, ti_frq_ptr := ti_frq_ptr ?i, ti_prx_ptr := ti_prx_ptr ?i\<rparr>"
  let ?tj = "if ti_doc_freq ?i \<ge> sk then ?ti\<lparr>ti_skip_offset := ti_skip_offset ?i\<rparr> else ?ti"
  have text_ok: "decodes (term_read m (fst e0)) (enc_v ?d @ enc_v (length (fst e) - ?d) @ drop ?d (fst e)) (fst e)"
    using e string_diff_le string_diff_take by (intro decodes_term_text) (auto simp: dict_entry_ok_def)
  have i: "info_ok ?i" "info_ok ?j" using e by (simp_all add: dict_entry_ok_def)
  then have df: "0 \<le> ti_doc_freq ?i" "ti_doc_freq ?i < 2 ^ 31" and so: "0 \<le> ti_skip_offset ?i" "ti_skip_offset ?i < 2 ^ 63"
    by (simp_all add: info_ok_def)
  have "0 \<le> ti_frq_ptr ?i - ti_frq_ptr ?j" "ti_frq_ptr ?i - ti_frq_ptr ?j < 2 ^ 63"
    "0 \<le> ti_prx_ptr ?i - ti_prx_ptr ?j" "ti_prx_ptr ?i - ti_prx_ptr ?j < 2 ^ 63"
    using e(3) i by (simp_all add: info_ok_def follows_def)
  note ptrs = decodes_voff_int [OF this(1,2)] decodes_voff_int [OF this(3,4)]
  have ti: "i0\<lparr>ti_doc_freq := sint (word_of_int (ti_doc_freq ?i) :: u32), ti_frq_ptr := ti_frq_ptr i0 + (ti_frq_ptr ?i - ti_frq_ptr ?j),
      ti_prx_ptr := ti_prx_ptr i0 + (ti_prx_ptr ?i - ti_prx_ptr ?j)\<rparr> = ?ti"
    using i0 df by (simp add: same_info_def sint_word_of_int_32)
  have skip: "decodes (\<lambda>is. if ti_doc_freq ?ti \<ge> sk then
                 ebind (frt_is_read_voff_t m is) (\<lambda>(skip, is). Inr (?ti\<lparr>ti_skip_offset := skip\<rparr>, is))
               else Inr (?ti, is)) (if ti_doc_freq ?i \<ge> sk then enc_v (nat (ti_skip_offset ?i)) else []) ?tj"
    using decodes_bind [where k = "\<lambda>skip is. Inr (?ti\<lparr>ti_skip_offset := skip\<rparr>, is)", OF decodes_voff_int [OF so] decodes_Inr] decodes_Inr [of ?ti]
    by simp
  have last: "decodes (\<lambda>is. ebind (if ti_doc_freq ?ti \<ge> sk then
                 ebind (frt_is_read_voff_t m is) (\<lambda>(skip, is). Inr (?ti\<lparr>ti_skip_offset := skip\<rparr>, is))
               else Inr (?ti, is)) (\<lambda>(ti, is). Inr ((fst e, ti), is))) ((if ti_doc_freq ?i \<ge> sk then enc_v (nat (ti_skip_offset ?i)) else []) @ [])
      (fst e, ?tj)"
    by (rule decodes_bind [OF skip]) (rule decodes_Inr)
  have "decodes (ste_read sk (fst e0) i0) ((enc_v ?d @ enc_v (length (fst e) - ?d) @ drop ?d (fst e)) @ enc_v (nat (ti_doc_freq ?i)) @
         enc_v (nat (ti_frq_ptr ?i - ti_frq_ptr ?j)) @ enc_v (nat (ti_prx_ptr ?i - ti_prx_ptr ?j)) @
         (if ti_doc_freq ?i \<ge> sk then enc_v (nat (ti_skip_offset ?i)) else []) @ []) (fst e, ?tj)"
    unfolding ste_read_def [abs_def] Let_def
    by (rule decodes_bind [OF text_ok], rule decodes_bind [OF decodes_vint_int [OF df]], rule decodes_bind [OF ptrs(1)],
        rule decodes_bind [OF ptrs(2)], unfold ti, rule last)
  moreover have "same_info sk ?tj ?i" by (simp add: same_info_def)
  ultimately show ?thesis unfolding enc_term_def Let_def by auto
qed

section \<open>The state of an enumeration\<close>

text \<open>\<open>te_at bs P sk ts f te i\<close>: an enumeration of the field \<open>f\<close> that has read \<open>i\<close> of its terms; \<open>te_done\<close>: it found the end.\<close>

definition te_at :: "byte list \<Rightarrow> nat \<Rightarrow> int \<Rightarrow> entry list \<Rightarrow> int \<Rightarrow> 'f term_enum \<Rightarrow> nat \<Rightarrow> bool" where
  "te_at bs P sk ts f te i \<longleftrightarrow> i \<le> length ts \<and> te_size te = int (length ts) \<and> te_skip_interval te = sk \<and> te_field_num te = f \<and>
     te_pos te = int i - 1 \<and> te_curr_term te = fst ((no_term # ts) ! i) \<and> same_info sk (te_curr_ti te) (snd ((no_term # ts) ! i)) \<and>
     is_ok (te_is te) bs (P + term_at sk ts i)"

definition te_done :: "byte list \<Rightarrow> int \<Rightarrow> entry list \<Rightarrow> int \<Rightarrow> 'f term_enum \<Rightarrow> bool" where
  "te_done bs sk ts f te \<longleftrightarrow> te_size te = int (length ts) \<and> te_skip_interval te = sk \<and> te_field_num te = f \<and>
     int (length ts) \<le> te_pos te \<and> (\<exists>p. is_ok (te_is te) bs p)"

lemma ste_next_more:
  assumes T: "terms_ok ts" and L: "lies_at bs P (enc_terms sk no_term ts)" and A: "te_at bs P sk ts f te i" and i: "i < length ts"
  shows "\<exists>te'. ste_next m te = Inr (Some (fst (ts ! i)), te') \<and> te_at bs P sk ts f te' (Suc i)"
proof -
  let ?e0 = "(no_term # ts) ! i"
  note e = terms_ok_nth [OF T i]
  have A': "te_skip_interval te = sk" "te_curr_term te = fst ?e0" "same_info sk (te_curr_ti te) (snd ?e0)"
    "is_ok (te_is te) bs (P + term_at sk ts i)" "te_size te = int (length ts)" "te_pos te = int i - 1" "te_field_num te = f"
    using A by (simp_all add: te_at_def)
  from decodes_term [OF e A'(3)] obtain ti where
    d: "decodes (ste_read sk (fst ?e0) (te_curr_ti te)) (enc_term sk ?e0 (ts ! i)) (fst (ts ! i), ti)" "same_info sk ti (snd (ts ! i))" by blast
  from lies_at_term [OF L i] obtain ys where
    l: "P + term_at sk ts i \<le> length bs" "drop (P + term_at sk ts i) bs = enc_term sk ?e0 (ts ! i) @ ys" by (auto simp: lies_at_def)
  from decodesD [OF d(1) A'(4) l] obtain is' where
    r: "ste_read sk (fst ?e0) (te_curr_ti te) (te_is te) = Inr ((fst (ts ! i), ti), is')"
      "is_ok is' bs (P + term_at sk ts i + length (enc_term sk ?e0 (ts ! i)))" .
  have "ste_next m te = Inr (Some (fst (ts ! i)), te\<lparr>te_pos := te_pos te + 1, te_prev_term := te_curr_term te,
      te_curr_term := fst (ts ! i), te_curr_ti := ti, te_is := is'\<rparr>)"
    unfolding ste_next_eq A'(1,2) r(1) using A'(5,6) i by simp
  then show ?thesis using A' d(2) r(2) i by (simp add: te_at_def term_at_Suc add.assoc)
qed

lemma ste_next_end:
  assumes "te_at bs P sk ts f te (length ts)"
  shows "\<exists>te'. ste_next m te = Inr (None, te') \<and> te_done bs sk ts f te'"
  using assms by (auto simp: ste_next_eq te_at_def te_done_def)

text \<open>The first term that is not less than \<open>t\<close>.\<close>

definition term_found :: "byte list \<Rightarrow> nat \<Rightarrow> int \<Rightarrow> entry list \<Rightarrow> int \<Rightarrow> byte list \<Rightarrow> byte list option \<Rightarrow> 'f term_enum \<Rightarrow> bool" where
  "term_found bs P sk ts f t r te \<longleftrightarrow> (case List.find (\<lambda>e. t \<le> fst e) ts of
     None \<Rightarrow> r = None \<and> te_done bs sk ts f te
   | Some e \<Rightarrow> r = Some (fst e) \<and> (\<exists>k < length ts. ts ! k = e \<and> te_at bs P sk ts f te (Suc k)))"

lemma find_drop: "\<forall>j < i. \<not> Q (ts ! j) \<Longrightarrow> i \<le> length ts \<Longrightarrow> List.find Q ts = List.find Q (drop i ts)"
proof (induction i)
  case (Suc i)
  then have "List.find Q ts = List.find Q (drop i ts)" by simp
  also have "drop i ts = ts ! i # drop (Suc i) ts" using Suc.prems by (simp add: Cons_nth_drop_Suc)
  finally show ?case using Suc.prems by simp
qed simp

lemma te_skip_loop_ok:
  assumes T: "terms_ok ts" and L: "lies_at bs P (enc_terms sk no_term ts)"
  shows "te_at bs P sk ts f te i \<Longrightarrow> \<forall>j < i. fst (ts ! j) < t \<Longrightarrow>
    \<exists>r te'. te_skip_loop m t te = Inr (r, te') \<and> term_found bs P sk ts f t r te'"
proof (induction "length ts - i" arbitrary: i te)
  case 0
  then have i: "i = length ts" by (simp add: te_at_def)
  from ste_next_end 0(2) obtain te' where 1: "ste_next m te = Inr (None, te')" "te_done bs sk ts f te'" unfolding i by blast
  have "List.find (\<lambda>e. t \<le> fst e) ts = None" using 0(3) i by (auto simp: find_None_iff in_set_conv_nth not_le)
  with 1 show ?case by (simp add: te_skip_loop.simps [of m t te] term_found_def)
next
  case (Suc n)
  then have i: "i < length ts" by simp
  from ste_next_more [OF T L Suc(3) i] obtain te' where
    1: "ste_next m te = Inr (Some (fst (ts ! i)), te')" "te_at bs P sk ts f te' (Suc i)" by blast
  show ?case
  proof (cases "fst (ts ! i) < t")
    case True
    have "n = length ts - Suc i" using Suc(2) by simp
    moreover have "\<forall>j < Suc i. fst (ts ! j) < t" using Suc(4) True by (simp add: less_Suc_eq)
    ultimately show ?thesis using Suc(1) 1 True by (simp add: te_skip_loop.simps [of m t te])
  next
    case False
    have "List.find (\<lambda>e. t \<le> fst e) ts = List.find (\<lambda>e. t \<le> fst e) (drop i ts)"
      using Suc(4) i by (intro find_drop) (auto simp: not_le)
    also have "drop i ts = ts ! i # drop (Suc i) ts" using i by (simp add: Cons_nth_drop_Suc)
    finally have "List.find (\<lambda>e. t \<le> fst e) ts = Some (ts ! i)" using False by simp
    with 1 False i show ?thesis by (auto simp: te_skip_loop.simps [of m t te] term_found_def)
  qed
qed

lemma terms_less: "terms_ok ts \<Longrightarrow> i < j \<Longrightarrow> j < length ts \<Longrightarrow> fst (ts ! i) < fst (ts ! j)"
  by (simp add: terms_ok_def sorted_wrt_iff_nth_less)

lemma te_skip_to_ok:
  assumes T: "terms_ok ts" and L: "lies_at bs P (enc_terms sk no_term ts)" and A: "te_at bs P sk ts f te i"
    and t: "t \<noteq> []" and le: "te_curr_term te \<le> t"
  shows "\<exists>r te'. te_skip_to m te t = Inr (r, te') \<and> term_found bs P sk ts f t r te'"
proof (cases i)
  case 0
  then have "te_curr_term te = []" using A by (simp add: te_at_def)
  then have "te_skip_to m te t = te_skip_loop m t te" using t by (cases t) (simp_all add: te_skip_to_def)
  with te_skip_loop_ok [OF T L A, of t] 0 show ?thesis by simp
next
  case (Suc k)
  then have c: "te_curr_term te = fst (ts ! k)" and k: "k < length ts" using A by (simp_all add: te_at_def)
  have less: "\<forall>j < k. fst (ts ! j) < t" using terms_less [OF T _ k] le c by fastforce
  show ?thesis
  proof (cases "te_curr_term te = t")
    case True
    have "List.find (\<lambda>e. t \<le> fst e) ts = List.find (\<lambda>e. t \<le> fst e) (drop k ts)"
      using less k by (intro find_drop) (auto simp: not_le)
    also have "drop k ts = ts ! k # drop (Suc k) ts" using k by (simp add: Cons_nth_drop_Suc)
    finally have "List.find (\<lambda>e. t \<le> fst e) ts = Some (ts ! k)" using True c by simp
    with True A Suc c k show ?thesis by (auto simp: te_skip_to_def term_found_def)
  next
    case False
    with le have lt: "te_curr_term te < t" by simp
    then have "\<forall>j < i. fst (ts ! j) < t" using less c Suc by (simp add: less_Suc_eq)
    with te_skip_loop_ok [OF T L A this] lt show ?thesis by (simp add: te_skip_to_def)
  qed
qed

end

section \<open>The index of a field\<close>

text \<open>Every \<open>I\<close>-th position with the term before it, and the bytes of such a list.\<close>

definition index_cnt :: "nat \<Rightarrow> entry list \<Rightarrow> nat" where
  "index_cnt I ts = (length ts + I - 1) div I"

definition index_of :: "nat \<Rightarrow> int \<Rightarrow> nat \<Rightarrow> entry list \<Rightarrow> (entry \<times> nat) list" where
  "index_of I sk P ts = map (\<lambda>k. ((no_term # ts) ! (k * I), P + term_at sk ts (k * I))) [0..<index_cnt I ts]"

fun enc_index :: "int \<Rightarrow> entry \<Rightarrow> nat \<Rightarrow> (entry \<times> nat) list \<Rightarrow> byte list" where
  "enc_index sk e0 p0 [] = []"
| "enc_index sk e0 p0 (x # xs) = enc_term sk e0 (fst x) @ enc_v (snd x - p0) @ enc_index sk (fst x) (snd x) xs"

fun index_chain :: "entry \<Rightarrow> nat \<Rightarrow> (entry \<times> nat) list \<Rightarrow> bool" where
  "index_chain e0 p0 [] \<longleftrightarrow> True"
| "index_chain e0 p0 (x # xs) \<longleftrightarrow> dict_entry_ok (fst x) \<and> follows e0 (fst x) \<and> p0 \<le> snd x \<and> snd x < 2 ^ 63 \<and> index_chain (fst x) (snd x) xs"

lemma index_cnt_less: "0 < I \<Longrightarrow> k < index_cnt I ts \<longleftrightarrow> k * I < length ts"
proof -
  assume I: "0 < I"
  have "k < index_cnt I ts \<longleftrightarrow> Suc k * I \<le> length ts + I - 1"
    unfolding index_cnt_def using I by (metis Suc_le_eq less_eq_div_iff_mult_less_eq)
  also have "\<dots> \<longleftrightarrow> k * I < length ts" using I by auto
  finally show ?thesis .
qed

lemma index_cnt_pos: "0 < I \<Longrightarrow> ts \<noteq> [] \<Longrightarrow> 0 < index_cnt I ts"
  by (simp add: index_cnt_less)

lemma term_at_mono: "i \<le> j \<Longrightarrow> term_at sk ts i \<le> term_at sk ts j"
proof -
  assume "i \<le> j"
  then have "take j ts = take i ts @ take (j - i) (drop i ts)" using take_add [of i "j - i" ts] by simp
  then show ?thesis by (simp add: term_at_def enc_terms_append)
qed

lemma index_chain_map:
  assumes "\<And>k. k < c \<Longrightarrow> dict_entry_ok (fst (g k)) \<and> snd (g k) < 2 ^ 63"
    and "\<And>j k. j \<le> k \<Longrightarrow> k < c \<Longrightarrow> follows (fst (g j)) (fst (g k)) \<and> snd (g j) \<le> snd (g k)"
  shows "a < c \<Longrightarrow> follows e0 (fst (g a)) \<Longrightarrow> p0 \<le> snd (g a) \<Longrightarrow> index_chain e0 p0 (map g [a..<c])"
proof (induction "c - a" arbitrary: a e0 p0)
  case (Suc n)
  have u: "[a..<c] = a # [Suc a..<c]" using Suc.prems(1) by (simp add: upt_conv_Cons)
  show ?case
  proof (cases "Suc a < c")
    case True
    then have "index_chain (fst (g a)) (snd (g a)) (map g [Suc a..<c])"
      using Suc.hyps assms(2) [of a "Suc a"] by (intro Suc.hyps(1)) auto
    then show ?thesis using Suc.prems assms(1) by (simp add: u)
  next
    case False
    then show ?thesis using Suc.prems assms(1) by (simp add: u)
  qed
qed simp

lemma follows_mono: "terms_ok ts \<Longrightarrow> i \<le> j \<Longrightarrow> j \<le> length ts \<Longrightarrow> follows ((no_term # ts) ! i) ((no_term # ts) ! j)"
proof (cases "i = j")
  assume T: "terms_ok ts" and i: "i \<le> j" "j \<le> length ts" "i \<noteq> j"
  then obtain k where k: "j = Suc k" "k < length ts" by (cases j) auto
  show ?thesis
  proof (cases i)
    case 0
    have "dict_entry_ok (ts ! k)" using terms_ok_nth(1) [OF T k(2)] .
    then show ?thesis by (simp add: 0 k(1) follows_def dict_entry_ok_def info_ok_def zero_ti_def)
  next
    case (Suc l)
    then show ?thesis using T i k by (simp add: terms_ok_def sorted_wrt_iff_nth_less)
  qed
qed (simp add: follows_def)

lemma index_of_chain:
  assumes T: "terms_ok ts" and I: "0 < I" and small: "P + term_at sk ts (length ts) < 2 ^ 63"
  shows "index_chain no_term 0 (index_of I sk P ts)"
proof (cases "ts = []")
  case True
  then show ?thesis using I by (simp add: index_of_def index_cnt_def)
next
  case False
  have le: "k * I \<le> length ts" if "k < index_cnt I ts" for k using that index_cnt_less [OF I] by (simp add: less_imp_le)
  show ?thesis unfolding index_of_def
  proof (rule index_chain_map)
    fix k assume k: "k < index_cnt I ts"
    have "dict_entry_ok ((no_term # ts) ! (k * I))" using terms_ok_nth(2) [OF T] k index_cnt_less [OF I] by blast
    moreover have "P + term_at sk ts (k * I) < 2 ^ 63" using term_at_mono [OF le [OF k], of sk ts] small by linarith
    ultimately show "dict_entry_ok (fst ((no_term # ts) ! (k * I), P + term_at sk ts (k * I))) \<and>
        snd ((no_term # ts) ! (k * I), P + term_at sk ts (k * I)) < 2 ^ 63" by simp
  next
    fix j k assume jk: "j \<le> k" "k < index_cnt I ts"
    then have "j * I \<le> k * I" by simp
    with follows_mono [OF T this le [OF jk(2)]] term_at_mono [OF this, of sk ts]
    show "follows (fst ((no_term # ts) ! (j * I), P + term_at sk ts (j * I))) (fst ((no_term # ts) ! (k * I), P + term_at sk ts (k * I))) \<and>
        snd ((no_term # ts) ! (j * I), P + term_at sk ts (j * I)) \<le> snd ((no_term # ts) ! (k * I), P + term_at sk ts (k * I))" by simp
  next
    show "0 < index_cnt I ts" using I False by (rule index_cnt_pos)
  qed (simp_all add: follows_def)
qed

text \<open>The index as it was read.\<close>

definition same_entry :: "int \<Rightarrow> byte list \<times> term_info \<times> int \<Rightarrow> entry \<times> nat \<Rightarrow> bool" where
  "same_entry sk x y \<longleftrightarrow> fst x = fst (fst y) \<and> same_info sk (fst (snd x)) (snd (fst y)) \<and> snd (snd x) = int (snd y)"

definition sti_ok :: "byte list \<Rightarrow> byte list \<Rightarrow> int \<Rightarrow> nat \<Rightarrow> nat \<Rightarrow> entry list \<Rightarrow> seg_term_index \<Rightarrow> bool" where
  "sti_ok bs bsx sk I P ts sti \<longleftrightarrow> terms_ok ts \<and> lies_at bs P (enc_terms sk no_term ts) \<and> P + term_at sk ts (length ts) < 2 ^ 63 \<and>
     sti_ptr sti = int P \<and> sti_size sti = int (length ts) \<and> sti_index_cnt sti = int (index_cnt I ts) \<and>
     (\<exists>X. sti_index_ptr sti = int X \<and> lies_at bsx X (enc_index sk no_term 0 (index_of I sk P ts))) \<and>
     (case sti_index sti of None \<Rightarrow> True | Some es \<Rightarrow> list_all2 (same_entry sk) es (index_of I sk P ts))"

lemma sti_search_ok:
  assumes "0 \<le> lo" "lo \<le> hi + 1" "0 \<le> hi" "hi < int (length keys)" and "keys ! 0 \<le> t" and "lo = 0 \<or> keys ! nat (lo - 1) \<le> t"
  shows "0 \<le> sti_search keys t lo hi \<and> sti_search keys t lo hi < int (length keys) \<and> keys ! nat (sti_search keys t lo hi) \<le> t"
  using assms
proof (induction keys t lo hi rule: sti_search.induct)
  case (1 keys t lo hi)
  show ?case
  proof (cases "lo \<le> hi")
    case False
    then have "hi = lo - 1" "lo \<noteq> 0" using "1.prems" by auto
    then have "keys ! nat hi \<le> t" using "1.prems"(6) by blast
    then show ?thesis using False "1.prems" by (simp add: sti_search.simps [of keys t lo hi])
  next
    case True
    let ?mid = "(lo + hi) div 2"
    have mid: "lo \<le> ?mid" "?mid \<le> hi" using True by auto
    consider "t < keys ! nat ?mid" | "keys ! nat ?mid < t" | "t = keys ! nat ?mid" by fastforce
    then show ?thesis
    proof cases
      case 1
      then have "?mid \<noteq> 0" using \<open>keys ! 0 \<le> t\<close> by auto
      then have "0 \<le> ?mid - 1" "lo \<le> ?mid - 1 + 1" using mid \<open>0 \<le> lo\<close> by auto
      with "1.IH"(1) [OF True refl refl] 1 mid "1.prems" True show ?thesis by (simp add: sti_search.simps [of keys t lo hi] Let_def)
    next
      case 2
      then have "?mid + 1 = 0 \<or> keys ! nat (?mid + 1 - 1) \<le> t" "\<not> t < keys ! nat ?mid" by (auto simp: less_imp_le)
      with "1.IH"(2) [OF True refl refl] 2 mid "1.prems" True show ?thesis by (simp add: sti_search.simps [of keys t lo hi] Let_def)
    next
      case 3
      have "sti_search keys t lo hi = ?mid" using True by (simp add: sti_search.simps [of keys t lo hi] Let_def 3 [symmetric])
      then show ?thesis using mid "1.prems" 3 by simp
    qed
  qed
qed

context in_source
begin

definition index_te_ok :: "byte list \<Rightarrow> int \<Rightarrow> 'f term_enum \<Rightarrow> bool" where
  "index_te_ok bsx sk te \<longleftrightarrow> te_skip_interval te = sk \<and> (\<exists>p. is_ok (te_is te) bsx p)"

lemma sti_read_loop_ok:
  assumes "is_ok (te_is te) bsx p" and "lies_at bsx p (enc_index sk e0 q xs)" and "te_skip_interval te = sk"
    and "te_curr_term te = fst e0" and "same_info sk (te_curr_ti te) (snd e0)" and "te_size te = te_pos te + 1 + int (length xs)"
    and "dict_entry_ok e0" and "index_chain e0 q xs"
  shows "\<exists>es te'. sti_read_loop m (length xs) te (int q) acc = Inr (acc @ es, te') \<and> list_all2 (same_entry sk) es xs \<and> index_te_ok bsx sk te'"
  using assms
proof (induction xs arbitrary: te p e0 q acc)
  case Nil
  then show ?case by (auto simp: ste_next_eq index_te_ok_def)
next
  case (Cons x xs)
  obtain e r where x: "x = (e, r)" by (cases x)
  have c: "dict_entry_ok e" "follows e0 e" "q \<le> r" "r < 2 ^ 63" "index_chain e r xs" using Cons.prems(8) by (simp_all add: x)
  from decodes_term [OF c(1) Cons.prems(7) c(2) Cons.prems(5)] obtain ti where
    d: "decodes (ste_read sk (fst e0) (te_curr_ti te)) (enc_term sk e0 e) (fst e, ti)" "same_info sk ti (snd e)" by blast
  have lie: "lies_at bsx p (enc_term sk e0 e @ enc_v (r - q) @ enc_index sk e r xs)" using Cons.prems(2) by (simp add: x)
  then obtain ys where l: "p \<le> length bsx" "drop p bsx = enc_term sk e0 e @ (enc_v (r - q) @ enc_index sk e r xs @ ys)"
    by (auto simp: lies_at_def)
  from decodesD [OF d(1) Cons.prems(1) l] obtain is1 where
    1: "ste_read sk (fst e0) (te_curr_ti te) (te_is te) = Inr ((fst e, ti), is1)" "is_ok is1 bsx (p + length (enc_term sk e0 e))"
      "p + length (enc_term sk e0 e) \<le> length bsx" "drop (p + length (enc_term sk e0 e)) bsx = enc_v (r - q) @ enc_index sk e r xs @ ys" .
  have "r - q < 2 ^ 63" using c(4) by linarith
  from decodesD [OF decodes_voff_t [OF this] 1(2-4)] obtain is2 where
    2: "frt_is_read_voff_t m is1 = Inr (int (r - q), is2)" "is_ok is2 bsx (p + length (enc_term sk e0 e) + length (enc_v (r - q)))" .
  let ?te = "te\<lparr>te_pos := te_pos te + 1, te_prev_term := te_curr_term te, te_curr_term := fst e, te_curr_ti := ti, te_is := is1\<rparr>"
  have n: "ste_next m te = Inr (Some (fst e), ?te)"
    unfolding ste_next_eq Cons.prems(3,4) 1(1) using Cons.prems(6) by (simp add: Cons.prems(4))
  have "lies_at bsx (p + length (enc_term sk e0 e) + length (enc_v (r - q))) (enc_index sk e r xs)"
    using lie lies_at_append by blast
  with Cons.IH [of "?te\<lparr>te_is := is2\<rparr>" "p + length (enc_term sk e0 e) + length (enc_v (r - q))" e r "acc @ [(fst e, ti, int r)]"]
  obtain es te' where 3: "sti_read_loop m (length xs) (?te\<lparr>te_is := is2\<rparr>) (int r) (acc @ [(fst e, ti, int r)]) = Inr ((acc @ [(fst e, ti, int r)]) @ es, te')"
    "list_all2 (same_entry sk) es xs" "index_te_ok bsx sk te'"
    using 2(2) c(1,5) d(2) Cons.prems(3,6) by auto
  have "int q + int (r - q) = int r" using c(3) by simp
  then have "sti_read_loop m (length (x # xs)) te (int q) acc = Inr (acc @ (fst e, ti, int r) # es, te')"
    using n 2(1) 3(1) by (simp add: frt_te_get_term_def del: of_nat_diff)
  moreover have "list_all2 (same_entry sk) ((fst e, ti, int r) # es) (x # xs)" using 3(2) d(2) by (simp add: x same_entry_def)
  ultimately show ?case using 3(3) by blast
qed

lemma sti_ensure_ok:
  assumes S: "sti_ok bs bsx sk I P ts sti" and I: "0 < I" and E: "index_te_ok bsx sk te"
  shows "\<exists>es sti' te'. sti_ensure_index_is_read m sti te = Inr (sti', te') \<and> sti_index sti' = Some es \<and>
    list_all2 (same_entry sk) es (index_of I sk P ts) \<and> sti_ok bs bsx sk I P ts sti' \<and> index_te_ok bsx sk te'"
proof (cases "sti_index sti")
  case (Some es)
  then show ?thesis using S E by (auto simp: sti_ensure_index_is_read_def sti_ok_def)
next
  case None
  from S obtain X where X: "sti_index_ptr sti = int X" "lies_at bsx X (enc_index sk no_term 0 (index_of I sk P ts))"
    and T: "terms_ok ts" "P + term_at sk ts (length ts) < 2 ^ 63" and cnt: "sti_index_cnt sti = int (index_cnt I ts)"
    by (auto simp: sti_ok_def)
  from E obtain p where p: "is_ok (te_is te) bsx p" by (auto simp: index_te_ok_def)
  from frt_is_seek_ok [OF p, of X] obtain is1 where 1: "frt_is_seek m (te_is te) (int X) = Inr is1" "is_ok is1 bsx X" by blast
  let ?te = "(ste_reset te)\<lparr>te_is := is1, te_size := sti_index_cnt sti\<rparr>"
  have len: "length (index_of I sk P ts) = index_cnt I ts" by (simp add: index_of_def)
  have "\<exists>es te'. sti_read_loop m (length (index_of I sk P ts)) ?te (int 0) [] = Inr ([] @ es, te') \<and>
      list_all2 (same_entry sk) es (index_of I sk P ts) \<and> index_te_ok bsx sk te'"
    by (rule sti_read_loop_ok [OF _ X(2)])
      (use 1(2) E cnt index_of_chain [OF T(1) I T(2)] in \<open>simp_all add: ste_reset_def index_te_ok_def same_info_def len\<close>)
  then obtain es te' where 2: "sti_read_loop m (index_cnt I ts) ?te 0 [] = Inr (es, te')"
    "list_all2 (same_entry sk) es (index_of I sk P ts)" "index_te_ok bsx sk te'" unfolding len by auto
  have "sti_ensure_index_is_read m sti te = Inr (sti\<lparr>sti_index := Some es\<rparr>, te')"
    using None X(1) 1(1) 2(1) cnt by (simp add: sti_ensure_index_is_read_def)
  then show ?thesis using 2(2,3) S by (intro exI [of _ es]) (auto simp: sti_ok_def)
qed

end

section \<open>Finding a term\<close>

lemma sdiv_pos: "0 < I \<Longrightarrow> (int i sdiv int I) = int (i div I)"
  by (cases "i = 0") (simp_all add: signed_divide_int_def zdiv_int)

context in_source
begin

definition te_on :: "byte list \<Rightarrow> nat \<Rightarrow> int \<Rightarrow> entry list \<Rightarrow> int \<Rightarrow> 'f term_enum \<Rightarrow> bool" where
  "te_on bs P sk ts f te \<longleftrightarrow> (\<exists>i. te_at bs P sk ts f te i) \<or> te_done bs sk ts f te"

lemma found_on: "term_found bs P sk ts f t r te \<Longrightarrow> te_on bs P sk ts f te"
  by (auto simp: term_found_def te_on_def split: option.splits)

lemma index_seek_ok:
  assumes A: "te_on bs P sk ts f te" and es: "list_all2 (same_entry sk) es (index_of I sk P ts)" and I: "0 < I" and k: "k < index_cnt I ts"
  shows "\<exists>te'. frt_ste_index_seek m te (int I) es (int k) = Inr te' \<and> te_at bs P sk ts f te' (k * I)"
proof -
  have len: "length (index_of I sk P ts) = index_cnt I ts" by (simp add: index_of_def)
  then have l: "length es = index_cnt I ts" using list_all2_lengthD [OF es] by simp
  have x: "index_of I sk P ts ! k = ((no_term # ts) ! (k * I), P + term_at sk ts (k * I))" using k by (simp add: index_of_def)
  have e: "same_entry sk (es ! k) ((no_term # ts) ! (k * I), P + term_at sk ts (k * I))"
    using list_all2_nthD2 [OF es, of k] k len by (simp add: x)
  obtain t ti p where y: "es ! k = (t, ti, p)" by (cases "es ! k")
  obtain q where q: "is_ok (te_is te) bs q" using A by (auto simp: te_on_def te_at_def te_done_def)
  from frt_is_seek_ok [OF q, of "P + term_at sk ts (k * I)"] obtain is1 where
    1: "frt_is_seek m (te_is te) p = Inr is1" "is_ok is1 bs (P + term_at sk ts (k * I))" using e y by (auto simp: same_entry_def)
  have "k * I \<le> length ts" using k index_cnt_less [OF I] by (simp add: less_imp_le)
  moreover have "te_size te = int (length ts)" "te_skip_interval te = sk" "te_field_num te = f"
    using A by (auto simp: te_on_def te_at_def te_done_def)
  ultimately show ?thesis using e y 1 k l by (simp add: frt_ste_index_seek_def te_at_def same_entry_def mult.commute)
qed

text \<open>The test that saves the search: the term sought lies before the next entry of the index.\<close>

lemma scan_suffices_ok:
  assumes A: "te_on bs P sk ts f te" and S: "sti_ok bs bsx sk I P ts sti" and I: "0 < I"
    and es: "list_all2 (same_entry sk) es (index_of I sk P ts)" and ts: "ts \<noteq> []"
  shows "\<exists>b. scan_suffices te (int I) sti es t = Inr b \<and> (b \<longrightarrow> (\<exists>i. te_at bs P sk ts f te i) \<and> te_curr_term te \<le> t)"
proof (cases "te_pos te < te_size te \<and> te_curr_term te \<le> t")
  case False
  then show ?thesis by (auto simp: scan_suffices_def)
next
  case True
  then obtain i where i: "te_at bs P sk ts f te i" using A by (auto simp: te_on_def te_done_def)
  have cnt: "sti_index_cnt sti = int (index_cnt I ts)" using S by (simp add: sti_ok_def)
  have l: "length es = index_cnt I ts" using list_all2_lengthD [OF es] by (simp add: index_of_def)
  have off: "0 \<le> te_pos te sdiv int I + 1 \<and> te_pos te sdiv int I + 1 \<le> int (index_cnt I ts)"
  proof (cases i)
    case 0
    then have "te_pos te = - 1" using i by (simp add: te_at_def)
    moreover have "0 < index_cnt I ts" using I ts by (rule index_cnt_pos)
    moreover have "(- 1) sdiv int I = (if I = 1 then - 1 else 0)" using I by (auto simp: signed_divide_int_def)
    ultimately show ?thesis by simp
  next
    case (Suc j)
    then have j: "te_pos te = int j" "j < length ts" using i by (simp_all add: te_at_def)
    have "j div I < index_cnt I ts" using j(2) index_cnt_less [OF I, of "j div I" ts] by (meson div_times_less_eq_dividend le_less_trans)
    then show ?thesis using j(1) I by (simp add: sdiv_pos)
  qed
  then show ?thesis using True i I l cnt by (auto simp: scan_suffices_def Let_def)
qed

lemma ste_scan_ok:
  assumes A: "te_on bs P sk ts f te" and S: "sti_ok bs bsx sk I P ts sti" and I: "0 < I"
    and es: "list_all2 (same_entry sk) es (index_of I sk P ts)" and ts: "ts \<noteq> []"
  shows "\<exists>r te'. (if t = [] then ebind (frt_ste_index_seek m te (int I) es 0) (ste_next m)
      else ebind (scan_suffices te (int I) sti es t) (\<lambda>b.
           ebind (if b then Inr te else frt_ste_index_seek m te (int I) es (sti_get_index_offset es sti t)) (\<lambda>te. te_skip_to m te t))) =
      Inr (r, te') \<and> term_found bs P sk ts f t r te'"
proof (cases "t = []")
  case True
  have T: "terms_ok ts" and L: "lies_at bs P (enc_terms sk no_term ts)" using S by (simp_all add: sti_ok_def)
  from index_seek_ok [OF A es I index_cnt_pos [OF I ts]] obtain te1 where
    1: "frt_ste_index_seek m te (int I) es 0 = Inr te1" "te_at bs P sk ts f te1 0" by auto
  from ts have "0 < length ts" by simp
  from ste_next_more [OF T L 1(2) this] obtain te2 where
    2: "ste_next m te1 = Inr (Some (fst (ts ! 0)), te2)" "te_at bs P sk ts f te2 (Suc 0)" by blast
  have "List.find (\<lambda>e. t \<le> fst e) ts = Some (ts ! 0)" using ts True by (cases ts) simp_all
  then have "term_found bs P sk ts f t (Some (fst (ts ! 0))) te2" using 2(2) ts by (auto simp: term_found_def)
  then show ?thesis using True 1(1) 2(1) by simp
next
  case False
  have T: "terms_ok ts" and L: "lies_at bs P (enc_terms sk no_term ts)" and cnt: "sti_index_cnt sti = int (index_cnt I ts)"
    using S by (simp_all add: sti_ok_def)
  from scan_suffices_ok [OF A S I es ts, of t] obtain b where
    b: "scan_suffices te (int I) sti es t = Inr b" "b \<Longrightarrow> (\<exists>i. te_at bs P sk ts f te i) \<and> te_curr_term te \<le> t" by auto
  have "\<exists>te1 i. (if b then Inr te else frt_ste_index_seek m te (int I) es (sti_get_index_offset es sti t)) = Inr te1 \<and>
      te_at bs P sk ts f te1 i \<and> te_curr_term te1 \<le> t"
  proof (cases b)
    case True
    with b(2) show ?thesis by auto
  next
    case False
    let ?k = "sti_search (map fst es) t 0 (sti_index_cnt sti - 1)"
    have l: "length es = index_cnt I ts" using list_all2_lengthD [OF es] by (simp add: index_of_def)
    have pos: "0 < index_cnt I ts" using I ts by (rule index_cnt_pos)
    have key: "map fst es ! k = fst ((no_term # ts) ! (k * I))" if "k < index_cnt I ts" for k
      using list_all2_nthD [OF es, of k] that l by (simp add: same_entry_def index_of_def)
    have "0 \<le> ?k \<and> ?k < int (length (map fst es)) \<and> map fst es ! nat ?k \<le> t"
      by (rule sti_search_ok) (use pos cnt l key [OF pos] in simp_all)
    then obtain k where k: "?k = int k" "k < index_cnt I ts" "fst ((no_term # ts) ! (k * I)) \<le> t"
      using l key by (metis length_map nat_int nonneg_int_cases of_nat_less_iff)
    from index_seek_ok [OF A es I k(2)] obtain te1 where
      1: "frt_ste_index_seek m te (int I) es (int k) = Inr te1" "te_at bs P sk ts f te1 (k * I)" by blast
    then show ?thesis using False k by (intro exI [of _ te1] exI [of _ "k * I"]) (simp add: sti_get_index_offset_def te_at_def)
  qed
  then obtain te1 i where 1: "(if b then Inr te else frt_ste_index_seek m te (int I) es (sti_get_index_offset es sti t)) = Inr te1"
    "te_at bs P sk ts f te1 i" "te_curr_term te1 \<le> t" by blast
  from te_skip_to_ok [OF T L 1(2) False 1(3)] show ?thesis unfolding b(1) ebind_simps 1(1) using False by simp
qed

end

section \<open>Looking up terms\<close>

text \<open>The fields of a segment: their numbers, where their terms lie, the terms.\<close>

type_synonym field = "int \<times> nat \<times> entry list"

definition terms_of :: "field list \<Rightarrow> int \<Rightarrow> entry list" where
  "terms_of FS f = (case map_of FS f of None \<Rightarrow> [] | Some (P, ts) \<Rightarrow> ts)"

fun field_pos :: "field list \<Rightarrow> int \<Rightarrow> nat option" where
  "field_pos [] f = None"
| "field_pos (x # xs) f = (if fst x = f then Some 0 else map_option Suc (field_pos xs f))"

lemma field_pos_Some: "field_pos FS f = Some i \<Longrightarrow> i < length FS \<and> map_of FS f = Some (snd (FS ! i)) \<and> fst (FS ! i) = f"
  by (induction FS arbitrary: i) (auto split: if_splits)

lemma field_pos_None: "field_pos FS f = None \<longleftrightarrow> map_of FS f = None"
  by (induction FS) auto

lemma field_pos_snoc:
  "field_pos (FS @ [x]) f = (case field_pos FS f of None \<Rightarrow> if fst x = f then Some (length FS) else None | Some i \<Rightarrow> Some i)"
  by (induction FS) (auto split: option.splits)

text \<open>What a dictionary knows of a term.\<close>

lemma find_term:
  assumes "terms_ok ts"
  shows "map_of ts t = (case List.find (\<lambda>e. t \<le> fst e) ts of None \<Rightarrow> None | Some e \<Rightarrow> if fst e = t then Some (snd e) else None)"
  using assms
proof (induction ts)
  case (Cons e ts)
  have T: "terms_ok ts" and lt: "\<forall>e' \<in> set ts. fst e < fst e'" using Cons.prems by (auto simp: terms_ok_def)
  show ?case
  proof (cases "t \<le> fst e")
    case True
    then have "t \<noteq> fst e \<Longrightarrow> map_of ts t = None" using lt by (force simp: map_of_eq_None_iff)
    then show ?thesis using True by (cases e) auto
  next
    case False
    then show ?thesis using Cons.IH [OF T] by (cases e) auto
  qed
qed simp

definition answers :: "int \<Rightarrow> term_info option \<Rightarrow> term_info option \<Rightarrow> bool" where
  "answers sk r i \<longleftrightarrow> rel_option (same_info sk) r i"

definition field_num_ok :: "int \<Rightarrow> bool" where
  "field_num_ok f \<longleftrightarrow> - 1 \<le> f \<and> f < 2 ^ 31"

context in_source
begin

definition sfi_ok :: "byte list \<Rightarrow> byte list \<Rightarrow> int \<Rightarrow> nat \<Rightarrow> field list \<Rightarrow> 'f seg_field_index \<Rightarrow> bool" where
  "sfi_ok bs bsx sk I FS sfi \<longleftrightarrow> sfi_skip_interval sfi = sk \<and> sfi_index_interval sfi = int I \<and> 0 < I \<and> index_te_ok bsx sk (sfi_index_te sfi) \<and>
     int_table (sfi_field_dict sfi) \<and>
     (\<forall>f. field_num_ok f \<longrightarrow> Option.bind (int_map (sfi_field_dict sfi) (word_of_int f)) id = field_pos FS f) \<and>
     list_all2 (\<lambda>sti x. sti_ok bs bsx sk I (fst (snd x)) (snd (snd x)) sti) (sfi_stis sfi) FS"

definition stream_ok :: "byte list \<Rightarrow> int \<Rightarrow> 'f term_enum \<Rightarrow> bool" where
  "stream_ok bs sk te \<longleftrightarrow> te_skip_interval te = sk \<and> (\<exists>p. is_ok (te_is te) bs p)"

definition enum_ok :: "byte list \<Rightarrow> int \<Rightarrow> field list \<Rightarrow> 'f term_enum \<Rightarrow> bool" where
  "enum_ok bs sk FS te \<longleftrightarrow> stream_ok bs sk te \<and> field_num_ok (te_field_num te) \<and>
     (case map_of FS (te_field_num te) of None \<Rightarrow> te_size te = 0 | Some (P, ts) \<Rightarrow> te_on bs P sk ts (te_field_num te) te)"

lemma te_on_stream: "te_on bs P sk ts f te \<Longrightarrow> stream_ok bs sk te \<and> te_field_num te = f"
  by (auto simp: te_on_def te_at_def te_done_def stream_ok_def)

lemma sfi_get_ok:
  assumes "sfi_ok bs bsx sk I FS sfi" and "field_num_ok f"
  shows "\<exists>sfi'. sfi_get sfi f = Inr (field_pos FS f, sfi') \<and> sfi_ok bs bsx sk I FS sfi'"
proof -
  have "int_table (sfi_field_dict sfi)" using assms(1) by (simp add: sfi_ok_def)
  from int_get_ok [OF this, of "word_of_int f"] obtain dict where
    "frt_h_get (sfi_field_dict sfi) (PInt (word_of_int f)) = Inr (Option.bind (int_map (sfi_field_dict sfi) (word_of_int f)) id, dict)"
    "int_table dict" "int_map dict = int_map (sfi_field_dict sfi)" by blast
  with assms show ?thesis by (auto simp: sfi_get_def frt_h_get_int_def sfi_ok_def)
qed

lemma sfi_sti: "sfi_ok bs bsx sk I FS sfi \<Longrightarrow> i < length FS \<Longrightarrow>
    i < length (sfi_stis sfi) \<and> sti_ok bs bsx sk I (fst (snd (FS ! i))) (snd (snd (FS ! i))) (sfi_stis sfi ! i)"
  by (auto simp: sfi_ok_def list_all2_conv_all_nth)

lemma ste_set_field_ok:
  assumes S: "sfi_ok bs bsx sk I FS sfi" and te: "stream_ok bs sk te" and f: "field_num_ok f"
  shows "\<exists>te' sfi'. ste_set_field m te sfi f = Inr (te', sfi') \<and> enum_ok bs sk FS te' \<and> te_field_num te' = f \<and> sfi_ok bs bsx sk I FS sfi'"
proof -
  from sfi_get_ok [OF S f] obtain sfi1 where 1: "sfi_get sfi f = Inr (field_pos FS f, sfi1)" "sfi_ok bs bsx sk I FS sfi1" by blast
  show ?thesis
  proof (cases "field_pos FS f")
    case None
    with 1 te f show ?thesis
      by (auto simp: ste_set_field_def ste_reset_def enum_ok_def stream_ok_def field_pos_None [THEN iffD1])
  next
    case (Some i)
    obtain P ts where x: "FS ! i = (f, P, ts)" and i: "i < length FS" "map_of FS f = Some (P, ts)"
      using field_pos_Some [OF Some] by (cases "FS ! i") auto
    have sti: "sti_ok bs bsx sk I P ts (sfi_stis sfi1 ! i)" using sfi_sti [OF 1(2) i(1)] by (simp add: x)
    from te obtain p where p: "is_ok (te_is te) bs p" by (auto simp: stream_ok_def)
    from frt_is_seek_ok [OF p, of P] obtain is1 where 2: "frt_is_seek m (te_is te) (int P) = Inr is1" "is_ok is1 bs P" by blast
    let ?te = "(ste_reset te)\<lparr>te_field_num := f, te_size := int (length ts), te_is := is1\<rparr>"
    have "te_at bs P sk ts f ?te 0" using 2(2) te by (simp add: te_at_def ste_reset_def stream_ok_def same_info_def term_at_def)
    then have "enum_ok bs sk FS ?te" using i(2) f te 2(2) by (auto simp: enum_ok_def te_on_def stream_ok_def ste_reset_def)
    moreover have "ste_set_field m te sfi f = Inr (?te, sfi1)"
      using 1(1) Some sti 2(1) by (simp add: ste_set_field_def ste_reset_def sti_ok_def)
    ultimately show ?thesis using 1(2) by auto
  qed
qed

lemma sfi_ensure_ok:
  assumes S: "sfi_ok bs bsx sk I FS sfi" and i: "i < length FS"
  shows "\<exists>es sfi'. sfi_ensure m sfi i = Inr (es, sfi') \<and> sfi_ok bs bsx sk I FS sfi' \<and>
    list_all2 (same_entry sk) es (index_of I sk (fst (snd (FS ! i))) (snd (snd (FS ! i))))"
proof -
  have "0 < I" "index_te_ok bsx sk (sfi_index_te sfi)" using S by (simp_all add: sfi_ok_def)
  from sti_ensure_ok [OF conjunct2 [OF sfi_sti [OF S i]] this] obtain es sti te where
    1: "sti_ensure_index_is_read m (sfi_stis sfi ! i) (sfi_index_te sfi) = Inr (sti, te)" "sti_index sti = Some es"
      "list_all2 (same_entry sk) es (index_of I sk (fst (snd (FS ! i))) (snd (snd (FS ! i))))"
      "sti_ok bs bsx sk I (fst (snd (FS ! i))) (snd (snd (FS ! i))) sti" "index_te_ok bsx sk te" by blast
  have "list_all2 (\<lambda>sti x. sti_ok bs bsx sk I (fst (snd x)) (snd (snd x)) sti) ((sfi_stis sfi)[i := sti]) (FS[i := FS ! i])"
    using S 1(4) by (intro list_all2_update_cong) (auto simp: sfi_ok_def)
  then have "sfi_ok bs bsx sk I FS (sfi\<lparr>sfi_stis := (sfi_stis sfi)[i := sti], sfi_index_te := te\<rparr>)"
    using S 1(5) by (simp add: sfi_ok_def)
  then show ?thesis using 1(1-3) by (simp add: sfi_ensure_def)
qed

lemma found_answers:
  assumes "terms_ok ts" and "term_found bs P sk ts f t r te"
  shows "answers sk (case r of Some u \<Rightarrow> if strcmp u t = 0 then Some (te_curr_ti te) else None | None \<Rightarrow> None) (map_of ts t)"
  using assms by (auto simp: term_found_def find_term answers_def te_at_def split: option.splits)

lemma ste_scan_to_ok:
  assumes S: "sfi_ok bs bsx sk I FS sfi" and te: "enum_ok bs sk FS te"
  shows "\<exists>r te' sfi'. ste_scan_to m te sfi t = Inr (r, te', sfi') \<and> enum_ok bs sk FS te' \<and> te_field_num te' = te_field_num te \<and>
    sfi_ok bs bsx sk I FS sfi' \<and>
    answers sk (case r of Some u \<Rightarrow> if strcmp u t = 0 then Some (te_curr_ti te') else None | None \<Rightarrow> None)
      (map_of (terms_of FS (te_field_num te)) t)"
proof -
  let ?f = "te_field_num te"
  have f: "field_num_ok ?f" using te by (simp add: enum_ok_def)
  from sfi_get_ok [OF S f] obtain sfi1 where 1: "sfi_get sfi ?f = Inr (field_pos FS ?f, sfi1)" "sfi_ok bs bsx sk I FS sfi1" by blast
  show ?thesis
  proof (cases "field_pos FS ?f")
    case None
    then have "terms_of FS ?f = []" by (simp add: field_pos_None terms_of_def)
    then show ?thesis using None 1 te by (simp add: ste_scan_to_def answers_def)
  next
    case (Some i)
    obtain P ts where x: "FS ! i = (?f, P, ts)" and i: "i < length FS" "map_of FS ?f = Some (P, ts)"
      using field_pos_Some [OF Some] by (cases "FS ! i") auto
    have tso: "terms_of FS ?f = ts" by (simp add: terms_of_def i(2))
    have sti: "sti_ok bs bsx sk I P ts (sfi_stis sfi1 ! i)" using sfi_sti [OF 1(2) i(1)] by (simp add: x)
    then have size: "sti_size (sfi_stis sfi1 ! i) = int (length ts)" by (simp add: sti_ok_def)
    show ?thesis
    proof (cases "ts = []")
      case True
      then show ?thesis using Some 1 te size tso by (simp add: ste_scan_to_def answers_def)
    next
      case False
      from sfi_ensure_ok [OF 1(2) i(1)] obtain es sfi2 where
        2: "sfi_ensure m sfi1 i = Inr (es, sfi2)" "sfi_ok bs bsx sk I FS sfi2" "list_all2 (same_entry sk) es (index_of I sk P ts)"
        by (auto simp: x)
      have sti2: "sti_ok bs bsx sk I P ts (sfi_stis sfi2 ! i)" using sfi_sti [OF 2(2) i(1)] by (simp add: x)
      have I: "0 < I" "sfi_index_interval sfi2 = int I" using 2(2) by (simp_all add: sfi_ok_def)
      have on: "te_on bs P sk ts ?f te" using te i(2) by (simp add: enum_ok_def)
      from ste_scan_ok [OF on sti2 I(1) 2(3) False, of t] obtain r te' where
        3: "(if t = [] then ebind (frt_ste_index_seek m te (int I) es 0) (ste_next m)
          else ebind (scan_suffices te (int I) (sfi_stis sfi2 ! i) es t) (\<lambda>b.
               ebind (if b then Inr te else frt_ste_index_seek m te (int I) es (sti_get_index_offset es (sfi_stis sfi2 ! i) t)) (\<lambda>te. te_skip_to m te t))) =
          Inr (r, te')" "term_found bs P sk ts ?f t r te'" by blast
      have "ste_scan_to m te sfi t = Inr (r, te', sfi2)"
      proof -
        have "ste_scan_to m te sfi t = ebind (Inr (r, te')) (\<lambda>(u, te). Inr (u, te, sfi2))"
          unfolding 3(1) [symmetric]
          using 1(1) 2(1) I(2) Some size False by (simp add: ste_scan_to_def ebind_assoc cong: if_cong)
        then show ?thesis by simp
      qed
      moreover have "enum_ok bs sk FS te'" "te_field_num te' = ?f"
        using te_on_stream [OF found_on [OF 3(2)]] found_on [OF 3(2)] i(2) f by (simp_all add: enum_ok_def)
      moreover have "terms_ok ts" using sti2 by (simp add: sti_ok_def)
      ultimately show ?thesis using found_answers [OF _ 3(2)] 2(2) tso by simp
    qed
  qed
qed

end

text \<open>The lookups of several threads on one reader.\<close>

fun tir_lookups ::
  "'f is_methods \<Rightarrow> 'f term_infos_reader \<Rightarrow> 'f seg_field_index \<Rightarrow> (nat \<times> int \<times> byte list) list \<Rightarrow> term_info option list res" where
  "tir_lookups m tir sfi [] = Inr []"
| "tir_lookups m tir sfi ((thread, f, t) # qs) =
     ebind (tir_get_ti_field m tir sfi thread f t) (\<lambda>(r, tir, sfi).
     ebind (tir_lookups m tir sfi qs) (\<lambda>rs. Inr (r # rs)))"

text \<open>
  The field in which a lookup really searches: the one asked for when the reader was on another one, else the one on which
  the enumeration of the thread stands.
\<close>

definition searched :: "(nat \<Rightarrow> int) \<Rightarrow> int \<Rightarrow> nat \<Rightarrow> int \<Rightarrow> int" where
  "searched on cur thread f = (if f \<noteq> cur then f else on thread)"

definition thread_on :: "'f term_infos_reader \<Rightarrow> nat \<Rightarrow> int" where
  "thread_on tir thread = (case tir_te tir thread of None \<Rightarrow> tir_field_num tir | Some te \<Rightarrow> te_field_num te)"

context in_source
begin

definition tir_ok :: "byte list \<Rightarrow> byte list \<Rightarrow> int \<Rightarrow> nat \<Rightarrow> field list \<Rightarrow> 'f term_infos_reader \<Rightarrow> 'f seg_field_index \<Rightarrow> bool" where
  "tir_ok bs bsx sk I FS tir sfi \<longleftrightarrow> sfi_ok bs bsx sk I FS sfi \<and> stream_ok bs sk (tir_orig_te tir) \<and> field_num_ok (tir_field_num tir) \<and>
     (\<forall>thread te. tir_te tir thread = Some te \<longrightarrow> enum_ok bs sk FS te)"

lemma tir_enum_ok:
  assumes "tir_ok bs bsx sk I FS tir sfi"
  shows "\<exists>te tir' sfi'. tir_enum m tir sfi thread = Inr (te, tir', sfi') \<and> tir_ok bs bsx sk I FS tir' sfi' \<and> enum_ok bs sk FS te \<and>
    te_field_num te = thread_on tir thread \<and> tir_field_num tir' = tir_field_num tir \<and> tir_te tir' = (tir_te tir)(thread \<mapsto> te)"
proof (cases "tir_te tir thread")
  case (Some te)
  then show ?thesis using assms by (auto simp: tir_enum_def tir_ok_def thread_on_def)
next
  case None
  have "sfi_ok bs bsx sk I FS sfi" "stream_ok bs sk (frt_ste_clone (tir_orig_te tir))" "field_num_ok (tir_field_num tir)"
    using assms by (simp_all add: tir_ok_def frt_ste_clone_def)
  from ste_set_field_ok [OF this] obtain te sfi' where
    "ste_set_field m (frt_ste_clone (tir_orig_te tir)) sfi (tir_field_num tir) = Inr (te, sfi')" "enum_ok bs sk FS te"
    "te_field_num te = tir_field_num tir" "sfi_ok bs bsx sk I FS sfi'" by blast
  then show ?thesis using assms None by (auto simp: tir_enum_def tir_ok_def thread_on_def)
qed

lemma enum_stream: "enum_ok bs sk FS te \<Longrightarrow> stream_ok bs sk te"
  by (simp add: enum_ok_def)

lemma tir_found_ok:
  assumes "sfi_ok bs bsx sk I FS sfi" and "tir_ok bs bsx sk I FS tir sfi0" and "enum_ok bs sk FS te"
  shows "\<exists>r tir' sfi'. tir_found m te tir sfi thread t = Inr (r, tir', sfi') \<and> tir_ok bs bsx sk I FS tir' sfi' \<and>
    answers sk r (map_of (terms_of FS (te_field_num te)) t) \<and> tir_field_num tir' = tir_field_num tir \<and>
    (\<exists>te'. te_field_num te' = te_field_num te \<and> tir_te tir' = (tir_te tir)(thread \<mapsto> te'))"
proof -
  from ste_scan_to_ok [OF assms(1,3), of t] obtain r te' sfi' where
    "ste_scan_to m te sfi t = Inr (r, te', sfi')" "enum_ok bs sk FS te'" "te_field_num te' = te_field_num te" "sfi_ok bs bsx sk I FS sfi'"
    "answers sk (case r of Some u \<Rightarrow> if strcmp u t = 0 then Some (te_curr_ti te') else None | None \<Rightarrow> None)
      (map_of (terms_of FS (te_field_num te)) t)" by blast
  then show ?thesis using assms(2) by (auto simp: tir_found_def tir_ok_def)
qed

theorem tir_get_ti_field_ok:
  assumes T: "tir_ok bs bsx sk I FS tir sfi" and f: "field_num_ok f"
  shows "\<exists>r tir' sfi'. tir_get_ti_field m tir sfi thread f t = Inr (r, tir', sfi') \<and> tir_ok bs bsx sk I FS tir' sfi' \<and>
    answers sk r (map_of (terms_of FS (searched (thread_on tir) (tir_field_num tir) thread f)) t) \<and> tir_field_num tir' = f \<and>
    tir_te tir' thread \<noteq> None \<and> thread_on tir' thread = searched (thread_on tir) (tir_field_num tir) thread f \<and>
    (\<forall>u. u \<noteq> thread \<longrightarrow> tir_te tir' u = tir_te tir u)"
proof -
  from tir_enum_ok [OF T, of thread] obtain te tir1 sfi1 where
    1: "tir_enum m tir sfi thread = Inr (te, tir1, sfi1)" "tir_ok bs bsx sk I FS tir1 sfi1" "enum_ok bs sk FS te"
      "te_field_num te = thread_on tir thread" "tir_field_num tir1 = tir_field_num tir" "tir_te tir1 = (tir_te tir)(thread \<mapsto> te)" by blast
  let ?g = "searched (thread_on tir) (tir_field_num tir) thread f"
  have "\<exists>te2 tir2 sfi2. (if f \<noteq> tir_field_num tir1 then
              ebind (ste_set_field m te sfi1 f) (\<lambda>(te, sfi). Inr (te, tir1\<lparr>tir_field_num := f\<rparr>, sfi))
            else Inr (te, tir1, sfi1)) = Inr (te2, tir2, sfi2) \<and> tir_ok bs bsx sk I FS tir2 sfi2 \<and> enum_ok bs sk FS te2 \<and>
      te_field_num te2 = ?g \<and> tir_field_num tir2 = f \<and> tir_te tir2 = tir_te tir1"
  proof (cases "f = tir_field_num tir")
    case True
    then show ?thesis using 1 by (simp add: searched_def)
  next
    case False
    have "sfi_ok bs bsx sk I FS sfi1" using 1(2) by (simp add: tir_ok_def)
    from ste_set_field_ok [OF this enum_stream [OF 1(3)] f] obtain te2 sfi2 where
      "ste_set_field m te sfi1 f = Inr (te2, sfi2)" "enum_ok bs sk FS te2" "te_field_num te2 = f" "sfi_ok bs bsx sk I FS sfi2" by blast
    then show ?thesis using False 1(2,5) f by (simp add: searched_def tir_ok_def)
  qed
  then obtain te2 tir2 sfi2 where
    2: "(if f \<noteq> tir_field_num tir1 then
              ebind (ste_set_field m te sfi1 f) (\<lambda>(te, sfi). Inr (te, tir1\<lparr>tir_field_num := f\<rparr>, sfi))
            else Inr (te, tir1, sfi1)) = Inr (te2, tir2, sfi2)" "tir_ok bs bsx sk I FS tir2 sfi2" "enum_ok bs sk FS te2"
      "te_field_num te2 = ?g" "tir_field_num tir2 = f" "tir_te tir2 = tir_te tir1" by blast
  have "sfi_ok bs bsx sk I FS sfi2" using 2(2) by (simp add: tir_ok_def)
  from tir_found_ok [OF this 2(2,3), of thread t] obtain r tir3 sfi3 te3 where
    3: "tir_found m te2 tir2 sfi2 thread t = Inr (r, tir3, sfi3)" "tir_ok bs bsx sk I FS tir3 sfi3" "answers sk r (map_of (terms_of FS ?g) t)"
      "tir_field_num tir3 = f" "te_field_num te3 = ?g" "tir_te tir3 = (tir_te tir1)(thread \<mapsto> te3)"
    unfolding 2(4-6) by blast
  have "tir_get_ti_field m tir sfi thread f t = Inr (r, tir3, sfi3)"
    unfolding tir_get_ti_field_def 1(1) ebind_simps prod.case 2(1) 3(1) ..
  then show ?thesis using 3 1(6) by (auto simp: thread_on_def)
qed

text \<open>A thread that has the reader for itself.\<close>

theorem tir_lookups_ok:
  assumes "tir_ok bs bsx sk I FS tir sfi" and "thread_on tir thread = tir_field_num tir" and "\<forall>q \<in> set qs. field_num_ok (fst q)"
  shows "\<exists>rs. tir_lookups m tir sfi (map (Pair thread) qs) = Inr rs \<and>
    list_all2 (\<lambda>r q. answers sk r (map_of (terms_of FS (fst q)) (snd q))) rs qs"
  using assms
proof (induction qs arbitrary: tir sfi)
  case (Cons q qs)
  obtain f t where q: "q = (f, t)" by (cases q)
  have g: "searched (thread_on tir) (tir_field_num tir) thread f = f" using Cons.prems(2) by (simp add: searched_def)
  have "field_num_ok f" using Cons.prems(3) by (simp add: q)
  from tir_get_ti_field_ok [OF Cons.prems(1) this, of thread t] obtain r tir' sfi' where
    1: "tir_get_ti_field m tir sfi thread f t = Inr (r, tir', sfi')" "tir_ok bs bsx sk I FS tir' sfi'"
      "answers sk r (map_of (terms_of FS f) t)" "tir_field_num tir' = f" "thread_on tir' thread = f" unfolding g by blast
  from Cons.IH [OF 1(2)] 1(4,5) Cons.prems(3) obtain rs where
    "tir_lookups m tir' sfi' (map (Pair thread) qs) = Inr rs" "list_all2 (\<lambda>r q. answers sk r (map_of (terms_of FS (fst q)) (snd q))) rs qs"
    by auto
  then show ?case using 1(1,3) by (simp add: q)
qed simp

text \<open>Terms by position.\<close>

lemma ste_next_until_ok:
  assumes T: "terms_ok ts" and L: "lies_at bs P (enc_terms sk no_term ts)"
  shows "te_at bs P sk ts f te i \<Longrightarrow> i + n \<le> length ts \<Longrightarrow>
    \<exists>te'. ste_next_until m n te = Inr (Some (te_curr_term te'), te') \<and> te_at bs P sk ts f te' (i + n)"
proof (induction n arbitrary: te i)
  case (Suc n)
  from Suc.prems(2) have "i < length ts" by simp
  from ste_next_more [OF T L Suc.prems(1) this] obtain te1 where
    1: "ste_next m te = Inr (Some (fst (ts ! i)), te1)" "te_at bs P sk ts f te1 (Suc i)" by blast
  from Suc.IH [OF 1(2)] Suc.prems(2) 1(1) show ?case by simp
qed simp

text \<open>Where \<open>frt_ste_get_term\<close> begins to read: where the enumeration stands, or at the last entry of the index before \<open>pos\<close>.\<close>

definition ste_get_term_from :: "'f term_enum \<Rightarrow> 'f seg_field_index \<Rightarrow> int \<Rightarrow> bool \<Rightarrow> ('f term_enum \<times> 'f seg_field_index) res" where
  "ste_get_term_from te sfi pos b =
     (if b then
        if sfi_index_interval sfi = 0 then Inl UndefinedBehaviour
        else ebind (sfi_get sfi (te_field_num te)) (\<lambda>(i, sfi1). case i of
               None \<Rightarrow> Inl UndefinedBehaviour
             | Some i \<Rightarrow> ebind (sfi_ensure m sfi1 i) (\<lambda>(es, sfi1).
                 ebind (frt_ste_index_seek m te (sfi_index_interval sfi) es (pos sdiv sfi_index_interval sfi)) (\<lambda>te. Inr (te, sfi1))))
      else Inr (te, sfi))"

lemma ste_get_term_from_ok:
  assumes S: "sfi_ok bs bsx sk I FS sfi" and on: "te_on bs P sk ts (te_field_num te) te" and f: "field_num_ok (te_field_num te)"
    and FS: "map_of FS (te_field_num te) = Some (P, ts)" and pos: "0 \<le> pos" "pos < int (length ts)"
    and b: "\<not> b \<Longrightarrow> te_pos te \<le> pos"
  shows "\<exists>te1 sfi1 j. ste_get_term_from te sfi pos b = Inr (te1, sfi1) \<and> sfi_ok bs bsx sk I FS sfi1 \<and>
    te_at bs P sk ts (te_field_num te) te1 j \<and> int j \<le> pos + 1"
proof (cases b)
  case False
  then obtain j where "te_at bs P sk ts (te_field_num te) te j" using on pos b by (auto simp: te_on_def te_done_def)
  then show ?thesis using False S b by (auto simp: ste_get_term_from_def te_at_def)
next
  case True
  have I: "0 < I" "sfi_index_interval sfi = int I" using S by (simp_all add: sfi_ok_def)
  obtain i where i: "field_pos FS (te_field_num te) = Some i" using FS field_pos_None [of FS "te_field_num te"] by auto
  have fi: "i < length FS" "snd (FS ! i) = (P, ts)" using field_pos_Some [OF i] FS by simp_all
  from sfi_get_ok [OF S f] i obtain sfi1 where 1: "sfi_get sfi (te_field_num te) = Inr (Some i, sfi1)" "sfi_ok bs bsx sk I FS sfi1" by auto
  from sfi_ensure_ok [OF 1(2) fi(1)] obtain es sfi2 where
    2: "sfi_ensure m sfi1 i = Inr (es, sfi2)" "sfi_ok bs bsx sk I FS sfi2" "list_all2 (same_entry sk) es (index_of I sk P ts)"
    by (auto simp: fi(2))
  obtain q where q: "pos = int q" using pos(1) by (metis nonneg_int_cases)
  have le: "q div I * I \<le> q" by simp
  then have "q div I < index_cnt I ts" using pos(2) le_less_trans [OF le] index_cnt_less [OF I(1), of "q div I" ts] by (simp add: q)
  from index_seek_ok [OF on 2(3) I(1) this] obtain te1 where
    3: "frt_ste_index_seek m te (int I) es (int (q div I)) = Inr te1" "te_at bs P sk ts (te_field_num te) te1 (q div I * I)" by blast
  have "int (q div I * I) \<le> pos + 1" using le unfolding q by linarith
  then show ?thesis using True 1(1) 2(1,2) 3 I
    by (intro exI [of _ te1] exI [of _ sfi2] exI [of _ "q div I * I"]) (simp add: q sdiv_pos ste_get_term_from_def)
qed

theorem ste_get_term_ok:
  assumes S: "sfi_ok bs bsx sk I FS sfi" and te: "enum_ok bs sk FS te" and pos: "0 \<le> pos"
  shows "\<exists>te' sfi'. frt_ste_get_term m te sfi pos =
      Inr (if pos < int (length (terms_of FS (te_field_num te))) then Some (fst (terms_of FS (te_field_num te) ! nat pos)) else None, te', sfi') \<and>
    enum_ok bs sk FS te' \<and> te_field_num te' = te_field_num te \<and> sfi_ok bs bsx sk I FS sfi'"
proof (cases "map_of FS (te_field_num te)")
  case None
  then show ?thesis using te S pos by (simp add: frt_ste_get_term_def enum_ok_def terms_of_def)
next
  case (Some x)
  let ?f = "te_field_num te"
  obtain P ts where x: "x = (P, ts)" by (cases x)
  have f: "field_num_ok ?f" and on: "te_on bs P sk ts ?f te" using te Some by (simp_all add: enum_ok_def x)
  have tso: "terms_of FS ?f = ts" and FS: "map_of FS ?f = Some (P, ts)" using Some by (simp_all add: terms_of_def x)
  have size: "te_size te = int (length ts)" using on by (auto simp: te_on_def te_at_def te_done_def)
  consider (outside) "int (length ts) \<le> pos" | (here) "pos < int (length ts)" "pos = te_pos te" | (search) "pos < int (length ts)" "pos \<noteq> te_pos te"
    by linarith
  then show ?thesis
  proof cases
    case outside
    then show ?thesis using S te size tso by (simp add: frt_ste_get_term_def)
  next
    case here
    then obtain k where "te_at bs P sk ts ?f te k" using on by (auto simp: te_on_def te_done_def)
    then have "te_curr_term te = fst (ts ! nat pos)" using here pos by (cases k) (auto simp: te_at_def)
    then show ?thesis using here S te size tso by (simp add: frt_ste_get_term_def)
  next
    case search
    let ?b = "pos < te_pos te \<or> pos > (1 + te_pos te sdiv int I) * int I"
    have "0 < I" "sfi_index_interval sfi = int I" using S by (simp_all add: sfi_ok_def)
    then have b: "(if pos < te_pos te then Inr True else if sfi_index_interval sfi = 0 then Inl UndefinedBehaviour
        else Inr (pos > (1 + te_pos te sdiv sfi_index_interval sfi) * sfi_index_interval sfi)) = Inr ?b" by simp
    from ste_get_term_from_ok [OF S on f FS pos search(1), of ?b] obtain te1 sfi1 j where
      1: "ste_get_term_from te sfi pos ?b = Inr (te1, sfi1)" "sfi_ok bs bsx sk I FS sfi1" "te_at bs P sk ts ?f te1 j" "int j \<le> pos + 1" by auto
    obtain i where "field_pos FS ?f = Some i" using FS field_pos_None [of FS ?f] by auto
    from field_pos_Some [OF this] FS have "i < length FS" "snd (FS ! i) = (P, ts)" by simp_all
    then have T: "terms_ok ts" and L: "lies_at bs P (enc_terms sk no_term ts)" using sfi_sti [OF S, of i] by (simp_all add: sti_ok_def)
    define n where "n = nat (pos - te_pos te1)"
    have "int (j + n) = pos + 1" using 1(3,4) by (simp add: n_def te_at_def)
    then have le: "j + n \<le> length ts" and jn: "j + n = Suc (nat pos)" using search(1) pos by linarith+
    from ste_next_until_ok [OF T L 1(3) le] obtain te2 where
      2: "ste_next_until m n te1 = Inr (Some (te_curr_term te2), te2)" "te_at bs P sk ts ?f te2 (Suc (nat pos))" unfolding jn by blast
    have "frt_ste_get_term m te sfi pos = Inr (Some (te_curr_term te2), te2, sfi1)"
      unfolding frt_ste_get_term_def Let_def b ebind_simps 1(1) [unfolded ste_get_term_from_def] using search size 2(1) by (simp add: n_def)
    moreover have "te_curr_term te2 = fst (ts ! nat pos)" using 2(2) by (simp add: te_at_def)
    moreover have on2: "te_on bs P sk ts ?f te2" using 2(2) by (auto simp: te_on_def)
    moreover have "enum_ok bs sk FS te2" using te_on_stream [OF on2] on2 f FS by (simp add: enum_ok_def)
    ultimately show ?thesis using te_on_stream [OF on2] 1(2) search(1) tso by simp
  qed
qed

end

end
