(* ===== verification/FrtTermDictFile.thy ===== *)
theory FrtTermDictFile
  imports FrtTermDictLaws
begin

text \<open>
  The files of a term dictionary.

  \<^item> \<open>writing_all store w D xs\<close>: the files \<open>xs\<close> are open for writing side by side, beside the directory \<open>D\<close>. Opening, writing
    and closing one of them keeps the others.
  \<^item> \<open>placed\<close>: where the terms and the index of each field lie; \<open>tfx_bytes\<close>, \<open>tix_bytes\<close>, \<open>tis_bytes\<close> are the three files.
    The writer writes them and \<open>frt_sfi_open\<close> and \<open>frt_tir_open\<close> read them.
  \<^item> \<open>tir_terms\<close> are the terms of fields by position; \<open>tir_lookup_other_thread\<close> is about two threads on one reader.
\<close>

section \<open>Terms by position through the reader\<close>

text \<open>A field is chosen, then the term at a position asked for.\<close>

fun tir_terms ::
  "'f is_methods \<Rightarrow> 'f term_infos_reader \<Rightarrow> 'f seg_field_index \<Rightarrow> nat \<Rightarrow> (int \<times> int) list \<Rightarrow> byte list option list res" where
  "tir_terms m tir sfi thread [] = Inr []"
| "tir_terms m tir sfi thread ((f, pos) # qs) =
     ebind (frt_tir_set_field m tir sfi thread f) (\<lambda>(tir, sfi).
     ebind (frt_tir_get_term m tir sfi thread pos) (\<lambda>(r, tir, sfi).
     ebind (tir_terms m tir sfi thread qs) (\<lambda>rs. Inr (r # rs))))"

definition term_no :: "entry list \<Rightarrow> int \<Rightarrow> byte list option" where
  "term_no ts pos = (if 0 \<le> pos \<and> pos < int (length ts) then Some (fst (ts ! nat pos)) else None)"

context in_source
begin

lemma tir_set_field_ok:
  assumes T: "tir_ok bs bsx sk I FS tir sfi" and f: "field_num_ok f" and on: "thread_on tir thread = tir_field_num tir"
  shows "\<exists>tir' sfi'. frt_tir_set_field m tir sfi thread f = Inr (tir', sfi') \<and> tir_ok bs bsx sk I FS tir' sfi' \<and>
    thread_on tir' thread = f \<and> tir_field_num tir' = f"
proof (cases "f = tir_field_num tir")
  case True
  then show ?thesis using T on by (simp add: frt_tir_set_field_def)
next
  case False
  from tir_enum_ok [OF T, of thread] obtain te tir1 sfi1 where
    1: "tir_enum m tir sfi thread = Inr (te, tir1, sfi1)" "tir_ok bs bsx sk I FS tir1 sfi1" "enum_ok bs sk FS te" by blast
  have "sfi_ok bs bsx sk I FS sfi1" using 1(2) by (simp add: tir_ok_def)
  from ste_set_field_ok [OF this enum_stream [OF 1(3)] f] obtain te2 sfi2 where
    2: "ste_set_field m te sfi1 f = Inr (te2, sfi2)" "enum_ok bs sk FS te2" "te_field_num te2 = f" "sfi_ok bs bsx sk I FS sfi2" by blast
  have "frt_tir_set_field m tir sfi thread f = Inr (tir1\<lparr>tir_te := (tir_te tir1)(thread \<mapsto> te2), tir_field_num := f\<rparr>, sfi2)"
    using False by (simp add: frt_tir_set_field_def 1(1) 2(1))
  then show ?thesis using 1(2) 2(2-4) f by (simp add: tir_ok_def thread_on_def)
qed

lemma tir_get_term_ok:
  assumes T: "tir_ok bs bsx sk I FS tir sfi"
  shows "\<exists>tir' sfi'. frt_tir_get_term m tir sfi thread pos = Inr (term_no (terms_of FS (thread_on tir thread)) pos, tir', sfi') \<and>
    tir_ok bs bsx sk I FS tir' sfi' \<and> thread_on tir' thread = thread_on tir thread \<and> tir_field_num tir' = tir_field_num tir"
proof (cases "pos < 0")
  case True
  then show ?thesis using T by (simp add: frt_tir_get_term_def term_no_def)
next
  case False
  from tir_enum_ok [OF T, of thread] obtain te tir1 sfi1 where
    1: "tir_enum m tir sfi thread = Inr (te, tir1, sfi1)" "tir_ok bs bsx sk I FS tir1 sfi1" "enum_ok bs sk FS te"
      "te_field_num te = thread_on tir thread" "tir_field_num tir1 = tir_field_num tir" by blast
  have "sfi_ok bs bsx sk I FS sfi1" "0 \<le> pos" using 1(2) False by (simp_all add: tir_ok_def)
  from ste_get_term_ok [OF this(1) 1(3) this(2)] obtain te2 sfi2 where
    2: "frt_ste_get_term m te sfi1 pos = Inr (term_no (terms_of FS (thread_on tir thread)) pos, te2, sfi2)" "enum_ok bs sk FS te2"
      "te_field_num te2 = thread_on tir thread" "sfi_ok bs bsx sk I FS sfi2"
    using False unfolding 1(4) term_no_def by auto
  have "frt_tir_get_term m tir sfi thread pos =
      Inr (term_no (terms_of FS (thread_on tir thread)) pos, tir1\<lparr>tir_te := (tir_te tir1)(thread \<mapsto> te2)\<rparr>, sfi2)"
    using False by (simp add: frt_tir_get_term_def 1(1) 2(1))
  then show ?thesis using 1(2,5) 2(2-4) by (simp add: tir_ok_def thread_on_def)
qed

theorem tir_terms_ok:
  assumes "tir_ok bs bsx sk I FS tir sfi" and "thread_on tir thread = tir_field_num tir" and "\<forall>q \<in> set qs. field_num_ok (fst q)"
  shows "tir_terms m tir sfi thread qs = Inr (map (\<lambda>q. term_no (terms_of FS (fst q)) (snd q)) qs)"
  using assms
proof (induction qs arbitrary: tir sfi)
  case (Cons q qs)
  obtain f pos where q: "q = (f, pos)" by (cases q)
  have "field_num_ok f" using Cons.prems(3) by (simp add: q)
  from tir_set_field_ok [OF Cons.prems(1) this Cons.prems(2)] obtain tir1 sfi1 where
    1: "frt_tir_set_field m tir sfi thread f = Inr (tir1, sfi1)" "tir_ok bs bsx sk I FS tir1 sfi1" "thread_on tir1 thread = f" "tir_field_num tir1 = f"
    by blast
  from tir_get_term_ok [OF 1(2), of thread pos] obtain tir2 sfi2 where
    2: "frt_tir_get_term m tir1 sfi1 thread pos = Inr (term_no (terms_of FS f) pos, tir2, sfi2)" "tir_ok bs bsx sk I FS tir2 sfi2"
      "thread_on tir2 thread = f" "tir_field_num tir2 = f" unfolding 1(3,4) by blast
  have "tir_terms m tir2 sfi2 thread qs = Inr (map (\<lambda>q. term_no (terms_of FS (fst q)) (snd q)) qs)"
    by (rule Cons.IH [OF 2(2)]) (use 2(3,4) Cons.prems(3) in simp_all)
  then show ?case using 1(1) 2(1) by (simp add: q)
qed simp

text \<open>Two threads: when another thread has moved the reader to the field \<open>g\<close>, the first one looks there but searches the field it was on.\<close>

theorem tir_lookup_other_thread:
  assumes T: "tir_ok bs bsx sk I FS tir sfi" and f: "field_num_ok f" "field_num_ok g" "f \<noteq> tir_field_num tir" "f \<noteq> g" and ab: "a \<noteq> b"
  shows "\<exists>r1 r2 r3. tir_lookups m tir sfi [(a, f, t1), (b, g, t2), (a, g, t3)] = Inr [r1, r2, r3] \<and>
    answers sk r1 (map_of (terms_of FS f) t1) \<and> answers sk r2 (map_of (terms_of FS g) t2) \<and> answers sk r3 (map_of (terms_of FS f) t3)"
proof -
  have s1: "searched (thread_on tir) (tir_field_num tir) a f = f" using f(3) by (simp add: searched_def)
  from tir_get_ti_field_ok [OF T f(1), of a t1] obtain r1 tir1 sfi1 where
    1: "tir_get_ti_field m tir sfi a f t1 = Inr (r1, tir1, sfi1)" "tir_ok bs bsx sk I FS tir1 sfi1" "answers sk r1 (map_of (terms_of FS f) t1)"
      "tir_field_num tir1 = f" "tir_te tir1 a \<noteq> None" "thread_on tir1 a = f" unfolding s1 by blast
  have s2: "searched (thread_on tir1) (tir_field_num tir1) b g = g" using f(4) 1(4) by (simp add: searched_def)
  from tir_get_ti_field_ok [OF 1(2) f(2), of b t2] obtain r2 tir2 sfi2 where
    2: "tir_get_ti_field m tir1 sfi1 b g t2 = Inr (r2, tir2, sfi2)" "tir_ok bs bsx sk I FS tir2 sfi2" "answers sk r2 (map_of (terms_of FS g) t2)"
      "tir_field_num tir2 = g" "\<forall>u. u \<noteq> b \<longrightarrow> tir_te tir2 u = tir_te tir1 u" unfolding s2 by blast
  have "thread_on tir2 a = f" using 2(5) ab 1(5,6) by (auto simp: thread_on_def)
  then have s3: "searched (thread_on tir2) (tir_field_num tir2) a g = f" using 2(4) by (simp add: searched_def)
  from tir_get_ti_field_ok [OF 2(2) f(2), of a t3] obtain r3 tir3 sfi3 where
    3: "tir_get_ti_field m tir2 sfi2 a g t3 = Inr (r3, tir3, sfi3)" "answers sk r3 (map_of (terms_of FS f) t3)" unfolding s3 by blast
  show ?thesis using 1(1,3) 2(1,3) 3 by simp
qed

end

section \<open>Several files at once\<close>

lemma ram_new_output_frame:
  assumes S: "ram_ok store w" and small: "h_size (dir_ht store) < 2 ^ 28" and new: "ram_dir store w (snd x) = None"
    and r: "ram_new_output store x w = Inr (os, store', w')"
  shows "\<forall>n. n \<noteq> snd x \<longrightarrow> ref_of (dir_ht store') n = ref_of (dir_ht store) n" and "rh_files w s \<noteq> None \<Longrightarrow> rh_files w' s = rh_files w s"
    and "rh_files w (ro_rf (os_file os)) = None"
proof -
  let ?ht = "dir_ht store"
  have T: "tab_ok ?ht" and H: "heap_ok w" using S by (auto simp: ram_ok_def)
  obtain ht1 where h1: "frt_h_get ?ht (PKey x) = Inr (ref_of ?ht (snd x), ht1)" "tab_ok ht1"
    "ref_of ht1 = ref_of ?ht" "h_size ht1 = h_size ?ht" using T by (rule ht_get)
  have n: "ref_of ?ht (snd x) = None" using new by (simp add: ram_dir_def)
  obtain a w1 where a: "rf_new x w = (a, w1)" by fastforce
  note f = rf_new_ok [OF a H]
  obtain rf where rf: "rh_files w1 a = Some rf" "snd (rf_name rf) = snd x" using f(6) by auto
  have "ref_of ht1 (snd (rf_name rf)) = None" "h_size ht1 < 2 ^ 28" using n h1 rf small by simp_all
  from ht_set [OF h1(2) this, of a] obtain st ht2 where h2: "frt_h_set ht1 (PKey (rf_name rf)) (Some a) = Inr (st, ht2)"
    "tab_ok ht2" "ref_of ht2 = (ref_of ht1)(snd (rf_name rf) \<mapsto> a)" by metis
  have w: "with_ht store ht2 w1 = Inr (store\<lparr>dir_ht := ht2\<rparr>, w1)" using h2(2) by (intro with_ht_nil) (simp add: tab_ok_def)
  have e: "store' = store\<lparr>dir_ht := ht2\<rparr>" "w' = rf_put w1 a (rf\<lparr>rf_ref_cnt := rf_ref_cnt rf + 1\<rparr>)" "ro_rf (os_file os) = a"
    using r h1(1) n a rf(1) h2(1) w by (auto simp: ram_new_output_def rf_get_def FRT_REF_def frt_os_new_def)
  show "\<forall>n. n \<noteq> snd x \<longrightarrow> ref_of (dir_ht store') n = ref_of (dir_ht store) n" using e(1) h2(3) h1(3) rf(2) by simp
  show "rh_files w s \<noteq> None \<Longrightarrow> rh_files w' s = rh_files w s" using f(4,5) by (auto simp: e(2) rf_put_def)
  show "rh_files w (ro_rf (os_file os)) = None" using f(4) by (simp add: e(3))
qed

lemma writing_close_frame:
  assumes "writing store w N os bs p" and r: "frt_os_close RAM_OUT_STREAM_METHODS os w = Inr w'"
  shows "s \<noteq> ro_rf (os_file os) \<Longrightarrow> rh_files w' s = rh_files w s"
proof -
  from assms(1) obtain rf where rf: "rh_files w (ro_rf (os_file os)) = Some rf" "2 \<le> rf_ref_cnt rf"
    and ok: "ram_out.os_ok os w (ram_rest (os_file os) w) bs p" by (auto simp: writing_def)
  obtain os1 w1 where o1: "frt_os_close RAM_OUT_STREAM_METHODS os w = close_o RAM_OUT_STREAM_METHODS (os_file os1) w1"
    "ram_out.os_ok os1 w1 (ram_rest (os_file os) w) bs p" using ok by (rule ram_out.frt_os_close_ok)
  have v: "ram_out_valid (os_file os1) w1" and rest: "ram_rest (os_file os1) w1 = ram_rest (os_file os) w"
    using o1(2) by (simp_all add: ram_out.os_ok_def)
  note R = ram_rest_eqD [OF rest rf(1) v]
  obtain rf1 where rf1: "rh_files w1 (ro_rf (os_file os)) = Some rf1" "rf_ref_cnt rf1 = rf_ref_cnt rf" using R(4) by blast
  have "w' = rf_put w1 (ro_rf (os_file os)) (rf1\<lparr>rf_ref_cnt := rf_ref_cnt rf1 - 1\<rparr>)"
    using r o1(1) R(1) rf1 rf(2) by (simp add: RAM_OUT_STREAM_METHODS_def ramo_close_i_def rf_close_def rf_get_def)
  then show "s \<noteq> ro_rf (os_file os) \<Longrightarrow> rh_files w' s = rh_files w s" using R(3) by (simp add: rf_put_def)
qed

type_synonym out_file = "byte list \<times> ram_out outstream \<times> byte list"

text \<open>
  An open stream has its file under its name in the directory; the empty name stands for a buffer, whose file is in no directory.
\<close>

definition holding :: "ram_store \<Rightarrow> ram_heap \<Rightarrow> out_file \<Rightarrow> bool" where
  "holding store w x = (case x of (N, os, bs) \<Rightarrow> ram_out.os_ok os w (ram_rest (os_file os) w) bs (length bs) \<and>
     (\<exists>rf. rh_files w (ro_rf (os_file os)) = Some rf \<and>
       (if N = [] then rf_ref_cnt rf = 1 \<and> (\<forall>n. ref_of (dir_ht store) n \<noteq> Some (ro_rf (os_file os)))
        else ref_of (dir_ht store) N = Some (ro_rf (os_file os)) \<and> 2 \<le> rf_ref_cnt rf)))"

definition out_ref :: "out_file \<Rightarrow> nat" where
  "out_ref x = ro_rf (os_file (fst (snd x)))"

lemma out_ref_simp [simp]: "out_ref (N, os, bs) = ro_rf (os_file os)"
  by (simp add: out_ref_def)

definition writing_all :: "ram_store \<Rightarrow> ram_heap \<Rightarrow> (byte list \<Rightarrow> byte list option) \<Rightarrow> out_file list \<Rightarrow> bool" where
  "writing_all store w D xs \<longleftrightarrow> ram_ok store w \<and> distinct (map fst xs) \<and> distinct (map out_ref xs) \<and> (\<forall>x \<in> set xs. holding store w x) \<and>
     (\<forall>n. n = [] \<or> n \<notin> fst ` set xs \<longrightarrow> ram_dir store w n = D n)"

lemma holding_writing: "N \<noteq> [] \<Longrightarrow> writing store w N os bs (length bs) \<longleftrightarrow> ram_ok store w \<and> holding store w (N, os, bs)"
  by (auto simp: writing_def holding_def)

lemma holding_keep:
  assumes W: "holding store w x" and f: "rh_files w' (out_ref x) = rh_files w (out_ref x)"
    and r: "fst x \<noteq> [] \<Longrightarrow> ref_of (dir_ht store') (fst x) = ref_of (dir_ht store) (fst x)"
    and l: "fst x = [] \<Longrightarrow> \<forall>n. ref_of (dir_ht store') n \<noteq> Some (out_ref x)"
  shows "holding store' w' x"
proof -
  obtain N os bs where x: "x = (N, os, bs)" by (cases x)
  note f = f [unfolded x out_ref_def fst_conv snd_conv]
  define p where "p = length bs"
  have "ram_out.os_ok os w (ram_rest (os_file os) w) bs p" using W by (simp add: holding_def x p_def)
  then have "ram_out.os_ok os w' (ram_rest (os_file os) w') bs p"
    unfolding ram_out.os_ok_def unfolding ram_out_valid_def heap_bytes_def f by simp
  then have "ram_out.os_ok os w' (ram_rest (os_file os) w') bs (length bs)" by (simp add: p_def)
  then show ?thesis using W r l by (auto simp: holding_def x out_ref_def f)
qed

lemma holding_keep_store: "holding store w x \<Longrightarrow> rh_files w' (out_ref x) = rh_files w (out_ref x) \<Longrightarrow> holding store w' x"
  by (rule holding_keep) (auto simp: holding_def out_ref_def split: prod.splits if_splits)

lemma writing_all_nil: "writing_all store w D [] \<longleftrightarrow> ram_ok store w \<and> ram_dir store w = D"
  by (auto simp: writing_all_def fun_eq_iff)

lemma writing_all_swap: "writing_all store w D (x # y # xs) \<Longrightarrow> writing_all store w D (y # x # xs)"
  unfolding writing_all_def by auto

lemma writing_all_rotate: "writing_all store w D (x # y # z # xs) \<Longrightarrow> writing_all store w D (y # z # x # xs)"
  unfolding writing_all_def by auto

lemma holding_pos: "holding store w (N, os, bs) \<Longrightarrow> frt_os_pos os = int (length bs)"
  by (auto simp: holding_def ram_out.frt_os_pos_ok)

text \<open>The address of an open file is in the directory under its name only.\<close>

lemma holding_ref:
  assumes S: "ram_ok store w" and h: "holding store w (N, os, bs)" and r: "ref_of (dir_ht store) n = Some (ro_rf (os_file os))"
  shows "n = N"
proof (cases "N = []")
  case False
  then have "ref_of (dir_ht store) N = Some (ro_rf (os_file os))" using h by (auto simp: holding_def)
  then have "file_ok w N (ro_rf (os_file os))" "file_ok w n (ro_rf (os_file os))" using S r by (auto simp: ram_ok_def)
  then show ?thesis using file_ok_name by blast
qed (use h r in \<open>auto simp: holding_def\<close>)

lemma writing_all_step:
  assumes O: "writing_all store w D ((N, os, bs) # xs)" and s: "ram_out.wrote r (ram_rest (os_file os) w) bs' (length bs')"
  shows "\<exists>os' w'. r = Inr (os', w') \<and> writing_all store w' D ((N, os', bs') # xs) \<and> ro_rf (os_file os') = ro_rf (os_file os)"
proof -
  let ?r = "ro_rf (os_file os)"
  from O have S: "ram_ok store w" and h: "holding store w (N, os, bs)" and rest: "\<forall>x \<in> set xs. holding store w x" and ne: "?r \<notin> out_ref ` set xs"
    by (simp_all add: writing_all_def)
  obtain os' w' where r: "r = Inr (os', w')" and ok: "ram_out.os_ok os' w' (ram_rest (os_file os) w) bs' (length bs')"
    using s by (auto simp: ram_out.wrote_def)
  from h obtain rf where rf: "rh_files w ?r = Some rf" by (auto simp: holding_def)
  have v: "ram_out_valid (os_file os') w'" and re: "ram_rest (os_file os') w' = ram_rest (os_file os) w"
    using ok by (simp_all add: ram_out.os_ok_def)
  note R = ram_rest_eqD [OF re rf v]
  have F: "\<And>n s. ref_of (dir_ht store) n = Some s \<Longrightarrow> file_ok w n s" and T: "tab_ok (dir_ht store)" and H: "heap_ok w"
    using S by (auto simp: ram_ok_def)
  have fr: "rh_files w' s = rh_files w s" if "s \<noteq> ?r" for s using R(3) that by blast
  obtain rf' where rf': "rh_files w' ?r = Some rf'" "rf_ok rf'" "rf_name rf' = rf_name rf" "rf_ref_cnt rf' = rf_ref_cnt rf"
    using R(4) rf by auto
  have "?r < rh_next w" using H rf by (simp add: heap_ok_def)
  then have H': "heap_ok w'" using H R(2,3) by (metis heap_ok_def)
  have files: "file_ok w' n s" if "ref_of (dir_ht store) n = Some s" for n s
  proof (cases "s = ?r")
    case True
    then show ?thesis using F [OF that] rf rf' by (auto simp: file_ok_def)
  next
    case False
    from file_ok_frame [OF fr [OF False]] F [OF that] show ?thesis by blast
  qed
  then have S': "ram_ok store w'" using T H' by (simp add: ram_ok_def)
  have "ram_dir store w' n = D n" if "n = [] \<or> n \<notin> fst ` set ((N, os', bs') # xs)" for n
  proof -
    have "ref_of (dir_ht store) n \<noteq> Some ?r"
    proof
      assume e: "ref_of (dir_ht store) n = Some ?r"
      then have "n = N" by (rule holding_ref [OF S h])
      then show False using that e h by (auto simp: holding_def)
    qed
    then have "ram_dir store w' n = ram_dir store w n"
      by (cases "ref_of (dir_ht store) n") (auto simp: ram_dir_def intro: heap_bytes_frame fr)
    then show ?thesis using O that by (auto simp: writing_all_def)
  qed
  moreover have "holding store w' (N, os', bs')" using h ok re rf' rf R(1) by (auto simp: holding_def)
  moreover have "holding store w' x" if "x \<in> set xs" for x
  proof (rule holding_keep_store)
    show "holding store w x" using rest that by blast
    show "rh_files w' (out_ref x) = rh_files w (out_ref x)" using ne that by (intro fr) (metis imageI)
  qed
  ultimately have "writing_all store w' D ((N, os', bs') # xs)" using O S' R(1) by (simp add: writing_all_def)
  then show ?thesis using r R(1) by simp
qed

lemma writing_all_writes:
  assumes O: "writing_all store w D ((N, os, bs) # xs)" and k: "ram_out.writes k ys"
  shows "\<exists>os' w'. k os w = Inr (os', w') \<and> writing_all store w' D ((N, os', bs @ ys) # xs)"
proof -
  have "ram_out.os_ok os w (ram_rest (os_file os) w) bs (length bs)" using O by (simp add: writing_all_def holding_def)
  from ram_out.writesD [OF k this] have "ram_out.wrote (k os w) (ram_rest (os_file os) w) (bs @ ys) (length (bs @ ys))" by simp
  from writing_all_step [OF O this] show ?thesis by blast
qed

lemma writing_all_new:
  assumes O: "writing_all store w D xs" and small: "h_size (dir_ht store) < 2 ^ 28" and new: "D (snd x) = None" "snd x \<notin> fst ` set xs" "snd x \<noteq> []"
  shows "\<exists>os store' w'. ram_new_output store x w = Inr (os, store', w') \<and> writing_all store' w' D ((snd x, os, []) # xs) \<and>
    h_size (dir_ht store') \<le> h_size (dir_ht store) + 1"
proof -
  have S: "ram_ok store w" and n: "ram_dir store w (snd x) = None" using O new by (auto simp: writing_all_def)
  from writing_new [OF S small n] obtain os store' w' where
    1: "ram_new_output store x w = Inr (os, store', w')" "writing store' w' (snd x) os [] 0" "others (snd x) store' w' = ram_dir store w" by blast
  have sz: "h_size (dir_ht store') \<le> h_size (dir_ht store) + 1" using ram_new_output_ok [OF S small, of x] 1(1) by auto
  note fr = ram_new_output_frame [OF S small n 1(1)]
  have h: "ram_ok store' w'" "holding store' w' (snd x, os, [])" using 1(2) holding_writing [OF new(3), of store' w' os "[]"] by simp_all
  then have rx: "ref_of (dir_ht store') (snd x) = Some (ro_rf (os_file os))" using new(3) by (auto simp: holding_def)
  have rest: "holding store' w' y \<and> out_ref y \<noteq> ro_rf (os_file os)" if y: "y \<in> set xs" for y
  proof
    have Wy: "holding store w y" using O y by (simp add: writing_all_def)
    then have some: "rh_files w (out_ref y) \<noteq> None" by (auto simp: holding_def out_ref_def)
    then show ne: "out_ref y \<noteq> ro_rf (os_file os)" using fr(3) by auto
    show "holding store' w' y"
    proof (rule holding_keep [OF Wy fr(2) [OF some]])
      have "fst y \<noteq> snd x" using new(2) y by force
      then show "ref_of (dir_ht store') (fst y) = ref_of (dir_ht store) (fst y)" using fr(1) by blast
      assume "fst y = []"
      then have "\<forall>n. ref_of (dir_ht store) n \<noteq> Some (out_ref y)" using Wy by (auto simp: holding_def out_ref_def)
      then show "\<forall>n. ref_of (dir_ht store') n \<noteq> Some (out_ref y)" using fr(1) rx ne by (metis option.inject)
    qed
  qed
  have "ram_dir store' w' n = D n" if "n = [] \<or> n \<notin> fst ` set ((snd x, os, []) # xs)" for n
  proof -
    have "n \<noteq> snd x" using that new(3) by auto
    then have "ram_dir store' w' n = ram_dir store w n" using fun_cong [OF 1(3), of n] by (simp add: others_def)
    then show ?thesis using that O by (auto simp: writing_all_def)
  qed
  moreover have "distinct (snd x # map fst xs)" using O new(2) by (simp add: writing_all_def)
  moreover have "ro_rf (os_file os) \<notin> out_ref ` set xs" using rest by force
  then have "distinct (map out_ref ((snd x, os, []) # xs))" using O by (simp add: writing_all_def)
  ultimately show ?thesis using 1(1) h rest sz by (simp add: writing_all_def)
qed

text \<open>Closing a file, possibly after its beginning was written again.\<close>

lemma writing_all_finish:
  assumes O: "writing_all store w D ((N, os, bs) # xs)" and r: "ram_ok store w'" "ram_dir store w' = (others N store w)(N \<mapsto> bs')"
    "\<forall>s. s \<noteq> ro_rf (os_file os) \<longrightarrow> rh_files w' s = rh_files w s" and N: "N \<noteq> []"
  shows "writing_all store w' (D(N \<mapsto> bs')) xs"
proof -
  have ne: "ro_rf (os_file os) \<notin> out_ref ` set xs" and h: "\<forall>x \<in> set xs. holding store w x" using O by (simp_all add: writing_all_def)
  have "holding store w' x" if "x \<in> set xs" for x
  proof (rule holding_keep_store)
    show "holding store w x" using h that by blast
    have "out_ref x \<noteq> ro_rf (os_file os)" using ne that by (metis imageI)
    then show "rh_files w' (out_ref x) = rh_files w (out_ref x)" using r(3) by blast
  qed
  moreover have "ram_dir store w' n = (D(N \<mapsto> bs')) n" if "n = [] \<or> n \<notin> fst ` set xs" for n
    using O that N by (auto simp: r(2) others_def writing_all_def)
  ultimately show ?thesis using r(1) O by (simp add: writing_all_def)
qed

lemma writing_all_writing: "writing_all store w D ((N, os, bs) # xs) \<Longrightarrow> N \<noteq> [] \<Longrightarrow> writing store w N os bs (length bs)"
  by (simp add: holding_writing writing_all_def)

lemma writing_all_close:
  assumes O: "writing_all store w D ((N, os, bs) # xs)" and N: "N \<noteq> []"
  shows "\<exists>w'. frt_os_close RAM_OUT_STREAM_METHODS os w = Inr w' \<and> writing_all store w' (D(N \<mapsto> bs)) xs"
proof -
  note W = writing_all_writing [OF O N]
  from writing_close [OF W] obtain w' where
    1: "frt_os_close RAM_OUT_STREAM_METHODS os w = Inr w'" "ram_ok store w'" "ram_dir store w' = (others N store w)(N \<mapsto> bs)" by blast
  from writing_all_finish [OF O 1(2,3) _ N] writing_close_frame [OF W 1(1)] 1(1) show ?thesis by blast
qed

lemma writing_all_patch:
  assumes O: "writing_all store w D ((N, os, bs) # xs)" and k: "ram_out.writes k ys" and N: "N \<noteq> []"
  shows "\<exists>w'. ebind (frt_os_seek RAM_OUT_STREAM_METHODS os 0 w) (\<lambda>(os, w). ebind (k os w) (\<lambda>(os, w).
      frt_os_close RAM_OUT_STREAM_METHODS os w)) = Inr w' \<and> writing_all store w' (D(N \<mapsto> write_at bs 0 ys)) xs"
proof -
  note W = writing_all_writing [OF O N]
  then have "ram_out.os_ok os w (ram_rest (os_file os) w) bs (length bs)" by (simp add: writing_def)
  from ram_out.frt_os_seek_ok [OF this, of 0] have
    "ram_out.wrote (frt_os_seek RAM_OUT_STREAM_METHODS os 0 w) (ram_rest (os_file os) w) bs 0" by simp
  from writing_step [OF W this] obtain os1 w1 where
    1: "frt_os_seek RAM_OUT_STREAM_METHODS os 0 w = Inr (os1, w1)" "writing store w1 N os1 bs 0" "others N store w1 = others N store w"
      "\<forall>s. s \<noteq> ro_rf (os_file os) \<longrightarrow> rh_files w1 s = rh_files w s" "ro_rf (os_file os1) = ro_rf (os_file os)" by blast
  from writing_writes [OF 1(2) k] obtain os2 w2 where
    2: "k os1 w1 = Inr (os2, w2)" "writing store w2 N os2 (write_at bs 0 ys) (0 + length ys)" "others N store w2 = others N store w1"
      "\<forall>s. s \<noteq> ro_rf (os_file os1) \<longrightarrow> rh_files w2 s = rh_files w1 s" "ro_rf (os_file os2) = ro_rf (os_file os1)" by blast
  from writing_close [OF 2(2)] obtain w3 where
    3: "frt_os_close RAM_OUT_STREAM_METHODS os2 w2 = Inr w3" "ram_ok store w3" "ram_dir store w3 = (others N store w2)(N \<mapsto> write_at bs 0 ys)" by blast
  have "writing_all store w3 (D(N \<mapsto> write_at bs 0 ys)) xs"
    by (rule writing_all_finish [OF O 3(2)]) (use 3(3) writing_close_frame [OF 2(2) 3(1)] 1(3-5) 2(3-5) N in simp_all)
  then show ?thesis using 1(1) 2(1) 3(1) by simp
qed

section \<open>Adding terms\<close>

lemma enc_index_snoc:
  "enc_index sk e0 p0 (xs @ [x]) = enc_index sk e0 p0 xs @ enc_term sk (fst (last ((e0, p0) # xs))) (fst x) @
     enc_v (snd x - snd (last ((e0, p0) # xs)))"
  by (induction xs arbitrary: e0 p0) auto

lemma index_chain_snoc:
  "index_chain e0 p0 (xs @ [x]) \<Longrightarrow> dict_entry_ok e0 \<Longrightarrow> dict_entry_ok (fst (last ((e0, p0) # xs))) \<and> dict_entry_ok (fst x) \<and>
     follows (fst (last ((e0, p0) # xs))) (fst x) \<and> snd (last ((e0, p0) # xs)) \<le> snd x \<and> snd x < 2 ^ 63"
proof (induction xs arbitrary: e0 p0)
  case (Cons y xs)
  then show ?case using Cons.IH [of "fst y" "snd y"] by (cases xs) auto
qed auto

lemma index_cnt_snoc:
  assumes I: "0 < I"
  shows "index_cnt I (ts @ [e]) = index_cnt I ts + (if length ts mod I = 0 then 1 else 0)"
proof -
  have eq: "a = b" if "\<And>k. k < a \<longleftrightarrow> k < b" for a b :: nat using that by (meson less_irrefl linorder_neqE_nat)
  show ?thesis
  proof (cases "length ts mod I = 0")
    case True
    then obtain q where q: "length ts = q * I" by (metis mod_0_imp_dvd dvd_div_mult_self)
    have "index_cnt I ts = q" by (rule eq) (simp add: index_cnt_less [OF I] q I)
    moreover have "index_cnt I (ts @ [e]) = Suc q" by (rule eq) (simp add: index_cnt_less [OF I] q I less_Suc_eq_le)
    ultimately show ?thesis using True by simp
  next
    case False
    then have "k * I \<noteq> length ts" for k by (metis mod_mult_self2_is_0)
    then have "index_cnt I (ts @ [e]) = index_cnt I ts" by (intro eq) (auto simp: index_cnt_less [OF I] less_Suc_eq)
    then show ?thesis using False by simp
  qed
qed

lemma index_of_snoc:
  assumes I: "0 < I"
  shows "index_of I sk P (ts @ [e]) = index_of I sk P ts @
    (if length ts mod I = 0 then [(last (no_term # ts), P + term_at sk ts (length ts))] else [])"
proof -
  have old: "((no_term # (ts @ [e])) ! (k * I), P + term_at sk (ts @ [e]) (k * I)) = ((no_term # ts) ! (k * I), P + term_at sk ts (k * I))"
    if "k * I \<le> length ts" for k
    using that by (auto simp: term_at_def nth_append simp flip: append_Cons)
  have m: "map (\<lambda>k. ((no_term # (ts @ [e])) ! (k * I), P + term_at sk (ts @ [e]) (k * I))) [0..<index_cnt I ts] = index_of I sk P ts"
    unfolding index_of_def using index_cnt_less [OF I, of _ ts] by (intro map_cong refl old) (simp add: less_imp_le)
  show ?thesis
  proof (cases "length ts mod I = 0")
    case True
    then obtain q where q: "length ts = q * I" by (metis mod_0_imp_dvd dvd_div_mult_self)
    have c: "index_cnt I ts = q"
    proof (rule ccontr)
      assume "index_cnt I ts \<noteq> q"
      then show False using index_cnt_less [OF I, of q ts] index_cnt_less [OF I, of "index_cnt I ts" ts] I by (auto simp: q)
    qed
    have l: "(no_term # ts) ! (q * I) = last (no_term # ts)" by (metis nth_take_last order_refl take_all q)
    show ?thesis using True m old [of q] by (simp add: index_of_def [of I sk P "ts @ [e]"] index_cnt_snoc [OF I] c l q)
  next
    case False
    then show ?thesis using m by (simp add: index_of_def [of I sk P "ts @ [e]"] index_cnt_snoc [OF I])
  qed
qed

lemma enc_terms_snoc_last: "enc_terms sk no_term (ts @ [e]) = enc_terms sk no_term ts @ enc_term sk (last (no_term # ts)) e"
  by (simp add: enc_terms_append)

definition tw_last :: "'o term_writer \<Rightarrow> entry" where
  "tw_last tw = (tw_last_term tw, tw_last_term_info tw)"

lemma tw_add_eq:
  "tw_add m tw t ti sk w = ebind (out_source.tw_add_os m (tw_last tw) (t, ti) sk (tw_os tw) w) (\<lambda>(os, w).
     Inr (tw\<lparr>tw_last_term := t, tw_os := os, tw_last_term_info := ti, tw_counter := tw_counter tw + 1\<rparr>, w))"
  if "out_source m valid contents at rest"
  unfolding tw_add_def tw_write_term_def out_source.tw_add_os_def [OF that]
  by (simp add: Let_def ebind_assoc case_prod_beta' tw_last_def cong: if_cong)

text \<open>
  A writer in the middle of a field: what was written of its terms and of its index is \<open>ts\<close> and \<open>idx\<close>; \<open>bx\<close>, \<open>bs\<close> and
  \<open>bf\<close> were in the files \<open>.tix\<close>, \<open>.tis\<close> and \<open>.tfx\<close> when the field began.
\<close>

definition tiw_ok ::
  "ram_store \<Rightarrow> ram_heap \<Rightarrow> (byte list \<Rightarrow> byte list option) \<Rightarrow> out_file list \<Rightarrow> byte list \<Rightarrow> nat \<Rightarrow> int \<Rightarrow> byte list \<Rightarrow> byte list \<Rightarrow> byte list
     \<Rightarrow> (entry \<times> nat) list \<Rightarrow> entry list \<Rightarrow> ram_out term_infos_writer \<Rightarrow> bool" where
  "tiw_ok store w D xs sgm I sk bx bs bf idx ts tiw \<longleftrightarrow> tiw_index_interval tiw = int I \<and> tiw_skip_interval tiw = sk \<and>
     tw_last (tiw_tis_writer tiw) = last (no_term # ts) \<and> tw_counter (tiw_tis_writer tiw) = int (length ts) \<and>
     tw_last (tiw_tix_writer tiw) = fst (last ((no_term, 0) # idx)) \<and> tw_counter (tiw_tix_writer tiw) = int (length idx) \<and>
     tiw_last_index_ptr tiw = int (snd (last ((no_term, 0) # idx))) \<and>
     writing_all store w D ((sgm @ str ''.tix'', tw_os (tiw_tix_writer tiw), bx @ enc_index sk no_term 0 idx) #
       (sgm @ str ''.tis'', tw_os (tiw_tis_writer tiw), bs @ enc_terms sk no_term ts) # (sgm @ str ''.tfx'', tiw_tfx_out tiw, bf) # xs)"

lemma writing_all_pos: "writing_all store w D ((N, os, bs) # xs) \<Longrightarrow> frt_os_pos os = int (length bs)"
  using holding_pos by (auto simp: writing_all_def)

text \<open>Adding a term to one of the writers.\<close>

lemma tw_add_ok:
  assumes O: "writing_all store w D ((N, tw_os tw, bs) # xs)" and e: "dict_entry_ok (t, ti)" "dict_entry_ok (tw_last tw)" "follows (tw_last tw) (t, ti)"
  shows "\<exists>os w'. tw_add RAM_OUT_STREAM_METHODS tw t ti sk w =
      Inr (tw\<lparr>tw_last_term := t, tw_os := os, tw_last_term_info := ti, tw_counter := tw_counter tw + 1\<rparr>, w') \<and>
    writing_all store w' D ((N, os, bs @ enc_term sk (tw_last tw) (t, ti)) # xs)"
proof -
  from writing_all_writes [OF O ram_out.writes_term [OF e]] obtain os w' where
    "ram_out.tw_add_os (tw_last tw) (t, ti) sk (tw_os tw) w = Inr (os, w')"
    "writing_all store w' D ((N, os, bs @ enc_term sk (tw_last tw) (t, ti)) # xs)" by blast
  then show ?thesis by (intro exI [of _ os] exI [of _ w']) (simp add: tw_add_eq [OF ram_out.out_source_axioms])
qed

text \<open>The part of \<open>frt_tiw_add\<close> that writes the index.\<close>

definition tiw_add_index ::
  "('o, 'w) os_methods \<Rightarrow> 'o term_infos_writer \<Rightarrow> 'w \<Rightarrow> ('o term_infos_writer \<times> 'w) res" where
  "tiw_add_index m tiw w =
     ebind (tw_add m (tiw_tix_writer tiw) (tw_last_term (tiw_tis_writer tiw)) (tw_last_term_info (tiw_tis_writer tiw)) (tiw_skip_interval tiw) w) (\<lambda>(tix, w).
     let tis_pos = frt_os_pos (tw_os (tiw_tis_writer tiw))
     in ebind (frt_os_write_voff_t m (tw_os tix) (tis_pos - tiw_last_index_ptr tiw) w) (\<lambda>(os, w).
        Inr (tiw\<lparr>tiw_tix_writer := tix\<lparr>tw_os := os\<rparr>, tiw_last_index_ptr := tis_pos\<rparr>, w)))"

lemma tiw_add_index_ok:
  assumes W: "tiw_ok store w D xs sgm I sk bx bs bf idx ts tiw" and x: "x = (last (no_term # ts), length bs + term_at sk ts (length ts))"
    and c: "index_chain no_term 0 (idx @ [x])"
  shows "\<exists>tiw' w'. tiw_add_index RAM_OUT_STREAM_METHODS tiw w = Inr (tiw', w') \<and>
    tiw_ok store w' D xs sgm I sk bx bs bf (idx @ [x]) ts tiw' \<and> tiw_field_count tiw' = tiw_field_count tiw"
proof -
  let ?tix = "tiw_tix_writer tiw" and ?tis = "tiw_tis_writer tiw" and ?l = "last ((no_term, 0) # idx)"
  let ?rest = "(sgm @ str ''.tis'', tw_os ?tis, bs @ enc_terms sk no_term ts) # (sgm @ str ''.tfx'', tiw_tfx_out tiw, bf) # xs"
  have w: "tiw_index_interval tiw = int I" "tiw_skip_interval tiw = sk" "tw_last ?tis = last (no_term # ts)"
    "tw_counter ?tis = int (length ts)" "tw_last ?tix = fst ?l" "tw_counter ?tix = int (length idx)" "tiw_last_index_ptr tiw = int (snd ?l)"
    and O: "writing_all store w D ((sgm @ str ''.tix'', tw_os ?tix, bx @ enc_index sk no_term 0 idx) # ?rest)"
    using W by (simp_all add: tiw_ok_def)
  have tis: "(tw_last_term ?tis, tw_last_term_info ?tis) = fst x" using w(3) by (simp only: tw_last_def x fst_conv)
  have c: "dict_entry_ok (fst ?l)" "dict_entry_ok (fst x)" "follows (fst ?l) (fst x)" "snd ?l \<le> snd x" "snd x < 2 ^ 63"
    using index_chain_snoc [OF c] by simp_all
  from tw_add_ok [OF O, of "tw_last_term ?tis" "tw_last_term_info ?tis" sk] obtain os1 w1 where
    1: "tw_add RAM_OUT_STREAM_METHODS ?tix (tw_last_term ?tis) (tw_last_term_info ?tis) sk w = Inr (?tix\<lparr>tw_last_term := tw_last_term ?tis,
        tw_os := os1, tw_last_term_info := tw_last_term_info ?tis, tw_counter := tw_counter ?tix + 1\<rparr>, w1)"
      "writing_all store w1 D ((sgm @ str ''.tix'', os1, (bx @ enc_index sk no_term 0 idx) @ enc_term sk (fst ?l) (fst x)) # ?rest)"
    unfolding tis w(5) using c(1-3) by blast
  have pos: "frt_os_pos (tw_os ?tis) = int (snd x)"
    using writing_all_pos [OF writing_all_swap [OF O]] by (simp add: x term_at_def)
  have "snd x - snd ?l < 2 ^ 63" using c(5) by linarith
  from writing_all_writes [OF 1(2) ram_out.writes_voff_t [OF this]] obtain os2 w2 where
    2: "frt_os_write_voff_t RAM_OUT_STREAM_METHODS os1 (int (snd x - snd ?l)) w1 = Inr (os2, w2)"
      "writing_all store w2 D ((sgm @ str ''.tix'', os2, ((bx @ enc_index sk no_term 0 idx) @ enc_term sk (fst ?l) (fst x)) @ enc_v (snd x - snd ?l)) # ?rest)"
    by blast
  have d: "int (snd x) - int (snd ?l) = int (snd x - snd ?l)" using c(4) by simp
  have b: "((bx @ enc_index sk no_term 0 idx) @ enc_term sk (fst ?l) (fst x)) @ enc_v (snd x - snd ?l) = bx @ enc_index sk no_term 0 (idx @ [x])"
    unfolding enc_index_snoc by simp
  have "tiw_add_index RAM_OUT_STREAM_METHODS tiw w = Inr (tiw\<lparr>tiw_tix_writer := ?tix\<lparr>tw_last_term := tw_last_term ?tis,
        tw_os := os2, tw_last_term_info := tw_last_term_info ?tis, tw_counter := tw_counter ?tix + 1\<rparr>, tiw_last_index_ptr := int (snd x)\<rparr>, w2)"
    unfolding tiw_add_index_def w(2,7) 1(1) ebind_simps prod.case Let_def pos d using 2(1) by simp
  moreover have "tiw_ok store w2 D xs sgm I sk bx bs bf (idx @ [x]) ts (tiw\<lparr>tiw_tix_writer := ?tix\<lparr>tw_last_term := tw_last_term ?tis,
        tw_os := os2, tw_last_term_info := tw_last_term_info ?tis, tw_counter := tw_counter ?tix + 1\<rparr>, tiw_last_index_ptr := int (snd x)\<rparr>)"
    using w 2(2) [unfolded b] tis by (simp add: tiw_ok_def tw_last_def)
  ultimately show ?thesis by auto
qed

lemma tiw_add_ok:
  assumes W: "tiw_ok store w D xs sgm I sk bx bs bf (index_of I sk (length bs) ts) ts tiw" and T: "terms_ok (ts @ [e])" and I: "0 < I"
    and small: "length bs + term_at sk (ts @ [e]) (length (ts @ [e])) < 2 ^ 63"
  shows "\<exists>tiw' w'. frt_tiw_add RAM_OUT_STREAM_METHODS tiw (fst e) (snd e) w = Inr (tiw', w') \<and>
    tiw_ok store w' D xs sgm I sk bx bs bf (index_of I sk (length bs) (ts @ [e])) (ts @ [e]) tiw' \<and> tiw_field_count tiw' = tiw_field_count tiw"
proof -
  let ?idx = "index_of I sk (length bs) ts" and ?idx' = "index_of I sk (length bs) (ts @ [e])"
  let ?x = "(last (no_term # ts), length bs + term_at sk ts (length ts))"
  have w: "tiw_index_interval tiw = int I" "tw_counter (tiw_tis_writer tiw) = int (length ts)" using W by (simp_all add: tiw_ok_def)
  have e: "dict_entry_ok e" "dict_entry_ok (last (no_term # ts))" "follows (last (no_term # ts)) e"
    using terms_ok_nth [OF T, of "length ts"] nth_take_last [of "length ts" "ts @ [e]" no_term] by simp_all
  have m: "tw_counter (tiw_tis_writer tiw) mod tiw_index_interval tiw = 0 \<longleftrightarrow> length ts mod I = 0"
    unfolding w by (metis of_nat_eq_0_iff zmod_int)
  have "\<exists>tiw1 w1. (if tw_counter (tiw_tis_writer tiw) mod tiw_index_interval tiw = 0 then tiw_add_index RAM_OUT_STREAM_METHODS tiw w else Inr (tiw, w)) =
      Inr (tiw1, w1) \<and> tiw_ok store w1 D xs sgm I sk bx bs bf ?idx' ts tiw1 \<and> tiw_field_count tiw1 = tiw_field_count tiw"
  proof (cases "length ts mod I = 0")
    case False
    then show ?thesis using W m by (simp add: index_of_snoc [OF I])
  next
    case True
    have idx: "?idx' = ?idx @ [?x]" using True by (simp add: index_of_snoc [OF I])
    have "index_chain no_term 0 (?idx @ [?x])" using index_of_chain [OF T I small] unfolding idx .
    from tiw_add_index_ok [OF W refl this] show ?thesis unfolding idx using m True by simp
  qed
  then obtain tiw1 w1 where 1: "(if tw_counter (tiw_tis_writer tiw) mod tiw_index_interval tiw = 0 then tiw_add_index RAM_OUT_STREAM_METHODS tiw w else Inr (tiw, w)) =
      Inr (tiw1, w1)" "tiw_ok store w1 D xs sgm I sk bx bs bf ?idx' ts tiw1" "tiw_field_count tiw1 = tiw_field_count tiw" by blast
  let ?tis = "tiw_tis_writer tiw1"
  have w1: "tw_last ?tis = last (no_term # ts)" "tiw_skip_interval tiw1 = sk" and O: "writing_all store w1 D ((sgm @ str ''.tis'', tw_os ?tis, bs @ enc_terms sk no_term ts) #
      (sgm @ str ''.tix'', tw_os (tiw_tix_writer tiw1), bx @ enc_index sk no_term 0 ?idx') # (sgm @ str ''.tfx'', tiw_tfx_out tiw1, bf) # xs)"
    using 1(2) writing_all_swap by (simp_all add: tiw_ok_def del: last.simps)
  have e': "dict_entry_ok (fst e, snd e)" "dict_entry_ok (tw_last ?tis)" "follows (tw_last ?tis) (fst e, snd e)" using e by (simp_all add: w1(1))
  from tw_add_ok [OF O e', of sk] obtain os w2 where 2: "tw_add RAM_OUT_STREAM_METHODS ?tis (fst e) (snd e) sk w1 =
      Inr (?tis\<lparr>tw_last_term := fst e, tw_os := os, tw_last_term_info := snd e, tw_counter := tw_counter ?tis + 1\<rparr>, w2)"
    "writing_all store w2 D ((sgm @ str ''.tis'', os, (bs @ enc_terms sk no_term ts) @ enc_term sk (tw_last ?tis) (fst e, snd e)) #
      (sgm @ str ''.tix'', tw_os (tiw_tix_writer tiw1), bx @ enc_index sk no_term 0 ?idx') # (sgm @ str ''.tfx'', tiw_tfx_out tiw1, bf) # xs)" by blast
  have b: "(bs @ enc_terms sk no_term ts) @ enc_term sk (tw_last ?tis) (fst e, snd e) = bs @ enc_terms sk no_term (ts @ [e])"
    unfolding w1(1) enc_terms_snoc_last by simp
  have "tiw_index_interval tiw \<noteq> 0" using w(1) I by simp
  then have "frt_tiw_add RAM_OUT_STREAM_METHODS tiw (fst e) (snd e) w = Inr (tiw1\<lparr>tiw_tis_writer :=
      ?tis\<lparr>tw_last_term := fst e, tw_os := os, tw_last_term_info := snd e, tw_counter := tw_counter ?tis + 1\<rparr>\<rparr>, w2)"
    unfolding frt_tiw_add_def 1(1) [unfolded tiw_add_index_def] ebind_simps prod.case w1(2) 2(1) by simp
  then show ?thesis using 1(2,3) writing_all_swap [OF 2(2) [unfolded b]] by (simp add: tiw_ok_def tw_last_def)
qed

section \<open>Writing the fields\<close>

text \<open>The fields of a dictionary, and where the index and the terms of each lie.\<close>

type_synonym placed = "int \<times> nat \<times> nat \<times> entry list"

definition ix_bytes :: "nat \<Rightarrow> int \<Rightarrow> placed list \<Rightarrow> byte list" where
  "ix_bytes I sk ps = concat (map (\<lambda>(f, X, P, ts). enc_index sk no_term 0 (index_of I sk P ts)) ps)"

definition is_bytes :: "int \<Rightarrow> placed list \<Rightarrow> byte list" where
  "is_bytes sk ps = concat (map (\<lambda>(f, X, P, ts). enc_terms sk no_term ts) ps)"

definition fx_bytes :: "nat \<Rightarrow> placed list \<Rightarrow> byte list" where
  "fx_bytes I ps = concat (map (\<lambda>(f, X, P, ts). enc_v (nat f) @ enc_v X @ enc_v P @ enc_v (index_cnt I ts) @ enc_v (length ts)) ps)"

fun place :: "nat \<Rightarrow> int \<Rightarrow> nat \<Rightarrow> nat \<Rightarrow> (int \<times> entry list) list \<Rightarrow> placed list" where
  "place I sk X P [] = []"
| "place I sk X P ((f, ts) # fs) = (f, X, P, ts) #
     place I sk (X + length (enc_index sk no_term 0 (index_of I sk P ts))) (P + length (enc_terms sk no_term ts)) fs"

definition dict_ok :: "(int \<times> entry list) list \<Rightarrow> bool" where
  "dict_ok fs \<longleftrightarrow> (\<forall>(f, ts) \<in> set fs. 0 \<le> f \<and> f < 2 ^ 31 \<and> terms_ok ts) \<and> distinct (map fst fs) \<and> length fs < 2 ^ 28 \<and> sum_list (map (length \<circ> snd) fs) < 2 ^ 31"

text \<open>Between two fields: \<open>a\<close> and \<open>b\<close> are what the writer will note of the one that ended.\<close>

definition tiw_idle ::
  "ram_store \<Rightarrow> ram_heap \<Rightarrow> (byte list \<Rightarrow> byte list option) \<Rightarrow> out_file list \<Rightarrow> byte list \<Rightarrow> nat \<Rightarrow> int \<Rightarrow> byte list \<Rightarrow> byte list \<Rightarrow> byte list
     \<Rightarrow> nat \<Rightarrow> nat \<Rightarrow> ram_out term_infos_writer \<Rightarrow> bool" where
  "tiw_idle store w D xs sgm I sk bx bs bf a b tiw \<longleftrightarrow> tiw_index_interval tiw = int I \<and> tiw_skip_interval tiw = sk \<and>
     tw_counter (tiw_tix_writer tiw) = int a \<and> tw_counter (tiw_tis_writer tiw) = int b \<and>
     writing_all store w D ((sgm @ str ''.tix'', tw_os (tiw_tix_writer tiw), bx) # (sgm @ str ''.tis'', tw_os (tiw_tis_writer tiw), bs) #
       (sgm @ str ''.tfx'', tiw_tfx_out tiw, bf) # xs)"

lemma tiw_idle: "tiw_ok store w D xs sgm I sk bx bs bf idx ts tiw \<Longrightarrow>
    tiw_idle store w D xs sgm I sk (bx @ enc_index sk no_term 0 idx) (bs @ enc_terms sk no_term ts) bf (length idx) (length ts) tiw"
  by (simp add: tiw_ok_def tiw_idle_def)

lemma tiw_start_field_ok:
  assumes W: "tiw_idle store w D xs sgm I sk bx bs bf a b tiw" and small: "a < 2 ^ 31" "b < 2 ^ 31" "length bx < 2 ^ 63" "length bs < 2 ^ 63"
    and f: "0 \<le> f" "f < 2 ^ 31"
  shows "\<exists>tiw' w'. frt_tiw_start_field RAM_OUT_STREAM_METHODS tiw f w = Inr (tiw', w') \<and>
    tiw_ok store w' D xs sgm I sk bx bs (bf @ enc_v a @ enc_v b @ enc_v (nat f) @ enc_v (length bx) @ enc_v (length bs)) [] [] tiw' \<and>
    tiw_field_count tiw' = tiw_field_count tiw + 1"
proof -
  let ?tix = "tiw_tix_writer tiw" and ?tis = "tiw_tis_writer tiw"
  let ?X = "(sgm @ str ''.tix'', tw_os ?tix, bx)" and ?S = "(sgm @ str ''.tis'', tw_os ?tis, bs)"
  have w: "tiw_index_interval tiw = int I" "tiw_skip_interval tiw = sk" "tw_counter ?tix = int a" "tw_counter ?tis = int b"
    and O: "writing_all store w D (?X # ?S # (sgm @ str ''.tfx'', tiw_tfx_out tiw, bf) # xs)" using W by (simp_all add: tiw_idle_def)
  have pos: "frt_os_pos (tw_os ?tix) = int (length bx)" "frt_os_pos (tw_os ?tis) = int (length bs)"
    using writing_all_pos [OF O] writing_all_pos [OF writing_all_rotate [OF O]] by simp_all
  have ab: "word_of_int (int a) = (of_nat a :: u32)" "word_of_int (int b) = (of_nat b :: u32)" "a < 2 ^ 32" "b < 2 ^ 32" using small by simp_all
  have "ram_out.writes (\<lambda>os w. ebind (frt_os_write_vint RAM_OUT_STREAM_METHODS os (of_nat a) w) (\<lambda>(os, w).
      ebind (frt_os_write_vint RAM_OUT_STREAM_METHODS os (of_nat b) w) (\<lambda>(os, w).
      ebind (frt_os_write_vint RAM_OUT_STREAM_METHODS os (word_of_int f) w) (\<lambda>(os, w).
      ebind (frt_os_write_voff_t RAM_OUT_STREAM_METHODS os (int (length bx)) w) (\<lambda>(os, w).
      frt_os_write_voff_t RAM_OUT_STREAM_METHODS os (int (length bs)) w)))))
      (enc_v a @ enc_v b @ enc_v (nat f) @ enc_v (length bx) @ enc_v (length bs))"
    by (intro ram_out.writes_bind ram_out.writes_vint_nat ab(3,4) ram_out.writes_vint_int f ram_out.writes_voff_t small(3,4))
  from writing_all_writes [OF writing_all_rotate [OF writing_all_rotate [OF O]] this] obtain os w' where
    1: "ebind (frt_os_write_vint RAM_OUT_STREAM_METHODS (tiw_tfx_out tiw) (of_nat a) w) (\<lambda>(os, w).
      ebind (frt_os_write_vint RAM_OUT_STREAM_METHODS os (of_nat b) w) (\<lambda>(os, w).
      ebind (frt_os_write_vint RAM_OUT_STREAM_METHODS os (word_of_int f) w) (\<lambda>(os, w).
      ebind (frt_os_write_voff_t RAM_OUT_STREAM_METHODS os (int (length bx)) w) (\<lambda>(os, w).
      frt_os_write_voff_t RAM_OUT_STREAM_METHODS os (int (length bs)) w)))) = Inr (os, w')"
    "writing_all store w' D ((sgm @ str ''.tfx'', os, bf @ enc_v a @ enc_v b @ enc_v (nat f) @ enc_v (length bx) @ enc_v (length bs)) # ?X # ?S # xs)" by blast
  have "frt_tiw_start_field RAM_OUT_STREAM_METHODS tiw f w = ebind (Inr (os, w')) (\<lambda>(tfx_out, w).
     Inr (tiw\<lparr>tiw_tfx_out := tfx_out, tiw_tix_writer := tw_reset ?tix, tiw_tis_writer := tw_reset ?tis, tiw_last_index_ptr := 0,
       tiw_field_count := tiw_field_count tiw + 1\<rparr>, w))"
    unfolding 1(1) [symmetric] frt_tiw_start_field_def w(3,4) ab(1,2) pos by (simp only: ebind_assoc case_prod_beta')
  then show ?thesis using w(1,2) writing_all_rotate [OF 1(2)] by (simp add: tiw_ok_def tw_reset_def tw_last_def no_term_def)
qed

fun tiw_add_terms ::
  "('o, 'w) os_methods \<Rightarrow> 'o term_infos_writer \<Rightarrow> entry list \<Rightarrow> 'w \<Rightarrow> ('o term_infos_writer \<times> 'w) res" where
  "tiw_add_terms m tiw [] w = Inr (tiw, w)"
| "tiw_add_terms m tiw (e # es) w = ebind (frt_tiw_add m tiw (fst e) (snd e) w) (\<lambda>(tiw, w). tiw_add_terms m tiw es w)"

fun tiw_add_fields ::
  "('o, 'w) os_methods \<Rightarrow> 'o term_infos_writer \<Rightarrow> (int \<times> entry list) list \<Rightarrow> 'w \<Rightarrow> ('o term_infos_writer \<times> 'w) res" where
  "tiw_add_fields m tiw [] w = Inr (tiw, w)"
| "tiw_add_fields m tiw ((f, ts) # fs) w =
     ebind (frt_tiw_start_field m tiw f w) (\<lambda>(tiw, w).
     ebind (tiw_add_terms m tiw ts w) (\<lambda>(tiw, w). tiw_add_fields m tiw fs w))"

lemma terms_ok_append: "terms_ok (xs @ ys) \<Longrightarrow> terms_ok xs"
  by (simp add: terms_ok_def sorted_wrt_append)

lemma tiw_add_terms_ok:
  assumes "tiw_ok store w D xs sgm I sk bx bs bf (index_of I sk (length bs) ts) ts tiw" and "terms_ok (ts @ es)" and I: "0 < I"
    and "length bs + term_at sk (ts @ es) (length (ts @ es)) < 2 ^ 63"
  shows "\<exists>tiw' w'. tiw_add_terms RAM_OUT_STREAM_METHODS tiw es w = Inr (tiw', w') \<and>
    tiw_ok store w' D xs sgm I sk bx bs bf (index_of I sk (length bs) (ts @ es)) (ts @ es) tiw' \<and> tiw_field_count tiw' = tiw_field_count tiw"
  using assms
proof (induction es arbitrary: ts tiw w)
  case (Cons e es)
  have T: "terms_ok (ts @ [e])" using Cons.prems(2) terms_ok_append [of "ts @ [e]" es] by simp
  have "term_at sk (ts @ [e]) (length (ts @ [e])) = term_at sk (ts @ e # es) (length (ts @ [e]))" by (simp add: term_at_def)
  also have "\<dots> \<le> term_at sk (ts @ e # es) (length (ts @ e # es))" by (rule term_at_mono) simp
  finally have "length bs + term_at sk (ts @ [e]) (length (ts @ [e])) < 2 ^ 63" using Cons.prems(4) by linarith
  from tiw_add_ok [OF Cons.prems(1) T I this] obtain tiw1 w1 where
    1: "frt_tiw_add RAM_OUT_STREAM_METHODS tiw (fst e) (snd e) w = Inr (tiw1, w1)"
      "tiw_ok store w1 D xs sgm I sk bx bs bf (index_of I sk (length bs) (ts @ [e])) (ts @ [e]) tiw1" "tiw_field_count tiw1 = tiw_field_count tiw" by blast
  have "terms_ok ((ts @ [e]) @ es)" "length bs + term_at sk ((ts @ [e]) @ es) (length ((ts @ [e]) @ es)) < 2 ^ 63"
    using Cons.prems(2,4) by simp_all
  from Cons.IH [OF 1(2) this(1) I this(2)] 1(1,3) show ?case by simp
qed simp

text \<open>No term takes more than 400 bytes, and no entry of the index.\<close>

lemma length_enc_v_63: "n < 2 ^ 63 \<Longrightarrow> length (enc_v n) \<le> 10"
  using length_enc_v_u64 [of "of_nat n"] by (simp add: unat_of_nat)

lemma length_enc_term: "dict_entry_ok e \<Longrightarrow> dict_entry_ok e0 \<Longrightarrow> follows e0 e \<Longrightarrow> length (enc_term sk e0 e) \<le> 390"
proof -
  assume e: "dict_entry_ok e" "dict_entry_ok e0" "follows e0 e"
  let ?d = "frt_hlp_string_diff (fst e0) (fst e)" and ?i = "snd e" and ?j = "snd e0"
  have "?d < 2 ^ 63" "length (fst e) - ?d < 2 ^ 63" "nat (ti_doc_freq ?i) < 2 ^ 63" "nat (ti_frq_ptr ?i - ti_frq_ptr ?j) < 2 ^ 63"
    "nat (ti_prx_ptr ?i - ti_prx_ptr ?j) < 2 ^ 63" "nat (ti_skip_offset ?i) < 2 ^ 63"
    using e string_diff_le [of "fst e0" "fst e"] by (auto simp: dict_entry_ok_def info_ok_def follows_def FRT_MAX_WORD_SIZE_def)
  note b = this [THEN length_enc_v_63]
  have "length (drop ?d (fst e)) \<le> 254" using e(1) by (auto simp: dict_entry_ok_def FRT_MAX_WORD_SIZE_def)
  then show ?thesis unfolding enc_term_def Let_def using b by (simp del: length_drop)
qed

lemma term_at_bound:
  assumes "terms_ok ts" and "i \<le> length ts"
  shows "term_at sk ts i \<le> 400 * i"
  using assms(2)
proof (induction i)
  case (Suc i)
  note e = terms_ok_nth [OF assms(1), of i]
  have "term_at sk ts (Suc i) = term_at sk ts i + length (enc_term sk ((no_term # ts) ! i) (ts ! i))" using Suc.prems by (simp add: term_at_Suc)
  also have "length (enc_term sk ((no_term # ts) ! i) (ts ! i)) \<le> 390" using Suc.prems by (intro length_enc_term e) simp_all
  finally show ?case using Suc by simp
qed (simp add: term_at_def)

lemma length_enc_index: "index_chain e0 p0 xs \<Longrightarrow> dict_entry_ok e0 \<Longrightarrow> length (enc_index sk e0 p0 xs) \<le> 400 * length xs"
proof (induction xs arbitrary: e0 p0)
  case (Cons x xs)
  then have "length (enc_term sk e0 (fst x)) \<le> 390" "snd x - p0 < 2 ^ 63" by (auto intro!: length_enc_term)
  moreover have "length (enc_index sk (fst x) (snd x) xs) \<le> 400 * length xs" using Cons by simp
  ultimately show ?case using length_enc_v_63 [of "snd x - p0"] by simp
qed simp

lemma index_cnt_le: "0 < I \<Longrightarrow> index_cnt I ts \<le> length ts"
proof -
  assume I: "0 < I"
  show ?thesis
  proof (rule ccontr)
    assume "\<not> index_cnt I ts \<le> length ts"
    then have "length ts * I < length ts" using index_cnt_less [OF I, of "length ts" ts] by simp
    then show False using I by simp
  qed
qed

lemma field_bytes_bound:
  assumes T: "terms_ok ts" and I: "0 < I" and P: "P + 400 * length ts < 2 ^ 63"
  shows "P + term_at sk ts (length ts) < 2 ^ 63" and "length (enc_terms sk no_term ts) \<le> 400 * length ts"
    and "length (enc_index sk no_term 0 (index_of I sk P ts)) \<le> 400 * length ts"
proof -
  show l: "length (enc_terms sk no_term ts) \<le> 400 * length ts" using term_at_bound [OF T order_refl, of sk] by (simp add: term_at_def)
  show s: "P + term_at sk ts (length ts) < 2 ^ 63" using P l by (simp add: term_at_def)
  have "length (enc_index sk no_term 0 (index_of I sk P ts)) \<le> 400 * length (index_of I sk P ts)"
    by (intro length_enc_index index_of_chain [OF T I s] dict_entry_ok_no_term)
  then show "length (enc_index sk no_term 0 (index_of I sk P ts)) \<le> 400 * length ts"
    using index_cnt_le [OF I, of ts] by (simp add: index_of_def)
qed

definition total :: "(int \<times> entry list) list \<Rightarrow> nat" where
  "total fs = sum_list (map (length \<circ> snd) fs)"

lemma tiw_add_fields_ok:
  assumes "tiw_idle store w D xs sgm I sk bx bs bf a b tiw" and "a < 2 ^ 31" "b < 2 ^ 31" and I: "0 < I"
    and "\<forall>x \<in> set fs. 0 \<le> fst x \<and> fst x < 2 ^ 31 \<and> terms_ok (snd x)"
    and "length bx + 400 * total fs < 2 ^ 63" "length bs + 400 * total fs < 2 ^ 63" "total fs < 2 ^ 31"
    and "ps = place I sk (length bx) (length bs) fs"
  shows "\<exists>tiw' w' a' b' r. tiw_add_fields RAM_OUT_STREAM_METHODS tiw fs w = Inr (tiw', w') \<and>
    tiw_idle store w' D xs sgm I sk (bx @ ix_bytes I sk ps) (bs @ is_bytes sk ps) (bf @ r) a' b' tiw' \<and> a' < 2 ^ 31 \<and> b' < 2 ^ 31 \<and>
    r @ enc_v a' @ enc_v b' = enc_v a @ enc_v b @ fx_bytes I ps \<and> tiw_field_count tiw' = tiw_field_count tiw + of_nat (length fs)"
  using assms
proof (induction fs arbitrary: tiw w bx bs bf a b ps)
  case Nil
  then show ?case by (intro exI [of _ tiw] exI [of _ w] exI [of _ a] exI [of _ b] exI [of _ "[]"])
      (simp add: ix_bytes_def is_bytes_def fx_bytes_def)
next
  case (Cons x fs)
  obtain f ts where x: "x = (f, ts)" by (cases x)
  have f: "0 \<le> f" "f < 2 ^ 31" and T: "terms_ok ts" using Cons.prems(5) by (simp_all add: x)
  have tot: "total (x # fs) = length ts + total fs" by (simp add: x total_def)
  have sz: "length bx < 2 ^ 63" "length bs < 2 ^ 63" "length bs + 400 * length ts < 2 ^ 63" "length ts < 2 ^ 31"
    using Cons.prems(6-8) by (simp_all add: tot)
  note bb = field_bytes_bound [OF T I sz(3), of sk]
  let ?bf = "bf @ enc_v a @ enc_v b @ enc_v (nat f) @ enc_v (length bx) @ enc_v (length bs)" and ?idx = "index_of I sk (length bs) ts"
  from tiw_start_field_ok [OF Cons.prems(1-3) sz(1,2) f] obtain tiw1 w1 where
    1: "frt_tiw_start_field RAM_OUT_STREAM_METHODS tiw f w = Inr (tiw1, w1)" "tiw_ok store w1 D xs sgm I sk bx bs ?bf [] [] tiw1"
      "tiw_field_count tiw1 = tiw_field_count tiw + 1" by blast
  have e: "index_of I sk (length bs) [] = []" using I by (simp add: index_of_def index_cnt_def)
  have T': "terms_ok ([] @ ts)" and s': "length bs + term_at sk ([] @ ts) (length ([] @ ts)) < 2 ^ 63" using T bb(1) by simp_all
  from tiw_add_terms_ok [OF 1(2) [folded e] T' I s'] obtain tiw2 w2 where
    2: "tiw_add_terms RAM_OUT_STREAM_METHODS tiw1 ts w1 = Inr (tiw2, w2)" "tiw_ok store w2 D xs sgm I sk bx bs ?bf ?idx ts tiw2"
      "tiw_field_count tiw2 = tiw_field_count tiw1" unfolding append_Nil by blast
  have il: "length ?idx = index_cnt I ts" by (simp add: index_of_def)
  let ?bx = "bx @ enc_index sk no_term 0 ?idx" and ?bs = "bs @ enc_terms sk no_term ts" and ?ps = "place I sk (length bx) (length bs) (x # fs)"
  have "index_cnt I ts < 2 ^ 31" using index_cnt_le [OF I, of ts] sz(4) by simp
  moreover have "\<forall>x \<in> set fs. 0 \<le> fst x \<and> fst x < 2 ^ 31 \<and> terms_ok (snd x)" using Cons.prems(5) by simp
  moreover have "length ?bx + 400 * total fs < 2 ^ 63" "length ?bs + 400 * total fs < 2 ^ 63" "total fs < 2 ^ 31"
    using Cons.prems(6-8) bb(2,3) by (simp_all add: tot)
  ultimately obtain tiw3 w3 a' b' r where
    3: "tiw_add_fields RAM_OUT_STREAM_METHODS tiw2 fs w2 = Inr (tiw3, w3)"
      "tiw_idle store w3 D xs sgm I sk (?bx @ ix_bytes I sk (place I sk (length ?bx) (length ?bs) fs)) (?bs @ is_bytes sk (place I sk (length ?bx) (length ?bs) fs))
        (?bf @ r) a' b' tiw3" "a' < 2 ^ 31" "b' < 2 ^ 31"
      "r @ enc_v a' @ enc_v b' = enc_v (index_cnt I ts) @ enc_v (length ts) @ fx_bytes I (place I sk (length ?bx) (length ?bs) fs)"
      "tiw_field_count tiw3 = tiw_field_count tiw2 + of_nat (length fs)"
    using Cons.IH [OF tiw_idle [OF 2(2)] _ sz(4) I _ _ _ _ refl] unfolding il by blast
  have ps: "ps = (f, length bx, length bs, ts) # place I sk (length ?bx) (length ?bs) fs" using Cons.prems(9) by (simp add: x)
  show ?case
  proof (intro exI conjI)
    show "tiw_add_fields RAM_OUT_STREAM_METHODS tiw (x # fs) w = Inr (tiw3, w3)" using 1(1) 2(1) 3(1) by (simp add: x)
    show "tiw_idle store w3 D xs sgm I sk (bx @ ix_bytes I sk ps) (bs @ is_bytes sk ps)
        (bf @ (enc_v a @ enc_v b @ enc_v (nat f) @ enc_v (length bx) @ enc_v (length bs) @ r)) a' b' tiw3"
      using 3(2) by (simp add: ps ix_bytes_def is_bytes_def)
    show "(enc_v a @ enc_v b @ enc_v (nat f) @ enc_v (length bx) @ enc_v (length bs) @ r) @ enc_v a' @ enc_v b' = enc_v a @ enc_v b @ fx_bytes I ps"
      using 3(5) by (simp add: ps fx_bytes_def)
    show "tiw_field_count tiw3 = tiw_field_count tiw + of_nat (length (x # fs))" using 1(3) 2(3) 3(6) by simp
  qed (use 3(3,4) in simp_all)
qed

section \<open>Opening and closing the writer\<close>

definition dict_files :: "byte list \<Rightarrow> byte list set" where
  "dict_files sgm = {sgm @ str ''.tix'', sgm @ str ''.tis'', sgm @ str ''.tfx''}"

definition tfx_bytes :: "nat \<Rightarrow> int \<Rightarrow> (int \<times> entry list) list \<Rightarrow> byte list" where
  "tfx_bytes I sk fs = enc_u32 (of_nat (length fs)) @ enc_v I @ enc_v (nat sk) @ fx_bytes I (place I sk 0 0 fs)"

definition dict_dir ::
  "(byte list \<Rightarrow> byte list option) \<Rightarrow> byte list \<Rightarrow> nat \<Rightarrow> int \<Rightarrow> (int \<times> entry list) list \<Rightarrow> byte list \<Rightarrow> byte list option" where
  "dict_dir D sgm I sk fs = D(sgm @ str ''.tfx'' \<mapsto> tfx_bytes I sk fs, sgm @ str ''.tix'' \<mapsto> ix_bytes I sk (place I sk 0 0 fs),
     sgm @ str ''.tis'' \<mapsto> is_bytes sk (place I sk 0 0 fs))"

definition write_dictionary ::
  "ram_store \<Rightarrow> byte list \<Rightarrow> int \<Rightarrow> int \<Rightarrow> (int \<times> entry list) list \<Rightarrow> ram_heap \<Rightarrow> (ram_store \<times> ram_heap) res" where
  "write_dictionary store sgm index_interval skip_interval fs w =
     ebind (frt_tiw_open store sgm index_interval skip_interval w) (\<lambda>(tiw, store, w).
     ebind (tiw_add_fields RAM_OUT_STREAM_METHODS tiw fs w) (\<lambda>(tiw, w).
     ebind (frt_tiw_close tiw w) (\<lambda>w. Inr (store, w))))"

lemma tiw_open_ok:
  assumes S: "ram_ok store w" and small: "h_size (dir_ht store) + 2 < 2 ^ 28" and sgm: "length sgm + 5 \<le> FRT_SEGMENT_NAME_MAX_LENGTH"
    and new: "\<forall>n \<in> dict_files sgm. ram_dir store w n = None" and sk: "0 \<le> sk"
  shows "\<exists>tiw store' w'. frt_tiw_open store sgm (int I) sk w = Inr (tiw, store', w') \<and>
    tiw_idle store' w' (ram_dir store w) [] sgm I sk [] [] (enc_u32 0) I (nat sk) tiw \<and> tiw_field_count tiw = 0 \<and>
    h_size (dir_ht store') \<le> h_size (dir_ht store) + 3"
proof -
  let ?D = "ram_dir store w" and ?x = "sgm @ str ''.tix''" and ?s = "sgm @ str ''.tis''" and ?f = "sgm @ str ''.tfx''"
  have O: "writing_all store w ?D []" using S by (simp add: writing_all_nil)
  have n: "?D ?x = None" "?D ?s = None" "?D ?f = None" using new by (simp_all add: dict_files_def)
  have "h_size (dir_ht store) < 2 ^ 28" using small by simp
  from writing_all_new [OF O this, of "(0, ?x)"] n(1) obtain os1 store1 w1 where
    1: "ram_new_output store (0, ?x) w = Inr (os1, store1, w1)" "writing_all store1 w1 ?D [(?x, os1, [])]"
      "h_size (dir_ht store1) \<le> h_size (dir_ht store) + 1" by auto
  have "h_size (dir_ht store1) < 2 ^ 28" using small 1(3) by simp
  from writing_all_new [OF 1(2) this, of "(0, ?s)"] n(2) obtain os2 store2 w2 where
    2: "ram_new_output store1 (0, ?s) w1 = Inr (os2, store2, w2)" "writing_all store2 w2 ?D [(?s, os2, []), (?x, os1, [])]"
      "h_size (dir_ht store2) \<le> h_size (dir_ht store1) + 1" by auto
  have "h_size (dir_ht store2) < 2 ^ 28" using small 1(3) 2(3) by simp
  from writing_all_new [OF 2(2) this, of "(0, ?f)"] n(3) obtain os3 store3 w3 where
    3: "ram_new_output store2 (0, ?f) w2 = Inr (os3, store3, w3)" "writing_all store3 w3 ?D [(?f, os3, []), (?s, os2, []), (?x, os1, [])]"
      "h_size (dir_ht store3) \<le> h_size (dir_ht store2) + 1" by auto
  from writing_all_writes [OF 3(2) ram_out.writes_u32 [of 0]] obtain os4 w4 where
    4: "frt_os_write_u32 RAM_OUT_STREAM_METHODS os3 0 w3 = Inr (os4, w4)"
      "writing_all store3 w4 ?D [(?f, os4, enc_u32 0), (?s, os2, []), (?x, os1, [])]" by auto
  have "writing_all store3 w4 ?D [(?x, os1, []), (?s, os2, []), (?f, os4, enc_u32 0)]"
    using writing_all_swap [OF writing_all_rotate [OF 4(2)]] .
  moreover have "h_size (dir_ht store3) \<le> h_size (dir_ht store) + 3" using 1(3) 2(3) 3(3) by simp
  ultimately show ?thesis using 1(1) 2(1) 3(1) 4(1) sgm sk by (auto simp: frt_tiw_open_def frt_tw_new_def tiw_idle_def)
qed

lemma write_at_head: "length xs = length zs \<Longrightarrow> write_at (xs @ ys) 0 zs = zs @ ys"
  by (simp add: write_at_def)

lemma tiw_close_ok:
  assumes W: "tiw_idle store w D xs sgm I sk bx bs (enc_u32 0 @ r) a b tiw" and ab: "a < 2 ^ 31" "b < 2 ^ 31"
  shows "\<exists>w'. frt_tiw_close tiw w = Inr w' \<and> writing_all store w'
    (D(sgm @ str ''.tfx'' \<mapsto> enc_u32 (tiw_field_count tiw) @ r @ enc_v a @ enc_v b, sgm @ str ''.tix'' \<mapsto> bx, sgm @ str ''.tis'' \<mapsto> bs)) xs"
proof -
  let ?tix = "tiw_tix_writer tiw" and ?tis = "tiw_tis_writer tiw" and ?n = "tiw_field_count tiw"
  have w: "tw_counter ?tix = int a" "tw_counter ?tis = int b" and O: "writing_all store w D ((sgm @ str ''.tix'', tw_os ?tix, bx) #
      (sgm @ str ''.tis'', tw_os ?tis, bs) # (sgm @ str ''.tfx'', tiw_tfx_out tiw, enc_u32 0 @ r) # xs)" using W by (simp_all add: tiw_idle_def)
  have c: "word_of_int (int a) = (of_nat a :: u32)" "word_of_int (int b) = (of_nat b :: u32)" "a < 2 ^ 32" "b < 2 ^ 32" using ab by simp_all
  have "ram_out.writes (\<lambda>os w. ebind (frt_os_write_vint RAM_OUT_STREAM_METHODS os (of_nat a) w) (\<lambda>(os, w).
      frt_os_write_vint RAM_OUT_STREAM_METHODS os (of_nat b) w)) (enc_v a @ enc_v b)"
    by (intro ram_out.writes_bind ram_out.writes_vint_nat c(3,4))
  from writing_all_writes [OF writing_all_rotate [OF writing_all_rotate [OF O]] this] obtain os1 w1 where
    1: "ebind (frt_os_write_vint RAM_OUT_STREAM_METHODS (tiw_tfx_out tiw) (of_nat a) w) (\<lambda>(os, w).
      frt_os_write_vint RAM_OUT_STREAM_METHODS os (of_nat b) w) = Inr (os1, w1)"
    "writing_all store w1 D ((sgm @ str ''.tfx'', os1, (enc_u32 0 @ r) @ enc_v a @ enc_v b) # (sgm @ str ''.tix'', tw_os ?tix, bx) # (sgm @ str ''.tis'', tw_os ?tis, bs) # xs)"
    by blast
  have p: "write_at ((enc_u32 0 @ r) @ enc_v a @ enc_v b) 0 (enc_u32 ?n) = enc_u32 ?n @ r @ enc_v a @ enc_v b"
    using write_at_head [of "enc_u32 0" "enc_u32 ?n" "r @ enc_v a @ enc_v b"] by simp
  have ne: "sgm @ str ''.tfx'' \<noteq> []" "sgm @ str ''.tix'' \<noteq> []" "sgm @ str ''.tis'' \<noteq> []" by simp_all
  from writing_all_patch [OF 1(2) ram_out.writes_u32 [of ?n] ne(1)] obtain w2 where
    2: "ebind (frt_os_seek RAM_OUT_STREAM_METHODS os1 0 w1) (\<lambda>(os, w). ebind (frt_os_write_u32 RAM_OUT_STREAM_METHODS os ?n w) (\<lambda>(os, w).
      frt_os_close RAM_OUT_STREAM_METHODS os w)) = Inr w2"
    "writing_all store w2 (D(sgm @ str ''.tfx'' \<mapsto> enc_u32 ?n @ r @ enc_v a @ enc_v b)) ((sgm @ str ''.tix'', tw_os ?tix, bx) # (sgm @ str ''.tis'', tw_os ?tis, bs) # xs)"
    unfolding p by blast
  from writing_all_close [OF 2(2) ne(2)] obtain w3 where
    3: "frt_os_close RAM_OUT_STREAM_METHODS (tw_os ?tix) w2 = Inr w3"
      "writing_all store w3 (D(sgm @ str ''.tfx'' \<mapsto> enc_u32 ?n @ r @ enc_v a @ enc_v b, sgm @ str ''.tix'' \<mapsto> bx)) ((sgm @ str ''.tis'', tw_os ?tis, bs) # xs)" by blast
  from writing_all_close [OF 3(2) ne(3)] obtain w4 where
    4: "frt_os_close RAM_OUT_STREAM_METHODS (tw_os ?tis) w3 = Inr w4" "writing_all store w4
      (D(sgm @ str ''.tfx'' \<mapsto> enc_u32 ?n @ r @ enc_v a @ enc_v b, sgm @ str ''.tix'' \<mapsto> bx, sgm @ str ''.tis'' \<mapsto> bs)) xs" by blast
  have "frt_tiw_close tiw w = ebind (ebind (frt_os_write_vint RAM_OUT_STREAM_METHODS (tiw_tfx_out tiw) (of_nat a) w) (\<lambda>(os, w).
      frt_os_write_vint RAM_OUT_STREAM_METHODS os (of_nat b) w)) (\<lambda>(os1, w1).
      ebind (ebind (frt_os_seek RAM_OUT_STREAM_METHODS os1 0 w1) (\<lambda>(os, w). ebind (frt_os_write_u32 RAM_OUT_STREAM_METHODS os ?n w) (\<lambda>(os, w).
        frt_os_close RAM_OUT_STREAM_METHODS os w))) (\<lambda>w. ebind (tw_close ?tix w) (tw_close ?tis)))"
    by (simp only: frt_tiw_close_def w c(1,2) ebind_assoc case_prod_beta')
  also have "\<dots> = Inr w4" unfolding 1(1) ebind_simps prod.case 2(1) using 3(1) 4(1) by (simp add: tw_close_def)
  finally show ?thesis using 4(2) by blast
qed

theorem write_dictionary_ok:
  assumes S: "ram_ok store w" and small: "h_size (dir_ht store) + 2 < 2 ^ 28" and sgm: "length sgm + 5 \<le> FRT_SEGMENT_NAME_MAX_LENGTH"
    and new: "\<forall>n \<in> dict_files sgm. ram_dir store w n = None" and fs: "dict_ok fs"
    and I: "0 < I" "I < 2 ^ 31" and sk: "0 \<le> sk" "sk < 2 ^ 31"
  shows "\<exists>store' w'. write_dictionary store sgm (int I) sk fs w = Inr (store', w') \<and> ram_ok store' w' \<and>
    ram_dir store' w' = dict_dir (ram_dir store w) sgm I sk fs"
proof -
  from tiw_open_ok [OF S small sgm new sk(1)] obtain tiw store1 w1 where
    1: "frt_tiw_open store sgm (int I) sk w = Inr (tiw, store1, w1)"
      "tiw_idle store1 w1 (ram_dir store w) [] sgm I sk [] [] (enc_u32 0) I (nat sk) tiw" "tiw_field_count tiw = 0" by blast
  let ?ps = "place I sk 0 0 fs"
  have "nat sk < 2 ^ 31" using sk by simp
  moreover have "\<forall>x \<in> set fs. 0 \<le> fst x \<and> fst x < 2 ^ 31 \<and> terms_ok (snd x)" "total fs < 2 ^ 31"
    using fs by (auto simp: dict_ok_def total_def)
  moreover have "length ([] :: byte list) + 400 * total fs < 2 ^ 63" using calculation by simp
  moreover have "?ps = place I sk (length ([] :: byte list)) (length ([] :: byte list)) fs" by simp
  ultimately obtain tiw2 w2 a b r where
    2: "tiw_add_fields RAM_OUT_STREAM_METHODS tiw fs w1 = Inr (tiw2, w2)"
      "tiw_idle store1 w2 (ram_dir store w) [] sgm I sk ([] @ ix_bytes I sk ?ps) ([] @ is_bytes sk ?ps) (enc_u32 0 @ r) a b tiw2"
      "a < 2 ^ 31" "b < 2 ^ 31" "r @ enc_v a @ enc_v b = enc_v I @ enc_v (nat sk) @ fx_bytes I ?ps" "tiw_field_count tiw2 = tiw_field_count tiw + of_nat (length fs)"
    using tiw_add_fields_ok [OF 1(2) I(2) _ I(1), of fs ?ps] by blast
  from tiw_close_ok [OF 2(2-4)] 1 2 show ?thesis
    by (auto simp: writing_all_nil write_dictionary_def dict_dir_def tfx_bytes_def)
qed

section \<open>Reading the fields\<close>

definition sti_of :: "nat \<Rightarrow> placed \<Rightarrow> seg_term_index" where
  "sti_of I = (\<lambda>(f, X, P, ts). \<lparr>sti_index_ptr = int X, sti_ptr = int P, sti_index_cnt = int (index_cnt I ts), sti_size = int (length ts),
     sti_index = None\<rparr>)"

definition field_of :: "placed \<Rightarrow> field" where
  "field_of = (\<lambda>(f, X, P, ts). (f, P, ts))"

definition placed_ok :: "nat \<Rightarrow> placed \<Rightarrow> bool" where
  "placed_ok I = (\<lambda>(f, X, P, ts). 0 \<le> f \<and> f < 2 ^ 31 \<and> X < 2 ^ 63 \<and> P < 2 ^ 63 \<and> index_cnt I ts < 2 ^ 31 \<and> length ts < 2 ^ 31)"

definition fields_in :: "(unit, nat) frt_hash \<Rightarrow> field list \<Rightarrow> bool" where
  "fields_in dict FS \<longleftrightarrow> int_table dict \<and> h_size dict = int (length FS) \<and>
     (\<forall>f. field_num_ok f \<longrightarrow> int_map dict (word_of_int f) = map_option Some (field_pos FS f))"

lemma field_num_inj: "field_num_ok f \<Longrightarrow> field_num_ok g \<Longrightarrow> (word_of_int f :: u64) = word_of_int g \<longleftrightarrow> f = g"
proof
  assume f: "field_num_ok f" "field_num_ok g" and e: "(word_of_int f :: u64) = word_of_int g"
  have "sint (word_of_int f :: u64) = f" "sint (word_of_int g :: u64) = g"
    using f by (simp_all add: field_num_ok_def signed_of_int signed_take_bit_int_eq_self)
  with e show "f = g" by metis
qed simp

lemma fields_in_set:
  assumes D: "fields_in dict FS" and f: "field_num_ok f" and new: "f \<notin> fst ` set FS" and small: "length FS < 2 ^ 28"
  shows "\<exists>r dict'. frt_h_set_int dict (word_of_int f) (Some (length FS)) = Inr (r, dict') \<and> fields_in dict' (FS @ [(f, x)])"
proof -
  have T: "int_table dict" and sz: "h_size dict < 2 ^ 28" using D small by (simp_all add: fields_in_def)
  have "field_pos FS f = None" using new by (simp add: field_pos_None map_of_eq_None_iff)
  then have m: "int_map dict (word_of_int f) = None" using D f by (simp add: fields_in_def)
  from int_set_ext_new [OF T m sz] obtain j self1 where
    1: "frt_h_set_ext dict (PInt (word_of_int f)) = Inr (True, j, self1)" "h_size self1 = h_size dict + 1"
      "int_table (set_entry self1 j PDummyInt (Some (length FS)))"
      "\<forall>z. int_map (set_entry self1 j PDummyInt (Some (length FS))) z = (if word_of_int f = z then Some (Some (length FS)) else int_map dict z)"
    by auto
  have "fields_in (set_entry self1 j PDummyInt (Some (length FS))) (FS @ [(f, x)])"
    unfolding fields_in_def
  proof (intro conjI allI impI)
    show "h_size (set_entry self1 j PDummyInt (Some (length FS))) = int (length (FS @ [(f, x)]))"
      using D 1(2) by (simp add: fields_in_def set_entry_def)
    fix g assume g: "field_num_ok g"
    show "int_map (set_entry self1 j PDummyInt (Some (length FS))) (word_of_int g) = map_option Some (field_pos (FS @ [(f, x)]) g)"
      using 1(4) D g field_num_inj [OF f g] \<open>field_pos FS f = None\<close>
      by (auto simp: fields_in_def field_pos_snoc split: option.splits)
  qed (rule 1(3))
  then show ?thesis using 1(1) by (simp add: frt_h_set_int_def Let_def)
qed

lemma scast_field: "0 \<le> f \<Longrightarrow> f < 2 ^ 31 \<Longrightarrow> (scast (word_of_int f :: u32) :: u64) = word_of_int f"
  using sint_word_of_int_32 [of f] by (simp add: scast_eq)

context in_source
begin

lemma sfi_read_fields_ok:
  assumes "is_ok is bs p" and "p \<le> length bs" and "drop p bs = fx_bytes I ps @ ys" and "fields_in dict FS" and "length stis = length FS"
    and "\<forall>x \<in> set ps. placed_ok I x" and "distinct (map fst FS @ map fst ps)" and "length FS + length ps < 2 ^ 28"
  shows "\<exists>dict' is' p'. sfi_read_fields m (length ps) dict stis is = Inr (dict', stis @ map (sti_of I) ps, is') \<and>
    fields_in dict' (FS @ map field_of ps) \<and> is_ok is' bs p'"
  using assms
proof (induction ps arbitrary: "is" p dict FS stis)
  case Nil
  then show ?case by auto
next
  case (Cons x ps)
  obtain f X P ts where x: "x = (f, X, P, ts)" by (cases x)
  have n: "0 \<le> f" "f < 2 ^ 31" "X < 2 ^ 63" "P < 2 ^ 63" "index_cnt I ts < 2 ^ 31" "length ts < 2 ^ 31"
    using Cons.prems(6) by (simp_all add: x placed_ok_def)
  then have n32: "index_cnt I ts < 2 ^ 32" "length ts < 2 ^ 32" by simp_all
  have d0: "drop p bs = enc_v (nat f) @ (enc_v X @ enc_v P @ enc_v (index_cnt I ts) @ enc_v (length ts) @ fx_bytes I ps @ ys)"
    using Cons.prems(3) by (simp add: x fx_bytes_def)
  from decodesD [OF decodes_vint_int [OF n(1,2)] Cons.prems(1,2) d0] obtain is1 p1 where
    1: "frt_is_read_vint m is = Inr (word_of_int f, is1)" "is_ok is1 bs p1" "p1 \<le> length bs"
      "drop p1 bs = enc_v X @ (enc_v P @ enc_v (index_cnt I ts) @ enc_v (length ts) @ fx_bytes I ps @ ys)" by metis
  from decodesD [OF decodes_voff_t [OF n(3)] 1(2-4)] obtain is2 p2 where
    2: "frt_is_read_voff_t m is1 = Inr (int X, is2)" "is_ok is2 bs p2" "p2 \<le> length bs"
      "drop p2 bs = enc_v P @ (enc_v (index_cnt I ts) @ enc_v (length ts) @ fx_bytes I ps @ ys)" by metis
  from decodesD [OF decodes_voff_t [OF n(4)] 2(2-4)] obtain is3 p3 where
    3: "frt_is_read_voff_t m is2 = Inr (int P, is3)" "is_ok is3 bs p3" "p3 \<le> length bs"
      "drop p3 bs = enc_v (index_cnt I ts) @ (enc_v (length ts) @ fx_bytes I ps @ ys)" by metis
  from decodesD [OF decodes_vint_nat [OF n32(1)] 3(2-4)] obtain is4 p4 where
    4: "frt_is_read_vint m is3 = Inr (of_nat (index_cnt I ts), is4)" "is_ok is4 bs p4" "p4 \<le> length bs"
      "drop p4 bs = enc_v (length ts) @ (fx_bytes I ps @ ys)" by metis
  from decodesD [OF decodes_vint_nat [OF n32(2)] 4(2-4)] obtain is5 p5 where
    5: "frt_is_read_vint m is4 = Inr (of_nat (length ts), is5)" "is_ok is5 bs p5" "p5 \<le> length bs" "drop p5 bs = fx_bytes I ps @ ys" by metis
  have f: "field_num_ok f" "f \<notin> fst ` set FS" "length FS < 2 ^ 28" using n(1,2) Cons.prems(7,8) by (auto simp: x field_num_ok_def)
  from fields_in_set [OF Cons.prems(4) f, of "(P, ts)"] obtain r dict1 where
    6: "frt_h_set_int dict (word_of_int f) (Some (length stis)) = Inr (r, dict1)" "fields_in dict1 (FS @ [(f, P, ts)])"
    unfolding Cons.prems(5) by blast
  have s: "sint (of_nat (index_cnt I ts) :: u32) = int (index_cnt I ts)" "sint (of_nat (length ts) :: u32) = int (length ts)"
    using n(5,6) by (simp_all add: signed_of_nat signed_take_bit_int_eq_self)
  have "distinct (map fst (FS @ [(f, P, ts)]) @ map fst ps)" "length (FS @ [(f, P, ts)]) + length ps < 2 ^ 28"
    "length (stis @ [sti_of I x]) = length (FS @ [(f, P, ts)])" "\<forall>x \<in> set ps. placed_ok I x"
    using Cons.prems(5-8) by (auto simp: x)
  from Cons.IH [OF 5(2-4) 6(2) this(3,4) this(1,2)] obtain dict2 is6 p6 where
    7: "sfi_read_fields m (length ps) dict1 (stis @ [sti_of I x]) is5 = Inr (dict2, (stis @ [sti_of I x]) @ map (sti_of I) ps, is6)"
      "fields_in dict2 ((FS @ [(f, P, ts)]) @ map field_of ps)" "is_ok is6 bs p6" by blast
  have "sfi_read_fields m (length (x # ps)) dict stis is = Inr (dict2, stis @ map (sti_of I) (x # ps), is6)"
    using 1(1) 2(1) 3(1) 4(1) 5(1) 6(1) 7(1) n(1,2) by (simp add: scast_field s Let_def) (simp add: x sti_of_def)
  then show ?case using 7(2,3) by (auto simp: x field_of_def)
qed

lemma sfi_read_body_ok:
  assumes ok: "is_ok is (tfx_bytes I sk fs) 0" and fs: "\<forall>x \<in> set (place I sk 0 0 fs). placed_ok I x" "distinct (map fst fs)" "length fs < 2 ^ 28"
    and ps: "length (place I sk 0 0 fs) = length fs" "map fst (place I sk 0 0 fs) = map fst fs"
    and I: "I < 2 ^ 31" and sk: "0 \<le> sk" "sk < 2 ^ 31"
  shows "\<exists>dict is' p. sfi_read_body m is = Inr ((int I, sk, dict, map (sti_of I) (place I sk 0 0 fs)), is') \<and>
    fields_in dict (map field_of (place I sk 0 0 fs)) \<and> is_ok is' (tfx_bytes I sk fs) p"
proof -
  let ?bs = "tfx_bytes I sk fs" and ?ps = "place I sk 0 0 fs" and ?n = "of_nat (length fs) :: u32"
  have d0: "0 \<le> length ?bs" "drop 0 ?bs = enc_u32 ?n @ (enc_v I @ enc_v (nat sk) @ fx_bytes I ?ps)" by (simp_all add: tfx_bytes_def)
  from decodesD [OF decodes_u32 ok d0] obtain is1 p1 where
    1: "frt_is_read_u32 m is = Inr (?n, is1)" "is_ok is1 ?bs p1" "p1 \<le> length ?bs" "drop p1 ?bs = enc_v I @ (enc_v (nat sk) @ fx_bytes I ?ps)" by metis
  have I32: "I < 2 ^ 32" using I by simp
  from decodesD [OF decodes_vint_nat [OF I32] 1(2-4)] obtain is2 p2 where
    2: "frt_is_read_vint m is1 = Inr (of_nat I, is2)" "is_ok is2 ?bs p2" "p2 \<le> length ?bs" "drop p2 ?bs = enc_v (nat sk) @ fx_bytes I ?ps" by metis
  from decodesD [OF decodes_vint_int [OF sk] 2(2-4)] obtain is3 p3 where
    3: "frt_is_read_vint m is2 = Inr (word_of_int sk, is3)" "is_ok is3 ?bs p3" "p3 \<le> length ?bs" "drop p3 ?bs = fx_bytes I ?ps @ []" by (metis append_Nil2)
  have n: "nat (sint ?n) = length ?ps" using fs(3) ps(1) by (simp add: signed_of_nat signed_take_bit_int_eq_self)
  have new: "fields_in (frt_h_new_int True) []"
    using int_table_new [of "frt_h_new_int True :: (unit, nat) frt_hash" True] by (simp add: fields_in_def)
  have "distinct (map fst ([] :: field list) @ map fst ?ps)" "length ([] :: field list) + length ?ps < 2 ^ 28" using fs(2,3) ps by simp_all
  from sfi_read_fields_ok [OF 3(2-4) new _ fs(1) this, of "[]"] obtain dict is4 p4 where
    4: "sfi_read_fields m (length ?ps) (frt_h_new_int True) [] is3 = Inr (dict, map (sti_of I) ?ps, is4)" "fields_in dict (map field_of ?ps)" "is_ok is4 ?bs p4"
    by auto
  have s: "sint (of_nat I :: u32) = int I" "sint (word_of_int sk :: u32) = sk"
    using I sk by (simp_all add: signed_of_nat signed_take_bit_int_eq_self sint_word_of_int_32)
  have "sfi_read_body m is = Inr ((int I, sk, dict, map (sti_of I) ?ps), is4)"
    unfolding sfi_read_body_def 1(1) ebind_simps prod.case 2(1) 3(1) n 4(1) s ..
  then show ?thesis using 4(2,3) by blast
qed

end

text \<open>A RAM stream that stays on its file.\<close>

interpretation ram_file: in_source "RAM_IN_STREAM_METHODS w" "\<lambda>f. ram_in_valid w f \<and> ri_rf f = r" "\<lambda>f. heap_bytes w (ri_rf f)"
  "\<lambda>f p. ri_pointer f = int p" for w r
proof (unfold_locales, goal_cases)
  case (1 f p n)
  then obtain rf where rf: "rh_files w (ri_rf f) = Some rf" "rf_ok rf" by (auto simp: ram_in_valid_def)
  then have "p + n \<le> nat (rf_len rf)" using 1 by (simp add: heap_bytes_def length_rf_bytes)
  with rf 1 show ?case
    by (simp add: RAM_IN_STREAM_METHODS_def rami_read_i_def rf_get_def rami_read_loop_ok heap_bytes_def ram_in_valid_def)
next
  case (2 f p)
  then show ?case by (auto simp: RAM_IN_STREAM_METHODS_def rami_seek_i_def ram_in_valid_def heap_bytes_def)
next
  case (3 f)
  then show ?case using ram_in.length_law by blast
qed

lemma is_ok_file: "ram_in.is_ok w is bs p \<Longrightarrow> ram_file.is_ok w (ri_rf (is_file is)) is bs p"
  unfolding ram_in.is_ok_def ram_file.is_ok_def by simp

lemma is_ok_fileD: "ram_file.is_ok w r is bs p \<Longrightarrow> ri_rf (is_file is) = r"
  unfolding ram_file.is_ok_def by simp

text \<open>Opening a file keeps the streams that are open; closing it again gives the heap back.\<close>

lemma ram_open_input_more:
  assumes S: "ram_ok store w" and f: "ram_dir store w (snd x) = Some bs"
  shows "\<exists>is store' w'. ram_open_input store x w = Inr (is, store', w') \<and> ram_ok store' w' \<and> ram_dir store' w' = ram_dir store w \<and>
    ram_in.is_ok w' is bs 0 \<and> (\<forall>j cs p. ram_in.is_ok w j cs p \<longrightarrow> ram_in.is_ok w' j cs p) \<and>
    rf_close (ri_rf (is_file is)) w' = Inr w \<and> ram_ok store' w \<and> ram_dir store' w = ram_dir store w"
proof -
  obtain "is" store' w' where 1: "ram_open_input store x w = Inr (is, store', w')" "ram_ok store' w'" "ram_dir store' w' = ram_dir store w"
    "ram_in.is_ok w' is bs 0" using ram_open_input_ok [OF S f] by blast
  have T: "tab_ok (dir_ht store)" using S by (simp add: ram_ok_def)
  obtain r where r: "ref_of (dir_ht store) (snd x) = Some r" using f by (auto simp: ram_dir_def)
  then have "file_ok w (snd x) r" using S by (simp add: ram_ok_def)
  then obtain rf where rf: "rh_files w r = Some rf" "rf_ok rf" "1 \<le> rf_ref_cnt rf" by (auto simp: file_ok_def)
  obtain ht where h: "frt_h_get (dir_ht store) (PKey x) = Inr (Some r, ht)" "tab_ok ht" "ref_of ht = ref_of (dir_ht store)"
    using T r by (rule_tac ht_get [of _ x]) auto
  have e: "is = frt_is_new \<lparr>ri_rf = r, ri_pointer = 0\<rparr>" "store' = store\<lparr>dir_ht := ht\<rparr>" "w' = rf_put w r (rf\<lparr>rf_ref_cnt := rf_ref_cnt rf + 1\<rparr>)"
    using 1(1) h(1) rf(1) by (simp_all add: ram_open_input_def FRT_REF_def rf_get_def)
  have b: "heap_bytes w' s = heap_bytes w s" for s using rf(1) by (simp add: e heap_bytes_def rf_put_def rf_bytes_def)
  have "ram_in_valid w j \<Longrightarrow> ram_in_valid w' j" for j using rf by (auto simp: e ram_in_valid_def rf_put_def rf_ok_def)
  then have keep: "\<forall>j cs p. ram_in.is_ok w j cs p \<longrightarrow> ram_in.is_ok w' j cs p" unfolding ram_in.is_ok_def unfolding b by auto
  have "(rh_files w)(r \<mapsto> rf) = rh_files w" using rf(1) by (rule map_upd_triv)
  then have "rf_close (ri_rf (is_file is)) w' = Inr w"
    using rf(3) by (simp add: e frt_is_new_def rf_close_def rf_get_def rf_put_def)
  with 1 keep ram_ok_get [OF S h(2,3)] e(2) show ?thesis by blast
qed

definition read_dictionary ::
  "ram_store \<Rightarrow> byte list \<Rightarrow> ram_heap \<Rightarrow> (ram_in term_infos_reader \<times> ram_in seg_field_index \<times> ram_store \<times> ram_heap) res" where
  "read_dictionary store sgm w =
     ebind (frt_sfi_open store sgm w) (\<lambda>(sfi, store, w).
     ebind (frt_tir_open store sfi sgm w) (\<lambda>(tir, store, w). Inr (tir, sfi, store, w)))"

text \<open>Where the fields lie in the files.\<close>

lemma place_simps: "length (place I sk X P fs) = length fs" "map fst (place I sk X P fs) = map fst fs"
  "map (\<lambda>(f, X, P, ts). (f, ts)) (place I sk X P fs) = fs"
  by (induction fs arbitrary: X P) auto

lemma lies_at_mid: "P = length xs \<Longrightarrow> lies_at (xs @ ys @ zs) P ys"
  by (simp add: lies_at_def)

definition placed_at :: "nat \<Rightarrow> int \<Rightarrow> byte list \<Rightarrow> byte list \<Rightarrow> placed \<Rightarrow> bool" where
  "placed_at I sk bx bs = (\<lambda>(f, X, P, ts). lies_at bx X (enc_index sk no_term 0 (index_of I sk P ts)) \<and> lies_at bs P (enc_terms sk no_term ts) \<and>
     terms_ok ts \<and> P + term_at sk ts (length ts) < 2 ^ 63 \<and> placed_ok I (f, X, P, ts))"

lemma place_lies:
  assumes "\<forall>x \<in> set fs. 0 \<le> fst x \<and> fst x < 2 ^ 31 \<and> terms_ok (snd x)" and I: "0 < I"
    and "length bx + 400 * total fs < 2 ^ 63" "length bs + 400 * total fs < 2 ^ 63" "total fs < 2 ^ 31"
  shows "\<forall>x \<in> set (place I sk (length bx) (length bs) fs). placed_at I sk (bx @ ix_bytes I sk (place I sk (length bx) (length bs) fs) @ cx)
    (bs @ is_bytes sk (place I sk (length bx) (length bs) fs) @ cs) x"
  using assms
proof (induction fs arbitrary: bx bs)
  case (Cons x fs)
  obtain f ts where x: "x = (f, ts)" by (cases x)
  have f: "0 \<le> f" "f < 2 ^ 31" and T: "terms_ok ts" using Cons.prems(1) by (simp_all add: x)
  have tot: "total (x # fs) = length ts + total fs" by (simp add: x total_def)
  have sz: "length bx < 2 ^ 63" "length bs < 2 ^ 63" "length bs + 400 * length ts < 2 ^ 63" "length ts < 2 ^ 31"
    using Cons.prems(3-5) by (simp_all add: tot)
  note bb = field_bytes_bound [OF T I sz(3), of sk]
  let ?ex = "enc_index sk no_term 0 (index_of I sk (length bs) ts)" and ?es = "enc_terms sk no_term ts"
  let ?ps = "place I sk (length (bx @ ?ex)) (length (bs @ ?es)) fs"
  have ps: "place I sk (length bx) (length bs) (x # fs) = (f, length bx, length bs, ts) # ?ps" by (simp add: x)
  have "index_cnt I ts < 2 ^ 31" using index_cnt_le [OF I, of ts] sz(4) by simp
  then have "placed_ok I (f, length bx, length bs, ts)" using f sz by (simp add: placed_ok_def)
  then have "placed_at I sk (bx @ ?ex @ ix_bytes I sk ?ps @ cx) (bs @ ?es @ is_bytes sk ?ps @ cs) (f, length bx, length bs, ts)"
    using T bb(1) by (simp add: placed_at_def lies_at_mid)
  moreover have "\<forall>x \<in> set ?ps. placed_at I sk ((bx @ ?ex) @ ix_bytes I sk ?ps @ cx) ((bs @ ?es) @ is_bytes sk ?ps @ cs) x"
    by (rule Cons.IH [OF _ I]) (use Cons.prems bb(2,3) in \<open>simp_all add: tot\<close>)
  ultimately show ?case unfolding ps by (simp add: ix_bytes_def is_bytes_def)
qed simp

definition dict_terms :: "(int \<times> entry list) list \<Rightarrow> int \<Rightarrow> entry list" where
  "dict_terms fs f = (case map_of fs f of None \<Rightarrow> [] | Some ts \<Rightarrow> ts)"

lemma terms_of_place: "terms_of (map field_of (place I sk X P fs)) f = dict_terms fs f"
  by (induction fs arbitrary: X P) (auto simp: terms_of_def dict_terms_def field_of_def)

lemma place_sti_ok:
  assumes "\<forall>x \<in> set ps. placed_at I sk bx bs x"
  shows "list_all2 (\<lambda>sti x. sti_ok bs bx sk I (fst (snd x)) (snd (snd x)) sti) (map (sti_of I) ps) (map field_of ps)"
  using assms
proof (induction ps)
  case (Cons x ps)
  obtain f X P ts where x: "x = (f, X, P, ts)" by (cases x)
  have "placed_at I sk bx bs (f, X, P, ts)" using Cons.prems by (simp add: x)
  then have "sti_ok bs bx sk I P ts (sti_of I (f, X, P, ts))" by (auto simp: sti_ok_def sti_of_def placed_at_def)
  then show ?case using Cons by (simp add: x field_of_def)
qed simp

theorem read_dictionary_ok:
  assumes S: "ram_ok store w" and dir: "ram_dir store w (sgm @ str ''.tfx'') = Some (tfx_bytes I sk fs)"
      "ram_dir store w (sgm @ str ''.tix'') = Some bx" "ram_dir store w (sgm @ str ''.tis'') = Some bs"
    and b: "bx = ix_bytes I sk (place I sk 0 0 fs)" "bs = is_bytes sk (place I sk 0 0 fs)"
    and sgm: "length sgm + 5 \<le> FRT_SEGMENT_NAME_MAX_LENGTH" and fs: "dict_ok fs" and I: "0 < I" "I < 2 ^ 31" and sk: "0 \<le> sk" "sk < 2 ^ 31"
  shows "\<exists>tir sfi store' w'. read_dictionary store sgm w = Inr (tir, sfi, store', w') \<and> ram_ok store' w' \<and> ram_dir store' w' = ram_dir store w \<and>
    ram_in.tir_ok w' bs bx sk I (map field_of (place I sk 0 0 fs)) tir sfi \<and> tir_field_num tir = - 1 \<and> tir_te tir = (\<lambda>_. None)"
proof -
  let ?ps = "place I sk 0 0 fs"
  have d: "\<forall>x \<in> set fs. 0 \<le> fst x \<and> fst x < 2 ^ 31 \<and> terms_ok (snd x)" "distinct (map fst fs)" "length fs < 2 ^ 28" "total fs < 2 ^ 31"
    using fs by (auto simp: dict_ok_def total_def)
  have "length ([] :: byte list) + 400 * total fs < 2 ^ 63" using d(4) by simp
  from place_lies [OF d(1) I(1) this this d(4), of sk "[]" "[]"] have lies: "\<forall>x \<in> set ?ps. placed_at I sk bx bs x" by (simp add: b)
  then have pok: "\<forall>x \<in> set ?ps. placed_ok I x" by (auto simp: placed_at_def)
  from ram_open_input_more [OF S, of "(0, sgm @ str ''.tfx'')"] dir(1) obtain is1 store1 w1 where
    1: "ram_open_input store (0, sgm @ str ''.tfx'') w = Inr (is1, store1, w1)" "ram_in.is_ok w1 is1 (tfx_bytes I sk fs) 0"
      "rf_close (ri_rf (is_file is1)) w1 = Inr w" "ram_ok store1 w" "ram_dir store1 w = ram_dir store w" by auto
  from ram_file.sfi_read_body_ok [OF is_ok_file [OF 1(2)] pok d(2,3) place_simps(1,2) I(2) sk] obtain dict is2 p where
    2: "sfi_read_body (RAM_IN_STREAM_METHODS w1) is1 = Inr ((int I, sk, dict, map (sti_of I) ?ps), is2)" "fields_in dict (map field_of ?ps)"
      "ram_file.is_ok w1 (ri_rf (is_file is1)) is2 (tfx_bytes I sk fs) p" by blast
  have close: "rami_close_i (is_file is2) w1 = Inr w" using 1(3) is_ok_fileD [OF 2(3)] by (simp add: rami_close_i_def)
  from ram_open_input_more [OF 1(4), of "(0, sgm @ str ''.tix'')"] dir(2) obtain is3 store3 w3 where
    3: "ram_open_input store1 (0, sgm @ str ''.tix'') w = Inr (is3, store3, w3)" "ram_ok store3 w3" "ram_dir store3 w3 = ram_dir store w"
      "ram_in.is_ok w3 is3 bx 0" by (auto simp: 1(5))
  from ram_open_input_more [OF 3(2), of "(0, sgm @ str ''.tis'')"] dir(3) obtain is4 store4 w4 where
    4: "ram_open_input store3 (0, sgm @ str ''.tis'') w3 = Inr (is4, store4, w4)" "ram_ok store4 w4" "ram_dir store4 w4 = ram_dir store w"
      "ram_in.is_ok w4 is4 bs 0" "\<forall>j cs p. ram_in.is_ok w3 j cs p \<longrightarrow> ram_in.is_ok w4 j cs p" by (auto simp: 3(3))
  let ?sfi = "\<lparr>sfi_skip_interval = sk, sfi_index_interval = int I, sfi_index_te = frt_ste_new is3 sk, sfi_field_dict = dict, sfi_stis = map (sti_of I) ?ps\<rparr>"
  let ?tir = "\<lparr>tir_orig_te = frt_ste_new is4 sk, tir_te = (\<lambda>_. None), tir_field_num = - 1\<rparr>"
  have sfi: "ram_in.sfi_ok w4 bs bx sk I (map field_of ?ps) ?sfi"
    unfolding ram_in.sfi_ok_def ram_in.index_te_ok_def
    using 2(2) 3(4) 4(5) I(1) place_sti_ok [OF lies] by (auto simp: fields_in_def frt_ste_new_def Option.bind_map_option)
  have "ram_in.stream_ok w4 bs sk (frt_ste_new is4 sk)" unfolding ram_in.stream_ok_def using 4(4) by (auto simp: frt_ste_new_def)
  then have tir: "ram_in.tir_ok w4 bs bx sk I (map field_of ?ps) ?tir ?sfi"
    unfolding ram_in.tir_ok_def using sfi by (simp add: field_num_ok_def)
  have "frt_sfi_open store sgm w = Inr (?sfi, store3, w3)"
    unfolding frt_sfi_open_def 1(1) ebind_simps prod.case 2(1) close 3(1) using sgm by simp
  moreover have "frt_tir_open store3 ?sfi sgm w3 = Inr (?tir, store4, w4)" 
    unfolding frt_tir_open_def 4(1) ebind_simps prod.case using sgm by simp
  ultimately have "read_dictionary store sgm w = Inr (?tir, ?sfi, store4, w4)" by (simp add: read_dictionary_def)
  then show ?thesis using 4(2,3) tir by (intro exI [of _ ?tir] exI [of _ ?sfi] exI [of _ store4] exI [of _ w4]) simp
qed

theorem dictionary_written:
  assumes S: "ram_ok store w" and small: "h_size (dir_ht store) + 2 < 2 ^ 28" and sgm: "length sgm + 5 \<le> FRT_SEGMENT_NAME_MAX_LENGTH"
    and new: "\<forall>n \<in> dict_files sgm. ram_dir store w n = None" and fs: "dict_ok fs"
    and I: "0 < I" "I < 2 ^ 31" and sk: "0 \<le> sk" "sk < 2 ^ 31"
  shows "\<exists>store1 w1 tir sfi store2 w2. write_dictionary store sgm (int I) sk fs w = Inr (store1, w1) \<and>
    (\<forall>n. n \<notin> dict_files sgm \<longrightarrow> ram_dir store1 w1 n = ram_dir store w n) \<and>
    read_dictionary store1 sgm w1 = Inr (tir, sfi, store2, w2) \<and>
    ram_in.tir_ok w2 (is_bytes sk (place I sk 0 0 fs)) (ix_bytes I sk (place I sk 0 0 fs)) sk I (map field_of (place I sk 0 0 fs)) tir sfi \<and>
    tir_field_num tir = - 1 \<and> tir_te tir = (\<lambda>_. None)"
proof -
  from write_dictionary_ok [OF S small sgm new fs I sk] obtain store1 w1 where
    1: "write_dictionary store sgm (int I) sk fs w = Inr (store1, w1)" "ram_ok store1 w1" "ram_dir store1 w1 = dict_dir (ram_dir store w) sgm I sk fs" by blast
  have d: "ram_dir store1 w1 (sgm @ str ''.tfx'') = Some (tfx_bytes I sk fs)"
      "ram_dir store1 w1 (sgm @ str ''.tix'') = Some (ix_bytes I sk (place I sk 0 0 fs))" "ram_dir store1 w1 (sgm @ str ''.tis'') = Some (is_bytes sk (place I sk 0 0 fs))"
    unfolding 1(3) dict_dir_def by simp_all
  have o: "\<forall>n. n \<notin> dict_files sgm \<longrightarrow> ram_dir store1 w1 n = ram_dir store w n" unfolding 1(3) dict_dir_def dict_files_def by simp
  from read_dictionary_ok [OF 1(2) d refl refl sgm fs I sk] 1(1) o show ?thesis by blast
qed

end
