(* ===== verification/FrtTermDocs.thy ===== *)
theory FrtTermDocs
  imports FrtTermDict FrtBitVector
begin

text \<open>
  The documents of a term in \<open>frt_index.c\<close>: the posting lists of a document writer, and \<open>FrtSegmentTermDocEnum\<close>, which
  reads what was written of them, with its data for skipping.

  \<^item> A posting is a document with the positions of the term in it; \<open>freq\<close> is their number. The lists are linked in a pool in
    the code.
  \<^item> \<open>seg_term_doc_enum\<close> is \<open>FrtSegmentTermDocEnum\<close>. \<open>tde_positions\<close> tells which of \<open>frt_stde_new\<close> and \<open>frt_stpe_new\<close> set
    its methods. The reader of the terms is passed beside it.
  \<^item> Division and remainder are those of C, which cut; a division by zero and a negative document number used as an index
    are \<open>UndefinedBehaviour\<close>.
\<close>

section \<open>Postings\<close>

record posting =
  p_doc_num :: int
  p_freq :: int
  p_occs :: "int list"

record posting_list =
  pl_term :: "byte list"
  pl_postings :: "posting list"

definition frt_p_new :: "int \<Rightarrow> int \<Rightarrow> posting" where
  "frt_p_new doc_num pos = \<lparr>p_doc_num = doc_num, p_freq = 1, p_occs = [pos]\<rparr>"

definition frt_pl_new :: "byte list \<Rightarrow> posting \<Rightarrow> posting_list" where
  "frt_pl_new term p = \<lparr>pl_term = term, pl_postings = [p]\<rparr>"

text \<open>\<open>last\<close> is the last posting of the list, \<open>last_occ\<close> its last position; a list is never empty.\<close>

definition frt_pl_add_occ :: "posting_list \<Rightarrow> int \<Rightarrow> posting_list" where
  "frt_pl_add_occ pl pos =
     (let p = last (pl_postings pl)
      in pl\<lparr>pl_postings := butlast (pl_postings pl) @ [p\<lparr>p_occs := p_occs p @ [pos], p_freq := p_freq p + 1\<rparr>]\<rparr>)"

definition pl_add_posting :: "posting_list \<Rightarrow> posting \<Rightarrow> posting_list" where
  "pl_add_posting pl p = pl\<lparr>pl_postings := pl_postings pl @ [p]\<rparr>"

definition frt_pl_cmp :: "posting_list \<Rightarrow> posting_list \<Rightarrow> int" where
  "frt_pl_cmp pl1 pl2 = strcmp (pl_term pl1) (pl_term pl2)"

section \<open>The enumeration\<close>

record 'f seg_term_doc_enum =
  tde_positions :: bool
  stde_frq_in :: "'f instream"
  stde_prx_in :: "'f instream"
  stde_skip_in :: "'f instream option"
  stde_deleted_docs :: "bitvector option"
  stde_count :: int
  stde_doc_freq :: int
  stde_doc :: int
  stde_freq_now :: int
  stde_num_skips :: int
  stde_skip_interval :: int
  stde_skip_count :: int
  stde_skip_doc :: int
  stde_prx_cnt :: int
  stde_position :: int
  stde_frq_ptr :: int
  stde_prx_ptr :: int
  stde_skip_ptr :: int
  stde_have_skipped :: bool

text \<open>A clone shares the file and copies the rest; the position in a RAM file is in the stream itself.\<close>

definition frt_is_clone :: "'f instream \<Rightarrow> 'f instream" where
  "frt_is_clone is = is"

definition stde_seek_ti :: "'f is_methods \<Rightarrow> 'f seg_term_doc_enum \<Rightarrow> term_info option \<Rightarrow> 'f seg_term_doc_enum res" where
  "stde_seek_ti m stde ti =
     (case ti of
        None \<Rightarrow> Inr (stde\<lparr>stde_doc_freq := 0\<rparr>)
      | Some ti \<Rightarrow>
          if stde_skip_interval stde = 0 then Inl UndefinedBehaviour
          else ebind (frt_is_seek m (stde_frq_in stde) (ti_frq_ptr ti)) (\<lambda>is.
            Inr (stde\<lparr>stde_count := 0, stde_doc_freq := ti_doc_freq ti, stde_doc := 0, stde_skip_doc := 0, stde_skip_count := 0,
              stde_num_skips := ti_doc_freq ti sdiv stde_skip_interval stde, stde_frq_ptr := ti_frq_ptr ti, stde_prx_ptr := ti_prx_ptr ti,
              stde_skip_ptr := ti_frq_ptr ti + ti_skip_offset ti, stde_frq_in := is, stde_have_skipped := False\<rparr>)))"

definition stpe_seek_ti :: "'f is_methods \<Rightarrow> 'f seg_term_doc_enum \<Rightarrow> term_info option \<Rightarrow> 'f seg_term_doc_enum res" where
  "stpe_seek_ti m stde ti =
     (case ti of
        None \<Rightarrow> Inr (stde\<lparr>stde_doc_freq := 0\<rparr>)
      | Some t \<Rightarrow>
          ebind (stde_seek_ti m stde ti) (\<lambda>stde.
          ebind (frt_is_seek m (stde_prx_in stde) (ti_prx_ptr t)) (\<lambda>is. Inr (stde\<lparr>stde_prx_in := is\<rparr>))))"

text \<open>\<open>tde->seek\<close>: \<open>stde_seek\<close> and \<open>stpe_seek\<close>.\<close>

definition stde_seek ::
  "'f is_methods \<Rightarrow> 'f seg_term_doc_enum \<Rightarrow> 'f term_infos_reader \<Rightarrow> 'f seg_field_index \<Rightarrow> nat \<Rightarrow> int \<Rightarrow> byte list
     \<Rightarrow> ('f seg_term_doc_enum \<times> 'f term_infos_reader \<times> 'f seg_field_index) res" where
  "stde_seek m tde tir sfi thread field_num term =
     ebind (tir_get_ti_field m tir sfi thread field_num term) (\<lambda>(ti, tir, sfi).
     ebind (stde_seek_ti m tde ti) (\<lambda>tde. Inr (tde, tir, sfi)))"

definition stpe_seek ::
  "'f is_methods \<Rightarrow> 'f seg_term_doc_enum \<Rightarrow> 'f term_infos_reader \<Rightarrow> 'f seg_field_index \<Rightarrow> nat \<Rightarrow> int \<Rightarrow> byte list
     \<Rightarrow> ('f seg_term_doc_enum \<times> 'f term_infos_reader \<times> 'f seg_field_index) res" where
  "stpe_seek m tde tir sfi thread field_num term =
     ebind (tir_get_ti_field m tir sfi thread field_num term) (\<lambda>(ti, tir, sfi).
     ebind (stpe_seek_ti m tde ti) (\<lambda>tde. Inr (tde\<lparr>stde_prx_cnt := 0\<rparr>, tir, sfi)))"

definition tde_seek ::
  "'f is_methods \<Rightarrow> 'f seg_term_doc_enum \<Rightarrow> 'f term_infos_reader \<Rightarrow> 'f seg_field_index \<Rightarrow> nat \<Rightarrow> int \<Rightarrow> byte list
     \<Rightarrow> ('f seg_term_doc_enum \<times> 'f term_infos_reader \<times> 'f seg_field_index) res" where
  "tde_seek m tde = (if tde_positions tde then stpe_seek m tde else stde_seek m tde)"

definition stde_seek_te :: "'f is_methods \<Rightarrow> 'f seg_term_doc_enum \<Rightarrow> 'f term_enum \<Rightarrow> 'f seg_term_doc_enum res" where
  "stde_seek_te m tde te = stde_seek_ti m tde (Some (te_curr_ti te))"

definition stde_doc_num :: "'f seg_term_doc_enum \<Rightarrow> int res" where
  "stde_doc_num tde = (if stde_count tde = 0 then Inl FRT_STATE_ERROR else Inr (stde_doc tde))"

definition stde_freq :: "'f seg_term_doc_enum \<Rightarrow> int res" where
  "stde_freq tde = (if stde_count tde = 0 then Inl FRT_STATE_ERROR else Inr (stde_freq_now tde))"

text \<open>One round of the loops of \<open>stde_next\<close> and \<open>stde_read\<close>: a document is read; the answer tells whether it is not deleted.\<close>

definition stde_deleted :: "bitvector option \<Rightarrow> int \<Rightarrow> bool res" where
  "stde_deleted deleted_docs doc_num =
     (case deleted_docs of
        None \<Rightarrow> Inr False
      | Some bv \<Rightarrow> if doc_num < 0 then Inl UndefinedBehaviour else Inr (frt_bv_get bv (nat doc_num)))"

definition stde_read_doc :: "'f is_methods \<Rightarrow> 'f seg_term_doc_enum \<Rightarrow> (bool \<times> 'f seg_term_doc_enum) res" where
  "stde_read_doc m stde =
     ebind (frt_is_read_vint m (stde_frq_in stde)) (\<lambda>(doc_code, is).
     let doc_code = sint doc_code; doc_num = stde_doc stde + doc_code div 2
     in ebind (if doc_code mod 2 \<noteq> 0 then Inr (1, is)
               else ebind (frt_is_read_vint m is) (\<lambda>(freq, is). Inr (sint freq, is))) (\<lambda>(freq, is).
        ebind (stde_deleted (stde_deleted_docs stde) doc_num) (\<lambda>deleted.
        Inr (\<not> deleted, stde\<lparr>stde_frq_in := is, stde_doc := doc_num, stde_freq_now := freq, stde_count := stde_count stde + 1\<rparr>))))"

definition stpe_skip_prox :: "'f is_methods \<Rightarrow> 'f seg_term_doc_enum \<Rightarrow> 'f seg_term_doc_enum res" where
  "stpe_skip_prox m stde = ebind (frt_is_skip_vints m (stde_prx_in stde) (nat (stde_freq_now stde))) (\<lambda>is. Inr (stde\<lparr>stde_prx_in := is\<rparr>))"

definition stde_skip_prox :: "'f seg_term_doc_enum \<Rightarrow> 'f seg_term_doc_enum res" where
  "stde_skip_prox stde = Inr stde"

definition skip_prox :: "'f is_methods \<Rightarrow> 'f seg_term_doc_enum \<Rightarrow> 'f seg_term_doc_enum res" where
  "skip_prox m stde = (if tde_positions stde then stpe_skip_prox m stde else stde_skip_prox stde)"

definition stpe_seek_prox :: "'f is_methods \<Rightarrow> 'f seg_term_doc_enum \<Rightarrow> int \<Rightarrow> 'f seg_term_doc_enum res" where
  "stpe_seek_prox m stde prx_ptr = ebind (frt_is_seek m (stde_prx_in stde) prx_ptr) (\<lambda>is. Inr (stde\<lparr>stde_prx_in := is, stde_prx_cnt := 0\<rparr>))"

definition seek_prox :: "'f is_methods \<Rightarrow> 'f seg_term_doc_enum \<Rightarrow> int \<Rightarrow> 'f seg_term_doc_enum res" where
  "seek_prox m stde prx_ptr = (if tde_positions stde then stpe_seek_prox m stde prx_ptr else Inr stde)"

lemma stde_read_doc_counts:
  "stde_read_doc m stde = Inr (b, stde') \<Longrightarrow> stde_count stde' = stde_count stde + 1 \<and> stde_doc_freq stde' = stde_doc_freq stde"
  by (auto simp: stde_read_doc_def Let_def ebind_eq_Inr split: if_splits)

lemma skip_prox_counts: "skip_prox m stde = Inr stde' \<Longrightarrow> stde_count stde' = stde_count stde \<and> stde_doc_freq stde' = stde_doc_freq stde"
  by (auto simp: skip_prox_def stpe_skip_prox_def stde_skip_prox_def ebind_eq_Inr split: if_splits)

function stde_next :: "'f is_methods \<Rightarrow> 'f seg_term_doc_enum \<Rightarrow> (bool \<times> 'f seg_term_doc_enum) res" where
  "stde_next m stde =
     (if stde_count stde \<ge> stde_doc_freq stde then Inr (False, stde)
      else case stde_read_doc m stde of
             Inl e \<Rightarrow> Inl e
           | Inr (live, stde1) \<Rightarrow>
               if live then Inr (True, stde1)
               else case skip_prox m stde1 of Inl e \<Rightarrow> Inl e | Inr stde2 \<Rightarrow> stde_next m stde2)"
  by pat_completeness auto
termination
  by (relation "measure (\<lambda>(m, stde). nat (stde_doc_freq stde - stde_count stde))")
    (auto dest!: sym [of "Inr _"] stde_read_doc_counts skip_prox_counts)

declare stde_next.simps [simp del]

definition stpe_next :: "'f is_methods \<Rightarrow> 'f seg_term_doc_enum \<Rightarrow> (bool \<times> 'f seg_term_doc_enum) res" where
  "stpe_next m stde =
     ebind (frt_is_skip_vints m (stde_prx_in stde) (nat (stde_prx_cnt stde))) (\<lambda>is.
     ebind (stde_next m (stde\<lparr>stde_prx_in := is\<rparr>)) (\<lambda>(b, stde).
     Inr (b, if b then stde\<lparr>stde_prx_cnt := stde_freq_now stde, stde_position := 0\<rparr>
             else stde\<lparr>stde_prx_cnt := 0, stde_position := 0\<rparr>)))"

definition tde_next :: "'f is_methods \<Rightarrow> 'f seg_term_doc_enum \<Rightarrow> (bool \<times> 'f seg_term_doc_enum) res" where
  "tde_next m tde = (if tde_positions tde then stpe_next m tde else stde_next m tde)"

text \<open>\<open>stde_read\<close> fills arrays of \<open>req_num\<close> cells; they are the list of their values.\<close>

function stde_read_loop ::
  "'f is_methods \<Rightarrow> 'f seg_term_doc_enum \<Rightarrow> (int \<times> int) list \<Rightarrow> int \<Rightarrow> ((int \<times> int) list \<times> 'f seg_term_doc_enum) res" where
  "stde_read_loop m stde acc req_num =
     (if int (length acc) < req_num \<and> stde_count stde < stde_doc_freq stde then
        case stde_read_doc m stde of
          Inl e \<Rightarrow> Inl e
        | Inr (live, stde1) \<Rightarrow> stde_read_loop m stde1 (if live then acc @ [(stde_doc stde1, stde_freq_now stde1)] else acc) req_num
      else Inr (acc, stde))"
  by pat_completeness auto
termination
  by (relation "measure (\<lambda>(m, stde, acc, req_num). nat (stde_doc_freq stde - stde_count stde))")
    (auto dest!: sym [of "Inr _"] stde_read_doc_counts)

declare stde_read_loop.simps [simp del]

definition stde_read :: "'f is_methods \<Rightarrow> 'f seg_term_doc_enum \<Rightarrow> int \<Rightarrow> ((int \<times> int) list \<times> 'f seg_term_doc_enum) res" where
  "stde_read m stde req_num = stde_read_loop m stde [] req_num"

definition stpe_read :: "'f seg_term_doc_enum \<Rightarrow> int \<Rightarrow> ((int \<times> int) list \<times> 'f seg_term_doc_enum) res" where
  "stpe_read tde req_num = Inl FRT_ARG_ERROR"

definition stpe_next_position :: "'f is_methods \<Rightarrow> 'f seg_term_doc_enum \<Rightarrow> (int \<times> 'f seg_term_doc_enum) res" where
  "stpe_next_position m stde =
     (if stde_prx_cnt stde > 0 then
        ebind (frt_is_read_vint m (stde_prx_in stde)) (\<lambda>(d, is).
        let position = stde_position stde + sint d
        in Inr (position, stde\<lparr>stde_prx_cnt := stde_prx_cnt stde - 1, stde_prx_in := is, stde_position := position\<rparr>))
      else Inr (- 1, stde\<lparr>stde_prx_cnt := stde_prx_cnt stde - 1\<rparr>))"

section \<open>Skipping\<close>

text \<open>The values that the loop over the data for skipping keeps of the last entry it has passed.\<close>

record skip_state =
  last_skip_doc :: int
  last_frq_ptr :: int
  last_prx_ptr :: int
  num_skipped :: int

function stde_skip_loop ::
  "'f is_methods \<Rightarrow> int \<Rightarrow> 'f seg_term_doc_enum \<Rightarrow> 'f instream \<Rightarrow> skip_state \<Rightarrow> ('f seg_term_doc_enum \<times> 'f instream \<times> skip_state) res" where
  "stde_skip_loop m target_doc_num stde skip_in s =
     (if target_doc_num > stde_skip_doc stde then
        let s = \<lparr>last_skip_doc = stde_skip_doc stde, last_frq_ptr = stde_frq_ptr stde, last_prx_ptr = stde_prx_ptr stde,
              num_skipped = (if 0 \<noteq> stde_skip_doc stde \<and> stde_skip_doc stde \<ge> stde_doc stde
                then num_skipped s + stde_skip_interval stde else num_skipped s)\<rparr>
        in if stde_skip_count stde \<ge> stde_num_skips stde then Inr (stde, skip_in, s)
           else
           ebind (frt_is_read_vint m skip_in) (\<lambda>(d, skip_in).
           ebind (frt_is_read_vint m skip_in) (\<lambda>(f, skip_in).
           ebind (frt_is_read_vint m skip_in) (\<lambda>(p, skip_in).
           stde_skip_loop m target_doc_num
             (stde\<lparr>stde_skip_doc := stde_skip_doc stde + sint d, stde_frq_ptr := stde_frq_ptr stde + uint f,
               stde_prx_ptr := stde_prx_ptr stde + uint p, stde_skip_count := stde_skip_count stde + 1\<rparr>) skip_in s)))
      else Inr (stde, skip_in, s))"
  by pat_completeness auto
termination by (relation "measure (\<lambda>(m, t, stde, is, s). nat (stde_num_skips stde - stde_skip_count stde))") auto

declare stde_skip_loop.simps [simp del]

text \<open>The optimised part of \<open>stde_skip_to\<close>.\<close>

definition stde_skip :: "'f is_methods \<Rightarrow> 'f seg_term_doc_enum \<Rightarrow> int \<Rightarrow> 'f seg_term_doc_enum res" where
  "stde_skip m stde target_doc_num =
     (if stde_doc_freq stde \<ge> stde_skip_interval stde \<and> target_doc_num > stde_doc stde then
        if stde_skip_interval stde = 0 then Inl UndefinedBehaviour
        else
        let skip_in = (case stde_skip_in stde of None \<Rightarrow> frt_is_clone (stde_frq_in stde) | Some is \<Rightarrow> is)
        in ebind (if \<not> stde_have_skipped stde then frt_is_seek m skip_in (stde_skip_ptr stde) else Inr skip_in) (\<lambda>skip_in.
           ebind (stde_skip_loop m target_doc_num (stde\<lparr>stde_have_skipped := True\<rparr>) skip_in
               \<lparr>last_skip_doc = stde_skip_doc stde, last_frq_ptr = frt_is_pos (stde_frq_in stde), last_prx_ptr = - 1,
                 num_skipped = - 1 - stde_count stde smod stde_skip_interval stde\<rparr>) (\<lambda>(stde, skip_in, s).
           let stde = stde\<lparr>stde_skip_in := Some skip_in\<rparr>
           in if last_frq_ptr s > frt_is_pos (stde_frq_in stde) then
                ebind (frt_is_seek m (stde_frq_in stde) (last_frq_ptr s)) (\<lambda>is.
                ebind (seek_prox m (stde\<lparr>stde_frq_in := is\<rparr>) (last_prx_ptr s)) (\<lambda>stde.
                Inr (stde\<lparr>stde_doc := last_skip_doc s, stde_count := stde_count stde + num_skipped s\<rparr>)))
              else Inr stde))
      else Inr stde)"

lemma stde_next_counts:
  "stde_next m stde = Inr (b, stde') \<Longrightarrow> stde_doc_freq stde' = stde_doc_freq stde \<and>
     (b \<longrightarrow> stde_count stde < stde_count stde' \<and> stde_count stde' \<le> stde_doc_freq stde')"
proof (induction m stde rule: stde_next.induct)
  case (1 m stde)
  show ?case
  proof (cases "stde_count stde \<ge> stde_doc_freq stde")
    case True
    then show ?thesis using 1(2) by (simp add: stde_next.simps [of m stde])
  next
    case False
    then obtain live stde1 where r: "stde_read_doc m stde = Inr (live, stde1)"
      using 1(2) by (auto simp: stde_next.simps [of m stde] split: sum.splits)
    note c = stde_read_doc_counts [OF r]
    show ?thesis
    proof (cases live)
      case True
      then show ?thesis using 1(2) False r c by (simp add: stde_next.simps [of m stde])
    next
      case dead: False
      then obtain stde2 where s: "skip_prox m stde1 = Inr stde2" "stde_next m stde2 = Inr (b, stde')"
        using 1(2) False r by (auto simp: stde_next.simps [of m stde] split: sum.splits)
      from 1(1) [OF False r refl dead s] skip_prox_counts [OF s(1)] c show ?thesis by auto
    qed
  qed
qed

lemma tde_next_counts:
  assumes r: "tde_next m tde = Inr (True, tde')"
  shows "stde_doc_freq tde' = stde_doc_freq tde \<and> stde_count tde < stde_count tde' \<and> stde_count tde' \<le> stde_doc_freq tde'"
proof (cases "tde_positions tde")
  case False
  with r have "stde_next m tde = Inr (True, tde')" by (simp add: tde_next_def)
  from stde_next_counts [OF this] show ?thesis by simp
next
  case True
  with r have "ebind (frt_is_skip_vints m (stde_prx_in tde) (nat (stde_prx_cnt tde))) (\<lambda>is.
     ebind (stde_next m (tde\<lparr>stde_prx_in := is\<rparr>)) (\<lambda>(b, stde).
     Inr (b, if b then stde\<lparr>stde_prx_cnt := stde_freq_now stde, stde_position := 0\<rparr>
             else stde\<lparr>stde_prx_cnt := 0, stde_position := 0\<rparr>))) = Inr (True, tde')" by (simp only: tde_next_def stpe_next_def if_True)
  then obtain "is" x where 1: "stde_next m (tde\<lparr>stde_prx_in := is\<rparr>) = Inr x" and
    2: "(case x of (b, stde) \<Rightarrow> Inr (b, if b then stde\<lparr>stde_prx_cnt := stde_freq_now stde, stde_position := 0\<rparr>
             else stde\<lparr>stde_prx_cnt := 0, stde_position := 0\<rparr>)) = (Inr (True, tde') :: _ res)" unfolding ebind_eq_Inr by blast
  obtain b stde where x: "x = (b, stde)" by (cases x)
  have e: "b" "tde' = stde\<lparr>stde_prx_cnt := stde_freq_now stde, stde_position := 0\<rparr>" using 2 by (simp_all add: x split: if_splits)
  note 1 = 1 [unfolded x]
  from stde_next_counts [OF 1] e show ?thesis by simp
qed

text \<open>The scan at its end.\<close>

function tde_scan :: "'f is_methods \<Rightarrow> int \<Rightarrow> 'f seg_term_doc_enum \<Rightarrow> (bool \<times> 'f seg_term_doc_enum) res" where
  "tde_scan m target_doc_num tde =
     (case tde_next m tde of
        Inl e \<Rightarrow> Inl e
      | Inr (False, tde1) \<Rightarrow> Inr (False, tde1)
      | Inr (True, tde1) \<Rightarrow> if target_doc_num > stde_doc tde1 then tde_scan m target_doc_num tde1 else Inr (True, tde1))"
  by pat_completeness auto
termination
  by (relation "measure (\<lambda>(m, t, tde). nat (stde_doc_freq tde - stde_count tde))") (auto dest!: tde_next_counts)

declare tde_scan.simps [simp del]

definition stde_skip_to :: "'f is_methods \<Rightarrow> 'f seg_term_doc_enum \<Rightarrow> int \<Rightarrow> (bool \<times> 'f seg_term_doc_enum) res" where
  "stde_skip_to m tde target_doc_num = ebind (stde_skip m tde target_doc_num) (tde_scan m target_doc_num)"

section \<open>Opening\<close>

text \<open>\<open>FRT_ALLOC_AND_ZERO\<close>; \<open>prx_in\<close> of a document enumeration is never used.\<close>

definition frt_stde_new :: "'f instream \<Rightarrow> bitvector option \<Rightarrow> int \<Rightarrow> 'f seg_term_doc_enum" where
  "frt_stde_new frq_in deleted_docs skip_interval =
     \<lparr>tde_positions = False, stde_frq_in = frt_is_clone frq_in, stde_prx_in = frt_is_clone frq_in, stde_skip_in = None,
      stde_deleted_docs = deleted_docs, stde_count = 0, stde_doc_freq = 0, stde_doc = 0, stde_freq_now = 0, stde_num_skips = 0,
      stde_skip_interval = skip_interval, stde_skip_count = 0, stde_skip_doc = 0, stde_prx_cnt = 0, stde_position = 0,
      stde_frq_ptr = 0, stde_prx_ptr = 0, stde_skip_ptr = 0, stde_have_skipped = False\<rparr>"

definition frt_stpe_new :: "'f instream \<Rightarrow> 'f instream \<Rightarrow> bitvector option \<Rightarrow> int \<Rightarrow> 'f seg_term_doc_enum" where
  "frt_stpe_new frq_in prx_in del_docs skip_interval =
     (frt_stde_new frq_in del_docs skip_interval)\<lparr>tde_positions := True, stde_prx_in := frt_is_clone prx_in, stde_prx_cnt := 0, stde_position := 0\<rparr>"

end
