(* ===== verification/FrtTermDocLaws.thy ===== *)
theory FrtTermDocLaws
  imports FrtTermDocs FrtTermDictFile FrtBitVectorLaws
begin

text \<open>
  The laws of the documents of a term.

  \<^item> \<open>enc_docs\<close>, \<open>enc_prox\<close>, \<open>enc_skips\<close>: the bytes of the documents of a term, of its positions, of the data for skipping.
  \<^item> \<open>tde_state L del c i tde\<close>: an enumeration that has read \<open>c\<close> documents and \<open>i\<close> positions of the last one. Its operations
    answer as a scan of the list of the postings does, also when they skip.
\<close>

section \<open>The bytes of the postings\<close>

text \<open>A posting is a document and the positions in it.\<close>

type_synonym post = "nat \<times> nat list"

definition doc_at :: "post list \<Rightarrow> nat \<Rightarrow> nat" where
  "doc_at ps c = (if c = 0 then 0 else fst (ps ! (c - 1)))"

definition occs_at :: "post list \<Rightarrow> nat \<Rightarrow> nat list" where
  "occs_at ps c = (if c = 0 then [] else snd (ps ! (c - 1)))"

definition enc_doc :: "nat \<Rightarrow> post \<Rightarrow> byte list" where
  "enc_doc d0 p = (if length (snd p) = 1 then enc_v (2 * (fst p - d0) + 1) else enc_v (2 * (fst p - d0)) @ enc_v (length (snd p)))"

fun enc_docs :: "nat \<Rightarrow> post list \<Rightarrow> byte list" where
  "enc_docs d0 [] = []"
| "enc_docs d0 (p # ps) = enc_doc d0 p @ enc_docs (fst p) ps"

fun deltas :: "nat \<Rightarrow> nat list \<Rightarrow> nat list" where
  "deltas x [] = []"
| "deltas x (y # ys) = (y - x) # deltas y ys"

definition enc_occs :: "nat list \<Rightarrow> byte list" where
  "enc_occs os = concat (map enc_v (deltas 0 os))"

definition enc_prox :: "post list \<Rightarrow> byte list" where
  "enc_prox ps = concat (map (enc_occs \<circ> snd) ps)"

definition frq_at :: "post list \<Rightarrow> nat \<Rightarrow> nat" where
  "frq_at ps c = length (enc_docs 0 (take c ps))"

definition prx_at :: "post list \<Rightarrow> nat \<Rightarrow> nat" where
  "prx_at ps c = length (enc_prox (take c ps))"

text \<open>The \<open>k\<close>-th entry of the data for skipping stands behind \<open>skip_to_cnt S k\<close> documents.\<close>

definition skip_cnt :: "nat \<Rightarrow> nat \<Rightarrow> nat" where
  "skip_cnt S k = k * S - 1"

definition enc_skip :: "nat \<Rightarrow> post list \<Rightarrow> nat \<Rightarrow> byte list" where
  "enc_skip S ps k =
     (let a = skip_cnt S k; b = skip_cnt S (Suc k)
      in enc_v (doc_at ps b - doc_at ps a) @ enc_v (frq_at ps b - frq_at ps a) @ enc_v (prx_at ps b - prx_at ps a))"

definition skip_at :: "nat \<Rightarrow> post list \<Rightarrow> nat \<Rightarrow> nat" where
  "skip_at S ps k = length (concat (map (enc_skip S ps) [0..<k]))"

definition enc_skips :: "nat \<Rightarrow> post list \<Rightarrow> byte list" where
  "enc_skips S ps = concat (map (enc_skip S ps) [0..<length ps div S])"

definition post_ok :: "post \<Rightarrow> bool" where
  "post_ok p \<longleftrightarrow> fst p < 2 ^ 30 \<and> snd p \<noteq> [] \<and> length (snd p) < 2 ^ 31 \<and> sorted (snd p) \<and> (\<forall>x \<in> set (snd p). x < 2 ^ 31)"

definition posts_ok :: "post list \<Rightarrow> bool" where
  "posts_ok ps \<longleftrightarrow> (\<forall>p \<in> set ps. post_ok p) \<and> sorted_wrt (\<lambda>p q. fst p < fst q) ps \<and>
     length (enc_docs 0 ps) < 2 ^ 32 \<and> length (enc_prox ps) < 2 ^ 32"

lemma doc_at_Suc: "doc_at ps (Suc c) = fst (ps ! c)" and doc_at_0 [simp]: "doc_at ps 0 = 0"
  and occs_at_Suc: "occs_at ps (Suc c) = snd (ps ! c)" and occs_at_0 [simp]: "occs_at ps 0 = []"
  by (simp_all add: doc_at_def occs_at_def)

lemma enc_docs_append: "enc_docs d0 (ps @ qs) = enc_docs d0 ps @ enc_docs (if ps = [] then d0 else fst (last ps)) qs"
  by (induction ps arbitrary: d0) auto

lemma enc_docs_take: "c \<le> length ps \<Longrightarrow> enc_docs 0 ps = enc_docs 0 (take c ps) @ enc_docs (doc_at ps c) (drop c ps)"
  using enc_docs_append [of 0 "take c ps" "drop c ps"] by (cases c) (auto simp: doc_at_def last_conv_nth)

lemma enc_docs_at: "lies_at bs F (enc_docs 0 ps) \<Longrightarrow> c < length ps \<Longrightarrow> lies_at bs (F + frq_at ps c) (enc_doc (doc_at ps c) (ps ! c))"
proof -
  assume l: "lies_at bs F (enc_docs 0 ps)" and c: "c < length ps"
  have "enc_docs 0 ps = enc_docs 0 (take c ps) @ enc_doc (doc_at ps c) (ps ! c) @ enc_docs (fst (ps ! c)) (drop (Suc c) ps)"
    using enc_docs_take [of c ps] c by (simp add: Cons_nth_drop_Suc [symmetric])
  with l show ?thesis unfolding frq_at_def by (metis lies_at_append)
qed

lemma frq_at_Suc: "c < length ps \<Longrightarrow> frq_at ps (Suc c) = frq_at ps c + length (enc_doc (doc_at ps c) (ps ! c))"
proof -
  assume c: "c < length ps"
  have "drop c (take (Suc c) ps) = [ps ! c]" using c by (simp add: take_Suc_conv_app_nth)
  moreover have "take c (take (Suc c) ps) = take c ps" "doc_at (take (Suc c) ps) c = doc_at ps c"
    using c by (auto simp: min_def doc_at_def Suc_leI)
  ultimately show ?thesis using enc_docs_take [of c "take (Suc c) ps"] c by (simp add: frq_at_def)
qed

lemma prx_at_Suc: "c < length ps \<Longrightarrow> prx_at ps (Suc c) = prx_at ps c + length (enc_occs (snd (ps ! c)))"
  by (simp add: prx_at_def enc_prox_def take_Suc_conv_app_nth)

lemma enc_occs_at: "lies_at bs X (enc_prox ps) \<Longrightarrow> c < length ps \<Longrightarrow> lies_at bs (X + prx_at ps c) (enc_occs (snd (ps ! c)))"
proof -
  assume l: "lies_at bs X (enc_prox ps)" and c: "c < length ps"
  have "enc_prox ps = enc_prox (take c ps) @ enc_occs (snd (ps ! c)) @ enc_prox (drop (Suc c) ps)"
    using arg_cong [OF id_take_nth_drop [OF c], of enc_prox] by (simp add: enc_prox_def)
  with l show ?thesis unfolding prx_at_def by (metis lies_at_append)
qed

lemma at_0 [simp]: "frq_at ps 0 = 0" "prx_at ps 0 = 0" "skip_at S ps 0 = 0" "skip_cnt S 0 = 0"
  by (simp_all add: frq_at_def prx_at_def skip_at_def skip_cnt_def enc_prox_def)

lemma at_mono: "a \<le> b \<Longrightarrow> frq_at ps a \<le> frq_at ps b" "a \<le> b \<Longrightarrow> prx_at ps a \<le> prx_at ps b"
proof -
  assume "a \<le> b"
  then have t: "take b ps = take a ps @ take (b - a) (drop a ps)" using take_add [of a "b - a" ps] by simp
  show "frq_at ps a \<le> frq_at ps b" by (simp add: frq_at_def t enc_docs_append)
  show "prx_at ps a \<le> prx_at ps b" by (simp add: prx_at_def t enc_prox_def)
qed

lemma frq_at_less: "a < b \<Longrightarrow> b \<le> length ps \<Longrightarrow> frq_at ps a < frq_at ps b"
proof -
  assume a: "a < b" "b \<le> length ps"
  have "enc_doc d p \<noteq> []" for d p by (simp add: enc_doc_def)
  then have "frq_at ps a < frq_at ps (Suc a)" using a by (simp add: frq_at_Suc)
  also have "\<dots> \<le> frq_at ps b" using at_mono(1) [of "Suc a" b ps] a by simp
  finally show ?thesis .
qed

lemma at_bound: "posts_ok ps \<Longrightarrow> frq_at ps c < 2 ^ 32" "posts_ok ps \<Longrightarrow> prx_at ps c < 2 ^ 32"
  using at_mono [of c "c + length ps" ps] by (simp_all add: posts_ok_def frq_at_def prx_at_def)

lemma doc_less: "posts_ok ps \<Longrightarrow> a < b \<Longrightarrow> b < length ps \<Longrightarrow> fst (ps ! a) < fst (ps ! b)"
  by (simp add: posts_ok_def sorted_wrt_iff_nth_less)

lemma doc_at_less: "posts_ok ps \<Longrightarrow> 0 < a \<Longrightarrow> a < b \<Longrightarrow> b \<le> length ps \<Longrightarrow> doc_at ps a < doc_at ps b"
  using doc_less [of ps "a - 1" "b - 1"] by (simp add: doc_at_def)

lemma doc_at_mono: "posts_ok ps \<Longrightarrow> a \<le> b \<Longrightarrow> b \<le> length ps \<Longrightarrow> doc_at ps a \<le> doc_at ps b"
  using doc_at_less [of ps a b] by (cases "a = 0"; cases "a = b") (auto simp: less_imp_le)

lemma doc_at_bound: "posts_ok ps \<Longrightarrow> c \<le> length ps \<Longrightarrow> doc_at ps c < 2 ^ 30"
  by (auto simp: posts_ok_def post_ok_def doc_at_def)

lemma doc_at_ge: "posts_ok ps \<Longrightarrow> c \<le> length ps \<Longrightarrow> c \<le> Suc (doc_at ps c)"
proof (induction c)
  case (Suc c)
  then show ?case using doc_at_less [of ps c "Suc c"] by (cases "c = 0") auto
qed simp

lemma enc_skips_at: "lies_at bs SK (enc_skips S ps) \<Longrightarrow> k < length ps div S \<Longrightarrow> lies_at bs (SK + skip_at S ps k) (enc_skip S ps k)"
proof -
  assume l: "lies_at bs SK (enc_skips S ps)" and k: "k < length ps div S"
  have "[0..<length ps div S] = [0..<k] @ k # [Suc k..<length ps div S]"
    using upt_add_eq_append [of 0 k "length ps div S - k"] k by (simp add: upt_conv_Cons)
  then have "enc_skips S ps = concat (map (enc_skip S ps) [0..<k]) @ enc_skip S ps k @ concat (map (enc_skip S ps) [Suc k..<length ps div S])"
    by (simp add: enc_skips_def)
  with l show ?thesis unfolding skip_at_def by (metis lies_at_append)
qed

lemma skip_at_Suc: "skip_at S ps (Suc k) = skip_at S ps k + length (enc_skip S ps k)"
  by (simp add: skip_at_def)

text \<open>Where the \<open>i\<close>-th position of the last of \<open>c\<close> documents stands.\<close>

definition prox_at :: "post list \<Rightarrow> nat \<Rightarrow> nat \<Rightarrow> nat" where
  "prox_at ps c i = prx_at ps (c - 1) + length (concat (map enc_v (take i (deltas 0 (occs_at ps c)))))"

lemma length_deltas [simp]: "length (deltas x ys) = length ys"
  by (induction ys arbitrary: x) simp_all

lemma deltas_nth: "i < length os \<Longrightarrow> deltas x os ! i = os ! i - (if i = 0 then x else os ! (i - 1))"
  by (induction os arbitrary: x i) (auto simp: nth_Cons')

lemma prx_boundary: "c \<le> length ps \<Longrightarrow> prox_at ps c (length (occs_at ps c)) = prx_at ps c"
  by (cases c) (simp_all add: prox_at_def occs_at_Suc prx_at_Suc enc_occs_def)

section \<open>The state of an enumeration\<close>

text \<open>The postings of a term in the files: where the documents, the positions and the data for skipping lie.\<close>

record layout =
  l_frq :: "byte list"
  l_F :: nat
  l_prx :: "byte list"
  l_X :: nat
  l_SK :: nat
  l_S :: nat
  l_ps :: "post list"

text \<open>
  Skipping counts an entry when its document is not 0, so that no entry may stand behind no document or behind document 0:
  the interval is at least 3, or 2 when the first document is not 0.
\<close>

definition skips_right :: "nat \<Rightarrow> post list \<Rightarrow> bool" where
  "skips_right S ps \<longleftrightarrow> length ps < S \<or> 3 \<le> S \<or> (S = 2 \<and> doc_at ps 1 \<noteq> 0)"

definition layout_ok :: "bool \<Rightarrow> layout \<Rightarrow> bool" where
  "layout_ok positions L \<longleftrightarrow> posts_ok (l_ps L) \<and> 0 < l_S L \<and> skips_right (l_S L) (l_ps L) \<and> length (l_ps L) < 2 ^ 31 \<and>
     lies_at (l_frq L) (l_F L) (enc_docs 0 (l_ps L)) \<and> (positions \<longrightarrow> lies_at (l_prx L) (l_X L) (enc_prox (l_ps L))) \<and>
     (l_S L \<le> length (l_ps L) \<longrightarrow> lies_at (l_frq L) (l_SK L) (enc_skips (l_S L) (l_ps L)))"

definition live :: "bitvector option \<Rightarrow> nat \<Rightarrow> bool" where
  "live del d \<longleftrightarrow> (case del of None \<Rightarrow> True | Some bv \<Rightarrow> \<not> frt_bv_get bv d)"

lemma stde_deleted_ok: "stde_deleted del (int d) = Inr (\<not> live del d)"
  by (simp add: stde_deleted_def live_def split: option.split)

text \<open>The reference: the index of the next document that is not deleted and not before the target.\<close>

definition next_doc :: "post list \<Rightarrow> bitvector option \<Rightarrow> int \<Rightarrow> nat \<Rightarrow> nat option" where
  "next_doc ps del t c = find (\<lambda>k. live del (doc_at ps (Suc k)) \<and> t \<le> int (doc_at ps (Suc k))) [c..<length ps]"

lemma next_doc_end: "length ps \<le> c \<Longrightarrow> next_doc ps del t c = None"
  by (simp add: next_doc_def)

lemma next_doc_step: "c < length ps \<Longrightarrow> next_doc ps del t c =
    (if live del (doc_at ps (Suc c)) \<and> t \<le> int (doc_at ps (Suc c)) then Some c else next_doc ps del t (Suc c))"
  by (simp add: next_doc_def upt_conv_Cons)

lemma next_doc_Some: "next_doc ps del t c = Some k \<Longrightarrow>
    c \<le> k \<and> k < length ps \<and> live del (doc_at ps (Suc k)) \<and> t \<le> int (doc_at ps (Suc k))"
  by (auto simp: next_doc_def find_Some_iff)

lemma next_doc_None: "next_doc ps del 0 c = None \<Longrightarrow> next_doc ps del t c = None"
  by (auto simp: next_doc_def find_None_iff)

lemma next_doc_first: "next_doc ps del 0 c = Some k \<Longrightarrow>
    next_doc ps del t c = (if t \<le> int (doc_at ps (Suc k)) then Some k else next_doc ps del t (Suc k))"
proof (induction "length ps - c" arbitrary: c)
  case 0
  then show ?case by (simp add: next_doc_end)
next
  case (Suc d)
  from Suc.hyps(2) have c: "c < length ps" by simp
  show ?case
  proof (cases "live del (doc_at ps (Suc c))")
    case True
    then have "k = c" using Suc.prems c by (simp add: next_doc_step)
    then show ?thesis using True c by (simp add: next_doc_step [of c])
  next
    case False
    then have "next_doc ps del 0 (Suc c) = Some k" using Suc.prems c by (simp add: next_doc_step [of c])
    from Suc.hyps(1) [OF _ this] Suc.hyps(2) False c show ?thesis by (simp add: next_doc_step [of c])
  qed
qed

lemma next_doc_skip:
  assumes "posts_ok ps" and c: "c \<le> c'" "c' \<le> length ps" and t: "c < c' \<Longrightarrow> int (doc_at ps c') < t"
  shows "next_doc ps del t c = next_doc ps del t c'"
  using c t
proof (induction c' rule: dec_induct)
  case (step n)
  have "int (doc_at ps (Suc n)) < t" using step.prems(2) step.hyps by simp
  moreover have "doc_at ps n \<le> doc_at ps (Suc n)" using doc_at_mono [OF assms(1), of n "Suc n"] step.prems(1) by simp
  ultimately show ?case using step.IH step.prems next_doc_step [of n ps del t] by simp
qed simp

text \<open>The test of the code tells the entries that stand behind what was read.\<close>

lemma skip_cnt_le: "k \<le> n div S \<Longrightarrow> skip_cnt S k \<le> n"
proof -
  assume "k \<le> n div S"
  then have "k * S \<le> n div S * S" by (rule mult_le_mono1)
  also have "\<dots> \<le> n" by (rule div_times_less_eq_dividend)
  finally show ?thesis by (simp add: skip_cnt_def)
qed

lemma entry_counts:
  assumes ok: "layout_ok po L" and S: "l_S L \<le> length (l_ps L)" and j: "j \<le> length (l_ps L) div l_S L" and c: "c \<le> length (l_ps L)"
  shows "0 \<noteq> int (doc_at (l_ps L) (skip_cnt (l_S L) j)) \<and> int (doc_at (l_ps L) (skip_cnt (l_S L) j)) \<ge> int (doc_at (l_ps L) c) \<longleftrightarrow> c div l_S L < j"
proof (cases j)
  case (Suc j')
  let ?ps = "l_ps L" and ?b = "skip_cnt (l_S L) j"
  have P: "posts_ok ?ps" and r: "3 \<le> l_S L \<or> l_S L = 2 \<and> doc_at ?ps 1 \<noteq> 0" using ok S by (auto simp: layout_ok_def skips_right_def)
  have b: "?b \<le> length ?ps" using skip_cnt_le j .
  have S1: "l_S L \<le> j * l_S L" using Suc by simp
  have S2: "2 \<le> l_S L" using r by auto
  then have b0: "0 < ?b" using S1 unfolding skip_cnt_def by linarith
  have "doc_at ?ps ?b \<noteq> 0"
  proof (cases "3 \<le> l_S L")
    case True
    then have "1 < ?b" using S1 unfolding skip_cnt_def by linarith
    from doc_at_less [OF P _ this b] show ?thesis by simp
  next
    case False
    then have "1 \<le> ?b" "doc_at ?ps 1 \<noteq> 0" using r b0 by auto
    with doc_at_mono [OF P _ b, of 1] show ?thesis by simp
  qed
  moreover have "doc_at ?ps c \<le> doc_at ?ps ?b \<longleftrightarrow> c \<le> ?b"
  proof
    assume "doc_at ?ps c \<le> doc_at ?ps ?b"
    show "c \<le> ?b"
    proof (rule ccontr)
      assume "\<not> c \<le> ?b"
      then show False using b0 doc_at_less [OF P, of ?b c] c \<open>doc_at ?ps c \<le> doc_at ?ps ?b\<close> by simp
    qed
  qed (rule doc_at_mono [OF P _ b])
  moreover have "c \<le> ?b \<longleftrightarrow> c div l_S L < j"
  proof -
    have "c \<le> ?b \<longleftrightarrow> c < j * l_S L" using S1 S2 unfolding skip_cnt_def by linarith
    then show ?thesis using S2 by (simp add: div_less_iff_less_mult)
  qed
  ultimately show ?thesis by simp
qed simp

definition entry_state :: "layout \<Rightarrow> nat \<Rightarrow> int \<Rightarrow> skip_state" where
  "entry_state L k n = \<lparr>last_skip_doc = int (doc_at (l_ps L) (skip_cnt (l_S L) k)), last_frq_ptr = int (l_F L + frq_at (l_ps L) (skip_cnt (l_S L) k)),
     last_prx_ptr = int (l_X L + prx_at (l_ps L) (skip_cnt (l_S L) k)), num_skipped = n\<rparr>"

definition at_entry :: "layout \<Rightarrow> 'g seg_term_doc_enum \<Rightarrow> nat \<Rightarrow> 'g seg_term_doc_enum" where
  "at_entry L tde j = tde\<lparr>stde_skip_doc := int (doc_at (l_ps L) (skip_cnt (l_S L) j)), stde_frq_ptr := int (l_F L + frq_at (l_ps L) (skip_cnt (l_S L) j)),
     stde_prx_ptr := int (l_X L + prx_at (l_ps L) (skip_cnt (l_S L) j)), stde_skip_count := int j\<rparr>"

lemma num_counted: "int S * int (Suc j - max j (Suc q)) = (if q < j then int S else 0)"
  by (cases "q < j") (simp_all add: max_absorb1 max_absorb2)

lemma num_counted_Suc: "Suc j \<le> k \<Longrightarrow> (if q < j then int S else 0) + int S * int (Suc k - max (Suc j) (Suc q)) = int S * int (Suc k - max j (Suc q))"
proof -
  assume k: "Suc j \<le> k"
  then have "(if q < j then 1 else 0) + (Suc k - max (Suc j) (Suc q)) = Suc k - max j (Suc q)"
    by (cases "q < j") (simp_all add: max_absorb1 max_absorb2 Suc_diff_le)
  then have "int S * int (Suc k - max j (Suc q)) = int S * int ((if q < j then 1 else 0) + (Suc k - max (Suc j) (Suc q)))" by (simp only:)
  then show ?thesis by (simp add: distrib_left)
qed

lemma at_entry_sel [simp]:
  "stde_skip_doc (at_entry L tde j) = int (doc_at (l_ps L) (skip_cnt (l_S L) j))" "stde_frq_ptr (at_entry L tde j) = int (l_F L + frq_at (l_ps L) (skip_cnt (l_S L) j))"
  "stde_prx_ptr (at_entry L tde j) = int (l_X L + prx_at (l_ps L) (skip_cnt (l_S L) j))" "stde_skip_count (at_entry L tde j) = int j"
  "stde_doc (at_entry L tde j) = stde_doc tde" "stde_num_skips (at_entry L tde j) = stde_num_skips tde" "stde_skip_interval (at_entry L tde j) = stde_skip_interval tde"
  "stde_have_skipped (at_entry L tde j) = stde_have_skipped tde" "stde_skip_in (at_entry L tde j) = stde_skip_in tde" "stde_skip_ptr (at_entry L tde j) = stde_skip_ptr tde"
  by (simp_all add: at_entry_def)

text \<open>Reading several documents at once.\<close>

fun scan_docs :: "post list \<Rightarrow> bitvector option \<Rightarrow> nat \<Rightarrow> nat \<Rightarrow> (int \<times> int) list \<times> nat" where
  "scan_docs ps del 0 c = ([], c)"
| "scan_docs ps del (Suc r) c =
     (case next_doc ps del 0 c of
        None \<Rightarrow> ([], length ps)
      | Some k \<Rightarrow> let (xs, c') = scan_docs ps del r (Suc k) in ((int (doc_at ps (Suc k)), int (length (occs_at ps (Suc k)))) # xs, c'))"

lemma scan_docs_dead: "c < length ps \<Longrightarrow> \<not> live del (doc_at ps (Suc c)) \<Longrightarrow> 0 < r \<Longrightarrow> scan_docs ps del r c = scan_docs ps del r (Suc c)"
  by (cases r) (simp_all add: next_doc_step)

lemma scan_docs_end: "scan_docs ps del r (length ps) = ([], length ps)"
  by (cases r) (simp_all add: next_doc_end)

section \<open>Sequences of calls\<close>

text \<open>
  The calls of a client: the next document, skipping to a document, the next position, several documents. After a call that
  finds a document the client asks for its number and frequency.
\<close>

datatype tde_call = Call_next | Call_skip_to int | Call_position | Call_read nat

datatype tde_answer = At_doc "(int \<times> int) option" | Position int | Documents "(int \<times> int) list"

definition tde_found :: "bool \<times> 'f seg_term_doc_enum \<Rightarrow> (tde_answer \<times> 'f seg_term_doc_enum) res" where
  "tde_found = (\<lambda>(b, tde). if b then ebind (stde_doc_num tde) (\<lambda>d. ebind (stde_freq tde) (\<lambda>f. Inr (At_doc (Some (d, f)), tde))) else Inr (At_doc None, tde))"

fun tde_do :: "'f is_methods \<Rightarrow> 'f seg_term_doc_enum \<Rightarrow> tde_call \<Rightarrow> (tde_answer \<times> 'f seg_term_doc_enum) res" where
  "tde_do m tde Call_next = ebind (tde_next m tde) tde_found"
| "tde_do m tde (Call_skip_to t) = ebind (stde_skip_to m tde t) tde_found"
| "tde_do m tde Call_position =
     (if tde_positions tde then ebind (stpe_next_position m tde) (\<lambda>(p, tde). Inr (Position p, tde)) else Inl UndefinedBehaviour)"
| "tde_do m tde (Call_read r) =
     ebind (if tde_positions tde then stpe_read tde (int r) else stde_read m tde (int r)) (\<lambda>(xs, tde). Inr (Documents xs, tde))"

fun tde_calls :: "'f is_methods \<Rightarrow> 'f seg_term_doc_enum \<Rightarrow> tde_call list \<Rightarrow> tde_answer list res" where
  "tde_calls m tde [] = Inr []"
| "tde_calls m tde (x # xs) = ebind (tde_do m tde x) (\<lambda>(a, tde). ebind (tde_calls m tde xs) (\<lambda>as. Inr (a # as)))"

text \<open>The reference scans the list of the postings: \<open>c\<close> documents and \<open>i\<close> positions of the last one are behind it.\<close>

definition scan_found :: "post list \<Rightarrow> nat option \<Rightarrow> tde_answer \<times> nat \<times> nat" where
  "scan_found ps found = (case found of
       None \<Rightarrow> (At_doc None, length ps, length (occs_at ps (length ps)))
     | Some k \<Rightarrow> (At_doc (Some (int (doc_at ps (Suc k)), int (length (occs_at ps (Suc k))))), Suc k, 0))"

fun scan_call :: "bool \<Rightarrow> post list \<Rightarrow> bitvector option \<Rightarrow> nat \<times> nat \<Rightarrow> tde_call \<Rightarrow> (tde_answer \<times> nat \<times> nat) res" where
  "scan_call po ps del (c, i) Call_next = Inr (scan_found ps (next_doc ps del 0 c))"
| "scan_call po ps del (c, i) (Call_skip_to t) = Inr (scan_found ps (next_doc ps del t c))"
| "scan_call po ps del (c, i) Call_position =
     (if \<not> po then Inl UndefinedBehaviour
      else if i < length (occs_at ps c) then Inr (Position (int (occs_at ps c ! i)), c, Suc i) else Inr (Position (- 1), c, i))"
| "scan_call po ps del (c, i) (Call_read r) =
     (if po then Inl FRT_ARG_ERROR else let (xs, c') = scan_docs ps del r c in Inr (Documents xs, c', 0))"

fun scan_calls :: "bool \<Rightarrow> post list \<Rightarrow> bitvector option \<Rightarrow> nat \<times> nat \<Rightarrow> tde_call list \<Rightarrow> tde_answer list res" where
  "scan_calls po ps del s [] = Inr []"
| "scan_calls po ps del s (x # xs) = ebind (scan_call po ps del s x) (\<lambda>(a, s). ebind (scan_calls po ps del s xs) (\<lambda>as. Inr (a # as)))"

context in_source
begin

text \<open>\<open>c\<close> documents read: what reading on needs, what skipping needs, where the positions are.\<close>

definition tde_core :: "layout \<Rightarrow> bitvector option \<Rightarrow> nat \<Rightarrow> 'f seg_term_doc_enum \<Rightarrow> bool" where
  "tde_core L del c tde \<longleftrightarrow> c \<le> length (l_ps L) \<and> stde_count tde = int c \<and> stde_doc_freq tde = int (length (l_ps L)) \<and>
     stde_doc tde = int (doc_at (l_ps L) c) \<and> stde_deleted_docs tde = del \<and> is_ok (stde_frq_in tde) (l_frq L) (l_F L + frq_at (l_ps L) c)"

definition tde_skips :: "layout \<Rightarrow> nat \<Rightarrow> 'f seg_term_doc_enum \<Rightarrow> nat \<Rightarrow> bool" where
  "tde_skips L c tde j \<longleftrightarrow> stde_skip_interval tde = int (l_S L) \<and> stde_num_skips tde = int (length (l_ps L) div l_S L) \<and>
     j \<le> length (l_ps L) div l_S L \<and> j \<le> Suc (c div l_S L) \<and> stde_skip_count tde = int j \<and>
     stde_skip_doc tde = int (doc_at (l_ps L) (skip_cnt (l_S L) j)) \<and>
     stde_frq_ptr tde = int (l_F L + frq_at (l_ps L) (skip_cnt (l_S L) j)) \<and>
     stde_prx_ptr tde = int (l_X L + prx_at (l_ps L) (skip_cnt (l_S L) j))"

definition tde_skip_in :: "layout \<Rightarrow> 'f seg_term_doc_enum \<Rightarrow> nat \<Rightarrow> bool" where
  "tde_skip_in L tde j \<longleftrightarrow> (\<forall>i. stde_skip_in tde = Some i \<longrightarrow> (\<exists>p. is_ok i (l_frq L) p)) \<and>
     (if stde_have_skipped tde then \<exists>i. stde_skip_in tde = Some i \<and> is_ok i (l_frq L) (l_SK L + skip_at (l_S L) (l_ps L) j)
      else j = 0 \<and> (l_S L \<le> length (l_ps L) \<longrightarrow> stde_skip_ptr tde = int (l_SK L)))"

definition tde_ready :: "layout \<Rightarrow> bitvector option \<Rightarrow> nat \<Rightarrow> 'f seg_term_doc_enum \<Rightarrow> bool" where
  "tde_ready L del c tde \<longleftrightarrow> layout_ok (tde_positions tde) L \<and> tde_core L del c tde \<and> (\<exists>j. tde_skips L c tde j \<and> tde_skip_in L tde j)"

text \<open>The positions: \<open>i\<close> of those of the last document were read.\<close>

definition tde_prox :: "layout \<Rightarrow> nat \<Rightarrow> nat \<Rightarrow> 'f seg_term_doc_enum \<Rightarrow> bool" where
  "tde_prox L c i tde \<longleftrightarrow> tde_positions tde \<longrightarrow> i \<le> length (occs_at (l_ps L) c) \<and> nat (stde_prx_cnt tde) = length (occs_at (l_ps L) c) - i \<and>
     (i < length (occs_at (l_ps L) c) \<longrightarrow> stde_position tde = (if i = 0 then 0 else int (occs_at (l_ps L) c ! (i - 1)))) \<and>
     is_ok (stde_prx_in tde) (l_prx L) (l_X L + prox_at (l_ps L) c i)"

definition tde_state :: "layout \<Rightarrow> bitvector option \<Rightarrow> nat \<Rightarrow> nat \<Rightarrow> 'f seg_term_doc_enum \<Rightarrow> bool" where
  "tde_state L del c i tde \<longleftrightarrow> tde_ready L del c tde \<and> tde_prox L c i tde"

text \<open>What one round reads: a document and its number of positions.\<close>

definition read_posting :: "int \<Rightarrow> 'f instream \<Rightarrow> ((int \<times> int) \<times> 'f instream) res" where
  "read_posting d0 is = ebind (frt_is_read_vint m is) (\<lambda>(doc_code, is).
     ebind (if sint doc_code mod 2 \<noteq> 0 then Inr (1, is)
               else ebind (frt_is_read_vint m is) (\<lambda>(freq, is). Inr (sint freq, is))) (\<lambda>(freq, is).
        Inr ((d0 + sint doc_code div 2, freq), is)))"

text \<open>The fields for the positions matter to the positions only.\<close>

lemma tde_ready_prox [simp]:
  "tde_ready L del c (tde\<lparr>stde_prx_in := pin\<rparr>) = tde_ready L del c tde"
  "tde_ready L del c (tde\<lparr>stde_prx_cnt := a\<rparr>) = tde_ready L del c tde"
  "tde_ready L del c (tde\<lparr>stde_position := a\<rparr>) = tde_ready L del c tde"
  "tde_ready L del c (tde\<lparr>stde_freq_now := a\<rparr>) = tde_ready L del c tde"
  by (simp_all add: tde_ready_def tde_core_def tde_skips_def tde_skip_in_def)

lemma stde_read_doc_posting: "stde_read_doc m tde = ebind (read_posting (stde_doc tde) (stde_frq_in tde)) (\<lambda>((doc_num, freq), is).
      ebind (stde_deleted (stde_deleted_docs tde) doc_num) (\<lambda>deleted.
        Inr (\<not> deleted, tde\<lparr>stde_frq_in := is, stde_doc := doc_num, stde_freq_now := freq, stde_count := stde_count tde + 1\<rparr>)))"
  unfolding read_posting_def stde_read_doc_def by (simp only: ebind_assoc case_prod_beta' Let_def ebind_simps fst_conv snd_conv)

lemma sint_nat: "n < 2 ^ 31 \<Longrightarrow> sint (of_nat n :: u32) = int n"
  by (simp add: signed_of_nat signed_take_bit_int_eq_self)

lemma decodes_posting:
  assumes p: "post_ok p" and D: "d0 \<le> fst p"
  shows "decodes (read_posting (int d0)) (enc_doc d0 p) (int (fst p), int (length (snd p)))"
proof -
  let ?D = "fst p - d0" and ?k = "length (snd p)"
  let ?r = "\<lambda>doc_code is. ebind (if sint doc_code mod 2 \<noteq> 0 then Inr (1, is)
               else ebind (frt_is_read_vint m is) (\<lambda>(freq, is). Inr (sint freq, is))) (\<lambda>(freq, is).
        Inr ((int d0 + sint (doc_code :: u32) div 2, freq), is))"
  have b: "2 * ?D + 1 < 2 ^ 31" "2 * ?D < 2 ^ 31" "?k < 2 ^ 31" "2 * ?D + 1 < 2 ^ 32" "2 * ?D < 2 ^ 32" "?k < 2 ^ 32"
    using p by (auto simp: post_ok_def)
  note s = sint_nat [OF b(1)] sint_nat [OF b(2)] sint_nat [OF b(3)]
  show ?thesis
  proof (cases "?k = 1")
    case True
    have "int d0 + (2 * int ?D + 1) div 2 = int (fst p)" using D by simp
    then have "decodes (?r (of_nat (2 * ?D + 1))) [] (int (fst p), int ?k)"
      unfolding s(1) using True by (simp add: decodes_Inr del: of_nat_diff)
    from decodes_bind [where k = ?r, OF decodes_vint_nat [OF b(4)] this] True show ?thesis
      unfolding read_posting_def [abs_def] by (simp add: enc_doc_def)
  next
    case False
    have "int d0 + 2 * int ?D div 2 = int (fst p)" using D by simp
    moreover have "decodes (\<lambda>is. ebind (frt_is_read_vint m is) (\<lambda>(freq, is). Inr ((int (fst p), sint freq), is))) (enc_v ?k @ []) (int (fst p), int ?k)"
      by (rule decodes_bind [OF decodes_vint_nat]) (use b s(3) decodes_Inr in simp_all)
    ultimately have "decodes (?r (of_nat (2 * ?D))) (enc_v ?k) (int (fst p), int ?k)"
      unfolding s(2) by (simp add: ebind_assoc case_prod_beta' del: of_nat_diff)
    from decodes_bind [where k = ?r, OF decodes_vint_nat [OF b(5)] this] False show ?thesis
      unfolding read_posting_def [abs_def] by (simp add: enc_doc_def)
  qed
qed

lemma stde_read_doc_ok:
  assumes ok: "layout_ok po L" and R: "tde_core L del c tde" and c: "c < length (l_ps L)"
  shows "\<exists>is. stde_read_doc m tde = Inr (live del (doc_at (l_ps L) (Suc c)), tde\<lparr>stde_frq_in := is, stde_doc := int (doc_at (l_ps L) (Suc c)),
      stde_freq_now := int (length (occs_at (l_ps L) (Suc c))), stde_count := int (Suc c)\<rparr>) \<and> is_ok is (l_frq L) (l_F L + frq_at (l_ps L) (Suc c))"
proof -
  let ?ps = "l_ps L" and ?d0 = "doc_at (l_ps L) c"
  let ?p = "?ps ! c"
  have ok: "posts_ok ?ps" and l: "lies_at (l_frq L) (l_F L) (enc_docs 0 ?ps)" using ok by (simp_all add: layout_ok_def)
  have w: "stde_doc tde = int ?d0" "is_ok (stde_frq_in tde) (l_frq L) (l_F L + frq_at ?ps c)" "stde_count tde = int c" "stde_deleted_docs tde = del"
    using R by (simp_all add: tde_core_def)
  have "post_ok ?p" using ok c by (simp add: posts_ok_def)
  moreover have "?d0 \<le> fst ?p" using doc_at_mono [OF ok, of c "Suc c"] c by (simp add: doc_at_Suc)
  ultimately have dec: "decodes (read_posting (int ?d0)) (enc_doc ?d0 ?p) (int (fst ?p), int (length (snd ?p)))" by (rule decodes_posting)
  from enc_docs_at [OF l c] obtain ys where
    1: "l_F L + frq_at ?ps c \<le> length (l_frq L)" "drop (l_F L + frq_at ?ps c) (l_frq L) = enc_doc ?d0 ?p @ ys" by (auto simp: lies_at_def)
  from decodesD [OF dec w(2) 1] obtain is' where
    "read_posting (int ?d0) (stde_frq_in tde) = Inr ((int (fst ?p), int (length (snd ?p))), is')"
    "is_ok is' (l_frq L) (l_F L + frq_at ?ps c + length (enc_doc ?d0 ?p))" .
  then show ?thesis using c w
    by (intro exI [of _ is']) (simp add: stde_read_doc_posting stde_deleted_ok doc_at_Suc occs_at_Suc frq_at_Suc ac_simps)
qed

subsection \<open>Positions\<close>

lemma tde_prox_skip:
  assumes l: "lies_at bs X (enc_prox ps)" and c: "c \<le> length ps" and i: "i \<le> length (occs_at ps c)" and ok: "is_ok is bs (X + prox_at ps c i)"
  shows "\<exists>is'. frt_is_skip_vints m is (length (occs_at ps c) - i) = Inr is' \<and> is_ok is' bs (X + prx_at ps c)"
proof (cases c)
  case 0
  then show ?thesis using ok by (simp add: prox_at_def)
next
  case (Suc c')
  let ?ds = "deltas 0 (snd (ps ! c'))"
  have "enc_occs (snd (ps ! c')) = concat (map enc_v (take i ?ds)) @ concat (map enc_v (drop i ?ds))"
    unfolding enc_occs_def by (metis append_take_drop_id concat_append map_append)
  moreover from this have p: "X + prx_at ps c = X + prox_at ps c i + length (concat (map enc_v (drop i ?ds)))"
    using Suc c prx_at_Suc [of c' ps] by (simp add: prox_at_def occs_at_Suc)
  ultimately have "lies_at bs (X + prox_at ps c i) (concat (map enc_v (drop i ?ds)))"
    using lies_at_append [of bs "X + prx_at ps c'" "concat (map enc_v (take i ?ds))" "concat (map enc_v (drop i ?ds))"]
      enc_occs_at [OF l, of c'] Suc c by (simp add: prox_at_def occs_at_Suc add.assoc)
  then obtain ys where "X + prox_at ps c i \<le> length bs" "drop (X + prox_at ps c i) bs = concat (map enc_v (drop i ?ds)) @ ys"
    by (auto simp: lies_at_def)
  from frt_is_skip_vints_ok [OF ok this] show ?thesis unfolding p by (simp add: occs_at_Suc Suc)
qed

lemma stpe_next_position_ok:
  assumes ok: "layout_ok True L" and S: "tde_state L del c i tde" and po: "tde_positions tde"
  shows "\<exists>tde'. stpe_next_position m tde = Inr (if i < length (occs_at (l_ps L) c) then int (occs_at (l_ps L) c ! i) else - 1, tde') \<and>
    tde_state L del c (if i < length (occs_at (l_ps L) c) then Suc i else i) tde' \<and> tde_positions tde'"
proof -
  let ?os = "occs_at (l_ps L) c"
  have R: "tde_ready L del c tde" and X: "tde_prox L c i tde" using S by (simp_all add: tde_state_def)
  have p: "i \<le> length ?os" "nat (stde_prx_cnt tde) = length ?os - i"
    "i < length ?os \<Longrightarrow> stde_position tde = (if i = 0 then 0 else int (?os ! (i - 1)))"
    "is_ok (stde_prx_in tde) (l_prx L) (l_X L + prox_at (l_ps L) c i)" using X po by (auto simp: tde_prox_def)
  show ?thesis
  proof (cases "i < length ?os")
    case False
    then have "\<not> stde_prx_cnt tde > 0" using p(2) by simp
    moreover have "tde_state L del c i (tde\<lparr>stde_prx_cnt := stde_prx_cnt tde - 1\<rparr>)"
      unfolding tde_state_def using R p False by (simp add: tde_prox_def)
    ultimately show ?thesis using False po by (intro exI [of _ "tde\<lparr>stde_prx_cnt := stde_prx_cnt tde - 1\<rparr>"]) (simp add: stpe_next_position_def)
  next
    case True
    then obtain c' where c: "c = Suc c'" by (cases c) auto
    with R have c': "c' < length (l_ps L)" by (simp add: tde_ready_def tde_core_def)
    have os: "?os = snd (l_ps L ! c')" by (simp add: c occs_at_Suc)
    from ok c' have P: "post_ok (l_ps L ! c')" by (simp add: layout_ok_def posts_ok_def)
    define x where "x = (if i = 0 then 0 else ?os ! (i - 1))"
    have x: "x \<le> ?os ! i" "?os ! i < 2 ^ 31" using P True by (auto simp: x_def os post_ok_def sorted_iff_nth_mono)
    let ?ds = "deltas 0 ?os"
    have d: "?ds ! i = ?os ! i - x" using True by (simp add: deltas_nth x_def)
    have split: "enc_occs ?os = concat (map enc_v (take i ?ds)) @ enc_v (?ds ! i) @ concat (map enc_v (drop (Suc i) ?ds))"
      unfolding enc_occs_def using arg_cong [OF id_take_nth_drop [of i ?ds], of "\<lambda>ys. concat (map enc_v ys)"] True by simp
    have "lies_at (l_prx L) (l_X L + prx_at (l_ps L) c') (enc_occs ?os)" using enc_occs_at [of "l_prx L" "l_X L" "l_ps L" c'] ok c' po by (simp add: layout_ok_def os)
    from lies_at_append [OF this [unfolded split]] have "lies_at (l_prx L) (l_X L + prox_at (l_ps L) c i)
        (enc_v (?ds ! i) @ concat (map enc_v (drop (Suc i) ?ds)))" by (simp add: prox_at_def c add.assoc)
    from lies_at_append [OF this] have "lies_at (l_prx L) (l_X L + prox_at (l_ps L) c i) (enc_v (?ds ! i))" by simp
    then obtain ys where l: "l_X L + prox_at (l_ps L) c i \<le> length (l_prx L)" "drop (l_X L + prox_at (l_ps L) c i) (l_prx L) = enc_v (?ds ! i) @ ys"
      by (auto simp: lies_at_def)
    have "?ds ! i < 2 ^ 32" using x d by simp
    from decodesD [OF decodes_vint_nat [OF this] p(4) l] obtain is' where
      r: "frt_is_read_vint m (stde_prx_in tde) = Inr (of_nat (?ds ! i), is')"
        "is_ok is' (l_prx L) (l_X L + prox_at (l_ps L) c i + length (enc_v (?ds ! i)))" .
    have s: "sint (of_nat (?ds ! i) :: u32) = int (?os ! i) - int x" using sint_nat [of "?ds ! i"] x d by simp
    have pos: "stde_position tde + sint (of_nat (?ds ! i) :: u32) = int (?os ! i)" using p(3) [OF True] s by (simp add: x_def)
    let ?t = "tde\<lparr>stde_prx_cnt := stde_prx_cnt tde - 1, stde_prx_in := is', stde_position := int (?os ! i)\<rparr>"
    have "prox_at (l_ps L) c (Suc i) = prox_at (l_ps L) c i + length (enc_v (?ds ! i))"
      using True by (simp add: prox_at_def take_Suc_conv_app_nth)
    then have "tde_state L del c (Suc i) ?t"
      unfolding tde_state_def using R r(2) p(2) True by (auto simp: tde_prox_def add.assoc)
    moreover have "stde_prx_cnt tde > 0" using p(2) True by linarith
    ultimately show ?thesis using True po r(1) pos by (intro exI [of _ ?t]) (simp add: stpe_next_position_def Let_def)
  qed
qed

subsection \<open>The next document\<close>

text \<open>At a document: the positions of those read are behind the stream.\<close>

definition prx_done :: "layout \<Rightarrow> nat \<Rightarrow> 'f seg_term_doc_enum \<Rightarrow> bool" where
  "prx_done L c tde \<longleftrightarrow> (tde_positions tde \<longrightarrow> is_ok (stde_prx_in tde) (l_prx L) (l_X L + prx_at (l_ps L) c))"

lemma skip_prox_ok:
  assumes ok: "layout_ok (tde_positions tde) L" and c: "c < length (l_ps L)"
    and f: "stde_freq_now tde = int (length (occs_at (l_ps L) (Suc c)))" and X: "prx_done L c tde"
  shows "\<exists>pin. skip_prox m tde = Inr (tde\<lparr>stde_prx_in := pin\<rparr>) \<and> prx_done L (Suc c) (tde\<lparr>stde_prx_in := pin\<rparr>)"
proof (cases "tde_positions tde")
  case False
  then show ?thesis by (intro exI [of _ "stde_prx_in tde"]) (simp add: skip_prox_def stde_skip_prox_def prx_done_def)
next
  case True
  then have l: "lies_at (l_prx L) (l_X L) (enc_prox (l_ps L))" using ok by (simp add: layout_ok_def)
  have "is_ok (stde_prx_in tde) (l_prx L) (l_X L + prox_at (l_ps L) (Suc c) 0)" using X True by (simp add: prx_done_def prox_at_def)
  from tde_prox_skip [OF l _ _ this] c obtain pin where
    "frt_is_skip_vints m (stde_prx_in tde) (length (occs_at (l_ps L) (Suc c))) = Inr pin" "is_ok pin (l_prx L) (l_X L + prx_at (l_ps L) (Suc c))"
    by (auto simp: Suc_leI)
  then show ?thesis using True f by (intro exI [of _ pin]) (simp add: skip_prox_def stpe_skip_prox_def prx_done_def)
qed

definition tde_at :: "layout \<Rightarrow> nat \<Rightarrow> 'f seg_term_doc_enum \<Rightarrow> 'f instream \<Rightarrow> 'f instream \<Rightarrow> int \<Rightarrow> 'f seg_term_doc_enum" where
  "tde_at L c tde fin pin freq = tde\<lparr>stde_frq_in := fin, stde_prx_in := pin, stde_doc := int (doc_at (l_ps L) c), stde_freq_now := freq, stde_count := int c\<rparr>"

lemma stde_next_ok:
  assumes ok: "layout_ok (tde_positions tde) L" and R: "tde_core L del c tde" and X: "prx_done L c tde"
  shows "\<exists>fin pin freq k. stde_next m tde = Inr (next_doc (l_ps L) del 0 c \<noteq> None, tde_at L k tde fin pin freq) \<and> tde_core L del k (tde_at L k tde fin pin freq) \<and>
    c \<le> k \<and> freq = (if c < length (l_ps L) then int (length (occs_at (l_ps L) k)) else stde_freq_now tde) \<and> (case next_doc (l_ps L) del 0 c of
       None \<Rightarrow> k = length (l_ps L) \<and> prx_done L k (tde_at L k tde fin pin freq)
     | Some i \<Rightarrow> k = Suc i \<and> prx_done L i (tde_at L k tde fin pin freq))"
  using assms
proof (induction "length (l_ps L) - c" arbitrary: c tde)
  case 0
  then have c: "c = length (l_ps L)" by (simp add: tde_core_def)
  have e: "tde_at L c tde (stde_frq_in tde) (stde_prx_in tde) (stde_freq_now tde) = tde" using 0 by (simp add: tde_at_def tde_core_def)
  have "stde_next m tde = Inr (False, tde)" using 0 c by (simp add: stde_next.simps [of m tde] tde_core_def)
  then show ?case using 0 c e
    by - (rule exI [of _ "stde_frq_in tde"], rule exI [of _ "stde_prx_in tde"], rule exI [of _ "stde_freq_now tde"], rule exI [of _ c], simp add: next_doc_end)
next
  case (Suc d)
  note ok = Suc.prems(1) and R = Suc.prems(2) and X = Suc.prems(3)
  from Suc.hyps(2) have c: "c < length (l_ps L)" by simp
  from stde_read_doc_ok [OF ok R c] obtain fin where
    r: "stde_read_doc m tde = Inr (live del (doc_at (l_ps L) (Suc c)), tde\<lparr>stde_frq_in := fin, stde_doc := int (doc_at (l_ps L) (Suc c)),
      stde_freq_now := int (length (occs_at (l_ps L) (Suc c))), stde_count := int (Suc c)\<rparr>)" "is_ok fin (l_frq L) (l_F L + frq_at (l_ps L) (Suc c))" by blast
  let ?t = "tde_at L (Suc c) tde fin (stde_prx_in tde) (int (length (occs_at (l_ps L) (Suc c))))"
  have t: "stde_read_doc m tde = Inr (live del (doc_at (l_ps L) (Suc c)), ?t)" unfolding r(1) by (simp add: tde_at_def)
  have core: "tde_core L del (Suc c) ?t" using R r(2) c by (simp add: tde_core_def tde_at_def)
  have X1: "prx_done L c ?t" using X by (simp add: prx_done_def tde_at_def)
  have go: "stde_next m tde = (if live del (doc_at (l_ps L) (Suc c)) then Inr (True, ?t)
      else case skip_prox m ?t of Inl e \<Rightarrow> Inl e | Inr stde2 \<Rightarrow> stde_next m stde2)"
    using R c t by (simp add: stde_next.simps [of m tde] tde_core_def)
  show ?case
  proof (cases "live del (doc_at (l_ps L) (Suc c))")
    case True
    then have "next_doc (l_ps L) del 0 c = Some c" using c by (simp add: next_doc_step)
    then show ?thesis using True go core X1 c
      by - (rule exI [of _ fin], rule exI [of _ "stde_prx_in tde"], rule exI [of _ "int (length (occs_at (l_ps L) (Suc c)))"], rule exI [of _ "Suc c"], simp)
  next
    case False
    then have n: "next_doc (l_ps L) del 0 c = next_doc (l_ps L) del 0 (Suc c)" using c by (simp add: next_doc_step)
    from skip_prox_ok [OF _ c _ X1] ok obtain pin where
      s: "skip_prox m ?t = Inr (?t\<lparr>stde_prx_in := pin\<rparr>)" "prx_done L (Suc c) (?t\<lparr>stde_prx_in := pin\<rparr>)" by (auto simp: tde_at_def)
    have "tde_core L del (Suc c) (?t\<lparr>stde_prx_in := pin\<rparr>)" using core by (simp add: tde_core_def)
    moreover have "d = length (l_ps L) - Suc c" "layout_ok (tde_positions (?t\<lparr>stde_prx_in := pin\<rparr>)) L" using Suc.hyps(2) ok by (simp_all add: tde_at_def)
    ultimately obtain fin2 pin2 freq2 k where
      g: "stde_next m (?t\<lparr>stde_prx_in := pin\<rparr>) = Inr (next_doc (l_ps L) del 0 (Suc c) \<noteq> None, tde_at L k (?t\<lparr>stde_prx_in := pin\<rparr>) fin2 pin2 freq2)"
      "tde_core L del k (tde_at L k (?t\<lparr>stde_prx_in := pin\<rparr>) fin2 pin2 freq2)" "Suc c \<le> k"
      "freq2 = (if Suc c < length (l_ps L) then int (length (occs_at (l_ps L) k)) else stde_freq_now (?t\<lparr>stde_prx_in := pin\<rparr>))"
      "case next_doc (l_ps L) del 0 (Suc c) of
       None \<Rightarrow> k = length (l_ps L) \<and> prx_done L k (tde_at L k (?t\<lparr>stde_prx_in := pin\<rparr>) fin2 pin2 freq2)
     | Some i \<Rightarrow> k = Suc i \<and> prx_done L i (tde_at L k (?t\<lparr>stde_prx_in := pin\<rparr>) fin2 pin2 freq2)"
      using Suc.hyps(1) [of "Suc c" "?t\<lparr>stde_prx_in := pin\<rparr>", OF _ _ _ s(2)] by (elim meta_impE exE conjE) (assumption | rule that)+
    have e: "tde_at L k (?t\<lparr>stde_prx_in := pin\<rparr>) fin2 pin2 freq2 = tde_at L k tde fin2 pin2 freq2" by (simp add: tde_at_def)
    have "k \<le> length (l_ps L)" using g(2) by (simp add: tde_core_def)
    then have "Suc c < length (l_ps L) \<or> k = Suc c" using g(3) c by linarith
    then have f: "freq2 = int (length (occs_at (l_ps L) k))" using g(4) by (auto simp: tde_at_def)
    show ?thesis using g(1,2,3,5) f c go False s(1) n unfolding e
      by - (rule exI [of _ fin2], rule exI [of _ pin2], rule exI [of _ freq2], rule exI [of _ k], simp)
  qed
qed

text \<open>The frequency is that of the last document read.\<close>

definition tde_stands :: "layout \<Rightarrow> bitvector option \<Rightarrow> nat \<Rightarrow> nat \<Rightarrow> 'f seg_term_doc_enum \<Rightarrow> bool" where
  "tde_stands L del c i tde \<longleftrightarrow> tde_state L del c i tde \<and> (0 < c \<longrightarrow> stde_freq_now tde = int (length (occs_at (l_ps L) c)))"

lemma tde_skips_at [simp]: "tde_skips L c (tde_at L k tde fin pin freq) j = tde_skips L c tde j" "tde_skip_in L (tde_at L k tde fin pin freq) j = tde_skip_in L tde j"
  and tde_at_sel [simp]: "tde_positions (tde_at L k tde fin pin freq) = tde_positions tde" "stde_freq_now (tde_at L k tde fin pin freq) = freq"
  by (simp_all add: tde_at_def tde_skips_def tde_skip_in_def)

lemma tde_skips_mono:
  assumes "tde_skips L c tde j" and "0 < l_S L" and "c \<le> k \<or> k = length (l_ps L)"
  shows "tde_skips L k tde j"
proof -
  have "j \<le> Suc (k div l_S L)"
  proof (cases "c \<le> k")
    case True
    then show ?thesis using assms(1) div_le_mono [OF True, of "l_S L"] by (simp add: tde_skips_def)
  next
    case False
    then show ?thesis using assms by (simp add: tde_skips_def)
  qed
  with assms(1) show ?thesis by (simp add: tde_skips_def)
qed

lemma tde_next_ok:
  assumes ok: "layout_ok (tde_positions tde) L" and R: "tde_core L del c tde" and X: "tde_prox L c i tde"
    and s: "tde_skips L (Suc c) tde j" "tde_skip_in L tde j" and f: "c = length (l_ps L) \<Longrightarrow> 0 < c \<Longrightarrow> stde_freq_now tde = int (length (occs_at (l_ps L) c))"
  shows "\<exists>tde'. tde_next m tde = Inr (next_doc (l_ps L) del 0 c \<noteq> None, tde') \<and> tde_positions tde' = tde_positions tde \<and> stde_doc_freq tde' = stde_doc_freq tde \<and>
    (case next_doc (l_ps L) del 0 c of
       None \<Rightarrow> tde_stands L del (length (l_ps L)) (length (occs_at (l_ps L) (length (l_ps L)))) tde'
     | Some k \<Rightarrow> tde_stands L del (Suc k) 0 tde')"
proof -
  have S: "0 < l_S L" and cn: "c \<le> length (l_ps L)" using ok R by (simp_all add: layout_ok_def tde_core_def)
  obtain pin where pin: "prx_done L c (tde\<lparr>stde_prx_in := pin\<rparr>)"
    "tde_positions tde \<Longrightarrow> frt_is_skip_vints m (stde_prx_in tde) (nat (stde_prx_cnt tde)) = Inr pin"
    "\<not> tde_positions tde \<Longrightarrow> pin = stde_prx_in tde"
  proof (cases "tde_positions tde")
    case True
    then have l: "lies_at (l_prx L) (l_X L) (enc_prox (l_ps L))" using ok by (simp add: layout_ok_def)
    from True X have x: "i \<le> length (occs_at (l_ps L) c)" "nat (stde_prx_cnt tde) = length (occs_at (l_ps L) c) - i"
      "is_ok (stde_prx_in tde) (l_prx L) (l_X L + prox_at (l_ps L) c i)" by (simp_all add: tde_prox_def)
    from tde_prox_skip [OF l cn x(1,3)] True x(2) that show ?thesis by (auto simp: prx_done_def)
  next
    case False
    then show ?thesis using that [of "stde_prx_in tde"] by (simp add: prx_done_def)
  qed
  let ?t = "tde\<lparr>stde_prx_in := pin\<rparr>"
  have "layout_ok (tde_positions ?t) L" "tde_core L del c ?t" using ok R by (simp_all add: tde_core_def)
  from stde_next_ok [OF this pin(1)] obtain fin pin2 freq k where
    g: "stde_next m ?t = Inr (next_doc (l_ps L) del 0 c \<noteq> None, tde_at L k ?t fin pin2 freq)" "tde_core L del k (tde_at L k ?t fin pin2 freq)" "c \<le> k"
    "freq = (if c < length (l_ps L) then int (length (occs_at (l_ps L) k)) else stde_freq_now ?t)"
    "case next_doc (l_ps L) del 0 c of
       None \<Rightarrow> k = length (l_ps L) \<and> prx_done L k (tde_at L k ?t fin pin2 freq)
     | Some i \<Rightarrow> k = Suc i \<and> prx_done L i (tde_at L k ?t fin pin2 freq)" by (elim exE conjE) (rule that)
  let ?t1 = "tde_at L k ?t fin pin2 freq"
  have k: "k = length (l_ps L) \<or> Suc c \<le> k" using g(5) next_doc_Some [of "l_ps L" del 0 c] by (auto split: option.splits)
  have fr: "0 < k \<longrightarrow> freq = int (length (occs_at (l_ps L) k))"
  proof (cases "c < length (l_ps L)")
    case False
    then have "c = length (l_ps L)" "k = c" using cn g(2,3) by (simp_all add: tde_core_def)
    then show ?thesis using f g(4) by simp
  qed (simp add: g(4))
  have "tde_skips L (Suc c) ?t1 j" "tde_skip_in L ?t1 j" using s by (simp_all add: tde_skips_def tde_skip_in_def tde_at_def)
  moreover have "tde_skips L k ?t1 j" by (rule tde_skips_mono [OF calculation(1) S]) (use k in auto)
  ultimately have ready: "tde_ready L del k ?t1" using ok g(2) unfolding tde_ready_def by (intro conjI exI [of _ j]) (simp_all add: tde_at_def)
  have df: "stde_doc_freq ?t1 = stde_doc_freq tde" by (simp add: tde_at_def)
  have end_c: "next_doc (l_ps L) del 0 c = None \<Longrightarrow> k = length (l_ps L)" using g(5) by simp
  show ?thesis
  proof (cases "tde_positions tde")
    case False
    then have "?t = tde" using pin(3) by simp
    then have n: "tde_next m tde = Inr (next_doc (l_ps L) del 0 c \<noteq> None, ?t1)" using g(1) False by (simp add: tde_next_def)
    have "tde_stands L del k n ?t1" for n using ready fr False by (simp add: tde_stands_def tde_state_def tde_prox_def)
    then show ?thesis using n g(5) df by (intro exI [of _ ?t1]) (auto split: option.splits)
  next
    case True
    let ?t2 = "if next_doc (l_ps L) del 0 c \<noteq> None then ?t1\<lparr>stde_prx_cnt := stde_freq_now ?t1, stde_position := 0\<rparr>
             else ?t1\<lparr>stde_prx_cnt := 0, stde_position := 0\<rparr>"
    have n: "tde_next m tde = Inr (next_doc (l_ps L) del 0 c \<noteq> None, ?t2)" using pin(2) True g(1) by (simp add: tde_next_def stpe_next_def)
    show ?thesis
    proof (cases "next_doc (l_ps L) del 0 c")
      case None
      have "k = length (l_ps L) \<and> prx_done L k ?t1" using g(5) unfolding None option.case .
      then have k: "k = length (l_ps L)" "prx_done L k ?t1" by blast+
      then have "is_ok (stde_prx_in ?t2) (l_prx L) (l_X L + prox_at (l_ps L) k (length (occs_at (l_ps L) k)))"
        using True None prx_boundary [of k "l_ps L"] by (simp add: prx_done_def)
      then have "tde_prox L k (length (occs_at (l_ps L) k)) ?t2" using None by (simp add: tde_prox_def)
      then have "tde_stands L del k (length (occs_at (l_ps L) k)) ?t2" using ready fr None by (simp add: tde_stands_def tde_state_def)
      then show ?thesis using n None end_c df by (intro exI [of _ ?t2]) simp
    next
      case (Some i)
      have "k = Suc i \<and> prx_done L i ?t1" using g(5) unfolding Some option.case .
      then have k: "k = Suc i" "prx_done L i ?t1" by blast+
      have "tde_prox L k 0 ?t2" using k fr True Some by (simp add: tde_prox_def prx_done_def prox_at_def)
      then have "tde_stands L del k 0 ?t2" using ready fr Some by (simp add: tde_stands_def tde_state_def)
      then show ?thesis using n Some k(1) df by (intro exI [of _ ?t2]) simp
    qed
  qed
qed

subsection \<open>Skipping\<close>

lemma enc_skip_at:
  assumes ok: "layout_ok po L" and k: "k < length (l_ps L) div l_S L"
  shows "lies_at (l_frq L) (l_SK L + skip_at (l_S L) (l_ps L) k) (enc_skip (l_S L) (l_ps L) k)"
proof -
  have "l_S L \<le> length (l_ps L)"
  proof (rule ccontr)
    assume "\<not> ?thesis"
    then show False using k by simp
  qed
  then show ?thesis using ok k by (intro enc_skips_at) (simp_all add: layout_ok_def)
qed

text \<open>One entry: the differences to the one before.\<close>

lemma skip_entry_ok:
  assumes ok: "layout_ok po L" and k: "k < length (l_ps L) div l_S L" and i: "is_ok i (l_frq L) (l_SK L + skip_at (l_S L) (l_ps L) k)"
  shows "\<exists>d f p i1 i2 i3. frt_is_read_vint m i = Inr (d, i1) \<and> frt_is_read_vint m i1 = Inr (f, i2) \<and> frt_is_read_vint m i2 = Inr (p, i3) \<and>
    is_ok i3 (l_frq L) (l_SK L + skip_at (l_S L) (l_ps L) (Suc k)) \<and>
    int (doc_at (l_ps L) (skip_cnt (l_S L) k)) + sint d = int (doc_at (l_ps L) (skip_cnt (l_S L) (Suc k))) \<and>
    int (frq_at (l_ps L) (skip_cnt (l_S L) k)) + uint f = int (frq_at (l_ps L) (skip_cnt (l_S L) (Suc k))) \<and>
    int (prx_at (l_ps L) (skip_cnt (l_S L) k)) + uint p = int (prx_at (l_ps L) (skip_cnt (l_S L) (Suc k)))"
proof -
  let ?ps = "l_ps L" and ?a = "skip_cnt (l_S L) k" and ?b = "skip_cnt (l_S L) (Suc k)"
  let ?d = "doc_at ?ps ?b - doc_at ?ps ?a" and ?f = "frq_at ?ps ?b - frq_at ?ps ?a" and ?p = "prx_at ?ps ?b - prx_at ?ps ?a"
  have P: "posts_ok ?ps" and S: "0 < l_S L" using ok by (simp_all add: layout_ok_def)
  have "Suc k * l_S L \<le> length ?ps div l_S L * l_S L" using k by (intro mult_le_mono1) simp
  then have ab: "?a \<le> ?b" "?b \<le> length ?ps" using div_times_less_eq_dividend [of "length ?ps" "l_S L"] 
    by (simp add: skip_cnt_def diff_le_mono, unfold skip_cnt_def, linarith)
  note m = doc_at_mono [OF P ab] at_mono [OF ab(1), of ?ps] and b = doc_at_bound [OF P ab(2)] at_bound [OF P, of ?b]
  have d: "?d < 2 ^ 31" "?d < 2 ^ 32" "?f < 2 ^ 32" "?p < 2 ^ 32" using b by simp_all
  from enc_skip_at [OF ok k] obtain ys where
    l: "l_SK L + skip_at (l_S L) ?ps k \<le> length (l_frq L)" "drop (l_SK L + skip_at (l_S L) ?ps k) (l_frq L) = enc_v ?d @ (enc_v ?f @ (enc_v ?p @ ys))"
    by (auto simp: lies_at_def enc_skip_def Let_def)
  from decodesD [OF decodes_vint_nat [OF d(2)] i l] obtain i1 p1 where
    1: "frt_is_read_vint m i = Inr (of_nat ?d, i1)" "is_ok i1 (l_frq L) p1" "p1 \<le> length (l_frq L)" "drop p1 (l_frq L) = enc_v ?f @ (enc_v ?p @ ys)"
      "p1 = l_SK L + skip_at (l_S L) ?ps k + length (enc_v ?d)" by metis
  from decodesD [OF decodes_vint_nat [OF d(3)] 1(2-4)] obtain i2 p2 where
    2: "frt_is_read_vint m i1 = Inr (of_nat ?f, i2)" "is_ok i2 (l_frq L) p2" "p2 \<le> length (l_frq L)" "drop p2 (l_frq L) = enc_v ?p @ ys"
      "p2 = p1 + length (enc_v ?f)" by metis
  from decodesD [OF decodes_vint_nat [OF d(4)] 2(2-4)] obtain i3 where
    3: "frt_is_read_vint m i2 = Inr (of_nat ?p, i3)" "is_ok i3 (l_frq L) (p2 + length (enc_v ?p))" by metis
  have e: "p2 + length (enc_v ?p) = l_SK L + skip_at (l_S L) ?ps (Suc k)" by (simp add: 1(5) 2(5) skip_at_Suc enc_skip_def Let_def)
  have u: "n < 2 ^ 32 \<Longrightarrow> uint (of_nat n :: u32) = int n" for n by (simp add: uint_nat unat_of_nat)
  show ?thesis
    using 1(1) 2(1) 3 e m d sint_nat [OF d(1)] u [OF d(3)] u [OF d(4)]
    by - (rule exI [of _ "of_nat ?d"], rule exI [of _ "of_nat ?f"], rule exI [of _ "of_nat ?p"], rule exI [of _ i1], rule exI [of _ i2], rule exI [of _ i3], simp)
qed

lemma tde_skips_entry: "tde_skips L c tde j \<Longrightarrow> at_entry L tde j = tde"
  by (simp add: tde_skips_def at_entry_def)

lemma stde_skip_loop_ok:
  assumes ok: "layout_ok po L" and S: "l_S L \<le> length (l_ps L)" and c: "c \<le> length (l_ps L)" "stde_doc tde = int (doc_at (l_ps L) c)"
    and T: "stde_skip_interval tde = int (l_S L)" "stde_num_skips tde = int (length (l_ps L) div l_S L)"
    and j: "j \<le> length (l_ps L) div l_S L" and i: "is_ok i (l_frq L) (l_SK L + skip_at (l_S L) (l_ps L) j)"
  shows "\<exists>j' i' s'. stde_skip_loop m t (at_entry L tde j) i s = Inr (at_entry L tde j', i', s') \<and> j' \<le> length (l_ps L) div l_S L \<and>
    is_ok i' (l_frq L) (l_SK L + skip_at (l_S L) (l_ps L) j') \<and>
    (if t \<le> int (doc_at (l_ps L) (skip_cnt (l_S L) j)) then j' = j \<and> s' = s
     else \<exists>k. j \<le> k \<and> k \<le> length (l_ps L) div l_S L \<and> j' \<le> Suc k \<and> int (doc_at (l_ps L) (skip_cnt (l_S L) k)) < t \<and>
       s' = entry_state L k (num_skipped s + int (l_S L) * int (Suc k - max j (Suc (c div l_S L)))))"
  using j i
proof (induction "length (l_ps L) div l_S L - j" arbitrary: j i s rule: less_induct)
  case (less j i s)
  let ?N = "length (l_ps L) div l_S L" and ?d = "\<lambda>k. int (doc_at (l_ps L) (skip_cnt (l_S L) k))"
  define s1 where "s1 = entry_state L j (num_skipped s + (if c div l_S L < j then int (l_S L) else 0))"
  note cnt = entry_counts [OF ok S less.prems(1) c(1)]
  have s1: "s1 = \<lparr>last_skip_doc = ?d j, last_frq_ptr = int (l_F L + frq_at (l_ps L) (skip_cnt (l_S L) j)),
      last_prx_ptr = int (l_X L + prx_at (l_ps L) (skip_cnt (l_S L) j)),
      num_skipped = (if 0 \<noteq> ?d j \<and> ?d j \<ge> int (doc_at (l_ps L) c) then num_skipped s + int (l_S L) else num_skipped s)\<rparr>"
    unfolding cnt by (simp add: s1_def entry_state_def)
  have s1j: "s1 = entry_state L j (num_skipped s + int (l_S L) * int (Suc j - max j (Suc (c div l_S L))))"
    by (simp add: s1_def num_counted)
  note step = stde_skip_loop.simps [of m t "at_entry L tde j" i s, unfolded at_entry_sel c(2) T Let_def, folded s1]
  consider "t \<le> ?d j" | "?d j < t" "j = ?N" | "?d j < t" "j < ?N" using less.prems(1) by linarith
  then show ?case
  proof cases
    case 1
    then show ?thesis unfolding step using less.prems by auto
  next
    case 2
    have "stde_skip_loop m t (at_entry L tde j) i s = Inr (at_entry L tde j, i, s1)" unfolding step using 2 by simp
    then show ?thesis using 2 less.prems s1j by - (rule exI [of _ j], rule exI [of _ i], rule exI [of _ s1], simp, rule exI [of _ j], simp)
  next
    case 3
    from skip_entry_ok [OF ok 3(2) less.prems(2)] obtain d f p i1 i2 i3 where
      r: "frt_is_read_vint m i = Inr (d, i1)" "frt_is_read_vint m i1 = Inr (f, i2)" "frt_is_read_vint m i2 = Inr (p, i3)"
        "is_ok i3 (l_frq L) (l_SK L + skip_at (l_S L) (l_ps L) (Suc j))"
        "?d j + sint d = ?d (Suc j)" "int (frq_at (l_ps L) (skip_cnt (l_S L) j)) + uint f = int (frq_at (l_ps L) (skip_cnt (l_S L) (Suc j)))"
        "int (prx_at (l_ps L) (skip_cnt (l_S L) j)) + uint p = int (prx_at (l_ps L) (skip_cnt (l_S L) (Suc j)))" by (elim exE conjE) (rule that)
    have "(at_entry L tde j)\<lparr>stde_skip_doc := ?d j + sint d, stde_frq_ptr := int (l_F L + frq_at (l_ps L) (skip_cnt (l_S L) j)) + uint f,
        stde_prx_ptr := int (l_X L + prx_at (l_ps L) (skip_cnt (l_S L) j)) + uint p, stde_skip_count := int j + 1\<rparr> = at_entry L tde (Suc j)"
      using r(5-7) by (simp add: at_entry_def add.assoc)
    then have go: "stde_skip_loop m t (at_entry L tde j) i s = stde_skip_loop m t (at_entry L tde (Suc j)) i3 s1"
      unfolding step using 3 r(1-3) by simp
    have "?N - Suc j < ?N - j" "Suc j \<le> ?N" using 3 by simp_all
    from less.hyps [OF this r(4), of s1] obtain j' i' s' where
      g: "stde_skip_loop m t (at_entry L tde (Suc j)) i3 s1 = Inr (at_entry L tde j', i', s')" "j' \<le> ?N"
        "is_ok i' (l_frq L) (l_SK L + skip_at (l_S L) (l_ps L) j')"
      and e: "if t \<le> ?d (Suc j) then j' = Suc j \<and> s' = s1
        else \<exists>k. Suc j \<le> k \<and> k \<le> ?N \<and> j' \<le> Suc k \<and> ?d k < t \<and>
          s' = entry_state L k (num_skipped s1 + int (l_S L) * int (Suc k - max (Suc j) (Suc (c div l_S L))))" by (elim exE conjE) (rule that)
    have "\<exists>k. j \<le> k \<and> k \<le> ?N \<and> j' \<le> Suc k \<and> ?d k < t \<and>
        s' = entry_state L k (num_skipped s + int (l_S L) * int (Suc k - max j (Suc (c div l_S L))))"
    proof (cases "t \<le> ?d (Suc j)")
      case True
      then have "j' = Suc j" "s' = s1" using e by simp_all
      then show ?thesis using 3 s1j by - (rule exI [of _ j], simp only: less_imp_le order_refl simp_thms)
    next
      case False
      then have "\<exists>k. Suc j \<le> k \<and> k \<le> ?N \<and> j' \<le> Suc k \<and> ?d k < t \<and>
          s' = entry_state L k (num_skipped s1 + int (l_S L) * int (Suc k - max (Suc j) (Suc (c div l_S L))))" using e by (simp only: if_False)
      then obtain k where k: "Suc j \<le> k" "k \<le> ?N" "j' \<le> Suc k" "?d k < t"
          "s' = entry_state L k (num_skipped s1 + int (l_S L) * int (Suc k - max (Suc j) (Suc (c div l_S L))))" by (elim exE conjE) (rule that)
      have "num_skipped s1 + int (l_S L) * int (Suc k - max (Suc j) (Suc (c div l_S L))) =
          num_skipped s + int (l_S L) * int (Suc k - max j (Suc (c div l_S L)))"
        unfolding num_counted_Suc [OF k(1), symmetric] by (simp add: s1_def entry_state_def)
      then have "s' = entry_state L k (num_skipped s + int (l_S L) * int (Suc k - max j (Suc (c div l_S L))))" using k(5) by (simp only:)
      then show ?thesis using k(1-4) by (intro exI [of _ k] conjI) simp_all
    qed
    then show ?thesis unfolding go using g 3(1) by - (rule exI [of _ j'], rule exI [of _ i'], rule exI [of _ s'], simp)
  qed
qed

lemma skip_frq_in:
  assumes "is_ok (stde_frq_in tde) bs q"
    and "tde_skip_in L tde j" and "bs = l_frq L" and "l_S L \<le> length (l_ps L)"
  shows "\<exists>i. (if \<not> stde_have_skipped tde then frt_is_seek m (case stde_skip_in tde of None \<Rightarrow> frt_is_clone (stde_frq_in tde) | Some is \<Rightarrow> is) (stde_skip_ptr tde)
      else Inr (case stde_skip_in tde of None \<Rightarrow> frt_is_clone (stde_frq_in tde) | Some is \<Rightarrow> is)) = Inr i \<and>
    is_ok i (l_frq L) (l_SK L + skip_at (l_S L) (l_ps L) j)"
proof (cases "stde_have_skipped tde")
  case True
  then show ?thesis using assms(2) by (auto simp: tde_skip_in_def)
next
  case False
  let ?i = "case stde_skip_in tde of None \<Rightarrow> frt_is_clone (stde_frq_in tde) | Some is \<Rightarrow> is"
  obtain p where "is_ok ?i (l_frq L) p"
    using assms by (cases "stde_skip_in tde") (auto simp: tde_skip_in_def frt_is_clone_def)
  from frt_is_seek_ok [OF this, of "l_SK L"] False assms(2,4) show ?thesis by (auto simp: tde_skip_in_def)
qed

definition skipped_to :: "layout \<Rightarrow> bitvector option \<Rightarrow> int \<Rightarrow> nat \<Rightarrow> nat \<Rightarrow> 'f seg_term_doc_enum \<Rightarrow> 'f seg_term_doc_enum \<Rightarrow> bool" where
  "skipped_to L del t c c' tde tde' \<longleftrightarrow> tde_core L del c' tde' \<and> (\<exists>i. tde_prox L c' i tde') \<and> (\<exists>j. tde_skips L (Suc c') tde' j \<and> tde_skip_in L tde' j) \<and>
     c \<le> c' \<and> (c < c' \<longrightarrow> int (doc_at (l_ps L) c') < t) \<and> (c' = length (l_ps L) \<longrightarrow> 0 < c' \<longrightarrow> stde_freq_now tde' = int (length (occs_at (l_ps L) c'))) \<and>
     tde_positions tde' = tde_positions tde \<and> stde_doc_freq tde' = stde_doc_freq tde"

lemma stde_skip_ok:
  assumes ok: "layout_ok (tde_positions tde) L" and st: "tde_stands L del c i tde"
  shows "\<exists>c' tde'. stde_skip m tde t = Inr tde' \<and> skipped_to L del t c c' tde tde'"
proof -
  let ?n = "length (l_ps L)" and ?S = "l_S L"
  from st obtain j where R: "tde_core L del c tde" "tde_skips L c tde j" "tde_skip_in L tde j" and X: "tde_prox L c i tde"
    and f: "0 < c \<longrightarrow> stde_freq_now tde = int (length (occs_at (l_ps L) c))"
    by (auto simp: tde_stands_def tde_state_def tde_ready_def)
  have S0: "0 < ?S" using ok by (simp add: layout_ok_def)
  have w: "stde_doc_freq tde = int ?n" "stde_doc tde = int (doc_at (l_ps L) c)" "stde_count tde = int c" "stde_skip_interval tde = int ?S"
      "stde_num_skips tde = int (?n div ?S)" "j \<le> ?n div ?S" "j \<le> Suc (c div ?S)" "c \<le> ?n" "is_ok (stde_frq_in tde) (l_frq L) (l_F L + frq_at (l_ps L) c)"
    using R by (simp_all add: tde_core_def tde_skips_def)
  show ?thesis
  proof (cases "?S \<le> ?n \<and> t > int (doc_at (l_ps L) c)")
    case False
    then have "stde_skip m tde t = Inr tde" using w by (auto simp: stde_skip_def)
    moreover have "tde_skips L (Suc c) tde j" by (rule tde_skips_mono [OF R(2) S0]) simp
    ultimately show ?thesis unfolding skipped_to_def using R X f by (intro exI [of _ c] exI [of _ tde]) auto
  next
    case True
    then have opt: "?S \<le> ?n" "int (doc_at (l_ps L) c) < t" by simp_all
    from skip_frq_in [OF w(9) R(3) refl opt(1)] obtain i0 where
      i0: "(if \<not> stde_have_skipped tde then frt_is_seek m (case stde_skip_in tde of None \<Rightarrow> frt_is_clone (stde_frq_in tde) | Some is \<Rightarrow> is) (stde_skip_ptr tde)
      else Inr (case stde_skip_in tde of None \<Rightarrow> frt_is_clone (stde_frq_in tde) | Some is \<Rightarrow> is)) = Inr i0"
        "is_ok i0 (l_frq L) (l_SK L + skip_at ?S (l_ps L) j)" by blast
    let ?t0 = "tde\<lparr>stde_have_skipped := True\<rparr>"
    let ?s0 = "\<lparr>last_skip_doc = stde_skip_doc tde, last_frq_ptr = frt_is_pos (stde_frq_in tde), last_prx_ptr = - 1,
                 num_skipped = - 1 - stde_count tde smod stde_skip_interval tde\<rparr>"
    have e0: "at_entry L ?t0 j = ?t0" using R(2) by (intro tde_skips_entry [of L c]) (simp add: tde_skips_def)
    have t0: "stde_doc ?t0 = int (doc_at (l_ps L) c)" "stde_skip_interval ?t0 = int ?S" "stde_num_skips ?t0 = int (?n div ?S)" using w by simp_all
    from stde_skip_loop_ok [OF ok opt(1) w(8) t0 w(6) i0(2), unfolded e0, of t ?s0] obtain j' i' s' where
      g: "stde_skip_loop m t ?t0 i0 ?s0 = Inr (at_entry L ?t0 j', i', s')" "j' \<le> ?n div ?S" "is_ok i' (l_frq L) (l_SK L + skip_at ?S (l_ps L) j')"
      and e: "if t \<le> int (doc_at (l_ps L) (skip_cnt ?S j)) then j' = j \<and> s' = ?s0
     else \<exists>k. j \<le> k \<and> k \<le> ?n div ?S \<and> j' \<le> Suc k \<and> int (doc_at (l_ps L) (skip_cnt ?S k)) < t \<and>
       s' = entry_state L k (num_skipped ?s0 + int ?S * int (Suc k - max j (Suc (c div ?S))))" by (elim exE conjE) (rule that)
    let ?t1 = "(at_entry L ?t0 j')\<lparr>stde_skip_in := Some i'\<rparr>"
    have pos: "frt_is_pos (stde_frq_in tde) = int (l_F L + frq_at (l_ps L) c)" using w(9) by (rule frt_is_pos_ok)
    have "stde_skip m tde t = (if last_frq_ptr s' > frt_is_pos (stde_frq_in ?t1) then
                ebind (frt_is_seek m (stde_frq_in ?t1) (last_frq_ptr s')) (\<lambda>is.
                ebind (seek_prox m (?t1\<lparr>stde_frq_in := is\<rparr>) (last_prx_ptr s')) (\<lambda>stde.
                Inr (stde\<lparr>stde_doc := last_skip_doc s', stde_count := stde_count stde + num_skipped s'\<rparr>)))
              else Inr ?t1)"
      unfolding stde_skip_def Let_def i0(1) using opt w S0 g(1) by simp
    then have go: "stde_skip m tde t = (if last_frq_ptr s' > int (l_F L + frq_at (l_ps L) c) then
                ebind (frt_is_seek m (stde_frq_in tde) (last_frq_ptr s')) (\<lambda>is.
                ebind (seek_prox m (?t1\<lparr>stde_frq_in := is\<rparr>) (last_prx_ptr s')) (\<lambda>stde.
                Inr (stde\<lparr>stde_doc := last_skip_doc s', stde_count := stde_count stde + num_skipped s'\<rparr>)))
              else Inr ?t1)" using pos by (simp add: at_entry_def)
    have t1: "tde_core L del c ?t1" "tde_prox L c i ?t1" "tde_skip_in L ?t1 j'" "tde_positions ?t1 = tde_positions tde" "stde_doc_freq ?t1 = stde_doc_freq tde"
      "stde_freq_now ?t1 = stde_freq_now tde" using R X g(3) by (auto simp: tde_core_def tde_prox_def tde_skip_in_def at_entry_def)
    have sk: "j' \<le> Suc (Suc c' div ?S) \<Longrightarrow> tde_skips L (Suc c') ?t1 j'" for c' using w g(2) by (simp add: tde_skips_def at_entry_def)
    have stay: "j' \<le> Suc (Suc c div ?S) \<Longrightarrow> skipped_to L del t c c tde ?t1"
      unfolding skipped_to_def using t1 sk f by (intro conjI exI [of _ i] exI [of _ j']) simp_all
    show ?thesis
    proof (cases "t \<le> int (doc_at (l_ps L) (skip_cnt ?S j))")
      case True
      then have "j' = j" "s' = ?s0" using e by simp_all
      moreover have "c div ?S \<le> Suc c div ?S" by (rule div_le_mono) simp
      then have "j \<le> Suc (Suc c div ?S)" using w(7) by linarith
      ultimately show ?thesis using go stay pos by (intro exI [of _ c] exI [of _ ?t1]) simp
    next
      case False
      then obtain k where k: "j \<le> k" "k \<le> ?n div ?S" "j' \<le> Suc k" "int (doc_at (l_ps L) (skip_cnt ?S k)) < t"
        "s' = entry_state L k (num_skipped ?s0 + int ?S * int (Suc k - max j (Suc (c div ?S))))" using e by auto
      let ?c = "skip_cnt ?S k"
      have cn: "?c \<le> ?n" using skip_cnt_le k(2) .
      have bef: "last_frq_ptr s' > int (l_F L + frq_at (l_ps L) c) \<longleftrightarrow> c < ?c"
        using frq_at_less [of c ?c "l_ps L"] at_mono(1) [of ?c c "l_ps L"] cn k(5) 
        by (cases "c < ?c") (simp_all add: entry_state_def not_less)
      show ?thesis
      proof (cases "c < ?c")
        case False
        then have "k * ?S \<le> Suc c" by (simp add: skip_cnt_def)
        then have "k \<le> Suc c div ?S" using S0 by (simp add: less_eq_div_iff_mult_less_eq)
        then have "j' \<le> Suc (Suc c div ?S)" using k(3) by simp
        from stay [OF this] show ?thesis using go bef False by (intro exI [of _ c] exI [of _ ?t1]) simp
      next
        case True
        then have kc: "Suc c < k * ?S" unfolding skip_cnt_def by linarith
        then have q: "c div ?S < k" using S0 by (simp add: div_less_iff_less_mult)
        from frt_is_seek_ok [OF w(9), of "l_F L + frq_at (l_ps L) ?c"] obtain fin where
          fin: "frt_is_seek m (stde_frq_in tde) (last_frq_ptr s') = Inr fin" "is_ok fin (l_frq L) (l_F L + frq_at (l_ps L) ?c)"
          unfolding k(5) by (auto simp: entry_state_def)
        obtain pin a where pin: "seek_prox m (?t1\<lparr>stde_frq_in := fin\<rparr>) (last_prx_ptr s') = Inr (?t1\<lparr>stde_frq_in := fin, stde_prx_in := pin, stde_prx_cnt := a\<rparr>)"
          "tde_positions tde \<Longrightarrow> a = 0 \<and> is_ok pin (l_prx L) (l_X L + prx_at (l_ps L) ?c)"
        proof (cases "tde_positions tde")
          case True
          then have "is_ok (stde_prx_in tde) (l_prx L) (l_X L + prox_at (l_ps L) c i)" using X by (simp add: tde_prox_def)
          from frt_is_seek_ok [OF this, of "l_X L + prx_at (l_ps L) ?c"] obtain pin where
            "frt_is_seek m (stde_prx_in tde) (last_prx_ptr s') = Inr pin" "is_ok pin (l_prx L) (l_X L + prx_at (l_ps L) ?c)"
            unfolding k(5) by (auto simp: entry_state_def)
          then show ?thesis using True that [of 0 pin] by (simp add: seek_prox_def stpe_seek_prox_def at_entry_def)
        next
          case False
          then show ?thesis using that [of "stde_prx_cnt ?t1" "stde_prx_in ?t1"] t1(4) by (simp add: seek_prox_def)
        qed
        have "max j (Suc (c div ?S)) = Suc (c div ?S)" using w(7) by simp
        moreover have "int c smod int ?S = int c mod int ?S" by (cases "c = 0") (simp_all add: signed_modulo_int_def)
        ultimately have num: "num_skipped s' = - 1 - int c mod int ?S + int ?S * (int k - int (c div ?S))"
          using q w(3,4) by (simp add: k(5) entry_state_def of_nat_diff)
        have "int ?S * int (c div ?S) + int c mod int ?S = int c" by (simp add: zdiv_int)
        moreover have "Suc ?c = k * ?S" using kc by (simp add: skip_cnt_def)
        then have "1 + int ?c = int k * int ?S" by (metis of_nat_Suc of_nat_mult)
        ultimately have cnt: "int c + num_skipped s' = int ?c" unfolding num by (simp add: algebra_simps)
        let ?t2 = "?t1\<lparr>stde_frq_in := fin, stde_prx_in := pin, stde_prx_cnt := a, stde_doc := int (doc_at (l_ps L) ?c), stde_count := int ?c\<rparr>"
        have run: "stde_skip m tde t = Inr ?t2"
          using go bef True fin(1) pin(1) cnt w(3) by (simp add: at_entry_def k(5) entry_state_def)
        have "Suc ?c = k * ?S" using kc by (simp add: skip_cnt_def)
        then have j': "j' \<le> Suc (Suc ?c div ?S)" using k(3) S0 by simp
        have "k * ?S \<le> ?n div ?S * ?S" using k(2) by (rule mult_le_mono1)
        then have lt: "?c < ?n" using kc div_times_less_eq_dividend [of ?n ?S] unfolding skip_cnt_def by linarith
        have "tde_core L del ?c ?t2" using t1(1) fin(2) cn by (simp add: tde_core_def)
        moreover have "tde_prox L ?c (length (occs_at (l_ps L) ?c)) ?t2" using pin(2) prx_boundary [OF cn] t1(4) by (simp add: tde_prox_def)
        moreover have "tde_skips L (Suc ?c) ?t2 j'" "tde_skip_in L ?t2 j'" using sk [OF j'] t1(3) by (simp_all add: tde_skips_def tde_skip_in_def)
        ultimately have "skipped_to L del t c ?c tde ?t2"
          unfolding skipped_to_def using lt True k(4) t1(4,5) by (intro conjI exI [of _ "length (occs_at (l_ps L) ?c)"] exI [of _ j']) simp_all
        then show ?thesis using run by (intro exI [of _ ?c] exI [of _ ?t2]) simp
      qed
    qed
  qed
qed

text \<open>What an operation that moves to a document leaves: at the document found, or at the end.\<close>

definition moved :: "layout \<Rightarrow> bitvector option \<Rightarrow> nat option \<Rightarrow> 'f seg_term_doc_enum \<Rightarrow> bool" where
  "moved L del found tde \<longleftrightarrow> (case found of
       None \<Rightarrow> tde_stands L del (length (l_ps L)) (length (occs_at (l_ps L) (length (l_ps L)))) tde
     | Some k \<Rightarrow> tde_stands L del (Suc k) 0 tde)"

lemma tde_stands_next:
  assumes ok: "layout_ok (tde_positions tde) L" and st: "tde_stands L del c i tde"
  shows "\<exists>j. tde_core L del c tde \<and> tde_prox L c i tde \<and> tde_skips L (Suc c) tde j \<and> tde_skip_in L tde j \<and>
    (c = length (l_ps L) \<longrightarrow> 0 < c \<longrightarrow> stde_freq_now tde = int (length (occs_at (l_ps L) c)))"
proof -
  from st obtain j where j: "tde_skips L c tde j" "tde_skip_in L tde j" by (auto simp: tde_stands_def tde_state_def tde_ready_def)
  have "0 < l_S L" using ok by (simp add: layout_ok_def)
  from tde_skips_mono [OF j(1) this, of "Suc c"] j st show ?thesis
    by (intro exI [of _ j]) (simp add: tde_stands_def tde_state_def tde_ready_def)
qed

lemma tde_scan_ok:
  assumes "layout_ok (tde_positions tde) L" and "tde_core L del c tde" and "tde_prox L c i tde" and "tde_skips L (Suc c) tde j" and "tde_skip_in L tde j"
    and "c = length (l_ps L) \<longrightarrow> 0 < c \<longrightarrow> stde_freq_now tde = int (length (occs_at (l_ps L) c))"
  shows "\<exists>tde'. tde_scan m t tde = Inr (next_doc (l_ps L) del t c \<noteq> None, tde') \<and> tde_positions tde' = tde_positions tde \<and>
    moved L del (next_doc (l_ps L) del t c) tde'"
  using assms
proof (induction "length (l_ps L) - c" arbitrary: c i j tde rule: less_induct)
  case (less c i j tde)
  note p = less.prems
  from tde_next_ok [OF p(1-5)] p(6) obtain tde1 where
    n: "tde_next m tde = Inr (next_doc (l_ps L) del 0 c \<noteq> None, tde1)" "tde_positions tde1 = tde_positions tde"
      "moved L del (next_doc (l_ps L) del 0 c) tde1" unfolding moved_def by blast
  show ?case
  proof (cases "next_doc (l_ps L) del 0 c")
    case None
    from n next_doc_None [OF None, of t] None show ?thesis by (intro exI [of _ tde1]) (simp add: tde_scan.simps [of m t tde])
  next
    case (Some k)
    from next_doc_Some [OF Some] have k: "c \<le> k" "k < length (l_ps L)" by simp_all
    have st: "tde_stands L del (Suc k) 0 tde1" using n(3) Some by (simp add: moved_def)
    then have d: "stde_doc tde1 = int (doc_at (l_ps L) (Suc k))" by (simp add: tde_stands_def tde_state_def tde_ready_def tde_core_def)
    show ?thesis
    proof (cases "t \<le> int (doc_at (l_ps L) (Suc k))")
      case True
      then have "next_doc (l_ps L) del t c = Some k" using next_doc_first [OF Some] by simp
      then show ?thesis using n Some True d by (intro exI [of _ tde1]) (simp add: tde_scan.simps [of m t tde])
    next
      case False
      have ok: "layout_ok (tde_positions tde1) L" using p(1) n(2) by simp
      from tde_stands_next [OF ok st] obtain j1 where
        j1: "tde_core L del (Suc k) tde1" "tde_prox L (Suc k) 0 tde1" "tde_skips L (Suc (Suc k)) tde1 j1" "tde_skip_in L tde1 j1"
          "Suc k = length (l_ps L) \<longrightarrow> 0 < Suc k \<longrightarrow> stde_freq_now tde1 = int (length (occs_at (l_ps L) (Suc k)))" by blast
      have "length (l_ps L) - Suc k < length (l_ps L) - c" using k by simp
      from less.hyps [OF this ok j1] obtain tde2 where
        "tde_scan m t tde1 = Inr (next_doc (l_ps L) del t (Suc k) \<noteq> None, tde2)" "tde_positions tde2 = tde_positions tde1"
          "moved L del (next_doc (l_ps L) del t (Suc k)) tde2" by blast
      then show ?thesis using n Some False d next_doc_first [OF Some, of t] by (intro exI [of _ tde2]) (simp add: tde_scan.simps [of m t tde])
    qed
  qed
qed

lemma stde_skip_to_ok:
  assumes ok: "layout_ok (tde_positions tde) L" and st: "tde_stands L del c i tde"
  shows "\<exists>tde'. stde_skip_to m tde t = Inr (next_doc (l_ps L) del t c \<noteq> None, tde') \<and> tde_positions tde' = tde_positions tde \<and>
    moved L del (next_doc (l_ps L) del t c) tde'"
proof -
  from stde_skip_ok [OF ok st] obtain c' tde1 i1 j1 where
    s: "stde_skip m tde t = Inr tde1" "tde_core L del c' tde1" "tde_prox L c' i1 tde1" "tde_skips L (Suc c') tde1 j1" "tde_skip_in L tde1 j1"
      "c \<le> c'" "c < c' \<longrightarrow> int (doc_at (l_ps L) c') < t"
      "c' = length (l_ps L) \<longrightarrow> 0 < c' \<longrightarrow> stde_freq_now tde1 = int (length (occs_at (l_ps L) c'))" "tde_positions tde1 = tde_positions tde"
    unfolding skipped_to_def by blast
  have "c' \<le> length (l_ps L)" using s(2) by (simp add: tde_core_def)
  then have e: "next_doc (l_ps L) del t c = next_doc (l_ps L) del t c'"
    using ok s(6,7) by (intro next_doc_skip) (simp_all add: layout_ok_def)
  from tde_scan_ok [OF _ s(2-5,8), of t] s(1,9) ok show ?thesis by (auto simp: stde_skip_to_def e)
qed

lemma tde_next_stands:
  assumes ok: "layout_ok (tde_positions tde) L" and st: "tde_stands L del c i tde"
  shows "\<exists>tde'. tde_next m tde = Inr (next_doc (l_ps L) del 0 c \<noteq> None, tde') \<and> tde_positions tde' = tde_positions tde \<and>
    moved L del (next_doc (l_ps L) del 0 c) tde'"
proof -
  from tde_stands_next [OF ok st] obtain j where
    j: "tde_core L del c tde" "tde_prox L c i tde" "tde_skips L (Suc c) tde j" "tde_skip_in L tde j"
      "c = length (l_ps L) \<longrightarrow> 0 < c \<longrightarrow> stde_freq_now tde = int (length (occs_at (l_ps L) c))" by blast
  from tde_next_ok [OF ok j(1-4)] j(5) show ?thesis unfolding moved_def by blast
qed

lemma stde_read_loop_ok:
  assumes "layout_ok False L" and "\<not> tde_positions tde" and "tde_stands L del c i tde"
  shows "\<exists>tde'. stde_read_loop m tde acc (int (length acc + r)) = Inr (acc @ fst (scan_docs (l_ps L) del r c), tde') \<and> \<not> tde_positions tde' \<and>
    tde_stands L del (snd (scan_docs (l_ps L) del r c)) 0 tde'"
  using assms
proof (induction "length (l_ps L) - c" arbitrary: c i tde acc r rule: less_induct)
  case (less c i tde acc r)
  note ok = less.prems(1) and po = less.prems(2) and st = less.prems(3)
  from st obtain j where R: "tde_core L del c tde" "tde_skips L c tde j" "tde_skip_in L tde j"
    by (auto simp: tde_stands_def tde_state_def tde_ready_def)
  then have c: "c \<le> length (l_ps L)" "stde_count tde = int c" "stde_doc_freq tde = int (length (l_ps L))" by (simp_all add: tde_core_def)
  have any: "tde_stands L del c 0 tde" using st po by (simp add: tde_stands_def tde_state_def tde_prox_def)
  show ?case
  proof (cases "0 < r \<and> c < length (l_ps L)")
    case False
    then have "scan_docs (l_ps L) del r c = ([], c)" using c(1) scan_docs_end [of "l_ps L" del r] by (cases "r = 0") auto
    then show ?thesis using False c any po by (intro exI [of _ tde]) (auto simp: stde_read_loop.simps [of m tde])
  next
    case True
    have okp: "layout_ok (tde_positions tde) L" and cn: "c < length (l_ps L)" using ok po True by simp_all
    from stde_read_doc_ok [OF okp R(1) cn] obtain fin where
      r: "stde_read_doc m tde = Inr (live del (doc_at (l_ps L) (Suc c)), tde\<lparr>stde_frq_in := fin, stde_doc := int (doc_at (l_ps L) (Suc c)),
      stde_freq_now := int (length (occs_at (l_ps L) (Suc c))), stde_count := int (Suc c)\<rparr>)" "is_ok fin (l_frq L) (l_F L + frq_at (l_ps L) (Suc c))" by blast
    let ?t = "tde\<lparr>stde_frq_in := fin, stde_doc := int (doc_at (l_ps L) (Suc c)),
      stde_freq_now := int (length (occs_at (l_ps L) (Suc c))), stde_count := int (Suc c)\<rparr>"
    let ?acc = "if live del (doc_at (l_ps L) (Suc c)) then acc @ [(int (doc_at (l_ps L) (Suc c)), int (length (occs_at (l_ps L) (Suc c))))] else acc"
    have go: "stde_read_loop m tde acc (int (length acc + r)) = stde_read_loop m ?t ?acc (int (length acc + r))"
      using True c r(1) by (simp add: stde_read_loop.simps [of m tde])
    have S: "0 < l_S L" using ok by (simp add: layout_ok_def)
    have "tde_core L del (Suc c) ?t" using R(1) r(2) cn by (simp add: tde_core_def)
    moreover have "tde_skips L (Suc c) ?t j" using tde_skips_mono [OF R(2) S, of "Suc c"] by (simp add: tde_skips_def)
    moreover have "tde_skip_in L ?t j" using R(3) by (simp add: tde_skip_in_def)
    ultimately have st1: "tde_stands L del (Suc c) 0 ?t"
      using okp po by (auto simp: tde_stands_def tde_state_def tde_ready_def tde_prox_def)
    have po1: "\<not> tde_positions ?t" using po by simp
    have less1: "length (l_ps L) - Suc c < length (l_ps L) - c" using cn by simp
    show ?thesis
    proof (cases "live del (doc_at (l_ps L) (Suc c))")
      case live: True
      have sc: "scan_docs (l_ps L) del r c = (let (xs, c') = scan_docs (l_ps L) del (r - 1) (Suc c) in
          ((int (doc_at (l_ps L) (Suc c)), int (length (occs_at (l_ps L) (Suc c)))) # xs, c'))"
        using True live cn by (cases r) (simp_all add: next_doc_step)
      have "length acc + r = length ?acc + (r - 1)" using True live by simp
      then show ?thesis using less.hyps [OF less1 ok po1 st1, of ?acc "r - 1"] go sc live
        by (simp add: case_prod_beta Let_def)
    next
      case False
      then show ?thesis using less.hyps [OF less1 ok po1 st1, of acc r] go scan_docs_dead [OF cn False] True by simp
    qed
  qed
qed

lemma tde_found_moved:
  assumes "moved L del found tde"
  shows "tde_found (found \<noteq> None, tde) = Inr (fst (scan_found (l_ps L) found), tde) \<and>
    tde_stands L del (fst (snd (scan_found (l_ps L) found))) (snd (snd (scan_found (l_ps L) found))) tde"
proof (cases found)
  case None
  then show ?thesis using assms by (simp add: moved_def scan_found_def tde_found_def)
next
  case (Some k)
  then have st: "tde_stands L del (Suc k) 0 tde" using assms by (simp add: moved_def)
  then have "stde_count tde = int (Suc k)" "stde_doc tde = int (doc_at (l_ps L) (Suc k))" "stde_freq_now tde = int (length (occs_at (l_ps L) (Suc k)))"
    by (simp_all add: tde_stands_def tde_state_def tde_ready_def tde_core_def)
  then show ?thesis using st Some by (simp add: scan_found_def tde_found_def stde_doc_num_def stde_freq_def)
qed

lemma tde_call_ok:
  assumes ok: "layout_ok (tde_positions tde) L" and st: "tde_stands L del c i tde"
  shows "case scan_call (tde_positions tde) (l_ps L) del (c, i) x of
      Inl e \<Rightarrow> tde_do m tde x = Inl e
    | Inr (a, c', i') \<Rightarrow> \<exists>tde'. tde_do m tde x = Inr (a, tde') \<and> tde_positions tde' = tde_positions tde \<and> tde_stands L del c' i' tde'"
proof (cases x)
  case Call_next
  from tde_next_stands [OF ok st] obtain tde' where
    n: "tde_next m tde = Inr (next_doc (l_ps L) del 0 c \<noteq> None, tde')" "tde_positions tde' = tde_positions tde" "moved L del (next_doc (l_ps L) del 0 c) tde'" by blast
  from tde_found_moved [OF n(3)] n Call_next show ?thesis by (simp add: case_prod_beta)
next
  case (Call_skip_to t)
  from stde_skip_to_ok [OF ok st] obtain tde' where
    n: "stde_skip_to m tde t = Inr (next_doc (l_ps L) del t c \<noteq> None, tde')" "tde_positions tde' = tde_positions tde" "moved L del (next_doc (l_ps L) del t c) tde'" by blast
  from tde_found_moved [OF n(3)] n Call_skip_to show ?thesis by (simp add: case_prod_beta)
next
  case Call_position
  show ?thesis
  proof (cases "tde_positions tde")
    case True
    from stpe_next_position_ok [of L del c i tde] ok st True obtain tde' where
      p: "stpe_next_position m tde = Inr (if i < length (occs_at (l_ps L) c) then int (occs_at (l_ps L) c ! i) else - 1, tde')"
        "tde_state L del c (if i < length (occs_at (l_ps L) c) then Suc i else i) tde'" "tde_positions tde'" by (auto simp: tde_stands_def)
    have "stde_freq_now tde' = stde_freq_now tde" using p(1) by (auto simp: stpe_next_position_def Let_def ebind_eq_Inr split: if_splits)
    then have "tde_stands L del c (if i < length (occs_at (l_ps L) c) then Suc i else i) tde'" using p(2) st by (simp add: tde_stands_def)
    then show ?thesis using p True Call_position by (cases "i < length (occs_at (l_ps L) c)") simp_all
  qed (simp add: Call_position)
next
  case (Call_read r)
  show ?thesis
  proof (cases "tde_positions tde")
    case True
    then show ?thesis by (simp add: Call_read stpe_read_def)
  next
    case False
    from stde_read_loop_ok [of L tde del c i "[]" r] ok False st show ?thesis
      by (auto simp: Call_read stde_read_def case_prod_beta)
  qed
qed

lemma tde_calls_ok:
  assumes "layout_ok (tde_positions tde) L" and "tde_stands L del c i tde"
  shows "tde_calls m tde xs = scan_calls (tde_positions tde) (l_ps L) del (c, i) xs"
  using assms
proof (induction xs arbitrary: c i tde)
  case (Cons x xs)
  note call = tde_call_ok [OF Cons.prems, of x]
  show ?case
  proof (cases "scan_call (tde_positions tde) (l_ps L) del (c, i) x")
    case (Inl e)
    then show ?thesis using call by simp
  next
    case (Inr r)
    obtain a c' i' where r: "r = (a, c', i')" by (cases r)
    from call obtain tde' where t: "tde_do m tde x = Inr (a, tde')" "tde_positions tde' = tde_positions tde" "tde_stands L del c' i' tde'"
      by (auto simp: Inr r)
    from Cons.IH [of tde' c' i'] t Cons.prems(1) show ?thesis by (simp add: Inr r)
  qed
qed simp

end

end
