(* ===== verification/FrtDocWriter.thy ===== *)
theory FrtDocWriter
  imports FrtTermDocs FrtSegmentInfos
begin

unbundle bit_operations_syntax

text \<open>
  The document writer of \<open>frt_index.c\<close> (\<open>FrtDocWriter\<close>), on a RAM store: inverting the tokens of documents into posting lists,
  and \<open>dw_flush\<close>, which writes the posting lists of a segment.

  \<^item> \<open>dw_pls\<close> are the posting lists in the memory pool; the address of one is its index. The term of a posting list at
    address \<open>r\<close> is a C string at address \<open>r\<close>. \<open>dw_invs\<close> are the field inverters, with their addresses as indices.
  \<^item> \<open>skip_buffer\<close> is \<open>SkipBuffer\<close>; its streams \<open>frq_out\<close> and \<open>prx_out\<close> are those of \<open>flush_streams\<close>.
  \<^item> The tokens of a field (the analyzer and its token streams) are an argument. The writer of stored fields and term vectors
    (\<open>fw\<close>), and the norms, which are floating point formulas, are not in the model of adding documents; \<open>dw_flush\<close> writes
    the norms as they stand in the inverters.
  \<^item> Sums and differences of \<open>int\<close> positions are not wrapped.
\<close>

section \<open>The state\<close>

record frt_offset =
  off_start :: int
  off_end :: int

record field_inverter =
  inv_plists :: "(cstr, nat) frt_hash"
  inv_norms :: "byte list option"
  inv_fi :: field_info
  inv_length :: int
  inv_is_tokenized :: bool
  inv_store_term_vector :: bool
  inv_store_offsets :: bool
  inv_has_norms :: bool

record doc_writer =
  dw_store :: ram_store
  dw_si :: segment_info
  dw_fis :: field_infos
  dw_pls :: "posting_list list"
  dw_curr_plists :: "(cstr, nat) frt_hash"
  dw_fields :: "(unit, nat) frt_hash"
  dw_invs :: "field_inverter list"
  dw_offsets :: "frt_offset list"
  dw_offsets_size :: int
  dw_doc_num :: int
  dw_index_interval :: int
  dw_skip_interval :: int
  dw_max_field_length :: int
  dw_max_buffered_docs :: nat

definition fld_inv_new :: "doc_writer \<Rightarrow> field_info \<Rightarrow> field_inverter" where
  "fld_inv_new dw fi =
     \<lparr>inv_plists = frt_h_new_str False False,
      inv_norms = (if bits_has_norms (fi_bits fi) then Some (replicate (dw_max_buffered_docs dw) 0) else None),
      inv_fi = fi, inv_length = 0, inv_is_tokenized = bits_is_tokenized (fi_bits fi),
      inv_store_term_vector = bits_store_term_vector (fi_bits fi), inv_store_offsets = bits_store_offsets (fi_bits fi),
      inv_has_norms = bits_has_norms (fi_bits fi)\<rparr>"

definition frt_dw_get_fld_inv :: "doc_writer \<Rightarrow> field_info \<Rightarrow> (nat \<times> doc_writer) res" where
  "frt_dw_get_fld_inv dw fi =
     ebind (frt_h_get_int (dw_fields dw) (word_of_int (fi_number fi))) (\<lambda>(v, ht).
     case v of
       Some r \<Rightarrow> Inr (r, dw\<lparr>dw_fields := ht\<rparr>)
     | None \<Rightarrow>
         let r = length (dw_invs dw)
         in ebind (frt_h_set_int ht (word_of_int (fi_number fi)) (Some r)) (\<lambda>(_, ht).
            Inr (r, dw\<lparr>dw_fields := ht, dw_invs := dw_invs dw @ [fld_inv_new dw fi]\<rparr>)))"

section \<open>Adding postings\<close>

text \<open>The posting lists, the table of the document and the table of the field.\<close>

definition pl_at :: "posting_list list \<Rightarrow> nat option \<Rightarrow> (nat \<times> posting_list) res" where
  "pl_at pls v = (case v of None \<Rightarrow> Inl UndefinedBehaviour | Some r \<Rightarrow> if r < length pls then Inr (r, pls ! r) else Inl UndefinedBehaviour)"

definition dw_add_posting ::
  "posting_list list \<Rightarrow> (cstr, nat) frt_hash \<Rightarrow> (cstr, nat) frt_hash \<Rightarrow> int \<Rightarrow> cstr \<Rightarrow> int
     \<Rightarrow> (posting_list list \<times> (cstr, nat) frt_hash \<times> (cstr, nat) frt_hash) res" where
  "dw_add_posting pls curr_plists fld_plists doc_num text pos =
     ebind (frt_h_set_ext curr_plists (PKey text)) (\<lambda>(is_new, pl_he, curr_plists).
       if is_new then
         let p = frt_p_new doc_num pos
         in ebind (frt_h_set_ext fld_plists (PKey text)) (\<lambda>(is_new, fld_pl_he, fld_plists).
              if is_new then
                let r = length pls; pl = frt_pl_new (snd text) p
                in Inr (pls @ [pl], set_entry curr_plists pl_he (PKey (r, pl_term pl)) (Some r),
                     set_entry fld_plists fld_pl_he (PKey (r, pl_term pl)) (Some r))
              else
                ebind (pl_at pls (he_value (h_table fld_plists ! fld_pl_he))) (\<lambda>(r, pl).
                Inr (pls[r := pl_add_posting pl p], set_entry curr_plists pl_he (PKey (r, pl_term pl)) (Some r), fld_plists)))
       else
         ebind (pl_at pls (he_value (h_table curr_plists ! pl_he))) (\<lambda>(r, pl).
         Inr (pls[r := frt_pl_add_occ pl pos], curr_plists, fld_plists)))"

text \<open>The array grows by doubling; its new cells are zero.\<close>

definition DW_OFFSET_INIT_CAPA :: nat where
  "DW_OFFSET_INIT_CAPA = 512"

function offsets_capa_loop :: "nat \<Rightarrow> nat \<Rightarrow> nat" where
  "offsets_capa_loop pos capa = (if capa \<le> pos \<and> 0 < capa then offsets_capa_loop pos (2 * capa) else capa)"
  by pat_completeness auto
termination by (relation "measure (\<lambda>(pos, capa). Suc pos - capa)") auto

declare offsets_capa_loop.simps [simp del]

definition dw_add_offsets :: "frt_offset list \<Rightarrow> int \<Rightarrow> int \<Rightarrow> int \<Rightarrow> (frt_offset list \<times> int) res" where
  "dw_add_offsets offsets pos start stop =
     (if pos < 0 then Inl UndefinedBehaviour
      else
      let offsets = (if pos \<ge> int (length offsets)
            then offsets @ replicate (offsets_capa_loop (nat pos) (length offsets) - length offsets) \<lparr>off_start = 0, off_end = 0\<rparr> else offsets)
      in Inr (offsets[nat pos := \<lparr>off_start = start, off_end = stop\<rparr>], pos + 1))"

text \<open>A token as the loop uses it.\<close>

record frt_token =
  tk_text :: cstr
  tk_start :: int
  tk_end :: int
  tk_pos_inc :: int

record invert_state =
  iv_pls :: "posting_list list"
  iv_curr :: "(cstr, nat) frt_hash"
  iv_fld :: "(cstr, nat) frt_hash"
  iv_offsets :: "frt_offset list"
  iv_offsets_size :: int
  iv_pos :: int
  iv_num_terms :: int

text \<open>The loop over the tokens of one string of the field.\<close>

fun invert_tokens :: "bool \<Rightarrow> int \<Rightarrow> int \<Rightarrow> int \<Rightarrow> frt_token list \<Rightarrow> invert_state \<Rightarrow> invert_state res" where
  "invert_tokens store_offsets max_field_length doc_num start_offset [] s = Inr s"
| "invert_tokens store_offsets max_field_length doc_num start_offset (tk # tks) s =
     (let pos = iv_pos s + tk_pos_inc tk;
          pos = (if store_offsets \<and> pos < 0 then 0 else pos)
      in ebind (dw_add_posting (iv_pls s) (iv_curr s) (iv_fld s) doc_num (tk_text tk) pos) (\<lambda>(pls, curr, fld).
         ebind (if store_offsets then dw_add_offsets (iv_offsets s) pos (start_offset + tk_start tk) (start_offset + tk_end tk)
                else Inr (iv_offsets s, iv_offsets_size s)) (\<lambda>(offsets, offsets_size).
         let s' = s\<lparr>iv_pls := pls, iv_curr := curr, iv_fld := fld, iv_offsets := offsets, iv_offsets_size := offsets_size, iv_pos := pos,
               iv_num_terms := iv_num_terms s + 1\<rparr>
         in if iv_num_terms s \<ge> max_field_length then Inr s'
            else invert_tokens store_offsets max_field_length doc_num start_offset tks s')))"

text \<open>
  \<open>frt_dw_invert_field\<close>: each string of the field is given by its length and what becomes of it, the tokens of its token
  stream when the field is tokenized, and its text in UTF-8, cut to less than \<open>FRT_MAX_WORD_SIZE\<close> bytes, when it is not.
\<close>

record field_datum =
  fd_length :: int
  fd_tokens :: "frt_token list"
  fd_text :: cstr

fun invert_tokenized :: "bool \<Rightarrow> int \<Rightarrow> int \<Rightarrow> int \<Rightarrow> field_datum list \<Rightarrow> invert_state \<Rightarrow> invert_state res" where
  "invert_tokenized store_offsets max_field_length doc_num start_offset [] s = Inr s"
| "invert_tokenized store_offsets max_field_length doc_num start_offset (d # ds) s =
     ebind (invert_tokens store_offsets max_field_length doc_num start_offset (fd_tokens d) s)
       (invert_tokenized store_offsets max_field_length doc_num (start_offset + fd_length d + 1) ds)"

fun invert_untokenized :: "bool \<Rightarrow> int \<Rightarrow> int \<Rightarrow> int \<Rightarrow> field_datum list \<Rightarrow> invert_state \<Rightarrow> invert_state res" where
  "invert_untokenized store_offsets doc_num i start_offset [] s = Inr s"
| "invert_untokenized store_offsets doc_num i start_offset (d # ds) s =
     ebind (dw_add_posting (iv_pls s) (iv_curr s) (iv_fld s) doc_num (fd_text d) i) (\<lambda>(pls, curr, fld).
     ebind (if store_offsets then dw_add_offsets (iv_offsets s) i start_offset (start_offset + fd_length d)
            else Inr (iv_offsets s, iv_offsets_size s)) (\<lambda>(offsets, offsets_size).
     invert_untokenized store_offsets doc_num (i + 1) (start_offset + fd_length d + 1) ds
       (s\<lparr>iv_pls := pls, iv_curr := curr, iv_fld := fld, iv_offsets := offsets, iv_offsets_size := offsets_size\<rparr>)))"

definition frt_dw_invert_field :: "doc_writer \<Rightarrow> nat \<Rightarrow> field_datum list \<Rightarrow> doc_writer res" where
  "frt_dw_invert_field dw r data =
     (if r < length (dw_invs dw) then
        let inv = dw_invs dw ! r;
            s = \<lparr>iv_pls = dw_pls dw, iv_curr = dw_curr_plists dw, iv_fld = inv_plists inv, iv_offsets = dw_offsets dw,
                  iv_offsets_size = dw_offsets_size dw, iv_pos = - 1, iv_num_terms = 0\<rparr>
        in ebind (if inv_is_tokenized inv then invert_tokenized (inv_store_offsets inv) (dw_max_field_length dw) (dw_doc_num dw) 0 data s
                  else invert_untokenized (inv_store_offsets inv) (dw_doc_num dw) 0 0 data s) (\<lambda>s.
           Inr (dw\<lparr>dw_pls := iv_pls s, dw_curr_plists := iv_curr s, dw_offsets := iv_offsets s, dw_offsets_size := iv_offsets_size s,
             dw_invs := (dw_invs dw)[r := inv\<lparr>inv_plists := iv_fld s,
               inv_length := (if inv_is_tokenized inv then iv_num_terms s else int (length data))\<rparr>]\<rparr>))
      else Inl UndefinedBehaviour)"

definition frt_dw_reset_postings :: "(cstr, nat) frt_hash \<Rightarrow> (cstr, nat) frt_hash" where
  "frt_dw_reset_postings postings = postings\<lparr>h_table := replicate (h_mask postings + 1) empty_entry, h_fill := 0, h_size := 0\<rparr>"

section \<open>Flushing\<close>

record skip_buffer =
  sb_buf :: "ram_out outstream"
  sb_last_doc :: int
  sb_last_frq_ptr :: int
  sb_last_prx_ptr :: int

record flush_streams =
  fl_frq_out :: "ram_out outstream"
  fl_prx_out :: "ram_out outstream"
  fl_skip_buf :: skip_buffer

text \<open>\<open>skip_buf_reset\<close> sets the fields but \<open>buf\<close> before they are read.\<close>

definition skip_buf_new :: "ram_heap \<Rightarrow> skip_buffer \<times> ram_heap" where
  "skip_buf_new w =
     (let (buf, w) = frt_ram_new_buffer w in (\<lparr>sb_buf = buf, sb_last_doc = 0, sb_last_frq_ptr = 0, sb_last_prx_ptr = 0\<rparr>, w))"

definition skip_buf_reset :: "flush_streams \<Rightarrow> ram_heap \<Rightarrow> (flush_streams \<times> ram_heap) res" where
  "skip_buf_reset fl w =
     ebind (frt_ramo_reset (sb_buf (fl_skip_buf fl)) w) (\<lambda>(buf, w).
     Inr (fl\<lparr>fl_skip_buf := \<lparr>sb_buf = buf, sb_last_doc = 0, sb_last_frq_ptr = frt_os_pos (fl_frq_out fl),
       sb_last_prx_ptr = frt_os_pos (fl_prx_out fl)\<rparr>\<rparr>, w))"

definition skip_buf_add :: "flush_streams \<Rightarrow> int \<Rightarrow> ram_heap \<Rightarrow> (flush_streams \<times> ram_heap) res" where
  "skip_buf_add fl doc w =
     (let sb = fl_skip_buf fl; frq_ptr = frt_os_pos (fl_frq_out fl); prx_ptr = frt_os_pos (fl_prx_out fl)
      in ebind (frt_os_write_vint RAM_OUT_STREAM_METHODS (sb_buf sb) (word_of_int (doc - sb_last_doc sb)) w) (\<lambda>(buf, w).
         ebind (frt_os_write_vint RAM_OUT_STREAM_METHODS buf (word_of_int (frq_ptr - sb_last_frq_ptr sb)) w) (\<lambda>(buf, w).
         ebind (frt_os_write_vint RAM_OUT_STREAM_METHODS buf (word_of_int (prx_ptr - sb_last_prx_ptr sb)) w) (\<lambda>(buf, w).
         Inr (fl\<lparr>fl_skip_buf := \<lparr>sb_buf = buf, sb_last_doc = doc, sb_last_frq_ptr = frq_ptr, sb_last_prx_ptr = prx_ptr\<rparr>\<rparr>, w)))))"

text \<open>\<open>frt_ramo_write_to\<close> when the other stream is on the same heap.\<close>

definition ramo_write_to_ram ::
  "ram_out outstream \<Rightarrow> ram_out outstream \<Rightarrow> ram_heap \<Rightarrow> (ram_out outstream \<times> ram_out outstream \<times> ram_heap) res" where
  "ramo_write_to_ram os other_o w =
     ebind (frt_os_flush RAM_OUT_STREAM_METHODS os w) (\<lambda>(os, w).
     ebind (rf_get w (ro_rf (os_file os))) (\<lambda>rf.
       let last_buffer_number = nat (rf_len rf) div FRT_BUFFER_SIZE;
           last_buffer_offset = nat (rf_len rf) mod FRT_BUFFER_SIZE
       in ebind (ramo_write_loop RAM_OUT_STREAM_METHODS rf last_buffer_offset 0 (last_buffer_number + 1) other_o w)
            (\<lambda>(other_o, w). Inr (os, other_o, w))))"

definition skip_buf_write :: "flush_streams \<Rightarrow> ram_heap \<Rightarrow> (int \<times> flush_streams \<times> ram_heap) res" where
  "skip_buf_write fl w =
     (let skip_ptr = frt_os_pos (fl_frq_out fl)
      in ebind (ramo_write_to_ram (sb_buf (fl_skip_buf fl)) (fl_frq_out fl) w) (\<lambda>(buf, frq_out, w).
         Inr (skip_ptr, fl\<lparr>fl_frq_out := frq_out, fl_skip_buf := (fl_skip_buf fl)\<lparr>sb_buf := buf\<rparr>\<rparr>, w)))"

definition skip_buf_destroy :: "skip_buffer \<Rightarrow> ram_heap \<Rightarrow> ram_heap res" where
  "skip_buf_destroy skip_buf w = frt_ram_destroy_buffer (sb_buf skip_buf) w"

text \<open>The loops of \<open>dw_flush\<close>: over the positions of a posting, the postings of a list, the lists of a field, the fields.\<close>

fun flush_occs :: "('o, 'w) os_methods \<Rightarrow> 'o outstream \<Rightarrow> int \<Rightarrow> int list \<Rightarrow> 'w \<Rightarrow> ('o outstream \<times> 'w) res" where
  "flush_occs m prx_out last_pos [] w = Inr (prx_out, w)"
| "flush_occs m prx_out last_pos (pos # occs) w =
     ebind (frt_os_write_vint m prx_out (word_of_int (pos - last_pos)) w) (\<lambda>(prx_out, w). flush_occs m prx_out pos occs w)"

definition flush_doc :: "('o, 'w) os_methods \<Rightarrow> 'o outstream \<Rightarrow> int \<Rightarrow> posting \<Rightarrow> 'w \<Rightarrow> ('o outstream \<times> 'w) res" where
  "flush_doc m frq_out last_doc p w =
     (let doc_code = push_bit 1 (word_of_int (p_doc_num p - last_doc)) :: u32
      in if p_freq p = 1 then frt_os_write_vint m frq_out (1 OR doc_code) w
         else ebind (frt_os_write_vint m frq_out doc_code w) (\<lambda>(frq_out, w).
              frt_os_write_vint m frq_out (word_of_int (p_freq p)) w))"

fun flush_postings :: "int \<Rightarrow> flush_streams \<Rightarrow> int \<Rightarrow> int \<Rightarrow> posting list \<Rightarrow> ram_heap \<Rightarrow> (int \<times> flush_streams \<times> ram_heap) res" where
  "flush_postings skip_interval fl last_doc doc_freq [] w = Inr (doc_freq, fl, w)"
| "flush_postings skip_interval fl last_doc doc_freq (p # ps) w =
     (let doc_freq = doc_freq + 1
      in if skip_interval = 0 then Inl UndefinedBehaviour
         else
         ebind (if doc_freq smod skip_interval = 0 then skip_buf_add fl last_doc w else Inr (fl, w)) (\<lambda>(fl, w).
         ebind (flush_doc RAM_OUT_STREAM_METHODS (fl_frq_out fl) last_doc p w) (\<lambda>(frq_out, w).
         ebind (flush_occs RAM_OUT_STREAM_METHODS (fl_prx_out fl) 0 (p_occs p) w) (\<lambda>(prx_out, w).
         flush_postings skip_interval (fl\<lparr>fl_frq_out := frq_out, fl_prx_out := prx_out\<rparr>) (p_doc_num p) doc_freq ps w))))"

definition flush_plist ::
  "int \<Rightarrow> ram_out term_infos_writer \<Rightarrow> flush_streams \<Rightarrow> posting_list \<Rightarrow> ram_heap
     \<Rightarrow> (ram_out term_infos_writer \<times> flush_streams \<times> ram_heap) res" where
  "flush_plist skip_interval tiw fl pl w =
     (let frq_ptr = frt_os_pos (fl_frq_out fl); prx_ptr = frt_os_pos (fl_prx_out fl)
      in ebind (skip_buf_reset fl w) (\<lambda>(fl, w).
         ebind (flush_postings skip_interval fl 0 0 (pl_postings pl) w) (\<lambda>(doc_freq, fl, w).
         ebind (skip_buf_write fl w) (\<lambda>(skip_ptr, fl, w).
         ebind (frt_tiw_add RAM_OUT_STREAM_METHODS tiw (pl_term pl) (frt_ti_set doc_freq frq_ptr prx_ptr (skip_ptr - frq_ptr)) w) (\<lambda>(tiw, w).
         Inr (tiw, fl, w))))))"

fun flush_plists ::
  "int \<Rightarrow> ram_out term_infos_writer \<Rightarrow> flush_streams \<Rightarrow> posting_list list \<Rightarrow> ram_heap
     \<Rightarrow> (ram_out term_infos_writer \<times> flush_streams \<times> ram_heap) res" where
  "flush_plists skip_interval tiw fl [] w = Inr (tiw, fl, w)"
| "flush_plists skip_interval tiw fl (pl # pls) w =
     ebind (flush_plist skip_interval tiw fl pl w) (\<lambda>(tiw, fl, w). flush_plists skip_interval tiw fl pls w)"

definition flush_field ::
  "int \<Rightarrow> ram_out term_infos_writer \<Rightarrow> flush_streams \<Rightarrow> int \<Rightarrow> posting_list list \<Rightarrow> ram_heap
     \<Rightarrow> (ram_out term_infos_writer \<times> flush_streams \<times> ram_heap) res" where
  "flush_field skip_interval tiw fl number pls w =
     ebind (frt_tiw_start_field RAM_OUT_STREAM_METHODS tiw number w) (\<lambda>(tiw, w). flush_plists skip_interval tiw fl pls w)"

text \<open>
  \<open>dw_sort_postings\<close> gathers the lists in the table's own memory and sorts them with \<open>qsort\<close> by \<open>frt_pl_cmp\<close>; the terms of
  the lists differ, so that any sorting does. The table is not used again before it is cleared.
\<close>

fun pl_insert :: "posting_list \<Rightarrow> posting_list list \<Rightarrow> posting_list list" where
  "pl_insert pl [] = [pl]"
| "pl_insert pl (x # xs) = (if frt_pl_cmp pl x \<le> 0 then pl # x # xs else x # pl_insert pl xs)"

fun gather_plists :: "posting_list list \<Rightarrow> (cstr, nat) hash_entry list \<Rightarrow> posting_list list res" where
  "gather_plists pls [] = Inr []"
| "gather_plists pls (he # hes) =
     (case he_value he of
        None \<Rightarrow> gather_plists pls hes
      | Some r \<Rightarrow> ebind (pl_at pls (Some r)) (\<lambda>(_, pl). ebind (gather_plists pls hes) (\<lambda>xs. Inr (pl # xs))))"

definition dw_sort_postings :: "posting_list list \<Rightarrow> (cstr, nat) frt_hash \<Rightarrow> posting_list list res" where
  "dw_sort_postings pls plists_ht =
     ebind (gather_plists pls (h_table plists_ht)) (\<lambda>xs.
       if h_size plists_ht = int (length xs) then Inr (foldr pl_insert xs []) else Inl UndefinedBehaviour)"

definition dw_write_norms :: "doc_writer \<Rightarrow> field_inverter \<Rightarrow> ram_heap \<Rightarrow> (doc_writer \<times> ram_heap) res" where
  "dw_write_norms dw fld_inv w =
     (let number = fi_number (inv_fi fld_inv)
      in if number < 0 then Inl UndefinedBehaviour
         else
         let si = frt_si_advance_norm_gen (dw_si dw) (nat number)
         in ebind (si_norm_file_name si number) (\<lambda>file_name.
            case (file_name, inv_norms fld_inv) of
              (Some file_name, Some norms) \<Rightarrow>
                if dw_doc_num dw < 0 \<or> dw_doc_num dw > int (length norms) then Inl UndefinedBehaviour
                else
                ebind (ram_new_output (dw_store dw) (0, file_name) w) (\<lambda>(norms_out, store, w).
                ebind (frt_os_write_bytes RAM_OUT_STREAM_METHODS norms_out (take (nat (dw_doc_num dw)) norms) w) (\<lambda>(norms_out, w).
                ebind (frt_os_close RAM_OUT_STREAM_METHODS norms_out w) (\<lambda>w. Inr (dw\<lparr>dw_store := store, dw_si := si\<rparr>, w))))
            | _ \<Rightarrow> Inl UndefinedBehaviour))"

fun flush_fields ::
  "doc_writer \<Rightarrow> ram_out term_infos_writer \<Rightarrow> flush_streams \<Rightarrow> field_info list \<Rightarrow> ram_heap
     \<Rightarrow> (doc_writer \<times> ram_out term_infos_writer \<times> flush_streams \<times> ram_heap) res" where
  "flush_fields dw tiw fl [] w = Inr (dw, tiw, fl, w)"
| "flush_fields dw tiw fl (fi # fis) w =
     (if \<not> bits_is_indexed (fi_bits fi) then flush_fields dw tiw fl fis w
      else
      ebind (frt_h_get_int (dw_fields dw) (word_of_int (fi_number fi))) (\<lambda>(v, ht).
      let dw = dw\<lparr>dw_fields := ht\<rparr>
      in case v of
           None \<Rightarrow> flush_fields dw tiw fl fis w
         | Some r \<Rightarrow>
             if r \<ge> length (dw_invs dw) then Inl UndefinedBehaviour
             else
             let fld_inv = dw_invs dw ! r
             in ebind (if \<not> bits_omit_norms (fi_bits fi) then dw_write_norms dw fld_inv w else Inr (dw, w)) (\<lambda>(dw, w).
                ebind (dw_sort_postings (dw_pls dw) (inv_plists fld_inv)) (\<lambda>pls.
                ebind (flush_field (dw_skip_interval dw) tiw fl (fi_number fi) pls w) (\<lambda>(tiw, fl, w).
                flush_fields dw tiw fl fis w)))))"

text \<open>\<open>dw_flush_streams\<close>, but for \<open>frt_fw_close\<close>.\<close>

definition dw_flush_streams :: "doc_writer \<Rightarrow> doc_writer" where
  "dw_flush_streams dw = dw\<lparr>dw_pls := [], dw_fields := frt_h_clear (dw_fields dw), dw_invs := [], dw_doc_num := 0\<rparr>"

definition dw_flush :: "doc_writer \<Rightarrow> ram_heap \<Rightarrow> (doc_writer \<times> ram_heap) res" where
  "dw_flush dw w =
     (let name = si_name (dw_si dw)
      in ebind (frt_tiw_open (dw_store dw) name (dw_index_interval dw) (dw_skip_interval dw) w) (\<lambda>(tiw, store, w).
         ebind (ram_new_output store (0, name @ str ''.frq'') w) (\<lambda>(frq_out, store, w).
         ebind (ram_new_output store (0, name @ str ''.prx'') w) (\<lambda>(prx_out, store, w).
         let (skip_buf, w) = skip_buf_new w
         in ebind (flush_fields (dw\<lparr>dw_store := store\<rparr>) tiw \<lparr>fl_frq_out = frq_out, fl_prx_out = prx_out, fl_skip_buf = skip_buf\<rparr>
                     (fis_fields (dw_fis dw)) w) (\<lambda>(dw, tiw, fl, w).
            ebind (frt_os_close RAM_OUT_STREAM_METHODS (fl_prx_out fl) w) (\<lambda>w.
            ebind (frt_os_close RAM_OUT_STREAM_METHODS (fl_frq_out fl) w) (\<lambda>w.
            ebind (frt_tiw_close tiw w) (\<lambda>w.
            ebind (skip_buf_destroy (fl_skip_buf fl) w) (\<lambda>w.
            Inr (dw_flush_streams dw, w))))))))))"

end
