(* ===== verification/FrtDocWriterLaws.thy ===== *)
theory FrtDocWriterLaws
  imports FrtDocWriter FrtTermDocLaws
begin

text \<open>
  What \<open>dw_flush\<close> writes.

  \<^item> The buffer of the data for skipping is a file of the heap in no directory; it is open beside the files of the segment
    (\<open>holding\<close> with the empty name).
  \<^item> \<open>flush_plist\<close> writes the documents, the positions and the data for skipping of a term, and adds the term to the dictionary.
\<close>

section \<open>The bytes of a posting\<close>

context out_source
begin

lemma writes_occs:
  "sorted (x # ys) \<Longrightarrow> \<forall>y \<in> set ys. y < 2 ^ 31 \<Longrightarrow>
   writes (\<lambda>os w. flush_occs m os (int x) (map int ys) w) (concat (map enc_v (deltas x ys)))"
proof (induction ys arbitrary: x)
  case Nil
  then show ?case using writes_Inr by (simp add: flush_occs.simps(1) [abs_def])
next
  case (Cons y ys)
  have "writes (\<lambda>os w. frt_os_write_vint m os (word_of_int (int y - int x)) w) (enc_v (nat (int y - int x)))"
    by (rule writes_vint_int) (use Cons.prems in auto)
  moreover have "nat (int y - int x) = y - x" by simp
  ultimately have 1: "writes (\<lambda>os w. frt_os_write_vint m os (word_of_int (int y - int x)) w) (enc_v (y - x))" by (simp only:)
  have 2: "writes (\<lambda>os w. flush_occs m os (int y) (map int ys) w) (concat (map enc_v (deltas y ys)))"
    using Cons.prems by (intro Cons.IH) auto
  from writes_bind [OF 1 2] show ?case by simp
qed

end

definition posting_of :: "post \<Rightarrow> posting" where
  "posting_of p = \<lparr>p_doc_num = int (fst p), p_freq = int (length (snd p)), p_occs = map int (snd p)\<rparr>"

lemma posting_of_sel [simp]: "p_doc_num (posting_of p) = int (fst p)" "p_freq (posting_of p) = int (length (snd p))" "p_occs (posting_of p) = map int (snd p)"
  by (simp_all add: posting_of_def)

lemma doc_code_word:
  assumes "d0 \<le> d" and "d < 2 ^ 30"
  shows "push_bit 1 (word_of_int (int d - int d0) :: u32) = of_nat (2 * (d - d0))"
    and "(1 :: u32) OR push_bit 1 (word_of_int (int d - int d0)) = of_nat (2 * (d - d0) + 1)"
proof -
  have "int d - int d0 = int (d - d0)" using assms(1) by simp
  then show 1: "push_bit 1 (word_of_int (int d - int d0) :: u32) = of_nat (2 * (d - d0))" by (simp add: push_bit_eq_mult del: of_nat_diff)
  have "even (push_bit 1 (word_of_int (int d - int d0) :: u32))" by (simp add: even_push_bit_iff)
  then show "(1 :: u32) OR push_bit 1 (word_of_int (int d - int d0)) = of_nat (2 * (d - d0) + 1)"
    unfolding one_or_eq by (simp only: 1) simp
qed

context out_source
begin

lemma writes_doc:
  assumes p: "post_ok p" and d: "d0 \<le> fst p"
  shows "writes (\<lambda>os w. flush_doc m os (int d0) (posting_of p) w) (enc_doc d0 p)"
proof -
  let ?D = "fst p - d0" and ?k = "length (snd p)"
  have b: "fst p < 2 ^ 30" "2 * ?D + 1 < 2 ^ 32" "2 * ?D < 2 ^ 32" "?k < 2 ^ 31" using p by (auto simp: post_ok_def)
  note w = doc_code_word [OF d b(1)]
  show ?thesis
  proof (cases "?k = 1")
    case True
    then show ?thesis using writes_vint_nat [OF b(2)] w by (simp add: flush_doc_def Let_def enc_doc_def)
  next
    case False
    have "writes (\<lambda>os w. frt_os_write_vint m os (word_of_int (int ?k)) w) (enc_v ?k)"
      using writes_vint_int [of "int ?k"] b(4) by simp
    from writes_bind [OF writes_vint_nat [OF b(3)] this] False w show ?thesis by (simp add: flush_doc_def Let_def enc_doc_def)
  qed
qed

lemma writes_posting_occs: "post_ok p \<Longrightarrow> writes (\<lambda>os w. flush_occs m os 0 (p_occs (posting_of p)) w) (enc_occs (snd p))"
  using writes_occs [of 0 "snd p"] by (simp add: enc_occs_def post_ok_def)

end

section \<open>A buffer beside the open files\<close>

lemma writing_all_mset: "writing_all store w D xs \<Longrightarrow> mset xs = mset ys \<Longrightarrow> writing_all store w D ys"
proof -
  assume O: "writing_all store w D xs" and e: "mset xs = mset ys"
  have "mset (map fst xs) = mset (map fst ys)" "mset (map out_ref xs) = mset (map out_ref ys)" using e by simp_all
  from this [THEN mset_eq_imp_distinct_iff] have "distinct (map fst ys)" "distinct (map out_ref ys)" using O by (simp_all add: writing_all_def)
  then show ?thesis using O mset_eq_setD [OF e] by (simp add: writing_all_def)
qed

lemma skip_buf_new_ok:
  assumes O: "writing_all store w D xs" and n: "[] \<notin> fst ` set xs"
  shows "\<exists>sb w'. skip_buf_new w = (sb, w') \<and> writing_all store w' D (([], sb_buf sb, []) # xs)"
proof -
  have S: "ram_ok store w" using O by (simp add: writing_all_def)
  then have H: "heap_ok w" and F: "\<And>n r. ref_of (dir_ht store) n = Some r \<Longrightarrow> file_ok w n r" and T: "tab_ok (dir_ht store)" by (auto simp: ram_ok_def)
  obtain a w1 where a: "rf_new (0, []) w = (a, w1)" by fastforce
  note f = rf_new_ok [OF a H]
  let ?os = "frt_os_new \<lparr>ro_rf = a, ro_pointer = 0\<rparr>"
  have new: "skip_buf_new w = (\<lparr>sb_buf = ?os, sb_last_doc = 0, sb_last_frq_ptr = 0, sb_last_prx_ptr = 0\<rparr>, w1)"
    by (simp add: skip_buf_new_def frt_ram_new_buffer_def a)
  obtain rf where rf: "rh_files w1 a = Some rf" "rf_ok rf" "rf_ref_cnt rf = 1" "rf_len rf = 0" using f(2,6) by (auto simp: file_ok_def)
  have "ram_out_valid (os_file ?os) w1" using rf by (simp add: ram_out_valid_def frt_os_new_def)
  then have "ram_out.os_ok ?os w1 (ram_rest (os_file ?os) w1) [] 0" using ram_out.frt_os_new_ok [of "\<lparr>ro_rf = a, ro_pointer = 0\<rparr>" w1] f(3)
    by (simp add: frt_os_new_def)
  moreover have un: "ref_of (dir_ht store) n \<noteq> Some a" for n using F [of n a] f(4) by (auto simp: file_ok_def)
  ultimately have h: "holding store w1 ([], ?os, [])" using rf by (simp add: holding_def frt_os_new_def)
  have other: "rh_files w1 s = rh_files w s" if "rh_files w s \<noteq> None" for s using that f(4,5) by metis
  have "holding store w1 x \<and> out_ref x \<noteq> a" if x: "x \<in> set xs" for x
  proof -
    have hx: "holding store w x" using O x by (simp add: writing_all_def)
    then have some: "rh_files w (out_ref x) \<noteq> None" by (auto simp: holding_def out_ref_def)
    with holding_keep_store [OF hx other] f(4) show ?thesis by metis
  qed
  moreover have "ram_ok store w1"
    unfolding ram_ok_def
  proof (intro conjI allI impI)
    fix n r assume r: "ref_of (dir_ht store) n = Some r"
    then have "rh_files w r \<noteq> None" using F [OF r] by (auto simp: file_ok_def)
    from file_ok_frame [OF other [OF this]] F [OF r] show "file_ok w1 n r" by blast
  qed (use T f(1) in simp_all)
  moreover have "ram_dir store w1 n = ram_dir store w n" for n
  proof (cases "ref_of (dir_ht store) n")
    case (Some r)
    then have "rh_files w r \<noteq> None" using F [OF Some] by (auto simp: file_ok_def)
    from heap_bytes_frame [OF other [OF this]] Some show ?thesis by (simp add: ram_dir_def)
  qed (simp add: ram_dir_def)
  moreover have "a \<notin> out_ref ` set xs" using calculation(1) by blast
  ultimately have "writing_all store w1 D (([], ?os, []) # xs)"
    using O h n by (simp add: writing_all_def frt_os_new_def)
  then show ?thesis using new by simp
qed

text \<open>Emptying the buffer.\<close>

lemma ramo_reset_ok:
  assumes O: "writing_all store w D (([], os, bs) # xs)"
  shows "\<exists>os' w'. frt_ramo_reset os w = Inr (os', w') \<and> writing_all store w' D (([], os', []) # xs)"
proof -
  have "ram_out.os_ok os w (ram_rest (os_file os) w) bs (length bs)" using O by (simp add: writing_all_def holding_def)
  from ram_out.frt_os_seek_ok [OF this, of 0] have "ram_out.wrote (frt_os_seek RAM_OUT_STREAM_METHODS os 0 w) (ram_rest (os_file os) w) bs 0" by simp
  then obtain os1 w1 where 1: "frt_os_seek RAM_OUT_STREAM_METHODS os 0 w = Inr (os1, w1)"
    and ok1: "ram_out.os_ok os1 w1 (ram_rest (os_file os) w) bs 0" by (auto simp: ram_out.wrote_def)
  from O obtain rf where rf: "rh_files w (ro_rf (os_file os)) = Some rf" and S: "ram_ok store w" and h: "holding store w ([], os, bs)"
    by (auto simp: writing_all_def holding_def)
  have v: "ram_out_valid (os_file os1) w1" and re: "ram_rest (os_file os1) w1 = ram_rest (os_file os) w"
    and z: "nat (ro_pointer (os_file os1)) = 0" "os_buf os1 = []" "os_start os1 = int (nat (ro_pointer (os_file os1)))"
    using ok1 by (auto simp: ram_out.os_ok_def)
  note R = ram_rest_eqD [OF re rf v]
  let ?r = "ro_rf (os_file os)"
  obtain rf1 where rf1: "rh_files w1 ?r = Some rf1" "rf_ok rf1" "rf_name rf1 = rf_name rf" "rf_ref_cnt rf1 = rf_ref_cnt rf" using R(4) by blast
  let ?w2 = "rf_put w1 ?r (rf1\<lparr>rf_len := 0\<rparr>)"
  have run: "frt_ramo_reset os w = Inr (os1, ?w2)" using 1 rf1(1) R(1) by (simp add: frt_ramo_reset_def rf_get_def)
  have p: "ro_pointer (os_file os1) = 0" using z(1) v by (auto simp: ram_out_valid_def)
  have ok2: "rf_ok (rf1\<lparr>rf_len := 0\<rparr>)" using rf1(2) by (simp add: rf_ok_def)
  have "ram_out_valid (os_file os1) ?w2" using ok2 p R(1) by (simp add: ram_out_valid_def rf_put_def)
  moreover have "heap_bytes ?w2 ?r = []" by (simp add: heap_bytes_def rf_put_def rf_bytes_def)
  ultimately have "ram_out.os_ok os1 ?w2 (ram_rest (os_file os1) ?w2) [] (length ([] :: byte list))"
    using z p R(1) by (simp add: ram_out.os_ok_def)
  then have "ram_out.wrote (Inr (os1, ?w2)) (ram_rest (os_file os1) ?w2) [] (length ([] :: byte list))" by (auto simp: ram_out.wrote_def)
  moreover have "ram_rest (os_file os1) ?w2 = ram_rest (os_file os1) w1" using rf1(1) R(1) by (simp add: ram_rest_def rf_put_def)
  ultimately have "ram_out.wrote (Inr (os1, ?w2)) (ram_rest (os_file os) w) [] (length ([] :: byte list))" by (simp only: re)
  from writing_all_step [OF O this] run show ?thesis by auto
qed

text \<open>Destroying it.\<close>

lemma skip_buf_destroy_ok:
  assumes O: "writing_all store w D (([], sb_buf sb, bs) # xs)"
  shows "\<exists>w'. skip_buf_destroy sb w = Inr w' \<and> writing_all store w' D xs"
proof -
  let ?r = "ro_rf (os_file (sb_buf sb))"
  from O obtain rf where rf: "rh_files w ?r = Some rf" "rf_ref_cnt rf = 1" "\<forall>n. ref_of (dir_ht store) n \<noteq> Some ?r"
    and S: "ram_ok store w" and ne: "?r \<notin> out_ref ` set xs" and hs: "\<forall>x \<in> set xs. holding store w x"
    by (auto simp: writing_all_def holding_def)
  let ?w = "w\<lparr>rh_files := (rh_files w)(?r := None)\<rparr>"
  have run: "skip_buf_destroy sb w = Inr ?w" using rf by (simp add: skip_buf_destroy_def frt_ram_destroy_buffer_def rf_close_def rf_get_def)
  have fr: "rh_files ?w s = rh_files w s" if "s \<noteq> ?r" for s using that by simp
  have "ram_ok store ?w"
    unfolding ram_ok_def
  proof (intro conjI allI impI)
    fix n r assume r: "ref_of (dir_ht store) n = Some r"
    then have "r \<noteq> ?r" using rf(3) by auto
    from file_ok_frame [OF fr [OF this]] r S show "file_ok ?w n r" by (simp add: ram_ok_def)
  qed (use S in \<open>auto simp: ram_ok_def heap_ok_def\<close>)
  moreover have "holding store ?w x" if "x \<in> set xs" for x
  proof (rule holding_keep_store)
    show "holding store w x" using hs that by blast
    show "rh_files ?w (out_ref x) = rh_files w (out_ref x)" using ne that by (intro fr) (metis imageI)
  qed
  moreover have "ram_dir store ?w n = ram_dir store w n" for n
  proof (cases "ref_of (dir_ht store) n")
    case (Some r)
    then have "r \<noteq> ?r" using rf(3) by auto
    from heap_bytes_frame [OF fr [OF this]] Some show ?thesis by (simp add: ram_dir_def)
  qed (simp add: ram_dir_def)
  moreover have "\<forall>n. n = [] \<or> n \<notin> fst ` set xs \<longrightarrow> ram_dir store w n = D n" using O by (auto simp: writing_all_def)
  ultimately have "writing_all store ?w D xs" using O by (simp add: writing_all_def)
  then show ?thesis using run by simp
qed

text \<open>
  Copying the buffer to a file. The code reads one buffer too many when the bytes fill the last one exactly, so that they must
  not be a positive multiple of \<open>FRT_BUFFER_SIZE\<close>.
\<close>

definition fits_buffers :: "byte list \<Rightarrow> bool" where
  "fits_buffers bs \<longleftrightarrow> bs = [] \<or> length bs mod FRT_BUFFER_SIZE \<noteq> 0"

lemma ramo_write_loop_ok:
  assumes rf: "rf_ok rf" and bs: "bs = rf_bytes rf" and n: "i + n = length bs div FRT_BUFFER_SIZE" and fit: "fits_buffers bs"
  shows "ram_out.writes (ramo_write_loop RAM_OUT_STREAM_METHODS rf (length bs mod FRT_BUFFER_SIZE) i (Suc n)) (drop (FRT_BUFFER_SIZE * i) bs)"
  using n
proof (induction n arbitrary: i)
  case 0
  let ?B = FRT_BUFFER_SIZE
  have B: "0 < ?B" by (simp add: FRT_BUFFER_SIZE_def)
  have l: "length bs = nat (rf_len rf)" unfolding bs by (rule length_rf_bytes [OF rf])
  have len: "?B * i + length bs mod ?B = length bs" using 0 by simp
  have "nat (rf_len rf) \<le> ?B * length (rf_buffers rf)" "rf_buffers rf \<noteq> []" using rf by (simp_all add: rf_ok_def)
  then have k: "i < length (rf_buffers rf)"
  proof (cases "bs = []")
    case True
    then show ?thesis using 0 \<open>rf_buffers rf \<noteq> []\<close> by simp
  next
    case False
    then have "?B * i < length bs" using fit len by (simp add: fits_buffers_def)
    also have "\<dots> \<le> ?B * length (rf_buffers rf)" using \<open>nat (rf_len rf) \<le> _\<close> l by simp
    finally show ?thesis by simp
  qed
  have m: "0 + length bs mod ?B \<le> ?B" using mod_less_divisor [OF B, of "length bs"] by simp
  have "read_buffer (rf_buffers rf ! i) 0 (length bs mod ?B) = Inr (take (length bs mod ?B) (drop (?B * i + 0) (rf_bytes rf)))"
    by (rule read_buffer_chain [OF rf k m]) (use len l in simp)
  then have r: "read_buffer (rf_buffers rf ! i) 0 (length bs mod ?B) = Inr (drop (?B * i) bs)" using len unfolding bs by simp
  have "ramo_write_loop RAM_OUT_STREAM_METHODS rf (length bs mod ?B) i (Suc 0) =
      (\<lambda>o1 w. ebind (frt_os_write_bytes RAM_OUT_STREAM_METHODS o1 (drop (?B * i) bs) w) (\<lambda>(o1, w). Inr (o1, w)))"
    using k r by (intro ext) (simp add: Let_def case_prod_beta')
  with ram_out.writes_bind [OF ram_out.writes_bytes ram_out.writes_Inr] show ?case by simp
next
  case (Suc n)
  let ?B = FRT_BUFFER_SIZE
  have B: "0 < ?B" by (simp add: FRT_BUFFER_SIZE_def)
  have l: "length bs = nat (rf_len rf)" unfolding bs by (rule length_rf_bytes [OF rf])
  have "Suc i \<le> length bs div ?B" using Suc.prems by simp
  then have le: "?B * i + ?B \<le> length bs" using B by (simp add: less_eq_div_iff_mult_less_eq mult.commute)
  also have "\<dots> \<le> ?B * length (rf_buffers rf)" using rf l by (simp add: rf_ok_def)
  finally have "?B * Suc i \<le> ?B * length (rf_buffers rf)" by simp
  then have "Suc i \<le> length (rf_buffers rf)" using nat_mult_le_cancel1 [OF B] by blast
  then have k: "i < length (rf_buffers rf)" by simp
  have "read_buffer (rf_buffers rf ! i) 0 ?B = Inr (take ?B (drop (?B * i + 0) (rf_bytes rf)))"
    by (rule read_buffer_chain [OF rf k]) (use le l in simp_all)
  then have r: "read_buffer (rf_buffers rf ! i) 0 ?B = Inr (take ?B (drop (?B * i) bs))" by (simp add: bs)
  have loop: "ramo_write_loop RAM_OUT_STREAM_METHODS rf (length bs mod ?B) i (Suc (Suc n)) =
      (\<lambda>o1 w. ebind (frt_os_write_bytes RAM_OUT_STREAM_METHODS o1 (take ?B (drop (?B * i) bs)) w) (\<lambda>(o1, w).
        ramo_write_loop RAM_OUT_STREAM_METHODS rf (length bs mod ?B) (Suc i) (Suc n) o1 w))"
    using k r by (intro ext) (simp add: ramo_write_loop.simps(2) [of _ _ _ _ "Suc n"] Let_def del: ramo_write_loop.simps)
  have app: "take ?B (drop (?B * i) bs) @ drop (?B * Suc i) bs = drop (?B * i) bs"
    by (metis add.commute append_take_drop_id drop_drop mult_Suc_right)
  have IH: "ram_out.writes (ramo_write_loop RAM_OUT_STREAM_METHODS rf (length bs mod ?B) (Suc i) (Suc n)) (drop (?B * Suc i) bs)"
    by (rule Suc.IH) (use Suc.prems in simp)
  note W = ram_out.writes_bind [OF ram_out.writes_bytes [of "take ?B (drop (?B * i) bs)"] IH, unfolded app]
  show ?case unfolding loop by (rule W)
qed

lemma ramo_write_to_ok:
  assumes O: "writing_all store w D (([], os, bs) # (N, o1, cs) # xs)" and fit: "fits_buffers bs"
  shows "\<exists>os' o1' w'. ramo_write_to_ram os o1 w = Inr (os', o1', w') \<and> writing_all store w' D (([], os', bs) # (N, o1', cs @ bs) # xs)"
proof -
  let ?r = "ro_rf (os_file os)"
  have "ram_out.os_ok os w (ram_rest (os_file os) w) bs (length bs)" using O by (simp add: writing_all_def holding_def)
  from ram_out.frt_os_flush_ok [OF this] obtain os1 w1 where
    1: "frt_os_flush RAM_OUT_STREAM_METHODS os w = Inr (os1, w1)" "ram_out.os_ok os1 w1 (ram_rest (os_file os) w) bs (length bs)"
      "heap_bytes w1 (ro_rf (os_file os1)) = bs" by metis
  then have "ram_out.wrote (frt_os_flush RAM_OUT_STREAM_METHODS os w) (ram_rest (os_file os) w) bs (length bs)" by (simp add: ram_out.wrote_def)
  from writing_all_step [OF O this] 1(1) have O1: "writing_all store w1 D (([], os1, bs) # (N, o1, cs) # xs)" by simp
  have "ram_out_valid (os_file os1) w1" using 1(2) by (simp add: ram_out.os_ok_def)
  then obtain rf where rf: "rh_files w1 (ro_rf (os_file os1)) = Some rf" "rf_ok rf" by (auto simp: ram_out_valid_def)
  then have b: "bs = rf_bytes rf" using 1(3) by (simp add: heap_bytes_def)
  then have l: "nat (rf_len rf) = length bs" using length_rf_bytes [OF rf(2)] by simp
  have "ram_out.writes (ramo_write_loop RAM_OUT_STREAM_METHODS rf (length bs mod FRT_BUFFER_SIZE) 0 (Suc (length bs div FRT_BUFFER_SIZE))) (drop (FRT_BUFFER_SIZE * 0) bs)"
    by (rule ramo_write_loop_ok [OF rf(2) b _ fit]) simp
  then have "ram_out.writes (ramo_write_loop RAM_OUT_STREAM_METHODS rf (length bs mod FRT_BUFFER_SIZE) 0 (Suc (length bs div FRT_BUFFER_SIZE))) bs" by simp
  from writing_all_writes [OF writing_all_swap [OF O1] this] obtain o2 w2 where
    2: "ramo_write_loop RAM_OUT_STREAM_METHODS rf (length bs mod FRT_BUFFER_SIZE) 0 (Suc (length bs div FRT_BUFFER_SIZE)) o1 w1 = Inr (o2, w2)"
      "writing_all store w2 D ((N, o2, cs @ bs) # ([], os1, bs) # xs)" by blast
  have "ramo_write_to_ram os o1 w = Inr (os1, o2, w2)"
    unfolding ramo_write_to_ram_def 1(1) ebind_simps prod.case using rf(1) 2(1) by (simp add: rf_get_def l Let_def del: ramo_write_loop.simps)
  then show ?thesis using writing_all_swap [OF 2(2)] by blast
qed

section \<open>The postings of a term\<close>

lemma word_diff: "b \<le> a \<Longrightarrow> (word_of_int (int a - int b) :: u32) = of_nat (a - b)"
proof -
  assume "b \<le> a"
  then have "int a - int b = int (a - b)" by simp
  then show ?thesis by (simp only: of_int_of_nat_eq)
qed

text \<open>\<open>c\<close> postings were written behind \<open>bq\<close> and \<open>bp\<close>.\<close>

definition flush_at ::
  "ram_store \<Rightarrow> ram_heap \<Rightarrow> (byte list \<Rightarrow> byte list option) \<Rightarrow> out_file list \<Rightarrow> byte list \<Rightarrow> byte list \<Rightarrow> nat \<Rightarrow> byte list \<Rightarrow> byte list \<Rightarrow> post list
     \<Rightarrow> nat \<Rightarrow> flush_streams \<Rightarrow> bool" where
  "flush_at store w D xs F X S bq bp ps c fl \<longleftrightarrow>
     writing_all store w D (([], sb_buf (fl_skip_buf fl), concat (map (enc_skip S ps) [0..<c div S])) # (F, fl_frq_out fl, bq @ enc_docs 0 (take c ps)) #
       (X, fl_prx_out fl, bp @ enc_prox (take c ps)) # xs) \<and>
     sb_last_doc (fl_skip_buf fl) = int (doc_at ps (skip_cnt S (c div S))) \<and>
     sb_last_frq_ptr (fl_skip_buf fl) = int (length bq + frq_at ps (skip_cnt S (c div S))) \<and>
     sb_last_prx_ptr (fl_skip_buf fl) = int (length bp + prx_at ps (skip_cnt S (c div S)))"

lemma skip_buf_add_ok:
  assumes A: "flush_at store w D xs F X S bq bp ps c fl" and P: "posts_ok ps" and c: "c \<le> length ps" and S: "0 < S" "Suc c mod S = 0"
  shows "\<exists>fl' w'. skip_buf_add fl (int (doc_at ps c)) w = Inr (fl', w') \<and>
    writing_all store w' D (([], sb_buf (fl_skip_buf fl'), concat (map (enc_skip S ps) [0..<Suc c div S])) # (F, fl_frq_out fl', bq @ enc_docs 0 (take c ps)) #
       (X, fl_prx_out fl', bp @ enc_prox (take c ps)) # xs) \<and>
     sb_last_doc (fl_skip_buf fl') = int (doc_at ps (skip_cnt S (Suc c div S))) \<and>
     sb_last_frq_ptr (fl_skip_buf fl') = int (length bq + frq_at ps (skip_cnt S (Suc c div S))) \<and>
     sb_last_prx_ptr (fl_skip_buf fl') = int (length bp + prx_at ps (skip_cnt S (Suc c div S)))"
proof -
  let ?k = "c div S" and ?sb = "fl_skip_buf fl"
  have k: "Suc c div S = Suc ?k" using S by (simp add: div_Suc)
  then have kS: "Suc ?k * S = Suc c" using S(2) by (metis add.right_neutral div_mult_mod_eq)
  then have b: "skip_cnt S (Suc ?k) = c" by (simp add: skip_cnt_def)
  let ?a = "skip_cnt S ?k"
  have a: "?a \<le> c" using div_times_less_eq_dividend [of c S] unfolding skip_cnt_def by linarith
  from A have O: "writing_all store w D (([], sb_buf ?sb, concat (map (enc_skip S ps) [0..<?k])) # (F, fl_frq_out fl, bq @ enc_docs 0 (take c ps)) #
       (X, fl_prx_out fl, bp @ enc_prox (take c ps)) # xs)"
    and w: "sb_last_doc ?sb = int (doc_at ps ?a)" "sb_last_frq_ptr ?sb = int (length bq + frq_at ps ?a)"
      "sb_last_prx_ptr ?sb = int (length bp + prx_at ps ?a)" by (simp_all add: flush_at_def)
  have pos: "frt_os_pos (fl_frq_out fl) = int (length bq + frq_at ps c)" "frt_os_pos (fl_prx_out fl) = int (length bp + prx_at ps c)"
    using writing_all_pos [OF writing_all_swap [OF O]] writing_all_pos [OF writing_all_rotate [OF writing_all_rotate [OF O]]]
    by (simp_all add: frq_at_def prx_at_def)
  note m = doc_at_mono [OF P a c] at_mono [OF a, of ps] and bd = doc_at_bound [OF P c] at_bound [OF P, of c]
  have d: "(word_of_int (int (doc_at ps c) - int (doc_at ps ?a)) :: u32) = of_nat (doc_at ps c - doc_at ps ?a)"
    "(word_of_int (int (length bq + frq_at ps c) - int (length bq + frq_at ps ?a)) :: u32) = of_nat (frq_at ps c - frq_at ps ?a)"
    "(word_of_int (int (length bp + prx_at ps c) - int (length bp + prx_at ps ?a)) :: u32) = of_nat (prx_at ps c - prx_at ps ?a)"
    using m by (subst word_diff; simp)+
  have l: "doc_at ps c - doc_at ps ?a < 2 ^ 32" "frq_at ps c - frq_at ps ?a < 2 ^ 32" "prx_at ps c - prx_at ps ?a < 2 ^ 32" using bd by simp_all
  have "ram_out.writes (\<lambda>os w. ebind (frt_os_write_vint RAM_OUT_STREAM_METHODS os (of_nat (doc_at ps c - doc_at ps ?a)) w) (\<lambda>(os, w).
      ebind (frt_os_write_vint RAM_OUT_STREAM_METHODS os (of_nat (frq_at ps c - frq_at ps ?a)) w) (\<lambda>(os, w).
      frt_os_write_vint RAM_OUT_STREAM_METHODS os (of_nat (prx_at ps c - prx_at ps ?a)) w)))
      (enc_v (doc_at ps c - doc_at ps ?a) @ enc_v (frq_at ps c - frq_at ps ?a) @ enc_v (prx_at ps c - prx_at ps ?a))"
    by (intro ram_out.writes_bind ram_out.writes_vint_nat l)
  from writing_all_writes [OF O this] obtain os w1 where
    1: "ebind (frt_os_write_vint RAM_OUT_STREAM_METHODS (sb_buf ?sb) (of_nat (doc_at ps c - doc_at ps ?a)) w) (\<lambda>(os, w).
      ebind (frt_os_write_vint RAM_OUT_STREAM_METHODS os (of_nat (frq_at ps c - frq_at ps ?a)) w) (\<lambda>(os, w).
      frt_os_write_vint RAM_OUT_STREAM_METHODS os (of_nat (prx_at ps c - prx_at ps ?a)) w)) = Inr (os, w1)"
    "writing_all store w1 D (([], os, concat (map (enc_skip S ps) [0..<?k]) @
        enc_v (doc_at ps c - doc_at ps ?a) @ enc_v (frq_at ps c - frq_at ps ?a) @ enc_v (prx_at ps c - prx_at ps ?a)) # (F, fl_frq_out fl, bq @ enc_docs 0 (take c ps)) #
       (X, fl_prx_out fl, bp @ enc_prox (take c ps)) # xs)" by blast
  have e: "concat (map (enc_skip S ps) [0..<?k]) @ enc_v (doc_at ps c - doc_at ps ?a) @ enc_v (frq_at ps c - frq_at ps ?a) @ enc_v (prx_at ps c - prx_at ps ?a) =
      concat (map (enc_skip S ps) [0..<Suc c div S])" by (simp add: k enc_skip_def Let_def b)
  let ?fl = "fl\<lparr>fl_skip_buf := \<lparr>sb_buf = os, sb_last_doc = int (doc_at ps c), sb_last_frq_ptr = int (length bq + frq_at ps c),
      sb_last_prx_ptr = int (length bp + prx_at ps c)\<rparr>\<rparr>"
  have "skip_buf_add fl (int (doc_at ps c)) w = ebind (Inr (os, w1)) (\<lambda>(buf, w). Inr (fl\<lparr>fl_skip_buf := \<lparr>sb_buf = buf, sb_last_doc = int (doc_at ps c),
      sb_last_frq_ptr = int (length bq + frq_at ps c), sb_last_prx_ptr = int (length bp + prx_at ps c)\<rparr>\<rparr>, w))"
    unfolding 1(1) [symmetric] skip_buf_add_def Let_def pos w d by (simp only: ebind_assoc case_prod_beta')
  then show ?thesis using 1(2) unfolding e by (intro exI [of _ ?fl] exI [of _ w1]) (simp add: k b)
qed

lemma flush_postings_ok:
  assumes P: "posts_ok ps" and S: "0 < S" and "c \<le> length ps" and "flush_at store w D xs F X S bq bp ps c fl"
  shows "\<exists>fl' w'. flush_postings (int S) fl (int (doc_at ps c)) (int c) (map posting_of (drop c ps)) w = Inr (int (length ps), fl', w') \<and>
    flush_at store w' D xs F X S bq bp ps (length ps) fl'"
  using assms(3,4)
proof (induction "length ps - c" arbitrary: c fl w)
  case 0
  then show ?case by simp
next
  case (Suc d)
  let ?p = "ps ! c"
  have c: "c < length ps" using Suc.hyps(2) by simp
  then have dr: "drop c ps = ?p # drop (Suc c) ps" by (simp add: Cons_nth_drop_Suc)
  have sm: "(int c + 1) smod int S = 0 \<longleftrightarrow> Suc c mod S = 0"
  proof -
    have "(int c + 1) smod int S = int (Suc c mod S)" by (simp add: signed_modulo_int_def zmod_int add.commute)
    then show ?thesis by (simp only: of_nat_eq_0_iff)
  qed
  have "\<exists>fl1 w1. (if (int c + 1) smod int S = 0 then skip_buf_add fl (int (doc_at ps c)) w else Inr (fl, w)) = Inr (fl1, w1) \<and>
    writing_all store w1 D (([], sb_buf (fl_skip_buf fl1), concat (map (enc_skip S ps) [0..<Suc c div S])) # (F, fl_frq_out fl1, bq @ enc_docs 0 (take c ps)) #
       (X, fl_prx_out fl1, bp @ enc_prox (take c ps)) # xs) \<and>
     sb_last_doc (fl_skip_buf fl1) = int (doc_at ps (skip_cnt S (Suc c div S))) \<and>
     sb_last_frq_ptr (fl_skip_buf fl1) = int (length bq + frq_at ps (skip_cnt S (Suc c div S))) \<and>
     sb_last_prx_ptr (fl_skip_buf fl1) = int (length bp + prx_at ps (skip_cnt S (Suc c div S)))"
  proof (cases "Suc c mod S = 0")
    case True
    then show ?thesis using skip_buf_add_ok [OF Suc.prems(2) P Suc.prems(1) S True] sm by simp
  next
    case False
    then have "Suc c div S = c div S" by (simp add: div_Suc)
    then show ?thesis using False sm Suc.prems(2) by (simp add: flush_at_def)
  qed
  then obtain fl1 w1 where 1: "(if (int c + 1) smod int S = 0 then skip_buf_add fl (int (doc_at ps c)) w else Inr (fl, w)) = Inr (fl1, w1)"
    and O: "writing_all store w1 D (([], sb_buf (fl_skip_buf fl1), concat (map (enc_skip S ps) [0..<Suc c div S])) # (F, fl_frq_out fl1, bq @ enc_docs 0 (take c ps)) #
       (X, fl_prx_out fl1, bp @ enc_prox (take c ps)) # xs)"
    and lst: "sb_last_doc (fl_skip_buf fl1) = int (doc_at ps (skip_cnt S (Suc c div S)))"
     "sb_last_frq_ptr (fl_skip_buf fl1) = int (length bq + frq_at ps (skip_cnt S (Suc c div S)))"
     "sb_last_prx_ptr (fl_skip_buf fl1) = int (length bp + prx_at ps (skip_cnt S (Suc c div S)))" by (elim exE conjE) (rule that; assumption)
  have pk: "post_ok ?p" using P c by (simp add: posts_ok_def)
  have d0: "doc_at ps c \<le> fst ?p" using doc_at_mono [OF P, of c "Suc c"] c by (simp add: doc_at_Suc)
  from writing_all_writes [OF writing_all_swap [OF O] ram_out.writes_doc [OF pk d0]] obtain frq w2 where
    2: "flush_doc RAM_OUT_STREAM_METHODS (fl_frq_out fl1) (int (doc_at ps c)) (posting_of ?p) w1 = Inr (frq, w2)"
      "writing_all store w2 D ((F, frq, (bq @ enc_docs 0 (take c ps)) @ enc_doc (doc_at ps c) ?p) #
         ([], sb_buf (fl_skip_buf fl1), concat (map (enc_skip S ps) [0..<Suc c div S])) # (X, fl_prx_out fl1, bp @ enc_prox (take c ps)) # xs)" by blast
  from writing_all_writes [OF writing_all_rotate [OF writing_all_rotate [OF 2(2)]] ram_out.writes_posting_occs [OF pk]] obtain prx w3 where
    3: "flush_occs RAM_OUT_STREAM_METHODS (fl_prx_out fl1) 0 (p_occs (posting_of ?p)) w2 = Inr (prx, w3)"
      "writing_all store w3 D ((X, prx, (bp @ enc_prox (take c ps)) @ enc_occs (snd ?p)) # (F, frq, (bq @ enc_docs 0 (take c ps)) @ enc_doc (doc_at ps c) ?p) #
         ([], sb_buf (fl_skip_buf fl1), concat (map (enc_skip S ps) [0..<Suc c div S])) # xs)" by blast
  have e: "(bq @ enc_docs 0 (take c ps)) @ enc_doc (doc_at ps c) ?p = bq @ enc_docs 0 (take (Suc c) ps)"
    "(bp @ enc_prox (take c ps)) @ enc_occs (snd ?p) = bp @ enc_prox (take (Suc c) ps)"
  proof -
    have "doc_at (take (Suc c) ps) c = doc_at ps c" by (simp add: doc_at_def)
    then have "enc_docs 0 (take (Suc c) ps) = enc_docs 0 (take c ps) @ enc_doc (doc_at ps c) ?p"
      using enc_docs_take [of c "take (Suc c) ps"] c by (simp add: min_def take_Suc_conv_app_nth)
    then show "(bq @ enc_docs 0 (take c ps)) @ enc_doc (doc_at ps c) ?p = bq @ enc_docs 0 (take (Suc c) ps)" by simp
    show "(bp @ enc_prox (take c ps)) @ enc_occs (snd ?p) = bp @ enc_prox (take (Suc c) ps)" using c by (simp add: enc_prox_def take_Suc_conv_app_nth)
  qed
  let ?fl = "fl1\<lparr>fl_frq_out := frq, fl_prx_out := prx\<rparr>"
  have "writing_all store w3 D (([], sb_buf (fl_skip_buf fl1), concat (map (enc_skip S ps) [0..<Suc c div S])) # (F, frq, bq @ enc_docs 0 (take (Suc c) ps)) #
       (X, prx, bp @ enc_prox (take (Suc c) ps)) # xs)" by (rule writing_all_mset [OF 3(2) [unfolded e]]) simp
  then have A: "flush_at store w3 D xs F X S bq bp ps (Suc c) ?fl" using lst by (simp add: flush_at_def)
  have "d = length ps - Suc c" "Suc c \<le> length ps" using Suc.hyps(2) by simp_all
  from Suc.hyps(1) [OF this A] obtain fl' w' where
    g: "flush_postings (int S) ?fl (int (doc_at ps (Suc c))) (int (Suc c)) (map posting_of (drop (Suc c) ps)) w3 = Inr (int (length ps), fl', w')"
      "flush_at store w' D xs F X S bq bp ps (length ps) fl'" by blast
  have "flush_postings (int S) fl (int (doc_at ps c)) (int c) (map posting_of (drop c ps)) w =
      flush_postings (int S) ?fl (int (doc_at ps (Suc c))) (int (Suc c)) (map posting_of (drop (Suc c) ps)) w3"
    unfolding dr list.map flush_postings.simps(2) Let_def 1 ebind_simps prod.case 2(1) 3(1) using S by (simp add: doc_at_Suc add.commute)
  then show ?case using g by simp
qed

text \<open>A term with its postings, and the entry of the dictionary for it.\<close>

type_synonym term_posts = "byte list \<times> post list"

definition plist_of :: "term_posts \<Rightarrow> posting_list" where
  "plist_of = (\<lambda>(t, ps). \<lparr>pl_term = t, pl_postings = map posting_of ps\<rparr>)"

definition frq_of :: "nat \<Rightarrow> term_posts \<Rightarrow> byte list" where
  "frq_of S = (\<lambda>(t, ps). enc_docs 0 ps @ enc_skips S ps)"

definition entry_at :: "nat \<Rightarrow> nat \<Rightarrow> term_posts \<Rightarrow> entry" where
  "entry_at F X = (\<lambda>(t, ps). (t, frt_ti_set (int (length ps)) (int F) (int X) (int (length (enc_docs 0 ps)))))"

definition term_posts_ok :: "nat \<Rightarrow> term_posts \<Rightarrow> bool" where
  "term_posts_ok S = (\<lambda>(t, ps). length t < FRT_MAX_WORD_SIZE \<and> posts_ok ps \<and> length ps < 2 ^ 31 \<and> fits_buffers (enc_skips S ps))"

text \<open>The writer of the dictionary, the two files and the buffer, between two terms of a field.\<close>

definition flushing ::
  "ram_store \<Rightarrow> ram_heap \<Rightarrow> (byte list \<Rightarrow> byte list option) \<Rightarrow> byte list \<Rightarrow> nat \<Rightarrow> nat \<Rightarrow> byte list \<Rightarrow> byte list \<Rightarrow> byte list \<Rightarrow> entry list
     \<Rightarrow> byte list \<Rightarrow> byte list \<Rightarrow> ram_out term_infos_writer \<Rightarrow> flush_streams \<Rightarrow> bool" where
  "flushing store w D sgm I S bx bs bf ts bq bp tiw fl \<longleftrightarrow>
     (\<exists>bb. tiw_ok store w D [(sgm @ str ''.frq'', fl_frq_out fl, bq), (sgm @ str ''.prx'', fl_prx_out fl, bp), ([], sb_buf (fl_skip_buf fl), bb)]
       sgm I (int S) bx bs bf (index_of I (int S) (length bs) ts) ts tiw)"

lemma flush_plist_ok:
  assumes A: "flushing store w D sgm I S bx bs bf ts bq bp tiw fl" and I: "0 < I" and S: "0 < S" and tp: "term_posts_ok S tp"
    and T: "terms_ok (ts @ [entry_at (length bq) (length bp) tp])"
    and small: "length bs + term_at (int S) (ts @ [entry_at (length bq) (length bp) tp]) (Suc (length ts)) < 2 ^ 63"
  shows "\<exists>tiw' fl' w'. flush_plist (int S) tiw fl (plist_of tp) w = Inr (tiw', fl', w') \<and>
    flushing store w' D sgm I S bx bs bf (ts @ [entry_at (length bq) (length bp) tp]) (bq @ frq_of S tp) (bp @ enc_prox (snd tp)) tiw' fl' \<and>
    tiw_field_count tiw' = tiw_field_count tiw"
proof -
  obtain t ps where t: "tp = (t, ps)" by (cases tp)
  have P: "posts_ok ps" and fit: "fits_buffers (enc_skips S ps)" using tp by (simp_all add: t term_posts_ok_def)
  let ?F = "sgm @ str ''.frq''" and ?X = "sgm @ str ''.prx''" and ?idx = "index_of I (int S) (length bs) ts"
  obtain bb where W: "tiw_ok store w D [(?F, fl_frq_out fl, bq), (?X, fl_prx_out fl, bp), ([], sb_buf (fl_skip_buf fl), bb)]
       sgm I (int S) bx bs bf ?idx ts tiw" using A by (auto simp: flushing_def)
  let ?T = "[(sgm @ str ''.tix'', tw_os (tiw_tix_writer tiw), bx @ enc_index (int S) no_term 0 ?idx),
       (sgm @ str ''.tis'', tw_os (tiw_tis_writer tiw), bs @ enc_terms (int S) no_term ts), (sgm @ str ''.tfx'', tiw_tfx_out tiw, bf)]"
  have "writing_all store w D (?T @ [(?F, fl_frq_out fl, bq), (?X, fl_prx_out fl, bp), ([], sb_buf (fl_skip_buf fl), bb)])"
    using W by (simp add: tiw_ok_def)
  then have O: "writing_all store w D (([], sb_buf (fl_skip_buf fl), bb) # (?F, fl_frq_out fl, bq) # (?X, fl_prx_out fl, bp) # ?T)"
    by (rule writing_all_mset) simp
  have pos: "frt_os_pos (fl_frq_out fl) = int (length bq)" "frt_os_pos (fl_prx_out fl) = int (length bp)"
    using writing_all_pos [OF writing_all_swap [OF O]] writing_all_pos [OF writing_all_rotate [OF writing_all_rotate [OF O]]] by simp_all
  from ramo_reset_ok [OF O] obtain buf w1 where
    1: "frt_ramo_reset (sb_buf (fl_skip_buf fl)) w = Inr (buf, w1)"
      "writing_all store w1 D (([], buf, []) # (?F, fl_frq_out fl, bq) # (?X, fl_prx_out fl, bp) # ?T)" by blast
  let ?fl1 = "fl\<lparr>fl_skip_buf := \<lparr>sb_buf = buf, sb_last_doc = 0, sb_last_frq_ptr = int (length bq), sb_last_prx_ptr = int (length bp)\<rparr>\<rparr>"
  have r: "skip_buf_reset fl w = Inr (?fl1, w1)" by (simp add: skip_buf_reset_def 1(1) pos)
  have "flush_at store w1 D ?T ?F ?X S bq bp ps 0 ?fl1" using 1(2) by (simp add: flush_at_def enc_prox_def)
  from flush_postings_ok [OF P S _ this] obtain fl2 w2 where
    2: "flush_postings (int S) ?fl1 0 0 (map posting_of ps) w1 = Inr (int (length ps), fl2, w2)" "flush_at store w2 D ?T ?F ?X S bq bp ps (length ps) fl2"
    by auto
  have O2: "writing_all store w2 D (([], sb_buf (fl_skip_buf fl2), enc_skips S ps) # (?F, fl_frq_out fl2, bq @ enc_docs 0 ps) # (?X, fl_prx_out fl2, bp @ enc_prox ps) # ?T)"
    using 2(2) by (simp add: flush_at_def enc_skips_def)
  from ramo_write_to_ok [OF O2 fit] obtain os3 o3 w3 where
    3: "ramo_write_to_ram (sb_buf (fl_skip_buf fl2)) (fl_frq_out fl2) w2 = Inr (os3, o3, w3)"
      "writing_all store w3 D (([], os3, enc_skips S ps) # (?F, o3, (bq @ enc_docs 0 ps) @ enc_skips S ps) # (?X, fl_prx_out fl2, bp @ enc_prox ps) # ?T)" by blast
  have "frt_os_pos (fl_frq_out fl2) = int (length bq + length (enc_docs 0 ps))" using writing_all_pos [OF writing_all_swap [OF O2]] by simp
  then have sw: "skip_buf_write fl2 w2 = Inr (int (length bq + length (enc_docs 0 ps)), fl2\<lparr>fl_frq_out := o3, fl_skip_buf := (fl_skip_buf fl2)\<lparr>sb_buf := os3\<rparr>\<rparr>, w3)"
    by (simp add: skip_buf_write_def 3(1))
  let ?fl3 = "fl2\<lparr>fl_frq_out := o3, fl_skip_buf := (fl_skip_buf fl2)\<lparr>sb_buf := os3\<rparr>\<rparr>"
  let ?xs = "[(?F, o3, bq @ frq_of S tp), (?X, fl_prx_out fl2, bp @ enc_prox ps), ([], os3, enc_skips S ps)]"
  have "writing_all store w3 D (?T @ ?xs)" by (rule writing_all_mset [OF 3(2)]) (simp add: frq_of_def t)
  then have W3: "tiw_ok store w3 D ?xs sgm I (int S) bx bs bf ?idx ts tiw" using W by (simp add: tiw_ok_def)
  let ?e = "entry_at (length bq) (length bp) tp"
  have s: "length bs + term_at (int S) (ts @ [?e]) (length (ts @ [?e])) < 2 ^ 63" using small by simp
  from tiw_add_ok [OF W3 T I s] obtain tiw4 w4 where
    4: "frt_tiw_add RAM_OUT_STREAM_METHODS tiw (fst ?e) (snd ?e) w3 = Inr (tiw4, w4)"
      "tiw_ok store w4 D ?xs sgm I (int S) bx bs bf (index_of I (int S) (length bs) (ts @ [?e])) (ts @ [?e]) tiw4"
      "tiw_field_count tiw4 = tiw_field_count tiw" by blast
  have "flush_plist (int S) tiw fl (plist_of tp) w = Inr (tiw4, ?fl3, w4)"
    unfolding flush_plist_def Let_def pos r ebind_simps prod.case using 2(1) sw 4(1) by (simp add: plist_of_def entry_at_def t)
  moreover have "flushing store w4 D sgm I S bx bs bf (ts @ [?e]) (bq @ frq_of S tp) (bp @ enc_prox (snd tp)) tiw4 ?fl3"
    unfolding flushing_def using 4(2) by (intro exI [of _ "enc_skips S ps"]) (simp add: t)
  ultimately show ?thesis using 4(3) by blast
qed

section \<open>The terms of a field\<close>

fun entries_of :: "nat \<Rightarrow> nat \<Rightarrow> nat \<Rightarrow> term_posts list \<Rightarrow> entry list" where
  "entries_of S F X [] = []"
| "entries_of S F X (tp # tps) = entry_at F X tp # entries_of S (F + length (frq_of S tp)) (X + length (enc_prox (snd tp))) tps"

definition frq_all :: "nat \<Rightarrow> term_posts list \<Rightarrow> byte list" where
  "frq_all S tps = concat (map (frq_of S) tps)"

definition prx_all :: "term_posts list \<Rightarrow> byte list" where
  "prx_all tps = concat (map (enc_prox \<circ> snd) tps)"

lemma all_simps [simp]: "frq_all S [] = []" "frq_all S (tp # tps) = frq_of S tp @ frq_all S tps" "prx_all [] = []" "prx_all (tp # tps) = enc_prox (snd tp) @ prx_all tps"
  by (simp_all add: frq_all_def prx_all_def)

lemma length_entries_of [simp]: "length (entries_of S F X tps) = length tps"
  by (induction tps arbitrary: F X) simp_all

lemma fst_entry_at [simp]: "fst (entry_at F X tp) = fst tp"
  by (simp add: entry_at_def case_prod_beta')

lemma fst_entries_of [simp]: "map fst (entries_of S F X tps) = map fst tps"
  by (induction tps arbitrary: F X) simp_all

lemma entry_at_sel [simp]: "ti_frq_ptr (snd (entry_at F X tp)) = int F" "ti_prx_ptr (snd (entry_at F X tp)) = int X"
  by (simp_all add: entry_at_def frt_ti_set_def case_prod_beta')

definition field_posts_ok :: "nat \<Rightarrow> term_posts list \<Rightarrow> bool" where
  "field_posts_ok S tps \<longleftrightarrow> (\<forall>tp \<in> set tps. term_posts_ok S tp) \<and> sorted_wrt (\<lambda>a b. fst a < fst b) tps"

lemma entry_at_ok:
  assumes "term_posts_ok S tp" and "F < 2 ^ 63" and "X < 2 ^ 63"
  shows "dict_entry_ok (entry_at F X tp)"
proof -
  obtain t ps where t: "tp = (t, ps)" by (cases tp)
  have "length t < FRT_MAX_WORD_SIZE" "length (enc_docs 0 ps) < 2 ^ 32" "length ps < 2 ^ 31" using assms(1) by (simp_all add: t term_posts_ok_def posts_ok_def)
  then show ?thesis using assms(2,3) by (simp add: t entry_at_def dict_entry_ok_def info_ok_def frt_ti_set_def)
qed

lemma entries_of_bounds:
  "e \<in> set (entries_of S F X tps) \<Longrightarrow> int F \<le> ti_frq_ptr (snd e) \<and> int X \<le> ti_prx_ptr (snd e)"
proof (induction tps arbitrary: F X)
  case (Cons tp tps)
  show ?case
  proof (cases "e = entry_at F X tp")
    case False
    with Cons.prems have "e \<in> set (entries_of S (F + length (frq_of S tp)) (X + length (enc_prox (snd tp))) tps)" by simp
    from Cons.IH [OF this] show ?thesis by simp
  qed simp
qed simp

lemma entries_of_ok:
  assumes "field_posts_ok S tps" and "F + length (frq_all S tps) < 2 ^ 63" and "X + length (prx_all tps) < 2 ^ 63"
  shows "terms_ok (entries_of S F X tps)"
  using assms
proof (induction tps arbitrary: F X)
  case (Cons tp tps)
  let ?F = "F + length (frq_of S tp)" and ?X = "X + length (enc_prox (snd tp))"
  have "field_posts_ok S tps" using Cons.prems(1) by (simp add: field_posts_ok_def)
  moreover have "?F + length (frq_all S tps) < 2 ^ 63" "?X + length (prx_all tps) < 2 ^ 63" using Cons.prems(2,3) by simp_all
  ultimately have IH: "terms_ok (entries_of S ?F ?X tps)" by (rule Cons.IH)
  have "dict_entry_ok (entry_at F X tp)" by (rule entry_at_ok [of S]) (use Cons.prems in \<open>simp_all add: field_posts_ok_def\<close>)
  moreover have "fst tp < fst e" if "e \<in> set (entries_of S ?F ?X tps)" for e
  proof -
    have "fst e \<in> fst ` set (entries_of S ?F ?X tps)" using that by (rule imageI)
    also have "\<dots> = fst ` set tps" using fst_entries_of [of S ?F ?X tps] by (metis list.set_map)
    finally show ?thesis using Cons.prems(1) by (auto simp: field_posts_ok_def)
  qed
  moreover have "follows (entry_at F X tp) e" if "e \<in> set (entries_of S ?F ?X tps)" for e
    using entries_of_bounds [OF that] by (simp add: follows_def)
  ultimately show ?case using IH by (simp add: terms_ok_def)
qed (simp add: terms_ok_def)

lemma flush_plists_ok:
  assumes "flushing store w D sgm I S bx bs bf ts bq bp tiw fl" and I: "0 < I" and S: "0 < S" and "\<forall>tp \<in> set tps. term_posts_ok S tp"
    and "terms_ok (ts @ entries_of S (length bq) (length bp) tps)"
    and "length bs + term_at (int S) (ts @ entries_of S (length bq) (length bp) tps) (length ts + length tps) < 2 ^ 63"
  shows "\<exists>tiw' fl' w'. flush_plists (int S) tiw fl (map plist_of tps) w = Inr (tiw', fl', w') \<and>
    flushing store w' D sgm I S bx bs bf (ts @ entries_of S (length bq) (length bp) tps) (bq @ frq_all S tps) (bp @ prx_all tps) tiw' fl' \<and>
    tiw_field_count tiw' = tiw_field_count tiw"
  using assms(1,4-6)
proof (induction tps arbitrary: ts bq bp tiw fl w)
  case (Cons tp tps)
  let ?e = "entry_at (length bq) (length bp) tp"
  let ?bq = "bq @ frq_of S tp" and ?bp = "bp @ enc_prox (snd tp)"
  let ?es = "entries_of S (length ?bq) (length ?bp) tps"
  have tp: "term_posts_ok S tp" "\<forall>tp \<in> set tps. term_posts_ok S tp" using Cons.prems(2) by simp_all
  have all: "ts @ entries_of S (length bq) (length bp) (tp # tps) = (ts @ [?e]) @ ?es" by simp
  have T: "terms_ok (ts @ [?e])" "terms_ok ((ts @ [?e]) @ ?es)" using Cons.prems(3) terms_ok_append unfolding all by blast+
  have s: "length bs + term_at (int S) ((ts @ [?e]) @ ?es) (length (ts @ [?e]) + length tps) < 2 ^ 63" using Cons.prems(4) unfolding all by simp
  have "term_at (int S) (ts @ [?e]) (Suc (length ts)) = term_at (int S) ((ts @ [?e]) @ ?es) (Suc (length ts))" by (simp add: term_at_def)
  also have "\<dots> \<le> term_at (int S) ((ts @ [?e]) @ ?es) (length (ts @ [?e]) + length tps)" by (rule term_at_mono) simp
  finally have "length bs + term_at (int S) (ts @ [?e]) (Suc (length ts)) < 2 ^ 63" using s by linarith
  from flush_plist_ok [OF Cons.prems(1) I S tp(1) T(1) this] obtain tiw1 fl1 w1 where
    1: "flush_plist (int S) tiw fl (plist_of tp) w = Inr (tiw1, fl1, w1)" "flushing store w1 D sgm I S bx bs bf (ts @ [?e]) ?bq ?bp tiw1 fl1"
      "tiw_field_count tiw1 = tiw_field_count tiw" by blast
  from Cons.IH [OF 1(2) tp(2) T(2) s] 1(1,3) show ?case by simp
qed simp

section \<open>The fields\<close>

text \<open>Between two fields.\<close>

definition flush_idle ::
  "ram_store \<Rightarrow> ram_heap \<Rightarrow> (byte list \<Rightarrow> byte list option) \<Rightarrow> byte list \<Rightarrow> nat \<Rightarrow> nat \<Rightarrow> byte list \<Rightarrow> byte list \<Rightarrow> byte list \<Rightarrow> nat \<Rightarrow> nat
     \<Rightarrow> byte list \<Rightarrow> byte list \<Rightarrow> ram_out term_infos_writer \<Rightarrow> flush_streams \<Rightarrow> bool" where
  "flush_idle store w D sgm I S bx bs bf a b bq bp tiw fl \<longleftrightarrow>
     (\<exists>bb. tiw_idle store w D [(sgm @ str ''.frq'', fl_frq_out fl, bq), (sgm @ str ''.prx'', fl_prx_out fl, bp), ([], sb_buf (fl_skip_buf fl), bb)]
       sgm I (int S) bx bs bf a b tiw)"

lemma flush_field_ok:
  assumes A: "flush_idle store w D sgm I S bx bs bf a b bq bp tiw fl" and ab: "a < 2 ^ 31" "b < 2 ^ 31" and I: "0 < I" and S: "0 < S"
    and f: "0 \<le> f" "f < 2 ^ 31" and tps: "field_posts_ok S tps" "length tps < 2 ^ 31"
    and sz: "length bx < 2 ^ 63" "length bs + 400 * length tps < 2 ^ 63" "length bq + length (frq_all S tps) < 2 ^ 63" "length bp + length (prx_all tps) < 2 ^ 63"
    and es: "es = entries_of S (length bq) (length bp) tps"
  shows "\<exists>tiw' fl' w'. flush_field (int S) tiw fl f (map plist_of tps) w = Inr (tiw', fl', w') \<and>
    flush_idle store w' D sgm I S (bx @ enc_index (int S) no_term 0 (index_of I (int S) (length bs) es)) (bs @ enc_terms (int S) no_term es)
      (bf @ enc_v a @ enc_v b @ enc_v (nat f) @ enc_v (length bx) @ enc_v (length bs)) (index_cnt I es) (length es) (bq @ frq_all S tps) (bp @ prx_all tps) tiw' fl' \<and>
    tiw_field_count tiw' = tiw_field_count tiw + 1"
proof -
  have T: "terms_ok es" unfolding es by (rule entries_of_ok [OF tps(1) sz(3,4)])
  have le: "length es = length tps" by (simp add: es)
  have bs: "length bs < 2 ^ 63" "length bs + 400 * length es < 2 ^ 63" using sz(2) by (simp_all add: le)
  note bb = field_bytes_bound [OF T I bs(2), of "int S"]
  obtain bb where "tiw_idle store w D [(sgm @ str ''.frq'', fl_frq_out fl, bq), (sgm @ str ''.prx'', fl_prx_out fl, bp), ([], sb_buf (fl_skip_buf fl), bb)]
       sgm I (int S) bx bs bf a b tiw" using A by (auto simp: flush_idle_def)
  from tiw_start_field_ok [OF this ab sz(1) bs(1) f] obtain tiw1 w1 where
    1: "frt_tiw_start_field RAM_OUT_STREAM_METHODS tiw f w = Inr (tiw1, w1)"
      "tiw_ok store w1 D [(sgm @ str ''.frq'', fl_frq_out fl, bq), (sgm @ str ''.prx'', fl_prx_out fl, bp), ([], sb_buf (fl_skip_buf fl), bb)] sgm I (int S)
        bx bs (bf @ enc_v a @ enc_v b @ enc_v (nat f) @ enc_v (length bx) @ enc_v (length bs)) [] [] tiw1" "tiw_field_count tiw1 = tiw_field_count tiw + 1" by blast
  let ?bf = "bf @ enc_v a @ enc_v b @ enc_v (nat f) @ enc_v (length bx) @ enc_v (length bs)"
  have "index_of I (int S) (length bs) [] = []" using I by (simp add: index_of_def index_cnt_def)
  then have A1: "flushing store w1 D sgm I S bx bs ?bf [] bq bp tiw1 fl" using 1(2) by (auto simp: flushing_def)
  have "\<forall>tp \<in> set tps. term_posts_ok S tp" using tps(1) by (simp add: field_posts_ok_def)
  moreover have "terms_ok ([] @ entries_of S (length bq) (length bp) tps)" using T by (simp add: es)
  moreover have "length bs + term_at (int S) ([] @ entries_of S (length bq) (length bp) tps) (length ([] :: entry list) + length tps) < 2 ^ 63"
    using bb(1) by (simp add: es)
  ultimately obtain tiw2 fl2 w2 where
    2: "flush_plists (int S) tiw1 fl (map plist_of tps) w1 = Inr (tiw2, fl2, w2)"
      "flushing store w2 D sgm I S bx bs ?bf es (bq @ frq_all S tps) (bp @ prx_all tps) tiw2 fl2" "tiw_field_count tiw2 = tiw_field_count tiw1"
    using flush_plists_ok [OF A1 I S, of tps] unfolding append_Nil es by blast
  have "flush_idle store w2 D sgm I S (bx @ enc_index (int S) no_term 0 (index_of I (int S) (length bs) es)) (bs @ enc_terms (int S) no_term es)
      ?bf (length (index_of I (int S) (length bs) es)) (length es) (bq @ frq_all S tps) (bp @ prx_all tps) tiw2 fl2"
    using 2(2) tiw_idle unfolding flushing_def flush_idle_def by blast
  then show ?thesis using 1(1,3) 2(1,3) by (simp add: flush_field_def index_of_def)
qed

text \<open>The norms of a field go to a file of their own.\<close>

lemma dw_write_norms_ok:
  assumes O: "writing_all (dw_store dw) w D xs" and small: "h_size (dir_ht (dw_store dw)) < 2 ^ 28" and n: "0 \<le> fi_number (inv_fi fv)"
    and si: "si' = frt_si_advance_norm_gen (dw_si dw) (nat (fi_number (inv_fi fv)))" "si_norm_file_name si' (fi_number (inv_fi fv)) = Inr (Some N)"
    and new: "D N = None" "N \<notin> fst ` set xs" "N \<noteq> []" and norms: "inv_norms fv = Some norms" "0 \<le> dw_doc_num dw" "dw_doc_num dw \<le> int (length norms)"
  shows "\<exists>store' w'. dw_write_norms dw fv w = Inr (dw\<lparr>dw_store := store', dw_si := si'\<rparr>, w') \<and>
    writing_all store' w' (D(N \<mapsto> take (nat (dw_doc_num dw)) norms)) xs \<and> h_size (dir_ht store') \<le> h_size (dir_ht (dw_store dw)) + 1"
proof -
  from writing_all_new [OF O small, of "(0, N)"] new obtain os store' w1 where
    1: "ram_new_output (dw_store dw) (0, N) w = Inr (os, store', w1)" "writing_all store' w1 D ((N, os, []) # xs)"
      "h_size (dir_ht store') \<le> h_size (dir_ht (dw_store dw)) + 1" by auto
  let ?bs = "take (nat (dw_doc_num dw)) norms"
  from writing_all_writes [OF 1(2) ram_out.writes_bytes [of ?bs]] obtain os2 w2 where
    2: "frt_os_write_bytes RAM_OUT_STREAM_METHODS os ?bs w1 = Inr (os2, w2)" "writing_all store' w2 D ((N, os2, ?bs) # xs)" by auto
  from writing_all_close [OF 2(2) new(3)] obtain w3 where
    3: "frt_os_close RAM_OUT_STREAM_METHODS os2 w2 = Inr w3" "writing_all store' w3 (D(N \<mapsto> ?bs)) xs" by blast
  have "dw_write_norms dw fv w = Inr (dw\<lparr>dw_store := store', dw_si := si'\<rparr>, w3)"
    unfolding dw_write_norms_def Let_def si(1) [symmetric] si(2) ebind_simps using n norms 1(1) 2(1) 3(1) by simp
  then show ?thesis using 1(3) 3(2) by blast
qed

text \<open>What writing the norms of a field does to the segment and to the directory; the names \<open>N\<close> are in use.\<close>

definition norms_step ::
  "doc_writer \<Rightarrow> byte list set \<Rightarrow> field_info \<Rightarrow> field_inverter \<Rightarrow> segment_info \<Rightarrow> (byte list \<Rightarrow> byte list option)
     \<Rightarrow> segment_info \<Rightarrow> (byte list \<Rightarrow> byte list option) \<Rightarrow> bool" where
  "norms_step dw N fi fv si D si' D' \<longleftrightarrow>
     (if bits_omit_norms (fi_bits fi) then si' = si \<and> D' = D
      else 0 \<le> fi_number (inv_fi fv) \<and> si' = frt_si_advance_norm_gen si (nat (fi_number (inv_fi fv))) \<and>
        (\<exists>name norms. si_norm_file_name si' (fi_number (inv_fi fv)) = Inr (Some name) \<and> D name = None \<and> name \<notin> N \<and> inv_norms fv = Some norms \<and>
          0 \<le> dw_doc_num dw \<and> dw_doc_num dw \<le> int (length norms) \<and> D' = D(name \<mapsto> take (nat (dw_doc_num dw)) norms)))"

definition inverter_at :: "doc_writer \<Rightarrow> field_info \<Rightarrow> nat option" where
  "inverter_at dw fi = Option.bind (int_map (dw_fields dw) (word_of_int (fi_number fi))) id"

text \<open>The fields \<open>fis\<close> of a document writer hold the terms and postings \<open>fs\<close>, sorted.\<close>

inductive dw_holds ::
  "doc_writer \<Rightarrow> byte list set \<Rightarrow> segment_info \<Rightarrow> (byte list \<Rightarrow> byte list option) \<Rightarrow> field_info list \<Rightarrow> (int \<times> term_posts list) list
     \<Rightarrow> segment_info \<Rightarrow> (byte list \<Rightarrow> byte list option) \<Rightarrow> bool" for dw N where
  stop: "dw_holds dw N si D [] [] si D"
| without: "\<not> bits_is_indexed (fi_bits fi) \<or> inverter_at dw fi = None \<Longrightarrow> dw_holds dw N si D fis fs si' D' \<Longrightarrow> dw_holds dw N si D (fi # fis) fs si' D'"
| inverted: "bits_is_indexed (fi_bits fi) \<Longrightarrow> inverter_at dw fi = Some r \<Longrightarrow> r < length (dw_invs dw) \<Longrightarrow>
    norms_step dw N fi (dw_invs dw ! r) si D si1 D1 \<Longrightarrow> dw_sort_postings (dw_pls dw) (inv_plists (dw_invs dw ! r)) = Inr (map plist_of tps) \<Longrightarrow>
    dw_holds dw N si1 D1 fis fs si' D' \<Longrightarrow> dw_holds dw N si D (fi # fis) ((fi_number fi, tps) # fs) si' D'"

fun field_entries :: "nat \<Rightarrow> nat \<Rightarrow> nat \<Rightarrow> (int \<times> term_posts list) list \<Rightarrow> (int \<times> entry list) list" where
  "field_entries S F X [] = []"
| "field_entries S F X ((f, tps) # fs) = (f, entries_of S F X tps) # field_entries S (F + length (frq_all S tps)) (X + length (prx_all tps)) fs"

definition frq_fields :: "nat \<Rightarrow> (int \<times> term_posts list) list \<Rightarrow> byte list" where
  "frq_fields S fs = concat (map (frq_all S \<circ> snd) fs)"

definition prx_fields :: "(int \<times> term_posts list) list \<Rightarrow> byte list" where
  "prx_fields fs = concat (map (prx_all \<circ> snd) fs)"

definition terms_total :: "(int \<times> term_posts list) list \<Rightarrow> nat" where
  "terms_total fs = sum_list (map (length \<circ> snd) fs)"

lemma fields_simps [simp]: "frq_fields S [] = []" "frq_fields S (x # fs) = frq_all S (snd x) @ frq_fields S fs" "prx_fields [] = []"
  "prx_fields (x # fs) = prx_all (snd x) @ prx_fields fs" "terms_total [] = 0" "terms_total (x # fs) = length (snd x) + terms_total fs"
  by (simp_all add: frq_fields_def prx_fields_def terms_total_def)

definition segment_names :: "byte list \<Rightarrow> byte list set" where
  "segment_names sgm = {[], sgm @ str ''.tix'', sgm @ str ''.tis'', sgm @ str ''.tfx'', sgm @ str ''.frq'', sgm @ str ''.prx''}"

lemma flush_norms_ok:
  assumes A: "flush_idle (dw_store dw) w D sgm I S bx bs bf a b bq bp tiw fl" and N: "segment_names sgm \<subseteq> N" and small: "h_size (dir_ht (dw_store dw)) < 2 ^ 28"
    and n: "norms_step dw N fi fv (dw_si dw) D si' D'"
  shows "\<exists>store' w'. (if \<not> bits_omit_norms (fi_bits fi) then dw_write_norms dw fv w else Inr (dw, w)) = Inr (dw\<lparr>dw_store := store', dw_si := si'\<rparr>, w') \<and>
    flush_idle store' w' D' sgm I S bx bs bf a b bq bp tiw fl \<and> h_size (dir_ht store') \<le> h_size (dir_ht (dw_store dw)) + 1"
proof (cases "bits_omit_norms (fi_bits fi)")
  case True
  then show ?thesis using A n by (intro exI [of _ "dw_store dw"] exI [of _ w]) (simp add: norms_step_def)
next
  case False
  obtain bb where W: "tiw_idle (dw_store dw) w D [(sgm @ str ''.frq'', fl_frq_out fl, bq), (sgm @ str ''.prx'', fl_prx_out fl, bp), ([], sb_buf (fl_skip_buf fl), bb)]
       sgm I (int S) bx bs bf a b tiw" using A by (auto simp: flush_idle_def)
  let ?xs = "[(sgm @ str ''.tix'', tw_os (tiw_tix_writer tiw), bx), (sgm @ str ''.tis'', tw_os (tiw_tis_writer tiw), bs), (sgm @ str ''.tfx'', tiw_tfx_out tiw, bf),
       (sgm @ str ''.frq'', fl_frq_out fl, bq), (sgm @ str ''.prx'', fl_prx_out fl, bp), ([], sb_buf (fl_skip_buf fl), bb)]"
  have O: "writing_all (dw_store dw) w D ?xs" using W by (simp add: tiw_idle_def)
  from n False obtain name norms where 1: "0 \<le> fi_number (inv_fi fv)" "si' = frt_si_advance_norm_gen (dw_si dw) (nat (fi_number (inv_fi fv)))"
    "si_norm_file_name si' (fi_number (inv_fi fv)) = Inr (Some name)" "D name = None" "name \<notin> N" "inv_norms fv = Some norms" "0 \<le> dw_doc_num dw"
    "dw_doc_num dw \<le> int (length norms)" "D' = D(name \<mapsto> take (nat (dw_doc_num dw)) norms)" by (auto simp: norms_step_def)
  have nm: "name \<notin> fst ` set ?xs" "name \<noteq> []" using 1(5) N by (auto simp: segment_names_def)
  from dw_write_norms_ok [OF O small 1(1-4) nm 1(6-8)] obtain store' w' where
    2: "dw_write_norms dw fv w = Inr (dw\<lparr>dw_store := store', dw_si := si'\<rparr>, w')" "writing_all store' w' D' ?xs"
      "h_size (dir_ht store') \<le> h_size (dir_ht (dw_store dw)) + 1" unfolding 1(9) by blast
  have "flush_idle store' w' D' sgm I S bx bs bf a b bq bp tiw fl"
    unfolding flush_idle_def using W 2(2) by (intro exI [of _ bb]) (simp add: tiw_idle_def)
  then show ?thesis using False 2(1,3) by (intro exI [of _ store'] exI [of _ w']) simp
qed

definition fields_ok :: "nat \<Rightarrow> (int \<times> term_posts list) list \<Rightarrow> bool" where
  "fields_ok S fs \<longleftrightarrow> (\<forall>x \<in> set fs. 0 \<le> fst x \<and> fst x < 2 ^ 31 \<and> field_posts_ok S (snd x))"

definition dw_now :: "doc_writer \<Rightarrow> (unit, nat) frt_hash \<Rightarrow> ram_store \<Rightarrow> segment_info \<Rightarrow> doc_writer" where
  "dw_now dw ht st si = dw\<lparr>dw_fields := ht, dw_store := st, dw_si := si\<rparr>"

lemma dw_now_sel [simp]: "dw_fields (dw_now dw ht st si) = ht" "dw_store (dw_now dw ht st si) = st" "dw_si (dw_now dw ht st si) = si"
  "dw_pls (dw_now dw ht st si) = dw_pls dw" "dw_invs (dw_now dw ht st si) = dw_invs dw" "dw_doc_num (dw_now dw ht st si) = dw_doc_num dw"
  "dw_skip_interval (dw_now dw ht st si) = dw_skip_interval dw" "(dw_now dw ht st si)\<lparr>dw_fields := ht'\<rparr> = dw_now dw ht' st si"
  "(dw_now dw ht st si)\<lparr>dw_store := st', dw_si := si'\<rparr> = dw_now dw ht st' si'"
  by (simp_all add: dw_now_def)

lemma norms_step_now [simp]: "norms_step (dw_now dw ht st si) N fi fv s D s' D' = norms_step dw N fi fv s D s' D'"
  by (simp add: norms_step_def)

lemma get_int_fields:
  assumes "int_table ht" and "int_map ht = int_map (dw_fields dw)"
  shows "\<exists>ht'. frt_h_get_int ht (word_of_int (fi_number fi)) = Inr (inverter_at dw fi, ht') \<and> int_table ht' \<and> int_map ht' = int_map (dw_fields dw)"
  using int_get_ok [OF assms(1), of "word_of_int (fi_number fi)"] assms(2) by (auto simp: frt_h_get_int_def inverter_at_def)

lemma flush_fields_ok:
  assumes "dw_holds dw N si D fis fs si' D'" and N: "segment_names sgm \<subseteq> N" and I: "0 < I" and S: "0 < S" and sk: "dw_skip_interval dw = int S"
    and "flush_idle st w D sgm I S bx bs bf a b bq bp tiw fl" and "a < 2 ^ 31" "b < 2 ^ 31"
    and "int_table ht" "int_map ht = int_map (dw_fields dw)" and "h_size (dir_ht st) + int (length fis) < 2 ^ 28" and "fields_ok S fs"
    and "length bx + 400 * terms_total fs < 2 ^ 63" "length bs + 400 * terms_total fs < 2 ^ 63" "terms_total fs < 2 ^ 31"
    and "length bq + length (frq_fields S fs) < 2 ^ 63" "length bp + length (prx_fields fs) < 2 ^ 63"
    and "ps = place I (int S) (length bx) (length bs) (field_entries S (length bq) (length bp) fs)"
  shows "\<exists>ht' st' tiw' fl' w' a' b' r. flush_fields (dw_now dw ht st si) tiw fl fis w = Inr (dw_now dw ht' st' si', tiw', fl', w') \<and>
    flush_idle st' w' D' sgm I S (bx @ ix_bytes I (int S) ps) (bs @ is_bytes (int S) ps) (bf @ r) a' b' (bq @ frq_fields S fs) (bp @ prx_fields fs) tiw' fl' \<and>
    a' < 2 ^ 31 \<and> b' < 2 ^ 31 \<and> r @ enc_v a' @ enc_v b' = enc_v a @ enc_v b @ fx_bytes I ps \<and>
    tiw_field_count tiw' = tiw_field_count tiw + of_nat (length fs)"
  using assms(1,6-)
proof (induction si D fis fs si' D' arbitrary: ht st tiw fl w bx bs bf bq bp a b ps rule: dw_holds.induct)
  case (stop si D)
  then show ?case
    by (intro exI [of _ ht] exI [of _ st] exI [of _ tiw] exI [of _ fl] exI [of _ w] exI [of _ a] exI [of _ b] exI [of _ "[]"])
      (simp add: ix_bytes_def is_bytes_def fx_bytes_def)
next
  case (without fi si D fis fs si' D')
  have h: "h_size (dir_ht st) + int (length fis) < 2 ^ 28" using without.prems(6) by simp
  show ?case
  proof (cases "bits_is_indexed (fi_bits fi)")
    case False
    from without.IH [OF without.prems(1-5) h without.prems(7-)] False show ?thesis by simp
  next
    case True
    then have n: "inverter_at dw fi = None" using without.hyps(1) by simp
    from get_int_fields [OF without.prems(4,5), of fi] obtain ht1 where
      1: "frt_h_get_int ht (word_of_int (fi_number fi)) = Inr (None, ht1)" "int_table ht1" "int_map ht1 = int_map (dw_fields dw)" unfolding n by blast
    from without.IH [OF without.prems(1-3) 1(2,3) h without.prems(7-)] True 1(1) show ?thesis by simp
  qed
next
  case (inverted fi r si D si1 D1 tps fis fs si' D')
  let ?x = "(fi_number fi, tps)"
  from get_int_fields [OF inverted.prems(4,5), of fi] obtain ht1 where
    1: "frt_h_get_int ht (word_of_int (fi_number fi)) = Inr (Some r, ht1)" "int_table ht1" "int_map ht1 = int_map (dw_fields dw)"
    unfolding inverted.hyps(2) by blast
  have small: "h_size (dir_ht (dw_store (dw_now dw ht1 st si))) < 2 ^ 28" using inverted.prems(6) by simp
  from flush_norms_ok [of "dw_now dw ht1 st si", OF _ N small, of w D I S bx bs bf a b bq bp tiw fl fi "dw_invs dw ! r" si1 D1] inverted.prems(1) inverted.hyps(4)
  obtain st2 w2 where 2: "(if \<not> bits_omit_norms (fi_bits fi) then dw_write_norms (dw_now dw ht1 st si) (dw_invs dw ! r) w else Inr (dw_now dw ht1 st si, w)) =
      Inr (dw_now dw ht1 st2 si1, w2)" "flush_idle st2 w2 D1 sgm I S bx bs bf a b bq bp tiw fl" "h_size (dir_ht st2) \<le> h_size (dir_ht st) + 1"
    by auto
  have f: "0 \<le> fi_number fi" "fi_number fi < 2 ^ 31" and tps: "field_posts_ok S tps" and fs: "fields_ok S fs"
    using inverted.prems(7) by (simp_all add: fields_ok_def)
  let ?es = "entries_of S (length bq) (length bp) tps"
  have T: "terms_ok ?es" by (rule entries_of_ok [OF tps]) (use inverted.prems(11,12) in simp_all)
  have sz: "length tps < 2 ^ 31" "length bx < 2 ^ 63" "length bs + 400 * length tps < 2 ^ 63" "length bq + length (frq_all S tps) < 2 ^ 63"
    "length bp + length (prx_all tps) < 2 ^ 63" "length bs + 400 * length ?es < 2 ^ 63" using inverted.prems(8-12) by simp_all
  note bb = field_bytes_bound [OF T I sz(6), of "int S"]
  from flush_field_ok [OF 2(2) inverted.prems(2,3) I S f tps sz(1-5) refl] obtain tiw3 fl3 w3 where
    3: "flush_field (int S) tiw fl (fi_number fi) (map plist_of tps) w2 = Inr (tiw3, fl3, w3)"
    "flush_idle st2 w3 D1 sgm I S (bx @ enc_index (int S) no_term 0 (index_of I (int S) (length bs) ?es)) (bs @ enc_terms (int S) no_term ?es)
      (bf @ enc_v a @ enc_v b @ enc_v (nat (fi_number fi)) @ enc_v (length bx) @ enc_v (length bs)) (index_cnt I ?es) (length ?es)
      (bq @ frq_all S tps) (bp @ prx_all tps) tiw3 fl3" "tiw_field_count tiw3 = tiw_field_count tiw + 1" by blast
  let ?bx = "bx @ enc_index (int S) no_term 0 (index_of I (int S) (length bs) ?es)" and ?bs = "bs @ enc_terms (int S) no_term ?es"
    and ?bf = "bf @ enc_v a @ enc_v b @ enc_v (nat (fi_number fi)) @ enc_v (length bx) @ enc_v (length bs)" and ?bq = "bq @ frq_all S tps" and ?bp = "bp @ prx_all tps"
  let ?ps = "place I (int S) (length ?bx) (length ?bs) (field_entries S (length ?bq) (length ?bp) fs)"
  have ic: "index_cnt I ?es < 2 ^ 31" "length ?es < 2 ^ 31" using index_cnt_le [OF I, of ?es] sz(1) by simp_all
  have h: "h_size (dir_ht st2) + int (length fis) < 2 ^ 28" using 2(3) inverted.prems(6) by simp
  have sz2: "length ?bx + 400 * terms_total fs < 2 ^ 63" "length ?bs + 400 * terms_total fs < 2 ^ 63" "terms_total fs < 2 ^ 31"
    "length ?bq + length (frq_fields S fs) < 2 ^ 63" "length ?bp + length (prx_fields fs) < 2 ^ 63" using inverted.prems(8-12) bb(2,3) by simp_all
  from inverted.IH [OF 3(2) ic 1(2,3) h fs sz2 refl] obtain ht4 st4 tiw4 fl4 w4 a4 b4 q where
    4: "flush_fields (dw_now dw ht1 st2 si1) tiw3 fl3 fis w3 = Inr (dw_now dw ht4 st4 si', tiw4, fl4, w4)"
      "flush_idle st4 w4 D' sgm I S (?bx @ ix_bytes I (int S) ?ps) (?bs @ is_bytes (int S) ?ps) (?bf @ q) a4 b4 (?bq @ frq_fields S fs) (?bp @ prx_fields fs) tiw4 fl4"
      "a4 < 2 ^ 31" "b4 < 2 ^ 31" "q @ enc_v a4 @ enc_v b4 = enc_v (index_cnt I ?es) @ enc_v (length ?es) @ fx_bytes I ?ps"
      "tiw_field_count tiw4 = tiw_field_count tiw3 + of_nat (length fs)" by (elim exE conjE) (rule that; assumption)
  have ps: "ps = (fi_number fi, length bx, length bs, ?es) # ?ps" using inverted.prems(13) by simp
  let ?r = "enc_v a @ enc_v b @ enc_v (nat (fi_number fi)) @ enc_v (length bx) @ enc_v (length bs) @ q"
  have run: "flush_fields (dw_now dw ht st si) tiw fl (fi # fis) w = Inr (dw_now dw ht4 st4 si', tiw4, fl4, w4)"
    using inverted.hyps(1,3,5) 1(1) 2(1) 3(1) 4(1) sk by (simp add: Let_def)
  have "flush_idle st4 w4 D' sgm I S (bx @ ix_bytes I (int S) ps) (bs @ is_bytes (int S) ps) (bf @ ?r) a4 b4 (bq @ frq_fields S (?x # fs)) (bp @ prx_fields (?x # fs)) tiw4 fl4"
    using 4(2) by (simp add: ps ix_bytes_def is_bytes_def)
  moreover have "?r @ enc_v a4 @ enc_v b4 = enc_v a @ enc_v b @ fx_bytes I ps" using 4(5) by (simp add: ps fx_bytes_def)
  moreover have "tiw_field_count tiw4 = tiw_field_count tiw + of_nat (length (?x # fs))" using 3(3) 4(6) by simp
  ultimately show ?case using run 4(3,4) by (intro exI conjI) assumption+
qed

section \<open>Flushing\<close>

definition segment_dir ::
  "(byte list \<Rightarrow> byte list option) \<Rightarrow> byte list \<Rightarrow> nat \<Rightarrow> nat \<Rightarrow> (int \<times> term_posts list) list \<Rightarrow> byte list \<Rightarrow> byte list option" where
  "segment_dir D sgm I S fs = dict_dir (D(sgm @ str ''.prx'' \<mapsto> prx_fields fs, sgm @ str ''.frq'' \<mapsto> frq_fields S fs)) sgm I (int S) (field_entries S 0 0 fs)"

lemma length_field_entries [simp]: "length (field_entries S F X fs) = length fs"
  by (induction fs arbitrary: F X) auto

theorem dw_flush_ok:
  assumes S: "ram_ok (dw_store dw) w" and small: "h_size (dir_ht (dw_store dw)) + int (length (fis_fields (dw_fis dw))) + 5 < 2 ^ 28"
    and sgm: "sgm = si_name (dw_si dw)" "length sgm + 5 \<le> FRT_SEGMENT_NAME_MAX_LENGTH"
    and new: "\<forall>n \<in> segment_names sgm - {[]}. ram_dir (dw_store dw) w n = None"
    and I: "dw_index_interval dw = int I" "0 < I" "I < 2 ^ 31" and k: "dw_skip_interval dw = int k" "0 < k" "k < 2 ^ 31" and T: "int_table (dw_fields dw)"
    and H: "dw_holds dw (segment_names sgm) (dw_si dw) (ram_dir (dw_store dw) w) (fis_fields (dw_fis dw)) fs si' D'" and fs: "fields_ok k fs"
    and sz: "terms_total fs < 2 ^ 31" "length (frq_fields k fs) < 2 ^ 63" "length (prx_fields fs) < 2 ^ 63"
  shows "\<exists>dw' w'. dw_flush dw w = Inr (dw', w') \<and> ram_ok (dw_store dw') w' \<and> ram_dir (dw_store dw') w' = segment_dir D' sgm I k fs \<and> dw_si dw' = si' \<and>
    dw_pls dw' = [] \<and> dw_invs dw' = [] \<and> dw_doc_num dw' = 0"
proof -
  let ?D = "ram_dir (dw_store dw) w" and ?F = "sgm @ str ''.frq''" and ?X = "sgm @ str ''.prx''"
  have nd: "\<forall>n \<in> dict_files sgm. ?D n = None" "?D ?F = None" "?D ?X = None" using new by (auto simp: dict_files_def segment_names_def)
  have sm: "h_size (dir_ht (dw_store dw)) + 2 < 2 ^ 28" "0 \<le> int k" using small by simp_all
  from tiw_open_ok [where I = I, OF S sm(1) sgm(2) nd(1) sm(2)] obtain tiw st1 w1 where
    1: "frt_tiw_open (dw_store dw) sgm (int I) (int k) w = Inr (tiw, st1, w1)" "tiw_idle st1 w1 ?D [] sgm I (int k) [] [] (enc_u32 0) I k tiw"
      "tiw_field_count tiw = 0" "h_size (dir_ht st1) \<le> h_size (dir_ht (dw_store dw)) + 3" by auto
  let ?T = "[(sgm @ str ''.tix'', tw_os (tiw_tix_writer tiw), []), (sgm @ str ''.tis'', tw_os (tiw_tis_writer tiw), []), (sgm @ str ''.tfx'', tiw_tfx_out tiw, enc_u32 0)]"
  have O1: "writing_all st1 w1 ?D ?T" using 1(2) by (simp add: tiw_idle_def)
  have "h_size (dir_ht st1) < 2 ^ 28" using 1(4) small by simp
  from writing_all_new [OF O1 this, of "(0, ?F)"] nd(2) obtain frq st2 w2 where
    2: "ram_new_output st1 (0, ?F) w1 = Inr (frq, st2, w2)" "writing_all st2 w2 ?D ((?F, frq, []) # ?T)" "h_size (dir_ht st2) \<le> h_size (dir_ht st1) + 1" by auto
  have "h_size (dir_ht st2) < 2 ^ 28" using 1(4) 2(3) small by simp
  from writing_all_new [OF 2(2) this, of "(0, ?X)"] nd(3) obtain prx st3 w3 where
    3: "ram_new_output st2 (0, ?X) w2 = Inr (prx, st3, w3)" "writing_all st3 w3 ?D ((?X, prx, []) # (?F, frq, []) # ?T)"
      "h_size (dir_ht st3) \<le> h_size (dir_ht st2) + 1" by auto
  from skip_buf_new_ok [OF 3(2)] obtain sb w4 where
    4: "skip_buf_new w3 = (sb, w4)" "writing_all st3 w4 ?D (([], sb_buf sb, []) # (?X, prx, []) # (?F, frq, []) # ?T)" by auto
  let ?fl = "\<lparr>fl_frq_out = frq, fl_prx_out = prx, fl_skip_buf = sb\<rparr>"
  have "writing_all st3 w4 ?D (?T @ [(?F, frq, []), (?X, prx, []), ([], sb_buf sb, [])])" by (rule writing_all_mset [OF 4(2)]) simp
  then have A: "flush_idle st3 w4 ?D sgm I k [] [] (enc_u32 0) I k [] [] tiw ?fl"
    unfolding flush_idle_def using 1(2) by (intro exI [of _ "[]"]) (simp add: tiw_idle_def)
  let ?ps = "place I (int k) 0 0 (field_entries k 0 0 fs)"
  have h: "h_size (dir_ht st3) + int (length (fis_fields (dw_fis dw))) < 2 ^ 28" using 1(4) 2(3) 3(3) small by simp
  have sz': "length ([] :: byte list) + 400 * terms_total fs < 2 ^ 63" "length ([] :: byte list) + length (frq_fields k fs) < 2 ^ 63"
    "length ([] :: byte list) + length (prx_fields fs) < 2 ^ 63" "?ps = place I (int k) (length ([] :: byte list)) (length ([] :: byte list))
      (field_entries k (length ([] :: byte list)) (length ([] :: byte list)) fs)" using sz by simp_all
  from flush_fields_ok [OF H subset_refl I(2) k(2,1) A I(3) k(3) T refl h fs sz'(1,1) sz(1) sz'(2-4)] obtain ht5 st5 tiw5 fl5 w5 a b r where
    5: "flush_fields (dw_now dw (dw_fields dw) st3 (dw_si dw)) tiw ?fl (fis_fields (dw_fis dw)) w4 = Inr (dw_now dw ht5 st5 si', tiw5, fl5, w5)"
      "flush_idle st5 w5 D' sgm I k ([] @ ix_bytes I (int k) ?ps) ([] @ is_bytes (int k) ?ps) (enc_u32 0 @ r) a b ([] @ frq_fields k fs) ([] @ prx_fields fs) tiw5 fl5"
      "a < 2 ^ 31" "b < 2 ^ 31" "r @ enc_v a @ enc_v b = enc_v I @ enc_v k @ fx_bytes I ?ps" "tiw_field_count tiw5 = tiw_field_count tiw + of_nat (length fs)"
    by (elim exE conjE) (rule that; assumption)
  from 5(2) obtain bb where W5: "tiw_idle st5 w5 D' [(?F, fl_frq_out fl5, frq_fields k fs), (?X, fl_prx_out fl5, prx_fields fs), ([], sb_buf (fl_skip_buf fl5), bb)]
      sgm I (int k) (ix_bytes I (int k) ?ps) (is_bytes (int k) ?ps) (enc_u32 0 @ r) a b tiw5" by (auto simp: flush_idle_def)
  let ?T5 = "[(sgm @ str ''.tix'', tw_os (tiw_tix_writer tiw5), ix_bytes I (int k) ?ps), (sgm @ str ''.tis'', tw_os (tiw_tis_writer tiw5), is_bytes (int k) ?ps),
      (sgm @ str ''.tfx'', tiw_tfx_out tiw5, enc_u32 0 @ r)]"
  have "writing_all st5 w5 D' (?T5 @ [(?F, fl_frq_out fl5, frq_fields k fs), (?X, fl_prx_out fl5, prx_fields fs), ([], sb_buf (fl_skip_buf fl5), bb)])"
    using W5 by (simp add: tiw_idle_def)
  then have O5: "writing_all st5 w5 D' ((?X, fl_prx_out fl5, prx_fields fs) # (?F, fl_frq_out fl5, frq_fields k fs) # ?T5 @ [([], sb_buf (fl_skip_buf fl5), bb)])"
    by (rule writing_all_mset) simp
  have ne: "?X \<noteq> []" "?F \<noteq> []" by simp_all
  from writing_all_close [OF O5 ne(1)] obtain w6 where
    6: "frt_os_close RAM_OUT_STREAM_METHODS (fl_prx_out fl5) w5 = Inr w6"
      "writing_all st5 w6 (D'(?X \<mapsto> prx_fields fs)) ((?F, fl_frq_out fl5, frq_fields k fs) # ?T5 @ [([], sb_buf (fl_skip_buf fl5), bb)])" by blast
  from writing_all_close [OF 6(2) ne(2)] obtain w7 where
    7: "frt_os_close RAM_OUT_STREAM_METHODS (fl_frq_out fl5) w6 = Inr w7"
      "writing_all st5 w7 (D'(?X \<mapsto> prx_fields fs, ?F \<mapsto> frq_fields k fs)) (?T5 @ [([], sb_buf (fl_skip_buf fl5), bb)])" by blast
  have W7: "tiw_idle st5 w7 (D'(?X \<mapsto> prx_fields fs, ?F \<mapsto> frq_fields k fs)) [([], sb_buf (fl_skip_buf fl5), bb)] sgm I (int k)
      (ix_bytes I (int k) ?ps) (is_bytes (int k) ?ps) (enc_u32 0 @ r) a b tiw5" using W5 7(2) by (simp add: tiw_idle_def)
  have tf: "enc_u32 (tiw_field_count tiw5) @ r @ enc_v a @ enc_v b = tfx_bytes I (int k) (field_entries k 0 0 fs)"
    using 5(5,6) 1(3) by (simp add: tfx_bytes_def)
  have dir: "(D'(?X \<mapsto> prx_fields fs, ?F \<mapsto> frq_fields k fs))(sgm @ str ''.tfx'' \<mapsto> enc_u32 (tiw_field_count tiw5) @ r @ enc_v a @ enc_v b,
      sgm @ str ''.tix'' \<mapsto> ix_bytes I (int k) ?ps, sgm @ str ''.tis'' \<mapsto> is_bytes (int k) ?ps) = segment_dir D' sgm I k fs"
    unfolding tf segment_dir_def dict_dir_def ..
  from tiw_close_ok [OF W7 5(3,4)] obtain w8 where
    8: "frt_tiw_close tiw5 w7 = Inr w8" "writing_all st5 w8 (segment_dir D' sgm I k fs) [([], sb_buf (fl_skip_buf fl5), bb)]" unfolding dir by blast
  from skip_buf_destroy_ok [OF 8(2)] obtain w9 where
    9: "skip_buf_destroy (fl_skip_buf fl5) w8 = Inr w9" "writing_all st5 w9 (segment_dir D' sgm I k fs) []" by blast
  have now: "dw\<lparr>dw_store := st3\<rparr> = dw_now dw (dw_fields dw) st3 (dw_si dw)" by (simp add: dw_now_def)
  have "dw_flush dw w = Inr (dw_flush_streams (dw_now dw ht5 st5 si'), w9)"
    unfolding dw_flush_def Let_def sgm(1) [symmetric] I(1) k(1) 1(1) ebind_simps prod.case 2(1) 3(1) 4(1) now 5(1) 6(1) 7(1) 8(1) 9(1) ..
  moreover have "dw_store (dw_flush_streams (dw_now dw ht5 st5 si')) = st5" "dw_si (dw_flush_streams (dw_now dw ht5 st5 si')) = si'"
    "dw_pls (dw_flush_streams (dw_now dw ht5 st5 si')) = []" "dw_invs (dw_flush_streams (dw_now dw ht5 st5 si')) = []" "dw_doc_num (dw_flush_streams (dw_now dw ht5 st5 si')) = 0"
    by (simp_all add: dw_flush_streams_def)
  moreover have "ram_ok st5 w9" "ram_dir st5 w9 = segment_dir D' sgm I k fs" using 9(2) by (simp_all add: writing_all_nil)
  ultimately show ?thesis by (intro exI [of _ "dw_flush_streams (dw_now dw ht5 st5 si')"] exI [of _ w9]) simp
qed

end
