(* ===== verification/FrtSegmentReader.thy ===== *)
theory FrtSegmentReader
  imports FrtTermDocs FrtDeleter
begin

text \<open>
  The reader of one segment in \<open>frt_index.c\<close> (\<open>FrtSegmentReader\<close>), as far as terms, documents of terms and deletions go, on a
  RAM store.

  \<^item> \<open>segment_reader\<close> is \<open>FrtSegmentReader\<close> with \<open>has_changes\<close> of its \<open>FrtIndexReader\<close>. The reader of stored fields, the norms
    and the lock are not in the model; \<open>sr_open_files\<close> opens a segment that has no compound file.
  \<^item> \<open>bv_write\<close> and \<open>bv_read\<close> write and read the deleted documents. The vector \<open>bv_read\<close> makes is zero outside what is read.
  \<^item> \<open>thread\<close> stands for the key of the calling thread, as in the reader of terms.
\<close>

section \<open>The deleted documents in a file\<close>

text \<open>Both loops go down from the last word.\<close>

fun bv_write_loop :: "('o, 'w) os_methods \<Rightarrow> u32 list \<Rightarrow> nat \<Rightarrow> 'o outstream \<Rightarrow> 'w \<Rightarrow> ('o outstream \<times> 'w) res" where
  "bv_write_loop m bits 0 os w = Inr (os, w)"
| "bv_write_loop m bits (Suc i) os w =
     (if i < length bits then ebind (frt_os_write_u32 m os (bits ! i) w) (\<lambda>(os, w). bv_write_loop m bits i os w)
      else Inl UndefinedBehaviour)"

definition bv_write :: "bitvector \<Rightarrow> ram_store \<Rightarrow> cstr \<Rightarrow> ram_heap \<Rightarrow> (ram_store \<times> ram_heap) res" where
  "bv_write bv store name w =
     ebind (ram_new_output store name w) (\<lambda>(os, store, w).
     ebind (frt_os_write_vint RAM_OUT_STREAM_METHODS os (of_nat (bv_size bv)) w) (\<lambda>(os, w).
     ebind (bv_write_loop RAM_OUT_STREAM_METHODS (bv_bits bv) (FRT_TO_WORD (bv_size bv)) os w) (\<lambda>(os, w).
     ebind (frt_os_close RAM_OUT_STREAM_METHODS os w) (\<lambda>w. Inr (store, w)))))"

fun bv_read_loop :: "'f is_methods \<Rightarrow> nat \<Rightarrow> u32 list \<Rightarrow> 'f instream \<Rightarrow> (u32 list \<times> 'f instream) res" where
  "bv_read_loop m 0 bits is = Inr (bits, is)"
| "bv_read_loop m (Suc i) bits is = ebind (frt_is_read_u32 m is) (\<lambda>(v, is). bv_read_loop m i (bits[i := v]) is)"

definition bv_read :: "ram_store \<Rightarrow> cstr \<Rightarrow> ram_heap \<Rightarrow> (bitvector \<times> ram_store \<times> ram_heap) res" where
  "bv_read store name w =
     ebind (ram_open_input store name w) (\<lambda>(is, store, w).
     ebind (frt_is_read_vint (RAM_IN_STREAM_METHODS w) is) (\<lambda>(size, is).
       if sint size < 0 then Inl UndefinedBehaviour
       else
       let size = nat (sint size)
       in ebind (bv_read_loop (RAM_IN_STREAM_METHODS w) (FRT_TO_WORD size) (replicate (size div 32 + 1) 0) is) (\<lambda>(bits, is).
          ebind (frt_bv_recount \<lparr>bv_bits = bits, bv_size = size, bv_count = 0, bv_curr_bit = 0, extends_as_ones = False\<rparr>) (\<lambda>bv.
          ebind (rami_close_i (is_file is) w) (\<lambda>w. Inr (bv, store, w))))))"

section \<open>The reader\<close>

record 'f segment_reader =
  sr_si :: segment_info
  sr_deleted_docs :: "bitvector option"
  sr_frq_in :: "'f instream"
  sr_prx_in :: "'f instream"
  sr_sfi :: "'f seg_field_index"
  sr_tir :: "'f term_infos_reader"
  sr_deleted_docs_dirty :: bool
  sr_undelete_all :: bool
  sr_has_changes :: bool

definition sr_open_files :: "ram_store \<Rightarrow> segment_info \<Rightarrow> ram_heap \<Rightarrow> (ram_in segment_reader \<times> ram_store \<times> ram_heap) res" where
  "sr_open_files store si w =
     (let segment = si_name si
      in ebind (frt_sfi_open store segment w) (\<lambda>(sfi, store, w).
         ebind (frt_tir_open store sfi segment w) (\<lambda>(tir, store, w).
         ebind (if frt_si_has_deletions si then
                  ebind (frt_fn_for_generation segment (Some (str ''del'')) (si_del_gen si)) (\<lambda>file_name.
                  case file_name of
                    None \<Rightarrow> Inl UndefinedBehaviour
                  | Some file_name \<Rightarrow> ebind (bv_read store (0, file_name) w) (\<lambda>(bv, store, w). Inr (Some bv, store, w)))
                else Inr (None, store, w)) (\<lambda>(deleted_docs, store, w).
         ebind (ram_open_input store (0, segment @ str ''.frq'') w) (\<lambda>(frq_in, store, w).
         ebind (ram_open_input store (0, segment @ str ''.prx'') w) (\<lambda>(prx_in, store, w).
         Inr (\<lparr>sr_si = si, sr_deleted_docs = deleted_docs, sr_frq_in = frq_in, sr_prx_in = prx_in, sr_sfi = sfi, sr_tir = tir,
               sr_deleted_docs_dirty = False, sr_undelete_all = False, sr_has_changes = False\<rparr>, store, w)))))))"

definition sr_is_deleted_i :: "'f segment_reader \<Rightarrow> nat \<Rightarrow> bool" where
  "sr_is_deleted_i sr doc_num = (case sr_deleted_docs sr of None \<Rightarrow> False | Some bv \<Rightarrow> frt_bv_get bv doc_num)"

definition sr_term_docs :: "'f segment_reader \<Rightarrow> 'f seg_term_doc_enum" where
  "sr_term_docs sr = frt_stde_new (sr_frq_in sr) (sr_deleted_docs sr) (te_skip_interval (tir_orig_te (sr_tir sr)))"

definition sr_term_positions :: "'f segment_reader \<Rightarrow> 'f seg_term_doc_enum" where
  "sr_term_positions sr = frt_stpe_new (sr_frq_in sr) (sr_prx_in sr) (sr_deleted_docs sr) (te_skip_interval (tir_orig_te (sr_tir sr)))"

definition sr_doc_freq :: "'f is_methods \<Rightarrow> 'f segment_reader \<Rightarrow> nat \<Rightarrow> int \<Rightarrow> byte list \<Rightarrow> (int \<times> 'f segment_reader) res" where
  "sr_doc_freq m sr thread field_num term =
     ebind (frt_tir_set_field m (sr_tir sr) (sr_sfi sr) thread field_num) (\<lambda>(tir, sfi).
     ebind (frt_tir_get_ti m tir sfi thread term) (\<lambda>(ti, tir, sfi).
     Inr (case ti of Some ti \<Rightarrow> ti_doc_freq ti | None \<Rightarrow> 0, sr\<lparr>sr_tir := tir, sr_sfi := sfi\<rparr>)))"

text \<open>\<open>ir_term_docs_for\<close> and \<open>frt_ir_term_positions_for\<close> on a segment reader; \<open>fis\<close> are the fields of the reader.\<close>

definition sr_seek ::
  "'f is_methods \<Rightarrow> 'f segment_reader \<Rightarrow> 'f seg_term_doc_enum \<Rightarrow> nat \<Rightarrow> int \<Rightarrow> byte list
     \<Rightarrow> ('f seg_term_doc_enum \<times> 'f segment_reader) res" where
  "sr_seek m sr tde thread field_num term =
     (if field_num \<ge> 0 then
        ebind (tde_seek m tde (sr_tir sr) (sr_sfi sr) thread field_num term) (\<lambda>(tde, tir, sfi).
        Inr (tde, sr\<lparr>sr_tir := tir, sr_sfi := sfi\<rparr>))
      else Inr (tde, sr))"

definition ir_term_docs_for ::
  "'f is_methods \<Rightarrow> 'f segment_reader \<Rightarrow> field_infos \<Rightarrow> nat \<Rightarrow> u64 \<Rightarrow> byte list
     \<Rightarrow> ('f seg_term_doc_enum \<times> 'f segment_reader \<times> field_infos) res" where
  "ir_term_docs_for m sr fis thread field term =
     ebind (frt_fis_get_field_num fis field) (\<lambda>(field_num, fis).
     ebind (sr_seek m sr (sr_term_docs sr) thread field_num term) (\<lambda>(tde, sr). Inr (tde, sr, fis)))"

definition frt_ir_term_positions_for ::
  "'f is_methods \<Rightarrow> 'f segment_reader \<Rightarrow> field_infos \<Rightarrow> nat \<Rightarrow> u64 \<Rightarrow> byte list
     \<Rightarrow> ('f seg_term_doc_enum \<times> 'f segment_reader \<times> field_infos) res" where
  "frt_ir_term_positions_for m sr fis thread field term =
     ebind (frt_fis_get_field_num fis field) (\<lambda>(field_num, fis).
     ebind (sr_seek m sr (sr_term_positions sr) thread field_num term) (\<lambda>(tde, sr). Inr (tde, sr, fis)))"

section \<open>Deleting\<close>

definition sr_delete_doc_i :: "'f segment_reader \<Rightarrow> nat \<Rightarrow> 'f segment_reader" where
  "sr_delete_doc_i sr doc_num =
     (let bv = (case sr_deleted_docs sr of None \<Rightarrow> frt_bv_new | Some bv \<Rightarrow> bv)
      in sr\<lparr>sr_deleted_docs := Some (frt_bv_set bv doc_num), sr_deleted_docs_dirty := True, sr_undelete_all := False, sr_has_changes := True\<rparr>)"

definition sr_undelete_all_i :: "'f segment_reader \<Rightarrow> 'f segment_reader" where
  "sr_undelete_all_i sr = sr\<lparr>sr_undelete_all := True, sr_deleted_docs_dirty := False, sr_has_changes := True, sr_deleted_docs := None\<rparr>"

text \<open>The first part of \<open>sr_commit_i\<close>; the norms follow there.\<close>

definition sr_commit_deletions ::
  "'f segment_reader \<Rightarrow> ram_store \<Rightarrow> frt_deleter \<Rightarrow> ram_heap \<Rightarrow> ('f segment_reader \<times> ram_store \<times> frt_deleter \<times> ram_heap) res" where
  "sr_commit_deletions sr store dlr w =
     (let si = sr_si sr; segment = si_name si
      in if sr_undelete_all sr \<or> sr_deleted_docs_dirty sr then
           ebind (if si_del_gen si \<ge> 0 then
                    ebind (frt_fn_for_generation segment (Some (str ''del'')) (si_del_gen si)) (\<lambda>file_name.
                    case file_name of None \<Rightarrow> Inl UndefinedBehaviour | Some file_name \<Rightarrow> frt_deleter_queue_file dlr file_name w)
                  else Inr (dlr, w)) (\<lambda>(dlr, w).
           if sr_undelete_all sr then Inr (sr\<lparr>sr_si := si\<lparr>si_del_gen := - 1\<rparr>, sr_undelete_all := False\<rparr>, store, dlr, w)
           else
             let si = si\<lparr>si_del_gen := si_del_gen si + 1\<rparr>
             in ebind (frt_fn_for_generation segment (Some (str ''del'')) (si_del_gen si)) (\<lambda>file_name.
                case (file_name, sr_deleted_docs sr) of
                  (Some file_name, Some bv) \<Rightarrow>
                    ebind (bv_write bv store (0, file_name) w) (\<lambda>(store, w).
                    Inr (sr\<lparr>sr_si := si, sr_deleted_docs_dirty := False\<rparr>, store, dlr, w))
                | _ \<Rightarrow> Inl UndefinedBehaviour))
         else Inr (sr, store, dlr, w))"

end
