(* ===== verification/Spec2Isabelle.thy ===== *)
theory Spec2Isabelle
  imports FrtPrelude FrtStream FrtStreamLaws FrtStreamRead FrtFields FrtHash FrtProbe FrtHashLaws
    FrtHashOps FrtRamStore FrtRamLaws FrtRamDir FrtRamRefine FrtPriorityQueue FrtPriorityQueueLaws
    FrtBitVector FrtBitVectorLaws FrtSearch FrtSearchLaws FrtArray FrtHelper FrtMemPool FrtHashSet FrtHashInt
    FrtIndexNames FrtFieldInfos FrtSegmentInfos FrtDeleter FrtSegmentsFile FrtCompound FrtCompoundLaws
    FrtTermDict FrtTermDictLaws FrtTermDictFile FrtTermDocs FrtTermDocLaws FrtDocWriter FrtDocWriterLaws FrtSegmentReader
begin

text \<open>
  The core of the Ferret search engine: the C files \<open>frt_*.c\<close> and \<open>frt_*.h\<close> under
  \<open>src/ext/isomorfeus_ferret_ext/\<close>.

  The program. An index is a set of files in a store (\<open>frt_store.c\<close>, \<open>frt_ram_store.c\<close>). Everything is
  written and read through buffered streams (\<open>FrtOutStream\<close>, \<open>FrtInStream\<close>) on the store's own streams,
  which are given as records of function pointers. The current segments of an index and its fields are in the
  newest \<open>segments_N\<close> file, which readers search for while a writer may commit (\<open>frt_index.c\<close>), and a deleter
  removes the files that no segment needs any more. Hash tables (\<open>frt_hash.c\<close>) hold the directory of the
  RAM store and many tables elsewhere; bit vectors (\<open>frt_bitvector.c\<close>) hold deleted documents and
  filters; the bounded priority queue (\<open>frt_priorityqueue.c\<close>) collects the best hits, and the searchers
  (\<open>frt_search.c\<close>) run a query's scorer over one or several indexes.

  Theories and code.
  \<^item> \<open>FrtPrelude\<close>: bytes, words, the error codes of \<open>frt_except.h\<close>, sequencing of fallible steps (\<open>ebind\<close>).
    A raised exception is \<open>Inl e\<close>; undefined behaviour of C is the error value \<open>UndefinedBehaviour\<close>.
  \<^item> \<open>FrtStream\<close>: \<open>frt_os_*\<close> and \<open>frt_is_*\<close> over a record of store operations. \<open>FrtStreamLaws\<close> and
    \<open>FrtStreamRead\<close> state what a store must promise as locales (\<open>out_source\<close>, \<open>in_source\<close>) and prove once for every
    store that the writers append the encodings and that the readers decode them. \<open>FrtFields\<close> is about
    sequences of typed values.
  \<^item> \<open>FrtHash\<close>: \<open>frt_hash.c\<close>. \<open>FrtProbe\<close> shows that the probe sequence reaches every slot, so that a lookup
    in a table with a free slot ends; \<open>FrtHashLaws\<close> and \<open>FrtHashOps\<close> show that a table in order is a
    finite map and what each operation does to it (locale \<open>key_laws\<close>, interpreted for strings and pointers).
  \<^item> \<open>FrtRamStore\<close>: \<open>frt_ram_store.c\<close> on a heap of file objects with reference counts. \<open>FrtRamLaws\<close>
    interprets the stream locales for its files, \<open>FrtRamDir\<close> describes each operation on the map from
    names to contents, \<open>FrtRamRefine\<close> shows that any sequence of requests is served as by that map.
  \<^item> \<open>FrtPriorityQueue\<close>, \<open>FrtPriorityQueueLaws\<close>: \<open>frt_priorityqueue.c\<close>, as a multiset of elements.
  \<^item> \<open>FrtBitVector\<close>, \<open>FrtBitVectorLaws\<close>: \<open>frt_bitvector.c\<close> and \<open>frt_bitvector.h\<close>, as sets of positions.
  \<^item> \<open>FrtSearch\<close>, \<open>FrtSearchLaws\<close>: the unsorted searches of \<open>frt_search.c\<close>, their hit queue and the
    numbering of the documents of several indexes.
  \<^item> \<open>FrtHashInt\<close>: the tables of \<open>frt_hash.c\<close> with integer keys, which use another lookup.
  \<^item> \<open>FrtHashSet\<close>: \<open>frt_hashset.c\<close>, a linked list with a hash table of its entries, as the list of its elements.
  \<^item> \<open>FrtArray\<close>: \<open>frt_array.c\<close>, as lists. \<open>FrtMemPool\<close>: \<open>frt_mempool.c\<close>. \<open>FrtHelper\<close>: \<open>frt_helper.c\<close>.
  \<^item> \<open>FrtIndexNames\<close>: the names of index files in \<open>frt_index.c\<close> and what a listing of a RAM store tells of them.
    \<open>FrtFieldInfos\<close>: \<open>FrtFieldInfo\<close> and \<open>FrtFieldInfos\<close>, an array of fields with a table by name. \<open>FrtSegmentInfos\<close>:
    \<open>FrtSegmentInfo\<close> and \<open>FrtSegmentInfos\<close>, with the bodies of their readers and writers, which the stream locales
    show to be inverse. \<open>FrtDeleter\<close>: \<open>FrtDeleter\<close>, which removes files no segment refers to. \<open>FrtSegmentsFile\<close>:
    \<open>sis_find_segments_file\<close>, \<open>frt_sis_read\<close> and \<open>frt_sis_write\<close>; the search is a partial function that is shown to
    return when the highest generation of the directory never falls (locale \<open>growing_dir\<close>), which writers that commit
    meanwhile do not break.
  \<^item> \<open>FrtCompound\<close>: \<open>frt_compound_io.c\<close>, the files of a segment in one file, and \<open>iw_create_compound_file\<close> of
    \<open>frt_index.c\<close>. \<open>FrtCompoundLaws\<close> interprets \<open>in_source\<close> for a compound stream on a shared stream of the RAM store and
    shows what the writer leaves in the store and what the compound store reads from it.
  \<^item> \<open>FrtTermDict\<close>: the term dictionary of a segment in \<open>frt_index.c\<close>, its writer, its enumeration and its reader.
    \<open>FrtTermDictLaws\<close> shows on any input stream that an enumeration, skipping or seeking through the index, finds the first
    term that is not less than the one sought, and what several threads see of one reader; \<open>FrtTermDictFile\<close> is about output
    streams on several files of a store at once, and shows that the writer writes the three files the reader expects.
  \<^item> \<open>FrtTermDocs\<close>: postings and the enumerations of the documents of a term and of the positions in them
    (\<open>FrtSegmentTermDocEnum\<close> in \<open>frt_index.c\<close>), with skipping. \<open>FrtTermDocLaws\<close> shows on any input streams that their
    operations, in any order, answer as a scan of the list of postings does (\<open>tde_calls\<close>, \<open>scan_calls\<close>).
  \<^item> \<open>FrtDocWriter\<close>: inversion of the tokens of documents into posting lists (\<open>FrtDocWriter\<close> in \<open>frt_index.c\<close>), and
    \<open>dw_flush\<close>, which writes the files of a segment from them.
  Integers. Bytes, 32-bit and 64-bit unsigned values are words and wrap; \<open>int\<close> and \<open>off_t\<close> values that the
  code never lets overflow are \<open>int\<close> or \<open>nat\<close>, with the bound checked where the code can pass it.
  Bounds: \<open>FRT_BUFFER_SIZE\<close> is the 4096 bytes of the code (RAM store buffers and stream buffers alike).
  Loops whose end is not structural (probing, decoding of variable length integers) carry a proof that
  they end, or fuel with a proof that it is enough.

  Not modelled. The file system store (system calls); Ruby bindings; vendored compression and stemming;
  analysis (character classes of Ruby encodings); the generated query parser; index readers and writers
  where they are not named above; floating point formulas of the similarity. Scores are values of an
  arbitrary linear order: the searches only compare them.
\<close>

section \<open>Streams and the RAM store\<close>

text \<open>
  C1. Values of every kind (bytes, fixed width integers, variable length integers, offsets, strings,
  raw bytes), written one after the other to a new file of a RAM store, are read back unchanged
  once the stream was closed and the file opened again, whatever their number: buffers fill up and
  are flushed on the way, and refilled on the way back.
\<close>

theorem ram_store_round_trip:
  assumes "ram_ok store w" and "h_size (dir_ht store) < 2 ^ 28" and "ram_dir store w (snd x) = None"
    and "\<forall>fl \<in> set fls. field_ok fl"
  shows "\<exists>store1 w1 store2 w2.
    save_file (write_fields RAM_OUT_STREAM_METHODS fls) store x w = Inr (store1, w1) \<and>
    load_file (\<lambda>w. read_fields (RAM_IN_STREAM_METHODS w) fls) store1 x w1 = Inr (fls, store2, w2)"
proof -
  have "ram_out.writes (write_fields RAM_OUT_STREAM_METHODS fls) (concat (map enc_field fls))"
    using assms(4) by (rule ram_out.writes_fields)
  from save_file_ok [OF assms(1,2) this, of x] assms(3) obtain store1 w1 where
    1: "save_file (write_fields RAM_OUT_STREAM_METHODS fls) store x w = Inr (store1, w1)" "ram_ok store1 w1"
      "ram_dir store1 w1 (snd x) = Some (concat (map enc_field fls) @ [])" by auto
  from load_file_ok [OF 1(2,3) ram_in.decodes_fields [OF assms(4)]] 1(1) show ?thesis by blast
qed

theorem ram_store_round_trip_witness:
  "\<exists>store1 w1 store2 w2.
    save_file (write_fields RAM_OUT_STREAM_METHODS [FVint 300, FString [104, 105], FI64 5]) frt_open_ram_store (7, [97])
      empty_heap = Inr (store1, w1) \<and>
    load_file (\<lambda>w. read_fields (RAM_IN_STREAM_METHODS w) [FVint 300, FString [104, 105], FI64 5]) store1 (7, [97]) w1 =
      Inr ([FVint 300, FString [104, 105], FI64 5], store2, w2)"
  by (rule ram_store_round_trip)
    (simp_all add: ram_open_ok heap_ok_empty, simp_all add: frt_open_ram_store_def str_table_new field_ok_def)



text \<open>
  C20. A lock that is held is refused: after a first \<open>ram_lock_obtain\<close>, a second one for the same name
  answers false and leaves the files as they were.
\<close>

theorem ram_lock_excludes:
  assumes "ram_ok store w" and "h_size (dir_ht store) < 2 ^ 28" and "ram_lock_obtain name store w = Inr (r, store1, w1)"
  shows "\<exists>store2. ram_lock_obtain name store1 w1 = Inr (False, store2, w1) \<and> ram_dir store2 w1 = ram_dir store1 w1"
proof -
  have "ram_ok store1 w1" "ram_dir store1 w1 (snd name) \<noteq> None"
    using ram_lock_obtain_ok [OF assms(1,2), of name] assms(3) by (auto split: if_splits)
  from ram_lock_held [OF this] show ?thesis by blast
qed

theorem ram_lock_excludes_witness:
  "\<exists>store1 w1 store2. ram_lock_obtain (7, [97]) frt_open_ram_store empty_heap = Inr (True, store1, w1) \<and>
     ram_lock_obtain (7, [97]) store1 w1 = Inr (False, store2, w1) \<and> ram_dir store2 w1 = ram_dir store1 w1"
proof -
  have small: "h_size (dir_ht frt_open_ram_store) < 2 ^ 28" by (simp add: frt_open_ram_store_def str_table_new)
  obtain s1 w1 where 1: "ram_lock_obtain (7, [97]) frt_open_ram_store empty_heap = Inr (True, s1, w1)"
    using ram_lock_obtain_ok [OF ram_open_ok(1) [OF heap_ok_empty] small, of "(7, [97])"]
    by (auto simp: ram_open_ok(2) [OF heap_ok_empty])
  from ram_lock_excludes [OF ram_open_ok(1) [OF heap_ok_empty] small 1] 1 show ?thesis by blast
qed

text \<open>
  C21. A missing file can neither be opened nor renamed: opening it raises \<open>FRT_FILE_NOT_FOUND_ERROR\<close> and
  renaming it \<open>FRT_IO_ERROR\<close>; its length is 0.
\<close>

theorem ram_missing_file:
  assumes "ram_ok store w" and "ram_dir store w (snd x) = None"
  shows "ram_open_input store x w = Inl FRT_FILE_NOT_FOUND_ERROR \<and> ram_rename store x y w = Inl FRT_IO_ERROR \<and>
    (\<exists>store'. ram_length store x w = Inr (0, store'))"
  using ram_open_input_missing [OF assms] ram_rename_missing [OF assms] ram_length_ok [OF assms(1), of x] assms(2)
  by auto

theorem ram_missing_file_witness:
  "ram_open_input frt_open_ram_store (7, [97]) empty_heap = Inl FRT_FILE_NOT_FOUND_ERROR \<and>
   ram_rename frt_open_ram_store (7, [97]) (8, [98]) empty_heap = Inl FRT_IO_ERROR \<and>
   (\<exists>store'. ram_length frt_open_ram_store (7, [97]) empty_heap = Inr (0, store'))"
  by (rule ram_missing_file) (simp_all add: ram_open_ok heap_ok_empty)

text \<open>
  C22. Reading at or behind the end of a file raises \<open>FRT_EOF_ERROR\<close> and nothing else, whatever the
  buffer of the stream holds; before the end a byte is read and the position advances by one.
\<close>

theorem ram_read_byte_spec:
  assumes "ram_in.is_ok w is bs p"
  shows "if p < length bs
    then \<exists>is'. frt_is_read_byte (RAM_IN_STREAM_METHODS w) is = Inr (bs ! p, is') \<and> ram_in.is_ok w is' bs (Suc p)
    else frt_is_read_byte (RAM_IN_STREAM_METHODS w) is = Inl FRT_EOF_ERROR"
  using ram_in.frt_is_read_byte_ok [OF assms] ram_in.frt_is_read_byte_eof [OF assms] by simp

theorem ram_read_byte_spec_witness:
  "\<exists>is w. frt_is_read_byte (RAM_IN_STREAM_METHODS w) is = Inl FRT_EOF_ERROR \<and> ram_in.is_ok w is [] 0"
proof -
  have small: "h_size (dir_ht frt_open_ram_store) < 2 ^ 28" by (simp add: frt_open_ram_store_def str_table_new)
  note S = ram_open_ok(1) [OF heap_ok_empty]
  obtain s1 w1 where 1: "ram_touch frt_open_ram_store (7, [97]) empty_heap = Inr (s1, w1)" "ram_ok s1 w1"
    "ram_dir s1 w1 [97] = Some []"
    using ram_touch_ok [OF S small, of "(7, [97])"] by (auto simp: ram_open_ok(2) [OF heap_ok_empty])
  then obtain "is" s2 w2 where "ram_in.is_ok w2 is [] 0"
    using ram_open_input_ok [OF 1(2), of "(7, [97])" "[]"] by auto
  from ram_read_byte_spec [OF this] this show ?thesis by auto
qed

section \<open>The hash table\<close>

text \<open>
  C10. \<open>frt_h_set\<close> on a string table in order always returns, keeps the table in order, and is the update of
  the map: afterwards the key (any pointer to the same characters) has the new value and all
  other keys have theirs, also when the table had to be resized; \<open>size\<close> counts the keys and the
  result tells whether the key was there.
\<close>

theorem hash_set_updates:
  assumes "str_table self" and "h_size self < 2 ^ 28"
  shows "\<exists>r self'. frt_h_set self (PKey x) v = Inr (r, self') \<and> str_table self' \<and>
    (\<forall>z. h_map self' z = (if snd z = snd x then Some v else h_map self z)) \<and>
    h_size self' = h_size self + (if h_map self x = None then 1 else 0) \<and>
    (r = FRT_HASH_KEY_DOES_NOT_EXIST \<longleftrightarrow> h_map self x = None)"
proof -
  have "str_keys.keyed self" using assms(1) by (simp add: str_table_keyed)
  from str_keys.frt_h_set_ok [OF this assms(2), of x v] show ?thesis
    by (auto simp: str_table_keyed str_eq_def)
qed

theorem hash_set_updates_witness:
  "\<exists>r self'. frt_h_set (frt_h_new_str True True) (PKey (5, [98])) (Some (3 :: nat)) = Inr (r, self') \<and>
     str_table self' \<and>
     (\<forall>z. h_map self' z = (if snd z = [98] then Some (Some 3) else None)) \<and> h_size self' = 1 \<and>
     r = FRT_HASH_KEY_DOES_NOT_EXIST"
  using hash_set_updates [of "frt_h_new_str True True" "(5, [98])" "Some (3 :: nat)"]
  by (simp add: str_table_new cong: if_cong)

text \<open>
  C16. Looking a key up finds the value it was last set to, or \<open>NULL\<close> for a key that is not there, and leaves
  the map as it is; the probe sequence always ends.
\<close>

theorem hash_get_looks_up:
  assumes "str_table self"
  shows "\<exists>self'. frt_h_get self (PKey x) = Inr (Option.bind (h_map self x) id, self') \<and> str_table self' \<and>
    h_map self' = h_map self"
  using str_keys.frt_h_get_ok [of self x] assms by (auto simp: str_table_keyed)

theorem hash_get_looks_up_witness:
  "\<exists>self'. frt_h_get (frt_h_new_str True True :: (cstr, nat) frt_hash) (PKey (5, [98])) = Inr (None, self') \<and>
     str_table self' \<and> h_map self' = h_map (frt_h_new_str True True :: (cstr, nat) frt_hash)"
  using hash_get_looks_up [of "frt_h_new_str True True :: (cstr, nat) frt_hash" "(5, [98])"]
  by (simp add: str_table_new)

text \<open>
  C17. Deleting a key removes it and no other: the answer tells whether it was there, its key and value
  are handed to the free functions of the table, once each, and the dummy left behind cuts off no
  other key's probe sequence.
\<close>

theorem hash_del_removes:
  assumes "str_table self"
  shows "\<exists>self'. frt_h_del self (PKey x) = Inr (h_map self x \<noteq> None, self') \<and> str_table self' \<and>
    (\<forall>z. h_map self' z = (if str_eq x z then None else h_map self z)) \<and>
    h_size self' = h_size self - (if h_map self x = None then 0 else 1) \<and>
    (case h_map self x of None \<Rightarrow> h_freed self' = h_freed self
     | Some v \<Rightarrow> \<exists>y. str_eq y x \<and> h_freed self' = h_freed self @
         (if h_free_key_i self then [FreeKey (PKey y)] else []) @ (if h_free_value_i self then [FreeValue v] else []))"
  using str_keys.frt_h_del_ok [of self x] assms unfolding str_table_keyed by blast

theorem hash_del_removes_witness:
  "\<exists>self1 self2. frt_h_set (frt_h_new_str False True) (PKey (5, [98])) (Some (3 :: nat)) =
      Inr (FRT_HASH_KEY_DOES_NOT_EXIST, self1) \<and>
    frt_h_del self1 (PKey (6, [98])) = Inr (True, self2) \<and> h_map self2 (9, [98]) = None"
proof -
  obtain self1 where 1: "frt_h_set (frt_h_new_str False True) (PKey (5, [98])) (Some (3 :: nat)) =
      Inr (FRT_HASH_KEY_DOES_NOT_EXIST, self1)" "str_table self1" "h_map self1 (6, [98]) = Some (Some 3)"
    using str_keys.frt_h_set_ok [of "frt_h_new_str False True" "(5, [98])" "Some (3 :: nat)"]
    by (auto simp: str_table_new str_table_keyed [symmetric] str_eq_def)
  from hash_del_removes [OF 1(2), of "(6, [98])"] obtain self2 where
    "frt_h_del self1 (PKey (6, [98])) = Inr (True, self2)" "h_map self2 (9, [98]) = None"
    using 1(3) by (auto simp: str_eq_def)
  with 1(1) show ?thesis by blast
qed

text \<open>
  C18. Resizing keeps every key with its value, frees nothing, and leaves the table at most two thirds full, so that
  the next probe sequence ends at a free slot.
\<close>

theorem hash_resize_keeps:
  assumes "str_table self" and "2 * h_size self \<le> min_newsize" and "min_newsize \<le> 2 ^ 30"
  shows "\<exists>self'. frt_h_resize self min_newsize = Inr self' \<and> str_table self' \<and> h_map self' = h_map self \<and>
    h_freed self' = h_freed self \<and> h_fill self' = h_size self \<and> h_fill self' * 3 \<le> int (h_mask self') * 2"
  using str_keys.frt_h_resize_ok [of self min_newsize] assms by (auto simp: str_table_keyed)

theorem hash_resize_keeps_witness:
  "\<exists>self'. frt_h_resize (frt_h_new_str True True :: (cstr, nat) frt_hash) 100 = Inr self' \<and> str_table self' \<and>
    h_map self' = h_map (frt_h_new_str True True :: (cstr, nat) frt_hash) \<and> h_fill self' = 0"
  using hash_resize_keeps [of "frt_h_new_str True True :: (cstr, nat) frt_hash" 100] by (auto simp: str_table_new)

text \<open>
  C19. \<open>frt_h_each\<close> calls its function once for every key in the table, with the value of the key, and for
  nothing else.
\<close>

theorem hash_each_visits_all:
  assumes "str_table self"
  shows "\<exists>calls. frt_h_each self = Inr calls \<and> int (length calls) = h_size self \<and>
    (\<forall>x v. h_map self x = Some v \<longleftrightarrow> (\<exists>y. snd y = snd x \<and> (PKey y, v) \<in> set calls))"
  using str_keys.frt_h_each_map [of self] assms by (simp add: str_table_keyed str_eq_def)

theorem hash_each_visits_all_witness:
  "\<exists>calls. frt_h_each (frt_h_new_str True True :: (cstr, nat) frt_hash) = Inr calls \<and> int (length calls) = 0"
  using hash_each_visits_all [of "frt_h_new_str True True :: (cstr, nat) frt_hash"] by (auto simp: str_table_new)

section \<open>The priority queue\<close>

text \<open>
  C15. For any strict weak order, popping a queue in heap order takes out a least element and keeps all others, in heap
  order.
\<close>

theorem pq_pop_takes_least:
  assumes "less_laws lt" and "pq_ok lt pq" and "0 < pq_size pq"
  shows "\<exists>x pq'. frt_pq_pop pq = (Some x, pq') \<and> pq_ok lt pq' \<and> pq_elems pq = add_mset x (pq_elems pq') \<and>
    (\<forall>y \<in># pq_elems pq. \<not> lt y x) \<and> pq_freed pq' = pq_freed pq"
  using less_laws.frt_pq_pop_ok [OF assms] by (metis prod.collapse)

theorem pq_pop_takes_least_witness:
  "\<exists>x pq'. frt_pq_pop (frt_pq_push (frt_pq_push (frt_pq_new 5 (<)) (7 :: nat)) 3) = (Some x, pq') \<and>
     {#3, 7#} = add_mset x (pq_elems pq') \<and> (\<forall>y \<in># {#3, 7#}. \<not> y < x)"
proof -
  have L: "less_laws ((<) :: nat \<Rightarrow> nat \<Rightarrow> bool)" by unfold_locales auto
  note N = less_laws.frt_pq_new_ok [OF L, of 5]
  note P = less_laws.frt_pq_push_ok [OF L conjunct1 [OF N], of 7]
  note Q = less_laws.frt_pq_push_ok [OF L P(1), of 3]
  from pq_pop_takes_least [OF L Q(1)] Q P N show ?thesis by auto
qed

text \<open>
  C14. Inserting into a queue with a bound adds the element while there is room. When the queue is full
  the element takes the place of a least one, which is freed, if it is greater than that, and is freed itself
  otherwise: so the queue always holds the greatest of the elements it was offered.
\<close>

theorem pq_insert_keeps_greatest:
  assumes "less_laws lt" and "pq_ok lt pq"
  shows "case frt_pq_insert pq x of (how, pq') \<Rightarrow>
     pq_ok lt pq' \<and> pq_capa pq' = pq_capa pq \<and>
     (if pq_size pq < pq_capa pq then
        how = FRT_PQ_ADDED \<and> pq_elems pq' = add_mset x (pq_elems pq) \<and> pq_freed pq' = pq_freed pq
      else if \<exists>y \<in># pq_elems pq. lt y x then
        how = FRT_PQ_INSERTED \<and>
        (\<exists>y. y \<in># pq_elems pq \<and> (\<forall>z \<in># pq_elems pq. \<not> lt z y) \<and> lt y x \<and>
             add_mset y (pq_elems pq') = add_mset x (pq_elems pq) \<and> pq_freed pq' = pq_freed pq @ [y])
      else how = FRT_PQ_DROPPED \<and> pq_elems pq' = pq_elems pq \<and> pq_freed pq' = pq_freed pq @ [x])"
  by (rule less_laws.frt_pq_insert_ok [OF assms])

theorem pq_insert_keeps_greatest_witness:
  "case frt_pq_insert (frt_pq_push (frt_pq_new 1 (<)) (3 :: nat)) 2 of (how, pq') \<Rightarrow>
     how = FRT_PQ_DROPPED \<and> pq_elems pq' = {#3#} \<and> pq_freed pq' = [2]"
proof -
  have L: "less_laws ((<) :: nat \<Rightarrow> nat \<Rightarrow> bool)" by unfold_locales auto
  note N = less_laws.frt_pq_new_ok [OF L, of 1]
  note P = less_laws.frt_pq_push_ok [OF L conjunct1 [OF N], of 3]
  from pq_insert_keeps_greatest [OF L P(1), of 2] P N show ?thesis by (auto split: prod.splits)
qed

section \<open>Searching\<close>

text \<open>
  C8. A search without a sort answers with the number of accepted documents, the best score, and the page of hits
  that was asked for: of all accepted documents, ordered by falling score and, for equal scores, rising
  document number, those from \<open>first_doc\<close> on, at most \<open>num_docs\<close>. The queue that only holds
  \<open>first_doc + num_docs\<close> hits gives the page of a sort of all of them.
\<close>

theorem search_returns_page:
  assumes "0 \<le> first_doc" and "0 < num_docs" and "num_docs + first_doc \<le> INT_MAX"
  shows "isea_search_w ir_num_docs scorer bits post_filter first_doc num_docs =
    Inr (answer_of (hits_of ir_num_docs scorer bits post_filter) first_doc num_docs)"
  using assms by (intro isea_search_w_ok) simp_all

theorem search_returns_page_witness:
  "isea_search_w 9 (Some [Hit 1 (2 :: nat), Hit 4 7, Hit 6 7]) None None 1 2 =
    Inr \<lparr>total_hits = 3, td_hits = [Hit 6 7, Hit 1 2], max_score = 7\<rparr>"
proof -
  have "hits_of 9 (Some [Hit 1 (2 :: nat), Hit 4 7, Hit 6 7]) None None = [Hit 1 2, Hit 4 7, Hit 6 7]"
    by (simp add: hits_of_def accept_def map_filter_simps)
  moreover have "sort [Hit 1 (2 :: nat), Hit 4 7, Hit 6 7] = [Hit 1 2, Hit 6 7, Hit 4 7]"
    by (simp add: less_eq_hit_def hit_lt_def)
  ultimately show ?thesis
    using search_returns_page [of 1 2 9 "Some [Hit 1 (2 :: nat), Hit 4 7, Hit 6 7]" None None]
    by (simp add: answer_of_def INT_MAX_def)
qed

text \<open>
  C9. A multi searcher finds what one search over all its indexes would: each index only passes on its best
  hits, and the page of the merged hits is the page of a sort of all hits of all indexes, their
  documents numbered by the start of their index.
\<close>

theorem multi_search_merges:
  assumes "0 \<le> first_doc" and "0 < num_docs" and "num_docs + first_doc \<le> INT_MAX"
  shows "msea_search_w (map (\<lambda>(ix, start). (index_search ix, start)) ixs) first_doc num_docs =
    Inr (answer_of (concat (map (\<lambda>(ix, start). map (shift start) (index_hits ix)) ixs)) first_doc num_docs)"
  using msea.msea_search_w_ok [of first_doc num_docs ixs] assms by (simp add: msea_all_hits)

theorem multi_search_merges_witness:
  "msea_search_w (map (\<lambda>(ix, start). (index_search ix, start))
       [((9, Some [Hit 1 (2 :: nat)], None, None), 0), ((9, Some [Hit 3 5], None, None), 9)]) 0 1 =
    Inr \<lparr>total_hits = 2, td_hits = [Hit 12 5], max_score = 5\<rparr>"
proof -
  have h: "index_hits (9, Some [Hit 1 (2 :: nat)], None, None) = [Hit 1 2]"
    "index_hits (9, Some [Hit 3 (5 :: nat)], None, None) = [Hit 3 5]"
    by (simp_all add: index_hits_def hits_of_def accept_def map_filter_simps)
  have "sort [Hit 1 (2 :: nat), Hit 12 5] = [Hit 1 2, Hit 12 5]"
    by (simp add: less_eq_hit_def hit_lt_def)
  then show ?thesis
    using multi_search_merges [of 0 1 "[((9, Some [Hit 1 (2 :: nat)], None, None), 0), ((9, Some [Hit 3 5], None, None), 9)]"] h
    by (simp add: answer_of_def INT_MAX_def shift_def)
qed

text \<open>
  C28. A document number of a multi searcher is looked up by binary search in the searcher whose range it
  is in, also when some indexes are empty and share their start.
\<close>

theorem multi_search_finds_searcher:
  assumes "ds \<noteq> []" and "\<forall>d \<in> set ds. 0 \<le> d" and "0 \<le> doc" and "doc < sum_list ds"
  shows "case msea_get_doc (msea_starts ds 0) (int (length ds)) doc of (i, n) \<Rightarrow>
    0 \<le> i \<and> nat i < length ds \<and> 0 \<le> n \<and> n < ds ! nat i \<and> msea_starts ds 0 ! nat i + n = doc"
  using msea_get_searcher_index_ok [OF assms] by (simp add: msea_get_doc_def Let_def)

theorem multi_search_finds_searcher_witness:
  "case msea_get_doc (msea_starts [3, 0, 4] 0) (int (length [3, 0, 4 :: int])) 5 of (i, n) \<Rightarrow>
    0 \<le> i \<and> nat i < length [3, 0, 4 :: int] \<and> 0 \<le> n \<and> n < [3, 0, 4] ! nat i \<and>
    msea_starts [3, 0, 4] 0 ! nat i + n = 5"
  by (rule multi_search_finds_searcher) simp_all

text \<open>
  C29. An unscored search over several indexes fills the buffer with the first \<open>limit\<close> matching documents
  from \<open>offset_docnum\<close> on, numbered by the starts of the indexes, and never writes past it.
\<close>

theorem multi_search_unscored_fills:
  assumes "\<forall>x \<in> set dss. in_range x" and "0 < limit"
  shows "msea_search_unscored_w (map unscored_of dss) limit offset_docnum =
    take (nat limit) (filter (\<lambda>d. offset_docnum \<le> d) (numbered dss))"
  using msea_unscored_loop_ok [OF assms(1), of "[]" limit offset_docnum] assms(2)
  by (simp add: msea_search_unscored_w_def)

theorem multi_search_unscored_fills_witness:
  "msea_search_unscored_w (map unscored_of [([1, 2], 0, 4), ([0, 3], 4, 9)]) 2 2 =
    take (nat 2) (filter (\<lambda>d. 2 \<le> d) (numbered [([1, 2], 0, 4), ([0, 3], 4, 9)]))"
  by (rule multi_search_unscored_fills) (simp_all add: in_range_def)

text \<open>
  C30. A search for no documents or from a negative position raises \<open>FRT_ARG_ERROR\<close>, in an index and in a
  multi searcher.
\<close>

theorem search_checks_arguments:
  assumes "num_docs \<le> 0 \<or> first_doc < 0" and "- INT_MAX - 1 \<le> num_docs + first_doc" and "num_docs + first_doc \<le> INT_MAX"
  shows "isea_search_w ir_num_docs scorer bits post_filter first_doc num_docs = Inl FRT_ARG_ERROR \<and>
    msea_search_w ss first_doc num_docs = Inl FRT_ARG_ERROR"
  using sea_args_error [OF assms] by blast

theorem search_checks_arguments_witness:
  "isea_search_w 9 (Some [Hit 1 (2 :: nat)]) None None (- 1) 10 = Inl FRT_ARG_ERROR \<and>
    msea_search_w ([] :: ((int \<Rightarrow> int \<Rightarrow> nat top_docs res) \<times> int) list) (- 1) 10 = Inl FRT_ARG_ERROR"
  by (rule search_checks_arguments) (simp_all add: INT_MAX_def)

section \<open>Bit vectors\<close>





text \<open>
  C31. A vector whose last word is full is read behind its array by the scan for the bit after the last one:
  \<open>frt_bv_scan_next_from\<close> reads the word of its start before it compares the start with the size.
\<close>

theorem bitvector_scan_reads_past_end:
  assumes "bv_size bv = 32 * bv_capa bv"
  shows "frt_bv_scan_next_from bv (bv_size bv) = Inl UndefinedBehaviour"
  using assms by (simp add: frt_bv_scan_next_from_def Let_def)

theorem bitvector_scan_reads_past_end_witness:
  "frt_bv_scan_next ((frt_bv_set frt_bv_new 255)\<lparr>bv_curr_bit := 255\<rparr>) = Inl UndefinedBehaviour"
proof -
  have "bv_size (frt_bv_set frt_bv_new 255) = 256" "bv_capa (frt_bv_set frt_bv_new 255) = 8"
    by code_simp+
  then show ?thesis
    using bitvector_scan_reads_past_end [of "(frt_bv_set frt_bv_new 255)\<lparr>bv_curr_bit := 255\<rparr>"]
    by (simp add: frt_bv_scan_next_def)
qed



text \<open>
  C26. Two vectors compare equal exactly when they stand for the same set of positions, whatever their sizes
  and capacities, and then they have the same hash.
\<close>

theorem bitvector_eq_hash:
  assumes "bv_wf bv1" and "bv_wf bv2"
  shows "(frt_bv_eq False bv1 bv2 \<longleftrightarrow> frt_bv_get bv1 = frt_bv_get bv2) \<and>
    (frt_bv_eq False bv1 bv2 \<longrightarrow> frt_bv_hash bv1 = frt_bv_hash bv2)"
  using frt_bv_eq_ok [OF assms] frt_bv_hash_eq [OF assms] by blast

theorem bitvector_eq_hash_witness:
  "frt_bv_get frt_bv_new = frt_bv_get (frt_bv_new_capa 1000) \<and> frt_bv_hash frt_bv_new = frt_bv_hash (frt_bv_new_capa 1000)"
proof -
  have "frt_bv_eq False frt_bv_new (frt_bv_new_capa 1000)"
    by (simp add: frt_bv_eq_def frt_bv_new_def frt_bv_new_capa_def FRT_TO_WORD_def)
  with bitvector_eq_hash [of frt_bv_new "frt_bv_new_capa 1000"] show ?thesis
    by (simp add: frt_bv_new_def bv_ok_wf frt_bv_new_capa_ok)
qed

text \<open>
  C13. And, or and xor of two vectors of any sizes, with or without extension, give a fresh vector that holds at
  every position, also behind the sizes of both, the operator applied to the operands; the operands stay
  as they are. The count of a result that does not extend as ones is right.
\<close>

theorem bitvector_operations:
  assumes "r \<noteq> a" and "r \<noteq> b" and "bv_wf (h a)" and "bv_wf (h b)"
  shows "(\<exists>R. frt_bv_and junk h r a b = Inr (h(r := R)) \<and> bv_result (\<and>) (h a) (h b) R) \<and>
    (\<exists>R. frt_bv_or junk h r a b = Inr (h(r := R)) \<and> bv_result (\<or>) (h a) (h b) R) \<and>
    (\<exists>R. frt_bv_xor junk h r a b = Inr (h(r := R)) \<and> bv_result (\<noteq>) (h a) (h b) R)"
  using frt_bv_ops_fresh [where junk = junk, OF assms] by blast

theorem bitvector_operations_witness:
  "(\<exists>R. frt_bv_and [] (\<lambda>_. frt_bv_new) 2 0 1 = Inr ((\<lambda>_. frt_bv_new)(2 := R)) \<and> bv_result (\<and>) frt_bv_new frt_bv_new R) \<and>
    (\<exists>R. frt_bv_or [] (\<lambda>_. frt_bv_new) 2 0 1 = Inr ((\<lambda>_. frt_bv_new)(2 := R)) \<and> bv_result (\<or>) frt_bv_new frt_bv_new R) \<and>
    (\<exists>R. frt_bv_xor [] (\<lambda>_. frt_bv_new) 2 0 1 = Inr ((\<lambda>_. frt_bv_new)(2 := R)) \<and> bv_result (\<noteq>) frt_bv_new frt_bv_new R)"
  by (rule bitvector_operations) (simp_all add: frt_bv_new_def bv_ok_wf frt_bv_new_capa_ok)

text \<open>
  C27. The complement of a vector, into a fresh one or in place, holds at every position what the vector does
  not, with the words behind its size set for later growth and its count right.
\<close>

theorem bitvector_complement:
  assumes "bv_wf (h a)"
  shows "\<exists>R. frt_bv_not_i junk h r a = Inr (h(r := R)) \<and> bv_ok R \<and> bv_size R = bv_size (h a) \<and>
    (\<forall>i. frt_bv_get R i = (\<not> frt_bv_get (h a) i)) \<and> bv_count R = int (card {i. frt_bv_get R i \<noteq> extends_as_ones R})"
  using frt_bv_not_i_ok [where h = h and a = a and junk = junk and r = r, OF assms] by (simp add: bv_diff_def)

theorem bitvector_complement_witness:
  "\<exists>R. frt_bv_not_i [] (\<lambda>_. frt_bv_new) 0 0 = Inr ((\<lambda>_. frt_bv_new)(0 := R)) \<and> bv_ok R \<and> bv_size R = bv_size frt_bv_new \<and>
    (\<forall>i. frt_bv_get R i = (\<not> frt_bv_get frt_bv_new i)) \<and> bv_count R = int (card {i. frt_bv_get R i \<noteq> extends_as_ones R})"
  by (rule bitvector_complement) (simp add: frt_bv_new_def bv_ok_wf frt_bv_new_capa_ok)


section \<open>Hash sets, integer keys, arrays, memory pool, norms\<close>

text \<open>
  C33. A hash set of strings keeps its elements in the order they were added: adding appends an element that is not
  there and leaves the set alone otherwise, removing takes out the one equal element, wherever in the list it
  is, and merging adds the elements of the other set in their order. The links of the list stay in order.
\<close>

theorem hashset_keeps_order:
  assumes "str_set self xs" and "str_set other ys" and "length xs + length ys < 2 ^ 28"
  shows "(\<exists>r self'. frt_hs_add self x = Inr (r, self') \<and> str_set self' (str_add xs x)) \<and>
    (\<exists>self'. frt_hs_rem self x = Inr (find (\<lambda>y. str_eq y x) xs, self') \<and>
      str_set self' (filter (\<lambda>y. \<not> str_eq y x) xs)) \<and>
    (\<exists>self'. frt_hs_merge self other = Inr self' \<and> str_set self' (foldl str_add xs ys))"
  using str_set_add [OF assms(1)] str_set_rem [OF assms(1)] str_set_merge [OF assms] assms(3) by simp

theorem hashset_keeps_order_witness:
  "(\<exists>r self'. frt_hs_add (frt_hs_new_str True) (3, [97]) = Inr (r, self') \<and> str_set self' [(3, [97])]) \<and>
    (\<exists>self'. frt_hs_rem (frt_hs_new_str True) (3, [97]) = Inr (None, self') \<and> str_set self' []) \<and>
    (\<exists>self'. frt_hs_merge (frt_hs_new_str True) (frt_hs_new_str False) = Inr self' \<and> str_set self' [])"
  using hashset_keeps_order [where x = "(3, [97])", OF frt_hs_new_str_ok [of True] frt_hs_new_str_ok [of False]]
  by (simp add: str_add_def)



text \<open>
  C35. The growing arrays are lists: getting and setting with negative positions counted from the end, pushing and
  popping at both ends and removing answer as on the list, and the cells behind it stay NULL. The exception is
  \<open>frt_ary_remove_i\<close> on an array with a single free cell: it reads the cell behind the block.
\<close>

theorem array_refines_list:
  assumes "ary_ok a"
  shows "if \<exists>i. op = AryRemove i \<and> 0 \<le> i \<and> i < int (ary_size a) \<and> ary_capa a = ary_size a + 1
    then ary_exec op a = Inl UndefinedBehaviour
    else ary_does (ary_exec op a) (list_exec op (ary_list a))"
proof (cases op)
  case (AryRemove i)
  with ary_remove_ok [OF assms, of i] show ?thesis by simp
qed (use ary_exec_refines [OF assms, of op] in simp_all)

theorem array_refines_list_witness:
  "ary_exec (AryRemove 0) (frt_ary_push_i (frt_ary_new_i 2) (Some (5 :: nat))) = Inl UndefinedBehaviour \<and>
   ary_does (ary_exec AryPop (frt_ary_push_i (frt_ary_new_i 2) (Some (5 :: nat))))
     (list_exec AryPop (ary_list (frt_ary_push_i (frt_ary_new_i 2) (Some 5))))"
proof -
  let ?a = "frt_ary_push_i (frt_ary_new_i 2) (Some (5 :: nat))"
  have a: "?a = \<lparr>ary_cells = [Some 5, None], ary_size = 1\<rparr>"
    by (simp add: frt_ary_push_i_def frt_ary_new_i_def frt_ary_resize_i_def Let_def numeral_2_eq_2)
  have ok: "ary_ok ?a" unfolding a by (auto simp: ary_ok_def nth_Cons split: nat.splits)
  show ?thesis using array_refines_list [OF ok, of "AryRemove 0"] array_refines_list [OF ok, of AryPop]
    by (simp add: a)
qed

text \<open>
  C36. What a memory pool hands out stays: strings copied into it are all readable where they were put, whatever
  came after, and older pieces keep their bytes, also when new chunks are begun. A piece that is larger than a
  chunk is written over the end of the chunk it gets.
\<close>

theorem pool_keeps_strings:
  assumes "mp_ok mp" and "length junk = mp_chunk_size mp" and "\<forall>s \<in> set ss. length s < mp_chunk_size mp"
    and "mp_chunk_size mp < length large"
  shows "(\<exists>ps mp'. mp_strdups junk mp ss = Inr (ps, mp') \<and> mp_ok mp' \<and> length ps = length ss \<and>
      (\<forall>i < length ss. mp_read mp' (ps ! i) (length (ss ! i) + 1) = ss ! i @ [0]) \<and>
      (\<forall>q n. mp_old mp q n \<longrightarrow> mp_read mp' q n = mp_read mp q n)) \<and>
    frt_mp_memdup junk mp large = Inl UndefinedBehaviour"
  using mp_strdups_ok [OF assms(1,3,2)] frt_mp_memdup_large [OF assms(1,2,4)] by blast

theorem pool_keeps_strings_witness:
  "(\<exists>p q mp'. mp_strdups (replicate 4 0) (frt_mp_new_capa (replicate 4 0) 4 4) [[104, 105], [97, 98, 99]] = Inr ([p, q], mp') \<and>
     mp_read mp' p 3 = [104, 105, 0] \<and> mp_read mp' q 4 = [97, 98, 99, 0]) \<and>
   frt_mp_memdup (replicate 4 0) (frt_mp_new_capa (replicate 4 0) 4 4) [1, 2, 3, 4, 5] = Inl UndefinedBehaviour"
proof -
  let ?ss = "[[104, 105], [97, 98, 99]] :: byte list list"
  have "mp_ok (frt_mp_new_capa (replicate 4 0) 4 4)" by (rule mp_new_ok) simp
  moreover have "mp_chunk_size (frt_mp_new_capa (replicate 4 0) 4 4) = 4" by (simp add: frt_mp_new_capa_def)
  ultimately obtain ps mp' where r: "mp_strdups (replicate 4 0) (frt_mp_new_capa (replicate 4 0) 4 4) ?ss = Inr (ps, mp')"
    "length ps = length ?ss" "\<forall>i < length ?ss. mp_read mp' (ps ! i) (length (?ss ! i) + 1) = ?ss ! i @ [0]"
    "frt_mp_memdup (replicate 4 0) (frt_mp_new_capa (replicate 4 0) 4 4) [1, 2, 3, 4, 5] = Inl UndefinedBehaviour"
    using pool_keeps_strings [of "frt_mp_new_capa (replicate 4 0) 4 4" "replicate 4 0" ?ss "[1, 2, 3, 4, 5]"]
    by (auto simp del: mp_strdups.simps)
  then obtain p q where ps: "ps = [p, q]" by (auto simp: length_Suc_conv)
  have "mp_read mp' p 3 = [104, 105, 0]" "mp_read mp' q 4 = [97, 98, 99, 0]"
    using r(3) [rule_format, of 0] r(3) [rule_format, of 1] by (simp_all add: ps numeral_eq_Suc)
  with r(1,4) show ?thesis unfolding ps by blast
qed

text \<open>
  C37. Every byte is the byte of its own float: what a norm was stored as is what it is stored as again. Floats
  within the range of the bytes are cut down to the next lower one, but for the gap below the least:
  there a float becomes 1 while larger ones become 0.
\<close>

theorem float_byte_round_trip:
  assumes "384 * 2 ^ 21 < uint f" and "uint f < 640 * 2 ^ 21" and "frt_float2byte f \<noteq> 0"
  shows "frt_float2byte (frt_byte2float b) = b \<and>
    uint (frt_byte2float (frt_float2byte f)) \<le> uint f \<and> uint f < uint (frt_byte2float (frt_float2byte f)) + 2 ^ 21 \<and>
    frt_float2byte 0x2FFFFFFF = 1 \<and> frt_float2byte 0x30000000 = 0"
  using float2byte_byte2float [of b] float2byte_floor [OF assms] float2byte_dips by blast

theorem float_byte_round_trip_witness:
  "frt_float2byte (frt_byte2float 124) = 124 \<and> uint (frt_byte2float (frt_float2byte 0x3F812345)) \<le> 0x3F812345 \<and>
   0x3F812345 < uint (frt_byte2float (frt_float2byte 0x3F812345)) + 2 ^ 21"
proof -
  have "uint (frt_float2byte 0x3F812345) = 124" by (subst uint_float2byte [OF refl]) simp_all
  then have "frt_float2byte 0x3F812345 \<noteq> 0" by auto
  with float_byte_round_trip [of "0x3F812345" 124] show ?thesis by simp
qed

section \<open>The files of an index\<close>

lemma stored_indexed_fields:
  shows "fi_check_params 5 = Inr ()" and "\<exists>fis. frt_fis_new 5 = Inr fis \<and> fis_ok fis \<and> fis_fields fis = [] \<and> fis_bits fis = 5"
proof -
  show c: "fi_check_params 5 = Inr ()"
    by (simp add: fi_check_params_def bits_is_indexed_def bits_store_term_vector_def bits_is_compressed_def bits_is_stored_def
        FRT_FI_IS_INDEXED_BM_def FRT_FI_STORE_TERM_VECTOR_BM_def FRT_FI_IS_COMPRESSED_BM_def FRT_FI_IS_STORED_BM_def)
  show "\<exists>fis. frt_fis_new 5 = Inr fis \<and> fis_ok fis \<and> fis_fields fis = [] \<and> fis_bits fis = 5" by (rule frt_fis_new_ok [OF c])
qed

text \<open>
  C3. \<open>frt_sis_write\<close> writes the segments of an index with their fields to a new \<open>segments_N\<close> file of a RAM store,
  one generation and one version on, and \<open>frt_sis_read\<close> finds that file among the others and gives the segments
  back: flags, norms, fields and numbers are those that were written. Others may work on the store during the search.
\<close>

theorem segments_file_round_trip:
  assumes "ram_ok store w" and "h_size (dir_ht store) < 2 ^ 28 - 1" and "sis_ok rb_id2name rb_intern sis"
    and "case deleter of None \<Rightarrow> True | Some dlr \<Rightarrow> \<exists>xs. str_set (dlr_pending dlr) xs"
    and "- 1 \<le> sis_generation sis" and "sis_generation sis + 1 < 2 ^ 63"
    and "\<forall>n g. ram_dir store w n \<noteq> None \<longrightarrow> seg_gen_of n = Some g \<longrightarrow> g \<le> sis_generation sis"
  shows "\<exists>sis' store' deleter' w' sis'' s'. frt_sis_write rb_id2name sis store deleter w = Inr (sis', store', deleter', w') \<and>
    sis' = sis\<lparr>sis_generation := sis_generation sis + 1, sis_version := sis_version sis + 1\<rparr> \<and>
    frt_sis_read f rb_intern (store', w') = Some (Inr (sis'', s')) \<and> sis_as_read sis' sis'' \<and> sis_generation sis'' = sis_generation sis'"
  using sis_write_read [where f = f, OF assms(1-4) refl assms(5-7)] by blast

theorem segments_file_round_trip_witness:
  "\<exists>fis0 fi fis sis' store' deleter' w' sis'' s'. frt_fis_new 5 = Inr fis0 \<and> frt_fis_get_or_add_field fis0 7 = Inr (fi, fis) \<and>
    frt_sis_write (\<lambda>_. [97]) (frt_sis_add_si (frt_sis_new fis 1000) (frt_si_new [95, 48] 3)) frt_open_ram_store
      (Some frt_deleter_new) empty_heap = Inr (sis', store', deleter', w') \<and>
    frt_sis_read (\<lambda>s. s) (\<lambda>_. 7) (store', w') = Some (Inr (sis'', s')) \<and> sis_as_read sis' sis'' \<and> sis_generation sis'' = 0"
proof -
  note c = stored_indexed_fields(1)
  obtain fis0 where 0: "frt_fis_new 5 = Inr fis0" "fis_ok fis0" "fis_fields fis0 = []" "fis_bits fis0 = 5"
    using stored_indexed_fields(2) by blast
  have "fi_check_params (fis_bits fis0) = Inr ()" "fis_size fis0 < 2 ^ 28" using c 0 by simp_all
  from frt_fis_get_or_add_field_ok [OF 0(2) this, of 7] obtain fi fis where
    1: "frt_fis_get_or_add_field fis0 7 = Inr (fi, fis)" "fis_ok fis" "fis_fields fis = [fi]" "fi_name fi = 7" "fis_bits fis = 5"
    by (auto simp: 0)
  let ?sis = "frt_sis_add_si (frt_sis_new fis 1000) (frt_si_new [95, 48] 3)"
  have "fis_ok (fis\<lparr>fis_ref_cnt := n\<rparr>)" for n using 1(2) by (simp add: fis_ok_def)
  then have ok: "sis_ok (\<lambda>_. [97]) (\<lambda>_. 7) ?sis"
    by (simp add: sis_ok_def frt_sis_new_def frt_sis_add_si_def Let_def si_ok_def frt_si_new_def i32_ok_def names_ok_def 1 c)
  have g: "sis_generation ?sis = - 1" by (simp add: frt_sis_new_def frt_sis_add_si_def Let_def)
  have d: "\<exists>xs. str_set (dlr_pending frt_deleter_new) xs" using frt_hs_new_str_ok [of True] by (auto simp: frt_deleter_new_def)
  have "\<exists>sis' store' deleter' w' sis'' s'. frt_sis_write (\<lambda>_. [97]) ?sis frt_open_ram_store (Some frt_deleter_new) empty_heap =
      Inr (sis', store', deleter', w') \<and>
    sis' = ?sis\<lparr>sis_generation := sis_generation ?sis + 1, sis_version := sis_version ?sis + 1\<rparr> \<and>
    frt_sis_read (\<lambda>s. s) (\<lambda>_. 7) (store', w') = Some (Inr (sis'', s')) \<and> sis_as_read sis' sis'' \<and> sis_generation sis'' = sis_generation sis'"
    by (rule segments_file_round_trip [OF ram_open_ok(1) [OF heap_ok_empty] _ ok])
      (use d g ram_open_ok(2) [OF heap_ok_empty] in \<open>simp_all add: frt_open_ram_store_def str_table_new\<close>)
  with 0(1) 1(1) g show ?thesis by auto
qed



text \<open>
  C4. Deleting the deletable files of a RAM store never removes a file that a current segment is read from (its data, its
  deletions and its norms) unless that file was queued before; and it does remove the queued files and every listed
  index file that no current segment refers to, leaving all others as they are and nothing queued.
\<close>

theorem deleter_keeps_live_files:
  assumes S: "ram_ok store w" and p: "str_set (dlr_pending dlr) xs"
    and segs: "distinct (map si_name (sis_segs sis))" "sis_size sis < 2 ^ 28" "\<forall>si \<in> set (sis_segs sis). seg_name_ok si"
    and small: "int (length xs) + h_size (dir_ht store) < 2 ^ 28"
    and cur: "newest_segments_file (ram_dir store w) cur"
    and known: "\<forall>n. ram_dir store w n \<noteq> None \<longrightarrow> orphan (sis_segs sis) cur n = Inr (P n)"
  shows "\<exists>dlr' store' w'. deleter_delete_deletable_files dlr sis store w = Inr (dlr', store', w') \<and> ram_ok store' w' \<and>
    str_set (dlr_pending dlr') [] \<and>
    (\<forall>n. ram_dir store' w' n = (if n \<in> snd ` set xs \<or> take (length FRT_LOCK_PREFIX) n \<noteq> FRT_LOCK_PREFIX \<and> ram_dir store w n \<noteq> None \<and> P n
       then None else ram_dir store w n)) \<and>
    (\<forall>si \<in> set (sis_segs sis). \<forall>n \<in> live_files si. n \<notin> snd ` set xs \<longrightarrow> ram_dir store' w' n = ram_dir store w n)"
proof -
  from ram_each_ok [OF S] obtain names where names: "ram_each store w = Inr names" by metis
  have len: "length xs + length names < 2 ^ 28" using ram_each_length [OF S names] small by simp
  from deleter_delete_ok [OF S p segs(1,2) names len cur known] obtain dlr' store' w' where
    1: "deleter_delete_deletable_files dlr sis store w = Inr (dlr', store', w')" "ram_ok store' w'" "str_set (dlr_pending dlr') []"
      "\<forall>n. ram_dir store' w' n = (if n \<in> snd ` set xs \<or> take (length FRT_LOCK_PREFIX) n \<noteq> FRT_LOCK_PREFIX \<and> ram_dir store w n \<noteq> None \<and> P n
         then None else ram_dir store w n)" by blast
  have "\<not> (ram_dir store w n \<noteq> None \<and> P n)" if "si \<in> set (sis_segs sis)" "n \<in> live_files si" for si n
    using live_not_orphan [OF segs(1,2) that(1) _ that(2), of cur] segs(3) known that(1) by auto
  then have "\<forall>si \<in> set (sis_segs sis). \<forall>n \<in> live_files si. n \<notin> snd ` set xs \<longrightarrow> ram_dir store' w' n = ram_dir store w n"
    unfolding 1(4) [rule_format] by (metis (no_types))
  with 1 show ?thesis by (intro exI conjI)
qed

text \<open>A store with a file of segment \<open>_0\<close>, which is current, and one of \<open>_1\<close>, which is not.\<close>

theorem deleter_keeps_live_files_witness:
  "\<exists>fis store w dlr' store' w'. frt_fis_new 5 = Inr fis \<and> ram_dir store w = [str ''_0.fdt'' \<mapsto> [], str ''_1.fdt'' \<mapsto> []] \<and>
    deleter_delete_deletable_files frt_deleter_new (frt_sis_add_si (frt_sis_new fis 1000) (frt_si_new (str ''_0'') 3)) store w = Inr (dlr', store', w') \<and>
    ram_dir store' w' (str ''_0.fdt'') = Some [] \<and> ram_dir store' w' (str ''_1.fdt'') = None"
proof -
  obtain fis where fis: "frt_fis_new 5 = Inr fis" using stored_indexed_fields(2) by blast
  let ?si = "frt_si_new (str ''_0'') 3"
  let ?sis = "frt_sis_add_si (frt_sis_new fis 1000) ?si"
  have segs: "sis_segs (frt_sis_new fis 1000) = []" "sis_segs ?sis = [?si]" "si_name ?si = str ''_0''" "si_norm_gens ?si = []" "\<not> si_use_compound_file ?si"
    by (simp_all add: frt_sis_new_def frt_sis_add_si_def Let_def frt_si_new_def)
  have small: "h_size (dir_ht frt_open_ram_store) < 2 ^ 28" by (simp add: frt_open_ram_store_def str_table_new)
  note new = ram_open_ok [OF heap_ok_empty]
  obtain store1 w1 where 1: "ram_ok store1 w1" "ram_dir store1 w1 = [str ''_0.fdt'' \<mapsto> []]" "h_size (dir_ht store1) \<le> 1"
    using save_file_ok [OF new(1) small ram_out.writes_Inr, of "(0, str ''_0.fdt'')"] new(2)
    by (auto simp: frt_open_ram_store_def str_table_new fun_eq_iff)
  then have small1: "h_size (dir_ht store1) < 2 ^ 28" by simp
  obtain store w where 2: "ram_ok store w" "ram_dir store w = [str ''_0.fdt'' \<mapsto> [], str ''_1.fdt'' \<mapsto> []]" "h_size (dir_ht store) \<le> 2"
    using save_file_ok [OF 1(1) small1 ram_out.writes_Inr, of "(0, str ''_1.fdt'')"] 1(2,3) by auto
  let ?cur = "segfn (- 1)"
  have "seg_gen_of (str ''_0.fdt'') = None" "seg_gen_of (str ''_1.fdt'') = None" by (simp_all add: seg_gen_of_def)
  then have "{g. \<exists>n. take (length FRT_LOCK_PREFIX) n \<noteq> FRT_LOCK_PREFIX \<and> ram_dir store w n \<noteq> None \<and> seg_gen_of n = Some g} = {}"
    unfolding 2(2) by (auto split: if_splits)
  then have cur: "newest_segments_file (ram_dir store w) ?cur"
    by (simp only: newest_segments_file_def dir_gen_def segfn_for_generation_word Max_singleton insert_is_Un [symmetric])
  have ok: "seg_name_ok ?si" unfolding seg_name_ok_def segs
    by (intro conjI exI [of _ 0]) (simp_all add: digits36.simps digit36_def BASE36_DIGITMAP_def)
  have "str ''_0.fdt'' \<in> live_files ?si" by (simp add: live_files_def frt_si_new_def COMPOUND_EXTENSIONS_def)
  from live_not_orphan [OF _ _ _ ok this, of "sis_segs ?sis" ?cur]
  have live: "orphan (sis_segs ?sis) ?cur (str ''_0.fdt'') = Inr False" by (simp add: segs)
  have "str ''_1.fdt'' \<noteq> ?cur" by (simp add: segfn_def)
  then have gone: "orphan (sis_segs ?sis) ?cur (str ''_1.fdt'') = Inr True"
    by (simp add: orphan_def is_index_name_def INDEX_EXTENSIONS_def SEGMENTS_GEN_FILE_NAME_def segment_of_file_def
        FRT_SEGMENT_NAME_MAX_LENGTH_def segs(1) frt_si_new_def)
  have p: "str_set (dlr_pending frt_deleter_new) []" using frt_hs_new_str_ok [of True] by (simp add: frt_deleter_new_def)
  have "\<exists>dlr' store' w'. deleter_delete_deletable_files frt_deleter_new ?sis store w = Inr (dlr', store', w') \<and> ram_ok store' w' \<and>
    str_set (dlr_pending dlr') [] \<and>
    (\<forall>n. ram_dir store' w' n = (if n \<in> snd ` set ([] :: cstr list) \<or> take (length FRT_LOCK_PREFIX) n \<noteq> FRT_LOCK_PREFIX \<and> ram_dir store w n \<noteq> None \<and>
       n = str ''_1.fdt'' then None else ram_dir store w n)) \<and>
    (\<forall>si \<in> set (sis_segs ?sis). \<forall>n \<in> live_files si. n \<notin> snd ` set ([] :: cstr list) \<longrightarrow> ram_dir store' w' n = ram_dir store w n)"
  proof (rule deleter_keeps_live_files [where P = "\<lambda>n. n = str ''_1.fdt''", OF 2(1) p _ _ _ _ cur])
    show "\<forall>n. ram_dir store w n \<noteq> None \<longrightarrow> orphan (sis_segs ?sis) ?cur n = Inr (n = str ''_1.fdt'')"
      unfolding 2(2) using live gone by (auto simp del: frt_sis_add_si_segs split: if_splits)
  qed (use ok 2(3) in \<open>simp_all add: segs(1)\<close>)
  then obtain dlr' store' w' where 3: "deleter_delete_deletable_files frt_deleter_new ?sis store w = Inr (dlr', store', w')"
    "\<forall>n. ram_dir store' w' n = (if n \<in> snd ` set ([] :: cstr list) \<or> take (length FRT_LOCK_PREFIX) n \<noteq> FRT_LOCK_PREFIX \<and> ram_dir store w n \<noteq> None \<and>
       n = str ''_1.fdt'' then None else ram_dir store w n)" by blast
  have "ram_dir store' w' (str ''_0.fdt'') = Some []" "ram_dir store' w' (str ''_1.fdt'') = None"
    by (simp_all add: 3(2) 2(2) FRT_LOCK_PREFIX_def)
  with fis 2(2) 3(1) show ?thesis by blast
qed



text \<open>
  C38. The name of a segments file tells its generation: for every \<open>frt_u64\<close> the name is written without an error, it
  is an index file, and the listing of a directory with that name and any others reports at least its generation;
  different generations have different names.
\<close>

theorem segments_file_name_round_trip:
  "\<exists>n. segfn_for_generation g = Inr n \<and> (\<forall>m. which_gen_i n m = max (sint g) m) \<and>
     (\<forall>names. n \<in> set names \<longrightarrow> sint g \<le> frt_sis_current_segment_generation names) \<and>
     (\<forall>ht. file_name_filter_init = Inr ht \<longrightarrow> frt_file_name_filter_is_index_file ht n False = Inr True) \<and>
     (\<forall>h. segfn_for_generation h = Inr n \<longrightarrow> h = g)"
proof -
  let ?n = "str ''segments_'' @ digits36 (unat g)"
  have "46 \<notin> set ?n" using digits36_chars by auto
  then have "strrchr 46 ?n = None" by (rule strrchr_None [THEN iffD2])
  then have "is_index_name ?n" by (simp add: is_index_name_def FRT_SEGMENTS_FILE_NAME_def)
  then show ?thesis
    by (intro exI [of _ ?n] conjI allI impI)
      (auto simp: segfn_ok which_gen_i_eq seg_gen_of_segfn is_index_file_ok current_generation_le [OF _ seg_gen_of_segfn] digits36_inj
        simp del: str_simps)
qed

theorem segments_file_name_round_trip_witness:
  "\<exists>n. segfn_for_generation 37 = Inr n \<and> which_gen_i n 5 = 37 \<and> 37 \<le> frt_sis_current_segment_generation [n, str ''segments_2'']"
proof -
  obtain n where n: "segfn_for_generation 37 = Inr n" "\<forall>m. which_gen_i n m = max (sint (37 :: u64)) m"
    "\<forall>names. n \<in> set names \<longrightarrow> sint (37 :: u64) \<le> frt_sis_current_segment_generation names"
    using segments_file_name_round_trip [of 37] by blast
  have "sint (37 :: u64) = 37" by simp
  with n show ?thesis by (intro exI [of _ n]) (simp del: str_simps)
qed



text \<open>
  C5. \<open>iw_commit_compound_file\<close> packs the files of a segment into its compound file, queues them for the deleter and changes
  no other file. \<open>frt_open_cmpd_store\<close> on the compound file then has exactly the packed files, of their lengths, and
  each of them is read back whole through a compound stream.
\<close>

theorem compound_segment_round_trip:
  assumes S: "ram_ok store w" and small: "h_size (dir_ht store) < 2 ^ 28" and nm: "length (si_name si) + 5 \<le> FRT_SEGMENT_NAME_MAX_LENGTH"
    and norms: "norm_files fis si (fis_size fis) = Inr norms" and ns: "ns = compound_files si norms"
    and new: "ram_dir store w (si_name si @ str ''.cfs'') = None" and d: "distinct ns" and len: "length ns < 2 ^ 28"
    and D: "\<forall>n \<in> set ns. ram_dir store w n = Some (D n) \<and> length n < 2 ^ 31" and size: "length (compound_bytes D ns) < 2 ^ 63"
    and dlr: "dlr_ok dlr Q (length ns)"
  shows "\<exists>dlr' store' w'. iw_commit_compound_file store fis si dlr w = Inr (dlr', store', w') \<and> dlr_ok dlr' (Q \<union> set ns) 0 \<and>
    (\<forall>n. n \<noteq> si_name si @ str ''.cfs'' \<longrightarrow> ram_dir store' w' n = ram_dir store w n) \<and>
    (\<exists>cs ss store'' w''. frt_open_cmpd_store store' (0, si_name si @ str ''.cfs'') w' = Inr (cs, ss, store'', w'') \<and>
      cmpd_count cs = int (length ns) \<and>
      (\<forall>x. \<exists>cs'. cmpd_exists cs x = Inr (snd x \<in> set ns, cs')) \<and>
      (\<forall>x. \<exists>cs'. cmpd_length cs x = Inr (if snd x \<in> set ns then int (length (D (snd x))) else 0, cs')) \<and>
      (\<forall>x. snd x \<notin> set ns \<longrightarrow> cmpd_open_input cs ss x = Inl FRT_IO_ERROR) \<and>
      (\<forall>x. snd x \<in> set ns \<longrightarrow> (\<exists>is cs' ss' is'. cmpd_open_input cs ss x = Inr (is, cs', ss') \<and>
        frt_is_read_bytes (CMPD_IN_STREAM_METHODS (RAM_IN_STREAM_METHODS w'') (ss_stream ss')) is (length (D (snd x))) = Inr (D (snd x), is'))))"
proof -
  have D': "\<forall>n \<in> set ns. ram_dir store w n = Some (D n) \<and> length n < 2 ^ 32" using D by force
  from iw_commit_compound_file_ok [OF S small nm norms ns new d len D' dlr] obtain dlr' store' w' where
    1: "iw_commit_compound_file store fis si dlr w = Inr (dlr', store', w')" "ram_ok store' w'"
      "ram_dir store' w' = (ram_dir store w)(si_name si @ str ''.cfs'' \<mapsto> compound_bytes D ns)" "dlr_ok dlr' (Q \<union> set ns) 0" by blast
  have f: "ram_dir store' w' (snd (0 :: nat, si_name si @ str ''.cfs'')) = Some (compound_bytes D ns)" by (simp only: 1(3) snd_conv fun_upd_same)
  have "\<forall>n \<in> set ns. length n < 2 ^ 31" using D by simp
  from frt_open_cmpd_store_ok [OF 1(2) f d len this size] obtain cs ss store'' w'' where
    2: "frt_open_cmpd_store store' (0, si_name si @ str ''.cfs'') w' = Inr (cs, ss, store'', w'')" "cmpd_ok w'' cs ss D ns" by blast
  have all: "\<exists>is cs' ss' is'. cmpd_open_input cs ss x = Inr (is, cs', ss') \<and>
      frt_is_read_bytes (CMPD_IN_STREAM_METHODS (RAM_IN_STREAM_METHODS w'') (ss_stream ss')) is (length (D (snd x))) = Inr (D (snd x), is')"
    if "snd x \<in> set ns" for x
    using cmpd_open_input_ok [OF 2(2) that] cmpd_read_all by metis
  show ?thesis
    by (rule exI [of _ dlr'], rule exI [of _ store'], rule exI [of _ w'], intro conjI, rule 1(1), rule 1(4), simp add: 1(3) del: str_simps,
        rule exI [of _ cs], rule exI [of _ ss], rule exI [of _ store''], rule exI [of _ w''], intro conjI allI impI, rule 2(1),
        rule cmpd_count_ok [OF 2(2)])
      (use cmpd_exists_ok [OF 2(2)] cmpd_length_ok [OF 2(2)] cmpd_open_input_missing [OF 2(2)] all in blast)+
qed

theorem compound_segment_round_trip_witness:
  "\<exists>store w fis dlr' store' w' cs ss store'' w'' is cs' ss' is'.
     iw_commit_compound_file store fis (frt_si_new (str ''_0'') 3) None w = Inr (dlr', store', w') \<and>
     frt_open_cmpd_store store' (0, str ''_0.cfs'') w' = Inr (cs, ss, store'', w'') \<and> cmpd_count cs = 7 \<and>
     cmpd_open_input cs ss (5, str ''_0.fdt'') = Inr (is, cs', ss') \<and>
     frt_is_read_bytes (CMPD_IN_STREAM_METHODS (RAM_IN_STREAM_METHODS w'') (ss_stream ss')) is 8 = Inr (str ''_0.fdt!!'', is')"
proof -
  let ?si = "frt_si_new (str ''_0'') 3" and ?ns = "compound_files (frt_si_new (str ''_0'') 3) []" and ?D = "\<lambda>n. n @ str ''!!''"
  obtain fis where fis: "frt_fis_new 5 = Inr fis" using stored_indexed_fields(2) by blast
  have n: "norm_files fis ?si (fis_size fis) = Inr []"
    using fis by (auto simp: frt_fis_new_def frt_fis_init_def ebind_eq_Inr)
  have d: "distinct ?ns" and l: "length ?ns = 7" and s: "\<forall>n \<in> set ?ns. length n = 6" and f: "str ''_0.fdt'' \<in> set ?ns" and c: "str ''_0.cfs'' \<notin> set ?ns"
    by (simp_all add: compound_files_def COMPOUND_EXTENSIONS_def frt_si_new_def)
  obtain store w where 1: "ram_ok store w" "h_size (dir_ht store) \<le> 7" "ram_dir store w = (\<lambda>n. if n \<in> set ?ns then Some (?D n) else None)"
    using store_with_files [OF d, of ?D] l by auto
  have cfs: "si_name ?si @ str ''.cfs'' = str ''_0.cfs''" by (simp add: frt_si_new_def)
  have small: "h_size (dir_ht store) < 2 ^ 28" using 1(2) by simp
  have nm: "length (si_name ?si) + 5 \<le> FRT_SEGMENT_NAME_MAX_LENGTH" by (simp add: frt_si_new_def FRT_SEGMENT_NAME_MAX_LENGTH_def)
  have new: "ram_dir store w (si_name ?si @ str ''.cfs'') = None" unfolding cfs 1(3) using c by (simp del: str_simps)
  have len: "length ?ns < 2 ^ 28" using l by simp
  have D: "\<forall>n \<in> set ?ns. ram_dir store w n = Some (?D n) \<and> length n < 2 ^ 31" unfolding 1(3) using s by (simp del: str_simps)
  have size: "length (compound_bytes ?D ?ns) < 2 ^ 63"
    by (simp add: length_compound data_start_def dir_size_def compound_files_def COMPOUND_EXTENSIONS_def frt_si_new_def enc_string_def enc_v_small)
  have dlr: "dlr_ok None {} (length ?ns)" by (simp add: dlr_ok_def)
  from compound_segment_round_trip [OF 1(1) small nm n refl new d len D size dlr, unfolded cfs] obtain dlr' store' w' cs ss store'' w'' where
    2: "iw_commit_compound_file store fis ?si None w = Inr (dlr', store', w')"
      "frt_open_cmpd_store store' (0, str ''_0.cfs'') w' = Inr (cs, ss, store'', w'')" "cmpd_count cs = int (length ?ns)"
      "\<forall>x. snd x \<in> set ?ns \<longrightarrow> (\<exists>is cs' ss' is'. cmpd_open_input cs ss x = Inr (is, cs', ss') \<and>
        frt_is_read_bytes (CMPD_IN_STREAM_METHODS (RAM_IN_STREAM_METHODS w'') (ss_stream ss')) is (length (?D (snd x))) = Inr (?D (snd x), is'))"
    by (elim exE conjE) (rule that; assumption)
  have "snd (5 :: nat, str ''_0.fdt'') \<in> set ?ns" using f by (simp only: snd_conv)
  with 2(4) obtain i cs' ss' i' where
    3: "cmpd_open_input cs ss (5, str ''_0.fdt'') = Inr (i, cs', ss')"
      "frt_is_read_bytes (CMPD_IN_STREAM_METHODS (RAM_IN_STREAM_METHODS w'') (ss_stream ss')) i (length (?D (snd (5 :: nat, str ''_0.fdt'')))) =
        Inr (?D (snd (5 :: nat, str ''_0.fdt'')), i')" by blast
  have e: "?D (snd (5 :: nat, str ''_0.fdt'')) = str ''_0.fdt!!''" "length (str ''_0.fdt!!'') = 8" by simp_all
  have "cmpd_count cs = 7" unfolding 2(3) l by simp
  then show ?thesis using 2(1,2) 3(1) 3(2) [unfolded e] by (intro exI conjI)
qed

text \<open>An empty store has room for a dictionary, and examples of dictionaries are checked by evaluation.\<close>

lemma empty_store:
  "ram_ok frt_open_ram_store empty_heap" "h_size (dir_ht frt_open_ram_store) + 2 < 2 ^ 28"
  "length (str ''_0'') + 5 \<le> FRT_SEGMENT_NAME_MAX_LENGTH" "\<forall>n \<in> dict_files (str ''_0''). ram_dir frt_open_ram_store empty_heap n = None"
  using ram_open_ok [OF heap_ok_empty] by (simp_all add: frt_open_ram_store_def frt_h_new_str_def FRT_SEGMENT_NAME_MAX_LENGTH_def)

lemmas dict_example = dict_ok_def terms_ok_def dict_entry_ok_def info_ok_def follows_def frt_ti_set_def FRT_MAX_WORD_SIZE_def

text \<open>
  C6. The dictionary of a segment, written term by term with \<open>frt_tiw_add\<close>, is opened again by \<open>frt_sfi_open\<close> and
  \<open>frt_tir_open\<close>, and any sequence of lookups of a thread, in any fields, is answered as by the lists of terms it was
  written from: the number of documents and the pointers of a term that is there (the skip offset when there are enough documents
  to skip), nothing for one that is not. No other file of the store changes.
\<close>

theorem term_dictionary_round_trip:
  assumes S: "ram_ok store w" and small: "h_size (dir_ht store) + 2 < 2 ^ 28" and sgm: "length sgm + 5 \<le> FRT_SEGMENT_NAME_MAX_LENGTH"
    and new: "\<forall>n \<in> dict_files sgm. ram_dir store w n = None" and fs: "dict_ok fs"
    and I: "0 < I" "I < 2 ^ 31" and sk: "0 \<le> sk" "sk < 2 ^ 31"
  shows "\<exists>store1 w1 tir sfi store2 w2. write_dictionary store sgm (int I) sk fs w = Inr (store1, w1) \<and>
    (\<forall>n. n \<notin> dict_files sgm \<longrightarrow> ram_dir store1 w1 n = ram_dir store w n) \<and>
    read_dictionary store1 sgm w1 = Inr (tir, sfi, store2, w2) \<and>
    (\<forall>thread qs. (\<forall>q \<in> set qs. 0 \<le> fst q \<and> fst q < 2 ^ 31) \<longrightarrow>
      (\<exists>rs. tir_lookups (RAM_IN_STREAM_METHODS w2) tir sfi (map (Pair thread) qs) = Inr rs \<and>
        list_all2 (\<lambda>r q. answers sk r (map_of (dict_terms fs (fst q)) (snd q))) rs qs))"
proof -
  from dictionary_written [OF S small sgm new fs I sk] obtain store1 w1 tir sfi store2 w2 where
    1: "write_dictionary store sgm (int I) sk fs w = Inr (store1, w1)" "\<forall>n. n \<notin> dict_files sgm \<longrightarrow> ram_dir store1 w1 n = ram_dir store w n"
      "read_dictionary store1 sgm w1 = Inr (tir, sfi, store2, w2)"
      "ram_in.tir_ok w2 (is_bytes sk (place I sk 0 0 fs)) (ix_bytes I sk (place I sk 0 0 fs)) sk I (map field_of (place I sk 0 0 fs)) tir sfi"
      "tir_field_num tir = - 1" "tir_te tir = (\<lambda>_. None)" by (elim exE conjE) (rule that; assumption)
  have "\<forall>thread qs. (\<forall>q \<in> set qs. 0 \<le> fst q \<and> fst q < 2 ^ 31) \<longrightarrow>
      (\<exists>rs. tir_lookups (RAM_IN_STREAM_METHODS w2) tir sfi (map (Pair thread) qs) = Inr rs \<and>
        list_all2 (\<lambda>r q. answers sk r (map_of (dict_terms fs (fst q)) (snd q))) rs qs)"
  proof (intro allI impI)
    fix thread :: nat and qs :: "(int \<times> byte list) list"
    assume "\<forall>q \<in> set qs. 0 \<le> fst q \<and> fst q < 2 ^ 31"
    then have "\<forall>q \<in> set qs. field_num_ok (fst q)" by (force simp: field_num_ok_def)
    with ram_in.tir_lookups_ok [OF 1(4) _ this, of thread] 1(5,6)
    show "\<exists>rs. tir_lookups (RAM_IN_STREAM_METHODS w2) tir sfi (map (Pair thread) qs) = Inr rs \<and>
        list_all2 (\<lambda>r q. answers sk r (map_of (dict_terms fs (fst q)) (snd q))) rs qs"
      by (simp add: terms_of_place thread_on_def)
  qed
  with 1(1-3) show ?thesis by (intro exI conjI) assumption+
qed

theorem term_dictionary_round_trip_witness:
  "\<exists>store1 w1 tir sfi store2 w2 r s.
     write_dictionary frt_open_ram_store (str ''_0'') 2 16 [(0, [([97], frt_ti_set 3 0 0 0), ([98], frt_ti_set 20 9 4 7)]), (2, [([98], frt_ti_set 1 30 8 0)])]
       empty_heap = Inr (store1, w1) \<and>
     read_dictionary store1 (str ''_0'') w1 = Inr (tir, sfi, store2, w2) \<and>
     tir_lookups (RAM_IN_STREAM_METHODS w2) tir sfi [(0, 2, [98]), (0, 0, [98]), (0, 2, [97])] = Inr [Some r, Some s, None] \<and>
     ti_frq_ptr r = 30 \<and> ti_skip_offset s = 7"
proof -
  let ?fs = "[(0 :: int, [([97 :: byte], frt_ti_set 3 0 0 0), ([98], frt_ti_set 20 9 4 7)]), (2, [([98], frt_ti_set 1 30 8 0)])]"
  let ?qs = "[(2 :: int, [98 :: byte]), (0, [98]), (2, [97])]"
  have fs: "dict_ok ?fs" by (simp add: dict_example)
  have n: "(0 :: nat) < 2" "(2 :: nat) < 2 ^ 31" "(0 :: int) \<le> 16" "(16 :: int) < 2 ^ 31" by simp_all
  from term_dictionary_round_trip [OF empty_store fs n] obtain store1 w1 tir sfi store2 w2 where
    1: "write_dictionary frt_open_ram_store (str ''_0'') (int 2) 16 ?fs empty_heap = Inr (store1, w1)"
      "read_dictionary store1 (str ''_0'') w1 = Inr (tir, sfi, store2, w2)"
      "\<forall>thread qs. (\<forall>q \<in> set qs. 0 \<le> fst q \<and> fst q < 2 ^ 31) \<longrightarrow>
      (\<exists>rs. tir_lookups (RAM_IN_STREAM_METHODS w2) tir sfi (map (Pair thread) qs) = Inr rs \<and>
        list_all2 (\<lambda>r q. answers 16 r (map_of (dict_terms ?fs (fst q)) (snd q))) rs qs)" by (elim exE conjE) (rule that; assumption)
  have "\<forall>q \<in> set ?qs. 0 \<le> fst q \<and> fst q < 2 ^ 31" by simp
  with 1(3) obtain rs where 2: "tir_lookups (RAM_IN_STREAM_METHODS w2) tir sfi (map (Pair 0) ?qs) = Inr rs"
    "list_all2 (\<lambda>r q. answers 16 r (map_of (dict_terms ?fs (fst q)) (snd q))) rs ?qs" by meson
  from 2(2) obtain r s where rs: "rs = [Some r, Some s, None]" "ti_frq_ptr r = 30" "ti_skip_offset s = 7"
    by (auto simp: list_all2_Cons2 answers_def dict_terms_def same_info_def frt_ti_set_def option_rel_Some2)
  have "int 2 = 2" by simp
  with 1(1,2) 2(1) rs show ?thesis by (intro exI conjI) (assumption | simp)+
qed

text \<open>
  C7. Choosing a field with \<open>frt_tir_set_field\<close> and asking for a position with \<open>frt_tir_get_term\<close>, any number of times, gives
  the terms in the order in which they were written, and nothing for a position outside the field, whichever way through the
  index the enumeration takes.
\<close>

theorem term_dictionary_positions:
  assumes S: "ram_ok store w" and small: "h_size (dir_ht store) + 2 < 2 ^ 28" and sgm: "length sgm + 5 \<le> FRT_SEGMENT_NAME_MAX_LENGTH"
    and new: "\<forall>n \<in> dict_files sgm. ram_dir store w n = None" and fs: "dict_ok fs"
    and I: "0 < I" "I < 2 ^ 31" and sk: "0 \<le> sk" "sk < 2 ^ 31"
  shows "\<exists>store1 w1 tir sfi store2 w2. write_dictionary store sgm (int I) sk fs w = Inr (store1, w1) \<and>
    read_dictionary store1 sgm w1 = Inr (tir, sfi, store2, w2) \<and>
    (\<forall>thread qs. (\<forall>q \<in> set qs. 0 \<le> fst q \<and> fst q < 2 ^ 31) \<longrightarrow>
      tir_terms (RAM_IN_STREAM_METHODS w2) tir sfi thread qs = Inr (map (\<lambda>q. term_no (dict_terms fs (fst q)) (snd q)) qs))"
proof -
  from dictionary_written [OF S small sgm new fs I sk] obtain store1 w1 tir sfi store2 w2 where
    1: "write_dictionary store sgm (int I) sk fs w = Inr (store1, w1)" "read_dictionary store1 sgm w1 = Inr (tir, sfi, store2, w2)"
      "ram_in.tir_ok w2 (is_bytes sk (place I sk 0 0 fs)) (ix_bytes I sk (place I sk 0 0 fs)) sk I (map field_of (place I sk 0 0 fs)) tir sfi"
      "tir_field_num tir = - 1" "tir_te tir = (\<lambda>_. None)" by (elim exE conjE) (rule that; assumption)
  have "\<forall>thread qs. (\<forall>q \<in> set qs. 0 \<le> fst q \<and> fst q < 2 ^ 31) \<longrightarrow>
      tir_terms (RAM_IN_STREAM_METHODS w2) tir sfi thread qs = Inr (map (\<lambda>q. term_no (dict_terms fs (fst q)) (snd q)) qs)"
  proof (intro allI impI)
    fix thread :: nat and qs :: "(int \<times> int) list"
    assume "\<forall>q \<in> set qs. 0 \<le> fst q \<and> fst q < 2 ^ 31"
    then have "\<forall>q \<in> set qs. field_num_ok (fst q)" by (force simp: field_num_ok_def)
    with ram_in.tir_terms_ok [OF 1(3) _ this, of thread] 1(4,5)
    show "tir_terms (RAM_IN_STREAM_METHODS w2) tir sfi thread qs = Inr (map (\<lambda>q. term_no (dict_terms fs (fst q)) (snd q)) qs)"
      by (simp add: terms_of_place thread_on_def)
  qed
  with 1(1,2) show ?thesis by (intro exI conjI) assumption+
qed

theorem term_dictionary_positions_witness:
  "\<exists>store1 w1 tir sfi store2 w2.
     write_dictionary frt_open_ram_store (str ''_0'') 1 16 [(3, [([97], frt_ti_set 3 0 0 0), ([98], frt_ti_set 20 9 4 7), ([98, 99], frt_ti_set 1 30 8 0)])]
       empty_heap = Inr (store1, w1) \<and>
     read_dictionary store1 (str ''_0'') w1 = Inr (tir, sfi, store2, w2) \<and>
     tir_terms (RAM_IN_STREAM_METHODS w2) tir sfi 0 [(3, 2), (3, 0), (3, 3), (1, 0)] = Inr [Some [98, 99], Some [97], None, None]"
proof -
  let ?fs = "[(3 :: int, [([97 :: byte], frt_ti_set 3 0 0 0), ([98], frt_ti_set 20 9 4 7), ([98, 99], frt_ti_set 1 30 8 0)])]"
  let ?qs = "[(3, 2), (3, 0), (3, 3), (1, 0)] :: (int \<times> int) list"
  have fs: "dict_ok ?fs" by (simp add: dict_example)
  have n: "(0 :: nat) < 1" "(1 :: nat) < 2 ^ 31" "(0 :: int) \<le> 16" "(16 :: int) < 2 ^ 31" by simp_all
  from term_dictionary_positions [OF empty_store fs n] obtain store1 w1 tir sfi store2 w2 where
    1: "write_dictionary frt_open_ram_store (str ''_0'') (int 1) 16 ?fs empty_heap = Inr (store1, w1)"
      "read_dictionary store1 (str ''_0'') w1 = Inr (tir, sfi, store2, w2)"
      "\<forall>thread qs. (\<forall>q \<in> set qs. 0 \<le> fst q \<and> fst q < 2 ^ 31) \<longrightarrow>
      tir_terms (RAM_IN_STREAM_METHODS w2) tir sfi thread qs = Inr (map (\<lambda>q. term_no (dict_terms ?fs (fst q)) (snd q)) qs)"
    by (elim exE conjE) (rule that; assumption)
  have "\<forall>q \<in> set ?qs. 0 \<le> fst q \<and> fst q < 2 ^ 31" by simp
  with 1(3) have 2: "tir_terms (RAM_IN_STREAM_METHODS w2) tir sfi 0 ?qs = Inr (map (\<lambda>q. term_no (dict_terms ?fs (fst q)) (snd q)) ?qs)" by blast
  have e: "map (\<lambda>q. term_no (dict_terms ?fs (fst q)) (snd q)) ?qs = [Some [98, 99], Some [97], None, None]"
    by (simp add: term_no_def dict_terms_def)
  have "int 1 = 1" by simp
  with 1(1,2) 2 [unfolded e] show ?thesis by (intro exI conjI) (assumption | simp)+
qed

text \<open>
  C40. The reader remembers one field number for all threads and each thread has an enumeration of its own. After a thread
  has looked up a term in the field \<open>f\<close> and another one in the field \<open>g\<close>, the first thread, when it asks for a term of \<open>g\<close>, is
  answered from the field \<open>f\<close>.
\<close>

theorem term_lookup_of_other_thread:
  assumes S: "ram_ok store w" and small: "h_size (dir_ht store) + 2 < 2 ^ 28" and sgm: "length sgm + 5 \<le> FRT_SEGMENT_NAME_MAX_LENGTH"
    and new: "\<forall>n \<in> dict_files sgm. ram_dir store w n = None" and fs: "dict_ok fs"
    and I: "0 < I" "I < 2 ^ 31" and sk: "0 \<le> sk" "sk < 2 ^ 31"
    and f: "0 \<le> f" "f < 2 ^ 31" and g: "0 \<le> g" "g < 2 ^ 31" and neq: "f \<noteq> g" "a \<noteq> b"
  shows "\<exists>store1 w1 tir sfi store2 w2 r1 r2 r3. write_dictionary store sgm (int I) sk fs w = Inr (store1, w1) \<and>
    read_dictionary store1 sgm w1 = Inr (tir, sfi, store2, w2) \<and>
    tir_lookups (RAM_IN_STREAM_METHODS w2) tir sfi [(a, f, t1), (b, g, t2), (a, g, t3)] = Inr [r1, r2, r3] \<and>
    answers sk r1 (map_of (dict_terms fs f) t1) \<and> answers sk r2 (map_of (dict_terms fs g) t2) \<and> answers sk r3 (map_of (dict_terms fs f) t3)"
proof -
  from dictionary_written [OF S small sgm new fs I sk] obtain store1 w1 tir sfi store2 w2 where
    1: "write_dictionary store sgm (int I) sk fs w = Inr (store1, w1)" "read_dictionary store1 sgm w1 = Inr (tir, sfi, store2, w2)"
      "ram_in.tir_ok w2 (is_bytes sk (place I sk 0 0 fs)) (ix_bytes I sk (place I sk 0 0 fs)) sk I (map field_of (place I sk 0 0 fs)) tir sfi"
      "tir_field_num tir = - 1" by (elim exE conjE) (rule that; assumption)
  have "field_num_ok f" "field_num_ok g" "f \<noteq> tir_field_num tir" using f g 1(4) by (simp_all add: field_num_ok_def)
  from ram_in.tir_lookup_other_thread [OF 1(3) this neq, unfolded terms_of_place, of t1 t2 t3] obtain r1 r2 r3 where
    2: "tir_lookups (RAM_IN_STREAM_METHODS w2) tir sfi [(a, f, t1), (b, g, t2), (a, g, t3)] = Inr [r1, r2, r3]"
      "answers sk r1 (map_of (dict_terms fs f) t1)" "answers sk r2 (map_of (dict_terms fs g) t2)" "answers sk r3 (map_of (dict_terms fs f) t3)"
    by (elim exE conjE) (rule that; assumption)
  from 1(1,2) 2 show ?thesis by (intro exI conjI) assumption+
qed

theorem term_lookup_of_other_thread_witness:
  "\<exists>store1 w1 tir sfi store2 w2 r1 r3.
     write_dictionary frt_open_ram_store (str ''_0'') 2 16 [(0, [([97], frt_ti_set 3 0 0 0), ([98], frt_ti_set 20 9 4 7)]), (2, [([98], frt_ti_set 1 30 8 0)])]
       empty_heap = Inr (store1, w1) \<and>
     read_dictionary store1 (str ''_0'') w1 = Inr (tir, sfi, store2, w2) \<and>
     tir_lookups (RAM_IN_STREAM_METHODS w2) tir sfi [(0, 0, [97]), (1, 2, [97]), (0, 2, [97])] = Inr [Some r1, None, Some r3] \<and>
     ti_doc_freq r3 = 3"
proof -
  let ?fs = "[(0 :: int, [([97 :: byte], frt_ti_set 3 0 0 0), ([98], frt_ti_set 20 9 4 7)]), (2, [([98], frt_ti_set 1 30 8 0)])]"
  have fs: "dict_ok ?fs" by (simp add: dict_example)
  have n: "(0 :: nat) < 2" "(2 :: nat) < 2 ^ 31" "(0 :: int) \<le> 16" "(16 :: int) < 2 ^ 31" "(0 :: int) \<le> 0" "(0 :: int) < 2 ^ 31"
    "(0 :: int) \<le> 2" "(2 :: int) < 2 ^ 31" "(0 :: int) \<noteq> 2" "(0 :: nat) \<noteq> 1" by simp_all
  from term_lookup_of_other_thread [OF empty_store fs n, of "[97]" "[97]" "[97]"] obtain store1 w1 tir sfi store2 w2 r1 r2 r3 where
    1: "write_dictionary frt_open_ram_store (str ''_0'') (int 2) 16 ?fs empty_heap = Inr (store1, w1)"
      "read_dictionary store1 (str ''_0'') w1 = Inr (tir, sfi, store2, w2)"
      "tir_lookups (RAM_IN_STREAM_METHODS w2) tir sfi [(0, 0, [97]), (1, 2, [97]), (0, 2, [97])] = Inr [r1, r2, r3]"
      "answers 16 r1 (map_of (dict_terms ?fs 0) [97])" "answers 16 r2 (map_of (dict_terms ?fs 2) [97])" "answers 16 r3 (map_of (dict_terms ?fs 0) [97])"
    by (elim exE conjE) (rule that; assumption)
  from 1(4-6) obtain s1 s3 where r: "r1 = Some s1" "r2 = None" "r3 = Some s3" "ti_doc_freq s3 = 3"
    by (auto simp: answers_def dict_terms_def same_info_def frt_ti_set_def option_rel_Some2)
  have "int 2 = 2" by simp
  with 1(1-3) r show ?thesis by (intro exI conjI) (assumption | simp)+
qed

end
